(* ===== verification/Prelude.thy ===== *)
theory Prelude
  imports Main "HOL-Library.Word" "HOL-Library.Signed_Division"
begin

text \<open>
  Shared vocabulary of the development: names for the C integer types, the
  control-flow combinator \<open>attempt\<close> for functions that return a status and
  update their argument in place, C division, big-endian and little-endian byte
  readings, and the generic word and list lemmas used by several components.
\<close>

unbundle bit_operations_syntax

subsection \<open>C integer types (LP64, as on the iOS targets of the project)\<close>

type_synonym u8 = "8 word"
type_synonym u16 = "16 word"
type_synonym u32 = "32 word"
type_synonym u64 = "64 word"

named_theorems attempt_simps
named_theorems byte_simps
named_theorems model_defs

subsection \<open>Status returns with an updated argument\<close>

text \<open>
  A C function of the form \<open>if (!f(&s, &out)) return 0; ...\<close> is modelled by a
  function returning \<open>(Some out, s')\<close> on success and \<open>(None, s')\<close> on failure, where
  \<open>s'\<close> is the state of the argument when the function returned (C code may leave it
  advanced on failure).  \<open>attempt\<close> is the early return.
\<close>

type_synonym ('a, 's) outcome = "'a option \<times> 's"

definition attempt :: "('a, 's) outcome \<Rightarrow> ('a \<Rightarrow> 's \<Rightarrow> ('b, 's) outcome) \<Rightarrow> ('b, 's) outcome" where
  "attempt r k = (case r of (None, s) \<Rightarrow> (None, s) | (Some x, s) \<Rightarrow> k x s)"

lemma attempt_None [simp, attempt_simps]: "attempt (None, s) k = (None, s)"
  by (simp add: attempt_def)

lemma attempt_Some [simp, attempt_simps]: "attempt (Some x, s) k = k x s"
  by (simp add: attempt_def)

lemma attempt_cong [fundef_cong]:
  assumes "r = r'"
    and "\<And>x s. r' = (Some x, s) \<Longrightarrow> k x s = k' x s"
  shows "attempt r k = attempt r' k'"
  using assms by (cases r') (auto simp: attempt_def split: option.splits)

lemma attempt_eq_Some:
  "attempt r k = (Some y, s') \<longleftrightarrow> (\<exists>x s. r = (Some x, s) \<and> k x s = (Some y, s'))"
  by (cases r) (auto simp: attempt_def split: option.splits)

lemma attempt_eq_None:
  "attempt r k = (None, s') \<longleftrightarrow>
     r = (None, s') \<or> (\<exists>x s. r = (Some x, s) \<and> k x s = (None, s'))"
  by (cases r) (auto simp: attempt_def split: option.splits)

lemma attempt_split:
  "P (attempt r k) \<longleftrightarrow>
     (\<forall>s. r = (None, s) \<longrightarrow> P (None, s)) \<and> (\<forall>x s. r = (Some x, s) \<longrightarrow> P (k x s))"
  by (cases r) (auto simp: attempt_def split: option.splits)

lemma attempt_assoc: "attempt (attempt r f) g = attempt r (\<lambda>x s. attempt (f x s) g)"
  by (cases r) (auto simp: attempt_def split: option.splits)

text \<open>A check that fails without changing the state: \<open>if (!b) return 0;\<close>.\<close>

definition require :: "bool \<Rightarrow> 's \<Rightarrow> (unit, 's) outcome" where
  "require b s = (if b then Some () else None, s)"

lemma require_True [simp, attempt_simps]: "require True s = (Some (), s)"
  by (simp add: require_def)

lemma require_False [simp, attempt_simps]: "require False s = (None, s)"
  by (simp add: require_def)

lemma require_eq_Some [simp]: "require b s = (Some u, s') \<longleftrightarrow> b \<and> s' = s"
  by (auto simp: require_def)

subsection \<open>C division on signed integers truncates\<close>

definition cdiv :: "int \<Rightarrow> int \<Rightarrow> int" where
  "cdiv a b = (if (a < 0) = (b < 0) then \<bar>a\<bar> div \<bar>b\<bar> else - (\<bar>a\<bar> div \<bar>b\<bar>))"

definition cmod :: "int \<Rightarrow> int \<Rightarrow> int" where
  "cmod a b = a - b * cdiv a b"

lemma cdiv_nonneg: "0 \<le> a \<Longrightarrow> 0 < b \<Longrightarrow> cdiv a b = a div b"
  by (simp add: cdiv_def)

lemma cdiv_neg: "a < 0 \<Longrightarrow> 0 < b \<Longrightarrow> cdiv a b = - ((- a) div b)"
  by (simp add: cdiv_def)

lemma cmod_nonneg: "0 \<le> a \<Longrightarrow> 0 < b \<Longrightarrow> cmod a b = a mod b"
  by (simp add: cmod_def cdiv_nonneg minus_mult_div_eq_mod)

lemma cmod_neg: "a < 0 \<Longrightarrow> 0 < b \<Longrightarrow> cmod a b = - ((- a) mod b)"
  by (simp add: cmod_def cdiv_neg minus_mult_div_eq_mod [symmetric])

subsection \<open>Words read as natural numbers\<close>

lemma unat_less_2p [simp]: "unat (w :: 'a::len word) < 2 ^ LENGTH('a)"
  by (rule unsigned_less)

lemma unat_u8_less [simp]: "unat (w :: u8) < 256"
  using unat_less_2p [of w] by simp

lemma unat_u64_less: "unat (w :: u64) < 2 ^ 64"
  using unat_less_2p [of w] by simp

lemma unat_of_nat_id: "n < 2 ^ LENGTH('a) \<Longrightarrow> unat (of_nat n :: 'a::len word) = n"
  by (simp add: unat_of_nat take_bit_nat_eq_self)

lemma unat_of_nat_u64: "n < 2 ^ 64 \<Longrightarrow> unat (of_nat n :: u64) = n"
  by (rule unat_of_nat_id) simp

lemma unat_drop_bit_div: "unat (drop_bit n (w :: 'a::len word)) = unat w div 2 ^ n"
  by (simp only: unat_drop_bit_eq drop_bit_nat_def)

lemma unat_sub_le: "b \<le> (a :: 'a::len word) \<Longrightarrow> unat (a - b) = unat a - unat b"
  by (simp add: unat_sub)

lemma word_eq_of_nat: "unat (a :: 'a::len word) = n \<Longrightarrow> a = of_nat n"
  by auto

lemma word_eq_by_unat: "unat (a :: 'a::len word) = unat b \<Longrightarrow> a = b"
  by (simp add: word_unat_eq_iff)

subsection \<open>Bit operations as arithmetic\<close>

lemma nat_or_push_bit:
  assumes "a < 2 ^ k"
  shows "(a :: nat) OR push_bit k b = a + 2 ^ k * b"
proof -
  have "take_bit k a = a" using assms by (simp add: take_bit_nat_eq_self)
  then have "\<not> bit a n" if "k \<le> n" for n
    using that by (metis bit_take_bit_iff linorder_not_less)
  then have "a AND push_bit k b = 0"
    by (auto simp: bit_eq_iff bit_simps)
  then show ?thesis
    by (simp add: disjunctive_add_eq_or [symmetric] push_bit_eq_mult ac_simps)
qed

lemma unat_push_bit:
  assumes "unat (w :: 'a::len word) * 2 ^ k < 2 ^ LENGTH('a)"
  shows "unat (push_bit k w) = unat w * 2 ^ k"
proof -
  have "unat (push_bit k w) = take_bit LENGTH('a) (push_bit k (unat w))"
    by (rule unsigned_push_bit_eq)
  also have "\<dots> = unat w * 2 ^ k"
    using assms by (simp only: push_bit_eq_mult take_bit_nat_eq_self)
  finally show ?thesis .
qed

lemma unat_or_push_bit:
  assumes "unat (a :: 'a::len word) < 2 ^ k" "unat b * 2 ^ k < 2 ^ LENGTH('a)"
  shows "unat (a OR push_bit k b) = unat a + 2 ^ k * unat b"
proof -
  have "unat (a OR push_bit k b) = unat a OR unat (push_bit k b)"
    by (rule unsigned_or_eq)
  also have "unat (push_bit k b) = push_bit k (unat b)"
    using unat_push_bit [OF assms(2)] by (simp only: push_bit_eq_mult)
  finally show ?thesis using assms(1) by (simp only: nat_or_push_bit)
qed

lemma unat_and_mask: "unat ((w :: 'a::len word) AND mask n) = unat w mod 2 ^ n"
  by (simp only: take_bit_eq_mask [symmetric] unsigned_take_bit_eq take_bit_nat_def)

lemma and_push_mask: "(x :: 'a::len word) AND push_bit k (mask n) = push_bit k (drop_bit k x AND mask n)"
  by (rule bit_word_eqI) (auto simp: bit_simps)

lemma unat_and_push_mask:
  assumes "k + n \<le> LENGTH('a)"
  shows "unat ((x :: 'a::len word) AND push_bit k (mask n)) = (unat x div 2 ^ k mod 2 ^ n) * 2 ^ k"
proof -
  have a: "unat (drop_bit k x AND mask n) = unat x div 2 ^ k mod 2 ^ n"
    by (simp only: unat_and_mask unat_drop_bit_div)
  have "(unat x div 2 ^ k mod 2 ^ n) * 2 ^ k < 2 ^ n * 2 ^ k" by simp
  also have "\<dots> \<le> 2 ^ LENGTH('a)" using assms
    by (simp add: power_add [symmetric] add.commute power_increasing)
  finally have "unat (drop_bit k x AND mask n) * 2 ^ k < 2 ^ LENGTH('a)" unfolding a .
  then have "unat (push_bit k (drop_bit k x AND mask n)) = unat (drop_bit k x AND mask n) * 2 ^ k"
    by (rule unat_push_bit)
  then show ?thesis unfolding and_push_mask a .
qed

lemma unat_ucast_mod: "unat (ucast (w :: 'a::len word) :: 'b::len word) = unat w mod 2 ^ LENGTH('b)"
  by (simp add: unsigned_ucast_eq take_bit_eq_mod)

lemma unat_ucast_up [simp]:
  "LENGTH('a) \<le> LENGTH('b) \<Longrightarrow> unat (ucast (w :: 'a::len word) :: 'b::len word) = unat w"
  using unat_less_2p [of w]
  by (simp add: unat_ucast_mod mod_less order_less_le_trans [OF unat_less_2p])

lemma unat_ucast_u8: "unat (ucast (b :: u8) :: u64) = unat b"
  by simp

lemma u8_and_7f [simp]: "unat (b AND 0x7F :: u8) = unat b mod 128"
  using unat_and_mask [of b 7] by (simp add: mask_eq_exp_minus_1)

lemma u64_and_7f [simp]: "unat (b AND 0x7F :: u64) = unat b mod 128"
  using unat_and_mask [of b 7] by (simp add: mask_eq_exp_minus_1)

lemma two_power_8: "(2 :: nat) ^ (k * 8) = 256 ^ k"
proof -
  have "(2 :: nat) ^ (k * 8) = 2 ^ (8 * k)" by (simp only: mult.commute)
  also have "\<dots> = (2 ^ 8) ^ k" by (rule power_mult)
  finally show ?thesis by simp
qed

lemma high_half_mod:
  assumes "128 \<le> n" "(n :: nat) < 256"
  shows "n mod 128 + 128 = n"
proof -
  have "n - 128 < 128" using assms by linarith
  then have "(n - 128) mod 128 = n - 128" by (rule mod_less)
  moreover have "n mod 128 = (n - 128) mod 128" using assms(1) by (rule le_mod_geq)
  ultimately show ?thesis using assms(1) by simp
qed

lemma half_byte:
  assumes "(n :: nat) < 256"
  shows "even (n div 128) \<longleftrightarrow> n < 128"
proof -
  have "n div 128 = (if n < 128 then 0 else 1)" using assms by (auto intro: div_nat_eqI)
  then show ?thesis by simp
qed

lemma u8_msb: "(b AND 0x80 :: u8) = 0 \<longleftrightarrow> unat b < 128"
proof -
  have "(b AND 0x80 = 0) = (\<not> bit b 7)"
    using and_exp_eq_0_iff_not_bit [of b 7] by simp
  also have "bit b 7 = bit (unat b) 7"
    by (simp add: bit_unsigned_iff)
  also have "(\<not> bit (unat b) 7) = even (unat b div 128)"
    by (simp add: bit_iff_odd)
  also have "\<dots> = (unat b < 128)"
    using half_byte [OF unat_u8_less] by simp
  finally show ?thesis .
qed

subsection \<open>Little-endian and big-endian byte strings\<close>

fun le_val :: "u8 list \<Rightarrow> nat" where
  "le_val [] = 0"
| "le_val (b # bs) = unat b + 256 * le_val bs"

fun le_bytes :: "nat \<Rightarrow> nat \<Rightarrow> u8 list" where
  "le_bytes 0 n = []"
| "le_bytes (Suc k) n = of_nat (n mod 256) # le_bytes k (n div 256)"

definition be_val :: "u8 list \<Rightarrow> nat" where
  "be_val bs = le_val (rev bs)"

definition be_bytes :: "nat \<Rightarrow> nat \<Rightarrow> u8 list" where
  "be_bytes k n = rev (le_bytes k n)"

lemma length_le_bytes [simp]: "length (le_bytes k n) = k"
  by (induction k arbitrary: n) auto

lemma length_be_bytes [simp]: "length (be_bytes k n) = k"
  by (simp add: be_bytes_def)

lemma unat_mod_byte [simp]: "unat (of_nat (n mod 256) :: u8) = n mod 256"
  by (rule unat_of_nat_id) simp

lemma le_val_le_bytes: "le_val (le_bytes k n) = n mod 256 ^ k"
proof (induction k arbitrary: n)
  case 0
  then show ?case by simp
next
  case (Suc k)
  have "n mod (256 * 256 ^ k) = 256 * (n div 256 mod 256 ^ k) + n mod 256"
    by (rule mod_mult2_eq)
  then show ?case using Suc by simp
qed

lemma le_bytes_le_val: "le_bytes (length bs) (le_val bs) = bs"
proof (induction bs)
  case Nil
  then show ?case by simp
next
  case (Cons b bs)
  have "(unat b + 256 * le_val bs) mod 256 = unat b" by (simp add: mod_less)
  moreover have "(unat b + 256 * le_val bs) div 256 = le_val bs" by simp
  ultimately show ?case using Cons by simp
qed

lemma le_val_append: "le_val (xs @ ys) = le_val xs + 256 ^ length xs * le_val ys"
  by (induction xs) (simp_all add: algebra_simps)

lemma le_val_less: "le_val bs < 256 ^ length bs"
proof (induction bs)
  case Nil
  then show ?case by simp
next
  case (Cons b bs)
  have "unat b + 256 * le_val bs < 256 * (le_val bs + 1)" by simp
  also have "\<dots> \<le> 256 * 256 ^ length bs" using Cons by (intro mult_le_mono2) simp
  finally show ?case by simp
qed

lemma be_val_Nil [simp]: "be_val [] = 0"
  by (simp add: be_val_def)

lemma be_val_Cons: "be_val (b # bs) = unat b * 256 ^ length bs + be_val bs"
  by (simp add: be_val_def le_val_append)

lemma be_val_snoc: "be_val (bs @ [b]) = 256 * be_val bs + unat b"
  by (simp add: be_val_def)

lemma be_val_less: "be_val bs < 256 ^ length bs"
  using le_val_less [of "rev bs"] by (simp add: be_val_def)

lemma be_val_be_bytes: "be_val (be_bytes k n) = n mod 256 ^ k"
  by (simp add: be_val_def be_bytes_def le_val_le_bytes)

lemma be_bytes_be_val: "be_bytes (length bs) (be_val bs) = bs"
  using le_bytes_le_val [of "rev bs"] by (simp add: be_val_def be_bytes_def rev_swap)

lemma be_bytes_Suc: "be_bytes (Suc k) n = be_bytes k (n div 256) @ [of_nat (n mod 256)]"
  by (simp add: be_bytes_def)

lemma be_bytes_0 [simp]: "be_bytes 0 n = []"
  by (simp add: be_bytes_def)

lemma be_bytes_eqI: "length bs = k \<Longrightarrow> be_val bs = n \<Longrightarrow> be_bytes k n = bs"
  using be_bytes_be_val [of bs] by simp

lemma be_val_append: "be_val (xs @ ys) = be_val xs * 256 ^ length ys + be_val ys"
  by (induction xs) (simp_all add: be_val_Cons algebra_simps power_add)

lemma be_val_zeros [simp]: "be_val (replicate k 0) = 0"
  by (induction k) (simp_all add: be_val_Cons)

text \<open>The byte at position \<open>k\<close> of a word.\<close>

lemma ucast_byte: "ucast (drop_bit (8 * k) (w :: 'a::len word)) = (of_nat (unat w div 256 ^ k mod 256) :: u8)"
proof (rule word_eq_by_unat)
  have "(2 :: nat) ^ (8 * k) = 256 ^ k" by (simp add: power_mult)
  then show "unat (ucast (drop_bit (8 * k) w) :: u8) = unat (of_nat (unat w div 256 ^ k mod 256) :: u8)"
    by (simp only: unat_ucast_mod unat_drop_bit_div unat_mod_byte) simp
qed

lemma ucast_and_ff: "8 \<le> LENGTH('a) \<Longrightarrow> (ucast (x AND 0xFF :: 'a::len word) :: u8) = ucast x"
proof -
  assume "8 \<le> LENGTH('a)"
  have "unat (x AND mask 8) = unat x mod 2 ^ 8" by (rule unat_and_mask)
  then have "unat (x AND 0xFF) = unat x mod 256" by (simp add: mask_eq_exp_minus_1)
  then show ?thesis by (intro word_eq_by_unat) (simp add: unat_ucast_mod)
qed

lemma le_bytes_alt: "le_bytes k n = map (\<lambda>i. of_nat (n div 256 ^ i mod 256)) [0..<k]"
proof (induction k arbitrary: n)
  case 0
  then show ?case by simp
next
  case (Suc k)
  have "[0..<Suc k] = 0 # map Suc [0..<k]" by (simp add: upt_conv_Cons map_Suc_upt)
  with Suc show ?case by (simp add: div_mult2_eq del: upt_Suc)
qed

lemma be_bytes_Cons: "be_bytes (Suc k) n = of_nat (n div 256 ^ k mod 256) # be_bytes k n"
  by (simp add: be_bytes_def le_bytes_alt)

lemma le_bytes_word: "le_bytes k (unat w) = map (\<lambda>i. ucast (drop_bit (8 * i) w)) [0..<k]"
  by (simp only: le_bytes_alt ucast_byte)

lemma unat_or_byte:
  assumes "unat (a :: 'a::len word) < 256 ^ k" "8 * (k + 1) \<le> LENGTH('a)"
  shows "unat (a OR push_bit (8 * k) (ucast (b :: u8))) = unat a + 256 ^ k * unat b
    \<and> unat (a OR push_bit (8 * k) (ucast b)) < 256 ^ (k + 1)"
proof -
  have p: "(2 :: nat) ^ (8 * k) = 256 ^ k" by (simp add: power_mult)
  have ub: "unat (ucast b :: 'a word) = unat b" using assms(2) by simp
  have "unat b * 256 ^ k < 256 ^ (k + 1)" by simp
  also have "(256 :: nat) ^ (k + 1) = 2 ^ (8 * (k + 1))" by (simp only: power_mult) simp
  also have "\<dots> \<le> 2 ^ LENGTH('a)" using assms(2) by (intro power_increasing) auto
  finally have lt: "unat (ucast b :: 'a word) * 2 ^ (8 * k) < 2 ^ LENGTH('a)"
    unfolding ub p .
  have "unat a < 2 ^ (8 * k)" unfolding p by (rule assms(1))
  from unat_or_push_bit [OF this lt]
  have eq: "unat (a OR push_bit (8 * k) (ucast b)) = unat a + 256 ^ k * unat b"
    unfolding ub p .
  have "unat b \<le> 255" using unat_u8_less [of b] by linarith
  then have "256 ^ k * unat b \<le> 256 ^ k * 255" by (rule mult_le_mono2)
  with eq assms(1) have "unat (a OR push_bit (8 * k) (ucast b)) < 256 ^ k * 256" by linarith
  with eq show ?thesis by (simp add: mult.commute)
qed

lemma u32_of_bytes:
  "unat (ucast b0 OR push_bit 8 (ucast b1) OR push_bit 16 (ucast b2) OR push_bit 24 (ucast b3) :: u32)
     = le_val [b0, b1, b2, b3]"
proof -
  have 0: "unat (ucast b0 :: u32) = unat b0 \<and> unat (ucast b0 :: u32) < 256 ^ 1" by simp
  note 1 = unat_or_byte [OF conjunct2 [OF 0], of b1, simplified]
  note 2 = unat_or_byte [of _ 2 b2, where 'a = 32, simplified, OF conjunct2 [OF 1]]
  note 3 = unat_or_byte [of _ 3 b3, where 'a = 32, simplified, OF conjunct2 [OF 2]]
  show ?thesis unfolding or.assoc [symmetric]
    using conjunct1 [OF 1] conjunct1 [OF 2] conjunct1 [OF 3] by simp
qed

lemma u64_of_bytes:
  "unat (ucast b0 OR push_bit 8 (ucast b1) OR push_bit 16 (ucast b2) OR push_bit 24 (ucast b3)
     OR push_bit 32 (ucast b4) OR push_bit 40 (ucast b5) OR push_bit 48 (ucast b6)
     OR push_bit 56 (ucast b7) :: u64)
     = le_val [b0, b1, b2, b3, b4, b5, b6, b7]"
proof -
  have 0: "unat (ucast b0 :: u64) = unat b0 \<and> unat (ucast b0 :: u64) < 256 ^ 1" by simp
  note 1 = unat_or_byte [OF conjunct2 [OF 0], of b1, simplified]
  note 2 = unat_or_byte [of _ 2 b2, where 'a = 64, simplified, OF conjunct2 [OF 1]]
  note 3 = unat_or_byte [of _ 3 b3, where 'a = 64, simplified, OF conjunct2 [OF 2]]
  note 4 = unat_or_byte [of _ 4 b4, where 'a = 64, simplified, OF conjunct2 [OF 3]]
  note 5 = unat_or_byte [of _ 5 b5, where 'a = 64, simplified, OF conjunct2 [OF 4]]
  note 6 = unat_or_byte [of _ 6 b6, where 'a = 64, simplified, OF conjunct2 [OF 5]]
  note 7 = unat_or_byte [of _ 7 b7, where 'a = 64, simplified, OF conjunct2 [OF 6]]
  show ?thesis unfolding or.assoc [symmetric]
    using conjunct1 [OF 1] conjunct1 [OF 2] conjunct1 [OF 3] conjunct1 [OF 4] conjunct1 [OF 5]
      conjunct1 [OF 6] conjunct1 [OF 7] by simp
qed

end
