(* ===== verification/Const_Time.thy ===== *)
theory Const_Time
  imports Prelude
begin

text \<open>
  The branch-free primitives of \<^verbatim>\<open>crypto/internal.h\<close> on 64-bit words (\<^verbatim>\<open>crypto_word_t\<close>): masks
  for comparisons, selection by a mask, the conditional copy and xor of memory, and
  \<^verbatim>\<open>CRYPTO_memcmp\<close> of \<^verbatim>\<open>crypto/mem.c\<close>.  \<^verbatim>\<open>value_barrier_w\<close> is the identity for the value it
  returns.  A C \<^verbatim>\<open>int\<close> is its 32-bit pattern.
\<close>

subsection \<open>The code\<close>

definition value_barrier_w :: "u64 \<Rightarrow> u64" where
  "value_barrier_w a = a"

definition constant_time_msb_w :: "u64 \<Rightarrow> u64" where
  "constant_time_msb_w a = 0 - drop_bit 63 a"

definition constant_time_lt_w :: "u64 \<Rightarrow> u64 \<Rightarrow> u64" where
  "constant_time_lt_w a b = constant_time_msb_w (a XOR ((a XOR b) OR ((a - b) XOR a)))"

definition constant_time_lt_8 :: "u64 \<Rightarrow> u64 \<Rightarrow> u8" where
  "constant_time_lt_8 a b = ucast (constant_time_lt_w a b)"

definition constant_time_ge_w :: "u64 \<Rightarrow> u64 \<Rightarrow> u64" where
  "constant_time_ge_w a b = NOT (constant_time_lt_w a b)"

definition constant_time_ge_8 :: "u64 \<Rightarrow> u64 \<Rightarrow> u8" where
  "constant_time_ge_8 a b = ucast (constant_time_ge_w a b)"

definition constant_time_is_zero_w :: "u64 \<Rightarrow> u64" where
  "constant_time_is_zero_w a = constant_time_msb_w (NOT a AND (a - 1))"

definition constant_time_is_zero_8 :: "u64 \<Rightarrow> u8" where
  "constant_time_is_zero_8 a = ucast (constant_time_is_zero_w a)"

definition constant_time_eq_w :: "u64 \<Rightarrow> u64 \<Rightarrow> u64" where
  "constant_time_eq_w a b = constant_time_is_zero_w (a XOR b)"

definition constant_time_eq_8 :: "u64 \<Rightarrow> u64 \<Rightarrow> u8" where
  "constant_time_eq_8 a b = ucast (constant_time_eq_w a b)"

definition constant_time_eq_int :: "u32 \<Rightarrow> u32 \<Rightarrow> u64" where
  "constant_time_eq_int a b = constant_time_eq_w (scast a) (scast b)"

definition constant_time_eq_int_8 :: "u32 \<Rightarrow> u32 \<Rightarrow> u8" where
  "constant_time_eq_int_8 a b = constant_time_eq_8 (scast a) (scast b)"

definition constant_time_select_w :: "u64 \<Rightarrow> u64 \<Rightarrow> u64 \<Rightarrow> u64" where
  "constant_time_select_w msk a b =
     (let msk = value_barrier_w msk in (msk AND a) OR (NOT msk AND b))"

definition constant_time_select_8 :: "u64 \<Rightarrow> u8 \<Rightarrow> u8 \<Rightarrow> u8" where
  "constant_time_select_8 msk a b =
     (let m = ucast (value_barrier_w msk) :: u8 in (m AND a) OR (NOT m AND b))"

definition constant_time_select_int :: "u64 \<Rightarrow> u32 \<Rightarrow> u32 \<Rightarrow> u32" where
  "constant_time_select_int msk a b = ucast (constant_time_select_w msk (scast a) (scast b))"

text \<open>The memory functions return the new contents of \<open>dst\<close>; both regions hold at least \<open>n\<close> bytes.\<close>

definition constant_time_conditional_memcpy :: "u8 list \<Rightarrow> u8 list \<Rightarrow> nat \<Rightarrow> u64 \<Rightarrow> u8 list" where
  "constant_time_conditional_memcpy dst src n msk =
     foldl (\<lambda>out i. out[i := constant_time_select_8 msk (src ! i) (out ! i)]) dst [0..<n]"

definition constant_time_conditional_memxor :: "u8 list \<Rightarrow> u8 list \<Rightarrow> nat \<Rightarrow> u64 \<Rightarrow> u8 list" where
  "constant_time_conditional_memxor dst src n msk =
     foldl (\<lambda>out i. out[i := ucast (ucast (out ! i) XOR (value_barrier_w msk AND ucast (src ! i)))])
       dst [0..<n]"

definition CRYPTO_memcmp :: "u8 list \<Rightarrow> u8 list \<Rightarrow> nat \<Rightarrow> u8" where
  "CRYPTO_memcmp a b len = foldl (\<lambda>x i. x OR (a ! i XOR b ! i)) 0 [0..<len]"

subsection \<open>Masks\<close>

definition word_mask :: "bool \<Rightarrow> 'a::len word" where
  "word_mask c = (if c then - 1 else 0)"

lemma word_mask_simps [simp]: "word_mask True = - 1" "word_mask False = 0"
  by (simp_all add: word_mask_def)

lemma not_word_mask [simp]: "NOT (word_mask c) = word_mask (\<not> c)"
  by (simp add: word_mask_def)

lemma ucast_word_mask [simp]: "(ucast (word_mask c :: u64) :: u8) = word_mask c"
  by (rule bit_word_eqI) (auto simp: word_mask_def bit_simps)

lemma xor_zero_iff: "a XOR b = 0 \<longleftrightarrow> a = (b :: 'a::len word)"
  by (auto simp: bit_eq_iff bit_simps)

lemma bit63_iff: "bit (w :: u64) 63 \<longleftrightarrow> 2 ^ 63 \<le> unat w"
proof -
  have "unat w < 2 ^ 64" by (rule unat_u64_less)
  then have "unat w div 2 ^ 63 = (if unat w < 2 ^ 63 then 0 else 1)"
    by (auto intro: div_nat_eqI)
  moreover have "bit w 63 = odd (unat w div 2 ^ 63)"
    unfolding bit_iff_odd [of "unat w", symmetric] by (simp add: bit_unsigned_iff)
  ultimately show ?thesis by simp
qed

lemma drop63: "drop_bit 63 (w :: u64) = (if bit w 63 then 1 else 0)"
proof (rule word_eq_by_unat)
  have "unat w < 2 ^ 64" by (rule unat_u64_less)
  then have "unat w div 2 ^ 63 = (if unat w < 2 ^ 63 then 0 else 1)"
    by (auto intro: div_nat_eqI)
  then show "unat (drop_bit 63 w) = unat (if bit w 63 then 1 else 0 :: u64)"
    by (simp only: unat_drop_bit_div bit63_iff) simp
qed

lemma msb_mask: "constant_time_msb_w a = word_mask (bit a 63)"
  by (simp add: constant_time_msb_w_def drop63 word_mask_def)

lemma bit63_minus:
  assumes "bit a 63 = bit b 63"
  shows "bit (a - b :: u64) 63 \<longleftrightarrow> a < b"
proof -
  have n: "unat (a - b) = (if b \<le> a then unat a - unat b else unat a + 2 ^ 64 - unat b)"
    using unat_sub_if_size [of a b] by (simp add: word_size word_le_nat_alt)
  have "unat a < 2 ^ 64" "unat b < 2 ^ 64" by (rule unat_u64_less)+
  then show ?thesis using assms
    unfolding bit63_iff n word_le_nat_alt word_less_nat_alt by (cases "unat b \<le> unat a") auto
qed

lemma lt_w_mask: "constant_time_lt_w a b = word_mask (a < b)"
proof -
  have "bit (a XOR ((a XOR b) OR ((a - b) XOR a))) 63 \<longleftrightarrow> a < b"
  proof (cases "bit a 63 = bit b 63")
    case True
    then show ?thesis using bit63_minus [OF True] by (simp add: bit_xor_iff bit_or_iff) blast
  next
    case False
    then have "bit b 63 \<longleftrightarrow> a < b"
      unfolding bit63_iff word_less_nat_alt by linarith
    then show ?thesis using False by (simp add: bit_xor_iff bit_or_iff)
  qed
  then show ?thesis by (simp add: constant_time_lt_w_def msb_mask)
qed

lemma is_zero_w_mask: "constant_time_is_zero_w a = word_mask (a = 0)"
proof -
  have "bit (NOT a AND (a - 1)) 63 \<longleftrightarrow> a = 0"
  proof (cases "a = 0")
    case True
    then show ?thesis by (simp add: bit_and_iff bit_not_iff)
  next
    case False
    then have "unat (a - 1) = unat a - 1" by (rule unat_minus_one)
    then have "bit (a - 1) 63 \<Longrightarrow> bit a 63" unfolding bit63_iff by linarith
    with False show ?thesis by (auto simp: bit_and_iff bit_not_iff)
  qed
  then show ?thesis by (simp add: constant_time_is_zero_w_def msb_mask)
qed

lemma eq_w_mask: "constant_time_eq_w a b = word_mask (a = b)"
  by (simp add: constant_time_eq_w_def is_zero_w_mask xor_zero_iff)

lemma scast_inj: "(scast (a :: u32) :: u64) = scast b \<longleftrightarrow> a = b"
proof
  assume e: "(scast a :: u64) = scast b"
  have "(ucast (scast w :: u64) :: u32) = w" for w :: u32
    by (rule bit_word_eqI) (simp add: bit_simps)
  with e show "a = b" by metis
qed simp

lemma ucast_scast_u32 [simp]: "(ucast (scast (w :: u32) :: u64) :: u32) = w"
  by (rule bit_word_eqI) (simp add: bit_simps)

lemma select_w_mask: "constant_time_select_w (word_mask c) a b = (if c then a else b)"
  by (simp add: constant_time_select_w_def value_barrier_w_def)

lemma select_8_mask: "constant_time_select_8 (word_mask c) a b = (if c then a else b)"
  by (simp add: constant_time_select_8_def value_barrier_w_def)

lemmas mask_simps = lt_w_mask is_zero_w_mask eq_w_mask select_w_mask select_8_mask

text \<open>A loop that writes position \<open>i\<close> from the old value there updates each position once.\<close>

lemma foldl_update_each:
  assumes "n \<le> length dst"
  shows "foldl (\<lambda>out i. out[i := f i (out ! i)]) dst [0..<n] = map (\<lambda>i. f i (dst ! i)) [0..<n] @ drop n dst"
  using assms
proof (induction n)
  case 0
  then show ?case by simp
next
  case (Suc n)
  let ?m = "map (\<lambda>i. f i (dst ! i)) [0..<n]"
  have d: "drop n dst = dst ! n # drop (Suc n) dst" using Suc.prems by (simp add: Cons_nth_drop_Suc)
  have "foldl (\<lambda>out i. out[i := f i (out ! i)]) dst [0..<Suc n] =
        (?m @ drop n dst)[n := f n ((?m @ drop n dst) ! n)]"
    using Suc by simp
  also have "\<dots> = ?m @ (f n (dst ! n) # drop (Suc n) dst)"
    unfolding d by (simp add: list_update_append nth_append)
  finally show ?case by simp
qed

lemma or_zero_iff: "a OR b = 0 \<longleftrightarrow> a = 0 \<and> b = (0 :: 'a::len word)"
  by (auto simp: bit_eq_iff bit_simps)

lemma memcmp_zero_iff: "CRYPTO_memcmp a b n = 0 \<longleftrightarrow> (\<forall>i < n. a ! i = b ! i)"
proof (induction n)
  case 0
  then show ?case by (simp add: CRYPTO_memcmp_def)
next
  case (Suc n)
  have "CRYPTO_memcmp a b (Suc n) = CRYPTO_memcmp a b n OR (a ! n XOR b ! n)"
    by (simp add: CRYPTO_memcmp_def)
  then show ?case using Suc by (auto simp: or_zero_iff xor_zero_iff less_Suc_eq)
qed

subsection \<open>Properties\<close>

text \<open>
  on all 64-bit words the comparison primitives return the all-ones word when the relation
  holds and 0 otherwise, and selecting by their result is a conditional: the branch-free code
  computes what the branching code would.
\<close>
theorem constant_time_comparisons:
  "constant_time_lt_w a b = (if a < b then - 1 else 0)
   \<and> constant_time_ge_w a b = (if b \<le> a then - 1 else 0)
   \<and> constant_time_is_zero_w a = (if a = 0 then - 1 else 0)
   \<and> constant_time_eq_w a b = (if a = b then - 1 else 0)
   \<and> constant_time_eq_int i j = (if i = j then - 1 else 0)
   \<and> constant_time_lt_8 a b = (if a < b then 0xFF else 0)
   \<and> constant_time_ge_8 a b = (if b \<le> a then 0xFF else 0)
   \<and> constant_time_is_zero_8 a = (if a = 0 then 0xFF else 0)
   \<and> constant_time_eq_8 a b = (if a = b then 0xFF else 0)
   \<and> constant_time_eq_int_8 i j = (if i = j then 0xFF else 0)
   \<and> constant_time_select_w (constant_time_lt_w a b) x y = (if a < b then x else y)
   \<and> constant_time_select_8 (constant_time_eq_w a b) p q = (if a = b then p else q)
   \<and> constant_time_select_int (constant_time_eq_int i j) i k = (if i = j then i else k)"
  unfolding constant_time_ge_w_def constant_time_eq_int_def constant_time_lt_8_def
    constant_time_ge_8_def constant_time_is_zero_8_def constant_time_eq_8_def
    constant_time_eq_int_8_def constant_time_select_int_def mask_simps scast_inj
    not_word_mask ucast_word_mask not_less
  by (simp add: word_mask_def)

text \<open>
  with a comparison mask, the conditional copy copies \<open>n\<close> bytes or leaves the destination, the
  conditional xor xors them or leaves it, bytes after the first \<open>n\<close> are kept, and
  \<^verbatim>\<open>CRYPTO_memcmp\<close> returns 0 exactly when the first \<open>n\<close> bytes agree.
\<close>
theorem constant_time_memory:
  assumes "n \<le> length dst" "n \<le> length src"
  shows "constant_time_conditional_memcpy dst src n (constant_time_eq_w a b) =
           (if a = b then take n src else take n dst) @ drop n dst
    \<and> constant_time_conditional_memxor dst src n (constant_time_eq_w a b) =
           (if a = b then map2 (XOR) (take n dst) (take n src) else take n dst) @ drop n dst
    \<and> (CRYPTO_memcmp dst src n = 0 \<longleftrightarrow> take n dst = take n src)"
proof (intro conjI)
  have t: "map (\<lambda>i. xs ! i) [0..<n] = take n xs" if "n \<le> length xs" for xs :: "u8 list"
    using that by (intro nth_equalityI) auto
  show "constant_time_conditional_memcpy dst src n (constant_time_eq_w a b) =
      (if a = b then take n src else take n dst) @ drop n dst"
    unfolding constant_time_conditional_memcpy_def mask_simps
      foldl_update_each [OF assms(1), of "\<lambda>i y. if a = b then src ! i else y"]
    by (simp add: t assms)
  have x: "(ucast (ucast d XOR (value_barrier_w (word_mask c) AND ucast s)) :: u8)
      = (if c then d XOR s else d)" for d s :: u8 and c
    by (rule bit_word_eqI) (auto simp: value_barrier_w_def bit_simps)
  have z: "map (\<lambda>i. dst ! i XOR src ! i) [0..<n] = map2 (XOR) (take n dst) (take n src)"
    using assms by (intro nth_equalityI) auto
  show "constant_time_conditional_memxor dst src n (constant_time_eq_w a b) =
      (if a = b then map2 (XOR) (take n dst) (take n src) else take n dst) @ drop n dst"
    unfolding constant_time_conditional_memxor_def mask_simps x
      foldl_update_each [OF assms(1), of "\<lambda>i y. if a = b then y XOR src ! i else y"]
    by (simp add: t assms z)
  show "CRYPTO_memcmp dst src n = 0 \<longleftrightarrow> take n dst = take n src"
    unfolding memcmp_zero_iff using assms by (auto simp: list_eq_iff_nth_eq)
qed

theorem constant_time_memory_witness:
  "constant_time_conditional_memcpy [1, 2, 3] [7, 8] 2 (constant_time_eq_w 5 5) = [7, 8, 3]
   \<and> CRYPTO_memcmp [1, 2, 3] [7, 8] 2 \<noteq> 0"
  using constant_time_memory [of 2 "[1, 2, 3]" "[7, 8]" 5 5] by simp

end
