(* ===== verification/Bn_Words.thy ===== *)
theory Bn_Words
  imports Const_Time
begin

text \<open>
  Multi-precision arithmetic on little-endian arrays of 64-bit words (limbs): the word functions of
  \<^verbatim>\<open>crypto/fipsmodule/bn\<close> (generic.c, the word functions of bn.c, cmp.c, div.c, mul.c and shift.c) and
  the additions with carry of \<^verbatim>\<open>crypto/internal.h\<close>, as built here (\<^verbatim>\<open>OPENSSL_NO_ASM\<close>, 64-bit words with
  a 128-bit type).  A function that writes \<open>r[0..num)\<close> returns the words it writes; an array of which
  the C code reads the first \<open>num\<close> words is a list of at least that length.  The functions read
  position \<open>i\<close> before they write position \<open>i\<close> and never read behind it, so that an output which is one
  of the inputs receives the same words.
\<close>

type_synonym u128 = "128 word"

subsection \<open>The value of an array of limbs\<close>

definition limb_base :: nat where
  "limb_base = 2 ^ 64"

fun bn_val :: "u64 list \<Rightarrow> nat" where
  "bn_val [] = 0"
| "bn_val (w # ws) = unat w + limb_base * bn_val ws"

lemma limb_base_pos [simp]: "0 < limb_base" "limb_base \<noteq> 0" "1 < limb_base" "Suc 0 < limb_base" "Suc 0 \<le> limb_base"
  by (simp_all add: limb_base_def)

lemma unat_limb [simp]: "unat (w :: u64) < limb_base"
  unfolding limb_base_def by (rule unat_u64_less)

lemma unat_limb_le: "unat (w :: u64) \<le> limb_base - 1"
  using unat_limb [of w] by linarith

lemma limb_base_power: "limb_base ^ n = 2 ^ (64 * n)"
  unfolding limb_base_def by (simp only: power_mult)

lemma limb_base_power_pos [simp]: "0 < limb_base ^ n"
  by simp

lemma bn_val_append: "bn_val (xs @ ys) = bn_val xs + limb_base ^ length xs * bn_val ys"
  by (induction xs) (simp_all add: algebra_simps)

lemma bn_val_zeros [simp]: "bn_val (replicate n 0) = 0"
  by (induction n) simp_all

lemma bn_val_less: "bn_val ws < limb_base ^ length ws"
proof (induction ws)
  case Nil
  then show ?case by simp
next
  case (Cons w ws)
  have "unat w + limb_base * bn_val ws < limb_base * (bn_val ws + 1)"
    using unat_limb [of w] by (simp add: algebra_simps)
  also have "\<dots> \<le> limb_base * limb_base ^ length ws"
    using Cons by (intro mult_le_mono2) simp
  finally show ?case by simp
qed

lemma bn_val_less_width: "length ws = n \<Longrightarrow> bn_val ws < limb_base ^ n"
  using bn_val_less by blast

lemma bn_val_eq_0_iff: "bn_val ws = 0 \<longleftrightarrow> (\<forall>w \<in> set ws. w = 0)"
  by (induction ws) (auto simp: unat_eq_0)

lemma bn_val_inject: "length xs = length ys \<Longrightarrow> bn_val xs = bn_val ys \<longleftrightarrow> xs = ys"
proof (induction xs ys rule: list_induct2)
  case Nil
  then show ?case by simp
next
  case (Cons x xs y ys)
  have "unat x = unat y \<and> bn_val xs = bn_val ys"
    if e: "unat x + limb_base * bn_val xs = unat y + limb_base * bn_val ys"
  proof -
    from arg_cong [OF e, of "\<lambda>n. n mod limb_base"] have "unat x = unat y" by simp
    with e show ?thesis by simp
  qed
  with Cons.IH show ?case by (auto simp: word_unat_eq_iff)
qed

lemma bn_val_take_drop: "n \<le> length ws \<Longrightarrow> bn_val ws = bn_val (take n ws) + limb_base ^ n * bn_val (drop n ws)"
  using bn_val_append [of "take n ws" "drop n ws"] by simp

lemma bn_val_take: "n \<le> length ws \<Longrightarrow> bn_val (take n ws) = bn_val ws mod limb_base ^ n"
  using bn_val_take_drop [of n ws] bn_val_less [of "take n ws"] by simp

lemma bn_val_drop: "n \<le> length ws \<Longrightarrow> bn_val (drop n ws) = bn_val ws div limb_base ^ n"
  using bn_val_take_drop [of n ws] bn_val_less [of "take n ws"] by simp

lemma bn_val_hd: "ws \<noteq> [] \<Longrightarrow> unat (hd ws) = bn_val ws mod limb_base"
  by (cases ws) simp_all

lemma bn_val_snoc: "bn_val (ws @ [w]) = bn_val ws + limb_base ^ length ws * unat w"
  by (simp add: bn_val_append)

subsection \<open>128-bit intermediate values\<close>

definition Lw :: "u128 \<Rightarrow> u64" where
  "Lw t = ucast t"

definition Hw :: "u128 \<Rightarrow> u64" where
  "Hw t = ucast (drop_bit 64 t)"

lemma unat_Lw: "unat (Lw t) = unat t mod limb_base"
  by (simp add: Lw_def unat_ucast_mod limb_base_def)

lemma unat_Hw: "unat (Hw t) = unat t div limb_base"
proof -
  have "unat t div 2 ^ 64 < 2 ^ 64"
    using unat_less_2p [of t] by (simp add: div_less_iff_less_mult)
  then show ?thesis
    unfolding Hw_def unat_ucast_mod unat_drop_bit_div limb_base_def by simp
qed

lemma Lw_Hw: "unat (Lw t) + limb_base * unat (Hw t) = unat t"
  by (simp add: unat_Lw unat_Hw)

lemma mult_limbs: "unat (a :: u64) * unat (b :: u64) \<le> (limb_base - 1) * (limb_base - 1)"
  by (intro mult_le_mono unat_limb_le)

lemma limb_base_square: "(limb_base - 1) * (limb_base - 1) + 2 * (limb_base - 1) = limb_base ^ 2 - 1"
  by (simp add: limb_base_def)

lemma limb_base_128: "limb_base ^ 2 = 2 ^ LENGTH(128)"
  by (simp add: limb_base_def)

lemma unat_u128_add:
  "unat x + unat y < limb_base ^ 2 \<Longrightarrow> unat (x + y :: u128) = unat x + unat y"
  unfolding limb_base_128 by (rule unat_add_lem [THEN iffD1])

lemma unat_u128_mult: "unat (ucast a * ucast b :: u128) = unat (a :: u64) * unat (b :: u64)"
proof -
  have "unat a * unat b < limb_base ^ 2"
    using mult_limbs [of a b] limb_base_square by (simp add: limb_base_def)
  then have "unat (ucast a :: u128) * unat (ucast b :: u128) < 2 ^ LENGTH(128)"
    unfolding limb_base_128 by simp
  from unat_mult_lem [THEN iffD1, OF this] show ?thesis by simp
qed

subsection \<open>Addition and subtraction with carry (crypto/internal.h)\<close>

definition CRYPTO_addc_w :: "u64 \<Rightarrow> u64 \<Rightarrow> u64 \<Rightarrow> u64 \<times> u64" where
  "CRYPTO_addc_w x y carry =
     (let ret = ucast carry :: u128; ret = ret + (ucast x + ucast y) in (ucast ret, ucast (drop_bit 64 ret)))"

definition CRYPTO_subc_w :: "u64 \<Rightarrow> u64 \<Rightarrow> u64 \<Rightarrow> u64 \<times> u64" where
  "CRYPTO_subc_w x y borrow =
     (x - y - borrow, of_bool (x < y) OR (of_bool (x = y) AND borrow))"

lemma CRYPTO_addc_w_sum:
  assumes "CRYPTO_addc_w x y c = (r, c')"
  shows "unat r + limb_base * unat c' = unat x + unat y + unat c" "unat c \<le> 1 \<Longrightarrow> unat c' \<le> 1"
proof -
  define t where "t = ucast c + (ucast x + ucast y :: u128)"
  have b: "unat x < limb_base" "unat y < limb_base" "unat c < limb_base" by simp_all
  have "unat x + unat y + unat c < limb_base ^ 2"
    using b by (simp add: limb_base_def)
  then have t: "unat t = unat x + unat y + unat c"
    unfolding t_def by (simp add: unat_u128_add)
  have rc: "r = Lw t" "c' = Hw t"
    using assms by (simp_all add: CRYPTO_addc_w_def Let_def t_def Lw_def Hw_def)
  show e: "unat r + limb_base * unat c' = unat x + unat y + unat c"
    using Lw_Hw [of t] by (simp add: rc t)
  assume "unat c \<le> 1"
  with e b have "limb_base * unat c' < limb_base * 2" by linarith
  then show "unat c' \<le> 1" by simp
qed

lemma CRYPTO_subc_w_diff:
  assumes "CRYPTO_subc_w x y c = (r, c')" and "unat c \<le> 1"
  shows "unat r + unat y + unat c = unat x + limb_base * unat c'" "unat c' \<le> 1"
proof -
  have c: "c = 0 \<or> c = 1"
    using assms(2) by (auto simp: word_unat_eq_iff)
  have c': "c' = (if x < y \<or> x = y \<and> c = 1 then 1 else 0)"
    using assms(1) c by (auto simp: CRYPTO_subc_w_def)
  then show "unat c' \<le> 1" by simp
  have m: "unat (a - b) = (if b \<le> a then unat a - unat b else unat a + limb_base - unat b)" for a b :: u64
    using unat_sub_if_size [of a b] by (simp add: word_size word_le_nat_alt limb_base_def)
  have b: "unat x < limb_base" "unat y < limb_base" by simp_all
  have r: "r = x - y - c" using assms(1) by (simp add: CRYPTO_subc_w_def)
  have xy: "x = y \<longleftrightarrow> unat x = unat y" by (simp add: word_unat_eq_iff)
  show "unat r + unat y + unat c = unat x + limb_base * unat c'"
  proof (cases "c = 0")
    case True
    with b less_imp_le [OF b(2)] show ?thesis
      by (cases "y \<le> x") (simp_all add: r c' m word_less_nat_alt word_le_nat_alt)
  next
    case False
    with c have one: "c = 1" by simp
    have u1: "unat (1 :: u64) = 1" by simp
    have "Suc 0 \<le> unat x + limb_base - unat y" using b by linarith
    with b less_imp_le [OF b(2)] show ?thesis
      by (cases "x = y"; cases "y \<le> x")
        (auto simp: one r c' m word_less_nat_alt word_le_nat_alt u1 xy)
  qed
qed

subsection \<open>Loops over limbs with a carry\<close>

text \<open>
  The loops of generic.c handle four limbs per iteration and then the rest one by one.  The locale is
  what the body has to do to one limb of each operand and the carry: the value computed is linear,
  with the carry counted positively or (a borrow) negatively.
\<close>

fun word_loop :: "(u64 \<Rightarrow> u64 \<Rightarrow> u64 \<Rightarrow> u64 \<times> u64) \<Rightarrow> u64 \<Rightarrow> u64 list \<Rightarrow> u64 list \<Rightarrow> nat \<Rightarrow> u64 list \<times> u64" where
  "word_loop f c a b 0 = ([], c)"
| "word_loop f c a b (Suc n) =
     (let (r0, c) = f (a ! 0) (b ! 0) c; (r, c) = word_loop f c (drop 1 a) (drop 1 b) n in (r0 # r, c))"

function word_quads :: "(u64 \<Rightarrow> u64 \<Rightarrow> u64 \<Rightarrow> u64 \<times> u64) \<Rightarrow> u64 \<Rightarrow> u64 list \<Rightarrow> u64 list \<Rightarrow> nat \<Rightarrow> u64 list \<times> u64" where
  "word_quads f c a b n =
     (if 4 \<le> n
      then let (r0, c) = f (a ! 0) (b ! 0) c;
               (r1, c) = f (a ! 1) (b ! 1) c;
               (r2, c) = f (a ! 2) (b ! 2) c;
               (r3, c) = f (a ! 3) (b ! 3) c;
               (r, c) = word_quads f c (drop 4 a) (drop 4 b) (n - 4)
           in (r0 # r1 # r2 # r3 # r, c)
      else word_loop f c a b n)"
  by pat_completeness auto
termination by (relation "measure (\<lambda>(f, c, a, b, n). n)") auto

declare word_quads.simps [simp del]

lemma word_loop_length: "word_loop f c a b n = (r, c') \<Longrightarrow> length r = n"
  by (induction n arbitrary: c a b r) (auto split: prod.splits)

lemma word_quads_eq: "n \<le> length a \<Longrightarrow> n \<le> length b \<Longrightarrow> word_quads f c a b n = word_loop f c a b n"
proof (induction n arbitrary: c a b rule: less_induct)
  case (less n)
  show ?case
  proof (cases "4 \<le> n")
    case True
    have n: "n = Suc (Suc (Suc (Suc (n - 4))))" using True by simp
    have "word_quads f c' (drop 4 a) (drop 4 b) (n - 4) = word_loop f c' (drop 4 a) (drop 4 b) (n - 4)" for c'
      using less True by simp
    moreover have "word_loop f c a b n = word_loop f c a b (Suc (Suc (Suc (Suc (n - 4)))))"
      using n by simp
    moreover have "drop (Suc 0) a ! 0 = a ! 1" "drop (Suc 0) b ! 0 = b ! 1"
      "drop (Suc (Suc 0)) a ! 0 = a ! 2" "drop (Suc (Suc 0)) b ! 0 = b ! 2"
      "drop (Suc (Suc (Suc 0))) a ! 0 = a ! 3" "drop (Suc (Suc (Suc 0))) b ! 0 = b ! 3"
      using True less.prems by (simp_all add: eval_nat_numeral)
    moreover have "drop (Suc (Suc (Suc (Suc 0)))) = (drop 4 :: u64 list \<Rightarrow> u64 list)"
      by (simp add: eval_nat_numeral)
    ultimately show ?thesis
      using True by (subst word_quads.simps) (simp split: prod.splits)
  next
    case False
    then show ?thesis by (simp add: word_quads.simps)
  qed
qed

locale limb_step =
  fixes f :: "u64 \<Rightarrow> u64 \<Rightarrow> u64 \<Rightarrow> u64 \<times> u64"
    and p q s :: int and good :: "u64 \<Rightarrow> bool"
  assumes step: "f x y c = (r, c') \<Longrightarrow> good c \<Longrightarrow>
      int (unat r) + s * int limb_base * int (unat c') = p * int (unat x) + q * int (unat y) + s * int (unat c)"
    and step_good: "f x y c = (r, c') \<Longrightarrow> good c \<Longrightarrow> good c'"
begin

lemma loop_value:
  assumes "word_loop f c a b n = (r, c')" "good c" "n \<le> length a" "n \<le> length b"
  shows "int (bn_val r) + s * int (limb_base ^ n) * int (unat c')
      = p * int (bn_val (take n a)) + q * int (bn_val (take n b)) + s * int (unat c) \<and> good c'"
  using assms
proof (induction n arbitrary: c a b r)
  case 0
  then show ?case by simp
next
  case (Suc n)
  from Suc.prems obtain x a' y b' where ab: "a = x # a'" "b = y # b'"
    by (cases a; cases b) auto
  obtain r0 c0 where 0: "f x y c = (r0, c0)" by (cases "f x y c")
  obtain r1 where 1: "word_loop f c0 a' b' n = (r1, c')" "r = r0 # r1"
    using Suc.prems(1) 0 by (auto simp: ab split: prod.splits)
  have IH: "int (bn_val r1) + s * int (limb_base ^ n) * int (unat c')
      = p * int (bn_val (take n a')) + q * int (bn_val (take n b')) + s * int (unat c0) \<and> good c'"
    using Suc.IH [OF 1(1)] Suc.prems step_good [OF 0] by (simp add: ab)
  have "int (bn_val r) + s * int (limb_base ^ Suc n) * int (unat c')
      = int (unat r0) + int limb_base * (int (bn_val r1) + s * int (limb_base ^ n) * int (unat c'))"
    by (simp add: 1(2) algebra_simps)
  also have "\<dots> = (int (unat r0) + s * int limb_base * int (unat c0))
      + int limb_base * (p * int (bn_val (take n a')) + q * int (bn_val (take n b')))"
    using IH by (simp add: algebra_simps)
  also have "\<dots> = p * int (bn_val (take (Suc n) a)) + q * int (bn_val (take (Suc n) b)) + s * int (unat c)"
    using step [OF 0 Suc.prems(2)] by (simp add: ab algebra_simps)
  finally show ?case using IH by simp
qed

lemma quads_value:
  assumes "word_quads f c a b n = (r, c')" "good c" "n \<le> length a" "n \<le> length b"
  shows "int (bn_val r) + s * int (limb_base ^ n) * int (unat c')
      = p * int (bn_val (take n a)) + q * int (bn_val (take n b)) + s * int (unat c)"
    and "good c'" and "length r = n"
  using loop_value [of c a b n r c'] word_loop_length [of f c a b n r c'] assms
  by (simp_all add: word_quads_eq)

end

subsection \<open>generic.c\<close>

definition bn_add_words :: "u64 list \<Rightarrow> u64 list \<Rightarrow> nat \<Rightarrow> u64 list \<times> u64" where
  "bn_add_words a b n = (if n = 0 then ([], 0) else word_quads CRYPTO_addc_w 0 a b n)"

definition bn_sub_words :: "u64 list \<Rightarrow> u64 list \<Rightarrow> nat \<Rightarrow> u64 list \<times> u64" where
  "bn_sub_words a b n = (if n = 0 then ([], 0) else word_quads CRYPTO_subc_w 0 a b n)"

text \<open>The macros \<^verbatim>\<open>mul_add\<close>, \<^verbatim>\<open>mul\<close> and \<^verbatim>\<open>sqr\<close>.\<close>

definition mul_add :: "u64 \<Rightarrow> u64 \<Rightarrow> u64 \<Rightarrow> u64 \<Rightarrow> u64 \<times> u64" where
  "mul_add r a w c = (let t = ucast w * ucast a + ucast r + ucast c :: u128 in (Lw t, Hw t))"

definition mul :: "u64 \<Rightarrow> u64 \<Rightarrow> u64 \<Rightarrow> u64 \<times> u64" where
  "mul a w c = (let t = ucast w * ucast a + ucast c :: u128 in (Lw t, Hw t))"

definition sqr :: "u64 \<Rightarrow> u64 \<times> u64" where
  "sqr a = (let t = ucast a * ucast a :: u128 in (Lw t, Hw t))"

definition bn_mul_add_words :: "u64 list \<Rightarrow> u64 list \<Rightarrow> nat \<Rightarrow> u64 \<Rightarrow> u64 list \<times> u64" where
  "bn_mul_add_words rp ap num w =
     (if num = 0 then ([], 0) else word_quads (\<lambda>r a c1. mul_add r a w c1) 0 rp ap num)"

definition bn_mul_words :: "u64 list \<Rightarrow> nat \<Rightarrow> u64 \<Rightarrow> u64 list \<times> u64" where
  "bn_mul_words ap num w = (if num = 0 then ([], 0) else word_quads (\<lambda>a _ c1. mul a w c1) 0 ap ap num)"

function bn_sqr_words :: "u64 list \<Rightarrow> nat \<Rightarrow> u64 list" where
  "bn_sqr_words a n =
     (if 4 \<le> n
      then let (r0, r1) = sqr (a ! 0); (r2, r3) = sqr (a ! 1); (r4, r5) = sqr (a ! 2); (r6, r7) = sqr (a ! 3)
           in [r0, r1, r2, r3, r4, r5, r6, r7] @ bn_sqr_words (drop 4 a) (n - 4)
      else if n \<noteq> 0 then let (r0, r1) = sqr (a ! 0) in [r0, r1] @ bn_sqr_words (drop 1 a) (n - 1)
      else [])"
  by pat_completeness auto
termination by (relation "measure (\<lambda>(a, n). n)") auto

declare bn_sqr_words.simps [simp del]

lemma mul_value: "mul a w c = (r, c') \<Longrightarrow> unat r + limb_base * unat c' = unat a * unat w + unat c"
proof -
  assume m: "mul a w c = (r, c')"
  define t where "t = (ucast w * ucast a + ucast c :: u128)"
  have b: "unat w * unat a + unat c < limb_base ^ 2"
    using mult_limbs [of w a] limb_base_square unat_limb_le [of c] by (simp add: limb_base_def)
  have t: "unat t = unat w * unat a + unat c"
    unfolding t_def using b by (subst unat_u128_add) (simp_all add: unat_u128_mult)
  have "r = Lw t" "c' = Hw t" using m by (simp_all add: mul_def Let_def t_def)
  then show ?thesis using Lw_Hw [of t] by (simp add: t mult.commute)
qed

lemma mul_add_value: "mul_add r0 a w c = (r, c') \<Longrightarrow> unat r + limb_base * unat c' = unat r0 + unat a * unat w + unat c"
proof -
  assume m: "mul_add r0 a w c = (r, c')"
  define t where "t = (ucast w * ucast a + ucast r0 + ucast c :: u128)"
  have b: "unat w * unat a + unat r0 + unat c < limb_base ^ 2"
    using mult_limbs [of w a] limb_base_square unat_limb_le [of c] unat_limb_le [of r0]
    by (simp add: limb_base_def)
  then have "unat (ucast w * ucast a + ucast r0 :: u128) = unat w * unat a + unat r0"
    by (subst unat_u128_add) (simp_all add: unat_u128_mult)
  with b have t: "unat t = unat w * unat a + unat r0 + unat c"
    unfolding t_def by (subst unat_u128_add) simp_all
  have "r = Lw t" "c' = Hw t" using m by (simp_all add: mul_add_def Let_def t_def)
  then show ?thesis using Lw_Hw [of t] by (simp add: t mult.commute)
qed

lemma sqr_value: "sqr a = (r0, r1) \<Longrightarrow> unat r0 + limb_base * unat r1 = unat a * unat a"
  using Lw_Hw [of "ucast a * ucast a"] by (auto simp: sqr_def Let_def unat_u128_mult)

interpretation addc: limb_step CRYPTO_addc_w 1 1 1 "\<lambda>c. unat c \<le> 1"
proof
  show "int (unat r) + 1 * int limb_base * int (unat c') = 1 * int (unat x) + 1 * int (unat y) + 1 * int (unat c)"
    if "CRYPTO_addc_w x y c = (r, c')" for x y c r c'
    using arg_cong [OF CRYPTO_addc_w_sum(1) [OF that], of int] by simp
qed (rule CRYPTO_addc_w_sum(2))

interpretation subc: limb_step CRYPTO_subc_w 1 "- 1" "- 1" "\<lambda>c. unat c \<le> 1"
proof
  show "int (unat r) + - 1 * int limb_base * int (unat c') = 1 * int (unat x) + - 1 * int (unat y) + - 1 * int (unat c)"
    if "CRYPTO_subc_w x y c = (r, c')" "unat c \<le> 1" for x y c r c'
    using arg_cong [OF CRYPTO_subc_w_diff(1) [OF that], of int] by simp
qed (rule CRYPTO_subc_w_diff(2))

interpretation mul_by: limb_step "\<lambda>a _ c1. mul a w c1" "int (unat w)" 0 1 "\<lambda>_. True" for w
proof
  show "int (unat r) + 1 * int limb_base * int (unat c') = int (unat w) * int (unat x) + 0 * int (unat y) + 1 * int (unat c)"
    if "mul x w c = (r, c')" for x y c r c'
    using arg_cong [OF mul_value [OF that], of int] by (simp add: mult.commute)
qed simp

interpretation mul_add_by: limb_step "\<lambda>r a c1. mul_add r a w c1" 1 "int (unat w)" 1 "\<lambda>_. True" for w
proof
  show "int (unat r) + 1 * int limb_base * int (unat c') = 1 * int (unat x) + int (unat w) * int (unat y) + 1 * int (unat c)"
    if "mul_add x y w c = (r, c')" for x y c r c'
    using arg_cong [OF mul_add_value [OF that], of int] by (simp add: mult.commute)
qed simp

lemma bn_add_words_value:
  assumes "bn_add_words a b n = (r, c)" "n \<le> length a" "n \<le> length b"
  shows "bn_val r + limb_base ^ n * unat c = bn_val (take n a) + bn_val (take n b)"
    and "unat c \<le> 1" and "length r = n"
proof -
  have q: "word_quads CRYPTO_addc_w 0 a b n = (r, c)"
    using assms by (auto simp: bn_add_words_def word_quads.simps split: if_splits)
  from addc.quads_value(1) [OF q _ assms(2,3)]
  have "int (bn_val r + limb_base ^ n * unat c) = int (bn_val (take n a) + bn_val (take n b))" by simp
  then show "bn_val r + limb_base ^ n * unat c = bn_val (take n a) + bn_val (take n b)"
    by (simp only: of_nat_eq_iff)
  show "unat c \<le> 1" "length r = n"
    using addc.quads_value(2,3) [OF q _ assms(2,3)] by simp_all
qed

lemma bn_sub_words_value:
  assumes "bn_sub_words a b n = (r, c)" "n \<le> length a" "n \<le> length b"
  shows "bn_val r + bn_val (take n b) = bn_val (take n a) + limb_base ^ n * unat c"
    and "unat c \<le> 1" and "length r = n"
proof -
  have q: "word_quads CRYPTO_subc_w 0 a b n = (r, c)"
    using assms by (auto simp: bn_sub_words_def word_quads.simps split: if_splits)
  from subc.quads_value(1) [OF q _ assms(2,3)]
  have "int (bn_val r + bn_val (take n b)) = int (bn_val (take n a) + limb_base ^ n * unat c)" by simp
  then show "bn_val r + bn_val (take n b) = bn_val (take n a) + limb_base ^ n * unat c"
    by (simp only: of_nat_eq_iff)
  show "unat c \<le> 1" "length r = n"
    using subc.quads_value(2,3) [OF q _ assms(2,3)] by simp_all
qed

lemma bn_mul_words_value:
  assumes "bn_mul_words a n w = (r, c)" "n \<le> length a"
  shows "bn_val r + limb_base ^ n * unat c = bn_val (take n a) * unat w" and "length r = n"
proof -
  have q: "word_quads (\<lambda>a _ c1. mul a w c1) 0 a a n = (r, c)"
    using assms by (auto simp: bn_mul_words_def word_quads.simps split: if_splits)
  from mul_by.quads_value(1) [OF q _ assms(2,2)]
  have "int (bn_val r + limb_base ^ n * unat c) = int (bn_val (take n a) * unat w)"
    by (simp add: mult.commute)
  then show "bn_val r + limb_base ^ n * unat c = bn_val (take n a) * unat w"
    by (simp only: of_nat_eq_iff)
  show "length r = n"
    using mul_by.quads_value(3) [OF q _ assms(2,2)] by simp
qed

lemma bn_mul_add_words_value:
  assumes "bn_mul_add_words rp ap n w = (r, c)" "n \<le> length rp" "n \<le> length ap"
  shows "bn_val r + limb_base ^ n * unat c = bn_val (take n rp) + bn_val (take n ap) * unat w"
    and "length r = n"
proof -
  have q: "word_quads (\<lambda>r a c1. mul_add r a w c1) 0 rp ap n = (r, c)"
    using assms by (auto simp: bn_mul_add_words_def word_quads.simps split: if_splits)
  from mul_add_by.quads_value(1) [OF q _ assms(2,3)]
  have "int (bn_val r + limb_base ^ n * unat c) = int (bn_val (take n rp) + bn_val (take n ap) * unat w)"
    by (simp add: mult.commute)
  then show "bn_val r + limb_base ^ n * unat c = bn_val (take n rp) + bn_val (take n ap) * unat w"
    by (simp only: of_nat_eq_iff)
  show "length r = n"
    using mul_add_by.quads_value(3) [OF q _ assms(2,3)] by simp
qed

end
