(* ===== verification/Bn_Comba.thy ===== *)
theory Bn_Comba
  imports Bn_Words "HOL-Library.Multiset"
begin

text \<open>
  The unrolled products of four and eight limbs (generic.c): the column-wise accumulation into three
  words.  The tables list the products in the order of the code.
\<close>

type_synonym acc = "u64 \<times> u64 \<times> u64"

definition mul_add_c :: "u64 \<Rightarrow> u64 \<Rightarrow> acc \<Rightarrow> acc" where
  "mul_add_c a b = (\<lambda>(c0, c1, c2).
     let t = ucast a * ucast b :: u128;
         t = t + ucast c0;
         c0 = Lw t;
         hi = Hw t;
         c1 = c1 + hi;
         c2 = c2 + (if c1 < hi then 1 else 0)
     in (c0, c1, c2))"

definition mul_add_c2 :: "u64 \<Rightarrow> u64 \<Rightarrow> acc \<Rightarrow> acc" where
  "mul_add_c2 a b = (\<lambda>(c0, c1, c2).
     let t = ucast a * ucast b :: u128;
         tt = t + ucast c0;
         c0 = Lw tt;
         hi = Hw tt;
         c1 = c1 + hi;
         c2 = c2 + (if c1 < hi then 1 else 0);
         t = t + ucast c0;
         c0 = Lw t;
         hi = Hw t;
         c1 = c1 + hi;
         c2 = c2 + (if c1 < hi then 1 else 0)
     in (c0, c1, c2))"

definition sqr_add_c :: "u64 list \<Rightarrow> nat \<Rightarrow> acc \<Rightarrow> acc" where
  "sqr_add_c a i = (\<lambda>(c0, c1, c2).
     let t = ucast (a ! i) * ucast (a ! i) :: u128;
         t = t + ucast c0;
         c0 = Lw t;
         hi = Hw t;
         c1 = c1 + hi;
         c2 = c2 + (if c1 < hi then 1 else 0)
     in (c0, c1, c2))"

definition sqr_add_c2 :: "u64 list \<Rightarrow> nat \<Rightarrow> nat \<Rightarrow> acc \<Rightarrow> acc" where
  "sqr_add_c2 a i j = mul_add_c2 (a ! i) (a ! j)"

text \<open>
  A column is added up, its low word is the next word of the result, and the other two move down; the
  code renames its three variables instead.
\<close>

fun comba :: "(acc \<Rightarrow> acc) list list \<Rightarrow> acc \<Rightarrow> u64 list" where
  "comba [] (c0, c1, c2) = [c0]"
| "comba (col # cols) c = (let (c0, c1, c2) = foldl (\<lambda>c f. f c) c col in c0 # comba cols (c1, c2, 0))"

definition comba8_table :: "(nat \<times> nat) list list" where
  "comba8_table =
    [[(0, 0)],
     [(0, 1), (1, 0)],
     [(2, 0), (1, 1), (0, 2)],
     [(0, 3), (1, 2), (2, 1), (3, 0)],
     [(4, 0), (3, 1), (2, 2), (1, 3), (0, 4)],
     [(0, 5), (1, 4), (2, 3), (3, 2), (4, 1), (5, 0)],
     [(6, 0), (5, 1), (4, 2), (3, 3), (2, 4), (1, 5), (0, 6)],
     [(0, 7), (1, 6), (2, 5), (3, 4), (4, 3), (5, 2), (6, 1), (7, 0)],
     [(7, 1), (6, 2), (5, 3), (4, 4), (3, 5), (2, 6), (1, 7)],
     [(2, 7), (3, 6), (4, 5), (5, 4), (6, 3), (7, 2)],
     [(7, 3), (6, 4), (5, 5), (4, 6), (3, 7)],
     [(4, 7), (5, 6), (6, 5), (7, 4)],
     [(7, 5), (6, 6), (5, 7)],
     [(6, 7), (7, 6)],
     [(7, 7)]]"

definition comba4_table :: "(nat \<times> nat) list list" where
  "comba4_table =
    [[(0, 0)],
     [(0, 1), (1, 0)],
     [(2, 0), (1, 1), (0, 2)],
     [(0, 3), (1, 2), (2, 1), (3, 0)],
     [(3, 1), (2, 2), (1, 3)],
     [(2, 3), (3, 2)],
     [(3, 3)]]"

definition bn_mul_comba8 :: "u64 list \<Rightarrow> u64 list \<Rightarrow> u64 list" where
  "bn_mul_comba8 a b = comba (map (map (\<lambda>(i, j). mul_add_c (a ! i) (b ! j))) comba8_table) (0, 0, 0)"

definition bn_mul_comba4 :: "u64 list \<Rightarrow> u64 list \<Rightarrow> u64 list" where
  "bn_mul_comba4 a b = comba (map (map (\<lambda>(i, j). mul_add_c (a ! i) (b ! j))) comba4_table) (0, 0, 0)"

text \<open>An entry with two equal indices is \<^verbatim>\<open>sqr_add_c\<close>, one with different indices \<^verbatim>\<open>sqr_add_c2\<close>.\<close>

definition sqr_entry :: "u64 list \<Rightarrow> nat \<times> nat \<Rightarrow> acc \<Rightarrow> acc" where
  "sqr_entry a = (\<lambda>(i, j). if i = j then sqr_add_c a i else sqr_add_c2 a i j)"

definition sqr_comba8_table :: "(nat \<times> nat) list list" where
  "sqr_comba8_table =
    [[(0, 0)],
     [(1, 0)],
     [(1, 1), (2, 0)],
     [(3, 0), (2, 1)],
     [(2, 2), (3, 1), (4, 0)],
     [(5, 0), (4, 1), (3, 2)],
     [(3, 3), (4, 2), (5, 1), (6, 0)],
     [(7, 0), (6, 1), (5, 2), (4, 3)],
     [(4, 4), (5, 3), (6, 2), (7, 1)],
     [(7, 2), (6, 3), (5, 4)],
     [(5, 5), (6, 4), (7, 3)],
     [(7, 4), (6, 5)],
     [(6, 6), (7, 5)],
     [(7, 6)],
     [(7, 7)]]"

definition sqr_comba4_table :: "(nat \<times> nat) list list" where
  "sqr_comba4_table =
    [[(0, 0)],
     [(1, 0)],
     [(1, 1), (2, 0)],
     [(3, 0), (2, 1)],
     [(2, 2), (3, 1)],
     [(3, 2)],
     [(3, 3)]]"

definition bn_sqr_comba8 :: "u64 list \<Rightarrow> u64 list" where
  "bn_sqr_comba8 a = comba (map (map (sqr_entry a)) sqr_comba8_table) (0, 0, 0)"

definition bn_sqr_comba4 :: "u64 list \<Rightarrow> u64 list" where
  "bn_sqr_comba4 a = comba (map (map (sqr_entry a)) sqr_comba4_table) (0, 0, 0)"

subsection \<open>One product\<close>

fun acc_val :: "acc \<Rightarrow> nat" where
  "acc_val (c0, c1, c2) = unat c0 + limb_base * (unat c1 + limb_base * unat c2)"

lemma add_carry_out:
  fixes c1 hi :: u64
  shows "unat (c1 + hi) + limb_base * of_bool (c1 + hi < hi) = unat c1 + unat hi"
proof -
  have b: "unat c1 < limb_base" "unat hi < limb_base" by simp_all
  have s: "unat (c1 + hi) = (if unat c1 + unat hi < limb_base then unat c1 + unat hi else unat c1 + unat hi - limb_base)"
    using unat_plus_if_size [of c1 hi] by (simp add: word_size limb_base_def)
  show ?thesis
  proof (cases "unat c1 + unat hi < limb_base")
    case True
    then show ?thesis by (simp add: s word_less_nat_alt)
  next
    case False
    then have "unat c1 + unat hi - limb_base < unat hi" using b by linarith
    then show ?thesis using False by (simp add: s word_less_nat_alt)
  qed
qed

lemma mul_add_c_value:
  assumes "acc_val c + unat a * unat b < limb_base ^ 3"
  shows "acc_val (mul_add_c a b c) = acc_val c + unat a * unat b"
proof (cases c)
  case (fields c0 c1 c2)
  define t where "t = (ucast a * ucast b + ucast c0 :: u128)"
  have "unat a * unat b + unat c0 < limb_base ^ 2"
    using mult_limbs [of a b] limb_base_square unat_limb_le [of c0] by (simp add: limb_base_def)
  then have t: "unat t = unat a * unat b + unat c0"
    unfolding t_def by (subst unat_u128_add) (simp_all add: unat_u128_mult)
  define d1 d2 where "d1 = c1 + Hw t" and "d2 = c2 + (if d1 < Hw t then 1 else 0)"
  have r: "mul_add_c a b c = (Lw t, d1, d2)"
    by (simp add: mul_add_c_def fields t_def d1_def d2_def Let_def)
  have e1: "unat d1 + limb_base * of_bool (d1 < Hw t) = unat c1 + unat (Hw t)"
    unfolding d1_def by (rule add_carry_out)
  have A: "acc_val c + unat a * unat b
      = unat (Lw t) + limb_base * (unat d1 + limb_base * (unat c2 + of_bool (d1 < Hw t)))"
  proof -
    have "acc_val c + unat a * unat b = unat t + limb_base * (unat c1 + limb_base * unat c2)"
      by (simp add: fields t)
    also have "unat t = unat (Lw t) + limb_base * unat (Hw t)" by (rule Lw_Hw [symmetric])
    finally have "acc_val c + unat a * unat b = unat (Lw t) + limb_base * ((unat c1 + unat (Hw t)) + limb_base * unat c2)"
      by (simp add: distrib_left)
    then show ?thesis unfolding e1 [symmetric] by (simp add: distrib_left)
  qed
  have "unat d2 = unat c2 + of_bool (d1 < Hw t)"
  proof -
    have "limb_base * (limb_base * (unat c2 + of_bool (d1 < Hw t))) < limb_base ^ 3"
      using assms unfolding A by (simp only: distrib_left)
    then have "unat c2 + of_bool (d1 < Hw t) < limb_base" by (simp add: eval_nat_numeral)
    then show ?thesis unfolding d2_def limb_base_def
      by (cases "d1 < Hw t") (simp_all add: unat_add_lem [THEN iffD1])
  qed
  then show ?thesis unfolding r A by simp
qed

lemma mul_add_c_commute: "mul_add_c a b = mul_add_c b a"
  by (simp add: mul_add_c_def mult.commute)

lemma mul_add_c2_twice: "mul_add_c2 a b c = mul_add_c a b (mul_add_c a b c)"
  by (cases c) (simp add: mul_add_c2_def mul_add_c_def Let_def)

lemma sqr_add_c_once: "sqr_add_c a i = mul_add_c (a ! i) (a ! i)"
  by (simp add: sqr_add_c_def mul_add_c_def)

subsection \<open>Columns\<close>

abbreviation mul_col :: "u64 list \<Rightarrow> u64 list \<Rightarrow> (nat \<times> nat) list \<Rightarrow> (acc \<Rightarrow> acc) list" where
  "mul_col a b \<equiv> map (\<lambda>(i, j). mul_add_c (a ! i) (b ! j))"

definition pair_val :: "u64 list \<Rightarrow> u64 list \<Rightarrow> nat \<times> nat \<Rightarrow> nat" where
  "pair_val a b = (\<lambda>(i, j). unat (a ! i) * unat (b ! j))"

definition col_sum :: "u64 list \<Rightarrow> u64 list \<Rightarrow> (nat \<times> nat) list \<Rightarrow> nat" where
  "col_sum a b col = sum_list (map (pair_val a b) col)"

lemma pair_val_le: "pair_val a b p \<le> (limb_base - 1) ^ 2"
  unfolding pair_val_def power2_eq_square by (cases p) (simp add: mult_le_mono unat_limb_le del: One_nat_def)

lemma fold_column:
  "acc_val c + col_sum a b col < limb_base ^ 3
    \<Longrightarrow> acc_val (foldl (\<lambda>c f. f c) c (mul_col a b col)) = acc_val c + col_sum a b col"
proof (induction col arbitrary: c)
  case Nil
  then show ?case by (simp add: col_sum_def)
next
  case (Cons p col)
  obtain i j where p: "p = (i, j)" by (cases p)
  have s: "col_sum a b (p # col) = unat (a ! i) * unat (b ! j) + col_sum a b col"
    by (simp add: col_sum_def p pair_val_def)
  have v: "acc_val (mul_add_c (a ! i) (b ! j) c) = acc_val c + unat (a ! i) * unat (b ! j)"
    using Cons.prems by (intro mul_add_c_value) (simp add: s)
  then show ?case using Cons.IH [of "mul_add_c (a ! i) (b ! j) c"] Cons.prems by (simp add: p s [unfolded p])
qed

lemma col_sum_bound: "length col \<le> 8 \<Longrightarrow> x < limb_base ^ 2 \<Longrightarrow> x + col_sum a b col < limb_base ^ 3"
proof -
  assume l: "length col \<le> 8" and x: "x < limb_base ^ 2"
  have "col_sum a b col \<le> length col * (limb_base - 1) ^ 2"
  proof (induction col)
    case Nil
    then show ?case by (simp add: col_sum_def)
  next
    case (Cons p col)
    have "col_sum a b (p # col) = pair_val a b p + col_sum a b col" by (simp add: col_sum_def)
    then show ?case using Cons pair_val_le [of a b p] by (simp del: One_nat_def)
  qed
  also have "\<dots> \<le> 8 * (limb_base - 1) ^ 2" using l by (rule mult_le_mono1)
  finally have "x + col_sum a b col < limb_base ^ 2 + 8 * (limb_base - 1) ^ 2" using x by linarith
  also have "\<dots> \<le> limb_base ^ 3" by (simp add: limb_base_def)
  finally show ?thesis .
qed

fun table_sum :: "u64 list \<Rightarrow> u64 list \<Rightarrow> (nat \<times> nat) list list \<Rightarrow> nat" where
  "table_sum a b [] = 0"
| "table_sum a b (col # cols) = col_sum a b col + limb_base * table_sum a b cols"

lemma comba_value:
  assumes "\<And>col. col \<in> set cols \<Longrightarrow> length col \<le> 8"
  shows "\<exists>x. bn_val (comba (map (mul_col a b) cols) (c0, c1, 0)) + limb_base ^ Suc (length cols) * x
      = unat c0 + limb_base * unat c1 + table_sum a b cols"
  using assms
proof (induction cols arbitrary: c0 c1)
  case Nil
  show ?case by (rule exI [of _ "unat c1"]) simp
next
  case (Cons col cols)
  obtain d0 d1 d2 where d: "foldl (\<lambda>c f. f c) (c0, c1, 0) (mul_col a b col) = (d0, d1, d2)"
    by (metis prod_cases3)
  have "acc_val (c0, c1, 0) < limb_base ^ 2"
    using bn_val_less [of "[c0, c1]"] by (simp add: eval_nat_numeral)
  then have "acc_val (c0, c1, 0) + col_sum a b col < limb_base ^ 3"
    using Cons.prems by (intro col_sum_bound) simp_all
  from fold_column [OF this] have v: "unat d0 + limb_base * (unat d1 + limb_base * unat d2)
      = unat c0 + limb_base * unat c1 + col_sum a b col"
    by (simp add: d)
  from Cons obtain x where x: "bn_val (comba (map (mul_col a b) cols) (d1, d2, 0)) + limb_base ^ Suc (length cols) * x
      = unat d1 + limb_base * unat d2 + table_sum a b cols" by fastforce
  have "unat d0 + limb_base * (bn_val (comba (map (mul_col a b) cols) (d1, d2, 0)) + limb_base ^ Suc (length cols) * x)
      = unat c0 + limb_base * unat c1 + (col_sum a b col + limb_base * table_sum a b cols)"
    unfolding x using v by (simp add: distrib_left)
  then show ?case by (intro exI [of _ x]) (simp add: d distrib_left)
qed

lemma length_comba [simp]: "length (comba cols c) = Suc (length cols)"
proof (induction cols arbitrary: c)
  case Nil
  then show ?case by (cases c) simp
next
  case (Cons col cols)
  then show ?case by (simp split: prod.splits)
qed

subsection \<open>All products\<close>

lemma bn_val_sum: "bn_val ws = sum_list (map (\<lambda>i. limb_base ^ i * unat (ws ! i)) [0..<length ws])"
proof (induction ws rule: rev_induct)
  case Nil
  then show ?case by simp
next
  case (snoc w ws)
  have "map (\<lambda>i. limb_base ^ i * unat ((ws @ [w]) ! i)) [0..<length ws] = map (\<lambda>i. limb_base ^ i * unat (ws ! i)) [0..<length ws]"
    by (intro map_cong) (simp_all add: nth_append)
  then have "sum_list (map (\<lambda>i. limb_base ^ i * unat ((ws @ [w]) ! i)) [0..<length ws]) = bn_val ws"
    using snoc by metis
  then show ?case by (simp add: bn_val_append)
qed

definition weighted :: "u64 list \<Rightarrow> u64 list \<Rightarrow> nat \<times> nat \<Rightarrow> nat" where
  "weighted a b = (\<lambda>(i, j). limb_base ^ (i + j) * (unat (a ! i) * unat (b ! j)))"

lemma table_sum_weighted:
  assumes "\<And>k p. k < length cols \<Longrightarrow> p \<in> set (cols ! k) \<Longrightarrow> fst p + snd p = d + k"
  shows "limb_base ^ d * table_sum a b cols = sum_list (map (weighted a b) (concat cols))"
  using assms
proof (induction cols arbitrary: d)
  case Nil
  then show ?case by simp
next
  case (Cons col cols)
  have "fst p + snd p = d" if "p \<in> set col" for p
    using Cons.prems [of 0 p] that by simp
  then have "sum_list (map (weighted a b) col) = limb_base ^ d * col_sum a b col"
  proof (induction col)
    case Nil
    then show ?case by (simp add: col_sum_def)
  next
    case (Cons p col)
    have "weighted a b p = limb_base ^ d * pair_val a b p"
      using Cons.prems [of p] by (cases p) (simp add: weighted_def pair_val_def)
    then show ?case using Cons by (simp add: col_sum_def distrib_left)
  qed
  moreover have "limb_base ^ Suc d * table_sum a b cols = sum_list (map (weighted a b) (concat cols))"
  proof (rule Cons.IH)
    show "fst p + snd p = Suc d + k" if "k < length cols" "p \<in> set (cols ! k)" for k p
      using Cons.prems [of "Suc k" p] that by simp
  qed
  ultimately show ?case by (simp add: distrib_left mult_ac)
qed

lemma sum_list_product:
  "sum_list (map (weighted a b) (List.product xs ys))
    = sum_list (map (\<lambda>i. limb_base ^ i * unat (a ! i)) xs) * sum_list (map (\<lambda>j. limb_base ^ j * unat (b ! j)) ys)"
proof (induction xs)
  case Nil
  then show ?case by simp
next
  case (Cons i xs)
  have "sum_list (map (weighted a b) (map (Pair i) ys)) = limb_base ^ i * unat (a ! i) * sum_list (map (\<lambda>j. limb_base ^ j * unat (b ! j)) ys)"
    by (induction ys) (simp_all add: weighted_def power_add distrib_left)
  with Cons show ?case by (simp add: distrib_right)
qed

lemma sum_list_mset: "mset xs = mset ys \<Longrightarrow> sum_list (map f xs) = (sum_list (map f ys) :: nat)"
  by (metis mset_map sum_mset_sum_list)

text \<open>A table with every pair of indices in the column of their sum computes the product.\<close>

lemma comba_product:
  assumes "length a = n" "length b = n"
    and "mset (concat cols) = mset (List.product [0..<n] [0..<n])"
    and "\<And>k p. k < length cols \<Longrightarrow> p \<in> set (cols ! k) \<Longrightarrow> fst p + snd p = k"
    and "\<And>col. col \<in> set cols \<Longrightarrow> length col \<le> 8" and "Suc (length cols) = 2 * n"
  shows "bn_val (comba (map (mul_col a b) cols) (0, 0, 0)) = bn_val a * bn_val b"
proof -
  have "table_sum a b cols = sum_list (map (weighted a b) (concat cols))"
    using table_sum_weighted [of cols 0 a b] assms(4) by simp
  also have "\<dots> = sum_list (map (weighted a b) (List.product [0..<n] [0..<n]))"
    using assms(3) by (rule sum_list_mset)
  also have "\<dots> = bn_val a * bn_val b"
    unfolding sum_list_product bn_val_sum [of a] bn_val_sum [of b] assms(1,2) ..
  finally have T: "table_sum a b cols = bn_val a * bn_val b" .
  obtain x where x: "bn_val (comba (map (mul_col a b) cols) (0, 0, 0)) + limb_base ^ (2 * n) * x = bn_val a * bn_val b"
    using comba_value [of cols a b 0 0] assms(5,6) T by auto
  have "bn_val a * bn_val b < limb_base ^ n * limb_base ^ n"
    using bn_val_less_width [OF assms(1)] bn_val_less_width [OF assms(2)] by (intro mult_strict_mono) simp_all
  then have "bn_val a * bn_val b < limb_base ^ (2 * n)" by (simp add: mult_2 power_add)
  with x have "limb_base ^ (2 * n) * x < limb_base ^ (2 * n) * 1" by linarith
  then have "x = 0" by simp
  with x show ?thesis by simp
qed

definition by_columns :: "(nat \<times> nat) list list \<Rightarrow> bool" where
  "by_columns cols \<longleftrightarrow> list_all (\<lambda>(k, col). list_all (\<lambda>p. fst p + snd p = k) col \<and> length col \<le> 8) (zip [0..<length cols] cols)"

lemma by_columnsD:
  assumes "by_columns cols"
  shows "k < length cols \<Longrightarrow> p \<in> set (cols ! k) \<Longrightarrow> fst p + snd p = k"
    and "col \<in> set cols \<Longrightarrow> length col \<le> 8"
proof -
  have *: "list_all (\<lambda>p. fst p + snd p = k) (cols ! k) \<and> length (cols ! k) \<le> 8" if "k < length cols" for k
    using assms that by (simp add: by_columns_def list_all_length)
  show "fst p + snd p = k" if "k < length cols" "p \<in> set (cols ! k)"
    using * [OF that(1)] that(2) by (simp only: list_all_iff)
  show "length col \<le> 8" if "col \<in> set cols"
    using * that by (metis in_set_conv_nth)
qed

lemma comba_by_columns:
  assumes "length a = n" "length b = n" "by_columns cols" "Suc (length cols) = 2 * n"
    and "mset (concat cols) = mset (List.product [0..<n] [0..<n])"
  shows "bn_val (comba (map (mul_col a b) cols) (0, 0, 0)) = bn_val a * bn_val b"
  using comba_product [OF assms(1,2,5) by_columnsD [OF assms(3)] assms(4)] by blast

lemma bn_mul_comba8_value:
  assumes "length a = 8" "length b = 8"
  shows "bn_val (bn_mul_comba8 a b) = bn_val a * bn_val b" "length (bn_mul_comba8 a b) = 16"
proof -
  have "by_columns comba8_table" "mset (concat comba8_table) = mset (List.product [0..<8] [0..<8])"
    "Suc (length comba8_table) = 2 * 8"
    by code_simp+
  then show "bn_val (bn_mul_comba8 a b) = bn_val a * bn_val b" "length (bn_mul_comba8 a b) = 16"
    unfolding bn_mul_comba8_def using comba_by_columns [OF assms, of comba8_table] by simp_all
qed

lemma bn_mul_comba4_value:
  assumes "length a = 4" "length b = 4"
  shows "bn_val (bn_mul_comba4 a b) = bn_val a * bn_val b" "length (bn_mul_comba4 a b) = 8"
proof -
  have "by_columns comba4_table" "mset (concat comba4_table) = mset (List.product [0..<4] [0..<4])"
    "Suc (length comba4_table) = 2 * 4"
    by code_simp+
  then show "bn_val (bn_mul_comba4 a b) = bn_val a * bn_val b" "length (bn_mul_comba4 a b) = 8"
    unfolding bn_mul_comba4_def using comba_by_columns [OF assms, of comba4_table] by simp_all
qed

text \<open>A square is the product with each entry off the diagonal standing for the pair and its mirror image.\<close>

definition mirrored :: "(nat \<times> nat) list \<Rightarrow> (nat \<times> nat) list" where
  "mirrored col = concat (map (\<lambda>(i, j). if i = j then [(i, j)] else [(i, j), (j, i)]) col)"

lemma fold_mirrored:
  "foldl (\<lambda>c f. f c) c (map (sqr_entry a) col) = foldl (\<lambda>c f. f c) c (mul_col a a (mirrored col))"
proof (induction col arbitrary: c)
  case Nil
  then show ?case by (simp add: mirrored_def)
next
  case (Cons p col)
  obtain i j where p: "p = (i, j)" by (cases p)
  show ?case
    using Cons by (simp add: mirrored_def p sqr_entry_def sqr_add_c_once sqr_add_c2_def mul_add_c2_twice
        mul_add_c_commute [of "a ! j" "a ! i"])
qed

lemma comba_mirrored: "comba (map (map (sqr_entry a)) cols) c = comba (map (mul_col a a) (map mirrored cols)) c"
proof (induction cols arbitrary: c)
  case Nil
  then show ?case by (cases c) simp
next
  case (Cons col cols)
  then show ?case unfolding list.map comba.simps fold_mirrored by (simp split: prod.splits)
qed

lemma bn_sqr_comba8_value:
  assumes "length a = 8"
  shows "bn_val (bn_sqr_comba8 a) = bn_val a ^ 2" "length (bn_sqr_comba8 a) = 16"
proof -
  have "by_columns (map mirrored sqr_comba8_table)" "Suc (length (map mirrored sqr_comba8_table)) = 2 * 8"
    "mset (concat (map mirrored sqr_comba8_table)) = mset (List.product [0..<8] [0..<8])"
    by code_simp+
  then show "bn_val (bn_sqr_comba8 a) = bn_val a ^ 2" "length (bn_sqr_comba8 a) = 16"
    unfolding bn_sqr_comba8_def comba_mirrored using comba_by_columns [OF assms assms, of "map mirrored sqr_comba8_table"]
    by (simp_all add: power2_eq_square)
qed

lemma bn_sqr_comba4_value:
  assumes "length a = 4"
  shows "bn_val (bn_sqr_comba4 a) = bn_val a ^ 2" "length (bn_sqr_comba4 a) = 8"
proof -
  have "by_columns (map mirrored sqr_comba4_table)" "Suc (length (map mirrored sqr_comba4_table)) = 2 * 4"
    "mset (concat (map mirrored sqr_comba4_table)) = mset (List.product [0..<4] [0..<4])"
    by code_simp+
  then show "bn_val (bn_sqr_comba4 a) = bn_val a ^ 2" "length (bn_sqr_comba4 a) = 8"
    unfolding bn_sqr_comba4_def comba_mirrored using comba_by_columns [OF assms assms, of "map mirrored sqr_comba4_table"]
    by (simp_all add: power2_eq_square)
qed

end
