(* ===== verification/Bn_Limbs.thy ===== *)
theory Bn_Limbs
  imports Bn_Words
begin

text \<open>
  Branch-free selection, comparison, differences and reductions on arrays of limbs (bn.c, cmp.c,
  mul.c, div.c), on top of the carry loops of Bn_Words.
\<close>

subsection \<open>Selection and comparison\<close>

definition bn_select_words :: "u64 \<Rightarrow> u64 list \<Rightarrow> u64 list \<Rightarrow> nat \<Rightarrow> u64 list" where
  "bn_select_words msk a b num = map (\<lambda>i. constant_time_select_w msk (a ! i) (b ! i)) [0..<num]"

text \<open>The loops \<^verbatim>\<open>for (i = lo; i < hi; i++) mask |= d[i]\<close>.\<close>

definition or_range :: "u64 list \<Rightarrow> nat \<Rightarrow> nat \<Rightarrow> u64" where
  "or_range d lo hi = foldl (\<lambda>msk i. msk OR d ! i) 0 [lo..<hi]"

definition bn_cmp_words_consttime :: "u64 list \<Rightarrow> nat \<Rightarrow> u64 list \<Rightarrow> nat \<Rightarrow> u32" where
  "bn_cmp_words_consttime a a_len b b_len =
     (let len = (if a_len < b_len then a_len else b_len);
          ret = foldl (\<lambda>ret i.
            let eq = constant_time_eq_w (a ! i) (b ! i); lt = constant_time_lt_w (a ! i) (b ! i)
            in constant_time_select_int eq ret (constant_time_select_int lt (- 1) 1)) 0 [0..<len]
      in if a_len < b_len
         then constant_time_select_int (constant_time_is_zero_w (or_range b a_len b_len)) ret (- 1)
         else if b_len < a_len
         then constant_time_select_int (constant_time_is_zero_w (or_range a b_len a_len)) ret 1
         else ret)"

definition bn_less_than_words :: "u64 list \<Rightarrow> u64 list \<Rightarrow> nat \<Rightarrow> bool" where
  "bn_less_than_words a b len = (sint (bn_cmp_words_consttime a len b len) < 0)"

definition bn_is_bit_set_words :: "u64 list \<Rightarrow> nat \<Rightarrow> nat \<Rightarrow> bool" where
  "bn_is_bit_set_words a num b =
     (let i = b div 64; j = b mod 64 in if i \<ge> num then False else drop_bit j (a ! i) AND 1 = 1)"

lemma take_eq_map_nth: "n \<le> length xs \<Longrightarrow> map (\<lambda>i. xs ! i) [0..<n] = take n xs"
  by (rule nth_equalityI) simp_all

lemma bn_select_words_mask:
  "n \<le> length a \<Longrightarrow> n \<le> length b \<Longrightarrow> bn_select_words (word_mask c) a b n = (if c then take n a else take n b)"
  by (cases c) (simp_all add: bn_select_words_def select_w_mask take_eq_map_nth del: word_mask_simps)

lemma length_bn_select_words [simp]: "length (bn_select_words m a b n) = n"
  by (simp add: bn_select_words_def)

lemma or_range_zero_iff: "or_range d lo hi = 0 \<longleftrightarrow> (\<forall>i \<in> {lo..<hi}. d ! i = 0)"
proof -
  have "foldl (\<lambda>msk i. msk OR d ! i) m is = 0 \<longleftrightarrow> m = 0 \<and> (\<forall>i \<in> set is. d ! i = 0)" for m :: u64 and "is"
    by (induction "is" arbitrary: m) (auto simp: or_zero_iff)
  then show ?thesis by (simp add: or_range_def)
qed

lemma or_range_zero_drop:
  "n \<le> m \<Longrightarrow> m \<le> length d \<Longrightarrow> or_range d n m = 0 \<longleftrightarrow> bn_val (drop n (take m d)) = 0"
proof -
  assume n: "n \<le> m" "m \<le> length d"
  then have "drop n (take m d) = map ((!) d) [n..<m]"
    by (intro nth_equalityI) simp_all
  then show ?thesis unfolding or_range_zero_iff bn_val_eq_0_iff by simp
qed

lemma or_range_zero_value:
  assumes "n \<le> m" "m \<le> length d"
  shows "or_range d n m = 0 \<longleftrightarrow> bn_val (take m d) < limb_base ^ n"
  using bn_val_drop [of n "take m d"] assms by (simp add: or_range_zero_drop div_eq_0_iff)

lemma select_int_mask: "constant_time_select_int (word_mask c) a b = (if c then a else b)"
  by (simp add: constant_time_select_int_def select_w_mask)

definition cmp_value :: "nat \<Rightarrow> nat \<Rightarrow> u32" where
  "cmp_value x y = (if x < y then - 1 else if x = y then 0 else 1)"

lemma cmp_value_high:
  assumes "x < b" "y < (b :: nat)" "u \<noteq> v"
  shows "cmp_value (x + b * u) (y + b * v) = (if u < v then - 1 else 1)"
proof -
  have *: "x + b * u < y + b * v" if "x < b" "u < v" for x y u v
  proof -
    have "x + b * u < b * Suc u" using that by simp
    also have "b * Suc u \<le> b * v" using that by (intro mult_le_mono2) simp
    finally show ?thesis by simp
  qed
  consider "u < v" | "v < u" using assms(3) by linarith
  then show ?thesis
  proof cases
    case 1
    then show ?thesis using * [of x u v y] assms by (simp add: cmp_value_def)
  next
    case 2
    then show ?thesis using * [of y v u x] assms by (simp add: cmp_value_def)
  qed
qed

lemma cmp_prefix:
  assumes "n \<le> length a" "n \<le> length b"
  shows "foldl (\<lambda>ret i.
      let eq = constant_time_eq_w (a ! i) (b ! i); lt = constant_time_lt_w (a ! i) (b ! i)
      in constant_time_select_int eq ret (constant_time_select_int lt (- 1) 1)) 0 [0..<n]
    = cmp_value (bn_val (take n a)) (bn_val (take n b))"
  using assms
proof (induction n)
  case 0
  then show ?case by (simp add: cmp_value_def)
next
  case (Suc n)
  have t: "bn_val (take (Suc n) xs) = bn_val (take n xs) + limb_base ^ n * unat (xs ! n)"
    if "Suc n \<le> length xs" for xs
    using that by (simp add: take_Suc_conv_app_nth bn_val_append)
  have l: "bn_val (take n a) < limb_base ^ n" "bn_val (take n b) < limb_base ^ n"
    using Suc.prems by (auto intro!: bn_val_less_width)
  show ?case
  proof (cases "a ! n = b ! n")
    case True
    then have "cmp_value (bn_val (take (Suc n) a)) (bn_val (take (Suc n) b)) = cmp_value (bn_val (take n a)) (bn_val (take n b))"
      using Suc.prems by (simp add: t cmp_value_def)
    with True Suc show ?thesis by (simp add: mask_simps select_int_mask del: word_mask_simps)
  next
    case False
    then have "unat (a ! n) \<noteq> unat (b ! n)" by (simp add: word_unat_eq_iff)
    from cmp_value_high [OF l this] False Suc show ?thesis
      by (simp add: t mask_simps select_int_mask word_less_nat_alt del: word_mask_simps)
  qed
qed

lemma bn_cmp_words_value:
  assumes "n \<le> length a" "m \<le> length b"
  shows "bn_cmp_words_consttime a n b m = cmp_value (bn_val (take n a)) (bn_val (take m b))"
proof -
  define F where "F k = foldl (\<lambda>ret i.
      let eq = constant_time_eq_w (a ! i) (b ! i); lt = constant_time_lt_w (a ! i) (b ! i)
      in constant_time_select_int eq ret (constant_time_select_int lt (- 1) 1)) 0 [0..<k]" for k
  have F: "F k = cmp_value (bn_val (take k a)) (bn_val (take k b))" if "k \<le> n" "k \<le> m" for k
    unfolding F_def using that assms by (intro cmp_prefix) simp_all
  have high: "or_range d j i = 0 \<Longrightarrow> bn_val (take i d) = bn_val (take j d)"
    "or_range d j i \<noteq> 0 \<Longrightarrow> limb_base ^ j \<le> bn_val (take i d)" if "j \<le> i" "i \<le> length d" for d i j
    using that or_range_zero_value [OF that] bn_val_take_drop [of j "take i d"]
    by (simp_all add: or_range_zero_drop min_def not_less)
  have low: "bn_val (take j d) < limb_base ^ j" if "j \<le> length d" for d j
    using that by (auto intro!: bn_val_less_width)
  have C: "bn_cmp_words_consttime a n b m =
    (if n < m then if or_range b n m = 0 then F n else - 1
     else if m < n then if or_range a m n = 0 then F m else 1 else F n)"
    unfolding bn_cmp_words_consttime_def F_def
    by (simp add: Let_def is_zero_w_mask select_int_mask del: word_mask_simps)
  consider "n < m" | "m < n" | "n = m" by linarith
  then show ?thesis
  proof cases
    case 1
    have "bn_val (take n a) < bn_val (take m b)" if "or_range b n m \<noteq> 0"
      using high(2) [OF _ assms(2) that] low [OF assms(1)] 1 by linarith
    then show ?thesis
      using 1 assms high(1) [of n m b] by (auto simp: C F cmp_value_def)
  next
    case 2
    have "bn_val (take m b) < bn_val (take n a)" if "or_range a m n \<noteq> 0"
      using high(2) [OF _ assms(1) that] low [OF assms(2)] 2 by linarith
    then show ?thesis
      using 2 assms high(1) [of m n a] by (auto simp: C F cmp_value_def)
  next
    case 3
    then show ?thesis using C F [of n] by simp
  qed
qed

lemma cmp_value_neg [simp]: "sint (cmp_value x y) < 0 \<longleftrightarrow> x < y"
  by (simp add: cmp_value_def)

lemma bn_less_than_words_value:
  "n \<le> length a \<Longrightarrow> n \<le> length b \<Longrightarrow> bn_less_than_words a b n \<longleftrightarrow> bn_val (take n a) < bn_val (take n b)"
  by (simp add: bn_less_than_words_def bn_cmp_words_value)

lemma bn_val_bit:
  assumes "k < 64 * length ws"
  shows "bit (bn_val ws) k = bit (ws ! (k div 64)) (k mod 64)"
  using assms
proof (induction ws arbitrary: k)
  case Nil
  then show ?case by simp
next
  case (Cons w ws)
  have v: "bn_val (w # ws) = unat w OR push_bit 64 (bn_val ws)"
    using nat_or_push_bit [of "unat w" 64 "bn_val ws"] unat_u64_less [of w] by (simp add: limb_base_def)
  show ?case
  proof (cases "k < 64")
    case True
    then show ?thesis unfolding v by (simp add: bit_or_iff bit_push_bit_iff bit_unsigned_iff)
  next
    case False
    then have "k div 64 = Suc ((k - 64) div 64)" "k mod 64 = (k - 64) mod 64"
      by (simp_all add: le_div_geq le_mod_geq)
    with False Cons show ?thesis
      unfolding v by (simp add: bit_or_iff bit_push_bit_iff bit_unsigned_iff impossible_bit)
  qed
qed

lemma bn_is_bit_set_words_value:
  assumes "n \<le> length a"
  shows "bn_is_bit_set_words a n k \<longleftrightarrow> bit (bn_val (take n a)) k"
proof (cases "k div 64 < n")
  case True
  then have "k < 64 * n" by (simp add: div_less_iff_less_mult mult.commute)
  with assms bn_val_bit [of k "take n a"] True show ?thesis
    by (simp add: bn_is_bit_set_words_def Let_def and_one_eq bit_iff_odd_drop_bit [symmetric] odd_iff_mod_2_eq_one [symmetric])
next
  case False
  then have k: "64 * n \<le> k" by (simp add: not_less less_eq_div_iff_mult_less_eq mult.commute)
  have "bn_val (take n a) < 2 ^ (64 * n)"
    using bn_val_less_width [of "take n a" n] assms by (simp add: limb_base_power)
  then have "bn_val (take n a) < 2 ^ k" using k by (meson le_less_trans less_le_trans one_le_numeral power_increasing)
  then have "\<not> bit (bn_val (take n a)) k" by (simp add: bit_iff_odd)
  with False show ?thesis by (simp add: bn_is_bit_set_words_def)
qed

subsection \<open>Absolute differences (mul.c)\<close>

definition bn_abs_sub_words :: "u64 list \<Rightarrow> u64 list \<Rightarrow> nat \<Rightarrow> u64 list" where
  "bn_abs_sub_words a b num =
     (let (tmp, borrow) = bn_sub_words a b num;
          (r, _) = bn_sub_words b a num
      in bn_select_words (0 - borrow) r tmp num)"

text \<open>The loops that go on with the words of the longer operand; the shorter one counts as zero.\<close>

fun carry_rest :: "(u64 \<Rightarrow> u64 \<Rightarrow> u64 \<times> u64) \<Rightarrow> u64 list \<Rightarrow> nat \<Rightarrow> u64 \<Rightarrow> u64 list \<times> u64" where
  "carry_rest f x 0 borrow = ([], borrow)"
| "carry_rest f x (Suc n) borrow =
     (let (r0, borrow) = f (x ! 0) borrow; (r, borrow) = carry_rest f (drop 1 x) n borrow in (r0 # r, borrow))"

definition bn_sub_part_words :: "u64 list \<Rightarrow> u64 list \<Rightarrow> nat \<Rightarrow> int \<Rightarrow> u64 list \<times> u64" where
  "bn_sub_part_words a b cl dl =
     (let (r, borrow) = bn_sub_words a b cl
      in if dl = 0 then (r, borrow)
         else if dl < 0
         then let (r', borrow) = carry_rest (\<lambda>x borrow. CRYPTO_subc_w 0 x borrow) (drop cl b) (nat (- dl)) borrow
              in (r @ r', borrow)
         else let (r', borrow) = carry_rest (\<lambda>x borrow. CRYPTO_subc_w x 0 borrow) (drop cl a) (nat dl) borrow
              in (r @ r', borrow))"

definition bn_abs_sub_part_words :: "u64 list \<Rightarrow> u64 list \<Rightarrow> nat \<Rightarrow> int \<Rightarrow> u64 list \<times> u64" where
  "bn_abs_sub_part_words a b cl dl =
     (let (tmp, borrow) = bn_sub_part_words a b cl dl;
          (r, _) = bn_sub_part_words b a cl (- dl);
          r_len = cl + nat (if dl < 0 then - dl else dl);
          borrow = 0 - borrow
      in (bn_select_words borrow r tmp r_len, borrow))"

lemma bit_limb_cases: "unat (b :: u64) \<le> 1 \<Longrightarrow> b = 0 \<or> b = 1"
  by (auto simp: word_unat_eq_iff)

lemma minus_bit_mask: "unat (b :: u64) \<le> 1 \<Longrightarrow> 0 - b = word_mask (b \<noteq> 0)"
  using bit_limb_cases [of b] by auto

lemma carry_chain:
  fixes r0 r1 w x c c0 c' L P q s :: int
  assumes "r0 = q * w + s * c - s * (L * c0)" "r1 = q * x + s * c0 - s * (P * c')"
  shows "r0 + L * r1 = q * (w + L * x) + s * c - s * (L * P * c')"
  unfolding assms by (simp add: algebra_simps)

lemma borrow_cases:
  assumes "x + y = z + b * unat (c :: u64)" "unat c \<le> 1" "x < b" "y < b" "z < (b :: nat)"
  shows "c \<noteq> 0 \<longleftrightarrow> z < y" "z < y \<Longrightarrow> x = b + z - y" "y \<le> z \<Longrightarrow> x = z - y"
proof -
  consider "unat c = 0" | "unat c = 1" using assms(2) by linarith
  then have "(c \<noteq> 0 \<longleftrightarrow> z < y) \<and> (z < y \<longrightarrow> x = b + z - y) \<and> (y \<le> z \<longrightarrow> x = z - y)"
  proof cases
    case 1
    then show ?thesis using assms by (auto simp: unat_eq_0)
  next
    case 2
    then have "c \<noteq> 0" by auto
    then show ?thesis using assms 2 by simp
  qed
  then show "c \<noteq> 0 \<longleftrightarrow> z < y" "z < y \<Longrightarrow> x = b + z - y" "y \<le> z \<Longrightarrow> x = z - y" by blast+
qed

lemma bn_sub_words_borrow:
  assumes "bn_sub_words a b n = (r, c)" "n \<le> length a" "n \<le> length b"
  shows "0 - c = word_mask (bn_val (take n a) < bn_val (take n b))"
    and "bn_val (take n a) < bn_val (take n b) \<Longrightarrow> bn_val r = limb_base ^ n + bn_val (take n a) - bn_val (take n b)"
    and "bn_val (take n b) \<le> bn_val (take n a) \<Longrightarrow> bn_val r = bn_val (take n a) - bn_val (take n b)"
proof -
  note v = bn_sub_words_value [OF assms]
  have l: "bn_val r < limb_base ^ n" "bn_val (take n b) < limb_base ^ n" "bn_val (take n a) < limb_base ^ n"
    using v(3) assms(2,3) by (auto intro!: bn_val_less_width)
  note * = borrow_cases [OF v(1,2) l]
  show "0 - c = word_mask (bn_val (take n a) < bn_val (take n b))"
    using minus_bit_mask [OF v(2)] *(1) by simp
  show "bn_val (take n a) < bn_val (take n b) \<Longrightarrow> bn_val r = limb_base ^ n + bn_val (take n a) - bn_val (take n b)"
    "bn_val (take n b) \<le> bn_val (take n a) \<Longrightarrow> bn_val r = bn_val (take n a) - bn_val (take n b)"
    using *(2,3) by blast+
qed

definition abs_diff :: "nat \<Rightarrow> nat \<Rightarrow> nat" where
  "abs_diff x y = (if x < y then y - x else x - y)"

lemma bn_abs_sub_words_value:
  assumes "n \<le> length a" "n \<le> length b"
  shows "bn_val (bn_abs_sub_words a b n) = abs_diff (bn_val (take n a)) (bn_val (take n b))"
    and "length (bn_abs_sub_words a b n) = n"
proof -
  obtain t c where t: "bn_sub_words a b n = (t, c)" by (cases "bn_sub_words a b n")
  obtain r c' where r: "bn_sub_words b a n = (r, c')" by (cases "bn_sub_words b a n")
  note T = bn_sub_words_borrow [OF t assms] bn_sub_words_value(3) [OF t assms]
  note R = bn_sub_words_borrow [OF r assms(2,1)] bn_sub_words_value(3) [OF r assms(2,1)]
  have "bn_abs_sub_words a b n = (if bn_val (take n a) < bn_val (take n b) then r else t)"
    using T(4) R(4) by (simp add: bn_abs_sub_words_def t r T(1) bn_select_words_mask del: diff_0 word_mask_simps)
  then show "bn_val (bn_abs_sub_words a b n) = abs_diff (bn_val (take n a)) (bn_val (take n b))"
    "length (bn_abs_sub_words a b n) = n"
    using T R by (simp_all add: abs_diff_def)
qed

lemma carry_rest_value:
  assumes "carry_rest f x n c = (r, c')" "unat c \<le> 1" "n \<le> length x"
    and "\<And>x c r c'. f x c = (r, c') \<Longrightarrow> unat c \<le> 1 \<Longrightarrow>
        int (unat r) = q * int (unat x) + s * int (unat c) - s * (int limb_base * int (unat c')) \<and> unat c' \<le> 1"
  shows "int (bn_val r) = q * int (bn_val (take n x)) + s * int (unat c) - s * (int (limb_base ^ n) * int (unat c'))
    \<and> unat c' \<le> 1 \<and> length r = n"
  using assms(1-3)
proof (induction n arbitrary: x c r)
  case 0
  then show ?case by simp
next
  case (Suc n)
  then obtain w x' where x: "x = w # x'" by (cases x) auto
  obtain r0 c0 where 0: "f w c = (r0, c0)" by (cases "f w c")
  obtain r1 where 1: "carry_rest f x' n c0 = (r1, c')" "r = r0 # r1"
    using Suc.prems(1) 0 by (auto simp: x split: prod.splits)
  note st = assms(4) [OF 0 Suc.prems(2)]
  have IH: "int (bn_val r1) = q * int (bn_val (take n x')) + s * int (unat c0) - s * (int (limb_base ^ n) * int (unat c'))
      \<and> unat c' \<le> 1 \<and> length r1 = n"
    using Suc.IH [OF 1(1)] st Suc.prems(3) by (simp add: x)
  have "int (bn_val r) = int (unat r0) + int limb_base * int (bn_val r1)" by (simp add: 1(2))
  also have "\<dots> = q * (int (unat w) + int limb_base * int (bn_val (take n x'))) + s * int (unat c)
      - s * (int limb_base * int (limb_base ^ n) * int (unat c'))"
    by (rule carry_chain [OF conjunct1 [OF st] conjunct1 [OF IH]])
  finally show ?case using IH by (simp add: 1(2) x)
qed

text \<open>Going on with the words of one operand after the words both have.\<close>

lemma carry_rest_addc:
  assumes "carry_rest (\<lambda>x c. CRYPTO_addc_w x 0 c) x n c = (r, c')" "unat c \<le> 1" "n \<le> length x"
  shows "int (bn_val r) = 1 * int (bn_val (take n x)) + 1 * int (unat c) - 1 * (int (limb_base ^ n) * int (unat c'))
    \<and> unat c' \<le> 1 \<and> length r = n"
proof (rule carry_rest_value [OF assms])
  show "int (unat r) = 1 * int (unat x) + 1 * int (unat c) - 1 * (int limb_base * int (unat c')) \<and> unat c' \<le> 1"
    if "CRYPTO_addc_w x 0 c = (r, c')" "unat c \<le> 1" for x c r c'
    using arg_cong [OF CRYPTO_addc_w_sum(1) [OF that(1)], of int] CRYPTO_addc_w_sum(2) [OF that] by simp
qed

lemma carry_rest_subc:
  assumes "carry_rest (\<lambda>x c. CRYPTO_subc_w x 0 c) x n c = (r, c')" "unat c \<le> 1" "n \<le> length x"
  shows "int (bn_val r) = 1 * int (bn_val (take n x)) + (- 1) * int (unat c) - (- 1) * (int (limb_base ^ n) * int (unat c'))
    \<and> unat c' \<le> 1 \<and> length r = n"
proof (rule carry_rest_value [OF assms])
  show "int (unat r) = 1 * int (unat x) + (- 1) * int (unat c) - (- 1) * (int limb_base * int (unat c')) \<and> unat c' \<le> 1"
    if "CRYPTO_subc_w x 0 c = (r, c')" "unat c \<le> 1" for x c r c'
    using arg_cong [OF CRYPTO_subc_w_diff(1) [OF that], of int] CRYPTO_subc_w_diff(2) [OF that] by simp
qed

lemma carry_rest_negc:
  assumes "carry_rest (\<lambda>x c. CRYPTO_subc_w 0 x c) x n c = (r, c')" "unat c \<le> 1" "n \<le> length x"
  shows "int (bn_val r) = (- 1) * int (bn_val (take n x)) + (- 1) * int (unat c) - (- 1) * (int (limb_base ^ n) * int (unat c'))
    \<and> unat c' \<le> 1 \<and> length r = n"
proof (rule carry_rest_value [OF assms])
  show "int (unat r) = (- 1) * int (unat x) + (- 1) * int (unat c) - (- 1) * (int limb_base * int (unat c')) \<and> unat c' \<le> 1"
    if "CRYPTO_subc_w 0 x c = (r, c')" "unat c \<le> 1" for x c r c'
    using arg_cong [OF CRYPTO_subc_w_diff(1) [OF that], of int] CRYPTO_subc_w_diff(2) [OF that] by simp
qed

lemma bn_sub_part_words_value:
  assumes "bn_sub_part_words a b cl dl = (r, c)"
    and "length a = cl + nat dl" "length b = cl + nat (- dl)"
  shows "bn_val r + bn_val b = bn_val a + limb_base ^ (cl + nat \<bar>dl\<bar>) * unat c"
    and "unat c \<le> 1" "length r = cl + nat \<bar>dl\<bar>"
proof -
  obtain r0 c0 where 0: "bn_sub_words a b cl = (r0, c0)" by (cases "bn_sub_words a b cl")
  have l: "cl \<le> length a" "cl \<le> length b" using assms by simp_all
  note v = bn_sub_words_value [OF 0 l]
  have I: "int (bn_val r0) = int (bn_val (take cl a)) - int (bn_val (take cl b)) + int (limb_base ^ cl) * int (unat c0)"
    using arg_cong [OF v(1), of int] by simp
  have I': "int (bn_val r0) = (- 1) * (int (bn_val (take cl b)) - int (bn_val (take cl a))) + (- 1) * 0
      - (- 1) * (int (limb_base ^ cl) * int (unat c0))" using I by simp
  have I'': "int (bn_val r0) = 1 * (int (bn_val (take cl a)) - int (bn_val (take cl b))) + (- 1) * 0
      - (- 1) * (int (limb_base ^ cl) * int (unat c0))" using I by simp
  have A: "int (bn_val a) = int (bn_val (take cl a)) + int (limb_base ^ cl) * int (bn_val (drop cl a))"
    and B: "int (bn_val b) = int (bn_val (take cl b)) + int (limb_base ^ cl) * int (bn_val (drop cl b))"
    using bn_val_take_drop [OF l(1)] bn_val_take_drop [OF l(2)] by simp_all
  consider "dl = 0" | "dl < 0" | "0 < dl" by linarith
  then have "(int (bn_val r) = int (bn_val a) - int (bn_val b) + int (limb_base ^ (cl + nat \<bar>dl\<bar>)) * int (unat c))
      \<and> unat c \<le> 1 \<and> length r = cl + nat \<bar>dl\<bar>"
  proof cases
    case 1
    then have "r = r0" "c = c0" using assms(1) 0 by (auto simp: bn_sub_part_words_def)
    then show ?thesis using 1 assms v I by simp
  next
    case 2
    obtain r1 where 1: "carry_rest (\<lambda>x borrow. CRYPTO_subc_w 0 x borrow) (drop cl b) (nat (- dl)) c0 = (r1, c)" "r = r0 @ r1"
      using 2 assms(1) 0 by (auto simp: bn_sub_part_words_def split: prod.splits)
    have "nat (- dl) \<le> length (drop cl b)" "take (nat (- dl)) (drop cl b) = drop cl b" using assms(3) by simp_all
    note E = carry_rest_negc [OF 1(1) v(2) this(1), unfolded this(2)]
    show ?thesis
      using 2 assms(2) v(3) A B carry_chain [OF I' conjunct1 [OF E]] E
      by (simp add: 1(2) bn_val_append power_add)
  next
    case 3
    obtain r1 where 1: "carry_rest (\<lambda>x borrow. CRYPTO_subc_w x 0 borrow) (drop cl a) (nat dl) c0 = (r1, c)" "r = r0 @ r1"
      using 3 assms(1) 0 by (auto simp: bn_sub_part_words_def split: prod.splits)
    have "nat dl \<le> length (drop cl a)" "take (nat dl) (drop cl a) = drop cl a" using assms(2) by simp_all
    note E = carry_rest_subc [OF 1(1) v(2) this(1), unfolded this(2)]
    show ?thesis
      using 3 assms(3) v(3) A B carry_chain [OF I'' conjunct1 [OF E]] E
      by (simp add: 1(2) bn_val_append power_add)
  qed
  then have e: "int (bn_val r + bn_val b) = int (bn_val a + limb_base ^ (cl + nat \<bar>dl\<bar>) * unat c)"
    and "unat c \<le> 1" "length r = cl + nat \<bar>dl\<bar>" by simp_all
  then show "unat c \<le> 1" "length r = cl + nat \<bar>dl\<bar>" by simp_all
  show "bn_val r + bn_val b = bn_val a + limb_base ^ (cl + nat \<bar>dl\<bar>) * unat c"
    using e by (simp only: of_nat_eq_iff)
qed

lemma bn_abs_sub_part_words_value:
  assumes "bn_abs_sub_part_words a b cl dl = (r, neg)"
    and "length a = cl + nat dl" "length b = cl + nat (- dl)"
  shows "bn_val r = abs_diff (bn_val a) (bn_val b)" "neg = word_mask (bn_val a < bn_val b)"
    "length r = cl + nat \<bar>dl\<bar>"
proof -
  obtain t c where t: "bn_sub_part_words a b cl dl = (t, c)" by (cases "bn_sub_part_words a b cl dl")
  obtain u c' where u: "bn_sub_part_words b a cl (- dl) = (u, c')" by (cases "bn_sub_part_words b a cl (- dl)")
  have len: "length b = cl + nat (- dl)" "length a = cl + nat (- (- dl))" using assms by simp_all
  note T = bn_sub_part_words_value [OF t assms(2,3)]
  note U = bn_sub_part_words_value [OF u len]
  let ?n = "cl + nat \<bar>dl\<bar>"
  have w: "limb_base ^ length a \<le> limb_base ^ ?n" "limb_base ^ length b \<le> limb_base ^ ?n"
    using assms(2,3) by (auto intro!: power_increasing)
  have l: "bn_val t < limb_base ^ ?n" "bn_val u < limb_base ^ ?n" "bn_val a < limb_base ^ ?n" "bn_val b < limb_base ^ ?n"
    using T(3) U(3) less_le_trans [OF bn_val_less w(1)] less_le_trans [OF bn_val_less w(2)] by (auto intro!: bn_val_less_width)
  note TB = borrow_cases [OF T(1,2) l(1,4,3)]
  have U1: "bn_val u + bn_val a = bn_val b + limb_base ^ ?n * unat c'" using U(1) by simp
  note UB = borrow_cases [OF U1 U(2) l(2,3,4)]
  have n: "cl + nat (if dl < 0 then - dl else dl) = ?n" by simp
  have m: "0 - c = word_mask (bn_val a < bn_val b)" using minus_bit_mask [OF T(2)] TB(1) by simp
  have "r = (if bn_val a < bn_val b then u else t)" and neg: "neg = word_mask (bn_val a < bn_val b)"
    using assms(1) T(3) U(3)
    by (auto simp: bn_abs_sub_part_words_def t u m n bn_select_words_mask Let_def simp del: diff_0 word_mask_simps)
  with T U show "bn_val r = abs_diff (bn_val a) (bn_val b)" "length r = ?n"
    by (auto simp: abs_diff_def TB(3) UB(3))
  show "neg = word_mask (bn_val a < bn_val b)" by (rule neg)
qed

end
