(* ===== verification/Bn_Mul.thy ===== *)
theory Bn_Mul
  imports Bn_Comba Bn_Limbs
begin

text \<open>
  Products and squares of arrays of limbs (mul.c): the schoolbook loops, and Karatsuba's recursion.  The
  scratch array \<open>t\<close> of the code holds the intermediate words \<open>t0\<close>, \<open>t1\<close>, \<open>t23\<close> below; the recursive calls
  get the part of it behind them.
\<close>

subsection \<open>The schoolbook product\<close>

text \<open>
  One row after the other: the lowest word of the window \<open>r\<close> is final, and the words above it get the next
  multiple of \<open>a\<close>, with the carry on top.  (The code has four copies of the row in its loop.)
\<close>

fun mul_rows :: "u64 list \<Rightarrow> u64 list \<Rightarrow> nat \<Rightarrow> u64 list \<Rightarrow> nat \<Rightarrow> u64 list" where
  "mul_rows r a na b 0 = r"
| "mul_rows r a na b (Suc nb) =
     (let (r', c) = bn_mul_add_words (drop 1 r) a na (b ! 1)
      in r ! 0 # mul_rows (r' @ [c]) a na (drop 1 b) nb)"

definition bn_mul_normal :: "u64 list \<Rightarrow> nat \<Rightarrow> u64 list \<Rightarrow> nat \<Rightarrow> u64 list" where
  "bn_mul_normal a na b nb =
     (let (a, na, b, nb) = (if na < nb then (b, nb, a, na) else (a, na, b, nb))
      in if nb = 0 then replicate na 0
         else let (r, c) = bn_mul_words a na (b ! 0) in mul_rows (r @ [c]) a na b (nb - 1))"

text \<open>
  The products of different words for a square: row \<open>i\<close> starts two words above the row before it.
\<close>

fun sqr_rows :: "u64 list \<Rightarrow> u64 list \<Rightarrow> nat \<Rightarrow> u64 list" where
  "sqr_rows r ap 0 = r"
| "sqr_rows r ap (Suc i) =
     (let (r', c) = bn_mul_add_words r (drop 1 ap) (Suc i) (ap ! 0); r = r' @ [c]
      in take 2 r @ sqr_rows (drop 2 r) (drop 1 ap) i)"

definition bn_sqr_normal :: "u64 list \<Rightarrow> nat \<Rightarrow> u64 list" where
  "bn_sqr_normal a n =
     (if n = 0 then []
      else let r = (if n > 1
             then let (ws, c) = bn_mul_words (drop 1 a) (n - 1) (a ! 0); rp = ws @ [c]
                  in [0] @ take 2 rp @ sqr_rows (drop 2 rp) (drop 1 a) (n - 2) @ [0]
             else [0, 0]);
             (r, _) = bn_add_words r r (2 * n);
             tmp = bn_sqr_words a n;
             (r, _) = bn_add_words r tmp (2 * n)
      in r)"

lemma take_drop_1: "0 < length xs \<Longrightarrow> take (n - 1) (drop 1 xs) = drop 1 (take n xs)"
  by (cases n; cases xs) simp_all

lemma bn_val_hd_tl: "xs \<noteq> [] \<Longrightarrow> bn_val xs = unat (xs ! 0) + limb_base * bn_val (drop 1 xs)"
  by (cases xs) simp_all

lemma mul_rows_value:
  assumes "length r = Suc na" "na \<le> length a" "nb < length b"
  shows "bn_val (mul_rows r a na b nb) = bn_val r + limb_base * bn_val (take na a) * bn_val (take nb (drop 1 b))
    \<and> length (mul_rows r a na b nb) = Suc na + nb"
  using assms(1,3)
proof (induction nb arbitrary: r b)
  case 0
  then show ?case by simp
next
  case (Suc nb)
  obtain r' c where r': "bn_mul_add_words (drop 1 r) a na (b ! 1) = (r', c)" by fastforce
  have l: "na \<le> length (drop 1 r)" "take na (drop 1 r) = drop 1 r" using Suc.prems(1) by simp_all
  note v = bn_mul_add_words_value [OF r' l(1) assms(2), unfolded l(2)]
  have IH: "bn_val (mul_rows (r' @ [c]) a na (drop 1 b) nb)
      = bn_val (r' @ [c]) + limb_base * bn_val (take na a) * bn_val (take nb (drop 1 (drop 1 b)))"
    "length (mul_rows (r' @ [c]) a na (drop 1 b) nb) = Suc na + nb"
    using Suc.IH [of "r' @ [c]" "drop 1 b"] v(2) Suc.prems(2) by simp_all
  have R: "bn_val r = unat (r ! 0) + limb_base * bn_val (drop 1 r)"
    using Suc.prems(1) by (intro bn_val_hd_tl) auto
  have "drop 1 b \<noteq> []" using Suc.prems(2) by simp
  then have B: "bn_val (take (Suc nb) (drop 1 b)) = unat (b ! 1) + limb_base * bn_val (take nb (drop 1 (drop 1 b)))"
    using Suc.prems(2) by (cases "drop 1 b") (simp_all add: nth_via_drop)
  have "bn_val (r' @ [c]) = bn_val (drop 1 r) + bn_val (take na a) * unat (b ! 1)"
    using v by (simp add: bn_val_append)
  moreover have s: "mul_rows r a na b (Suc nb) = r ! 0 # mul_rows (r' @ [c]) a na (drop 1 b) nb"
    by (simp add: r' [simplified])
  ultimately have "bn_val (mul_rows r a na b (Suc nb)) = bn_val r + limb_base * bn_val (take na a) * bn_val (take (Suc nb) (drop 1 b))"
    unfolding R B s bn_val.simps IH(1) by (simp add: distrib_left mult_ac)
  then show ?case using IH(2) by (simp only: s) simp
qed

lemma bn_mul_normal_value:
  assumes "na \<le> length a" "nb \<le> length b"
  shows "bn_val (bn_mul_normal a na b nb) = bn_val (take na a) * bn_val (take nb b)"
    and "length (bn_mul_normal a na b nb) = na + nb"
proof -
  have core: "bn_val (if nb = 0 then replicate na 0 else let (r, c) = bn_mul_words a na (b ! 0) in mul_rows (r @ [c]) a na b (nb - 1))
      = bn_val (take na a) * bn_val (take nb b)
    \<and> length (if nb = 0 then replicate na 0 else let (r, c) = bn_mul_words a na (b ! 0) in mul_rows (r @ [c]) a na b (nb - 1))
      = na + nb" if l: "na \<le> length a" "nb \<le> length b" for a b :: "u64 list" and na nb
  proof (cases nb)
    case 0
    then show ?thesis by simp
  next
    case (Suc m)
    obtain r c where r: "bn_mul_words a na (b ! 0) = (r, c)" by fastforce
    note v = bn_mul_words_value [OF r l(1)]
    have "m < length b" using l(2) Suc by simp
    note w = mul_rows_value [of "r @ [c]" na a m b, OF _ l(1) this]
    have "bn_val (take nb b) = unat (b ! 0) + limb_base * bn_val (take m (drop 1 b))"
      using l(2) Suc by (cases b) simp_all
    then show ?thesis using v w by (simp add: Suc r bn_val_append distrib_left mult_ac)
  qed
  show "bn_val (bn_mul_normal a na b nb) = bn_val (take na a) * bn_val (take nb b)"
    "length (bn_mul_normal a na b nb) = na + nb"
    using core [OF assms] core [OF assms(2,1)]
    by (auto simp: bn_mul_normal_def mult.commute add.commute simp del: mult_is_0)
qed

subsection \<open>The schoolbook square\<close>

fun cross :: "u64 list \<Rightarrow> nat" where
  "cross [] = 0"
| "cross (x # xs) = limb_base * (unat x * bn_val xs) + limb_base ^ 2 * cross xs"

fun squares :: "u64 list \<Rightarrow> nat" where
  "squares [] = 0"
| "squares (x # xs) = unat x ^ 2 + limb_base ^ 2 * squares xs"

lemma square_split: "bn_val ws ^ 2 = 2 * cross ws + squares ws"
proof (induction ws)
  case Nil
  then show ?case by simp
next
  case (Cons w ws)
  have "bn_val (w # ws) ^ 2 = unat w ^ 2 + 2 * (limb_base * (unat w * bn_val ws)) + limb_base ^ 2 * bn_val ws ^ 2"
    by (simp add: power2_eq_square algebra_simps)
  then show ?case by (simp add: Cons distrib_left)
qed

lemma sqr_rows_value:
  assumes "length r = i" "Suc i \<le> length ap"
  shows "bn_val (sqr_rows r ap i) = bn_val r + unat (ap ! 0) * bn_val (take i (drop 1 ap)) + limb_base * cross (take i (drop 1 ap))
    \<and> length (sqr_rows r ap i) = 2 * i"
  using assms
proof (induction i arbitrary: r ap)
  case 0
  then show ?case by simp
next
  case (Suc i)
  obtain x xs where ap: "ap = x # xs" and xs: "Suc i \<le> length xs" using Suc.prems(2) by (cases ap) auto
  define ys where "ys = take (Suc i) xs"
  obtain r' c where r': "bn_mul_add_words r xs (Suc i) x = (r', c)" by fastforce
  have l: "Suc i \<le> length r" "take (Suc i) r = r" using Suc.prems(1) by simp_all
  note v = bn_mul_add_words_value [OF r' l(1) xs, unfolded l(2), folded ys_def]
  define w where "w = r' @ [c]"
  have w: "length w = Suc (Suc i)" "bn_val w = bn_val r + bn_val ys * unat x"
    using v by (simp_all add: w_def bn_val_append)
  have IH: "bn_val (sqr_rows (drop 2 w) xs i)
      = bn_val (drop 2 w) + unat (xs ! 0) * bn_val (take i (drop 1 xs)) + limb_base * cross (take i (drop 1 xs))"
    "length (sqr_rows (drop 2 w) xs i) = 2 * i"
    using Suc.IH [of "drop 2 w" xs] w(1) xs by simp_all
  have c: "cross ys = limb_base * (unat (xs ! 0) * bn_val (take i (drop 1 xs)) + limb_base * cross (take i (drop 1 xs)))"
    using xs by (cases xs) (simp_all add: ys_def power2_eq_square algebra_simps)
  have W: "bn_val w = bn_val (take 2 w) + limb_base ^ 2 * bn_val (drop 2 w)"
    using w(1) by (intro bn_val_take_drop) simp
  have s: "sqr_rows r ap (Suc i) = take 2 w @ sqr_rows (drop 2 w) xs i"
    by (simp add: ap r' w_def)
  have "bn_val (sqr_rows r ap (Suc i)) = bn_val (take 2 w) + limb_base ^ 2 * bn_val (sqr_rows (drop 2 w) xs i)"
    unfolding s bn_val_append using w(1) by (simp add: power2_eq_square)
  also have "\<dots> = bn_val w + limb_base * cross ys"
    unfolding IH(1) W c by (simp add: power2_eq_square algebra_simps)
  finally have "bn_val (sqr_rows r ap (Suc i)) = bn_val r + unat x * bn_val ys + limb_base * cross ys"
    unfolding w(2) by (simp add: mult.commute)
  moreover have "length (sqr_rows r ap (Suc i)) = 2 * Suc i" unfolding s using IH(2) w(1) by simp
  ultimately show ?case by (simp add: ap ys_def)
qed

lemma bn_sqr_words_value:
  "n \<le> length a \<Longrightarrow> bn_val (bn_sqr_words a n) = squares (take n a) \<and> length (bn_sqr_words a n) = 2 * n"
proof (induction n arbitrary: a rule: less_induct)
  case (less n)
  have p: "bn_val ([r0, r1] @ ws) = unat x ^ 2 + limb_base ^ 2 * bn_val ws" if "sqr x = (r0, r1)" for x r0 r1 ws
    using sqr_value [OF that] by (simp add: power2_eq_square distrib_left mult.assoc)
  consider "4 \<le> n" | "n < 4" "n \<noteq> 0" | "n = 0" by linarith
  then show ?case
  proof cases
    case 1
    then obtain x0 x1 x2 x3 b where a: "a = x0 # x1 # x2 # x3 # b"
      using less.prems order_trans [OF 1 less.prems] by (auto simp: eval_nat_numeral Suc_le_length_iff)
    obtain m where "n = 4 + m" using le_Suc_ex [OF 1] by blast
    then have n: "n = Suc (Suc (Suc (Suc m)))" by simp
    have IH: "bn_val (bn_sqr_words b m) = squares (take m b) \<and> length (bn_sqr_words b m) = 2 * m"
      using less.IH [of m b] less.prems by (simp add: n a)
    obtain y0 y1 y2 y3 z0 z1 z2 z3 where s: "sqr x0 = (y0, z0)" "sqr x1 = (y1, z1)" "sqr x2 = (y2, z2)" "sqr x3 = (y3, z3)"
      by (metis prod.exhaust)
    have e: "bn_sqr_words a n = [y0, z0] @ [y1, z1] @ [y2, z2] @ [y3, z3] @ bn_sqr_words b m"
      by (subst bn_sqr_words.simps) (simp add: a n s eval_nat_numeral)
    have "length (bn_sqr_words a n) = 2 * n" unfolding e using IH by (simp add: n)
    moreover have "bn_val (bn_sqr_words a n) = squares (take n a)"
      unfolding e p [OF s(1)] p [OF s(2)] p [OF s(3)] p [OF s(4)] using IH by (simp add: a n)
    ultimately show ?thesis by blast
  next
    case 2
    then obtain x b where a: "a = x # b" using less.prems by (cases a) auto
    obtain m where n: "n = Suc m" using 2 by (cases n) auto
    obtain y z where s: "sqr x = (y, z)" by fastforce
    have IH: "bn_val (bn_sqr_words b m) = squares (take m b) \<and> length (bn_sqr_words b m) = 2 * m"
      using less.IH [of m b] less.prems by (simp add: n a)
    have e: "bn_sqr_words a n = [y, z] @ bn_sqr_words b m"
      using 2 by (subst bn_sqr_words.simps) (simp add: a n s)
    show ?thesis unfolding e p [OF s] using IH by (simp add: a n)
  next
    case 3
    then show ?thesis by (simp add: bn_sqr_words.simps)
  qed
qed

lemma bn_sqr_normal_value:
  assumes "n \<le> length a"
  shows "bn_val (bn_sqr_normal a n) = bn_val (take n a) ^ 2" "length (bn_sqr_normal a n) = 2 * n"
proof -
  define A where "A = take n a"
  have A: "length A = n" using assms by (simp add: A_def)
  have sq: "bn_val A ^ 2 < limb_base ^ (2 * n)"
    using power_strict_mono [OF bn_val_less_width [OF A], of 2] by (simp add: power_mult [symmetric] mult.commute)
  have ov: "x = 0" if "y + limb_base ^ (2 * n) * x < limb_base ^ (2 * n)" for x y :: nat
    using that by (cases x) auto
  show "bn_val (bn_sqr_normal a n) = bn_val (take n a) ^ 2" "length (bn_sqr_normal a n) = 2 * n"
  proof -
    have "bn_val (bn_sqr_normal a n) = bn_val A ^ 2 \<and> length (bn_sqr_normal a n) = 2 * n"
    proof (cases n)
      case 0
      then show ?thesis using A by (simp add: bn_sqr_normal_def)
    next
      case (Suc m)
      define r where "r = (if n > 1
               then let (ws, c) = bn_mul_words (drop 1 a) (n - 1) (a ! 0); rp = ws @ [c]
                    in [0] @ take 2 rp @ sqr_rows (drop 2 rp) (drop 1 a) (n - 2) @ [0]
               else [0, 0])"
      have r: "bn_val r = cross A \<and> length r = 2 * n"
      proof (cases "n > 1")
        case True
        obtain ws c where ws: "bn_mul_words (drop 1 a) (n - 1) (a ! 0) = (ws, c)" by fastforce
        obtain x xs where x: "A = x # xs" and xs: "length xs = n - 1" using A True by (cases A) auto
        have h: "a ! 0 = x" "take (n - 1) (drop 1 a) = xs"
        proof -
          have "a ! 0 = A ! 0" using True by (simp add: A_def)
          then show "a ! 0 = x" by (simp add: x)
          have "take (n - 1) (drop 1 a) = drop 1 A" unfolding A_def using True assms by (simp add: drop_take)
          then show "take (n - 1) (drop 1 a) = xs" by (simp add: x)
        qed
        have "n - 1 \<le> length (drop 1 a)" using assms by simp
        note v = bn_mul_words_value [OF ws this, unfolded h]
        define rp where "rp = ws @ [c]"
        have rp: "bn_val rp = bn_val xs * unat x" "length rp = n" using v True by (simp_all add: rp_def bn_val_append)
        obtain y ys where xs': "xs = y # ys" using xs True by (cases xs) auto
        have h2: "drop 1 a ! 0 = y" "take (n - 2) (drop 1 (drop 1 a)) = ys"
        proof -
          have "drop 1 a ! 0 = take (n - 1) (drop 1 a) ! 0" using True by simp
          then show "drop 1 a ! 0 = y" by (simp only: h(2)) (simp add: xs')
          have "take (n - 2) (drop 1 (drop 1 a)) = drop 1 (take (n - 1) (drop 1 a))" using True assms by (simp add: drop_take numeral_2_eq_2)
          then show "take (n - 2) (drop 1 (drop 1 a)) = ys" by (simp only: h(2)) (simp add: xs')
        qed
        define q where "q = sqr_rows (drop 2 rp) (drop 1 a) (n - 2)"
        have q: "bn_val q = bn_val (drop 2 rp) + unat y * bn_val ys + limb_base * cross ys" "length q = 2 * (n - 2)"
          unfolding q_def using sqr_rows_value [of "drop 2 rp" "n - 2" "drop 1 a"] rp(2) True assms h2 by simp_all
        have R: "bn_val rp = bn_val (take 2 rp) + limb_base ^ 2 * bn_val (drop 2 rp)"
          using rp(2) True by (intro bn_val_take_drop) simp
        have r': "r = [0] @ take 2 rp @ q @ [0]"
          unfolding r_def using True by (simp add: ws [simplified] rp_def q_def)
        have "bn_val r = limb_base * (bn_val (take 2 rp) + limb_base ^ 2 * bn_val q)"
          unfolding r' using rp(2) True by (simp add: bn_val_append power2_eq_square)
        also have "\<dots> = limb_base * (bn_val rp + limb_base * cross xs)"
          unfolding R q(1) xs' by (simp add: power2_eq_square algebra_simps)
        also have "\<dots> = cross A" unfolding rp(1) x by (simp add: power2_eq_square algebra_simps)
        finally show ?thesis using rp(2) q(2) True by (simp add: r')
      next
        case False
        then have "n = 1" using Suc by simp
        then obtain x where "A = [x]" using A by (cases A) auto
        then show ?thesis using \<open>n = 1\<close> by (simp add: r_def)
      qed
      obtain r2 c2 where r2: "bn_add_words r r (2 * n) = (r2, c2)" by fastforce
      obtain r3 c3 where r3: "bn_add_words r2 (bn_sqr_words a n) (2 * n) = (r3, c3)" by fastforce
      have l: "2 * n \<le> length r" "take (2 * n) r = r" using r by simp_all
      note v2 = bn_add_words_value [OF r2 l(1,1), unfolded l(2)]
      have l2: "2 * n \<le> length r2" "take (2 * n) r2 = r2" using v2(3) by simp_all
      have sw: "2 * n \<le> length (bn_sqr_words a n)" "bn_val (take (2 * n) (bn_sqr_words a n)) = squares A"
        using bn_sqr_words_value [OF assms] by (simp_all add: A_def)
      note v3 = bn_add_words_value [OF r3 l2(1) sw(1), unfolded l2(2) sw(2)]
      have total: "bn_val A ^ 2 = 2 * cross A + squares A" by (rule square_split)
      have "c2 = 0"
      proof -
        have "bn_val r2 + limb_base ^ (2 * n) * unat c2 < limb_base ^ (2 * n)"
          using v2(1) r total sq by simp
        from ov [OF this] show ?thesis by (simp add: unat_eq_0)
      qed
      with v2(1) r have e2: "bn_val r2 = 2 * cross A" by simp
      have "c3 = 0"
      proof -
        have "bn_val r3 + limb_base ^ (2 * n) * unat c3 < limb_base ^ (2 * n)"
          using v3(1) e2 total sq by simp
        from ov [OF this] show ?thesis by (simp add: unat_eq_0)
      qed
      with v3(1) e2 total have "bn_val r3 = bn_val A ^ 2" by simp
      moreover have "bn_sqr_normal a n = (case bn_add_words r r (2 * n) of (r, _) \<Rightarrow>
          case bn_add_words r (bn_sqr_words a n) (2 * n) of (r, _) \<Rightarrow> r)"
        unfolding bn_sqr_normal_def r_def Let_def using Suc by (simp only: if_False nat.distinct simp_thms)
      then have "bn_sqr_normal a n = r3" by (simp only: r2 r3 prod.case)
      ultimately show ?thesis using v3(3) by simp
    qed
    then show "bn_val (bn_sqr_normal a n) = bn_val (take n a) ^ 2" "length (bn_sqr_normal a n) = 2 * n"
      by (simp_all add: A_def)
  qed
qed

end
