(* ===== verification/Bn_Bytes.thy ===== *)
theory Bn_Bytes
  imports Bn_Words
begin

text \<open>
  Limbs and byte strings (bytes.c).  The code reads an array of limbs as its little-endian bytes, which
  is what \<open>limb_bytes\<close> is.
\<close>

definition limb_bytes :: "u64 list \<Rightarrow> u8 list" where
  "limb_bytes ws = concat (map (\<lambda>w. le_bytes 8 (unat w)) ws)"

definition bytes_limb :: "u8 list \<Rightarrow> u64" where
  "bytes_limb bs = of_nat (le_val bs)"

text \<open>\<^verbatim>\<open>CRYPTO_load_word_be\<close> reads eight bytes, the most significant first.\<close>

definition CRYPTO_load_word_be :: "u8 list \<Rightarrow> u64" where
  "CRYPTO_load_word_be bs = bytes_limb (rev (take 8 bs))"

text \<open>\<open>None\<close>: the run-time check aborts.\<close>

function load_words_be :: "u8 list \<Rightarrow> nat \<Rightarrow> u64 list" where
  "load_words_be bs in_len =
     (if 8 \<le> in_len then CRYPTO_load_word_be (drop (in_len - 8) bs) # load_words_be bs (in_len - 8)
      else if in_len \<noteq> 0 then [foldl (\<lambda>word i. push_bit 8 word OR ucast (bs ! i)) 0 [0..<in_len]]
      else [])"
  by pat_completeness auto
termination by (relation "measure (\<lambda>(bs, n). n)") auto

declare load_words_be.simps [simp del]

definition bn_big_endian_to_words :: "nat \<Rightarrow> u8 list \<Rightarrow> nat \<Rightarrow> u64 list option" where
  "bn_big_endian_to_words out_len bs in_len =
     (if in_len \<le> out_len * 8
      then let out = load_words_be bs in_len in Some (out @ replicate (out_len - length out) 0)
      else None)"

definition fits_in_bytes :: "u64 list \<Rightarrow> nat \<Rightarrow> nat \<Rightarrow> bool" where
  "fits_in_bytes words num_words num_bytes =
     (let bytes = limb_bytes words; tot_bytes = num_words * 8
      in foldl (\<lambda>msk i. msk OR bytes ! i) 0 [num_bytes..<tot_bytes] = 0)"

text \<open>\<open>None\<close>: the assertion fails.\<close>

definition bn_words_to_big_endian :: "nat \<Rightarrow> u64 list \<Rightarrow> nat \<Rightarrow> u8 list option" where
  "bn_words_to_big_endian out_len ws in_len =
     (if fits_in_bytes ws in_len out_len
      then let bytes = limb_bytes ws;
               num_bytes = in_len * 8;
               num_bytes = (if out_len < num_bytes then out_len else num_bytes)
           in Some (replicate (out_len - num_bytes) 0 @ rev (take num_bytes bytes))
      else None)"

lemma length_limb_bytes [simp]: "length (limb_bytes ws) = 8 * length ws"
  by (induction ws) (simp_all add: limb_bytes_def)

lemma limb_base_bytes: "256 ^ 8 = limb_base"
  by (simp add: limb_base_def)

lemma le_val_limb_bytes: "le_val (limb_bytes ws) = bn_val ws"
proof (induction ws)
  case Nil
  then show ?case by (simp add: limb_bytes_def)
next
  case (Cons w ws)
  have "unat w < 256 ^ 8" unfolding limb_base_bytes by simp
  moreover have "limb_bytes (w # ws) = le_bytes 8 (unat w) @ limb_bytes ws" by (simp add: limb_bytes_def)
  ultimately show ?case
    using Cons by (simp add: le_val_append le_val_le_bytes limb_base_bytes del: power_numeral)
qed

lemma limb_bytes_take: "limb_bytes (take n ws) = take (8 * n) (limb_bytes ws)"
proof (induction ws arbitrary: n)
  case Nil
  then show ?case by (simp add: limb_bytes_def)
next
  case (Cons w ws)
  have c: "limb_bytes (v # vs) = le_bytes 8 (unat v) @ limb_bytes vs" for v vs by (simp add: limb_bytes_def)
  show ?case
    by (cases n) (simp_all add: c Cons, simp add: limb_bytes_def)
qed

lemma unat_bytes_limb: "length bs \<le> 8 \<Longrightarrow> unat (bytes_limb bs) = le_val bs"
proof -
  assume "length bs \<le> 8"
  then have "(256 :: nat) ^ length bs \<le> 256 ^ 8" by (intro power_increasing) simp_all
  then have "le_val bs < 2 ^ 64" using le_val_less [of bs] by simp
  then show ?thesis unfolding bytes_limb_def by (rule unat_of_nat_u64)
qed

lemma fold_be_value:
  assumes "n \<le> 7" "n \<le> length bs"
  shows "unat (foldl (\<lambda>word i. push_bit 8 word OR ucast (bs ! i)) (0 :: u64) [0..<n]) = be_val (take n bs)"
  using assms
proof (induction n)
  case 0
  then show ?case by simp
next
  case (Suc n)
  let ?w = "foldl (\<lambda>word i. push_bit 8 word OR ucast (bs ! i)) (0 :: u64) [0..<n]"
  have v: "unat ?w = be_val (take n bs)" using Suc by simp
  have "be_val (take n bs) < 256 ^ n" using be_val_less [of "take n bs"] Suc.prems by simp
  moreover have "(256 :: nat) ^ n \<le> 256 ^ 6" using Suc.prems by (intro power_increasing) simp_all
  ultimately have "unat ?w * 2 ^ 8 < 2 ^ LENGTH(64)" unfolding v by simp
  then have "unat (ucast (bs ! n) OR push_bit 8 ?w) = unat (ucast (bs ! n) :: u64) + 2 ^ 8 * unat ?w"
    by (intro unat_or_push_bit) simp_all
  then have "unat (push_bit 8 ?w OR ucast (bs ! n)) = unat (bs ! n) + 256 * be_val (take n bs)"
    unfolding v by (simp add: or.commute)
  then show ?case
    using Suc.prems by (simp add: take_Suc_conv_app_nth be_val_snoc)
qed

lemma load_words_be_value:
  assumes "n \<le> length bs"
  shows "bn_val (load_words_be bs n) = be_val (take n bs)" "length (load_words_be bs n) = (n + 7) div 8"
proof -
  have "bn_val (load_words_be bs n) = be_val (take n bs) \<and> length (load_words_be bs n) = (n + 7) div 8"
    using assms
  proof (induction n rule: less_induct)
    case (less n)
    consider "8 \<le> n" | "n < 8" "n \<noteq> 0" | "n = 0" by linarith
    then show ?case
    proof cases
      case 1
      define m where "m = n - 8"
      have n: "n = m + 8" using 1 by (simp add: m_def)
      have IH: "bn_val (load_words_be bs m) = be_val (take m bs)" "length (load_words_be bs m) = (m + 7) div 8"
        using less.IH [of m] less.prems by (simp_all add: n)
      have w: "unat (CRYPTO_load_word_be (drop m bs)) = be_val (take 8 (drop m bs))"
        by (simp add: CRYPTO_load_word_be_def unat_bytes_limb be_val_def)
      have t: "take n bs = take m bs @ take 8 (drop m bs)" unfolding n by (rule take_add)
      have l: "length (take 8 (drop m bs)) = 8" using less.prems by (simp add: n)
      have "load_words_be bs n = CRYPTO_load_word_be (drop m bs) # load_words_be bs m"
        using 1 by (subst load_words_be.simps) (simp add: m_def)
      moreover have "(n + 7) div 8 = Suc ((m + 7) div 8)" by (simp add: n)
      moreover have "be_val (take n bs) = be_val (take m bs) * limb_base + be_val (take 8 (drop m bs))"
        unfolding t be_val_append l limb_base_bytes ..
      ultimately show ?thesis using IH w by simp
    next
      case 2
      then show ?thesis using fold_be_value [of n bs] less.prems
        by (subst (1 2) load_words_be.simps) (auto simp: div_nat_eqI)
    next
      case 3
      then show ?thesis by (simp add: load_words_be.simps)
    qed
  qed
  then show "bn_val (load_words_be bs n) = be_val (take n bs)" "length (load_words_be bs n) = (n + 7) div 8"
    by simp_all
qed

lemma bn_big_endian_to_words_value:
  assumes "n \<le> length bs" "n \<le> 8 * out_len"
  obtains ws where "bn_big_endian_to_words out_len bs n = Some ws" "length ws = out_len"
    "bn_val ws = be_val (take n bs)"
proof
  show "bn_big_endian_to_words out_len bs n
      = Some (load_words_be bs n @ replicate (out_len - length (load_words_be bs n)) 0)"
    using assms by (simp add: bn_big_endian_to_words_def Let_def mult.commute)
  show "length (load_words_be bs n @ replicate (out_len - length (load_words_be bs n)) 0) = out_len"
    using assms by (simp add: load_words_be_value)
  show "bn_val (load_words_be bs n @ replicate (out_len - length (load_words_be bs n)) 0) = be_val (take n bs)"
    using assms by (simp add: bn_val_append load_words_be_value)
qed

lemma le_val_take: "n \<le> length bs \<Longrightarrow> le_val bs = le_val (take n bs) + 256 ^ n * le_val (drop n bs)"
  using le_val_append [of "take n bs" "drop n bs"] by simp

lemma le_val_zero_iff: "le_val bs = 0 \<longleftrightarrow> (\<forall>b \<in> set bs. b = 0)"
  by (induction bs) (auto simp: unat_eq_0)

lemma fits_in_bytes_iff:
  assumes "num \<le> length ws"
  shows "fits_in_bytes ws num n \<longleftrightarrow> bn_val (take num ws) < 256 ^ n"
proof -
  define bs where "bs = limb_bytes (take num ws)"
  have len: "length bs = num * 8" using assms by (simp add: bs_def)
  have v: "le_val bs = bn_val (take num ws)" by (simp add: bs_def le_val_limb_bytes)
  have nth: "limb_bytes ws ! i = bs ! i" if "i < num * 8" for i
    using that by (simp add: bs_def limb_bytes_take mult.commute)
  have or: "foldl (\<lambda>msk i. msk OR limb_bytes ws ! i) m is = 0 \<longleftrightarrow> m = 0 \<and> (\<forall>i \<in> set is. limb_bytes ws ! i = 0)"
    for m :: u8 and "is"
    by (induction "is" arbitrary: m) (auto simp: or_zero_iff)
  have "fits_in_bytes ws num n \<longleftrightarrow> (\<forall>i \<in> {n..<num * 8}. bs ! i = 0)"
    unfolding fits_in_bytes_def Let_def or using nth by simp
  also have "\<dots> \<longleftrightarrow> le_val bs < 256 ^ n"
  proof (cases "n \<le> num * 8")
    case True
    then have "drop n bs = map ((!) bs) [n..<num * 8]"
      by (intro nth_equalityI) (simp_all add: len)
    then have "(\<forall>i \<in> {n..<num * 8}. bs ! i = 0) \<longleftrightarrow> le_val (drop n bs) = 0"
      by (simp add: le_val_zero_iff)
    also have "\<dots> \<longleftrightarrow> le_val bs < 256 ^ n"
    proof -
      have "le_val (take n bs) < 256 ^ n" using le_val_less [of "take n bs"] True by (simp add: len)
      moreover have "256 ^ n \<le> 256 ^ n * le_val (drop n bs)" if "le_val (drop n bs) \<noteq> 0"
        using that by simp
      moreover have "le_val bs = le_val (take n bs) + 256 ^ n * le_val (drop n bs)"
        using True by (simp add: le_val_take len)
      ultimately show ?thesis by (cases "le_val (drop n bs) = 0") (simp, linarith)
    qed
    finally show ?thesis .
  next
    case False
    have "le_val bs < 256 ^ (num * 8)" using le_val_less [of bs] by (simp add: len)
    also have "\<dots> \<le> 256 ^ n" using False by (intro power_increasing) simp_all
    finally show ?thesis using False by simp
  qed
  finally show ?thesis by (simp only: v)
qed

lemma le_val_le_bytes_pad: "le_val (bs @ replicate k 0) = le_val bs"
  by (simp add: le_val_append le_val_zero_iff [THEN iffD2])

lemma bn_words_to_big_endian_value:
  assumes "num \<le> length ws" "bn_val (take num ws) < 256 ^ n"
  shows "bn_words_to_big_endian n ws num = Some (be_bytes n (bn_val (take num ws)))"
proof -
  define k where "k = (if n < num * 8 then n else num * 8)"
  define bs where "bs = limb_bytes (take num ws)"
  have v: "le_val bs = bn_val (take num ws)" and l: "length bs = num * 8"
    using assms(1) by (simp_all add: bs_def le_val_limb_bytes)
  have t: "take k (limb_bytes ws) = take k bs"
    by (simp add: bs_def limb_bytes_take k_def min_def)
  have "le_val (take k bs) = bn_val (take num ws)"
  proof (cases "n < num * 8")
    case True
    have "le_val bs = le_val (take n bs) + 256 ^ n * le_val (drop n bs)" using True by (simp add: le_val_take l)
    moreover have "le_val (drop n bs) = 0"
    proof (rule ccontr)
      assume "le_val (drop n bs) \<noteq> 0"
      then have "256 ^ n \<le> 256 ^ n * le_val (drop n bs)" by simp
      with calculation assms(2) v show False by linarith
    qed
    ultimately show ?thesis using True v by (simp add: k_def)
  next
    case False
    then show ?thesis using v l by (simp add: k_def)
  qed
  then have "be_bytes n (bn_val (take num ws)) = replicate (n - k) 0 @ rev (take k bs)"
    using l by (intro be_bytes_eqI) (simp_all add: be_val_append be_val_def k_def le_val_le_bytes_pad)
  then show ?thesis
    using assms fits_in_bytes_iff [OF assms(1), of n] by (simp add: bn_words_to_big_endian_def k_def [symmetric] t Let_def)
qed

end
