(* ===== verification/Bn_Karatsuba.thy ===== *)
theory Bn_Karatsuba
  imports Bn_Mul Bn_Bytes
begin

text \<open>
  Karatsuba's recursion for products and squares (mul.c).  An operand of \<open>n2 + dna\<close> words is split after
  \<open>n\<close> words; \<open>r01\<close> and \<open>r23\<close> are the halves of \<open>r\<close>, and \<open>t23\<close> is what the code keeps from \<^verbatim>\<open>t[n2]\<close> on.
\<close>

subsection \<open>The code\<close>

text \<open>The carry is added to the words of \<open>r\<close> that are left.\<close>

fun propagate :: "u64 list \<Rightarrow> u64 \<Rightarrow> u64 list \<times> u64" where
  "propagate [] c = ([], c)"
| "propagate (x # xs) c =
     (let y = x + c; c = (if y < x then 1 else 0); (ys, c) = propagate xs c in (y # ys, c))"

text \<open>The end of \<^verbatim>\<open>bn_mul_recursive\<close> and of \<^verbatim>\<open>bn_mul_part_recursive\<close>: the middle term and the sum.\<close>

definition karatsuba_sum :: "nat \<Rightarrow> u64 list \<Rightarrow> u64 list \<Rightarrow> u64 list \<Rightarrow> u64 \<Rightarrow> u64 list" where
  "karatsuba_sum n r01 r23 t23 neg =
     (let n2 = 2 * n;
          r = r01 @ r23;
          (t01, c) = bn_add_words r01 r23 n2;
          (s, borrow) = bn_sub_words t01 t23 n2;
          c_neg = c - borrow;
          (t23, carry) = bn_add_words t01 t23 n2;
          c_pos = c + carry;
          t23 = bn_select_words neg s t23 n2;
          c = constant_time_select_w neg c_neg c_pos;
          (mid, carry) = bn_add_words (drop n r) t23 n2;
          c = c + carry;
          (high, _) = propagate (drop (n + n2) r) c
      in take n r @ mid @ high)"

function bn_mul_recursive :: "u64 list \<Rightarrow> u64 list \<Rightarrow> nat \<Rightarrow> int \<Rightarrow> int \<Rightarrow> u64 list" where
  "bn_mul_recursive a b n2 dna dnb =
     (if n2 = 8 \<and> dna = 0 \<and> dnb = 0 then bn_mul_comba8 a b
      else if n2 < 16
      then let r = bn_mul_normal a (nat (int n2 + dna)) b (nat (int n2 + dnb))
           in if dna + dnb < 0 then r @ replicate (nat (- (dna + dnb))) 0 else r
      else let n = n2 div 2; tna = nat (int n + dna); tnb = nat (int n + dnb);
               (t0, neg) = bn_abs_sub_part_words (take n a) (drop n a) tna (int n - int tna);
               (t1, neg') = bn_abs_sub_part_words (drop n b) (take n b) tnb (int tnb - int n);
               neg = neg XOR neg';
               (t23, r01, r23) =
                 (if n = 4 \<and> dna = 0 \<and> dnb = 0
                  then (bn_mul_comba4 t0 t1, bn_mul_comba4 (take n a) (take n b), bn_mul_comba4 (drop n a) (drop n b))
                  else if n = 8 \<and> dna = 0 \<and> dnb = 0
                  then (bn_mul_comba8 t0 t1, bn_mul_comba8 (take n a) (take n b), bn_mul_comba8 (drop n a) (drop n b))
                  else (bn_mul_recursive t0 t1 n 0 0, bn_mul_recursive (take n a) (take n b) n 0 0,
                        bn_mul_recursive (drop n a) (drop n b) n dna dnb))
           in karatsuba_sum n r01 r23 t23 neg)"
  by pat_completeness auto
termination by (relation "measure (\<lambda>(a, b, n2, dna, dnb). n2)") auto

declare bn_mul_recursive.simps [simp del]

text \<open>The loop that looks for the size of the upper halves.\<close>

function part_split :: "nat \<Rightarrow> nat \<Rightarrow> nat \<Rightarrow> nat" where
  "part_split i tna tnb =
     (let i = i div 2 in if i < tna \<or> i < tnb \<or> i = tna \<or> i = tnb then i else part_split i tna tnb)"
  by pat_completeness auto
termination by (relation "measure (\<lambda>(i, tna, tnb). i)") auto

declare part_split.simps [simp del]

lemma part_split_less: "0 < i \<Longrightarrow> part_split i tna tnb < i"
proof (induction i tna tnb rule: part_split.induct)
  case (1 i tna tnb)
  show ?case
  proof (cases "i div 2 < tna \<or> i div 2 < tnb \<or> i div 2 = tna \<or> i div 2 = tnb")
    case True
    then show ?thesis using 1(2) by (subst part_split.simps) (simp add: Let_def)
  next
    case False
    then have "0 < i div 2" by linarith
    with 1(1) [OF refl False] have "part_split (i div 2) tna tnb < i div 2" .
    then show ?thesis using False by (subst part_split.simps) (simp add: Let_def)
  qed
qed

text \<open>Clearing the first \<open>k\<close> bytes of an array of words.\<close>

definition clear_bytes :: "u64 list \<Rightarrow> nat \<Rightarrow> u64 list" where
  "clear_bytes ws k =
     map (\<lambda>i. bytes_limb (take 8 (drop (8 * i) (replicate k 0 @ drop k (limb_bytes ws))))) [0..<length ws]"

text \<open>\<open>old\<close> is the contents of the result array; only the first branch leaves some of it.\<close>

function bn_mul_part_recursive :: "u64 list \<Rightarrow> u64 list \<Rightarrow> u64 list \<Rightarrow> nat \<Rightarrow> nat \<Rightarrow> nat \<Rightarrow> u64 list" where
  "bn_mul_part_recursive old a b n tna tnb =
     (let n2 = n * 2
      in if n < 8
         then bn_mul_normal a (n + tna) b (n + tnb) @ clear_bytes (drop (n2 + tna + tnb) old) (n2 - tna - tnb)
         else let (t0, neg) = bn_abs_sub_part_words (take n a) (drop n a) tna (int n - int tna);
                  (t1, neg') = bn_abs_sub_part_words (drop n b) (take n b) tnb (int tnb - int n);
                  neg = neg XOR neg';
                  (t23, r01, r23) =
                    (if n = 8
                     then (bn_mul_comba8 t0 t1, bn_mul_comba8 (take n a) (take n b),
                           bn_mul_normal (drop n a) tna (drop n b) tnb @ replicate (n2 - tna - tnb) 0)
                     else (bn_mul_recursive t0 t1 n 0 0, bn_mul_recursive (take n a) (take n b) n 0 0,
                           if tna < 16 \<and> tnb < 16
                           then bn_mul_normal (drop n a) tna (drop n b) tnb @ replicate (n2 - tna - tnb) 0
                           else let i = part_split n tna tnb
                           in (if i < tna \<or> i < tnb
                               then bn_mul_part_recursive (replicate (4 * i) 0) (drop n a) (drop n b) i (tna - i) (tnb - i)
                               else bn_mul_recursive (drop n a) (drop n b) i (int tna - int i) (int tnb - int i))
                              @ replicate (n2 - (if i < tna \<or> i < tnb then 4 * i else 2 * i)) 0))
              in karatsuba_sum n r01 r23 t23 neg)"
  by pat_completeness auto
termination
  by (relation "measure (\<lambda>(old, a, b, n, tna, tnb). n)") (auto simp: part_split_less)

declare bn_mul_part_recursive.simps [simp del]

function bn_sqr_recursive :: "u64 list \<Rightarrow> nat \<Rightarrow> u64 list" where
  "bn_sqr_recursive a n2 =
     (if n2 = 4 then bn_sqr_comba4 a
      else if n2 = 8 then bn_sqr_comba8 a
      else if n2 < 16 then bn_sqr_normal a n2
      else let n = n2 div 2;
               t0 = bn_abs_sub_words (take n a) (drop n a) n;
               t23 = bn_sqr_recursive t0 n;
               r01 = bn_sqr_recursive (take n a) n;
               r23 = bn_sqr_recursive (drop n a) n;
               (t01, c) = bn_add_words r01 r23 n2;
               (t23, borrow) = bn_sub_words t01 t23 n2;
               c = c - borrow;
               r = r01 @ r23;
               (mid, carry) = bn_add_words (drop n r) t23 n2;
               c = c + carry;
               (high, _) = propagate (drop (n + n2) r) c
           in take n r @ mid @ high)"
  by pat_completeness auto
termination by (relation "measure (\<lambda>(a, n2). n2)") auto

declare bn_sqr_recursive.simps [simp del]

subsection \<open>The sum of the three products\<close>

lemma propagate_value:
  assumes "propagate xs c = (ys, c')"
  shows "bn_val ys + limb_base ^ length xs * unat c' = bn_val xs + unat c \<and> length ys = length xs"
  using assms
proof (induction xs arbitrary: c ys)
  case Nil
  then show ?case by simp
next
  case (Cons x xs)
  define c1 :: u64 where "c1 = (if x + c < x then 1 else 0)"
  obtain ys' where p: "propagate xs c1 = (ys', c')" and ys: "ys = (x + c) # ys'"
    using Cons.prems by (auto simp: c1_def Let_def split: prod.splits)
  have IH: "bn_val ys' + limb_base ^ length xs * unat c' = bn_val xs + unat c1 \<and> length ys' = length xs"
    by (rule Cons.IH [OF p])
  have s: "unat (x + c) + limb_base * unat c1 = unat x + unat c"
    using add_carry_out [of c x] by (simp add: c1_def add.commute of_bool_def if_distrib cong: if_cong)
  have "bn_val ys + limb_base ^ length (x # xs) * unat c' = unat (x + c) + limb_base * (bn_val ys' + limb_base ^ length xs * unat c')"
    by (simp add: ys distrib_left)
  also have "\<dots> = unat x + unat c + limb_base * bn_val xs"
    unfolding conjunct1 [OF IH] distrib_left using s by simp
  finally show ?case using IH by (simp add: ys)
qed

text \<open>
  The sum is exact when the middle term is the value of \<open>m\<close> and the result fits.
\<close>

lemma add_middle:
  assumes "length r = 4 * n" "length t = 2 * n"
    and "bn_add_words (drop n r) t (2 * n) = (mid, k)"
    and "propagate (drop (n + 2 * n) r) (c + k) = (high, c')"
    and "unat c \<le> 2" and "bn_val r + limb_base ^ n * (bn_val t + limb_base ^ (2 * n) * unat c) < limb_base ^ (4 * n)"
  shows "bn_val (take n r @ mid @ high) = bn_val r + limb_base ^ n * (bn_val t + limb_base ^ (2 * n) * unat c)"
    "length (take n r @ mid @ high) = 4 * n"
proof -
  have l: "2 * n \<le> length (drop n r)" "2 * n \<le> length t" using assms(1,2) by simp_all
  note a = bn_add_words_value [OF assms(3) l]
  note p = propagate_value [OF assms(4)]
  have uc: "unat (c + k) = unat c + unat k"
    using assms(5) a(2) by (intro unat_add_lem [THEN iffD1]) simp
  have lh: "length (drop (n + 2 * n) r) = n" using assms(1) by simp
  have r1: "bn_val r = bn_val (take n r) + limb_base ^ n * bn_val (drop n r)"
    using assms(1) by (intro bn_val_take_drop) simp
  have r2: "bn_val (drop n r) = bn_val (take (2 * n) (drop n r)) + limb_base ^ (2 * n) * bn_val (drop (n + 2 * n) r)"
    using bn_val_take_drop [OF l(1)] by (simp add: add.commute)
  have tt: "take (2 * n) t = t" using assms(2) by simp
  have total: "bn_val (take n r @ mid @ high) + limb_base ^ (4 * n) * unat c'
      = bn_val r + limb_base ^ n * (bn_val t + limb_base ^ (2 * n) * unat c)"
  proof -
    have "4 * n = n + (2 * n + n)" by simp
    then have "limb_base ^ (4 * n) = limb_base ^ n * (limb_base ^ (2 * n) * limb_base ^ n)" by (simp only: power_add)
    then have "bn_val (take n r @ mid @ high) + limb_base ^ (4 * n) * unat c'
        = bn_val (take n r) + limb_base ^ n * (bn_val mid + limb_base ^ (2 * n) * (bn_val high + limb_base ^ n * unat c'))"
      using a(3) assms(1) by (simp add: bn_val_append algebra_simps)
    also have "bn_val high + limb_base ^ n * unat c' = bn_val (drop (n + 2 * n) r) + (unat c + unat k)"
      using p lh uc by simp
    also have "bn_val mid + limb_base ^ (2 * n) * (bn_val (drop (n + 2 * n) r) + (unat c + unat k))
        = (bn_val mid + limb_base ^ (2 * n) * unat k) + limb_base ^ (2 * n) * (bn_val (drop (n + 2 * n) r) + unat c)"
      by (simp add: algebra_simps)
    also have "\<dots> = bn_val (drop n r) + (bn_val t + limb_base ^ (2 * n) * unat c)"
      unfolding a(1) tt r2 by (simp add: algebra_simps)
    finally show ?thesis by (simp add: r1 distrib_left)
  qed
  have "limb_base ^ (4 * n) * unat c' < limb_base ^ (4 * n) * 1" using total assms(6) by linarith
  then have "unat c' = 0" by simp
  with total show "bn_val (take n r @ mid @ high) = bn_val r + limb_base ^ n * (bn_val t + limb_base ^ (2 * n) * unat c)"
    by simp
  show "length (take n r @ mid @ high) = 4 * n" using a(3) p lh assms(1) by simp
qed

lemma karatsuba_identity:
  fixes a0 a1 b0 b1 :: nat
  shows "int (a0 * b1 + a1 * b0) = int (a0 * b0) + int (a1 * b1)
    - (if (a0 < a1) \<noteq> (b1 < b0) then - 1 else 1) * - int (abs_diff a0 a1 * abs_diff b1 b0)"
proof -
  have d: "int (abs_diff x y) = (if x < y then int y - int x else int x - int y)" for x y
    by (simp add: abs_diff_def)
  show ?thesis
    unfolding of_nat_add of_nat_mult d by (auto simp: algebra_simps)
qed

lemma karatsuba_sum_value:
  assumes r: "length r01 = 2 * n" "length r23 = 2 * n" "length t23 = 2 * n"
    and v: "bn_val r01 = a0 * b0" "bn_val r23 = a1 * b1" "bn_val t23 = abs_diff a0 a1 * abs_diff b1 b0"
    and b: "a0 < limb_base ^ n" "a1 < limb_base ^ n" "b0 < limb_base ^ n" "b1 < limb_base ^ n"
  shows "bn_val (karatsuba_sum n r01 r23 t23 (word_mask ((a0 < a1) \<noteq> (b1 < b0))))
      = (a0 + limb_base ^ n * a1) * (b0 + limb_base ^ n * b1)"
    "length (karatsuba_sum n r01 r23 t23 (word_mask ((a0 < a1) \<noteq> (b1 < b0)))) = 4 * n"
proof -
  define neg where "neg \<longleftrightarrow> (a0 < a1) \<noteq> (b1 < b0)"
  define P where "P = limb_base ^ (2 * n)"
  define m where "m = a0 * b1 + a1 * b0"
  obtain t01 c where t01: "bn_add_words r01 r23 (2 * n) = (t01, c)" by fastforce
  obtain s borrow where s: "bn_sub_words t01 t23 (2 * n) = (s, borrow)" by fastforce
  obtain u carry where u: "bn_add_words t01 t23 (2 * n) = (u, carry)" by fastforce
  define t c' where "t = (if neg then s else u)" and "c' = (if neg then c - borrow else c + carry)"
  obtain mid k where mid: "bn_add_words (drop n (r01 @ r23)) t (2 * n) = (mid, k)" by fastforce
  obtain high k' where high: "propagate (drop (n + 2 * n) (r01 @ r23)) (c' + k) = (high, k')" by fastforce
  have le: "2 * n \<le> length r01" "2 * n \<le> length r23" "2 * n \<le> length t23" using r by simp_all
  have tk: "take (2 * n) r01 = r01" "take (2 * n) r23 = r23" "take (2 * n) t23 = t23" using r by simp_all
  note T = bn_add_words_value [OF t01 le(1,2), unfolded tk v]
  have lt: "2 * n \<le> length t01" "take (2 * n) t01 = t01" using T(3) by simp_all
  note S = bn_sub_words_value [OF s lt(1) le(3), unfolded tk lt(2) v]
  note U = bn_add_words_value [OF u lt(1) le(3), unfolded tk lt(2) v]
  define D where "D = abs_diff a0 a1 * abs_diff b1 b0"
  have id: "int m = int (a0 * b0) + int (a1 * b1) - (if neg then - 1 else 1) * - int D"
    unfolding m_def neg_def D_def by (rule karatsuba_identity)
  have M: "bn_val t + P * unat c' = m \<and> unat c' \<le> 2 \<and> length t = 2 * n"
  proof (cases neg)
    case True
    then have i: "m + D = a0 * b0 + a1 * b1" using id by (simp only: if_True)
    have "bn_val s + D = bn_val t01 + P * unat borrow" using S(1) by (simp only: D_def P_def)
    moreover have "bn_val t01 + P * unat c = m + D" using T(1) i by (simp only: P_def)
    ultimately have e: "bn_val s + P * unat c = m + P * unat borrow" by linarith
    have sl: "bn_val s < P" using bn_val_less [of s] S(3) by (simp add: P_def)
    have le: "unat borrow \<le> unat c"
    proof (rule ccontr)
      assume "\<not> unat borrow \<le> unat c"
      then have "Suc (unat c) \<le> unat borrow" by simp
      then have "P * Suc (unat c) \<le> P * unat borrow" by (rule mult_le_mono2)
      with e sl show False by simp
    qed
    then have "unat (c - borrow) = unat c - unat borrow" by (simp add: unat_sub_le word_le_nat_alt)
    then have "bn_val s + P * unat (c - borrow) = m"
      using e le by (simp add: diff_mult_distrib2)
    then show ?thesis using True T(2) S(3) \<open>unat (c - borrow) = unat c - unat borrow\<close> by (simp add: t_def c'_def)
  next
    case False
    then have i: "m = a0 * b0 + a1 * b1 + D" using id by (simp only: if_False)
    have "unat (c + carry) = unat c + unat carry" using T(2) U(2) by (intro unat_add_lem [THEN iffD1]) simp
    moreover have "bn_val u + P * (unat c + unat carry) = m"
      using T(1) U(1) unfolding i D_def [symmetric] P_def [symmetric] by (simp add: distrib_left)
    ultimately show ?thesis using False T(2) U(2,3) by (simp add: t_def c'_def)
  qed
  have R: "bn_val (r01 @ r23) + limb_base ^ n * m = (a0 + limb_base ^ n * a1) * (b0 + limb_base ^ n * b1)"
    by (simp add: bn_val_append r v m_def mult_2 mult_2_right power_add algebra_simps)
  have fits: "(a0 + limb_base ^ n * a1) * (b0 + limb_base ^ n * b1) < limb_base ^ (4 * n)"
  proof -
    have *: "x + limb_base ^ n * y < limb_base ^ (2 * n)" if "x < limb_base ^ n" "y < limb_base ^ n" for x y
    proof -
      have "x + limb_base ^ n * y < limb_base ^ n * Suc y" using that by simp
      also have "\<dots> \<le> limb_base ^ n * limb_base ^ n" using that by (intro mult_le_mono2) simp
      finally show ?thesis by (simp add: mult_2 power_add)
    qed
    have "limb_base ^ (4 * n) = limb_base ^ (2 * n) * limb_base ^ (2 * n)" by (simp add: power_add [symmetric])
    then show ?thesis using * [OF b(1,2)] * [OF b(3,4)] by (simp only:) (intro mult_strict_mono, simp_all)
  qed
  have len: "length (r01 @ r23) = 4 * n" using r by simp
  have "bn_val (r01 @ r23) + limb_base ^ n * (bn_val t + limb_base ^ (2 * n) * unat c') < limb_base ^ (4 * n)"
    using M R fits by (simp only: P_def)
  note A = add_middle [OF len conjunct2 [OF conjunct2 [OF M]] mid high conjunct1 [OF conjunct2 [OF M]] this]
  have "karatsuba_sum n r01 r23 t23 (word_mask neg) = take n (r01 @ r23) @ mid @ high"
  proof -
    have sel: "bn_select_words (word_mask neg) s u (2 * n) = t"
      using S(3) U(3) by (simp add: bn_select_words_mask t_def del: word_mask_simps)
    have selc: "constant_time_select_w (word_mask neg) (c - borrow) (c + carry) = c'"
      by (simp add: select_w_mask c'_def del: word_mask_simps)
    show ?thesis
      unfolding karatsuba_sum_def Let_def t01 prod.case s u sel selc mid high ..
  qed
  then show "bn_val (karatsuba_sum n r01 r23 t23 (word_mask ((a0 < a1) \<noteq> (b1 < b0))))
      = (a0 + limb_base ^ n * a1) * (b0 + limb_base ^ n * b1)"
    "length (karatsuba_sum n r01 r23 t23 (word_mask ((a0 < a1) \<noteq> (b1 < b0)))) = 4 * n"
    using A R M unfolding neg_def [symmetric] by (simp_all only: P_def)
qed

subsection \<open>Products\<close>

lemma xor_word_mask: "word_mask c XOR word_mask d = (word_mask (c \<noteq> d) :: u64)"
  by (cases c; cases d) (simp_all add: word_mask_def)

text \<open>The differences of the halves, for an upper half that may be shorter.\<close>

lemma half_differences:
  assumes "length a = n + tna" "length b = n + tnb" "tna \<le> n" "tnb \<le> n"
    and "bn_abs_sub_part_words (take n a) (drop n a) tna (int n - int tna) = (t0, neg)"
    and "bn_abs_sub_part_words (drop n b) (take n b) tnb (int tnb - int n) = (t1, neg')"
  shows "bn_val t0 = abs_diff (bn_val (take n a)) (bn_val (drop n a))"
    "bn_val t1 = abs_diff (bn_val (drop n b)) (bn_val (take n b))" "length t0 = n" "length t1 = n"
    "neg XOR neg' = word_mask ((bn_val (take n a) < bn_val (drop n a)) \<noteq> (bn_val (drop n b) < bn_val (take n b)))"
proof -
  have "length (take n a) = tna + nat (int n - int tna)" "length (drop n a) = tna + nat (- (int n - int tna))"
    using assms(1-4) by simp_all
  note A = bn_abs_sub_part_words_value [OF assms(5) this]
  have "length (drop n b) = tnb + nat (int tnb - int n)" "length (take n b) = tnb + nat (- (int tnb - int n))"
    using assms(1-4) by simp_all
  note B = bn_abs_sub_part_words_value [OF assms(6) this]
  show "bn_val t0 = abs_diff (bn_val (take n a)) (bn_val (drop n a))"
    "bn_val t1 = abs_diff (bn_val (drop n b)) (bn_val (take n b))" "length t0 = n" "length t1 = n"
    "neg XOR neg' = word_mask ((bn_val (take n a) < bn_val (drop n a)) \<noteq> (bn_val (drop n b) < bn_val (take n b)))"
    using A B assms(3,4) by (simp_all add: xor_word_mask del: word_mask_simps)
qed

lemma karatsuba_step:
  assumes "length a = n + tna" "length b = n + tnb" "tna \<le> n" "tnb \<le> n"
    and "bn_abs_sub_part_words (take n a) (drop n a) tna (int n - int tna) = (t0, neg)"
    and "bn_abs_sub_part_words (drop n b) (take n b) tnb (int tnb - int n) = (t1, neg')"
    and "bn_val t23 = bn_val t0 * bn_val t1" "length t23 = 2 * n"
    and "bn_val r01 = bn_val (take n a) * bn_val (take n b)" "length r01 = 2 * n"
    and "bn_val r23 = bn_val (drop n a) * bn_val (drop n b)" "length r23 = 2 * n"
  shows "bn_val (karatsuba_sum n r01 r23 t23 (neg XOR neg')) = bn_val a * bn_val b
    \<and> length (karatsuba_sum n r01 r23 t23 (neg XOR neg')) = 4 * n"
proof -
  note H = half_differences [OF assms(1-6)]
  have w: "bn_val (take n a) < limb_base ^ n" "bn_val (take n b) < limb_base ^ n"
    using assms(1,2) by (auto intro!: bn_val_less_width)
  have up: "bn_val (drop n xs) < limb_base ^ n" if "length xs = n + t" "t \<le> n" for xs t
  proof (rule less_le_trans)
    show "bn_val (drop n xs) < limb_base ^ t" using that by (intro bn_val_less_width) simp
    show "limb_base ^ t \<le> limb_base ^ n" using that by (intro power_increasing) simp_all
  qed
  have v: "bn_val t23 = abs_diff (bn_val (take n a)) (bn_val (drop n a)) * abs_diff (bn_val (drop n b)) (bn_val (take n b))"
    using assms(7) H(1,2) by simp
  have sp: "bn_val xs = bn_val (take n xs) + limb_base ^ n * bn_val (drop n xs)" if "n \<le> length xs" for xs
    using that by (rule bn_val_take_drop)
  show ?thesis
    using karatsuba_sum_value [OF assms(10,12,8,9,11) v w(1) up [OF assms(1,3)] w(2) up [OF assms(2,4)]]
      sp [of a] sp [of b] assms(1,2) unfolding H(5) by simp
qed

lemma bn_mul_recursive_value:
  assumes "\<exists>k. n2 = 2 ^ k" "- 8 \<le> dna" "dna \<le> 0" "- 8 \<le> dnb" "dnb \<le> 0" "0 \<le> int n2 + dna" "0 \<le> int n2 + dnb"
    and "length a = nat (int n2 + dna)" "length b = nat (int n2 + dnb)"
  shows "bn_val (bn_mul_recursive a b n2 dna dnb) = bn_val a * bn_val b \<and> length (bn_mul_recursive a b n2 dna dnb) = 2 * n2"
  using assms
proof (induction n2 arbitrary: a b dna dnb rule: less_induct)
  case (less n2)
  consider "n2 = 8 \<and> dna = 0 \<and> dnb = 0" | "\<not> (n2 = 8 \<and> dna = 0 \<and> dnb = 0)" "n2 < 16" | "16 \<le> n2" by linarith
  then show ?case
  proof cases
    case 1
    then have "length a = 8" "length b = 8" using less.prems(8,9) by simp_all
    then show ?thesis using 1 by (subst (1 2) bn_mul_recursive.simps) (simp add: bn_mul_comba8_value)
  next
    case 2
    have l: "length a \<le> length a" "length b \<le> length b" by simp_all
    note v = bn_mul_normal_value [OF l]
    have "nat (int n2 + dna) + nat (int n2 + dnb) + nat (- (dna + dnb)) = 2 * n2"
      using less.prems(3,5,6,7) by linarith
    then show ?thesis using 2 v less.prems(3,5,8,9)
      by (subst (1 2) bn_mul_recursive.simps) (auto simp: Let_def bn_val_append)
  next
    case 3
    obtain k where k: "n2 = 2 ^ k" using less.prems(1) by blast
    have "k \<noteq> 0" using 3 k by (cases k) auto
    then obtain j where j: "k = Suc j" using not0_implies_Suc by blast
    define n where "n = n2 div 2"
    have n: "n2 = 2 * n" "n = 2 ^ j" "8 \<le> n" using 3 k j by (simp_all add: n_def)
    define tna tnb where "tna = nat (int n + dna)" and "tnb = nat (int n + dnb)"
    have t: "int tna = int n + dna" "int tnb = int n + dnb" "tna \<le> n" "tnb \<le> n"
      using less.prems(2-5) n(3) by (simp_all add: tna_def tnb_def)
    have la: "length a = n + tna" "length b = n + tnb" using less.prems(8,9) t n(1) by simp_all
    obtain t0 neg where t0: "bn_abs_sub_part_words (take n a) (drop n a) tna (int n - int tna) = (t0, neg)" by fastforce
    obtain t1 neg' where t1: "bn_abs_sub_part_words (drop n b) (take n b) tnb (int tnb - int n) = (t1, neg')" by fastforce
    note H = half_differences [OF la t(3,4) t0 t1]
    define z where "z \<longleftrightarrow> n = 8 \<and> dna = 0 \<and> dnb = 0"
    define t23 where "t23 = (if z then bn_mul_comba8 t0 t1 else bn_mul_recursive t0 t1 n 0 0)"
    define r01 where "r01 = (if z then bn_mul_comba8 (take n a) (take n b) else bn_mul_recursive (take n a) (take n b) n 0 0)"
    define r23 where "r23 = (if z then bn_mul_comba8 (drop n a) (drop n b) else bn_mul_recursive (drop n a) (drop n b) n dna dnb)"
    have pw: "n < n2" "\<exists>k. n = 2 ^ k" using n by auto
    have IH: "bn_val (bn_mul_recursive x y n 0 0) = bn_val x * bn_val y \<and> length (bn_mul_recursive x y n 0 0) = 2 * n"
      if "length x = n" "length y = n" for x y
      using less.IH [OF pw, of 0 0 x y] that by simp
    have IH': "bn_val (bn_mul_recursive (drop n a) (drop n b) n dna dnb) = bn_val (drop n a) * bn_val (drop n b)
        \<and> length (bn_mul_recursive (drop n a) (drop n b) n dna dnb) = 2 * n"
      using less.IH [OF pw less.prems(2-5)] t la n(3) by simp
    have T: "bn_val t23 = bn_val t0 * bn_val t1" "length t23 = 2 * n"
      using IH [OF H(3,4)] bn_mul_comba8_value [of t0 t1] H(3,4) by (auto simp: t23_def z_def)
    have lo: "length (take n a) = n" "length (take n b) = n" using la by simp_all
    have L: "bn_val r01 = bn_val (take n a) * bn_val (take n b)" "length r01 = 2 * n"
      using IH [OF lo] bn_mul_comba8_value [of "take n a" "take n b"] lo by (auto simp: r01_def z_def simp del: length_take)
    have U: "bn_val r23 = bn_val (drop n a) * bn_val (drop n b)" "length r23 = 2 * n"
      using IH' bn_mul_comba8_value [of "drop n a" "drop n b"] la t by (auto simp: r23_def z_def)
    have off: "(n2 = 8 \<and> dna = 0 \<and> dnb = 0) = False" "(n2 < 16) = False" "(n = 4 \<and> dna = 0 \<and> dnb = 0) = False"
      using 3 n(3) by auto
    have "bn_mul_recursive a b n2 dna dnb = karatsuba_sum n r01 r23 t23 (neg XOR neg')"
      by (subst bn_mul_recursive.simps, simp only: off if_False Let_def n_def [symmetric] off(3) tna_def [symmetric]
          tnb_def [symmetric] t0 t1 prod.case z_def [symmetric])
        (cases z, simp_all only: t23_def r01_def r23_def if_True if_False prod.case)
    with karatsuba_step [OF la t(3,4) t0 t1 T L U] show ?thesis using n(1) by simp
  qed
qed

text \<open>The size of the upper halves for which the recursion goes on.\<close>

lemma part_split_bounds:
  assumes "n = 2 ^ k" "tna < n" "tnb < n" "16 \<le> tna \<or> 16 \<le> tnb"
  shows "\<exists>j. part_split n tna tnb = 2 ^ j \<and> 2 * 2 ^ j \<le> n"
    "part_split n tna tnb \<le> tna \<or> part_split n tna tnb \<le> tnb"
    "tna < 2 * part_split n tna tnb" "tnb < 2 * part_split n tna tnb"
proof -
  have "(\<exists>j. part_split n tna tnb = 2 ^ j \<and> 2 * 2 ^ j \<le> n) \<and> (part_split n tna tnb \<le> tna \<or> part_split n tna tnb \<le> tnb)
    \<and> tna < 2 * part_split n tna tnb \<and> tnb < 2 * part_split n tna tnb"
    using assms
  proof (induction k arbitrary: n)
    case 0
    then show ?case by simp
  next
    case (Suc k)
    define i where "i = n div 2"
    have i: "i = 2 ^ k" "n = 2 * i" using Suc.prems(1) by (simp_all add: i_def)
    show ?case
    proof (cases "i < tna \<or> i < tnb \<or> i = tna \<or> i = tnb")
      case True
      then have "part_split n tna tnb = i" by (subst part_split.simps) (simp only: Let_def i_def [symmetric] if_True)
      moreover have "2 * i \<le> n" using i by simp
      ultimately show ?thesis using True i Suc.prems(2,3) by auto
    next
      case False
      then have e: "part_split n tna tnb = part_split i tna tnb"
        by (subst part_split.simps) (simp only: Let_def i_def [symmetric] if_False)
      have "tna < i" "tnb < i" using False by auto
      from Suc.IH [OF i(1) this Suc.prems(4)] obtain j
        where "part_split i tna tnb = 2 ^ j" "2 * 2 ^ j \<le> i" "part_split i tna tnb \<le> tna \<or> part_split i tna tnb \<le> tnb"
          "tna < 2 * part_split i tna tnb" "tnb < 2 * part_split i tna tnb" by blast
      moreover have "i \<le> n" using i(2) by simp
      ultimately show ?thesis unfolding e by (intro conjI exI [of _ j]) auto
    qed
  qed
  then show "\<exists>j. part_split n tna tnb = 2 ^ j \<and> 2 * 2 ^ j \<le> n"
    "part_split n tna tnb \<le> tna \<or> part_split n tna tnb \<le> tnb"
    "tna < 2 * part_split n tna tnb" "tnb < 2 * part_split n tna tnb" by blast+
qed

lemma bn_mul_part_recursive_value:
  assumes "\<exists>k. n = 2 ^ k" "8 \<le> n" "tna < n" "tnb < n" "tna \<le> tnb + 1" "tnb \<le> tna + 1"
    and "length a = n + tna" "length b = n + tnb"
  shows "bn_val (bn_mul_part_recursive old a b n tna tnb) = bn_val a * bn_val b
    \<and> length (bn_mul_part_recursive old a b n tna tnb) = 4 * n"
  using assms
proof (induction n arbitrary: old a b tna tnb rule: less_induct)
  case (less n)
  obtain k where k: "n = 2 ^ k" using less.prems(1) by blast
  have t: "tna \<le> n" "tnb \<le> n" using less.prems by simp_all
  have la: "length a = n + tna" "length b = n + tnb" using less.prems by simp_all
  obtain t0 neg where t0: "bn_abs_sub_part_words (take n a) (drop n a) tna (int n - int tna) = (t0, neg)" by fastforce
  obtain t1 neg' where t1: "bn_abs_sub_part_words (drop n b) (take n b) tnb (int tnb - int n) = (t1, neg')" by fastforce
  note H = half_differences [OF la t t0 t1]
  define i where "i = part_split n tna tnb"
  define up where "up = bn_mul_normal (drop n a) tna (drop n b) tnb @ replicate (n * 2 - tna - tnb) 0"
  define up' where "up' = (if i < tna \<or> i < tnb
      then bn_mul_part_recursive (replicate (4 * i) 0) (drop n a) (drop n b) i (tna - i) (tnb - i)
      else bn_mul_recursive (drop n a) (drop n b) i (int tna - int i) (int tnb - int i))
    @ replicate (n * 2 - (if i < tna \<or> i < tnb then 4 * i else 2 * i)) 0"
  define t23 where "t23 = (if n = 8 then bn_mul_comba8 t0 t1 else bn_mul_recursive t0 t1 n 0 0)"
  define r01 where "r01 = (if n = 8 then bn_mul_comba8 (take n a) (take n b) else bn_mul_recursive (take n a) (take n b) n 0 0)"
  define r23 where "r23 = (if n = 8 then up else if tna < 16 \<and> tnb < 16 then up else up')"
  have R: "bn_val (bn_mul_recursive x y n 0 0) = bn_val x * bn_val y \<and> length (bn_mul_recursive x y n 0 0) = 2 * n"
    if "length x = n" "length y = n" for x y
    using bn_mul_recursive_value [of n 0 0 x y] less.prems(1) that by simp
  have T: "bn_val t23 = bn_val t0 * bn_val t1" "length t23 = 2 * n"
    using R [OF H(3,4)] bn_mul_comba8_value [of t0 t1] H(3,4) by (auto simp: t23_def)
  have lo: "length (take n a) = n" "length (take n b) = n" using la by simp_all
  have L: "bn_val r01 = bn_val (take n a) * bn_val (take n b)" "length r01 = 2 * n"
    using R [OF lo] bn_mul_comba8_value [of "take n a" "take n b"] lo by (auto simp: r01_def simp del: length_take)
  have ld: "length (drop n a) = tna" "length (drop n b) = tnb" using la by simp_all
  have up: "bn_val up = bn_val (drop n a) * bn_val (drop n b) \<and> length up = 2 * n"
    using bn_mul_normal_value [of tna "drop n a" tnb "drop n b"] ld t by (simp add: up_def bn_val_append)
  have up': "bn_val up' = bn_val (drop n a) * bn_val (drop n b) \<and> length up' = 2 * n" if "16 \<le> tna \<or> 16 \<le> tnb"
  proof -
    note P = part_split_bounds [OF k less.prems(3,4) that, folded i_def]
    obtain j where j: "i = 2 ^ j" "2 * i \<le> n" using P(1) by auto
    have i8: "8 \<le> i" using that P(3,4) by linarith
    have pw: "\<exists>k. i = 2 ^ k" using j(1) by blast
    show ?thesis
    proof (cases "i < tna \<or> i < tnb")
      case True
      have "i \<le> tna" "i \<le> tnb" using True less.prems(5,6) by auto
      then have le: "tna = i + (tna - i)" "tnb = i + (tnb - i)" by simp_all
      have "i < n" using j(2) i8 by linarith
      then have "bn_val (bn_mul_part_recursive (replicate (4 * i) 0) (drop n a) (drop n b) i (tna - i) (tnb - i))
          = bn_val (drop n a) * bn_val (drop n b)
        \<and> length (bn_mul_part_recursive (replicate (4 * i) 0) (drop n a) (drop n b) i (tna - i) (tnb - i)) = 4 * i"
        by (rule less.IH [OF _ pw i8]) (use le P(3,4) less.prems(5,6) ld in linarith)+
      moreover have "4 * i \<le> n * 2" using j(2) by simp
      ultimately show ?thesis using True by (simp add: up'_def bn_val_append)
    next
      case False
      have "bn_val (bn_mul_recursive (drop n a) (drop n b) i (int tna - int i) (int tnb - int i)) = bn_val (drop n a) * bn_val (drop n b)
        \<and> length (bn_mul_recursive (drop n a) (drop n b) i (int tna - int i) (int tnb - int i)) = 2 * i"
        by (rule bn_mul_recursive_value [OF pw]) (use False P(2) less.prems(5,6) ld in linarith)+
      moreover have "2 * i \<le> n * 2" using j(2) by simp
      ultimately show ?thesis using False by (simp add: up'_def bn_val_append)
    qed
  qed
  have U: "bn_val r23 = bn_val (drop n a) * bn_val (drop n b)" "length r23 = 2 * n"
    using up up' by (auto simp: r23_def not_less)
  have off: "(n < 8) = False" using less.prems(2) by simp
  have "bn_mul_part_recursive old a b n tna tnb = karatsuba_sum n r01 r23 t23 (neg XOR neg')"
    by (subst bn_mul_part_recursive.simps, simp only: off if_False Let_def t0 t1 prod.case i_def [symmetric]
        up_def [symmetric] up'_def [symmetric])
      (cases "n = 8", simp_all only: t23_def r01_def r23_def if_True if_False prod.case simp_thms)
  with karatsuba_step [OF la t t0 t1 T L U] show ?case by simp
qed

subsection \<open>Squares\<close>

lemma bn_sqr_recursive_value:
  assumes "\<exists>k. n2 = 2 ^ k" "length a = n2"
  shows "bn_val (bn_sqr_recursive a n2) = bn_val a ^ 2 \<and> length (bn_sqr_recursive a n2) = 2 * n2"
  using assms
proof (induction n2 arbitrary: a rule: less_induct)
  case (less n2)
  consider "n2 = 4" | "n2 = 8" | "n2 \<noteq> 4" "n2 \<noteq> 8" "n2 < 16" | "16 \<le> n2" by linarith
  then show ?case
  proof cases
    case 1
    then show ?thesis using less.prems by (subst (1 2) bn_sqr_recursive.simps) (simp add: bn_sqr_comba4_value)
  next
    case 2
    then show ?thesis using less.prems by (subst (1 2) bn_sqr_recursive.simps) (simp add: bn_sqr_comba8_value)
  next
    case 3
    then show ?thesis using less.prems bn_sqr_normal_value [of n2 a] by (subst (1 2) bn_sqr_recursive.simps) simp
  next
    case 4
    obtain k where k: "n2 = 2 ^ k" using less.prems(1) by blast
    have "k \<noteq> 0" using 4 k by (cases k) auto
    then obtain j where j: "k = Suc j" using not0_implies_Suc by blast
    define n where "n = n2 div 2"
    have n: "n2 = 2 * n" "n = 2 ^ j" using k j by (simp_all add: n_def)
    have pw: "n < n2" "\<exists>k. n = 2 ^ k" using n by auto
    have l: "length (take n a) = n" "length (drop n a) = n" using less.prems(2) n(1) by simp_all
    define A0 A1 where "A0 = bn_val (take n a)" and "A1 = bn_val (drop n a)"
    have A: "bn_val a = A0 + limb_base ^ n * A1"
      unfolding A0_def A1_def using less.prems(2) n(1) by (intro bn_val_take_drop) simp
    have w: "A0 < limb_base ^ n" "A1 < limb_base ^ n"
      unfolding A0_def A1_def using l by (auto intro!: bn_val_less_width)
    have IH: "bn_val (bn_sqr_recursive x n) = bn_val x ^ 2 \<and> length (bn_sqr_recursive x n) = 2 * n" if "length x = n" for x
      by (rule less.IH [OF pw that])
    define t0 where "t0 = bn_abs_sub_words (take n a) (drop n a) n"
    have t0: "bn_val t0 = abs_diff A0 A1" "length t0 = n"
      using bn_abs_sub_words_value [of n "take n a" "drop n a"] l by (simp_all add: t0_def A0_def A1_def)
    define q r01 r23 where "q = bn_sqr_recursive t0 n" and "r01 = bn_sqr_recursive (take n a) n"
      and "r23 = bn_sqr_recursive (drop n a) n"
    have V: "bn_val q = abs_diff A0 A1 ^ 2" "bn_val r01 = A0 ^ 2" "bn_val r23 = A1 ^ 2"
      "length q = 2 * n" "length r01 = 2 * n" "length r23 = 2 * n"
      using IH [OF t0(2)] IH [OF l(1)] IH [OF l(2)] t0(1) by (simp_all add: q_def r01_def r23_def A0_def A1_def)
    obtain t01 c where t01: "bn_add_words r01 r23 (2 * n) = (t01, c)" by fastforce
    obtain s borrow where s: "bn_sub_words t01 q (2 * n) = (s, borrow)" by fastforce
    obtain mid m where mid: "bn_add_words (drop n (r01 @ r23)) s (2 * n) = (mid, m)" by fastforce
    obtain high h where high: "propagate (drop (n + 2 * n) (r01 @ r23)) (c - borrow + m) = (high, h)" by fastforce
    have le: "2 * n \<le> length r01" "2 * n \<le> length r23" "2 * n \<le> length q"
      "take (2 * n) r01 = r01" "take (2 * n) r23 = r23" "take (2 * n) q = q" using V by simp_all
    note T = bn_add_words_value [OF t01 le(1,2), unfolded le(4,5) V]
    have lt: "2 * n \<le> length t01" "take (2 * n) t01 = t01" using T(3) by simp_all
    note S = bn_sub_words_value [OF s lt(1) le(3), unfolded le(6) lt(2) V]
    have id: "A0 ^ 2 + A1 ^ 2 = 2 * (A0 * A1) + abs_diff A0 A1 ^ 2"
    proof -
      have "int (abs_diff A0 A1) ^ 2 = (int A0 - int A1) ^ 2" by (auto simp: abs_diff_def power2_eq_square algebra_simps)
      then have "int (A0 ^ 2 + A1 ^ 2) = int (2 * (A0 * A1) + abs_diff A0 A1 ^ 2)"
        by (simp add: power2_eq_square algebra_simps)
      then show ?thesis by (simp only: of_nat_eq_iff)
    qed
    define P where "P = limb_base ^ (2 * n)"
    have e: "bn_val s + P * unat c = 2 * (A0 * A1) + P * unat borrow"
      using S(1) T(1) id unfolding P_def [symmetric] by linarith
    have sl: "bn_val s < P" using bn_val_less [of s] S(3) by (simp add: P_def)
    have bc: "unat borrow \<le> unat c"
    proof (rule ccontr)
      assume "\<not> unat borrow \<le> unat c"
      then have "P * Suc (unat c) \<le> P * unat borrow" by (intro mult_le_mono2) simp
      with e sl show False by simp
    qed
    then have ub: "unat (c - borrow) = unat c - unat borrow" by (simp add: unat_sub_le word_le_nat_alt)
    then have M: "bn_val s + P * unat (c - borrow) = 2 * (A0 * A1)"
      using e bc by (simp add: diff_mult_distrib2)
    have r: "bn_val (r01 @ r23) + limb_base ^ n * (2 * (A0 * A1)) = bn_val a ^ 2"
      by (simp add: A bn_val_append V power2_eq_square mult_2 mult_2_right power_add algebra_simps)
    have "bn_val a ^ 2 < limb_base ^ (4 * n)"
      using power_strict_mono [OF bn_val_less [of a], of 2] less.prems(2) n(1) by (simp add: power_mult [symmetric] mult.commute)
    then have fits: "bn_val (r01 @ r23) + limb_base ^ n * (bn_val s + limb_base ^ (2 * n) * unat (c - borrow)) < limb_base ^ (4 * n)"
      using M r by (simp only: P_def)
    have len: "length (r01 @ r23) = 4 * n" using V by simp
    have "unat (c - borrow) \<le> 2" using ub T(2) by simp
    note X = add_middle [OF len S(3) mid high this fits]
    have off: "(n2 = 4) = False" "(n2 = 8) = False" "(n2 < 16) = False" using 4 by auto
    have "bn_sqr_recursive a n2 = take n (r01 @ r23) @ mid @ high"
      by (subst bn_sqr_recursive.simps, simp only: off if_False Let_def n_def [symmetric] t0_def [symmetric] q_def [symmetric]
          r01_def [symmetric] r23_def [symmetric]) (simp only: n(1) t01 s mid high prod.case)
    then show ?thesis using X M r n(1) by (simp only: P_def) simp
  qed
qed

end
