(* ===== verification/Bn.thy ===== *)
theory Bn
  imports Bn_Limbs
begin

text \<open>
  The \<^verbatim>\<open>BIGNUM\<close> of \<^verbatim>\<open>crypto/fipsmodule/bn\<close> (bn.c, and the predicates of cmp.c): storage, width and
  sign.  \<open>bn_d\<close> is the allocated array, so that \<^verbatim>\<open>dmax\<close> is its length; the words from \<open>bn_width\<close> on are
  whatever earlier operations left there.  A \<^verbatim>\<open>BIGNUM\<close> argument is its value at the call; an output
  that is also an input is read before it is written, so the same value is passed for both.  Whether an
  allocation of a number of words succeeds is the argument \<open>alloc\<close>.
\<close>

record bignum =
  bn_d :: "u64 list"
  bn_width :: nat
  bn_neg :: bool
  bn_static :: bool

type_synonym alloc = "nat \<Rightarrow> bool"
type_synonym 'a bn_result = "('a, bignum) outcome"

definition BN_MAX_WORDS :: nat where
  "BN_MAX_WORDS = (2 ^ 31 - 1) div (4 * 64)"

subsection \<open>Storage\<close>

definition BN_new :: "bool \<Rightarrow> bignum option" where
  "BN_new ok = (if ok then Some \<lparr>bn_d = [], bn_width = 0, bn_neg = False, bn_static = False\<rparr> else None)"

definition BN_init :: bignum where
  "BN_init = \<lparr>bn_d = [], bn_width = 0, bn_neg = False, bn_static = False\<rparr>"

definition bn_wexpand :: "alloc \<Rightarrow> bignum \<Rightarrow> nat \<Rightarrow> unit bn_result" where
  "bn_wexpand alloc bn words =
     (if words \<le> length (bn_d bn) then (Some (), bn)
      else if words > BN_MAX_WORDS then (None, bn)
      else if bn_static bn then (None, bn)
      else if \<not> alloc words then (None, bn)
      else (Some (), bn\<lparr>bn_d := take (bn_width bn) (bn_d bn) @ replicate (words - bn_width bn) 0\<rparr>))"

definition bn_expand :: "alloc \<Rightarrow> bignum \<Rightarrow> u64 \<Rightarrow> unit bn_result" where
  "bn_expand alloc bn bits =
     (if bits + 64 - 1 < bits then (None, bn) else bn_wexpand alloc bn (unat ((bits + 64 - 1) div 64)))"

text \<open>Writing words from the start of the array on.\<close>

definition bn_write :: "bignum \<Rightarrow> u64 list \<Rightarrow> bignum" where
  "bn_write bn ws = bn\<lparr>bn_d := ws @ drop (length ws) (bn_d bn)\<rparr>"

fun minimal_width_loop :: "u64 list \<Rightarrow> nat \<Rightarrow> nat" where
  "minimal_width_loop d 0 = 0"
| "minimal_width_loop d (Suc n) = (if d ! n = 0 then minimal_width_loop d n else Suc n)"

definition bn_minimal_width :: "bignum \<Rightarrow> nat" where
  "bn_minimal_width bn = minimal_width_loop (bn_d bn) (bn_width bn)"

definition bn_set_minimal_width :: "bignum \<Rightarrow> bignum" where
  "bn_set_minimal_width bn =
     (let bn = bn\<lparr>bn_width := bn_minimal_width bn\<rparr>
      in if bn_width bn = 0 then bn\<lparr>bn_neg := False\<rparr> else bn)"

definition bn_fits_in_words :: "bignum \<Rightarrow> nat \<Rightarrow> bool" where
  "bn_fits_in_words bn num = (or_range (bn_d bn) num (bn_width bn) = 0)"

definition bn_resize_words :: "alloc \<Rightarrow> bignum \<Rightarrow> nat \<Rightarrow> unit bn_result" where
  "bn_resize_words alloc bn words =
     (if bn_width bn \<le> words
      then attempt (bn_wexpand alloc bn words) (\<lambda>_ bn.
        (Some (), bn\<lparr>bn_d := take (bn_width bn) (bn_d bn) @ replicate (words - bn_width bn) 0 @ drop words (bn_d bn),
                    bn_width := words\<rparr>))
      else if \<not> bn_fits_in_words bn words then (None, bn)
      else (Some (), bn\<lparr>bn_width := words\<rparr>))"

subsection \<open>Values\<close>

definition BN_copy :: "alloc \<Rightarrow> bignum \<Rightarrow> bignum \<Rightarrow> unit bn_result" where
  "BN_copy alloc dest src =
     attempt (bn_wexpand alloc dest (bn_width src)) (\<lambda>_ dest.
       (Some (), (bn_write dest (take (bn_width src) (bn_d src)))\<lparr>bn_width := bn_width src, bn_neg := bn_neg src\<rparr>))"

definition BN_dup :: "bool \<Rightarrow> alloc \<Rightarrow> bignum option \<Rightarrow> bignum option" where
  "BN_dup ok alloc src =
     (case src of None \<Rightarrow> None
      | Some src \<Rightarrow>
        (case BN_new ok of None \<Rightarrow> None
         | Some copy \<Rightarrow> (case BN_copy alloc copy src of (Some _, copy) \<Rightarrow> Some copy | (None, _) \<Rightarrow> None)))"

definition BN_clear :: "bignum \<Rightarrow> bignum" where
  "BN_clear bn = bn\<lparr>bn_d := replicate (length (bn_d bn)) 0, bn_width := 0, bn_neg := False\<rparr>"

definition BN_value_one :: bignum where
  "BN_value_one = \<lparr>bn_d = [1], bn_width = 1, bn_neg = False, bn_static = True\<rparr>"

definition BN_zero :: "bignum \<Rightarrow> bignum" where
  "BN_zero bn = bn\<lparr>bn_width := 0, bn_neg := False\<rparr>"

definition BN_set_word :: "alloc \<Rightarrow> bignum \<Rightarrow> u64 \<Rightarrow> unit bn_result" where
  "BN_set_word alloc bn w =
     (if w = 0 then (Some (), BN_zero bn)
      else attempt (bn_wexpand alloc bn 1) (\<lambda>_ bn. (Some (), (bn_write bn [w])\<lparr>bn_neg := False, bn_width := 1\<rparr>)))"

definition BN_one :: "alloc \<Rightarrow> bignum \<Rightarrow> unit bn_result" where
  "BN_one alloc bn = BN_set_word alloc bn 1"

definition BN_set_u64 :: "alloc \<Rightarrow> bignum \<Rightarrow> u64 \<Rightarrow> unit bn_result" where
  "BN_set_u64 alloc bn v = BN_set_word alloc bn v"

definition bn_set_words :: "alloc \<Rightarrow> bignum \<Rightarrow> u64 list \<Rightarrow> nat \<Rightarrow> unit bn_result" where
  "bn_set_words alloc bn words num =
     attempt (bn_wexpand alloc bn num) (\<lambda>_ bn.
       (Some (), (bn_write bn (take num words))\<lparr>bn_width := num, bn_neg := False\<rparr>))"

definition bn_set_static_words :: "u64 list \<Rightarrow> nat \<Rightarrow> bignum" where
  "bn_set_static_words words num =
     \<lparr>bn_d = take num words, bn_width = num, bn_neg = False, bn_static = True\<rparr>"

text \<open>The words written to \<open>out\<close>, if any.\<close>

definition bn_copy_words :: "nat \<Rightarrow> bignum \<Rightarrow> u64 list option" where
  "bn_copy_words num bn =
     (if bn_neg bn then None
      else let width = bn_width bn
           in if width > num
              then if \<not> bn_fits_in_words bn num then None else Some (take num (bn_d bn))
              else Some (take width (bn_d bn) @ replicate (num - width) 0))"

definition BN_is_negative :: "bignum \<Rightarrow> bool" where
  "BN_is_negative bn = bn_neg bn"

definition BN_is_zero :: "bignum \<Rightarrow> bool" where
  "BN_is_zero bn = bn_fits_in_words bn 0"

definition BN_set_negative :: "bignum \<Rightarrow> bool \<Rightarrow> bignum" where
  "BN_set_negative bn sign = bn\<lparr>bn_neg := sign \<and> \<not> BN_is_zero bn\<rparr>"

definition BN_get_word :: "bignum \<Rightarrow> u64" where
  "BN_get_word bn =
     (let n = bn_minimal_width bn in if n = 0 then 0 else if n = 1 then bn_d bn ! 0 else - 1)"

definition BN_get_u64 :: "bignum \<Rightarrow> u64 option" where
  "BN_get_u64 bn =
     (let n = bn_minimal_width bn in if n = 0 then Some 0 else if n = 1 then Some (bn_d bn ! 0) else None)"

subsection \<open>Bits\<close>

text \<open>One block of \<^verbatim>\<open>BN_num_bits_word\<close>.\<close>

definition num_bits_block :: "nat \<Rightarrow> u64 \<times> nat \<Rightarrow> u64 \<times> nat" where
  "num_bits_block k = (\<lambda>(l, bits).
     let x = drop_bit k l; msk = 0 - x; msk = 0 - drop_bit 63 msk;
         bits = bits + unat (of_nat k AND msk); l = l XOR ((x XOR l) AND msk)
     in (l, bits))"

definition BN_num_bits_word :: "u64 \<Rightarrow> nat" where
  "BN_num_bits_word l =
     snd (num_bits_block 1 (num_bits_block 2 (num_bits_block 4 (num_bits_block 8
       (num_bits_block 16 (num_bits_block 32 (l, of_bool (l \<noteq> 0))))))))"

definition BN_num_bits :: "bignum \<Rightarrow> nat" where
  "BN_num_bits bn =
     (let width = bn_minimal_width bn
      in if width = 0 then 0 else (width - 1) * 64 + BN_num_bits_word (bn_d bn ! (width - 1)))"

definition BN_num_bytes :: "bignum \<Rightarrow> nat" where
  "BN_num_bytes bn = (BN_num_bits bn + 7) div 8"

subsection \<open>Predicates (cmp.c)\<close>

definition BN_abs_is_word :: "bignum \<Rightarrow> u64 \<Rightarrow> bool" where
  "BN_abs_is_word bn w =
     (if bn_width bn = 0 then w = 0
      else foldl (\<lambda>msk i. msk OR bn_d bn ! i) (bn_d bn ! 0 XOR w) [1..<bn_width bn] = 0)"

definition BN_is_one :: "bignum \<Rightarrow> bool" where
  "BN_is_one bn = (\<not> bn_neg bn \<and> BN_abs_is_word bn 1)"

definition BN_is_word :: "bignum \<Rightarrow> u64 \<Rightarrow> bool" where
  "BN_is_word bn w = (BN_abs_is_word bn w \<and> (w = 0 \<or> \<not> bn_neg bn))"

definition BN_is_odd :: "bignum \<Rightarrow> bool" where
  "BN_is_odd bn = (bn_width bn > 0 \<and> bn_d bn ! 0 AND 1 = 1)"

definition BN_is_pow2 :: "bignum \<Rightarrow> bool" where
  "BN_is_pow2 bn =
     (let width = bn_minimal_width bn
      in if width = 0 \<or> bn_neg bn then False
         else if \<exists>i \<in> set [0..<width - 1]. bn_d bn ! i \<noteq> 0 then False
         else bn_d bn ! (width - 1) AND (bn_d bn ! (width - 1) - 1) = 0)"

definition BN_ucmp :: "bignum \<Rightarrow> bignum \<Rightarrow> u32" where
  "BN_ucmp a b = bn_cmp_words_consttime (bn_d a) (bn_width a) (bn_d b) (bn_width b)"

definition BN_cmp :: "bignum option \<Rightarrow> bignum option \<Rightarrow> u32" where
  "BN_cmp a b =
     (case (a, b) of
        (Some a, Some b) \<Rightarrow>
          if bn_neg a \<noteq> bn_neg b then if bn_neg a then - 1 else 1
          else let ret = BN_ucmp a b in if bn_neg a then - ret else ret
      | (Some _, None) \<Rightarrow> - 1
      | (None, Some _) \<Rightarrow> 1
      | (None, None) \<Rightarrow> 0)"

definition BN_cmp_word :: "bignum \<Rightarrow> u64 \<Rightarrow> u32" where
  "BN_cmp_word a b =
     BN_cmp (Some a) (Some \<lparr>bn_d = [b], bn_width = of_bool (b > 0), bn_neg = False, bn_static = True\<rparr>)"

definition BN_equal_consttime :: "bignum \<Rightarrow> bignum \<Rightarrow> bool" where
  "BN_equal_consttime a b =
     (let msk = or_range (bn_d b) (bn_width a) (bn_width b);
          msk = foldl (\<lambda>msk i. msk OR bn_d a ! i) msk [bn_width b..<bn_width a];
          len = (if bn_width a < bn_width b then bn_width a else bn_width b);
          msk = foldl (\<lambda>msk i. msk OR (bn_d a ! i XOR bn_d b ! i)) msk [0..<len];
          msk = msk OR (of_bool (bn_neg a) XOR of_bool (bn_neg b))
      in msk = 0)"

end
