(* ===== verification/Bn_Value.thy ===== *)
theory Bn_Value
  imports Bn
begin

text \<open>
  The integer a \<^verbatim>\<open>BIGNUM\<close> stands for, the invariant of the type, and what the operations of bn.c and
  the predicates of cmp.c do to it.
\<close>

definition bn_words :: "bignum \<Rightarrow> u64 list" where
  "bn_words bn = take (bn_width bn) (bn_d bn)"

definition bn_abs :: "bignum \<Rightarrow> nat" where
  "bn_abs bn = bn_val (bn_words bn)"

definition bn_int :: "bignum \<Rightarrow> int" where
  "bn_int bn = (if bn_neg bn then - int (bn_abs bn) else int (bn_abs bn))"

text \<open>The width lies within the array, and there is no negative zero.\<close>

definition bn_fits :: "bignum \<Rightarrow> bool" where
  "bn_fits bn \<longleftrightarrow> bn_width bn \<le> length (bn_d bn)"

definition bn_ok :: "bignum \<Rightarrow> bool" where
  "bn_ok bn \<longleftrightarrow> bn_fits bn \<and> (bn_neg bn \<longrightarrow> bn_abs bn \<noteq> 0)"

definition bn_minimal :: "bignum \<Rightarrow> bool" where
  "bn_minimal bn \<longleftrightarrow> bn_width bn = bn_minimal_width bn"

lemma bn_ok_fits: "bn_ok bn \<Longrightarrow> bn_fits bn"
  by (simp add: bn_ok_def)

lemma bn_fits_length: "bn_fits bn \<Longrightarrow> bn_width bn \<le> length (bn_d bn)"
  by (simp add: bn_fits_def)

lemma length_bn_words: "bn_fits bn \<Longrightarrow> length (bn_words bn) = bn_width bn"
  by (simp add: bn_words_def bn_fits_def)

lemma bn_abs_less: "bn_fits bn \<Longrightarrow> bn_abs bn < limb_base ^ bn_width bn"
  unfolding bn_abs_def by (rule bn_val_less_width) (rule length_bn_words)

lemma bn_abs_int: "bn_abs bn = nat \<bar>bn_int bn\<bar>"
  by (simp add: bn_int_def)

lemma bn_int_nonneg: "\<not> bn_neg bn \<Longrightarrow> bn_int bn = int (bn_abs bn)"
  by (simp add: bn_int_def)

lemma bn_int_neg_iff: "bn_ok bn \<Longrightarrow> bn_int bn < 0 \<longleftrightarrow> bn_neg bn"
  by (auto simp: bn_int_def bn_ok_def)

lemma bn_int_eq_0_iff: "bn_int bn = 0 \<longleftrightarrow> bn_abs bn = 0"
  by (simp add: bn_int_def)

text \<open>Two numbers of which one agrees with the other in the words of its width and the sign.\<close>

lemma bn_abs_cong: "bn_words bn = bn_words bn' \<Longrightarrow> bn_abs bn = bn_abs bn'"
  by (simp add: bn_abs_def)

lemma bn_words_update [simp]:
  "bn_words (bn\<lparr>bn_neg := b\<rparr>) = bn_words bn" "bn_abs (bn\<lparr>bn_neg := b\<rparr>) = bn_abs bn"
  "bn_fits (bn\<lparr>bn_neg := b\<rparr>) = bn_fits bn"
  by (simp_all add: bn_words_def bn_abs_def bn_fits_def)

subsection \<open>Storage\<close>

lemma bn_write_simps [simp]:
  "bn_width (bn_write bn ws) = bn_width bn" "bn_neg (bn_write bn ws) = bn_neg bn"
  "bn_static (bn_write bn ws) = bn_static bn" "bn_d (bn_write bn ws) = ws @ drop (length ws) (bn_d bn)"
  by (simp_all add: bn_write_def)

lemma bn_wexpand_Some:
  assumes "bn_wexpand alloc bn n = (Some u, bn')" "bn_fits bn"
  shows "bn_fits bn'" "n \<le> length (bn_d bn')" "bn_words bn' = bn_words bn"
    "bn_width bn' = bn_width bn" "bn_neg bn' = bn_neg bn" "bn_static bn' = bn_static bn"
  using assms by (auto simp: bn_wexpand_def bn_fits_def bn_words_def split: if_splits)

lemma bn_wexpand_None: "bn_wexpand alloc bn n = (None, bn') \<Longrightarrow> bn' = bn"
  by (auto simp: bn_wexpand_def split: if_splits)

text \<open>A number that can be expanded to so many words.\<close>

definition room_for :: "alloc \<Rightarrow> bignum \<Rightarrow> nat \<Rightarrow> bool" where
  "room_for alloc bn n \<longleftrightarrow> n \<le> length (bn_d bn) \<or> (n \<le> BN_MAX_WORDS \<and> \<not> bn_static bn \<and> alloc n)"

lemma bn_wexpand_room: "room_for alloc bn n \<longleftrightarrow> (\<exists>bn'. bn_wexpand alloc bn n = (Some (), bn'))"
  by (auto simp: room_for_def bn_wexpand_def)

lemma room_forE:
  assumes "room_for alloc bn n" obtains bn' where "bn_wexpand alloc bn n = (Some (), bn')"
  using assms by (auto simp: bn_wexpand_room)

text \<open>Setting the words and the width of a number that has been expanded.\<close>

lemma bn_write_words [simp]:
  "length ws = n \<Longrightarrow> bn_words ((bn_write bn ws)\<lparr>bn_width := n\<rparr>) = ws"
  "length ws = n \<Longrightarrow> bn_words ((bn_write bn ws)\<lparr>bn_width := n, bn_neg := b\<rparr>) = ws"
  "length ws = n \<Longrightarrow> bn_words ((bn_write bn ws)\<lparr>bn_neg := b, bn_width := n\<rparr>) = ws"
  by (simp_all add: bn_words_def)

lemma bn_write_fits [simp]:
  "length ws = n \<Longrightarrow> bn_fits ((bn_write bn ws)\<lparr>bn_width := n\<rparr>)"
  "length ws = n \<Longrightarrow> bn_fits ((bn_write bn ws)\<lparr>bn_width := n, bn_neg := b\<rparr>)"
  "length ws = n \<Longrightarrow> bn_fits ((bn_write bn ws)\<lparr>bn_neg := b, bn_width := n\<rparr>)"
  by (simp_all add: bn_fits_def)

lemma minimal_width_loop_le: "minimal_width_loop d n \<le> n"
  by (induction n) auto

lemma minimal_width_loop_value:
  "n \<le> length d \<Longrightarrow> bn_val (take (minimal_width_loop d n) d) = bn_val (take n d)"
  by (induction n) (simp_all add: take_Suc_conv_app_nth bn_val_append)

lemma minimal_width_loop_top: "minimal_width_loop d n = Suc k \<Longrightarrow> d ! k \<noteq> 0"
  by (induction n) (auto split: if_splits)

lemma minimal_width_bounds:
  assumes "n \<le> length d" "minimal_width_loop d n = Suc k"
  shows "limb_base ^ k \<le> bn_val (take n d)" "bn_val (take n d) < limb_base ^ Suc k"
    "bn_val (take n d) = bn_val (take k d) + limb_base ^ k * unat (d ! k)"
proof -
  have k: "k < length d" using minimal_width_loop_le [of d n] assms by simp
  have v: "bn_val (take n d) = bn_val (take (Suc k) d)"
    using minimal_width_loop_value [OF assms(1)] by (simp only: assms(2))
  then show e: "bn_val (take n d) = bn_val (take k d) + limb_base ^ k * unat (d ! k)"
    using k by (simp add: take_Suc_conv_app_nth bn_val_append)
  have "unat (d ! k) \<noteq> 0" using minimal_width_loop_top [OF assms(2)] by (simp add: unat_eq_0)
  then have "limb_base ^ k * 1 \<le> limb_base ^ k * unat (d ! k)" by (intro mult_le_mono2) simp
  then show "limb_base ^ k \<le> bn_val (take n d)" using e by linarith
  show "bn_val (take n d) < limb_base ^ Suc k"
    unfolding v by (rule bn_val_less_width) (use k in simp)
qed

lemma bn_minimal_width_le: "bn_minimal_width bn \<le> bn_width bn"
  by (simp add: bn_minimal_width_def minimal_width_loop_le)

lemma bn_minimal_width_abs:
  "bn_fits bn \<Longrightarrow> bn_val (take (bn_minimal_width bn) (bn_d bn)) = bn_abs bn"
  by (simp add: bn_minimal_width_def bn_abs_def bn_words_def minimal_width_loop_value bn_fits_def)

lemma bn_minimal_width_Suc:
  assumes "bn_fits bn" "bn_minimal_width bn = Suc k"
  shows "limb_base ^ k \<le> bn_abs bn" "bn_abs bn < limb_base ^ Suc k"
    "bn_abs bn = bn_val (take k (bn_d bn)) + limb_base ^ k * unat (bn_d bn ! k)" "bn_d bn ! k \<noteq> 0" "k < bn_width bn"
  using minimal_width_bounds [of "bn_width bn" "bn_d bn" k] minimal_width_loop_top [of "bn_d bn" "bn_width bn" k]
    assms bn_minimal_width_le [of bn]
  by (simp_all add: bn_fits_def bn_minimal_width_def bn_abs_def bn_words_def)

lemma bn_minimal_width_0_iff: "bn_fits bn \<Longrightarrow> bn_minimal_width bn = 0 \<longleftrightarrow> bn_abs bn = 0"
proof
  assume "bn_fits bn" "bn_minimal_width bn = 0"
  then show "bn_abs bn = 0" using bn_minimal_width_abs [of bn] by simp
next
  assume f: "bn_fits bn" and z: "bn_abs bn = 0"
  show "bn_minimal_width bn = 0"
  proof (rule ccontr)
    assume "bn_minimal_width bn \<noteq> 0"
    then obtain k where "bn_minimal_width bn = Suc k" using not0_implies_Suc by blast
    from bn_minimal_width_Suc(1) [OF f this] z show False by simp
  qed
qed

lemma minimal_width_loop_idem: "minimal_width_loop d (minimal_width_loop d n) = minimal_width_loop d n"
  by (induction n) auto

lemma bn_set_minimal_width:
  assumes "bn_fits bn"
  shows "bn_ok (bn_set_minimal_width bn)" "bn_minimal (bn_set_minimal_width bn)"
    "bn_abs (bn_set_minimal_width bn) = bn_abs bn" "bn_int (bn_set_minimal_width bn) = bn_int bn"
    "bn_d (bn_set_minimal_width bn) = bn_d bn" "bn_width (bn_set_minimal_width bn) = bn_minimal_width bn"
    "bn_static (bn_set_minimal_width bn) = bn_static bn"
    "bn_neg (bn_set_minimal_width bn) \<longleftrightarrow> bn_neg bn \<and> bn_abs bn \<noteq> 0"
proof -
  show w: "bn_width (bn_set_minimal_width bn) = bn_minimal_width bn"
    and d: "bn_d (bn_set_minimal_width bn) = bn_d bn"
    and "bn_static (bn_set_minimal_width bn) = bn_static bn"
    by (simp_all add: bn_set_minimal_width_def Let_def)
  show n: "bn_neg (bn_set_minimal_width bn) \<longleftrightarrow> bn_neg bn \<and> bn_abs bn \<noteq> 0"
    using bn_minimal_width_0_iff [OF assms] by (simp add: bn_set_minimal_width_def Let_def)
  show a: "bn_abs (bn_set_minimal_width bn) = bn_abs bn"
    using bn_minimal_width_abs [OF assms] by (simp add: bn_abs_def bn_words_def w d)
  then show "bn_int (bn_set_minimal_width bn) = bn_int bn"
    using n by (auto simp: bn_int_def)
  show "bn_ok (bn_set_minimal_width bn)"
    using n a w bn_minimal_width_le [of bn] assms by (simp add: bn_ok_def bn_fits_def d)
  show "bn_minimal (bn_set_minimal_width bn)"
    by (simp add: bn_minimal_def w) (simp add: bn_minimal_width_def d w minimal_width_loop_idem)
qed

lemma bn_fits_in_words_iff: "bn_fits bn \<Longrightarrow> bn_fits_in_words bn n \<longleftrightarrow> bn_abs bn < limb_base ^ n"
proof (cases "n \<le> bn_width bn")
  case True
  assume "bn_fits bn"
  then show ?thesis using True or_range_zero_value [of n "bn_width bn" "bn_d bn"]
    by (simp add: bn_fits_in_words_def bn_abs_def bn_words_def bn_fits_def)
next
  case False
  assume f: "bn_fits bn"
  have "limb_base ^ bn_width bn \<le> limb_base ^ n" using False by (intro power_increasing) simp_all
  then have "bn_abs bn < limb_base ^ n" using bn_abs_less [OF f] by (rule less_le_trans [rotated])
  then show ?thesis using False by (simp add: bn_fits_in_words_def or_range_def)
qed

lemma BN_is_zero_iff: "bn_fits bn \<Longrightarrow> BN_is_zero bn \<longleftrightarrow> bn_abs bn = 0"
  by (simp add: BN_is_zero_def bn_fits_in_words_iff)

lemma bn_resize_words_Some:
  assumes "bn_resize_words alloc bn n = (Some u, bn')" "bn_fits bn"
  shows "bn_fits bn'" "bn_width bn' = n" "bn_abs bn' = bn_abs bn" "bn_int bn' = bn_int bn"
    "bn_neg bn' = bn_neg bn" "bn_abs bn < limb_base ^ n" "bn_static bn' = bn_static bn"
proof -
  have "bn_fits bn' \<and> bn_width bn' = n \<and> bn_abs bn' = bn_abs bn \<and> bn_neg bn' = bn_neg bn \<and> bn_static bn' = bn_static bn"
  proof (cases "bn_width bn \<le> n")
    case True
    then obtain bn1 where 1: "bn_wexpand alloc bn n = (Some (), bn1)"
      and bn': "bn' = bn1\<lparr>bn_d := take (bn_width bn1) (bn_d bn1) @ replicate (n - bn_width bn1) 0 @ drop n (bn_d bn1),
                    bn_width := n\<rparr>"
      using assms(1) by (auto simp: bn_resize_words_def attempt_eq_Some)
    note e = bn_wexpand_Some [OF 1 assms(2)]
    have "bn_words bn' = bn_words bn1 @ replicate (n - bn_width bn1) 0"
      using e(1,2,4) True by (simp add: bn' bn_words_def bn_fits_def)
    then show ?thesis using e True by (simp add: bn' bn_fits_def bn_abs_def bn_val_append)
  next
    case False
    then have f: "bn_fits_in_words bn n" and bn': "bn' = bn\<lparr>bn_width := n\<rparr>"
      using assms(1) by (auto simp: bn_resize_words_def split: if_splits)
    have "or_range (bn_d bn) n (bn_width bn) = 0" using f by (simp add: bn_fits_in_words_def)
    then have "bn_val (drop n (bn_words bn)) = 0"
      using or_range_zero_drop [of n "bn_width bn" "bn_d bn"] False assms(2) by (simp add: bn_fits_def bn_words_def)
    then have "bn_abs bn = bn_val (take n (bn_words bn))"
      using bn_val_take_drop [of n "bn_words bn"] False length_bn_words [OF assms(2)] by (simp add: bn_abs_def)
    then show ?thesis using False assms(2) by (simp add: bn' bn_abs_def bn_words_def min_def bn_fits_def)
  qed
  then show *: "bn_fits bn'" "bn_width bn' = n" "bn_abs bn' = bn_abs bn" "bn_neg bn' = bn_neg bn" "bn_static bn' = bn_static bn"
    by simp_all
  show "bn_abs bn < limb_base ^ n" using bn_abs_less [OF *(1)] *(2,3) by simp
  show "bn_int bn' = bn_int bn" using * by (simp add: bn_int_def)
qed

lemma bn_resize_words_room:
  assumes "room_for alloc bn n" "bn_fits bn" "bn_abs bn < limb_base ^ n"
  shows "\<exists>bn'. bn_resize_words alloc bn n = (Some (), bn')"
  using assms by (auto simp: bn_resize_words_def bn_fits_in_words_iff elim: room_forE)

subsection \<open>Copies and constants\<close>

lemma BN_copy_Some:
  assumes "BN_copy alloc dest src = (Some u, r)" "bn_fits dest" "bn_fits src"
  shows "bn_fits r" "bn_words r = bn_words src" "bn_width r = bn_width src" "bn_neg r = bn_neg src" "bn_int r = bn_int src"
    "bn_abs r = bn_abs src" "bn_static r = bn_static dest"
proof -
  obtain d1 where 1: "bn_wexpand alloc dest (bn_width src) = (Some (), d1)"
    and r: "r = (bn_write d1 (take (bn_width src) (bn_d src)))\<lparr>bn_width := bn_width src, bn_neg := bn_neg src\<rparr>"
    using assms(1) by (auto simp: BN_copy_def attempt_eq_Some)
  have l: "length (take (bn_width src) (bn_d src)) = bn_width src" using assms(3) by (simp add: bn_fits_def)
  show "bn_fits r" "bn_words r = bn_words src" "bn_width r = bn_width src" "bn_neg r = bn_neg src"
    unfolding r bn_write_words(2) [OF l] using bn_write_fits(2) [OF l] by (simp_all add: bn_words_def)
  then show "bn_int r = bn_int src" "bn_abs r = bn_abs src" by (simp_all add: bn_int_def bn_abs_def)
  show "bn_static r = bn_static dest" using bn_wexpand_Some(6) [OF 1 assms(2)] by (simp add: r)
qed

lemma BN_zero_ok [simp]: "bn_ok (BN_zero bn)" "bn_int (BN_zero bn) = 0" "bn_minimal (BN_zero bn)" "bn_abs (BN_zero bn) = 0"
  by (simp_all add: BN_zero_def bn_ok_def bn_fits_def bn_int_def bn_abs_def bn_words_def bn_minimal_def bn_minimal_width_def)

lemma BN_set_word_Some:
  assumes "BN_set_word alloc bn w = (Some u, r)"
  shows "bn_ok r" "bn_int r = int (unat w)" "bn_minimal r"
proof -
  have "bn_ok r \<and> bn_int r = int (unat w) \<and> bn_minimal r"
  proof (cases "w = 0")
    case True
    then have "r = BN_zero bn" using assms by (simp add: BN_set_word_def)
    then show ?thesis using True by simp
  next
    case False
    then obtain b where r: "r = (bn_write b [w])\<lparr>bn_neg := False, bn_width := 1\<rparr>"
      using assms by (auto simp: BN_set_word_def attempt_eq_Some)
    show ?thesis using False
      by (simp add: r bn_ok_def bn_fits_def bn_int_def bn_abs_def bn_words_def bn_minimal_def bn_minimal_width_def)
  qed
  then show "bn_ok r" "bn_int r = int (unat w)" "bn_minimal r" by blast+
qed

lemma BN_value_one_ok [simp]: "bn_ok BN_value_one" "bn_int BN_value_one = 1"
  by (simp_all add: BN_value_one_def bn_ok_def bn_fits_def bn_int_def bn_abs_def bn_words_def)

lemma bn_set_words_Some:
  assumes "bn_set_words alloc bn ws n = (Some u, r)" "n \<le> length ws"
  shows "bn_ok r" "bn_int r = int (bn_val (take n ws))" "bn_width r = n"
proof -
  obtain b where r: "r = (bn_write b (take n ws))\<lparr>bn_width := n, bn_neg := False\<rparr>"
    using assms by (auto simp: bn_set_words_def attempt_eq_Some)
  show "bn_ok r" "bn_int r = int (bn_val (take n ws))" "bn_width r = n"
    using assms(2) by (simp_all add: r bn_ok_def bn_int_def bn_abs_def)
qed

lemma bn_copy_words_iff:
  assumes "bn_ok bn"
  shows "bn_copy_words n bn = Some ws \<longleftrightarrow> length ws = n \<and> int (bn_val ws) = bn_int bn"
proof -
  have f: "bn_fits bn" using assms by (rule bn_ok_fits)
  show ?thesis
  proof (cases "bn_neg bn")
    case True
    then have "bn_int bn < 0" using assms by (simp add: bn_int_neg_iff)
    moreover have "bn_copy_words n bn = None" using True by (simp add: bn_copy_words_def)
    moreover have "int (bn_val ws) \<noteq> bn_int bn" using calculation(1) by linarith
    ultimately show ?thesis by simp
  next
    case False
    then have i: "bn_int bn = int (bn_abs bn)" by (simp add: bn_int_def)
    have u: "ws = vs" if "length ws = n" "length vs = n" "bn_val ws = bn_val vs" for vs
      using that bn_val_inject [of ws vs] by simp
    show ?thesis
    proof (cases "bn_abs bn < limb_base ^ n")
      case True
      define vs where "vs = (if bn_width bn > n then take n (bn_d bn)
        else take (bn_width bn) (bn_d bn) @ replicate (n - bn_width bn) 0)"
      have c: "bn_copy_words n bn = Some vs"
        using False True f by (simp add: bn_copy_words_def bn_fits_in_words_iff vs_def Let_def)
      have v: "length vs = n" "bn_val vs = bn_abs bn"
      proof -
        show "length vs = n" using f by (simp add: vs_def bn_fits_def)
        show "bn_val vs = bn_abs bn"
        proof (cases "bn_width bn > n")
          case True': True
          have "bn_val (take n (bn_words bn)) = bn_abs bn mod limb_base ^ n"
            unfolding bn_abs_def by (rule bn_val_take) (use True' f in \<open>simp add: length_bn_words\<close>)
          then show ?thesis using True True' by (simp add: vs_def bn_words_def min_def)
        next
          case False
          then show ?thesis by (simp add: vs_def bn_val_append bn_abs_def bn_words_def)
        qed
      qed
      show ?thesis using c u [of vs] v i by auto
    next
      case big: False
      have "bn_width bn > n"
      proof (rule ccontr)
        assume "\<not> bn_width bn > n"
        then have "limb_base ^ bn_width bn \<le> limb_base ^ n" by (intro power_increasing) simp_all
        with bn_abs_less [OF f] big show False by linarith
      qed
      then have "bn_copy_words n bn = None"
        using False big f by (simp add: bn_copy_words_def bn_fits_in_words_iff)
      moreover have "\<not> (length ws = n \<and> bn_val ws = bn_abs bn)"
        using bn_val_less [of ws] big by auto
      ultimately show ?thesis using i by simp
    qed
  qed
qed

lemma BN_set_negative_value:
  "bn_fits bn \<Longrightarrow> bn_ok (BN_set_negative bn s) \<and> bn_int (BN_set_negative bn s) = (if s then - int (bn_abs bn) else int (bn_abs bn))"
  by (auto simp: BN_set_negative_def BN_is_zero_iff bn_ok_def bn_int_def)

lemma BN_get_word_value:
  "bn_fits bn \<Longrightarrow> unat (BN_get_word bn) = min (bn_abs bn) (limb_base - 1)"
  "bn_fits bn \<Longrightarrow> BN_get_u64 bn = (if bn_abs bn < limb_base then Some (of_nat (bn_abs bn)) else None)"
proof -
  assume f: "bn_fits bn"
  have "unat (BN_get_word bn) = min (bn_abs bn) (limb_base - 1)
      \<and> BN_get_u64 bn = (if bn_abs bn < limb_base then Some (of_nat (bn_abs bn)) else None)"
  proof (cases "bn_minimal_width bn")
    case 0
    then show ?thesis using bn_minimal_width_0_iff [OF f] by (simp add: BN_get_word_def BN_get_u64_def)
  next
    case (Suc k)
    note v = bn_minimal_width_Suc [OF f Suc]
    show ?thesis
    proof (cases k)
      case 0
      then have "bn_abs bn = unat (bn_d bn ! 0)" using v(3) by simp
      then show ?thesis using Suc 0 unat_limb_le [of "bn_d bn ! 0"] by (simp add: BN_get_word_def BN_get_u64_def)
    next
      case (Suc j)
      have "limb_base ^ 1 \<le> limb_base ^ k" unfolding Suc by (intro power_increasing) simp_all
      then have "limb_base \<le> bn_abs bn" using v(1) by simp
      moreover have "unat (- 1 :: u64) = limb_base - 1" by (simp add: limb_base_def unsigned_minus_1_eq_mask mask_eq_exp_minus_1)
      ultimately show ?thesis using \<open>bn_minimal_width bn = Suc k\<close> Suc
        by (simp add: BN_get_word_def BN_get_u64_def)
    qed
  qed
  then show "unat (BN_get_word bn) = min (bn_abs bn) (limb_base - 1)"
    "BN_get_u64 bn = (if bn_abs bn < limb_base then Some (of_nat (bn_abs bn)) else None)" by simp_all
qed

end
