(* ===== verification/Bn_Ctx.thy ===== *)
theory Bn_Ctx
  imports Bn_Value
begin

text \<open>
  The pool of scratch numbers (\<^verbatim>\<open>crypto/fipsmodule/bn/ctx.c\<close>).  The stack \<^verbatim>\<open>bignums\<close> is the list of its
  numbers, which a pointer from \<^verbatim>\<open>BN_CTX_get\<close> names by the index; \<^verbatim>\<open>stack\<close> keeps \<open>used\<close> for every open frame.
  The answers of the allocator are the record \<open>ctx_mem\<close>: for an array of frames by its size, and for the
  stack, a new number and its push by the number of scratch numbers there are.
\<close>

record bn_stack =
  bs_indexes :: "nat list"
  bs_depth :: nat
  bs_size :: nat

record bn_ctx =
  ctx_bignums :: "bignum list option"
  ctx_stack :: bn_stack
  ctx_used :: nat
  ctx_error :: bool
  ctx_defer_error :: bool

record ctx_mem =
  frames_alloc :: "nat \<Rightarrow> bool"
  bignums_alloc :: bool
  number_alloc :: "nat \<Rightarrow> bool"
  push_alloc :: "nat \<Rightarrow> bool"

definition BN_CTX_START_FRAMES :: nat where
  "BN_CTX_START_FRAMES = 32"

definition BN_STACK_init :: bn_stack where
  "BN_STACK_init = \<lparr>bs_indexes = [], bs_depth = 0, bs_size = 0\<rparr>"

definition BN_STACK_push :: "(nat \<Rightarrow> bool) \<Rightarrow> bn_stack \<Rightarrow> nat \<Rightarrow> bool \<times> bn_stack" where
  "BN_STACK_push ok st idx =
     (let room =
        (if bs_depth st = bs_size st
         then let new_size = (if bs_size st \<noteq> 0 then bs_size st * 3 mod 2 ^ 64 div 2 else BN_CTX_START_FRAMES)
              in if new_size \<le> bs_size st \<or> new_size > (2 ^ 64 - 1) div 8 then None
                 else if \<not> ok new_size then None
                 else Some (st\<lparr>bs_indexes := bs_indexes st @ replicate (new_size - bs_size st) 0, bs_size := new_size\<rparr>)
         else Some st)
      in case room of None \<Rightarrow> (False, st)
         | Some st \<Rightarrow> (True, st\<lparr>bs_indexes := (bs_indexes st)[bs_depth st := idx], bs_depth := bs_depth st + 1\<rparr>))"

definition BN_STACK_pop :: "bn_stack \<Rightarrow> nat \<times> bn_stack" where
  "BN_STACK_pop st = (let st = st\<lparr>bs_depth := bs_depth st - 1\<rparr> in (bs_indexes st ! bs_depth st, st))"

definition BN_CTX_new :: "bool \<Rightarrow> bn_ctx option" where
  "BN_CTX_new ok =
     (if \<not> ok then None
      else Some \<lparr>ctx_bignums = None, ctx_stack = BN_STACK_init, ctx_used = 0, ctx_error = False, ctx_defer_error = False\<rparr>)"

definition BN_CTX_start :: "ctx_mem \<Rightarrow> bn_ctx \<Rightarrow> bn_ctx" where
  "BN_CTX_start mem ctx =
     (if ctx_error ctx then ctx
      else let (ok, st) = BN_STACK_push (frames_alloc mem) (ctx_stack ctx) (ctx_used ctx); ctx = ctx\<lparr>ctx_stack := st\<rparr>
           in if \<not> ok then ctx\<lparr>ctx_error := True, ctx_defer_error := True\<rparr> else ctx)"

text \<open>The last part of \<^verbatim>\<open>BN_CTX_get\<close>: the number at \<open>used\<close> is set to zero and handed out.\<close>

definition ctx_take :: "bn_ctx \<Rightarrow> bignum list \<Rightarrow> nat option \<times> bn_ctx" where
  "ctx_take ctx ns =
     (Some (ctx_used ctx),
      ctx\<lparr>ctx_bignums := Some (ns[ctx_used ctx := BN_zero (ns ! ctx_used ctx)]), ctx_used := ctx_used ctx + 1\<rparr>)"

text \<open>The middle part: when all numbers are in use, a new one is pushed.\<close>

definition ctx_push :: "ctx_mem \<Rightarrow> bn_ctx \<Rightarrow> bignum list \<Rightarrow> nat option \<times> bn_ctx" where
  "ctx_push mem ctx ns =
     (if ctx_used ctx = length ns
      then (case BN_new (number_alloc mem (length ns)) of
          None \<Rightarrow> (None, ctx\<lparr>ctx_bignums := Some ns, ctx_error := True\<rparr>)
        | Some bn \<Rightarrow>
          if \<not> push_alloc mem (length ns) then (None, ctx\<lparr>ctx_bignums := Some ns, ctx_error := True\<rparr>)
          else ctx_take ctx (ns @ [bn]))
      else ctx_take ctx ns)"

definition BN_CTX_get :: "ctx_mem \<Rightarrow> bn_ctx \<Rightarrow> nat option \<times> bn_ctx" where
  "BN_CTX_get mem ctx =
     (if ctx_error ctx then (None, if ctx_defer_error ctx then ctx\<lparr>ctx_defer_error := False\<rparr> else ctx)
      else case (case ctx_bignums ctx of Some ns \<Rightarrow> Some ns | None \<Rightarrow> if bignums_alloc mem then Some [] else None)
        of None \<Rightarrow> (None, ctx\<lparr>ctx_error := True\<rparr>)
         | Some ns \<Rightarrow> ctx_push mem ctx ns)"

definition BN_CTX_end :: "bn_ctx \<Rightarrow> bn_ctx" where
  "BN_CTX_end ctx =
     (if ctx_error ctx then ctx
      else let (used, st) = BN_STACK_pop (ctx_stack ctx) in ctx\<lparr>ctx_stack := st, ctx_used := used\<rparr>)"

text \<open>The number a pointer from \<^verbatim>\<open>BN_CTX_get\<close> points to, and a change of it.\<close>

definition ctx_number :: "bn_ctx \<Rightarrow> nat \<Rightarrow> bignum" where
  "ctx_number ctx i = the (ctx_bignums ctx) ! i"

definition ctx_update :: "bn_ctx \<Rightarrow> nat \<Rightarrow> bignum \<Rightarrow> bn_ctx" where
  "ctx_update ctx i bn = ctx\<lparr>ctx_bignums := map_option (\<lambda>ns. ns[i := bn]) (ctx_bignums ctx)\<rparr>"

text \<open>Getting \<open>n\<close> numbers, one call after the other; the caller looks at the last pointer only.\<close>

fun ctx_gets :: "ctx_mem \<Rightarrow> bn_ctx \<Rightarrow> nat \<Rightarrow> nat option list \<times> bn_ctx" where
  "ctx_gets mem ctx 0 = ([], ctx)"
| "ctx_gets mem ctx (Suc n) =
     (let (p, ctx) = BN_CTX_get mem ctx; (ps, ctx) = ctx_gets mem ctx n in (p # ps, ctx))"

subsection \<open>The invariant of the pool\<close>

definition ctx_numbers :: "bn_ctx \<Rightarrow> bignum list" where
  "ctx_numbers ctx = (case ctx_bignums ctx of None \<Rightarrow> [] | Some ns \<Rightarrow> ns)"

definition ctx_frames :: "bn_ctx \<Rightarrow> nat list" where
  "ctx_frames ctx = take (bs_depth (ctx_stack ctx)) (bs_indexes (ctx_stack ctx))"

definition ctx_ok :: "bn_ctx \<Rightarrow> bool" where
  "ctx_ok ctx \<longleftrightarrow>
     length (bs_indexes (ctx_stack ctx)) = bs_size (ctx_stack ctx)
   \<and> bs_depth (ctx_stack ctx) \<le> bs_size (ctx_stack ctx)
   \<and> sorted (ctx_frames ctx @ [ctx_used ctx])
   \<and> ctx_used ctx \<le> length (ctx_numbers ctx)
   \<and> (\<forall>bn \<in> set (ctx_numbers ctx). bn_fits bn \<and> \<not> bn_static bn)"

lemma BN_CTX_new_ok: "BN_CTX_new ok = Some ctx \<Longrightarrow> ctx_ok ctx \<and> ctx_frames ctx = [] \<and> ctx_used ctx = 0"
  by (auto simp: BN_CTX_new_def ctx_ok_def BN_STACK_init_def ctx_frames_def ctx_numbers_def split: if_splits)

lemma BN_zero_pool: "bn_fits (BN_zero bn)" "bn_static (BN_zero bn) = bn_static bn"
  by (simp_all add: BN_zero_def bn_fits_def)

lemma BN_STACK_push_frames:
  assumes "BN_STACK_push ok st idx = (b, st')" "length (bs_indexes st) = bs_size st" "bs_depth st \<le> bs_size st"
  shows "length (bs_indexes st') = bs_size st'" "bs_depth st' \<le> bs_size st'"
    "take (bs_depth st') (bs_indexes st') = take (bs_depth st) (bs_indexes st) @ (if b then [idx] else [])"
    "\<not> b \<Longrightarrow> st' = st"
  using assms
  by (auto simp: BN_STACK_push_def Let_def take_Suc_conv_app_nth list_update_append nth_append split: if_splits)

lemma BN_CTX_start_ok:
  assumes "ctx_ok ctx"
  shows "ctx_ok (BN_CTX_start mem ctx)" "ctx_numbers (BN_CTX_start mem ctx) = ctx_numbers ctx"
    "ctx_used (BN_CTX_start mem ctx) = ctx_used ctx" "ctx_error ctx \<Longrightarrow> ctx_error (BN_CTX_start mem ctx)"
    "\<not> ctx_error (BN_CTX_start mem ctx) \<Longrightarrow> ctx_frames (BN_CTX_start mem ctx) = ctx_frames ctx @ [ctx_used ctx]"
proof -
  obtain b st where p: "BN_STACK_push (frames_alloc mem) (ctx_stack ctx) (ctx_used ctx) = (b, st)" by fastforce
  note P = BN_STACK_push_frames [OF p, folded ctx_frames_def]
  show "ctx_ok (BN_CTX_start mem ctx)" "ctx_numbers (BN_CTX_start mem ctx) = ctx_numbers ctx"
    "ctx_used (BN_CTX_start mem ctx) = ctx_used ctx" "ctx_error ctx \<Longrightarrow> ctx_error (BN_CTX_start mem ctx)"
    "\<not> ctx_error (BN_CTX_start mem ctx) \<Longrightarrow> ctx_frames (BN_CTX_start mem ctx) = ctx_frames ctx @ [ctx_used ctx]"
    using assms P
    by (auto simp: BN_CTX_start_def ctx_ok_def p ctx_numbers_def ctx_frames_def sorted_append split: if_splits)
qed

text \<open>What a call adds to a pool: the numbers in use and, short of an error, the frames stay; an error stays an error.\<close>

definition ctx_extends :: "bn_ctx \<Rightarrow> bn_ctx \<Rightarrow> bool" where
  "ctx_extends ctx ctx' \<longleftrightarrow>
     ctx_ok ctx' \<and> ctx_used ctx \<le> ctx_used ctx'
   \<and> (\<not> ctx_error ctx' \<longrightarrow> ctx_frames ctx' = ctx_frames ctx)
   \<and> (ctx_error ctx \<longrightarrow> ctx_error ctx')
   \<and> take (ctx_used ctx) (ctx_numbers ctx') = take (ctx_used ctx) (ctx_numbers ctx)"

lemma ctx_extends_refl: "ctx_ok ctx \<Longrightarrow> ctx_extends ctx ctx"
  by (simp add: ctx_extends_def)

lemma ctx_extends_trans: "ctx_extends a b \<Longrightarrow> ctx_extends b c \<Longrightarrow> ctx_extends a c"
proof -
  assume ab: "ctx_extends a b" and bc: "ctx_extends b c"
  then have "take (ctx_used a) (take (ctx_used b) (ctx_numbers c)) = take (ctx_used a) (take (ctx_used b) (ctx_numbers b))"
    by (simp add: ctx_extends_def)
  then have "take (ctx_used a) (ctx_numbers c) = take (ctx_used a) (ctx_numbers a)"
    unfolding take_take using ab bc by (simp add: ctx_extends_def min_absorb1)
  then show ?thesis using ab bc by (auto simp: ctx_extends_def)
qed

lemma BN_CTX_get_cases:
  assumes "BN_CTX_get mem ctx = (p, ctx')" "ctx_ok ctx"
  obtains (failed) "p = None" "ctx_error ctx'" "ctx_extends ctx ctx'"
    | (taken) ns extra where "\<not> ctx_error ctx" "(p, ctx') = ctx_take ctx ns" "ns = ctx_numbers ctx @ extra"
        "ctx_used ctx < length ns" "\<forall>bn \<in> set extra. bn_fits bn \<and> \<not> bn_static bn"
proof -
  define got where "got = (case ctx_bignums ctx of Some ns \<Rightarrow> Some ns | None \<Rightarrow> if bignums_alloc mem then Some [] else None)"
  have got: "ns = ctx_numbers ctx" if "got = Some ns" for ns
    using that by (simp add: got_def ctx_numbers_def split: option.splits if_splits)
  have err: "ctx_extends ctx (ctx\<lparr>ctx_error := e, ctx_defer_error := d\<rparr>)"
    "ctx_extends ctx (ctx\<lparr>ctx_bignums := Some (ctx_numbers ctx), ctx_error := e\<rparr>)" if "ctx_error ctx \<Longrightarrow> e" for e d
    using assms(2) that by (auto simp: ctx_extends_def ctx_ok_def ctx_numbers_def ctx_frames_def)
  show thesis
  proof (cases "ctx_error ctx")
    case True
    then have "p = None" "ctx' = ctx\<lparr>ctx_error := True, ctx_defer_error := False\<rparr>"
      using assms(1) by (auto simp: BN_CTX_get_def split: if_splits)
    then show thesis using err(1) [of True False] failed by simp
  next
    case False
    note get = assms(1) [unfolded BN_CTX_get_def, folded got_def]
    show thesis
    proof (cases got)
      case None
      then have "p = None" "ctx' = ctx\<lparr>ctx_error := True, ctx_defer_error := ctx_defer_error ctx\<rparr>" using get False by auto
      then show thesis using err(1) [of True "ctx_defer_error ctx"] failed by simp
    next
      case (Some ns)
      define bn :: bignum where "bn = \<lparr>bn_d = [], bn_width = 0, bn_neg = False, bn_static = False\<rparr>"
      have bn: "bn_fits bn \<and> \<not> bn_static bn" by (simp add: bn_def bn_fits_def)
      have ns: "ns = ctx_numbers ctx" by (rule got [OF Some])
      have used: "ctx_used ctx \<le> length ns" using assms(2) by (simp add: ctx_ok_def ns)
      have g: "ctx_push mem ctx ns = (p, ctx')" using get by (simp only: False Some if_False option.case)
      consider "p = None" "ctx' = ctx\<lparr>ctx_bignums := Some ns, ctx_error := True\<rparr>"
        | "(p, ctx') = ctx_take ctx (ns @ [bn])" "ctx_used ctx = length ns"
        | "(p, ctx') = ctx_take ctx ns" "ctx_used ctx \<noteq> length ns"
      proof (cases "ctx_used ctx = length ns")
        case True
        then show thesis using g that(1,2)
          by (cases "number_alloc mem (length ns)"; cases "push_alloc mem (length ns)") (simp_all add: ctx_push_def BN_new_def bn_def)
      next
        case False
        then show thesis using g that(3) by (simp add: ctx_push_def)
      qed
      then show thesis
      proof cases
        case 1
        then show thesis using err(2) [of True] ns failed by simp
      next
        case 2
        then show thesis using taken [of "ns @ [bn]" "[bn]"] False ns bn by simp
      next
        case 3
        then show thesis using taken [of ns "[]"] False ns used by simp
      qed
    qed
  qed
qed

lemma BN_CTX_get_extends:
  assumes "BN_CTX_get mem ctx = (p, ctx')" "ctx_ok ctx"
  shows "ctx_extends ctx ctx'"
  using assms
proof (cases rule: BN_CTX_get_cases)
  case (taken ns extra)
  have ok: "ctx_used ctx \<le> length (ctx_numbers ctx)" "\<forall>bn \<in> set (ctx_numbers ctx). bn_fits bn \<and> \<not> bn_static bn"
    using assms(2) by (simp_all add: ctx_ok_def)
  have s: "set (ns[ctx_used ctx := BN_zero (ns ! ctx_used ctx)]) \<subseteq> insert (BN_zero (ns ! ctx_used ctx)) (set ns)"
    by (rule set_update_subset_insert)
  have "ns ! ctx_used ctx \<in> set ns" using taken(4) by simp
  then have "\<forall>bn \<in> set (ns[ctx_used ctx := BN_zero (ns ! ctx_used ctx)]). bn_fits bn \<and> \<not> bn_static bn"
    using s taken(3,5) ok(2) by (auto simp: BN_zero_pool)
  then show ?thesis using taken assms(2) ok(1)
    by (auto simp: ctx_extends_def ctx_ok_def ctx_take_def ctx_numbers_def ctx_frames_def sorted_append intro: le_SucI)
qed

text \<open>A pointer that is not \<^verbatim>\<open>NULL\<close> is the number at the old \<open>used\<close>, which is zero.\<close>

lemma BN_CTX_get_Some:
  assumes "BN_CTX_get mem ctx = (Some i, ctx')" "ctx_ok ctx"
  shows "i = ctx_used ctx" "ctx_used ctx' = Suc i" "\<not> ctx_error ctx'" "bn_fits (ctx_number ctx' i)"
    "bn_int (ctx_number ctx' i) = 0" "\<not> bn_static (ctx_number ctx' i)" "i < length (ctx_numbers ctx')"
proof -
  obtain ns where t: "(Some i, ctx') = ctx_take ctx ns" "\<not> ctx_error ctx" "ctx_used ctx < length ns"
    using assms by (cases rule: BN_CTX_get_cases) auto
  show i: "i = ctx_used ctx" "ctx_used ctx' = Suc i" "\<not> ctx_error ctx'" using t by (simp_all add: ctx_take_def)
  have ok: "ctx_extends ctx ctx'" by (rule BN_CTX_get_extends [OF assms])
  then show l: "i < length (ctx_numbers ctx')" using i(2) by (simp add: ctx_extends_def ctx_ok_def)
  then have m: "ctx_number ctx' i \<in> set (ctx_numbers ctx')"
    by (simp add: ctx_number_def ctx_numbers_def split: option.splits)
  then show "bn_fits (ctx_number ctx' i)" "\<not> bn_static (ctx_number ctx' i)"
    using ok by (simp_all add: ctx_extends_def ctx_ok_def)
  show "bn_int (ctx_number ctx' i) = 0" using t by (simp add: ctx_number_def ctx_take_def)
qed

lemma ctx_gets_extends: "ctx_gets mem ctx n = (ps, ctx') \<Longrightarrow> ctx_ok ctx \<Longrightarrow> ctx_extends ctx ctx'"
proof (induction n arbitrary: ctx ps)
  case 0
  then show ?case by (simp add: ctx_extends_refl)
next
  case (Suc n)
  obtain p ctx1 where g: "BN_CTX_get mem ctx = (p, ctx1)" by fastforce
  have e: "ctx_extends ctx ctx1" by (rule BN_CTX_get_extends [OF g Suc.prems(2)])
  then have "ctx_ok ctx1" by (simp add: ctx_extends_def)
  then have "ctx_extends ctx1 ctx'" using Suc.prems(1) Suc.IH [of ctx1] by (auto simp: g split: prod.splits)
  then show ?case by (rule ctx_extends_trans [OF e])
qed

text \<open>Changing a number that is not in use by an outer frame.\<close>

lemma ctx_update_simps [simp]:
  "ctx_used (ctx_update ctx i bn) = ctx_used ctx" "ctx_error (ctx_update ctx i bn) = ctx_error ctx"
  "ctx_stack (ctx_update ctx i bn) = ctx_stack ctx" "ctx_frames (ctx_update ctx i bn) = ctx_frames ctx"
  "ctx_numbers (ctx_update ctx i bn) = (ctx_numbers ctx)[i := bn]"
  by (simp_all add: ctx_update_def ctx_frames_def ctx_numbers_def split: option.splits)

lemma ctx_update_extends:
  assumes "ctx_extends ctx ctx'" "ctx_used ctx \<le> i" "bn_fits bn" "\<not> bn_static bn"
  shows "ctx_extends ctx (ctx_update ctx' i bn)"
proof -
  have "set ((ctx_numbers ctx')[i := bn]) \<subseteq> insert bn (set (ctx_numbers ctx'))" by (rule set_update_subset_insert)
  then have "\<forall>b \<in> set ((ctx_numbers ctx')[i := bn]). bn_fits b \<and> \<not> bn_static b"
    using assms by (auto simp: ctx_extends_def ctx_ok_def)
  then show ?thesis using assms(1,2) by (auto simp: ctx_extends_def ctx_ok_def)
qed

text \<open>\<^verbatim>\<open>BN_CTX_start\<close>, calls that extend the pool, \<^verbatim>\<open>BN_CTX_end\<close>: the pool is as before, numbers in use included.\<close>

definition ctx_same :: "bn_ctx \<Rightarrow> bn_ctx \<Rightarrow> bool" where
  "ctx_same ctx ctx' \<longleftrightarrow> ctx_extends ctx ctx' \<and> (\<not> ctx_error ctx' \<longrightarrow> ctx_used ctx' = ctx_used ctx)"

lemma ctx_same_refl: "ctx_ok ctx \<Longrightarrow> ctx_same ctx ctx"
  by (simp add: ctx_same_def ctx_extends_refl)

lemma ctx_same_ok: "ctx_same ctx ctx' \<Longrightarrow> ctx_ok ctx'"
  by (simp add: ctx_same_def ctx_extends_def)

lemma ctx_same_trans: "ctx_same a b \<Longrightarrow> ctx_same b c \<Longrightarrow> ctx_same a c"
  using ctx_extends_trans [of a b c] by (auto simp: ctx_same_def ctx_extends_def)

lemma BN_CTX_frame:
  assumes "ctx_ok ctx" "ctx_extends (BN_CTX_start mem ctx) ctx1"
  shows "ctx_same ctx (BN_CTX_end ctx1)"
proof (cases "ctx_error ctx1")
  case True
  then show ?thesis using assms BN_CTX_start_ok [OF assms(1), of mem]
    by (simp add: ctx_same_def ctx_extends_def BN_CTX_end_def)
next
  case False
  define st where "st = ctx_stack ctx1"
  have f: "\<not> ctx_error (BN_CTX_start mem ctx)" "take (bs_depth st) (bs_indexes st) = ctx_frames ctx @ [ctx_used ctx]"
    "ctx_ok ctx1" "ctx_used ctx \<le> ctx_used ctx1" "take (ctx_used ctx) (ctx_numbers ctx1) = take (ctx_used ctx) (ctx_numbers ctx)"
    using False assms BN_CTX_start_ok [OF assms(1), of mem] by (auto simp: ctx_extends_def st_def ctx_frames_def)
  have l: "bs_depth st \<le> length (bs_indexes st)" using f(3) by (simp add: ctx_ok_def st_def)
  with f(2) have d: "bs_depth st = Suc (length (ctx_frames ctx))"
    by (metis length_append_singleton length_take min_absorb2)
  have p: "take (bs_depth st - 1) (bs_indexes st) = ctx_frames ctx" "bs_indexes st ! (bs_depth st - 1) = ctx_used ctx"
    using f(2) l d by (simp_all add: take_Suc_conv_app_nth)
  have e: "BN_CTX_end ctx1 = ctx1\<lparr>ctx_stack := st\<lparr>bs_depth := bs_depth st - 1\<rparr>, ctx_used := ctx_used ctx\<rparr>"
    using False p(2) by (simp add: BN_CTX_end_def BN_STACK_pop_def st_def [symmetric])
  have fr: "ctx_frames (BN_CTX_end ctx1) = ctx_frames ctx" using p(1) by (simp add: e ctx_frames_def)
  moreover have "\<not> ctx_error ctx" using f(1) BN_CTX_start_ok(4) [OF assms(1)] by blast
  ultimately show ?thesis using f(3,4,5) assms(1) l d False
    by (auto simp: e ctx_same_def ctx_extends_def ctx_ok_def ctx_numbers_def st_def)
qed

text \<open>The frame of a function: what it does between \<^verbatim>\<open>BN_CTX_start\<close> and \<^verbatim>\<open>BN_CTX_end\<close>.\<close>

definition in_frame :: "ctx_mem \<Rightarrow> bn_ctx \<Rightarrow> (bn_ctx \<Rightarrow> 'a \<times> bn_ctx) \<Rightarrow> 'a \<times> bn_ctx" where
  "in_frame mem ctx f = (let (r, ctx) = f (BN_CTX_start mem ctx) in (r, BN_CTX_end ctx))"

lemma in_frame_same:
  assumes "in_frame mem ctx f = (r, ctx')" "ctx_ok ctx"
    and "\<And>c r c'. ctx_ok c \<Longrightarrow> f c = (r, c') \<Longrightarrow> ctx_extends c c'"
  shows "ctx_same ctx ctx'"
proof -
  obtain c1 where c1: "f (BN_CTX_start mem ctx) = (r, c1)" "ctx' = BN_CTX_end c1"
    using assms(1) by (auto simp: in_frame_def split: prod.splits)
  show ?thesis unfolding c1(2) by (rule BN_CTX_frame [OF assms(2) assms(3) [OF BN_CTX_start_ok(1) [OF assms(2)] c1(1)]])
qed

end
