(* ===== verification/Bn_Compare.thy ===== *)
theory Bn_Compare
  imports Bn_Value
begin

text \<open>
  Comparison, predicates and the number of bits of a \<^verbatim>\<open>BIGNUM\<close>, as statements on its integer (cmp.c, bn.c).
\<close>

lemma BN_ucmp_value: "bn_fits a \<Longrightarrow> bn_fits b \<Longrightarrow> BN_ucmp a b = cmp_value (bn_abs a) (bn_abs b)"
  by (simp add: BN_ucmp_def bn_cmp_words_value bn_fits_def bn_abs_def bn_words_def)

lemma BN_ucmp_less: "bn_fits a \<Longrightarrow> bn_fits b \<Longrightarrow> sint (BN_ucmp a b) < 0 \<longleftrightarrow> bn_abs a < bn_abs b"
  by (simp add: BN_ucmp_value)

lemma BN_cmp_value:
  assumes "bn_ok a" "bn_ok b"
  shows "BN_cmp (Some a) (Some b) = (if bn_int a < bn_int b then - 1 else if bn_int a = bn_int b then 0 else 1)"
  using assms bn_int_neg_iff [OF assms(1)] bn_int_neg_iff [OF assms(2)]
  by (auto simp: BN_cmp_def BN_ucmp_value bn_ok_fits cmp_value_def bn_int_def Let_def)

lemma bn_of_word:
  "bn_ok \<lparr>bn_d = [b], bn_width = of_bool (b > 0), bn_neg = False, bn_static = s\<rparr>"
  "bn_int \<lparr>bn_d = [b], bn_width = of_bool (b > 0), bn_neg = False, bn_static = s\<rparr> = int (unat b)"
  by (auto simp: bn_ok_def bn_fits_def bn_int_def bn_abs_def bn_words_def word_gt_0)

lemma BN_cmp_word_value:
  "bn_ok a \<Longrightarrow> BN_cmp_word a b = (if bn_int a < int (unat b) then - 1 else if bn_int a = int (unat b) then 0 else 1)"
  by (simp add: BN_cmp_word_def BN_cmp_value bn_of_word)

lemma foldl_or_zero: "foldl (\<lambda>m i. m OR f i) (m :: 'a::len word) is = 0 \<longleftrightarrow> m = 0 \<and> (\<forall>i \<in> set is. f i = 0)"
  by (induction "is" arbitrary: m) (auto simp: or_zero_iff)

lemma bn_abs_Suc: "bn_fits bn \<Longrightarrow> bn_width bn = Suc k \<Longrightarrow> bn_abs bn = unat (bn_d bn ! 0) + limb_base * bn_val (take k (tl (bn_d bn)))"
  by (cases "bn_d bn") (simp_all add: bn_abs_def bn_words_def bn_fits_def)

lemma BN_abs_is_word_iff:
  assumes "bn_fits bn"
  shows "BN_abs_is_word bn w \<longleftrightarrow> bn_abs bn = unat w"
proof (cases "bn_width bn")
  case 0
  then show ?thesis by (auto simp: BN_abs_is_word_def bn_abs_def bn_words_def unat_eq_0)
next
  case (Suc k)
  have l: "Suc k \<le> length (bn_d bn)" using assms Suc by (simp add: bn_fits_def)
  have "BN_abs_is_word bn w \<longleftrightarrow> bn_d bn ! 0 = w \<and> (\<forall>i \<in> {1..<Suc k}. bn_d bn ! i = 0)"
    by (simp add: BN_abs_is_word_def Suc foldl_or_zero xor_zero_iff del: upt_Suc)
  also have "(\<forall>i \<in> {1..<Suc k}. bn_d bn ! i = 0) \<longleftrightarrow> or_range (bn_d bn) 1 (Suc k) = 0"
    by (simp add: or_range_zero_iff)
  also have "\<dots> \<longleftrightarrow> bn_val (drop 1 (take (Suc k) (bn_d bn))) = 0"
    by (rule or_range_zero_drop) (use l in simp_all)
  also have "drop 1 (take (Suc k) (bn_d bn)) = take k (tl (bn_d bn))"
    by (cases "bn_d bn") simp_all
  finally have e: "BN_abs_is_word bn w \<longleftrightarrow> bn_d bn ! 0 = w \<and> bn_val (take k (tl (bn_d bn))) = 0" .
  define h t where "h = bn_d bn ! 0" and "t = bn_val (take k (tl (bn_d bn)))"
  have a: "bn_abs bn = unat h + limb_base * t" using bn_abs_Suc [OF assms Suc] by (simp add: h_def t_def)
  have "unat h + limb_base * t = unat w \<longleftrightarrow> h = w \<and> t = 0"
  proof
    assume x: "unat h + limb_base * t = unat w"
    have "t = 0"
    proof (rule ccontr)
      assume "t \<noteq> 0"
      then have "limb_base * 1 \<le> limb_base * t" by (intro mult_le_mono2) simp
      with x unat_limb [of w] show False by linarith
    qed
    with x show "h = w \<and> t = 0" by (simp add: word_unat_eq_iff)
  qed simp
  with e show ?thesis by (simp add: a h_def t_def)
qed

lemma BN_is_one_iff: "bn_ok bn \<Longrightarrow> BN_is_one bn \<longleftrightarrow> bn_int bn = 1"
  by (auto simp: BN_is_one_def BN_abs_is_word_iff bn_ok_fits bn_int_def)

lemma BN_is_word_iff: "bn_ok bn \<Longrightarrow> BN_is_word bn w \<longleftrightarrow> bn_int bn = int (unat w)"
proof -
  assume ok: "bn_ok bn"
  have "int (bn_abs bn) = int (unat w) \<longleftrightarrow> bn_abs bn = unat w" by (rule of_nat_eq_iff)
  moreover have "w = 0 \<longleftrightarrow> unat w = 0" by (simp add: unat_eq_0)
  moreover have "bn_int bn \<noteq> int (unat w)" if "bn_neg bn"
  proof -
    have "bn_int bn < 0" using ok that by (simp add: bn_int_neg_iff)
    moreover have "0 \<le> int (unat w)" by (rule of_nat_0_le_iff)
    ultimately show ?thesis by linarith
  qed
  ultimately show ?thesis
    using ok BN_abs_is_word_iff [of bn w] by (cases "bn_neg bn") (auto simp only: BN_is_word_def bn_int_def bn_ok_def if_True if_False)
qed

lemma BN_is_odd_iff: "bn_fits bn \<Longrightarrow> BN_is_odd bn \<longleftrightarrow> odd (bn_int bn)"
proof -
  assume f: "bn_fits bn"
  have "BN_is_odd bn \<longleftrightarrow> odd (bn_abs bn)"
  proof (cases "bn_width bn")
    case 0
    then show ?thesis by (simp add: BN_is_odd_def bn_abs_def bn_words_def)
  next
    case (Suc k)
    have "even limb_base" by (simp add: limb_base_def)
    moreover have "(bn_d bn ! 0 AND 1 = 1) \<longleftrightarrow> odd (unat (bn_d bn ! 0))"
    proof -
      have "unat (bn_d bn ! 0 AND 1) = unat (bn_d bn ! 0) mod 2"
        using unat_and_mask [of "bn_d bn ! 0" 1] by (simp add: mask_eq_exp_minus_1)
      then show ?thesis by (simp add: word_unat_eq_iff odd_iff_mod_2_eq_one)
    qed
    ultimately show ?thesis using bn_abs_Suc [OF f Suc] Suc by (simp add: BN_is_odd_def)
  qed
  then show ?thesis by (simp add: bn_int_def)
qed

subsection \<open>The number of bits\<close>

fun bit_count :: "nat \<Rightarrow> nat" where
  "bit_count n = (if n = 0 then 0 else Suc (bit_count (n div 2)))"

declare bit_count.simps [simp del]

lemma bit_count_le_iff: "bit_count n \<le> k \<longleftrightarrow> n < 2 ^ k"
proof (induction k arbitrary: n)
  case 0
  then show ?case by (subst bit_count.simps) simp
next
  case (Suc k)
  then show ?case
    by (subst bit_count.simps) (simp add: div_less_iff_less_mult mult.commute)
qed

lemma bit_count_eqI: "2 ^ k \<le> n \<Longrightarrow> n < 2 ^ Suc k \<Longrightarrow> bit_count n = Suc k"
  using bit_count_le_iff [of n k] bit_count_le_iff [of n "Suc k"] by linarith

lemma bit_count_0 [simp]: "bit_count 0 = 0"
  by (simp add: bit_count.simps)

lemma bit_count_eq_0_iff [simp]: "bit_count n = 0 \<longleftrightarrow> n = 0"
  using bit_count_le_iff [of n 0] by auto

lemma bit_count_bounds:
  assumes "n \<noteq> 0"
  shows "2 ^ (bit_count n - 1) \<le> n" "n < 2 ^ bit_count n"
proof -
  have "bit_count n \<noteq> 0" using assms by simp
  then have "\<not> bit_count n \<le> bit_count n - 1" by linarith
  then show "2 ^ (bit_count n - 1) \<le> n" unfolding bit_count_le_iff by simp
  show "n < 2 ^ bit_count n" using bit_count_le_iff [of n "bit_count n"] by simp
qed

lemma bit_count_high:
  assumes "x < 2 ^ k" "y \<noteq> 0"
  shows "bit_count (x + 2 ^ k * y) = k + bit_count y"
proof -
  obtain j where j: "bit_count y = Suc j" using assms(2) not0_implies_Suc [of "bit_count y"] by auto
  have "2 ^ j \<le> y" "y < 2 ^ Suc j" using bit_count_bounds [OF assms(2)] by (simp_all add: j)
  then have "2 ^ k * 2 ^ j \<le> 2 ^ k * y" "2 ^ k * Suc y \<le> 2 ^ k * 2 ^ Suc j"
    by (simp only: mult_le_mono2, intro mult_le_mono2 Suc_leI)
  moreover have "2 ^ (k + j) = 2 ^ k * (2 :: nat) ^ j" "2 ^ Suc (k + j) = 2 ^ k * (2 :: nat) ^ Suc j"
    "2 ^ k * Suc y = 2 ^ k + 2 ^ k * y"
    by (simp_all add: power_add)
  ultimately have "2 ^ (k + j) \<le> x + 2 ^ k * y" "x + 2 ^ k * y < 2 ^ Suc (k + j)"
    using assms(1) by linarith+
  then have "bit_count (x + 2 ^ k * y) = Suc (k + j)" by (rule bit_count_eqI)
  then show ?thesis by (simp add: j)
qed

lemma bit_count_drop:
  assumes "n div 2 ^ k \<noteq> 0"
  shows "bit_count n = k + bit_count (n div 2 ^ k)"
  using bit_count_high [of "n mod 2 ^ k" k "n div 2 ^ k"] assms by simp

lemma minus_half_mask:
  assumes "unat x \<le> 2 ^ 63"
  shows "0 - drop_bit 63 (0 - x :: u64) = word_mask (x \<noteq> 0)"
proof -
  have "bit (0 - x) 63 \<longleftrightarrow> x \<noteq> 0"
  proof (cases "x = 0")
    case False
    then have "unat x \<noteq> 0" by (simp add: unat_eq_0)
    have "unat (0 - x) = 2 ^ 64 - unat x"
      using False unat_sub_if_size [of 0 x] by (simp add: word_size word_le_nat_alt unat_eq_0)
    with assms show ?thesis using False unfolding bit63_iff by simp
  qed simp
  then show ?thesis by (simp only: drop63 word_mask_def) simp
qed

lemma num_bits_block_value:
  assumes "num_bits_block k (l, bits) = (l', bits')" "unat l < 2 ^ (2 * k)" "1 \<le> k" "2 * k \<le> 64"
  shows "bits' + bit_count (unat l') = bits + bit_count (unat l)" "unat l' < 2 ^ k" "l' \<noteq> 0 \<longleftrightarrow> l \<noteq> 0"
proof -
  let ?x = "drop_bit k l"
  have x: "unat ?x = unat l div 2 ^ k" by (rule unat_drop_bit_div)
  have "unat l < 2 ^ k * 2 ^ k" using assms(2) by (simp add: power_add [symmetric] mult_2)
  then have xk: "unat ?x < 2 ^ k" unfolding x by (simp add: div_less_iff_less_mult)
  have "(2 :: nat) ^ k \<le> 2 ^ 63" using assms(4) by (intro power_increasing) simp_all
  then have m: "0 - drop_bit 63 (0 - ?x) = word_mask (?x \<noteq> 0)"
    using xk by (intro minus_half_mask) linarith
  have "k < 2 ^ 64" using assms(4) by simp
  then have uk: "unat (of_nat k :: u64) = k" by (rule unat_of_nat_u64)
  have "bits' + bit_count (unat l') = bits + bit_count (unat l) \<and> unat l' < 2 ^ k \<and> (l' \<noteq> 0 \<longleftrightarrow> l \<noteq> 0)"
  proof (cases "?x = 0")
    case True
    then have "unat l div 2 ^ k = 0" using x by simp
    then have "unat l < 2 ^ k" by (simp add: div_eq_0_iff)
    moreover have "l' = l" "bits' = bits"
      using assms(1) True by (simp_all add: num_bits_block_def Let_def)
    ultimately show ?thesis by simp
  next
    case False
    then have "unat l div 2 ^ k \<noteq> 0" using x by (simp add: word_unat_eq_iff)
    then have c: "bit_count (unat l) = k + bit_count (unat ?x)" unfolding x by (rule bit_count_drop)
    have "l XOR (?x XOR l) = ?x" by (rule bit_word_eqI) (auto simp: bit_simps)
    then have l': "l' = ?x" "bits' = bits + k"
      using assms(1) False m by (auto simp: num_bits_block_def Let_def uk simp del: diff_0)
    have "l \<noteq> 0" using False by auto
    then show ?thesis using c l' xk False by simp
  qed
  then show "bits' + bit_count (unat l') = bits + bit_count (unat l)" "unat l' < 2 ^ k" "l' \<noteq> 0 \<longleftrightarrow> l \<noteq> 0"
    by simp_all
qed

lemma BN_num_bits_word_value: "BN_num_bits_word l = bit_count (unat l)"
proof -
  obtain l1 b1 where 1: "num_bits_block 32 (l, of_bool (l \<noteq> 0)) = (l1, b1)" by fastforce
  obtain l2 b2 where 2: "num_bits_block 16 (l1, b1) = (l2, b2)" by fastforce
  obtain l3 b3 where 3: "num_bits_block 8 (l2, b2) = (l3, b3)" by fastforce
  obtain l4 b4 where 4: "num_bits_block 4 (l3, b3) = (l4, b4)" by fastforce
  obtain l5 b5 where 5: "num_bits_block 2 (l4, b4) = (l5, b5)" by fastforce
  obtain l6 b6 where 6: "num_bits_block 1 (l5, b5) = (l6, b6)" by fastforce
  have l: "unat l < 2 ^ (2 * 32)" using unat_u64_less [of l] by simp
  note n1 = num_bits_block_value [OF 1 l, simplified]
  note n2 = num_bits_block_value [OF 2, simplified, OF n1(2) [simplified]]
  note n3 = num_bits_block_value [OF 3, simplified, OF n2(2) [simplified]]
  note n4 = num_bits_block_value [OF 4, simplified, OF n3(2) [simplified]]
  note n5 = num_bits_block_value [OF 5, simplified, OF n4(2) [simplified]]
  note n6 = num_bits_block_value [OF 6, simplified, OF n5(2) [simplified]]
  have "unat l6 < 2" using n6(2) by simp
  then have "bit_count (unat l6) = of_bool (l6 \<noteq> 0)"
    by (cases "unat l6 = 0") (auto simp: unat_eq_0 less_2_cases_iff bit_count.simps)
  moreover have "l6 \<noteq> 0 \<longleftrightarrow> l \<noteq> 0"
    using n1(3) n2(3) n3(3) n4(3) n5(3) n6(3) by blast
  ultimately have "bit_count (unat l6) = of_bool (l \<noteq> 0)" by simp
  then have "b6 = bit_count (unat l)"
    using n1(1) n2(1) n3(1) n4(1) n5(1) n6(1) by linarith
  then show ?thesis by (simp add: BN_num_bits_word_def 1 2 3 4 5 6 [unfolded One_nat_def])
qed

lemma BN_num_bits_value:
  assumes "bn_fits bn"
  shows "BN_num_bits bn = bit_count (bn_abs bn)"
proof (cases "bn_minimal_width bn")
  case 0
  then show ?thesis using bn_minimal_width_0_iff [OF assms] by (simp add: BN_num_bits_def)
next
  case (Suc k)
  note v = bn_minimal_width_Suc [OF assms Suc]
  have "bn_val (take k (bn_d bn)) < 2 ^ (64 * k)"
    using v(5) assms by (simp add: limb_base_power [symmetric] bn_fits_def bn_val_less_width)
  from bit_count_high [OF this, of "unat (bn_d bn ! k)"] v(3,4) Suc
  show ?thesis
    by (simp add: BN_num_bits_def BN_num_bits_word_value limb_base_power unat_eq_0 mult.commute)
qed

lemma BN_num_bytes_value: "bn_fits bn \<Longrightarrow> BN_num_bytes bn = (bit_count (bn_abs bn) + 7) div 8"
  by (simp add: BN_num_bytes_def BN_num_bits_value)

lemma bytes_of_bits_le_iff: "(bit_count n + 7) div 8 \<le> k \<longleftrightarrow> n < 256 ^ k"
proof -
  have "(bit_count n + 7) div 8 \<le> k \<longleftrightarrow> bit_count n \<le> 8 * k" by linarith
  also have "\<dots> \<longleftrightarrow> n < 2 ^ (8 * k)" by (rule bit_count_le_iff)
  also have "(2 :: nat) ^ (8 * k) = 256 ^ k" by (simp add: power_mult)
  finally show ?thesis .
qed

subsection \<open>Powers of two and equality\<close>

lemma BN_equal_consttime_iff:
  assumes "bn_ok a" "bn_ok b"
  shows "BN_equal_consttime a b \<longleftrightarrow> bn_int a = bn_int b"
proof -
  let ?n = "min (bn_width a) (bn_width b)"
  have f: "bn_width a \<le> length (bn_d a)" "bn_width b \<le> length (bn_d b)"
    using assms by (auto simp: bn_ok_def bn_fits_def)
  have o: "or_range d lo hi = 0 \<longleftrightarrow> bn_val (take hi d) = bn_val (take lo d)" if "lo \<le> hi" "hi \<le> length d" for d lo hi
    using bn_val_take_drop [of lo "take hi d"] that by (simp add: or_range_zero_drop min_def)
  have s: "(of_bool (bn_neg a) XOR of_bool (bn_neg b) :: u64) = 0 \<longleftrightarrow> bn_neg a = bn_neg b"
    by (auto simp: xor_zero_iff)
  have r: "(\<forall>i \<in> set [lo..<hi]. d ! i = 0) \<longleftrightarrow> or_range d lo hi = 0" for d :: "u64 list" and lo hi
    by (simp add: or_range_zero_iff)
  have m: "(\<forall>i \<in> set [0..<?n]. bn_d a ! i XOR bn_d b ! i = 0) \<longleftrightarrow> take ?n (bn_d a) = take ?n (bn_d b)"
    using f by (auto simp: xor_zero_iff list_eq_iff_nth_eq)
  have len: "(if bn_width a < bn_width b then bn_width a else bn_width b) = ?n" by simp
  have "BN_equal_consttime a b \<longleftrightarrow> or_range (bn_d b) (bn_width a) (bn_width b) = 0
      \<and> or_range (bn_d a) (bn_width b) (bn_width a) = 0 \<and> take ?n (bn_d a) = take ?n (bn_d b) \<and> bn_neg a = bn_neg b"
    unfolding BN_equal_consttime_def Let_def len or_zero_iff foldl_or_zero s r m by blast
  also have "\<dots> \<longleftrightarrow> bn_abs a = bn_abs b \<and> bn_neg a = bn_neg b"
  proof (cases "bn_width a \<le> bn_width b")
    case True
    then have "or_range (bn_d a) (bn_width b) (bn_width a) = 0" by (simp add: or_range_def)
    moreover have "take (bn_width a) (bn_d a) = take (bn_width a) (bn_d b)
        \<longleftrightarrow> bn_val (take (bn_width a) (bn_d a)) = bn_val (take (bn_width a) (bn_d b))"
      using f True by (intro bn_val_inject [symmetric]) simp
    moreover have "or_range (bn_d b) (bn_width a) (bn_width b) = 0"
      if "bn_val (take (bn_width b) (bn_d b)) = bn_val (take (bn_width a) (bn_d a))"
    proof -
      have "bn_val (take (bn_width b) (bn_d b)) < limb_base ^ bn_width a"
        unfolding that using f(1) by (intro bn_val_less_width) simp
      then show ?thesis using or_range_zero_value [OF True f(2)] by simp
    qed
    ultimately show ?thesis using True o [OF True f(2)] by (auto simp: bn_abs_def bn_words_def min_def)
  next
    case False
    then have F: "bn_width b \<le> bn_width a" by simp
    then have "or_range (bn_d b) (bn_width a) (bn_width b) = 0" by (simp add: or_range_def)
    moreover have "take (bn_width b) (bn_d a) = take (bn_width b) (bn_d b)
        \<longleftrightarrow> bn_val (take (bn_width b) (bn_d a)) = bn_val (take (bn_width b) (bn_d b))"
      using f F by (intro bn_val_inject [symmetric]) simp
    moreover have "or_range (bn_d a) (bn_width b) (bn_width a) = 0"
      if "bn_val (take (bn_width a) (bn_d a)) = bn_val (take (bn_width b) (bn_d b))"
    proof -
      have "bn_val (take (bn_width a) (bn_d a)) < limb_base ^ bn_width b"
        unfolding that using f(2) by (intro bn_val_less_width) simp
      then show ?thesis using or_range_zero_value [OF F f(1)] by simp
    qed
    ultimately show ?thesis using False F o [OF F f(1)] by (auto simp: bn_abs_def bn_words_def min_def)
  qed
  also have "\<dots> \<longleftrightarrow> bn_int a = bn_int b"
    using assms by (auto simp: bn_int_def bn_ok_def)
  finally show ?thesis .
qed

end
