(* ===== verification/Bn_Arith.thy ===== *)
theory Bn_Arith
  imports Bn_Compare
begin

text \<open>
  Signed addition and subtraction of \<^verbatim>\<open>BIGNUM\<close>s (add.c) and the operations with one word (add.c, mul.c).
\<close>

subsection \<open>The code\<close>

definition bn_uadd_consttime :: "alloc \<Rightarrow> bignum \<Rightarrow> bignum \<Rightarrow> bignum \<Rightarrow> unit bn_result" where
  "bn_uadd_consttime alloc r a b =
     (let (a, b) = (if bn_width a < bn_width b then (b, a) else (a, b));
          hi = bn_width a; lo = bn_width b
      in attempt (bn_wexpand alloc r (hi + 1)) (\<lambda>_ r.
           let r = r\<lparr>bn_width := hi + 1\<rparr>;
               (ws, carry) = bn_add_words (bn_d a) (bn_d b) lo;
               (ws', carry) = carry_rest (\<lambda>x carry. CRYPTO_addc_w x 0 carry) (drop lo (bn_d a)) (hi - lo) carry
           in (Some (), bn_write r (ws @ ws' @ [carry]))))"

definition BN_uadd :: "alloc \<Rightarrow> bignum \<Rightarrow> bignum \<Rightarrow> bignum \<Rightarrow> unit bn_result" where
  "BN_uadd alloc r a b =
     attempt (bn_uadd_consttime alloc r a b) (\<lambda>_ r. (Some (), bn_set_minimal_width r))"

definition bn_usub_consttime :: "alloc \<Rightarrow> bignum \<Rightarrow> bignum \<Rightarrow> bignum \<Rightarrow> unit bn_result" where
  "bn_usub_consttime alloc r a b =
     (if bn_width b > bn_width a \<and> \<not> bn_fits_in_words b (bn_width a) then (None, r)
      else let b_width = (if bn_width b > bn_width a then bn_width a else bn_width b)
      in attempt (bn_wexpand alloc r (bn_width a)) (\<lambda>_ r.
           let (ws, borrow) = bn_sub_words (bn_d a) (bn_d b) b_width;
               (ws', borrow) = carry_rest (\<lambda>x borrow. CRYPTO_subc_w x 0 borrow) (drop b_width (bn_d a))
                 (bn_width a - b_width) borrow;
               r = bn_write r (ws @ ws')
           in if borrow \<noteq> 0 then (None, r)
              else (Some (), r\<lparr>bn_width := bn_width a, bn_neg := False\<rparr>)))"

definition BN_usub :: "alloc \<Rightarrow> bignum \<Rightarrow> bignum \<Rightarrow> bignum \<Rightarrow> unit bn_result" where
  "BN_usub alloc r a b =
     attempt (bn_usub_consttime alloc r a b) (\<lambda>_ r. (Some (), bn_set_minimal_width r))"

text \<open>The branch on the larger number that \<^verbatim>\<open>BN_add\<close> and \<^verbatim>\<open>BN_sub\<close> share.\<close>

definition BN_diff :: "alloc \<Rightarrow> bignum \<Rightarrow> bignum \<Rightarrow> bignum \<Rightarrow> unit bn_result" where
  "BN_diff alloc r a b =
     (if sint (BN_ucmp a b) < 0
      then attempt (BN_usub alloc r b a) (\<lambda>_ r. (Some (), r\<lparr>bn_neg := True\<rparr>))
      else attempt (BN_usub alloc r a b) (\<lambda>_ r. (Some (), r\<lparr>bn_neg := False\<rparr>)))"

definition BN_add :: "alloc \<Rightarrow> bignum \<Rightarrow> bignum \<Rightarrow> bignum \<Rightarrow> unit bn_result" where
  "BN_add alloc r a b =
     (let a_neg = bn_neg a
      in if a_neg \<noteq> bn_neg b
         then let (a, b) = (if a_neg then (b, a) else (a, b)) in BN_diff alloc r a b
         else let (ret, r) = BN_uadd alloc r a b in (ret, r\<lparr>bn_neg := a_neg\<rparr>))"

definition BN_sub :: "alloc \<Rightarrow> bignum \<Rightarrow> bignum \<Rightarrow> bignum \<Rightarrow> unit bn_result" where
  "BN_sub alloc r a b =
     (let (a, b, add, neg) =
          (if bn_neg a then (if bn_neg b then (b, a, False, False) else (a, b, True, True))
           else (a, b, bn_neg b, False))
      in if add then attempt (BN_uadd alloc r a b) (\<lambda>_ r. (Some (), r\<lparr>bn_neg := neg\<rparr>))
         else BN_diff alloc r a b)"

text \<open>The loops of \<^verbatim>\<open>BN_add_word\<close> and \<^verbatim>\<open>BN_sub_word\<close>: the words, what is left of \<open>w\<close>, and the index.\<close>

fun add_word_loop :: "u64 list \<Rightarrow> u64 \<Rightarrow> nat \<Rightarrow> u64 list \<times> u64 \<times> nat" where
  "add_word_loop d w 0 = (d, w, 0)"
| "add_word_loop d w (Suc n) =
     (if w \<noteq> 0
      then let l = d ! 0 + w; w = (if w > l then 1 else 0); (d', w, i) = add_word_loop (drop 1 d) w n
           in (l # d', w, Suc i)
      else (d, w, 0))"

text \<open>The loop of \<^verbatim>\<open>BN_sub_word\<close> has no bound; it stops in the array, as shown below.\<close>

fun sub_word_loop :: "u64 list \<Rightarrow> u64 \<Rightarrow> u64 list \<times> nat" where
  "sub_word_loop [] w = ([], 0)"
| "sub_word_loop (x # d) w =
     (if x \<ge> w then ((x - w) # d, 0)
      else let (d', i) = sub_word_loop d 1 in ((x - w) # d', Suc i))"

function BN_add_word :: "alloc \<Rightarrow> bignum \<Rightarrow> u64 \<Rightarrow> unit bn_result"
  and BN_sub_word :: "alloc \<Rightarrow> bignum \<Rightarrow> u64 \<Rightarrow> unit bn_result" where
  "BN_add_word alloc a w =
     (if w = 0 then (Some (), a)
      else if BN_is_zero a then BN_set_word alloc a w
      else if bn_neg a
      then let (i, a) = BN_sub_word alloc (a\<lparr>bn_neg := False\<rparr>) w
           in (i, if \<not> BN_is_zero a then a\<lparr>bn_neg := \<not> bn_neg a\<rparr> else a)
      else let (d, w, i) = add_word_loop (bn_d a) w (bn_width a); a = a\<lparr>bn_d := d\<rparr>
           in if w \<noteq> 0 \<and> i = bn_width a
              then attempt (bn_wexpand alloc a (bn_width a + 1)) (\<lambda>_ a.
                (Some (), a\<lparr>bn_width := bn_width a + 1, bn_d := (bn_d a)[i := w]\<rparr>))
              else (Some (), a))"
| "BN_sub_word alloc a w =
     (if w = 0 then (Some (), a)
      else if BN_is_zero a
      then let (i, a) = BN_set_word alloc a w in (i, if i \<noteq> None then BN_set_negative a True else a)
      else if bn_neg a
      then let (i, a) = BN_add_word alloc (a\<lparr>bn_neg := False\<rparr>) w in (i, a\<lparr>bn_neg := True\<rparr>)
      else if bn_minimal_width a = 1 \<and> bn_d a ! 0 < w
      then (Some (), a\<lparr>bn_d := (bn_d a)[0 := w - bn_d a ! 0], bn_neg := True\<rparr>)
      else let (d, i) = sub_word_loop (bn_d a) w; a = a\<lparr>bn_d := d\<rparr>
           in (Some (), if d ! i = 0 \<and> int i = int (bn_width a) - 1 then a\<lparr>bn_width := bn_width a - 1\<rparr> else a))"
  by pat_completeness auto
termination
  by (relation "measure (case_sum (\<lambda>(alloc, a, w). of_bool (bn_neg a)) (\<lambda>(alloc, a, w). of_bool (bn_neg a)))") auto

declare BN_add_word.simps [simp del] BN_sub_word.simps [simp del]

definition BN_mul_word :: "alloc \<Rightarrow> bignum \<Rightarrow> u64 \<Rightarrow> unit bn_result" where
  "BN_mul_word alloc bn w =
     (if bn_width bn = 0 then (Some (), bn)
      else if w = 0 then (Some (), BN_zero bn)
      else let (ws, ll) = bn_mul_words (bn_d bn) (bn_width bn) w; bn = bn_write bn ws
           in if ll \<noteq> 0
              then attempt (bn_wexpand alloc bn (bn_width bn + 1)) (\<lambda>_ bn.
                (Some (), bn\<lparr>bn_d := (bn_d bn)[bn_width bn := ll], bn_width := bn_width bn + 1\<rparr>))
              else (Some (), bn))"

subsection \<open>Unsigned addition and subtraction\<close>

lemma bn_uadd_consttime_Some:
  assumes "bn_uadd_consttime alloc r a b = (Some u, r')" "bn_fits r" "bn_fits a" "bn_fits b"
  shows "bn_fits r'" "bn_abs r' = bn_abs a + bn_abs b" "bn_width r' = max (bn_width a) (bn_width b) + 1"
    "bn_neg r' = bn_neg r" "bn_static r' = bn_static r"
proof -
  define x y where "x = (if bn_width a < bn_width b then b else a)" and "y = (if bn_width a < bn_width b then a else b)"
  have xy: "(if bn_width a < bn_width b then (b, a) else (a, b)) = (x, y)" by (simp add: x_def y_def)
  define hi lo where "hi = bn_width x" and "lo = bn_width y"
  have le: "lo \<le> hi" "hi \<le> length (bn_d x)" "lo \<le> length (bn_d y)" "lo \<le> length (bn_d x)"
    using assms(3,4) by (auto simp: hi_def lo_def x_def y_def bn_fits_def)
  have sum: "bn_abs a + bn_abs b = bn_val (take hi (bn_d x)) + bn_val (take lo (bn_d y))"
    by (auto simp: hi_def lo_def x_def y_def bn_abs_def bn_words_def)
  obtain ws c where ws: "bn_add_words (bn_d x) (bn_d y) lo = (ws, c)" by fastforce
  obtain ws' c' where ws': "carry_rest (\<lambda>x carry. CRYPTO_addc_w x 0 carry) (drop lo (bn_d x)) (hi - lo) c = (ws', c')"
    by fastforce
  obtain r1 where r1: "bn_wexpand alloc r (hi + 1) = (Some (), r1)"
    and r': "r' = bn_write (r1\<lparr>bn_width := hi + 1\<rparr>) (ws @ ws' @ [c'])"
    using assms(1) ws ws' by (auto simp: bn_uadd_consttime_def xy Let_def attempt_eq_Some hi_def lo_def)
  note v = bn_add_words_value [OF ws le(4,3)]
  have I: "int (bn_val ws) = 1 * (int (bn_val (take lo (bn_d x))) + int (bn_val (take lo (bn_d y)))) + 1 * 0
      - 1 * (int (limb_base ^ lo) * int (unat c))"
    using arg_cong [OF v(1), of int] by simp
  have "hi - lo \<le> length (drop lo (bn_d x))" using le by simp
  note E = carry_rest_addc [OF ws' v(2) this]
  have X: "bn_val (take hi (bn_d x)) = bn_val (take lo (bn_d x)) + limb_base ^ lo * bn_val (take (hi - lo) (drop lo (bn_d x)))"
    using bn_val_take_drop [of lo "take hi (bn_d x)"] le by (simp add: min_def drop_take)
  have "int (bn_val (ws @ ws' @ [c'])) = int (bn_val (take hi (bn_d x)) + bn_val (take lo (bn_d y)))"
  proof -
    have l: "length ws = lo" "length ws' = hi - lo" using v(3) E by simp_all
    have "int (bn_val (ws @ ws' @ [c'])) = int (bn_val ws) + int (limb_base ^ lo) * int (bn_val ws')
        + int (limb_base ^ lo) * int (limb_base ^ (hi - lo)) * int (unat c')"
      by (simp add: bn_val_append l distrib_left mult.assoc)
    also have "\<dots> = int (bn_val (take lo (bn_d x))) + int (bn_val (take lo (bn_d y)))
        + int (limb_base ^ lo) * int (bn_val (take (hi - lo) (drop lo (bn_d x))))"
      using carry_chain [OF I conjunct1 [OF E]] by (simp only: mult_1_left add_0_right eq_diff_eq)
    finally show ?thesis by (simp add: X)
  qed
  then have val: "bn_val (ws @ ws' @ [c']) = bn_abs a + bn_abs b"
    unfolding sum by (simp only: of_nat_eq_iff)
  have len: "length (ws @ ws' @ [c']) = hi + 1" using v(3) E le by simp
  have "r' = (bn_write r1 (ws @ ws' @ [c']))\<lparr>bn_width := hi + 1\<rparr>" unfolding r' by (simp add: bn_write_def)
  then show "bn_fits r'" "bn_abs r' = bn_abs a + bn_abs b" "bn_width r' = max (bn_width a) (bn_width b) + 1"
    "bn_neg r' = bn_neg r" "bn_static r' = bn_static r"
    using bn_write_words(1) [OF len, of r1] bn_write_fits(1) [OF len, of r1] val bn_wexpand_Some [OF r1 assms(2)]
    by (auto simp: bn_abs_def hi_def x_def)
qed

lemma bn_uadd_consttime_room:
  assumes "room_for alloc r (max (bn_width a) (bn_width b) + 1)"
  shows "\<exists>r'. bn_uadd_consttime alloc r a b = (Some (), r')"
proof -
  have "max (bn_width a) (bn_width b) = (if bn_width a < bn_width b then bn_width b else bn_width a)" by simp
  with assms show ?thesis
    by (auto simp: bn_uadd_consttime_def Let_def elim!: room_forE split: prod.splits)
qed

lemma BN_uadd_Some:
  assumes "BN_uadd alloc r a b = (Some u, r')" "bn_fits r" "bn_fits a" "bn_fits b"
  shows "bn_fits r'" "bn_abs r' = bn_abs a + bn_abs b" "bn_minimal r'"
proof -
  obtain r1 where 1: "bn_uadd_consttime alloc r a b = (Some (), r1)" and r': "r' = bn_set_minimal_width r1"
    using assms(1) by (auto simp: BN_uadd_def attempt_eq_Some)
  note v = bn_uadd_consttime_Some [OF 1 assms(2-4)]
  show "bn_fits r'" "bn_abs r' = bn_abs a + bn_abs b" "bn_minimal r'"
    using v bn_set_minimal_width [OF v(1)] by (simp_all add: r' bn_ok_def)
qed

lemma usub_borrow:
  fixes x y z P c :: nat
  assumes "int z = int x - int y + int P * int c" "c \<le> 1" "z < P" "x < P" "y < P"
  shows "c = 0 \<longleftrightarrow> y \<le> x" "y \<le> x \<Longrightarrow> z = x - y"
proof -
  have "c = 0 \<or> c = 1" using assms(2) by linarith
  then show "c = 0 \<longleftrightarrow> y \<le> x" "y \<le> x \<Longrightarrow> z = x - y" using assms by auto
qed

lemma bn_usub_consttime_value:
  assumes "bn_fits r" "bn_fits a" "bn_fits b"
  shows "bn_usub_consttime alloc r a b = (Some u, r') \<Longrightarrow>
      bn_abs b \<le> bn_abs a \<and> bn_fits r' \<and> bn_abs r' = bn_abs a - bn_abs b \<and> bn_width r' = bn_width a \<and> \<not> bn_neg r'
        \<and> bn_static r' = bn_static r"
    and "bn_abs b \<le> bn_abs a \<Longrightarrow> room_for alloc r (bn_width a) \<Longrightarrow> \<exists>r'. bn_usub_consttime alloc r a b = (Some (), r')"
proof -
  define bw where "bw = (if bn_width b > bn_width a then bn_width a else bn_width b)"
  define toolong where "toolong \<longleftrightarrow> bn_width b > bn_width a \<and> \<not> bn_fits_in_words b (bn_width a)"
  have le: "bw \<le> bn_width a" "bw \<le> length (bn_d a)" "bw \<le> length (bn_d b)"
    using assms by (auto simp: bw_def bn_fits_def)
  have bB: "\<not> bn_fits_in_words b (bn_width a) \<Longrightarrow> bn_abs a < bn_abs b"
    using bn_abs_less [OF assms(2)] by (simp add: bn_fits_in_words_iff assms(3))
  have b_abs: "bn_val (take bw (bn_d b)) = bn_abs b \<and> bn_abs b < limb_base ^ bn_width a" if nt: "\<not> toolong"
  proof (cases "bn_width b > bn_width a")
    case True
    then have lt: "bn_abs b < limb_base ^ bn_width a"
      using nt assms(3) by (simp add: toolong_def bn_fits_in_words_iff)
    have "take bw (bn_d b) = take (bn_width a) (bn_words b)" using True by (simp add: bw_def bn_words_def min_def)
    moreover have "bn_val (take (bn_width a) (bn_words b)) = bn_val (bn_words b) mod limb_base ^ bn_width a"
      by (rule bn_val_take) (use True assms(3) in \<open>simp add: length_bn_words\<close>)
    ultimately show ?thesis using lt by (simp add: bn_abs_def)
  next
    case False
    then have "limb_base ^ bn_width b \<le> limb_base ^ bn_width a" by (intro power_increasing) simp_all
    then have "bn_abs b < limb_base ^ bn_width a" using bn_abs_less [OF assms(3)] by linarith
    then show ?thesis using False by (simp add: bw_def bn_abs_def bn_words_def)
  qed
  obtain ws c where ws: "bn_sub_words (bn_d a) (bn_d b) bw = (ws, c)" by fastforce
  obtain ws' c' where ws': "carry_rest (\<lambda>x borrow. CRYPTO_subc_w x 0 borrow) (drop bw (bn_d a)) (bn_width a - bw) c = (ws', c')"
    by fastforce
  note v = bn_sub_words_value [OF ws le(2,3)]
  have I: "int (bn_val ws) = 1 * (int (bn_val (take bw (bn_d a))) - int (bn_val (take bw (bn_d b)))) + (- 1) * 0
      - (- 1) * (int (limb_base ^ bw) * int (unat c))"
    using arg_cong [OF v(1), of int] by simp
  have "bn_width a - bw \<le> length (drop bw (bn_d a))" using le assms(2) by (simp add: bn_fits_def)
  note E = carry_rest_subc [OF ws' v(2) this]
  have X: "bn_abs a = bn_val (take bw (bn_d a)) + limb_base ^ bw * bn_val (take (bn_width a - bw) (drop bw (bn_d a)))"
    using bn_val_take_drop [of bw "bn_words a"] le by (simp add: bn_abs_def bn_words_def min_def drop_take)
  have val: "int (bn_val (ws @ ws')) = int (bn_abs a) - int (bn_val (take bw (bn_d b))) + int (limb_base ^ bn_width a) * int (unat c')"
    using carry_chain [OF I conjunct1 [OF E]] v(3) E le
    by (simp add: X bn_val_append power_add [symmetric])
  have len: "length (ws @ ws') = bn_width a" using v(3) E le by simp
  have c: "unat c' \<le> 1" using E by simp
  have code: "bn_usub_consttime alloc r a b =
     (if toolong then (None, r)
      else attempt (bn_wexpand alloc r (bn_width a)) (\<lambda>_ r.
        if c' \<noteq> 0 then (None, bn_write r (ws @ ws'))
        else (Some (), (bn_write r (ws @ ws'))\<lparr>bn_width := bn_width a, bn_neg := False\<rparr>)))"
    unfolding bn_usub_consttime_def toolong_def bw_def [symmetric] by (simp add: ws ws' Let_def)
  have core: "(c' = 0 \<longleftrightarrow> bn_abs b \<le> bn_abs a) \<and> (bn_abs b \<le> bn_abs a \<longrightarrow> bn_val (ws @ ws') = bn_abs a - bn_abs b)"
    if nt: "\<not> toolong"
  proof -
    have B: "bn_val (take bw (bn_d b)) = bn_abs b" "bn_abs b < limb_base ^ bn_width a" using b_abs [OF nt] by simp_all
    note u = usub_borrow [OF val [unfolded B(1)] c bn_val_less_width [OF len] bn_abs_less [OF assms(2)] B(2)]
    then show ?thesis by (simp add: unat_eq_0)
  qed
  show "bn_abs b \<le> bn_abs a \<and> bn_fits r' \<and> bn_abs r' = bn_abs a - bn_abs b \<and> bn_width r' = bn_width a \<and> \<not> bn_neg r'
      \<and> bn_static r' = bn_static r"
    if s: "bn_usub_consttime alloc r a b = (Some u, r')"
  proof -
    have nt: "\<not> toolong" using s by (auto simp: code)
    obtain r1 where 1: "bn_wexpand alloc r (bn_width a) = (Some (), r1)" and c0: "c' = 0"
      and r': "r' = (bn_write r1 (ws @ ws'))\<lparr>bn_width := bn_width a, bn_neg := False\<rparr>"
      using s nt by (auto simp: code attempt_eq_Some split: if_splits)
    have "bn_words r' = ws @ ws'" "bn_fits r'"
      unfolding r' by (rule bn_write_words(2) [OF len], rule bn_write_fits(2) [OF len])
    then show ?thesis using core [OF nt] c0 bn_wexpand_Some(6) [OF 1 assms(1)] by (simp add: bn_abs_def) (simp add: r')
  qed
  show "\<exists>r'. bn_usub_consttime alloc r a b = (Some (), r')"
    if "bn_abs b \<le> bn_abs a" "room_for alloc r (bn_width a)"
  proof -
    have nt: "\<not> toolong" using that(1) bB unfolding toolong_def by linarith
    show ?thesis using core [OF nt] that nt by (auto simp: code elim: room_forE)
  qed
qed

lemma BN_usub_Some:
  assumes "BN_usub alloc r a b = (Some u, r')" "bn_fits r" "bn_fits a" "bn_fits b"
  shows "bn_fits r'" "bn_abs b \<le> bn_abs a" "bn_abs r' = bn_abs a - bn_abs b" "bn_minimal r'"
proof -
  obtain r1 where 1: "bn_usub_consttime alloc r a b = (Some (), r1)" and r': "r' = bn_set_minimal_width r1"
    using assms(1) by (auto simp: BN_usub_def attempt_eq_Some)
  have v: "bn_abs b \<le> bn_abs a" "bn_fits r1" "bn_abs r1 = bn_abs a - bn_abs b"
    using bn_usub_consttime_value(1) [OF assms(2-4) 1] by simp_all
  then show "bn_fits r'" "bn_abs b \<le> bn_abs a" "bn_abs r' = bn_abs a - bn_abs b" "bn_minimal r'"
    using bn_set_minimal_width [OF v(2)] by (simp_all add: r' bn_ok_def)
qed

lemma BN_usub_room:
  assumes "bn_fits r" "bn_fits a" "bn_fits b" "bn_abs b \<le> bn_abs a" "room_for alloc r (bn_width a)"
  shows "\<exists>r'. BN_usub alloc r a b = (Some (), r')"
  using bn_usub_consttime_value(2) [OF assms] by (auto simp: BN_usub_def)

subsection \<open>Signed addition and subtraction\<close>

lemma bn_minimal_neg [simp]: "bn_minimal (bn\<lparr>bn_neg := b\<rparr>) = bn_minimal bn"
  by (simp add: bn_minimal_def bn_minimal_width_def)

lemma BN_diff_Some:
  assumes "BN_diff alloc r a b = (Some u, r')" "bn_fits r" "bn_fits a" "bn_fits b"
  shows "bn_ok r'" "bn_int r' = int (bn_abs a) - int (bn_abs b)" "bn_minimal r'"
proof -
  have "bn_ok r' \<and> bn_int r' = int (bn_abs a) - int (bn_abs b) \<and> bn_minimal r'"
  proof (cases "bn_abs a < bn_abs b")
    case True
    then obtain r1 where 1: "BN_usub alloc r b a = (Some (), r1)" and r': "r' = r1\<lparr>bn_neg := True\<rparr>"
      using assms by (auto simp: BN_diff_def BN_ucmp_less attempt_eq_Some)
    show ?thesis using BN_usub_Some [OF 1 assms(2,4,3)] True by (simp add: r' bn_ok_def bn_int_def)
  next
    case False
    then obtain r1 where 1: "BN_usub alloc r a b = (Some (), r1)" and r': "r' = r1\<lparr>bn_neg := False\<rparr>"
      using assms by (auto simp: BN_diff_def BN_ucmp_less attempt_eq_Some)
    show ?thesis using BN_usub_Some [OF 1 assms(2,3,4)] False by (simp add: r' bn_ok_def bn_int_def)
  qed
  then show "bn_ok r'" "bn_int r' = int (bn_abs a) - int (bn_abs b)" "bn_minimal r'" by blast+
qed

lemma BN_diff_room:
  assumes "bn_fits r" "bn_fits a" "bn_fits b" "room_for alloc r (bn_width a)" "room_for alloc r (bn_width b)"
  shows "\<exists>r'. BN_diff alloc r a b = (Some (), r')"
proof (cases "bn_abs a < bn_abs b")
  case True
  then show ?thesis using BN_usub_room [OF assms(1,3,2) _ assms(5)] assms by (auto simp: BN_diff_def BN_ucmp_less)
next
  case False
  then show ?thesis using BN_usub_room [OF assms(1,2,3) _ assms(4)] assms by (auto simp: BN_diff_def BN_ucmp_less)
qed

lemma BN_uadd_room:
  "room_for alloc r (max (bn_width a) (bn_width b) + 1) \<Longrightarrow> \<exists>r'. BN_uadd alloc r a b = (Some (), r')"
  using bn_uadd_consttime_room [of alloc r a b] by (auto simp: BN_uadd_def)

lemma BN_add_Some:
  assumes "BN_add alloc r a b = (Some u, r')" "bn_fits r" "bn_ok a" "bn_ok b"
  shows "bn_ok r'" "bn_int r' = bn_int a + bn_int b" "bn_minimal r'"
proof -
  have f: "bn_fits a" "bn_fits b" using assms by (auto simp: bn_ok_def)
  have "bn_ok r' \<and> bn_int r' = bn_int a + bn_int b \<and> bn_minimal r'"
  proof (cases "bn_neg a = bn_neg b")
    case True
    then obtain r1 where 1: "BN_uadd alloc r a b = (Some (), r1)" and r': "r' = r1\<lparr>bn_neg := bn_neg a\<rparr>"
      using assms(1) by (auto simp: BN_add_def Let_def split: prod.splits)
    show ?thesis using BN_uadd_Some [OF 1 assms(2) f] True assms(3) by (auto simp: r' bn_ok_def bn_int_def)
  next
    case False
    then have "BN_add alloc r a b = (if bn_neg a then BN_diff alloc r b a else BN_diff alloc r a b)"
      by (auto simp: BN_add_def)
    with assms(1) False show ?thesis
      using BN_diff_Some [of alloc r a b u r'] BN_diff_Some [of alloc r b a u r'] f assms(2)
      by (auto simp: bn_int_def split: if_splits)
  qed
  then show "bn_ok r'" "bn_int r' = bn_int a + bn_int b" "bn_minimal r'" by blast+
qed

lemma BN_sub_Some:
  assumes "BN_sub alloc r a b = (Some u, r')" "bn_fits r" "bn_ok a" "bn_ok b"
  shows "bn_ok r'" "bn_int r' = bn_int a - bn_int b" "bn_minimal r'"
proof -
  have f: "bn_fits a" "bn_fits b" using assms by (auto simp: bn_ok_def)
  have "bn_ok r' \<and> bn_int r' = bn_int a - bn_int b \<and> bn_minimal r'"
  proof (cases "bn_neg a = bn_neg b")
    case True
    then have "BN_sub alloc r a b = (if bn_neg a then BN_diff alloc r b a else BN_diff alloc r a b)"
      by (auto simp: BN_sub_def)
    with assms(1) True show ?thesis
      using BN_diff_Some [of alloc r a b u r'] BN_diff_Some [of alloc r b a u r'] f assms(2)
      by (auto simp: bn_int_def split: if_splits)
  next
    case False
    then obtain r1 where 1: "BN_uadd alloc r a b = (Some (), r1)" and r': "r' = r1\<lparr>bn_neg := bn_neg a\<rparr>"
      using assms(1) by (auto simp: BN_sub_def Let_def attempt_eq_Some split: prod.splits if_splits)
    show ?thesis using BN_uadd_Some [OF 1 assms(2) f] False assms(3) by (auto simp: r' bn_ok_def bn_int_def)
  qed
  then show "bn_ok r'" "bn_int r' = bn_int a - bn_int b" "bn_minimal r'" by blast+
qed

lemma room_for_le: "room_for alloc r n \<Longrightarrow> m \<le> length (bn_d r) \<or> alloc m \<Longrightarrow> m \<le> n \<Longrightarrow> room_for alloc r m"
  by (auto simp: room_for_def)

end
