(* ===== verification/Bn_Mult.thy ===== *)
theory Bn_Mult
  imports Bn_Karatsuba Bn_Ctx Bn_Arith
begin

text \<open>
  Products and squares of numbers (the end of mul.c).  The result \<open>r\<close> is a number of its own or an input,
  which is the argument \<open>same\<close>; then the product is made in a number of the pool and copied.  The pool also
  gives the scratch array of Karatsuba's recursion, of which only the room is modelled, since every word of
  it is written before it is read.
\<close>

subsection \<open>The code\<close>

text \<open>\<^verbatim>\<open>bn_mul_impl\<close> once it is known where the product goes.\<close>

definition bn_mul_into :: "alloc \<Rightarrow> ctx_mem \<Rightarrow> bignum \<Rightarrow> bignum \<Rightarrow> bignum \<Rightarrow> bn_ctx \<Rightarrow> unit bn_result \<times> bn_ctx" where
  "bn_mul_into alloc mem rr a b ctx =
     (let al = bn_width a; bl = bn_width b; rr = rr\<lparr>bn_neg := (bn_neg a \<noteq> bn_neg b)\<rparr>; i = int al - int bl; tw = al + bl
      in if i = 0 \<and> al = 8
         then (attempt (bn_wexpand alloc rr 16) (\<lambda>_ rr.
                 (Some (), (bn_write rr (bn_mul_comba8 (bn_words a) (bn_words b)))\<lparr>bn_width := 16\<rparr>)), ctx)
         else if al \<ge> 16 \<and> bl \<ge> 16 \<and> - 1 \<le> i \<and> i \<le> 1
         then let j = BN_num_bits_word (of_nat (if i \<ge> 0 then al else bl)); j = push_bit (j - 1) 1;
                  (t, ctx) = BN_CTX_get mem ctx
              in (case t of None \<Rightarrow> ((None, rr), ctx)
                  | Some t \<Rightarrow>
                    if al > j \<or> bl > j
                    then (case bn_wexpand alloc (ctx_number ctx t) (j * 8) of
                        (None, _) \<Rightarrow> ((None, rr), ctx)
                      | (Some _, tn) \<Rightarrow>
                        (attempt (bn_wexpand alloc rr (j * 4)) (\<lambda>_ rr.
                           (Some (), (bn_write rr (bn_mul_part_recursive (take (j * 4) (bn_d rr)) (bn_words a) (bn_words b)
                             j (al - j) (bl - j)))\<lparr>bn_width := tw\<rparr>)), ctx_update ctx t tn))
                    else (case bn_wexpand alloc (ctx_number ctx t) (j * 4) of
                        (None, _) \<Rightarrow> ((None, rr), ctx)
                      | (Some _, tn) \<Rightarrow>
                        (attempt (bn_wexpand alloc rr (j * 2)) (\<lambda>_ rr.
                           (Some (), (bn_write rr (bn_mul_recursive (bn_words a) (bn_words b)
                             j (int al - int j) (int bl - int j)))\<lparr>bn_width := tw\<rparr>)), ctx_update ctx t tn)))
         else (attempt (bn_wexpand alloc rr tw) (\<lambda>_ rr.
                 (Some (), (bn_write rr (bn_mul_normal (bn_words a) al (bn_words b) bl))\<lparr>bn_width := tw\<rparr>)), ctx))"

text \<open>A result that is an input is made in a number of the pool first.\<close>

definition via_scratch ::
  "alloc \<Rightarrow> ctx_mem \<Rightarrow> bool \<Rightarrow> bignum \<Rightarrow> (bignum \<Rightarrow> bn_ctx \<Rightarrow> unit bn_result \<times> bn_ctx) \<Rightarrow> bn_ctx \<Rightarrow> unit bn_result \<times> bn_ctx" where
  "via_scratch alloc mem same r f ctx =
     (if \<not> same then f r ctx
      else let (rr, ctx) = BN_CTX_get mem ctx
           in case rr of None \<Rightarrow> ((None, r), ctx)
              | Some k \<Rightarrow>
                (let ((res, n), ctx) = f (ctx_number ctx k) ctx; ctx = ctx_update ctx k n
                 in case res of None \<Rightarrow> ((None, r), ctx) | Some _ \<Rightarrow> (BN_copy alloc r n, ctx)))"

definition bn_mul_impl ::
  "alloc \<Rightarrow> ctx_mem \<Rightarrow> bool \<Rightarrow> bignum \<Rightarrow> bignum \<Rightarrow> bignum \<Rightarrow> bn_ctx \<Rightarrow> unit bn_result \<times> bn_ctx" where
  "bn_mul_impl alloc mem same r a b ctx =
     (if bn_width a = 0 \<or> bn_width b = 0 then ((Some (), BN_zero r), ctx)
      else in_frame mem ctx (via_scratch alloc mem same r (\<lambda>rr. bn_mul_into alloc mem rr a b)))"

definition BN_mul ::
  "alloc \<Rightarrow> ctx_mem \<Rightarrow> bool \<Rightarrow> bignum \<Rightarrow> bignum \<Rightarrow> bignum \<Rightarrow> bn_ctx \<Rightarrow> unit bn_result \<times> bn_ctx" where
  "BN_mul alloc mem same r a b ctx =
     (let (res, ctx) = bn_mul_impl alloc mem same r a b ctx
      in (attempt res (\<lambda>_ r. (Some (), bn_set_minimal_width r)), ctx))"

definition bn_mul_consttime ::
  "alloc \<Rightarrow> ctx_mem \<Rightarrow> bool \<Rightarrow> bignum \<Rightarrow> bignum \<Rightarrow> bignum \<Rightarrow> bn_ctx \<Rightarrow> unit bn_result \<times> bn_ctx" where
  "bn_mul_consttime alloc mem same r a b ctx =
     (if bn_neg a \<or> bn_neg b then ((None, r), ctx) else bn_mul_impl alloc mem same r a b ctx)"

text \<open>\<^verbatim>\<open>abort\<close> is \<open>None\<close>.\<close>

definition bn_mul_small :: "nat \<Rightarrow> u64 list \<Rightarrow> nat \<Rightarrow> u64 list \<Rightarrow> nat \<Rightarrow> u64 list option" where
  "bn_mul_small num_r a num_a b num_b =
     (if num_r \<noteq> num_a + num_b then None
      else if num_a = 8 \<and> num_b = 8 then Some (bn_mul_comba8 a b)
      else Some (bn_mul_normal a num_a b num_b))"

definition BN_SMALL_MAX_WORDS :: nat where
  "BN_SMALL_MAX_WORDS = 9"

definition bn_sqr_small :: "nat \<Rightarrow> u64 list \<Rightarrow> nat \<Rightarrow> u64 list option" where
  "bn_sqr_small num_r a num_a =
     (if num_r \<noteq> 2 * num_a \<or> num_a > BN_SMALL_MAX_WORDS then None
      else if num_a = 4 then Some (bn_sqr_comba4 a)
      else if num_a = 8 then Some (bn_sqr_comba8 a)
      else Some (bn_sqr_normal a num_a))"

definition bn_sqr_into :: "alloc \<Rightarrow> ctx_mem \<Rightarrow> bignum \<Rightarrow> bignum \<Rightarrow> bn_ctx \<Rightarrow> unit bn_result \<times> bn_ctx" where
  "bn_sqr_into alloc mem rr a ctx =
     (let al = bn_width a; (tmp, ctx) = BN_CTX_get mem ctx
      in case tmp of None \<Rightarrow> ((None, rr), ctx)
         | Some t \<Rightarrow>
           (case bn_wexpand alloc rr (2 * al) of
              (None, rr) \<Rightarrow> ((None, rr), ctx)
            | (Some _, rr) \<Rightarrow>
              let (ws, ctx) =
                (if al = 4 then (Some (bn_sqr_comba4 (bn_words a)), ctx)
                 else if al = 8 then (Some (bn_sqr_comba8 (bn_words a)), ctx)
                 else if al < 16 then (Some (bn_sqr_normal (bn_words a) al), ctx)
                 else if al \<noteq> 0 \<and> (of_nat al :: u32) AND (of_nat al - 1) = 0
                 then (case bn_wexpand alloc (ctx_number ctx t) (al * 4) of
                     (None, _) \<Rightarrow> (None, ctx)
                   | (Some _, tn) \<Rightarrow> (Some (bn_sqr_recursive (bn_words a) al), ctx_update ctx t tn))
                 else (case bn_wexpand alloc (ctx_number ctx t) (2 * al) of
                     (None, _) \<Rightarrow> (None, ctx)
                   | (Some _, tn) \<Rightarrow> (Some (bn_sqr_normal (bn_words a) al), ctx_update ctx t tn)))
              in case ws of None \<Rightarrow> ((None, rr), ctx)
                 | Some ws \<Rightarrow> ((Some (), (bn_write rr ws)\<lparr>bn_neg := False, bn_width := 2 * al\<rparr>), ctx)))"

definition bn_sqr_consttime :: "alloc \<Rightarrow> ctx_mem \<Rightarrow> bool \<Rightarrow> bignum \<Rightarrow> bignum \<Rightarrow> bn_ctx \<Rightarrow> unit bn_result \<times> bn_ctx" where
  "bn_sqr_consttime alloc mem same r a ctx =
     (if bn_width a \<le> 0 then ((Some (), r\<lparr>bn_width := 0, bn_neg := False\<rparr>), ctx)
      else in_frame mem ctx (via_scratch alloc mem same r (\<lambda>rr. bn_sqr_into alloc mem rr a)))"

definition BN_sqr :: "alloc \<Rightarrow> ctx_mem \<Rightarrow> bool \<Rightarrow> bignum \<Rightarrow> bignum \<Rightarrow> bn_ctx \<Rightarrow> unit bn_result \<times> bn_ctx" where
  "BN_sqr alloc mem same r a ctx =
     (let (res, ctx) = bn_sqr_consttime alloc mem same r a ctx
      in (attempt res (\<lambda>_ r. (Some (), bn_set_minimal_width r)), ctx))"

subsection \<open>What a product routine does to its result\<close>

text \<open>
  A routine that writes the value \<open>v\<close> with the sign \<open>s\<close>, and uses the pool: on failure the result is a number
  still, and on success it has \<open>w\<close> words.
\<close>

definition makes :: "nat \<Rightarrow> nat \<Rightarrow> bool \<Rightarrow> (bignum \<Rightarrow> bn_ctx \<Rightarrow> unit bn_result \<times> bn_ctx) \<Rightarrow> bool" where
  "makes v w s f \<longleftrightarrow>
     (\<forall>rr ctx res rr' ctx'. bn_fits rr \<longrightarrow> ctx_ok ctx \<longrightarrow> f rr ctx = ((res, rr'), ctx') \<longrightarrow>
        bn_fits rr' \<and> bn_static rr' = bn_static rr \<and> ctx_extends ctx ctx'
      \<and> (res = Some () \<longrightarrow> bn_abs rr' = v \<and> bn_width rr' = w \<and> bn_neg rr' = s))"

lemma makesD:
  assumes "makes v w s f" "f rr ctx = ((res, rr'), ctx')" "bn_fits rr" "ctx_ok ctx"
  shows "bn_fits rr'" "bn_static rr' = bn_static rr" "ctx_extends ctx ctx'"
    "res = Some u \<Longrightarrow> bn_abs rr' = v" "res = Some u \<Longrightarrow> bn_width rr' = w" "res = Some u \<Longrightarrow> bn_neg rr' = s"
  using assms(1) [unfolded makes_def, rule_format, OF assms(3,4,2)] by simp_all

lemma via_scratch_makes:
  assumes "makes v w s f"
  shows "makes v w s (\<lambda>r. via_scratch alloc mem same r f)"
  unfolding makes_def
proof (intro allI impI)
  fix r ctx res r' ctx'
  assume r: "bn_fits r" and c: "ctx_ok ctx" and e: "via_scratch alloc mem same r f ctx = ((res, r'), ctx')"
  show "bn_fits r' \<and> bn_static r' = bn_static r \<and> ctx_extends ctx ctx'
    \<and> (res = Some () \<longrightarrow> bn_abs r' = v \<and> bn_width r' = w \<and> bn_neg r' = s)"
  proof (cases same)
    case False
    then show ?thesis using e makesD [OF assms _ r c] by (simp add: via_scratch_def)
  next
    case True
    obtain p c1 where g: "BN_CTX_get mem ctx = (p, c1)" by fastforce
    have x1: "ctx_extends ctx c1" by (rule BN_CTX_get_extends [OF g c])
    show ?thesis
    proof (cases p)
      case None
      then show ?thesis using e True r x1 by (auto simp: via_scratch_def g)
    next
      case (Some k)
      obtain res' n c2 where m: "f (ctx_number c1 k) c1 = ((res', n), c2)" by (metis surj_pair)
      note G = BN_CTX_get_Some [OF g [unfolded Some] c]
      note M = makesD [OF assms m G(4)]
      have c1: "ctx_ok c1" using x1 by (simp add: ctx_extends_def)
      have x2: "ctx_extends ctx (ctx_update c2 k n)"
        by (rule ctx_update_extends [OF ctx_extends_trans [OF x1 M(3) [OF c1]]]) (use G M(1,2) [OF c1] in simp_all)
      have e': "(res = None \<and> r' = r \<or> BN_copy alloc r n = (res, r')) \<and> ctx' = ctx_update c2 k n \<and> (res \<noteq> None \<longrightarrow> res' \<noteq> None)"
        using e True Some by (cases res') (auto simp: via_scratch_def g m Let_def)
      show ?thesis
      proof (cases "BN_copy alloc r n = (res, r') \<and> res \<noteq> None")
        case True
        then obtain u where u: "BN_copy alloc r n = (Some u, r')" "res = Some u" "res' \<noteq> None" using e' by auto
        note C = BN_copy_Some [OF u(1) r M(1) [OF c1]]
        show ?thesis using C M(4-6) [OF c1] u e' x2 by auto
      next
        case False
        have "bn_fits r' \<and> bn_static r' = bn_static r" if "BN_copy alloc r n = (None, r')"
          using that r by (auto simp: BN_copy_def attempt_def bn_wexpand_def split: if_splits)
        then show ?thesis using False e' r x2 by (cases res) auto
      qed
    qed
  qed
qed

lemma bn_store_value:
  assumes "tw \<le> length ws" "bn_val ws < limb_base ^ tw"
  shows "bn_fits ((bn_write rr ws)\<lparr>bn_width := tw\<rparr>)" "bn_abs ((bn_write rr ws)\<lparr>bn_width := tw\<rparr>) = bn_val ws"
  using assms by (simp_all add: bn_fits_def bn_abs_def bn_words_def bn_val_take)

lemma expand_and_store:
  assumes "attempt (bn_wexpand alloc (rr\<lparr>bn_neg := s\<rparr>) k) (\<lambda>_ rr. (Some (), (bn_write rr (ws rr))\<lparr>bn_width := tw\<rparr>)) = (res, rr')"
    and "bn_fits rr" "\<And>rr. tw \<le> length (ws rr)" "\<And>rr. bn_val (ws rr) = v" "v < limb_base ^ tw"
  shows "bn_fits rr' \<and> bn_static rr' = bn_static rr \<and> (res = Some () \<longrightarrow> bn_abs rr' = v \<and> bn_width rr' = tw \<and> bn_neg rr' = s)"
proof (cases "bn_wexpand alloc (rr\<lparr>bn_neg := s\<rparr>) k")
  case (Pair p r1)
  have f: "bn_fits (rr\<lparr>bn_neg := s\<rparr>)" using assms(2) by simp
  show ?thesis
  proof (cases p)
    case None
    then show ?thesis using assms(1,2) bn_wexpand_None [of alloc "rr\<lparr>bn_neg := s\<rparr>" k r1] Pair by auto
  next
    case (Some u)
    note W = bn_wexpand_Some [OF Pair [unfolded Some] f]
    have e: "rr' = (bn_write r1 (ws r1))\<lparr>bn_width := tw\<rparr>" using assms(1) Pair Some by auto
    show ?thesis using bn_store_value [of tw "ws r1" r1] assms(3,4) [of r1] assms(5) W by (simp add: e)
  qed
qed

text \<open>The largest power of two up to a width.\<close>

lemma word_width_power:
  assumes "n \<noteq> 0" "n < 2 ^ 31"
  shows "push_bit (BN_num_bits_word (of_nat n) - 1) 1 = (2 :: nat) ^ (bit_count n - 1)"
    "(2 :: nat) ^ (bit_count n - 1) \<le> n" "n < 2 * 2 ^ (bit_count n - 1)"
proof -
  have "unat (of_nat n :: u64) = n" using assms(2) by (simp add: unat_of_nat)
  then show "push_bit (BN_num_bits_word (of_nat n) - 1) 1 = (2 :: nat) ^ (bit_count n - 1)"
    by (simp add: BN_num_bits_word_value push_bit_eq_mult)
  have "bit_count n \<noteq> 0" using assms(1) by simp
  then have "bit_count n = Suc (bit_count n - 1)" by linarith
  with bit_count_bounds [OF assms(1)] show "(2 :: nat) ^ (bit_count n - 1) \<le> n" "n < 2 * 2 ^ (bit_count n - 1)"
    by (simp, metis power_Suc)
qed

lemma bn_abs_product_less:
  assumes "bn_fits a" "bn_fits b"
  shows "bn_abs a * bn_abs b < limb_base ^ (bn_width a + bn_width b)"
  using mult_strict_mono [OF bn_abs_less [OF assms(1)] bn_abs_less [OF assms(2)]] by (simp add: power_add)

lemma bn_mul_into_makes:
  assumes "bn_fits a" "bn_fits b" "bn_width a < 2 ^ 31" "bn_width b < 2 ^ 31"
  shows "makes (bn_abs a * bn_abs b) (bn_width a + bn_width b) (bn_neg a \<noteq> bn_neg b) (\<lambda>rr. bn_mul_into alloc mem rr a b)"
  unfolding makes_def
proof (intro allI impI)
  fix rr ctx res rr' ctx'
  assume rr: "bn_fits rr" and c: "ctx_ok ctx" and e: "bn_mul_into alloc mem rr a b ctx = ((res, rr'), ctx')"
  define al bl where "al = bn_width a" and "bl = bn_width b"
  define i where "i = int al - int bl"
  define s where "s = (bn_neg a \<noteq> bn_neg b)"
  define tw where "tw = al + bl"
  have l: "length (bn_words a) = al" "length (bn_words b) = bl" using assms(1,2) by (simp_all add: length_bn_words al_def bl_def)
  have v: "bn_val (bn_words a) * bn_val (bn_words b) < limb_base ^ tw"
    using bn_abs_product_less [OF assms(1,2)] by (simp add: bn_abs_def tw_def al_def bl_def)
  note store = expand_and_store [where s = s and rr = rr and tw = tw and v = "bn_val (bn_words a) * bn_val (bn_words b)" and alloc = alloc and res = res and rr' = rr', OF _ rr _ _ v]
  note e = e [unfolded bn_mul_into_def Let_def, folded al_def bl_def, folded i_def tw_def s_def]
  let ?G = "(bn_fits rr' \<and> bn_static rr' = bn_static rr \<and> (res = Some () \<longrightarrow> bn_abs rr' = bn_abs a * bn_abs b \<and> bn_width rr' = tw \<and> bn_neg rr' = s))
     \<and> ctx_extends ctx ctx'"
  have fold: "bn_val (bn_words a) * bn_val (bn_words b) = bn_abs a * bn_abs b" by (simp add: bn_abs_def)
  have failed: ?G if "res = None" "rr' = rr\<lparr>bn_neg := s\<rparr>" "ctx_extends ctx ctx'" using that rr by simp
  have ?G
  proof (cases "i = 0 \<and> al = 8")
    case True
    then have w: "al = 8" "bl = 8" "tw = 16" by (simp_all add: i_def tw_def)
    note e1 = e [unfolded if_P [OF True]]
    show ?thesis
      using store [where k = 16 and ws = "\<lambda>_. bn_mul_comba8 (bn_words a) (bn_words b)"] e1 w
        bn_mul_comba8_value [of "bn_words a" "bn_words b"] l ctx_extends_refl [OF c] fold by simp
  next
    case f1: False
    note e1 = e [unfolded if_not_P [OF f1]]
    show ?thesis
    proof (cases "16 \<le> al \<and> 16 \<le> bl \<and> - 1 \<le> i \<and> i \<le> 1")
      case False
      note e2 = e1 [unfolded if_not_P [OF False]]
      show ?thesis
        using store [where k = tw and ws = "\<lambda>_. bn_mul_normal (bn_words a) al (bn_words b) bl"] e2
          bn_mul_normal_value [of al "bn_words a" bl "bn_words b"] l ctx_extends_refl [OF c] fold by (simp add: tw_def)
    next
      case True
      note e2 = e1 [unfolded if_P [OF True]]
      define m where "m = (if 0 \<le> i then al else bl)"
      define j where "j = (2 :: nat) ^ (bit_count m - 1)"
      have m: "m \<noteq> 0" "m < 2 ^ 31" "16 \<le> m" "al \<le> m" "bl \<le> m" "m \<le> al + 1" "m \<le> bl + 1"
        using True assms(3,4) by (auto simp: m_def i_def al_def bl_def)
      note J = word_width_power [OF m(1,2), folded j_def]
      have pj: "\<exists>k. j = 2 ^ k" unfolding j_def by blast
      have j16: "16 \<le> j"
      proof -
        have "\<not> bit_count m \<le> 4" using m(3) unfolding bit_count_le_iff by simp
        then have "(2 :: nat) ^ 4 \<le> 2 ^ (bit_count m - 1)" by (intro power_increasing) auto
        then show ?thesis by (simp add: j_def)
      qed
      note e3 = e2 [folded m_def, unfolded J(1)]
      obtain p c1 where g: "BN_CTX_get mem ctx = (p, c1)" by fastforce
      have x1: "ctx_extends ctx c1" by (rule BN_CTX_get_extends [OF g c])
      show ?thesis
      proof (cases p)
        case None
        then show ?thesis using e3 failed x1 by (simp add: g)
      next
        case (Some t)
        note G = BN_CTX_get_Some [OF g [unfolded Some] c]
        note e4 = e3 [unfolded g Some prod.case option.case]
        have upd: "ctx_extends ctx (ctx_update c1 t tn)" if "bn_wexpand alloc (ctx_number c1 t) n = (Some u, tn)" for n tn u
          using bn_wexpand_Some [OF that G(4)] G(1,6) by (intro ctx_update_extends [OF x1]) simp_all
        show ?thesis
        proof (cases "j < al \<or> j < bl")
          case True
          note e5 = e4 [unfolded if_P [OF True]]
          have jj: "j \<le> al" "j \<le> bl" using True m by linarith+
          have P: "bn_val (bn_mul_part_recursive old (bn_words a) (bn_words b) j (al - j) (bl - j)) = bn_val (bn_words a) * bn_val (bn_words b)
            \<and> length (bn_mul_part_recursive old (bn_words a) (bn_words b) j (al - j) (bl - j)) = 4 * j" for old
            by (rule bn_mul_part_recursive_value [OF pj]) (use jj j16 J m l in linarith)+
          show ?thesis
          proof (cases "bn_wexpand alloc (ctx_number c1 t) (j * 8)")
            case (Pair q tn)
            show ?thesis
            proof (cases q)
              case None
              then show ?thesis using e5 failed x1 by (simp add: Pair)
            next
              case Some2: (Some u)
              have "ctx_extends ctx ctx'" using upd [OF Pair [unfolded Some2]] e5 by (simp add: Pair Some2)
              then show ?thesis
                using store [where k = "j * 4" and ws = "\<lambda>rr. bn_mul_part_recursive (take (j * 4) (bn_d rr)) (bn_words a) (bn_words b) j (al - j) (bl - j)"]
                  e5 P J m fold by (simp add: Pair Some2 tw_def)
            qed
          qed
        next
          case False
          note e5 = e4 [unfolded if_not_P [OF False]]
          have jj: "al \<le> j" "bl \<le> j" "j \<le> al + 1" "j \<le> bl + 1" using False J m by linarith+
          have P: "bn_val (bn_mul_recursive (bn_words a) (bn_words b) j (int al - int j) (int bl - int j)) = bn_val (bn_words a) * bn_val (bn_words b)
            \<and> length (bn_mul_recursive (bn_words a) (bn_words b) j (int al - int j) (int bl - int j)) = 2 * j"
            by (rule bn_mul_recursive_value [OF pj]) (use jj j16 l in linarith)+
          show ?thesis
          proof (cases "bn_wexpand alloc (ctx_number c1 t) (j * 4)")
            case (Pair q tn)
            show ?thesis
            proof (cases q)
              case None
              then show ?thesis using e5 failed x1 by (simp add: Pair)
            next
              case Some2: (Some u)
              have "ctx_extends ctx ctx'" using upd [OF Pair [unfolded Some2]] e5 by (simp add: Pair Some2)
              then show ?thesis
                using store [where k = "j * 2" and ws = "\<lambda>rr. bn_mul_recursive (bn_words a) (bn_words b) j (int al - int j) (int bl - int j)"]
                  e5 P jj fold by (simp add: Pair Some2 tw_def)
            qed
          qed
        qed
      qed
    qed
  qed
  then show "bn_fits rr' \<and> bn_static rr' = bn_static rr \<and> ctx_extends ctx ctx'
    \<and> (res = Some () \<longrightarrow> bn_abs rr' = bn_abs a * bn_abs b \<and> bn_width rr' = bn_width a + bn_width b \<and> bn_neg rr' = (bn_neg a \<noteq> bn_neg b))"
    by (simp add: tw_def al_def bl_def s_def)
qed

text \<open>A frame around such a routine, and the shrinking of its result.\<close>

lemma makes_frame:
  assumes "makes v w s f" "in_frame mem ctx (f r) = ((res, r'), ctx')" "bn_fits r" "ctx_ok ctx"
  shows "ctx_same ctx ctx'" "bn_fits r'" "res = Some u \<Longrightarrow> bn_abs r' = v" "res = Some u \<Longrightarrow> bn_width r' = w"
    "res = Some u \<Longrightarrow> bn_neg r' = s"
proof -
  show "ctx_same ctx ctx'"
  proof (rule in_frame_same [OF assms(2,4)])
    fix c rr c' assume "ctx_ok c" "f r c = (rr, c')"
    then show "ctx_extends c c'" using makesD(3) [OF assms(1), of r c "fst rr" "snd rr" c'] assms(3) by simp
  qed
  obtain c1 where "f r (BN_CTX_start mem ctx) = ((res, r'), c1)" using assms(2) by (auto simp: in_frame_def split: prod.splits)
  note M = makesD [OF assms(1) this assms(3) BN_CTX_start_ok(1) [OF assms(4)]]
  show "bn_fits r'" "res = Some u \<Longrightarrow> bn_abs r' = v" "res = Some u \<Longrightarrow> bn_width r' = w" "res = Some u \<Longrightarrow> bn_neg r' = s"
    using M(1,4,5,6) by blast+
qed

lemma bn_mul_impl_value:
  assumes "bn_mul_impl alloc mem same r a b ctx = ((res, r'), ctx')"
    and "bn_fits r" "bn_fits a" "bn_fits b" "bn_width a < 2 ^ 31" "bn_width b < 2 ^ 31" "ctx_ok ctx"
  shows "ctx_same ctx ctx'" "bn_fits r'" "res = Some u \<Longrightarrow> bn_int r' = bn_int a * bn_int b"
    "res = Some u \<Longrightarrow> bn_width a \<noteq> 0 \<Longrightarrow> bn_width b \<noteq> 0 \<Longrightarrow> bn_width r' = bn_width a + bn_width b"
    "res = Some u \<Longrightarrow> bn_neg r' \<longrightarrow> bn_neg a \<noteq> bn_neg b"
proof -
  have "ctx_same ctx ctx' \<and> bn_fits r' \<and> (res = Some u \<longrightarrow> bn_int r' = bn_int a * bn_int b
    \<and> (bn_width a \<noteq> 0 \<longrightarrow> bn_width b \<noteq> 0 \<longrightarrow> bn_width r' = bn_width a + bn_width b) \<and> (bn_neg r' \<longrightarrow> bn_neg a \<noteq> bn_neg b))"
  proof (cases "bn_width a = 0 \<or> bn_width b = 0")
    case True
    then have "bn_int a * bn_int b = 0" by (auto simp: bn_int_def bn_abs_def bn_words_def)
    then show ?thesis using assms(1,7) True BN_zero_ok(2) [of r]
      by (auto simp: bn_mul_impl_def ctx_same_refl BN_zero_pool) (simp_all add: BN_zero_def)
  next
    case False
    note M = makes_frame [OF via_scratch_makes [OF bn_mul_into_makes [OF assms(3-6), where alloc = alloc and mem = mem]],
        where mem = mem and r = r and res = res and r' = r' and ctx = ctx and ctx' = ctx', OF _ assms(2,7)]
    have e: "in_frame mem ctx (via_scratch alloc mem same r (\<lambda>rr. bn_mul_into alloc mem rr a b)) = ((res, r'), ctx')"
      using assms(1) False by (simp add: bn_mul_impl_def)
    show ?thesis using M [OF e] by (auto simp: bn_int_def)
  qed
  then show "ctx_same ctx ctx'" "bn_fits r'" "res = Some u \<Longrightarrow> bn_int r' = bn_int a * bn_int b"
    "res = Some u \<Longrightarrow> bn_width a \<noteq> 0 \<Longrightarrow> bn_width b \<noteq> 0 \<Longrightarrow> bn_width r' = bn_width a + bn_width b"
    "res = Some u \<Longrightarrow> bn_neg r' \<longrightarrow> bn_neg a \<noteq> bn_neg b" by blast+
qed

lemma shrunk:
  assumes "attempt res (\<lambda>_ r. (Some (), bn_set_minimal_width r)) = (Some u, r')" "\<And>u. fst res = Some u \<Longrightarrow> bn_fits (snd res)"
  shows "bn_ok r'" "bn_minimal r'" "bn_int r' = bn_int (snd res)" "fst res = Some u"
  using assms bn_set_minimal_width [of "snd res"] by (cases res; cases "fst res"; simp)+

lemma BN_mul_Some:
  assumes "BN_mul alloc mem same r a b ctx = ((Some u, r'), ctx')"
    and "bn_fits r" "bn_fits a" "bn_fits b" "bn_width a < 2 ^ 31" "bn_width b < 2 ^ 31" "ctx_ok ctx"
  shows "bn_ok r'" "bn_int r' = bn_int a * bn_int b" "bn_minimal r'" "ctx_same ctx ctx'"
proof -
  obtain res c r1 where m: "bn_mul_impl alloc mem same r a b ctx = ((res, r1), c)" by (metis surj_pair)
  have "ctx' = c" and e: "attempt (res, r1) (\<lambda>_ r. (Some (), bn_set_minimal_width r)) = (Some u, r')"
    using assms(1) by (simp_all add: BN_mul_def m)
  note V = bn_mul_impl_value [OF m assms(2-7)]
  note S = shrunk [OF e, simplified, OF V(2)]
  show "bn_ok r'" "bn_int r' = bn_int a * bn_int b" "bn_minimal r'" "ctx_same ctx ctx'"
    using S V(1,3) \<open>ctx' = c\<close> by simp_all
qed

text \<open>The routines with a fixed width of the result.\<close>

lemma bn_mul_consttime_value:
  assumes "bn_mul_consttime alloc mem same r a b ctx = ((Some u, r'), ctx')"
    and "bn_fits r" "bn_fits a" "bn_fits b" "bn_width a < 2 ^ 31" "bn_width b < 2 ^ 31" "ctx_ok ctx"
  shows "bn_ok r'" "bn_int r' = bn_int a * bn_int b" "\<not> bn_neg a \<and> \<not> bn_neg b \<and> \<not> bn_neg r'" "ctx_same ctx ctx'"
    "bn_width a \<noteq> 0 \<Longrightarrow> bn_width b \<noteq> 0 \<Longrightarrow> bn_width r' = bn_width a + bn_width b"
proof -
  have n: "\<not> bn_neg a" "\<not> bn_neg b" and m: "bn_mul_impl alloc mem same r a b ctx = ((Some u, r'), ctx')"
    using assms(1) by (auto simp: bn_mul_consttime_def split: if_splits)
  note V = bn_mul_impl_value [OF m assms(2-7)]
  show "bn_ok r'" "bn_int r' = bn_int a * bn_int b" "\<not> bn_neg a \<and> \<not> bn_neg b \<and> \<not> bn_neg r'" "ctx_same ctx ctx'"
    "bn_width a \<noteq> 0 \<Longrightarrow> bn_width b \<noteq> 0 \<Longrightarrow> bn_width r' = bn_width a + bn_width b"
    using V n by (auto simp: bn_ok_def)
qed

lemma bn_mul_small_value:
  assumes "bn_mul_small nr a na b nb = Some r" "length a = na" "length b = nb"
  shows "bn_val r = bn_val a * bn_val b" "length r = nr"
  using assms bn_mul_comba8_value [of a b] bn_mul_normal_value [of na a nb b]
  by (auto simp: bn_mul_small_def split: if_splits)

lemma bn_sqr_small_value:
  assumes "bn_sqr_small nr a na = Some r" "length a = na"
  shows "bn_val r = bn_val a ^ 2" "length r = nr"
  using assms bn_sqr_comba8_value [of a] bn_sqr_comba4_value [of a] bn_sqr_normal_value [of na a]
  by (auto simp: bn_sqr_small_def split: if_splits)

lemma power_of_two_test:
  assumes "n \<noteq> 0" "n < 2 ^ 31" "(of_nat n :: u32) AND (of_nat n - 1) = 0"
  shows "\<exists>k. n = 2 ^ k"
proof (rule ccontr)
  assume np: "\<not> (\<exists>k. n = 2 ^ k)"
  define k where "k = bit_count n - 1"
  have k: "2 ^ k \<le> n" "n < 2 * 2 ^ k" using word_width_power(2,3) [OF assms(1,2)] by (simp_all add: k_def)
  have b: "bit m k" if "2 ^ k \<le> m" "m < 2 * 2 ^ k" for m :: nat
  proof -
    have "m div 2 ^ k = 1" using that by (intro div_nat_eqI) simp_all
    then show ?thesis by (simp add: bit_iff_odd)
  qed
  have "n \<noteq> 2 ^ k" using np by blast
  then have "bit n k" "bit (n - 1) k" using k by (intro b; simp)+
  moreover have u: "unat (of_nat n :: u32) = n" using assms(2) by (simp add: unat_of_nat)
  moreover have "(of_nat n :: u32) \<noteq> 0" using u assms(1) by auto
  then have "unat (of_nat n - 1 :: u32) = n - 1" using u by (simp add: unat_minus_one)
  ultimately have "bit (of_nat n :: u32) k" "bit (of_nat n - 1 :: u32) k"
    by (metis bit_unsigned_iff)+
  then have "bit ((of_nat n :: u32) AND (of_nat n - 1)) k" by (simp only: bit_and_iff simp_thms)
  then show False using assms(3) by simp
qed

lemma bn_sqr_into_makes:
  assumes "bn_fits a" "bn_width a < 2 ^ 31"
  shows "makes (bn_abs a ^ 2) (2 * bn_width a) False (\<lambda>rr. bn_sqr_into alloc mem rr a)"
  unfolding makes_def
proof (intro allI impI)
  fix rr ctx res rr' ctx'
  assume rr: "bn_fits rr" and c: "ctx_ok ctx" and e: "bn_sqr_into alloc mem rr a ctx = ((res, rr'), ctx')"
  define al where "al = bn_width a"
  have l: "length (bn_words a) = al" using assms(1) by (simp add: length_bn_words al_def)
  obtain p c1 where g: "BN_CTX_get mem ctx = (p, c1)" by fastforce
  have x1: "ctx_extends ctx c1" by (rule BN_CTX_get_extends [OF g c])
  have G: "bn_fits rr' \<and> bn_static rr' = bn_static rr \<and> ctx_extends ctx ctx'
    \<and> (res = Some () \<longrightarrow> bn_abs rr' = bn_abs a ^ 2 \<and> bn_width rr' = 2 * al \<and> bn_neg rr' = False)"
  proof (cases p)
    case None
    then show ?thesis using e rr x1 by (auto simp: bn_sqr_into_def g)
  next
    case (Some t)
    note G = BN_CTX_get_Some [OF g [unfolded Some] c]
    have upd: "ctx_extends ctx (ctx_update c1 t tn)" if "bn_wexpand alloc (ctx_number c1 t) n = (Some u, tn)" for n tn u
      using bn_wexpand_Some [OF that G(4)] G(1,6) by (intro ctx_update_extends [OF x1]) simp_all
    obtain q r1 where w: "bn_wexpand alloc rr (2 * al) = (q, r1)" by fastforce
    show ?thesis
    proof (cases q)
      case None
      then show ?thesis using e rr x1 bn_wexpand_None [of alloc rr "2 * al" r1] w Some
        by (auto simp: bn_sqr_into_def g al_def [symmetric])
    next
      case Some2: (Some u)
      note W = bn_wexpand_Some [OF w [unfolded Some2] rr]
      obtain ws c2 where ws: "(if al = 4 then (Some (bn_sqr_comba4 (bn_words a)), c1)
                 else if al = 8 then (Some (bn_sqr_comba8 (bn_words a)), c1)
                 else if al < 16 then (Some (bn_sqr_normal (bn_words a) al), c1)
                 else if al \<noteq> 0 \<and> (of_nat al :: u32) AND (of_nat al - 1) = 0
                 then (case bn_wexpand alloc (ctx_number c1 t) (al * 4) of
                     (None, _) \<Rightarrow> (None, c1)
                   | (Some _, tn) \<Rightarrow> (Some (bn_sqr_recursive (bn_words a) al), ctx_update c1 t tn))
                 else (case bn_wexpand alloc (ctx_number c1 t) (2 * al) of
                     (None, _) \<Rightarrow> (None, c1)
                   | (Some _, tn) \<Rightarrow> (Some (bn_sqr_normal (bn_words a) al), ctx_update c1 t tn))) = (ws, c2)"
        by fastforce
      have e1: "(res, rr') = (case ws of None \<Rightarrow> (None, r1) | Some ws \<Rightarrow> (Some (), (bn_write r1 ws)\<lparr>bn_neg := False, bn_width := 2 * al\<rparr>))"
        "ctx' = c2"
        using e by (auto simp: bn_sqr_into_def g Some w Some2 Let_def al_def [symmetric] ws split: option.splits)
      have x: "ctx_extends ctx c2" using ws x1 upd
        by (auto split: if_splits prod.splits option.splits)
      have sq: "bn_val x = bn_abs a ^ 2 \<and> length x = 2 * al" if wsx: "ws = Some x" for x
      proof -
        consider "al = 4" "x = bn_sqr_comba4 (bn_words a)" | "al = 8" "x = bn_sqr_comba8 (bn_words a)" | "x = bn_sqr_normal (bn_words a) al"
          | "al \<noteq> 0" "(of_nat al :: u32) AND (of_nat al - 1) = 0" "x = bn_sqr_recursive (bn_words a) al"
          using ws wsx by (auto split: if_splits prod.splits option.splits)
        then show ?thesis
        proof cases
          case 4
          have "\<exists>k. al = 2 ^ k" by (rule power_of_two_test [OF 4(1) _ 4(2)]) (use assms(2) in \<open>simp add: al_def\<close>)
          then show ?thesis using bn_sqr_recursive_value [of al "bn_words a"] l 4 by (simp add: bn_abs_def)
        qed (use bn_sqr_comba4_value [of "bn_words a"] bn_sqr_comba8_value [of "bn_words a"]
            bn_sqr_normal_value [of al "bn_words a"] l in \<open>simp_all add: bn_abs_def\<close>)
      qed
      have lt: "bn_abs a ^ 2 < limb_base ^ (2 * al)"
        using bn_abs_product_less [OF assms(1) assms(1)] by (simp add: power2_eq_square al_def mult_2)
      show ?thesis
      proof (cases ws)
        case None
        then show ?thesis using e1 W x by simp
      next
        case Some3: (Some v)
        show ?thesis using sq [OF Some3] e1 W x
          by (simp add: Some3 bn_fits_def bn_abs_def bn_words_def)
      qed
    qed
  qed
  then show "bn_fits rr' \<and> bn_static rr' = bn_static rr \<and> ctx_extends ctx ctx'
    \<and> (res = Some () \<longrightarrow> bn_abs rr' = bn_abs a ^ 2 \<and> bn_width rr' = 2 * bn_width a \<and> bn_neg rr' = False)"
    by (simp add: al_def)
qed

lemma bn_sqr_consttime_value:
  assumes "bn_sqr_consttime alloc mem same r a ctx = ((res, r'), ctx')"
    and "bn_fits r" "bn_fits a" "bn_width a < 2 ^ 31" "ctx_ok ctx"
  shows "ctx_same ctx ctx'" "bn_fits r'" "res = Some u \<Longrightarrow> bn_int r' = bn_int a ^ 2"
    "res = Some u \<Longrightarrow> bn_width r' = 2 * bn_width a" "res = Some u \<Longrightarrow> \<not> bn_neg r'"
proof -
  have "ctx_same ctx ctx' \<and> bn_fits r' \<and> (res = Some u \<longrightarrow> bn_int r' = bn_int a ^ 2 \<and> bn_width r' = 2 * bn_width a \<and> \<not> bn_neg r')"
  proof (cases "bn_width a = 0")
    case True
    then show ?thesis using assms(1,5)
      by (auto simp: bn_sqr_consttime_def ctx_same_refl bn_fits_def bn_int_def bn_abs_def bn_words_def)
  next
    case False
    note M = makes_frame [OF via_scratch_makes [OF bn_sqr_into_makes [OF assms(3,4), where alloc = alloc and mem = mem]],
        where mem = mem and r = r and res = res and r' = r' and ctx = ctx and ctx' = ctx', OF _ assms(2,5)]
    have e: "in_frame mem ctx (via_scratch alloc mem same r (\<lambda>rr. bn_sqr_into alloc mem rr a)) = ((res, r'), ctx')"
      using assms(1) False by (simp add: bn_sqr_consttime_def)
    show ?thesis using M [OF e] by (auto simp: bn_int_def)
  qed
  then show "ctx_same ctx ctx'" "bn_fits r'" "res = Some u \<Longrightarrow> bn_int r' = bn_int a ^ 2"
    "res = Some u \<Longrightarrow> bn_width r' = 2 * bn_width a" "res = Some u \<Longrightarrow> \<not> bn_neg r'" by blast+
qed

lemma BN_sqr_Some:
  assumes "BN_sqr alloc mem same r a ctx = ((Some u, r'), ctx')"
    and "bn_fits r" "bn_fits a" "bn_width a < 2 ^ 31" "ctx_ok ctx"
  shows "bn_ok r'" "bn_int r' = bn_int a ^ 2" "bn_minimal r'" "ctx_same ctx ctx'"
proof -
  obtain res c r1 where m: "bn_sqr_consttime alloc mem same r a ctx = ((res, r1), c)" by (metis surj_pair)
  have "ctx' = c" and e: "attempt (res, r1) (\<lambda>_ r. (Some (), bn_set_minimal_width r)) = (Some u, r')"
    using assms(1) by (simp_all add: BN_sqr_def m)
  note V = bn_sqr_consttime_value [OF m assms(2-5)]
  note S = shrunk [OF e, simplified, OF V(2)]
  show "bn_ok r'" "bn_int r' = bn_int a ^ 2" "bn_minimal r'" "ctx_same ctx ctx'"
    using S V(1,3) \<open>ctx' = c\<close> by simp_all
qed

subsection \<open>Enough memory\<close>

definition plenty :: "alloc \<Rightarrow> ctx_mem \<Rightarrow> bool" where
  "plenty alloc mem \<longleftrightarrow> (\<forall>n. alloc n) \<and> bignums_alloc mem \<and> (\<forall>n. number_alloc mem n \<and> push_alloc mem n)"

lemma plenty_get:
  assumes "plenty alloc mem" "ctx_ok ctx" "\<not> ctx_error ctx"
  obtains k ctx' where "BN_CTX_get mem ctx = (Some k, ctx')" "ctx_ok ctx'" "\<not> ctx_error ctx'"
    "bn_fits (ctx_number ctx' k)" "\<not> bn_static (ctx_number ctx' k)"
proof -
  have "fst (BN_CTX_get mem ctx) \<noteq> None"
    using assms by (auto simp: BN_CTX_get_def plenty_def ctx_push_def ctx_take_def BN_new_def split: option.splits)
  then obtain k ctx' where g: "BN_CTX_get mem ctx = (Some k, ctx')" by (cases "BN_CTX_get mem ctx") auto
  show thesis
    using that [OF g] BN_CTX_get_Some [OF g assms(2)] BN_CTX_get_extends [OF g assms(2)] by (auto simp: ctx_extends_def)
qed

lemma plenty_wexpand:
  assumes "plenty alloc mem" "\<not> bn_static bn" "n \<le> BN_MAX_WORDS"
  obtains bn' where "bn_wexpand alloc bn n = (Some (), bn')"
proof -
  have "room_for alloc bn n" using assms by (simp add: plenty_def room_for_def)
  then show thesis by (rule room_forE) (rule that)
qed

definition succeeds :: "(bignum \<Rightarrow> bn_ctx \<Rightarrow> unit bn_result \<times> bn_ctx) \<Rightarrow> bool" where
  "succeeds f \<longleftrightarrow>
     (\<forall>rr ctx. bn_fits rr \<longrightarrow> \<not> bn_static rr \<longrightarrow> ctx_ok ctx \<longrightarrow> \<not> ctx_error ctx \<longrightarrow> fst (fst (f rr ctx)) = Some ())"

lemma succeedsD:
  "succeeds f \<Longrightarrow> bn_fits rr \<Longrightarrow> \<not> bn_static rr \<Longrightarrow> ctx_ok ctx \<Longrightarrow> \<not> ctx_error ctx \<Longrightarrow> \<exists>r c. f rr ctx = ((Some (), r), c)"
proof -
  assume f: "succeeds f" "bn_fits rr" "\<not> bn_static rr" "ctx_ok ctx" "\<not> ctx_error ctx"
  then have "fst (fst (f rr ctx)) = Some ()" unfolding succeeds_def by blast
  then show ?thesis by (metis prod.collapse)
qed

lemma via_scratch_succeeds:
  assumes "succeeds f" "makes v w s f" "plenty alloc mem" "w \<le> BN_MAX_WORDS"
  shows "succeeds (\<lambda>r. via_scratch alloc mem same r f)"
  unfolding succeeds_def
proof (intro allI impI)
  fix r ctx assume r: "bn_fits r" "\<not> bn_static r" and c: "ctx_ok ctx" "\<not> ctx_error ctx"
  show "fst (fst (via_scratch alloc mem same r f ctx)) = Some ()"
  proof (cases same)
    case False
    then show ?thesis using succeedsD [OF assms(1) r c] by (auto simp: via_scratch_def)
  next
    case True
    obtain k c1 where g: "BN_CTX_get mem ctx = (Some k, c1)" "ctx_ok c1" "\<not> ctx_error c1"
      "bn_fits (ctx_number c1 k)" "\<not> bn_static (ctx_number c1 k)"
      using plenty_get [OF assms(3) c] by blast
    obtain n c2 where m: "f (ctx_number c1 k) c1 = ((Some (), n), c2)" using succeedsD [OF assms(1) g(4,5,2,3)] by blast
    have "bn_width n \<le> BN_MAX_WORDS" using makesD(5) [OF assms(2) m g(4,2)] assms(4) by simp
    then obtain r1 where "bn_wexpand alloc r (bn_width n) = (Some (), r1)" by (rule plenty_wexpand [OF assms(3) r(2)])
    then show ?thesis using True by (simp add: via_scratch_def g m Let_def BN_copy_def)
  qed
qed

lemma in_frame_succeeds:
  assumes "succeeds f" "bn_fits r" "\<not> bn_static r" "ctx_ok ctx" "\<not> ctx_error (BN_CTX_start mem ctx)"
  shows "\<exists>r' ctx'. in_frame mem ctx (f r) = ((Some (), r'), ctx')"
  using succeedsD [OF assms(1-3) BN_CTX_start_ok(1) [OF assms(4)] assms(5)] by (auto simp: in_frame_def)

lemma bn_mul_into_succeeds:
  assumes "plenty alloc mem" "8 * bn_width a \<le> BN_MAX_WORDS" "8 * bn_width b \<le> BN_MAX_WORDS"
  shows "succeeds (\<lambda>rr. bn_mul_into alloc mem rr a b)"
  unfolding succeeds_def
proof (intro allI impI)
  fix rr ctx assume r: "bn_fits rr" "\<not> bn_static rr" and c: "ctx_ok ctx" "\<not> ctx_error ctx"
  define al bl where "al = bn_width a" and "bl = bn_width b"
  define i where "i = int al - int bl"
  define s where "s = (bn_neg a \<noteq> bn_neg b)"
  have lim: "8 * al \<le> BN_MAX_WORDS" "8 * bl \<le> BN_MAX_WORDS" using assms by (simp_all add: al_def bl_def)
  obtain k c1 where g: "BN_CTX_get mem ctx = (Some k, c1)" "ctx_ok c1" "\<not> ctx_error c1"
    "bn_fits (ctx_number c1 k)" "\<not> bn_static (ctx_number c1 k)"
    using plenty_get [OF assms(1) c] by blast
  have rr: "\<exists>r1. bn_wexpand alloc (rr\<lparr>bn_neg := s\<rparr>) n = (Some (), r1)" if "n \<le> BN_MAX_WORDS" for n
    using plenty_wexpand [OF assms(1) _ that, of "rr\<lparr>bn_neg := s\<rparr>"] r by auto
  have t: "\<exists>r1. bn_wexpand alloc (ctx_number c1 k) n = (Some (), r1)" if "n \<le> BN_MAX_WORDS" for n
    using plenty_wexpand [OF assms(1) g(5) that] by blast
  define m where "m = (if 0 \<le> i then al else bl)"
  note unfold = bn_mul_into_def Let_def al_def [symmetric] bl_def [symmetric] i_def [symmetric] s_def [symmetric]
  show "fst (fst (bn_mul_into alloc mem rr a b ctx)) = Some ()"
  proof (cases "16 \<le> al \<and> 16 \<le> bl")
    case False
    then have f: "(16 \<le> al \<and> 16 \<le> bl \<and> - 1 \<le> i \<and> i \<le> 1) = False" "al + bl \<le> BN_MAX_WORDS" "(16 :: nat) \<le> BN_MAX_WORDS"
      using lim by (auto simp: BN_MAX_WORDS_def)
    obtain r16 rn where "bn_wexpand alloc (rr\<lparr>bn_neg := s\<rparr>) 16 = (Some (), r16)"
      "bn_wexpand alloc (rr\<lparr>bn_neg := s\<rparr>) (al + bl) = (Some (), rn)"
      using rr [OF f(2)] rr [OF f(3)] by blast
    then show ?thesis unfolding unfold f(1) if_False by (simp split: if_split)
  next
    case True
    define j where "j = (2 :: nat) ^ (bit_count m - 1)"
    have m: "m \<noteq> 0" "m < 2 ^ 31" "8 * m \<le> BN_MAX_WORDS" "al + bl \<le> BN_MAX_WORDS" using True lim by (auto simp: m_def BN_MAX_WORDS_def)
    note J = word_width_power [OF m(1,2), folded j_def]
    have jl: "j * 8 \<le> BN_MAX_WORDS" "j * 4 \<le> BN_MAX_WORDS" "j * 2 \<le> BN_MAX_WORDS" using J(2) m(3) by linarith+
    obtain t8 t4 r4 r2 rn where
      w: "bn_wexpand alloc (ctx_number c1 k) (j * 8) = (Some (), t8)" "bn_wexpand alloc (ctx_number c1 k) (j * 4) = (Some (), t4)"
      "bn_wexpand alloc (rr\<lparr>bn_neg := s\<rparr>) (j * 4) = (Some (), r4)" "bn_wexpand alloc (rr\<lparr>bn_neg := s\<rparr>) (j * 2) = (Some (), r2)"
      "bn_wexpand alloc (rr\<lparr>bn_neg := s\<rparr>) (al + bl) = (Some (), rn)"
      using t [OF jl(1)] t [OF jl(2)] rr [OF jl(2)] rr [OF jl(3)] rr [OF m(4)] by blast
    have n8: "(i = 0 \<and> al = 8) = False" using True by simp
    show ?thesis
      unfolding unfold m_def [symmetric] J(1) n8 if_False g(1) prod.case option.case w attempt_Some
      by (simp split: if_split)
  qed
qed

lemma BN_mul_room:
  assumes "plenty alloc mem" "8 * bn_width a \<le> BN_MAX_WORDS" "8 * bn_width b \<le> BN_MAX_WORDS"
    and "bn_fits r" "\<not> bn_static r" "bn_fits a" "bn_fits b" "ctx_ok ctx" "\<not> ctx_error (BN_CTX_start mem ctx)"
  shows "\<exists>p ctx'. BN_mul alloc mem same r a b ctx = ((Some (), p), ctx')"
proof (cases "bn_width a = 0 \<or> bn_width b = 0")
  case True
  then show ?thesis by (auto simp: BN_mul_def bn_mul_impl_def)
next
  case False
  have w: "bn_width a < 2 ^ 31" "bn_width b < 2 ^ 31" "bn_width a + bn_width b \<le> BN_MAX_WORDS"
    using assms(2,3) by (simp_all add: BN_MAX_WORDS_def)
  note S = via_scratch_succeeds [OF bn_mul_into_succeeds [OF assms(1-3)] bn_mul_into_makes [OF assms(6,7) w(1,2)] assms(1) w(3), of same]
  obtain r' ctx' where "in_frame mem ctx (via_scratch alloc mem same r (\<lambda>rr. bn_mul_into alloc mem rr a b)) = ((Some (), r'), ctx')"
    using in_frame_succeeds [OF S assms(4,5,8,9)] by blast
  then show ?thesis using False by (auto simp: BN_mul_def bn_mul_impl_def)
qed

lemma bn_sqr_into_succeeds:
  assumes "plenty alloc mem" "8 * bn_width a \<le> BN_MAX_WORDS"
  shows "succeeds (\<lambda>rr. bn_sqr_into alloc mem rr a)"
  unfolding succeeds_def
proof (intro allI impI)
  fix rr ctx assume r: "bn_fits rr" "\<not> bn_static rr" and c: "ctx_ok ctx" "\<not> ctx_error ctx"
  obtain k c1 where g: "BN_CTX_get mem ctx = (Some k, c1)" "\<not> bn_static (ctx_number c1 k)"
    using plenty_get [OF assms(1) c] by blast
  have lim: "2 * bn_width a \<le> BN_MAX_WORDS" "bn_width a * 4 \<le> BN_MAX_WORDS" using assms(2) by linarith+
  obtain r1 t2 t4 where w: "bn_wexpand alloc rr (2 * bn_width a) = (Some (), r1)"
    "bn_wexpand alloc (ctx_number c1 k) (2 * bn_width a) = (Some (), t2)"
    "bn_wexpand alloc (ctx_number c1 k) (bn_width a * 4) = (Some (), t4)"
    using plenty_wexpand [OF assms(1) r(2) lim(1)] plenty_wexpand [OF assms(1) g(2) lim(1)] plenty_wexpand [OF assms(1) g(2) lim(2)] by metis
  show "fst (fst (bn_sqr_into alloc mem rr a ctx)) = Some ()"
    unfolding bn_sqr_into_def Let_def g(1) prod.case option.case w by (simp split: if_split)
qed

lemma BN_sqr_room:
  assumes "plenty alloc mem" "8 * bn_width a \<le> BN_MAX_WORDS"
    and "bn_fits r" "\<not> bn_static r" "bn_fits a" "ctx_ok ctx" "\<not> ctx_error (BN_CTX_start mem ctx)"
  shows "\<exists>p ctx'. BN_sqr alloc mem same r a ctx = ((Some (), p), ctx')"
proof (cases "bn_width a = 0")
  case True
  then show ?thesis by (auto simp: BN_sqr_def bn_sqr_consttime_def)
next
  case False
  have w: "bn_width a < 2 ^ 31" "2 * bn_width a \<le> BN_MAX_WORDS" using assms(2) by (simp_all add: BN_MAX_WORDS_def)
  note S = via_scratch_succeeds [OF bn_sqr_into_succeeds [OF assms(1,2)] bn_sqr_into_makes [OF assms(5) w(1)] assms(1) w(2), of same]
  obtain r' ctx' where "in_frame mem ctx (via_scratch alloc mem same r (\<lambda>rr. bn_sqr_into alloc mem rr a)) = ((Some (), r'), ctx')"
    using in_frame_succeeds [OF S assms(3,4,6,7)] by blast
  then show ?thesis using False by (auto simp: BN_sqr_def bn_sqr_consttime_def)
qed

end
