(* ===== verification/Bn_Word_Arith.thy ===== *)
theory Bn_Word_Arith
  imports Bn_Arith
begin

text \<open>
  What the operations with one word do to the integer of a \<^verbatim>\<open>BIGNUM\<close> (add.c, mul.c).
\<close>

lemma add_with_carry_bit:
  fixes x w :: u64
  shows "unat (x + w) + limb_base * unat (if w > x + w then 1 else 0 :: u64) = unat x + unat w"
proof -
  have b: "unat x < limb_base" "unat w < limb_base" by simp_all
  have s: "unat (x + w) = (if unat x + unat w < limb_base then unat x + unat w else unat x + unat w - limb_base)"
    using unat_plus_if_size [of x w] by (simp add: word_size limb_base_def)
  show ?thesis
  proof (cases "unat x + unat w < limb_base")
    case True
    then show ?thesis by (simp add: s word_less_nat_alt)
  next
    case False
    then have "unat x + unat w - limb_base < unat w" using b by linarith
    then show ?thesis using False by (simp add: s word_less_nat_alt)
  qed
qed

lemma add_word_loop_value:
  assumes "add_word_loop d w n = (d', w', i)" "n \<le> length d"
  shows "length d' = length d" "drop n d' = drop n d" "w' \<noteq> 0 \<Longrightarrow> i = n"
    "bn_val (take n d') + limb_base ^ n * unat w' = bn_val (take n d) + unat w"
proof -
  have "length d' = length d \<and> drop n d' = drop n d \<and> (w' \<noteq> 0 \<longrightarrow> i = n)
      \<and> bn_val (take n d') + limb_base ^ n * unat w' = bn_val (take n d) + unat w"
    using assms
  proof (induction n arbitrary: d w d' i)
    case 0
    then show ?case by simp
  next
    case (Suc n)
    then obtain x e where d: "d = x # e" by (cases d) auto
    show ?case
    proof (cases "w = 0")
      case True
      then show ?thesis using Suc.prems by simp
    next
      case False
      define c :: u64 where "c = (if w > x + w then 1 else 0)"
      obtain e' j where e: "add_word_loop e c n = (e', w', j)" and d': "d' = (x + w) # e'" and i: "i = Suc j"
        using Suc.prems(1) False by (auto simp: d c_def Let_def split: prod.splits if_splits)
      have IH: "length e' = length e" "drop n e' = drop n e" "w' \<noteq> 0 \<longrightarrow> j = n"
        "bn_val (take n e') + limb_base ^ n * unat w' = bn_val (take n e) + unat c"
        using Suc.IH [OF e] Suc.prems(2) by (simp_all add: d)
      have "bn_val (take (Suc n) d') + limb_base ^ Suc n * unat w'
          = unat (x + w) + limb_base * (bn_val (take n e') + limb_base ^ n * unat w')"
        by (simp add: d' distrib_left)
      also have "\<dots> = unat (x + w) + limb_base * unat c + limb_base * bn_val (take n e)"
        unfolding IH(4) by (simp add: distrib_left)
      also have "unat (x + w) + limb_base * unat c = unat x + unat w"
        unfolding c_def by (rule add_with_carry_bit)
      finally show ?thesis using IH by (simp add: d d' i)
    qed
  qed
  then show "length d' = length d" "drop n d' = drop n d" "w' \<noteq> 0 \<Longrightarrow> i = n"
    "bn_val (take n d') + limb_base ^ n * unat w' = bn_val (take n d) + unat w" by blast+
qed

lemma sub_word_loop_value:
  assumes "sub_word_loop d w = (d', i)" "n \<le> length d" "unat w \<le> bn_val (take n d)" "w \<noteq> 0"
  shows "length d' = length d" "i < n" "bn_val (take n d') = bn_val (take n d) - unat w"
proof -
  have "length d' = length d \<and> i < n \<and> bn_val (take n d') = bn_val (take n d) - unat w"
    using assms
  proof (induction d w arbitrary: d' i n rule: sub_word_loop.induct)
    case (1 w)
    then show ?case by (simp add: unat_eq_0)
  next
    case (2 x d w)
    have "unat w \<noteq> 0" using 2(5) by (simp add: unat_eq_0)
    with 2(4) obtain m where n: "n = Suc m" by (cases n) auto
    show ?case
    proof (cases "x \<ge> w")
      case True
      then have "unat (x - w) = unat x - unat w" "unat w \<le> unat x" by (simp_all add: unat_sub_le word_le_nat_alt)
      then show ?thesis using 2(2) True by (auto simp: n)
    next
      case False
      then obtain e j where e: "sub_word_loop d 1 = (e, j)" and r: "d' = (x - w) # e" "i = Suc j"
        using 2(2) by (auto split: prod.splits)
      have lt: "unat x < unat w" using False by (simp add: word_le_nat_alt)
      have ge: "unat w \<le> unat x + limb_base * bn_val (take m d)" using 2(4) by (simp add: n)
      have pos: "bn_val (take m d) \<noteq> 0"
      proof
        assume "bn_val (take m d) = 0"
        with ge lt show False by simp
      qed
      have IH: "length e = length d" "j < m" "bn_val (take m e) = bn_val (take m d) - 1"
        using 2(1) [OF False e, of m] 2(3) pos by (auto simp: n)
      have s: "unat (x - w) = unat x + limb_base - unat w"
        using lt unat_sub_if_size [of x w] by (simp add: word_size word_le_nat_alt limb_base_def)
      have "limb_base * bn_val (take m d) = limb_base + limb_base * bn_val (take m e)"
        using pos unfolding IH(3) by (cases "bn_val (take m d)") simp_all
      then have "unat x + limb_base - unat w + limb_base * bn_val (take m e) = unat x + limb_base * bn_val (take m d) - unat w"
        using unat_limb [of w] by linarith
      then show ?thesis using IH by (simp add: n r s)
    qed
  qed
  then show "length d' = length d" "i < n" "bn_val (take n d') = bn_val (take n d) - unat w" by blast+
qed

subsection \<open>Adding and subtracting a word\<close>

lemma BN_add_word_nonneg:
  assumes "BN_add_word alloc a w = (Some u, r)" "bn_ok a" "\<not> bn_neg a"
  shows "bn_fits r \<and> \<not> bn_neg r \<and> bn_abs r = bn_abs a + unat w"
proof -
  have f: "bn_width a \<le> length (bn_d a)" "bn_fits a" using assms(2) by (simp_all add: bn_ok_def bn_fits_def)
  consider "w = 0" | "w \<noteq> 0" "bn_abs a = 0" | "w \<noteq> 0" "bn_abs a \<noteq> 0" by blast
  then show ?thesis
  proof cases
    case 1
    then show ?thesis using assms f by (simp add: BN_add_word.simps)
  next
    case 2
    then have s: "BN_set_word alloc a w = (Some u, r)"
      using assms f by (simp add: BN_add_word.simps BN_is_zero_iff)
    have "\<not> bn_neg r"
    proof
      assume "bn_neg r"
      then have "bn_int r < 0" using BN_set_word_Some(1) [OF s] by (simp add: bn_int_neg_iff)
      moreover have "0 \<le> int (unat w)" by (rule of_nat_0_le_iff)
      ultimately show False using BN_set_word_Some(2) [OF s] by linarith
    qed
    moreover have "bn_abs r = unat w"
    proof -
      have "bn_int r = int (bn_abs r)" using calculation by (simp add: bn_int_def)
      with BN_set_word_Some(2) [OF s] show ?thesis by (simp only: of_nat_eq_iff)
    qed
    ultimately show ?thesis using BN_set_word_Some(1) [OF s] 2 by (simp add: bn_ok_def)
  next
    case 3
    obtain d w' i where l: "add_word_loop (bn_d a) w (bn_width a) = (d, w', i)" by (metis prod_cases3)
    note v = add_word_loop_value [OF l f(1)]
    have A: "bn_val (take (bn_width a) d) + limb_base ^ bn_width a * unat w' = bn_abs a + unat w"
      using v(4) by (simp add: bn_abs_def bn_words_def)
    have code: "BN_add_word alloc a w = (if w' \<noteq> 0 \<and> i = bn_width a
        then attempt (bn_wexpand alloc (a\<lparr>bn_d := d\<rparr>) (bn_width a + 1)) (\<lambda>_ a.
          (Some (), a\<lparr>bn_width := bn_width a + 1, bn_d := (bn_d a)[i := w']\<rparr>))
        else (Some (), a\<lparr>bn_d := d\<rparr>))"
      using 3 f assms(3) by (subst BN_add_word.simps) (simp add: BN_is_zero_iff l)
    show ?thesis
    proof (cases "w' = 0")
      case True
      then have "r = a\<lparr>bn_d := d\<rparr>" using assms(1) code by simp
      then show ?thesis using A True v(1) f assms(3) by (simp add: bn_fits_def bn_abs_def bn_words_def)
    next
      case False
      then have i: "i = bn_width a" by (rule v(3))
      obtain a1 where a1: "bn_wexpand alloc (a\<lparr>bn_d := d\<rparr>) (bn_width a + 1) = (Some (), a1)"
        and r: "r = a1\<lparr>bn_width := bn_width a1 + 1, bn_d := (bn_d a1)[i := w']\<rparr>"
        using assms(1) False i by (auto simp: code attempt_eq_Some)
      have "bn_fits (a\<lparr>bn_d := d\<rparr>)" using f v(1) by (simp add: bn_fits_def)
      note e = bn_wexpand_Some [OF a1 this]
      have len: "bn_width a < length (bn_d a1)" using e(2) by simp
      have "bn_words r = take (bn_width a) (bn_d a1) @ [w']"
        using len e(4) by (simp add: r i bn_words_def take_Suc_conv_app_nth)
      also have "take (bn_width a) (bn_d a1) = take (bn_width a) d"
        using e(3,4) by (simp add: bn_words_def)
      finally have "bn_abs r = bn_abs a + unat w"
        using A v(1) f by (simp add: bn_abs_def bn_val_append)
      then show ?thesis using e len assms(3) by (simp add: r bn_fits_def)
    qed
  qed
qed

lemma BN_sub_word_nonneg:
  assumes "BN_sub_word alloc a w = (Some u, r)" "bn_ok a" "\<not> bn_neg a"
  shows "bn_ok r \<and> bn_int r = int (bn_abs a) - int (unat w)"
proof -
  have f: "bn_width a \<le> length (bn_d a)" "bn_fits a" using assms(2) by (simp_all add: bn_ok_def bn_fits_def)
  consider "w = 0" | "w \<noteq> 0" "bn_abs a = 0" | "w \<noteq> 0" "bn_abs a \<noteq> 0" by blast
  then show ?thesis
  proof cases
    case 1
    then show ?thesis using assms f by (simp add: BN_sub_word.simps bn_int_def)
  next
    case 2
    obtain x r1 where s: "BN_set_word alloc a w = (x, r1)" by fastforce
    have "BN_sub_word alloc a w = (x, if x \<noteq> None then BN_set_negative r1 True else r1)"
      using 2 f by (subst BN_sub_word.simps) (simp add: BN_is_zero_iff s)
    with assms(1) s have s: "BN_set_word alloc a w = (Some (), r1)" and r: "r = BN_set_negative r1 True"
      by auto
    note v = BN_set_word_Some [OF s]
    have "int (bn_abs r1) = int (unat w)" using v(2) by (simp add: bn_abs_int)
    then show ?thesis using BN_set_negative_value [of r1 True] v(1) 2 by (simp add: r bn_ok_fits)
  next
    case 3
    have wpos: "unat w \<noteq> 0" using 3 by (simp add: unat_eq_0)
    have "bn_minimal_width a \<noteq> 0" using 3 bn_minimal_width_0_iff [OF f(2)] by simp
    then obtain k where k: "bn_minimal_width a = Suc k" by (cases "bn_minimal_width a") simp_all
    note m = bn_minimal_width_Suc [OF f(2) k]
    have d0: "bn_d a \<noteq> []" using m(5) f(1) by auto
    show ?thesis
    proof (cases "k = 0 \<and> bn_d a ! 0 < w")
      case True
      then have r: "r = a\<lparr>bn_d := (bn_d a)[0 := w - bn_d a ! 0], bn_neg := True\<rparr>"
        using assms 3 f k by (simp add: BN_sub_word.simps BN_is_zero_iff)
      have lt: "unat (bn_d a ! 0) < unat w" using True by (simp add: word_less_nat_alt)
      obtain n where n: "bn_width a = Suc n" using m(5) by (cases "bn_width a") auto
      have A: "bn_abs a = unat (bn_d a ! 0)" using m(3) True by simp
      then have z: "bn_val (take n (tl (bn_d a))) = 0" using bn_abs_Suc [OF f(2) n] by simp
      have "bn_words r = (w - bn_d a ! 0) # take n (tl (bn_d a))"
        using d0 by (cases "bn_d a") (simp_all add: r bn_words_def n)
      then have R: "bn_abs r = unat w - unat (bn_d a ! 0)"
        using z unat_sub_le [OF less_imp_le [OF conjunct2 [OF True]]] by (simp add: bn_abs_def)
      then have "bn_int r = int (unat (bn_d a ! 0)) - int (unat w)"
        using lt by (simp add: r bn_int_def)
      then show ?thesis using R lt f by (simp add: A bn_ok_def bn_fits_def r)
    next
      case False
      have ge: "unat w \<le> bn_abs a"
      proof (cases k)
        case 0
        then show ?thesis using False m(3) by (simp add: word_less_nat_alt)
      next
        case (Suc j)
        have "limb_base ^ 1 \<le> limb_base ^ k" unfolding Suc by (intro power_increasing) simp_all
        then have "limb_base \<le> bn_abs a" using m(1) by simp
        then show ?thesis using unat_limb [of w] by linarith
      qed
      obtain d i where l: "sub_word_loop (bn_d a) w = (d, i)" by fastforce
      have "unat w \<le> bn_val (take (bn_width a) (bn_d a))" using ge by (simp add: bn_abs_def bn_words_def)
      note v = sub_word_loop_value [OF l f(1) this 3(1)]
      have r: "r = (if d ! i = 0 \<and> int i = int (bn_width a) - 1 then a\<lparr>bn_d := d, bn_width := bn_width a - 1\<rparr>
          else a\<lparr>bn_d := d\<rparr>)"
        using assms 3 f k False by (auto simp: BN_sub_word.simps BN_is_zero_iff l split: if_splits)
      have full: "bn_val (take (bn_width a) d) = bn_abs a - unat w"
        using v(3) by (simp add: bn_abs_def bn_words_def)
      have "bn_abs r = bn_abs a - unat w"
      proof (cases "d ! i = 0 \<and> int i = int (bn_width a) - 1")
        case True
        then have i: "bn_width a = Suc i" by linarith
        have "bn_val (take (Suc i) d) = bn_val (take i d)"
          using True v(1) f(1) i by (simp add: take_Suc_conv_app_nth bn_val_append)
        then have "bn_val (take (bn_width a - 1) d) = bn_abs a - unat w" using full by (simp only: i) simp
        then show ?thesis using True by (simp add: r bn_abs_def bn_words_def)
      next
        case False
        then show ?thesis using full by (auto simp: r bn_abs_def bn_words_def)
      qed
      moreover have "bn_fits r" "\<not> bn_neg r" using v(1) f assms(3) by (auto simp: r bn_fits_def)
      ultimately show ?thesis using ge by (simp add: bn_ok_def bn_int_def)
    qed
  qed
qed

lemma BN_add_word_Some:
  assumes "BN_add_word alloc a w = (Some u, r)" "bn_ok a"
  shows "bn_ok r" "bn_int r = bn_int a + int (unat w)"
proof -
  have "bn_ok r \<and> bn_int r = bn_int a + int (unat w)"
  proof (cases "bn_neg a \<and> w \<noteq> 0")
    case False
    show ?thesis
    proof (cases "w = 0")
      case True
      then show ?thesis using assms by (simp add: BN_add_word.simps)
    next
      case w: False
      with False have n: "\<not> bn_neg a" by simp
      show ?thesis using BN_add_word_nonneg [OF assms n] n by (simp add: bn_ok_def bn_int_def)
    qed
  next
    case True
    have a0: "bn_abs a \<noteq> 0" "bn_fits a" using assms(2) True by (simp_all add: bn_ok_def)
    obtain r1 where s: "BN_sub_word alloc (a\<lparr>bn_neg := False\<rparr>) w = (Some u, r1)"
      and r: "r = (if \<not> BN_is_zero r1 then r1\<lparr>bn_neg := \<not> bn_neg r1\<rparr> else r1)"
      using assms(1) True a0 by (auto simp: BN_add_word.simps BN_is_zero_iff split: prod.splits)
    have "bn_ok (a\<lparr>bn_neg := False\<rparr>)" using a0 by (simp add: bn_ok_def)
    from BN_sub_word_nonneg [OF s this]
    have v: "bn_ok r1" "bn_int r1 = int (bn_abs a) - int (unat w)" by simp_all
    have a: "bn_int a = - int (bn_abs a)" using True by (simp add: bn_int_def)
    show ?thesis
    proof (cases "bn_abs r1 = 0")
      case True
      then have "bn_int r1 = 0" by (simp add: bn_int_def)
      moreover have "r = r1" using True v(1) by (simp add: r BN_is_zero_iff bn_ok_fits)
      ultimately show ?thesis using v a by simp
    next
      case False
      then have "r = r1\<lparr>bn_neg := \<not> bn_neg r1\<rparr>" using v(1) by (simp add: r BN_is_zero_iff bn_ok_fits)
      then have "bn_int r = - bn_int r1" "bn_ok r" using False v(1) by (simp_all add: bn_int_def bn_ok_def)
      then show ?thesis using v(2) a by simp
    qed
  qed
  then show "bn_ok r" "bn_int r = bn_int a + int (unat w)" by blast+
qed

lemma BN_sub_word_Some:
  assumes "BN_sub_word alloc a w = (Some u, r)" "bn_ok a"
  shows "bn_ok r" "bn_int r = bn_int a - int (unat w)"
proof -
  have "bn_ok r \<and> bn_int r = bn_int a - int (unat w)"
  proof (cases "bn_neg a \<and> w \<noteq> 0")
    case False
    show ?thesis
    proof (cases "w = 0")
      case True
      then show ?thesis using assms by (simp add: BN_sub_word.simps)
    next
      case w: False
      with False have n: "\<not> bn_neg a" by simp
      show ?thesis using BN_sub_word_nonneg [OF assms n] n by (simp add: bn_int_def)
    qed
  next
    case True
    have a0: "bn_abs a \<noteq> 0" "bn_fits a" using assms(2) True by (simp_all add: bn_ok_def)
    obtain r1 where s: "BN_add_word alloc (a\<lparr>bn_neg := False\<rparr>) w = (Some u, r1)" and r: "r = r1\<lparr>bn_neg := True\<rparr>"
      using assms(1) True a0 by (auto simp: BN_sub_word.simps BN_is_zero_iff split: prod.splits)
    have "bn_ok (a\<lparr>bn_neg := False\<rparr>)" using a0 by (simp add: bn_ok_def)
    from BN_add_word_nonneg [OF s this]
    have v: "bn_fits r1" "bn_abs r1 = bn_abs a + unat w" by simp_all
    have "bn_int r = - (int (bn_abs a) + int (unat w))" by (simp add: r bn_int_def v(2))
    moreover have "bn_int a = - int (bn_abs a)" using True by (simp add: bn_int_def)
    ultimately show ?thesis using v a0 by (simp add: r bn_ok_def)
  qed
  then show "bn_ok r" "bn_int r = bn_int a - int (unat w)" by blast+
qed

lemma BN_mul_word_Some:
  assumes "BN_mul_word alloc a w = (Some u, r)" "bn_ok a"
  shows "bn_ok r" "bn_int r = bn_int a * int (unat w)"
proof -
  have f: "bn_width a \<le> length (bn_d a)" using assms(2) by (simp add: bn_ok_def bn_fits_def)
  have "bn_ok r \<and> bn_int r = bn_int a * int (unat w)"
  proof (cases "bn_width a = 0 \<or> w = 0")
    case True
    then show ?thesis
    proof (cases "bn_width a = 0")
      case z: True
      then have "bn_abs a = 0" by (simp add: bn_abs_def bn_words_def)
      then have "bn_int a = 0" by (simp add: bn_int_def)
      then show ?thesis using z assms by (simp add: BN_mul_word_def)
    next
      case False
      then show ?thesis using True assms by (auto simp: BN_mul_word_def)
    qed
  next
    case False
    obtain ws c where ws: "bn_mul_words (bn_d a) (bn_width a) w = (ws, c)" by fastforce
    note v = bn_mul_words_value [OF ws f]
    have V: "bn_val ws + limb_base ^ bn_width a * unat c = bn_abs a * unat w"
      using v(1) by (simp add: bn_abs_def bn_words_def)
    have nz: "unat w \<noteq> 0" using False by (simp add: unat_eq_0)
    have code: "BN_mul_word alloc a w = (if c \<noteq> 0
        then attempt (bn_wexpand alloc (bn_write a ws) (bn_width a + 1)) (\<lambda>_ bn.
          (Some (), bn\<lparr>bn_d := (bn_d bn)[bn_width bn := c], bn_width := bn_width bn + 1\<rparr>))
        else (Some (), bn_write a ws))"
      using False by (simp add: BN_mul_word_def ws)
    have F: "bn_fits (bn_write a ws)" using v(2) f by (simp add: bn_fits_def)
    have W: "bn_words (bn_write a ws) = ws" using v(2) by (simp add: bn_words_def)
    have "bn_fits r \<and> bn_neg r = bn_neg a \<and> bn_abs r = bn_abs a * unat w"
    proof (cases "c = 0")
      case True
      then have "r = bn_write a ws" using assms(1) code by simp
      then show ?thesis using V True F W by (simp add: bn_abs_def)
    next
      case c: False
      obtain a1 where a1: "bn_wexpand alloc (bn_write a ws) (bn_width a + 1) = (Some (), a1)"
        and r: "r = a1\<lparr>bn_d := (bn_d a1)[bn_width a1 := c], bn_width := bn_width a1 + 1\<rparr>"
        using assms(1) c by (auto simp: code attempt_eq_Some)
      note e = bn_wexpand_Some [OF a1 F]
      have len: "bn_width a < length (bn_d a1)" "bn_width a1 = bn_width a" using e(2,4) by simp_all
      have "bn_words r = take (bn_width a) (bn_d a1) @ [c]"
        using len by (simp add: r bn_words_def take_Suc_conv_app_nth)
      also have "take (bn_width a) (bn_d a1) = ws" using e(3) W len(2) by (simp add: bn_words_def)
      finally have "bn_abs r = bn_abs a * unat w" using V v(2) by (simp add: bn_abs_def bn_val_append)
      then show ?thesis using e len by (simp add: r bn_fits_def)
    qed
    then show ?thesis using assms(2) nz by (simp add: bn_ok_def bn_int_def)
  qed
  then show "bn_ok r" "bn_int r = bn_int a * int (unat w)" by blast+
qed

end
