(* ===== verification/Bn_Modular.thy ===== *)
theory Bn_Modular
  imports Bn_Limbs
begin

text \<open>
  Reduction of a number below twice the modulus and the modular addition and subtraction built on it
  (div.c); shifts of an array of limbs (shift.c).
\<close>

subsection \<open>Modular addition and subtraction\<close>

definition bn_reduce_once :: "u64 list \<Rightarrow> u64 \<Rightarrow> u64 list \<Rightarrow> nat \<Rightarrow> u64 list \<times> u64" where
  "bn_reduce_once a carry m num =
     (let (r, borrow) = bn_sub_words a m num;
          carry = carry - borrow
      in (bn_select_words carry a r num, carry))"

definition bn_reduce_once_in_place :: "u64 list \<Rightarrow> u64 \<Rightarrow> u64 list \<Rightarrow> nat \<Rightarrow> u64 list \<times> u64" where
  "bn_reduce_once_in_place r carry m num =
     (let (tmp, borrow) = bn_sub_words r m num;
          carry = carry - borrow
      in (bn_select_words carry r tmp num, carry))"

definition bn_mod_sub_words :: "u64 list \<Rightarrow> u64 list \<Rightarrow> u64 list \<Rightarrow> nat \<Rightarrow> u64 list" where
  "bn_mod_sub_words a b m num =
     (let (r, borrow) = bn_sub_words a b num;
          (tmp, _) = bn_add_words r m num
      in bn_select_words (0 - borrow) tmp r num)"

definition bn_mod_add_words :: "u64 list \<Rightarrow> u64 list \<Rightarrow> u64 list \<Rightarrow> nat \<Rightarrow> u64 list" where
  "bn_mod_add_words a b m num =
     (let (r, carry) = bn_add_words a b num in fst (bn_reduce_once_in_place r carry m num))"

lemma bn_reduce_once_value:
  assumes "bn_reduce_once a carry m n = (r, c)" "n \<le> length a" "n \<le> length m"
    and "bn_val (take n a) + limb_base ^ n * unat carry < 2 * bn_val (take n m)"
  shows "bn_val r = (bn_val (take n a) + limb_base ^ n * unat carry) mod bn_val (take n m)"
    and "c = word_mask (bn_val (take n a) + limb_base ^ n * unat carry < bn_val (take n m))"
    and "length r = n"
proof -
  obtain t b where t: "bn_sub_words a m n = (t, b)" by (cases "bn_sub_words a m n")
  note v = bn_sub_words_value [OF t assms(2,3)] and w = bn_sub_words_borrow [OF t assms(2,3)]
  define A M P where "A = bn_val (take n a)" and "M = bn_val (take n m)" and "P = limb_base ^ n"
  have AM: "A < P" "M < P"
    using assms(2,3) unfolding A_def M_def P_def by (auto intro!: bn_val_less_width)
  have lt: "A + P * unat carry < 2 * M" using assms(4) by (simp only: A_def M_def P_def)
  have "P * unat carry < P * 2" using lt AM by linarith
  then have "unat carry \<le> 1" by simp
  then have carry: "carry = 0 \<or> carry = 1" by (rule bit_limb_cases)
  have b: "b = 0 \<or> b = 1" using bit_limb_cases [OF v(2)] .
  have bm: "0 - b = word_mask (A < M)" using w(1) by (simp only: A_def M_def)
  have t1: "A < M \<Longrightarrow> bn_val t = P + A - M" and t2: "M \<le> A \<Longrightarrow> bn_val t = A - M"
    using w(2,3) unfolding A_def M_def P_def by simp_all
  have c: "carry - b = word_mask (A + P * unat carry < M)"
  proof (cases "carry = 0")
    case True
    then show ?thesis using bm by simp
  next
    case False
    with carry have one: "carry = 1" by simp
    then have "A + P < 2 * M" using lt by simp
    with AM have "A < M" "\<not> A + P < M" by linarith+
    then show ?thesis using b bm one by auto
  qed
  have rc: "r = (if A + P * unat carry < M then take n a else t)" "c = word_mask (A + P * unat carry < M)"
    using assms(1-3) v(3) by (auto simp: bn_reduce_once_def t c bn_select_words_mask simp del: word_mask_simps)
  have "bn_val r = (A + P * unat carry) mod M"
  proof (cases "A + P * unat carry < M")
    case True
    then have "carry = 0" using carry AM by auto
    with True show ?thesis by (simp add: rc A_def)
  next
    case False
    then have "bn_val t = A + P * unat carry - M"
      using carry lt AM t1 t2 by (cases "A < M") auto
    moreover have "(A + P * unat carry) mod M = A + P * unat carry - M"
      using False lt by (simp add: le_mod_geq)
    ultimately show ?thesis using False by (simp add: rc)
  qed
  then show "bn_val r = (bn_val (take n a) + limb_base ^ n * unat carry) mod bn_val (take n m)"
    by (simp only: A_def M_def P_def)
  show "c = word_mask (bn_val (take n a) + limb_base ^ n * unat carry < bn_val (take n m))"
    using rc(2) by (simp only: A_def M_def P_def)
  show "length r = n"
    using rc(1) v(3) assms(2) by simp
qed

lemma bn_reduce_once_in_place_eq: "bn_reduce_once_in_place r c m n = bn_reduce_once r c m n"
  by (simp add: bn_reduce_once_in_place_def bn_reduce_once_def)

lemma bn_mod_add_words_value:
  assumes "n \<le> length a" "n \<le> length b" "n \<le> length m"
    and "bn_val (take n a) < bn_val (take n m)" "bn_val (take n b) < bn_val (take n m)"
  shows "bn_val (bn_mod_add_words a b m n) = (bn_val (take n a) + bn_val (take n b)) mod bn_val (take n m)"
    and "length (bn_mod_add_words a b m n) = n"
proof -
  obtain t c where t: "bn_add_words a b n = (t, c)" by (cases "bn_add_words a b n")
  note v = bn_add_words_value [OF t assms(1,2)]
  obtain r c' where r: "bn_reduce_once t c m n = (r, c')" by (cases "bn_reduce_once t c m n")
  have tt: "take n t = t" using v(3) by simp
  have "bn_val (take n t) + limb_base ^ n * unat c < 2 * bn_val (take n m)"
    unfolding tt using v(1) assms(4,5) by linarith
  note R = bn_reduce_once_value [OF r _ assms(3) this, unfolded tt, OF eq_refl [OF v(3) [symmetric]]]
  have "bn_mod_add_words a b m n = r"
    by (simp add: bn_mod_add_words_def t bn_reduce_once_in_place_eq r)
  then show "bn_val (bn_mod_add_words a b m n) = (bn_val (take n a) + bn_val (take n b)) mod bn_val (take n m)"
    "length (bn_mod_add_words a b m n) = n"
    using R(1,3) v(1) by simp_all
qed

lemma bn_mod_sub_words_value:
  assumes "n \<le> length a" "n \<le> length b" "n \<le> length m"
    and "bn_val (take n a) < bn_val (take n m)" "bn_val (take n b) < bn_val (take n m)"
  shows "int (bn_val (bn_mod_sub_words a b m n))
      = (int (bn_val (take n a)) - int (bn_val (take n b))) mod int (bn_val (take n m))"
    and "length (bn_mod_sub_words a b m n) = n"
proof -
  obtain t c where t: "bn_sub_words a b n = (t, c)" by (cases "bn_sub_words a b n")
  note v = bn_sub_words_value [OF t assms(1,2)] and w = bn_sub_words_borrow [OF t assms(1,2)]
  obtain u c' where u: "bn_add_words t m n = (u, c')" by (cases "bn_add_words t m n")
  have tt: "take n t = t" using v(3) by simp
  have n: "n \<le> length t" using v(3) by simp
  note U = bn_add_words_value [OF u n assms(3), unfolded tt]
  define A B M P where "A = bn_val (take n a)" and "B = bn_val (take n b)"
    and "M = bn_val (take n m)" and "P = limb_base ^ n"
  have L: "A < M" "B < M" "bn_val u < P" "M < P"
    using assms U(3) unfolding A_def B_def M_def P_def by (auto intro!: bn_val_less_width)
  have s: "bn_mod_sub_words a b m n = (if A < B then u else t)"
    using U(3) v(3) w(1) by (simp add: bn_mod_sub_words_def t u bn_select_words_mask A_def B_def del: diff_0 word_mask_simps)
  have U1: "bn_val u + P * unat c' = bn_val t + M" using U(1) by (simp only: P_def M_def)
  have "int (bn_val (if A < B then u else t)) = (int A - int B) mod int M"
  proof (cases "A < B")
    case True
    have "bn_val t = P + A - B" using w(2) True by (simp add: A_def B_def P_def)
    with U1 True L have e: "bn_val u + P * unat c' = P + (A + M - B)" by linarith
    have "unat c' = 1"
    proof (rule ccontr)
      assume "unat c' \<noteq> 1"
      with U(2) have "unat c' = 0" by linarith
      with e L True show False by simp
    qed
    with e have "int (bn_val u) = int A - int B + int M" using True L by simp
    moreover have "(int A - int B) mod int M = (int A - int B + int M) mod int M" by simp
    ultimately show ?thesis using True L by (simp del: mod_add_self2)
  next
    case False
    then have "bn_val t = A - B" using w(3) by (simp add: A_def B_def)
    then show ?thesis using False L by simp
  qed
  then show "int (bn_val (bn_mod_sub_words a b m n))
      = (int (bn_val (take n a)) - int (bn_val (take n b))) mod int (bn_val (take n m))"
    by (simp only: s A_def B_def M_def)
  show "length (bn_mod_sub_words a b m n) = n"
    unfolding s using U(3) v(3) by simp
qed

subsection \<open>Shifts\<close>

definition bn_rshift_words :: "u64 list \<Rightarrow> nat \<Rightarrow> nat \<Rightarrow> u64 list" where
  "bn_rshift_words a shift num =
     (let shift_bits = shift mod 64; shift_words = shift div 64
      in if shift_words \<ge> num then replicate num 0
         else (if shift_bits = 0 then take (num - shift_words) (drop shift_words a)
               else map (\<lambda>i. drop_bit shift_bits (a ! i) OR push_bit (64 - shift_bits) (a ! (i + 1))) [shift_words..<num - 1]
                 @ [drop_bit shift_bits (a ! (num - 1))])
              @ replicate shift_words 0)"

definition bn_rshift1_words :: "u64 list \<Rightarrow> nat \<Rightarrow> u64 list" where
  "bn_rshift1_words a num =
     (if num = 0 then []
      else map (\<lambda>i. drop_bit 1 (a ! i) OR push_bit 63 (a ! (i + 1))) [0..<num - 1] @ [drop_bit 1 (a ! (num - 1))])"

definition shift_right :: "nat \<Rightarrow> u64 list \<Rightarrow> u64 list" where
  "shift_right s ws = map (\<lambda>i. drop_bit s (ws ! i) OR push_bit (64 - s) (ws ! (i + 1))) [0..<length ws - 1]
     @ [drop_bit s (ws ! (length ws - 1))]"

lemma shift_right_Cons: "shift_right s (v # w # ws) = (drop_bit s v OR push_bit (64 - s) w) # shift_right s (w # ws)"
proof -
  have "[0..<length (v # w # ws) - 1] = 0 # map Suc [0..<length (w # ws) - 1]"
    by (simp add: upt_conv_Cons map_Suc_upt del: upt_Suc)
  then show ?thesis by (simp add: shift_right_def del: upt_Suc)
qed

lemma unat_shift_pair:
  assumes "s \<le> 64"
  shows "unat (drop_bit s (v :: u64) OR push_bit (64 - s) w) = unat v div 2 ^ s + 2 ^ (64 - s) * (unat w mod 2 ^ s)"
proof -
  have p: "push_bit (64 - s) w = push_bit (64 - s) (take_bit s w)"
    by (rule bit_word_eqI) (use assms in \<open>auto simp: bit_simps\<close>)
  have "unat v < 2 ^ (64 - s) * 2 ^ s"
    using unat_u64_less [of v] assms by (simp add: power_add [symmetric])
  then have d: "unat (drop_bit s v) < 2 ^ (64 - s)"
    unfolding unat_drop_bit_div by (simp add: div_less_iff_less_mult)
  have t: "unat (take_bit s w) = unat w mod 2 ^ s" by (simp add: unsigned_take_bit_eq take_bit_nat_def)
  have "(unat w mod 2 ^ s) * 2 ^ (64 - s) < 2 ^ s * 2 ^ (64 - s)" by simp
  also have "\<dots> = 2 ^ LENGTH(64)" using assms by (simp add: power_add [symmetric])
  finally have "unat (take_bit s w) * 2 ^ (64 - s) < 2 ^ LENGTH(64)" unfolding t .
  from unat_or_push_bit [OF d this] show ?thesis unfolding p unat_drop_bit_div t by simp
qed

lemma shift_right_value:
  assumes "ws \<noteq> []" "s \<le> 64"
  shows "bn_val (shift_right s ws) = bn_val ws div 2 ^ s" "length (shift_right s ws) = length ws"
proof -
  have "bn_val (shift_right s ws) = bn_val ws div 2 ^ s"
    using assms(1)
  proof (induction ws rule: induct_list012)
    case (2 w)
    then show ?case by (simp add: shift_right_def unat_drop_bit_div)
  next
    case (3 v w ws)
    define R where "R = bn_val (w # ws)"
    have L: "limb_base = 2 ^ s * 2 ^ (64 - s)"
      using assms(2) by (simp add: limb_base_def power_add [symmetric])
    have "R mod 2 ^ s = unat w mod 2 ^ s"
    proof -
      have "R = unat w + 2 ^ s * (2 ^ (64 - s) * bn_val ws)" by (simp add: R_def L)
      then show ?thesis by simp
    qed
    moreover have "2 ^ (64 - s) * R = limb_base * (R div 2 ^ s) + 2 ^ (64 - s) * (R mod 2 ^ s)"
    proof -
      have "2 ^ (64 - s) * R = 2 ^ (64 - s) * (2 ^ s * (R div 2 ^ s) + R mod 2 ^ s)" by simp
      then show ?thesis unfolding L by (simp only: distrib_left mult_ac)
    qed
    moreover have "bn_val (v # w # ws) div 2 ^ s = unat v div 2 ^ s + 2 ^ (64 - s) * R"
      by (simp add: R_def L mult.assoc del: bn_val.simps(2)) (simp add: L mult.assoc)
    moreover have "bn_val (shift_right s (w # ws)) = R div 2 ^ s"
      using 3 by (simp add: R_def)
    ultimately show ?case
      unfolding shift_right_Cons bn_val.simps(2) [of "drop_bit s v OR push_bit (64 - s) w"] unat_shift_pair [OF assms(2)]
      by simp
  qed simp
  then show "bn_val (shift_right s ws) = bn_val ws div 2 ^ s" .
  show "length (shift_right s ws) = length ws"
    using assms(1) by (cases ws) (simp_all add: shift_right_def)
qed

lemma bn_rshift1_words_value:
  assumes "n \<le> length a"
  shows "bn_val (bn_rshift1_words a n) = bn_val (take n a) div 2" "length (bn_rshift1_words a n) = n"
proof -
  have "bn_rshift1_words a n = (if n = 0 then [] else shift_right 1 (take n a))"
    using assms by (auto simp: bn_rshift1_words_def shift_right_def min_def intro!: map_cong)
  then show "bn_val (bn_rshift1_words a n) = bn_val (take n a) div 2" "length (bn_rshift1_words a n) = n"
    using assms shift_right_value [of "take n a" 1] by (cases "n = 0"; cases a; simp add: min_def)+
qed

lemma bn_rshift_words_value:
  assumes "n \<le> length a"
  shows "bn_val (bn_rshift_words a s n) = bn_val (take n a) div 2 ^ s" "length (bn_rshift_words a s n) = n"
proof -
  define b w where "b = s mod 64" and "w = s div 64"
  have s: "s = 64 * w + b" by (simp add: b_def w_def)
  have A: "bn_val (take n a) < limb_base ^ n" using assms by (auto intro!: bn_val_less_width)
  have "bn_val (bn_rshift_words a s n) = bn_val (take n a) div 2 ^ s \<and> length (bn_rshift_words a s n) = n"
  proof (cases "w \<ge> n")
    case True
    have "limb_base ^ n \<le> limb_base ^ w" using True by (intro power_increasing) simp_all
    also have "\<dots> = 2 ^ (64 * w)" by (rule limb_base_power)
    also have "\<dots> \<le> 2 ^ s" unfolding s by simp
    finally have "bn_val (take n a) div 2 ^ s = 0" using A by simp
    with True show ?thesis by (simp add: bn_rshift_words_def w_def [symmetric])
  next
    case False
    define x where "x = drop w (take n a)"
    have x: "x \<noteq> []" "length x = n - w" using False assms by (simp_all add: x_def)
    have "bn_rshift_words a s n = (if b = 0 then x else shift_right b x) @ replicate w 0"
    proof -
      have "take (n - w) (drop w a) = x" using False by (simp add: x_def take_drop)
      moreover have "map (\<lambda>i. drop_bit b (a ! i) OR push_bit (64 - b) (a ! (i + 1))) [w..<n - 1] @ [drop_bit b (a ! (n - 1))]
          = shift_right b x"
      proof -
        have "[w..<n - 1] = map (\<lambda>i. i + w) [0..<n - w - 1]"
          using False by (simp add: map_add_upt)
        moreover have "x ! i = a ! (w + i)" if "i < n - w" for i using that assms False by (simp add: x_def)
        ultimately show ?thesis
          using False by (auto simp: shift_right_def x(2) add.commute intro!: map_cong)
      qed
      ultimately show ?thesis using False
        by (simp add: bn_rshift_words_def b_def [symmetric] w_def [symmetric])
    qed
    moreover have "bn_val (if b = 0 then x else shift_right b x) = bn_val x div 2 ^ b"
      "length (if b = 0 then x else shift_right b x) = n - w"
      using shift_right_value [OF x(1), of b] x(2) by (simp_all add: b_def)
    moreover have "bn_val x = bn_val (take n a) div limb_base ^ w"
      unfolding x_def using False assms by (intro bn_val_drop) simp
    moreover have "2 ^ s = limb_base ^ w * (2 :: nat) ^ b" by (simp add: s limb_base_power power_add)
    ultimately show ?thesis using False by (simp add: bn_val_append div_mult2_eq)
  qed
  then show "bn_val (bn_rshift_words a s n) = bn_val (take n a) div 2 ^ s" "length (bn_rshift_words a s n) = n"
    by simp_all
qed

end
