(* ===== verification/Bn_Shift.thy ===== *)
theory Bn_Shift
  imports Bn_Compare Bn_Modular
begin

text \<open>
  Shifts and bits of a \<^verbatim>\<open>BIGNUM\<close> (shift.c).  A C \<^verbatim>\<open>int\<close> argument is an integer; it is an \<^verbatim>\<open>int\<close> of the
  caller, so that the number of words it stands for cannot overflow.
\<close>

subsection \<open>The code\<close>

text \<open>The loop of \<^verbatim>\<open>BN_lshift\<close> for a shift within words runs from the top word of \<open>f\<close> down.\<close>

fun lshift_loop :: "u64 list \<Rightarrow> u64 list \<Rightarrow> nat \<Rightarrow> nat \<Rightarrow> nat \<Rightarrow> u64 list" where
  "lshift_loop t f nw lb 0 = t"
| "lshift_loop t f nw lb (Suc i) =
     (let l = f ! i;
          t = t[nw + i + 1 := t ! (nw + i + 1) OR drop_bit (64 - lb) l];
          t = t[nw + i := push_bit lb l]
      in lshift_loop t f nw lb i)"

fun copy_down_loop :: "u64 list \<Rightarrow> u64 list \<Rightarrow> nat \<Rightarrow> nat \<Rightarrow> u64 list" where
  "copy_down_loop t f nw 0 = t"
| "copy_down_loop t f nw (Suc i) = copy_down_loop (t[nw + i := f ! i]) f nw i"

definition BN_lshift :: "alloc \<Rightarrow> bignum \<Rightarrow> bignum \<Rightarrow> int \<Rightarrow> unit bn_result" where
  "BN_lshift alloc r a n =
     (if n < 0 then (None, r)
      else let r = r\<lparr>bn_neg := bn_neg a\<rparr>; nw = nat n div 64
      in attempt (bn_wexpand alloc r (bn_width a + nw + 1)) (\<lambda>_ r.
           let lb = nat n mod 64;
               t = (bn_d r)[bn_width a + nw := 0];
               t = (if lb = 0 then copy_down_loop t (bn_d a) nw (bn_width a) else lshift_loop t (bn_d a) nw lb (bn_width a));
               t = replicate nw 0 @ drop nw t
           in (Some (), bn_set_minimal_width (r\<lparr>bn_d := t, bn_width := bn_width a + nw + 1\<rparr>))))"

fun lshift1_loop :: "u64 list \<Rightarrow> nat \<Rightarrow> u64 \<Rightarrow> u64 list \<times> u64" where
  "lshift1_loop a 0 c = ([], c)"
| "lshift1_loop a (Suc n) c =
     (let t = a ! 0; (r, c') = lshift1_loop (drop 1 a) n (drop_bit 63 t) in ((push_bit 1 t OR c) # r, c'))"

definition BN_lshift1 :: "alloc \<Rightarrow> bignum \<Rightarrow> bignum \<Rightarrow> unit bn_result" where
  "BN_lshift1 alloc r a =
     attempt (bn_wexpand alloc (r\<lparr>bn_neg := bn_neg a\<rparr>) (bn_width a + 1)) (\<lambda>_ r.
       let (ws, c) = lshift1_loop (bn_d a) (bn_width a) 0
       in if c \<noteq> 0 then (Some (), (bn_write r (ws @ [1]))\<lparr>bn_width := bn_width a + 1\<rparr>)
          else (Some (), (bn_write r ws)\<lparr>bn_width := bn_width a\<rparr>))"

definition BN_rshift :: "alloc \<Rightarrow> bignum \<Rightarrow> bignum \<Rightarrow> int \<Rightarrow> unit bn_result" where
  "BN_rshift alloc r a n =
     (if n < 0 then (None, r)
      else attempt (bn_wexpand alloc r (bn_width a)) (\<lambda>_ r.
        (Some (), bn_set_minimal_width
          ((bn_write r (bn_rshift_words (bn_d a) (nat n) (bn_width a)))\<lparr>bn_neg := bn_neg a, bn_width := bn_width a\<rparr>))))"

definition BN_rshift1 :: "alloc \<Rightarrow> bignum \<Rightarrow> bignum \<Rightarrow> unit bn_result" where
  "BN_rshift1 alloc r a =
     attempt (bn_wexpand alloc r (bn_width a)) (\<lambda>_ r.
       (Some (), bn_set_minimal_width
         ((bn_write r (bn_rshift1_words (bn_d a) (bn_width a)))\<lparr>bn_neg := bn_neg a, bn_width := bn_width a\<rparr>)))"

definition BN_set_bit :: "alloc \<Rightarrow> bignum \<Rightarrow> int \<Rightarrow> unit bn_result" where
  "BN_set_bit alloc a n =
     (if n < 0 then (None, a)
      else let i = nat n div 64; j = nat n mod 64
      in attempt
        (if bn_width a \<le> i
         then attempt (bn_wexpand alloc a (i + 1)) (\<lambda>_ a.
           (Some (), a\<lparr>bn_d := take (bn_width a) (bn_d a) @ replicate (i + 1 - bn_width a) 0 @ drop (i + 1) (bn_d a),
                      bn_width := i + 1\<rparr>))
         else (Some (), a))
        (\<lambda>_ a. (Some (), a\<lparr>bn_d := (bn_d a)[i := bn_d a ! i OR push_bit j 1]\<rparr>)))"

definition BN_clear_bit :: "bignum \<Rightarrow> int \<Rightarrow> unit bn_result" where
  "BN_clear_bit a n =
     (if n < 0 then (None, a)
      else let i = nat n div 64; j = nat n mod 64
      in if bn_width a \<le> i then (None, a)
         else (Some (), bn_set_minimal_width (a\<lparr>bn_d := (bn_d a)[i := bn_d a ! i AND NOT (push_bit j 1)]\<rparr>)))"

definition BN_is_bit_set :: "bignum \<Rightarrow> int \<Rightarrow> bool" where
  "BN_is_bit_set a n = (if n < 0 then False else bn_is_bit_set_words (bn_d a) (bn_width a) (nat n))"

definition BN_mask_bits :: "bignum \<Rightarrow> int \<Rightarrow> unit bn_result" where
  "BN_mask_bits a n =
     (if n < 0 then (None, a)
      else let w = nat n div 64; b = nat n mod 64
      in if w \<ge> bn_width a then (Some (), a)
         else let a = (if b = 0 then a\<lparr>bn_width := w\<rparr>
                else a\<lparr>bn_width := w + 1, bn_d := (bn_d a)[w := bn_d a ! w AND NOT (push_bit b (- 1))]\<rparr>)
         in (Some (), bn_set_minimal_width a))"

text \<open>One block of \<^verbatim>\<open>bn_count_low_zero_bits_word\<close>.\<close>

definition low_zero_block :: "nat \<Rightarrow> u64 \<times> nat \<Rightarrow> u64 \<times> nat" where
  "low_zero_block k = (\<lambda>(l, bits).
     let msk = constant_time_is_zero_w (push_bit (64 - k) l)
     in (constant_time_select_w msk (drop_bit k l) l, bits + unat (of_nat k AND msk)))"

definition bn_count_low_zero_bits_word :: "u64 \<Rightarrow> nat" where
  "bn_count_low_zero_bits_word l =
     (let (l, bits) = low_zero_block 2 (low_zero_block 4 (low_zero_block 8 (low_zero_block 16 (low_zero_block 32 (l, 0)))));
          msk = constant_time_is_zero_w (push_bit 63 l)
      in bits + unat (1 AND msk))"

definition BN_count_low_zero_bits :: "bignum \<Rightarrow> u64" where
  "BN_count_low_zero_bits bn =
     fst (foldl (\<lambda>(ret, saw_nonzero) i.
       let nonzero = NOT (constant_time_is_zero_w (bn_d bn ! i));
           first_nonzero = NOT saw_nonzero AND nonzero;
           saw_nonzero = saw_nonzero OR nonzero;
           bits = bn_count_low_zero_bits_word (bn_d bn ! i)
       in (ret OR (first_nonzero AND of_nat (i * 64 + bits)), saw_nonzero)) (0, 0) [0..<bn_width bn])"

subsection \<open>Left shifts\<close>

lemma unat_push_drop:
  assumes "s \<le> 64"
  shows "unat (push_bit s (w :: u64)) + limb_base * unat (drop_bit (64 - s) w) = 2 ^ s * unat w"
proof -
  have L: "limb_base = 2 ^ s * 2 ^ (64 - s)" using assms by (simp add: limb_base_def power_add [symmetric])
  have p: "push_bit s w = push_bit s (take_bit (64 - s) w)"
    by (rule bit_word_eqI) (use assms in \<open>auto simp: bit_simps\<close>)
  have t: "unat (take_bit (64 - s) w) = unat w mod 2 ^ (64 - s)"
    by (simp add: unsigned_take_bit_eq take_bit_nat_def)
  have "(unat w mod 2 ^ (64 - s)) * 2 ^ s < 2 ^ (64 - s) * 2 ^ s" by simp
  also have "\<dots> = 2 ^ LENGTH(64)" using assms by (simp add: power_add [symmetric])
  finally have "unat (push_bit s w) = (unat w mod 2 ^ (64 - s)) * 2 ^ s"
    unfolding p t [symmetric] by (rule unat_push_bit)
  then have "unat (push_bit s w) + limb_base * unat (drop_bit (64 - s) w)
      = 2 ^ s * (unat w mod 2 ^ (64 - s) + 2 ^ (64 - s) * (unat w div 2 ^ (64 - s)))"
    unfolding unat_drop_bit_div L by (simp only: distrib_left mult.assoc mult.commute [of "2 ^ s"])
  then show ?thesis by simp
qed

lemma unat_or_disjoint:
  assumes "2 ^ k dvd unat (x :: u64)" "unat y < 2 ^ k"
  shows "unat (x OR y) = unat x + unat y"
proof -
  obtain b where b: "unat x = 2 ^ k * b" using assms(1) by blast
  have "unat (x OR y) = unat y OR push_bit k b"
    by (simp add: unsigned_or_eq b or.commute push_bit_eq_mult mult.commute)
  also have "\<dots> = unat y + 2 ^ k * b" using assms(2) by (rule nat_or_push_bit)
  finally show ?thesis by (simp add: b)
qed

lemma push_bit_dvd: "2 ^ k dvd unat (push_bit k (w :: u64))"
proof (cases "k \<le> 64")
  case True
  have "unat (push_bit k w) + 2 ^ 64 * unat (drop_bit (64 - k) w) = 2 ^ k * unat w"
    using unat_push_drop [OF True, of w] by (simp add: limb_base_def)
  moreover have "(2 :: nat) ^ k dvd 2 ^ 64" using True by (rule le_imp_power_dvd)
  ultimately show ?thesis by (metis dvd_add_left_iff dvd_mult2 dvd_triv_left)
next
  case False
  then have "push_bit k w = 0" by (intro bit_word_eqI) (simp add: bit_simps)
  then show ?thesis by simp
qed

text \<open>
  The loop keeps the words above the position it has reached: the value of \<open>t\<close> from \<open>nw\<close> on is that of
  the words still to come with the rest of the number shifted.
\<close>

lemma lshift_loop_frame:
  "length (lshift_loop t f nw lb n) = length t"
  "i < nw \<or> nw + n < i \<Longrightarrow> lshift_loop t f nw lb n ! i = t ! i"
  by (induction n arbitrary: t) (auto simp: Let_def nth_list_update)

lemma lshift_loop_value:
  assumes "lb \<le> 64" "n \<le> length f" "nw + n < length t" "2 ^ lb dvd unat (t ! (nw + n))"
  shows "bn_val (take (nw + n + 1) (lshift_loop t f nw lb n)) = bn_val (take nw t)
      + limb_base ^ nw * (2 ^ lb * bn_val (take n f)) + limb_base ^ (nw + n) * unat (t ! (nw + n))"
  using assms(2-)
proof (induction n arbitrary: t)
  case 0
  then show ?case by (simp add: take_Suc_conv_app_nth bn_val_append)
next
  case (Suc n)
  define l where "l = f ! n"
  define t' where "t' = t[nw + n + 1 := t ! (nw + n + 1) OR drop_bit (64 - lb) l, nw + n := push_bit lb l]"
  have step: "lshift_loop t f nw lb (Suc n) = lshift_loop t' f nw lb n"
    using Suc.prems by (simp add: t'_def l_def Let_def)
  have t': "length t' = length t" "t' ! (nw + n) = push_bit lb l"
    "t' ! (nw + n + 1) = t ! (nw + n + 1) OR drop_bit (64 - lb) l" "take nw t' = take nw t"
    using Suc.prems by (simp_all add: t'_def)
  have IH: "bn_val (take (nw + n + 1) (lshift_loop t' f nw lb n)) = bn_val (take nw t)
      + limb_base ^ nw * (2 ^ lb * bn_val (take n f)) + limb_base ^ (nw + n) * unat (push_bit lb l)"
    using Suc.IH [of t'] Suc.prems by (simp add: t' push_bit_dvd)
  have "unat l < 2 ^ (64 - lb) * 2 ^ lb"
    using unat_u64_less [of l] assms(1) by (simp add: power_add [symmetric])
  then have "unat (drop_bit (64 - lb) l) < 2 ^ lb"
    unfolding unat_drop_bit_div by (simp add: div_less_iff_less_mult mult.commute)
  moreover have "2 ^ lb dvd unat (t ! (nw + n + 1))" using Suc.prems(3) by simp
  ultimately have or: "unat (t' ! (nw + n + 1)) = unat (t ! (nw + n + 1)) + unat (drop_bit (64 - lb) l)"
    unfolding t'(3) by (intro unat_or_disjoint)
  have top: "lshift_loop t' f nw lb n ! (nw + n + 1) = t' ! (nw + n + 1)"
    by (rule lshift_loop_frame(2)) simp
  have "bn_val (take (nw + Suc n + 1) (lshift_loop t f nw lb (Suc n)))
      = bn_val (take (nw + n + 1) (lshift_loop t' f nw lb n)) + limb_base ^ (nw + n + 1) * unat (t' ! (nw + n + 1))"
    unfolding step using Suc.prems(2) t'(1) top lshift_loop_frame(1) [of t' f nw lb n]
    by (simp add: take_Suc_conv_app_nth [of "Suc (nw + n)"] bn_val_append)
  also have "\<dots> = bn_val (take nw t) + limb_base ^ nw * (2 ^ lb * bn_val (take n f))
      + limb_base ^ (nw + n) * (unat (push_bit lb l) + limb_base * unat (drop_bit (64 - lb) l))
      + limb_base ^ (nw + n + 1) * unat (t ! (nw + n + 1))"
    unfolding IH or by (simp add: distrib_left)
  also have "\<dots> = bn_val (take nw t) + limb_base ^ nw * (2 ^ lb * bn_val (take (Suc n) f))
      + limb_base ^ (nw + Suc n) * unat (t ! (nw + Suc n))"
    unfolding unat_push_drop [OF assms(1)] using Suc.prems(1)
    by (simp add: take_Suc_conv_app_nth bn_val_append l_def power_add distrib_left)
  finally show ?case .
qed

lemma copy_down_loop_eq:
  "n \<le> length f \<Longrightarrow> nw + n \<le> length t \<Longrightarrow> copy_down_loop t f nw n = take nw t @ take n f @ drop (nw + n) t"
proof (induction n arbitrary: t)
  case 0
  then show ?case by simp
next
  case (Suc n)
  then show ?case
    by (simp add: take_Suc_conv_app_nth drop_update_swap upd_conv_take_nth_drop)
qed

lemma BN_lshift_Some:
  assumes "BN_lshift alloc r a n = (Some u, r')" "bn_fits r" "bn_ok a"
  shows "0 \<le> n" "bn_ok r'" "bn_int r' = bn_int a * 2 ^ nat n" "bn_minimal r'"
proof -
  show n: "0 \<le> n" using assms(1) by (auto simp: BN_lshift_def split: if_splits)
  define nw lb where "nw = nat n div 64" and "lb = nat n mod 64"
  have nn: "nat n = 64 * nw + lb" "lb < 64" by (simp_all add: nw_def lb_def)
  let ?w = "bn_width a"
  have f: "?w \<le> length (bn_d a)" using assms(3) by (simp add: bn_ok_def bn_fits_def)
  obtain r1 where r1: "bn_wexpand alloc (r\<lparr>bn_neg := bn_neg a\<rparr>) (?w + nw + 1) = (Some (), r1)"
    and r': "r' = bn_set_minimal_width (r1\<lparr>bn_d := replicate nw 0 @ drop nw
        (if lb = 0 then copy_down_loop ((bn_d r1)[?w + nw := 0]) (bn_d a) nw ?w
         else lshift_loop ((bn_d r1)[?w + nw := 0]) (bn_d a) nw lb ?w), bn_width := ?w + nw + 1\<rparr>)"
    using assms(1) n by (auto simp: BN_lshift_def Let_def attempt_eq_Some nw_def lb_def)
  have "bn_fits (r\<lparr>bn_neg := bn_neg a\<rparr>)" using assms(2) by simp
  note e = bn_wexpand_Some [OF r1 this]
  define t where "t = (bn_d r1)[?w + nw := 0]"
  have t: "?w + nw < length t" "t ! (nw + ?w) = 0" using e(2) by (simp_all add: t_def add.commute)
  define t' where "t' = (if lb = 0 then copy_down_loop t (bn_d a) nw ?w else lshift_loop t (bn_d a) nw lb ?w)"
  have V: "bn_val (take (nw + ?w + 1) t') = bn_val (take nw t) + limb_base ^ nw * (2 ^ lb * bn_abs a) \<and> length t' = length t
      \<and> take nw t' = take nw t"
  proof (cases "lb = 0")
    case True
    have "t' = take nw t @ take ?w (bn_d a) @ drop (nw + ?w) t"
      using True t f by (simp add: t'_def copy_down_loop_eq)
    moreover have "take 1 (drop (nw + ?w) t) = [0]" using t by (simp add: take_Suc hd_drop_conv_nth)
    ultimately show ?thesis
      using True t f by (simp add: bn_val_append bn_abs_def bn_words_def)
  next
    case False
    have "take nw t' = take nw t"
      using False t lshift_loop_frame [where t = t and f = "bn_d a" and nw = nw and lb = lb and n = ?w]
      by (intro nth_equalityI) (auto simp: t'_def)
    then show ?thesis
      using False lshift_loop_value [of lb ?w "bn_d a" nw t] nn(2) t f lshift_loop_frame(1) [of t "bn_d a" nw lb ?w]
      by (simp add: t'_def bn_abs_def bn_words_def add.commute)
  qed
  let ?r = "r1\<lparr>bn_d := replicate nw 0 @ drop nw t', bn_width := ?w + nw + 1\<rparr>"
  have fit: "bn_fits ?r" using V t by (simp add: bn_fits_def)
  have "bn_words ?r = replicate nw 0 @ drop nw (take (nw + ?w + 1) t')"
    using V t by (simp add: bn_words_def drop_take add.commute)
  then have "bn_abs ?r = limb_base ^ nw * bn_val (drop nw (take (nw + ?w + 1) t'))"
    by (simp add: bn_abs_def bn_val_append)
  moreover have "bn_val (take (nw + ?w + 1) t') = bn_val (take nw t) + limb_base ^ nw * bn_val (drop nw (take (nw + ?w + 1) t'))"
    using bn_val_take_drop [of nw "take (nw + ?w + 1) t'"] V t by (simp add: min_def)
  ultimately have A: "bn_abs ?r = bn_abs a * 2 ^ nat n"
    using V by (simp add: nn power_add limb_base_power ac_simps)
  have "bn_int ?r = bn_int a * 2 ^ nat n" using A e(5) by (simp add: bn_int_def)
  then show "bn_ok r'" "bn_int r' = bn_int a * 2 ^ nat n" "bn_minimal r'"
    using bn_set_minimal_width [OF fit] by (simp_all only: r' t_def t'_def)
qed

lemma lshift1_loop_value:
  assumes "lshift1_loop a n c = (r, c')" "n \<le> length a" "unat c \<le> 1"
  shows "bn_val r + limb_base ^ n * unat c' = 2 * bn_val (take n a) + unat c" "unat c' \<le> 1" "length r = n"
proof -
  have "bn_val r + limb_base ^ n * unat c' = 2 * bn_val (take n a) + unat c \<and> unat c' \<le> 1 \<and> length r = n"
    using assms
  proof (induction n arbitrary: a c r)
    case 0
    then show ?case by simp
  next
    case (Suc n)
    then obtain t b where a: "a = t # b" by (cases a) auto
    obtain r1 where r1: "lshift1_loop b n (drop_bit 63 t) = (r1, c')" and r: "r = (push_bit 1 t OR c) # r1"
      using Suc.prems(1) by (auto simp: a Let_def split: prod.splits)
    have d: "unat (drop_bit 63 t) \<le> 1"
      using unat_u64_less [of t] by (simp only: unat_drop_bit_div) (simp add: div_le_mono2 less_mult_imp_div_less Suc_leI less_Suc_eq_le [symmetric])
    have IH: "bn_val r1 + limb_base ^ n * unat c' = 2 * bn_val (take n b) + unat (drop_bit 63 t)" "unat c' \<le> 1" "length r1 = n"
      using Suc.IH [OF r1 _ d] Suc.prems(2) by (simp_all add: a)
    have "2 ^ 1 dvd unat (push_bit 1 t)" by (rule push_bit_dvd)
    then have or: "unat (push_bit 1 t OR c) = unat (push_bit 1 t) + unat c"
      using Suc.prems(3) by (intro unat_or_disjoint [of 1]) simp_all
    have p: "unat (push_bit 1 t) + limb_base * unat (drop_bit 63 t) = 2 * unat t"
      using unat_push_drop [of 1 t] by simp
    have "bn_val r + limb_base ^ Suc n * unat c' = unat (push_bit 1 t) + unat c + limb_base * (bn_val r1 + limb_base ^ n * unat c')"
      unfolding r bn_val.simps or by (simp add: distrib_left)
    also have "\<dots> = (unat (push_bit 1 t) + limb_base * unat (drop_bit 63 t)) + unat c + limb_base * (2 * bn_val (take n b))"
      unfolding IH(1) by (simp add: distrib_left)
    finally show ?case unfolding p using IH by (simp add: a r)
  qed
  then show "bn_val r + limb_base ^ n * unat c' = 2 * bn_val (take n a) + unat c" "unat c' \<le> 1" "length r = n" by blast+
qed

lemma BN_lshift1_Some:
  assumes "BN_lshift1 alloc r a = (Some u, r')" "bn_fits r" "bn_ok a"
  shows "bn_ok r'" "bn_int r' = 2 * bn_int a"
proof -
  obtain r1 where r1: "bn_wexpand alloc (r\<lparr>bn_neg := bn_neg a\<rparr>) (bn_width a + 1) = (Some (), r1)"
    using assms(1) by (auto simp: BN_lshift1_def attempt_eq_Some)
  obtain ws c where ws: "lshift1_loop (bn_d a) (bn_width a) 0 = (ws, c)" by fastforce
  have f: "bn_width a \<le> length (bn_d a)" using assms(3) by (simp add: bn_ok_def bn_fits_def)
  have v: "bn_val ws + limb_base ^ bn_width a * unat c = 2 * bn_abs a" "unat c \<le> 1" "length ws = bn_width a"
    using lshift1_loop_value [OF ws f] by (simp_all add: bn_abs_def bn_words_def)
  have r': "r' = (if c \<noteq> 0 then (bn_write r1 (ws @ [1]))\<lparr>bn_width := bn_width a + 1\<rparr> else (bn_write r1 ws)\<lparr>bn_width := bn_width a\<rparr>)"
    using assms(1) by (auto simp: BN_lshift1_def r1 [simplified] ws split: if_splits)
  have "bn_fits (r\<lparr>bn_neg := bn_neg a\<rparr>)" using assms(2) by simp
  note e = bn_wexpand_Some [OF r1 this]
  have n: "bn_neg r' = bn_neg a" using e(5) by (simp add: r')
  have c: "c = 0 \<or> c = 1" using bit_limb_cases [OF v(2)] .
  have "bn_fits r' \<and> bn_abs r' = 2 * bn_abs a"
    using c v(1,3) by (auto simp: r' bn_abs_def bn_val_append)
  then show "bn_ok r'" "bn_int r' = 2 * bn_int a"
    using n assms(3) by (auto simp: bn_ok_def bn_int_def)
qed

subsection \<open>Right shifts\<close>

lemma bn_set_minimal_write:
  assumes "length ws = w"
  shows "bn_ok (bn_set_minimal_width ((bn_write r ws)\<lparr>bn_neg := s, bn_width := w\<rparr>))"
    "bn_minimal (bn_set_minimal_width ((bn_write r ws)\<lparr>bn_neg := s, bn_width := w\<rparr>))"
    "bn_int (bn_set_minimal_width ((bn_write r ws)\<lparr>bn_neg := s, bn_width := w\<rparr>)) = (if s then - int (bn_val ws) else int (bn_val ws))"
proof -
  have f: "bn_fits ((bn_write r ws)\<lparr>bn_neg := s, bn_width := w\<rparr>)" using assms by simp
  have "bn_int ((bn_write r ws)\<lparr>bn_neg := s, bn_width := w\<rparr>) = (if s then - int (bn_val ws) else int (bn_val ws))"
    by (simp add: bn_int_def bn_abs_def assms)
  then show "bn_ok (bn_set_minimal_width ((bn_write r ws)\<lparr>bn_neg := s, bn_width := w\<rparr>))"
    "bn_minimal (bn_set_minimal_width ((bn_write r ws)\<lparr>bn_neg := s, bn_width := w\<rparr>))"
    "bn_int (bn_set_minimal_width ((bn_write r ws)\<lparr>bn_neg := s, bn_width := w\<rparr>)) = (if s then - int (bn_val ws) else int (bn_val ws))"
    using bn_set_minimal_width [OF f] by simp_all
qed

lemma BN_rshift_Some:
  assumes "BN_rshift alloc r a n = (Some u, r')" "bn_ok a"
  shows "0 \<le> n" "bn_ok r'" "bn_minimal r'" "bn_int r' = sgn (bn_int a) * int (bn_abs a div 2 ^ nat n)"
proof -
  have f: "bn_width a \<le> length (bn_d a)" using assms(2) by (simp add: bn_ok_def bn_fits_def)
  note v = bn_rshift_words_value [OF f, of "nat n"]
  show n: "0 \<le> n" using assms(1) by (auto simp: BN_rshift_def split: if_splits)
  obtain r1 where r': "r' = bn_set_minimal_width ((bn_write r1 (bn_rshift_words (bn_d a) (nat n) (bn_width a)))
      \<lparr>bn_neg := bn_neg a, bn_width := bn_width a\<rparr>)"
    using assms(1) n by (auto simp: BN_rshift_def attempt_eq_Some)
  have s: "(if bn_neg a then - int x else int x) = sgn (bn_int a) * int x" if "bn_abs a = 0 \<Longrightarrow> x = 0" for x
    using that by (auto simp: bn_int_def)
  show "bn_ok r'" "bn_minimal r'" unfolding r' by (rule bn_set_minimal_write [OF v(2)])+
  show "bn_int r' = sgn (bn_int a) * int (bn_abs a div 2 ^ nat n)"
    unfolding r' bn_set_minimal_write(3) [OF v(2)] v(1) bn_abs_def [unfolded bn_words_def, symmetric]
    by (rule s) simp
qed

lemma BN_rshift1_Some:
  assumes "BN_rshift1 alloc r a = (Some u, r')" "bn_ok a"
  shows "bn_ok r'" "bn_minimal r'" "bn_int r' = sgn (bn_int a) * int (bn_abs a div 2)"
proof -
  have f: "bn_width a \<le> length (bn_d a)" using assms(2) by (simp add: bn_ok_def bn_fits_def)
  note v = bn_rshift1_words_value [OF f]
  obtain r1 where r': "r' = bn_set_minimal_width ((bn_write r1 (bn_rshift1_words (bn_d a) (bn_width a)))
      \<lparr>bn_neg := bn_neg a, bn_width := bn_width a\<rparr>)"
    using assms(1) by (auto simp: BN_rshift1_def attempt_eq_Some)
  have s: "(if bn_neg a then - int x else int x) = sgn (bn_int a) * int x" if "bn_abs a = 0 \<Longrightarrow> x = 0" for x
    using that by (auto simp: bn_int_def)
  show "bn_ok r'" "bn_minimal r'" unfolding r' by (rule bn_set_minimal_write [OF v(2)])+
  show "bn_int r' = sgn (bn_int a) * int (bn_abs a div 2)"
    unfolding r' bn_set_minimal_write(3) [OF v(2)] v(1) bn_abs_def [unfolded bn_words_def, symmetric]
    by (rule s) simp
qed

end
