(* ===== verification/Bn_Bits.thy ===== *)
theory Bn_Bits
  imports Bn_Shift
begin

text \<open>
  Single bits of a \<^verbatim>\<open>BIGNUM\<close> (shift.c): the operations as bit operations on its absolute value.
\<close>

lemma bit_bn_val: "bit (bn_val ws) k \<longleftrightarrow> k div 64 < length ws \<and> bit (ws ! (k div 64)) (k mod 64)"
proof (cases "k div 64 < length ws")
  case True
  then have "k < 64 * length ws" by (simp add: div_less_iff_less_mult mult.commute)
  with True show ?thesis by (simp add: bn_val_bit)
next
  case False
  then have "64 * length ws \<le> k" by (simp add: not_less less_eq_div_iff_mult_less_eq mult.commute)
  then have p: "(2 :: nat) ^ (64 * length ws) \<le> 2 ^ k" by (intro power_increasing) simp_all
  have "bn_val ws < 2 ^ k"
    by (rule less_le_trans [OF _ p]) (use bn_val_less [of ws] in \<open>simp add: limb_base_power\<close>)
  then show ?thesis using False by (simp add: bit_iff_odd)
qed

lemma bit_bn_abs:
  "bn_fits bn \<Longrightarrow> bit (bn_abs bn) k \<longleftrightarrow> k div 64 < bn_width bn \<and> bit (bn_d bn ! (k div 64)) (k mod 64)"
  by (auto simp: bn_abs_def bit_bn_val bn_words_def bn_fits_def)

lemma BN_is_bit_set_iff: "bn_fits a \<Longrightarrow> 0 \<le> n \<Longrightarrow> BN_is_bit_set a n \<longleftrightarrow> bit (bn_abs a) (nat n)"
  by (simp add: BN_is_bit_set_def bn_is_bit_set_words_value bn_abs_def bn_words_def bn_fits_def)

lemma same_bit_index: "k div 64 = m div 64 \<and> k mod 64 = m mod 64 \<longleftrightarrow> k = (m :: nat)"
  by (metis div_mult_mod_eq)

lemma BN_set_bit_Some:
  assumes "BN_set_bit alloc a n = (Some u, r)" "bn_fits a"
  shows "0 \<le> n" "bn_fits r" "bn_abs r = bn_abs a OR 2 ^ nat n" "bn_neg r = bn_neg a"
proof -
  show n: "0 \<le> n" using assms(1) by (auto simp: BN_set_bit_def split: if_splits)
  define i j where "i = nat n div 64" and "j = nat n mod 64"
  obtain a1 where a1: "(if bn_width a \<le> i
         then attempt (bn_wexpand alloc a (i + 1)) (\<lambda>_ a.
           (Some (), a\<lparr>bn_d := take (bn_width a) (bn_d a) @ replicate (i + 1 - bn_width a) 0 @ drop (i + 1) (bn_d a),
                      bn_width := i + 1\<rparr>))
         else (Some (), a)) = (Some (), a1)"
    and r: "r = a1\<lparr>bn_d := (bn_d a1)[i := bn_d a1 ! i OR push_bit j 1]\<rparr>"
    using assms(1) n unfolding BN_set_bit_def i_def j_def by (auto simp: Let_def attempt_eq_Some)
  have A: "bn_fits a1 \<and> i < bn_width a1 \<and> bn_abs a1 = bn_abs a \<and> bn_neg a1 = bn_neg a"
  proof (cases "bn_width a \<le> i")
    case True
    then obtain b where b: "bn_wexpand alloc a (i + 1) = (Some (), b)"
      and a1': "a1 = b\<lparr>bn_d := take (bn_width b) (bn_d b) @ replicate (i + 1 - bn_width b) 0 @ drop (i + 1) (bn_d b),
                      bn_width := i + 1\<rparr>"
      using a1 by (auto simp: attempt_eq_Some)
    note e = bn_wexpand_Some [OF b assms(2)]
    have "bn_words a1 = bn_words b @ replicate (i + 1 - bn_width b) 0"
      using e(1,2,4) True by (simp add: a1' bn_words_def bn_fits_def)
    then show ?thesis using e True by (simp add: a1' bn_fits_def bn_abs_def bn_val_append)
  next
    case False
    then show ?thesis using a1 assms(2) by simp
  qed
  have "bn_fits r" "bn_neg r = bn_neg a" "bn_width r = bn_width a1"
    using A by (simp_all add: r bn_fits_def)
  moreover have "bn_abs r = bn_abs a OR 2 ^ nat n"
  proof (rule bit_eqI)
    fix k :: nat
    have f: "bn_width a1 \<le> length (bn_d a1)" using A by (simp add: bn_fits_def)
    have "bit (bn_abs r) k \<longleftrightarrow> k div 64 < bn_width a1 \<and> bit (bn_d r ! (k div 64)) (k mod 64)"
      using bit_bn_abs [of r k] calculation by simp
    also have "\<dots> \<longleftrightarrow> k div 64 < bn_width a1 \<and> (bit (bn_d a1 ! (k div 64)) (k mod 64) \<or> k div 64 = i \<and> k mod 64 = j)"
      using A f by (auto simp: r nth_list_update bit_simps i_def j_def)
    also have "\<dots> \<longleftrightarrow> bit (bn_abs a) k \<or> k = nat n"
      using A bit_bn_abs [of a1 k] same_bit_index [of k "nat n"] by (auto simp: i_def j_def)
    finally show "bit (bn_abs r) k \<longleftrightarrow> bit (bn_abs a OR 2 ^ nat n) k"
      by (auto simp: bit_simps)
  qed
  ultimately show "bn_fits r" "bn_abs r = bn_abs a OR 2 ^ nat n" "bn_neg r = bn_neg a" by simp_all
qed

lemma BN_clear_bit_Some:
  assumes "BN_clear_bit a n = (Some u, r)" "bn_fits a"
  shows "0 \<le> n" "bn_ok r" "bn_minimal r" "bn_abs r = unset_bit (nat n) (bn_abs a)" "bn_neg r \<longrightarrow> bn_neg a"
proof -
  show n: "0 \<le> n" using assms(1) by (auto simp: BN_clear_bit_def split: if_splits)
  define i j where "i = nat n div 64" and "j = nat n mod 64"
  define b where "b = a\<lparr>bn_d := (bn_d a)[i := bn_d a ! i AND NOT (push_bit j 1)]\<rparr>"
  have i: "i < bn_width a" and r: "r = bn_set_minimal_width b"
    using assms(1) n by (auto simp: BN_clear_bit_def i_def j_def b_def Let_def split: if_splits)
  have f: "bn_fits b" using assms(2) by (simp add: b_def bn_fits_def)
  have "bn_abs b = unset_bit (nat n) (bn_abs a)"
  proof (rule bit_eqI)
    fix k :: nat
    have "bit (bn_abs b) k \<longleftrightarrow> k div 64 < bn_width a \<and> bit (bn_d b ! (k div 64)) (k mod 64)"
      using bit_bn_abs [OF f, of k] by (simp add: b_def)
    also have "\<dots> \<longleftrightarrow> k div 64 < bn_width a \<and> bit (bn_d a ! (k div 64)) (k mod 64) \<and> \<not> (k div 64 = i \<and> k mod 64 = j)"
      using i assms(2) by (auto simp: b_def nth_list_update bit_simps bn_fits_def)
    also have "\<dots> \<longleftrightarrow> bit (bn_abs a) k \<and> k \<noteq> nat n"
      using bit_bn_abs [OF assms(2), of k] same_bit_index [of k "nat n"] by (auto simp: i_def j_def)
    finally show "bit (bn_abs b) k \<longleftrightarrow> bit (unset_bit (nat n) (bn_abs a)) k"
      by (auto simp: bit_simps)
  qed
  then show "bn_ok r" "bn_minimal r" "bn_abs r = unset_bit (nat n) (bn_abs a)" "bn_neg r \<longrightarrow> bn_neg a"
    using bn_set_minimal_width [OF f] by (simp_all add: r b_def)
qed

lemma BN_mask_bits_Some:
  assumes "BN_mask_bits a n = (Some u, r)" "bn_ok a"
  shows "0 \<le> n" "bn_ok r" "bn_abs r = bn_abs a mod 2 ^ nat n" "bn_neg r \<longrightarrow> bn_neg a"
proof -
  show n: "0 \<le> n" using assms(1) by (auto simp: BN_mask_bits_def split: if_splits)
  define w b where "w = nat n div 64" and "b = nat n mod 64"
  have nn: "nat n = 64 * w + b" "b < 64" by (simp_all add: w_def b_def)
  have f: "bn_width a \<le> length (bn_d a)" "bn_fits a" using assms(2) by (simp_all add: bn_ok_def bn_fits_def)
  have "bn_ok r \<and> bn_abs r = bn_abs a mod 2 ^ nat n \<and> (bn_neg r \<longrightarrow> bn_neg a)"
  proof (cases "w \<ge> bn_width a")
    case True
    then have "r = a" using assms(1) n by (simp add: BN_mask_bits_def w_def)
    moreover have "bn_abs a < 2 ^ nat n"
    proof (rule less_le_trans)
      show "bn_abs a < 2 ^ (64 * bn_width a)" using bn_abs_less [OF f(2)] by (simp add: limb_base_power)
      show "(2 :: nat) ^ (64 * bn_width a) \<le> 2 ^ nat n"
        unfolding nn using True by (intro power_increasing) simp_all
    qed
    ultimately show ?thesis using assms(2) by simp
  next
    case False
    define c where "c = (if b = 0 then a\<lparr>bn_width := w\<rparr>
                else a\<lparr>bn_width := w + 1, bn_d := (bn_d a)[w := bn_d a ! w AND NOT (push_bit b (- 1))]\<rparr>)"
    have r: "r = bn_set_minimal_width c" using assms(1) n False
      by (auto simp: BN_mask_bits_def w_def b_def c_def Let_def split: if_splits)
    have fc: "bn_fits c" using f(1) False by (auto simp: c_def bn_fits_def)
    have "bn_abs c = take_bit (nat n) (bn_abs a)"
    proof (rule bit_eqI)
      fix k :: nat
      have k: "k = 64 * (k div 64) + k mod 64" by simp
      have "bit (bn_abs c) k \<longleftrightarrow> k div 64 < bn_width c \<and> bit (bn_d c ! (k div 64)) (k mod 64)"
        by (rule bit_bn_abs [OF fc])
      also have "\<dots> \<longleftrightarrow> k div 64 < bn_width a \<and> bit (bn_d a ! (k div 64)) (k mod 64) \<and> (k div 64 < w \<or> k div 64 = w \<and> k mod 64 < b)"
        using False f(1) by (auto simp: c_def nth_list_update bit_simps less_Suc_eq)
      also have "(k div 64 < w \<or> k div 64 = w \<and> k mod 64 < b) \<longleftrightarrow> k < nat n"
        unfolding nn using nn(2) mod_less_divisor [of 64 k] k by linarith
      finally show "bit (bn_abs c) k \<longleftrightarrow> bit (take_bit (nat n) (bn_abs a)) k"
        using bit_bn_abs [OF f(2), of k] by (auto simp: bit_simps)
    qed
    then have "bn_abs c = bn_abs a mod 2 ^ nat n" by (simp add: take_bit_nat_def)
    moreover have "bn_neg c = bn_neg a" by (simp add: c_def)
    ultimately show ?thesis using bn_set_minimal_width [OF fc] by (simp add: r)
  qed
  then show "bn_ok r" "bn_abs r = bn_abs a mod 2 ^ nat n" "bn_neg r \<longrightarrow> bn_neg a" by blast+
qed

end
