(* ===== verification/Bn_Bin.thy ===== *)
theory Bn_Bin
  imports Bn_Bits Bn_Bytes
begin

text \<open>
  \<^verbatim>\<open>BIGNUM\<close>s as byte strings (bytes.c, and the MPI format of convert.c).  A \<^verbatim>\<open>NULL\<close> output is \<open>None\<close>, and
  then \<open>ok\<close> says whether a new number can be allocated.  A reader returns the number, or \<open>None\<close> where it
  returns \<^verbatim>\<open>NULL\<close>; it has not changed an output it was given in that case.
\<close>

definition BN_or_new :: "bool \<Rightarrow> bignum option \<Rightarrow> bignum option" where
  "BN_or_new ok ret = (case ret of None \<Rightarrow> BN_new ok | Some ret \<Rightarrow> Some ret)"

definition BN_bin2bn :: "bool \<Rightarrow> alloc \<Rightarrow> u8 list \<Rightarrow> bignum option \<Rightarrow> bignum option" where
  "BN_bin2bn ok alloc bs ret =
     (case BN_or_new ok ret of None \<Rightarrow> None
      | Some ret \<Rightarrow>
        if length bs = 0 then Some (ret\<lparr>bn_width := 0\<rparr>)
        else let num_words = (length bs - 1) div 8 + 1
        in case bn_wexpand alloc ret num_words of
             (None, _) \<Rightarrow> None
           | (Some _, ret) \<Rightarrow>
             (case bn_big_endian_to_words num_words bs (length bs) of
                None \<Rightarrow> None
              | Some ws \<Rightarrow> Some ((bn_write ret ws)\<lparr>bn_width := num_words, bn_neg := False\<rparr>)))"

text \<open>The bytes are copied over the limbs, of which the last one has been cleared.\<close>

definition le_bytes_to_words :: "u8 list \<Rightarrow> nat \<Rightarrow> u64 list" where
  "le_bytes_to_words bs num_words = map (\<lambda>i. bytes_limb (take 8 (drop (8 * i) bs))) [0..<num_words]"

definition BN_lebin2bn :: "bool \<Rightarrow> alloc \<Rightarrow> u8 list \<Rightarrow> bignum option \<Rightarrow> bignum option" where
  "BN_lebin2bn ok alloc bs ret =
     (case BN_or_new ok ret of None \<Rightarrow> None
      | Some ret \<Rightarrow>
        if length bs = 0 then Some (ret\<lparr>bn_width := 0, bn_neg := False\<rparr>)
        else let num_words = (length bs - 1) div 8 + 1
        in case bn_wexpand alloc ret num_words of
             (None, _) \<Rightarrow> None
           | (Some _, ret) \<Rightarrow>
             Some ((bn_write ret (le_bytes_to_words bs num_words))\<lparr>bn_width := num_words\<rparr>))"

definition BN_le2bn :: "bool \<Rightarrow> alloc \<Rightarrow> u8 list \<Rightarrow> bignum option \<Rightarrow> bignum option" where
  "BN_le2bn ok alloc bs ret = BN_lebin2bn ok alloc bs ret"

definition BN_bn2bin :: "bignum \<Rightarrow> u8 list option" where
  "BN_bn2bin bn = bn_words_to_big_endian (BN_num_bytes bn) (bn_d bn) (bn_width bn)"

definition BN_bn2le_padded :: "nat \<Rightarrow> bignum \<Rightarrow> u8 list option" where
  "BN_bn2le_padded len bn =
     (if \<not> fits_in_bytes (bn_d bn) (bn_width bn) len then None
      else let bytes = limb_bytes (bn_d bn);
               num_bytes = bn_width bn * 8;
               num_bytes = (if len < num_bytes then len else num_bytes)
           in Some (take num_bytes bytes @ replicate (len - num_bytes) 0))"

definition BN_bn2bin_padded :: "nat \<Rightarrow> bignum \<Rightarrow> u8 list option" where
  "BN_bn2bin_padded len bn =
     (if \<not> fits_in_bytes (bn_d bn) (bn_width bn) len then None
      else bn_words_to_big_endian len (bn_d bn) (bn_width bn))"

definition BN_bn2binpad :: "bignum \<Rightarrow> int \<Rightarrow> u8 list option" where
  "BN_bn2binpad bn len = (if len < 0 then None else BN_bn2bin_padded (nat len) bn)"

definition BN_bn2lebinpad :: "bignum \<Rightarrow> int \<Rightarrow> u8 list option" where
  "BN_bn2lebinpad bn len = (if len < 0 then None else BN_bn2le_padded (nat len) bn)"

text \<open>\<^verbatim>\<open>BN_bn2mpi\<close> with an output; with none it returns the length.\<close>

definition BN_bn2mpi :: "bignum \<Rightarrow> u8 list option" where
  "BN_bn2mpi bn =
     (let bits = BN_num_bits bn;
          bytes = (bits + 7) div 8;
          extend = (if bytes \<noteq> 0 \<and> bits mod 8 = 0 then 1 else 0);
          len = bytes + extend
      in if len \<ge> 2 ^ 32 then Some [0, 0, 0, 0]
         else case BN_bn2bin bn of None \<Rightarrow> None
         | Some out \<Rightarrow>
           let out = replicate extend 0 @ out
           in Some (be_bytes 4 len @ (if bn_neg bn \<and> len > 0 then out[0 := out ! 0 OR 0x80] else out)))"

definition BN_mpi2bn :: "bool \<Rightarrow> alloc \<Rightarrow> u8 list \<Rightarrow> bignum option \<Rightarrow> bignum option" where
  "BN_mpi2bn ok alloc bs out =
     (if length bs < 4 then None
      else let in_len = push_bit 24 (ucast (bs ! 0)) OR push_bit 16 (ucast (bs ! 1)) OR push_bit 8 (ucast (bs ! 2))
                 OR ucast (bs ! 3) :: u64
      in if unat in_len \<noteq> length bs - 4 then None
         else case BN_or_new ok out of None \<Rightarrow> None
         | Some out \<Rightarrow>
           if in_len = 0 then Some (BN_zero out)
           else let bs = drop 4 bs
           in case BN_bin2bn ok alloc bs (Some out) of None \<Rightarrow> None
              | Some out \<Rightarrow>
                let out = out\<lparr>bn_neg := bs ! 0 AND 0x80 \<noteq> 0\<rparr>
                in Some (if bn_neg out then snd (BN_clear_bit out (int (BN_num_bits out) - 1)) else out))"

subsection \<open>Reading\<close>

lemma BN_bin2bn_Some:
  assumes "BN_bin2bn ok alloc bs ret = Some r" "bs \<noteq> []"
  shows "bn_ok r" "bn_int r = int (be_val bs)"
proof -
  define n where "n = (length bs - 1) div 8 + 1"
  have n: "Suc ((length bs - Suc 0) div 8) = n" by (simp add: n_def)
  have le: "length bs \<le> 8 * n" using assms(2) unfolding n_def by (cases bs) auto
  obtain ws where ws: "bn_big_endian_to_words n bs (length bs) = Some ws" "length ws = n" "bn_val ws = be_val bs"
    using bn_big_endian_to_words_value [OF order_refl le] by auto
  obtain r1 where r: "r = (bn_write r1 ws)\<lparr>bn_width := n, bn_neg := False\<rparr>"
    using assms by (auto simp: BN_bin2bn_def n ws(1) Let_def split: option.splits prod.splits)
  show "bn_ok r" "bn_int r = int (be_val bs)"
    using ws(2,3) by (simp_all add: r bn_ok_def bn_int_def bn_abs_def)
qed

lemma BN_bin2bn_new:
  assumes "BN_bin2bn ok alloc bs None = Some r"
  shows "bn_ok r" "bn_int r = int (be_val bs)"
proof -
  have "bn_ok r \<and> bn_int r = int (be_val bs)"
  proof (cases "bs = []")
    case True
    then have "r = \<lparr>bn_d = [], bn_width = 0, bn_neg = False, bn_static = False\<rparr>"
      using assms by (auto simp: BN_bin2bn_def BN_or_new_def BN_new_def split: if_splits)
    then show ?thesis using True by (simp add: bn_ok_def bn_fits_def bn_int_def bn_abs_def bn_words_def)
  next
    case False
    then show ?thesis using BN_bin2bn_Some [OF assms] by simp
  qed
  then show "bn_ok r" "bn_int r = int (be_val bs)" by blast+
qed

lemma BN_bin2bn_room:
  assumes "room_for alloc r ((length bs - 1) div 8 + 1)"
  shows "\<exists>r'. BN_bin2bn ok alloc bs (Some r) = Some r'"
proof (cases "bs = []")
  case False
  then have le: "length bs \<le> 8 * ((length bs - 1) div 8 + 1)" by (cases bs) auto
  obtain ws where "bn_big_endian_to_words ((length bs - 1) div 8 + 1) bs (length bs) = Some ws"
    using bn_big_endian_to_words_value [OF order_refl le] by blast
  then show ?thesis
    using False assms by (auto simp: BN_bin2bn_def BN_or_new_def Let_def elim!: room_forE)
qed (simp add: BN_bin2bn_def BN_or_new_def)

lemma le_bytes_to_words_value:
  "length bs \<le> 8 * n \<Longrightarrow> bn_val (le_bytes_to_words bs n) = le_val bs"
proof (induction n arbitrary: bs)
  case 0
  then show ?case by (simp add: le_bytes_to_words_def)
next
  case (Suc n)
  have "le_bytes_to_words bs (Suc n) = bytes_limb (take 8 bs) # le_bytes_to_words (drop 8 bs) n"
  proof -
    have "[0..<Suc n] = 0 # map Suc [0..<n]" by (simp add: upt_conv_Cons map_Suc_upt del: upt_Suc)
    then show ?thesis by (simp add: le_bytes_to_words_def add.commute del: upt_Suc)
  qed
  moreover have "bn_val (le_bytes_to_words (drop 8 bs) n) = le_val (drop 8 bs)" using Suc by simp
  moreover have "le_val bs = le_val (take 8 bs) + limb_base * le_val (drop 8 bs)"
  proof (cases "length bs < 8")
    case False
    then show ?thesis using le_val_take [of 8 bs] by (simp add: limb_base_bytes [symmetric] del: power_numeral)
  qed simp
  ultimately show ?case by (simp add: unat_bytes_limb)
qed

lemma BN_lebin2bn_Some:
  assumes "BN_lebin2bn ok alloc bs ret = Some r" "\<And>b. ret = Some b \<Longrightarrow> \<not> bn_neg b \<and> bn_fits b"
  shows "bn_ok r" "bn_int r = int (le_val bs)"
proof -
  define n where "n = (length bs - 1) div 8 + 1"
  have n: "Suc ((length bs - Suc 0) div 8) = n" by (simp add: n_def)
  obtain b where b: "BN_or_new ok ret = Some b" using assms(1) by (auto simp: BN_lebin2bn_def split: option.splits)
  then have nb: "\<not> bn_neg b \<and> bn_fits b"
    using assms(2) by (auto simp: BN_or_new_def BN_new_def bn_fits_def split: option.splits if_splits)
  have "bn_ok r \<and> bn_int r = int (le_val bs)"
  proof (cases "bs = []")
    case True
    then have "r = b\<lparr>bn_width := 0, bn_neg := False\<rparr>" using assms(1) b by (simp add: BN_lebin2bn_def)
    then show ?thesis using True by (simp add: bn_ok_def bn_fits_def bn_int_def bn_abs_def bn_words_def)
  next
    case False
    then have le: "length bs \<le> 8 * n" unfolding n_def by (cases bs) auto
    obtain b1 where b1: "bn_wexpand alloc b n = (Some (), b1)"
      and r: "r = (bn_write b1 (le_bytes_to_words bs n))\<lparr>bn_width := n\<rparr>"
      using assms(1) b False by (auto simp: BN_lebin2bn_def n Let_def split: option.splits prod.splits)
    have "length (le_bytes_to_words bs n) = n" by (simp add: le_bytes_to_words_def)
    moreover have "\<not> bn_neg b1" using bn_wexpand_Some(5) [OF b1] nb by simp
    ultimately show ?thesis
      by (simp add: r bn_ok_def bn_int_def bn_abs_def le_bytes_to_words_value [OF le])
  qed
  then show "bn_ok r" "bn_int r = int (le_val bs)" by blast+
qed

subsection \<open>Writing\<close>

lemma fits_in_bytes_abs: "bn_fits bn \<Longrightarrow> fits_in_bytes (bn_d bn) (bn_width bn) n \<longleftrightarrow> bn_abs bn < 256 ^ n"
  by (simp add: fits_in_bytes_iff bn_fits_def bn_abs_def bn_words_def)

lemma BN_bn2bin_padded_value:
  "bn_fits bn \<Longrightarrow> BN_bn2bin_padded n bn = (if bn_abs bn < 256 ^ n then Some (be_bytes n (bn_abs bn)) else None)"
  using bn_words_to_big_endian_value [of "bn_width bn" "bn_d bn" n]
  by (auto simp: BN_bn2bin_padded_def fits_in_bytes_abs bn_fits_def bn_abs_def bn_words_def)

lemma BN_bn2bin_value: "bn_fits bn \<Longrightarrow> BN_bn2bin bn = Some (be_bytes (BN_num_bytes bn) (bn_abs bn))"
proof -
  assume f: "bn_fits bn"
  have "bn_abs bn < 256 ^ BN_num_bytes bn"
    using bytes_of_bits_le_iff [of "bn_abs bn" "BN_num_bytes bn"] BN_num_bytes_value [OF f] by simp
  then show ?thesis
    using bn_words_to_big_endian_value [of "bn_width bn" "bn_d bn" "BN_num_bytes bn"] f
    by (simp add: BN_bn2bin_def bn_fits_def bn_abs_def bn_words_def)
qed

lemma le_bytes_eqI: "length bs = k \<Longrightarrow> le_val bs = n \<Longrightarrow> le_bytes k n = bs"
  using le_bytes_le_val [of bs] by simp

lemma BN_bn2le_padded_value:
  assumes "bn_fits bn"
  shows "BN_bn2le_padded n bn = (if bn_abs bn < 256 ^ n then Some (le_bytes n (bn_abs bn)) else None)"
proof (cases "bn_abs bn < 256 ^ n")
  case True
  define k where "k = (if n < bn_width bn * 8 then n else bn_width bn * 8)"
  have f: "bn_width bn \<le> length (bn_d bn)" using assms by (simp add: bn_fits_def)
  define out where "out = take k (limb_bytes (bn_d bn)) @ replicate (n - k) 0"
  have "bn_words_to_big_endian n (bn_d bn) (bn_width bn) = Some (rev out)"
    using True assms by (simp add: bn_words_to_big_endian_def fits_in_bytes_abs out_def k_def Let_def)
  moreover have "bn_words_to_big_endian n (bn_d bn) (bn_width bn) = Some (be_bytes n (bn_abs bn))"
    using bn_words_to_big_endian_value [OF f, of n] True by (simp add: bn_abs_def bn_words_def)
  ultimately have "out = le_bytes n (bn_abs bn)" by (simp add: be_bytes_def)
  then show ?thesis
    using True assms by (simp add: BN_bn2le_padded_def fits_in_bytes_abs out_def k_def Let_def)
qed (use assms in \<open>simp add: BN_bn2le_padded_def fits_in_bytes_abs\<close>)

end
