(* ===== verification/Bn_Props.thy ===== *)
theory Bn_Props
  imports Bn_Mult Bn_Word_Arith Bn_Bin
begin

text \<open>
  What the operations on big numbers do, stated of the integers they stand for.  A number that is written to
  has only to lie within its array (\<open>bn_fits\<close>), and a number that is read has no negative zero (\<open>bn_ok\<close>).
\<close>

text \<open>Enough room for a result of the width of either operand or one more word.\<close>

definition sum_room :: "alloc \<Rightarrow> bignum \<Rightarrow> bignum \<Rightarrow> bignum \<Rightarrow> bool" where
  "sum_room alloc r a b \<longleftrightarrow> room_for alloc r (bn_width a) \<and> room_for alloc r (bn_width b)
     \<and> room_for alloc r (max (bn_width a) (bn_width b) + 1)"

lemma BN_add_room:
  assumes "bn_fits r" "bn_ok a" "bn_ok b" "sum_room alloc r a b"
  shows "\<exists>s. BN_add alloc r a b = (Some (), s)" "\<exists>s. BN_sub alloc r a b = (Some (), s)"
proof -
  have f: "bn_fits a" "bn_fits b" using assms by (simp_all add: bn_ok_def)
  note R = assms(4) [unfolded sum_room_def]
  obtain s where s: "BN_uadd alloc r a b = (Some (), s)" using BN_uadd_room R by blast
  obtain d where d: "BN_diff alloc r a b = (Some (), d)" using BN_diff_room [OF assms(1) f] R by blast
  obtain e where e: "BN_diff alloc r b a = (Some (), e)" using BN_diff_room [OF assms(1) f(2,1)] R by blast
  show "\<exists>s. BN_add alloc r a b = (Some (), s)" "\<exists>s. BN_sub alloc r a b = (Some (), s)"
    using s d e by (auto simp: BN_add_def BN_sub_def Let_def)
qed

text \<open>What an operation does when it succeeds, and what it means that it fails.\<close>

lemma outcome_case:
  "(\<And>s. res = (Some (), s) \<Longrightarrow> P s) \<Longrightarrow> (\<And>s. res = (None, s) \<Longrightarrow> Q) \<Longrightarrow>
    (case res of (Some _, s) \<Rightarrow> P s | (None, _) \<Rightarrow> Q)"
  by (cases res; cases "fst res") auto

lemma outcome_case':
  "(\<And>s. res = (Some (), s) \<Longrightarrow> P s) \<Longrightarrow> (\<And>s. res = (None, s) \<Longrightarrow> Q) \<Longrightarrow>
    (case res of (None, _) \<Rightarrow> Q | (Some _, s) \<Rightarrow> P s)"
  by (cases res; cases "fst res") auto

lemma pool_case:
  "(\<And>s c. res = ((Some (), s), c) \<Longrightarrow> P s c) \<Longrightarrow> (\<And>s c. res = ((None, s), c) \<Longrightarrow> Q) \<Longrightarrow>
    (case res of ((Some _, s), c) \<Rightarrow> P s c | ((None, _), _) \<Rightarrow> Q)"
  by (cases res; cases "fst res"; cases "fst (fst res)") auto

lemma option_case: "(\<And>x. res = Some x \<Longrightarrow> P x) \<Longrightarrow> (res = None \<Longrightarrow> Q) \<Longrightarrow> (case res of None \<Rightarrow> Q | Some x \<Rightarrow> P x)"
  by (cases res) auto

text \<open>Small numbers for the examples.\<close>

definition small :: "int \<Rightarrow> bignum" where
  "small n = \<lparr>bn_d = [of_int \<bar>n\<bar>, 0], bn_width = 2, bn_neg = n < 0, bn_static = False\<rparr>"

definition memory :: ctx_mem where
  "memory = \<lparr>frames_alloc = \<lambda>_. True, bignums_alloc = True, number_alloc = \<lambda>_. True, push_alloc = \<lambda>_. True\<rparr>"

definition fresh_ctx :: bn_ctx where
  "fresh_ctx = \<lparr>ctx_bignums = None, ctx_stack = BN_STACK_init, ctx_used = 0, ctx_error = False, ctx_defer_error = False\<rparr>"

lemma fresh_ctx_ok: "ctx_ok fresh_ctx"
  using BN_CTX_new_ok [of True fresh_ctx] by (simp add: BN_CTX_new_def fresh_ctx_def)

subsection \<open>Sums, differences, comparisons\<close>

text \<open>C1: \<open>BN_add\<close> and \<open>BN_sub\<close> compute the sum and the difference of the integers, whatever the signs and the
  widths: the result has no negative zero and minimal width, also when it is one of the operands, and the
  operations fail only for lack of memory.\<close>

theorem bignum_sum_difference:
  assumes "bn_fits r" "bn_ok a" "bn_ok b"
  shows "(case BN_add alloc r a b of
      (Some _, s) \<Rightarrow> bn_ok s \<and> bn_minimal s \<and> bn_int s = bn_int a + bn_int b
    | (None, _) \<Rightarrow> \<not> sum_room alloc r a b)
    \<and> (case BN_sub alloc r a b of
      (Some _, s) \<Rightarrow> bn_ok s \<and> bn_minimal s \<and> bn_int s = bn_int a - bn_int b
    | (None, _) \<Rightarrow> \<not> sum_room alloc r a b)"
  using BN_add_Some [OF _ assms, of alloc] BN_sub_Some [OF _ assms, of alloc] BN_add_room [OF assms, of alloc]
  by (intro conjI outcome_case) auto

theorem bignum_sum_difference_witness:
  "(case BN_add (\<lambda>_. True) (small 0) (small (- 7)) (small 5) of
      (Some _, s) \<Rightarrow> bn_ok s \<and> bn_minimal s \<and> bn_int s = bn_int (small (- 7)) + bn_int (small 5)
    | (None, _) \<Rightarrow> \<not> sum_room (\<lambda>_. True) (small 0) (small (- 7)) (small 5))
    \<and> (case BN_sub (\<lambda>_. True) (small 0) (small (- 7)) (small 5) of
      (Some _, s) \<Rightarrow> bn_ok s \<and> bn_minimal s \<and> bn_int s = bn_int (small (- 7)) - bn_int (small 5)
    | (None, _) \<Rightarrow> \<not> sum_room (\<lambda>_. True) (small 0) (small (- 7)) (small 5))"
  by (rule bignum_sum_difference) (simp_all add: small_def bn_ok_def bn_fits_def bn_abs_def bn_words_def)

text \<open>C2: The comparisons order big numbers as their integers: \<open>BN_cmp\<close> gives -1, 0 or 1, \<open>BN_cmp_word\<close> against a
  word, \<open>BN_ucmp\<close> for the absolute values, and \<open>BN_equal_consttime\<close> is equality of the integers, whatever
  the widths.\<close>

theorem bignum_order:
  assumes "bn_ok a" "bn_ok b"
  shows "sint (BN_cmp (Some a) (Some b)) = sgn (bn_int a - bn_int b)
    \<and> sint (BN_cmp_word a w) = sgn (bn_int a - int (unat w))
    \<and> sint (BN_ucmp a b) = sgn (\<bar>bn_int a\<bar> - \<bar>bn_int b\<bar>)
    \<and> (BN_equal_consttime a b \<longleftrightarrow> bn_int a = bn_int b)"
  using BN_cmp_value [OF assms] BN_cmp_word_value [OF assms(1), of w] BN_equal_consttime_iff [OF assms]
    BN_ucmp_value [OF assms [THEN bn_ok_fits]]
  by (auto simp: cmp_value_def bn_int_def sgn_if)

theorem bignum_order_witness:
  "sint (BN_cmp (Some (small (- 7))) (Some (small 5))) = sgn (bn_int (small (- 7)) - bn_int (small 5))
    \<and> sint (BN_cmp_word (small (- 7)) 9) = sgn (bn_int (small (- 7)) - int (unat (9 :: u64)))
    \<and> sint (BN_ucmp (small (- 7)) (small 5)) = sgn (\<bar>bn_int (small (- 7))\<bar> - \<bar>bn_int (small 5)\<bar>)
    \<and> (BN_equal_consttime (small (- 7)) (small 5) \<longleftrightarrow> bn_int (small (- 7)) = bn_int (small 5))"
  by (rule bignum_order) (simp_all add: small_def bn_ok_def bn_fits_def bn_abs_def bn_words_def)

subsection \<open>Products\<close>

text \<open>Enough memory for a product, and a result that may grow.\<close>

definition product_room :: "alloc \<Rightarrow> ctx_mem \<Rightarrow> bn_ctx \<Rightarrow> bignum \<Rightarrow> bignum \<Rightarrow> bignum \<Rightarrow> bool" where
  "product_room alloc mem ctx r a b \<longleftrightarrow> plenty alloc mem \<and> \<not> ctx_error (BN_CTX_start mem ctx) \<and> \<not> bn_static r
     \<and> 8 * bn_width a \<le> BN_MAX_WORDS \<and> 8 * bn_width b \<le> BN_MAX_WORDS"

text \<open>C3: \<open>BN_mul\<close> and \<open>BN_sqr\<close> give the product and the square of the integers, of minimal width and without a
  negative zero, whichever of the routines made it and whether or not it replaces an operand, and leave the pool
  of scratch numbers as before the call, the numbers in use by the callers unchanged; they fail only for lack of
  memory.\<close>

theorem bignum_product:
  assumes "bn_fits r" "bn_fits a" "bn_fits b" "bn_width a < 2 ^ 31" "bn_width b < 2 ^ 31" "ctx_ok ctx"
  shows "(case BN_mul alloc mem same r a b ctx of
      ((Some _, p), ctx') \<Rightarrow> bn_ok p \<and> bn_minimal p \<and> bn_int p = bn_int a * bn_int b \<and> ctx_same ctx ctx'
    | ((None, _), _) \<Rightarrow> \<not> product_room alloc mem ctx r a b)
    \<and> (case BN_sqr alloc mem same r a ctx of
      ((Some _, p), ctx') \<Rightarrow> bn_ok p \<and> bn_minimal p \<and> bn_int p = bn_int a ^ 2 \<and> ctx_same ctx ctx'
    | ((None, _), _) \<Rightarrow> \<not> product_room alloc mem ctx r a b)"
proof (rule conjI)
  show "case BN_mul alloc mem same r a b ctx of
      ((Some _, p), ctx') \<Rightarrow> bn_ok p \<and> bn_minimal p \<and> bn_int p = bn_int a * bn_int b \<and> ctx_same ctx ctx'
    | ((None, _), _) \<Rightarrow> \<not> product_room alloc mem ctx r a b"
  proof (rule pool_case)
    fix p c assume "BN_mul alloc mem same r a b ctx = ((Some (), p), c)"
    from BN_mul_Some [OF this assms] show "bn_ok p \<and> bn_minimal p \<and> bn_int p = bn_int a * bn_int b \<and> ctx_same ctx c" by blast
  next
    fix p c assume "BN_mul alloc mem same r a b ctx = ((None, p), c)"
    then show "\<not> product_room alloc mem ctx r a b"
      using BN_mul_room [of alloc mem a b r ctx same] assms by (auto simp: product_room_def)
  qed
  show "case BN_sqr alloc mem same r a ctx of
      ((Some _, p), ctx') \<Rightarrow> bn_ok p \<and> bn_minimal p \<and> bn_int p = bn_int a ^ 2 \<and> ctx_same ctx ctx'
    | ((None, _), _) \<Rightarrow> \<not> product_room alloc mem ctx r a b"
  proof (rule pool_case)
    fix p c assume "BN_sqr alloc mem same r a ctx = ((Some (), p), c)"
    from BN_sqr_Some [OF this assms(1,2,4,6)] show "bn_ok p \<and> bn_minimal p \<and> bn_int p = bn_int a ^ 2 \<and> ctx_same ctx c" by blast
  next
    fix p c assume "BN_sqr alloc mem same r a ctx = ((None, p), c)"
    then show "\<not> product_room alloc mem ctx r a b"
      using BN_sqr_room [of alloc mem a r ctx same] assms by (auto simp: product_room_def)
  qed
qed

theorem bignum_product_witness:
  "(case BN_mul (\<lambda>_. True) memory True (small (- 7)) (small (- 7)) (small 5) fresh_ctx of
      ((Some _, p), ctx') \<Rightarrow> bn_ok p \<and> bn_minimal p \<and> bn_int p = bn_int (small (- 7)) * bn_int (small 5) \<and> ctx_same fresh_ctx ctx'
    | ((None, _), _) \<Rightarrow> \<not> product_room (\<lambda>_. True) memory fresh_ctx (small (- 7)) (small (- 7)) (small 5))
    \<and> (case BN_sqr (\<lambda>_. True) memory True (small (- 7)) (small (- 7)) fresh_ctx of
      ((Some _, p), ctx') \<Rightarrow> bn_ok p \<and> bn_minimal p \<and> bn_int p = bn_int (small (- 7)) ^ 2 \<and> ctx_same fresh_ctx ctx'
    | ((None, _), _) \<Rightarrow> \<not> product_room (\<lambda>_. True) memory fresh_ctx (small (- 7)) (small (- 7)) (small 5))
    \<and> product_room (\<lambda>_. True) memory fresh_ctx (small (- 7)) (small (- 7)) (small 5)"
proof -
  have "bn_fits (small n)" "bn_width (small n) < 2 ^ 31" for n by (simp_all add: small_def bn_fits_def)
  note P = bignum_product [OF this(1) [of "- 7"] this(1) [of "- 7"] this(1) [of 5] this(2) this(2) fresh_ctx_ok, of "\<lambda>_. True" memory True]
  have "product_room (\<lambda>_. True) memory fresh_ctx (small (- 7)) (small (- 7)) (small 5)"
    by (simp add: small_def product_room_def plenty_def memory_def BN_MAX_WORDS_def BN_CTX_start_def
        fresh_ctx_def BN_STACK_push_def BN_STACK_init_def BN_CTX_START_FRAMES_def)
  with P show ?thesis by (simp only: simp_thms)
qed

text \<open>C4: Karatsuba's recursion, on operands whose width is a power of two less up to eight words, and its version
  for operands that are longer by less than that power, give the words of the schoolbook product, with zero
  words up to the width of the result.\<close>

theorem karatsuba_is_schoolbook:
  assumes "- 8 \<le> dna" "dna \<le> 0" "- 8 \<le> dnb" "dnb \<le> 0" "0 \<le> 2 ^ k + dna" "0 \<le> 2 ^ k + dnb"
    and "length a = nat (2 ^ k + dna)" "length b = nat (2 ^ k + dnb)"
    and "3 \<le> j" "tna < 2 ^ j" "tnb < 2 ^ j" "tna \<le> tnb + 1" "tnb \<le> tna + 1"
    and "length a' = 2 ^ j + tna" "length b' = 2 ^ j + tnb"
  shows "bn_mul_recursive a b (2 ^ k) dna dnb
      = bn_mul_normal a (length a) b (length b) @ replicate (2 * 2 ^ k - length a - length b) 0
    \<and> bn_mul_part_recursive old a' b' (2 ^ j) tna tnb
      = bn_mul_normal a' (length a') b' (length b') @ replicate (4 * 2 ^ j - length a' - length b') 0"
proof -
  have v: "bn_val (bn_mul_normal x (length x) y (length y) @ replicate n 0) = bn_val x * bn_val y"
    "length (bn_mul_normal x (length x) y (length y) @ replicate n 0) = length x + length y + n" for x y n
    using bn_mul_normal_value [of "length x" x "length y" y] by (simp_all add: bn_val_append)
  have K: "bn_val (bn_mul_recursive a b (2 ^ k) dna dnb) = bn_val a * bn_val b \<and> length (bn_mul_recursive a b (2 ^ k) dna dnb) = 2 * 2 ^ k"
    by (rule bn_mul_recursive_value) (use assms in auto)
  have "length a + length b \<le> 2 * 2 ^ k" using assms(1-8) by (simp add: nat_le_iff nat_add_distrib [symmetric])
  then have 1: "bn_mul_recursive a b (2 ^ k) dna dnb
      = bn_mul_normal a (length a) b (length b) @ replicate (2 * 2 ^ k - length a - length b) 0"
    using K v [of a b "2 * 2 ^ k - length a - length b"] by (intro bn_val_inject [THEN iffD1]) simp_all
  have "(2 :: nat) ^ 3 \<le> 2 ^ j" using assms(9) by (intro power_increasing) auto
  then have P: "bn_val (bn_mul_part_recursive old a' b' (2 ^ j) tna tnb) = bn_val a' * bn_val b'
    \<and> length (bn_mul_part_recursive old a' b' (2 ^ j) tna tnb) = 4 * 2 ^ j"
    by (intro bn_mul_part_recursive_value) (use assms in auto)
  have "length a' + length b' \<le> 4 * 2 ^ j" using assms(10,11,14,15) by simp
  then have 2: "bn_mul_part_recursive old a' b' (2 ^ j) tna tnb
      = bn_mul_normal a' (length a') b' (length b') @ replicate (4 * 2 ^ j - length a' - length b') 0"
    using P v [of a' b' "4 * 2 ^ j - length a' - length b'"] by (intro bn_val_inject [THEN iffD1]) simp_all
  show ?thesis using 1 2 by (rule conjI)
qed

theorem karatsuba_is_schoolbook_witness:
  "bn_mul_recursive (replicate 15 3) (replicate 16 5) (2 ^ 4) (- 1) 0
      = bn_mul_normal (replicate 15 3) (length (replicate 15 (3 :: u64))) (replicate 16 5) (length (replicate 16 (5 :: u64)))
        @ replicate (2 * 2 ^ 4 - length (replicate 15 (3 :: u64)) - length (replicate 16 (5 :: u64))) 0
    \<and> bn_mul_part_recursive [] (replicate 9 3) (replicate 8 5) (2 ^ 3) 1 0
      = bn_mul_normal (replicate 9 3) (length (replicate 9 (3 :: u64))) (replicate 8 5) (length (replicate 8 (5 :: u64)))
        @ replicate (4 * 2 ^ 3 - length (replicate 9 (3 :: u64)) - length (replicate 8 (5 :: u64))) 0"
  by (rule karatsuba_is_schoolbook) simp_all

text \<open>C5: The unrolled routines give the words of the loops: \<open>bn_mul_comba4\<close> and \<open>bn_mul_comba8\<close> those of
  \<open>bn_mul_normal\<close>, \<open>bn_sqr_comba4\<close>, \<open>bn_sqr_comba8\<close>, \<open>bn_sqr_normal\<close> and \<open>bn_sqr_recursive\<close> those of the product
  of an operand with itself.\<close>

theorem comba_is_schoolbook:
  assumes "length a = 4" "length b = 4" "length c = 8" "length d = 8" "length e = 2 ^ k"
  shows "bn_mul_comba4 a b = bn_mul_normal a 4 b 4 \<and> bn_mul_comba8 c d = bn_mul_normal c 8 d 8
    \<and> bn_sqr_comba4 a = bn_mul_normal a 4 a 4 \<and> bn_sqr_comba8 c = bn_mul_normal c 8 c 8
    \<and> bn_sqr_normal e (2 ^ k) = bn_mul_normal e (2 ^ k) e (2 ^ k) \<and> bn_sqr_recursive e (2 ^ k) = bn_mul_normal e (2 ^ k) e (2 ^ k)"
  using bn_mul_comba4_value [of a b] bn_mul_comba8_value [of c d] bn_sqr_comba4_value [of a] bn_sqr_comba8_value [of c]
    bn_sqr_normal_value [of "2 ^ k" e] bn_sqr_recursive_value [of "2 ^ k" e] bn_mul_normal_value [of 4 a 4 b]
    bn_mul_normal_value [of 4 a 4 a] bn_mul_normal_value [of 8 c 8 c] bn_mul_normal_value [of 8 c 8 d]
    bn_mul_normal_value [of "2 ^ k" e "2 ^ k" e] assms
  by (intro conjI; intro bn_val_inject [THEN iffD1]) (simp_all add: power2_eq_square)

theorem comba_is_schoolbook_witness:
  "bn_mul_comba4 [1, 2, 3, 4] [5, 6, 7, - 1] = bn_mul_normal [1, 2, 3, 4] 4 [5, 6, 7, - 1] 4
    \<and> bn_mul_comba8 (replicate 8 1) (replicate 8 2) = bn_mul_normal (replicate 8 1) 8 (replicate 8 2) 8
    \<and> bn_sqr_comba4 [1, 2, 3, 4] = bn_mul_normal [1, 2, 3, 4] 4 [1, 2, 3, 4] 4
    \<and> bn_sqr_comba8 (replicate 8 1) = bn_mul_normal (replicate 8 1) 8 (replicate 8 1) 8
    \<and> bn_sqr_normal [7, 9] (2 ^ 1) = bn_mul_normal [7, 9] (2 ^ 1) [7, 9] (2 ^ 1)
    \<and> bn_sqr_recursive [7, 9] (2 ^ 1) = bn_mul_normal [7, 9] (2 ^ 1) [7, 9] (2 ^ 1)"
  by (rule comba_is_schoolbook) simp_all

subsection \<open>Shifts and bits\<close>

text \<open>C6: \<open>BN_lshift\<close> multiplies the integer by a power of two and \<open>BN_rshift\<close> divides its absolute value by one,
  rounding down and keeping the sign of what is not zero; both refuse negative counts and give results of
  minimal width. \<open>BN_num_bits\<close> is the number of binary digits, and \<open>BN_is_bit_set\<close> reads one of them.\<close>

theorem bignum_shifts:
  assumes "bn_fits r" "bn_ok a"
  shows "(case BN_lshift alloc r a n of (None, _) \<Rightarrow> n < 0 \<or> \<not> room_for alloc r (bn_width a + nat n div 64 + 1)
      | (Some _, s) \<Rightarrow> 0 \<le> n \<and> bn_ok s \<and> bn_minimal s \<and> bn_int s = bn_int a * 2 ^ nat n)
    \<and> (case BN_rshift alloc r a n of (None, _) \<Rightarrow> n < 0 \<or> \<not> room_for alloc r (bn_width a)
      | (Some _, s) \<Rightarrow> 0 \<le> n \<and> bn_ok s \<and> bn_minimal s \<and> bn_int s = sgn (bn_int a) * (\<bar>bn_int a\<bar> div 2 ^ nat n))
    \<and> (BN_num_bits a \<le> k \<longleftrightarrow> \<bar>bn_int a\<bar> < 2 ^ k)
    \<and> (BN_is_bit_set a n \<longleftrightarrow> 0 \<le> n \<and> odd (\<bar>bn_int a\<bar> div 2 ^ nat n))"
proof -
  have f: "bn_fits a" using assms(2) by (rule bn_ok_fits)
  have ab: "\<bar>bn_int a\<bar> = int (bn_abs a)" by (simp add: bn_int_def)
  have room: "room_for alloc (r\<lparr>bn_neg := s\<rparr>) m = room_for alloc r m" for s m by (simp add: room_for_def)
  have "n < 0 \<or> \<not> room_for alloc r (bn_width a + nat n div 64 + 1)" if "BN_lshift alloc r a n = (None, s)" for s
    using that by (auto simp: BN_lshift_def Let_def room [of "bn_neg a", symmetric] elim!: room_forE)
  then have "case BN_lshift alloc r a n of (None, _) \<Rightarrow> n < 0 \<or> \<not> room_for alloc r (bn_width a + nat n div 64 + 1)
      | (Some _, s) \<Rightarrow> 0 \<le> n \<and> bn_ok s \<and> bn_minimal s \<and> bn_int s = bn_int a * 2 ^ nat n"
    using BN_lshift_Some [OF _ assms] by (intro outcome_case') blast+
  moreover have "n < 0 \<or> \<not> room_for alloc r (bn_width a)" if "BN_rshift alloc r a n = (None, s)" for s
    using that by (auto simp: BN_rshift_def elim!: room_forE)
  then have "case BN_rshift alloc r a n of (None, _) \<Rightarrow> n < 0 \<or> \<not> room_for alloc r (bn_width a)
      | (Some _, s) \<Rightarrow> 0 \<le> n \<and> bn_ok s \<and> bn_minimal s \<and> bn_int s = sgn (bn_int a) * (\<bar>bn_int a\<bar> div 2 ^ nat n)"
    using BN_rshift_Some [OF _ assms(2)] by (intro outcome_case') (auto simp: ab zdiv_int)
  moreover have "BN_num_bits a \<le> k \<longleftrightarrow> \<bar>bn_int a\<bar> < 2 ^ k"
    unfolding BN_num_bits_value [OF f] bit_count_le_iff ab by (metis of_nat_less_iff of_nat_numeral of_nat_power)
  moreover have "BN_is_bit_set a n \<longleftrightarrow> 0 \<le> n \<and> odd (\<bar>bn_int a\<bar> div 2 ^ nat n)"
  proof (cases "0 \<le> n")
    case True
    have "odd (int (bn_abs a) div 2 ^ nat n) = odd (int (bn_abs a div 2 ^ nat n))" by (simp add: zdiv_int)
    then show ?thesis using BN_is_bit_set_iff [OF f True] True by (simp only: ab bit_iff_odd even_of_nat simp_thms)
  qed (simp add: BN_is_bit_set_def)
  ultimately show ?thesis by blast
qed

theorem bignum_shifts_witness:
  "(case BN_lshift (\<lambda>_. True) (small 0) (small (- 7)) 65 of (None, _) \<Rightarrow> (65 :: int) < 0 \<or> \<not> room_for (\<lambda>_. True) (small 0) (bn_width (small (- 7)) + nat 65 div 64 + 1)
      | (Some _, s) \<Rightarrow> (0 :: int) \<le> 65 \<and> bn_ok s \<and> bn_minimal s \<and> bn_int s = bn_int (small (- 7)) * 2 ^ nat 65)
    \<and> (case BN_rshift (\<lambda>_. True) (small 0) (small (- 7)) 65 of (None, _) \<Rightarrow> (65 :: int) < 0 \<or> \<not> room_for (\<lambda>_. True) (small 0) (bn_width (small (- 7)))
      | (Some _, s) \<Rightarrow> (0 :: int) \<le> 65 \<and> bn_ok s \<and> bn_minimal s \<and> bn_int s = sgn (bn_int (small (- 7))) * (\<bar>bn_int (small (- 7))\<bar> div 2 ^ nat 65))
    \<and> (BN_num_bits (small (- 7)) \<le> 3 \<longleftrightarrow> \<bar>bn_int (small (- 7))\<bar> < 2 ^ 3)
    \<and> (BN_is_bit_set (small (- 7)) 65 \<longleftrightarrow> (0 :: int) \<le> 65 \<and> odd (\<bar>bn_int (small (- 7))\<bar> div 2 ^ nat 65))"
  by (rule bignum_shifts) (simp_all add: small_def bn_ok_def bn_fits_def bn_abs_def bn_words_def)

subsection \<open>Bytes\<close>

text \<open>C7: Bytes in either order are read as the number they spell and written back as they were; a number is
  written in the least number of bytes that fits, from which its absolute value is read again, and a fixed
  number of bytes is refused exactly when the number does not fit.\<close>

theorem bignum_bytes_roundtrip:
  assumes "bn_fits a"
  shows "(case BN_bin2bn ok alloc bs None of None \<Rightarrow> \<not> ok \<or> \<not> room_for alloc BN_init ((length bs - 1) div 8 + 1)
      | Some n \<Rightarrow> bn_ok n \<and> bn_int n = int (be_val bs) \<and> BN_bn2bin_padded (length bs) n = Some bs
          \<and> BN_bn2le_padded (length bs) n = Some (rev bs))
    \<and> (case BN_lebin2bn ok alloc bs None of None \<Rightarrow> True
      | Some n \<Rightarrow> bn_ok n \<and> bn_int n = int (be_val (rev bs)) \<and> BN_bn2le_padded (length bs) n = Some bs)
    \<and> BN_bn2bin a = Some (be_bytes (BN_num_bytes a) (nat \<bar>bn_int a\<bar>))
    \<and> be_val (be_bytes (BN_num_bytes a) (nat \<bar>bn_int a\<bar>)) = nat \<bar>bn_int a\<bar>
    \<and> (BN_num_bytes a \<le> k \<longleftrightarrow> \<bar>bn_int a\<bar> < 256 ^ k)
    \<and> (BN_bn2bin_padded k a = None \<longleftrightarrow> 256 ^ k \<le> \<bar>bn_int a\<bar>)"
proof -
  have ab: "\<bar>bn_int a\<bar> = int (bn_abs a)" "nat \<bar>bn_int a\<bar> = bn_abs a" by (simp_all add: bn_int_def)
  have n: "bn_fits n" "bn_abs n = v" if "bn_ok n" "bn_int n = int v" for n v
    using that by (auto simp: bn_ok_def bn_abs_int)
  have le: "le_bytes (length xs) (be_val xs) = rev xs" for xs
    using le_bytes_le_val [of "rev xs"] by (simp add: be_val_def)
  have "\<not> ok \<or> \<not> room_for alloc BN_init ((length bs - 1) div 8 + 1)" if "BN_bin2bn ok alloc bs None = None"
    using that BN_bin2bn_room [of alloc BN_init bs ok] by (auto simp: BN_bin2bn_def BN_or_new_def BN_new_def BN_init_def)
  moreover have "bn_ok x \<and> bn_int x = int (be_val bs) \<and> BN_bn2bin_padded (length bs) x = Some bs \<and> BN_bn2le_padded (length bs) x = Some (rev bs)"
    if "BN_bin2bn ok alloc bs None = Some x" for x
    using BN_bin2bn_new [OF that] n [of x "be_val bs"] be_val_less [of bs] le [of bs]
    by (simp add: BN_bn2bin_padded_value BN_bn2le_padded_value be_bytes_be_val)
  moreover have "bn_ok x \<and> bn_int x = int (be_val (rev bs)) \<and> BN_bn2le_padded (length bs) x = Some bs"
    if "BN_lebin2bn ok alloc bs None = Some x" for x
    using BN_lebin2bn_Some [OF that] n [of x "le_val bs"] le_val_less [of bs]
    by (simp add: BN_bn2le_padded_value le_bytes_le_val be_val_def)
  moreover have k: "BN_num_bytes a \<le> k \<longleftrightarrow> \<bar>bn_int a\<bar> < 256 ^ k" for k
    unfolding BN_num_bytes_value [OF assms] bytes_of_bits_le_iff ab by (metis of_nat_less_iff of_nat_numeral of_nat_power)
  moreover have "BN_bn2bin_padded k a = None \<longleftrightarrow> 256 ^ k \<le> \<bar>bn_int a\<bar>"
    using k [of k] bytes_of_bits_le_iff [of "bn_abs a" k] BN_num_bytes_value [OF assms]
    by (auto simp: BN_bn2bin_padded_value [OF assms] split: if_splits)
  moreover have "bn_abs a < 256 ^ BN_num_bytes a"
    using bytes_of_bits_le_iff [of "bn_abs a" "BN_num_bytes a"] BN_num_bytes_value [OF assms] by simp
  then have "be_val (be_bytes (BN_num_bytes a) (nat \<bar>bn_int a\<bar>)) = nat \<bar>bn_int a\<bar>" by (simp add: ab be_val_be_bytes)
  moreover have "BN_bn2bin a = Some (be_bytes (BN_num_bytes a) (nat \<bar>bn_int a\<bar>))"
    unfolding ab(2) by (rule BN_bn2bin_value [OF assms])
  ultimately show ?thesis by (intro conjI option_case) simp_all
qed

theorem bignum_bytes_roundtrip_witness:
  "(case BN_bin2bn True (\<lambda>_. True) [0, 1, 2] None of None \<Rightarrow> \<not> True \<or> \<not> room_for (\<lambda>_. True) BN_init ((length [0 :: u8, 1, 2] - 1) div 8 + 1)
      | Some n \<Rightarrow> bn_ok n \<and> bn_int n = int (be_val [0, 1, 2]) \<and> BN_bn2bin_padded (length [0 :: u8, 1, 2]) n = Some [0, 1, 2]
          \<and> BN_bn2le_padded (length [0 :: u8, 1, 2]) n = Some (rev [0, 1, 2]))
    \<and> (case BN_lebin2bn True (\<lambda>_. True) [0, 1, 2] None of None \<Rightarrow> True
      | Some n \<Rightarrow> bn_ok n \<and> bn_int n = int (be_val (rev [0, 1, 2])) \<and> BN_bn2le_padded (length [0 :: u8, 1, 2]) n = Some [0, 1, 2])
    \<and> BN_bn2bin (small (- 7)) = Some (be_bytes (BN_num_bytes (small (- 7))) (nat \<bar>bn_int (small (- 7))\<bar>))
    \<and> be_val (be_bytes (BN_num_bytes (small (- 7))) (nat \<bar>bn_int (small (- 7))\<bar>)) = nat \<bar>bn_int (small (- 7))\<bar>
    \<and> (BN_num_bytes (small (- 7)) \<le> 1 \<longleftrightarrow> \<bar>bn_int (small (- 7))\<bar> < 256 ^ 1)
    \<and> (BN_bn2bin_padded 1 (small (- 7)) = None \<longleftrightarrow> 256 ^ 1 \<le> \<bar>bn_int (small (- 7))\<bar>)"
  by (rule bignum_bytes_roundtrip) (simp add: small_def bn_fits_def)

text \<open>
  Reading into a number that was negative: \<^verbatim>\<open>BN_bin2bn\<close> of no bytes and \<^verbatim>\<open>BN_lebin2bn\<close> of some leave the sign
  as it was, so that the former gives a negative zero and the latter a negative number.
\<close>

lemma bin2bn_keeps_sign:
  "BN_bin2bn ok alloc [] (Some (small (- 7))) = Some ((small (- 7))\<lparr>bn_width := 0\<rparr>)"
  "\<not> bn_ok ((small (- 7))\<lparr>bn_width := 0\<rparr>)"
  "map_option bn_int (BN_lebin2bn ok alloc [5] (Some (small (- 7)))) = Some (- 5)"
proof -
  show "BN_bin2bn ok alloc [] (Some (small (- 7))) = Some ((small (- 7))\<lparr>bn_width := 0\<rparr>)"
    by (simp add: BN_bin2bn_def BN_or_new_def)
  show "\<not> bn_ok ((small (- 7))\<lparr>bn_width := 0\<rparr>)"
    by (simp add: small_def bn_ok_def bn_abs_def bn_words_def)
  show "map_option bn_int (BN_lebin2bn ok alloc [5] (Some (small (- 7)))) = Some (- 5)"
    by (simp add: BN_lebin2bn_def BN_or_new_def small_def bn_wexpand_def bn_int_def bn_abs_def bn_words_def
        le_bytes_to_words_value le_bytes_to_words_def unat_bytes_limb)
qed

subsection \<open>Words\<close>

text \<open>C8: \<open>BN_add_word\<close>, \<open>BN_sub_word\<close> and \<open>BN_mul_word\<close> add, subtract and multiply by a word, in place and
  across a change of sign or a carry out of the top word.\<close>

theorem bignum_word_operations:
  assumes "bn_ok a"
  shows "(case BN_add_word alloc a w of (Some _, s) \<Rightarrow> bn_ok s \<and> bn_int s = bn_int a + int (unat w) | (None, _) \<Rightarrow> True)
    \<and> (case BN_sub_word alloc a w of (Some _, s) \<Rightarrow> bn_ok s \<and> bn_int s = bn_int a - int (unat w) | (None, _) \<Rightarrow> True)
    \<and> (case BN_mul_word alloc a w of (Some _, s) \<Rightarrow> bn_ok s \<and> bn_int s = bn_int a * int (unat w) | (None, _) \<Rightarrow> True)"
  using BN_add_word_Some [OF _ assms, of alloc w] BN_sub_word_Some [OF _ assms, of alloc w] BN_mul_word_Some [OF _ assms, of alloc w]
  by (intro conjI outcome_case) simp_all

theorem bignum_word_operations_witness:
  "(case BN_add_word (\<lambda>_. True) (small (- 7)) 9 of
      (Some _, s) \<Rightarrow> bn_ok s \<and> bn_int s = bn_int (small (- 7)) + int (unat (9 :: u64)) | (None, _) \<Rightarrow> True)
    \<and> (case BN_sub_word (\<lambda>_. True) (small (- 7)) 9 of
      (Some _, s) \<Rightarrow> bn_ok s \<and> bn_int s = bn_int (small (- 7)) - int (unat (9 :: u64)) | (None, _) \<Rightarrow> True)
    \<and> (case BN_mul_word (\<lambda>_. True) (small (- 7)) 9 of
      (Some _, s) \<Rightarrow> bn_ok s \<and> bn_int s = bn_int (small (- 7)) * int (unat (9 :: u64)) | (None, _) \<Rightarrow> True)"
  by (rule bignum_word_operations) (simp add: small_def bn_ok_def bn_fits_def bn_abs_def bn_words_def)

end
