(* ===== verification/Pb_Stream.thy ===== *)
theory Pb_Stream
  imports Prelude
begin

text \<open>
  The byte streams of nanopb (\<^verbatim>\<open>pb_istream_t\<close> in pb_decode.c, \<^verbatim>\<open>pb_ostream_t\<close> in
  pb_encode.c).

  A stream carries a callback and its \<open>state\<close> pointer.  The two built-in callbacks keep a
  pointer into the caller's buffer in \<open>state\<close>: for reading that is the list of bytes from
  the pointer to the end of the caller's buffer, for writing it is the caller's buffer and
  the offset of the pointer in it.  A callback supplied by the user of the library is code
  outside this program: it is a function carried by the stream, over a state of its own.
  The field \<open>is_oob\<close> (\<open>os_oob\<close>) is a ghost: it records that the built-in callback touched
  memory outside the caller's buffer, which is undefined behaviour in C; the theorems show
  that it never becomes true.
\<close>

subsection \<open>Input streams\<close>

datatype 's in_source =
    In_buf "u8 list"
  | In_user "'s \<Rightarrow> nat \<Rightarrow> (u8 list, 's) outcome" 's

record 's pb_istream =
  is_source :: "'s in_source"
  is_bytes_left :: u64
  is_errmsg :: "string option"
  is_oob :: bool

text \<open>\<^verbatim>\<open>PB_SET_ERROR\<close> keeps the first message; \<^verbatim>\<open>PB_RETURN_ERROR\<close> also returns false.\<close>

definition PB_SET_ERROR :: "'s pb_istream \<Rightarrow> string \<Rightarrow> 's pb_istream" where
  "PB_SET_ERROR s msg =
     s\<lparr>is_errmsg := (case is_errmsg s of None \<Rightarrow> Some msg | Some m \<Rightarrow> Some m)\<rparr>"

definition PB_RETURN_ERROR :: "'s pb_istream \<Rightarrow> string \<Rightarrow> ('a, 's pb_istream) outcome" where
  "PB_RETURN_ERROR s msg = (None, PB_SET_ERROR s msg)"

text \<open>
  \<^verbatim>\<open>buf_read\<close> advances \<open>state\<close> and copies \<open>count\<close> bytes.  The returned list is the content of
  the destination buffer after the call (the caller ignores it when \<open>buf\<close> is NULL).
\<close>

definition buf_read :: "'s pb_istream \<Rightarrow> u8 list \<Rightarrow> u64 \<Rightarrow> (u8 list, 's pb_istream) outcome" where
  "buf_read s source count =
     (Some (take (unat count) source),
      s\<lparr>is_source := In_buf (drop (unat count) source),
        is_oob := is_oob s \<or> length source < unat count\<rparr>)"

definition is_call :: "'s pb_istream \<Rightarrow> u64 \<Rightarrow> (u8 list, 's pb_istream) outcome" where
  "is_call s count =
     (case is_source s of
        In_buf source \<Rightarrow> buf_read s source count
      | In_user cb st \<Rightarrow>
          (case cb st (unat count) of (r, st') \<Rightarrow> (r, s\<lparr>is_source := In_user cb st'\<rparr>)))"

definition is_user :: "'s pb_istream \<Rightarrow> bool" where
  "is_user s = (case is_source s of In_buf _ \<Rightarrow> False | In_user _ _ \<Rightarrow> True)"

definition pb_istream_from_buffer :: "u8 list \<Rightarrow> u64 \<Rightarrow> 's pb_istream" where
  "pb_istream_from_buffer buf bufsize =
     \<lparr>is_source = In_buf buf, is_bytes_left = bufsize, is_errmsg = None, is_oob = False\<rparr>"

text \<open>
  \<^verbatim>\<open>pb_read\<close> with a destination buffer.  The bytes are returned; the caller stores them.
\<close>

definition pb_read :: "'s pb_istream \<Rightarrow> u64 \<Rightarrow> (u8 list, 's pb_istream) outcome" where
  "pb_read s count =
     (if count = 0 then (Some [], s)
      else if is_bytes_left s < count then PB_RETURN_ERROR s ''end-of-stream''
      else case is_call s count of
             (None, s) \<Rightarrow> PB_RETURN_ERROR s ''io error''
           | (Some bs, s) \<Rightarrow> (Some bs, s\<lparr>is_bytes_left := is_bytes_left s - count\<rparr>))"

text \<open>
  \<^verbatim>\<open>pb_read\<close> with \<open>buf = NULL\<close>: a user callback is never given a NULL buffer, its data is
  read through a 16-byte scratch array.
\<close>

function pb_skip_user :: "'s pb_istream \<Rightarrow> u64 \<Rightarrow> (unit, 's pb_istream) outcome" where
  "pb_skip_user s count =
     (if 16 < count
      then attempt (pb_read s 16) (\<lambda>_ s. pb_skip_user s (count - 16))
      else attempt (pb_read s count) (\<lambda>_ s. (Some (), s)))"
  by pat_completeness auto
termination
  by (relation "measure (\<lambda>(s, count). unat count)")
    (auto simp: word_less_nat_alt unat_sub_if')

declare pb_skip_user.simps [simp del]

definition pb_read_null :: "'s pb_istream \<Rightarrow> u64 \<Rightarrow> (unit, 's pb_istream) outcome" where
  "pb_read_null s count =
     (if count = 0 then (Some (), s)
      else if is_user s then pb_skip_user s count
      else attempt (pb_read s count) (\<lambda>_ s. (Some (), s)))"

definition byte_at :: "u8 list \<Rightarrow> nat \<Rightarrow> u8" where
  "byte_at bs i = (if i < length bs then bs ! i else 0)"

definition pb_readbyte :: "'s pb_istream \<Rightarrow> (u8, 's pb_istream) outcome" where
  "pb_readbyte s =
     (if is_bytes_left s = 0 then PB_RETURN_ERROR s ''end-of-stream''
      else case is_call s 1 of
             (None, s) \<Rightarrow> PB_RETURN_ERROR s ''io error''
           | (Some bs, s) \<Rightarrow> (Some (byte_at bs 0), s\<lparr>is_bytes_left := is_bytes_left s - 1\<rparr>))"

subsection \<open>What a buffer stream still holds\<close>

text \<open>
  \<open>is_view s\<close> is the list of bytes a buffer stream may still deliver; it is undefined for a
  stream whose \<open>bytes_left\<close> overruns the caller's buffer.  \<open>is_advance n s\<close> is the stream
  after \<open>n\<close> bytes were delivered.
\<close>

definition is_view :: "'s pb_istream \<Rightarrow> u8 list option" where
  "is_view s =
     (case is_source s of
        In_buf source \<Rightarrow>
          (if unat (is_bytes_left s) \<le> length source \<and> \<not> is_oob s
           then Some (take (unat (is_bytes_left s)) source) else None)
      | In_user _ _ \<Rightarrow> None)"

definition is_advance :: "nat \<Rightarrow> 's pb_istream \<Rightarrow> 's pb_istream" where
  "is_advance n s =
     s\<lparr>is_source := (case is_source s of In_buf source \<Rightarrow> In_buf (drop n source) | src \<Rightarrow> src),
       is_bytes_left := is_bytes_left s - of_nat n\<rparr>"

lemma is_view_Some:
  "is_view s = Some bs \<longleftrightarrow>
     (\<exists>source. is_source s = In_buf source \<and> unat (is_bytes_left s) \<le> length source \<and>
        \<not> is_oob s \<and> bs = take (unat (is_bytes_left s)) source)"
  by (auto simp: is_view_def split: in_source.splits)

lemma is_view_length: "is_view s = Some bs \<Longrightarrow> length bs = unat (is_bytes_left s)"
  by (auto simp: is_view_Some)

lemma is_view_less: "is_view s = Some bs \<Longrightarrow> length bs < 2 ^ 64"
  using unat_u64_less [of "is_bytes_left s"] by (simp add: is_view_length)

lemma is_view_from_buffer [simp]:
  "length bs < 2 ^ 64 \<Longrightarrow>
   is_view (pb_istream_from_buffer (bs @ extra) (of_nat (length bs))) = Some bs"
  by (simp add: is_view_def pb_istream_from_buffer_def unat_of_nat_u64)

lemma is_advance_0 [simp]: "is_advance 0 s = s"
  by (cases s) (auto simp: is_advance_def split: in_source.splits)

lemma is_advance_advance [simp]: "is_advance m (is_advance n s) = is_advance (n + m) s"
  by (cases s) (auto simp: is_advance_def algebra_simps split: in_source.splits)

lemma is_advance_sel [simp]:
  "is_errmsg (is_advance n s) = is_errmsg s"
  "is_oob (is_advance n s) = is_oob s"
  "is_bytes_left (is_advance n s) = is_bytes_left s - of_nat n"
  by (simp_all add: is_advance_def)

lemma is_view_advance [simp]:
  assumes "is_view s = Some bs" "n \<le> length bs"
  shows "is_view (is_advance n s) = Some (drop n bs)"
proof -
  from assms obtain src where src: "is_source s = In_buf src"
      "unat (is_bytes_left s) \<le> length src" "\<not> is_oob s"
      "bs = take (unat (is_bytes_left s)) src"
    by (auto simp: is_view_Some)
  have n: "n \<le> unat (is_bytes_left s)" using assms src by simp
  have "n < 2 ^ 64" using is_view_less [OF assms(1)] assms(2) by simp
  then have "unat (is_bytes_left s - of_nat n) = unat (is_bytes_left s) - n"
    using n by (simp add: unat_sub word_le_nat_alt unat_of_nat_u64)
  with src n show ?thesis
    by (simp add: is_view_Some is_advance_def drop_take)
qed

lemma pb_read_view:
  assumes "is_view s = Some (bs @ rest)" "length bs = unat count"
  shows "pb_read s count = (Some bs, is_advance (length bs) s)"
proof -
  from assms(1) obtain src where src: "is_source s = In_buf src"
      "unat (is_bytes_left s) \<le> length src" "\<not> is_oob s"
      "bs @ rest = take (unat (is_bytes_left s)) src"
    by (auto simp: is_view_Some)
  have len: "length bs + length rest = unat (is_bytes_left s)"
    using is_view_length [OF assms(1)] by simp
  have le: "\<not> is_bytes_left s < count"
    using len assms(2) by (simp add: word_less_nat_alt)
  have "take (unat count) src = bs"
    using arg_cong [OF src(4), of "take (unat count)"] len assms(2) by (simp add: min_def split: if_splits)
  moreover have "\<not> length src < unat count" using src(2) len assms(2) by simp
  moreover have "count = 0 \<longrightarrow> bs = []" using assms(2) by auto
  ultimately have "pb_read s count = (Some bs, is_advance (unat count) s)"
    using le src(1,3) by (auto simp: pb_read_def is_call_def buf_read_def is_advance_def)
  with assms(2) show ?thesis by simp
qed

lemma pb_read_short:
  assumes "is_view s = Some bs" "length bs < unat count"
  shows "pb_read s count = PB_RETURN_ERROR s ''end-of-stream''"
proof -
  have "is_bytes_left s < count"
    using is_view_length [OF assms(1)] assms(2) by (simp add: word_less_nat_alt)
  moreover have "count \<noteq> 0" using assms(2) by auto
  ultimately show ?thesis by (simp add: pb_read_def)
qed

lemma pb_readbyte_eq_read:
  "pb_readbyte s = attempt (pb_read s 1) (\<lambda>bs s. (Some (byte_at bs 0), s))"
  by (simp add: pb_readbyte_def pb_read_def PB_RETURN_ERROR_def split: option.split prod.split)

lemma pb_readbyte_view:
  assumes "is_view s = Some (b # rest)"
  shows "pb_readbyte s = (Some b, is_advance 1 s)"
  using pb_read_view [of s "[b]" rest 1] assms
  by (simp add: pb_readbyte_eq_read byte_at_def)

lemma pb_readbyte_empty:
  "is_view s = Some [] \<Longrightarrow> pb_readbyte s = PB_RETURN_ERROR s ''end-of-stream''"
  using is_view_length [of s "[]"] by (auto simp: pb_readbyte_def unat_eq_0)

lemma is_view_not_user: "is_view s = Some bs \<Longrightarrow> \<not> is_user s"
  by (auto simp: is_view_Some is_user_def)

lemma pb_read_null_view:
  assumes "is_view s = Some (bs @ rest)" "length bs = unat count"
  shows "pb_read_null s count = (Some (), is_advance (length bs) s)"
  using pb_read_view [OF assms] is_view_not_user [OF assms(1)] assms(2)
  by (auto simp: pb_read_null_def)

text \<open>Every successful one-byte read makes progress: the loops over a stream stop.\<close>

lemma is_call_bytes_left: "is_call s n = (r, s') \<Longrightarrow> is_bytes_left s' = is_bytes_left s"
  by (auto simp: is_call_def buf_read_def split: in_source.splits prod.splits)

lemma pb_readbyte_bytes_left:
  "pb_readbyte s = (Some b, s') \<Longrightarrow>
     is_bytes_left s \<noteq> 0 \<and> is_bytes_left s' = is_bytes_left s - 1"
  by (auto simp: pb_readbyte_def PB_RETURN_ERROR_def dest: is_call_bytes_left
      split: if_splits option.splits prod.splits)

lemma pb_readbyte_progress:
  "pb_readbyte s = (Some b, s') \<Longrightarrow> unat (is_bytes_left s') < unat (is_bytes_left s)"
  using pb_readbyte_bytes_left [of s b s'] by (auto simp: unat_minus_one unat_gt_0)

subsection \<open>Output streams\<close>

text \<open>
  \<open>Out_none\<close> is the NULL callback of a sizing stream; \<open>Out_buf dest pos\<close> is \<^verbatim>\<open>buf_write\<close> with
  \<open>state\<close> pointing at offset \<open>pos\<close> of the caller's buffer \<open>dest\<close>.
\<close>

datatype 's out_sink =
    Out_none
  | Out_buf "u8 list" nat
  | Out_user "'s \<Rightarrow> u8 list \<Rightarrow> (unit, 's) outcome" 's

text \<open>\<^verbatim>\<open>callback == NULL\<close>\<close>

definition no_callback :: "'s out_sink \<Rightarrow> bool" where
  "no_callback k = (case k of Out_none \<Rightarrow> True | Out_buf _ _ \<Rightarrow> False | Out_user _ _ \<Rightarrow> False)"

lemma no_callback_eq [simp]: "no_callback k \<longleftrightarrow> k = Out_none"
  by (simp add: no_callback_def split: out_sink.split)

record 's pb_ostream =
  os_sink :: "'s out_sink"
  os_max_size :: u64
  os_bytes_written :: u64
  os_errmsg :: "string option"
  os_oob :: bool

definition OS_SET_ERROR :: "'s pb_ostream \<Rightarrow> string \<Rightarrow> 's pb_ostream" where
  "OS_SET_ERROR s msg =
     s\<lparr>os_errmsg := (case os_errmsg s of None \<Rightarrow> Some msg | Some m \<Rightarrow> Some m)\<rparr>"

definition OS_RETURN_ERROR :: "'s pb_ostream \<Rightarrow> string \<Rightarrow> ('a, 's pb_ostream) outcome" where
  "OS_RETURN_ERROR s msg = (None, OS_SET_ERROR s msg)"

definition buf_store :: "u8 list \<Rightarrow> nat \<Rightarrow> u8 list \<Rightarrow> u8 list" where
  "buf_store dest pos bs =
     take (length dest) (take pos dest @ bs @ drop (pos + length bs) dest)"

definition buf_write :: "'s pb_ostream \<Rightarrow> u8 list \<Rightarrow> nat \<Rightarrow> u8 list \<Rightarrow> u64 \<Rightarrow> (unit, 's pb_ostream) outcome" where
  "buf_write s dest pos buf count =
     (Some (),
      s\<lparr>os_sink := Out_buf (buf_store dest pos (take (unat count) buf)) (pos + unat count),
        os_oob := os_oob s \<or> length dest < pos + unat count \<or> length buf < unat count\<rparr>)"

definition os_call :: "'s pb_ostream \<Rightarrow> u8 list \<Rightarrow> u64 \<Rightarrow> (unit, 's pb_ostream) outcome" where
  "os_call s buf count =
     (case os_sink s of
        Out_none \<Rightarrow> (Some (), s)
      | Out_buf dest pos \<Rightarrow> buf_write s dest pos buf count
      | Out_user cb st \<Rightarrow>
          (case cb st (take (unat count) buf) of (r, st') \<Rightarrow> (r, s\<lparr>os_sink := Out_user cb st'\<rparr>)))"

definition pb_ostream_from_buffer :: "u8 list \<Rightarrow> u64 \<Rightarrow> 's pb_ostream" where
  "pb_ostream_from_buffer buf bufsize =
     \<lparr>os_sink = Out_buf buf 0, os_max_size = bufsize, os_bytes_written = 0,
      os_errmsg = None, os_oob = False\<rparr>"

definition PB_OSTREAM_SIZING :: "'s pb_ostream" where
  "PB_OSTREAM_SIZING =
     \<lparr>os_sink = Out_none, os_max_size = 0, os_bytes_written = 0, os_errmsg = None, os_oob = False\<rparr>"

text \<open>A NULL buffer, only passed together with a NULL callback, is the empty list.\<close>

definition pb_write :: "'s pb_ostream \<Rightarrow> u8 list \<Rightarrow> u64 \<Rightarrow> (unit, 's pb_ostream) outcome" where
  "pb_write s buf count =
     (if 0 < count \<and> \<not> no_callback (os_sink s) then
        if os_bytes_written s + count < os_bytes_written s
           \<or> os_max_size s < os_bytes_written s + count
        then OS_RETURN_ERROR s ''stream full''
        else case os_call s buf count of
               (None, s) \<Rightarrow> OS_RETURN_ERROR s ''io error''
             | (Some _, s) \<Rightarrow> (Some (), s\<lparr>os_bytes_written := os_bytes_written s + count\<rparr>)
      else (Some (), s\<lparr>os_bytes_written := os_bytes_written s + count\<rparr>))"

subsection \<open>What an encoder emits\<close>

text \<open>
  \<open>os_ok s\<close>: a sizing stream, or a buffer stream whose \<open>max_size\<close> stays inside the caller's
  buffer.  \<open>os_fits s n\<close>: there is room for \<open>n\<close> more bytes.  \<open>os_append bs s\<close>: the stream
  after the bytes \<open>bs\<close> were written.  \<open>emits E bs\<close> is the contract of an encoder: on every
  such stream it writes exactly \<open>bs\<close> when they fit, and otherwise fails without ever
  touching memory outside the buffer.  The contract is the same for a sizing stream, so the
  size computed on one is the number of bytes written on the other.
\<close>

definition os_ok :: "'s pb_ostream \<Rightarrow> bool" where
  "os_ok s \<longleftrightarrow> \<not> os_oob s \<and>
     (case os_sink s of
        Out_none \<Rightarrow> True
      | Out_buf dest pos \<Rightarrow>
          os_bytes_written s \<le> os_max_size s \<and>
          pos + (unat (os_max_size s) - unat (os_bytes_written s)) \<le> length dest
      | Out_user _ _ \<Rightarrow> False)"

definition os_fits :: "'s pb_ostream \<Rightarrow> nat \<Rightarrow> bool" where
  "os_fits s n \<longleftrightarrow>
     (case os_sink s of
        Out_none \<Rightarrow> unat (os_bytes_written s) + n < 2 ^ 64
      | _ \<Rightarrow> unat (os_bytes_written s) + n \<le> unat (os_max_size s))"

definition os_append :: "u8 list \<Rightarrow> 's pb_ostream \<Rightarrow> 's pb_ostream" where
  "os_append bs s =
     s\<lparr>os_sink := (case os_sink s of
                    Out_buf dest pos \<Rightarrow> Out_buf (buf_store dest pos bs) (pos + length bs)
                  | k \<Rightarrow> k),
       os_bytes_written := os_bytes_written s + of_nat (length bs)\<rparr>"

definition emits :: "('s pb_ostream \<Rightarrow> (unit, 's pb_ostream) outcome) \<Rightarrow> u8 list \<Rightarrow> bool" where
  "emits E bs \<longleftrightarrow>
     (\<forall>s. os_ok s \<longrightarrow> (os_sink s = Out_none \<longrightarrow> os_fits s (length bs)) \<longrightarrow>
        (if os_fits s (length bs) then E s = (Some (), os_append bs s)
         else \<exists>s'. E s = (None, s') \<and> os_ok s'))"

lemma length_buf_store [simp]: "length (buf_store dest pos bs) = length dest"
  by (simp add: buf_store_def)

lemma buf_store_inside:
  "pos + length bs \<le> length dest \<Longrightarrow>
     buf_store dest pos bs = take pos dest @ bs @ drop (pos + length bs) dest"
  by (simp add: buf_store_def)

lemma buf_store_append:
  assumes "pos + length a + length b \<le> length dest"
  shows "buf_store (buf_store dest pos a) (pos + length a) b = buf_store dest pos (a @ b)"
proof -
  have eq: "buf_store dest pos a = take pos dest @ a @ drop (pos + length a) dest"
    using assms by (simp add: buf_store_inside)
  have "buf_store (buf_store dest pos a) (pos + length a) b =
      take (pos + length a) (take pos dest @ a @ drop (pos + length a) dest) @ b @
      drop (pos + length a + length b) (take pos dest @ a @ drop (pos + length a) dest)"
    using assms by (subst buf_store_inside) (simp_all add: eq)
  moreover have "min (length dest) pos = pos" using assms by simp
  ultimately show ?thesis using assms by (simp add: buf_store_inside ac_simps)
qed

lemma buf_store_Nil [simp]: "pos \<le> length dest \<Longrightarrow> buf_store dest pos [] = dest"
  by (simp add: buf_store_def)

lemma os_append_Nil [simp]: "os_ok s \<Longrightarrow> os_append [] s = s"
  by (cases s) (auto simp: os_append_def os_ok_def split: out_sink.splits)

lemma os_fits_mono: "os_fits s n \<Longrightarrow> m \<le> n \<Longrightarrow> os_fits s m"
  by (auto simp: os_fits_def split: out_sink.splits)

lemma os_append_written:
  "os_ok s \<Longrightarrow> os_fits s (length bs) \<Longrightarrow>
     unat (os_bytes_written (os_append bs s)) = unat (os_bytes_written s) + length bs"
proof -
  assume ok: "os_ok s" and fits: "os_fits s (length bs)"
  have "unat (os_bytes_written s) + length bs < 2 ^ 64"
    using fits unat_u64_less [of "os_max_size s"] by (auto simp: os_fits_def split: out_sink.splits)
  then show ?thesis
    by (simp add: os_append_def unat_word_ariths unat_of_nat_u64)
qed

lemma os_append_ok: "os_ok s \<Longrightarrow> os_fits s (length bs) \<Longrightarrow> os_ok (os_append bs s)"
  using os_append_written [of s bs]
  by (auto simp: os_ok_def os_fits_def os_append_def word_le_nat_alt split: out_sink.splits)

lemma os_append_fits:
  "os_ok s \<Longrightarrow> os_fits s (length a) \<Longrightarrow>
     os_fits (os_append a s) n \<longleftrightarrow> os_fits s (length a + n)"
  using os_append_written [of s a]
  by (auto simp: os_fits_def os_append_def add.assoc split: out_sink.splits)

lemma os_append_sink_none [simp]: "os_sink (os_append a s) = Out_none \<longleftrightarrow> os_sink s = Out_none"
  by (auto simp: os_append_def split: out_sink.splits)

lemma os_append_append:
  "os_ok s \<Longrightarrow> os_fits s (length a + length b) \<Longrightarrow>
     os_append b (os_append a s) = os_append (a @ b) s"
  by (cases s) (auto simp: os_append_def os_ok_def os_fits_def buf_store_append word_le_nat_alt
      algebra_simps split: out_sink.splits)

lemma os_set_error_ok [simp]: "os_ok (OS_SET_ERROR s msg) = os_ok s"
  by (auto simp: os_ok_def OS_SET_ERROR_def split: out_sink.splits)

lemma pb_write_ok:
  assumes "os_ok s" "length bs = unat count" "os_sink s \<noteq> Out_none \<or> os_fits s (unat count)"
  shows "pb_write s bs count =
     (if os_fits s (unat count) then (Some (), os_append bs s)
      else OS_RETURN_ERROR s ''stream full'')"
proof (cases "0 < count \<and> os_sink s \<noteq> Out_none")
  case False
  then consider "\<not> 0 < count" | "os_sink s = Out_none" by blast
  then show ?thesis
  proof cases
    case 1
    then have z: "count = 0" by (simp add: word_less_nat_alt unat_eq_0)
    with assms(1,2) have "bs = []" "os_fits s 0"
      using unat_u64_less [of "os_bytes_written s"]
      by (auto simp: os_ok_def os_fits_def word_le_nat_alt split: out_sink.splits)
    with z assms(1) show ?thesis by (simp add: pb_write_def)
  next
    case 2
    with assms show ?thesis by (auto simp: pb_write_def os_append_def os_ok_def)
  qed
next
  case True
  then obtain dest pos where sink: "os_sink s = Out_buf dest pos"
    using assms(1) by (auto simp: os_ok_def split: out_sink.splits)
  have fits: "os_fits s (unat count) \<longleftrightarrow>
      \<not> (os_bytes_written s + count < os_bytes_written s \<or> os_max_size s < os_bytes_written s + count)"
    using unat_u64_less [of "os_max_size s"] unat_u64_less [of count]
      unat_u64_less [of "os_bytes_written s"]
    by (auto simp: os_fits_def sink word_less_nat_alt unat_plus_if' split: if_splits)
  have room: "pos + unat count \<le> length dest" if "os_fits s (unat count)"
    using that assms(1) by (auto simp: os_ok_def os_fits_def sink word_le_nat_alt)
  show ?thesis
    using True assms(1,2) fits room
    by (auto simp: pb_write_def os_call_def buf_write_def sink os_append_def os_ok_def)
qed

lemma emits_pb_write [intro]:
  assumes "length bs = unat count"
  shows "emits (\<lambda>s. pb_write s bs count) bs"
  using assms by (auto simp: emits_def pb_write_ok OS_RETURN_ERROR_def)

lemma emits_Nil [intro]: "emits (\<lambda>s. (Some (), s)) []"
  by (auto simp: emits_def os_fits_def os_ok_def word_le_nat_alt split: out_sink.splits)

lemma emits_attempt [intro]:
  assumes "emits E a" "emits F b"
  shows "emits (\<lambda>s. attempt (E s) (\<lambda>_ s. F s)) (a @ b)"
  unfolding emits_def
proof (intro allI impI)
  fix s :: "'a pb_ostream"
  assume ok: "os_ok s" and n: "os_sink s = Out_none \<longrightarrow> os_fits s (length (a @ b))"
  have n': "os_sink s = Out_none \<longrightarrow> os_fits s (length a)"
    using n os_fits_mono by fastforce
  show "if os_fits s (length (a @ b)) then attempt (E s) (\<lambda>_. F) = (Some (), os_append (a @ b) s)
        else \<exists>s'. attempt (E s) (\<lambda>_. F) = (None, s') \<and> os_ok s'"
  proof (cases "os_fits s (length a)")
    case True
    then have E: "E s = (Some (), os_append a s)"
      using assms(1) ok n' by (auto simp: emits_def)
    have ok': "os_ok (os_append a s)" using ok True by (rule os_append_ok)
    have "os_fits (os_append a s) (length b) = os_fits s (length (a @ b))"
      using ok True by (simp add: os_append_fits)
    with E ok ok' n assms(2) [unfolded emits_def, rule_format, OF ok'] show ?thesis
      by (auto simp: os_append_append split: if_splits)
  next
    case False
    then have "\<not> os_fits s (length (a @ b))" using os_fits_mono by fastforce
    moreover obtain s' where "E s = (None, s')" "os_ok s'"
      using assms(1) [unfolded emits_def, rule_format, OF ok] n' False by auto
    ultimately show ?thesis by auto
  qed
qed

lemma emits_success:
  assumes "emits E bs" "os_ok s" "os_fits s (length bs)"
  shows "E s = (Some (), os_append bs s)"
  using assms by (auto simp: emits_def)

lemma emits_full:
  assumes "emits E bs" "os_ok s" "\<not> os_fits s (length bs)" "os_sink s \<noteq> Out_none"
  shows "\<exists>s'. E s = (None, s') \<and> os_ok s'"
  using assms(1) [unfolded emits_def, rule_format, OF assms(2)] assms(3,4) by simp

text \<open>Encoding into a fresh buffer, and on a sizing stream.\<close>

lemma os_ok_from_buffer [simp]:
  "unat n \<le> length buf \<Longrightarrow> os_ok (pb_ostream_from_buffer buf n)"
  by (simp add: os_ok_def pb_ostream_from_buffer_def)

lemma os_ok_sizing [simp]: "os_ok PB_OSTREAM_SIZING"
  by (simp add: os_ok_def PB_OSTREAM_SIZING_def)

lemma os_fits_sizing [simp]: "os_fits PB_OSTREAM_SIZING n \<longleftrightarrow> n < 2 ^ 64"
  by (simp add: os_fits_def PB_OSTREAM_SIZING_def)

lemma os_fits_from_buffer [simp]: "os_fits (pb_ostream_from_buffer buf m) n \<longleftrightarrow> n \<le> unat m"
  by (simp add: os_fits_def pb_ostream_from_buffer_def)

lemma emits_sizing:
  assumes "emits E bs" "length bs < 2 ^ 64"
  shows "E PB_OSTREAM_SIZING =
    (Some (), PB_OSTREAM_SIZING\<lparr>os_bytes_written := of_nat (length bs)\<rparr>)"
  using emits_success [OF assms(1) os_ok_sizing os_fits_sizing [THEN iffD2, OF assms(2)]]
  by (simp add: os_append_def PB_OSTREAM_SIZING_def)

lemma emits_buffer:
  assumes "emits E bs" "unat m \<le> length buf" "length bs \<le> unat m"
  shows "E (pb_ostream_from_buffer buf m) =
    (Some (), (pb_ostream_from_buffer buf m)
       \<lparr>os_sink := Out_buf (bs @ drop (length bs) buf) (length bs),
        os_bytes_written := of_nat (length bs)\<rparr>)"
  using emits_success [OF assms(1) os_ok_from_buffer [OF assms(2)]
      os_fits_from_buffer [THEN iffD2, OF assms(3)]] assms(2,3)
  by (simp add: os_append_def pb_ostream_from_buffer_def buf_store_inside)

end
