(* ===== verification/Codec.thy ===== *)
theory Codec
  imports Prelude
begin

text \<open>
  The interface between an encoder and a decoder that share a wire format.
  \<open>prefix_codec\<close> is what every reader of a self-delimiting format promises (nanopb
  varints and fixed-width values, big-endian integers, base-128 integers, UTF-8
  characters, DER elements): decoding what was encoded gives the value back and leaves
  exactly the bytes that followed.  \<open>canonical_codec\<close> adds that nothing but the
  encoder's output is accepted, which is what DER and the strict UTF-8 reader promise.
  The consequences (prefix-freeness, decoding of sequences, uniqueness of the accepted
  byte string) are proved once here and reached through the interpretations that the
  component theories give on the model's own encoders and decoders.
\<close>

text \<open>Reading exactly \<open>n\<close> values one after the other.\<close>

fun decode_many :: "('b list \<Rightarrow> ('a, 'b list) outcome) \<Rightarrow> nat \<Rightarrow> 'b list \<Rightarrow> ('a list, 'b list) outcome" where
  "decode_many dec 0 bs = (Some [], bs)"
| "decode_many dec (Suc n) bs =
     attempt (dec bs) (\<lambda>x bs. attempt (decode_many dec n bs) (\<lambda>xs bs. (Some (x # xs), bs)))"

locale prefix_codec =
  fixes enc :: "'a \<Rightarrow> 'b list"
    and dec :: "'b list \<Rightarrow> ('a, 'b list) outcome"
    and valid :: "'a \<Rightarrow> bool"
    and fits :: "'b list \<Rightarrow> bool"
  assumes fits_suffix: "fits (xs @ ys) \<Longrightarrow> fits ys"
    and dec_enc: "valid x \<Longrightarrow> fits (enc x @ rest) \<Longrightarrow> dec (enc x @ rest) = (Some x, rest)"
begin

lemma prefix_free:
  assumes "valid x" "valid y" "fits (enc x @ r)" "enc x @ r = enc y @ r'"
  shows "x = y \<and> r = r'"
  using dec_enc [of x r] dec_enc [of y r'] assms by simp

lemma enc_inj: "valid x \<Longrightarrow> valid y \<Longrightarrow> fits (enc x) \<Longrightarrow> enc x = enc y \<Longrightarrow> x = y"
  using prefix_free [of x y "[]" "[]"] by simp

lemma decode_many_enc:
  assumes "\<forall>x \<in> set xs. valid x" "fits (concat (map enc xs) @ rest)"
  shows "decode_many dec (length xs) (concat (map enc xs) @ rest) = (Some xs, rest)"
  using assms
proof (induction xs)
  case Nil
  then show ?case by simp
next
  case (Cons x xs)
  then have "fits (concat (map enc xs) @ rest)"
    using fits_suffix [of "enc x" "concat (map enc xs) @ rest"] by simp
  with Cons show ?case by (simp add: dec_enc)
qed

end

locale canonical_codec = prefix_codec +
  assumes dec_sound: "fits bs \<Longrightarrow> dec bs = (Some x, rest) \<Longrightarrow> valid x \<and> bs = enc x @ rest"
begin

lemma dec_iff: "fits bs \<Longrightarrow> dec bs = (Some x, rest) \<longleftrightarrow> valid x \<and> bs = enc x @ rest"
  using dec_sound dec_enc by blast

lemma dec_unique:
  assumes "fits bs" "fits bs'" "dec bs = (Some x, rest)" "dec bs' = (Some x, rest)"
  shows "bs = bs'"
  using assms dec_sound by metis

lemma decode_many_sound:
  assumes "fits bs" "decode_many dec n bs = (Some xs, rest)"
  shows "length xs = n \<and> (\<forall>x \<in> set xs. valid x) \<and> bs = concat (map enc xs) @ rest"
  using assms
proof (induction n arbitrary: bs xs)
  case 0
  then show ?case by simp
next
  case (Suc n)
  then obtain x bs' ys where
    d: "dec bs = (Some x, bs')" "decode_many dec n bs' = (Some ys, rest)" "xs = x # ys"
    by (auto simp: attempt_eq_Some)
  then have x: "valid x" "bs = enc x @ bs'"
    using dec_sound [OF Suc.prems(1)] by auto
  then have "fits bs'" using Suc.prems(1) fits_suffix by blast
  with Suc.IH d(2) x d(3) show ?case by auto
qed

end

end
