(* ===== verification/Pb_Prim.thy ===== *)
theory Pb_Prim
  imports Pb_Stream Codec
begin

text \<open>
  The wire-format primitives of nanopb over its streams: varints, zig-zag varints,
  fixed-width values, tags, strings and skipping (pb_encode.c and pb_decode.c).  The
  reference format is \<open>varint\<close>, the little-endian base-128 encoding of a natural number.
\<close>

subsection \<open>Encoding\<close>

definition PB_WT_VARINT :: u32 where "PB_WT_VARINT = 0"
definition PB_WT_64BIT :: u32 where "PB_WT_64BIT = 1"
definition PB_WT_STRING :: u32 where "PB_WT_STRING = 2"
definition PB_WT_32BIT :: u32 where "PB_WT_32BIT = 5"

lemmas pb_wt_defs [model_defs] =
  PB_WT_VARINT_def PB_WT_64BIT_def PB_WT_STRING_def PB_WT_32BIT_def

text \<open>The loop of \<^verbatim>\<open>pb_encode_varint\<close>: the bytes stored into \<open>buffer\<close>.\<close>

function varint_loop :: "u64 \<Rightarrow> u8 list" where
  "varint_loop value =
     (if value \<noteq> 0
      then ucast (value AND 0x7F OR 0x80) # varint_loop (drop_bit 7 value) else [])"
  by pat_completeness auto
termination
  by (relation "measure unat") (auto simp: unat_drop_bit_div unat_gt_0 intro: div_less_dividend)

declare varint_loop.simps [simp del]

definition pb_encode_varint :: "'s pb_ostream \<Rightarrow> u64 \<Rightarrow> (unit, 's pb_ostream) outcome" where
  "pb_encode_varint s value =
     (if value \<le> 0x7F then pb_write s [ucast value] 1
      else let buffer = varint_loop value;
               i = length buffer;
               buffer = buffer[i - 1 := buffer ! (i - 1) AND 0x7F]
           in pb_write s buffer (of_nat i))"

text \<open>\<open>value\<close> is the C \<open>int64_t\<close>, read as two's complement.\<close>

definition pb_encode_svarint :: "'s pb_ostream \<Rightarrow> u64 \<Rightarrow> (unit, 's pb_ostream) outcome" where
  "pb_encode_svarint s value =
     (let zigzagged = (if sint value < 0 then NOT (push_bit 1 value) else push_bit 1 value)
      in pb_encode_varint s zigzagged)"

definition pb_encode_fixed32 :: "'s pb_ostream \<Rightarrow> u32 \<Rightarrow> (unit, 's pb_ostream) outcome" where
  "pb_encode_fixed32 s val =
     pb_write s [ucast (val AND 0xFF), ucast (drop_bit 8 val AND 0xFF),
                 ucast (drop_bit 16 val AND 0xFF), ucast (drop_bit 24 val AND 0xFF)] 4"

definition pb_encode_fixed64 :: "'s pb_ostream \<Rightarrow> u64 \<Rightarrow> (unit, 's pb_ostream) outcome" where
  "pb_encode_fixed64 s val =
     pb_write s [ucast (val AND 0xFF), ucast (drop_bit 8 val AND 0xFF),
                 ucast (drop_bit 16 val AND 0xFF), ucast (drop_bit 24 val AND 0xFF),
                 ucast (drop_bit 32 val AND 0xFF), ucast (drop_bit 40 val AND 0xFF),
                 ucast (drop_bit 48 val AND 0xFF), ucast (drop_bit 56 val AND 0xFF)] 8"

definition pb_encode_tag :: "'s pb_ostream \<Rightarrow> u32 \<Rightarrow> u32 \<Rightarrow> (unit, 's pb_ostream) outcome" where
  "pb_encode_tag s wiretype field_number =
     (let tag = push_bit 3 (ucast field_number :: u64) OR ucast wiretype
      in pb_encode_varint s tag)"

definition pb_encode_string :: "'s pb_ostream \<Rightarrow> u8 list \<Rightarrow> u64 \<Rightarrow> (unit, 's pb_ostream) outcome" where
  "pb_encode_string s buffer len =
     attempt (pb_encode_varint s len) (\<lambda>_ s. pb_write s buffer len)"

subsection \<open>Decoding\<close>

text \<open>
  The do-while loop of \<^verbatim>\<open>pb_decode_varint32_eof\<close>.  \<open>bitpos\<close> is a \<open>uint_fast8_t\<close>, eight
  bits wide on the targets, so adding 7 wraps around.  The loop returns the values of
  \<open>result\<close>, \<open>bitpos\<close> and \<open>byte\<close> when it exits.
\<close>

function varint32_loop :: "'s pb_istream \<Rightarrow> u32 \<Rightarrow> u8 \<Rightarrow> (u32 \<times> u8 \<times> u8, 's pb_istream) outcome" where
  "varint32_loop s result bitpos =
     attempt (pb_readbyte s) (\<lambda>byte s.
       if 32 \<le> bitpos
          \<and> byte AND 0x7F \<noteq> 0
          \<and> (drop_bit 31 result = 0 \<or> byte \<noteq> (if bitpos < 63 then 0xFF else 0x01))
       then PB_RETURN_ERROR s ''varint overflow''
       else let result = (if 32 \<le> bitpos then result
                          else result OR push_bit (unat bitpos) (ucast (byte AND 0x7F)));
                bitpos = bitpos + 7
            in if byte AND 0x80 \<noteq> 0 then varint32_loop s result bitpos
               else (Some (result, bitpos, byte), s))"
  by pat_completeness auto
termination
  by (relation "measure (\<lambda>(s, _, _). unat (is_bytes_left s))")
    (auto dest: pb_readbyte_progress)

declare varint32_loop.simps [simp del]

text \<open>The second component says whether \<open>*eof\<close> was set to true.\<close>

definition pb_decode_varint32_eof :: "'s pb_istream \<Rightarrow> u32 option \<times> bool \<times> 's pb_istream" where
  "pb_decode_varint32_eof s =
     (case pb_readbyte s of
        (None, s) \<Rightarrow> (None, is_bytes_left s = 0, s)
      | (Some byte, s) \<Rightarrow>
          if byte AND 0x80 = 0 then (Some (ucast byte), False, s)
          else case varint32_loop s (ucast (byte AND 0x7F)) 7 of
                 (None, s) \<Rightarrow> (None, False, s)
               | (Some (result, bitpos, byte), s) \<Rightarrow>
                   if bitpos = 35 \<and> byte AND 0x70 \<noteq> 0
                   then (None, False, PB_SET_ERROR s ''varint overflow'')
                   else (Some result, False, s))"

definition pb_decode_varint32 :: "'s pb_istream \<Rightarrow> (u32, 's pb_istream) outcome" where
  "pb_decode_varint32 s = (case pb_decode_varint32_eof s of (r, _, s) \<Rightarrow> (r, s))"

function varint64_loop :: "'s pb_istream \<Rightarrow> u64 \<Rightarrow> u8 \<Rightarrow> (u64, 's pb_istream) outcome" where
  "varint64_loop s result bitpos =
     (if 64 \<le> bitpos then PB_RETURN_ERROR s ''varint overflow''
      else attempt (pb_readbyte s) (\<lambda>byte s.
        let result = result OR push_bit (unat bitpos) (ucast (byte AND 0x7F));
            bitpos = bitpos + 7
        in if byte AND 0x80 \<noteq> 0 then varint64_loop s result bitpos
           else (Some result, s)))"
  by pat_completeness auto
termination
  by (relation "measure (\<lambda>(s, _, _). unat (is_bytes_left s))")
    (auto dest: pb_readbyte_progress)

declare varint64_loop.simps [simp del]

definition pb_decode_varint :: "'s pb_istream \<Rightarrow> (u64, 's pb_istream) outcome" where
  "pb_decode_varint s = varint64_loop s 0 0"

definition pb_decode_svarint :: "'s pb_istream \<Rightarrow> (u64, 's pb_istream) outcome" where
  "pb_decode_svarint s =
     attempt (pb_decode_varint s) (\<lambda>value s.
       (Some (if value AND 1 \<noteq> 0 then NOT (drop_bit 1 value) else drop_bit 1 value), s))"

definition pb_decode_fixed32 :: "'s pb_istream \<Rightarrow> (u32, 's pb_istream) outcome" where
  "pb_decode_fixed32 s =
     attempt (pb_read s 4) (\<lambda>bytes s.
       (Some (ucast (byte_at bytes 0) OR push_bit 8 (ucast (byte_at bytes 1))
              OR push_bit 16 (ucast (byte_at bytes 2)) OR push_bit 24 (ucast (byte_at bytes 3))), s))"

definition pb_decode_fixed64 :: "'s pb_istream \<Rightarrow> (u64, 's pb_istream) outcome" where
  "pb_decode_fixed64 s =
     attempt (pb_read s 8) (\<lambda>bytes s.
       (Some (ucast (byte_at bytes 0) OR push_bit 8 (ucast (byte_at bytes 1))
              OR push_bit 16 (ucast (byte_at bytes 2)) OR push_bit 24 (ucast (byte_at bytes 3))
              OR push_bit 32 (ucast (byte_at bytes 4)) OR push_bit 40 (ucast (byte_at bytes 5))
              OR push_bit 48 (ucast (byte_at bytes 6)) OR push_bit 56 (ucast (byte_at bytes 7))), s))"

function pb_skip_varint :: "'s pb_istream \<Rightarrow> (unit, 's pb_istream) outcome" where
  "pb_skip_varint s =
     attempt (pb_read s 1) (\<lambda>bytes s.
       if byte_at bytes 0 AND 0x80 \<noteq> 0 then pb_skip_varint s else (Some (), s))"
  by pat_completeness auto
termination
proof (relation "measure (\<lambda>s. unat (is_bytes_left s))")
  fix s :: "'s pb_istream" and bytes s'
  assume "pb_read s 1 = (Some bytes, s')"
  then have "pb_readbyte s = (Some (byte_at bytes 0), s')"
    by (simp add: pb_readbyte_eq_read)
  then show "(s', s) \<in> measure (\<lambda>s. unat (is_bytes_left s))"
    by (auto dest: pb_readbyte_progress)
qed simp

declare pb_skip_varint.simps [simp del]

definition pb_skip_string :: "'s pb_istream \<Rightarrow> (unit, 's pb_istream) outcome" where
  "pb_skip_string s =
     attempt (pb_decode_varint32 s) (\<lambda>len s. pb_read_null s (ucast len))"

text \<open>
  \<^verbatim>\<open>pb_decode_tag\<close> returns the wire type, the tag and, in the second component, the value
  of \<open>*eof\<close>.
\<close>

definition pb_decode_tag :: "'s pb_istream \<Rightarrow> (u32 \<times> u32) option \<times> bool \<times> 's pb_istream" where
  "pb_decode_tag s =
     (case pb_decode_varint32_eof s of
        (None, eof, s) \<Rightarrow> (None, eof, s)
      | (Some temp, eof, s) \<Rightarrow>
          if temp = 0 then (None, True, s)
          else (Some (temp AND 7, drop_bit 3 temp), eof, s))"

definition pb_skip_field :: "'s pb_istream \<Rightarrow> u32 \<Rightarrow> (unit, 's pb_istream) outcome" where
  "pb_skip_field s wire_type =
     (if wire_type = PB_WT_VARINT then pb_skip_varint s
      else if wire_type = PB_WT_64BIT then pb_read_null s 8
      else if wire_type = PB_WT_STRING then pb_skip_string s
      else if wire_type = PB_WT_32BIT then pb_read_null s 4
      else PB_RETURN_ERROR s ''invalid wire_type'')"

text \<open>
  \<^verbatim>\<open>read_raw_value\<close> returns the bytes stored into \<open>buf\<close>; their number is the new \<open>*size\<close>.
\<close>

function raw_varint_loop :: "'s pb_istream \<Rightarrow> nat \<Rightarrow> u8 list \<Rightarrow> (u8 list, 's pb_istream) outcome" where
  "raw_varint_loop s max_size acc =
     (if max_size < length acc + 1 then (None, s)
      else attempt (pb_read s 1) (\<lambda>bytes s.
        if byte_at bytes 0 AND 0x80 \<noteq> 0
        then raw_varint_loop s max_size (acc @ [byte_at bytes 0])
        else (Some (acc @ [byte_at bytes 0]), s)))"
  by pat_completeness auto
termination
  by (relation "measure (\<lambda>(s, max_size, acc). max_size - length acc)") auto

declare raw_varint_loop.simps [simp del]

definition read_raw_value :: "'s pb_istream \<Rightarrow> u32 \<Rightarrow> nat \<Rightarrow> (u8 list, 's pb_istream) outcome" where
  "read_raw_value s wire_type max_size =
     (if wire_type = PB_WT_VARINT then raw_varint_loop s max_size []
      else if wire_type = PB_WT_64BIT then pb_read s 8
      else if wire_type = PB_WT_32BIT then pb_read s 4
      else PB_RETURN_ERROR s ''invalid wire_type'')"

text \<open>
  A length-limited substream shares the source with its parent; the parent's \<open>bytes_left\<close>
  is reduced at once, its position when the substream is closed.  What the state pointer of
  a user callback points to is shared, so closing hands its current value back even when
  skipping the rest of the substream fails.
\<close>

definition pb_make_string_substream ::
    "'s pb_istream \<Rightarrow> ('s pb_istream, 's pb_istream) outcome" where
  "pb_make_string_substream s =
     attempt (pb_decode_varint32 s) (\<lambda>len s.
       if is_bytes_left s < ucast len
       then PB_RETURN_ERROR s ''parent stream too short''
       else (Some (s\<lparr>is_bytes_left := ucast len\<rparr>),
             s\<lparr>is_bytes_left := is_bytes_left s - ucast len\<rparr>))"

definition pb_close_string_substream ::
    "'s pb_istream \<Rightarrow> 's pb_istream \<Rightarrow> (unit, 's pb_istream) outcome" where
  "pb_close_string_substream s sub =
     (case (if is_bytes_left sub \<noteq> 0 then pb_read_null sub (is_bytes_left sub) else (Some (), sub)) of
        (None, sub) \<Rightarrow>
          (None, s\<lparr>is_source := (if is_user sub then is_source sub else is_source s),
                   is_oob := is_oob s \<or> is_oob sub\<rparr>)
      | (Some _, sub) \<Rightarrow>
          (Some (), s\<lparr>is_source := is_source sub, is_errmsg := is_errmsg sub,
                      is_oob := is_oob s \<or> is_oob sub\<rparr>))"

subsection \<open>The varint format\<close>

fun varint :: "nat \<Rightarrow> u8 list" where
  "varint n = (if n < 128 then [of_nat n] else of_nat (n mod 128 + 128) # varint (n div 128))"

declare varint.simps [simp del]

lemma varint_small: "n < 128 \<Longrightarrow> varint n = [of_nat n]"
  by (simp add: varint.simps)

lemma varint_big: "\<not> n < 128 \<Longrightarrow> varint n = of_nat (n mod 128 + 128) # varint (n div 128)"
  by (simp add: varint.simps)

lemma varint_nonempty [simp]: "varint n \<noteq> []"
  by (simp add: varint.simps)

lemma varint_length_le: "n < 128 ^ k \<Longrightarrow> 0 < k \<Longrightarrow> length (varint n) \<le> k"
proof (induction k arbitrary: n)
  case 0
  then show ?case by simp
next
  case (Suc k)
  show ?case
  proof (cases "n < 128")
    case True
    then show ?thesis by (simp add: varint_small)
  next
    case False
    then have "k \<noteq> 0" using Suc.prems by (cases k) auto
    moreover have "n div 128 < 128 ^ k" using Suc.prems by (simp add: less_mult_imp_div_less mult.commute)
    ultimately have "length (varint (n div 128)) \<le> k" using Suc.IH by simp
    with False show ?thesis by (simp add: varint_big)
  qed
qed

lemma varint_length_u64: "length (varint (unat (v :: u64))) \<le> 10"
  using unat_u64_less [of v] by (intro varint_length_le) auto

lemma varint_length_u32: "n < 2 ^ 32 \<Longrightarrow> length (varint n) \<le> 5"
  by (intro varint_length_le) auto

lemma unat_varint_byte: "unat (of_nat (n mod 128 + 128) :: u8) = n mod 128 + 128"
  by (rule unat_of_nat_id) simp

lemma unat_varint_last: "n < 128 \<Longrightarrow> unat (of_nat n :: u8) = n"
  by (rule unat_of_nat_id) simp

subsection \<open>Encoders emit the reference format\<close>

definition clear_last :: "u8 list \<Rightarrow> u8 list" where
  "clear_last bs = bs[length bs - 1 := bs ! (length bs - 1) AND 0x7F]"

lemma clear_last_single: "clear_last [b] = [b AND 0x7F]"
  by (simp add: clear_last_def)

lemma clear_last_Cons: "bs \<noteq> [] \<Longrightarrow> clear_last (b # bs) = b # clear_last bs"
  by (cases bs) (simp_all add: clear_last_def)

lemma unat_low7_or_80: "unat (ucast (value AND 0x7F OR 0x80 :: u64) :: u8) = unat value mod 128 + 128"
proof -
  have "unat (value AND 0x7F OR push_bit 7 1 :: u64) = unat (value AND 0x7F) + 2 ^ 7 * unat (1 :: u64)"
    by (rule unat_or_push_bit) auto
  then have "unat (value AND 0x7F OR 0x80 :: u64) = unat value mod 128 + 128"
    by simp
  then show ?thesis by (simp add: unat_ucast_mod)
qed

lemma drop_bit7_zero: "drop_bit 7 (v :: u64) = 0 \<longleftrightarrow> unat v < 128"
proof -
  have "drop_bit 7 v = 0 \<longleftrightarrow> unat (drop_bit 7 v) = 0" by (simp only: unat_0_iff)
  also have "\<dots> \<longleftrightarrow> unat v div 128 = 0" by (simp only: unat_drop_bit_div) simp
  finally show ?thesis by (simp add: div_eq_0_iff)
qed

lemma varint_loop_eq: "v \<noteq> 0 \<Longrightarrow> clear_last (varint_loop v) = varint (unat v)"
proof (induction v rule: varint_loop.induct)
  case (1 v)
  have byte: "ucast (v AND 0x7F OR 0x80) = (of_nat (unat v mod 128 + 128) :: u8)"
    by (rule word_eq_by_unat) (simp only: unat_low7_or_80 unat_varint_byte)
  have zero: "drop_bit 7 v = 0 \<longleftrightarrow> unat v < 128"
    by (simp only: drop_bit7_zero)
  show ?case
  proof (cases "unat v < 128")
    case True
    then have "varint_loop v = [of_nat (unat v + 128)]"
      using "1.prems" zero byte by (subst varint_loop.simps) (simp add: varint_loop.simps [of 0])
    moreover have "(of_nat (unat v + 128) AND 0x7F :: u8) = of_nat (unat v)"
      using True unat_varint_byte [of "unat v"]
      by (intro word_eq_by_unat) (simp add: unat_ucast_mod)
    ultimately show ?thesis using True by (simp add: clear_last_single varint_small)
  next
    case False
    have "varint_loop v = of_nat (unat v mod 128 + 128) # varint_loop (drop_bit 7 v)"
      using "1.prems" byte by (subst varint_loop.simps) simp
    moreover have "varint_loop (drop_bit 7 v) \<noteq> []"
      using False zero by (subst varint_loop.simps) simp
    moreover have "clear_last (varint_loop (drop_bit 7 v)) = varint (unat v div 128)"
      using "1.IH" "1.prems" False zero unat_drop_bit_div [of 7 v] by simp
    ultimately show ?thesis using False by (simp add: clear_last_Cons varint_big)
  qed
qed

lemma pb_encode_varint_eq:
  "pb_encode_varint s v =
     pb_write s (varint (unat v)) (of_nat (length (varint (unat v))))"
proof (cases "v \<le> 0x7F")
  case True
  then have "unat v < 128" by (simp add: word_le_nat_alt)
  moreover have "ucast v = (of_nat (unat v) :: u8)" by simp
  ultimately show ?thesis using True by (simp add: pb_encode_varint_def varint_small)
next
  case False
  then have "v \<noteq> 0" by auto
  then have "clear_last (varint_loop v) = varint (unat v)" by (rule varint_loop_eq)
  moreover have "length (clear_last (varint_loop v)) = length (varint_loop v)"
    by (simp add: clear_last_def)
  ultimately show ?thesis using False
    by (simp add: pb_encode_varint_def Let_def clear_last_def)
qed

lemma emits_varint [intro]: "emits (\<lambda>s. pb_encode_varint s v) (varint (unat v))"
  unfolding pb_encode_varint_eq
  using varint_length_u64 [of v] by (intro emits_pb_write) (simp add: unat_of_nat_u64)

lemma emits_string:
  assumes "length bs = unat len"
  shows "emits (\<lambda>s. pb_encode_string s bs len) (varint (length bs) @ bs)"
  unfolding pb_encode_string_def assms
  by (rule emits_attempt [OF emits_varint emits_pb_write [OF assms]])

subsection \<open>Decoders invert the reference format\<close>

lemma varint64_loop_varint:
  assumes "is_view s = Some (varint n @ rest)"
    and "unat result < 2 ^ unat bitpos" and "unat bitpos < 64"
    and "unat result + 2 ^ unat bitpos * n < 2 ^ 64"
  shows "varint64_loop s result bitpos =
    (Some (of_nat (unat result + 2 ^ unat bitpos * n)), is_advance (length (varint n)) s)"
  using assms
proof (induction n arbitrary: s result bitpos rule: varint.induct)
  case (1 n)
  let ?k = "unat bitpos"
  have nb: "\<not> 64 \<le> bitpos" using "1.prems"(3) by (simp add: word_le_nat_alt)
  show ?case
  proof (cases "n < 128")
    case True
    let ?b = "of_nat n :: u8"
    have b: "unat ?b = n" "?b AND 0x80 = 0" using True by (simp_all add: unat_varint_last u8_msb)
    have r: "pb_readbyte s = (Some ?b, is_advance 1 s)"
      using "1.prems"(1) True by (simp add: varint_small pb_readbyte_view)
    have b7: "unat (ucast (?b AND 0x7F) :: u64) = n" using b True by simp
    have "n * 2 ^ ?k < 2 ^ 64" using "1.prems"(4) by (simp add: mult.commute)
    then have "unat (result OR push_bit ?k (ucast (?b AND 0x7F))) = unat result + 2 ^ ?k * n"
      using unat_or_push_bit [OF "1.prems"(2), of "ucast (?b AND 0x7F) :: u64"]
      unfolding b7 by simp
    then have "result OR push_bit ?k (ucast (?b AND 0x7F)) = of_nat (unat result + 2 ^ ?k * n)"
      using "1.prems"(4) by (intro word_eq_by_unat) (simp only: unat_of_nat_u64)
    with nb r b True show ?thesis
      by (subst varint64_loop.simps) (simp add: varint_small Let_def)
  next
    case False
    let ?b = "of_nat (n mod 128 + 128) :: u8"
    let ?r = "result OR push_bit ?k (ucast (?b AND 0x7F))"
    have b: "unat ?b = n mod 128 + 128" by (rule unat_varint_byte)
    have b7: "unat (?b AND 0x7F) = n mod 128" using b by simp
    have b80: "?b AND 0x80 \<noteq> 0" using b u8_msb [of ?b] by simp
    have r: "pb_readbyte s = (Some ?b, is_advance 1 s)"
      using "1.prems"(1) False by (simp add: varint_big pb_readbyte_view)
    have pow: "(2 :: nat) ^ (?k + 7) = 2 ^ ?k * 128" by (simp add: power_add)
    have split: "2 ^ ?k * (n mod 128) + 2 ^ (?k + 7) * (n div 128) = 2 ^ ?k * n"
      by (simp only: pow) (metis add_mult_distrib2 mod_mult_div_eq mult.assoc)
    have "2 ^ (?k + 7) \<le> 2 ^ (?k + 7) * (n div 128)" using False by simp
    then have "(2 :: nat) ^ (?k + 7) < 2 ^ 64" using "1.prems"(4) split by linarith
    then have k7: "?k + 7 < 64" using power_less_imp_less_exp [of 2 "?k + 7" 64] by simp
    then have kb: "unat (bitpos + 7) = ?k + 7"
      by (simp add: unat_word_ariths)
    have le: "2 ^ ?k * (n mod 128) \<le> 2 ^ ?k * n" by simp
    have b7': "unat (ucast (?b AND 0x7F) :: u64) = n mod 128" using b7 by simp
    have "n mod 128 * 2 ^ ?k = 2 ^ ?k * (n mod 128)" by (rule mult.commute)
    then have "n mod 128 * 2 ^ ?k < 2 ^ 64" using "1.prems"(4) le by linarith
    then have ur: "unat ?r = unat result + 2 ^ ?k * (n mod 128)"
      using unat_or_push_bit [OF "1.prems"(2), of "ucast (?b AND 0x7F) :: u64"]
      unfolding b7' by simp
    have "2 ^ ?k * (n mod 128) \<le> 2 ^ ?k * 127" by (intro mult_le_mono2) simp
    then have rb: "unat ?r < 2 ^ unat (bitpos + 7)"
      using ur "1.prems"(2) unfolding kb pow by linarith
    have view: "is_view (is_advance 1 s) = Some (varint (n div 128) @ rest)"
      using "1.prems"(1) False by (simp add: varint_big)
    have eq: "unat ?r + 2 ^ unat (bitpos + 7) * (n div 128) = unat result + 2 ^ ?k * n"
      unfolding kb using ur split by simp
    have tot: "unat ?r + 2 ^ unat (bitpos + 7) * (n div 128) < 2 ^ 64"
      using "1.prems"(4) by (simp only: eq)
    have k7': "unat (bitpos + 7) < 64" using k7 by (simp only: kb)
    have "varint64_loop (is_advance 1 s) ?r (bitpos + 7) =
        (Some (of_nat (unat ?r + 2 ^ unat (bitpos + 7) * (n div 128))),
         is_advance (length (varint (n div 128))) (is_advance 1 s))"
      by (rule "1.IH" [OF False view rb k7' tot])
    then have "varint64_loop (is_advance 1 s) ?r (bitpos + 7) =
        (Some (of_nat (unat result + 2 ^ ?k * n)), is_advance (Suc (length (varint (n div 128)))) s)"
      by (simp only: eq is_advance_advance plus_1_eq_Suc)
    with nb r b80 show ?thesis using False
      by (subst varint64_loop.simps) (simp add: Let_def varint_big)
  qed
qed

lemma pb_decode_varint_view:
  assumes "is_view s = Some (varint (unat v) @ rest)"
  shows "pb_decode_varint s = (Some v, is_advance (length (varint (unat v))) s)"
  using varint64_loop_varint [OF assms, of 0 0] unat_u64_less [of v]
  by (simp add: pb_decode_varint_def)

text \<open>The 32-bit reader, on the encoding of a number that fits.\<close>

lemma u8_and_70: "unat (b :: u8) < 16 \<Longrightarrow> b AND 0x70 = 0"
proof -
  assume "unat b < 16"
  then have "unat (b AND mask 4) = unat b" by (simp only: unat_and_mask) simp
  then have "b = b AND mask 4" by (metis word_eq_by_unat)
  then have "b AND 0x70 = b AND (mask 4 AND 0x70)" by (metis and.assoc)
  also have "(mask 4 AND 0x70 :: u8) = 0" by (simp add: mask_eq_exp_minus_1)
  finally show ?thesis by simp
qed

lemma varint32_loop_varint:
  assumes "is_view s = Some (varint n @ rest)"
    and "unat result < 2 ^ unat bitpos" and "unat bitpos < 32"
    and "unat result + 2 ^ unat bitpos * n < 2 ^ 32"
  shows "\<exists>bitpos' byte. varint32_loop s result bitpos =
    (Some (of_nat (unat result + 2 ^ unat bitpos * n), bitpos', byte),
     is_advance (length (varint n)) s) \<and> (bitpos' = 35 \<longrightarrow> byte AND 0x70 = 0)"
  using assms
proof (induction n arbitrary: s result bitpos rule: varint.induct)
  case (1 n)
  let ?k = "unat bitpos"
  have nb: "\<not> 32 \<le> bitpos" using "1.prems"(3) by (simp add: word_le_nat_alt)
  show ?case
  proof (cases "n < 128")
    case True
    let ?b = "of_nat n :: u8"
    have b: "unat ?b = n" "?b AND 0x80 = 0" using True by (simp_all add: unat_varint_last u8_msb)
    have r: "pb_readbyte s = (Some ?b, is_advance 1 s)"
      using "1.prems"(1) True by (simp add: varint_small pb_readbyte_view)
    have b7: "unat (ucast (?b AND 0x7F) :: u32) = n" using b True by simp
    have "n * 2 ^ ?k < 2 ^ 32" using "1.prems"(4) by (simp add: mult.commute)
    then have "unat (result OR push_bit ?k (ucast (?b AND 0x7F))) = unat result + 2 ^ ?k * n"
      using unat_or_push_bit [OF "1.prems"(2), of "ucast (?b AND 0x7F) :: u32"]
      unfolding b7 by simp
    then have eq: "result OR push_bit ?k (ucast (?b AND 0x7F)) = of_nat (unat result + 2 ^ ?k * n)"
      using "1.prems"(4) unat_of_nat_id [where ?'a = 32, of "unat result + 2 ^ ?k * n"]
      by (intro word_eq_by_unat) simp
    have "?b AND 0x70 = 0" if "bitpos + 7 = 35"
    proof -
      have "bitpos = 35 - 7" using that by (metis add_diff_cancel_right')
      then have "?k = 28" by simp
      then have "n < 16" using "1.prems"(4) by simp
      then show ?thesis using b(1) by (intro u8_and_70) simp
    qed
    with nb r b(2) eq True show ?thesis
      by (subst varint32_loop.simps) (simp add: varint_small Let_def)
  next
    case False
    let ?b = "of_nat (n mod 128 + 128) :: u8"
    let ?r = "result OR push_bit ?k (ucast (?b AND 0x7F))"
    have b: "unat ?b = n mod 128 + 128" by (rule unat_varint_byte)
    have b80: "?b AND 0x80 \<noteq> 0" using b u8_msb [of ?b] by simp
    have r: "pb_readbyte s = (Some ?b, is_advance 1 s)"
      using "1.prems"(1) False by (simp add: varint_big pb_readbyte_view)
    have pow: "(2 :: nat) ^ (?k + 7) = 2 ^ ?k * 128" by (simp add: power_add)
    have split: "2 ^ ?k * (n mod 128) + 2 ^ (?k + 7) * (n div 128) = 2 ^ ?k * n"
      by (simp only: pow) (metis add_mult_distrib2 mod_mult_div_eq mult.assoc)
    have "2 ^ (?k + 7) \<le> 2 ^ (?k + 7) * (n div 128)" using False by simp
    then have "(2 :: nat) ^ (?k + 7) < 2 ^ 32" using "1.prems"(4) split by linarith
    then have k7: "?k + 7 < 32" using power_less_imp_less_exp [of 2 "?k + 7" 32] by simp
    then have kb: "unat (bitpos + 7) = ?k + 7"
      by (simp add: unat_word_ariths)
    have le: "2 ^ ?k * (n mod 128) \<le> 2 ^ ?k * n" by simp
    have b7: "unat (ucast (?b AND 0x7F) :: u32) = n mod 128" using b by simp
    have "n mod 128 * 2 ^ ?k = 2 ^ ?k * (n mod 128)" by (rule mult.commute)
    then have "n mod 128 * 2 ^ ?k < 2 ^ 32" using "1.prems"(4) le by linarith
    then have ur: "unat ?r = unat result + 2 ^ ?k * (n mod 128)"
      using unat_or_push_bit [OF "1.prems"(2), of "ucast (?b AND 0x7F) :: u32"]
      unfolding b7 by simp
    have "2 ^ ?k * (n mod 128) \<le> 2 ^ ?k * 127" by (intro mult_le_mono2) simp
    then have rb: "unat ?r < 2 ^ unat (bitpos + 7)"
      using ur "1.prems"(2) unfolding kb pow by linarith
    have view: "is_view (is_advance 1 s) = Some (varint (n div 128) @ rest)"
      using "1.prems"(1) False by (simp add: varint_big)
    have eq: "unat ?r + 2 ^ unat (bitpos + 7) * (n div 128) = unat result + 2 ^ ?k * n"
      unfolding kb using ur split by simp
    have tot: "unat ?r + 2 ^ unat (bitpos + 7) * (n div 128) < 2 ^ 32"
      using "1.prems"(4) by (simp only: eq)
    have k7': "unat (bitpos + 7) < 32" using k7 by (simp only: kb)
    have "varint32_loop s result bitpos = varint32_loop (is_advance 1 s) ?r (bitpos + 7)"
      using nb r b80 by (subst varint32_loop.simps) (simp add: Let_def)
    then show ?thesis
      using "1.IH" [OF False view rb k7' tot] False
      by (simp only: eq is_advance_advance plus_1_eq_Suc) (simp add: varint_big)
  qed
qed

lemma pb_decode_varint32_eof_view:
  assumes "is_view s = Some (varint (unat v) @ rest)"
  shows "pb_decode_varint32_eof s = (Some v, False, is_advance (length (varint (unat v))) s)"
proof (cases "unat v < 128")
  case True
  then have "pb_readbyte s = (Some (of_nat (unat v)), is_advance 1 s)"
    using assms by (simp add: varint_small pb_readbyte_view)
  moreover have "(of_nat (unat v) :: u8) AND 0x80 = 0"
    by (simp only: u8_msb unat_varint_last [OF True] True)
  moreover have "ucast (of_nat (unat v) :: u8) = v"
    using True by (intro word_eq_by_unat) (simp add: unat_ucast_mod)
  ultimately show ?thesis using True by (simp add: pb_decode_varint32_eof_def varint_small)
next
  case False
  let ?n = "unat v" and ?b = "of_nat (unat v mod 128 + 128) :: u8"
  have r: "pb_readbyte s = (Some ?b, is_advance 1 s)"
    using assms False by (simp add: varint_big pb_readbyte_view)
  have b: "unat ?b = ?n mod 128 + 128" by (rule unat_varint_byte)
  have b80: "?b AND 0x80 \<noteq> 0" using b u8_msb [of ?b] by simp
  have b7: "unat (ucast (?b AND 0x7F) :: u32) = ?n mod 128" using b by simp
  have view: "is_view (is_advance 1 s) = Some (varint (?n div 128) @ rest)"
    using assms False by (simp add: varint_big)
  have seven: "unat (7 :: u8) = 7" by simp
  have eq: "unat (ucast (?b AND 0x7F) :: u32) + 2 ^ unat (7 :: u8) * (?n div 128) = ?n"
    unfolding b7 seven by simp
  have lt: "unat (ucast (?b AND 0x7F) :: u32) < 2 ^ unat (7 :: u8)"
    unfolding b7 seven by simp
  have tot: "unat (ucast (?b AND 0x7F) :: u32) + 2 ^ unat (7 :: u8) * (?n div 128) < 2 ^ 32"
    unfolding eq using unat_less_2p [of v] by simp
  have lt32: "unat (7 :: u8) < 32" by simp
  obtain bitpos' byte where
    "varint32_loop (is_advance 1 s) (ucast (?b AND 0x7F)) 7 =
      (Some (of_nat ?n, bitpos', byte), is_advance (length (varint (?n div 128))) (is_advance 1 s))"
    "bitpos' = 35 \<longrightarrow> byte AND 0x70 = 0"
    using varint32_loop_varint [OF view lt lt32 tot] unfolding eq by blast
  with r b80 False show ?thesis
    by (auto simp: pb_decode_varint32_eof_def varint_big)
qed

lemma pb_decode_varint32_view:
  "is_view s = Some (varint (unat v) @ rest) \<Longrightarrow>
     pb_decode_varint32 s = (Some v, is_advance (length (varint (unat v))) s)"
  by (simp add: pb_decode_varint32_def pb_decode_varint32_eof_view)

subsection \<open>Fixed-width values, zig-zag, tags\<close>

lemma byte_at_nth: "i < length bs \<Longrightarrow> byte_at bs i = bs ! i"
  by (simp add: byte_at_def)

lemma pb_encode_fixed32_eq: "pb_encode_fixed32 s v = pb_write s (le_bytes 4 (unat v)) 4"
  by (simp add: pb_encode_fixed32_def le_bytes_word ucast_and_ff upt_rec)

lemma pb_encode_fixed64_eq: "pb_encode_fixed64 s v = pb_write s (le_bytes 8 (unat v)) 8"
  by (simp add: pb_encode_fixed64_def le_bytes_word ucast_and_ff upt_rec)

lemma emits_fixed32 [intro]: "emits (\<lambda>s. pb_encode_fixed32 s v) (le_bytes 4 (unat v))"
  unfolding pb_encode_fixed32_eq by (rule emits_pb_write) simp

lemma emits_fixed64 [intro]: "emits (\<lambda>s. pb_encode_fixed64 s v) (le_bytes 8 (unat v))"
  unfolding pb_encode_fixed64_eq by (rule emits_pb_write) simp

lemma list4: "length bs = 4 \<Longrightarrow> \<exists>a b c d. bs = [a, b, c, d]"
  by (auto simp: numeral_eq_Suc length_Suc_conv)

lemma list8: "length bs = 8 \<Longrightarrow> \<exists>a b c d e f g h. bs = [a, b, c, d, e, f, g, h]"
  by (auto simp: numeral_eq_Suc length_Suc_conv)

lemma pb_decode_fixed32_view:
  assumes "is_view s = Some (bs @ rest)" "length bs = 4"
  shows "pb_decode_fixed32 s = (Some (of_nat (le_val bs)), is_advance 4 s)"
proof -
  obtain a b c d where bs: "bs = [a, b, c, d]" using list4 [OF assms(2)] by auto
  have "pb_read s 4 = (Some bs, is_advance 4 s)"
    using pb_read_view [OF assms(1), of 4] assms(2) by simp
  moreover have "ucast a OR push_bit 8 (ucast b) OR push_bit 16 (ucast c) OR push_bit 24 (ucast d)
      = (of_nat (le_val bs) :: u32)"
    unfolding bs by (rule word_eq_of_nat [OF u32_of_bytes])
  ultimately show ?thesis by (simp add: pb_decode_fixed32_def bs byte_at_def)
qed

lemma pb_decode_fixed64_view:
  assumes "is_view s = Some (bs @ rest)" "length bs = 8"
  shows "pb_decode_fixed64 s = (Some (of_nat (le_val bs)), is_advance 8 s)"
proof -
  obtain a b c d e f g h where bs: "bs = [a, b, c, d, e, f, g, h]"
    using list8 [OF assms(2)] by auto
  have "pb_read s 8 = (Some bs, is_advance 8 s)"
    using pb_read_view [OF assms(1), of 8] assms(2) by simp
  moreover have "ucast a OR push_bit 8 (ucast b) OR push_bit 16 (ucast c) OR push_bit 24 (ucast d)
      OR push_bit 32 (ucast e) OR push_bit 40 (ucast f) OR push_bit 48 (ucast g) OR push_bit 56 (ucast h)
      = (of_nat (le_val bs) :: u64)"
    unfolding bs by (rule word_eq_of_nat [OF u64_of_bytes])
  ultimately show ?thesis by (simp add: pb_decode_fixed64_def bs byte_at_def)
qed

end
