(* ===== verification/Pb_Wire.thy ===== *)
theory Pb_Wire
  imports Pb_Prim
begin

text \<open>
  Contracts of the nanopb primitives: every encoder composed with its decoder, stated
  through the \<open>prefix_codec\<close> interface, the memory safety of the readers, the skipping of
  unknown fields, substreams, and the exact limits of the 32-bit varint reader.
\<close>

subsection \<open>Running an encoder into a buffer and a decoder over a byte string\<close>

definition pb_written :: "(unit pb_ostream \<Rightarrow> (unit, unit pb_ostream) outcome) \<Rightarrow> nat \<Rightarrow> u8 list" where
  "pb_written E cap =
     (case E (pb_ostream_from_buffer (replicate cap 0) (of_nat cap)) of
        (Some _, s) \<Rightarrow>
          (case os_sink s of Out_buf dest pos \<Rightarrow> take (unat (os_bytes_written s)) dest | _ \<Rightarrow> [])
      | (None, _) \<Rightarrow> [])"

definition pb_parsed :: "(unit pb_istream \<Rightarrow> ('a, unit pb_istream) outcome) \<Rightarrow> u8 list \<Rightarrow> ('a, u8 list) outcome" where
  "pb_parsed D bs =
     (case D (pb_istream_from_buffer bs (of_nat (length bs))) of
        (r, s) \<Rightarrow> (r, case is_source s of
                         In_buf src \<Rightarrow> take (unat (is_bytes_left s)) src | In_user _ _ \<Rightarrow> []))"

definition fits_size_t :: "u8 list \<Rightarrow> bool" where
  "fits_size_t bs \<longleftrightarrow> length bs < 2 ^ 64"

lemma fits_size_t_suffix: "fits_size_t (xs @ ys) \<Longrightarrow> fits_size_t ys"
  by (simp add: fits_size_t_def)

lemma pb_written_emits:
  assumes "emits E bs" "length bs \<le> cap" "cap < 2 ^ 64"
  shows "pb_written E cap = bs"
proof -
  have c: "unat (of_nat cap :: u64) = cap" using assms(3) by (rule unat_of_nat_u64)
  have l: "unat (of_nat (length bs) :: u64) = length bs" using assms by (simp add: unat_of_nat_u64)
  show ?thesis
    using emits_buffer [OF assms(1), of "of_nat cap" "replicate cap 0"] assms(2) c l
    by (simp add: pb_written_def)
qed

lemma pb_parsed_view:
  assumes "\<And>s :: unit pb_istream. is_view s = Some (bs @ rest) \<Longrightarrow> D s = (Some x, is_advance (length bs) s)"
    and "length (bs @ rest) < 2 ^ 64"
  shows "pb_parsed D (bs @ rest) = (Some x, rest)"
proof -
  let ?s = "pb_istream_from_buffer (bs @ rest) (of_nat (length (bs @ rest))) :: unit pb_istream"
  have v: "is_view ?s = Some (bs @ rest)"
    using is_view_from_buffer [of "bs @ rest" "[]"] assms(2) by simp
  then have D: "D ?s = (Some x, is_advance (length bs) ?s)" by (rule assms(1))
  have "is_view (is_advance (length bs) ?s) = Some rest" using v by simp
  then show ?thesis unfolding pb_parsed_def D by (auto simp: is_view_Some)
qed

subsection \<open>Zig-zag and tags\<close>

definition zigzag :: "u64 \<Rightarrow> u64" where
  "zigzag v = (if sint v < 0 then NOT (push_bit 1 v) else push_bit 1 v)"

definition unzigzag :: "u64 \<Rightarrow> u64" where
  "unzigzag z = (if z AND 1 \<noteq> 0 then NOT (drop_bit 1 z) else drop_bit 1 z)"

lemma unzigzag_zigzag: "unzigzag (zigzag v) = v"
proof -
  have neg: "sint v < 0 \<longleftrightarrow> bit v 63" using bit_last_iff [of v] by simp
  have odd: "z AND 1 \<noteq> 0 \<longleftrightarrow> bit z 0" for z :: u64
    by (simp add: and_one_eq bit_0 odd_iff_mod_2_eq_one)
  define p where "p = push_bit 1 v"
  have p: "bit p n \<longleftrightarrow> 1 \<le> n \<and> n < 64 \<and> bit v (n - 1)" for n
    unfolding p_def by (auto simp only: bit_push_bit_iff possible_bit_word)
      (auto dest: bit_imp_le_length)
  show ?thesis
    unfolding unzigzag_def zigzag_def odd neg p_def [symmetric]
  proof (rule bit_word_eqI)
    fix n assume n: "n < LENGTH(64)"
    let ?z = "if bit v 63 then NOT p else p"
    show "bit (if bit ?z 0 then NOT (drop_bit 1 ?z) else drop_bit 1 ?z) n = bit v n"
      using n by (cases "n = 63") (auto simp: bit_simps p)
  qed
qed

lemma emits_svarint: "emits (\<lambda>s. pb_encode_svarint s v) (varint (unat (zigzag v)))"
  unfolding pb_encode_svarint_def Let_def zigzag_def [symmetric] by (rule emits_varint)

lemma pb_decode_svarint_view:
  "is_view s = Some (varint (unat (zigzag v)) @ rest) \<Longrightarrow>
     pb_decode_svarint s = (Some v, is_advance (length (varint (unat (zigzag v)))) s)"
  using unzigzag_zigzag [of v]
  by (simp add: pb_decode_svarint_def pb_decode_varint_view unzigzag_def)

definition tag_key :: "u32 \<Rightarrow> u32 \<Rightarrow> nat" where
  "tag_key wt n = unat n * 8 + unat wt"

lemma emits_tag:
  assumes "unat wt < 8"
  shows "emits (\<lambda>s. pb_encode_tag s wt n) (varint (tag_key wt n))"
proof -
  have "unat n * 2 ^ 3 < 2 ^ 64" using unat_less_2p [of n] by simp
  then have "unat (ucast n :: u64) * 2 ^ 3 < 2 ^ LENGTH(64)" by simp
  with unat_or_push_bit [of "ucast wt :: u64" 3 "ucast n"] assms
  have "unat (ucast wt OR push_bit 3 (ucast n) :: u64) = tag_key wt n"
    by (simp add: tag_key_def)
  then have "unat (push_bit 3 (ucast n) OR ucast wt :: u64) = tag_key wt n"
    by (simp only: or.commute)
  then show ?thesis
    unfolding pb_encode_tag_def Let_def using emits_varint by metis
qed

lemma pb_decode_tag_view:
  assumes "is_view s = Some (varint (tag_key wt n) @ rest)"
    and "unat wt < 8" "unat n < 2 ^ 29" "0 < tag_key wt n"
  shows "pb_decode_tag s = (Some (wt, n), False, is_advance (length (varint (tag_key wt n))) s)"
proof -
  let ?t = "of_nat (tag_key wt n) :: u32"
  have lt: "tag_key wt n < 2 ^ LENGTH(32)" using assms(2,3) by (simp add: tag_key_def)
  have t: "unat ?t = tag_key wt n" using lt by (rule unat_of_nat_id)
  have "pb_decode_varint32_eof s = (Some ?t, False, is_advance (length (varint (tag_key wt n))) s)"
    using pb_decode_varint32_eof_view [of s ?t rest] assms(1) t by simp
  moreover have "?t \<noteq> 0" using t assms(4) by (metis less_irrefl unat_0)
  moreover have "?t AND 7 = wt"
  proof (rule word_eq_by_unat)
    have "unat (?t AND mask 3) = unat ?t mod 2 ^ 3" by (rule unat_and_mask)
    then show "unat (?t AND 7) = unat wt"
      using assms(2) unfolding t by (simp add: mask_eq_exp_minus_1 tag_key_def)
  qed
  moreover have "drop_bit 3 ?t = n"
    using assms(2) by (intro word_eq_by_unat) (simp only: unat_drop_bit_div t, simp add: tag_key_def)
  ultimately show ?thesis by (simp add: pb_decode_tag_def)
qed

subsection \<open>The codec interface on the model's encoders and decoders\<close>

abbreviation (input) enc_varint :: "u64 \<Rightarrow> u8 list" where
  "enc_varint v \<equiv> pb_written (\<lambda>s. pb_encode_varint s v) 10"

lemma pb_written_varint: "pb_written (\<lambda>s. pb_encode_varint s v) 10 = varint (unat v)"
  using varint_length_u64 [of v] by (intro pb_written_emits) auto

lemma pb_written_svarint: "pb_written (\<lambda>s. pb_encode_svarint s v) 10 = varint (unat (zigzag v))"
  using varint_length_u64 [of "zigzag v"] by (intro pb_written_emits emits_svarint) auto

lemma pb_written_fixed32: "pb_written (\<lambda>s. pb_encode_fixed32 s v) 4 = le_bytes 4 (unat v)"
  by (intro pb_written_emits) auto

lemma pb_written_fixed64: "pb_written (\<lambda>s. pb_encode_fixed64 s v) 8 = le_bytes 8 (unat v)"
  by (intro pb_written_emits) auto

interpretation varint: prefix_codec
  "\<lambda>v. pb_written (\<lambda>s. pb_encode_varint s v) 10" "pb_parsed pb_decode_varint" "\<lambda>_. True" fits_size_t
proof (unfold_locales, goal_cases)
  case (1 xs ys)
  then show ?case by (rule fits_size_t_suffix)
next
  case (2 v rest)
  then show ?case unfolding pb_written_varint fits_size_t_def
    by (intro pb_parsed_view pb_decode_varint_view)
qed

interpretation svarint: prefix_codec
  "\<lambda>v. pb_written (\<lambda>s. pb_encode_svarint s v) 10" "pb_parsed pb_decode_svarint" "\<lambda>_. True" fits_size_t
proof (unfold_locales, goal_cases)
  case (1 xs ys)
  then show ?case by (rule fits_size_t_suffix)
next
  case (2 v rest)
  then show ?case unfolding pb_written_svarint fits_size_t_def
    by (intro pb_parsed_view pb_decode_svarint_view)
qed

interpretation fixed32: prefix_codec
  "\<lambda>v. pb_written (\<lambda>s. pb_encode_fixed32 s v) 4" "pb_parsed pb_decode_fixed32" "\<lambda>_. True" fits_size_t
proof (unfold_locales, goal_cases)
  case (1 xs ys)
  then show ?case by (rule fits_size_t_suffix)
next
  case (2 v rest)
  have "of_nat (le_val (le_bytes 4 (unat v))) = v"
    using unat_less_2p [of v] by (simp add: le_val_le_bytes)
  with 2 show ?case unfolding pb_written_fixed32 fits_size_t_def
    by (intro pb_parsed_view) (simp_all add: pb_decode_fixed32_view)
qed

interpretation fixed64: prefix_codec
  "\<lambda>v. pb_written (\<lambda>s. pb_encode_fixed64 s v) 8" "pb_parsed pb_decode_fixed64" "\<lambda>_. True" fits_size_t
proof (unfold_locales, goal_cases)
  case (1 xs ys)
  then show ?case by (rule fits_size_t_suffix)
next
  case (2 v rest)
  have "of_nat (le_val (le_bytes 8 (unat v))) = v"
    using unat_u64_less [of v] by (simp add: le_val_le_bytes)
  with 2 show ?case unfolding pb_written_fixed64 fits_size_t_def
    by (intro pb_parsed_view) (simp_all add: pb_decode_fixed64_view)
qed

subsection \<open>Readers stay inside the buffer\<close>

text \<open>
  \<open>reads s s'\<close>: from a buffer stream whose \<open>bytes_left\<close> lies inside the caller's buffer,
  \<open>s'\<close> is reached by consuming some number of those bytes and touching no others.
\<close>

definition reads :: "'s pb_istream \<Rightarrow> 's pb_istream \<Rightarrow> bool" where
  "reads s s' \<longleftrightarrow>
     (\<forall>src. is_source s = In_buf src \<longrightarrow> unat (is_bytes_left s) \<le> length src \<longrightarrow> \<not> is_oob s \<longrightarrow>
        (\<exists>k \<le> unat (is_bytes_left s).
           is_source s' = In_buf (drop k src) \<and>
           unat (is_bytes_left s') = unat (is_bytes_left s) - k \<and> \<not> is_oob s'))"

lemma reads_refl [simp, intro]: "reads s s"
  by (auto simp: reads_def)

lemma reads_trans:
  assumes "reads s t" "reads t u"
  shows "reads s u"
  unfolding reads_def
proof (intro allI impI)
  fix src
  assume s: "is_source s = In_buf src" "unat (is_bytes_left s) \<le> length src" "\<not> is_oob s"
  from assms(1) s obtain k where k: "k \<le> unat (is_bytes_left s)"
    "is_source t = In_buf (drop k src)" "unat (is_bytes_left t) = unat (is_bytes_left s) - k" "\<not> is_oob t"
    by (auto simp: reads_def)
  then have "unat (is_bytes_left t) \<le> length (drop k src)" using s by simp
  with assms(2) k obtain j where j: "j \<le> unat (is_bytes_left t)"
    "is_source u = In_buf (drop j (drop k src))" "unat (is_bytes_left u) = unat (is_bytes_left t) - j" "\<not> is_oob u"
    by (auto simp: reads_def)
  then show "\<exists>k\<le>unat (is_bytes_left s). is_source u = In_buf (drop k src) \<and>
      unat (is_bytes_left u) = unat (is_bytes_left s) - k \<and> \<not> is_oob u"
    using k by (intro exI [of _ "k + j"]) (auto simp: add.commute)
qed

lemma reads_set_error [simp]: "reads s (PB_SET_ERROR t msg) = reads s t"
  by (simp add: reads_def PB_SET_ERROR_def)

definition reader :: "('s pb_istream \<Rightarrow> ('a, 's pb_istream) outcome) \<Rightarrow> bool" where
  "reader f \<longleftrightarrow> (\<forall>s. reads s (snd (f s)))"

lemma reads_attempt:
  assumes "reads s (snd r)" "\<And>x t. r = (Some x, t) \<Longrightarrow> reads t (snd (k x t))"
  shows "reads s (snd (attempt r k))"
  using assms by (cases r) (auto simp: attempt_def intro: reads_trans split: option.splits)

lemma reads_error [simp]: "reads s (snd (PB_RETURN_ERROR t msg)) = reads s t"
  by (simp add: PB_RETURN_ERROR_def)

lemma reader_read: "reads s (snd (pb_read s n))"
proof (cases "n = 0 \<or> is_bytes_left s < n")
  case True
  then show ?thesis by (auto simp: pb_read_def)
next
  case False
  then have "n \<le> is_bytes_left s" by auto
  with False show ?thesis
    by (auto simp: reads_def pb_read_def is_call_def buf_read_def word_le_nat_alt unat_sub_le
        intro!: exI [of _ "unat n"])
qed

lemma reader_readbyte: "reads s (snd (pb_readbyte s))"
  by (auto simp: pb_readbyte_eq_read intro!: reads_attempt reader_read)

lemma reader_skip_user: "reads s (snd (pb_skip_user s n))"
proof (induction s n rule: pb_skip_user.induct)
  case (1 s n)
  show ?case
    by (subst pb_skip_user.simps) (auto intro!: reads_attempt reader_read "1.IH")
qed

lemma reader_read_null: "reads s (snd (pb_read_null s n))"
  by (auto simp: pb_read_null_def intro!: reads_attempt reader_read reader_skip_user)

lemma reader_varint32_loop: "reads s (snd (varint32_loop s r k))"
proof (induction s r k rule: varint32_loop.induct)
  case (1 s r k)
  show ?case
    by (subst varint32_loop.simps)
      (auto simp: Let_def intro!: reads_attempt reader_readbyte "1.IH")
qed

lemma reader_varint32_eof:
  assumes "pb_decode_varint32_eof s = (r, e, s')"
  shows "reads s s'"
proof -
  obtain rb t where rb: "pb_readbyte s = (rb, t)" by (cases "pb_readbyte s")
  have st: "reads s t" using reader_readbyte [of s] rb by simp
  show ?thesis
  proof (cases rb)
    case None
    then have "s' = t" using assms rb by (simp add: pb_decode_varint32_eof_def)
    with st show ?thesis by simp
  next
    case (Some byte)
    show ?thesis
    proof (cases "byte AND 0x80 = 0")
      case True
      then have "s' = t" using assms rb Some by (simp add: pb_decode_varint32_eof_def)
      with st show ?thesis by simp
    next
      case False
      obtain rl u where rl: "varint32_loop t (ucast (byte AND 0x7F)) 7 = (rl, u)"
        by (cases "varint32_loop t (ucast (byte AND 0x7F)) 7")
      have "reads t u" using reader_varint32_loop [of t "ucast (byte AND 0x7F)" 7] rl by simp
      then have su: "reads s u" using st reads_trans by blast
      have "s' = u \<or> (\<exists>msg. s' = PB_SET_ERROR u msg)"
        using assms rb Some False rl
        by (auto simp: pb_decode_varint32_eof_def split: option.splits prod.splits if_splits)
      with su show ?thesis by auto
    qed
  qed
qed

lemma reader_varint32: "reads s (snd (pb_decode_varint32 s))"
  using reader_varint32_eof [of s] by (auto simp: pb_decode_varint32_def split: prod.splits)

lemma reader_varint64_loop: "reads s (snd (varint64_loop s r k))"
proof (induction s r k rule: varint64_loop.induct)
  case (1 s r k)
  show ?case
    by (subst varint64_loop.simps)
      (auto simp: Let_def intro!: reads_attempt reader_readbyte "1.IH")
qed

lemma reader_skip_varint: "reads s (snd (pb_skip_varint s))"
proof (induction s rule: pb_skip_varint.induct)
  case (1 s)
  show ?case
    by (subst pb_skip_varint.simps) (auto intro!: reads_attempt reader_read "1.IH")
qed

lemma reader_skip_field: "reads s (snd (pb_skip_field s wt))"
  by (auto simp: pb_skip_field_def pb_skip_string_def
      intro!: reads_attempt reader_skip_varint reader_read_null reader_varint32)

lemma reader_raw_varint_loop: "reads s (snd (raw_varint_loop s n acc))"
proof (induction s n acc rule: raw_varint_loop.induct)
  case (1 s n acc)
  show ?case
    by (subst raw_varint_loop.simps) (auto intro!: reads_attempt reader_read "1.IH")
qed

lemmas reader_facts =
  reader_read reader_readbyte reader_read_null reader_varint32 reader_varint64_loop
  reader_skip_varint reader_skip_field reader_raw_varint_loop


lemma reads_no_oob:
  assumes "is_view s = Some bs" "reads s s'"
  shows "\<exists>k \<le> length bs. is_view s' = Some (drop k bs)"
proof -
  from assms(1) obtain src where src: "is_source s = In_buf src"
      "unat (is_bytes_left s) \<le> length src" "\<not> is_oob s" "bs = take (unat (is_bytes_left s)) src"
    by (auto simp: is_view_Some)
  from assms(2) src obtain k where "k \<le> unat (is_bytes_left s)"
    "is_source s' = In_buf (drop k src)" "unat (is_bytes_left s') = unat (is_bytes_left s) - k" "\<not> is_oob s'"
    by (auto simp: reads_def)
  with src show ?thesis
    by (intro exI [of _ k]) (auto simp: is_view_Some drop_take min_def)
qed

subsection \<open>Skipping and substreams\<close>

lemma pb_skip_varint_view:
  "is_view s = Some (varint n @ rest) \<Longrightarrow>
     pb_skip_varint s = (Some (), is_advance (length (varint n)) s)"
proof (induction n arbitrary: s rule: varint.induct)
  case (1 n)
  show ?case
  proof (cases "n < 128")
    case True
    let ?b = "of_nat n :: u8"
    have b: "?b AND 0x80 = 0" by (simp only: u8_msb unat_varint_last [OF True] True)
    have "pb_read s 1 = (Some [?b], is_advance 1 s)"
      using "1.prems" True pb_read_view [of s "[?b]" rest 1] by (simp add: varint_small)
    with b True show ?thesis
      by (subst pb_skip_varint.simps) (simp add: byte_at_def varint_small)
  next
    case False
    let ?b = "of_nat (n mod 128 + 128) :: u8"
    have b: "?b AND 0x80 \<noteq> 0" using unat_varint_byte [of n] u8_msb [of ?b] by simp
    have r: "pb_read s 1 = (Some [?b], is_advance 1 s)"
      using "1.prems" False pb_read_view [of s "[?b]" _ 1] by (simp add: varint_big)
    have "is_view (is_advance 1 s) = Some (varint (n div 128) @ rest)"
      using "1.prems" False by (simp add: varint_big)
    with "1.IH" [OF False] r b False show ?thesis
      by (subst pb_skip_varint.simps) (simp add: byte_at_def varint_big)
  qed
qed

lemma pb_skip_string_view:
  assumes "is_view s = Some (varint (length d) @ d @ rest)" "length d < 2 ^ 32"
  shows "pb_skip_string s = (Some (), is_advance (length (varint (length d) @ d)) s)"
proof -
  let ?l = "of_nat (length d) :: u32"
  have l: "unat ?l = length d" using assms(2) by (intro unat_of_nat_id) simp
  then have d: "pb_decode_varint32 s = (Some ?l, is_advance (length (varint (length d))) s)"
    using pb_decode_varint32_view [of s ?l "d @ rest"] assms(1) by simp
  let ?s = "is_advance (length (varint (length d))) s"
  have "is_view ?s = Some (d @ rest)" using assms(1) by simp
  moreover have "length d = unat (ucast ?l :: u64)"
    using assms(2) unat_of_nat_id [where ?'a = 32, of "length d"] by simp
  ultimately have "pb_read_null ?s (ucast ?l) = (Some (), is_advance (length d) ?s)"
    by (rule pb_read_null_view)
  with d show ?thesis by (simp add: pb_skip_string_def)
qed

text \<open>A value of each wire type, and the encoders that write a field with such a value.\<close>

datatype wire_value = W_varint u64 | W_64bit u64 | W_string "u8 list" | W_32bit u32

fun wire_type_of :: "wire_value \<Rightarrow> u32" where
  "wire_type_of (W_varint _) = PB_WT_VARINT"
| "wire_type_of (W_64bit _) = PB_WT_64BIT"
| "wire_type_of (W_string _) = PB_WT_STRING"
| "wire_type_of (W_32bit _) = PB_WT_32BIT"

fun wire_bytes :: "wire_value \<Rightarrow> u8 list" where
  "wire_bytes (W_varint v) = varint (unat v)"
| "wire_bytes (W_64bit v) = le_bytes 8 (unat v)"
| "wire_bytes (W_string d) = varint (length d) @ d"
| "wire_bytes (W_32bit v) = le_bytes 4 (unat v)"

fun write_value :: "'s pb_ostream \<Rightarrow> wire_value \<Rightarrow> (unit, 's pb_ostream) outcome" where
  "write_value s (W_varint v) = pb_encode_varint s v"
| "write_value s (W_64bit v) = pb_encode_fixed64 s v"
| "write_value s (W_string d) = pb_encode_string s d (of_nat (length d))"
| "write_value s (W_32bit v) = pb_encode_fixed32 s v"

definition write_field :: "'s pb_ostream \<Rightarrow> u32 \<Rightarrow> wire_value \<Rightarrow> (unit, 's pb_ostream) outcome" where
  "write_field s n w =
     attempt (pb_encode_tag s (wire_type_of w) n) (\<lambda>_ s. write_value s w)"

definition read_tag :: "'s pb_istream \<Rightarrow> (u32 \<times> u32, 's pb_istream) outcome" where
  "read_tag s = (case pb_decode_tag s of (r, _, s) \<Rightarrow> (r, s))"

definition skip_tagged :: "'s pb_istream \<Rightarrow> (u32, 's pb_istream) outcome" where
  "skip_tagged s =
     attempt (read_tag s) (\<lambda>(wt, n) s. attempt (pb_skip_field s wt) (\<lambda>_ s. (Some n, s)))"

fun wire_ok :: "wire_value \<Rightarrow> bool" where
  "wire_ok (W_string d) \<longleftrightarrow> length d < 2 ^ 32"
| "wire_ok _ \<longleftrightarrow> True"

definition field_bytes :: "u32 \<Rightarrow> wire_value \<Rightarrow> u8 list" where
  "field_bytes n w = varint (tag_key (wire_type_of w) n) @ wire_bytes w"

lemma wire_type_less [simp]: "unat (wire_type_of w) < 8"
  by (cases w) (simp_all add: pb_wt_defs)

lemma emits_value: "wire_ok w \<Longrightarrow> emits (\<lambda>s. write_value s w) (wire_bytes w)"
  by (cases w) (auto intro!: emits_string simp: unat_of_nat_u64)

lemma emits_field: "wire_ok w \<Longrightarrow> emits (\<lambda>s. write_field s n w) (field_bytes n w)"
  unfolding write_field_def field_bytes_def by (intro emits_attempt emits_tag emits_value) simp

lemma pb_skip_field_view:
  assumes "is_view s = Some (wire_bytes w @ rest)" "wire_ok w"
  shows "pb_skip_field s (wire_type_of w) = (Some (), is_advance (length (wire_bytes w)) s)"
proof (cases w)
  case (W_varint v)
  with assms show ?thesis by (simp add: pb_skip_field_def pb_wt_defs pb_skip_varint_view)
next
  case (W_64bit v)
  with assms show ?thesis
    using pb_read_null_view [of s "le_bytes 8 (unat v)" rest 8]
    by (simp add: pb_skip_field_def pb_wt_defs)
next
  case (W_string d)
  with assms show ?thesis
    using pb_skip_string_view [of s d rest] by (simp add: pb_skip_field_def pb_wt_defs)
next
  case (W_32bit v)
  with assms show ?thesis
    using pb_read_null_view [of s "le_bytes 4 (unat v)" rest 4]
    by (simp add: pb_skip_field_def pb_wt_defs)
qed

lemma skip_tagged_view:
  assumes "is_view s = Some (field_bytes n w @ rest)" "wire_ok w" "0 < n" "n < 2 ^ 29"
  shows "skip_tagged s = (Some n, is_advance (length (field_bytes n w)) s)"
proof -
  let ?k = "tag_key (wire_type_of w) n"
  have n: "0 < unat n" using assms(3) by (simp add: word_less_nat_alt)
  have n29: "unat n < 2 ^ 29" using assms(4) by (simp add: word_less_nat_alt)
  have k0: "0 < ?k" using n by (simp add: tag_key_def)
  have "is_view s = Some (varint ?k @ (wire_bytes w @ rest))"
    using assms(1) by (simp add: field_bytes_def)
  from pb_decode_tag_view [OF this wire_type_less n29 k0]
  have t: "read_tag s = (Some (wire_type_of w, n), is_advance (length (varint ?k)) s)"
    by (simp add: read_tag_def)
  have "is_view (is_advance (length (varint ?k)) s) = Some (wire_bytes w @ rest)"
    using assms(1) by (simp add: field_bytes_def)
  from pb_skip_field_view [OF this assms(2)] t show ?thesis
    by (simp add: skip_tagged_def field_bytes_def)
qed

lemma pb_make_string_substream_view:
  assumes "is_view s = Some (varint (length d) @ d @ rest)" "length d < 2 ^ 32"
  shows "\<exists>sub s1. pb_make_string_substream s = (Some sub, s1) \<and> is_view sub = Some d \<and>
     (\<forall>sub'. reads sub sub' \<longrightarrow>
        (\<exists>s2. pb_close_string_substream s1 sub' = (Some (), s2) \<and> is_view s2 = Some rest \<and> reads s s2))"
proof -
  let ?l = "of_nat (length d) :: u32"
  have l: "unat (ucast ?l :: u64) = length d"
    using assms(2) unat_of_nat_id [where ?'a = 32, of "length d"] by simp
  let ?s = "is_advance (length (varint (length d))) s"
  have dec: "pb_decode_varint32 s = (Some ?l, ?s)"
    using pb_decode_varint32_view [of s ?l "d @ rest"] assms unat_of_nat_id [where ?'a = 32, of "length d"]
    by simp
  have v: "is_view ?s = Some (d @ rest)" using assms(1) by simp
  then obtain src where src: "is_source ?s = In_buf src"
      "unat (is_bytes_left ?s) \<le> length src" "\<not> is_oob ?s"
      "d @ rest = take (unat (is_bytes_left ?s)) src"
    by (auto simp only: is_view_Some)
  define L where "L = (ucast ?l :: u64)"
  have L: "unat L = length d" using l by (simp only: L_def)
  define s' where "s' = ?s"
  note src = src [folded s'_def] and dec = dec [folded s'_def] and v = v [folded s'_def]
  have len: "unat (is_bytes_left s') = length d + length rest"
    using is_view_length [OF v] by simp
  then have le: "L \<le> is_bytes_left s'" using L by (simp add: word_le_nat_alt)
  then have nless: "\<not> is_bytes_left s' < L" by auto
  have diff: "unat (is_bytes_left s' - L) = length rest"
    using unat_sub_le [OF le] L len by simp
  let ?sub = "s'\<lparr>is_bytes_left := L\<rparr>" and ?s1 = "s'\<lparr>is_bytes_left := is_bytes_left s' - L\<rparr>"
  have make: "pb_make_string_substream s = (Some ?sub, ?s1)"
    using dec nless by (simp add: pb_make_string_substream_def L_def [symmetric])
  have take_d: "take (length d) src = d"
    using arg_cong [OF src(4), of "take (length d)"] len by simp
  have sub: "is_view ?sub = Some d"
    using src(1-3) take_d L len by (simp add: is_view_Some)
  have rs: "reads s s'" using reader_varint32 [of s] dec by simp
  have close: "\<exists>s2. pb_close_string_substream ?s1 sub' = (Some (), s2) \<and> is_view s2 = Some rest \<and> reads s s2"
    if r: "reads ?sub sub'" for sub'
  proof -
    from r src(1-3) L len obtain k where k: "k \<le> length d" "is_source sub' = In_buf (drop k src)"
      "unat (is_bytes_left sub') = length d - k" "\<not> is_oob sub'"
      by (auto simp: reads_def)
    let ?n = "is_bytes_left sub'"
    have vs: "is_view sub' = Some (drop k d)"
      using k src(2) len take_d by (auto simp: is_view_Some take_drop)
    have "(if ?n \<noteq> 0 then pb_read_null sub' ?n else (Some (), sub')) = (Some (), is_advance (length d - k) sub')"
    proof (cases "?n = 0")
      case True
      with k(3) show ?thesis by simp
    next
      case False
      have "pb_read_null sub' ?n = (Some (), is_advance (length (drop k d)) sub')"
        using vs k by (intro pb_read_null_view [of _ _ "[]"]) simp_all
      with False show ?thesis by simp
    qed
    moreover have "is_source (is_advance (length d - k) sub') = In_buf (drop (length d) src)"
      using k(1,2) by (simp add: is_advance_def)
    moreover have "take (length rest) (drop (length d) src) = rest"
      using arg_cong [OF src(4), of "drop (length d)"] len by (simp add: drop_take)
    ultimately obtain s2 where s2: "pb_close_string_substream ?s1 sub' = (Some (), s2)"
      "is_source s2 = In_buf (drop (length d) src)" "is_bytes_left s2 = is_bytes_left s' - L" "\<not> is_oob s2"
      "take (length rest) (drop (length d) src) = rest"
      using k(4) src(3) by (simp add: pb_close_string_substream_def)
    have "is_view s2 = Some rest" using s2 src(2) diff len by (simp add: is_view_Some)
    moreover have "reads s' s2" using s2 src(1) diff len by (auto simp: reads_def intro: exI [of _ "length d"])
    ultimately show ?thesis using s2(1) reads_trans [OF rs] by blast
  qed
  show ?thesis using make sub close by blast
qed

subsection \<open>The 32-bit reader on numbers that do not fit\<close>


text \<open>
  \<open>loop_refused\<close>: what makes \<^verbatim>\<open>pb_decode_varint32_eof\<close> fail after its loop, either an error
  inside the loop or the check on the bits of the fifth byte.
\<close>

definition loop_refused :: "(u32 \<times> u8 \<times> u8, 's pb_istream) outcome \<Rightarrow> bool" where
  "loop_refused r \<longleftrightarrow>
     (case r of (None, _) \<Rightarrow> True | (Some (_, bitpos, byte), _) \<Rightarrow> bitpos = 35 \<and> byte AND 0x70 \<noteq> 0)"

lemma loop_refused_None: "fst r = None \<Longrightarrow> loop_refused r"
  by (cases r) (simp add: loop_refused_def)

lemma varint32_loop_step:
  assumes "is_view s = Some (b # rest)" "\<not> 32 \<le> bitpos" "b AND 0x80 \<noteq> 0"
  shows "varint32_loop s result bitpos =
    varint32_loop (is_advance 1 s) (result OR push_bit (unat bitpos) (ucast (b AND 0x7F))) (bitpos + 7)"
  using assms by (subst varint32_loop.simps) (simp add: pb_readbyte_view Let_def)

lemma varint32_loop_high:
  assumes "is_view s = Some (varint m @ rest)" "1 \<le> m"
    "bitpos \<in> {35, 42, 49, 56}" "m < 2 ^ (63 - unat bitpos)"
  shows "fst (varint32_loop s result bitpos) = None"
  using assms
proof (induction m arbitrary: s result bitpos rule: varint.induct)
  case (1 m)
  have k: "32 \<le> bitpos" "bitpos < 63" using "1.prems"(3) by auto
  show ?case
  proof (cases "m < 128")
    case True
    let ?b = "of_nat m :: u8"
    have b: "unat ?b = m" by (rule unat_varint_last [OF True])
    have "pb_readbyte s = (Some ?b, is_advance 1 s)"
      using "1.prems"(1) True by (simp add: varint_small pb_readbyte_view)
    moreover have "unat (?b AND 0x7F) = m" using b True by simp
    then have "?b AND 0x7F \<noteq> 0" using "1.prems"(2) by (metis unat_0 not_one_le_zero)
    moreover have "?b \<noteq> 0xFF" using b True by auto
    ultimately show ?thesis using k
      by (subst varint32_loop.simps) (simp add: PB_RETURN_ERROR_def)
  next
    case False
    let ?b = "of_nat (m mod 128 + 128) :: u8"
    have b80: "?b AND 0x80 \<noteq> 0" using unat_varint_byte [of m] u8_msb [of ?b] by simp
    have r: "pb_readbyte s = (Some ?b, is_advance 1 s)"
      using "1.prems"(1) False by (simp add: varint_big pb_readbyte_view)
    have view: "is_view (is_advance 1 s) = Some (varint (m div 128) @ rest)"
      using "1.prems"(1) False by (simp add: varint_big)
    have m1: "1 \<le> m div 128" using False by simp
    have next_k: "bitpos + 7 \<in> {35, 42, 49, 56}" "m div 128 < 2 ^ (63 - unat (bitpos + 7))"
      using "1.prems"(3,4) False by auto
    from "1.IH" [OF False view m1 next_k] r b80 k show ?thesis
      by (subst varint32_loop.simps) (simp add: Let_def PB_RETURN_ERROR_def)
  qed
qed

lemma u8_and_70_nonzero: "16 \<le> unat (b :: u8) \<Longrightarrow> unat b < 128 \<Longrightarrow> b AND 0x70 \<noteq> 0"
proof
  assume b: "16 \<le> unat b" "unat b < 128" and z: "b AND 0x70 = 0"
  have "b = b AND mask 7"
    using b(2) by (intro word_eq_by_unat) (simp only: unat_and_mask, simp)
  also have "(mask 7 :: u8) = 0x70 OR mask 4" by (simp add: mask_eq_exp_minus_1)
  also have "b AND (0x70 OR mask 4) = b AND mask 4"
    using z by (simp add: bit.conj_disj_distrib)
  finally have "unat b = unat (b AND mask 4)" by simp
  also have "\<dots> < 16" by (simp only: unat_and_mask) simp
  finally show False using b(1) by simp
qed

lemma varint32_loop_refused:
  assumes "is_view s = Some (varint m @ rest)" "bitpos \<in> {7, 14, 21, 28}"
    "2 ^ (32 - unat bitpos) \<le> m" "m < 2 ^ (63 - unat bitpos)"
  shows "loop_refused (varint32_loop s result bitpos)"
  using assms
proof (induction m arbitrary: s result bitpos rule: varint.induct)
  case (1 m)
  have k: "\<not> 32 \<le> bitpos" using "1.prems"(2) by auto
  show ?case
  proof (cases "m < 128")
    case True
    then have k28: "bitpos = 28" "16 \<le> m" using "1.prems"(2,3) by auto
    let ?b = "of_nat m :: u8"
    have b: "unat ?b = m" by (rule unat_varint_last [OF True])
    then have b80: "?b AND 0x80 = 0" using True by (simp only: u8_msb)
    have b70: "?b AND 0x70 \<noteq> 0" using b k28(2) True u8_and_70_nonzero [of ?b] by simp
    have "pb_readbyte s = (Some ?b, is_advance 1 s)"
      using "1.prems"(1) True by (simp add: varint_small pb_readbyte_view)
    with k k28 b80 b70 show ?thesis
      by (subst varint32_loop.simps) (simp add: Let_def loop_refused_def)
  next
    case False
    let ?b = "of_nat (m mod 128 + 128) :: u8"
    have b80: "?b AND 0x80 \<noteq> 0" using unat_varint_byte [of m] u8_msb [of ?b] by simp
    have s: "is_view s = Some (?b # (varint (m div 128) @ rest))"
      using "1.prems"(1) False by (simp add: varint_big)
    have view: "is_view (is_advance 1 s) = Some (varint (m div 128) @ rest)"
      using s by simp
    let ?r = "result OR push_bit (unat bitpos) (ucast (?b AND 0x7F))"
    have step: "varint32_loop s result bitpos = varint32_loop (is_advance 1 s) ?r (bitpos + 7)"
      by (rule varint32_loop_step [OF s k b80])
    show ?thesis
    proof (cases "bitpos = 28")
      case True
      have m1: "1 \<le> m div 128" using False by simp
      have "bitpos + 7 \<in> {35, 42, 49, 56}" "m div 128 < 2 ^ (63 - unat (bitpos + 7))"
        using "1.prems"(4) True by auto
      from varint32_loop_high [OF view m1 this] show ?thesis
        unfolding step by (rule loop_refused_None)
    next
      case k28: False
      have "bitpos + 7 \<in> {7, 14, 21, 28}" "2 ^ (32 - unat (bitpos + 7)) \<le> m div 128"
        "m div 128 < 2 ^ (63 - unat (bitpos + 7))"
        using "1.prems"(2-4) k28 by auto
      from "1.IH" [OF False view this] show ?thesis unfolding step .
    qed
  qed
qed

lemma pb_decode_varint32_refused:
  assumes "is_view s = Some (varint n @ rest)" "2 ^ 32 \<le> n" "n < 2 ^ 63"
  shows "fst (pb_decode_varint32 s) = None"
proof -
  let ?b = "of_nat (n mod 128 + 128) :: u8"
  have big: "\<not> n < 128" using assms(2) by simp
  have s: "is_view s = Some (?b # (varint (n div 128) @ rest))"
    using assms(1) big by (simp add: varint_big)
  have b80: "?b AND 0x80 \<noteq> 0" using unat_varint_byte [of n] u8_msb [of ?b] by simp
  have view: "is_view (is_advance 1 s) = Some (varint (n div 128) @ rest)" using s by simp
  have "loop_refused (varint32_loop (is_advance 1 s) (ucast (?b AND 0x7F)) 7)"
    using assms(2,3) by (intro varint32_loop_refused [OF view]) auto
  then show ?thesis
    using pb_readbyte_view [OF s] b80
    by (auto simp: pb_decode_varint32_def pb_decode_varint32_eof_def loop_refused_def
        split: option.splits prod.splits)
qed

end
