(* ===== verification/Pb_Mem.thy ===== *)
theory Pb_Mem
  imports Pb_Wire
begin

text \<open>
  What the message layer of nanopb needs of C: memory as a function from addresses to bytes,
  little-endian loads and stores of the targets, loops that may not end, and early returns of
  functions that change a stream and memory.

  Memory is total: an access through a bad pointer is not an error of the model but an access to
  bytes outside the object; \<open>unchanged_outside\<close> is the statement that this does not happen to writes.
\<close>

subsection \<open>Memory\<close>

type_synonym mem = "u64 \<Rightarrow> u8"

definition load_bytes :: "mem \<Rightarrow> u64 \<Rightarrow> nat \<Rightarrow> u8 list" where
  "load_bytes m a n = map (\<lambda>i. m (a + of_nat i)) [0..<n]"

definition store_bytes :: "mem \<Rightarrow> u64 \<Rightarrow> u8 list \<Rightarrow> mem" where
  "store_bytes m a bs = (\<lambda>x. if unat (x - a) < length bs then bs ! unat (x - a) else m x)"

definition load_word :: "mem \<Rightarrow> u64 \<Rightarrow> nat \<Rightarrow> 'a::len word" where
  "load_word m a n = of_nat (le_val (load_bytes m a n))"

definition store_word :: "mem \<Rightarrow> u64 \<Rightarrow> nat \<Rightarrow> 'a::len word \<Rightarrow> mem" where
  "store_word m a n v = store_bytes m a (le_bytes n (unat v))"

text \<open>The addresses of an object of \<open>n\<close> bytes at \<open>a\<close>.\<close>

definition region :: "u64 \<Rightarrow> nat \<Rightarrow> u64 set" where
  "region a n = {x. unat (x - a) < n}"

definition unchanged_outside :: "u64 set \<Rightarrow> mem \<Rightarrow> mem \<Rightarrow> bool" where
  "unchanged_outside R m m' \<longleftrightarrow> (\<forall>x. x \<notin> R \<longrightarrow> m' x = m x)"

lemma length_load_bytes [simp]: "length (load_bytes m a n) = n"
  by (simp add: load_bytes_def)

lemma nth_load_bytes [simp]: "i < n \<Longrightarrow> load_bytes m a n ! i = m (a + of_nat i)"
  by (simp add: load_bytes_def)

lemma load_bytes_0 [simp]: "load_bytes m a 0 = []"
  by (simp add: load_bytes_def)

lemma load_bytes_append: "load_bytes m a (j + k) = load_bytes m a j @ load_bytes m (a + of_nat j) k"
  by (rule nth_equalityI) (auto simp: nth_append algebra_simps)

lemma take_load_bytes: "k \<le> n \<Longrightarrow> take k (load_bytes m a n) = load_bytes m a k"
  by (rule nth_equalityI) auto

lemma region_mem: "i < n \<Longrightarrow> n \<le> 2 ^ 64 \<Longrightarrow> a + of_nat i \<in> region a n"
  by (simp add: region_def unat_of_nat_u64)

lemma region_inside:
  assumes "k + n \<le> sz"
  shows "region (a + of_nat k) n \<subseteq> region a sz"
proof
  fix x assume "x \<in> region (a + of_nat k) n"
  then have x: "unat (x - a - of_nat k) < n" by (simp add: region_def algebra_simps)
  have "unat (x - a) \<le> unat (x - a - of_nat k) + unat (of_nat k :: u64)"
    using unat_plus_if' [of "x - a - of_nat k" "of_nat k"] by (auto split: if_splits)
  moreover have "unat (of_nat k :: u64) \<le> k" by (simp add: unat_of_nat take_bit_nat_def)
  ultimately show "x \<in> region a sz" using x assms by (simp add: region_def)
qed

lemma region_mono: "m \<le> n \<Longrightarrow> region a m \<subseteq> region a n"
  by (auto simp: region_def)

lemma unchanged_refl [simp, intro]: "unchanged_outside R m m"
  by (simp add: unchanged_outside_def)

lemma unchanged_trans:
  "unchanged_outside R m m' \<Longrightarrow> unchanged_outside R m' m'' \<Longrightarrow> unchanged_outside R m m''"
  by (simp add: unchanged_outside_def)

lemma unchanged_mono: "unchanged_outside R m m' \<Longrightarrow> R \<subseteq> S \<Longrightarrow> unchanged_outside S m m'"
  by (auto simp: unchanged_outside_def)

lemma unchanged_store_bytes: "unchanged_outside (region a (length bs)) m (store_bytes m a bs)"
  by (simp add: unchanged_outside_def store_bytes_def region_def)

lemma unchanged_store_word: "unchanged_outside (region a n) m (store_word m a n v)"
  unfolding store_word_def using unchanged_store_bytes [of a "le_bytes n (unat v)"] by simp

lemma load_unchanged:
  assumes "unchanged_outside R m m'" "region a n \<inter> R = {}" "n \<le> 2 ^ 64"
  shows "load_bytes m' a n = load_bytes m a n"
proof (rule nth_equalityI)
  fix i assume "i < length (load_bytes m' a n)"
  then have "i < n" by simp
  then have "a + of_nat i \<notin> R" using region_mem [OF _ assms(3)] assms(2) by blast
  with \<open>i < n\<close> show "load_bytes m' a n ! i = load_bytes m a n ! i"
    using assms(1) by (simp add: unchanged_outside_def)
qed simp

lemma load_word_unchanged:
  "unchanged_outside R m m' \<Longrightarrow> region a n \<inter> R = {} \<Longrightarrow> n \<le> 2 ^ 64 \<Longrightarrow> load_word m' a n = load_word m a n"
  by (simp add: load_word_def load_unchanged)

lemma load_store_same:
  assumes "length bs = n" "n \<le> 2 ^ 64"
  shows "load_bytes (store_bytes m a bs) a n = bs"
proof (rule nth_equalityI)
  fix i assume "i < length (load_bytes (store_bytes m a bs) a n)"
  then have "i < n" by simp
  moreover from this assms(2) have "unat (of_nat i :: u64) = i" by (intro unat_of_nat_u64) simp
  ultimately show "load_bytes (store_bytes m a bs) a n ! i = bs ! i"
    using assms by (simp add: store_bytes_def)
qed (use assms in simp)

lemma store_bytes_at:
  assumes "i < length bs" "length bs \<le> 2 ^ 64"
  shows "store_bytes m a bs (a + of_nat i) = bs ! i"
proof -
  have "unat (of_nat i :: u64) = i" using assms by (intro unat_of_nat_u64) simp
  with assms show ?thesis by (simp add: store_bytes_def)
qed

lemma load_store_word:
  fixes v :: "'a::len word"
  assumes "LENGTH('a) \<le> 8 * n" "n \<le> 8"
  shows "load_word (store_word m a n v) a n = v"
proof -
  have "load_bytes (store_word m a n v) a n = le_bytes n (unat v)"
    unfolding store_word_def by (rule load_store_same) (use assms in simp_all)
  moreover have "unat v < 256 ^ n"
  proof -
    have "unat v < 2 ^ LENGTH('a)" by simp
    also have "\<dots> \<le> 2 ^ (8 * n)" using assms(1) by (intro power_increasing) auto
    also have "\<dots> = (256 :: nat) ^ n" by (simp add: power_mult)
    finally show ?thesis .
  qed
  ultimately show ?thesis by (simp add: load_word_def le_val_le_bytes)
qed

text \<open>Eight bytes hold a pointer, four a \<^verbatim>\<open>pb_size_t\<close>, one a \<^verbatim>\<open>bool\<close>.\<close>

definition load_ptr :: "mem \<Rightarrow> u64 \<Rightarrow> u64" where "load_ptr m a = load_word m a 8"
definition store_ptr :: "mem \<Rightarrow> u64 \<Rightarrow> u64 \<Rightarrow> mem" where "store_ptr m a v = store_word m a 8 v"
definition load_size :: "mem \<Rightarrow> u64 \<Rightarrow> u32" where "load_size m a = load_word m a 4"
definition store_size :: "mem \<Rightarrow> u64 \<Rightarrow> u32 \<Rightarrow> mem" where "store_size m a v = store_word m a 4 v"
definition store_bool :: "mem \<Rightarrow> u64 \<Rightarrow> bool \<Rightarrow> mem" where
  "store_bool m a b = store_bytes m a [of_bool b]"

definition zero_bytes :: "mem \<Rightarrow> u64 \<Rightarrow> nat \<Rightarrow> mem" where
  "zero_bytes m a n = store_bytes m a (replicate n 0)"

lemma load_store_size [simp]: "load_size (store_size m a v) a = v"
  by (simp add: load_size_def store_size_def load_store_word)

lemma load_store_ptr [simp]: "load_ptr (store_ptr m a v) a = v"
  by (simp add: load_ptr_def store_ptr_def load_store_word)

lemma unchanged_stores:
  "unchanged_outside (region a 8) m (store_ptr m a v)"
  "unchanged_outside (region a 4) m (store_size m a w)"
  "unchanged_outside (region a 1) m (store_bool m a b)"
  "unchanged_outside (region a n) m (zero_bytes m a n)"
  using unchanged_store_bytes [of a "[of_bool b]" m] unchanged_store_bytes [of a "replicate n 0" m]
  by (simp_all add: store_ptr_def store_size_def store_bool_def zero_bytes_def unchanged_store_word)

subsection \<open>Loops\<close>

text \<open>
  \<open>Inl\<close>: another round; \<open>Inr\<close>: the loop is left.  \<open>None\<close> is a run without a defined result:
  the loop does not end, the stack is exhausted, or a NULL function is called.
\<close>

partial_function (option) iterate :: "('s \<Rightarrow> ('s + 'r) option) \<Rightarrow> 's \<Rightarrow> 'r option" where
  "iterate body s =
     (case body s of
        None \<Rightarrow> None
      | Some (Inl s) \<Rightarrow> iterate body s
      | Some (Inr r) \<Rightarrow> Some r)"

declare iterate.simps [code]

lemma iterate_rule:
  fixes m :: "'s \<Rightarrow> nat"
  assumes "P s"
    and "\<And>s. P s \<Longrightarrow> (\<exists>s'. body s = Some (Inl s') \<and> P s' \<and> m s' < m s) \<or> (\<exists>r. body s = Some (Inr r) \<and> Q r)"
  shows "\<exists>r. iterate body s = Some r \<and> Q r"
  using assms(1)
proof (induction s rule: measure_induct_rule [of m])
  case (less s)
  then show ?case using assms(2) [OF less.prems] by (subst iterate.simps) auto
qed

text \<open>Early return for functions that may have no result.\<close>

definition run_attempt :: "('a, 's) outcome option \<Rightarrow> ('a \<Rightarrow> 's \<Rightarrow> ('b, 's) outcome option) \<Rightarrow> ('b, 's) outcome option" where
  "run_attempt r k =
     (case r of None \<Rightarrow> None | Some (None, s) \<Rightarrow> Some (None, s) | Some (Some x, s) \<Rightarrow> k x s)"

lemma run_attempt_simps [simp]:
  "run_attempt None k = None"
  "run_attempt (Some (None, s)) k = Some (None, s)"
  "run_attempt (Some (Some x, s)) k = k x s"
  by (simp_all add: run_attempt_def)

text \<open>A stream function run where memory is part of the state.\<close>

definition with_mem :: "('a, 's) outcome \<Rightarrow> 'm \<Rightarrow> ('a, 's \<times> 'm) outcome" where
  "with_mem r m = (fst r, (snd r, m))"

lemma with_mem_simps [simp]: "with_mem (r, s) m = (r, (s, m))"
  by (simp add: with_mem_def)

end
