(* ===== verification/Pb_Field.thy ===== *)
theory Pb_Field
  imports Pb_Mem
begin

text \<open>
  Message descriptors of nanopb (pb.h), the iterator over the fields of a structure
  (pb_common.c), and initialising and releasing a structure (pb_decode.c).  The build compiles
  nanopb with \<^verbatim>\<open>PB_FIELD_32BIT\<close>, \<^verbatim>\<open>PB_NO_PACKED_STRUCTS\<close> and \<^verbatim>\<open>PB_ENABLE_MALLOC\<close>, so
  \<^verbatim>\<open>pb_size_t\<close> has 32 bits.
\<close>

subsection \<open>Descriptors\<close>

text \<open>
  Descriptors are constants written by the generator.  What \<open>ptr\<close> points to is a descriptor array,
  named by its number in the environment, or the bytes of a default value.
\<close>

datatype pb_ptr = Null_ptr | Fields_ptr nat | Default_ptr "u8 list"

record pb_field =
  pf_tag :: u32
  pf_type :: u8
  pf_data_offset :: u32
  pf_size_offset :: u32
  pf_data_size :: u32
  pf_array_size :: u32
  pf_ptr :: pb_ptr

definition PB_LTYPE_BOOL :: u8 where "PB_LTYPE_BOOL = 0x00"
definition PB_LTYPE_VARINT :: u8 where "PB_LTYPE_VARINT = 0x01"
definition PB_LTYPE_UVARINT :: u8 where "PB_LTYPE_UVARINT = 0x02"
definition PB_LTYPE_SVARINT :: u8 where "PB_LTYPE_SVARINT = 0x03"
definition PB_LTYPE_FIXED32 :: u8 where "PB_LTYPE_FIXED32 = 0x04"
definition PB_LTYPE_FIXED64 :: u8 where "PB_LTYPE_FIXED64 = 0x05"
definition PB_LTYPE_LAST_PACKABLE :: u8 where "PB_LTYPE_LAST_PACKABLE = 0x05"
definition PB_LTYPE_BYTES :: u8 where "PB_LTYPE_BYTES = 0x06"
definition PB_LTYPE_STRING :: u8 where "PB_LTYPE_STRING = 0x07"
definition PB_LTYPE_SUBMESSAGE :: u8 where "PB_LTYPE_SUBMESSAGE = 0x08"
definition PB_LTYPE_EXTENSION :: u8 where "PB_LTYPE_EXTENSION = 0x09"
definition PB_LTYPE_FIXED_LENGTH_BYTES :: u8 where "PB_LTYPE_FIXED_LENGTH_BYTES = 0x0A"
definition PB_HTYPE_REQUIRED :: u8 where "PB_HTYPE_REQUIRED = 0x00"
definition PB_HTYPE_OPTIONAL :: u8 where "PB_HTYPE_OPTIONAL = 0x10"
definition PB_HTYPE_REPEATED :: u8 where "PB_HTYPE_REPEATED = 0x20"
definition PB_HTYPE_ONEOF :: u8 where "PB_HTYPE_ONEOF = 0x30"
definition PB_ATYPE_STATIC :: u8 where "PB_ATYPE_STATIC = 0x00"
definition PB_ATYPE_POINTER :: u8 where "PB_ATYPE_POINTER = 0x80"
definition PB_ATYPE_CALLBACK :: u8 where "PB_ATYPE_CALLBACK = 0x40"

lemmas pb_ltypes = PB_LTYPE_BOOL_def PB_LTYPE_VARINT_def PB_LTYPE_UVARINT_def PB_LTYPE_SVARINT_def
  PB_LTYPE_FIXED32_def PB_LTYPE_FIXED64_def PB_LTYPE_LAST_PACKABLE_def PB_LTYPE_BYTES_def
  PB_LTYPE_STRING_def PB_LTYPE_SUBMESSAGE_def PB_LTYPE_EXTENSION_def PB_LTYPE_FIXED_LENGTH_BYTES_def
lemmas pb_htypes = PB_HTYPE_REQUIRED_def PB_HTYPE_OPTIONAL_def PB_HTYPE_REPEATED_def PB_HTYPE_ONEOF_def
lemmas pb_atypes = PB_ATYPE_STATIC_def PB_ATYPE_POINTER_def PB_ATYPE_CALLBACK_def

definition PB_ATYPE :: "u8 \<Rightarrow> u8" where "PB_ATYPE x = x AND 0xC0"
definition PB_HTYPE :: "u8 \<Rightarrow> u8" where "PB_HTYPE x = x AND 0x30"
definition PB_LTYPE :: "u8 \<Rightarrow> u8" where "PB_LTYPE x = x AND 0x0F"

definition PB_SIZE_MAX :: u32 where "PB_SIZE_MAX = 0xFFFFFFFF"

definition PB_LAST_FIELD :: pb_field where
  "PB_LAST_FIELD = \<lparr>pf_tag = 0, pf_type = 0, pf_data_offset = 0, pf_size_offset = 0,
     pf_data_size = 0, pf_array_size = 0, pf_ptr = Null_ptr\<rparr>"

text \<open>An array of descriptors ends with \<^verbatim>\<open>PB_LAST_FIELD\<close>.\<close>

definition field_at :: "pb_field list \<Rightarrow> nat \<Rightarrow> pb_field" where
  "field_at fs i = (if i < length fs then fs ! i else PB_LAST_FIELD)"

subsection \<open>Memory of a run\<close>

text \<open>
  \<open>pb_heap\<close> is the state of the allocator, \<open>fixed_count_size\<close> the local variable of that name of the
  innermost \<^verbatim>\<open>pb_decode_noinit\<close>, whose address the decoder stores in an iterator.
\<close>

record 'h pb_store =
  pb_mem :: mem
  pb_heap :: 'h
  fixed_count_size :: u32

text \<open>
  The code outside the library: the allocator (\<open>None\<close> is NULL; it may move the block), the user's
  callbacks, by their address, and the types of the user's extensions, by the address of their
  \<^verbatim>\<open>pb_extension_type_t\<close>.  The encoding callbacks may read memory and write to the stream.
\<close>

record ('h, 's) pb_extension_type =
  et_decode :: "('s pb_istream \<Rightarrow> u64 \<Rightarrow> u32 \<Rightarrow> u32 \<Rightarrow> 'h pb_store \<Rightarrow> (unit, 's pb_istream \<times> 'h pb_store) outcome) option"
  et_encode :: "('s pb_ostream \<Rightarrow> u64 \<Rightarrow> 'h pb_store \<Rightarrow> (unit, 's pb_ostream) outcome) option"
  et_arg :: pb_field

record ('h, 's) pb_env =
  env_fields :: "nat \<Rightarrow> pb_field list"
  env_extension_type :: "u64 \<Rightarrow> ('h, 's) pb_extension_type"
  env_decode :: "u64 \<Rightarrow> 's pb_istream \<Rightarrow> pb_field \<Rightarrow> u64 \<Rightarrow> 'h pb_store \<Rightarrow> (unit, 's pb_istream \<times> 'h pb_store) outcome"
  env_encode :: "u64 \<Rightarrow> 's pb_ostream \<Rightarrow> pb_field \<Rightarrow> u64 \<Rightarrow> 'h pb_store \<Rightarrow> (unit, 's pb_ostream) outcome"
  pb_realloc :: "u64 \<Rightarrow> u64 \<Rightarrow> 'h pb_store \<Rightarrow> u64 option \<times> 'h pb_store"
  pb_free :: "u64 \<Rightarrow> 'h pb_store \<Rightarrow> 'h pb_store"

text \<open>\<^verbatim>\<open>(const pb_field_t*)ptr\<close>: an array of descriptors.\<close>

definition submsg_fields :: "('h, 's) pb_env \<Rightarrow> pb_field \<Rightarrow> pb_field list" where
  "submsg_fields env f = (case pf_ptr f of Fields_ptr k \<Rightarrow> env_fields env k | _ \<Rightarrow> [])"

subsection \<open>The iterator\<close>

text \<open>\<open>pSize\<close> points into memory or to the decoder's local variable.\<close>

datatype size_ref = Mem_size u64 | Local_size

record pb_field_iter =
  it_start :: "pb_field list"
  it_pos :: nat
  it_required_field_index :: nat
  it_dest_struct :: u64
  it_pData :: u64
  it_pSize :: size_ref

definition it_field :: "pb_field_iter \<Rightarrow> pb_field" where
  "it_field iter = field_at (it_start iter) (it_pos iter)"

definition size_address :: "u64 \<Rightarrow> pb_field \<Rightarrow> u64" where
  "size_address pData f = pData + scast (pf_size_offset f)"

definition pb_field_iter_begin :: "pb_field list \<Rightarrow> u64 \<Rightarrow> bool \<times> pb_field_iter" where
  "pb_field_iter_begin fs dest_struct =
     (let f = field_at fs 0;
          pData = (if dest_struct = 0 then 0 else dest_struct + ucast (pf_data_offset f))
      in (pf_tag f \<noteq> 0,
          \<lparr>it_start = fs, it_pos = 0, it_required_field_index = 0, it_dest_struct = dest_struct,
           it_pData = pData,
           it_pSize = Mem_size (if dest_struct = 0 then 0 else size_address pData f)\<rparr>))"

definition pb_field_iter_next :: "pb_field_iter \<Rightarrow> bool \<times> pb_field_iter" where
  "pb_field_iter_next iter =
     (let prev_field = it_field iter in
      if pf_tag prev_field = 0 then (False, iter)
      else
        let iter = iter\<lparr>it_pos := it_pos iter + 1\<rparr>; f = it_field iter in
        if pf_tag f = 0 then (False, snd (pb_field_iter_begin (it_start iter) (it_dest_struct iter)))
        else if PB_HTYPE (pf_type prev_field) = PB_HTYPE_ONEOF \<and> PB_HTYPE (pf_type f) = PB_HTYPE_ONEOF
                \<and> pf_data_offset f = PB_SIZE_MAX
        then (True, iter)
        else
          let prev_size =
                (if PB_ATYPE (pf_type prev_field) = PB_ATYPE_STATIC \<and> PB_HTYPE (pf_type prev_field) = PB_HTYPE_REPEATED
                 then ucast (pf_data_size prev_field) * ucast (pf_array_size prev_field)
                 else if PB_ATYPE (pf_type prev_field) = PB_ATYPE_POINTER then 8
                 else ucast (pf_data_size prev_field));
              iter = (if PB_HTYPE (pf_type prev_field) = PB_HTYPE_REQUIRED
                      then iter\<lparr>it_required_field_index := it_required_field_index iter + 1\<rparr> else iter);
              pData = it_pData iter + prev_size + ucast (pf_data_offset f)
          in (True, iter\<lparr>it_pData := pData, it_pSize := Mem_size (size_address pData f)\<rparr>))"

definition pb_field_iter_find :: "pb_field_iter \<Rightarrow> u32 \<Rightarrow> (bool \<times> pb_field_iter) option" where
  "pb_field_iter_find iter tag =
     (let start = it_pos iter in
      iterate (\<lambda>iter.
        if pf_tag (it_field iter) = tag \<and> PB_LTYPE (pf_type (it_field iter)) \<noteq> PB_LTYPE_EXTENSION
        then Some (Inr (True, iter))
        else let iter = snd (pb_field_iter_next iter)
             in if it_pos iter \<noteq> start then Some (Inl iter) else Some (Inr (False, iter)))
      iter)"

text \<open>What \<open>pSize\<close> points to, read and written as a \<^verbatim>\<open>pb_size_t\<close> and as a \<^verbatim>\<open>bool\<close>.\<close>

definition read_count :: "'h pb_store \<Rightarrow> size_ref \<Rightarrow> u32" where
  "read_count st r = (case r of Mem_size a \<Rightarrow> load_size (pb_mem st) a | Local_size \<Rightarrow> fixed_count_size st)"

definition write_count :: "'h pb_store \<Rightarrow> size_ref \<Rightarrow> u32 \<Rightarrow> 'h pb_store" where
  "write_count st r v =
     (case r of Mem_size a \<Rightarrow> st\<lparr>pb_mem := store_size (pb_mem st) a v\<rparr>
      | Local_size \<Rightarrow> st\<lparr>fixed_count_size := v\<rparr>)"

text \<open>Only repeated fields have the local variable: a flag is always in memory.\<close>

definition write_flag :: "'h pb_store \<Rightarrow> size_ref \<Rightarrow> bool \<Rightarrow> 'h pb_store" where
  "write_flag st r b =
     (case r of Mem_size a \<Rightarrow> st\<lparr>pb_mem := store_bool (pb_mem st) a b\<rparr> | Local_size \<Rightarrow> st)"

text \<open>The do-while loop over all fields of a structure.\<close>

definition for_fields :: "(pb_field_iter \<Rightarrow> 'c \<Rightarrow> 'c option) \<Rightarrow> pb_field list \<Rightarrow> u64 \<Rightarrow> 'c \<Rightarrow> 'c option" where
  "for_fields f fs dest_struct st =
     (case pb_field_iter_begin fs dest_struct of (nonempty, iter) \<Rightarrow>
        if \<not> nonempty then Some st
        else iterate (\<lambda>(iter, st).
               case f iter st of
                 None \<Rightarrow> None
               | Some st \<Rightarrow>
                   (case pb_field_iter_next iter of (again, iter) \<Rightarrow>
                      Some (if again then Inl (iter, st) else Inr st)))
             (iter, st))"

subsection \<open>Extensions\<close>

text \<open>The members of a \<^verbatim>\<open>pb_extension_t\<close> at \<open>ext\<close>: \<open>type\<close>, \<open>dest\<close>, \<open>next\<close> and \<open>found\<close>.\<close>

definition ext_type :: "('h, 's) pb_env \<Rightarrow> 'h pb_store \<Rightarrow> u64 \<Rightarrow> ('h, 's) pb_extension_type" where
  "ext_type env st ext = env_extension_type env (load_ptr (pb_mem st) ext)"

definition ext_dest :: "'h pb_store \<Rightarrow> u64 \<Rightarrow> u64" where "ext_dest st ext = load_ptr (pb_mem st) (ext + 8)"
definition ext_next :: "'h pb_store \<Rightarrow> u64 \<Rightarrow> u64" where "ext_next st ext = load_ptr (pb_mem st) (ext + 16)"

definition set_ext_found :: "'h pb_store \<Rightarrow> u64 \<Rightarrow> bool \<Rightarrow> 'h pb_store" where
  "set_ext_found st ext b = st\<lparr>pb_mem := store_bool (pb_mem st) (ext + 24) b\<rparr>"

definition iter_from_extension :: "('h, 's) pb_env \<Rightarrow> 'h pb_store \<Rightarrow> u64 \<Rightarrow> pb_field_iter" where
  "iter_from_extension env st extension =
     (let field = et_arg (ext_type env st extension);
          iter = snd (pb_field_iter_begin [field] (ext_dest st extension));
          iter = iter\<lparr>it_pData := ext_dest st extension, it_pSize := Mem_size (extension + 24)\<rparr>
      in if PB_ATYPE (pf_type field) = PB_ATYPE_POINTER then iter\<lparr>it_pData := extension + 8\<rparr> else iter)"

text \<open>The loops over a list of extensions; \<open>f\<close> treats one of them.\<close>

definition for_extensions :: "(u64 \<Rightarrow> 'h pb_store \<Rightarrow> 'h pb_store option) \<Rightarrow> u64 \<Rightarrow> 'h pb_store \<Rightarrow> 'h pb_store option" where
  "for_extensions f ext st =
     iterate (\<lambda>(ext, st).
       if ext = 0 then Some (Inr st)
       else case f ext st of None \<Rightarrow> None | Some st \<Rightarrow> Some (Inl (ext_next st ext, st)))
     (ext, st)"

subsection \<open>Default values\<close>

primrec pb_field_set_to_default ::
  "nat \<Rightarrow> ('h, 's) pb_env \<Rightarrow> pb_field_iter \<Rightarrow> 'h pb_store \<Rightarrow> 'h pb_store option" where
  "pb_field_set_to_default 0 env iter st = None"
| "pb_field_set_to_default (Suc n) env iter st =
     (let f = it_field iter; type = pf_type f; pData = it_pData iter in
      if PB_LTYPE type = PB_LTYPE_EXTENSION
      then for_extensions
             (\<lambda>ext st. let st = set_ext_found st ext False
                       in pb_field_set_to_default n env (iter_from_extension env st ext) st)
             (load_ptr (pb_mem st) pData) st
      else if PB_ATYPE type = PB_ATYPE_STATIC then
        let (init_data, st) =
              (if PB_HTYPE type = PB_HTYPE_OPTIONAL \<and> it_pSize iter \<noteq> Mem_size pData
               then (True, write_flag st (it_pSize iter) False)
               else if PB_HTYPE type = PB_HTYPE_REPEATED \<or> PB_HTYPE type = PB_HTYPE_ONEOF
               then (False, write_count st (it_pSize iter) 0)
               else (True, st))
        in if \<not> init_data then Some st
           else if PB_LTYPE type = PB_LTYPE_SUBMESSAGE
           then for_fields (pb_field_set_to_default n env) (submsg_fields env f) pData st
           else (case pf_ptr f of
                   Default_ptr bs \<Rightarrow>
                     Some (st\<lparr>pb_mem := store_bytes (pb_mem st) pData (take (unat (pf_data_size f)) bs)\<rparr>)
                 | _ \<Rightarrow> Some (st\<lparr>pb_mem := zero_bytes (pb_mem st) pData (unat (pf_data_size f))\<rparr>))
      else if PB_ATYPE type = PB_ATYPE_POINTER then
        let st = st\<lparr>pb_mem := store_ptr (pb_mem st) pData 0\<rparr>
        in Some (if PB_HTYPE type = PB_HTYPE_REPEATED \<or> PB_HTYPE type = PB_HTYPE_ONEOF
                 then write_count st (it_pSize iter) 0 else st)
      else Some st)"

definition pb_message_set_to_defaults ::
  "nat \<Rightarrow> ('h, 's) pb_env \<Rightarrow> pb_field list \<Rightarrow> u64 \<Rightarrow> 'h pb_store \<Rightarrow> 'h pb_store option" where
  "pb_message_set_to_defaults n env fs dest_struct st =
     for_fields (pb_field_set_to_default n env) fs dest_struct st"

subsection \<open>Releasing\<close>

fun free_entries :: "('h, 's) pb_env \<Rightarrow> nat \<Rightarrow> u64 \<Rightarrow> 'h pb_store \<Rightarrow> 'h pb_store" where
  "free_entries env 0 pItem st = st"
| "free_entries env (Suc count) pItem st =
     (let st = pb_free env (load_ptr (pb_mem st) pItem) st
      in free_entries env count (pItem + 8) (st\<lparr>pb_mem := store_ptr (pb_mem st) pItem 0\<rparr>))"

fun release_items :: "(u64 \<Rightarrow> 'h pb_store \<Rightarrow> 'h pb_store option) \<Rightarrow> u64 \<Rightarrow> nat \<Rightarrow> u64 \<Rightarrow> 'h pb_store \<Rightarrow> 'h pb_store option" where
  "release_items release data_size 0 pItem st = Some st"
| "release_items release data_size (Suc count) pItem st =
     Option.bind (release pItem st) (release_items release data_size count (pItem + data_size))"

primrec pb_release_single_field ::
  "nat \<Rightarrow> ('h, 's) pb_env \<Rightarrow> pb_field_iter \<Rightarrow> 'h pb_store \<Rightarrow> 'h pb_store option" where
  "pb_release_single_field 0 env iter st = None"
| "pb_release_single_field (Suc n) env iter st =
     (let f = it_field iter; type = pf_type f; pData = it_pData iter in
      if PB_HTYPE type = PB_HTYPE_ONEOF \<and> read_count st (it_pSize iter) \<noteq> pf_tag f then Some st
      else
        Option.bind
          (if PB_LTYPE type = PB_LTYPE_EXTENSION
           then for_extensions (\<lambda>ext st. pb_release_single_field n env (iter_from_extension env st ext) st)
                  (load_ptr (pb_mem st) pData) st
           else if PB_LTYPE type = PB_LTYPE_SUBMESSAGE \<and> PB_ATYPE type \<noteq> PB_ATYPE_CALLBACK
           then
             let pItem = (if PB_ATYPE type = PB_ATYPE_POINTER then load_ptr (pb_mem st) pData else pData);
                 count = (if PB_HTYPE type = PB_HTYPE_REPEATED
                          then let count = (if PB_ATYPE type = PB_ATYPE_STATIC \<and> it_pSize iter = Mem_size pData
                                            then pf_array_size f else read_count st (it_pSize iter))
                               in if PB_ATYPE type = PB_ATYPE_STATIC \<and> pf_array_size f < count
                                  then pf_array_size f else count
                          else 1)
             in if pItem = 0 then Some st
                else release_items
                       (\<lambda>pItem st. if pItem = 0 then Some st
                                   else for_fields (pb_release_single_field n env) (submsg_fields env f) pItem st)
                       (ucast (pf_data_size f)) (unat count) pItem st
           else Some st)
          (\<lambda>st.
             if PB_ATYPE type = PB_ATYPE_POINTER then
               let st = (if PB_HTYPE type = PB_HTYPE_REPEATED
                            \<and> (PB_LTYPE type = PB_LTYPE_STRING \<or> PB_LTYPE type = PB_LTYPE_BYTES)
                         then free_entries env (unat (read_count st (it_pSize iter))) (load_ptr (pb_mem st) pData) st
                         else st);
                   st = (if PB_HTYPE type = PB_HTYPE_REPEATED then write_count st (it_pSize iter) 0 else st);
                   st = pb_free env (load_ptr (pb_mem st) pData) st
               in Some (st\<lparr>pb_mem := store_ptr (pb_mem st) pData 0\<rparr>)
             else Some st))"

definition pb_release ::
  "nat \<Rightarrow> ('h, 's) pb_env \<Rightarrow> pb_field list \<Rightarrow> u64 \<Rightarrow> 'h pb_store \<Rightarrow> 'h pb_store option" where
  "pb_release n env fs dest_struct st =
     (if dest_struct = 0 then Some st
      else for_fields (pb_release_single_field n env) fs dest_struct st)"

text \<open>Releasing what another member of the union holds before it is overwritten.\<close>

definition pb_release_union_field ::
  "nat \<Rightarrow> ('h, 's) pb_env \<Rightarrow> 's pb_istream \<Rightarrow> pb_field_iter \<Rightarrow> 'h pb_store
     \<Rightarrow> (pb_field_iter, 's pb_istream \<times> 'h pb_store) outcome option" where
  "pb_release_union_field n env s iter st =
     (let old_tag = read_count st (it_pSize iter); new_tag = pf_tag (it_field iter) in
      if old_tag = 0 then Some (Some iter, (s, st))
      else if old_tag = new_tag then Some (Some iter, (s, st))
      else
        Option.bind (pb_field_iter_find iter old_tag) (\<lambda>(found, iter).
          if \<not> found then Some (with_mem (PB_RETURN_ERROR s ''invalid union tag'') st)
          else
            Option.bind (pb_release_single_field n env iter st) (\<lambda>st.
              Option.bind (pb_field_iter_find iter new_tag) (\<lambda>(found, iter).
                if \<not> found then Some (with_mem (PB_RETURN_ERROR s ''iterator error'') st)
                else if PB_ATYPE (pf_type (it_field iter)) = PB_ATYPE_POINTER
                then Some (Some iter, (s, st\<lparr>pb_mem := store_ptr (pb_mem st) (it_pData iter) 0\<rparr>))
                else Some (Some iter, (s, st))))))"

end
