(* ===== verification/Pb_Encode.thy ===== *)
theory Pb_Encode
  imports Pb_Field
begin

text \<open>
  Encoding a structure from its descriptor (pb_encode.c).  Functions that reach \<^verbatim>\<open>pb_encode\<close> again for a
  submessage take it as the argument \<open>encode\<close>; \<^verbatim>\<open>pb_encode\<close> ties the knot with the number of nested
  calls the stack has room for.
\<close>

type_synonym 's encoding = "'s pb_ostream \<Rightarrow> (unit, 's pb_ostream) outcome option"
type_synonym 's message_encoder = "pb_field list \<Rightarrow> u64 \<Rightarrow> 's encoding"

definition safe_read_bool :: "mem \<Rightarrow> u64 \<Rightarrow> bool" where
  "safe_read_bool m pSize = (m pSize \<noteq> 0)"

subsection \<open>Submessages\<close>

text \<open>The payload, on a substream that must end after the \<open>len\<close> bytes announced.\<close>

definition encode_payload :: "'s message_encoder \<Rightarrow> pb_field list \<Rightarrow> u64 \<Rightarrow> u64 \<Rightarrow> 's encoding" where
  "encode_payload encode fs src_struct len s =
     (if no_callback (os_sink s) then Some (pb_write s [] len)
      else if os_max_size s < os_bytes_written s + len then Some (OS_RETURN_ERROR s ''stream full'')
      else
        case encode fs src_struct (s\<lparr>os_max_size := len, os_bytes_written := 0, os_errmsg := None\<rparr>) of
          None \<Rightarrow> None
        | Some (status, substream) \<Rightarrow>
            let s = s\<lparr>os_bytes_written := os_bytes_written s + os_bytes_written substream,
                      os_sink := os_sink substream, os_errmsg := os_errmsg substream,
                      os_oob := os_oob substream\<rparr>
            in Some (if os_bytes_written substream \<noteq> len then OS_RETURN_ERROR s ''submsg size changed''
                     else (status, s)))"

definition pb_encode_submessage :: "'s message_encoder \<Rightarrow> 's message_encoder" where
  "pb_encode_submessage encode fs src_struct s =
     (case encode fs src_struct PB_OSTREAM_SIZING of
        None \<Rightarrow> None
      | Some (None, substream) \<Rightarrow> Some (None, s\<lparr>os_errmsg := os_errmsg substream\<rparr>)
      | Some (Some _, substream) \<Rightarrow>
          run_attempt (Some (pb_encode_varint s (os_bytes_written substream)))
            (\<lambda>_ s. encode_payload encode fs src_struct (os_bytes_written substream) s))"

subsection \<open>Field encoders\<close>

definition pb_enc_bool :: "'h pb_store \<Rightarrow> pb_field \<Rightarrow> u64 \<Rightarrow> 's encoding" where
  "pb_enc_bool st field src s =
     Some (pb_encode_varint s (if safe_read_bool (pb_mem st) src then 1 else 0))"

text \<open>The signed integer of \<open>data_size\<close> bytes at \<open>src\<close>, as an \<open>int64_t\<close>; then the unsigned one.\<close>

definition load_signed :: "mem \<Rightarrow> u64 \<Rightarrow> u32 \<Rightarrow> u64 option" where
  "load_signed m src data_size =
     (if data_size = 1 then Some (scast (load_word m src 1 :: u8))
      else if data_size = 2 then Some (scast (load_word m src 2 :: u16))
      else if data_size = 4 then Some (scast (load_word m src 4 :: u32))
      else if data_size = 8 then Some (load_word m src 8)
      else None)"

definition load_unsigned :: "mem \<Rightarrow> u64 \<Rightarrow> u32 \<Rightarrow> u64 option" where
  "load_unsigned m src data_size =
     (if data_size = 1 then Some (ucast (load_word m src 1 :: u8))
      else if data_size = 2 then Some (ucast (load_word m src 2 :: u16))
      else if data_size = 4 then Some (ucast (load_word m src 4 :: u32))
      else if data_size = 8 then Some (load_word m src 8)
      else None)"

definition pb_enc_varint :: "'h pb_store \<Rightarrow> pb_field \<Rightarrow> u64 \<Rightarrow> 's encoding" where
  "pb_enc_varint st field src s =
     Some (case load_signed (pb_mem st) src (pf_data_size field) of
             None \<Rightarrow> OS_RETURN_ERROR s ''invalid data_size''
           | Some v \<Rightarrow> pb_encode_varint s v)"

definition pb_enc_uvarint :: "'h pb_store \<Rightarrow> pb_field \<Rightarrow> u64 \<Rightarrow> 's encoding" where
  "pb_enc_uvarint st field src s =
     Some (case load_unsigned (pb_mem st) src (pf_data_size field) of
             None \<Rightarrow> OS_RETURN_ERROR s ''invalid data_size''
           | Some v \<Rightarrow> pb_encode_varint s v)"

definition pb_enc_svarint :: "'h pb_store \<Rightarrow> pb_field \<Rightarrow> u64 \<Rightarrow> 's encoding" where
  "pb_enc_svarint st field src s =
     Some (case load_signed (pb_mem st) src (pf_data_size field) of
             None \<Rightarrow> OS_RETURN_ERROR s ''invalid data_size''
           | Some v \<Rightarrow> pb_encode_svarint s v)"

definition pb_enc_fixed64 :: "'h pb_store \<Rightarrow> pb_field \<Rightarrow> u64 \<Rightarrow> 's encoding" where
  "pb_enc_fixed64 st field src s = Some (pb_encode_fixed64 s (load_word (pb_mem st) src 8))"

definition pb_enc_fixed32 :: "'h pb_store \<Rightarrow> pb_field \<Rightarrow> u64 \<Rightarrow> 's encoding" where
  "pb_enc_fixed32 st field src s = Some (pb_encode_fixed32 s (load_word (pb_mem st) src 4))"

text \<open>A \<^verbatim>\<open>pb_bytes_array_t\<close> is its size, four bytes, and the bytes.\<close>

definition pb_enc_bytes :: "'h pb_store \<Rightarrow> pb_field \<Rightarrow> u64 \<Rightarrow> 's encoding" where
  "pb_enc_bytes st field src s =
     (if src = 0 then Some (pb_encode_string s [] 0)
      else
        let n = load_size (pb_mem st) src in
        if PB_ATYPE (pf_type field) = PB_ATYPE_STATIC \<and> ucast (pf_data_size field) - 4 < (ucast n :: u64)
        then Some (OS_RETURN_ERROR s ''bytes size exceeded'')
        else Some (pb_encode_string s (load_bytes (pb_mem st) (src + 4) (unat n)) (ucast n)))"

function string_length :: "mem \<Rightarrow> u64 \<Rightarrow> nat \<Rightarrow> nat \<Rightarrow> nat" where
  "string_length m p len max_size =
     (if len < max_size \<and> m p \<noteq> 0 then string_length m (p + 1) (len + 1) max_size else len)"
  by auto
termination by (relation "measure (\<lambda>(m, p, len, max_size). max_size - len)") auto

declare string_length.simps [simp del]

definition pb_enc_string :: "'h pb_store \<Rightarrow> pb_field \<Rightarrow> u64 \<Rightarrow> 's encoding" where
  "pb_enc_string st field src s =
     (let max_size = (if PB_ATYPE (pf_type field) = PB_ATYPE_POINTER then 2 ^ 64 - 1
                      else unat (pf_data_size field));
          len = (if src = 0 then 0 else string_length (pb_mem st) src 0 max_size)
      in Some (pb_encode_string s (load_bytes (pb_mem st) src len) (of_nat len)))"

definition pb_enc_submessage ::
  "'s message_encoder \<Rightarrow> ('h, 's) pb_env \<Rightarrow> pb_field \<Rightarrow> u64 \<Rightarrow> 's encoding" where
  "pb_enc_submessage encode env field src s =
     (if pf_ptr field = Null_ptr then Some (OS_RETURN_ERROR s ''invalid field descriptor'')
      else pb_encode_submessage encode (submsg_fields env field) src s)"

definition pb_enc_fixed_length_bytes :: "'h pb_store \<Rightarrow> pb_field \<Rightarrow> u64 \<Rightarrow> 's encoding" where
  "pb_enc_fixed_length_bytes st field src s =
     Some (pb_encode_string s (load_bytes (pb_mem st) src (unat (pf_data_size field))) (ucast (pf_data_size field)))"

text \<open>The entry for extensions is NULL, and there is none beyond the last type.\<close>

definition PB_ENCODERS ::
  "'s message_encoder \<Rightarrow> ('h, 's) pb_env \<Rightarrow> 'h pb_store \<Rightarrow> u8 \<Rightarrow> pb_field \<Rightarrow> u64 \<Rightarrow> 's encoding" where
  "PB_ENCODERS encode env st ltype =
     (if ltype = PB_LTYPE_BOOL then pb_enc_bool st
      else if ltype = PB_LTYPE_VARINT then pb_enc_varint st
      else if ltype = PB_LTYPE_UVARINT then pb_enc_uvarint st
      else if ltype = PB_LTYPE_SVARINT then pb_enc_svarint st
      else if ltype = PB_LTYPE_FIXED32 then pb_enc_fixed32 st
      else if ltype = PB_LTYPE_FIXED64 then pb_enc_fixed64 st
      else if ltype = PB_LTYPE_BYTES then pb_enc_bytes st
      else if ltype = PB_LTYPE_STRING then pb_enc_string st
      else if ltype = PB_LTYPE_SUBMESSAGE then pb_enc_submessage encode env
      else if ltype = PB_LTYPE_FIXED_LENGTH_BYTES then pb_enc_fixed_length_bytes st
      else (\<lambda>field src s. None))"

definition pb_encode_tag_for_field :: "'s pb_ostream \<Rightarrow> pb_field \<Rightarrow> (unit, 's pb_ostream) outcome" where
  "pb_encode_tag_for_field s field =
     (let ltype = PB_LTYPE (pf_type field) in
      if ltype = PB_LTYPE_BOOL \<or> ltype = PB_LTYPE_VARINT \<or> ltype = PB_LTYPE_UVARINT \<or> ltype = PB_LTYPE_SVARINT
      then pb_encode_tag s PB_WT_VARINT (pf_tag field)
      else if ltype = PB_LTYPE_FIXED32 then pb_encode_tag s PB_WT_32BIT (pf_tag field)
      else if ltype = PB_LTYPE_FIXED64 then pb_encode_tag s PB_WT_64BIT (pf_tag field)
      else if ltype = PB_LTYPE_BYTES \<or> ltype = PB_LTYPE_STRING \<or> ltype = PB_LTYPE_SUBMESSAGE
              \<or> ltype = PB_LTYPE_FIXED_LENGTH_BYTES
      then pb_encode_tag s PB_WT_STRING (pf_tag field)
      else OS_RETURN_ERROR s ''invalid field type'')"

subsection \<open>One field\<close>

text \<open>The loops of \<^verbatim>\<open>encode_array\<close>: \<open>func\<close> encodes the item at \<open>p\<close>.\<close>

fun encode_items :: "(u64 \<Rightarrow> 's encoding) \<Rightarrow> u64 \<Rightarrow> nat \<Rightarrow> u64 \<Rightarrow> 's encoding" where
  "encode_items func data_size 0 p s = Some (Some (), s)"
| "encode_items func data_size (Suc count) p s =
     run_attempt (func p s) (\<lambda>_ s. encode_items func data_size count (p + data_size) s)"

definition encode_array ::
  "'h pb_store \<Rightarrow> pb_field \<Rightarrow> u64 \<Rightarrow> u32 \<Rightarrow> (pb_field \<Rightarrow> u64 \<Rightarrow> 's encoding) \<Rightarrow> 's encoding" where
  "encode_array st field pData count func s =
     (let type = pf_type field; ltype = PB_LTYPE type; data_size = ucast (pf_data_size field) in
      if count = 0 then Some (Some (), s)
      else if PB_ATYPE type \<noteq> PB_ATYPE_POINTER \<and> pf_array_size field < count
      then Some (OS_RETURN_ERROR s ''array max size exceeded'')
      else if ltype \<le> PB_LTYPE_LAST_PACKABLE then
        run_attempt (Some (pb_encode_tag s PB_WT_STRING (pf_tag field))) (\<lambda>_ s.
          case (if ltype = PB_LTYPE_FIXED32 then Some (Some (4 * ucast count))
                else if ltype = PB_LTYPE_FIXED64 then Some (Some (8 * ucast count))
                else case encode_items (func field) data_size (unat count) pData PB_OSTREAM_SIZING of
                       None \<Rightarrow> None
                     | Some (None, _) \<Rightarrow> Some None
                     | Some (Some _, sizestream) \<Rightarrow> Some (Some (os_bytes_written sizestream))) of
            None \<Rightarrow> None
          | Some None \<Rightarrow> Some (None, s)
          | Some (Some len) \<Rightarrow>
              run_attempt (Some (pb_encode_varint s len)) (\<lambda>_ s.
                if no_callback (os_sink s) then Some (pb_write s [] len)
                else encode_items (func field) data_size (unat count) pData s))
      else
        encode_items (\<lambda>p s.
          run_attempt (Some (pb_encode_tag_for_field s field)) (\<lambda>_ s.
            if PB_ATYPE type = PB_ATYPE_POINTER \<and> (ltype = PB_LTYPE_STRING \<or> ltype = PB_LTYPE_BYTES)
            then func field (load_ptr (pb_mem st) p) s
            else func field p s))
          data_size (unat count) pData s)"

text \<open>\<open>all_fields P\<close>: the loop that stops at the first field for which \<open>P\<close> fails.\<close>

definition all_fields :: "(pb_field \<Rightarrow> u64 \<Rightarrow> bool option) \<Rightarrow> pb_field list \<Rightarrow> u64 \<Rightarrow> bool option" where
  "all_fields P fs pData =
     (case pb_field_iter_begin fs pData of (nonempty, iter) \<Rightarrow>
        if \<not> nonempty then Some True
        else iterate (\<lambda>iter.
               case P (it_field iter) (it_pData iter) of
                 None \<Rightarrow> None
               | Some False \<Rightarrow> Some (Inr False)
               | Some True \<Rightarrow>
                   (case pb_field_iter_next iter of (again, iter) \<Rightarrow>
                      Some (if again then Inl iter else Inr True)))
             iter)"

text \<open>The test of a field without count, flag or \<open>which_\<close> member.\<close>

definition singular_default ::
  "(pb_field \<Rightarrow> u64 \<Rightarrow> bool option) \<Rightarrow> ('h, 's) pb_env \<Rightarrow> 'h pb_store \<Rightarrow> pb_field \<Rightarrow> u64 \<Rightarrow> bool option" where
  "singular_default check env st field pData =
     (let type = pf_type field; m = pb_mem st in
      if PB_ATYPE type = PB_ATYPE_STATIC \<and> PB_LTYPE type = PB_LTYPE_BYTES then Some (load_size m pData = 0)
      else if PB_ATYPE type = PB_ATYPE_STATIC \<and> PB_LTYPE type = PB_LTYPE_STRING then Some (m pData = 0)
      else if PB_ATYPE type = PB_ATYPE_STATIC \<and> PB_LTYPE type = PB_LTYPE_FIXED_LENGTH_BYTES
      then Some (pf_data_size field = 0)
      else if PB_ATYPE type = PB_ATYPE_STATIC \<and> PB_LTYPE type = PB_LTYPE_SUBMESSAGE
      then all_fields check (submsg_fields env field) pData
      else if PB_ATYPE type = PB_ATYPE_POINTER \<and> PB_LTYPE_LAST_PACKABLE < PB_LTYPE type
      then Some (load_ptr m pData = 0)
      else Some (\<forall>b \<in> set (load_bytes m pData (unat (pf_data_size field))). b = 0))"

primrec pb_check_proto3_default_value ::
  "nat \<Rightarrow> ('h, 's) pb_env \<Rightarrow> 'h pb_store \<Rightarrow> pb_field \<Rightarrow> u64 \<Rightarrow> bool option" where
  "pb_check_proto3_default_value 0 env st field pData = None"
| "pb_check_proto3_default_value (Suc n) env st field pData =
     (let type = pf_type field; pSize = size_address pData field; m = pb_mem st in
      if PB_HTYPE type = PB_HTYPE_REQUIRED then Some False
      else if PB_HTYPE type = PB_HTYPE_REPEATED \<and> pf_size_offset field \<noteq> 0
      then Some (load_size m pSize = 0)
      else if PB_HTYPE type = PB_HTYPE_REPEATED \<and> PB_ATYPE type = PB_ATYPE_STATIC then Some False
      else if PB_HTYPE type = PB_HTYPE_ONEOF then Some (load_size m pSize = 0)
      else if PB_HTYPE type = PB_HTYPE_OPTIONAL \<and> pf_size_offset field \<noteq> 0
      then Some (\<not> safe_read_bool m pSize)
      else singular_default (pb_check_proto3_default_value n env st) env st field pData)"

text \<open>
  Without a \<open>size_offset\<close>, \<open>pSize\<close> points to the local \<open>implicit_has\<close>: a \<open>bool\<close>, too small to be
  read as the \<open>which_\<close> member of a union.
\<close>

definition encode_basic_field ::
  "nat \<Rightarrow> 's message_encoder \<Rightarrow> ('h, 's) pb_env \<Rightarrow> 'h pb_store \<Rightarrow> pb_field \<Rightarrow> u64 \<Rightarrow> 's encoding" where
  "encode_basic_field n encode env st field pData s =
     (let type = pf_type field; m = pb_mem st;
          func = PB_ENCODERS encode env st (PB_LTYPE type);
          pSize = size_address pData field
      in
      Option.bind
        (if pf_size_offset field = 0 \<and> PB_HTYPE type = PB_HTYPE_OPTIONAL
         then map_option Not (pb_check_proto3_default_value (Suc n) env st field pData)
         else Some True)
        (\<lambda>implicit_has.
          let (pData, implicit_has) =
                (if PB_ATYPE type = PB_ATYPE_POINTER then (load_ptr m pData, load_ptr m pData \<noteq> 0)
                 else (pData, implicit_has));
              tagged = (\<lambda>s. run_attempt (Some (pb_encode_tag_for_field s field)) (\<lambda>_ s. func field pData s))
          in
          if PB_HTYPE type = PB_HTYPE_REQUIRED then
            if pData = 0 then Some (OS_RETURN_ERROR s ''missing required field'') else tagged s
          else if PB_HTYPE type = PB_HTYPE_OPTIONAL then
            if (if pf_size_offset field \<noteq> 0 then safe_read_bool m pSize else implicit_has) then tagged s
            else Some (Some (), s)
          else if PB_HTYPE type = PB_HTYPE_REPEATED then
            encode_array st field pData
              (if pf_size_offset field \<noteq> 0 then load_size m pSize else pf_array_size field) func s
          else
            if pf_size_offset field = 0 then None
            else if load_size m pSize = pf_tag field then tagged s else Some (Some (), s)))"

definition encode_callback_field ::
  "('h, 's) pb_env \<Rightarrow> 'h pb_store \<Rightarrow> pb_field \<Rightarrow> u64 \<Rightarrow> 's encoding" where
  "encode_callback_field env st field pData s =
     (let encode = load_ptr (pb_mem st) pData in
      if encode \<noteq> 0
      then (case env_encode env encode s field (pData + 8) st of
              (None, s) \<Rightarrow> Some (OS_RETURN_ERROR s ''callback error'')
            | (Some _, s) \<Rightarrow> Some (Some (), s))
      else Some (Some (), s))"

definition encode_field ::
  "nat \<Rightarrow> 's message_encoder \<Rightarrow> ('h, 's) pb_env \<Rightarrow> 'h pb_store \<Rightarrow> pb_field \<Rightarrow> u64 \<Rightarrow> 's encoding" where
  "encode_field n encode env st field pData s =
     (let atype = PB_ATYPE (pf_type field) in
      if atype = PB_ATYPE_STATIC \<or> atype = PB_ATYPE_POINTER then encode_basic_field n encode env st field pData s
      else if atype = PB_ATYPE_CALLBACK then encode_callback_field env st field pData s
      else Some (OS_RETURN_ERROR s ''invalid field type''))"

definition default_extension_encoder ::
  "nat \<Rightarrow> 's message_encoder \<Rightarrow> ('h, 's) pb_env \<Rightarrow> 'h pb_store \<Rightarrow> u64 \<Rightarrow> 's encoding" where
  "default_extension_encoder n encode env st extension s =
     (let field = et_arg (ext_type env st extension) in
      if PB_ATYPE (pf_type field) = PB_ATYPE_POINTER
      then encode_field n encode env st field (extension + 8) s
      else encode_field n encode env st field (ext_dest st extension) s)"

definition encode_extension_field ::
  "nat \<Rightarrow> 's message_encoder \<Rightarrow> ('h, 's) pb_env \<Rightarrow> 'h pb_store \<Rightarrow> u64 \<Rightarrow> 's encoding" where
  "encode_extension_field n encode env st pData s =
     iterate (\<lambda>(extension, s).
       if extension = 0 then Some (Inr (Some (), s))
       else case (case et_encode (ext_type env st extension) of
                    Some f \<Rightarrow> Some (f s extension st)
                  | None \<Rightarrow> default_extension_encoder n encode env st extension s) of
              None \<Rightarrow> None
            | Some (None, s) \<Rightarrow> Some (Inr (None, s))
            | Some (Some _, s) \<Rightarrow> Some (Inl (ext_next st extension, s)))
     (load_ptr (pb_mem st) pData, s)"

subsection \<open>All fields\<close>

primrec pb_encode :: "nat \<Rightarrow> ('h, 's) pb_env \<Rightarrow> 'h pb_store \<Rightarrow> 's message_encoder" where
  "pb_encode 0 env st fs src_struct s = None"
| "pb_encode (Suc n) env st fs src_struct s =
     (case pb_field_iter_begin fs src_struct of (nonempty, iter) \<Rightarrow>
        if \<not> nonempty then Some (Some (), s)
        else iterate (\<lambda>(iter, s).
               case (if PB_LTYPE (pf_type (it_field iter)) = PB_LTYPE_EXTENSION
                     then encode_extension_field n (pb_encode n env st) env st (it_pData iter) s
                     else encode_field n (pb_encode n env st) env st (it_field iter) (it_pData iter) s) of
                 None \<Rightarrow> None
               | Some (None, s) \<Rightarrow> Some (Inr (None, s))
               | Some (Some _, s) \<Rightarrow>
                   (case pb_field_iter_next iter of (again, iter) \<Rightarrow>
                      Some (if again then Inl (iter, s) else Inr (Some (), s))))
             (iter, s))"

definition pb_encode_delimited :: "nat \<Rightarrow> ('h, 's) pb_env \<Rightarrow> 'h pb_store \<Rightarrow> 's message_encoder" where
  "pb_encode_delimited n env st fs src_struct s = pb_encode_submessage (pb_encode n env st) fs src_struct s"

definition pb_encode_nullterminated :: "nat \<Rightarrow> ('h, 's) pb_env \<Rightarrow> 'h pb_store \<Rightarrow> 's message_encoder" where
  "pb_encode_nullterminated n env st fs src_struct s =
     run_attempt (pb_encode n env st fs src_struct s) (\<lambda>_ s. Some (pb_write s [0] 1))"

text \<open>The value is \<open>*size\<close>, \<open>Some None\<close> the return value false.\<close>

definition pb_get_encoded_size ::
  "nat \<Rightarrow> ('h, 's) pb_env \<Rightarrow> 'h pb_store \<Rightarrow> pb_field list \<Rightarrow> u64 \<Rightarrow> u64 option option" where
  "pb_get_encoded_size n env st fs src_struct =
     (case pb_encode n env st fs src_struct PB_OSTREAM_SIZING of
        None \<Rightarrow> None
      | Some (None, _) \<Rightarrow> Some None
      | Some (Some _, stream) \<Rightarrow> Some (Some (os_bytes_written stream)))"

end
