(* ===== verification/Pb_Decode.thy ===== *)
theory Pb_Decode
  imports Pb_Field
begin

text \<open>
  Decoding into a structure from its descriptor (pb_decode.c).  Functions that reach
  \<^verbatim>\<open>pb_decode_noinit\<close> again for a submessage take it as the argument \<open>decode\<close>; \<^verbatim>\<open>pb_decode_noinit\<close>
  ties the knot with the number of nested calls the stack has room for.
\<close>

type_synonym ('a, 'h, 's) run = "('a, 's pb_istream \<times> 'h pb_store) outcome option"
type_synonym ('h, 's) message_decoder = "pb_field list \<Rightarrow> u64 \<Rightarrow> 's pb_istream \<Rightarrow> 'h pb_store \<Rightarrow> (unit, 'h, 's) run"

text \<open>A reader of the stream, and an error, with memory as it is.\<close>

definition reading :: "('a, 's pb_istream) outcome \<Rightarrow> 'h pb_store \<Rightarrow> ('a, 'h, 's) run" where
  "reading r st = Some (with_mem r st)"

definition fail_with :: "'s pb_istream \<Rightarrow> 'h pb_store \<Rightarrow> string \<Rightarrow> ('a, 'h, 's) run" where
  "fail_with s st msg = Some (None, (PB_SET_ERROR s msg, st))"

text \<open>\<^verbatim>\<open>pb_read\<close> into memory.\<close>

definition pb_read_to :: "'s pb_istream \<Rightarrow> 'h pb_store \<Rightarrow> u64 \<Rightarrow> u64 \<Rightarrow> (unit, 'h, 's) run" where
  "pb_read_to s st buf count =
     run_attempt (reading (pb_read s count) st) (\<lambda>bytes (s, st).
       Some (Some (), (s, st\<lparr>pb_mem := store_bytes (pb_mem st) buf (take (unat count) bytes)\<rparr>)))"

subsection \<open>Allocation\<close>

definition allocate_field ::
  "('h, 's) pb_env \<Rightarrow> 's pb_istream \<Rightarrow> 'h pb_store \<Rightarrow> u64 \<Rightarrow> u64 \<Rightarrow> u64 \<Rightarrow> (unit, 'h, 's) run" where
  "allocate_field env s st pData data_size array_size =
     (let check_limit = (2 ^ 32 :: u64); size_max = (- 1 :: u64) in
      if data_size = 0 \<or> array_size = 0 then fail_with s st ''invalid size''
      else if (check_limit \<le> data_size \<or> check_limit \<le> array_size) \<and> size_max div array_size < data_size
      then fail_with s st ''size too large''
      else (case pb_realloc env (load_ptr (pb_mem st) pData) (array_size * data_size) st of
              (None, st) \<Rightarrow> fail_with s st ''realloc failed''
            | (Some ptr, st) \<Rightarrow> Some (Some (), (s, st\<lparr>pb_mem := store_ptr (pb_mem st) pData ptr\<rparr>))))"

definition initialize_pointer_field ::
  "nat \<Rightarrow> ('h, 's) pb_env \<Rightarrow> u64 \<Rightarrow> pb_field_iter \<Rightarrow> 'h pb_store \<Rightarrow> 'h pb_store option" where
  "initialize_pointer_field n env pItem iter st =
     (let f = it_field iter; ltype = PB_LTYPE (pf_type f) in
      if ltype = PB_LTYPE_STRING \<or> ltype = PB_LTYPE_BYTES
      then Some (st\<lparr>pb_mem := store_ptr (pb_mem st) pItem 0\<rparr>)
      else if ltype = PB_LTYPE_SUBMESSAGE
      then pb_message_set_to_defaults n env (submsg_fields env f) pItem
             (st\<lparr>pb_mem := zero_bytes (pb_mem st) pItem (unat (pf_data_size f))\<rparr>)
      else Some st)"

subsection \<open>Field decoders\<close>

definition pb_dec_bool :: "pb_field \<Rightarrow> u64 \<Rightarrow> 's pb_istream \<Rightarrow> 'h pb_store \<Rightarrow> (unit, 'h, 's) run" where
  "pb_dec_bool field dest s st =
     run_attempt (reading (pb_decode_varint32 s) st) (\<lambda>v (s, st).
       Some (Some (), (s, st\<lparr>pb_mem := store_bool (pb_mem st) dest (v \<noteq> 0)\<rparr>)))"

text \<open>
  Storing a 64-bit value in a field of \<open>data_size\<close> bytes: the new memory and \<open>clamped\<close>, the value
  the field then has as a signed or as an unsigned integer.
\<close>

definition store_signed :: "mem \<Rightarrow> u64 \<Rightarrow> u32 \<Rightarrow> u64 \<Rightarrow> (mem \<times> u64) option" where
  "store_signed m dest data_size v =
     (if data_size = 8 then Some (store_word m dest 8 v, v)
      else if data_size = 4 then Some (store_word m dest 4 (ucast v :: u32), scast (ucast v :: u32))
      else if data_size = 2 then Some (store_word m dest 2 (ucast v :: u16), scast (ucast v :: u16))
      else if data_size = 1 then Some (store_word m dest 1 (ucast v :: u8), scast (ucast v :: u8))
      else None)"

definition store_unsigned :: "mem \<Rightarrow> u64 \<Rightarrow> u32 \<Rightarrow> u64 \<Rightarrow> (mem \<times> u64) option" where
  "store_unsigned m dest data_size v =
     (if data_size = 8 then Some (store_word m dest 8 v, v)
      else if data_size = 4 then Some (store_word m dest 4 (ucast v :: u32), ucast (ucast v :: u32))
      else if data_size = 2 then Some (store_word m dest 2 (ucast v :: u16), ucast (ucast v :: u16))
      else if data_size = 1 then Some (store_word m dest 1 (ucast v :: u8), ucast (ucast v :: u8))
      else None)"

definition store_clamped ::
  "(mem \<times> u64) option \<Rightarrow> u64 \<Rightarrow> 's pb_istream \<Rightarrow> 'h pb_store \<Rightarrow> (unit, 'h, 's) run" where
  "store_clamped r v s st =
     (case r of
        None \<Rightarrow> fail_with s st ''invalid data_size''
      | Some (m, clamped) \<Rightarrow>
          if clamped \<noteq> v then fail_with s (st\<lparr>pb_mem := m\<rparr>) ''integer too large''
          else Some (Some (), (s, st\<lparr>pb_mem := m\<rparr>)))"

definition pb_dec_varint :: "pb_field \<Rightarrow> u64 \<Rightarrow> 's pb_istream \<Rightarrow> 'h pb_store \<Rightarrow> (unit, 'h, 's) run" where
  "pb_dec_varint field dest s st =
     run_attempt (reading (pb_decode_varint s) st) (\<lambda>v (s, st).
       let svalue = (if pf_data_size field = 8 then v else scast (ucast v :: u32))
       in store_clamped (store_signed (pb_mem st) dest (pf_data_size field) svalue) svalue s st)"

definition pb_dec_uvarint :: "pb_field \<Rightarrow> u64 \<Rightarrow> 's pb_istream \<Rightarrow> 'h pb_store \<Rightarrow> (unit, 'h, 's) run" where
  "pb_dec_uvarint field dest s st =
     run_attempt (reading (pb_decode_varint s) st) (\<lambda>v (s, st).
       store_clamped (store_unsigned (pb_mem st) dest (pf_data_size field) v) v s st)"

definition pb_dec_svarint :: "pb_field \<Rightarrow> u64 \<Rightarrow> 's pb_istream \<Rightarrow> 'h pb_store \<Rightarrow> (unit, 'h, 's) run" where
  "pb_dec_svarint field dest s st =
     run_attempt (reading (pb_decode_svarint s) st) (\<lambda>v (s, st).
       store_clamped (store_signed (pb_mem st) dest (pf_data_size field) v) v s st)"

definition pb_dec_fixed32 :: "pb_field \<Rightarrow> u64 \<Rightarrow> 's pb_istream \<Rightarrow> 'h pb_store \<Rightarrow> (unit, 'h, 's) run" where
  "pb_dec_fixed32 field dest s st =
     run_attempt (reading (pb_decode_fixed32 s) st) (\<lambda>v (s, st).
       Some (Some (), (s, st\<lparr>pb_mem := store_word (pb_mem st) dest 4 v\<rparr>)))"

definition pb_dec_fixed64 :: "pb_field \<Rightarrow> u64 \<Rightarrow> 's pb_istream \<Rightarrow> 'h pb_store \<Rightarrow> (unit, 'h, 's) run" where
  "pb_dec_fixed64 field dest s st =
     run_attempt (reading (pb_decode_fixed64 s) st) (\<lambda>v (s, st).
       Some (Some (), (s, st\<lparr>pb_mem := store_word (pb_mem st) dest 8 v\<rparr>)))"

text \<open>
  The buffer of a bytes or string field: allocated, or the field itself when \<open>alloc_size\<close> bytes
  have room in it.
\<close>

definition field_buffer ::
  "('h, 's) pb_env \<Rightarrow> pb_field \<Rightarrow> u64 \<Rightarrow> u64 \<Rightarrow> u64 \<Rightarrow> string \<Rightarrow> 's pb_istream \<Rightarrow> 'h pb_store \<Rightarrow> (u64, 'h, 's) run" where
  "field_buffer env field dest len alloc_size msg s st =
     (if PB_ATYPE (pf_type field) = PB_ATYPE_POINTER then
        if is_bytes_left s < len then fail_with s st ''end-of-stream''
        else run_attempt (allocate_field env s st dest alloc_size 1) (\<lambda>_ (s, st).
               Some (Some (load_ptr (pb_mem st) dest), (s, st)))
      else if ucast (pf_data_size field) < alloc_size then fail_with s st msg
      else Some (Some dest, (s, st)))"

definition pb_dec_bytes ::
  "('h, 's) pb_env \<Rightarrow> pb_field \<Rightarrow> u64 \<Rightarrow> 's pb_istream \<Rightarrow> 'h pb_store \<Rightarrow> (unit, 'h, 's) run" where
  "pb_dec_bytes env field dest s st =
     run_attempt (reading (pb_decode_varint32 s) st) (\<lambda>len (s, st).
       let alloc_size = ucast len + 4 :: u64 in
       if PB_SIZE_MAX < len then fail_with s st ''bytes overflow''
       else if alloc_size < ucast len then fail_with s st ''size too large''
       else run_attempt (field_buffer env field dest (ucast len) alloc_size ''bytes overflow'' s st) (\<lambda>bdest (s, st).
              pb_read_to s (st\<lparr>pb_mem := store_size (pb_mem st) bdest len\<rparr>) (bdest + 4) (ucast len)))"

definition pb_dec_string ::
  "('h, 's) pb_env \<Rightarrow> pb_field \<Rightarrow> u64 \<Rightarrow> 's pb_istream \<Rightarrow> 'h pb_store \<Rightarrow> (unit, 'h, 's) run" where
  "pb_dec_string env field dest s st =
     run_attempt (reading (pb_decode_varint32 s) st) (\<lambda>len (s, st).
       let alloc_size = ucast (len + 1) :: u64 in
       if alloc_size < ucast len then fail_with s st ''size too large''
       else run_attempt (field_buffer env field dest (ucast len) alloc_size ''string overflow'' s st) (\<lambda>dest (s, st).
              case pb_read_to s st dest (ucast len) of
                None \<Rightarrow> None
              | Some (status, (s, st)) \<Rightarrow>
                  Some (status, (s, st\<lparr>pb_mem := store_bytes (pb_mem st) (dest + ucast len) [0]\<rparr>))))"

text \<open>\<^verbatim>\<open>pb_decode\<close> on top of \<open>decode\<close>, the \<^verbatim>\<open>pb_decode_noinit\<close> of the same level.\<close>

definition decode_initialized ::
  "nat \<Rightarrow> ('h, 's) message_decoder \<Rightarrow> ('h, 's) pb_env \<Rightarrow> ('h, 's) message_decoder" where
  "decode_initialized n decode env fs dest_struct s st =
     Option.bind (pb_message_set_to_defaults n env fs dest_struct st) (\<lambda>st.
       case decode fs dest_struct s st of
         None \<Rightarrow> None
       | Some (Some u, r) \<Rightarrow> Some (Some u, r)
       | Some (None, (s, st)) \<Rightarrow>
           map_option (\<lambda>st. (None, (s, st))) (pb_release n env fs dest_struct st))"

text \<open>Reading from a substream: its parent is closed whatever \<open>status\<close> the reading had.\<close>

definition close_with ::
  "'s pb_istream \<Rightarrow> (unit, 'h, 's) run \<Rightarrow> (unit, 'h, 's) run" where
  "close_with s r =
     (case r of
        None \<Rightarrow> None
      | Some (status, (substream, st)) \<Rightarrow>
          run_attempt (reading (pb_close_string_substream s substream) st) (\<lambda>_ (s, st). Some (status, (s, st))))"

definition pb_dec_submessage ::
  "nat \<Rightarrow> ('h, 's) message_decoder \<Rightarrow> ('h, 's) pb_env \<Rightarrow> pb_field \<Rightarrow> u64 \<Rightarrow> 's pb_istream \<Rightarrow> 'h pb_store \<Rightarrow> (unit, 'h, 's) run" where
  "pb_dec_submessage n decode env field dest s st =
     run_attempt (reading (pb_make_string_substream s) st) (\<lambda>substream (s, st).
       if pf_ptr field = Null_ptr then fail_with s st ''invalid field descriptor''
       else close_with s
              (if PB_HTYPE (pf_type field) = PB_HTYPE_REPEATED
               then decode_initialized n decode env (submsg_fields env field) dest substream st
               else decode (submsg_fields env field) dest substream st))"

definition pb_dec_fixed_length_bytes ::
  "pb_field \<Rightarrow> u64 \<Rightarrow> 's pb_istream \<Rightarrow> 'h pb_store \<Rightarrow> (unit, 'h, 's) run" where
  "pb_dec_fixed_length_bytes field dest s st =
     run_attempt (reading (pb_decode_varint32 s) st) (\<lambda>len (s, st).
       if PB_SIZE_MAX < len then fail_with s st ''bytes overflow''
       else if len = 0
       then Some (Some (), (s, st\<lparr>pb_mem := zero_bytes (pb_mem st) dest (unat (pf_data_size field))\<rparr>))
       else if len \<noteq> pf_data_size field then fail_with s st ''incorrect fixed length bytes size''
       else pb_read_to s st dest (ucast (pf_data_size field)))"

text \<open>The entry for extensions is NULL, and there is none beyond the last type.\<close>

definition PB_DECODERS ::
  "nat \<Rightarrow> ('h, 's) message_decoder \<Rightarrow> ('h, 's) pb_env \<Rightarrow> u8 \<Rightarrow> pb_field \<Rightarrow> u64 \<Rightarrow> 's pb_istream \<Rightarrow> 'h pb_store \<Rightarrow> (unit, 'h, 's) run" where
  "PB_DECODERS n decode env ltype =
     (if ltype = PB_LTYPE_BOOL then pb_dec_bool
      else if ltype = PB_LTYPE_VARINT then pb_dec_varint
      else if ltype = PB_LTYPE_UVARINT then pb_dec_uvarint
      else if ltype = PB_LTYPE_SVARINT then pb_dec_svarint
      else if ltype = PB_LTYPE_FIXED32 then pb_dec_fixed32
      else if ltype = PB_LTYPE_FIXED64 then pb_dec_fixed64
      else if ltype = PB_LTYPE_BYTES then pb_dec_bytes env
      else if ltype = PB_LTYPE_STRING then pb_dec_string env
      else if ltype = PB_LTYPE_SUBMESSAGE then pb_dec_submessage n decode env
      else if ltype = PB_LTYPE_FIXED_LENGTH_BYTES then pb_dec_fixed_length_bytes
      else (\<lambda>field dest s st. None))"

subsection \<open>One field\<close>

text \<open>
  A substream given up without being closed: what the parent's \<open>state\<close> points to has changed with
  it (see \<^const>\<open>pb_close_string_substream\<close>).
\<close>

definition abandon :: "'s pb_istream \<Rightarrow> 's pb_istream \<Rightarrow> 's pb_istream" where
  "abandon s sub =
     s\<lparr>is_source := (if is_user sub then is_source sub else is_source s), is_oob := is_oob s \<or> is_oob sub\<rparr>"

definition item_address :: "u64 \<Rightarrow> pb_field \<Rightarrow> u32 \<Rightarrow> u64" where
  "item_address p f i = p + ucast (pf_data_size f * i)"

text \<open>The loop over a packed array in the structure; the result is \<open>status\<close>.\<close>

definition packed_items ::
  "(pb_field \<Rightarrow> u64 \<Rightarrow> 's pb_istream \<Rightarrow> 'h pb_store \<Rightarrow> (unit, 'h, 's) run) \<Rightarrow> pb_field_iter
     \<Rightarrow> 's pb_istream \<Rightarrow> 'h pb_store \<Rightarrow> (unit, 'h, 's) run" where
  "packed_items func iter substream st =
     (let f = it_field iter in
      iterate (\<lambda>(substream, st).
        let n = read_count st (it_pSize iter) in
        if is_bytes_left substream \<noteq> 0 \<and> n < pf_array_size f
        then (case func f (item_address (it_pData iter) f n) substream st of
                None \<Rightarrow> None
              | Some (None, r) \<Rightarrow> Some (Inr (None, r))
              | Some (Some _, (substream, st)) \<Rightarrow>
                  Some (Inl (substream, write_count st (it_pSize iter) (read_count st (it_pSize iter) + 1))))
        else Some (Inr (Some (), (substream, st))))
      (substream, st))"

definition decode_static_field ::
  "nat \<Rightarrow> ('h, 's) message_decoder \<Rightarrow> ('h, 's) pb_env \<Rightarrow> u32 \<Rightarrow> pb_field_iter \<Rightarrow> 's pb_istream \<Rightarrow> 'h pb_store \<Rightarrow> (unit, 'h, 's) run" where
  "decode_static_field n decode env wire_type iter s st =
     (let f = it_field iter; type = pf_type f; pData = it_pData iter;
          func = PB_DECODERS n decode env (PB_LTYPE type)
      in
      if PB_HTYPE type = PB_HTYPE_REQUIRED then func f pData s st
      else if PB_HTYPE type = PB_HTYPE_OPTIONAL then
        func f pData s (if it_pSize iter \<noteq> Mem_size pData then write_flag st (it_pSize iter) True else st)
      else if PB_HTYPE type = PB_HTYPE_REPEATED then
        if wire_type = PB_WT_STRING \<and> PB_LTYPE type \<le> PB_LTYPE_LAST_PACKABLE then
          run_attempt (reading (pb_make_string_substream s) st) (\<lambda>substream (s, st).
            case packed_items func iter substream st of
              None \<Rightarrow> None
            | Some (status, (substream, st)) \<Rightarrow>
                if is_bytes_left substream \<noteq> 0 then fail_with (abandon s substream) st ''array overflow''
                else close_with s (Some (status, (substream, st))))
        else
          let n = read_count st (it_pSize iter); st = write_count st (it_pSize iter) (n + 1)
          in if pf_array_size f \<le> n then fail_with s st ''array overflow''
             else func f (item_address pData f n) s st
      else
        Option.bind
          (if PB_LTYPE type = PB_LTYPE_SUBMESSAGE \<and> read_count st (it_pSize iter) \<noteq> pf_tag f
           then pb_message_set_to_defaults n env (submsg_fields env f) pData
                  (st\<lparr>pb_mem := zero_bytes (pb_mem st) pData (unat (pf_data_size f))\<rparr>)
           else Some st)
          (\<lambda>st. func f pData s (write_count st (it_pSize iter) (pf_tag f))))"

text \<open>
  The loop over a packed array in allocated memory.  The result is \<open>status\<close> and, beside it, whether
  the message of \<open>stream\<close> itself was set.  A zero \<open>data_size\<close> is a division by zero.
\<close>

definition packed_pointer_items ::
  "nat \<Rightarrow> (pb_field \<Rightarrow> u64 \<Rightarrow> 's pb_istream \<Rightarrow> 'h pb_store \<Rightarrow> (unit, 'h, 's) run) \<Rightarrow> ('h, 's) pb_env \<Rightarrow> pb_field_iter
     \<Rightarrow> 's pb_istream \<Rightarrow> 'h pb_store \<Rightarrow> (bool \<times> unit option \<times> 's pb_istream \<times> 'h pb_store) option" where
  "packed_pointer_items n func env iter substream st =
     (let f = it_field iter; data_size = ucast (pf_data_size f) :: u64 in
      iterate (\<lambda>(allocated_size, substream, st).
        let count = read_count st (it_pSize iter) in
        if is_bytes_left substream = 0 then Some (Inr (False, Some (), substream, st))
        else if count = PB_SIZE_MAX then Some (Inr (True, None, substream, st))
        else if allocated_size < ucast count + 1 \<and> data_size = 0 then None
        else
          let grow = (allocated_size < ucast count + 1);
              remain = (is_bytes_left substream - 1) div data_size + 1;
              allocated_size =
                (if \<not> grow then allocated_size
                 else if remain < ucast PB_SIZE_MAX - allocated_size then allocated_size + remain
                 else allocated_size + 1)
          in case (if grow then allocate_field env substream st (it_pData iter) data_size allocated_size
                   else Some (Some (), (substream, st))) of
               None \<Rightarrow> None
             | Some (None, (substream, st)) \<Rightarrow> Some (Inr (False, None, substream, st))
             | Some (Some _, (substream, st)) \<Rightarrow>
                 let pItem = item_address (load_ptr (pb_mem st) (it_pData iter)) f count in
                 if pItem = 0 then Some (Inr (False, None, substream, st))
                 else
                   Option.bind (initialize_pointer_field n env pItem iter st) (\<lambda>st.
                     case func f pItem substream st of
                       None \<Rightarrow> None
                     | Some (None, (substream, st)) \<Rightarrow> Some (Inr (False, None, substream, st))
                     | Some (Some _, (substream, st)) \<Rightarrow>
                         Some (Inl (allocated_size, substream,
                                    write_count st (it_pSize iter) (read_count st (it_pSize iter) + 1)))))
      (ucast (read_count st (it_pSize iter)), substream, st))"

definition decode_pointer_field ::
  "nat \<Rightarrow> ('h, 's) message_decoder \<Rightarrow> ('h, 's) pb_env \<Rightarrow> u32 \<Rightarrow> pb_field_iter \<Rightarrow> 's pb_istream \<Rightarrow> 'h pb_store \<Rightarrow> (unit, 'h, 's) run" where
  "decode_pointer_field n decode env wire_type iter s st =
     (let f = it_field iter; type = pf_type f; pData = it_pData iter;
          func = PB_DECODERS n decode env (PB_LTYPE type)
      in
      if PB_HTYPE type \<noteq> PB_HTYPE_REPEATED then
        Option.bind
          (if PB_LTYPE type = PB_LTYPE_SUBMESSAGE \<and> load_ptr (pb_mem st) pData \<noteq> 0
           then pb_release_single_field (Suc n) env iter st else Some st)
          (\<lambda>st.
             let st = (if PB_HTYPE type = PB_HTYPE_ONEOF then write_count st (it_pSize iter) (pf_tag f) else st) in
             if PB_LTYPE type = PB_LTYPE_STRING \<or> PB_LTYPE type = PB_LTYPE_BYTES then func f pData s st
             else
               run_attempt (allocate_field env s st pData (ucast (pf_data_size f)) 1) (\<lambda>_ (s, st).
                 Option.bind (initialize_pointer_field n env (load_ptr (pb_mem st) pData) iter st) (\<lambda>st.
                   func f (load_ptr (pb_mem st) pData) s st)))
      else if wire_type = PB_WT_STRING \<and> PB_LTYPE type \<le> PB_LTYPE_LAST_PACKABLE then
        run_attempt (reading (pb_make_string_substream s) st) (\<lambda>substream (s, st).
          case packed_pointer_items n func env iter substream st of
            None \<Rightarrow> None
          | Some (too_many, status, substream, st) \<Rightarrow>
              close_with (if too_many then s\<lparr>is_errmsg := Some ''too many array entries''\<rparr> else s)
                (Some (status, (substream, st))))
      else
        let count = read_count st (it_pSize iter) in
        if count = PB_SIZE_MAX then fail_with s st ''too many array entries''
        else
          run_attempt (allocate_field env s st pData (ucast (pf_data_size f)) (ucast (count + 1))) (\<lambda>_ (s, st).
            let pItem = item_address (load_ptr (pb_mem st) pData) f (read_count st (it_pSize iter));
                st = write_count st (it_pSize iter) (read_count st (it_pSize iter) + 1)
            in Option.bind (initialize_pointer_field n env pItem iter st) (\<lambda>st. func f pItem s st)))"

definition decode_callback_field ::
  "('h, 's) pb_env \<Rightarrow> u32 \<Rightarrow> pb_field_iter \<Rightarrow> 's pb_istream \<Rightarrow> 'h pb_store \<Rightarrow> (unit, 'h, 's) run" where
  "decode_callback_field env wire_type iter s st =
     (let pCallback = it_pData iter; decode = load_ptr (pb_mem st) pCallback; f = it_field iter; arg = pCallback + 8 in
      if pCallback = 0 \<or> decode = 0 then reading (pb_skip_field s wire_type) st
      else if wire_type = PB_WT_STRING then
        run_attempt (reading (pb_make_string_substream s) st) (\<lambda>substream (s, st).
          iterate (\<lambda>(substream, st).
            case env_decode env decode substream f arg st of
              (None, (substream, st)) \<Rightarrow>
                Some (Inr (None, (PB_SET_ERROR (abandon s substream) ''callback failed'', st)))
            | (Some _, (substream, st)) \<Rightarrow>
                if is_bytes_left substream \<noteq> 0 then Some (Inl (substream, st))
                else map_option Inr (close_with s (Some (Some (), (substream, st)))))
          (substream, st))
      else
        run_attempt (reading (read_raw_value s wire_type 10) st) (\<lambda>buffer (s, st).
          case env_decode env decode (pb_istream_from_buffer buffer (of_nat (length buffer))) f arg st of
            (status, (_, st)) \<Rightarrow> Some (status, (s, st))))"

definition decode_field ::
  "nat \<Rightarrow> ('h, 's) message_decoder \<Rightarrow> ('h, 's) pb_env \<Rightarrow> u32 \<Rightarrow> pb_field_iter \<Rightarrow> 's pb_istream \<Rightarrow> 'h pb_store
     \<Rightarrow> (pb_field_iter, 'h, 's) run" where
  "decode_field n decode env wire_type iter s st =
     run_attempt
       (if PB_HTYPE (pf_type (it_field iter)) = PB_HTYPE_ONEOF then pb_release_union_field (Suc n) env s iter st
        else Some (Some iter, (s, st)))
       (\<lambda>iter (s, st).
          let atype = PB_ATYPE (pf_type (it_field iter)) in
          run_attempt
            (if atype = PB_ATYPE_STATIC then decode_static_field n decode env wire_type iter s st
             else if atype = PB_ATYPE_POINTER then decode_pointer_field n decode env wire_type iter s st
             else if atype = PB_ATYPE_CALLBACK then decode_callback_field env wire_type iter s st
             else fail_with s st ''invalid field type'')
            (\<lambda>_ r. Some (Some iter, r)))"

subsection \<open>Extensions\<close>

definition default_extension_decoder ::
  "nat \<Rightarrow> ('h, 's) message_decoder \<Rightarrow> ('h, 's) pb_env \<Rightarrow> u64 \<Rightarrow> u32 \<Rightarrow> u32 \<Rightarrow> 's pb_istream \<Rightarrow> 'h pb_store \<Rightarrow> (unit, 'h, 's) run" where
  "default_extension_decoder n decode env extension tag wire_type s st =
     (if pf_tag (et_arg (ext_type env st extension)) \<noteq> tag then Some (Some (), (s, st))
      else run_attempt
             (decode_field n decode env wire_type (iter_from_extension env st extension) s (set_ext_found st extension True))
             (\<lambda>_ r. Some (Some (), r)))"

definition decode_extension ::
  "nat \<Rightarrow> ('h, 's) message_decoder \<Rightarrow> ('h, 's) pb_env \<Rightarrow> u32 \<Rightarrow> u32 \<Rightarrow> pb_field_iter \<Rightarrow> 's pb_istream \<Rightarrow> 'h pb_store \<Rightarrow> (unit, 'h, 's) run" where
  "decode_extension n decode env tag wire_type iter s st =
     (let pos = is_bytes_left s in
      iterate (\<lambda>(extension, s, st).
        if extension = 0 \<or> is_bytes_left s \<noteq> pos then Some (Inr (Some (), (s, st)))
        else case (case et_decode (ext_type env st extension) of
                     Some f \<Rightarrow> Some (f s extension tag wire_type st)
                   | None \<Rightarrow> default_extension_decoder n decode env extension tag wire_type s st) of
               None \<Rightarrow> None
             | Some (None, r) \<Rightarrow> Some (Inr (None, r))
             | Some (Some _, (s, st)) \<Rightarrow> Some (Inl (ext_next st extension, s, st)))
      (load_ptr (pb_mem st) (it_pData iter), s, st))"

definition find_extension_field :: "pb_field_iter \<Rightarrow> (bool \<times> pb_field_iter) option" where
  "find_extension_field iter =
     (let start = it_pos iter in
      iterate (\<lambda>iter.
        if PB_LTYPE (pf_type (it_field iter)) = PB_LTYPE_EXTENSION then Some (Inr (True, iter))
        else let iter = snd (pb_field_iter_next iter)
             in if it_pos iter \<noteq> start then Some (Inl iter) else Some (Inr (False, iter)))
      iter)"

subsection \<open>All fields\<close>

text \<open>The local variables of the loop of \<^verbatim>\<open>pb_decode_noinit\<close>.\<close>

record decode_locals =
  dl_iter :: pb_field_iter
  fields_seen :: "u32 list"
  extension_range_start :: u32
  fixed_count_field :: "nat option"

definition PB_MAX_REQUIRED_FIELDS :: nat where "PB_MAX_REQUIRED_FIELDS = 64"

text \<open>A field that no descriptor matches: an extension may take it, otherwise it is skipped.\<close>

definition decode_unknown ::
  "nat \<Rightarrow> ('h, 's) message_decoder \<Rightarrow> ('h, 's) pb_env \<Rightarrow> u32 \<Rightarrow> u32 \<Rightarrow> decode_locals \<Rightarrow> 's pb_istream \<Rightarrow> 'h pb_store
     \<Rightarrow> (decode_locals, 'h, 's) run" where
  "decode_unknown n decode env tag wire_type l s st =
     (let skip = (\<lambda>l s st. run_attempt (reading (pb_skip_field s wire_type) st) (\<lambda>_ r. Some (Some l, r))) in
      if tag < extension_range_start l then skip l s st
      else Option.bind (find_extension_field (dl_iter l)) (\<lambda>(found, iter).
        let l = l\<lparr>dl_iter := iter, extension_range_start := (if found then pf_tag (it_field iter) else - 1)\<rparr> in
        if tag < extension_range_start l then skip l s st
        else
          let pos = is_bytes_left s in
          run_attempt (decode_extension n decode env tag wire_type iter s st) (\<lambda>_ (s, st).
            if pos \<noteq> is_bytes_left s then Some (Some l, (s, st)) else skip l s st)))"

text \<open>A field found by its tag.\<close>

definition wrong_fixed_count :: "decode_locals \<Rightarrow> 'h pb_store \<Rightarrow> bool" where
  "wrong_fixed_count l st =
     (case fixed_count_field l of
        None \<Rightarrow> False
      | Some i \<Rightarrow> fixed_count_size st \<noteq> pf_array_size (field_at (it_start (dl_iter l)) i))"

definition decode_known ::
  "nat \<Rightarrow> ('h, 's) message_decoder \<Rightarrow> ('h, 's) pb_env \<Rightarrow> u32 \<Rightarrow> decode_locals \<Rightarrow> 's pb_istream \<Rightarrow> 'h pb_store
     \<Rightarrow> (decode_locals, 'h, 's) run" where
  "decode_known n decode env wire_type l s st =
     (let iter = dl_iter l; f = it_field iter; i = it_required_field_index iter;
          fixed = (PB_HTYPE (pf_type f) = PB_HTYPE_REPEATED \<and> it_pSize iter = Mem_size (it_pData iter));
          new_field = (fixed \<and> fixed_count_field l \<noteq> Some (it_pos iter))
      in
      if new_field \<and> wrong_fixed_count l st then fail_with s st ''wrong size for fixed count field''
      else
        let st = (if new_field then st\<lparr>fixed_count_size := 0\<rparr> else st);
            iter = (if fixed then iter\<lparr>it_pSize := Local_size\<rparr> else iter);
            l = l\<lparr>dl_iter := iter,
                  fixed_count_field := (if new_field then Some (it_pos iter) else fixed_count_field l),
                  fields_seen := (if PB_HTYPE (pf_type f) = PB_HTYPE_REQUIRED \<and> i < PB_MAX_REQUIRED_FIELDS
                                  then (fields_seen l)[i div 32 := fields_seen l ! (i div 32) OR push_bit (i mod 32) 1]
                                  else fields_seen l)\<rparr>
        in run_attempt (decode_field n decode env wire_type iter s st) (\<lambda>iter r.
             Some (Some (l\<lparr>dl_iter := iter\<rparr>), r)))"

text \<open>One round of the loop.  \<open>Inr\<close> of a success is \<^verbatim>\<open>break\<close>, of a failure \<^verbatim>\<open>return false\<close>.\<close>

definition decode_round ::
  "nat \<Rightarrow> ('h, 's) message_decoder \<Rightarrow> ('h, 's) pb_env \<Rightarrow> decode_locals \<times> 's pb_istream \<times> 'h pb_store
     \<Rightarrow> (decode_locals \<times> 's pb_istream \<times> 'h pb_store + (decode_locals, 's pb_istream \<times> 'h pb_store) outcome) option" where
  "decode_round n decode env = (\<lambda>(l, s, st).
     if is_bytes_left s = 0 then Some (Inr (Some l, (s, st)))
     else case pb_decode_tag s of
       (None, eof, s) \<Rightarrow> Some (Inr (if eof then Some l else None, (s, st)))
     | (Some (wire_type, tag), _, s) \<Rightarrow>
         Option.bind (pb_field_iter_find (dl_iter l) tag) (\<lambda>(found, iter).
           let l = l\<lparr>dl_iter := iter\<rparr> in
           case (if found then decode_known n decode env wire_type l s st
                 else decode_unknown n decode env tag wire_type l s st) of
             None \<Rightarrow> None
           | Some (None, r) \<Rightarrow> Some (Inr (None, r))
           | Some (Some l, (s, st)) \<Rightarrow> Some (Inl (l, s, st))))"

text \<open>The number of required fields, and whether each of them has been seen.\<close>

definition required_field_count :: "pb_field_iter \<Rightarrow> nat option" where
  "required_field_count iter =
     iterate (\<lambda>iter.
       let req_field_count = it_required_field_index iter; last_type = pf_type (it_field iter) in
       case pb_field_iter_next iter of (again, iter) \<Rightarrow>
         Some (if again then Inl iter
               else Inr (if PB_HTYPE last_type = PB_HTYPE_REQUIRED \<and> pf_tag (it_field iter) \<noteq> 0
                         then req_field_count + 1 else req_field_count)))
     iter"

definition required_fields_seen :: "nat \<Rightarrow> u32 list \<Rightarrow> bool" where
  "required_fields_seen req_field_count seen =
     (let req_field_count = min req_field_count PB_MAX_REQUIRED_FIELDS; allbits = (- 1 :: u32) in
      (\<forall>i \<in> {..< req_field_count div 32}. seen ! i = allbits)
      \<and> (req_field_count mod 32 \<noteq> 0 \<longrightarrow>
           seen ! (req_field_count div 32) = drop_bit (32 - req_field_count mod 32) allbits))"

definition decode_message ::
  "nat \<Rightarrow> ('h, 's) message_decoder \<Rightarrow> ('h, 's) pb_env \<Rightarrow> ('h, 's) message_decoder" where
  "decode_message n decode env fs dest_struct s st =
     run_attempt
       (iterate (decode_round n decode env)
          (\<lparr>dl_iter = snd (pb_field_iter_begin fs dest_struct), fields_seen = [0, 0],
            extension_range_start = 0, fixed_count_field = None\<rparr>, s, st))
       (\<lambda>l (s, st).
          if wrong_fixed_count l st then fail_with s st ''wrong size for fixed count field''
          else Option.bind (required_field_count (dl_iter l)) (\<lambda>req_field_count.
            if required_fields_seen req_field_count (fields_seen l) then Some (Some (), (s, st))
            else fail_with s st ''missing required field''))"

primrec pb_decode_noinit :: "nat \<Rightarrow> ('h, 's) pb_env \<Rightarrow> ('h, 's) message_decoder" where
  "pb_decode_noinit 0 env fs dest_struct s st = None"
| "pb_decode_noinit (Suc n) env fs dest_struct s st =
     map_option (\<lambda>(r, (s, st')). (r, (s, st'\<lparr>fixed_count_size := fixed_count_size st\<rparr>)))
       (decode_message n (pb_decode_noinit n env) env fs dest_struct s (st\<lparr>fixed_count_size := 0\<rparr>))"

definition pb_decode :: "nat \<Rightarrow> ('h, 's) pb_env \<Rightarrow> ('h, 's) message_decoder" where
  "pb_decode n env fs dest_struct s st = decode_initialized n (pb_decode_noinit n env) env fs dest_struct s st"

definition pb_decode_delimited_noinit :: "nat \<Rightarrow> ('h, 's) pb_env \<Rightarrow> ('h, 's) message_decoder" where
  "pb_decode_delimited_noinit n env fs dest_struct s st =
     run_attempt (reading (pb_make_string_substream s) st) (\<lambda>substream (s, st).
       close_with s (pb_decode_noinit n env fs dest_struct substream st))"

definition pb_decode_delimited :: "nat \<Rightarrow> ('h, 's) pb_env \<Rightarrow> ('h, 's) message_decoder" where
  "pb_decode_delimited n env fs dest_struct s st =
     run_attempt (reading (pb_make_string_substream s) st) (\<lambda>substream (s, st).
       close_with s (pb_decode n env fs dest_struct substream st))"

definition pb_decode_nullterminated :: "nat \<Rightarrow> ('h, 's) pb_env \<Rightarrow> ('h, 's) message_decoder" where
  "pb_decode_nullterminated n env fs dest_struct s st = pb_decode n env fs dest_struct s st"

end
