(* ===== verification/Pb_Layout.thy ===== *)
theory Pb_Layout
  imports Pb_Field
begin

text \<open>
  What the field iterator computes, as a function of the descriptor and a position: the offsets of a
  field and of its count in the structure.  The loops over all fields become folds over positions.
\<close>

subsection \<open>Loops over positions\<close>

lemma iterate_steps:
  assumes "\<And>k. k < n \<Longrightarrow> body (f k) = Some (Inl (f (Suc k)))" "body (f n) = Some (Inr r)"
  shows "iterate body (f 0) = Some r"
  using assms
proof (induction n arbitrary: f)
  case 0
  then show ?case by (subst iterate.simps) simp
next
  case (Suc n)
  have "iterate body (f (Suc 0)) = Some r"
    using Suc.IH [of "\<lambda>k. f (Suc k)"] Suc.prems by simp
  with Suc.prems(1) [of 0] show ?case by (subst iterate.simps) simp
qed

fun fold_option :: "('a \<Rightarrow> 'c \<Rightarrow> 'c option) \<Rightarrow> 'a list \<Rightarrow> 'c \<Rightarrow> 'c option" where
  "fold_option f [] c = Some c"
| "fold_option f (x # xs) c = Option.bind (f x c) (fold_option f xs)"

lemma fold_option_inv:
  assumes "P c" "\<And>x c. x \<in> set xs \<Longrightarrow> P c \<Longrightarrow> \<exists>c'. f x c = Some c' \<and> P c'"
  shows "\<exists>c'. fold_option f xs c = Some c' \<and> P c'"
  using assms
proof (induction xs arbitrary: c)
  case Nil
  then show ?case by simp
next
  case (Cons x xs)
  then obtain c' where "f x c = Some c'" "P c'" by force
  with Cons.IH [of c'] Cons.prems(2) show ?case by simp
qed

subsection \<open>The two bits of a \<^verbatim>\<open>HTYPE\<close>\<close>

lemma and_single_bit: "x AND push_bit n 1 = (if bit x n then push_bit n 1 else 0)" for x :: "'a::len word"
  by (rule bit_word_eqI) (auto simp: bit_simps)

lemma htype_cases:
  obtains (Required) "PB_HTYPE x = PB_HTYPE_REQUIRED" | (Optional) "PB_HTYPE x = PB_HTYPE_OPTIONAL"
    | (Repeated) "PB_HTYPE x = PB_HTYPE_REPEATED" | (Oneof) "PB_HTYPE x = PB_HTYPE_ONEOF"
proof -
  have "PB_HTYPE x = (x AND push_bit 4 1) OR (x AND push_bit 5 1)"
    by (simp add: PB_HTYPE_def bit.conj_disj_distrib [symmetric])
  then have "PB_HTYPE x \<in> {0x00, 0x10, 0x20, 0x30}" unfolding and_single_bit by simp
  then show ?thesis using that by (auto simp: pb_htypes)
qed

subsection \<open>Offsets\<close>

definition in_union :: "pb_field \<Rightarrow> pb_field \<Rightarrow> bool" where
  "in_union prev_field f \<longleftrightarrow> PB_HTYPE (pf_type prev_field) = PB_HTYPE_ONEOF
     \<and> PB_HTYPE (pf_type f) = PB_HTYPE_ONEOF \<and> pf_data_offset f = PB_SIZE_MAX"

definition field_bytes_in_struct :: "pb_field \<Rightarrow> u64" where
  "field_bytes_in_struct f =
     (if PB_ATYPE (pf_type f) = PB_ATYPE_STATIC \<and> PB_HTYPE (pf_type f) = PB_HTYPE_REPEATED
      then ucast (pf_data_size f) * ucast (pf_array_size f)
      else if PB_ATYPE (pf_type f) = PB_ATYPE_POINTER then 8
      else ucast (pf_data_size f))"

fun data_off :: "pb_field list \<Rightarrow> nat \<Rightarrow> u64" where
  "data_off fs 0 = ucast (pf_data_offset (field_at fs 0))"
| "data_off fs (Suc i) =
     (if in_union (field_at fs i) (field_at fs (Suc i)) then data_off fs i
      else data_off fs i + field_bytes_in_struct (field_at fs i) + ucast (pf_data_offset (field_at fs (Suc i))))"

fun size_off :: "pb_field list \<Rightarrow> nat \<Rightarrow> u64" where
  "size_off fs 0 = data_off fs 0 + scast (pf_size_offset (field_at fs 0))"
| "size_off fs (Suc i) =
     (if in_union (field_at fs i) (field_at fs (Suc i)) then size_off fs i
      else data_off fs (Suc i) + scast (pf_size_offset (field_at fs (Suc i))))"

definition required :: "pb_field \<Rightarrow> bool" where
  "required f \<longleftrightarrow> PB_HTYPE (pf_type f) = PB_HTYPE_REQUIRED"

definition required_before :: "pb_field list \<Rightarrow> nat \<Rightarrow> nat" where
  "required_before fs i = length (filter required (take i fs))"

definition iter_at :: "pb_field list \<Rightarrow> u64 \<Rightarrow> nat \<Rightarrow> pb_field_iter" where
  "iter_at fs dest i =
     \<lparr>it_start = fs, it_pos = i, it_required_field_index = required_before fs i, it_dest_struct = dest,
      it_pData = dest + data_off fs i, it_pSize = Mem_size (dest + size_off fs i)\<rparr>"

text \<open>The tag 0 is the terminator's.\<close>

definition tagged_fields :: "pb_field list \<Rightarrow> bool" where
  "tagged_fields fs \<longleftrightarrow> (\<forall>f \<in> set fs. pf_tag f \<noteq> 0)"

lemma iter_at_sel [simp]:
  "it_start (iter_at fs dest i) = fs" "it_pos (iter_at fs dest i) = i"
  "it_required_field_index (iter_at fs dest i) = required_before fs i"
  "it_dest_struct (iter_at fs dest i) = dest" "it_pData (iter_at fs dest i) = dest + data_off fs i"
  "it_pSize (iter_at fs dest i) = Mem_size (dest + size_off fs i)"
  by (simp_all add: iter_at_def)

lemma it_field_iter_at [simp]: "i < length fs \<Longrightarrow> it_field (iter_at fs dest i) = fs ! i"
  by (simp add: it_field_def field_at_def)

lemma tag_field_at: "tagged_fields fs \<Longrightarrow> pf_tag (field_at fs i) \<noteq> 0 \<longleftrightarrow> i < length fs"
  by (auto simp: field_at_def tagged_fields_def PB_LAST_FIELD_def)

lemma iter_begin:
  assumes "tagged_fields fs" "dest \<noteq> 0"
  shows "pb_field_iter_begin fs dest = (fs \<noteq> [], iter_at fs dest 0)"
  using tag_field_at [OF assms(1), of 0] assms(2)
  by (simp add: pb_field_iter_begin_def Let_def iter_at_def size_address_def required_before_def add.assoc)

lemma iter_next:
  assumes "tagged_fields fs" "dest \<noteq> 0" "i < length fs"
  shows "pb_field_iter_next (iter_at fs dest i) =
    (if Suc i < length fs then (True, iter_at fs dest (Suc i)) else (False, iter_at fs dest 0))"
proof -
  let ?p = "field_at fs i" and ?f = "field_at fs (Suc i)"
  have p: "it_field (iter_at fs dest i) = ?p" by (simp add: it_field_def)
  have t: "pf_tag ?p \<noteq> 0" "pf_tag ?f = 0 \<longleftrightarrow> \<not> Suc i < length fs"
    using tag_field_at [OF assms(1)] assms(3) by blast+
  have "it_field (iter_at fs dest i\<lparr>it_pos := Suc i\<rparr>) = ?f" by (simp add: it_field_def)
  moreover have "required_before fs (Suc i) = required_before fs i + (if required ?p then 1 else 0)"
    using assms(3) by (simp add: required_before_def take_Suc_conv_app_nth field_at_def)
  ultimately show ?thesis
    using t p iter_begin [OF assms(1,2)]
    by (simp add: pb_field_iter_next_def Let_def in_union_def [symmetric] field_bytes_in_struct_def [symmetric])
      (auto simp: iter_at_def in_union_def field_bytes_in_struct_def required_def size_address_def add.assoc
        PB_HTYPE_ONEOF_def PB_HTYPE_REQUIRED_def)
qed

lemma iter_next_empty: "pb_field_iter_next (iter_at [] dest 0) = (False, iter_at [] dest 0)"
  by (simp add: pb_field_iter_next_def it_field_def field_at_def PB_LAST_FIELD_def)

lemma for_fields_eq:
  assumes "tagged_fields fs" "dest \<noteq> 0"
  shows "for_fields f fs dest c = fold_option (\<lambda>i. f (iter_at fs dest i)) [0..<length fs] c"
proof (cases "fs = []")
  case True
  with iter_begin [OF assms] show ?thesis by (simp add: for_fields_def)
next
  case False
  define body where "body = (\<lambda>(iter, c).
    case f iter c of None \<Rightarrow> None
    | Some c \<Rightarrow> (case pb_field_iter_next iter of (again, iter) \<Rightarrow> Some (if again then Inl (iter, c) else Inr c)))"
  have "iterate body (iter_at fs dest i, c) = fold_option (\<lambda>i. f (iter_at fs dest i)) [i..<length fs] c"
    if "i < length fs" for i c
    using that
  proof (induction "length fs - i" arbitrary: i c)
    case 0
    then show ?case by simp
  next
    case (Suc k)
    have u: "[i..<length fs] = i # [Suc i..<length fs]" using Suc.prems by (rule upt_conv_Cons)
    have e: "Suc i = length fs" if "\<not> Suc i < length fs" using that Suc.prems by simp
    show ?case
      using Suc.hyps Suc.prems e
      by (subst iterate.simps)
        (simp add: body_def u iter_next [OF assms] split: option.split sum.split)
  qed
  then show ?thesis
    using False iter_begin [OF assms] by (simp add: for_fields_def body_def)
qed

subsection \<open>Finding a field\<close>

definition matches :: "u32 \<Rightarrow> pb_field \<Rightarrow> bool" where
  "matches tag f \<longleftrightarrow> pf_tag f = tag \<and> PB_LTYPE (pf_type f) \<noteq> PB_LTYPE_EXTENSION"

text \<open>The search goes round the fields once, from position \<open>i\<close>.\<close>

lemma search_fields:
  assumes fs: "tagged_fields fs" "dest \<noteq> 0" and i: "i < length fs"
    and body: "\<And>j. j < length fs \<Longrightarrow> body (iter_at fs dest j) =
      (if P j then Some (Inr (True, iter_at fs dest j))
       else let iter = snd (pb_field_iter_next (iter_at fs dest j))
            in if it_pos iter \<noteq> i then Some (Inl iter) else Some (Inr (False, iter)))"
  shows "iterate body (iter_at fs dest i) =
    (case find P ([i..<length fs] @ [0..<i]) of
       Some j \<Rightarrow> Some (True, iter_at fs dest j) | None \<Rightarrow> Some (False, iter_at fs dest i))"
proof -
  let ?n = "length fs"
  define g where "g k = (i + k) mod ?n" for k
  define f where "f k = iter_at fs dest (g k)" for k
  have n: "0 < ?n" using i by linarith
  have g: "g k < ?n" for k using n by (simp add: g_def)
  have g_Suc: "g (Suc k) = (if Suc (g k) < ?n then Suc (g k) else 0)" for k
    using mod_Suc [of "i + k" ?n] g [of k] by (auto simp: g_def)
  have nth: "([i..<?n] @ [0..<i]) ! k = g k" if "k < ?n" for k
  proof (cases "k < ?n - i")
    case True
    with i show ?thesis by (simp add: nth_append g_def)
  next
    case False
    then have "(i + k) mod ?n = i + k - ?n" using that i by (simp add: le_mod_geq)
    with False that i show ?thesis by (simp add: nth_append g_def)
  qed
  have home: "g k = i \<longleftrightarrow> k = 0" if "k < ?n" for k
  proof (cases "i + k < ?n")
    case False
    then have "(i + k) mod ?n = i + k - ?n" using that i by (simp add: le_mod_geq)
    with False that i show ?thesis by (simp add: g_def)
  qed (simp add: g_def)
  have wrap: "g ?n = i" using i by (simp add: g_def)
  have step: "body (f k) = (if P (g k) then Some (Inr (True, f k))
      else if g (Suc k) \<noteq> i then Some (Inl (f (Suc k))) else Some (Inr (False, f (Suc k))))" for k
    unfolding f_def body [OF g] using iter_next [OF fs g, of k] g_Suc [of k] by (simp add: Let_def)
  have f0: "f 0 = iter_at fs dest i" using i by (simp add: f_def g_def)
  show ?thesis
  proof (cases "\<exists>k < ?n. P (g k)")
    case True
    define k where "k = (LEAST k. k < ?n \<and> P (g k))"
    have k: "k < ?n" "P (g k)" using LeastI_ex [OF True [unfolded Bex_def]] by (simp_all add: k_def)
    have less: "\<not> P (g j)" if "j < k" for j
      using not_less_Least [OF that [unfolded k_def]] that k(1) by simp
    have "iterate body (f 0) = Some (True, f k)"
    proof (rule iterate_steps [of k])
      fix j assume "j < k"
      with less k(1) home [of "Suc j"] show "body (f j) = Some (Inl (f (Suc j)))" by (simp add: step)
    qed (use k in \<open>simp add: step\<close>)
    moreover have "find P ([i..<?n] @ [0..<i]) = Some (g k)"
      unfolding find_Some_iff using k less nth i by (intro exI [of _ k]) simp
    ultimately show ?thesis by (simp add: f0) (simp add: f_def)
  next
    case False
    have "iterate body (f 0) = Some (False, f ?n)"
    proof (rule iterate_steps [of "?n - 1"])
      fix j assume "j < ?n - 1"
      with False home [of "Suc j"] show "body (f j) = Some (Inl (f (Suc j)))" by (simp add: step)
    qed (use False wrap n in \<open>simp add: step\<close>)
    moreover have "find P ([i..<?n] @ [0..<i]) = None"
    proof -
      have "\<not> P (([i..<?n] @ [0..<i]) ! k)" if "k < ?n" for k using False nth [OF that] that by simp
      moreover have "length ([i..<?n] @ [0..<i]) = ?n" using i by simp
      ultimately show ?thesis by (metis find_None_iff in_set_conv_nth)
    qed
    ultimately show ?thesis by (simp add: f0) (simp add: f_def wrap)
  qed
qed

lemma iter_find:
  assumes "tagged_fields fs" "dest \<noteq> 0" "i < length fs"
  shows "pb_field_iter_find (iter_at fs dest i) tag =
    (case find (\<lambda>j. matches tag (fs ! j)) ([i..<length fs] @ [0..<i]) of
       Some j \<Rightarrow> Some (True, iter_at fs dest j) | None \<Rightarrow> Some (False, iter_at fs dest i))"
  unfolding pb_field_iter_find_def Let_def iter_at_sel
  by (rule search_fields [OF assms]) (simp add: matches_def Let_def)

lemma iter_find_empty: "tag \<noteq> 0 \<Longrightarrow> pb_field_iter_find (iter_at [] dest 0) tag = Some (False, iter_at [] dest 0)"
  by (simp add: pb_field_iter_find_def Let_def)
    (subst iterate.simps, simp add: it_field_def field_at_def PB_LAST_FIELD_def iter_next_empty)

end
