(* ===== verification/Pb_Safe.thy ===== *)
theory Pb_Safe
  imports Pb_Decode Pb_Layout
begin

text \<open>
  The contract of a decoding run on a buffer stream: it has a result, stays inside the bytes the stream
  had left, writes only to a given region of memory and does not use the allocator.
\<close>

subsection \<open>Streams that stay inside their bytes\<close>

definition within :: "'s pb_istream \<Rightarrow> 's pb_istream \<Rightarrow> bool" where
  "within s s' \<longleftrightarrow>
     (\<forall>src. is_source s = In_buf src \<longrightarrow> unat (is_bytes_left s) \<le> length src \<longrightarrow> \<not> is_oob s \<longrightarrow>
        (\<exists>k. k + unat (is_bytes_left s') \<le> unat (is_bytes_left s)
           \<and> is_source s' = In_buf (drop k src) \<and> \<not> is_oob s'))"

definition viewed :: "'s pb_istream \<Rightarrow> bool" where
  "viewed s \<longleftrightarrow> (\<exists>src. is_source s = In_buf src \<and> unat (is_bytes_left s) \<le> length src \<and> \<not> is_oob s)"

lemma viewed_iff: "viewed s \<longleftrightarrow> (\<exists>bs. is_view s = Some bs)"
  by (auto simp: viewed_def is_view_Some)

lemma within_refl [simp, intro]: "within s s"
  by (auto simp: within_def intro: exI [of _ 0])

lemma within_reads: "reads s s' \<Longrightarrow> within s s'"
  unfolding within_def reads_def by (elim all_forward imp_forward ex_forward) auto

lemma within_viewed:
  "viewed s \<Longrightarrow> within s s' \<Longrightarrow> viewed s' \<and> unat (is_bytes_left s') \<le> unat (is_bytes_left s)"
proof -
  assume "viewed s" "within s s'"
  then obtain src k where "is_source s = In_buf src" "unat (is_bytes_left s) \<le> length src"
    "k + unat (is_bytes_left s') \<le> unat (is_bytes_left s)" "is_source s' = In_buf (drop k src)" "\<not> is_oob s'"
    unfolding viewed_def within_def by blast
  then show ?thesis by (simp add: viewed_def)
qed

lemma within_trans:
  assumes "within s t" "within t u"
  shows "within s u"
  unfolding within_def
proof (intro allI impI)
  fix src
  assume s: "is_source s = In_buf src" "unat (is_bytes_left s) \<le> length src" "\<not> is_oob s"
  with assms(1) obtain k where k: "k + unat (is_bytes_left t) \<le> unat (is_bytes_left s)"
    "is_source t = In_buf (drop k src)" "\<not> is_oob t" by (auto simp: within_def)
  then have "unat (is_bytes_left t) \<le> length (drop k src)" using s by simp
  with assms(2) k obtain j where j: "j + unat (is_bytes_left u) \<le> unat (is_bytes_left t)"
    "is_source u = In_buf (drop j (drop k src))" "\<not> is_oob u" by (auto simp: within_def)
  then show "\<exists>k. k + unat (is_bytes_left u) \<le> unat (is_bytes_left s)
      \<and> is_source u = In_buf (drop k src) \<and> \<not> is_oob u"
    using k by (intro exI [of _ "k + j"]) (auto simp: add.commute)
qed

lemma within_set_error [simp]: "within s (PB_SET_ERROR t msg) = within s t"
  by (simp add: within_def PB_SET_ERROR_def)

lemma reads_bytes_left: "viewed s \<Longrightarrow> reads s s' \<Longrightarrow> unat (is_bytes_left s') \<le> unat (is_bytes_left s)"
  using within_viewed [OF _ within_reads] by blast

text \<open>Decoding a number consumes a byte.\<close>

lemma readbyte_then_progress:
  assumes "viewed s" "attempt (pb_readbyte s) k = (Some x, s')" "\<And>b t. reads t (snd (k b t))"
  shows "unat (is_bytes_left s') < unat (is_bytes_left s)"
proof -
  from assms(2) obtain b t where t: "pb_readbyte s = (Some b, t)" "k b t = (Some x, s')"
    by (auto simp: attempt_eq_Some)
  have "viewed t" using within_viewed [OF assms(1) within_reads [OF reader_readbyte [of s]]] t(1) by simp
  moreover have "reads t s'" using assms(3) [of t b] t(2) by simp
  ultimately show ?thesis using reads_bytes_left pb_readbyte_progress [OF t(1)] by fastforce
qed

lemma read_progress:
  assumes "viewed s" "pb_read s n = (Some bs, s')" "n \<noteq> 0"
  shows "unat (is_bytes_left s') < unat (is_bytes_left s) \<and> length bs = unat n"
proof -
  from assms(1) obtain src where src: "is_source s = In_buf src" "unat (is_bytes_left s) \<le> length src"
    by (auto simp: viewed_def)
  have "n \<le> is_bytes_left s" using assms(2,3) by (auto simp: pb_read_def PB_RETURN_ERROR_def split: if_splits)
  moreover have "0 < unat n" using assms(3) by (simp add: unat_gt_0)
  moreover have "s' = s\<lparr>is_source := In_buf (drop (unat n) src), is_oob := is_oob s \<or> length src < unat n,
      is_bytes_left := is_bytes_left s - n\<rparr>" "bs = take (unat n) src"
    using assms(2,3) src by (auto simp: pb_read_def PB_RETURN_ERROR_def is_call_def buf_read_def split: if_splits)
  ultimately show ?thesis using src(2) by (simp add: word_le_nat_alt unat_sub_le)
qed

lemma varint_progress:
  assumes "viewed s" "pb_decode_varint s = (Some v, s')"
  shows "unat (is_bytes_left s') < unat (is_bytes_left s)"
proof (rule readbyte_then_progress [OF assms(1)])
  show "attempt (pb_readbyte s) (\<lambda>byte s.
      let result = 0 OR push_bit (unat (0 :: u8)) (ucast (byte AND 0x7F)); bitpos = 0 + 7
      in if byte AND 0x80 \<noteq> 0 then varint64_loop s result bitpos else (Some result, s)) = (Some v, s')"
    using assms(2) by (simp add: pb_decode_varint_def) (subst (asm) varint64_loop.simps, simp)
qed (auto simp: Let_def intro: reader_varint64_loop)

lemma varint32_eof_progress:
  assumes "viewed s" "pb_decode_varint32_eof s = (Some v, e, s')"
  shows "unat (is_bytes_left s') < unat (is_bytes_left s)"
proof -
  from assms(2) obtain b t where t: "pb_readbyte s = (Some b, t)"
    by (auto simp: pb_decode_varint32_eof_def split: prod.splits option.splits)
  have v: "viewed t" using within_viewed [OF assms(1) within_reads [OF reader_readbyte [of s]]] t by simp
  have "reads t s'"
    using assms(2) t reader_varint32_loop [of t "ucast (b AND 0x7F)" 7]
    by (auto simp: pb_decode_varint32_eof_def split: if_splits prod.splits option.splits)
  then show ?thesis using reads_bytes_left [OF v] pb_readbyte_progress [OF t] by fastforce
qed

lemma varint32_progress:
  assumes "viewed s" "pb_decode_varint32 s = (Some v, s')"
  shows "unat (is_bytes_left s') < unat (is_bytes_left s)"
proof -
  from assms(2) obtain e where "pb_decode_varint32_eof s = (Some v, e, s')"
    by (cases "pb_decode_varint32_eof s") (auto simp: pb_decode_varint32_def)
  from varint32_eof_progress [OF assms(1) this] show ?thesis .
qed

lemma svarint_progress:
  assumes "viewed s" "pb_decode_svarint s = (Some v, s')"
  shows "unat (is_bytes_left s') < unat (is_bytes_left s)"
  using assms varint_progress by (auto simp: pb_decode_svarint_def attempt_eq_Some)

lemma fixed_progress:
  assumes "viewed s"
  shows "pb_decode_fixed32 s = (Some v, s') \<Longrightarrow> unat (is_bytes_left s') < unat (is_bytes_left s)"
    and "pb_decode_fixed64 s = (Some w, s') \<Longrightarrow> unat (is_bytes_left s') < unat (is_bytes_left s)"
  using read_progress [OF assms] by (auto simp: pb_decode_fixed32_def pb_decode_fixed64_def attempt_eq_Some)

lemma reader_varint: "reads s (snd (pb_decode_varint s))"
  by (simp add: pb_decode_varint_def reader_varint64_loop)

lemma reader_numbers:
  "reads s (snd (pb_decode_svarint s))" "reads s (snd (pb_decode_fixed32 s))" "reads s (snd (pb_decode_fixed64 s))"
  by (auto simp: pb_decode_svarint_def pb_decode_fixed32_def pb_decode_fixed64_def
      intro!: reads_attempt reader_varint reader_read)

lemma reader_tag: "pb_decode_tag s = (r, e, s') \<Longrightarrow> reads s s'"
  using reader_varint32_eof [of s] by (auto simp: pb_decode_tag_def split: prod.splits option.splits if_splits)

lemma tag_progress:
  assumes "viewed s" "pb_decode_tag s = (Some (wt, tag), e, s')"
  shows "unat (is_bytes_left s') < unat (is_bytes_left s) \<and> tag < 2 ^ 29"
proof -
  from assms(2) obtain temp e' where "pb_decode_varint32_eof s = (Some temp, e', s')" "tag = drop_bit 3 temp"
    by (auto simp: pb_decode_tag_def split: prod.splits option.splits if_splits)
  moreover have "unat (drop_bit 3 temp) < 2 ^ 29" for temp :: u32
    using unat_less_2p [of temp] by (simp add: unat_drop_bit_div less_mult_imp_div_less)
  ultimately show ?thesis using varint32_eof_progress [OF assms(1)] by (auto simp: word_less_nat_alt)
qed

subsection \<open>Substreams\<close>

lemma substream_within:
  assumes "viewed s" "pb_make_string_substream s = (Some sub, s1)"
  shows "within s sub" "unat (is_bytes_left sub) < unat (is_bytes_left s)" "viewed sub"
    and "within sub sub' \<Longrightarrow> within s (abandon s1 sub')"
    and "within sub sub' \<Longrightarrow> \<exists>s2. pb_close_string_substream s1 sub' = (Some (), s2) \<and> within s s2
        \<and> unat (is_bytes_left s2) < unat (is_bytes_left s)"
proof -
  from assms(2) obtain len t where len: "pb_decode_varint32 s = (Some len, t)"
    "\<not> is_bytes_left t < ucast len" and sub: "sub = t\<lparr>is_bytes_left := ucast len\<rparr>"
    "s1 = t\<lparr>is_bytes_left := is_bytes_left t - ucast len\<rparr>"
    by (auto simp: pb_make_string_substream_def attempt_eq_Some PB_RETURN_ERROR_def split: if_splits)
  define L where "L = (ucast len :: u64)"
  note sub = sub [folded L_def] and le = len(2) [folded L_def, unfolded not_less word_le_nat_alt]
  have r: "reads s t" using reader_varint32 [of s] len(1) by simp
  have t: "within s t" "viewed t" "unat (is_bytes_left t) < unat (is_bytes_left s)"
    using within_reads [OF r] within_viewed [OF assms(1)] varint32_progress [OF assms(1) len(1)] by blast+
  from t(2) obtain src where src: "is_source t = In_buf src" "unat (is_bytes_left t) \<le> length src" "\<not> is_oob t"
    by (auto simp: viewed_def)
  have tl: "within t sub" using le by (auto simp: within_def sub(1) intro: exI [of _ 0])
  show "within s sub" by (rule within_trans [OF t(1) tl])
  show "unat (is_bytes_left sub) < unat (is_bytes_left s)" using le t(3) by (simp add: sub(1))
  show "viewed sub" using src le by (auto simp: viewed_def sub(1))
  have s1: "unat (is_bytes_left s1) = unat (is_bytes_left t) - unat L"
    using le by (simp add: sub(2) unat_sub word_le_nat_alt)
  { assume "within sub sub'"
    then obtain k where k: "k + unat (is_bytes_left sub') \<le> unat L" "is_source sub' = In_buf (drop k src)" "\<not> is_oob sub'"
      using src le by (auto simp: within_def sub(1))
    have "within t (abandon s1 sub')"
      using src k s1 le by (auto simp: within_def abandon_def is_user_def sub(2) intro: exI [of _ 0])
    then show "within s (abandon s1 sub')" by (rule within_trans [OF t(1)])
    let ?n = "is_bytes_left sub'"
    have vs: "is_view sub' = Some (take (unat ?n) (drop k src))"
      using k src(2) le by (auto simp: is_view_Some)
    have "(if ?n \<noteq> 0 then pb_read_null sub' ?n else (Some (), sub')) = (Some (), is_advance (unat ?n) sub')"
    proof (cases "?n = 0")
      case False
      have "pb_read_null sub' ?n = (Some (), is_advance (length (take (unat ?n) (drop k src))) sub')"
        using vs k src(2) le by (intro pb_read_null_view [of _ _ "[]"]) simp_all
      moreover have "length (take (unat ?n) (drop k src)) = unat ?n" using k src(2) le by simp
      ultimately show ?thesis using False by simp
    qed simp
    moreover have "is_source (is_advance (unat ?n) sub') = In_buf (drop (k + unat ?n) src)"
      using k(2) by (simp add: is_advance_def add.commute)
    ultimately obtain s2 where s2: "pb_close_string_substream s1 sub' = (Some (), s2)"
      "is_source s2 = In_buf (drop (k + unat ?n) src)" "is_bytes_left s2 = is_bytes_left s1" "\<not> is_oob s2"
      using k(3) src(3) by (simp add: pb_close_string_substream_def sub(2))
    have "k + unat ?n + unat (is_bytes_left s2) \<le> unat (is_bytes_left t)" using k(1) le s1 s2(3) by simp
    then have "within t s2" using src s2 by (auto simp: within_def)
    then have "within s s2" by (rule within_trans [OF t(1)])
    then show "\<exists>s2. pb_close_string_substream s1 sub' = (Some (), s2) \<and> within s s2
        \<and> unat (is_bytes_left s2) < unat (is_bytes_left s)"
      using s2(1,3) s1 t(3) by auto }
qed

lemma substream_fails: "pb_make_string_substream s = (None, s1) \<Longrightarrow> within s s1"
  using reader_varint32 [of s]
  by (auto simp: pb_make_string_substream_def attempt_eq_None PB_RETURN_ERROR_def split: if_splits
      intro: within_reads)

subsection \<open>Safe runs\<close>

definition safe :: "u64 set \<Rightarrow> 's pb_istream \<Rightarrow> 'h pb_store \<Rightarrow> ('a \<Rightarrow> 's pb_istream \<Rightarrow> bool) \<Rightarrow> ('a, 'h, 's) run \<Rightarrow> bool" where
  "safe R s st Q r \<longleftrightarrow>
     (\<exists>x s' st'. r = Some (x, (s', st')) \<and> within s s' \<and> unchanged_outside R (pb_mem st) (pb_mem st')
        \<and> pb_heap st' = pb_heap st \<and> (\<forall>y. x = Some y \<longrightarrow> Q y s'))"

lemma safe_mono:
  "safe R s st Q r \<Longrightarrow> R \<subseteq> S \<Longrightarrow> (\<And>y t. Q y t \<Longrightarrow> Q' y t) \<Longrightarrow> safe S s st Q' r"
  unfolding safe_def by (blast intro: unchanged_mono)

lemma safe_reading:
  "reads s (snd r) \<Longrightarrow> (\<And>y t. r = (Some y, t) \<Longrightarrow> Q y t) \<Longrightarrow> safe R s st Q (reading r st)"
  by (cases r) (auto simp: safe_def reading_def intro: within_reads)

lemma safe_fail:
  "within s s' \<Longrightarrow> unchanged_outside R (pb_mem st) (pb_mem st') \<Longrightarrow> pb_heap st' = pb_heap st
     \<Longrightarrow> safe R s st Q (fail_with s' st' msg)"
  by (simp add: safe_def fail_with_def)

lemma safe_return:
  "within s s' \<Longrightarrow> unchanged_outside R (pb_mem st) (pb_mem st') \<Longrightarrow> pb_heap st' = pb_heap st \<Longrightarrow> Q y s'
     \<Longrightarrow> safe R s st Q (Some (Some y, (s', st')))"
  by (simp add: safe_def)

lemma safe_step:
  assumes "within s s'" "unchanged_outside R (pb_mem st) (pb_mem st')" "pb_heap st' = pb_heap st"
    and "safe R s' st' Q r"
  shows "safe R s st Q r"
  using assms unfolding safe_def by (fastforce intro: within_trans unchanged_trans)

lemma safe_attempt:
  assumes "safe R s st Q r"
    and "\<And>y s' st'. r = Some (Some y, (s', st')) \<Longrightarrow> within s s' \<Longrightarrow> Q y s' \<Longrightarrow> safe R s' st' Q' (k y (s', st'))"
  shows "safe R s st Q' (run_attempt r k)"
proof -
  from assms(1) obtain x s' st' where r: "r = Some (x, (s', st'))" "within s s'"
    "unchanged_outside R (pb_mem st) (pb_mem st')" "pb_heap st' = pb_heap st" "\<And>y. x = Some y \<Longrightarrow> Q y s'"
    by (auto simp: safe_def)
  show ?thesis
  proof (cases x)
    case None
    with r show ?thesis by (auto simp: safe_def)
  next
    case (Some y)
    with r assms(2) [of y s' st'] show ?thesis by (auto intro: safe_step)
  qed
qed

end
