(* ===== verification/Pb_Static.thy ===== *)
theory Pb_Static
  imports Pb_Safe
begin

text \<open>
  Messages whose structures hold all their data (static allocation, the default of the generator), and
  the safety of decoding them from any bytes.
\<close>

subsection \<open>Static messages\<close>

definition item_ok :: "(pb_field list \<Rightarrow> nat \<Rightarrow> bool) \<Rightarrow> ('h, 's) pb_env \<Rightarrow> pb_field \<Rightarrow> bool" where
  "item_ok sub env f \<longleftrightarrow>
     (let l = PB_LTYPE (pf_type f); n = unat (pf_data_size f) in
      l = PB_LTYPE_BOOL \<and> n = 1
      \<or> l \<in> {PB_LTYPE_VARINT, PB_LTYPE_UVARINT, PB_LTYPE_SVARINT} \<and> n \<in> {1, 2, 4, 8}
      \<or> l = PB_LTYPE_FIXED32 \<and> n = 4
      \<or> l = PB_LTYPE_FIXED64 \<and> n = 8
      \<or> l = PB_LTYPE_BYTES \<and> 4 \<le> n
      \<or> l = PB_LTYPE_STRING
      \<or> l = PB_LTYPE_FIXED_LENGTH_BYTES
      \<or> l = PB_LTYPE_SUBMESSAGE \<and> pf_ptr f \<noteq> Null_ptr \<and> sub (submsg_fields env f) n)"

definition field_items :: "pb_field \<Rightarrow> nat" where
  "field_items f = (if PB_HTYPE (pf_type f) = PB_HTYPE_REPEATED then unat (pf_array_size f) else 1)"

definition field_inside :: "pb_field list \<Rightarrow> nat \<Rightarrow> nat \<Rightarrow> bool" where
  "field_inside fs sz i \<longleftrightarrow>
     (let f = fs ! i; h = PB_HTYPE (pf_type f) in
      unat (data_off fs i) + unat (pf_data_size f) * field_items f \<le> sz
      \<and> (h = PB_HTYPE_OPTIONAL \<and> size_off fs i \<noteq> data_off fs i \<longrightarrow> unat (size_off fs i) + 1 \<le> sz)
      \<and> (h = PB_HTYPE_REPEATED \<or> h = PB_HTYPE_ONEOF \<longrightarrow> unat (size_off fs i) + 4 \<le> sz))"

text \<open>
  The number is the depth of nested submessages allowed.  The structure of an empty message has the
  generator's \<^verbatim>\<open>dummy_field\<close>.
\<close>

primrec static_message :: "nat \<Rightarrow> ('h, 's) pb_env \<Rightarrow> pb_field list \<Rightarrow> nat \<Rightarrow> bool" where
  "static_message 0 env fs sz \<longleftrightarrow> False"
| "static_message (Suc n) env fs sz \<longleftrightarrow>
     sz < 2 ^ 32 \<and> (fs = [] \<longrightarrow> 0 < sz) \<and>
     (\<forall>i < length fs.
        pf_tag (fs ! i) \<noteq> 0 \<and> PB_ATYPE (pf_type (fs ! i)) = PB_ATYPE_STATIC
        \<and> item_ok (static_message n env) env (fs ! i) \<and> field_inside fs sz i)"

text \<open>An object in memory.\<close>

definition object_at :: "u64 \<Rightarrow> nat \<Rightarrow> bool" where
  "object_at dest sz \<longleftrightarrow> dest \<noteq> 0 \<and> unat dest + sz < 2 ^ 64"

lemma static_tagged: "static_message n env fs sz \<Longrightarrow> tagged_fields fs"
  by (cases n) (auto simp: tagged_fields_def in_set_conv_nth)

lemma item_ok_mono: "(\<And>gs k. sub gs k \<Longrightarrow> sub' gs k) \<Longrightarrow> item_ok sub env f \<Longrightarrow> item_ok sub' env f"
  unfolding item_ok_def Let_def by blast

lemma static_message_Suc: "static_message n env fs sz \<Longrightarrow> static_message (Suc n) env fs sz"
proof (induction n arbitrary: fs sz)
  case 0
  then show ?case by simp
next
  case (Suc n)
  then show ?case
    using item_ok_mono [of "static_message n env" "static_message (Suc n) env" env]
    by (subst static_message.simps(2)) (simp del: static_message.simps(2), simp)
qed

lemma static_message_mono: "static_message m env fs sz \<Longrightarrow> m \<le> n \<Longrightarrow> static_message n env fs sz"
  by (induction n) (auto simp: le_Suc_eq simp del: static_message.simps(2) dest: static_message_Suc)

lemma unat_add_no_wrap: "unat a + unat b < 2 ^ 64 \<Longrightarrow> unat (a + b :: u64) = unat a + unat b"
  using unat_add_lem [of a b] by simp

lemma object_at_inside:
  assumes "object_at dest sz" "unat off + n \<le> sz"
  shows "object_at (dest + off) n" "region (dest + off) n \<subseteq> region dest sz"
proof -
  have u: "unat (dest + off) = unat dest + unat off"
    using assms by (intro unat_add_no_wrap) (simp add: object_at_def)
  have "0 < unat dest" using assms(1) by (simp add: object_at_def unat_gt_0)
  then have "unat (dest + off) \<noteq> 0" using u by linarith
  then have "dest + off \<noteq> 0" by (rule contrapos_nn) (simp only: unat_0)
  then show "object_at (dest + off) n" using assms u by (simp add: object_at_def)
  show "region (dest + off) n \<subseteq> region dest sz"
    using region_inside [of "unat off" n sz dest] assms(2) by simp
qed

lemma unchanged_inside:
  "object_at dest sz \<Longrightarrow> unat off + n \<le> sz \<Longrightarrow> unchanged_outside (region (dest + off) n) m m'
     \<Longrightarrow> unchanged_outside (region dest sz) m m'"
  by (erule unchanged_mono) (rule object_at_inside(2))

text \<open>The items of an array do not overlap, and their addresses do not wrap around.\<close>

lemma item_inside:
  assumes "unat off + unat (pf_data_size f) * m \<le> sz" "sz < 2 ^ 32" "unat k < m"
  shows "\<exists>off'. item_address (dest + off) f k = dest + off' \<and> unat off' + unat (pf_data_size f) \<le> sz
     \<and> unat off' = unat off + unat (pf_data_size f) * unat k"
proof -
  let ?d = "unat (pf_data_size f)"
  have le: "?d * unat k + ?d \<le> ?d * m" using assms(3) mult_le_mono2 [of "Suc (unat k)" m ?d] by simp
  then have "?d * unat k < 2 ^ 32" using assms(1,2) by linarith
  then have u: "unat (pf_data_size f * k) = ?d * unat k" by (simp add: unat_word_ariths)
  have "unat off + ?d * unat k < 2 ^ 64" using le assms(1,2) by simp
  then have "unat (off + ucast (pf_data_size f * k)) = unat off + ?d * unat k"
    using u unat_add_no_wrap [of off "ucast (pf_data_size f * k)"] by simp
  then show ?thesis
    using le assms(1) by (intro exI [of _ "off + ucast (pf_data_size f * k)"]) (simp add: item_address_def add.assoc)
qed

lemma static_submessage:
  assumes "static_message (Suc n) env fs sz" "i < length fs" "PB_LTYPE (pf_type (fs ! i)) = PB_LTYPE_SUBMESSAGE"
  shows "static_message n env (submsg_fields env (fs ! i)) (unat (pf_data_size (fs ! i)))"
  using assms by (auto simp: item_ok_def Let_def pb_ltypes)

text \<open>The places of a static message that a field may write.\<close>

definition places :: "pb_field list \<Rightarrow> nat \<Rightarrow> nat \<Rightarrow> bool" where
  "places fs sz k \<longleftrightarrow>
     (PB_HTYPE (pf_type (fs ! k)) \<noteq> PB_HTYPE_REPEATED
        \<longrightarrow> unat (data_off fs k) + unat (pf_data_size (fs ! k)) \<le> sz)
     \<and> (PB_HTYPE (pf_type (fs ! k)) = PB_HTYPE_REPEATED
        \<longrightarrow> unat (data_off fs k) + unat (pf_data_size (fs ! k)) * unat (pf_array_size (fs ! k)) \<le> sz)"

lemma static_field:
  assumes "static_message (Suc n) env fs sz" "k < length fs"
  shows "PB_ATYPE (pf_type (fs ! k)) = PB_ATYPE_STATIC" "item_ok (static_message n env) env (fs ! k)"
    "places fs sz k" "sz < 2 ^ 32"
  using assms by (auto simp: places_def field_inside_def field_items_def Let_def)

lemma packed_places:
  assumes s: "static_message (Suc n) env fs sz" and d: "object_at dest sz" and k: "k < length fs"
    and h: "PB_HTYPE (pf_type (fs ! k)) = PB_HTYPE_REPEATED" "i < pf_array_size (fs ! k)"
  shows "object_at (item_address (dest + data_off fs k) (fs ! k) i) (unat (pf_data_size (fs ! k)))"
    "region (item_address (dest + data_off fs k) (fs ! k) i) (unat (pf_data_size (fs ! k))) \<subseteq> region dest sz"
proof -
  have p: "unat (data_off fs k) + unat (pf_data_size (fs ! k)) * unat (pf_array_size (fs ! k)) \<le> sz"
    using static_field(3) [OF s k] h(1) by (simp add: places_def)
  from item_inside [OF p static_field(4) [OF s k], of i dest] h(2) obtain off where
    "item_address (dest + data_off fs k) (fs ! k) i = dest + off" "unat off + unat (pf_data_size (fs ! k)) \<le> sz"
    by (auto simp: word_less_nat_alt)
  with object_at_inside [OF d, of off "unat (pf_data_size (fs ! k))"]
  show "object_at (item_address (dest + data_off fs k) (fs ! k) i) (unat (pf_data_size (fs ! k)))"
    "region (item_address (dest + data_off fs k) (fs ! k) i) (unat (pf_data_size (fs ! k))) \<subseteq> region dest sz"
    by simp_all
qed

lemma single_place:
  assumes s: "static_message (Suc n) env fs sz" and d: "object_at dest sz" and k: "k < length fs"
    and h: "PB_HTYPE (pf_type (fs ! k)) \<noteq> PB_HTYPE_REPEATED"
  shows "object_at (dest + data_off fs k) (unat (pf_data_size (fs ! k)))"
    "region (dest + data_off fs k) (unat (pf_data_size (fs ! k))) \<subseteq> region dest sz"
  using object_at_inside [OF d, of "data_off fs k"] static_field(3) [OF s k] h by (simp_all add: places_def)

lemma item_address_eq:
  assumes "unat (pf_data_size f) * unat k < 2 ^ 32"
  shows "item_address p f k = p + of_nat (unat k) * ucast (pf_data_size f)"
proof -
  have "unat (pf_data_size f * k) = unat (pf_data_size f) * unat k" using assms by (simp add: unat_word_ariths)
  moreover have "unat (of_nat (unat k) * ucast (pf_data_size f) :: u64) = unat (pf_data_size f) * unat k"
    using assms by (simp add: unat_word_ariths mult.commute)
  ultimately have "ucast (pf_data_size f * k) = (of_nat (unat k) * ucast (pf_data_size f) :: u64)"
    by (intro word_eq_by_unat) (simp del: of_nat_unat)
  then show ?thesis by (simp add: item_address_def)
qed

lemma array_item:
  assumes s: "static_message (Suc n) env fs sz" and d: "object_at dest sz" and k: "k < length fs"
    and h: "PB_HTYPE (pf_type (fs ! k)) = PB_HTYPE_REPEATED" "i < unat (pf_array_size (fs ! k))"
  shows "item_address (dest + data_off fs k) (fs ! k) (of_nat i) = dest + data_off fs k + of_nat i * ucast (pf_data_size (fs ! k))"
    and "object_at (dest + data_off fs k + of_nat i * ucast (pf_data_size (fs ! k))) (unat (pf_data_size (fs ! k)))"
proof -
  let ?d = "unat (pf_data_size (fs ! k))"
  have i: "unat (of_nat i :: u32) = i"
    using h(2) unat_less_2p [of "pf_array_size (fs ! k)"] by (intro unat_of_nat_id) simp
  have "?d * i \<le> ?d * unat (pf_array_size (fs ! k))" using h(2) by simp
  also have "\<dots> < 2 ^ 32" using static_field(3,4) [OF s k] h(1) by (simp add: places_def)
  finally show a: "item_address (dest + data_off fs k) (fs ! k) (of_nat i)
      = dest + data_off fs k + of_nat i * ucast (pf_data_size (fs ! k))"
    using item_address_eq [of "fs ! k" "of_nat i" "dest + data_off fs k"] by (simp only: i)
  show "object_at (dest + data_off fs k + of_nat i * ucast (pf_data_size (fs ! k))) ?d"
    unfolding a [symmetric] by (rule packed_places(1) [OF s d k h(1)]) (use h(2) i in \<open>simp add: word_less_nat_alt\<close>)
qed

subsection \<open>Regular layouts\<close>

text \<open>
  The bytes of the structure that a field uses, for its items and for its count, flag or \<open>which_\<close>
  member, as offsets.  In a regular layout, the only one the generator writes, different fields use different
  bytes, except the members of a union, which share their \<open>which_\<close> member, and an array of fixed count
  has no count of its own.
\<close>

definition data_span :: "pb_field list \<Rightarrow> nat \<Rightarrow> nat set" where
  "data_span fs i = {unat (data_off fs i) ..< unat (data_off fs i) + unat (pf_data_size (fs ! i)) * field_items (fs ! i)}"

definition count_span :: "pb_field list \<Rightarrow> nat \<Rightarrow> nat set" where
  "count_span fs i =
     (let h = PB_HTYPE (pf_type (fs ! i)); a = unat (size_off fs i) in
      if h = PB_HTYPE_REPEATED \<or> h = PB_HTYPE_ONEOF then {a ..< a + 4}
      else if h = PB_HTYPE_OPTIONAL \<and> pf_size_offset (fs ! i) \<noteq> 0 then {a ..< a + 1}
      else {})"

definition alternatives :: "pb_field list \<Rightarrow> nat \<Rightarrow> nat \<Rightarrow> bool" where
  "alternatives fs i j \<longleftrightarrow> PB_HTYPE (pf_type (fs ! i)) = PB_HTYPE_ONEOF \<and> PB_HTYPE (pf_type (fs ! j)) = PB_HTYPE_ONEOF
     \<and> size_off fs i = size_off fs j"

definition regular_field :: "pb_field list \<Rightarrow> nat \<Rightarrow> bool" where
  "regular_field fs i \<longleftrightarrow>
     (let f = fs ! i in
      pf_tag f < 2 ^ 29
      \<and> size_off fs i = data_off fs i + scast (pf_size_offset f)
      \<and> (PB_HTYPE (pf_type f) = PB_HTYPE_ONEOF \<longrightarrow> pf_size_offset f \<noteq> 0)
      \<and> (PB_HTYPE (pf_type f) \<noteq> PB_HTYPE_REPEATED \<and> pf_size_offset f = 0 \<longrightarrow> (\<forall>bs. pf_ptr f \<noteq> Default_ptr bs))
      \<and> (PB_LTYPE (pf_type f) = PB_LTYPE_STRING \<longrightarrow> pf_data_size f \<noteq> 0)
      \<and> (pf_size_offset f \<noteq> 0 \<longrightarrow> data_span fs i \<inter> count_span fs i = {})
      \<and> (\<forall>j < length fs. j \<noteq> i \<and> \<not> alternatives fs i j \<longrightarrow>
            (data_span fs i \<union> count_span fs i) \<inter> (data_span fs j \<union> count_span fs j) = {}))"

primrec regular :: "nat \<Rightarrow> ('h, 's) pb_env \<Rightarrow> pb_field list \<Rightarrow> bool" where
  "regular 0 env fs \<longleftrightarrow> False"
| "regular (Suc n) env fs \<longleftrightarrow>
     distinct (map pf_tag fs) \<and> (\<forall>i < length fs. regular_field fs i)
     \<and> (\<forall>f \<in> set fs. PB_LTYPE (pf_type f) = PB_LTYPE_SUBMESSAGE \<longrightarrow> regular n env (submsg_fields env f))"

lemma regularD:
  assumes "regular (Suc n) env fs" "i < length fs"
  shows "pf_tag (fs ! i) < 2 ^ 29" "size_off fs i = data_off fs i + scast (pf_size_offset (fs ! i))"
    "PB_HTYPE (pf_type (fs ! i)) = PB_HTYPE_ONEOF \<Longrightarrow> pf_size_offset (fs ! i) \<noteq> 0"
    "PB_HTYPE (pf_type (fs ! i)) \<noteq> PB_HTYPE_REPEATED \<Longrightarrow> pf_size_offset (fs ! i) = 0 \<Longrightarrow> pf_ptr (fs ! i) \<noteq> Default_ptr bs"
    "pf_size_offset (fs ! i) \<noteq> 0 \<Longrightarrow> data_span fs i \<inter> count_span fs i = {}"
    "j < length fs \<Longrightarrow> j \<noteq> i \<Longrightarrow> \<not> alternatives fs i j \<Longrightarrow>
       (data_span fs i \<union> count_span fs i) \<inter> (data_span fs j \<union> count_span fs j) = {}"
    "PB_LTYPE (pf_type (fs ! i)) = PB_LTYPE_SUBMESSAGE \<Longrightarrow> regular n env (submsg_fields env (fs ! i))"
    "PB_LTYPE (pf_type (fs ! i)) = PB_LTYPE_STRING \<Longrightarrow> pf_data_size (fs ! i) \<noteq> 0"
  using assms by (simp_all add: regular_field_def Let_def)

lemma size_address_regular:
  assumes "regular (Suc n) env fs" "i < length fs"
  shows "size_address (p + data_off fs i) (fs ! i) = p + size_off fs i"
  using regularD(2) [OF assms] by (simp add: size_address_def add.assoc)

subsection \<open>Default values\<close>

lemma set_to_default_safe:
  fixes st :: "'h pb_store"
  assumes "static_message n env fs sz" "object_at dest sz"
  shows "\<exists>st'. for_fields (pb_field_set_to_default n env) fs dest st = Some st'
    \<and> unchanged_outside (region dest sz) (pb_mem st) (pb_mem st') \<and> pb_heap st' = pb_heap st"
  using assms
proof (induction n arbitrary: fs sz dest st)
  case 0
  then show ?case by simp
next
  case (Suc n)
  define P where "P st' \<longleftrightarrow> unchanged_outside (region dest sz) (pb_mem st) (pb_mem st') \<and> pb_heap st' = pb_heap st"
    for st' :: "'h pb_store"
  have dest0: "dest \<noteq> 0" using Suc.prems(2) by (simp add: object_at_def)
  have field: "\<exists>st2. pb_field_set_to_default (Suc n) env (iter_at fs dest i) st1 = Some st2 \<and> P st2"
    if i: "i < length fs" and P1: "P st1" for i st1
  proof -
    let ?f = "fs ! i" and ?p = "dest + data_off fs i"
    have ok: "PB_ATYPE (pf_type ?f) = PB_ATYPE_STATIC" "item_ok (static_message n env) env ?f" "field_inside fs sz i"
      using Suc.prems(1) i by simp_all
    have l: "PB_LTYPE (pf_type ?f) \<noteq> PB_LTYPE_EXTENSION"
      using ok(2) by (auto simp: item_ok_def Let_def pb_ltypes)
    have ins: "unat (data_off fs i) + unat (pf_data_size ?f) \<le> sz" if "PB_HTYPE (pf_type ?f) \<noteq> PB_HTYPE_REPEATED"
      using ok(3) that by (simp add: field_inside_def Let_def field_items_def)
    note cnt = ok(3) [unfolded field_inside_def Let_def]
    have Pcount: "P (write_count st1 (Mem_size (dest + size_off fs i)) 0)"
      if "PB_HTYPE (pf_type ?f) = PB_HTYPE_REPEATED \<or> PB_HTYPE (pf_type ?f) = PB_HTYPE_ONEOF"
      using unchanged_inside [OF Suc.prems(2) _ unchanged_stores(2)] that cnt P1
      by (auto simp: P_def write_count_def intro: unchanged_trans)
    have Pflag: "P (write_flag st1 (Mem_size (dest + size_off fs i)) False)"
      if "PB_HTYPE (pf_type ?f) = PB_HTYPE_OPTIONAL" "size_off fs i \<noteq> data_off fs i"
      using unchanged_inside [OF Suc.prems(2) _ unchanged_stores(3)] that cnt P1
      by (auto simp: P_def write_flag_def intro: unchanged_trans)
    have Pdata: "P (st2\<lparr>pb_mem := store_bytes (pb_mem st2) ?p (take (unat (pf_data_size ?f)) bs)\<rparr>)"
      "P (st2\<lparr>pb_mem := zero_bytes (pb_mem st2) ?p (unat (pf_data_size ?f))\<rparr>)"
      if "P st2" "PB_HTYPE (pf_type ?f) \<noteq> PB_HTYPE_REPEATED" for st2 bs
    proof -
      have "unchanged_outside (region ?p (unat (pf_data_size ?f))) (pb_mem st2)
          (store_bytes (pb_mem st2) ?p (take (unat (pf_data_size ?f)) bs))"
        by (rule unchanged_mono [OF unchanged_store_bytes region_mono]) simp
      from unchanged_inside [OF Suc.prems(2) ins [OF that(2)] this]
        unchanged_inside [OF Suc.prems(2) ins [OF that(2)] unchanged_stores(4)] that(1)
      show "P (st2\<lparr>pb_mem := store_bytes (pb_mem st2) ?p (take (unat (pf_data_size ?f)) bs)\<rparr>)"
        "P (st2\<lparr>pb_mem := zero_bytes (pb_mem st2) ?p (unat (pf_data_size ?f))\<rparr>)"
        by (auto simp: P_def intro: unchanged_trans)
    qed
    have Psub: "\<exists>st3. for_fields (pb_field_set_to_default n env) (submsg_fields env ?f) ?p st2 = Some st3 \<and> P st3"
      if "P st2" "PB_HTYPE (pf_type ?f) \<noteq> PB_HTYPE_REPEATED" "PB_LTYPE (pf_type ?f) = PB_LTYPE_SUBMESSAGE" for st2
    proof -
      have "static_message n env (submsg_fields env ?f) (unat (pf_data_size ?f))"
        using ok(2) that(3) by (auto simp: item_ok_def Let_def pb_ltypes)
      from Suc.IH [OF this object_at_inside(1) [OF Suc.prems(2) ins [OF that(2)]]]
      obtain st3 where "for_fields (pb_field_set_to_default n env) (submsg_fields env ?f) ?p st2 = Some st3"
        "unchanged_outside (region ?p (unat (pf_data_size ?f))) (pb_mem st2) (pb_mem st3)" "pb_heap st3 = pb_heap st2"
        by blast
      with unchanged_inside [OF Suc.prems(2) ins [OF that(2)]] that(1) show ?thesis
        by (auto simp: P_def intro: unchanged_trans)
    qed
    show ?thesis
      using ok(1) l i Pcount Pflag Pdata Psub P1
      by (auto simp: Let_def pb_htypes split: pb_ptr.split)
  qed
  have "P st" by (simp add: P_def)
  from fold_option_inv [of P st "[0..<length fs]" "\<lambda>i. pb_field_set_to_default (Suc n) env (iter_at fs dest i)", OF this]
  show ?case
    using field by (simp only: for_fields_eq [OF static_tagged [OF Suc.prems(1)] dest0]) (auto simp: P_def)
qed

text \<open>Releasing a static message does nothing: it owns no memory.\<close>

lemma release_items_id:
  "(\<And>p. release p st = Some st) \<Longrightarrow> release_items release d count p st = Some st"
  by (induction count arbitrary: p) auto

lemma fold_option_id: "(\<And>x. x \<in> set xs \<Longrightarrow> f x c = Some c) \<Longrightarrow> fold_option f xs c = Some c"
  by (induction xs) auto

lemma release_static_field:
  assumes "static_message n env fs sz" "i < length fs" "it_field iter = fs ! i"
  shows "pb_release_single_field n env iter st = Some st"
  using assms
proof (induction n arbitrary: fs sz iter i)
  case 0
  then show ?case by simp
next
  case (Suc n)
  let ?f = "fs ! i"
  have ok: "PB_ATYPE (pf_type ?f) = PB_ATYPE_STATIC" "item_ok (static_message n env) env ?f"
    using Suc.prems by simp_all
  have l: "PB_LTYPE (pf_type ?f) \<noteq> PB_LTYPE_EXTENSION"
    using ok(2) by (auto simp: item_ok_def Let_def pb_ltypes)
  have rel: "release_items (\<lambda>p st. if p = 0 then Some st
      else for_fields (pb_release_single_field n env) (submsg_fields env ?f) p st) d count p st = Some st"
    if "PB_LTYPE (pf_type ?f) = PB_LTYPE_SUBMESSAGE" for d count p
  proof (rule release_items_id)
    fix p :: u64
    have s: "static_message n env (submsg_fields env ?f) (unat (pf_data_size ?f))"
      using ok(2) that by (auto simp: item_ok_def Let_def pb_ltypes)
    show "(if p = 0 then Some st else for_fields (pb_release_single_field n env) (submsg_fields env ?f) p st) = Some st"
    proof (cases "p = 0")
      case False
      have "for_fields (pb_release_single_field n env) (submsg_fields env ?f) p st
          = fold_option (\<lambda>i. pb_release_single_field n env (iter_at (submsg_fields env ?f) p i))
              [0..<length (submsg_fields env ?f)] st"
        by (rule for_fields_eq [OF static_tagged [OF s] False])
      also have "\<dots> = Some st" using Suc.IH [OF s] by (intro fold_option_id) simp
      finally show ?thesis using False by simp
    qed simp
  qed
  show ?case using Suc.prems ok(1) l by (auto simp: Let_def rel pb_atypes)
qed

lemma release_static:
  assumes "static_message n env fs sz" "dest \<noteq> 0"
  shows "pb_release n env fs dest st = Some st"
  unfolding pb_release_def for_fields_eq [OF static_tagged [OF assms(1)] assms(2)]
  using release_static_field [OF assms(1)] assms(2) by (auto intro!: fold_option_id)

end
