(* ===== verification/Pb_Image.thy ===== *)
theory Pb_Image
  imports Pb_Encode Pb_Static
begin

text \<open>
  What a static message is on the wire: the records, a field number with a value of a wire type, that
  the encoder writes for the structure.  A specification in terms of the memory, without streams,
  iterators or errors of writing.
\<close>

subsection \<open>Fields without a value\<close>

definition blank :: "(pb_field \<Rightarrow> u64 \<Rightarrow> bool) \<Rightarrow> ('h, 's) pb_env \<Rightarrow> mem \<Rightarrow> pb_field \<Rightarrow> u64 \<Rightarrow> bool" where
  "blank unset env m f p =
     (let l = PB_LTYPE (pf_type f); fs = submsg_fields env f in
      if l = PB_LTYPE_BYTES then load_size m p = 0
      else if l = PB_LTYPE_STRING then m p = 0
      else if l = PB_LTYPE_FIXED_LENGTH_BYTES then pf_data_size f = 0
      else if l = PB_LTYPE_SUBMESSAGE then \<forall>i < length fs. unset (fs ! i) (p + data_off fs i)
      else \<forall>b \<in> set (load_bytes m p (unat (pf_data_size f))). b = 0)"

primrec unset :: "nat \<Rightarrow> ('h, 's) pb_env \<Rightarrow> mem \<Rightarrow> pb_field \<Rightarrow> u64 \<Rightarrow> bool" where
  "unset 0 env m f p \<longleftrightarrow> False"
| "unset (Suc n) env m f p \<longleftrightarrow>
     (let h = PB_HTYPE (pf_type f); pSize = size_address p f in
      if h = PB_HTYPE_REQUIRED then False
      else if h = PB_HTYPE_REPEATED then pf_size_offset f \<noteq> 0 \<and> load_size m pSize = 0
      else if h = PB_HTYPE_ONEOF then load_size m pSize = 0
      else if pf_size_offset f \<noteq> 0 then \<not> safe_read_bool m pSize
      else blank (unset n env m) env m f p)"

subsection \<open>Records\<close>

type_synonym wire_record = "u32 \<times> wire_value"

definition message_bytes :: "wire_record list \<Rightarrow> u8 list" where
  "message_bytes rs = concat (map (\<lambda>(n, w). field_bytes n w) rs)"

text \<open>The values that a length field of 32 bits can announce.\<close>

definition length_ok :: "u8 list \<Rightarrow> u8 list option" where
  "length_ok bs = (if length bs < 2 ^ 32 then Some bs else None)"

definition item_image ::
  "(pb_field list \<Rightarrow> u64 \<Rightarrow> wire_record list list option) \<Rightarrow> ('h, 's) pb_env \<Rightarrow> mem \<Rightarrow> pb_field \<Rightarrow> u64 \<Rightarrow> wire_value option" where
  "item_image sub env m f p =
     (let l = PB_LTYPE (pf_type f); d = pf_data_size f in
      if l = PB_LTYPE_BOOL then Some (W_varint (of_bool (safe_read_bool m p)))
      else if l = PB_LTYPE_VARINT then map_option W_varint (load_signed m p d)
      else if l = PB_LTYPE_UVARINT then map_option W_varint (load_unsigned m p d)
      else if l = PB_LTYPE_SVARINT then map_option (\<lambda>v. W_varint (zigzag v)) (load_signed m p d)
      else if l = PB_LTYPE_FIXED32 then Some (W_32bit (load_word m p 4))
      else if l = PB_LTYPE_FIXED64 then Some (W_64bit (load_word m p 8))
      else if l = PB_LTYPE_BYTES then
        if unat d < unat (load_size m p) + 4 then None
        else Some (W_string (load_bytes m (p + 4) (unat (load_size m p))))
      else if l = PB_LTYPE_STRING then Some (W_string (load_bytes m p (string_length m p 0 (unat d))))
      else if l = PB_LTYPE_SUBMESSAGE
      then map_option W_string (Option.bind (sub (submsg_fields env f) p) (\<lambda>rss. length_ok (message_bytes (concat rss))))
      else if l = PB_LTYPE_FIXED_LENGTH_BYTES then Some (W_string (load_bytes m p (unat d)))
      else None)"

definition item_images ::
  "(pb_field \<Rightarrow> u64 \<Rightarrow> wire_value option) \<Rightarrow> pb_field \<Rightarrow> u64 \<Rightarrow> nat \<Rightarrow> wire_value list option" where
  "item_images item f p count = those (map (\<lambda>k. item f (p + of_nat k * ucast (pf_data_size f))) [0..<count])"

definition field_image ::
  "nat \<Rightarrow> (pb_field list \<Rightarrow> u64 \<Rightarrow> wire_record list list option) \<Rightarrow> ('h, 's) pb_env \<Rightarrow> mem \<Rightarrow> pb_field \<Rightarrow> u64
     \<Rightarrow> wire_record list option" where
  "field_image n sub env m f p =
     (let h = PB_HTYPE (pf_type f); pSize = size_address p f; item = item_image sub env m;
          single = map_option (\<lambda>w. [(pf_tag f, w)]) (item f p);
          count = (if pf_size_offset f \<noteq> 0 then load_size m pSize else pf_array_size f)
      in
      if h = PB_HTYPE_REQUIRED then single
      else if h = PB_HTYPE_OPTIONAL then
        if (if pf_size_offset f \<noteq> 0 then safe_read_bool m pSize else \<not> unset (Suc n) env m f p) then single else Some []
      else if h = PB_HTYPE_REPEATED then
        if count = 0 then Some []
        else if pf_array_size f < count then None
        else if PB_LTYPE (pf_type f) \<le> PB_LTYPE_LAST_PACKABLE
        then map_option (\<lambda>bs. [(pf_tag f, W_string bs)])
               (Option.bind (item_images item f p (unat count)) (\<lambda>ws. length_ok (concat (map wire_bytes ws))))
        else map_option (map (Pair (pf_tag f))) (item_images item f p (unat count))
      else if load_size m pSize = pf_tag f then single else Some [])"

text \<open>The records of each field of a message, in the order of the fields.\<close>

primrec message_image :: "nat \<Rightarrow> ('h, 's) pb_env \<Rightarrow> mem \<Rightarrow> pb_field list \<Rightarrow> u64 \<Rightarrow> wire_record list list option" where
  "message_image 0 env m fs p = None"
| "message_image (Suc n) env m fs p =
     those (map (\<lambda>i. field_image n (message_image n env m) env m (fs ! i) (p + data_off fs i)) [0..<length fs])"

lemma message_bytes_simps [simp]:
  "message_bytes [] = []" "message_bytes (r # rs) = field_bytes (fst r) (snd r) @ message_bytes rs"
  "message_bytes (rs @ rs') = message_bytes rs @ message_bytes rs'"
  by (simp_all add: message_bytes_def split: prod.split)

lemma length_ok_Some [simp]: "length_ok bs = Some bs' \<longleftrightarrow> bs' = bs \<and> length bs < 2 ^ 32"
  by (auto simp: length_ok_def)

lemma those_append: "those (xs @ ys) = Option.bind (those xs) (\<lambda>a. map_option ((@) a) (those ys))"
proof (induction xs)
  case Nil
  then show ?case by (cases "those ys") simp_all
next
  case (Cons x xs)
  then show ?case by (cases x; cases "those xs"; cases "those ys") simp_all
qed

lemma those_SomeD: "those xs = Some ys \<Longrightarrow> length ys = length xs \<and> (\<forall>i < length xs. xs ! i = Some (ys ! i))"
proof (induction xs arbitrary: ys)
  case (Cons x xs)
  then show ?case by (cases x) (auto simp: nth_Cons split: nat.split)
qed simp

lemma those_SomeI: "length ys = length xs \<Longrightarrow> (\<And>i. i < length xs \<Longrightarrow> xs ! i = Some (ys ! i)) \<Longrightarrow> those xs = Some ys"
proof (induction xs arbitrary: ys)
  case (Cons x xs)
  then obtain y ys' where ys: "ys = y # ys'" by (cases ys) auto
  have "x = Some y" using Cons.prems(2) [of 0] ys by simp
  moreover have "those xs = Some ys'"
  proof (rule Cons.IH)
    show "xs ! i = Some (ys' ! i)" if "i < length xs" for i using Cons.prems(2) [of "Suc i"] that ys by simp
  qed (use Cons.prems(1) ys in simp)
  ultimately show ?case by (simp add: ys)
qed simp

lemma string_length_le: "len \<le> max_size \<Longrightarrow> string_length m p len max_size \<le> max_size"
proof (induction m p len max_size rule: string_length.induct)
  case (1 m p len max_size)
  then show ?case by (subst string_length.simps) auto
qed

subsection \<open>The encoder's test for default values\<close>

lemma all_fields_eq:
  assumes fs: "tagged_fields fs" "p \<noteq> 0" and P: "\<And>i. i < length fs \<Longrightarrow> P (fs ! i) (p + data_off fs i) = Some (Q i)"
  shows "all_fields P fs p = Some (\<forall>i < length fs. Q i)"
proof (cases "fs = []")
  case True
  with iter_begin [OF fs] show ?thesis by (simp add: all_fields_def)
next
  case False
  define body where "body = (\<lambda>iter. case P (it_field iter) (it_pData iter) of None \<Rightarrow> None
    | Some False \<Rightarrow> Some (Inr False)
    | Some True \<Rightarrow> (case pb_field_iter_next iter of (again, iter) \<Rightarrow> Some (if again then Inl iter else Inr True)))"
  have "iterate body (iter_at fs p i) = Some (\<forall>j < length fs. i \<le> j \<longrightarrow> Q j)" if "i < length fs" for i
    using that
  proof (induction "length fs - i" arbitrary: i)
    case 0
    then show ?case by simp
  next
    case (Suc k)
    have all: "(\<forall>j < length fs. i \<le> j \<longrightarrow> Q j) \<longleftrightarrow> Q i \<and> (\<forall>j < length fs. Suc i \<le> j \<longrightarrow> Q j)"
      using Suc.prems by (auto simp: le_less Suc_le_eq)
    have "\<not> Suc i < length fs \<Longrightarrow> (\<forall>j < length fs. Suc i \<le> j \<longrightarrow> Q j)" by auto
    with Suc.hyps Suc.prems P [OF Suc.prems] show ?case
      unfolding all by (subst iterate.simps) (cases "Q i"; simp add: body_def iter_next [OF fs])
  qed
  from this [of 0] False show ?thesis using iter_begin [OF fs] by (simp add: all_fields_def body_def)
qed

lemma check_default_eq:
  assumes "static_message (Suc n) env fs sz" "object_at p sz" "i < length fs"
  shows "pb_check_proto3_default_value (Suc n) env st (fs ! i) (p + data_off fs i)
    = Some (unset (Suc n) env (pb_mem st) (fs ! i) (p + data_off fs i))"
  using assms
proof (induction n arbitrary: fs sz p i)
  case 0
  then have "PB_LTYPE (pf_type (fs ! i)) \<noteq> PB_LTYPE_SUBMESSAGE"
    by (auto simp: item_ok_def Let_def pb_ltypes)
  with static_field(1) [OF 0(1,3)] show ?case
    by (cases rule: htype_cases [of "pf_type (fs ! i)"])
      (simp_all add: Let_def singular_default_def blank_def pb_htypes pb_atypes)
next
  case (Suc n)
  let ?f = "fs ! i" and ?p = "p + data_off fs i"
  note st = static_field [OF Suc.prems(1,3)]
  have sub: "all_fields (pb_check_proto3_default_value (Suc n) env st) (submsg_fields env ?f) ?p
      = Some (\<forall>j < length (submsg_fields env ?f). unset (Suc n) env (pb_mem st) (submsg_fields env ?f ! j)
          (?p + data_off (submsg_fields env ?f) j))"
    if "PB_LTYPE (pf_type ?f) = PB_LTYPE_SUBMESSAGE" "PB_HTYPE (pf_type ?f) \<noteq> PB_HTYPE_REPEATED"
  proof -
    note s = static_submessage [OF Suc.prems(1,3) that(1)]
    note o = single_place(1) [OF Suc.prems that(2)]
    have "tagged_fields (submsg_fields env ?f)" "?p \<noteq> 0" using static_tagged [OF s] o by (simp_all add: object_at_def)
    then show ?thesis by (rule all_fields_eq) (rule Suc.IH [OF s o])
  qed
  show ?case
    using st(1) sub
    by (cases rule: htype_cases [of "pf_type ?f"])
      (simp_all add: Let_def singular_default_def blank_def pb_htypes pb_atypes
        del: pb_check_proto3_default_value.simps unset.simps, simp_all add: Let_def singular_default_def blank_def pb_htypes pb_atypes)
qed

end
