(* ===== verification/Pb_Encode_Image.thy ===== *)
theory Pb_Encode_Image
  imports Pb_Image
begin

text \<open>
  The encoder writes the image of a static message: on a sizing stream it counts its bytes, into a buffer
  it writes them exactly when they fit.
\<close>

subsection \<open>The contract of an encoding run\<close>

text \<open>Buffers are smaller than half of the address space, and no error has been reported before.\<close>

definition ready :: "'s pb_ostream \<Rightarrow> bool" where
  "ready s \<longleftrightarrow> os_ok s \<and> unat (os_max_size s) < 2 ^ 63 \<and> os_errmsg s = None"

definition writes :: "'s encoding \<Rightarrow> u8 list \<Rightarrow> bool" where
  "writes E bs \<longleftrightarrow>
     (\<forall>s. ready s \<longrightarrow> (os_sink s = Out_none \<longrightarrow> os_fits s (length bs)) \<longrightarrow>
        (if os_fits s (length bs) then E s = Some (Some (), os_append bs s)
         else \<exists>s'. E s = Some (None, s') \<and> os_ok s'))"

lemma ready_append: "ready s \<Longrightarrow> os_fits s (length bs) \<Longrightarrow> ready (os_append bs s)"
  using os_append_ok [of s bs] by (simp add: ready_def os_append_def)

lemma writes_fits: "writes E bs \<Longrightarrow> ready s \<Longrightarrow> os_fits s (length bs) \<Longrightarrow> E s = Some (Some (), os_append bs s)"
  by (simp add: writes_def)

lemma writes_full:
  "writes E bs \<Longrightarrow> ready s \<Longrightarrow> \<not> os_fits s (length bs) \<Longrightarrow> os_sink s \<noteq> Out_none \<Longrightarrow> \<exists>s'. E s = Some (None, s') \<and> os_ok s'"
  unfolding writes_def by auto

lemma writes_emits: "emits E bs \<Longrightarrow> writes (\<lambda>s. Some (E s)) bs"
  by (auto simp: writes_def emits_def ready_def)

lemma writes_Nil: "writes (\<lambda>s. Some (Some (), s)) []"
  by (rule writes_emits) (rule emits_Nil)

lemma writes_attempt:
  assumes "writes E a" "writes F b"
  shows "writes (\<lambda>s. run_attempt (E s) (\<lambda>_ s. F s)) (a @ b)"
  unfolding writes_def
proof (intro allI impI)
  fix s :: "'a pb_ostream"
  assume ok: "ready s" and n: "os_sink s = Out_none \<longrightarrow> os_fits s (length (a @ b))"
  have o: "os_ok s" using ok by (simp add: ready_def)
  show "if os_fits s (length (a @ b)) then run_attempt (E s) (\<lambda>_. F) = Some (Some (), os_append (a @ b) s)
        else \<exists>s'. run_attempt (E s) (\<lambda>_. F) = Some (None, s') \<and> os_ok s'"
  proof (cases "os_fits s (length a)")
    case True
    have E: "E s = Some (Some (), os_append a s)" by (rule writes_fits [OF assms(1) ok True])
    note ok' = ready_append [OF ok True]
    have f: "os_fits (os_append a s) (length b) = os_fits s (length (a @ b))"
      using o True by (simp add: os_append_fits)
    show ?thesis
      using E f n o writes_fits [OF assms(2) ok'] writes_full [OF assms(2) ok']
      by (auto simp: os_append_append)
  next
    case False
    then have "\<not> os_fits s (length (a @ b))" using os_fits_mono by fastforce
    moreover from this n have "os_sink s \<noteq> Out_none" by blast
    ultimately show ?thesis using writes_full [OF assms(1) ok False] by auto
  qed
qed

lemma writes_sizing:
  assumes "writes E bs" "length bs < 2 ^ 64"
  shows "E PB_OSTREAM_SIZING = Some (Some (), PB_OSTREAM_SIZING\<lparr>os_bytes_written := of_nat (length bs)\<rparr>)"
proof -
  have "ready PB_OSTREAM_SIZING" by (simp add: ready_def) (simp add: PB_OSTREAM_SIZING_def)
  from writes_fits [OF assms(1) this os_fits_sizing [THEN iffD2, OF assms(2)]]
  show ?thesis by (simp add: os_append_def PB_OSTREAM_SIZING_def)
qed

subsection \<open>Submessages\<close>

lemma writes_payload:
  assumes "writes (encode fs p) bs" "length bs < 2 ^ 32"
  shows "writes (encode_payload encode fs p (of_nat (length bs))) bs"
  unfolding writes_def
proof (intro allI impI)
  fix s :: "'a pb_ostream"
  assume ok: "ready s" and n: "os_sink s = Out_none \<longrightarrow> os_fits s (length bs)"
  define len where "len = (of_nat (length bs) :: u64)"
  have len: "unat len = length bs" using assms(2) by (simp add: len_def unat_of_nat_u64)
  show "if os_fits s (length bs) then encode_payload encode fs p (of_nat (length bs)) s = Some (Some (), os_append bs s)
    else \<exists>s'. encode_payload encode fs p (of_nat (length bs)) s = Some (None, s') \<and> os_ok s'"
    unfolding len_def [symmetric]
  proof (cases "os_sink s")
    case Out_none
    then show "if os_fits s (length bs) then encode_payload encode fs p len s = Some (Some (), os_append bs s)
        else \<exists>s'. encode_payload encode fs p len s = Some (None, s') \<and> os_ok s'"
      using n by (simp add: encode_payload_def pb_write_def os_append_def len_def)
  next
    case (Out_buf dest pos)
    from ok have r: "\<not> os_oob s" "os_bytes_written s \<le> os_max_size s"
      "pos + (unat (os_max_size s) - unat (os_bytes_written s)) \<le> length dest" "os_errmsg s = None" "os_ok s"
      by (simp_all add: ready_def os_ok_def Out_buf)
    have sum: "unat (os_bytes_written s + len) = unat (os_bytes_written s) + length bs"
      using ok r(2) len assms(2) by (intro trans [OF unat_add_no_wrap]) (auto simp: ready_def word_le_nat_alt)
    have fits: "os_fits s (length bs) \<longleftrightarrow> \<not> os_max_size s < os_bytes_written s + len"
      by (simp add: os_fits_def Out_buf word_less_nat_alt sum not_less)
    show "if os_fits s (length bs) then encode_payload encode fs p len s = Some (Some (), os_append bs s)
        else \<exists>s'. encode_payload encode fs p len s = Some (None, s') \<and> os_ok s'"
    proof (cases "os_fits s (length bs)")
      case False
      with fits r show ?thesis by (simp add: encode_payload_def Out_buf OS_RETURN_ERROR_def)
    next
      case True
      define sub where "sub = s\<lparr>os_max_size := len, os_bytes_written := 0, os_errmsg := None\<rparr>"
      have room: "pos + length bs \<le> length dest"
        using True r(3) by (simp add: os_fits_def Out_buf)
      have "ready sub" using r room assms(2) len by (simp add: ready_def sub_def os_ok_def Out_buf)
      moreover have "os_fits sub (length bs)" by (simp add: sub_def os_fits_def Out_buf len)
      ultimately have e: "encode fs p sub = Some (Some (), os_append bs sub)" by (rule writes_fits [OF assms(1)])
      have w: "os_bytes_written (os_append bs sub) = len" by (simp add: os_append_def sub_def len_def)
      have "s\<lparr>os_bytes_written := os_bytes_written s + len, os_sink := os_sink (os_append bs sub),
            os_errmsg := os_errmsg (os_append bs sub), os_oob := os_oob (os_append bs sub)\<rparr> = os_append bs s"
        using r(4) by (cases s) (simp add: os_append_def sub_def len_def)
      with e w fits True show ?thesis by (simp add: encode_payload_def Out_buf sub_def [symmetric] Let_def)
    qed
  next
    case (Out_user cb st)
    then show "if os_fits s (length bs) then encode_payload encode fs p len s = Some (Some (), os_append bs s)
        else \<exists>s'. encode_payload encode fs p len s = Some (None, s') \<and> os_ok s'"
      using ok by (simp add: ready_def os_ok_def)
  qed
qed

lemma writes_submessage:
  assumes "writes (encode fs p) bs" "length bs < 2 ^ 32"
  shows "writes (pb_encode_submessage encode fs p) (varint (length bs) @ bs)"
proof -
  have size: "encode fs p PB_OSTREAM_SIZING = Some (Some (), PB_OSTREAM_SIZING\<lparr>os_bytes_written := of_nat (length bs)\<rparr>)"
    using assms by (intro writes_sizing) simp_all
  have "writes (\<lambda>s. Some (pb_encode_varint s (of_nat (length bs)))) (varint (length bs))"
    using emits_varint [of "of_nat (length bs)"] assms(2) by (intro writes_emits) (simp add: unat_of_nat_u64)
  from writes_attempt [OF this writes_payload [of encode fs p bs, OF assms]] show ?thesis
    unfolding pb_encode_submessage_def [abs_def] size by simp
qed

subsection \<open>Fields\<close>

lemma writes_items:
  assumes "\<And>k. k < count \<Longrightarrow> writes (func (p + of_nat k * d)) (bs k)"
  shows "writes (encode_items func d count p) (concat (map bs [0..<count]))"
  using assms
proof (induction count arbitrary: p bs)
  case 0
  then show ?case using writes_Nil by (simp add: encode_items.simps(1) [abs_def])
next
  case (Suc count)
  have "writes (encode_items func d count (p + d)) (concat (map (\<lambda>k. bs (Suc k)) [0..<count]))"
    using Suc.prems [of "Suc _"] by (intro Suc.IH) (simp add: algebra_simps)
  from writes_attempt [OF Suc.prems [of 0, simplified] this]
  show ?case by (simp add: map_upt_Suc encode_items.simps(2) [abs_def] del: upt_Suc)
qed

text \<open>On a sizing stream bytes already counted are only added.\<close>

lemma writes_counted:
  assumes "writes E bs"
  shows "writes (\<lambda>s. if no_callback (os_sink s) then Some (pb_write s [] (of_nat (length bs))) else E s) bs"
  using assms by (auto simp: writes_def pb_write_def os_append_def)

fun encode_fields :: "(nat \<Rightarrow> 's encoding) \<Rightarrow> nat list \<Rightarrow> 's encoding" where
  "encode_fields E [] s = Some (Some (), s)"
| "encode_fields E (i # is) s = run_attempt (E i s) (\<lambda>_ s. encode_fields E is s)"

lemma writes_numbers:
  "writes (pb_enc_bool st f p) (varint (unat (of_bool (safe_read_bool (pb_mem st) p) :: u64)))"
  "load_signed (pb_mem st) p (pf_data_size f) = Some v \<Longrightarrow> writes (pb_enc_varint st f p) (varint (unat v))"
  "load_unsigned (pb_mem st) p (pf_data_size f) = Some v \<Longrightarrow> writes (pb_enc_uvarint st f p) (varint (unat v))"
  "load_signed (pb_mem st) p (pf_data_size f) = Some v \<Longrightarrow> writes (pb_enc_svarint st f p) (varint (unat (zigzag v)))"
  "writes (pb_enc_fixed32 st f p) (le_bytes 4 (unat (load_word (pb_mem st) p 4 :: u32)))"
  "writes (pb_enc_fixed64 st f p) (le_bytes 8 (unat (load_word (pb_mem st) p 8 :: u64)))"
  unfolding pb_enc_bool_def [abs_def] pb_enc_varint_def [abs_def] pb_enc_uvarint_def [abs_def] pb_enc_svarint_def [abs_def]
    pb_enc_fixed32_def [abs_def] pb_enc_fixed64_def [abs_def]
  by (simp_all add: of_bool_def writes_emits emits_varint emits_svarint emits_fixed32 emits_fixed64)

lemma writes_string: "length bs = unat len \<Longrightarrow> writes (\<lambda>s. Some (pb_encode_string s bs len)) (varint (length bs) @ bs)"
  by (intro writes_emits emits_string)

lemma writes_bytes:
  assumes "p \<noteq> 0" "4 \<le> unat (pf_data_size f)" "unat (load_size (pb_mem st) p) + 4 \<le> unat (pf_data_size f)"
  shows "writes (pb_enc_bytes st f p) (varint (unat (load_size (pb_mem st) p))
    @ load_bytes (pb_mem st) (p + 4) (unat (load_size (pb_mem st) p)))"
proof -
  have "unat (ucast (pf_data_size f) - 4 :: u64) = unat (pf_data_size f) - 4"
    using assms(2) by (simp add: unat_sub word_le_nat_alt)
  then have "\<not> ucast (pf_data_size f) - 4 < (ucast (load_size (pb_mem st) p) :: u64)"
    using assms(3) by (simp add: word_less_nat_alt)
  with assms(1) writes_string [of "load_bytes (pb_mem st) (p + 4) (unat (load_size (pb_mem st) p))" "ucast (load_size (pb_mem st) p)"]
  show ?thesis by (simp add: pb_enc_bytes_def [abs_def] Let_def)
qed

lemma writes_text:
  assumes "p \<noteq> 0" "PB_ATYPE (pf_type f) = PB_ATYPE_STATIC"
  shows "writes (pb_enc_string st f p) (varint (string_length (pb_mem st) p 0 (unat (pf_data_size f)))
    @ load_bytes (pb_mem st) p (string_length (pb_mem st) p 0 (unat (pf_data_size f))))"
proof -
  let ?n = "string_length (pb_mem st) p 0 (unat (pf_data_size f))"
  have "?n \<le> unat (pf_data_size f)" by (rule string_length_le) simp
  then have "?n < 2 ^ 32" using unat_less_2p [of "pf_data_size f"] by simp
  then have "unat (of_nat ?n :: u64) = ?n" by (intro unat_of_nat_u64) simp
  with assms writes_string [of "load_bytes (pb_mem st) p ?n" "of_nat ?n"] show ?thesis
    by (simp add: pb_enc_string_def [abs_def] pb_atypes Let_def)
qed

lemma writes_fixed_bytes:
  "writes (pb_enc_fixed_length_bytes st f p) (varint (unat (pf_data_size f)) @ load_bytes (pb_mem st) p (unat (pf_data_size f)))"
  using writes_string [of "load_bytes (pb_mem st) p (unat (pf_data_size f))" "ucast (pf_data_size f)"]
  by (simp add: pb_enc_fixed_length_bytes_def [abs_def])

locale image_encoder =
  fixes n :: nat and env :: "('h, 's) pb_env" and st :: "'h pb_store" and encode :: "'s message_encoder"
  assumes encode_image:
    "static_message n env fs sz \<Longrightarrow> regular n env fs \<Longrightarrow> object_at p sz
       \<Longrightarrow> message_image n env (pb_mem st) fs p = Some rss \<Longrightarrow> writes (encode fs p) (message_bytes (concat rss))"
begin

lemma item_writes:
  assumes ok: "item_ok (static_message n env) env f" and static: "PB_ATYPE (pf_type f) = PB_ATYPE_STATIC"
    and reg: "PB_LTYPE (pf_type f) = PB_LTYPE_SUBMESSAGE \<Longrightarrow> regular n env (submsg_fields env f)"
    and p: "object_at p (unat (pf_data_size f))"
    and w: "item_image (message_image n env (pb_mem st)) env (pb_mem st) f p = Some w"
  shows "writes (PB_ENCODERS encode env st (PB_LTYPE (pf_type f)) f p) (wire_bytes w)"
    and "writes (\<lambda>s. Some (pb_encode_tag_for_field s f)) (varint (tag_key (wire_type_of w) (pf_tag f)))"
proof -
  have p0: "p \<noteq> 0" using p by (simp add: object_at_def)
  have sub: "writes (pb_enc_submessage encode env f p) (wire_bytes w)"
    if l: "PB_LTYPE (pf_type f) = PB_LTYPE_SUBMESSAGE"
  proof -
    from ok l have s: "static_message n env (submsg_fields env f) (unat (pf_data_size f))" "pf_ptr f \<noteq> Null_ptr"
      by (auto simp: item_ok_def Let_def pb_ltypes)
    from w l obtain rss where rs: "message_image n env (pb_mem st) (submsg_fields env f) p = Some rss"
      "length (message_bytes (concat rss)) < 2 ^ 32" "w = W_string (message_bytes (concat rss))"
      by (auto simp: item_image_def Let_def pb_ltypes bind_eq_Some_conv)
    from writes_submessage [of encode "submsg_fields env f" p, OF encode_image [OF s(1) reg [OF l] p rs(1)] rs(2)] s(2)
    show ?thesis by (simp add: pb_enc_submessage_def [abs_def] rs(3))
  qed
  show "writes (PB_ENCODERS encode env st (PB_LTYPE (pf_type f)) f p) (wire_bytes w)"
    using ok w sub writes_numbers [where st = st and p = p and f = f] writes_bytes [OF p0, where f = f and st = st] writes_text [OF p0 static, where st = st]
      writes_fixed_bytes [where st = st and p = p and f = f]
    by (auto simp: item_ok_def Let_def PB_ENCODERS_def item_image_def pb_ltypes split: if_splits)
  have "wire_type_of w = PB_WT_VARINT" if "PB_LTYPE (pf_type f) \<in> {PB_LTYPE_BOOL, PB_LTYPE_VARINT, PB_LTYPE_UVARINT, PB_LTYPE_SVARINT}"
    using w that by (auto simp: item_image_def Let_def pb_ltypes)
  moreover have "wire_type_of w = PB_WT_STRING" if "PB_LTYPE (pf_type f) \<in> {PB_LTYPE_BYTES, PB_LTYPE_STRING, PB_LTYPE_SUBMESSAGE, PB_LTYPE_FIXED_LENGTH_BYTES}"
    using w that by (auto simp: item_image_def Let_def pb_ltypes split: if_splits)
  moreover have "wire_type_of w = PB_WT_32BIT" if "PB_LTYPE (pf_type f) = PB_LTYPE_FIXED32"
    using w that by (auto simp: item_image_def Let_def pb_ltypes)
  moreover have "wire_type_of w = PB_WT_64BIT" if "PB_LTYPE (pf_type f) = PB_LTYPE_FIXED64"
    using w that by (auto simp: item_image_def Let_def pb_ltypes)
  ultimately show "writes (\<lambda>s. Some (pb_encode_tag_for_field s f)) (varint (tag_key (wire_type_of w) (pf_tag f)))"
    using ok writes_emits [OF emits_tag [of "wire_type_of w" "pf_tag f"]]
    by (auto simp: item_ok_def Let_def pb_encode_tag_for_field_def [abs_def] pb_ltypes)
qed

lemma field_bytes_writes:
  assumes "item_ok (static_message n env) env f" "PB_ATYPE (pf_type f) = PB_ATYPE_STATIC"
    and "PB_LTYPE (pf_type f) = PB_LTYPE_SUBMESSAGE \<Longrightarrow> regular n env (submsg_fields env f)"
    and "object_at p (unat (pf_data_size f))"
    and "item_image (message_image n env (pb_mem st)) env (pb_mem st) f p = Some w"
  shows "writes (\<lambda>s. run_attempt (Some (pb_encode_tag_for_field s f)) (\<lambda>_ s. PB_ENCODERS encode env st (PB_LTYPE (pf_type f)) f p s))
    (field_bytes (pf_tag f) w)"
  unfolding field_bytes_def by (rule writes_attempt [OF item_writes(2,1)]) (rule assms, assumption?)+

lemma array_writes:
  assumes ok: "item_ok (static_message n env) env f" and static: "PB_ATYPE (pf_type f) = PB_ATYPE_STATIC"
    and reg: "PB_LTYPE (pf_type f) = PB_LTYPE_SUBMESSAGE \<Longrightarrow> regular n env (submsg_fields env f)"
    and p: "\<And>k. k < unat count \<Longrightarrow> object_at (p + of_nat k * ucast (pf_data_size f)) (unat (pf_data_size f))"
    and count: "count \<noteq> 0" "count \<le> pf_array_size f"
    and ws: "item_images (item_image (message_image n env (pb_mem st)) env (pb_mem st)) f p (unat count) = Some ws"
  defines "func \<equiv> PB_ENCODERS encode env st (PB_LTYPE (pf_type f))"
  shows "PB_LTYPE (pf_type f) \<le> PB_LTYPE_LAST_PACKABLE \<Longrightarrow> length (concat (map wire_bytes ws)) < 2 ^ 32 \<Longrightarrow>
      writes (encode_array st f p count func) (field_bytes (pf_tag f) (W_string (concat (map wire_bytes ws))))"
    and "\<not> PB_LTYPE (pf_type f) \<le> PB_LTYPE_LAST_PACKABLE \<Longrightarrow>
      writes (encode_array st f p count func) (message_bytes (map (Pair (pf_tag f)) ws))"
proof -
  let ?l = "PB_LTYPE (pf_type f)" and ?d = "ucast (pf_data_size f) :: u64" and ?bs = "concat (map wire_bytes ws)"
  have len: "length ws = unat count" and item: "\<And>k. k < unat count \<Longrightarrow>
      item_image (message_image n env (pb_mem st)) env (pb_mem st) f (p + of_nat k * ?d) = Some (ws ! k)"
    using those_SomeD [OF ws [unfolded item_images_def]] by simp_all
  have ws_eq: "ws = map ((!) ws) [0..<unat count]" using len by (metis map_nth)
  have "writes (encode_items (func f) ?d (unat count) p) (concat (map (\<lambda>k. wire_bytes (ws ! k)) [0..<unat count]))"
    unfolding func_def by (rule writes_items) (rule item_writes(1) [OF ok static reg p item])
  moreover have "map (\<lambda>k. wire_bytes (ws ! k)) [0..<unat count] = map wire_bytes ws"
    by (subst (2) ws_eq) (simp add: comp_def)
  ultimately have items: "writes (encode_items (func f) ?d (unat count) p) ?bs" by simp
  have le: "\<not> pf_array_size f < count" using count(2) by simp
  { assume l: "?l \<le> PB_LTYPE_LAST_PACKABLE" and bs: "length ?bs < 2 ^ 32"
    have "\<exists>v. ws ! k = W_32bit v" if "?l = PB_LTYPE_FIXED32" "k < unat count" for k
      using item [OF that(2)] that(1) by (auto simp: item_image_def Let_def pb_ltypes dest: sym)
    then have "\<forall>w \<in> set ws. \<exists>v. w = W_32bit v" if "?l = PB_LTYPE_FIXED32"
      using that len by (metis in_set_conv_nth)
    then have l32: "length ?bs = 4 * length ws" if "?l = PB_LTYPE_FIXED32" using that by (induction ws) auto
    have "\<exists>v. ws ! k = W_64bit v" if "?l = PB_LTYPE_FIXED64" "k < unat count" for k
      using item [OF that(2)] that(1) by (auto simp: item_image_def Let_def pb_ltypes dest: sym)
    then have "\<forall>w \<in> set ws. \<exists>v. w = W_64bit v" if "?l = PB_LTYPE_FIXED64"
      using that len by (metis in_set_conv_nth)
    then have l64: "length ?bs = 8 * length ws" if "?l = PB_LTYPE_FIXED64" using that by (induction ws) auto
    have size: "encode_items (func f) ?d (unat count) p PB_OSTREAM_SIZING
        = Some (Some (), PB_OSTREAM_SIZING\<lparr>os_bytes_written := of_nat (length ?bs)\<rparr>)"
      by (rule writes_sizing [OF items]) (use bs in simp)
    have c: "(of_nat (unat count) :: u64) = ucast count" by simp
    have cnt: "(if ?l = PB_LTYPE_FIXED32 then Some (Some (4 * ucast count))
        else if ?l = PB_LTYPE_FIXED64 then Some (Some (8 * ucast count))
        else case encode_items (func f) ?d (unat count) p PB_OSTREAM_SIZING of
               None \<Rightarrow> None | Some (None, _) \<Rightarrow> Some None | Some (Some _, sizestream) \<Rightarrow> Some (Some (os_bytes_written sizestream)))
        = Some (Some (of_nat (length ?bs) :: u64))"
      using l32 l64 size c by (simp add: len)
    have tag: "writes (\<lambda>s. Some (pb_encode_tag s PB_WT_STRING (pf_tag f))) (varint (tag_key PB_WT_STRING (pf_tag f)))"
      by (rule writes_emits) (rule emits_tag, simp add: pb_wt_defs)
    have size': "writes (\<lambda>s. Some (pb_encode_varint s (of_nat (length ?bs)))) (varint (length ?bs))"
      using emits_varint [of "of_nat (length ?bs)"] bs by (intro writes_emits) (simp add: unat_of_nat_u64)
    from writes_attempt [OF tag writes_attempt [OF size' writes_counted [OF items]]]
    show "writes (encode_array st f p count func) (field_bytes (pf_tag f) (W_string ?bs))"
      unfolding encode_array_def [abs_def] Let_def field_bytes_def wire_type_of.simps wire_bytes.simps
      using l count(1) static le by (simp add: cnt pb_atypes) }
  { assume l: "\<not> ?l \<le> PB_LTYPE_LAST_PACKABLE"
    have "writes (\<lambda>s. run_attempt (Some (pb_encode_tag_for_field s f)) (\<lambda>_. func f (p + of_nat k * ?d)))
        (field_bytes (pf_tag f) (ws ! k))" if "k < unat count" for k
      unfolding func_def by (rule field_bytes_writes [OF ok static reg p [OF that] item [OF that]])
    then have items: "writes (encode_items (\<lambda>p s. run_attempt (Some (pb_encode_tag_for_field s f)) (\<lambda>_. func f p)) ?d (unat count) p)
        (concat (map (\<lambda>k. field_bytes (pf_tag f) (ws ! k)) [0..<unat count]))"
      by (intro writes_items)
    have "message_bytes (map (Pair (pf_tag f)) ws) = concat (map (\<lambda>k. field_bytes (pf_tag f) (ws ! k)) [0..<unat count])"
      by (subst ws_eq) (simp add: message_bytes_def comp_def)
    with items count(1) static l le show "writes (encode_array st f p count func) (message_bytes (map (Pair (pf_tag f)) ws))"
      by (simp add: encode_array_def [abs_def] Let_def pb_atypes cong: if_cong) }
qed

lemma field_writes:
  assumes s: "static_message (Suc n) env fs sz" and r: "regular (Suc n) env fs" and o: "object_at src sz"
    and i: "i < length fs"
    and rs: "field_image n (message_image n env (pb_mem st)) env (pb_mem st) (fs ! i) (src + data_off fs i) = Some rs"
  shows "writes (encode_field n encode env st (fs ! i) (src + data_off fs i)) (message_bytes rs)"
proof -
  let ?f = "fs ! i" and ?p = "src + data_off fs i"
  let ?item = "item_image (message_image n env (pb_mem st)) env (pb_mem st)"
  note st = static_field [OF s i] and reg = regularD [OF r i]
  note image = rs [unfolded field_image_def Let_def]
  have basic: "encode_field n encode env st ?f ?p = encode_basic_field n encode env st ?f ?p"
    using st(1) by (simp add: encode_field_def [abs_def])
  have single: "writes (\<lambda>s. run_attempt (Some (pb_encode_tag_for_field s ?f))
      (\<lambda>_ s. PB_ENCODERS encode env st (PB_LTYPE (pf_type ?f)) ?f ?p s)) (message_bytes rs')"
    if "map_option (\<lambda>w. [(pf_tag ?f, w)]) (?item ?f ?p) = Some rs'" "PB_HTYPE (pf_type ?f) \<noteq> PB_HTYPE_REPEATED" for rs'
    using that(1) field_bytes_writes [OF st(2,1) reg(7) single_place(1) [OF s o i that(2)]] by auto
  show ?thesis
  proof (cases rule: htype_cases [of "pf_type ?f"])
    case Required
    have "?p \<noteq> 0" using single_place(1) [OF s o i] Required by (simp add: object_at_def pb_htypes)
    with single [of rs] image show ?thesis
      unfolding basic encode_basic_field_def [abs_def] by (simp add: Let_def Required st(1) pb_htypes pb_atypes)
  next
    case Optional
    define present where "present = (if pf_size_offset ?f \<noteq> 0 then safe_read_bool (pb_mem st) (size_address ?p ?f)
      else \<not> unset (Suc n) env (pb_mem st) ?f ?p)"
    have "encode_basic_field n encode env st ?f ?p = (\<lambda>s. if present then run_attempt (Some (pb_encode_tag_for_field s ?f))
      (\<lambda>_ s. PB_ENCODERS encode env st (PB_LTYPE (pf_type ?f)) ?f ?p s) else Some (Some (), s))"
      unfolding encode_basic_field_def [abs_def]
      using check_default_eq [OF s o i, of st]
      by (auto simp: Let_def Optional st(1) pb_htypes pb_atypes present_def fun_eq_iff
          simp del: pb_check_proto3_default_value.simps unset.simps)
    moreover have "writes (\<lambda>s. if present then run_attempt (Some (pb_encode_tag_for_field s ?f))
      (\<lambda>_ s. PB_ENCODERS encode env st (PB_LTYPE (pf_type ?f)) ?f ?p s) else Some (Some (), s)) (message_bytes rs)"
      using single [of rs] image writes_Nil
      by (auto simp: Optional pb_htypes present_def [symmetric] split: if_splits)
    ultimately show ?thesis unfolding basic by simp
  next
    case Repeated
    define count where "count = (if pf_size_offset ?f \<noteq> 0 then load_size (pb_mem st) (size_address ?p ?f) else pf_array_size ?f)"
    have basic': "encode_basic_field n encode env st ?f ?p
        = encode_array st ?f ?p count (PB_ENCODERS encode env st (PB_LTYPE (pf_type ?f)))"
      unfolding encode_basic_field_def [abs_def]
      by (simp add: Let_def Repeated st(1) pb_htypes pb_atypes count_def fun_eq_iff)
    show ?thesis
    proof (cases "count = 0")
      case True
      then have "rs = []" using image by (simp add: Repeated pb_htypes count_def [symmetric])
      with True writes_Nil show ?thesis unfolding basic basic' by (simp add: encode_array_def [abs_def])
    next
      case False
      with image have le: "count \<le> pf_array_size ?f"
        by (auto simp: Repeated pb_htypes count_def [symmetric] split: if_splits)
      have place: "object_at (?p + of_nat k * ucast (pf_data_size ?f)) (unat (pf_data_size ?f))" if "k < unat count" for k
        by (rule array_item(2) [OF s o i Repeated]) (use that le in \<open>simp add: word_le_nat_alt\<close>)
      note arr = array_writes [OF st(2,1) reg(7) place False le]
      show ?thesis
        unfolding basic basic'
        using image False le arr
        by (auto simp: Repeated pb_htypes count_def [symmetric] bind_eq_Some_conv split: if_splits)
    qed
  next
    case Oneof
    then show ?thesis
      using single [of rs] image reg(3) writes_Nil
      unfolding basic encode_basic_field_def [abs_def]
      by (cases "load_size (pb_mem st) (size_address ?p ?f) = pf_tag ?f") (auto simp: Let_def st(1) pb_htypes pb_atypes)
  qed
qed

lemma message_writes:
  assumes s: "static_message (Suc n) env fs sz" and r: "regular (Suc n) env fs" and o: "object_at src sz"
    and rss: "message_image (Suc n) env (pb_mem st) fs src = Some rss"
  shows "writes (encode_fields (\<lambda>i. encode_field n encode env st (fs ! i) (src + data_off fs i)) [0..<length fs])
    (message_bytes (concat rss))"
proof -
  let ?image = "\<lambda>i. field_image n (message_image n env (pb_mem st)) env (pb_mem st) (fs ! i) (src + data_off fs i)"
  have "writes (encode_fields (\<lambda>i. encode_field n encode env st (fs ! i) (src + data_off fs i)) xs) (message_bytes (concat rss))"
    if "those (map ?image xs) = Some rss" "set xs \<subseteq> {..<length fs}" for xs rss
    using that
  proof (induction xs arbitrary: rss)
    case Nil
    then show ?case using writes_Nil by (simp add: encode_fields.simps(1) [abs_def])
  next
    case (Cons i xs)
    then obtain a rss' where "?image i = Some a" "those (map ?image xs) = Some rss'" "rss = a # rss'"
      by (auto split: option.splits)
    with Cons field_writes [OF s r o, of i] show ?case
      by (auto simp: encode_fields.simps(2) [abs_def] intro!: writes_attempt)
  qed
  from this [of "[0..<length fs]"] rss show ?thesis by (auto simp: lessThan_atLeast0)
qed

end

text \<open>The loop of \<^verbatim>\<open>pb_encode\<close> goes through the fields in their order.\<close>

lemma encode_fields_loop:
  assumes fs: "tagged_fields fs" "src \<noteq> 0"
    and no_ext: "\<And>i. i < length fs \<Longrightarrow> PB_LTYPE (pf_type (fs ! i)) \<noteq> PB_LTYPE_EXTENSION"
  shows "pb_encode (Suc n) env st fs src
    = encode_fields (\<lambda>i. encode_field n (pb_encode n env st) env st (fs ! i) (src + data_off fs i)) [0..<length fs]"
proof
  fix s
  let ?E = "\<lambda>i. encode_field n (pb_encode n env st) env st (fs ! i) (src + data_off fs i)"
  define body where "body = (\<lambda>(iter, s).
    case (if PB_LTYPE (pf_type (it_field iter)) = PB_LTYPE_EXTENSION
          then encode_extension_field n (pb_encode n env st) env st (it_pData iter) s
          else encode_field n (pb_encode n env st) env st (it_field iter) (it_pData iter) s) of
      None \<Rightarrow> None
    | Some (None, s) \<Rightarrow> Some (Inr (None, s))
    | Some (Some _, s) \<Rightarrow> (case pb_field_iter_next iter of (again, iter) \<Rightarrow> Some (if again then Inl (iter, s) else Inr (Some (), s))))"
  have loop: "iterate body (iter_at fs src i, s) = encode_fields ?E [i..<length fs] s" if "i < length fs" for i s
    using that
  proof (induction "length fs - i" arbitrary: i s)
    case 0
    then show ?case by simp
  next
    case (Suc k)
    have u: "[i..<length fs] = i # [Suc i..<length fs]" using Suc.prems by (rule upt_conv_Cons)
    have e: "Suc i = length fs" if "\<not> Suc i < length fs" using that Suc.prems by simp
    show ?case
      unfolding u using Suc.hyps Suc.prems e no_ext [OF Suc.prems]
      by (subst iterate.simps)
        (auto simp: body_def iter_next [OF fs] run_attempt_def split: option.split prod.split)
  qed
  show "pb_encode (Suc n) env st fs src s = encode_fields ?E [0..<length fs] s"
  proof (cases "fs = []")
    case True
    with iter_begin [OF fs] show ?thesis by simp
  next
    case False
    with loop [of 0 s] iter_begin [OF fs] show ?thesis by (simp add: body_def)
  qed
qed

interpretation encoder: image_encoder n env st "pb_encode n env st"
  for n and env :: "('h, 's) pb_env" and st :: "'h pb_store"
proof (induction n)
  case 0
  show ?case by unfold_locales simp
next
  case (Suc n)
  show ?case
  proof unfold_locales
    fix fs sz p rss
    assume a: "static_message (Suc n) env fs sz" "regular (Suc n) env fs" "object_at p sz"
      "message_image (Suc n) env (pb_mem st) fs p = Some rss"
    have "tagged_fields fs" "p \<noteq> 0" using static_tagged [OF a(1)] a(3) by (simp_all add: object_at_def)
    moreover have "PB_LTYPE (pf_type (fs ! i)) \<noteq> PB_LTYPE_EXTENSION" if "i < length fs" for i
      using static_field(2) [OF a(1) that] by (auto simp: item_ok_def Let_def pb_ltypes)
    ultimately have "pb_encode (Suc n) env st fs p
        = encode_fields (\<lambda>i. encode_field n (pb_encode n env st) env st (fs ! i) (p + data_off fs i)) [0..<length fs]"
      by (rule encode_fields_loop)
    with image_encoder.message_writes [OF Suc a] show "writes (pb_encode (Suc n) env st fs p) (message_bytes (concat rss))" by simp
  qed
qed

end
