(* ===== verification/Pb_Decode_Safe.thy ===== *)
theory Pb_Decode_Safe
  imports Pb_Static
begin

text \<open>
  Decoding a static message is safe: level by level of nested submessages, in the locale
  \<open>safe_decoder\<close>, whose assumption is the safety of the level below.
\<close>

definition progress :: "'s pb_istream \<Rightarrow> 'a \<Rightarrow> 's pb_istream \<Rightarrow> bool" where
  "progress s y s' \<longleftrightarrow> unat (is_bytes_left s') < unat (is_bytes_left s)"

definition anything :: "'a \<Rightarrow> 's pb_istream \<Rightarrow> bool" where
  "anything y s' \<longleftrightarrow> True"

lemma anything [simp]: "anything y s'"
  by (simp add: anything_def)

lemma run_attempt_fail [simp]: "run_attempt (fail_with s st msg) k = fail_with s st msg"
  by (simp add: fail_with_def)

lemma progress_within: "viewed s \<Longrightarrow> within s t \<Longrightarrow> progress t y u \<Longrightarrow> progress s y u"
  using within_viewed [of s t] by (auto simp: progress_def)

lemma safe_viewed: "safe R s st Q (Some (x, (s', st'))) \<Longrightarrow> viewed s \<Longrightarrow> viewed s'"
  using within_viewed by (auto simp: safe_def)

text \<open>A number read from the stream and stored.\<close>

lemma safe_store_number:
  fixes r :: "('b, 's pb_istream) outcome" and st :: "'h pb_store"
  assumes s: "viewed s" and r: "reads s (snd r)"
    and p: "\<And>v s'. r = (Some v, s') \<Longrightarrow> unat (is_bytes_left s') < unat (is_bytes_left s)"
    and k: "\<And>v s' st'. safe R s' st' anything (k v (s', st')) \<and> (\<forall>u s2 st2. k v (s', st') = Some (Some u, (s2, st2)) \<longrightarrow> s2 = s')"
  shows "safe R s st (progress s) (run_attempt (reading r st) k)"
proof (rule safe_attempt [where Q = "progress s"])
  show "safe R s st (progress s) (reading r st)"
    by (rule safe_reading [OF r]) (auto simp: progress_def dest: p)
next
  fix v :: 'b and s' :: "'s pb_istream" and st' :: "'h pb_store"
  assume "progress s v s'"
  then show "safe R s' st' (progress s) (k v (s', st'))"
    using k [of s' st' v] by (fastforce simp: safe_def progress_def)
qed

lemma bool_safe:
  assumes "viewed s"
  shows "safe (region dest 1) s st (progress s) (pb_dec_bool f dest s st)"
  unfolding pb_dec_bool_def
  by (rule safe_store_number [OF assms reader_varint32 varint32_progress [OF assms]])
    (auto simp: safe_def unchanged_stores(3) [simplified])

lemma store_clamped_safe:
  assumes "\<And>m c. r = Some (m, c) \<Longrightarrow> unchanged_outside R (pb_mem st) m"
  shows "safe R s st anything (store_clamped r v s st)
    \<and> (\<forall>u s2 st2. store_clamped r v s st = Some (Some u, (s2, st2)) \<longrightarrow> s2 = s)"
  using assms by (auto simp: safe_def store_clamped_def fail_with_def split: option.split)

lemma store_signed_unchanged:
  "store_signed m dest sz v = Some (m', c) \<Longrightarrow> unchanged_outside (region dest (unat sz)) m m'"
  by (auto simp: store_signed_def intro: unchanged_store_word split: if_splits)

lemma store_unsigned_unchanged:
  "store_unsigned m dest sz v = Some (m', c) \<Longrightarrow> unchanged_outside (region dest (unat sz)) m m'"
  by (auto simp: store_unsigned_def intro: unchanged_store_word split: if_splits)

lemma varint_safe:
  assumes "viewed s"
  shows "safe (region dest (unat (pf_data_size f))) s st (progress s) (pb_dec_varint f dest s st)"
  unfolding pb_dec_varint_def Let_def
  by (rule safe_store_number [OF assms reader_varint varint_progress [OF assms]])
    (assumption, simp only: prod.case, rule store_clamped_safe, erule store_signed_unchanged)

lemma uvarint_safe:
  assumes "viewed s"
  shows "safe (region dest (unat (pf_data_size f))) s st (progress s) (pb_dec_uvarint f dest s st)"
  unfolding pb_dec_uvarint_def
  by (rule safe_store_number [OF assms reader_varint varint_progress [OF assms]])
    (assumption, simp only: prod.case, rule store_clamped_safe, erule store_unsigned_unchanged)

lemma svarint_safe:
  assumes "viewed s"
  shows "safe (region dest (unat (pf_data_size f))) s st (progress s) (pb_dec_svarint f dest s st)"
  unfolding pb_dec_svarint_def
  by (rule safe_store_number [OF assms reader_numbers(1) svarint_progress [OF assms]])
    (assumption, simp only: prod.case, rule store_clamped_safe, erule store_signed_unchanged)

lemma fixed32_safe:
  assumes "viewed s"
  shows "safe (region dest 4) s st (progress s) (pb_dec_fixed32 f dest s st)"
  unfolding pb_dec_fixed32_def
  by (rule safe_store_number [OF assms reader_numbers(2) fixed_progress(1) [OF assms]])
    (auto simp: safe_def unchanged_store_word)

lemma fixed64_safe:
  assumes "viewed s"
  shows "safe (region dest 8) s st (progress s) (pb_dec_fixed64 f dest s st)"
  unfolding pb_dec_fixed64_def
  by (rule safe_store_number [OF assms reader_numbers(3) fixed_progress(2) [OF assms]])
    (auto simp: safe_def unchanged_store_word)

lemma read_to_safe:
  assumes "region buf (unat count) \<subseteq> R"
  shows "safe R s st anything (pb_read_to s st buf count)"
  unfolding pb_read_to_def
proof (rule safe_attempt [where Q = anything])
  show "safe R s st anything (reading (pb_read s count) st)" by (rule safe_reading [OF reader_read]) simp
next
  fix bs :: "u8 list" and s' :: "'s pb_istream" and st' :: "'h pb_store"
  have "unchanged_outside R (pb_mem st') (store_bytes (pb_mem st') buf (take (unat count) bs))"
    by (rule unchanged_mono [OF unchanged_store_bytes])
      (use assms region_mono [of "length (take (unat count) bs)" "unat count" buf] in auto)
  then show "safe R s' st' anything ((\<lambda>(s, st). Some (Some (), (s, st\<lparr>pb_mem := store_bytes (pb_mem st) buf
      (take (unat count) bs)\<rparr>))) (s', st'))"
    by (auto intro: safe_return)
qed

text \<open>A length read from the stream, then something that reads no less.\<close>

lemma safe_length_prefixed:
  fixes st :: "'h pb_store"
  assumes s: "viewed s" and k: "\<And>v s' st'. viewed s' \<Longrightarrow> safe R s' st' anything (k v (s', st'))"
  shows "safe R s st (progress s) (run_attempt (reading (pb_decode_varint32 s) st) k)"
proof (rule safe_attempt [where Q = "progress s"])
  show "safe R s st (progress s) (reading (pb_decode_varint32 s) st)"
    by (rule safe_reading [OF reader_varint32]) (auto simp: progress_def dest: varint32_progress [OF s])
next
  fix v :: u32 and s' :: "'a pb_istream" and st' :: "'h pb_store"
  assume w: "within s s'" and p: "progress s v s'"
  have v: "viewed s'" using within_viewed [OF s w] by simp
  show "safe R s' st' (progress s) (k v (s', st'))"
    using k [OF v, of st' v] p within_viewed [OF v] by (fastforce simp: safe_def progress_def)
qed

lemma static_buffer:
  assumes "PB_ATYPE (pf_type f) = PB_ATYPE_STATIC"
  shows "field_buffer env f dest len alloc_size msg s st =
    (if ucast (pf_data_size f) < alloc_size then fail_with s st msg else Some (Some dest, (s, st)))"
  using assms by (simp add: field_buffer_def pb_atypes)

lemma ucast_ucast_less: "ucast (d :: u32) < (ucast (v :: u32) + 4 :: u64) \<longleftrightarrow> unat d < unat v + 4"
proof -
  have "unat (ucast v + 4 :: u64) = unat v + 4"
    using unat_less_2p [of v] unat_add_lem [of "ucast v :: u64" 4] by simp
  then show ?thesis by (simp add: word_less_nat_alt)
qed

lemma bytes_safe:
  assumes s: "viewed s" and f: "PB_ATYPE (pf_type f) = PB_ATYPE_STATIC"
  shows "safe (region dest (unat (pf_data_size f))) s st (progress s) (pb_dec_bytes env f dest s st)"
  unfolding pb_dec_bytes_def
proof (rule safe_length_prefixed [OF s], goal_cases)
  case (1 v s' st')
  let ?R = "region dest (unat (pf_data_size f))"
  have st: "unchanged_outside ?R (pb_mem st') (store_size (pb_mem st') dest v)"
    and sub: "region (dest + 4) (unat v) \<subseteq> ?R" if "unat v + 4 \<le> unat (pf_data_size f)"
    using that region_inside [of 4 "unat v" "unat (pf_data_size f)" dest]
    by (auto intro: unchanged_mono [OF unchanged_stores(2) region_mono])
  have "safe ?R s' st' anything (pb_read_to s' (st'\<lparr>pb_mem := store_size (pb_mem st') dest v\<rparr>) (dest + 4) (ucast v))"
    if "unat v + 4 \<le> unat (pf_data_size f)"
    by (rule safe_step [OF within_refl _ _ read_to_safe]) (use st [OF that] sub [OF that] in simp_all)
  then show ?case
    by (auto simp: static_buffer [OF f] Let_def ucast_ucast_less not_less intro!: safe_fail)
qed

lemma string_safe:
  assumes s: "viewed s" and f: "PB_ATYPE (pf_type f) = PB_ATYPE_STATIC"
  shows "safe (region dest (unat (pf_data_size f))) s st (progress s) (pb_dec_string env f dest s st)"
  unfolding pb_dec_string_def
proof (rule safe_length_prefixed [OF s], goal_cases)
  case (1 v s' st')
  let ?R = "region dest (unat (pf_data_size f))"
  show ?case
  proof (cases "(ucast (v + 1) :: u64) < ucast v \<or> (ucast (pf_data_size f) :: u64) < ucast (v + 1)")
    case True
    then show ?thesis by (auto simp: static_buffer [OF f] Let_def intro!: safe_fail)
  next
    case False
    then have "unat v \<le> unat (v + 1)" "unat (v + 1) \<le> unat (pf_data_size f)"
      by (simp_all add: not_less word_le_nat_alt)
    moreover from this have "unat (v + 1) = unat v + 1"
      using unat_plus_if' [of v 1] unat_less_2p [of v] by (auto split: if_splits)
    ultimately have le: "unat v + 1 \<le> unat (pf_data_size f)" by simp
    have read: "safe ?R s' st' anything (pb_read_to s' st' dest (ucast v))"
      by (rule read_to_safe) (use le in \<open>auto intro: region_mono [THEN subsetD, rotated]\<close>)
    then obtain x s2 st2 where r: "pb_read_to s' st' dest (ucast v) = Some (x, (s2, st2))"
      "within s' s2" "unchanged_outside ?R (pb_mem st') (pb_mem st2)" "pb_heap st2 = pb_heap st'"
      by (auto simp: safe_def)
    have "unchanged_outside (region (dest + of_nat (unat v)) 1) (pb_mem st2) (store_bytes (pb_mem st2) (dest + ucast v) [0])"
      using unchanged_store_bytes [of "dest + ucast v" "[0]"] by simp
    then have "unchanged_outside ?R (pb_mem st2) (store_bytes (pb_mem st2) (dest + ucast v) [0])"
      using region_inside [OF le] unchanged_mono by blast
    with r False show ?thesis
      by (auto simp: static_buffer [OF f] Let_def safe_def intro: unchanged_trans)
  qed
qed

lemma fixed_bytes_safe:
  assumes "viewed s"
  shows "safe (region dest (unat (pf_data_size f))) s st (progress s) (pb_dec_fixed_length_bytes f dest s st)"
  unfolding pb_dec_fixed_length_bytes_def
proof (rule safe_length_prefixed [OF assms], goal_cases)
  case (1 v s' st')
  have "safe (region dest (unat (pf_data_size f))) s' st' anything (pb_read_to s' st' dest (ucast (pf_data_size f)))"
    by (rule read_to_safe) simp
  then show ?case by (auto intro!: safe_fail safe_return unchanged_stores)
qed

lemma safe_close:
  assumes s: "viewed s" "pb_make_string_substream s = (Some sub, s1)" and r: "safe R sub st Q r"
  shows "safe R s st (progress s) (close_with s1 r)"
proof -
  from r obtain x sub' st' where r: "r = Some (x, (sub', st'))" "within sub sub'"
    "unchanged_outside R (pb_mem st) (pb_mem st')" "pb_heap st' = pb_heap st"
    by (auto simp: safe_def)
  from substream_within(5) [OF s r(2)] obtain s2 where
    "pb_close_string_substream s1 sub' = (Some (), s2)" "within s s2" "unat (is_bytes_left s2) < unat (is_bytes_left s)"
    by blast
  with r show ?thesis by (simp add: close_with_def reading_def safe_def progress_def)
qed

text \<open>A substream opened, and a run that depends on it.\<close>

lemma safe_substream:
  assumes s: "viewed s"
    and k: "\<And>sub s1. pb_make_string_substream s = (Some sub, s1) \<Longrightarrow> safe R s st Q (k sub (s1, st))"
  shows "safe R s st Q (run_attempt (reading (pb_make_string_substream s) st) k)"
proof (cases "pb_make_string_substream s")
  case (Pair r s1)
  show ?thesis
  proof (cases r)
    case None
    then show ?thesis using Pair substream_fails [of s s1] by (simp add: reading_def safe_def)
  next
    case (Some sub)
    with Pair k show ?thesis by (simp add: reading_def)
  qed
qed

subsection \<open>Iterator states of a decoding run\<close>

text \<open>
  Between two fields the iterator stands at a field, possibly with \<open>pSize\<close> pointing to the local
  count of that field.
\<close>

definition at_field :: "pb_field list \<Rightarrow> u64 \<Rightarrow> nat \<Rightarrow> pb_field_iter \<Rightarrow> bool" where
  "at_field fs dest i iter \<longleftrightarrow> i < length fs \<and>
     (iter = iter_at fs dest i
      \<or> iter = (iter_at fs dest i)\<lparr>it_pSize := Local_size\<rparr> \<and> PB_HTYPE (pf_type (fs ! i)) = PB_HTYPE_REPEATED)"

lemma at_field_sel:
  "at_field fs dest i iter \<Longrightarrow> i < length fs \<and> it_field iter = fs ! i \<and> it_pData iter = dest + data_off fs i
     \<and> it_start iter = fs \<and> it_pos iter = i \<and> it_required_field_index iter = required_before fs i
     \<and> (it_pSize iter = Mem_size (dest + size_off fs i)
        \<or> it_pSize iter = Local_size \<and> PB_HTYPE (pf_type (fs ! i)) = PB_HTYPE_REPEATED)"
  by (auto simp: at_field_def it_field_def field_at_def)

lemma at_field_local:
  "at_field fs dest i iter \<Longrightarrow> PB_HTYPE (pf_type (it_field iter)) = PB_HTYPE_REPEATED
     \<Longrightarrow> at_field fs dest i (iter\<lparr>it_pSize := Local_size\<rparr>)"
  by (auto simp: at_field_def)

lemma at_field_next:
  assumes "at_field fs dest i iter" "tagged_fields fs"
  shows "pb_field_iter_next iter = pb_field_iter_next (iter_at fs dest i)"
proof -
  have "pf_tag (fs ! i) \<noteq> 0" using assms by (auto simp: at_field_def tagged_fields_def)
  then have "pb_field_iter_next ((iter_at fs dest i)\<lparr>it_pSize := Local_size\<rparr>) = pb_field_iter_next (iter_at fs dest i)"
    if "PB_HTYPE (pf_type (fs ! i)) = PB_HTYPE_REPEATED" "i < length fs"
    using that by (simp add: pb_field_iter_next_def Let_def it_field_def field_at_def pb_htypes)
  then show ?thesis using assms by (auto simp: at_field_def)
qed

lemma iterate_same: "body s = body t \<Longrightarrow> iterate body s = iterate body t"
  by (subst (1 2) iterate.simps) simp

definition iter_state :: "pb_field list \<Rightarrow> u64 \<Rightarrow> pb_field_iter \<Rightarrow> bool" where
  "iter_state fs dest iter \<longleftrightarrow> (if fs = [] then iter = iter_at fs dest 0 else \<exists>i. at_field fs dest i iter)"

lemma iter_state_begin: "iter_state fs dest (iter_at fs dest 0)"
  by (auto simp: iter_state_def at_field_def)

lemma iter_state_at: "at_field fs dest i iter \<Longrightarrow> iter_state fs dest iter"
  by (auto simp: iter_state_def at_field_def)

lemma at_field_iter_at: "i < length fs \<Longrightarrow> at_field fs dest i (iter_at fs dest i)"
  by (simp add: at_field_def)

lemma state_find:
  assumes fs: "tagged_fields fs" "dest \<noteq> 0" and i: "iter_state fs dest iter" and tag: "fs \<noteq> [] \<or> tag \<noteq> 0"
  shows "\<exists>found iter'. pb_field_iter_find iter tag = Some (found, iter')
    \<and> (if found then \<exists>j. at_field fs dest j iter' \<and> matches tag (fs ! j)
       else iter_state fs dest iter' \<and> (\<forall>f \<in> set fs. \<not> matches tag f))"
proof (cases "fs = []")
  case True
  with i tag show ?thesis by (intro exI [of _ False]) (simp add: iter_state_def iter_find_empty)
next
  case False
  with i obtain k where k: "at_field fs dest k iter" by (auto simp: iter_state_def)
  note sel = at_field_sel [OF k]
  show ?thesis
  proof (cases "matches tag (fs ! k)")
    case True
    then have "pb_field_iter_find iter tag = Some (True, iter)"
      unfolding pb_field_iter_find_def Let_def
      by (subst iterate.simps) (use sel in \<open>simp add: matches_def\<close>)
    with True k show ?thesis by auto
  next
    case no: False
    have "it_pos iter = it_pos (iter_at fs dest k)" using sel by simp
    then have "pb_field_iter_find iter tag = pb_field_iter_find (iter_at fs dest k) tag"
      unfolding pb_field_iter_find_def Let_def
      by (simp only:, intro iterate_same) (use sel no at_field_next [OF k fs(1)] in \<open>simp add: matches_def Let_def\<close>)
    also have "\<dots> = (case find (\<lambda>j. matches tag (fs ! j)) ([k..<length fs] @ [0..<k]) of
        Some j \<Rightarrow> Some (True, iter_at fs dest j) | None \<Rightarrow> Some (False, iter_at fs dest k))"
      by (rule iter_find [OF fs]) (use sel in simp)
    finally have e: "pb_field_iter_find iter tag = \<dots>" .
    show ?thesis
    proof (cases "find (\<lambda>j. matches tag (fs ! j)) ([k..<length fs] @ [0..<k])")
      case None
      then have "\<not> matches tag (fs ! j)" if "j < length fs" for j
        using that by (cases "j < k") (auto simp: find_None_iff)
      then have "\<forall>f \<in> set fs. \<not> matches tag f" by (metis in_set_conv_nth)
      moreover have "iter_state fs dest (iter_at fs dest k)" using iter_state_at [OF at_field_iter_at] sel by blast
      ultimately show ?thesis using e None by (intro exI [of _ False]) simp
    next
      case (Some j)
      then have "j \<in> set ([k..<length fs] @ [0..<k])" "matches tag (fs ! j)"
        by (auto simp del: set_append simp: find_Some_iff in_set_conv_nth)
      then have "j < length fs \<and> matches tag (fs ! j)" using sel by auto
      with e Some at_field_iter_at [of j fs dest] show ?thesis by (intro exI [of _ True]) auto
    qed
  qed
qed

text \<open>
  In an empty message the search for tag 0 stops at the terminator of the descriptors, whose type is
  that of a required bool.
\<close>

lemma find_terminator: "pb_field_iter_find (iter_at [] dest 0) 0 = Some (True, iter_at [] dest 0)"
  by (simp add: pb_field_iter_find_def Let_def)
    (subst iterate.simps, simp add: it_field_def field_at_def PB_LAST_FIELD_def PB_LTYPE_def PB_LTYPE_EXTENSION_def)

lemma round_find:
  assumes fs: "tagged_fields fs" "dest \<noteq> 0" and i: "iter_state fs dest iter"
  shows "\<exists>found iter'. pb_field_iter_find iter tag = Some (found, iter') \<and> iter_state fs dest iter'
    \<and> (found \<longrightarrow> fs = [] \<and> iter' = iter_at [] dest 0 \<or> (\<exists>j. at_field fs dest j iter'))"
proof (cases "fs = [] \<and> tag = 0")
  case True
  with i find_terminator [of dest] show ?thesis by (intro exI [of _ True]) (simp add: iter_state_def)
next
  case False
  then have "fs \<noteq> [] \<or> tag \<noteq> 0" by blast
  from state_find [OF fs i this] obtain found iter' where "pb_field_iter_find iter tag = Some (found, iter')"
    "if found then \<exists>j. at_field fs dest j iter' \<and> matches tag (fs ! j)
     else iter_state fs dest iter' \<and> (\<forall>f \<in> set fs. \<not> matches tag f)" by blast
  then show ?thesis using iter_state_at by (cases found) auto
qed

lemma state_find_extension:
  assumes fs: "tagged_fields fs" "dest \<noteq> 0" and i: "iter_state fs dest iter"
    and no_ext: "\<forall>f \<in> set fs. PB_LTYPE (pf_type f) \<noteq> PB_LTYPE_EXTENSION"
  shows "\<exists>iter'. find_extension_field iter = Some (False, iter') \<and> iter_state fs dest iter'"
proof (cases "fs = []")
  case True
  with i show ?thesis
    by (simp add: iter_state_def find_extension_field_def)
      (subst iterate.simps, simp add: it_field_def field_at_def PB_LAST_FIELD_def iter_next_empty
        PB_LTYPE_def PB_LTYPE_EXTENSION_def)
next
  case False
  with i obtain k where k: "at_field fs dest k iter" by (auto simp: iter_state_def)
  note sel = at_field_sel [OF k]
  have ext: "PB_LTYPE (pf_type (fs ! j)) \<noteq> PB_LTYPE_EXTENSION" if "j < length fs" for j
    using no_ext that by simp
  have "it_pos iter = it_pos (iter_at fs dest k)" using sel by simp
  then have "find_extension_field iter = find_extension_field (iter_at fs dest k)"
    unfolding find_extension_field_def Let_def
    by (simp only:, intro iterate_same) (use sel ext [of k] at_field_next [OF k fs(1)] in \<open>simp add: Let_def\<close>)
  also have "\<dots> = (case find (\<lambda>j. False) ([k..<length fs] @ [0..<k]) of
        Some j \<Rightarrow> Some (True, iter_at fs dest j) | None \<Rightarrow> Some (False, iter_at fs dest k))"
    unfolding find_extension_field_def Let_def iter_at_sel
    by (rule search_fields [OF fs]) (use sel ext in \<open>simp_all add: Let_def\<close>)
  also have "find (\<lambda>j. False) ([k..<length fs] @ [0..<k]) = None" by (simp add: find_None_iff)
  finally show ?thesis using iter_state_at [OF at_field_iter_at] sel by simp
qed

lemma state_required_count:
  assumes fs: "tagged_fields fs" "dest \<noteq> 0" and i: "iter_state fs dest iter"
  shows "required_field_count iter = Some (length (filter required fs))"
proof (cases "fs = []")
  case True
  with i show ?thesis
    unfolding required_field_count_def
    by (subst iterate.simps) (simp add: iter_state_def iter_next_empty it_field_def field_at_def PB_LAST_FIELD_def
        required_before_def Let_def)
next
  case False
  with i obtain k where k: "at_field fs dest k iter" by (auto simp: iter_state_def)
  define body where "body = (\<lambda>iter.
       let req_field_count = it_required_field_index iter; last_type = pf_type (it_field iter) in
       case pb_field_iter_next iter of (again, iter) \<Rightarrow>
         Some (if again then Inl iter
               else Inr (if PB_HTYPE last_type = PB_HTYPE_REQUIRED \<and> pf_tag (it_field iter) \<noteq> 0
                         then req_field_count + 1 else req_field_count)))"
  have tag0: "pf_tag (fs ! 0) \<noteq> 0" using fs(1) False by (cases fs) (auto simp: tagged_fields_def)
  have all: "length (filter required fs) = required_before fs j + (if required (fs ! j) then 1 else 0)"
    if "j < length fs" "\<not> Suc j < length fs" for j
  proof -
    have "fs = take j fs @ [fs ! j]" using that by (metis less_antisym take_Suc_conv_app_nth take_all_iff not_less)
    then have "length (filter required fs) = length (filter required (take j fs @ [fs ! j]))" by simp
    then show ?thesis by (simp add: required_before_def)
  qed
  have from_j: "iterate body (iter_at fs dest j) = Some (length (filter required fs))" if "j < length fs" for j
    using that
  proof (induction "length fs - j" arbitrary: j)
    case 0
    then show ?case by simp
  next
    case (Suc d)
    have "body (iter_at fs dest j) = (if Suc j < length fs then Some (Inl (iter_at fs dest (Suc j)))
        else Some (Inr (length (filter required fs))))"
      using Suc.prems False tag0 all [OF Suc.prems]
      by (simp add: body_def Let_def iter_next [OF fs Suc.prems] required_def)
    then show ?case using Suc.hyps Suc.prems by (subst iterate.simps) simp
  qed
  have "iterate body iter = iterate body (iter_at fs dest k)"
    by (rule iterate_same) (use at_field_sel [OF k] at_field_next [OF k fs(1)] in \<open>simp add: body_def Let_def split: prod.split\<close>)
  with from_j at_field_sel [OF k] show ?thesis by (simp add: required_field_count_def body_def)
qed

end
