(* ===== verification/Pb_Safe_Decoder.thy ===== *)
theory Pb_Safe_Decoder
  imports Pb_Decode_Safe
begin

text \<open>
  The contract of the decoder of one level of submessages, what the field decoders and the loop of
  \<^verbatim>\<open>pb_decode_noinit\<close> of the level above promise under it, and the decoder of the code as its
  interpretation at every level.
\<close>

lemma initial_value_safe:
  assumes "static_message n env fs sz" "object_at dest sz" "region dest sz \<subseteq> R"
  shows "\<exists>st'. pb_message_set_to_defaults n env fs dest st = Some st'
    \<and> unchanged_outside R (pb_mem st) (pb_mem st') \<and> pb_heap st' = pb_heap st"
  using set_to_default_safe [OF assms(1,2), of st] assms(3)
  unfolding pb_message_set_to_defaults_def by (blast intro: unchanged_mono)

lemma count_inside:
  assumes s: "static_message (Suc n) env fs sz" and d: "object_at dest sz" and k: "at_field fs dest k iter"
    and h: "PB_HTYPE (pf_type (fs ! k)) \<in> {PB_HTYPE_REPEATED, PB_HTYPE_ONEOF}"
  shows "unchanged_outside (region dest sz) (pb_mem st) (pb_mem (write_count st (it_pSize iter) v))
    \<and> pb_heap (write_count st (it_pSize iter) v) = pb_heap st"
proof -
  note sel = at_field_sel [OF k]
  have "field_inside fs sz k" using s sel by simp
  then have "unat (size_off fs k) + 4 \<le> sz" using h by (auto simp: field_inside_def Let_def)
  from unchanged_inside [OF d this unchanged_stores(2)] sel show ?thesis
    by (auto simp: write_count_def)
qed

lemma flag_inside:
  assumes s: "static_message (Suc n) env fs sz" and d: "object_at dest sz" and k: "at_field fs dest k iter"
    and h: "PB_HTYPE (pf_type (fs ! k)) = PB_HTYPE_OPTIONAL" "it_pSize iter \<noteq> Mem_size (it_pData iter)"
  shows "unchanged_outside (region dest sz) (pb_mem st) (pb_mem (write_flag st (it_pSize iter) v))
    \<and> pb_heap (write_flag st (it_pSize iter) v) = pb_heap st"
proof -
  note sel = at_field_sel [OF k]
  have p: "it_pSize iter = Mem_size (dest + size_off fs k)" using sel h(1) by (auto simp: pb_htypes)
  have "field_inside fs sz k" using s sel by simp
  then have "unat (size_off fs k) + 1 \<le> sz" using h p sel by (auto simp: field_inside_def Let_def)
  from unchanged_inside [OF d this unchanged_stores(3)] show ?thesis by (simp add: write_flag_def p)
qed

lemma union_safe:
  assumes s: "static_message (Suc n) env fs sz" and d: "object_at dest sz" and k: "at_field fs dest k iter"
    and h: "PB_HTYPE (pf_type (fs ! k)) = PB_HTYPE_ONEOF"
  shows "safe (region dest sz) s' st (\<lambda>iter s. \<exists>k. at_field fs dest k iter) (pb_release_union_field (Suc n) env s' iter st)"
proof -
  have fs: "tagged_fields fs" "dest \<noteq> 0" using static_tagged [OF s] d by (simp_all add: object_at_def)
  note sel = at_field_sel [OF k]
  define old where "old = read_count st (it_pSize iter)"
  have new: "pf_tag (it_field iter) \<noteq> 0" using sel fs(1) by (auto simp: tagged_fields_def)
  show ?thesis
  proof (cases "old = 0 \<or> old = pf_tag (it_field iter)")
    case True
    with k show ?thesis by (auto simp: pb_release_union_field_def Let_def old_def [symmetric] intro!: safe_return)
  next
    case False
    from state_find [OF fs iter_state_at [OF k] disjI2, of old] False
    obtain found iter1 where f: "pb_field_iter_find iter old = Some (found, iter1)"
      "found \<longrightarrow> (\<exists>j. at_field fs dest j iter1)" by (auto split: if_splits)
    show ?thesis
    proof (cases found)
      case False
      with f \<open>\<not> (old = 0 \<or> _)\<close> show ?thesis
        by (auto simp: pb_release_union_field_def Let_def old_def [symmetric] PB_RETURN_ERROR_def safe_def)
    next
      case True
      then obtain j where j: "at_field fs dest j iter1" using f(2) by blast
      have rel: "pb_release_single_field (Suc n) env iter1 st = Some st" using release_static_field [OF s] at_field_sel [OF j] by blast
      from state_find [OF fs iter_state_at [OF j] disjI2 [OF new]]
      obtain found2 iter2 where g: "pb_field_iter_find iter1 (pf_tag (it_field iter)) = Some (found2, iter2)"
        "found2 \<longrightarrow> (\<exists>i. at_field fs dest i iter2)" by (auto split: if_splits)
      have "PB_ATYPE (pf_type (it_field iter2)) = PB_ATYPE_STATIC" if found2
        using g(2) that at_field_sel static_field(1) [OF s] by fastforce
      then show ?thesis
        using f(1) True g rel False
        by (auto simp: pb_release_union_field_def Let_def old_def [symmetric] PB_RETURN_ERROR_def safe_def pb_atypes
            simp del: pb_release_single_field.simps)
    qed
  qed
qed

lemma safe_return_unit:
  "safe R s st anything r \<Longrightarrow> Q y \<Longrightarrow> safe R s st (\<lambda>y s. Q y) (run_attempt r (\<lambda>_ t. Some (Some y, t)))"
  by (auto simp: safe_def run_attempt_def split: option.splits)

subsection \<open>The interface of a level\<close>

locale safe_decoder =
  fixes n :: nat and env :: "('h, 's) pb_env" and decode :: "('h, 's) message_decoder"
  assumes decode_safe:
    "static_message n env fs sz \<Longrightarrow> object_at dest sz \<Longrightarrow> viewed s
       \<Longrightarrow> safe (region dest sz) s st anything (decode fs dest s st)"
begin

lemma initialized_safe:
  assumes "static_message n env fs sz" "object_at dest sz" "viewed s"
  shows "safe (region dest sz) s st anything (decode_initialized n decode env fs dest s st)"
proof -
  obtain st1 where st1: "pb_message_set_to_defaults n env fs dest st = Some st1"
    "unchanged_outside (region dest sz) (pb_mem st) (pb_mem st1)" "pb_heap st1 = pb_heap st"
    using initial_value_safe [OF assms(1,2) subset_refl] by blast
  from decode_safe [OF assms, of st1] obtain x s' st' where
    r: "decode fs dest s st1 = Some (x, (s', st'))" "within s s'"
    "unchanged_outside (region dest sz) (pb_mem st1) (pb_mem st')" "pb_heap st' = pb_heap st1"
    by (auto simp: safe_def)
  moreover have "pb_release n env fs dest st' = Some st'"
    using assms by (intro release_static) (simp_all add: object_at_def)
  ultimately show ?thesis
    using st1 by (cases x) (auto simp: decode_initialized_def safe_def intro: unchanged_trans)
qed

lemma submessage_safe:
  assumes "pf_ptr f \<noteq> Null_ptr" "static_message n env (submsg_fields env f) sz" "object_at dest sz" "viewed s"
  shows "safe (region dest sz) s st (progress s) (pb_dec_submessage n decode env f dest s st)"
  unfolding pb_dec_submessage_def
proof (rule safe_substream [OF assms(4)], goal_cases)
  case (1 sub s1)
  have v: "viewed sub" by (rule substream_within(3) [OF assms(4) 1])
  show ?case
    using assms(1) safe_close [OF assms(4) 1 initialized_safe [OF assms(2,3) v]]
      safe_close [OF assms(4) 1 decode_safe [OF assms(2,3) v]]
    by simp
qed

lemma item_safe:
  assumes ok: "item_ok (static_message n env) env f" and static: "PB_ATYPE (pf_type f) = PB_ATYPE_STATIC"
    and d: "object_at dest (unat (pf_data_size f))" and s: "viewed s"
  shows "safe (region dest (unat (pf_data_size f))) s st (progress s)
    (PB_DECODERS n decode env (PB_LTYPE (pf_type f)) f dest s st)"
  using ok bool_safe [OF s, of dest st f] varint_safe [OF s, of dest f st] uvarint_safe [OF s, of dest f st]
    svarint_safe [OF s, of dest f st] fixed32_safe [OF s, of dest st f] fixed64_safe [OF s, of dest st f]
    bytes_safe [OF s static, of dest st env] string_safe [OF s static, of dest st env]
    fixed_bytes_safe [OF s, of dest f st] submessage_safe [of f, OF _ _ d s, of st]
  by (auto simp: item_ok_def Let_def PB_DECODERS_def pb_ltypes)

text \<open>The loop over a packed array reads the substream and nothing else.\<close>

lemma packed_safe:
  assumes s: "static_message (Suc n) env fs sz" and d: "object_at dest sz" and k: "at_field fs dest k iter"
    and h: "PB_HTYPE (pf_type (fs ! k)) = PB_HTYPE_REPEATED" and v: "viewed sub"
  shows "safe (region dest sz) sub st anything
    (packed_items (PB_DECODERS n decode env (PB_LTYPE (pf_type (fs ! k)))) iter sub st)"
proof -
  let ?R = "region dest sz" and ?f = "fs ! k"
  note sel = at_field_sel [OF k]
  note st = static_field [OF s, of k]
  define P where "P = (\<lambda>(t :: 's pb_istream, st2 :: 'h pb_store). viewed t \<and> within sub t \<and> unchanged_outside ?R (pb_mem st) (pb_mem st2)
    \<and> pb_heap st2 = pb_heap st)"
  define Q where "Q = (\<lambda>(x :: unit option, t :: 's pb_istream, st2 :: 'h pb_store). within sub t \<and> unchanged_outside ?R (pb_mem st) (pb_mem st2)
    \<and> pb_heap st2 = pb_heap st)"
  define body where "body = (\<lambda>(substream, st).
        let n' = read_count st (it_pSize iter) in
        if is_bytes_left substream \<noteq> 0 \<and> n' < pf_array_size ?f
        then (case PB_DECODERS n decode env (PB_LTYPE (pf_type ?f)) ?f (item_address (it_pData iter) ?f n') substream st of
                None \<Rightarrow> None
              | Some (None, r) \<Rightarrow> Some (Inr (None, r))
              | Some (Some _, (substream, st)) \<Rightarrow>
                  Some (Inl (substream, write_count st (it_pSize iter) (read_count st (it_pSize iter) + 1))))
        else Some (Inr (Some (), (substream, st))))"
  have step: "(\<exists>c'. body c = Some (Inl c') \<and> P c' \<and> unat (is_bytes_left (fst c')) < unat (is_bytes_left (fst c)))
      \<or> (\<exists>r. body c = Some (Inr r) \<and> Q r)" if c: "P c" for c
  proof -
    obtain t st2 where [simp]: "c = (t, st2)" by fastforce
    let ?i = "read_count st2 (it_pSize iter)"
    have t: "viewed t" "within sub t" "unchanged_outside ?R (pb_mem st) (pb_mem st2)" "pb_heap st2 = pb_heap st"
      using c by (simp_all add: P_def)
    show ?thesis
    proof (cases "is_bytes_left t \<noteq> 0 \<and> ?i < pf_array_size ?f")
      case False
      then have "body c = Some (Inr (Some (), (t, st2)))" by (auto simp: body_def Let_def)
      then show ?thesis using t by (auto simp: Q_def)
    next
      case True
      have pD: "it_pData iter = dest + data_off fs k" and kl: "k < length fs" using sel by simp_all
      note pl = packed_places [OF s d kl h True [THEN conjunct2]]
      have "safe ?R t st2 (progress t) (PB_DECODERS n decode env (PB_LTYPE (pf_type ?f)) ?f
          (item_address (it_pData iter) ?f ?i) t st2)"
        unfolding pD by (rule safe_mono [OF item_safe [OF st(2,1) pl(1) t(1)] pl(2)]) (simp_all add: kl)
      then obtain x t' st3 where r: "PB_DECODERS n decode env (PB_LTYPE (pf_type ?f)) ?f
          (item_address (it_pData iter) ?f ?i) t st2 = Some (x, (t', st3))" "within t t'"
        "unchanged_outside ?R (pb_mem st2) (pb_mem st3)" "pb_heap st3 = pb_heap st2"
        "x \<noteq> None \<Longrightarrow> unat (is_bytes_left t') < unat (is_bytes_left t)"
        by (fastforce simp: safe_def progress_def)
      have w: "viewed t'" "within sub t'" using within_viewed [OF t(1) r(2)] within_trans [OF t(2) r(2)] by simp_all
      have u: "unchanged_outside ?R (pb_mem st) (pb_mem st3)" by (rule unchanged_trans [OF t(3) r(3)])
      note cnt = count_inside [OF s d k, of st3 "read_count st3 (it_pSize iter) + 1"]
      have u': "unchanged_outside ?R (pb_mem st) (pb_mem (write_count st3 (it_pSize iter) (read_count st3 (it_pSize iter) + 1)))"
        using cnt h by (intro unchanged_trans [OF u]) simp
      show ?thesis
        using True r w u u' t(4) cnt h by (cases x) (simp_all add: body_def P_def Q_def Let_def)
    qed
  qed
  have "P (sub, st)" using v by (simp add: P_def)
  from iterate_rule [where P = P and Q = Q and body = body and m = "\<lambda>c. unat (is_bytes_left (fst c))", OF this step]
  obtain r where "iterate body (sub, st) = Some r" "Q r" by blast
  moreover have "packed_items (PB_DECODERS n decode env (PB_LTYPE (pf_type ?f))) iter sub st = iterate body (sub, st)"
    using sel by (simp add: packed_items_def body_def Let_def)
  ultimately show ?thesis by (auto simp: safe_def Q_def)
qed

lemma packed_field_safe:
  assumes s: "static_message (Suc n) env fs sz" and d: "object_at dest sz" and k: "at_field fs dest k iter"
    and h: "PB_HTYPE (pf_type (fs ! k)) = PB_HTYPE_REPEATED" and v: "viewed t"
  shows "safe (region dest sz) t st anything
    (run_attempt (reading (pb_make_string_substream t) st) (\<lambda>substream (s, st).
       case packed_items (PB_DECODERS n decode env (PB_LTYPE (pf_type (fs ! k)))) iter substream st of
         None \<Rightarrow> None
       | Some (status, (substream, st)) \<Rightarrow>
           if is_bytes_left substream \<noteq> 0 then fail_with (abandon s substream) st ''array overflow''
           else close_with s (Some (status, (substream, st)))))"
proof (rule safe_substream [OF v], goal_cases)
  case (1 sub s1)
  note sub = substream_within [OF v 1]
  have p: "safe (region dest sz) sub st anything
      (packed_items (PB_DECODERS n decode env (PB_LTYPE (pf_type (fs ! k)))) iter sub st)"
    by (rule packed_safe [OF s d k h sub(3)])
  then obtain x sub' st' where
    r: "packed_items (PB_DECODERS n decode env (PB_LTYPE (pf_type (fs ! k)))) iter sub st = Some (x, (sub', st'))"
    "within sub sub'" "unchanged_outside (region dest sz) (pb_mem st) (pb_mem st')" "pb_heap st' = pb_heap st"
    by (auto simp: safe_def)
  have "safe (region dest sz) t st anything (close_with s1 (Some (x, (sub', st'))))"
    using safe_close [OF v 1 p] r(1) by (auto elim: safe_mono)
  then show ?case using r sub(4) by (auto intro!: safe_fail)
qed

lemma static_field_safe:
  assumes s: "static_message (Suc n) env fs sz" and d: "object_at dest sz" and k: "at_field fs dest k iter"
    and v: "viewed t"
  shows "safe (region dest sz) t st anything (decode_static_field n decode env wt iter t st)"
proof -
  let ?R = "region dest sz" and ?f = "fs ! k"
  have kl: "k < length fs" and f: "it_field iter = ?f" and pD: "it_pData iter = dest + data_off fs k"
    using at_field_sel [OF k] by simp_all
  note st = static_field [OF s kl]
  let ?func = "PB_DECODERS n decode env (PB_LTYPE (pf_type ?f)) ?f"
  have single: "safe ?R t st2 anything (?func (dest + data_off fs k) t st2)"
    if "PB_HTYPE (pf_type ?f) \<noteq> PB_HTYPE_REPEATED" for st2
    by (rule safe_mono [OF item_safe [OF st(2,1) _ v]]) (use single_place [OF s d kl that] in simp_all)
  have flag: "safe ?R t st anything (?func (dest + data_off fs k) t (write_flag st (it_pSize iter) True))"
    if "PB_HTYPE (pf_type ?f) = PB_HTYPE_OPTIONAL" "it_pSize iter \<noteq> Mem_size (it_pData iter)"
    by (rule safe_step [OF within_refl _ _ single]) (use flag_inside [OF s d k that, of st True] that(1) in \<open>simp_all add: pb_htypes\<close>)
  have item: "safe ?R t st anything (let n' = read_count st (it_pSize iter); st = write_count st (it_pSize iter) (n' + 1)
          in if pf_array_size ?f \<le> n' then fail_with t st ''array overflow''
             else ?func (item_address (dest + data_off fs k) ?f n') t st)"
    if h: "PB_HTYPE (pf_type ?f) = PB_HTYPE_REPEATED"
  proof (cases "pf_array_size ?f \<le> read_count st (it_pSize iter)")
    case True
    with count_inside [OF s d k, of st] h show ?thesis by (simp add: Let_def safe_fail)
  next
    case False
    then have less: "read_count st (it_pSize iter) < pf_array_size ?f" by simp
    note pl = packed_places [OF s d kl h less]
    have "safe ?R t st2 anything (?func (item_address (dest + data_off fs k) ?f (read_count st (it_pSize iter))) t st2)" for st2
      by (rule safe_mono [OF item_safe [OF st(2,1) pl(1) v] pl(2)]) simp
    note last = safe_step [OF within_refl _ _ this]
    show ?thesis
      unfolding Let_def if_not_P [OF False] by (rule last) (use count_inside [OF s d k, of st] h in simp_all)
  qed
  have oneof: "safe ?R t st anything (Option.bind
          (if PB_LTYPE (pf_type ?f) = PB_LTYPE_SUBMESSAGE \<and> read_count st (it_pSize iter) \<noteq> pf_tag ?f
           then pb_message_set_to_defaults n env (submsg_fields env ?f) (dest + data_off fs k)
                  (st\<lparr>pb_mem := zero_bytes (pb_mem st) (dest + data_off fs k) (unat (pf_data_size ?f))\<rparr>)
           else Some st)
          (\<lambda>st. ?func (dest + data_off fs k) t (write_count st (it_pSize iter) (pf_tag ?f))))"
    if h: "PB_HTYPE (pf_type ?f) = PB_HTYPE_ONEOF"
  proof -
    have nr: "PB_HTYPE (pf_type ?f) \<noteq> PB_HTYPE_REPEATED" using h by (simp add: pb_htypes)
    note pl = single_place [OF s d kl nr]
    have last: "safe ?R t st2 anything (?func (dest + data_off fs k) t (write_count st2 (it_pSize iter) (pf_tag ?f)))" for st2
      by (rule safe_step [OF within_refl _ _ single [OF nr]]) (use count_inside [OF s d k, of st2] h in simp_all)
    define z where "z = st\<lparr>pb_mem := zero_bytes (pb_mem st) (dest + data_off fs k) (unat (pf_data_size ?f))\<rparr>"
    have z: "unchanged_outside ?R (pb_mem st) (pb_mem z)" "pb_heap z = pb_heap st"
      using unchanged_mono [OF unchanged_stores(4) pl(2)] by (simp_all add: z_def)
    have sub: "\<exists>st2. pb_message_set_to_defaults n env (submsg_fields env ?f) (dest + data_off fs k) z = Some st2
        \<and> unchanged_outside ?R (pb_mem z) (pb_mem st2) \<and> pb_heap st2 = pb_heap z"
      if "PB_LTYPE (pf_type ?f) = PB_LTYPE_SUBMESSAGE"
      by (rule initial_value_safe [OF static_submessage [OF s kl that] pl])
    show ?thesis
    proof (cases "PB_LTYPE (pf_type ?f) = PB_LTYPE_SUBMESSAGE \<and> read_count st (it_pSize iter) \<noteq> pf_tag ?f")
      case True
      from sub [OF True [THEN conjunct1]] obtain st2 where st2:
        "pb_message_set_to_defaults n env (submsg_fields env ?f) (dest + data_off fs k) z = Some st2"
        "unchanged_outside ?R (pb_mem z) (pb_mem st2)" "pb_heap st2 = pb_heap z" by blast
      show ?thesis
        unfolding z_def [symmetric] if_P [OF True] st2(1) Option.bind.bind_lunit
        by (rule safe_step [OF within_refl unchanged_trans [OF z(1) st2(2)] _ last]) (simp add: st2(3) z(2))
    next
      case False
      show ?thesis unfolding if_not_P [OF False] Option.bind.bind_lunit by (rule last)
    qed
  qed
  show ?thesis
  proof (cases rule: htype_cases [of "pf_type ?f"])
    case Required
    then show ?thesis using single [of st] by (simp add: decode_static_field_def Let_def f pD pb_htypes)
  next
    case Optional
    then show ?thesis
      using single [of st] flag by (auto simp: decode_static_field_def Let_def f pD pb_htypes)
  next
    case Repeated
    then show ?thesis
      using item packed_field_safe [OF s d k Repeated v, of st]
      by (simp add: decode_static_field_def Let_def f pD pb_htypes)
  next
    case Oneof
    from oneof [OF Oneof] show ?thesis
      unfolding decode_static_field_def Let_def f pD by (simp only: Oneof) (simp add: pb_htypes)
  qed
qed

lemma field_safe:
  assumes s: "static_message (Suc n) env fs sz" and d: "object_at dest sz" and k: "at_field fs dest k iter"
    and v: "viewed t"
  shows "safe (region dest sz) t st (\<lambda>iter s. \<exists>k. at_field fs dest k iter) (decode_field n decode env wt iter t st)"
proof -
  let ?R = "region dest sz" and ?Q = "\<lambda>iter s. \<exists>k. at_field fs dest k iter"
  have kl: "k < length fs" and f: "it_field iter = fs ! k" using at_field_sel [OF k] by simp_all
  show ?thesis
    unfolding decode_field_def
  proof (rule safe_attempt [where Q = ?Q])
    show "safe ?R t st ?Q (if PB_HTYPE (pf_type (it_field iter)) = PB_HTYPE_ONEOF
        then pb_release_union_field (Suc n) env t iter st else Some (Some iter, (t, st)))"
      using union_safe [OF s d k] k f by (auto intro!: safe_return simp del: pb_release_union_field_def)
  next
    fix iter' t' st'
    assume "within t t'" and "\<exists>k. at_field fs dest k iter'"
    then obtain j where j: "at_field fs dest j iter'" and v': "viewed t'" using within_viewed [OF v] by blast
    have static: "PB_ATYPE (pf_type (it_field iter')) = PB_ATYPE_STATIC"
      using at_field_sel [OF j] static_field(1) [OF s, of j] by simp
    have "safe ?R t' st' ?Q (run_attempt (decode_static_field n decode env wt iter' t' st') (\<lambda>_ r. Some (Some iter', r)))"
      by (rule safe_return_unit [OF static_field_safe [OF s d j v']]) (use j in blast)
    then show "safe ?R t' st' ?Q ((\<lambda>iter (s, st). let atype = PB_ATYPE (pf_type (it_field iter)) in
          run_attempt
            (if atype = PB_ATYPE_STATIC then decode_static_field n decode env wt iter s st
             else if atype = PB_ATYPE_POINTER then decode_pointer_field n decode env wt iter s st
             else if atype = PB_ATYPE_CALLBACK then decode_callback_field env wt iter s st
             else fail_with s st ''invalid field type'')
            (\<lambda>_ r. Some (Some iter, r))) iter' (t', st'))"
      by (simp add: static)
  qed
qed

subsection \<open>The loop over the fields received\<close>

lemma skip_safe: "Q l \<Longrightarrow> safe R t st (\<lambda>l s. Q l) (run_attempt (reading (pb_skip_field t wt) st) (\<lambda>_ r. Some (Some l, r)))"
  by (rule safe_return_unit) (auto intro: safe_reading reader_skip_field)

lemma unknown_safe:
  assumes s: "static_message (Suc n) env fs sz" and d: "object_at dest sz" and l: "iter_state fs dest (dl_iter l)"
    and tag: "tag < 2 ^ 29"
  shows "safe (region dest sz) t st (\<lambda>l s. iter_state fs dest (dl_iter l)) (decode_unknown n decode env tag wt l t st)"
proof -
  have fs: "tagged_fields fs" "dest \<noteq> 0" using static_tagged [OF s] d by (simp_all add: object_at_def)
  have "\<forall>f \<in> set fs. PB_LTYPE (pf_type f) \<noteq> PB_LTYPE_EXTENSION"
    using static_field(2) [OF s] by (fastforce simp: in_set_conv_nth item_ok_def Let_def pb_ltypes)
  from state_find_extension [OF fs l this] obtain iter where
    i: "find_extension_field (dl_iter l) = Some (False, iter)" "iter_state fs dest iter" by blast
  have "tag < - 1" by (rule less_le_trans [OF tag]) simp
  then show ?thesis using i l by (simp add: decode_unknown_def Let_def skip_safe)
qed

lemma known_safe:
  assumes s: "static_message (Suc n) env fs sz" and d: "object_at dest sz" and v: "viewed t"
    and l: "fs = [] \<and> dl_iter l = iter_at [] dest 0 \<or> (\<exists>k. at_field fs dest k (dl_iter l))"
  shows "safe (region dest sz) t st (\<lambda>l s. iter_state fs dest (dl_iter l)) (decode_known n decode env wt l t st)"
  using l
proof
  assume e: "fs = [] \<and> dl_iter l = iter_at [] dest 0"
  then have f: "it_field (iter_at fs dest 0) = PB_LAST_FIELD" by (simp add: it_field_def field_at_def)
  have "region dest 1 \<subseteq> region dest sz" using s e by (intro region_mono) simp
  then have "safe (region dest sz) t st anything (pb_dec_bool PB_LAST_FIELD dest t st)"
    by (rule safe_mono [OF bool_safe [OF v]]) simp
  note bool = safe_return_unit [OF this, where Q = "\<lambda>iter. iter = iter_at [] dest 0"]
  have "decode_field n decode env wt (iter_at [] dest 0) t st
      = run_attempt (pb_dec_bool PB_LAST_FIELD dest t st) (\<lambda>_ r. Some (Some (iter_at [] dest 0), r))"
    using e f by (simp add: decode_field_def decode_static_field_def PB_DECODERS_def PB_LAST_FIELD_def PB_HTYPE_def PB_ATYPE_def
        PB_LTYPE_def pb_htypes pb_atypes pb_ltypes field_at_def)
  then have "safe (region dest sz) t st (\<lambda>iter s. iter = iter_at [] dest 0)
      (decode_field n decode env wt (iter_at [] dest 0) t st)" using bool by simp
  then show ?thesis
    using e f iter_state_begin [of fs dest]
    by (auto simp: decode_known_def Let_def PB_LAST_FIELD_def PB_HTYPE_def pb_htypes intro!: safe_attempt intro: safe_return)
next
  assume "\<exists>k. at_field fs dest k (dl_iter l)"
  then obtain k where k: "at_field fs dest k (dl_iter l)" ..
  then have k': "at_field fs dest k (if PB_HTYPE (pf_type (it_field (dl_iter l))) = PB_HTYPE_REPEATED \<and> c
      then (dl_iter l)\<lparr>it_pSize := Local_size\<rparr> else dl_iter l)" for c
    using at_field_local [OF k] by simp
  have "safe (region dest sz) t st2 (\<lambda>l s. iter_state fs dest (dl_iter l))
      (run_attempt (decode_field n decode env wt iter t st2) (\<lambda>iter r. Some (Some (l'\<lparr>dl_iter := iter\<rparr>), r)))"
    if "at_field fs dest k iter" for iter st2 l'
    by (rule safe_attempt [OF field_safe [OF s d that v]]) (auto intro!: safe_return iter_state_at)
  note field = this [OF k']
  let ?iter = "dl_iter l"
  define new_field where "new_field \<longleftrightarrow> (PB_HTYPE (pf_type (it_field ?iter)) = PB_HTYPE_REPEATED
    \<and> it_pSize ?iter = Mem_size (it_pData ?iter)) \<and> fixed_count_field l \<noteq> Some (it_pos ?iter)"
  show ?thesis
  proof (cases "new_field \<and> wrong_fixed_count l st")
    case True
    show ?thesis
      unfolding decode_known_def Let_def new_field_def [symmetric] if_P [OF True] by (rule safe_fail) simp_all
  next
    case False
    show ?thesis
      unfolding decode_known_def Let_def new_field_def [symmetric] if_not_P [OF False]
      by (rule safe_step [OF within_refl _ _ field]) simp_all
  qed
qed

lemma message_safe:
  assumes s: "static_message (Suc n) env fs sz" and d: "object_at dest sz" and v: "viewed t"
  shows "safe (region dest sz) t st anything (decode_message n decode env fs dest t st)"
proof -
  let ?R = "region dest sz"
  have fs: "tagged_fields fs" "dest \<noteq> 0" using static_tagged [OF s] d by (simp_all add: object_at_def)
  define ok where "ok l = iter_state fs dest (dl_iter l)" for l :: decode_locals
  define P where "P = (\<lambda>(l, t' :: 's pb_istream, st' :: 'h pb_store). ok l \<and> viewed t' \<and> within t t' \<and> unchanged_outside ?R (pb_mem st) (pb_mem st')
    \<and> pb_heap st' = pb_heap st)"
  define Q where "Q r \<longleftrightarrow> safe ?R t st (\<lambda>l s. ok l) (Some r)" for r :: "(decode_locals, 's pb_istream \<times> 'h pb_store) outcome"
  have step: "(\<exists>c'. decode_round n decode env c = Some (Inl c') \<and> P c'
        \<and> unat (is_bytes_left (fst (snd c'))) < unat (is_bytes_left (fst (snd c))))
      \<or> (\<exists>r. decode_round n decode env c = Some (Inr r) \<and> Q r)" if c: "P c" for c
  proof -
    obtain l t1 st1 where [simp]: "c = (l, t1, st1)" by (metis prod_cases3)
    have l: "ok l" "viewed t1" "within t t1" "unchanged_outside ?R (pb_mem st) (pb_mem st1)" "pb_heap st1 = pb_heap st"
      using c by (simp_all add: P_def)
    show ?thesis
    proof (cases "is_bytes_left t1 = 0")
      case True
      with l show ?thesis by (simp add: decode_round_def Q_def safe_return)
    next
      case more: False
      obtain w e t2 where tg: "pb_decode_tag t1 = (w, e, t2)" by (metis prod_cases3)
      have w2: "within t1 t2" by (rule within_reads [OF reader_tag [OF tg]])
      show ?thesis
      proof (cases w)
        case None
        with l more tg within_trans [OF l(3) w2] show ?thesis
          by (simp add: decode_round_def Q_def safe_def)
      next
        case (Some wtag)
        obtain wt tag where wt: "wtag = (wt, tag)" by fastforce
        note pr = tag_progress [OF l(2) tg [unfolded Some wt]]
        have v2: "viewed t2" using within_viewed [OF l(2) w2] by simp
        from round_find [OF fs l(1) [unfolded ok_def], of tag] obtain found iter where
          f: "pb_field_iter_find (dl_iter l) tag = Some (found, iter)" "iter_state fs dest iter"
          "found \<Longrightarrow> fs = [] \<and> iter = iter_at [] dest 0 \<or> (\<exists>j. at_field fs dest j iter)" by blast
        define r where "r = (if found then decode_known n decode env wt (l\<lparr>dl_iter := iter\<rparr>) t2 st1
          else decode_unknown n decode env tag wt (l\<lparr>dl_iter := iter\<rparr>) t2 st1)"
        have "safe ?R t2 st1 (\<lambda>l s. ok l) r"
        proof (cases found)
          case True
          show ?thesis
            unfolding r_def ok_def if_P [OF True] by (rule known_safe [OF s d v2]) (use f(3) True in simp)
        next
          case False
          show ?thesis
            unfolding r_def ok_def if_not_P [OF False] by (rule unknown_safe [OF s d]) (use f(2) pr in simp_all)
        qed
        then obtain x t3 st3 where r: "r = Some (x, (t3, st3))" "within t2 t3"
          "unchanged_outside ?R (pb_mem st1) (pb_mem st3)" "pb_heap st3 = pb_heap st1" "\<And>l. x = Some l \<Longrightarrow> ok l"
          by (auto simp: safe_def)
        have "decode_round n decode env c = (case x of None \<Rightarrow> Some (Inr (None, (t3, st3))) | Some l \<Rightarrow> Some (Inl (l, t3, st3)))"
          using more tg Some wt f(1) r(1) [unfolded r_def] by (simp add: decode_round_def split: option.split)
        moreover have "within t t3" by (rule within_trans [OF l(3) within_trans [OF w2 r(2)]])
        moreover have "unchanged_outside ?R (pb_mem st) (pb_mem st3)" by (rule unchanged_trans [OF l(4) r(3)])
        ultimately show ?thesis
          using r(4,5) l(5) pr within_viewed [OF v2 r(2)] by (cases x) (auto simp: P_def Q_def safe_def)
      qed
    qed
  qed
  define start where "start = \<lparr>dl_iter = snd (pb_field_iter_begin fs dest), fields_seen = [0, 0 :: u32],
    extension_range_start = 0, fixed_count_field = None\<rparr>"
  have "P (start, t, st)"
    using v by (simp add: P_def ok_def start_def iter_begin [OF fs] iter_state_begin)
  from iterate_rule [where P = P and Q = Q and m = "\<lambda>c. unat (is_bytes_left (fst (snd c)))", OF this step]
  obtain r where "iterate (decode_round n decode env) (start, t, st) = Some r" "Q r" by blast
  then have loop: "safe ?R t st (\<lambda>l s. ok l) (iterate (decode_round n decode env) (start, t, st))" by (simp add: Q_def)
  show ?thesis
    unfolding decode_message_def start_def [symmetric]
  proof (rule safe_attempt [OF loop])
    fix l s' st'
    assume "ok l"
    then have "required_field_count (dl_iter l) = Some (length (filter required fs))"
      unfolding ok_def by (rule state_required_count [OF fs])
    then show "safe ?R s' st' anything ((\<lambda>(s, st).
          if wrong_fixed_count l st then fail_with s st ''wrong size for fixed count field''
          else Option.bind (required_field_count (dl_iter l)) (\<lambda>req_field_count.
            if required_fields_seen req_field_count (fields_seen l) then Some (Some (), (s, st))
            else fail_with s st ''missing required field'')) (s', st'))"
      by (auto intro: safe_fail safe_return)
  qed
qed

end

subsection \<open>The decoder of the code\<close>

text \<open>With no stack left there is no result, and no message: every nested level is an interpretation.\<close>

interpretation noinit: safe_decoder n env "pb_decode_noinit n env" for n and env :: "('h, 's) pb_env"
proof (induction n)
  case 0
  show ?case by unfold_locales simp
next
  case (Suc n)
  show ?case
  proof unfold_locales
    fix fs :: "pb_field list" and sz dest and s :: "'s pb_istream" and st :: "'h pb_store"
    assume a: "static_message (Suc n) env fs sz" "object_at dest sz" "viewed s"
    from safe_decoder.message_safe [OF Suc a, of "st\<lparr>fixed_count_size := 0\<rparr>"]
    show "safe (region dest sz) s st anything (pb_decode_noinit (Suc n) env fs dest s st)"
      by (auto simp: safe_def)
  qed
qed

end
