(* ===== verification/Pb_Message_Props.thy ===== *)
theory Pb_Message_Props
  imports Pb_Safe_Decoder
begin

text \<open>What the message decoder promises of static messages, for any bytes received.\<close>

lemma from_buffer_viewed: "length bs < 2 ^ 64 \<Longrightarrow> viewed (pb_istream_from_buffer bs (of_nat (length bs)))"
  by (simp add: viewed_def pb_istream_from_buffer_def unat_of_nat_u64)

lemma within_from_buffer:
  assumes "length bs < 2 ^ 64" "within (pb_istream_from_buffer bs (of_nat (length bs))) s'"
  shows "\<not> is_oob s' \<and> (\<exists>k. k + unat (is_bytes_left s') \<le> length bs \<and> is_source s' = In_buf (drop k bs))"
  using assms by (auto simp: within_def pb_istream_from_buffer_def unat_of_nat_u64)

text \<open>
  An example: an optional \<^verbatim>\<open>uint32\<close> with its flag, and a repeated submessage of at most two items
  that is the same message without the submessage.
\<close>

definition leaf_field :: pb_field where
  "leaf_field = \<lparr>pf_tag = 1, pf_type = PB_HTYPE_OPTIONAL OR PB_LTYPE_UVARINT, pf_data_offset = 4,
     pf_size_offset = - 4, pf_data_size = 4, pf_array_size = 0, pf_ptr = Null_ptr\<rparr>"

definition branch_field :: pb_field where
  "branch_field = \<lparr>pf_tag = 2, pf_type = PB_HTYPE_REPEATED OR PB_LTYPE_SUBMESSAGE, pf_data_offset = 4,
     pf_size_offset = - 4, pf_data_size = 8, pf_array_size = 2, pf_ptr = Fields_ptr 0\<rparr>"

definition leaf_fields :: "pb_field list" where "leaf_fields = [leaf_field]"
definition tree_fields :: "pb_field list" where "tree_fields = [leaf_field, branch_field]"

text \<open>Its environment: no callbacks, and an allocator that has no memory to give.\<close>

definition example_env :: "(unit, unit) pb_env" where
  "example_env =
     \<lparr>env_fields = (\<lambda>_. leaf_fields),
      env_extension_type = (\<lambda>_. \<lparr>et_decode = None, et_encode = None, et_arg = PB_LAST_FIELD\<rparr>),
      env_decode = (\<lambda>_ s _ _ st. (None, (s, st))), env_encode = (\<lambda>_ s _ _ _. (None, s)),
      pb_realloc = (\<lambda>_ _ st. (None, st)), pb_free = (\<lambda>_ st. st)\<rparr>"

lemmas example_layout = tree_fields_def leaf_fields_def leaf_field_def branch_field_def item_ok_def field_inside_def field_items_def
  field_bytes_in_struct_def in_union_def field_at_def submsg_fields_def
  PB_HTYPE_def PB_LTYPE_def PB_ATYPE_def pb_htypes pb_ltypes pb_atypes PB_LAST_FIELD_def Let_def

lemma leaf_static: "static_message (Suc n) env leaf_fields 8"
  by (simp add: example_layout)

lemma tree_static: "static_message (Suc (Suc n)) example_env tree_fields 28"
  using leaf_static [of n example_env] by (simp add: example_layout All_less_Suc del: static_message.simps(2))
    (subst static_message.simps, simp add: example_layout example_env_def All_less_Suc del: static_message.simps(2))

lemma tree_static_2: "static_message 2 example_env tree_fields 28"
  unfolding numeral_2_eq_2 by (rule tree_static)

lemma tree_at: "object_at 0x1000 28"
  by (simp add: object_at_def)

text \<open>
  C3: Decoding never gets stuck.  For a static message whose submessages nest at most \<open>n\<close> deep, and for
  any bytes whatever, \<open>pb_decode\<close> with stack for \<open>n\<close> nested calls returns: no loop of the decoder
  runs forever, no field type without a decoder is reached, and no call nests deeper.
\<close>

theorem pb_decode_returns:
  assumes "static_message n env fs sz" "object_at dest sz" "length bytes < 2 ^ 64"
  shows "\<exists>status s' st'. pb_decode n env fs dest (pb_istream_from_buffer bytes (of_nat (length bytes))) st
    = Some (status, (s', st'))"
  using noinit.initialized_safe [OF assms(1,2) from_buffer_viewed [OF assms(3)], of st]
  unfolding pb_decode_def safe_def by blast

theorem pb_decode_returns_witness:
  "\<forall>st. \<exists>status s' st'.
     pb_decode 2 example_env tree_fields 0x1000 (pb_istream_from_buffer [0x12, 0x7F, 0x08] (of_nat 3)) st
       = Some (status, (s', st' :: unit pb_store))"
proof
  fix st :: "unit pb_store"
  show "\<exists>status s' st'. pb_decode 2 example_env tree_fields 0x1000 (pb_istream_from_buffer [0x12, 0x7F, 0x08] (of_nat 3)) st
      = Some (status, (s', st'))"
    using pb_decode_returns [OF tree_static_2 tree_at, of "[0x12, 0x7F, 0x08]" st] by (simp add: numeral_3_eq_3)
qed

text \<open>
  C4: Decoding a static message from any bytes is memory safe.  Whatever the bytes are and whether it
  succeeds or fails, \<open>pb_decode\<close> changes no byte outside the structure, does not use the allocator, reads
  no byte beyond the buffer and leaves the stream at a suffix of it.
\<close>

theorem pb_decode_confined:
  assumes "static_message n env fs sz" "object_at dest sz" "length bytes < 2 ^ 64"
    and "pb_decode n env fs dest (pb_istream_from_buffer bytes (of_nat (length bytes))) st = Some (status, (s', st'))"
  shows "(\<forall>a. a \<notin> region dest sz \<longrightarrow> pb_mem st' a = pb_mem st a) \<and> pb_heap st' = pb_heap st \<and> \<not> is_oob s'
    \<and> (\<exists>k. k + unat (is_bytes_left s') \<le> length bytes \<and> is_source s' = In_buf (drop k bytes))"
  using noinit.initialized_safe [OF assms(1,2) from_buffer_viewed [OF assms(3)], of st] assms(4)
    within_from_buffer [OF assms(3), of s']
  by (simp add: pb_decode_def safe_def unchanged_outside_def)

theorem pb_decode_confined_witness:
  "\<forall>st. \<exists>status s' st'.
     pb_decode 2 example_env tree_fields 0x1000 (pb_istream_from_buffer [0x12, 0x7F, 0x08] (of_nat 3)) st
       = Some (status, (s', st' :: unit pb_store))
     \<and> unchanged_outside (region 0x1000 28) (pb_mem st) (pb_mem st')"
proof
  fix st :: "unit pb_store"
  let ?b = "[0x12, 0x7F, 0x08] :: u8 list" let ?s = "pb_istream_from_buffer ?b (of_nat 3) :: unit pb_istream"
  have b: "length ?b < 2 ^ 64" and l: "of_nat (length ?b) = (of_nat 3 :: u64)" by simp_all
  obtain status s' st' where r: "pb_decode 2 example_env tree_fields 0x1000 ?s st = Some (status, (s', st'))"
    using noinit.initialized_safe [OF tree_static_2 tree_at from_buffer_viewed [OF b], of st]
    unfolding pb_decode_def safe_def l by blast
  from pb_decode_confined [OF tree_static_2 tree_at b, unfolded l, OF r]
  show "\<exists>status s' st'. pb_decode 2 example_env tree_fields 0x1000 ?s st = Some (status, (s', st'))
      \<and> unchanged_outside (region 0x1000 28) (pb_mem st) (pb_mem st')"
    using r by (auto simp: unchanged_outside_def)
qed

text \<open>
  Releasing a static message after use, or after a decoding that failed, is always possible and
  changes nothing: such a message owns no memory, at any depth of its submessages.
\<close>

theorem pb_release_static:
  assumes "static_message n env fs sz"
  shows "pb_release n env fs dest st = Some st"
  using release_static [OF assms] by (cases "dest = 0") (simp_all add: pb_release_def)

theorem pb_release_static_witness:
  "\<forall>st :: unit pb_store. pb_release 2 example_env tree_fields 0x1000 st = Some st"
  using pb_release_static [OF tree_static_2] by simp

subsection \<open>Two surprises\<close>

lemma zero_tag: "pb_decode_tag (pb_istream_from_buffer [0x01, 0x01] 2 :: 's pb_istream) = (Some (1, 0), False, (pb_istream_from_buffer [0x01] 1))"
  by (simp add: pb_decode_tag_def pb_decode_varint32_eof_def pb_readbyte_def pb_istream_from_buffer_def is_call_def buf_read_def byte_at_def)
lemma one_varint: "pb_decode_varint32 (pb_istream_from_buffer [0x01] 1 :: 's pb_istream) = (Some 1, (pb_istream_from_buffer [] 0))"
  by (simp add: pb_decode_varint32_def pb_decode_varint32_eof_def pb_readbyte_def pb_istream_from_buffer_def is_call_def buf_read_def byte_at_def)

text \<open>
  An empty message that receives a field with the number 0 (bytes 1 to 7) stores a \<^verbatim>\<open>bool\<close> in its first
  byte: the search for tag 0 finds the terminator of the descriptors.
\<close>

lemma empty_message_stores:
  fixes st :: "'h pb_store"
  assumes "dest \<noteq> 0"
  shows "pb_decode (Suc n) env [] dest (pb_istream_from_buffer [0x01, 0x01] 2) st
    = Some (Some (), (pb_istream_from_buffer [] 0, st\<lparr>pb_mem := store_bool (pb_mem st) dest True\<rparr>))"
proof -
  have fs: "tagged_fields []" by (simp add: tagged_fields_def)
  let ?dec = "pb_decode_noinit n env"
  have lastf: "it_field (iter_at [] dest 0) = PB_LAST_FIELD" by (simp add: it_field_def field_at_def)
  have dec: "decode_field n ?dec env 1 (iter_at [] dest 0) (pb_istream_from_buffer [0x01] 1) st'
    = Some (Some (iter_at [] dest 0), (pb_istream_from_buffer [] 0, st'\<lparr>pb_mem := store_bool (pb_mem st') dest True\<rparr>))"
    for st' :: "'h pb_store"
    by (simp add: decode_field_def lastf decode_static_field_def PB_DECODERS_def PB_LAST_FIELD_def PB_HTYPE_def PB_ATYPE_def
        PB_LTYPE_def pb_htypes pb_atypes pb_ltypes field_at_def pb_dec_bool_def one_varint reading_def Let_def)
  have left: "is_bytes_left (pb_istream_from_buffer bs k) = k" for bs k by (simp add: pb_istream_from_buffer_def)
  define l where "l seen = \<lparr>dl_iter = iter_at [] dest 0, fields_seen = seen, extension_range_start = 0, fixed_count_field = None\<rparr>" for seen
  have r1: "decode_round n ?dec env (l [0, 0], pb_istream_from_buffer [0x01, 0x01] 2, st')
    = Some (Inl (l [1, 0], pb_istream_from_buffer [] 0, st'\<lparr>pb_mem := store_bool (pb_mem st') dest True\<rparr>))"
    for st' :: "'h pb_store"
    by (simp add: decode_round_def left zero_tag find_terminator l_def decode_known_def lastf Let_def PB_LAST_FIELD_def PB_HTYPE_def
        pb_htypes dec required_before_def PB_MAX_REQUIRED_FIELDS_def)
  have r2: "decode_round n ?dec env (l seen, pb_istream_from_buffer [] 0, st')
    = Some (Inr (Some (l seen), (pb_istream_from_buffer [] 0, st')))" for st' :: "'h pb_store" and seen
    by (simp add: decode_round_def left)
  have start: "snd (pb_field_iter_begin [] dest) = iter_at [] dest 0" by (simp add: iter_begin [OF fs assms])
  have loop: "iterate (decode_round n ?dec env) (l [0, 0], pb_istream_from_buffer [0x01, 0x01] 2, st')
    = Some (Some (l [1, 0]), (pb_istream_from_buffer [] 0, st'\<lparr>pb_mem := store_bool (pb_mem st') dest True\<rparr>))"
    for st' :: "'h pb_store"
    by (subst iterate.simps, simp add: r1, subst iterate.simps, simp add: r2)
  have count: "required_field_count (iter_at [] dest 0) = Some 0"
    using state_required_count [OF fs assms iter_state_begin] by simp
  have "pb_message_set_to_defaults (Suc n) env [] dest st = Some st"
    unfolding pb_message_set_to_defaults_def for_fields_eq [OF fs assms] by simp
  then show ?thesis
    by (simp add: pb_decode_def decode_initialized_def decode_message_def start loop [unfolded l_def] wrong_fixed_count_def
        count required_fields_seen_def Let_def)
qed

text \<open>
  Setting a repeated field of fixed count to its default clears four bytes, even when the array is shorter:
  here the array has one byte.
\<close>

definition fixed_count_fields :: "pb_field list" where
  "fixed_count_fields = [\<lparr>pf_tag = 1, pf_type = PB_HTYPE_REPEATED OR PB_LTYPE_BOOL, pf_data_offset = 0,
     pf_size_offset = 0, pf_data_size = 1, pf_array_size = 1, pf_ptr = Null_ptr\<rparr>]"

lemma fixed_count_default:
  assumes "dest \<noteq> 0"
  shows "pb_message_set_to_defaults (Suc n) env fixed_count_fields dest st
    = Some (st\<lparr>pb_mem := store_size (pb_mem st) dest 0\<rparr>)"
proof -
  have "tagged_fields fixed_count_fields" by (simp add: tagged_fields_def fixed_count_fields_def)
  then show ?thesis
    unfolding pb_message_set_to_defaults_def for_fields_eq [OF \<open>tagged_fields _\<close> assms]
    by (simp add: fixed_count_fields_def field_at_def Let_def PB_HTYPE_def PB_LTYPE_def PB_ATYPE_def pb_htypes pb_ltypes pb_atypes
     write_count_def)
qed

end
