(* ===== verification/Pb_Encode_Props.thy ===== *)
theory Pb_Encode_Props
  imports Pb_Encode_Image Pb_Message_Props
begin

text \<open>What the message encoder promises: it writes the image of the structure.\<close>

text \<open>A tree (see \<^const>\<open>tree_fields\<close>) in memory: the number 300 and one item, with the number 5.\<close>

definition example_bytes :: "u8 list" where
  "example_bytes = [1, 0, 0, 0, 0x2C, 1, 0, 0, 1, 0, 0, 0, 1, 0, 0, 0, 5, 0, 0, 0, 0, 0, 0, 0, 0, 0, 0, 0]"

definition example_store :: "unit pb_store" where
  "example_store = \<lparr>pb_mem = store_bytes (\<lambda>_. 0) 0x1000 example_bytes, pb_heap = (), fixed_count_size = 0\<rparr>"

definition example_rss :: "wire_record list list" where
  "example_rss = [[(1, W_varint 300)], [(2, W_string [0x08, 0x05])]]"

lemma load_stored:
  assumes "k + n \<le> length bs" "length bs \<le> 2 ^ 64"
  shows "load_bytes (store_bytes m a bs) (a + of_nat k) n = take n (drop k bs)"
proof (rule nth_equalityI)
  fix i assume "i < length (load_bytes (store_bytes m a bs) (a + of_nat k) n)"
  then have i: "i < n" by simp
  then have "store_bytes m a bs (a + of_nat (k + i)) = bs ! (k + i)" using assms by (intro store_bytes_at) simp_all
  with i assms show "load_bytes (store_bytes m a bs) (a + of_nat k) n ! i = take n (drop k bs) ! i"
    by (simp add: add.assoc)
qed (use assms in simp)

lemma example_load:
  "k + n \<le> 28 \<Longrightarrow> load_bytes (pb_mem example_store) (0x1000 + of_nat k) n = take n (drop k example_bytes)"
  unfolding example_store_def pb_store.simps by (rule load_stored) (simp_all add: example_bytes_def)

lemma example_parts:
  "load_bytes (pb_mem example_store) 0x1000 1 = [1]" "load_bytes (pb_mem example_store) 0x1004 4 = [0x2C, 1, 0, 0]"
  "load_bytes (pb_mem example_store) 0x1008 4 = [1, 0, 0, 0]" "load_bytes (pb_mem example_store) 0x100C 1 = [1]"
  "load_bytes (pb_mem example_store) 0x1010 4 = [5, 0, 0, 0]"
  using example_load [of 0 1] example_load [of 4 4] example_load [of 8 4] example_load [of 12 1] example_load [of 16 4]
  by (simp_all add: example_bytes_def)

lemma example_flags: "pb_mem example_store 0x1000 = 1" "pb_mem example_store 0x100C = 1"
  using example_parts(1,4) by (simp_all add: load_bytes_def)

lemma example_varints: "varint 300 = [0xAC, 2]" "varint 5 = [5]" "varint 2 = [2]" "varint 8 = [8]" "varint 18 = [18]"
  by (subst varint.simps, simp, (subst varint.simps, simp)?)+

lemmas example_load_simps = example_parts example_flags safe_read_bool_def load_unsigned_def load_size_def load_word_def

lemma example_places:
  "data_off leaf_fields 0 = 4" "data_off tree_fields 0 = 4" "data_off tree_fields (Suc 0) = 12"
  "size_off tree_fields 0 = 0" "size_off tree_fields (Suc 0) = 8"
  by (simp_all add: example_layout)

lemma example_fields:
  "length leaf_fields = Suc 0" "length tree_fields = Suc (Suc 0)" "leaf_fields ! 0 = leaf_field"
  "tree_fields ! 0 = leaf_field" "tree_fields ! Suc 0 = branch_field" "env_fields example_env k = leaf_fields"
  by (simp_all add: tree_fields_def leaf_fields_def example_env_def)

lemmas example_image_simps = example_fields example_places field_image_def item_image_def item_images_def PB_HTYPE_def
  PB_LTYPE_def pb_htypes pb_ltypes size_address_def submsg_fields_def Let_def example_load_simps leaf_field_def branch_field_def

lemma leaf_image: "message_image (Suc n) example_env (pb_mem example_store) leaf_fields 0x100C = Some [[(1, W_varint 5)]]"
  unfolding message_image.simps by (simp add: example_image_simps del: data_off.simps)

lemma example_image: "message_image 2 example_env (pb_mem example_store) tree_fields 0x1000 = Some example_rss"
  unfolding numeral_2_eq_2 message_image.simps(2) [of "Suc 0"]
  by (simp add: example_image_simps leaf_image example_rss_def example_varints message_bytes_def field_bytes_def tag_key_def pb_wt_defs length_ok_def
      del: message_image.simps data_off.simps)

lemma leaf_regular: "regular (Suc n) env leaf_fields"
  by (simp add: regular_field_def example_fields leaf_field_def data_span_def count_span_def example_places size_off.simps Let_def
     PB_HTYPE_def PB_LTYPE_def pb_htypes pb_ltypes field_items_def leaf_fields_def field_at_def)

lemma tree_set: "set tree_fields = {leaf_field, branch_field}" "map pf_tag tree_fields = [1, 2]"
  by (simp_all add: tree_fields_def leaf_field_def branch_field_def)

lemma tree_regular: "regular 2 example_env tree_fields"
  unfolding numeral_2_eq_2 regular.simps(2) [of "Suc 0"]
  using leaf_regular [of 0 example_env]
  by (simp add: All_less_Suc regular_field_def example_fields leaf_field_def branch_field_def data_span_def count_span_def
     example_places Let_def PB_HTYPE_def PB_LTYPE_def pb_htypes pb_ltypes field_items_def
     submsg_fields_def alternatives_def tree_set del: regular.simps data_off.simps size_off.simps)
    fastforce

subsection \<open>The property\<close>

text \<open>
  C5: The encoder writes the image of the message.  For a static message of a regular layout, \<open>pb_encode\<close>
  into a buffer writes exactly the bytes of the image, tags, lengths of nested messages and all, when
  they fit; otherwise it fails without writing beyond the buffer.  \<open>pb_get_encoded_size\<close> is their number.
\<close>

theorem pb_encode_exact:
  assumes "static_message n env fs sz" "regular n env fs" "object_at src sz"
    and "message_image n env (pb_mem st) fs src = Some rss"
    and "length buf < 2 ^ 63" "length (message_bytes (concat rss)) < 2 ^ 64"
  shows "pb_get_encoded_size n env st fs src = Some (Some (of_nat (length (message_bytes (concat rss)))))
    \<and> (if length (message_bytes (concat rss)) \<le> length buf
       then \<exists>s'. pb_encode n env st fs src (pb_ostream_from_buffer buf (of_nat (length buf))) = Some (Some (), s')
              \<and> os_sink s' = Out_buf (message_bytes (concat rss) @ drop (length (message_bytes (concat rss))) buf)
                                (length (message_bytes (concat rss)))
              \<and> os_bytes_written s' = of_nat (length (message_bytes (concat rss))) \<and> \<not> os_oob s'
       else \<exists>s'. pb_encode n env st fs src (pb_ostream_from_buffer buf (of_nat (length buf))) = Some (None, s')
              \<and> \<not> os_oob s')"
proof
  let ?b = "message_bytes (concat rss)" and ?s = "pb_ostream_from_buffer buf (of_nat (length buf)) :: 'b pb_ostream"
  note w = encoder.encode_image [OF assms(1-4)]
  show "pb_get_encoded_size n env st fs src = Some (Some (of_nat (length ?b)))"
    by (simp add: pb_get_encoded_size_def writes_sizing [OF w assms(6)])
  have u: "unat (of_nat (length buf) :: u64) = length buf" using assms(5) by (intro unat_of_nat_u64) simp
  have r: "ready ?s" using assms(5) u by (simp add: ready_def os_ok_def pb_ostream_from_buffer_def)
  have fits: "os_fits ?s (length ?b) \<longleftrightarrow> length ?b \<le> length buf" by (simp add: os_fits_def pb_ostream_from_buffer_def u)
  show "if length ?b \<le> length buf
       then \<exists>s'. pb_encode n env st fs src ?s = Some (Some (), s')
              \<and> os_sink s' = Out_buf (?b @ drop (length ?b) buf) (length ?b)
              \<and> os_bytes_written s' = of_nat (length ?b) \<and> \<not> os_oob s'
       else \<exists>s'. pb_encode n env st fs src ?s = Some (None, s') \<and> \<not> os_oob s'"
  proof (cases "length ?b \<le> length buf")
    case True
    with writes_fits [OF w r] fits show ?thesis
      by (simp add: os_append_def pb_ostream_from_buffer_def buf_store_inside)
  next
    case False
    with writes_full [OF w r] fits show ?thesis by (auto simp: pb_ostream_from_buffer_def os_ok_def)
  qed
qed

theorem pb_encode_exact_witness:
  "pb_get_encoded_size 2 example_env example_store tree_fields 0x1000 = Some (Some 7)
   \<and> (\<exists>s'. pb_encode 2 example_env example_store tree_fields 0x1000 (pb_ostream_from_buffer (replicate 8 0) 8) = Some (Some (), s')
        \<and> os_sink s' = Out_buf [0x08, 0xAC, 0x02, 0x12, 0x02, 0x08, 0x05, 0] 7)"
proof -
  have b: "message_bytes (concat example_rss) = [0x08, 0xAC, 0x02, 0x12, 0x02, 0x08, 0x05]"
    by (simp add: example_rss_def message_bytes_def field_bytes_def tag_key_def pb_wt_defs example_varints
        numeral_2_eq_2 [symmetric])
  have l: "length ([0x08, 0xAC, 0x02, 0x12, 0x02, 0x08, 0x05] :: u8 list) = 7" "length (replicate 8 (0 :: u8)) = 8"
    "(of_nat 7 :: u64) = 7" "(of_nat 8 :: u64) = 8"
    "[0x08, 0xAC, 0x02, 0x12, 0x02, 0x08, 0x05] @ drop 7 (replicate 8 0) = [0x08, 0xAC, 0x02, 0x12, 0x02, 0x08, 0x05, 0 :: u8]"
    by (simp_all add: numeral_eq_Suc)
  have n: "(8 :: nat) < 2 ^ 63" "(7 :: nat) < 2 ^ 64" "(7 :: nat) \<le> 8" by simp_all
  show ?thesis
    using pb_encode_exact [OF tree_static_2 tree_regular tree_at example_image, of "replicate 8 0", unfolded b l, OF n(1,2)]
    unfolding if_P [OF n(3)] by blast
qed

end
