(* ===== verification/Pb_Locality.thy ===== *)
theory Pb_Locality
  imports Pb_Image
begin

text \<open>
  Where the message is in memory: what a field is depends on the bytes of its own spans only, and in a
  regular layout the bytes of different fields are different.  Then the state of a structure before a
  message is decoded into it.
\<close>

subsection \<open>Bytes of a structure\<close>

definition agree :: "u64 set \<Rightarrow> mem \<Rightarrow> mem \<Rightarrow> bool" where
  "agree R m m' \<longleftrightarrow> (\<forall>x \<in> R. m' x = m x)"

lemma agree_mono: "agree R m m' \<Longrightarrow> S \<subseteq> R \<Longrightarrow> agree S m m'"
  by (auto simp: agree_def)

lemma agree_unchanged: "unchanged_outside S m m' \<Longrightarrow> R \<inter> S = {} \<Longrightarrow> agree R m m'"
  by (auto simp: agree_def unchanged_outside_def)

lemma region_image:
  assumes "n \<le> 2 ^ 64"
  shows "region (dest + off) n = (\<lambda>k. dest + of_nat k) ` {unat off ..< unat off + n}"
proof (intro equalityI subsetI)
  fix x assume "x \<in> region (dest + off) n"
  then have "unat (x - (dest + off)) < n" by (simp add: region_def)
  then show "x \<in> (\<lambda>k. dest + of_nat k) ` {unat off ..< unat off + n}"
    by (intro image_eqI [of _ _ "unat off + unat (x - (dest + off))"]) simp_all
next
  fix x assume "x \<in> (\<lambda>k. dest + of_nat k) ` {unat off ..< unat off + n}"
  then obtain k where k: "x = dest + of_nat k" "unat off \<le> k" "k < unat off + n" by auto
  then have "x = (dest + off) + of_nat (k - unat off)" by (simp add: of_nat_diff)
  moreover have "k - unat off < n" using k by simp
  ultimately show "x \<in> region (dest + off) n" using region_mem [OF _ assms] by blast
qed

definition field_region :: "pb_field list \<Rightarrow> u64 \<Rightarrow> nat \<Rightarrow> u64 set" where
  "field_region fs dest i = (\<lambda>k. dest + of_nat k) ` (data_span fs i \<union> count_span fs i)"

lemma span_bound:
  assumes "static_message (Suc n) env fs sz" "i < length fs" "k \<in> data_span fs i \<union> count_span fs i"
  shows "k < sz \<or> PB_HTYPE (pf_type (fs ! i)) = PB_HTYPE_OPTIONAL \<and> size_off fs i = data_off fs i"
proof -
  have "field_inside fs sz i" using assms(1,2) by simp
  then show ?thesis
    using assms(3) by (auto simp: field_inside_def data_span_def count_span_def Let_def pb_htypes split: if_splits)
qed

lemma no_offset: "regular (Suc n) env fs \<Longrightarrow> i < length fs \<Longrightarrow> size_off fs i = data_off fs i \<longleftrightarrow> pf_size_offset (fs ! i) = 0"
proof -
  assume a: "regular (Suc n) env fs" "i < length fs"
  have "ucast (scast x :: u64) = x" for x :: u32 by (rule bit_word_eqI) (auto simp: bit_simps)
  then have "scast (pf_size_offset (fs ! i)) = (0 :: u64) \<longleftrightarrow> pf_size_offset (fs ! i) = 0"
    by (metis signed_0 unsigned_0)
  then show ?thesis using regularD(2) [OF a] by simp
qed

lemma field_region_inside:
  assumes s: "static_message (Suc n) env fs sz" and r: "regular (Suc n) env fs" and i: "i < length fs"
  shows "field_region fs dest i \<subseteq> region dest sz"
proof -
  have "k < sz" if "k \<in> data_span fs i \<union> count_span fs i" for k
  proof (rule ccontr)
    assume "\<not> k < sz"
    with span_bound [OF s i that] no_offset [OF r i] have h: "PB_HTYPE (pf_type (fs ! i)) = PB_HTYPE_OPTIONAL"
      "pf_size_offset (fs ! i) = 0" by simp_all
    then have "k \<in> data_span fs i" using that by (simp add: count_span_def Let_def pb_htypes)
    then show False
      using static_field(3) [OF s i] h \<open>\<not> k < sz\<close>
      by (simp add: data_span_def places_def field_items_def pb_htypes)
  qed
  moreover have "sz < 2 ^ 64" using static_field(4) [OF s i] by simp
  ultimately show ?thesis
    using region_image [of sz dest 0] by (auto simp: field_region_def)
qed

lemma addresses_apart:
  assumes "\<And>k. k \<in> A \<union> B \<Longrightarrow> k < 2 ^ 64" "A \<inter> B = {}"
  shows "(\<lambda>k. dest + of_nat k :: u64) ` A \<inter> (\<lambda>k. dest + of_nat k) ` B = {}"
proof -
  have "False" if k: "k \<in> A" "k' \<in> B" "dest + of_nat k = (dest + of_nat k' :: u64)" for k k'
  proof -
    have "unat (of_nat k :: u64) = unat (of_nat k' :: u64)" using k(3) by simp
    then have "k = k'" using assms(1) [of k] assms(1) [of k'] k(1,2) by (simp add: unat_of_nat_u64)
    then show False using assms(2) k by blast
  qed
  then show ?thesis by blast
qed

lemma span_small:
  assumes "static_message (Suc n) env fs sz" "i < length fs" "k \<in> data_span fs i \<union> count_span fs i"
  shows "k < 2 ^ 64"
proof -
  have "unat (data_off fs i) + unat (pf_data_size (fs ! i)) * field_items (fs ! i) \<le> sz" "sz < 2 ^ 32"
    using assms(1,2) by (simp_all add: field_inside_def Let_def)
  then show ?thesis
    using span_bound [OF assms] assms(3)
    by (auto simp: data_span_def count_span_def Let_def pb_htypes split: if_splits)
qed

lemma fields_apart:
  assumes s: "static_message (Suc n) env fs sz" and r: "regular (Suc n) env fs" and ij: "i < length fs" "j < length fs"
    "i \<noteq> j" "\<not> alternatives fs i j"
  shows "field_region fs dest i \<inter> field_region fs dest j = {}"
  unfolding field_region_def
  using span_small [OF s ij(1)] span_small [OF s ij(2)] regularD(6) [OF r ij(1,2)] ij(3,4)
  by (intro addresses_apart) blast+

lemma count_apart:
  assumes s: "static_message (Suc n) env fs sz" and r: "regular (Suc n) env fs" and i: "i < length fs"
    and o: "pf_size_offset (fs ! i) \<noteq> 0"
  shows "(\<lambda>k. dest + of_nat k) ` count_span fs i
    \<inter> region (dest + data_off fs i) (unat (pf_data_size (fs ! i)) * field_items (fs ! i)) = {}"
proof -
  have "field_inside fs sz i" "sz < 2 ^ 32" using s i by simp_all
  then have "unat (pf_data_size (fs ! i)) * field_items (fs ! i) \<le> 2 ^ 64" by (simp add: field_inside_def Let_def)
  from region_image [OF this, of dest "data_off fs i"]
  have "region (dest + data_off fs i) (unat (pf_data_size (fs ! i)) * field_items (fs ! i)) = (\<lambda>k. dest + of_nat k) ` data_span fs i"
    by (simp only: data_span_def)
  then show ?thesis
    using span_small [OF s i] regularD(5) [OF r i o] addresses_apart [of "count_span fs i" "data_span fs i" dest] by blast
qed

lemma data_in_field:
  assumes s: "static_message (Suc n) env fs sz" and i: "i < length fs"
  shows "region (dest + data_off fs i) (unat (pf_data_size (fs ! i)) * field_items (fs ! i)) \<subseteq> field_region fs dest i"
proof -
  have "field_inside fs sz i" "sz < 2 ^ 32" using s i by simp_all
  then have "unat (pf_data_size (fs ! i)) * field_items (fs ! i) \<le> 2 ^ 64" by (simp add: field_inside_def Let_def)
  then show ?thesis by (auto simp: region_image field_region_def data_span_def)
qed

lemma count_in_field:
  "PB_HTYPE (pf_type (fs ! i)) \<in> {PB_HTYPE_REPEATED, PB_HTYPE_ONEOF} \<Longrightarrow> region (dest + size_off fs i) 4 \<subseteq> field_region fs dest i"
  "PB_HTYPE (pf_type (fs ! i)) = PB_HTYPE_OPTIONAL \<Longrightarrow> pf_size_offset (fs ! i) \<noteq> 0 \<Longrightarrow>
     region (dest + size_off fs i) 1 \<subseteq> field_region fs dest i"
  by (auto simp: region_image field_region_def count_span_def Let_def pb_htypes)

subsection \<open>Reading memory that agrees\<close>

lemma agree_load_bytes: "agree (region p n) m m' \<Longrightarrow> n \<le> 2 ^ 64 \<Longrightarrow> load_bytes m' p n = load_bytes m p n"
  by (rule nth_equalityI) (auto simp: agree_def region_mem)

lemma agree_load_word: "agree (region p n) m m' \<Longrightarrow> n \<le> 2 ^ 64 \<Longrightarrow> load_word m' p n = load_word m p n"
  by (simp add: load_word_def agree_load_bytes)

lemma agree_load_size: "agree (region p 4) m m' \<Longrightarrow> load_size m' p = load_size m p"
  by (simp add: load_size_def agree_load_word)

lemma agree_byte: "agree (region p n) m m' \<Longrightarrow> 0 < n \<Longrightarrow> m' p = m p"
  by (simp add: agree_def region_def)

lemma agree_string_length:
  assumes "\<And>k. k < max_size - len \<Longrightarrow> m' (p + of_nat k) = m (p + of_nat k)"
  shows "string_length m' p len max_size = string_length m p len max_size"
  using assms
proof (induction m p len max_size rule: string_length.induct)
  case (1 m p len max_size)
  show ?case
  proof (cases "len < max_size")
    case True
    have "m' p = m p" using "1.prems" [of 0] True by simp
    moreover have "string_length m' (p + 1) (len + 1) max_size = string_length m (p + 1) (len + 1) max_size" if "m p \<noteq> 0"
      using "1.prems" [of "Suc _"] True that by (intro "1.IH") (simp_all add: algebra_simps)
    ultimately show ?thesis by (subst (1 2) string_length.simps) simp
  next
    case False
    then show ?thesis by (subst (1 2) string_length.simps) simp
  qed
qed

lemma agree_load_signed:
  "agree (region p (unat d)) m m' \<Longrightarrow> load_signed m' p d = load_signed m p d"
  "agree (region p (unat d)) m m' \<Longrightarrow> load_unsigned m' p d = load_unsigned m p d"
  by (auto simp: load_signed_def load_unsigned_def agree_load_word)

subsection \<open>Structures before decoding\<close>

text \<open>
  Counts and flags are clear, singular fields without a flag are blank, and so on in the submessages that the
  decoder does not initialise when they arrive.
\<close>

definition initial_field :: "(pb_field list \<Rightarrow> u64 \<Rightarrow> bool) \<Rightarrow> ('h, 's) pb_env \<Rightarrow> mem \<Rightarrow> pb_field \<Rightarrow> u64 \<Rightarrow> bool" where
  "initial_field sub env m f p \<longleftrightarrow>
     (let h = PB_HTYPE (pf_type f); pSize = size_address p f in
      (h = PB_HTYPE_ONEOF \<or> h = PB_HTYPE_REPEATED \<and> pf_size_offset f \<noteq> 0 \<longrightarrow> load_size m pSize = 0)
      \<and> (h = PB_HTYPE_OPTIONAL \<and> pf_size_offset f \<noteq> 0 \<longrightarrow> \<not> safe_read_bool m pSize)
      \<and> (h = PB_HTYPE_REQUIRED \<or> h = PB_HTYPE_OPTIONAL \<longrightarrow>
           (if PB_LTYPE (pf_type f) = PB_LTYPE_SUBMESSAGE then sub (submsg_fields env f) p
            else h = PB_HTYPE_OPTIONAL \<and> pf_size_offset f = 0 \<longrightarrow> (\<forall>b \<in> set (load_bytes m p (unat (pf_data_size f))). b = 0))))"

primrec initial :: "nat \<Rightarrow> ('h, 's) pb_env \<Rightarrow> mem \<Rightarrow> pb_field list \<Rightarrow> u64 \<Rightarrow> bool" where
  "initial 0 env m fs p \<longleftrightarrow> False"
| "initial (Suc n) env m fs p \<longleftrightarrow>
     (\<forall>i < length fs. initial_field (initial n env m) env m (fs ! i) (p + data_off fs i))"

subsection \<open>Locality\<close>

lemma agree_item:
  assumes ok: "item_ok (static_message n env) env f" and a: "agree (region p (unat (pf_data_size f))) m m'"
    and sub: "PB_LTYPE (pf_type f) = PB_LTYPE_SUBMESSAGE \<Longrightarrow> sub' (submsg_fields env f) p = sub (submsg_fields env f) p"
  shows "item_image sub' env m' f p = item_image sub env m f p"
proof -
  let ?d = "unat (pf_data_size f)"
  have part: "agree (region p k) m m'" if "k \<le> ?d" for k using agree_mono [OF a region_mono [OF that]] .
  have len: "string_length m' p 0 ?d = string_length m p 0 ?d"
  proof (rule agree_string_length)
    fix k assume "k < ?d - 0"
    then show "m' (p + of_nat k) = m (p + of_nat k)"
      using a region_mem [of k ?d p] unat_less_2p [of "pf_data_size f"] by (simp add: agree_def)
  qed
  have str: "load_bytes m' p (string_length m p 0 ?d) = load_bytes m p (string_length m p 0 ?d)"
    using string_length_le [of 0 ?d m p] unat_less_2p [of "pf_data_size f"]
    by (intro agree_load_bytes part) simp_all
  have all: "load_bytes m' p ?d = load_bytes m p ?d"
    using a unat_less_2p [of "pf_data_size f"] by (intro agree_load_bytes) simp_all
  have size: "load_size m' p = load_size m p" if "4 \<le> ?d" using part [OF that] by (rule agree_load_size)
  have bytes: "load_bytes m' (p + 4) (unat (load_size m p)) = load_bytes m (p + 4) (unat (load_size m p))"
    if "unat (load_size m p) + 4 \<le> ?d"
  proof (rule agree_load_bytes)
    show "agree (region (p + 4) (unat (load_size m p))) m m'"
      using region_inside [of 4 "unat (load_size m p)" ?d p] that by (intro agree_mono [OF a]) simp
    show "unat (load_size m p) \<le> 2 ^ 64" using unat_less_2p [of "load_size m p"] by simp
  qed
  show ?thesis
    using ok sub len str all size bytes agree_load_signed [OF a] agree_byte [OF part, of 1]
      agree_load_word [OF part, of 4] agree_load_word [OF part, of 8]
    by (auto simp: item_ok_def item_image_def Let_def pb_ltypes safe_read_bool_def)
qed

definition same_message :: "nat \<Rightarrow> ('h, 's) pb_env \<Rightarrow> mem \<Rightarrow> mem \<Rightarrow> pb_field list \<Rightarrow> u64 \<Rightarrow> bool" where
  "same_message n env m m' fs p \<longleftrightarrow>
     message_image n env m' fs p = message_image n env m fs p \<and> initial n env m' fs p = initial n env m fs p
     \<and> (\<forall>i < length fs. unset n env m' (fs ! i) (p + data_off fs i) = unset n env m (fs ! i) (p + data_off fs i))"

lemma agree_field_step:
  fixes env :: "('h, 's) pb_env"
  assumes below: "\<And>gs k q. static_message n env gs k \<Longrightarrow> regular n env gs \<Longrightarrow> object_at q k
      \<Longrightarrow> agree (region q k) m m' \<Longrightarrow> same_message n env m m' gs q"
    and s: "static_message (Suc n) env fs sz" and r: "regular (Suc n) env fs" and o: "object_at p sz" and i: "i < length fs"
    and a: "agree (field_region fs p i) m m'"
  defines "f \<equiv> fs ! i" and "q \<equiv> p + data_off fs i"
  shows "field_image n (message_image n env m') env m' f q = field_image n (message_image n env m) env m f q"
    and "initial_field (initial n env m') env m' f q = initial_field (initial n env m) env m f q"
    and "unset (Suc n) env m' f q = unset (Suc n) env m f q"
proof -
  let ?d = "unat (pf_data_size f)"
  note st = static_field [OF s i, folded f_def] and reg = regularD [OF r i, folded f_def]
  have addr: "size_address q f = p + size_off fs i" using size_address_regular [OF r i] by (simp add: f_def q_def)
  have data: "agree (region q (?d * field_items f)) m m'"
    using agree_mono [OF a data_in_field [OF s i]] by (simp add: f_def q_def)
  have d: "agree (region q ?d) m m'" and o': "object_at q ?d" if "PB_HTYPE (pf_type f) \<noteq> PB_HTYPE_REPEATED"
    using data single_place(1) [OF s o i] that by (simp_all add: field_items_def f_def q_def)
  have count: "load_size m' (size_address q f) = load_size m (size_address q f)"
    if "PB_HTYPE (pf_type f) \<in> {PB_HTYPE_REPEATED, PB_HTYPE_ONEOF}"
    unfolding addr using agree_load_size [OF agree_mono [OF a count_in_field(1)]] that by (simp add: f_def)
  have flag: "safe_read_bool m' (size_address q f) = safe_read_bool m (size_address q f)"
    if "PB_HTYPE (pf_type f) = PB_HTYPE_OPTIONAL" "pf_size_offset f \<noteq> 0"
    unfolding addr using agree_byte [OF agree_mono [OF a count_in_field(2)]] that by (simp add: f_def safe_read_bool_def)
  have sub: "same_message n env m m' (submsg_fields env f) x"
    if "PB_LTYPE (pf_type f) = PB_LTYPE_SUBMESSAGE" "object_at x ?d" "agree (region x ?d) m m'" for x
    using below [OF _ reg(7) that(2,3)] static_submessage [OF s i] that(1) by (simp add: f_def)
  have item: "item_image (message_image n env m') env m' f x = item_image (message_image n env m) env m f x"
    if "object_at x ?d" "agree (region x ?d) m m'" for x
    by (rule agree_item [OF st(2) that(2)]) (use sub [OF _ that] in \<open>simp add: same_message_def\<close>)
  have items: "item_images (item_image (message_image n env m') env m') f q c = item_images (item_image (message_image n env m) env m) f q c"
    if c: "c \<le> unat (pf_array_size f)" "PB_HTYPE (pf_type f) = PB_HTYPE_REPEATED" for c
  proof -
    have "item_image (message_image n env m') env m' f (q + of_nat k * ucast (pf_data_size f))
        = item_image (message_image n env m) env m f (q + of_nat k * ucast (pf_data_size f))" if k: "k < c" for k
    proof (rule item)
      have k': "k < unat (pf_array_size (fs ! i))" using k c(1) by (simp add: f_def)
      show "object_at (q + of_nat k * ucast (pf_data_size f)) ?d"
        using array_item(2) [OF s o i _ k'] c(2) by (simp add: f_def q_def)
      have "k * ?d + ?d \<le> ?d * field_items f"
        using k c mult_le_mono2 [of "Suc k" "unat (pf_array_size f)" ?d] by (simp add: field_items_def mult.commute)
      then have "region (q + of_nat (k * ?d)) ?d \<subseteq> region q (?d * field_items f)" by (rule region_inside)
      then show "agree (region (q + of_nat k * ucast (pf_data_size f)) ?d) m m'" using data by (auto intro: agree_mono)
    qed
    then show ?thesis unfolding item_images_def by (intro arg_cong [where f = those] map_cong) auto
  qed
  have items_word: "item_images (item_image (message_image n env m') env m') f q (unat c)
      = item_images (item_image (message_image n env m) env m) f q (unat c)"
    if "\<not> pf_array_size f < c" "PB_HTYPE (pf_type f) = PB_HTYPE_REPEATED" for c
    by (rule items) (use that in \<open>simp_all add: not_less word_le_nat_alt\<close>)
  have all: "load_bytes m' q ?d = load_bytes m q ?d" if "PB_HTYPE (pf_type f) \<noteq> PB_HTYPE_REPEATED"
    using d [OF that] unat_less_2p [of "pf_data_size f"] by (intro agree_load_bytes) simp_all
  have un: "blank (unset n env m') env m' f q = blank (unset n env m) env m f q"
    if h: "PB_HTYPE (pf_type f) \<noteq> PB_HTYPE_REPEATED" and z: "PB_LTYPE (pf_type f) = PB_LTYPE_STRING \<longrightarrow> 0 < ?d"
  proof -
    have "load_size m' q = load_size m q" if "4 \<le> ?d" using agree_mono [OF d [OF h] region_mono [OF that]] by (rule agree_load_size)
    moreover have "m' q = m q" if "0 < ?d" using agree_byte [OF d [OF h] that] .
    ultimately show ?thesis
      using st(2) z all [OF h] sub [OF _ o' [OF h] d [OF h]]
      by (auto simp: blank_def Let_def item_ok_def pb_ltypes same_message_def)
  qed
  have z: "PB_HTYPE (pf_type f) \<noteq> PB_HTYPE_REPEATED \<Longrightarrow> PB_LTYPE (pf_type f) = PB_LTYPE_STRING \<longrightarrow> 0 < ?d"
    using reg(8) by (auto simp: unat_gt_0)
  show u: "unset (Suc n) env m' f q = unset (Suc n) env m f q"
    using count flag un z by (cases rule: htype_cases [of "pf_type f"]) (simp_all add: Let_def pb_htypes)
  show "field_image n (message_image n env m') env m' f q = field_image n (message_image n env m) env m f q"
    using count flag u item [OF o' d] items_word
    by (cases rule: htype_cases [of "pf_type f"]) (simp_all add: field_image_def Let_def pb_htypes del: unset.simps)
  show "initial_field (initial n env m') env m' f q = initial_field (initial n env m) env m f q"
    using count flag all sub [OF _ o' d]
    by (cases rule: htype_cases [of "pf_type f"]) (simp_all add: initial_field_def Let_def pb_htypes same_message_def)
qed

lemma agree_message:
  assumes "static_message n env fs sz" "regular n env fs" "object_at p sz" "agree (region p sz) m m'"
  shows "same_message n env m m' fs p"
  using assms
proof (induction n arbitrary: fs sz p)
  case 0
  then show ?case by simp
next
  case (Suc n)
  have a: "agree (field_region fs p i) m m'" if "i < length fs" for i
    using agree_mono [OF Suc.prems(4) field_region_inside [OF Suc.prems(1,2) that]] .
  note field = agree_field_step [OF _ Suc.prems(1-3) _ a]
  have image: "field_image n (message_image n env m') env m' (fs ! i) (p + data_off fs i)
      = field_image n (message_image n env m) env m (fs ! i) (p + data_off fs i)" if "i < length fs" for i
    by (rule field(1) [OF Suc.IH that that])
  have "those (map (\<lambda>i. field_image n (message_image n env m') env m' (fs ! i) (p + data_off fs i)) [0..<length fs])
      = those (map (\<lambda>i. field_image n (message_image n env m) env m (fs ! i) (p + data_off fs i)) [0..<length fs])"
    using image by (intro arg_cong [where f = those] map_cong) auto
  moreover have "initial_field (initial n env m') env m' (fs ! i) (p + data_off fs i)
      = initial_field (initial n env m) env m (fs ! i) (p + data_off fs i)" if "i < length fs" for i
    by (rule field(2) [OF Suc.IH that that])
  moreover have "unset (Suc n) env m' (fs ! i) (p + data_off fs i) = unset (Suc n) env m (fs ! i) (p + data_off fs i)"
    if "i < length fs" for i
    by (rule field(3) [OF Suc.IH that that])
  ultimately show ?case
    unfolding same_message_def message_image.simps initial.simps by (simp del: unset.simps)
qed

lemma agree_field:
  assumes "static_message (Suc n) env fs sz" "regular (Suc n) env fs" "object_at p sz" "i < length fs"
    "agree (field_region fs p i) m m'"
  shows "field_image n (message_image n env m') env m' (fs ! i) (p + data_off fs i)
      = field_image n (message_image n env m) env m (fs ! i) (p + data_off fs i)"
    and "initial_field (initial n env m') env m' (fs ! i) (p + data_off fs i)
      = initial_field (initial n env m) env m (fs ! i) (p + data_off fs i)"
    and "unset (Suc n) env m' (fs ! i) (p + data_off fs i) = unset (Suc n) env m (fs ! i) (p + data_off fs i)"
  by (rule agree_field_step [OF agree_message assms], assumption+)+

end
