(* ===== verification/Pb_Initial.thy ===== *)
theory Pb_Initial
  imports Pb_Locality
begin

text \<open>Setting a structure to its default values, and what a blank structure is as a message.\<close>

lemma fold_option_upt:
  assumes "P 0 c" "\<And>i c. i < n \<Longrightarrow> P i c \<Longrightarrow> \<exists>c'. f i c = Some c' \<and> P (Suc i) c'"
  shows "\<exists>c'. fold_option f [0..<n] c = Some c' \<and> P n c'"
proof -
  have "\<exists>c'. fold_option f [i..<n] c = Some c' \<and> P n c'" if "P i c" "i \<le> n" for i c
    using that
  proof (induction "n - i" arbitrary: i c)
    case 0
    then show ?case by simp
  next
    case (Suc k)
    then have "i < n" by simp
    with assms(2) Suc.prems(1) obtain c' where "f i c = Some c'" "P (Suc i) c'" by blast
    with Suc.hyps(1) [of "Suc i" c'] Suc.hyps(2) \<open>i < n\<close> show ?case by (simp add: upt_conv_Cons)
  qed
  with assms(1) show ?thesis by blast
qed

lemma zero_bytes_load: "n \<le> 2 ^ 64 \<Longrightarrow> load_bytes (zero_bytes m p n) p n = replicate n 0"
  unfolding zero_bytes_def by (rule load_store_same) simp_all

text \<open>One field: it changes its own bytes.\<close>

lemma default_field:
  fixes st :: "'h pb_store" and env :: "('h, 's) pb_env"
  assumes below: "\<And>gs k q st. static_message n env gs k \<Longrightarrow> regular n env gs \<Longrightarrow> object_at q k \<Longrightarrow>
      \<exists>st' :: 'h pb_store. for_fields (pb_field_set_to_default n env) gs q st = Some st'
        \<and> initial n env (pb_mem st') gs q \<and> unchanged_outside (region q k) (pb_mem st) (pb_mem st') \<and> pb_heap st' = pb_heap st
        \<and> fixed_count_size st' = fixed_count_size st"
    and s: "static_message (Suc n) env fs sz" and r: "regular (Suc n) env fs" and o: "object_at dest sz" and i: "i < length fs"
  shows "\<exists>st'. pb_field_set_to_default (Suc n) env (iter_at fs dest i) st = Some st'
    \<and> initial_field (initial n env (pb_mem st')) env (pb_mem st') (fs ! i) (dest + data_off fs i)
    \<and> unchanged_outside (field_region fs dest i) (pb_mem st) (pb_mem st') \<and> pb_heap st' = pb_heap st
        \<and> fixed_count_size st' = fixed_count_size st"
proof -
  let ?f = "fs ! i" and ?p = "dest + data_off fs i" and ?a = "dest + size_off fs i"
  let ?d = "unat (pf_data_size ?f)" and ?R = "field_region fs dest i"
  note st = static_field [OF s i] and reg = regularD [OF r i]
  have addr: "size_address ?p ?f = ?a" by (rule size_address_regular [OF r i])
  have off: "?a = ?p \<longleftrightarrow> pf_size_offset ?f = 0" using no_offset [OF r i] by simp
  have l: "PB_LTYPE (pf_type ?f) \<noteq> PB_LTYPE_EXTENSION" using st(2) by (auto simp: item_ok_def Let_def pb_ltypes)
  have d: "?d \<le> 2 ^ 64" using unat_less_2p [of "pf_data_size ?f"] by simp
  text \<open>The value of a singular field.\<close>
  define data where "data st1 = (if PB_LTYPE (pf_type ?f) = PB_LTYPE_SUBMESSAGE
      then for_fields (pb_field_set_to_default n env) (submsg_fields env ?f) ?p st1
      else (case pf_ptr ?f of
              Default_ptr bs \<Rightarrow> Some (st1\<lparr>pb_mem := store_bytes (pb_mem st1) ?p (take ?d bs)\<rparr>)
            | _ \<Rightarrow> Some (st1\<lparr>pb_mem := zero_bytes (pb_mem st1) ?p ?d\<rparr>)))" for st1 :: "'h pb_store"
  have dataE: "\<exists>st2. data st1 = Some st2 \<and> unchanged_outside (region ?p ?d) (pb_mem st1) (pb_mem st2) \<and> pb_heap st2 = pb_heap st1
      \<and> fixed_count_size st2 = fixed_count_size st1
      \<and> (if PB_LTYPE (pf_type ?f) = PB_LTYPE_SUBMESSAGE then initial n env (pb_mem st2) (submsg_fields env ?f) ?p
         else pf_size_offset ?f = 0 \<longrightarrow> (\<forall>b \<in> set (load_bytes (pb_mem st2) ?p ?d). b = 0))"
    if h: "PB_HTYPE (pf_type ?f) \<noteq> PB_HTYPE_REPEATED" for st1
  proof (cases "PB_LTYPE (pf_type ?f) = PB_LTYPE_SUBMESSAGE")
    case True
    from below [OF static_submessage [OF s i True] reg(7) [OF True] single_place(1) [OF s o i h], of st1] True
    show ?thesis by (auto simp: data_def)
  next
    case False
    have "unchanged_outside (region ?p ?d) m (store_bytes m ?p (take ?d bs))" for m bs
      by (rule unchanged_mono [OF unchanged_store_bytes region_mono]) simp
    with False reg(4) [OF h] d unchanged_stores(4) show ?thesis
      by (auto simp: data_def zero_bytes_load split: pb_ptr.split)
  qed
  have data_R: "region ?p ?d \<subseteq> ?R" if "PB_HTYPE (pf_type ?f) \<noteq> PB_HTYPE_REPEATED"
    using data_in_field [OF s i, of dest] that by (simp add: field_items_def)
  show ?thesis
  proof (cases rule: htype_cases [of "pf_type ?f"])
    case Required
    from dataE [of st] Required obtain st2 where "data st = Some st2" "unchanged_outside (region ?p ?d) (pb_mem st) (pb_mem st2)"
      "pb_heap st2 = pb_heap st" "fixed_count_size st2 = fixed_count_size st" "PB_LTYPE (pf_type ?f) = PB_LTYPE_SUBMESSAGE \<longrightarrow> initial n env (pb_mem st2) (submsg_fields env ?f) ?p"
      by (auto simp: pb_htypes split: if_splits)
    moreover have "pb_field_set_to_default (Suc n) env (iter_at fs dest i) st = data st"
      using i l st(1) by (simp add: Let_def Required pb_htypes data_def)
    ultimately show ?thesis
      using data_R by (auto simp: Required initial_field_def Let_def pb_htypes intro: unchanged_mono)
  next
    case Optional
    define st1 where "st1 = (if pf_size_offset ?f \<noteq> 0 then write_flag st (Mem_size ?a) False else st)"
    from dataE [of st1] Optional obtain st2 where st2: "data st1 = Some st2"
      "unchanged_outside (region ?p ?d) (pb_mem st1) (pb_mem st2)" "pb_heap st2 = pb_heap st1" "fixed_count_size st2 = fixed_count_size st1"
      "if PB_LTYPE (pf_type ?f) = PB_LTYPE_SUBMESSAGE then initial n env (pb_mem st2) (submsg_fields env ?f) ?p
         else pf_size_offset ?f = 0 \<longrightarrow> (\<forall>b \<in> set (load_bytes (pb_mem st2) ?p ?d). b = 0)"
      by (auto simp: pb_htypes)
    have "pb_field_set_to_default (Suc n) env (iter_at fs dest i) st = data st1"
      using i l st(1) off by (simp add: Let_def Optional pb_htypes data_def st1_def)
    moreover have "unchanged_outside ?R (pb_mem st) (pb_mem st1)" "pb_heap st1 = pb_heap st"
      "fixed_count_size st1 = fixed_count_size st"
      using unchanged_mono [OF unchanged_stores(3) count_in_field(2) [OF Optional]] by (auto simp: st1_def write_flag_def)
    moreover have "\<not> safe_read_bool (pb_mem st2) ?a" if "pf_size_offset ?f \<noteq> 0"
    proof -
      have "?a \<in> (\<lambda>k. dest + of_nat k) ` count_span fs i"
        using that by (auto simp: count_span_def Let_def Optional pb_htypes)
      then have "?a \<notin> region ?p ?d" using count_apart [OF s r i that, of dest] by (auto simp: field_items_def Optional pb_htypes)
      then have "pb_mem st2 ?a = pb_mem st1 ?a" using st2(2) by (simp add: unchanged_outside_def)
      then show ?thesis using that by (simp add: st1_def write_flag_def safe_read_bool_def store_bool_def store_bytes_def)
    qed
    ultimately show ?thesis
      using st2 unchanged_mono [OF st2(2) data_R] Optional
      by (auto simp: initial_field_def Let_def addr pb_htypes intro: unchanged_trans)
  next
    case Repeated
    then show ?thesis
      using i l st(1) unchanged_mono [OF unchanged_stores(2) count_in_field(1)]
      by (simp add: Let_def pb_htypes initial_field_def addr write_count_def)
  next
    case Oneof
    then show ?thesis
      using i l st(1) unchanged_mono [OF unchanged_stores(2) count_in_field(1)]
      by (simp add: Let_def pb_htypes initial_field_def addr write_count_def)
  qed
qed

text \<open>The whole structure: a later field leaves the earlier ones as they are.\<close>

lemma alternatives_initial:
  assumes "regular (Suc n) env fs" "i < length fs" "j < length fs" "alternatives fs i j"
    "initial_field sub env m (fs ! i) (dest + data_off fs i)"
  shows "initial_field sub' env m (fs ! j) (dest + data_off fs j)"
  using assms(4,5) size_address_regular [OF assms(1,2), of dest] size_address_regular [OF assms(1,3), of dest]
  by (auto simp: initial_field_def Let_def alternatives_def pb_htypes)

lemma defaults_initial:
  fixes st :: "'h pb_store" and env :: "('h, 's) pb_env"
  assumes "static_message n env fs sz" "regular n env fs" "object_at dest sz"
  shows "\<exists>st'. for_fields (pb_field_set_to_default n env) fs dest st = Some st'
    \<and> initial n env (pb_mem st') fs dest \<and> unchanged_outside (region dest sz) (pb_mem st) (pb_mem st')
    \<and> pb_heap st' = pb_heap st \<and> fixed_count_size st' = fixed_count_size st"
  using assms
proof (induction n arbitrary: fs sz dest st)
  case 0
  then show ?case by simp
next
  case (Suc n)
  note s = Suc.prems(1) and r = Suc.prems(2) and o = Suc.prems(3)
  let ?ok = "\<lambda>j st1. initial_field (initial n env (pb_mem st1)) env (pb_mem st1) (fs ! j) (dest + data_off fs j)"
  define P where "P i st1 \<longleftrightarrow> (\<forall>j < i. ?ok j st1) \<and> unchanged_outside (region dest sz) (pb_mem st) (pb_mem st1)
    \<and> pb_heap st1 = pb_heap st \<and> fixed_count_size st1 = fixed_count_size st" for i and st1 :: "'h pb_store"
  have step: "\<exists>st2. pb_field_set_to_default (Suc n) env (iter_at fs dest i) st1 = Some st2 \<and> P (Suc i) st2"
    if i: "i < length fs" and P: "P i st1" for i st1
  proof -
    from default_field [OF Suc.IH s r o i, of st1] obtain st2 where
      st2: "pb_field_set_to_default (Suc n) env (iter_at fs dest i) st1 = Some st2" "?ok i st2"
      "unchanged_outside (field_region fs dest i) (pb_mem st1) (pb_mem st2)" "pb_heap st2 = pb_heap st1" "fixed_count_size st2 = fixed_count_size st1"
      by blast
    have "?ok j st2" if j: "j < i" for j
    proof (cases "alternatives fs i j")
      case True
      then show ?thesis using alternatives_initial [OF r i _ _ st2(2)] j i by simp
    next
      case False
      have jl: "j < length fs" using j i by simp
      have "field_region fs dest j \<inter> field_region fs dest i = {}"
        using fields_apart [OF s r i jl _ False] j by auto
      from agree_field(2) [OF s r o jl agree_unchanged [OF st2(3) this]] P j show ?thesis by (simp add: P_def)
    qed
    moreover have "unchanged_outside (region dest sz) (pb_mem st) (pb_mem st2)"
      using P unchanged_mono [OF st2(3) field_region_inside [OF s r i]] by (auto simp: P_def intro: unchanged_trans)
    ultimately show ?thesis using st2 P by (auto simp: P_def less_Suc_eq)
  qed
  have "P 0 st" by (simp add: P_def)
  from fold_option_upt [of P st "length fs" "\<lambda>i. pb_field_set_to_default (Suc n) env (iter_at fs dest i)", OF this step]
  obtain st' where "fold_option (\<lambda>i. pb_field_set_to_default (Suc n) env (iter_at fs dest i)) [0..<length fs] st = Some st'"
    "P (length fs) st'" by blast
  moreover have "tagged_fields fs" "dest \<noteq> 0" using static_tagged [OF s] o by (simp_all add: object_at_def)
  ultimately show ?case by (simp add: for_fields_eq P_def del: pb_field_set_to_default.simps)
qed

subsection \<open>Blank fields stay blank\<close>

text \<open>A field without a value in the source has none in a structure before decoding.\<close>

lemma zero_size:
  assumes "\<forall>b \<in> set (load_bytes m p d). b = 0" "4 \<le> d"
  shows "load_size m p = 0"
proof -
  have "load_bytes m p 4 = take 4 (load_bytes m p d)" using assms(2) by (simp add: take_load_bytes)
  then have "\<forall>b \<in> set (load_bytes m p 4). b = 0" using assms(1) by (auto dest: in_set_takeD)
  then have "load_bytes m p 4 = replicate 4 0" by (intro replicate_eqI) simp_all
  then show ?thesis by (simp add: load_size_def load_word_def numeral_nat)
qed

lemma initial_unset:
  assumes "static_message (Suc n) env fs sz" "regular (Suc n) env fs" "i < length fs"
    and "initial_field (initial n env m') env m' (fs ! i) (dest + data_off fs i)"
    and "unset (Suc n) env m (fs ! i) (src + data_off fs i)"
  shows "unset (Suc n) env m' (fs ! i) (dest + data_off fs i)"
  using assms
proof (induction n arbitrary: fs sz src dest i rule: nat_less_induct)
  case (1 n)
  let ?f = "fs ! i" and ?p = "dest + data_off fs i"
  note s = "1.prems"(1) and r = "1.prems"(2) and i = "1.prems"(3) and init = "1.prems"(4)
  note st = static_field [OF s i] and reg = regularD [OF r i]
  have blank: "blank (unset n env m') env m' ?f ?p"
    if h: "PB_HTYPE (pf_type ?f) = PB_HTYPE_OPTIONAL" "pf_size_offset ?f = 0"
      and b: "blank (unset n env m) env m ?f (src + data_off fs i)"
  proof (cases "PB_LTYPE (pf_type ?f) = PB_LTYPE_SUBMESSAGE")
    case True
    then have sub: "initial n env m' (submsg_fields env ?f) ?p"
      using init h by (simp add: initial_field_def Let_def)
    then obtain k where k: "n = Suc k" by (cases n) auto
    have "unset (Suc k) env m' (submsg_fields env ?f ! j) (?p + data_off (submsg_fields env ?f) j)"
      if j: "j < length (submsg_fields env ?f)" for j
    proof (rule "1.IH" [rule_format, of k, OF _ static_submessage [OF s i True, unfolded k] reg(7) [OF True, unfolded k] j])
      show "initial_field (initial k env m') env m' (submsg_fields env ?f ! j) (?p + data_off (submsg_fields env ?f) j)"
        using sub j by (simp add: k)
      show "unset (Suc k) env m (submsg_fields env ?f ! j) (src + data_off fs i + data_off (submsg_fields env ?f) j)"
        using b True j by (simp add: k blank_def Let_def pb_ltypes del: unset.simps)
    qed (simp add: k)
    with True show ?thesis by (simp add: blank_def Let_def pb_ltypes k del: unset.simps)
  next
    case False
    then have z: "\<forall>b \<in> set (load_bytes m' ?p (unat (pf_data_size ?f))). b = 0"
      using init h by (simp add: initial_field_def Let_def)
    have "m' ?p = 0" if "0 < unat (pf_data_size ?f)"
      using z that nth_mem [of 0 "load_bytes m' ?p (unat (pf_data_size ?f))"] by simp
    with z zero_size [OF z] False b st(2) reg(8) show ?thesis
      by (auto simp: blank_def Let_def item_ok_def pb_ltypes unat_gt_0)
  qed
  show ?case
    using "1.prems"(5) init blank
    by (cases rule: htype_cases [of "pf_type ?f"]) (auto simp: Let_def initial_field_def pb_htypes)
qed

end
