(* ===== verification/Pb_Item_Decode.thy ===== *)
theory Pb_Item_Decode
  imports Pb_Initial Pb_Safe_Decoder
begin

text \<open>
  Each field decoder on the value the encoder wrote: it reads exactly that value and stores an item with
  the same image.
\<close>

definition delivers ::
  "u64 set \<Rightarrow> 's pb_istream \<Rightarrow> 'h pb_store \<Rightarrow> u8 list \<Rightarrow> (mem \<Rightarrow> bool) \<Rightarrow> (unit, 'h, 's) run \<Rightarrow> bool" where
  "delivers R s st rest Q r \<longleftrightarrow>
     (\<exists>s' st'. r = Some (Some (), (s', st')) \<and> reads s s' \<and> is_view s' = Some rest
        \<and> unchanged_outside R (pb_mem st) (pb_mem st') \<and> pb_heap st' = pb_heap st
        \<and> fixed_count_size st' = fixed_count_size st \<and> Q (pb_mem st'))"

lemma delivers_mono:
  "delivers R s st rest Q r \<Longrightarrow> R \<subseteq> S \<Longrightarrow> (\<And>m. Q m \<Longrightarrow> Q' m) \<Longrightarrow> delivers S s st rest Q' r"
  unfolding delivers_def by (blast intro: unchanged_mono)

text \<open>A number read by \<open>pb_decode_varint\<close> and its kind.\<close>

lemma delivers_number:
  assumes "r = (Some v, s')" "reads s s'" "is_view s' = Some rest"
    and "k v (s', st) = Some (Some (), (s', st\<lparr>pb_mem := m'\<rparr>))" "unchanged_outside R (pb_mem st) m'" "Q m'"
  shows "delivers R s st rest Q (run_attempt (reading r st) k)"
  using assms by (simp add: delivers_def reading_def)

lemma view_tail: "is_view s = Some (a @ b) \<Longrightarrow> is_view (is_advance (length a) s) = Some b"
  by simp

lemma ucast_scast_id:
  "ucast (scast (w :: u8) :: u64) = w" "ucast (scast (x :: u16) :: u64) = x" "ucast (scast (y :: u32) :: u64) = y"
  by (rule bit_word_eqI; auto simp: bit_simps)+

lemma ucast_ucast_id:
  "ucast (ucast (w :: u8) :: u64) = w" "ucast (ucast (x :: u16) :: u64) = x" "ucast (ucast (y :: u32) :: u64) = y"
  by (rule bit_word_eqI; auto simp: bit_simps)+

text \<open>A signed integer of at most four bytes survives the cast to \<^verbatim>\<open>int32_t\<close> and back.\<close>

lemma int32_id:
  "scast (ucast (scast (w :: u8) :: u64) :: u32) = (scast w :: u64)"
  "scast (ucast (scast (x :: u16) :: u64) :: u32) = (scast x :: u64)"
  by (rule bit_word_eqI; auto simp: bit_simps min_def)+

lemma store_signed_back:
  assumes "load_signed m p d = Some v"
  shows "\<exists>m2. store_signed m' q d v = Some (m2, v) \<and> load_signed m2 q d = Some v"
    and "(if d = 8 then v else scast (ucast v :: u32)) = v"
proof -
  from assms consider "d = 8" | w where "d = 4" "v = scast (w :: u32)" | x where "d = 2" "v = scast (x :: u16)"
    | y where "d = 1" "v = scast (y :: u8)"
    by (auto simp: load_signed_def split: if_splits)
  then show "\<exists>m2. store_signed m' q d v = Some (m2, v) \<and> load_signed m2 q d = Some v"
    by cases (simp_all add: store_signed_def load_signed_def load_store_word ucast_scast_id)
  from assms show "(if d = 8 then v else scast (ucast v :: u32)) = v"
    by (auto simp: load_signed_def ucast_scast_id int32_id split: if_splits)
qed

lemma store_unsigned_back:
  assumes "load_unsigned m p d = Some v"
  shows "\<exists>m2. store_unsigned m' q d v = Some (m2, v) \<and> load_unsigned m2 q d = Some v"
proof -
  from assms consider "d = 8" | w where "d = 4" "v = ucast (w :: u32)" | x where "d = 2" "v = ucast (x :: u16)"
    | y where "d = 1" "v = ucast (y :: u8)"
    by (auto simp: load_unsigned_def split: if_splits)
  then show ?thesis
    by cases (simp_all add: store_unsigned_def load_unsigned_def load_store_word ucast_ucast_id)
qed

subsection \<open>Numbers\<close>

lemma bool_delivers:
  assumes "is_view s = Some (varint (unat (of_bool b :: u64)) @ rest)"
  shows "delivers (region q 1) s st rest (\<lambda>m. safe_read_bool m q = b) (pb_dec_bool f q s st)"
  unfolding pb_dec_bool_def
proof (rule delivers_number)
  have v: "is_view s = Some (varint (unat (of_bool b :: u32)) @ rest)" using assms by (cases b) simp_all
  show "pb_decode_varint32 s = (Some (of_bool b), is_advance (length (varint (unat (of_bool b :: u32)))) s)"
    by (rule pb_decode_varint32_view [OF v])
  from reader_varint32 [of s] show "reads s (is_advance (length (varint (unat (of_bool b :: u32)))) s)"
    by (simp add: pb_decode_varint32_view [OF v])
  show "is_view (is_advance (length (varint (unat (of_bool b :: u32)))) s) = Some rest" by (rule view_tail [OF v])
  show "unchanged_outside (region q 1) (pb_mem st) (store_bool (pb_mem st) q b)" by (rule unchanged_stores(3))
  show "safe_read_bool (store_bool (pb_mem st) q b) q = b"
    by (simp add: safe_read_bool_def store_bool_def store_bytes_def)
qed (cases b; simp)

lemma varint_delivers:
  assumes "is_view s = Some (varint (unat v) @ rest)" "load_signed m p (pf_data_size f) = Some v"
  shows "delivers (region q (unat (pf_data_size f))) s st rest (\<lambda>m'. load_signed m' q (pf_data_size f) = Some v)
    (pb_dec_varint f q s st)"
  proof -
  obtain m2 where m2: "store_signed (pb_mem st) q (pf_data_size f) v = Some (m2, v)" "load_signed m2 q (pf_data_size f) = Some v"
    using store_signed_back(1) [OF assms(2)] by blast
  show ?thesis
    unfolding pb_dec_varint_def
  proof (rule delivers_number)
  show "pb_decode_varint s = (Some v, is_advance (length (varint (unat v))) s)" by (rule pb_decode_varint_view [OF assms(1)])
  then show "reads s (is_advance (length (varint (unat v))) s)" using reader_varint [of s] by simp
  show "is_view (is_advance (length (varint (unat v))) s) = Some rest" by (rule view_tail [OF assms(1)])
  show "(case (is_advance (length (varint (unat v))) s, st) of (s, st) \<Rightarrow>
       let svalue = (if pf_data_size f = 8 then v else scast (ucast v :: u32))
       in store_clamped (store_signed (pb_mem st) q (pf_data_size f) svalue) svalue s st)
     = Some (Some (), (is_advance (length (varint (unat v))) s, st\<lparr>pb_mem := m2\<rparr>))"
    unfolding prod.case Let_def store_signed_back(2) [OF assms(2)] m2(1) by (simp add: store_clamped_def)
  show "unchanged_outside (region q (unat (pf_data_size f))) (pb_mem st) m2" by (rule store_signed_unchanged [OF m2(1)])
  show "load_signed m2 q (pf_data_size f) = Some v" by (rule m2(2))
  qed
qed

lemma svarint_delivers:
  assumes "is_view s = Some (varint (unat (zigzag v)) @ rest)" "load_signed m p (pf_data_size f) = Some v"
  shows "delivers (region q (unat (pf_data_size f))) s st rest (\<lambda>m'. load_signed m' q (pf_data_size f) = Some v)
    (pb_dec_svarint f q s st)"
  proof -
  obtain m2 where m2: "store_signed (pb_mem st) q (pf_data_size f) v = Some (m2, v)" "load_signed m2 q (pf_data_size f) = Some v"
    using store_signed_back(1) [OF assms(2)] by blast
  show ?thesis
    unfolding pb_dec_svarint_def
  proof (rule delivers_number)
  show "pb_decode_svarint s = (Some v, is_advance (length (varint (unat (zigzag v)))) s)"
    by (rule pb_decode_svarint_view [OF assms(1)])
  then show "reads s (is_advance (length (varint (unat (zigzag v)))) s)" using reader_numbers(1) [of s] by simp
  show "is_view (is_advance (length (varint (unat (zigzag v)))) s) = Some rest" by (rule view_tail [OF assms(1)])
  show "(case (is_advance (length (varint (unat (zigzag v)))) s, st) of (s, st) \<Rightarrow>
       store_clamped (store_signed (pb_mem st) q (pf_data_size f) v) v s st)
     = Some (Some (), (is_advance (length (varint (unat (zigzag v)))) s, st\<lparr>pb_mem := m2\<rparr>))"
    unfolding prod.case m2(1) by (simp add: store_clamped_def)
  show "unchanged_outside (region q (unat (pf_data_size f))) (pb_mem st) m2" by (rule store_signed_unchanged [OF m2(1)])
  show "load_signed m2 q (pf_data_size f) = Some v" by (rule m2(2))
  qed
qed

lemma uvarint_delivers:
  assumes "is_view s = Some (varint (unat v) @ rest)" "load_unsigned m p (pf_data_size f) = Some v"
  shows "delivers (region q (unat (pf_data_size f))) s st rest (\<lambda>m'. load_unsigned m' q (pf_data_size f) = Some v)
    (pb_dec_uvarint f q s st)"
  proof -
  obtain m2 where m2: "store_unsigned (pb_mem st) q (pf_data_size f) v = Some (m2, v)" "load_unsigned m2 q (pf_data_size f) = Some v"
    using store_unsigned_back [OF assms(2)] by blast
  show ?thesis
    unfolding pb_dec_uvarint_def
  proof (rule delivers_number)
  show "pb_decode_varint s = (Some v, is_advance (length (varint (unat v))) s)" by (rule pb_decode_varint_view [OF assms(1)])
  then show "reads s (is_advance (length (varint (unat v))) s)" using reader_varint [of s] by simp
  show "is_view (is_advance (length (varint (unat v))) s) = Some rest" by (rule view_tail [OF assms(1)])
  show "(case (is_advance (length (varint (unat v))) s, st) of (s, st) \<Rightarrow>
       store_clamped (store_unsigned (pb_mem st) q (pf_data_size f) v) v s st)
     = Some (Some (), (is_advance (length (varint (unat v))) s, st\<lparr>pb_mem := m2\<rparr>))"
    unfolding prod.case m2(1) by (simp add: store_clamped_def)
  show "unchanged_outside (region q (unat (pf_data_size f))) (pb_mem st) m2" by (rule store_unsigned_unchanged [OF m2(1)])
  show "load_unsigned m2 q (pf_data_size f) = Some v" by (rule m2(2))
  qed
qed

lemma fixed32_delivers:
  assumes "is_view s = Some (le_bytes 4 (unat (v :: u32)) @ rest)"
  shows "delivers (region q 4) s st rest (\<lambda>m'. load_word m' q 4 = v) (pb_dec_fixed32 f q s st)"
  unfolding pb_dec_fixed32_def
proof (rule delivers_number)
  have "unat v < 4294967296" using unat_less_2p [of v] by simp
  then have v: "of_nat (le_val (le_bytes 4 (unat v))) = v" by (simp add: le_val_le_bytes)
  show d: "pb_decode_fixed32 s = (Some v, is_advance 4 s)" using pb_decode_fixed32_view [OF assms] v by simp
  then show "reads s (is_advance 4 s)" using reader_numbers(2) [of s] by simp
  show "is_view (is_advance 4 s) = Some rest" using view_tail [OF assms] by simp
  show "unchanged_outside (region q 4) (pb_mem st) (store_word (pb_mem st) q 4 v)" by (rule unchanged_store_word)
qed (simp_all add: load_store_word)

lemma fixed64_delivers:
  assumes "is_view s = Some (le_bytes 8 (unat (v :: u64)) @ rest)"
  shows "delivers (region q 8) s st rest (\<lambda>m'. load_word m' q 8 = v) (pb_dec_fixed64 f q s st)"
  unfolding pb_dec_fixed64_def
proof (rule delivers_number)
  have "unat v < 18446744073709551616" using unat_less_2p [of v] by simp
  then have v: "of_nat (le_val (le_bytes 8 (unat v))) = v" by (simp add: le_val_le_bytes)
  show d: "pb_decode_fixed64 s = (Some v, is_advance 8 s)" using pb_decode_fixed64_view [OF assms] v by simp
  then show "reads s (is_advance 8 s)" using reader_numbers(3) [of s] by simp
  show "is_view (is_advance 8 s) = Some rest" using view_tail [OF assms] by simp
  show "unchanged_outside (region q 8) (pb_mem st) (store_word (pb_mem st) q 8 v)" by (rule unchanged_store_word)
qed (simp_all add: load_store_word)

subsection \<open>Byte strings\<close>

lemma read_to_delivers:
  assumes "is_view s = Some (bs @ rest)" "length bs = unat count"
  shows "delivers (region buf (length bs)) s st rest (\<lambda>m. m = store_bytes (pb_mem st) buf bs) (pb_read_to s st buf count)"
proof -
  have r: "pb_read s count = (Some bs, is_advance (length bs) s)" by (rule pb_read_view [OF assms])
  have rd: "reads s (is_advance (length bs) s)" using reader_read [of s count] r by simp
  show ?thesis
    unfolding pb_read_to_def r
    using rd view_tail [OF assms(1)] unchanged_store_bytes [of buf bs "pb_mem st"]
    by (simp add: delivers_def reading_def assms(2) [symmetric])
qed

text \<open>A length, then the bytes.\<close>

lemma delivers_prefixed:
  assumes v: "is_view s = Some (varint (unat (len :: u32)) @ rest1)"
    and k: "\<And>s'. is_view s' = Some rest1 \<Longrightarrow> delivers R s' st rest Q (k len (s', st))"
  shows "delivers R s st rest Q (run_attempt (reading (pb_decode_varint32 s) st) k)"
proof -
  let ?s = "is_advance (length (varint (unat len))) s"
  have d: "pb_decode_varint32 s = (Some len, ?s)" by (rule pb_decode_varint32_view [OF v])
  have "reads s ?s" using reader_varint32 [of s] d by simp
  with k [OF view_tail [OF v]] d show ?thesis
    unfolding delivers_def by (auto simp: reading_def intro: reads_trans)
qed

lemma bytes_delivers:
  assumes v: "is_view s = Some (varint (unat len) @ bs @ rest)" "length bs = unat len"
    and f: "PB_ATYPE (pf_type f) = PB_ATYPE_STATIC" "unat len + 4 \<le> unat (pf_data_size f)"
  shows "delivers (region q (unat (pf_data_size f))) s st rest
    (\<lambda>m. load_size m q = len \<and> load_bytes m (q + 4) (unat len) = bs) (pb_dec_bytes env f q s st)"
  unfolding pb_dec_bytes_def
proof (rule delivers_prefixed [OF v(1)], goal_cases)
  case (1 s')
  let ?R = "region q (unat (pf_data_size f))" and ?m = "store_size (pb_mem st) q len"
  have st: "unchanged_outside ?R (pb_mem st) ?m"
    using f(2) by (intro unchanged_mono [OF unchanged_stores(2) region_mono]) simp
  have sub: "region (q + 4) (length bs) \<subseteq> ?R"
    using region_inside [of 4 "unat len" "unat (pf_data_size f)" q] f(2) v(2) by simp
  have b64: "length bs \<le> 2 ^ 64" using unat_less_2p [of len] v(2) by simp
  have "region q 4 \<inter> region (q + 4) (length bs) = {}"
  proof -
    have "k + 4 < 2 ^ 64" if "k < length bs" for k using that v(2) unat_less_2p [of len] by simp
    then have "(\<lambda>k. q + of_nat k) ` {0..<4} \<inter> (\<lambda>k. q + of_nat k) ` {4..<4 + length bs} = {}"
      using v(2) unat_less_2p [of len] by (intro addresses_apart) auto
    then show ?thesis using region_image [of 4 q 0] region_image [OF b64, of q 4] by simp
  qed
  then have size: "load_size (store_bytes ?m (q + 4) bs) q = len"
    using agree_load_size [OF agree_unchanged [OF unchanged_store_bytes]] by (metis load_store_size)
  have bytes: "load_bytes (store_bytes ?m (q + 4) bs) (q + 4) (unat len) = bs"
    using b64 v(2) by (intro load_store_same) simp_all
  have "delivers (region (q + 4) (length bs)) s' (st\<lparr>pb_mem := ?m\<rparr>) rest (\<lambda>m. m = store_bytes ?m (q + 4) bs)
      (pb_read_to s' (st\<lparr>pb_mem := ?m\<rparr>) (q + 4) (ucast len))"
    using read_to_delivers [of s' bs rest "ucast len" "q + 4" "st\<lparr>pb_mem := ?m\<rparr>"] 1 v(2) by simp
  then have "delivers ?R s' st rest (\<lambda>m. load_size m q = len \<and> load_bytes m (q + 4) (unat len) = bs)
      (pb_read_to s' (st\<lparr>pb_mem := ?m\<rparr>) (q + 4) (ucast len))"
    unfolding delivers_def using size bytes unchanged_mono [OF _ sub] unchanged_trans [OF st] by fastforce
  moreover have "\<not> PB_SIZE_MAX < len" by (simp add: PB_SIZE_MAX_def word_less_nat_alt not_less) (use unat_less_2p [of len] in simp)
  moreover have "\<not> (ucast len + 4 :: u64) < ucast len"
    using ucast_ucast_less [of len "0"] unat_add_lem [of "ucast len :: u64" 4] unat_less_2p [of len]
    by (simp add: word_less_nat_alt)
  ultimately show ?case
    using f(2) by (simp add: static_buffer [OF f(1)] Let_def ucast_ucast_less)
qed

lemma string_length_stop:
  assumes "\<And>k. k < n \<Longrightarrow> m (p + of_nat k) \<noteq> 0" "m (p + of_nat n) = 0" "len + n < max_size"
  shows "string_length m p len max_size = len + n"
  using assms
proof (induction n arbitrary: p len)
  case 0
  then show ?case by (subst string_length.simps) simp
next
  case (Suc n)
  have "string_length m (p + 1) (len + 1) max_size = (len + 1) + n"
    using Suc.prems(1) [of "Suc _"] Suc.prems(2,3) by (intro Suc.IH) (simp_all add: algebra_simps)
  with Suc.prems(1) [of 0] Suc.prems(3) show ?case by (subst string_length.simps) simp
qed

lemma string_length_nonzero:
  assumes "k < string_length m p len max_size - len"
  shows "m (p + of_nat k) \<noteq> 0"
  using assms
proof (induction m p len max_size arbitrary: k rule: string_length.induct)
  case (1 m p len max_size)
  have c: "len < max_size \<and> m p \<noteq> 0"
    using "1.prems" by (subst (asm) string_length.simps) (auto split: if_splits)
  then have e: "string_length m p len max_size = string_length m (p + 1) (len + 1) max_size"
    by (subst string_length.simps) simp
  show ?case
  proof (cases k)
    case (Suc j)
    with "1.prems" e have "j < string_length m (p + 1) (len + 1) max_size - (len + 1)" by simp
    from "1.IH" [OF c this] Suc show ?thesis by (simp add: algebra_simps)
  qed (use c in simp)
qed

lemma string_delivers:
  assumes v: "is_view s = Some (varint (length bs) @ bs @ rest)"
    and f: "PB_ATYPE (pf_type f) = PB_ATYPE_STATIC" "length bs < unat (pf_data_size f)" and nz: "\<forall>b \<in> set bs. b \<noteq> 0"
  shows "delivers (region q (unat (pf_data_size f))) s st rest
    (\<lambda>m. string_length m q 0 (unat (pf_data_size f)) = length bs \<and> load_bytes m q (length bs) = bs) (pb_dec_string env f q s st)"
proof -
  define len where "len = (of_nat (length bs) :: u32)"
  have len: "unat len = length bs" and b32: "length bs < 2 ^ 32"
    using f(2) unat_less_2p [of "pf_data_size f"] by (simp_all add: len_def unat_of_nat_id)
  have v': "is_view s = Some (varint (unat len) @ bs @ rest)" using v len by simp
  let ?R = "region q (unat (pf_data_size f))"
  show ?thesis
    unfolding pb_dec_string_def
  proof (rule delivers_prefixed [OF v'], goal_cases)
    case (1 s')
    have len1: "unat (len + 1) = length bs + 1"
      using len f(2) unat_less_2p [of "pf_data_size f"] unat_plus_if' [of len 1] by (auto split: if_splits)
    have b64: "length bs \<le> 2 ^ 64" using b32 by simp
    from read_to_delivers [of s' bs rest "ucast len" q st] 1 len obtain s2 st2 where
      r: "pb_read_to s' st q (ucast len) = Some (Some (), (s2, st2))" "reads s' s2" "is_view s2 = Some rest"
      "pb_mem st2 = store_bytes (pb_mem st) q bs" "pb_heap st2 = pb_heap st" "fixed_count_size st2 = fixed_count_size st"
      by (auto simp: delivers_def)
    let ?m = "store_bytes (pb_mem st2) (q + ucast len) [0]"
    have addr: "q + ucast len = q + of_nat (length bs)" using len by (metis of_nat_unat)
    have at: "?m (q + of_nat k) = (if k = length bs then 0 else bs ! k)" if "k \<le> length bs" for k
    proof (cases "k = length bs")
      case True
      then show ?thesis by (simp add: addr store_bytes_def)
    next
      case False
      then have k: "k < length bs" using that by simp
      have "(of_nat k :: u64) \<noteq> of_nat (length bs)"
      proof
        assume "(of_nat k :: u64) = of_nat (length bs)"
        then have "unat (of_nat k :: u64) = unat (of_nat (length bs) :: u64)" by simp
        then show False using k b32 by (simp add: unat_of_nat_u64)
      qed
      then have "?m (q + of_nat k) = pb_mem st2 (q + of_nat k)"
        unfolding addr using unat_gt_0 [of "of_nat k - of_nat (length bs) :: u64"]
        by (simp add: store_bytes_def)
      with k b64 r(4) False show ?thesis by (simp add: store_bytes_at)
    qed
    have "load_bytes ?m q (length bs) = bs" by (rule nth_equalityI) (simp_all add: at)
    moreover have "string_length ?m q 0 (unat (pf_data_size f)) = 0 + length bs"
    proof (rule string_length_stop)
      show "?m (q + of_nat k) \<noteq> 0" if "k < length bs" for k using at [of k] that nz by simp
      show "?m (q + of_nat (length bs)) = 0" using at [of "length bs"] by simp
    qed (use f(2) in simp)
    moreover have "unchanged_outside ?R (pb_mem st) (pb_mem st2)"
      unfolding r(4) by (rule unchanged_mono [OF unchanged_store_bytes region_mono]) (use f(2) in simp)
    moreover have "unchanged_outside ?R (pb_mem st2) ?m"
    proof (rule unchanged_mono [OF unchanged_store_bytes])
      show "region (q + ucast len) (length [0 :: u8]) \<subseteq> ?R"
        unfolding addr by (rule region_inside) (use f(2) in simp)
    qed
    moreover have "\<not> (ucast (len + 1) :: u64) < ucast len" "\<not> (ucast (pf_data_size f) :: u64) < ucast (len + 1)"
      using len len1 f(2) by (simp_all add: word_less_nat_alt)
    ultimately show ?case
      using r by (auto simp: static_buffer [OF f(1)] Let_def delivers_def intro: unchanged_trans)
  qed
qed

lemma fixed_bytes_delivers:
  assumes v: "is_view s = Some (varint (length bs) @ bs @ rest)" and d: "length bs = unat (pf_data_size f)"
  shows "delivers (region q (unat (pf_data_size f))) s st rest (\<lambda>m. load_bytes m q (unat (pf_data_size f)) = bs)
    (pb_dec_fixed_length_bytes f q s st)"
proof -
  have v': "is_view s = Some (varint (unat (pf_data_size f)) @ bs @ rest)" using v d by simp
  have max: "\<not> PB_SIZE_MAX < pf_data_size f"
    by (simp add: PB_SIZE_MAX_def word_less_nat_alt not_less) (use unat_less_2p [of "pf_data_size f"] in simp)
  have b64: "length bs \<le> 2 ^ 64" using unat_less_2p [of "pf_data_size f"] d by simp
  show ?thesis
    unfolding pb_dec_fixed_length_bytes_def
  proof (rule delivers_prefixed [OF v'], goal_cases)
    case (1 s')
    show ?case
    proof (cases "pf_data_size f = 0")
      case True
      with 1 d max show ?thesis by (simp add: delivers_def zero_bytes_def store_bytes_def)
    next
      case False
      from read_to_delivers [of s' bs rest "ucast (pf_data_size f)" q st] 1 d b64
      have "delivers (region q (unat (pf_data_size f))) s' st rest (\<lambda>m. load_bytes m q (unat (pf_data_size f)) = bs)
          (pb_read_to s' st q (ucast (pf_data_size f)))"
        by (auto elim!: delivers_mono simp: load_store_same)
      with False max show ?thesis by simp
    qed
  qed
qed

end
