(* ===== verification/Pb_Decode_Image.thy ===== *)
theory Pb_Decode_Image
  imports Pb_Item_Decode
begin

text \<open>
  The decoder on the bytes the encoder writes: field by field it stores what the source structure holds.
\<close>

subsection \<open>Structures that can be received\<close>

text \<open>
  A \<open>which_\<close> member names no member of the union or one of them; the strings that are sent end before
  the end of their field.
\<close>

definition which_ok :: "mem \<Rightarrow> pb_field list \<Rightarrow> u64 \<Rightarrow> bool" where
  "which_ok m fs p \<longleftrightarrow>
     (\<forall>i < length fs. PB_HTYPE (pf_type (fs ! i)) = PB_HTYPE_ONEOF \<longrightarrow>
        (let w = load_size m (p + size_off fs i) in
         w = 0 \<or> (\<exists>j < length fs. alternatives fs i j \<and> w = pf_tag (fs ! j))))"

definition proper_item :: "(pb_field list \<Rightarrow> u64 \<Rightarrow> bool) \<Rightarrow> ('h, 's) pb_env \<Rightarrow> mem \<Rightarrow> pb_field \<Rightarrow> u64 \<Rightarrow> bool" where
  "proper_item sub env m f p \<longleftrightarrow>
     (PB_LTYPE (pf_type f) = PB_LTYPE_STRING \<longrightarrow> string_length m p 0 (unat (pf_data_size f)) < unat (pf_data_size f))
     \<and> (PB_LTYPE (pf_type f) = PB_LTYPE_SUBMESSAGE \<longrightarrow> sub (submsg_fields env f) p)"

definition proper_field ::
  "nat \<Rightarrow> (pb_field list \<Rightarrow> u64 \<Rightarrow> bool) \<Rightarrow> ('h, 's) pb_env \<Rightarrow> mem \<Rightarrow> pb_field \<Rightarrow> u64 \<Rightarrow> bool" where
  "proper_field n sub env m f p \<longleftrightarrow>
     (let h = PB_HTYPE (pf_type f); pSize = size_address p f in
      (h = PB_HTYPE_REQUIRED
       \<or> h = PB_HTYPE_OPTIONAL \<and> (if pf_size_offset f \<noteq> 0 then safe_read_bool m pSize else \<not> unset (Suc n) env m f p)
       \<or> h = PB_HTYPE_ONEOF \<and> load_size m pSize = pf_tag f
       \<longrightarrow> proper_item sub env m f p)
      \<and> (h = PB_HTYPE_REPEATED \<longrightarrow>
           (\<forall>k < unat (if pf_size_offset f \<noteq> 0 then load_size m pSize else pf_array_size f).
              proper_item sub env m f (p + of_nat k * ucast (pf_data_size f)))))"

primrec proper :: "nat \<Rightarrow> ('h, 's) pb_env \<Rightarrow> mem \<Rightarrow> pb_field list \<Rightarrow> u64 \<Rightarrow> bool" where
  "proper 0 env m fs p \<longleftrightarrow> False"
| "proper (Suc n) env m fs p \<longleftrightarrow>
     which_ok m fs p \<and> (\<forall>i < length fs. proper_field n (proper n env m) env m (fs ! i) (p + data_off fs i))"

subsection \<open>Equal images\<close>

lemma le_val_zero: "le_val bs = 0 \<longleftrightarrow> (\<forall>b \<in> set bs. b = 0)"
  by (induction bs) (auto simp: unat_eq_0)

lemma load_word_zero:
  assumes "8 * n \<le> LENGTH('a :: len)"
  shows "(load_word m p n :: 'a word) = 0 \<longleftrightarrow> (\<forall>b \<in> set (load_bytes m p n). b = 0)"
proof -
  have "le_val (load_bytes m p n) < 256 ^ n" using le_val_less [of "load_bytes m p n"] by simp
  also have "(256 :: nat) ^ n = 2 ^ (8 * n)" by (simp add: power_mult)
  also have "\<dots> \<le> 2 ^ LENGTH('a)" using assms by (intro power_increasing) auto
  finally have "unat (load_word m p n :: 'a word) = le_val (load_bytes m p n)"
    by (simp add: load_word_def unat_of_nat_id)
  then show ?thesis using le_val_zero [of "load_bytes m p n"] by (metis unat_eq_0)
qed

lemma scast_zero_iff:
  "scast (w :: u8) = (0 :: u64) \<longleftrightarrow> w = 0" "scast (x :: u16) = (0 :: u64) \<longleftrightarrow> x = 0" "scast (y :: u32) = (0 :: u64) \<longleftrightarrow> y = 0"
  using ucast_scast_id by (metis signed_0 unsigned_0)+

lemma load_number_zero:
  "load_signed m p d = Some v \<Longrightarrow> v = 0 \<longleftrightarrow> (\<forall>b \<in> set (load_bytes m p (unat d)). b = 0)"
  "load_unsigned m p d = Some v \<Longrightarrow> v = 0 \<longleftrightarrow> (\<forall>b \<in> set (load_bytes m p (unat d)). b = 0)"
proof -
  note z = load_word_zero [of "Suc 0" m p, where 'a = 8] load_word_zero [of 2 m p, where 'a = 16]
    load_word_zero [of 4 m p, where 'a = 32] load_word_zero [of 8 m p, where 'a = 64]
  have u: "ucast (w :: u8) = (0 :: u64) \<longleftrightarrow> w = 0" "ucast (x :: u16) = (0 :: u64) \<longleftrightarrow> x = 0"
    "ucast (y :: u32) = (0 :: u64) \<longleftrightarrow> y = 0" for w x y
    using ucast_ucast_id by (metis unsigned_0)+
  { assume a: "load_signed m p d = Some v"
    consider "d = 1" | "d = 2" | "d = 4" | "d = 8" using a by (auto simp: load_signed_def split: if_splits)
    then show "v = 0 \<longleftrightarrow> (\<forall>b \<in> set (load_bytes m p (unat d)). b = 0)"
      using a by cases (simp_all add: load_signed_def z [symmetric], auto simp: scast_zero_iff) }
  { assume a: "load_unsigned m p d = Some v"
    consider "d = 1" | "d = 2" | "d = 4" | "d = 8" using a by (auto simp: load_unsigned_def split: if_splits)
    then show "v = 0 \<longleftrightarrow> (\<forall>b \<in> set (load_bytes m p (unat d)). b = 0)"
      using a by cases (simp_all add: load_unsigned_def z [symmetric], auto simp: u) }
qed

text \<open>Items with the same image are both blank or both not.\<close>

lemma string_length_zero: "0 < d \<Longrightarrow> string_length m p 0 d = 0 \<longleftrightarrow> m p = 0"
proof -
  assume d: "0 < d"
  have "string_length m (p + 1) (Suc 0) d \<noteq> 0" if "m p \<noteq> 0"
  proof -
    have "len \<le> string_length m p len max_size" for m p len max_size
    proof (induction m p len max_size rule: string_length.induct)
      case (1 m p len max_size)
      then show ?case by (subst string_length.simps) auto
    qed
    from this [of "Suc 0" m "p + 1" d] show ?thesis by simp
  qed
  with d show ?thesis by (subst string_length.simps) simp
qed

lemma blank_same_image:
  assumes ok: "item_ok sub0 env f" and w: "item_image sub env m f p = Some w" "item_image sub' env m' f q = Some w"
    and ns: "PB_LTYPE (pf_type f) \<noteq> PB_LTYPE_SUBMESSAGE"
    and str: "PB_LTYPE (pf_type f) = PB_LTYPE_STRING \<Longrightarrow> 0 < unat (pf_data_size f)"
  shows "blank u env m f p \<longleftrightarrow> blank u' env m' f q"
proof -
  let ?l = "PB_LTYPE (pf_type f)" and ?d = "pf_data_size f"
  have zz: "v = v'" if "zigzag v = zigzag v'" for v v' using that by (metis unzigzag_zigzag)
  from ok ns consider (Bool) "?l = PB_LTYPE_BOOL" "unat ?d = 1" | (V) "?l = PB_LTYPE_VARINT" | (U) "?l = PB_LTYPE_UVARINT"
    | (S) "?l = PB_LTYPE_SVARINT" | (F4) "?l = PB_LTYPE_FIXED32" "unat ?d = 4" | (F8) "?l = PB_LTYPE_FIXED64" "unat ?d = 8"
    | (B) "?l = PB_LTYPE_BYTES" | (T) "?l = PB_LTYPE_STRING" | (L) "?l = PB_LTYPE_FIXED_LENGTH_BYTES"
    by (auto simp: item_ok_def Let_def)
  then show ?thesis
  proof cases
    case Bool
    have b: "load_bytes m'' r (unat ?d) = [m'' r]" for m'' r by (simp add: Bool(2) load_bytes_def)
    show ?thesis using w Bool(1) by (auto simp: item_image_def blank_def Let_def pb_ltypes b safe_read_bool_def split: if_splits)
  next
    case V
    from w V obtain v where "load_signed m p ?d = Some v" "load_signed m' q ?d = Some v"
      by (auto simp: item_image_def Let_def pb_ltypes)
    from this [THEN load_number_zero(1)] V show ?thesis by (simp add: blank_def Let_def pb_ltypes)
  next
    case U
    from w U obtain v where "load_unsigned m p ?d = Some v" "load_unsigned m' q ?d = Some v"
      by (auto simp: item_image_def Let_def pb_ltypes)
    from this [THEN load_number_zero(2)] U show ?thesis by (simp add: blank_def Let_def pb_ltypes)
  next
    case S
    from w S obtain v where "load_signed m p ?d = Some v" "load_signed m' q ?d = Some v"
      by (auto simp: item_image_def Let_def pb_ltypes dest: zz)
    from this [THEN load_number_zero(1)] S show ?thesis by (simp add: blank_def Let_def pb_ltypes)
  next
    case F4
    from w F4 have "(load_word m p 4 :: u32) = load_word m' q 4"
      by (auto simp: item_image_def Let_def pb_ltypes)
    with load_word_zero [of 4 m p, where 'a = 32] load_word_zero [of 4 m' q, where 'a = 32] F4
    show ?thesis by (simp add: blank_def Let_def pb_ltypes)
  next
    case F8
    from w F8 have "(load_word m p 8 :: u64) = load_word m' q 8"
      by (auto simp: item_image_def Let_def pb_ltypes)
    with load_word_zero [of 8 m p, where 'a = 64] load_word_zero [of 8 m' q, where 'a = 64] F8
    show ?thesis by (simp add: blank_def Let_def pb_ltypes)
  next
    case B
    from w B have "W_string (load_bytes m (p + 4) (unat (load_size m p))) = w"
      "W_string (load_bytes m' (q + 4) (unat (load_size m' q))) = w"
      by (simp_all add: item_image_def Let_def pb_ltypes split: if_splits)
    then have "load_bytes m (p + 4) (unat (load_size m p)) = load_bytes m' (q + 4) (unat (load_size m' q))"
      by (metis wire_value.inject(3))
    from arg_cong [OF this, of length] have "unat (load_size m p) = unat (load_size m' q)" by simp
    then have "load_size m p = load_size m' q" by (intro word_eq_by_unat) simp
    with B show ?thesis by (simp add: blank_def Let_def pb_ltypes)
  next
    case T
    from w T have "W_string (load_bytes m p (string_length m p 0 (unat ?d))) = w"
      "W_string (load_bytes m' q (string_length m' q 0 (unat ?d))) = w"
      by (simp_all add: item_image_def Let_def pb_ltypes)
    then have "load_bytes m p (string_length m p 0 (unat ?d)) = load_bytes m' q (string_length m' q 0 (unat ?d))"
      by (metis wire_value.inject(3))
    from arg_cong [OF this, of length] have "string_length m p 0 (unat ?d) = string_length m' q 0 (unat ?d)" by simp
    with string_length_zero [OF str [OF T], of m p] string_length_zero [OF str [OF T], of m' q]
    have "m p = 0 \<longleftrightarrow> m' q = 0" by simp
    with T show ?thesis by (simp add: blank_def Let_def pb_ltypes)
  next
    case L
    then show ?thesis by (simp add: blank_def Let_def pb_ltypes)
  qed
qed

subsection \<open>Fields without a value, by the image\<close>

lemma field_image_unset:
  assumes im: "field_image n (message_image n env m) env m f p = Some rs"
    and h: "PB_HTYPE (pf_type f) \<noteq> PB_HTYPE_ONEOF"
  shows "unset (Suc n) env m f p \<longleftrightarrow>
    PB_HTYPE (pf_type f) \<noteq> PB_HTYPE_REQUIRED \<and> rs = [] \<and> (PB_HTYPE (pf_type f) = PB_HTYPE_REPEATED \<longrightarrow> pf_size_offset f \<noteq> 0)"
proof (cases rule: htype_cases [of "pf_type f"])
  case Repeated
  have "item_images g f p (unat c) \<noteq> Some []" if "c \<noteq> 0" for g and c :: u32
  proof
    assume "item_images g f p (unat c) = Some []"
    from those_SomeD [OF this [unfolded item_images_def]] have "unat c = 0" by simp
    with that show False by (simp add: unat_eq_0)
  qed
  then show ?thesis
    using im Repeated by (auto simp: field_image_def Let_def pb_htypes bind_eq_Some_conv split: if_splits)
next
  case Optional
  then show ?thesis using im by (auto simp: field_image_def Let_def pb_htypes split: if_splits)
qed (use h in \<open>simp_all add: pb_htypes\<close>)

lemma image_at:
  assumes "message_image (Suc n) env m fs p = Some rss" "i < length fs"
  shows "field_image n (message_image n env m) env m (fs ! i) (p + data_off fs i) = Some (rss ! i)" "length rss = length fs"
  using those_SomeD [OF assms(1) [unfolded message_image.simps]] assms(2) by simp_all

lemma which_chosen:
  assumes r: "regular (Suc n) env fs" and im: "message_image (Suc n) env m fs p = Some rss"
    and i: "i < length fs" "PB_HTYPE (pf_type (fs ! i)) = PB_HTYPE_ONEOF"
  shows "rss ! i \<noteq> [] \<longleftrightarrow> load_size m (p + size_off fs i) = pf_tag (fs ! i)"
  using image_at(1) [OF im i(1)] size_address_regular [OF r i(1), of p] i(2)
  by (auto simp: field_image_def Let_def pb_htypes split: if_splits)

lemma which_unset:
  assumes s: "static_message (Suc n) env fs sz" and r: "regular (Suc n) env fs"
    and im: "message_image (Suc n) env m fs p = Some rss" and w: "which_ok m fs p"
    and i: "i < length fs" "PB_HTYPE (pf_type (fs ! i)) = PB_HTYPE_ONEOF"
  shows "load_size m (p + size_off fs i) = 0 \<longleftrightarrow> (\<forall>j < length fs. alternatives fs i j \<longrightarrow> rss ! j = [])"
proof -
  have chosen: "rss ! j \<noteq> [] \<longleftrightarrow> load_size m (p + size_off fs i) = pf_tag (fs ! j)" if "j < length fs" "alternatives fs i j" for j
    using which_chosen [OF r im that(1)] that(2) by (simp add: alternatives_def)
  have "pf_tag (fs ! j) \<noteq> 0" if "j < length fs" for j using s that by simp
  with chosen w i show ?thesis unfolding which_ok_def Let_def by metis
qed

lemma unset_same:
  assumes s: "static_message (Suc n) env fs sz" and r: "regular (Suc n) env fs"
    and im: "message_image (Suc n) env m fs p = Some rss" "message_image (Suc n) env m' fs q = Some rss"
    and w: "which_ok m fs p" "which_ok m' fs q" and i: "i < length fs"
  shows "unset (Suc n) env m' (fs ! i) (q + data_off fs i) \<longleftrightarrow> unset (Suc n) env m (fs ! i) (p + data_off fs i)"
proof (cases "PB_HTYPE (pf_type (fs ! i)) = PB_HTYPE_ONEOF")
  case True
  then have "unset (Suc n) env m'' (fs ! i) (a + data_off fs i) \<longleftrightarrow> load_size m'' (a + size_off fs i) = 0" for m'' a
    using size_address_regular [OF r i, of a] by (simp add: Let_def pb_htypes)
  with which_unset [OF s r im(1) w(1) i True] which_unset [OF s r im(2) w(2) i True] show ?thesis by blast
next
  case False
  from field_image_unset [OF image_at(1) [OF im(1) i] False] field_image_unset [OF image_at(1) [OF im(2) i] False]
  show ?thesis by blast
qed

text \<open>The items that are not submessages.\<close>

lemma scalar_delivers:
  assumes ok: "item_ok sub0 env f" and static: "PB_ATYPE (pf_type f) = PB_ATYPE_STATIC"
    and ns: "PB_LTYPE (pf_type f) \<noteq> PB_LTYPE_SUBMESSAGE"
    and w: "item_image sub env m f p = Some w" and pr: "proper_item prop env m f p"
    and v: "is_view s = Some (wire_bytes w @ rest)"
  shows "delivers (region q (unat (pf_data_size f))) s st rest (\<lambda>m'. item_image (sub' m') env m' f q = Some w)
    (PB_DECODERS n decode env (PB_LTYPE (pf_type f)) f q s st)"
proof -
  let ?l = "PB_LTYPE (pf_type f)" and ?d = "unat (pf_data_size f)"
  note scalar = PB_DECODERS_def item_image_def Let_def pb_ltypes
  from ok ns consider (Bool) "?l = PB_LTYPE_BOOL" "?d = 1" | (V) "?l = PB_LTYPE_VARINT" | (U) "?l = PB_LTYPE_UVARINT"
    | (S) "?l = PB_LTYPE_SVARINT" | (F4) "?l = PB_LTYPE_FIXED32" "?d = 4" | (F8) "?l = PB_LTYPE_FIXED64" "?d = 8"
    | (B) "?l = PB_LTYPE_BYTES" | (T) "?l = PB_LTYPE_STRING" | (L) "?l = PB_LTYPE_FIXED_LENGTH_BYTES"
    by (auto simp: item_ok_def Let_def)
  then show ?thesis
  proof cases
    case Bool
    then have e: "w = W_varint (of_bool (safe_read_bool m p))" using w by (simp add: item_image_def Let_def pb_ltypes)
    then have "delivers (region q 1) s st rest (\<lambda>m'. safe_read_bool m' q = safe_read_bool m p) (pb_dec_bool f q s st)"
      using v by (intro bool_delivers) simp
    with Bool e show ?thesis by (auto simp: scalar elim!: delivers_mono)
  next
    case V
    with w obtain x where x: "load_signed m p (pf_data_size f) = Some x" "w = W_varint x" by (auto simp: scalar)
    from varint_delivers [OF _ x(1)] v x(2) have
      "delivers (region q ?d) s st rest (\<lambda>m'. load_signed m' q (pf_data_size f) = Some x) (pb_dec_varint f q s st)" by simp
    with V x(2) show ?thesis by (auto simp: scalar elim!: delivers_mono)
  next
    case U
    with w obtain x where x: "load_unsigned m p (pf_data_size f) = Some x" "w = W_varint x" by (auto simp: scalar)
    from uvarint_delivers [OF _ x(1)] v x(2) have
      "delivers (region q ?d) s st rest (\<lambda>m'. load_unsigned m' q (pf_data_size f) = Some x) (pb_dec_uvarint f q s st)" by simp
    with U x(2) show ?thesis by (auto simp: scalar elim!: delivers_mono)
  next
    case S
    with w obtain x where x: "load_signed m p (pf_data_size f) = Some x" "w = W_varint (zigzag x)" by (auto simp: scalar)
    from svarint_delivers [OF _ x(1)] v x(2) have
      "delivers (region q ?d) s st rest (\<lambda>m'. load_signed m' q (pf_data_size f) = Some x) (pb_dec_svarint f q s st)" by simp
    with S x(2) show ?thesis by (auto simp: scalar elim!: delivers_mono)
  next
    case F4
    then have e: "w = W_32bit (load_word m p 4)" using w by (simp add: scalar)
    from fixed32_delivers v e have
      "delivers (region q 4) s st rest (\<lambda>m'. load_word m' q 4 = (load_word m p 4 :: u32)) (pb_dec_fixed32 f q s st)" by simp
    with F4 e show ?thesis by (auto simp: scalar elim!: delivers_mono)
  next
    case F8
    then have e: "w = W_64bit (load_word m p 8)" using w by (simp add: scalar)
    from fixed64_delivers v e have
      "delivers (region q 8) s st rest (\<lambda>m'. load_word m' q 8 = (load_word m p 8 :: u64)) (pb_dec_fixed64 f q s st)" by simp
    with F8 e show ?thesis by (auto simp: scalar elim!: delivers_mono)
  next
    case B
    with w have e: "w = W_string (load_bytes m (p + 4) (unat (load_size m p)))" "unat (load_size m p) + 4 \<le> ?d"
      by (auto simp: scalar split: if_splits)
    have "delivers (region q ?d) s st rest (\<lambda>m'. load_size m' q = load_size m p
        \<and> load_bytes m' (q + 4) (unat (load_size m p)) = load_bytes m (p + 4) (unat (load_size m p))) (pb_dec_bytes env f q s st)"
      using v e(1) by (intro bytes_delivers [OF _ _ static e(2)]) simp_all
    with B e show ?thesis by (auto simp: scalar elim!: delivers_mono)
  next
    case T
    define k where "k = string_length m p 0 ?d"
    have e: "w = W_string (load_bytes m p k)" using w T by (simp add: scalar k_def)
    have k: "k < ?d" using pr T by (simp add: proper_item_def k_def)
    have "b \<noteq> 0" if "b \<in> set (load_bytes m p k)" for b
      using that string_length_nonzero [of _ m p 0 ?d] by (auto simp: load_bytes_def k_def)
    then have "delivers (region q ?d) s st rest (\<lambda>m'. string_length m' q 0 ?d = length (load_bytes m p k)
        \<and> load_bytes m' q (length (load_bytes m p k)) = load_bytes m p k) (pb_dec_string env f q s st)"
      using v e k by (intro string_delivers [OF _ static]) simp_all
    with T e show ?thesis by (auto simp: scalar elim!: delivers_mono)
  next
    case L
    then have e: "w = W_string (load_bytes m p ?d)" using w by (simp add: scalar)
    have "delivers (region q ?d) s st rest (\<lambda>m'. load_bytes m' q ?d = load_bytes m p ?d) (pb_dec_fixed_length_bytes f q s st)"
      using v e by (intro fixed_bytes_delivers) simp_all
    with L e show ?thesis by (auto simp: scalar elim!: delivers_mono)
  qed
qed

subsection \<open>The interface of a level\<close>

locale image_decoder =
  fixes n :: nat and env :: "('h, 's) pb_env" and decode :: "('h, 's) message_decoder"
  assumes decode_image:
    "static_message n env fs sz \<Longrightarrow> regular n env fs \<Longrightarrow> object_at src sz \<Longrightarrow> object_at dest sz
       \<Longrightarrow> proper n env m fs src \<Longrightarrow> message_image n env m fs src = Some rss
       \<Longrightarrow> initial n env (pb_mem st) fs dest \<Longrightarrow> is_view s = Some (message_bytes (concat rss))
       \<Longrightarrow> delivers (region dest sz) s st []
             (\<lambda>m'. message_image n env m' fs dest = Some rss \<and> which_ok m' fs dest) (decode fs dest s st)"
begin

lemma initialized_image:
  assumes "static_message n env fs sz" "regular n env fs" "object_at src sz" "object_at dest sz"
    "proper n env m fs src" "message_image n env m fs src = Some rss" "is_view s = Some (message_bytes (concat rss))"
  shows "delivers (region dest sz) s st []
    (\<lambda>m'. message_image n env m' fs dest = Some rss \<and> which_ok m' fs dest) (decode_initialized n decode env fs dest s st)"
proof -
  from defaults_initial [OF assms(1,2,4), of st] obtain st1 where st1:
    "for_fields (pb_field_set_to_default n env) fs dest st = Some st1" "initial n env (pb_mem st1) fs dest"
    "unchanged_outside (region dest sz) (pb_mem st) (pb_mem st1)" "pb_heap st1 = pb_heap st"
    "fixed_count_size st1 = fixed_count_size st" by blast
  from decode_image [OF assms(1-6) st1(2) assms(7)] show ?thesis
    using st1(1,4,5) unchanged_trans [OF st1(3)]
    by (auto simp: delivers_def decode_initialized_def pb_message_set_to_defaults_def)
qed

lemma submessage_delivers:
  assumes s: "static_message n env (submsg_fields env f) sz" and r: "regular n env (submsg_fields env f)"
    and p: "object_at p sz" "object_at q sz" and pr: "proper n env m (submsg_fields env f) p"
    and im: "message_image n env m (submsg_fields env f) p = Some rss"
    and d: "d = message_bytes (concat rss)" "length d < 2 ^ 32"
    and init: "PB_HTYPE (pf_type f) \<noteq> PB_HTYPE_REPEATED \<Longrightarrow> initial n env (pb_mem st) (submsg_fields env f) q"
    and v: "is_view s = Some (varint (length d) @ d @ rest)" and ptr: "pf_ptr f \<noteq> Null_ptr"
  shows "delivers (region q sz) s st rest
    (\<lambda>m'. message_image n env m' (submsg_fields env f) q = Some rss \<and> which_ok m' (submsg_fields env f) q)
    (pb_dec_submessage n decode env f q s st)"
proof -
  from pb_make_string_substream_view [OF v d(2)] obtain sub s1 where sub: "pb_make_string_substream s = (Some sub, s1)"
    "is_view sub = Some d" "\<And>sub'. reads sub sub' \<Longrightarrow>
      \<exists>s2. pb_close_string_substream s1 sub' = (Some (), s2) \<and> is_view s2 = Some rest \<and> reads s s2" by blast
  define r where "r = (if PB_HTYPE (pf_type f) = PB_HTYPE_REPEATED
    then decode_initialized n decode env (submsg_fields env f) q sub st else decode (submsg_fields env f) q sub st)"
  let ?Q = "\<lambda>m'. message_image n env m' (submsg_fields env f) q = Some rss \<and> which_ok m' (submsg_fields env f) q"
  have "delivers (region q sz) sub st [] ?Q r"
    using initialized_image [OF s assms(2) p pr im sub(2) [unfolded d(1)]]
      decode_image [OF s assms(2) p pr im init sub(2) [unfolded d(1)]]
    by (simp add: r_def)
  then obtain sub' st' where r': "r = Some (Some (), (sub', st'))" "reads sub sub'"
    "unchanged_outside (region q sz) (pb_mem st) (pb_mem st')" "pb_heap st' = pb_heap st"
    "fixed_count_size st' = fixed_count_size st" "?Q (pb_mem st')"
    by (auto simp: delivers_def)
  from sub(3) [OF r'(2)] r' sub(1) ptr show ?thesis
    by (auto simp: pb_dec_submessage_def reading_def r_def [symmetric] close_with_def delivers_def)
qed

lemma item_delivers:
  assumes ok: "item_ok (static_message n env) env f" and static: "PB_ATYPE (pf_type f) = PB_ATYPE_STATIC"
    and reg: "PB_LTYPE (pf_type f) = PB_LTYPE_SUBMESSAGE \<Longrightarrow> regular n env (submsg_fields env f)"
    and nz: "PB_LTYPE (pf_type f) = PB_LTYPE_STRING \<Longrightarrow> pf_data_size f \<noteq> 0"
    and p: "object_at p (unat (pf_data_size f))" "object_at q (unat (pf_data_size f))"
    and w: "item_image (message_image n env m) env m f p = Some w" and pr: "proper_item (proper n env m) env m f p"
    and v: "is_view s = Some (wire_bytes w @ rest)"
    and init: "PB_LTYPE (pf_type f) = PB_LTYPE_SUBMESSAGE \<Longrightarrow> PB_HTYPE (pf_type f) \<noteq> PB_HTYPE_REPEATED
      \<Longrightarrow> initial n env (pb_mem st) (submsg_fields env f) q"
  shows "delivers (region q (unat (pf_data_size f))) s st rest
    (\<lambda>m'. item_image (message_image n env m') env m' f q = Some w
       \<and> (blank (unset n env m') env m' f q \<longleftrightarrow> blank (unset n env m) env m f p))
    (PB_DECODERS n decode env (PB_LTYPE (pf_type f)) f q s st)"
proof (cases "PB_LTYPE (pf_type f) = PB_LTYPE_SUBMESSAGE")
  case True
  from ok True have s: "static_message n env (submsg_fields env f) (unat (pf_data_size f))" "pf_ptr f \<noteq> Null_ptr"
    by (auto simp: item_ok_def Let_def pb_ltypes)
  from pr True have sub: "proper n env m (submsg_fields env f) p" by (simp add: proper_item_def)
  from w True obtain rss where rss: "message_image n env m (submsg_fields env f) p = Some rss"
    "length (message_bytes (concat rss)) < 2 ^ 32" "w = W_string (message_bytes (concat rss))"
    by (auto simp: item_image_def Let_def pb_ltypes bind_eq_Some_conv)
  have "PB_DECODERS n decode env (PB_LTYPE (pf_type f)) f = pb_dec_submessage n decode env f"
    using True by (simp add: PB_DECODERS_def pb_ltypes)
  moreover have "delivers (region q (unat (pf_data_size f))) s st rest
    (\<lambda>m'. message_image n env m' (submsg_fields env f) q = Some rss \<and> which_ok m' (submsg_fields env f) q)
    (pb_dec_submessage n decode env f q s st)"
    using v by (intro submessage_delivers [OF s(1) reg [OF True] p sub rss(1) refl rss(2) init [OF True] _ s(2)])
      (simp_all add: rss(3))
  moreover have "item_image (message_image n env m') env m' f q = Some w
       \<and> (blank (unset n env m') env m' f q \<longleftrightarrow> blank (unset n env m) env m f p)"
    if Q: "message_image n env m' (submsg_fields env f) q = Some rss \<and> which_ok m' (submsg_fields env f) q" for m'
  proof
    show "item_image (message_image n env m') env m' f q = Some w"
      using Q rss True by (simp add: item_image_def Let_def pb_ltypes)
    obtain k where k: "n = Suc k" using s(1) by (cases n) auto
    have "which_ok m (submsg_fields env f) p" using sub by (simp add: k)
    from unset_same [OF s(1) [unfolded k] reg [OF True, unfolded k] rss(1) [unfolded k] _ this, of m' q] Q
    show "blank (unset n env m') env m' f q \<longleftrightarrow> blank (unset n env m) env m f p"
      using True by (simp add: blank_def Let_def pb_ltypes k del: unset.simps)
  qed
  ultimately show ?thesis by (simp add: delivers_mono)
next
  case False
  let ?l = "PB_LTYPE (pf_type f)" and ?d = "unat (pf_data_size f)"
  let ?Q = "\<lambda>m'. item_image (message_image n env m') env m' f q = Some w"
  have "delivers (region q ?d) s st rest ?Q (PB_DECODERS n decode env ?l f q s st)"
    by (rule scalar_delivers [OF ok static False w pr v])
  moreover have "blank (unset n env m') env m' f q \<longleftrightarrow> blank (unset n env m) env m f p" if "?Q m'" for m'
    using blank_same_image [OF ok that w False] nz by (simp add: unat_gt_0)
  ultimately show ?thesis by (simp add: delivers_mono)
qed

end

end
