(* ===== verification/Pb_Decoded.thy ===== *)
theory Pb_Decoded
  imports Pb_Decode_Image
begin

text \<open>
  The memory of the receiver while a message arrives: the fields already received have their images, the
  others are as before decoding.  No decoder occurs here.
\<close>

definition sent ::
  "nat \<Rightarrow> ('h, 's) pb_env \<Rightarrow> mem \<Rightarrow> pb_field list \<Rightarrow> u64 \<Rightarrow> u64 \<Rightarrow> nat \<Rightarrow> wire_record list list \<Rightarrow> bool" where
  "sent n env m fs src dest sz rss \<longleftrightarrow>
     static_message (Suc n) env fs sz \<and> regular (Suc n) env fs \<and> object_at src sz \<and> object_at dest sz
     \<and> proper (Suc n) env m fs src \<and> message_image (Suc n) env m fs src = Some rss"

lemma sentD:
  assumes "sent n env m fs src dest sz rss"
  shows "static_message (Suc n) env fs sz" "regular (Suc n) env fs" "object_at src sz" "object_at dest sz"
    "which_ok m fs src" "message_image (Suc n) env m fs src = Some rss" "length rss = length fs"
    "tagged_fields fs" "dest \<noteq> 0"
proof -
  show s: "static_message (Suc n) env fs sz" and "regular (Suc n) env fs" "object_at src sz" "object_at dest sz"
    and im: "message_image (Suc n) env m fs src = Some rss"
    using assms unfolding sent_def by blast+
  show "which_ok m fs src" using assms by (simp add: sent_def)
  show "tagged_fields fs" by (rule static_tagged [OF s])
  show "dest \<noteq> 0" using \<open>object_at dest sz\<close> by (simp add: object_at_def)
  show "length rss = length fs"
    using those_SomeD [OF im [unfolded message_image.simps]] by simp
qed

definition decoded ::
  "nat \<Rightarrow> ('h, 's) pb_env \<Rightarrow> mem \<Rightarrow> pb_field list \<Rightarrow> u64 \<Rightarrow> u64 \<Rightarrow> wire_record list list \<Rightarrow> nat \<Rightarrow> mem \<Rightarrow> bool" where
  "decoded n env m fs src dest rss i m' \<longleftrightarrow>
     (\<forall>j < i. field_image n (message_image n env m') env m' (fs ! j) (dest + data_off fs j) = Some (rss ! j))
     \<and> (\<forall>j < length fs. i \<le> j \<longrightarrow> PB_HTYPE (pf_type (fs ! j)) \<noteq> PB_HTYPE_ONEOF \<longrightarrow>
          initial_field (initial n env m') env m' (fs ! j) (dest + data_off fs j))
     \<and> (\<forall>j < length fs. PB_HTYPE (pf_type (fs ! j)) = PB_HTYPE_ONEOF \<longrightarrow>
          load_size m' (dest + size_off fs j)
            = (if \<exists>k < i. alternatives fs j k \<and> rss ! k \<noteq> [] then load_size m (src + size_off fs j) else 0))"

lemma decodedD:
  assumes "decoded n env m fs src dest rss i m'"
  shows "j < i \<Longrightarrow> field_image n (message_image n env m') env m' (fs ! j) (dest + data_off fs j) = Some (rss ! j)"
    "j < length fs \<Longrightarrow> i \<le> j \<Longrightarrow> PB_HTYPE (pf_type (fs ! j)) \<noteq> PB_HTYPE_ONEOF
       \<Longrightarrow> initial_field (initial n env m') env m' (fs ! j) (dest + data_off fs j)"
    "j < length fs \<Longrightarrow> PB_HTYPE (pf_type (fs ! j)) = PB_HTYPE_ONEOF \<Longrightarrow>
       load_size m' (dest + size_off fs j)
         = (if \<exists>k < i. alternatives fs j k \<and> rss ! k \<noteq> [] then load_size m (src + size_off fs j) else 0)"
  using assms unfolding decoded_def by blast+

lemma decoded_start:
  assumes "sent n env m fs src dest sz rss" "initial (Suc n) env m' fs dest"
  shows "decoded n env m fs src dest rss 0 m'"
  using assms(2) size_address_regular [OF sentD(2) [OF assms(1)], of _ dest]
  by (auto simp: decoded_def initial_field_def Let_def)

lemma decoded_end:
  assumes a: "sent n env m fs src dest sz rss" and d: "decoded n env m fs src dest rss (length fs) m'"
  shows "message_image (Suc n) env m' fs dest = Some rss" "which_ok m' fs dest"
proof -
  show "message_image (Suc n) env m' fs dest = Some rss"
    unfolding message_image.simps using sentD(7) [OF a] decodedD(1) [OF d] by (intro those_SomeI) simp_all
  show "which_ok m' fs dest"
    using sentD(5) [OF a] decodedD(3) [OF d] unfolding which_ok_def Let_def by presburger
qed

lemma tags_differ:
  assumes "regular (Suc n) env fs" "i < length fs" "j < length fs" "i \<noteq> j"
  shows "pf_tag (fs ! i) \<noteq> pf_tag (fs ! j)"
proof -
  have "distinct (map pf_tag fs)" using assms(1) by simp
  from nth_eq_iff_index_eq [OF this, of i j] assms(2-4) show ?thesis by simp
qed

text \<open>A field of the source without records leaves the receiver as it is.\<close>

lemma decoded_skip:
  assumes a: "sent n env m fs src dest sz rss" and i: "i < length fs" and d: "decoded n env m fs src dest rss i m'"
    and e: "rss ! i = []"
  shows "decoded n env m fs src dest rss (Suc i) m'"
proof -
  let ?f = "fs ! i" and ?p = "dest + data_off fs i"
  note s = sentD(1) [OF a] and r = sentD(2) [OF a]
  note im = image_at(1) [OF sentD(6) [OF a] i, unfolded e]
  have tag: "pf_tag ?f \<noteq> 0" using s i by simp
  have ini: "initial_field (initial n env m') env m' ?f ?p" if "PB_HTYPE (pf_type ?f) \<noteq> PB_HTYPE_ONEOF"
    using decodedD(2) [OF d i _ that] by simp
  have un: "unset (Suc n) env m' ?f ?p" if "unset (Suc n) env m ?f (src + data_off fs i)" "PB_HTYPE (pf_type ?f) \<noteq> PB_HTYPE_ONEOF"
    by (rule initial_unset [OF s r i ini [OF that(2)] that(1)])
  have "field_image n (message_image n env m') env m' ?f ?p = Some []"
  proof (cases rule: htype_cases [of "pf_type ?f"])
    case Required
    with im show ?thesis by (auto simp: field_image_def Let_def pb_htypes)
  next
    case Optional
    with field_image_unset [OF im] have "unset (Suc n) env m ?f (src + data_off fs i)" by (simp add: pb_htypes)
    with un Optional have "unset (Suc n) env m' ?f ?p" by (simp add: pb_htypes)
    with Optional show ?thesis by (auto simp: field_image_def Let_def pb_htypes)
  next
    case Repeated
    show ?thesis
    proof (cases "pf_size_offset ?f = 0")
      case True
      have "unset (Suc n) env m ?f (src + data_off fs i) \<longleftrightarrow> False" using True Repeated by (simp add: Let_def pb_htypes)
      moreover have "item_images g ?f q (unat c) \<noteq> Some []" if "c \<noteq> 0" for g q and c :: u32
        using that by (auto simp: item_images_def unat_eq_0 dest: those_SomeD)
      ultimately show ?thesis
        using im Repeated True by (auto simp: field_image_def Let_def pb_htypes bind_eq_Some_conv split: if_splits)
    next
      case False
      with field_image_unset [OF im] Repeated have "unset (Suc n) env m ?f (src + data_off fs i)" by (simp add: pb_htypes)
      with un Repeated have "unset (Suc n) env m' ?f ?p" by (simp add: pb_htypes)
      with Repeated False show ?thesis by (auto simp: field_image_def Let_def pb_htypes)
    qed
  next
    case Oneof
    with which_chosen [OF r sentD(6) [OF a] i] e decodedD(3) [OF d i] tag size_address_regular [OF r i, of dest]
    show ?thesis by (auto simp: field_image_def Let_def pb_htypes split: if_splits)
  qed
  then show ?thesis
    using d e unfolding decoded_def less_Suc_eq by (auto simp: Suc_le_eq)
qed

text \<open>A field received: its bytes have changed, those of the other fields have not.\<close>

lemma decoded_step:
  assumes a: "sent n env m fs src dest sz rss" and i: "i < length fs" and d: "decoded n env m fs src dest rss i m1"
    and u: "unchanged_outside (field_region fs dest i) m1 m2"
    and im: "field_image n (message_image n env m2) env m2 (fs ! i) (dest + data_off fs i) = Some (rss ! i)"
    and one: "PB_HTYPE (pf_type (fs ! i)) = PB_HTYPE_ONEOF \<Longrightarrow>
      rss ! i \<noteq> [] \<and> load_size m2 (dest + size_off fs i) = pf_tag (fs ! i)"
  shows "decoded n env m fs src dest rss (Suc i) m2"
proof -
  note s = sentD(1) [OF a] and r = sentD(2) [OF a] and o = sentD(4) [OF a] and src = sentD(6) [OF a]
  have ag: "agree (field_region fs dest j) m1 m2" if "j < length fs" "j \<noteq> i" "\<not> alternatives fs j i" for j
    by (rule agree_unchanged [OF u fields_apart [OF s r that(1) i that(2,3)]])
  have alt_one: "PB_HTYPE (pf_type (fs ! i)) = PB_HTYPE_ONEOF" "PB_HTYPE (pf_type (fs ! j)) = PB_HTYPE_ONEOF"
    "size_off fs j = size_off fs i" if "alternatives fs j i" for j using that by (simp_all add: alternatives_def)
  have chosen: "load_size m (src + size_off fs i) = pf_tag (fs ! i)" if "alternatives fs j i" for j
    using which_chosen [OF r src i] one alt_one [OF that] by simp
  have "field_image n (message_image n env m2) env m2 (fs ! j) (dest + data_off fs j) = Some (rss ! j)" if j: "j < Suc i" for j
  proof (cases "j = i")
    case False
    then have ji: "j < i" "j < length fs" using j i by simp_all
    show ?thesis
    proof (cases "alternatives fs j i")
      case True
      note al = alt_one [OF True]
      have "rss ! j = []"
        using which_chosen [OF r src ji(2) al(2)] chosen [OF True] al(3) tags_differ [OF r ji(2) i False] by auto
      moreover have "load_size m2 (size_address (dest + data_off fs j) (fs ! j)) \<noteq> pf_tag (fs ! j)"
        using size_address_regular [OF r ji(2), of dest] one al tags_differ [OF r ji(2) i False] by auto
      ultimately show ?thesis using al(2) by (simp add: field_image_def Let_def pb_htypes)
    next
      case no: False
      from agree_field(1) [OF s r o ji(2) ag [OF ji(2) False no]] decodedD(1) [OF d ji(1)] show ?thesis by simp
    qed
  qed (use im in simp)
  moreover have "initial_field (initial n env m2) env m2 (fs ! j) (dest + data_off fs j)"
    if j: "j < length fs" "Suc i \<le> j" "PB_HTYPE (pf_type (fs ! j)) \<noteq> PB_HTYPE_ONEOF" for j
  proof -
    have "\<not> alternatives fs j i" "j \<noteq> i" "i \<le> j" using j by (auto simp: alternatives_def)
    with agree_field(2) [OF s r o j(1) ag [OF j(1)]] decodedD(2) [OF d j(1) _ j(3)] show ?thesis by simp
  qed
  moreover have "load_size m2 (dest + size_off fs j)
      = (if \<exists>k < Suc i. alternatives fs j k \<and> rss ! k \<noteq> [] then load_size m (src + size_off fs j) else 0)"
    if j: "j < length fs" "PB_HTYPE (pf_type (fs ! j)) = PB_HTYPE_ONEOF" for j
  proof (cases "alternatives fs j i")
    case True
    with one alt_one [OF True] chosen [OF True] have "load_size m2 (dest + size_off fs j) = load_size m (src + size_off fs j)"
      "rss ! i \<noteq> []" by simp_all
    with True show ?thesis by (auto simp: less_Suc_eq)
  next
    case False
    with j have ji: "j \<noteq> i" by (auto simp: alternatives_def)
    have "load_size m2 (dest + size_off fs j) = load_size m1 (dest + size_off fs j)"
      using agree_load_size [OF agree_mono [OF ag [OF j(1) ji False] count_in_field(1)]] j(2) by simp
    with decodedD(3) [OF d j] False show ?thesis by (simp add: less_Suc_eq) metis
  qed
  ultimately show ?thesis unfolding decoded_def by blast
qed

text \<open>At most one member of a union has a record; until it arrives the receiver has none.\<close>

lemma union_clear:
  assumes a: "sent n env m fs src dest sz rss" and i: "i < length fs" and d: "decoded n env m fs src dest rss i m'"
    and h: "PB_HTYPE (pf_type (fs ! i)) = PB_HTYPE_ONEOF" and ne: "rss ! i \<noteq> []"
  shows "load_size m' (dest + size_off fs i) = 0"
proof -
  note r = sentD(2) [OF a] and src = sentD(6) [OF a]
  have "rss ! k = []" if k: "k < i" "alternatives fs i k" for k
  proof (rule ccontr)
    assume "rss ! k \<noteq> []"
    with which_chosen [OF r src _ _, of k] which_chosen [OF r src i h] k i ne
    have "pf_tag (fs ! k) = pf_tag (fs ! i)" by (simp add: alternatives_def)
    with tags_differ [OF r _ i, of k] k i show False by simp
  qed
  then show ?thesis using decodedD(3) [OF d i h] by auto
qed

end
