(* ===== verification/Pb_Round.thy ===== *)
theory Pb_Round
  imports Pb_Decoded
begin

text \<open>The loop of \<^verbatim>\<open>pb_decode_noinit\<close> on one record: its tag, the search for its field, its bookkeeping.\<close>

subsection \<open>The search\<close>

lemma find_field:
  assumes fs: "tagged_fields fs" "dest \<noteq> 0" "distinct (map pf_tag fs)" and k: "at_field fs dest k iter"
    and i: "i < length fs" "PB_LTYPE (pf_type (fs ! i)) \<noteq> PB_LTYPE_EXTENSION"
  shows "pb_field_iter_find iter (pf_tag (fs ! i)) = Some (True, if k = i then iter else iter_at fs dest i)"
proof -
  note sel = at_field_sel [OF k]
  have only: "matches (pf_tag (fs ! i)) (fs ! j) \<longleftrightarrow> j = i" if "j < length fs" for j
    using nth_eq_iff_index_eq [OF fs(3), of i j] i that by (auto simp: matches_def)
  show ?thesis
  proof (cases "k = i")
    case True
    then show ?thesis
      unfolding pb_field_iter_find_def Let_def
      by (subst iterate.simps) (use sel only [of k] in \<open>simp add: matches_def\<close>)
  next
    case False
    then have no: "\<not> matches (pf_tag (fs ! i)) (fs ! k)" using only [of k] sel by simp
    have "it_pos iter = it_pos (iter_at fs dest k)" using sel by simp
    then have "pb_field_iter_find iter (pf_tag (fs ! i)) = pb_field_iter_find (iter_at fs dest k) (pf_tag (fs ! i))"
      unfolding pb_field_iter_find_def Let_def
      by (simp only:, intro iterate_same) (use sel no at_field_next [OF k fs(1)] in \<open>simp add: matches_def Let_def\<close>)
    also have "\<dots> = (case find (\<lambda>j. matches (pf_tag (fs ! i)) (fs ! j)) ([k..<length fs] @ [0..<k]) of
        Some j \<Rightarrow> Some (True, iter_at fs dest j) | None \<Rightarrow> Some (False, iter_at fs dest k))"
      by (rule iter_find [OF fs(1,2)]) (use sel in simp)
    also have "find (\<lambda>j. matches (pf_tag (fs ! i)) (fs ! j)) ([k..<length fs] @ [0..<k]) = Some i"
    proof -
      let ?xs = "[k..<length fs] @ [0..<k]"
      have "\<forall>j \<in> set ?xs. matches (pf_tag (fs ! i)) (fs ! j) \<longleftrightarrow> j = i" using only sel by auto
      then have "find (\<lambda>j. matches (pf_tag (fs ! i)) (fs ! j)) ?xs = find (\<lambda>j. j = i) ?xs"
        by (intro find_cong) simp_all
      moreover have "i \<in> set ?xs" using i sel by auto
      ultimately show ?thesis by (cases "find (\<lambda>j. j = i) ?xs") (auto simp: find_None_iff find_Some_iff)
    qed
    finally show ?thesis using False by simp
  qed
qed

text \<open>Before the first record of field \<open>i\<close> the iterator is at the first field or at a field received.\<close>

definition iter_before :: "pb_field list \<Rightarrow> u64 \<Rightarrow> nat \<Rightarrow> pb_field_iter \<Rightarrow> bool" where
  "iter_before fs dest i iter \<longleftrightarrow> iter = iter_at fs dest 0 \<or> (\<exists>k < i. at_field fs dest k iter)"

lemma iter_before_state: "iter_before fs dest i iter \<Longrightarrow> iter_state fs dest iter"
  unfolding iter_before_def using iter_state_begin iter_state_at by blast

lemma iter_before_mono: "iter_before fs dest i iter \<Longrightarrow> iter_before fs dest (Suc i) iter"
  by (auto simp: iter_before_def less_Suc_eq)

lemma iter_before_find:
  assumes "tagged_fields fs" "dest \<noteq> 0" "distinct (map pf_tag fs)" "iter_before fs dest i iter"
    and i: "i < length fs" "PB_LTYPE (pf_type (fs ! i)) \<noteq> PB_LTYPE_EXTENSION"
  shows "pb_field_iter_find iter (pf_tag (fs ! i)) = Some (True, iter_at fs dest i)"
proof -
  from i(1) have "0 < length fs" by linarith
  then have "at_field fs dest 0 (iter_at fs dest 0)" by (rule at_field_iter_at)
  then show ?thesis
    using assms(4) find_field [OF assms(1-3) _ i] unfolding iter_before_def by fastforce
qed

subsection \<open>One record\<close>

lemma decode_round_record:
  assumes v: "is_view s = Some (field_bytes t w @ rest)" and t: "0 < t" "t < 2 ^ 29"
    and f: "pb_field_iter_find (dl_iter l) t = Some (True, iter)"
  shows "\<exists>s1. is_view s1 = Some (wire_bytes w @ rest) \<and> reads s s1
    \<and> decode_round n decode env (l, s, st) =
        (case decode_known n decode env (wire_type_of w) (l\<lparr>dl_iter := iter\<rparr>) s1 st of
           None \<Rightarrow> None | Some (None, r) \<Rightarrow> Some (Inr (None, r)) | Some (Some l, (s, st)) \<Rightarrow> Some (Inl (l, s, st)))"
proof -
  let ?k = "tag_key (wire_type_of w) t"
  have n: "0 < unat t" and n29: "unat t < 2 ^ 29" using t by (simp_all add: word_less_nat_alt)
  have k0: "0 < ?k" using n by (simp add: tag_key_def)
  have v': "is_view s = Some (varint ?k @ (wire_bytes w @ rest))" using v by (simp add: field_bytes_def)
  note tag = pb_decode_tag_view [OF v' wire_type_less n29 k0]
  have "varint ?k \<noteq> []" by (subst varint.simps) simp
  then have "is_bytes_left s \<noteq> 0" using is_view_length [OF v'] by (metis append_is_Nil_conv length_0_conv unat_0)
  then show ?thesis
    using tag f reader_tag [OF tag] view_tail [OF v'] by (intro exI [of _ "is_advance (length (varint ?k)) s"]) (simp add: decode_round_def)
qed

subsection \<open>Required fields\<close>

definition seen_words :: "nat \<Rightarrow> u32 list" where
  "seen_words r = [mask (min r 32), mask (min (r - 32) 32)]"

lemma seen_words_start: "seen_words 0 = [0, 0]"
  by (simp add: seen_words_def)

lemma mask_next: "(mask (Suc k) :: 'a::len word) = mask k OR push_bit k 1"
  by (rule bit_word_eqI) (auto simp: bit_simps)

lemma seen_words_mark:
  assumes "r < PB_MAX_REQUIRED_FIELDS"
  shows "(seen_words r)[r div 32 := seen_words r ! (r div 32) OR push_bit (r mod 32) 1] = seen_words (Suc r)"
proof (cases "r < 32")
  case True
  then show ?thesis by (simp add: seen_words_def mask_next min_def)
next
  case False
  then have "r div 32 = 1" "r mod 32 = r - 32" "r - 32 < 32" "Suc r - 32 = Suc (r - 32)"
    using assms by (simp_all add: PB_MAX_REQUIRED_FIELDS_def le_mod_geq)
  with False show ?thesis by (simp add: seen_words_def mask_next min_def)
qed

lemma seen_words_full: "\<not> r < PB_MAX_REQUIRED_FIELDS \<Longrightarrow> seen_words (Suc r) = seen_words r"
proof -
  assume "\<not> r < PB_MAX_REQUIRED_FIELDS"
  then have "min r 32 = 32" "min (Suc r) 32 = 32" "min (r - 32) 32 = 32" "min (Suc r - 32) 32 = 32"
    by (simp_all add: PB_MAX_REQUIRED_FIELDS_def)
  then show ?thesis by (simp add: seen_words_def)
qed

lemma seen_words_all: "required_fields_seen r (seen_words r)"
proof -
  have all: "(mask 32 :: u32) = - 1" using mask_full [where 'a = 32] by simp
  have part: "drop_bit (32 - k) (- 1 :: u32) = mask k" if "k \<le> 32" for k
    using that by (intro bit_word_eqI) (auto simp: bit_simps)
  let ?r = "min r 64"
  consider "?r < 32" | "32 \<le> ?r" "?r < 64" | "?r = 64" by linarith
  then show ?thesis
  proof cases
    case 1
    then show ?thesis
      using part [of r] by (simp add: required_fields_seen_def seen_words_def PB_MAX_REQUIRED_FIELDS_def Let_def min_def split: if_splits)
  next
    case 2
    then have "r div 32 = 1" "r mod 32 = r - 32" "min r 64 = r" "min r 32 = 32" "min (r - 32) 32 = r - 32"
      by (simp_all add: le_mod_geq)
    then show ?thesis
      using 2 part [of "r - 32"] all
      by (simp add: required_fields_seen_def seen_words_def PB_MAX_REQUIRED_FIELDS_def Let_def lessThan_Suc)
  next
    case 3
    then have "64 \<le> r" "min (r - 32) 32 = 32" by simp_all
    then show ?thesis
      using all by (simp add: required_fields_seen_def seen_words_def PB_MAX_REQUIRED_FIELDS_def Let_def min_def
          numeral_2_eq_2 lessThan_Suc)
  qed
qed

lemma required_before_Suc:
  "i < length fs \<Longrightarrow> required_before fs (Suc i) = required_before fs i + (if required (fs ! i) then 1 else 0)"
  by (simp add: required_before_def take_Suc_conv_app_nth)

subsection \<open>Bookkeeping\<close>

text \<open>An array of fixed count has no count in the structure; while it arrives the iterator has the local one.\<close>

definition fixed_array :: "pb_field \<Rightarrow> bool" where
  "fixed_array f \<longleftrightarrow> PB_HTYPE (pf_type f) = PB_HTYPE_REPEATED \<and> pf_size_offset f = 0"

definition item_iter :: "pb_field list \<Rightarrow> u64 \<Rightarrow> nat \<Rightarrow> pb_field_iter" where
  "item_iter fs dest i = (if fixed_array (fs ! i) then (iter_at fs dest i)\<lparr>it_pSize := Local_size\<rparr> else iter_at fs dest i)"

definition first_locals :: "pb_field list \<Rightarrow> nat \<Rightarrow> decode_locals \<Rightarrow> decode_locals" where
  "first_locals fs i l = l\<lparr>fixed_count_field := (if fixed_array (fs ! i) then Some i else fixed_count_field l),
     fields_seen := seen_words (required_before fs (Suc i))\<rparr>"

lemma at_field_item_iter: "i < length fs \<Longrightarrow> at_field fs dest i (item_iter fs dest i)"
  by (simp add: at_field_def item_iter_def fixed_array_def)

lemma item_iter_sel [simp]:
  assumes "i < length fs"
  shows "it_field (item_iter fs dest i) = fs ! i" "it_pData (item_iter fs dest i) = dest + data_off fs i"
    "it_start (item_iter fs dest i) = fs" "it_pos (item_iter fs dest i) = i"
    "it_required_field_index (item_iter fs dest i) = required_before fs i"
    "it_pSize (item_iter fs dest i) = (if fixed_array (fs ! i) then Local_size else Mem_size (dest + size_off fs i))"
  using at_field_sel [OF at_field_item_iter [OF assms, of dest]] by (simp_all add: item_iter_def)

lemma own_count:
  assumes "regular (Suc n) env fs" "i < length fs" "PB_HTYPE (pf_type (fs ! i)) = PB_HTYPE_REPEATED"
  shows "dest + size_off fs i = dest + data_off fs i \<longleftrightarrow> fixed_array (fs ! i)"
  using no_offset [OF assms(1,2)] assms(3) by (simp add: fixed_array_def)

lemma first_known:
  assumes r: "regular (Suc n) env fs" and i: "i < length fs"
    and ok: "\<not> wrong_fixed_count (l\<lparr>dl_iter := iter_at fs dest i\<rparr>) st" "fixed_count_field l \<noteq> Some i"
      "fields_seen l = seen_words (required_before fs i)"
  shows "decode_known n decode env wt (l\<lparr>dl_iter := iter_at fs dest i\<rparr>) s st =
    run_attempt (decode_field n decode env wt (item_iter fs dest i) s
        (if fixed_array (fs ! i) then st\<lparr>fixed_count_size := 0\<rparr> else st))
      (\<lambda>iter t. Some (Some ((first_locals fs i l)\<lparr>dl_iter := iter\<rparr>), t))"
proof -
  have fixed: "(PB_HTYPE (pf_type (fs ! i)) = PB_HTYPE_REPEATED \<and> dest + size_off fs i = dest + data_off fs i) = fixed_array (fs ! i)"
    using own_count [OF r i, of dest] by (auto simp: fixed_array_def)
  have seen: "(if PB_HTYPE (pf_type (fs ! i)) = PB_HTYPE_REQUIRED \<and> required_before fs i < PB_MAX_REQUIRED_FIELDS
      then (fields_seen l)[required_before fs i div 32 :=
        fields_seen l ! (required_before fs i div 32) OR push_bit (required_before fs i mod 32) 1]
      else fields_seen l) = seen_words (required_before fs (Suc i))"
    unfolding ok(3)
    using seen_words_mark [of "required_before fs i"] seen_words_full [of "required_before fs i"] required_before_Suc [OF i]
    by (simp add: required_def)
  show ?thesis
    unfolding decode_known_def Let_def
    using ok(1,2) i fixed seen
    by (cases "PB_HTYPE (pf_type (fs ! i)) = PB_HTYPE_REQUIRED \<and> required_before fs i < PB_MAX_REQUIRED_FIELDS")
      (auto simp: item_iter_def first_locals_def)
qed

lemma later_known:
  assumes r: "regular (Suc n) env fs" and i: "i < length fs" "PB_HTYPE (pf_type (fs ! i)) = PB_HTYPE_REPEATED"
    and l: "dl_iter l = item_iter fs dest i"
  shows "decode_known n decode env wt l s st =
    run_attempt (decode_field n decode env wt (item_iter fs dest i) s st) (\<lambda>iter t. Some (Some (l\<lparr>dl_iter := iter\<rparr>), t))"
proof -
  have "it_pSize (item_iter fs dest i) \<noteq> Mem_size (it_pData (item_iter fs dest i))"
    using own_count [OF r i, of dest] i(1) by simp
  then show ?thesis
    unfolding decode_known_def Let_def l using i by (simp add: pb_htypes)
qed

text \<open>A static field that is not a union, or an empty one, is decoded without a release.\<close>

lemma static_decode_field:
  assumes "PB_ATYPE (pf_type (it_field iter)) = PB_ATYPE_STATIC"
    and "PB_HTYPE (pf_type (it_field iter)) = PB_HTYPE_ONEOF \<Longrightarrow> read_count st (it_pSize iter) = 0"
  shows "decode_field n decode env wt iter s st
    = run_attempt (decode_static_field n decode env wt iter s st) (\<lambda>_ r. Some (Some iter, r))"
  using assms by (simp add: decode_field_def pb_release_union_field_def Let_def)

end
