(* ===== verification/Pb_Image_Decoder.thy ===== *)
theory Pb_Image_Decoder
  imports Pb_Round
begin

text \<open>The fields of one level: singular fields, arrays, packed arrays, each as the encoder wrote it.\<close>

lemma delivers_after:
  assumes "unchanged_outside R (pb_mem st) (pb_mem st1)" "pb_heap st1 = pb_heap st" "fixed_count_size st1 = fixed_count_size st"
    and "delivers S s st1 rest Q r" "S \<subseteq> R"
    and "\<And>m'. Q m' \<Longrightarrow> unchanged_outside S (pb_mem st1) m' \<Longrightarrow> Q' m'"
  shows "delivers R s st rest Q' r"
proof -
  from assms(4) obtain s' st' where r: "r = Some (Some (), (s', st'))" "reads s s'" "is_view s' = Some rest"
    "unchanged_outside S (pb_mem st1) (pb_mem st')" "pb_heap st' = pb_heap st1" "fixed_count_size st' = fixed_count_size st1"
    "Q (pb_mem st')" by (auto simp: delivers_def)
  have "unchanged_outside R (pb_mem st) (pb_mem st')" by (rule unchanged_trans [OF assms(1) unchanged_mono [OF r(4) assms(5)]])
  with r assms(2,3,6) show ?thesis by (simp add: delivers_def)
qed

lemma count_data_apart:
  assumes s: "static_message (Suc n) env fs sz" and r: "regular (Suc n) env fs" and i: "i < length fs"
    and o: "pf_size_offset (fs ! i) \<noteq> 0"
  shows "PB_HTYPE (pf_type (fs ! i)) \<in> {PB_HTYPE_REPEATED, PB_HTYPE_ONEOF} \<Longrightarrow>
      region (dest + size_off fs i) 4 \<inter> region (dest + data_off fs i) (unat (pf_data_size (fs ! i)) * field_items (fs ! i)) = {}"
    and "PB_HTYPE (pf_type (fs ! i)) = PB_HTYPE_OPTIONAL \<Longrightarrow>
      region (dest + size_off fs i) 1 \<inter> region (dest + data_off fs i) (unat (pf_data_size (fs ! i)) * field_items (fs ! i)) = {}"
  using count_apart [OF s r i o, of dest] o
  by (auto simp: region_image count_span_def Let_def pb_htypes split: if_splits)

text \<open>The record of a singular field.\<close>

lemma single_record:
  assumes a: "sent n env m fs src dest sz rss" and i: "i < length fs"
    and h: "PB_HTYPE (pf_type (fs ! i)) \<noteq> PB_HTYPE_REPEATED" and ne: "rss ! i \<noteq> []"
  shows "\<exists>w. rss ! i = [(pf_tag (fs ! i), w)]
    \<and> item_image (message_image n env m) env m (fs ! i) (src + data_off fs i) = Some w
    \<and> proper_item (proper n env m) env m (fs ! i) (src + data_off fs i)"
proof -
  note im = image_at(1) [OF sentD(6) [OF a] i]
  have pr: "proper_field n (proper n env m) env m (fs ! i) (src + data_off fs i)" using a i by (simp add: sent_def)
  show ?thesis
    using im ne h pr
    by (cases rule: htype_cases [of "pf_type (fs ! i)"])
      (auto simp: field_image_def proper_field_def Let_def pb_htypes simp del: unset.simps split: if_splits)
qed

context image_decoder
begin

lemma field_item:
  assumes a: "sent n env m fs src dest sz rss" and i: "i < length fs"
    and p: "object_at p (unat (pf_data_size (fs ! i)))" "object_at q (unat (pf_data_size (fs ! i)))"
    and w: "item_image (message_image n env m) env m (fs ! i) p = Some w" "proper_item (proper n env m) env m (fs ! i) p"
    and v: "is_view s = Some (wire_bytes w @ rest)"
    and init: "PB_LTYPE (pf_type (fs ! i)) = PB_LTYPE_SUBMESSAGE \<Longrightarrow> PB_HTYPE (pf_type (fs ! i)) \<noteq> PB_HTYPE_REPEATED
      \<Longrightarrow> initial n env (pb_mem st) (submsg_fields env (fs ! i)) q"
  shows "delivers (region q (unat (pf_data_size (fs ! i)))) s st rest
    (\<lambda>m'. item_image (message_image n env m') env m' (fs ! i) q = Some w
       \<and> (blank (unset n env m') env m' (fs ! i) q \<longleftrightarrow> blank (unset n env m) env m (fs ! i) p))
    (PB_DECODERS n decode env (PB_LTYPE (pf_type (fs ! i))) (fs ! i) q s st)"
  by (rule item_delivers [OF static_field(2,1) [OF sentD(1) [OF a] i] _ _ p w v init])
    (use regularD(7,8) [OF sentD(2) [OF a] i] in simp_all)

lemma single_delivers:
  assumes a: "sent n env m fs src dest sz rss" and i: "i < length fs"
    and h: "PB_HTYPE (pf_type (fs ! i)) \<noteq> PB_HTYPE_REPEATED" and ne: "rss ! i \<noteq> []"
    and d: "decoded n env m fs src dest rss i (pb_mem st)"
    and v: "is_view s = Some (wire_bytes (snd (hd (rss ! i))) @ rest)"
  shows "delivers (field_region fs dest i) s st rest
    (\<lambda>m'. field_image n (message_image n env m') env m' (fs ! i) (dest + data_off fs i) = Some (rss ! i)
       \<and> (PB_HTYPE (pf_type (fs ! i)) = PB_HTYPE_ONEOF \<longrightarrow> load_size m' (dest + size_off fs i) = pf_tag (fs ! i)))
    (decode_static_field n decode env wt (iter_at fs dest i) s st)"
proof -
  let ?f = "fs ! i" and ?q = "dest + data_off fs i" and ?p = "src + data_off fs i" and ?a = "dest + size_off fs i"
  let ?d = "unat (pf_data_size ?f)" and ?R = "field_region fs dest i"
  note s = sentD(1) [OF a] and r = sentD(2) [OF a] and src = sentD(3) [OF a] and dst = sentD(4) [OF a]
  note st = static_field [OF s i] and reg = regularD [OF r i]
  obtain w where w: "rss ! i = [(pf_tag ?f, w)]" "item_image (message_image n env m) env m ?f ?p = Some w"
    "proper_item (proper n env m) env m ?f ?p" using single_record [OF a i h ne] by blast
  have v': "is_view s = Some (wire_bytes w @ rest)" using v w(1) by simp
  have items: "field_items ?f = 1" using h by (simp add: field_items_def)
  have D: "region ?q ?d \<subseteq> ?R" using data_in_field [OF s i, of dest] by (simp add: items)
  have addr: "size_address ?q ?f = ?a" by (rule size_address_regular [OF r i])
  have item: "delivers (region ?q ?d) s st1 rest
    (\<lambda>m'. item_image (message_image n env m') env m' ?f ?q = Some w
       \<and> (blank (unset n env m') env m' ?f ?q \<longleftrightarrow> blank (unset n env m) env m ?f ?p))
    (PB_DECODERS n decode env (PB_LTYPE (pf_type ?f)) ?f ?q s st1)"
    if "PB_LTYPE (pf_type ?f) = PB_LTYPE_SUBMESSAGE \<Longrightarrow> initial n env (pb_mem st1) (submsg_fields env ?f) ?q" for st1
    by (rule field_item [OF a i single_place(1) [OF s src i h] single_place(1) [OF s dst i h] w(2,3) v' that])
  have sub_kept: "initial n env m2 (submsg_fields env ?f) ?q"
    if "PB_LTYPE (pf_type ?f) = PB_LTYPE_SUBMESSAGE" "initial n env m1 (submsg_fields env ?f) ?q"
      "unchanged_outside C m1 m2" "C \<inter> region ?q ?d = {}" for m1 m2 C
  proof -
    have "agree (region ?q ?d) m1 m2" using agree_unchanged [OF that(3)] that(4) by blast
    from agree_message [OF static_submessage [OF s i that(1)] reg(7) [OF that(1)] single_place(1) [OF s dst i h] this] that(2)
    show ?thesis by (simp add: same_message_def)
  qed
  have ini: "initial_field (initial n env (pb_mem st)) env (pb_mem st) ?f ?q" if "PB_HTYPE (pf_type ?f) \<noteq> PB_HTYPE_ONEOF"
    by (rule decodedD(2) [OF d i order_refl that])
  show ?thesis
  proof (cases rule: htype_cases [of "pf_type ?f"])
    case Required
    have "decode_static_field n decode env wt (iter_at fs dest i) s st
        = PB_DECODERS n decode env (PB_LTYPE (pf_type ?f)) ?f ?q s st"
      using i Required by (simp add: decode_static_field_def Let_def)
    moreover have "delivers ?R s st rest
      (\<lambda>m'. field_image n (message_image n env m') env m' ?f ?q = Some (rss ! i)
         \<and> (PB_HTYPE (pf_type ?f) = PB_HTYPE_ONEOF \<longrightarrow> load_size m' ?a = pf_tag ?f))
      (PB_DECODERS n decode env (PB_LTYPE (pf_type ?f)) ?f ?q s st)"
      by (rule delivers_after [OF unchanged_refl refl refl item D])
        (use ini Required w(1) in \<open>auto simp: initial_field_def field_image_def Let_def pb_htypes\<close>)
    ultimately show ?thesis by simp
  next
    case Optional
    define st1 where "st1 = (if pf_size_offset ?f \<noteq> 0 then write_flag st (Mem_size ?a) True else st)"
    have e: "decode_static_field n decode env wt (iter_at fs dest i) s st
        = PB_DECODERS n decode env (PB_LTYPE (pf_type ?f)) ?f ?q s st1"
      using i Optional no_offset [OF r i] by (simp add: decode_static_field_def st1_def Let_def pb_htypes)
    have apart: "region ?a 1 \<inter> region ?q ?d = {}" if "pf_size_offset ?f \<noteq> 0"
      using count_data_apart(2) [OF s r i that Optional, of dest] by (simp add: items)
    have C: "unchanged_outside (region ?a 1) (pb_mem st) (pb_mem (write_flag st (Mem_size ?a) True))"
      by (simp add: write_flag_def unchanged_stores(3) [simplified])
    have st1: "unchanged_outside ?R (pb_mem st) (pb_mem st1)" "pb_heap st1 = pb_heap st" "fixed_count_size st1 = fixed_count_size st"
      using unchanged_mono [OF C count_in_field(2) [OF Optional]] by (simp_all add: st1_def write_flag_def)
    have init: "initial n env (pb_mem st1) (submsg_fields env ?f) ?q" if l: "PB_LTYPE (pf_type ?f) = PB_LTYPE_SUBMESSAGE"
    proof -
      have "initial n env (pb_mem st) (submsg_fields env ?f) ?q"
        using ini Optional l by (simp add: initial_field_def Let_def pb_htypes)
      with sub_kept [OF l this C apart] show ?thesis by (simp add: st1_def)
    qed
    have "\<not> unset (Suc n) env m ?f ?p"
      using field_image_unset [OF image_at(1) [OF sentD(6) [OF a] i]] ne Optional by (simp add: pb_htypes)
    then have b: "\<not> blank (unset n env m) env m ?f ?p" if "pf_size_offset ?f = 0" using Optional that by (simp add: Let_def pb_htypes)
    show ?thesis
      unfolding e
    proof (rule delivers_after [OF st1 item D])
      fix m' assume Q: "item_image (message_image n env m') env m' ?f ?q = Some w
          \<and> (blank (unset n env m') env m' ?f ?q \<longleftrightarrow> blank (unset n env m) env m ?f ?p)"
        and u: "unchanged_outside (region ?q ?d) (pb_mem st1) m'"
      have "safe_read_bool m' ?a" if o: "pf_size_offset ?f \<noteq> 0"
      proof -
        have "?a \<in> region ?a 1" by (simp add: region_def)
        then have "m' ?a = pb_mem st1 ?a" using u apart [OF o] by (auto simp: unchanged_outside_def)
        then show ?thesis using o by (simp add: st1_def write_flag_def safe_read_bool_def store_bool_def store_bytes_def)
      qed
      with Q b show "field_image n (message_image n env m') env m' ?f ?q = Some (rss ! i)
         \<and> (PB_HTYPE (pf_type ?f) = PB_HTYPE_ONEOF \<longrightarrow> load_size m' ?a = pf_tag ?f)"
        using Optional w(1) addr by (simp add: field_image_def Let_def pb_htypes)
    qed (rule init)
  next
    case Oneof
    have o: "pf_size_offset ?f \<noteq> 0" by (rule reg(3) [OF Oneof])
    have zero: "load_size (pb_mem st) ?a = 0" by (rule union_clear [OF a i d Oneof ne])
    have tag: "pf_tag ?f \<noteq> 0" using s i by simp
    define begun where "begun = (if PB_LTYPE (pf_type ?f) = PB_LTYPE_SUBMESSAGE
      then pb_message_set_to_defaults n env (submsg_fields env ?f) ?q (st\<lparr>pb_mem := zero_bytes (pb_mem st) ?q ?d\<rparr>) else Some st)"
    have "\<exists>st2. begun = Some st2 \<and> unchanged_outside (region ?q ?d) (pb_mem st) (pb_mem st2) \<and> pb_heap st2 = pb_heap st
        \<and> fixed_count_size st2 = fixed_count_size st
        \<and> (PB_LTYPE (pf_type ?f) = PB_LTYPE_SUBMESSAGE \<longrightarrow> initial n env (pb_mem st2) (submsg_fields env ?f) ?q)"
    proof (cases "PB_LTYPE (pf_type ?f) = PB_LTYPE_SUBMESSAGE")
      case True
      from defaults_initial [OF static_submessage [OF s i True] reg(7) [OF True] single_place(1) [OF s dst i h],
          of "st\<lparr>pb_mem := zero_bytes (pb_mem st) ?q ?d\<rparr>"]
      show ?thesis
        using True unchanged_trans [OF unchanged_stores(4)]
        by (fastforce simp: begun_def pb_message_set_to_defaults_def)
    qed (simp add: begun_def)
    then obtain st2 where st2: "begun = Some st2" "unchanged_outside (region ?q ?d) (pb_mem st) (pb_mem st2)"
      "pb_heap st2 = pb_heap st" "fixed_count_size st2 = fixed_count_size st"
      "PB_LTYPE (pf_type ?f) = PB_LTYPE_SUBMESSAGE \<Longrightarrow> initial n env (pb_mem st2) (submsg_fields env ?f) ?q" by blast
    define st1 where "st1 = write_count st2 (Mem_size ?a) (pf_tag ?f)"
    have e: "decode_static_field n decode env wt (iter_at fs dest i) s st
        = PB_DECODERS n decode env (PB_LTYPE (pf_type ?f)) ?f ?q s st1"
      using i Oneof zero tag st2(1)
      by (auto simp: decode_static_field_def st1_def begun_def read_count_def Let_def pb_htypes split: if_splits)
    have apart: "region ?a 4 \<inter> region ?q ?d = {}" using count_data_apart(1) [OF s r i o, of dest] Oneof by (simp add: items)
    have C: "unchanged_outside (region ?a 4) (pb_mem st2) (pb_mem st1)"
      by (simp add: st1_def write_count_def unchanged_stores(2))
    have "region ?a 4 \<subseteq> ?R" by (rule count_in_field(1)) (simp add: Oneof)
    then have "unchanged_outside ?R (pb_mem st) (pb_mem st1)"
      using unchanged_trans [OF unchanged_mono [OF st2(2) D] unchanged_mono [OF C]] by blast
    moreover have "pb_heap st1 = pb_heap st" "fixed_count_size st1 = fixed_count_size st"
      using st2(3,4) by (simp_all add: st1_def write_count_def)
    moreover note st1 = calculation
    show ?thesis
      unfolding e
    proof (rule delivers_after [OF st1 item D])
      show "initial n env (pb_mem st1) (submsg_fields env ?f) ?q" if "PB_LTYPE (pf_type ?f) = PB_LTYPE_SUBMESSAGE"
        by (rule sub_kept [OF that st2(5) [OF that] C apart])
      fix m' assume Q: "item_image (message_image n env m') env m' ?f ?q = Some w
          \<and> (blank (unset n env m') env m' ?f ?q \<longleftrightarrow> blank (unset n env m) env m ?f ?p)"
        and u: "unchanged_outside (region ?q ?d) (pb_mem st1) m'"
      have "load_size m' ?a = pf_tag ?f"
        using agree_load_size [OF agree_unchanged [OF u apart]] by (simp add: st1_def write_count_def)
      with Q show "field_image n (message_image n env m') env m' ?f ?q = Some (rss ! i)
         \<and> (PB_HTYPE (pf_type ?f) = PB_HTYPE_ONEOF \<longrightarrow> load_size m' ?a = pf_tag ?f)"
        using Oneof w(1) addr by (simp add: field_image_def Let_def pb_htypes)
    qed
  qed (use h in simp)
qed

end

end
