(* ===== verification/Pb_Array_Decoder.thy ===== *)
theory Pb_Array_Decoder
  imports Pb_Image_Decoder
begin

text \<open>Arrays: the items already received, the count of them, and one more item.\<close>

subsection \<open>The records of an array\<close>

definition array_sent ::
  "nat \<Rightarrow> ('h, 's) pb_env \<Rightarrow> mem \<Rightarrow> pb_field list \<Rightarrow> u64 \<Rightarrow> u64 \<Rightarrow> nat \<Rightarrow> wire_record list list \<Rightarrow> nat \<Rightarrow> wire_value list \<Rightarrow> bool" where
  "array_sent n env m fs src dest sz rss i ws \<longleftrightarrow>
     sent n env m fs src dest sz rss \<and> i < length fs \<and> PB_HTYPE (pf_type (fs ! i)) = PB_HTYPE_REPEATED
     \<and> ws \<noteq> [] \<and> length ws \<le> unat (pf_array_size (fs ! i))
     \<and> (fixed_array (fs ! i) \<longrightarrow> length ws = unat (pf_array_size (fs ! i)))
     \<and> (\<forall>k < length ws.
          item_image (message_image n env m) env m (fs ! i) (src + data_off fs i + of_nat k * ucast (pf_data_size (fs ! i))) = Some (ws ! k)
          \<and> proper_item (proper n env m) env m (fs ! i) (src + data_off fs i + of_nat k * ucast (pf_data_size (fs ! i))))
     \<and> (if PB_LTYPE (pf_type (fs ! i)) \<le> PB_LTYPE_LAST_PACKABLE
        then rss ! i = [(pf_tag (fs ! i), W_string (concat (map wire_bytes ws)))] \<and> length (concat (map wire_bytes ws)) < 2 ^ 32
        else rss ! i = map (Pair (pf_tag (fs ! i))) ws)"

lemma array_sentD:
  assumes "array_sent n env m fs src dest sz rss i ws"
  shows "sent n env m fs src dest sz rss" "i < length fs" "PB_HTYPE (pf_type (fs ! i)) = PB_HTYPE_REPEATED"
    "ws \<noteq> []" "length ws \<le> unat (pf_array_size (fs ! i))"
    "fixed_array (fs ! i) \<Longrightarrow> length ws = unat (pf_array_size (fs ! i))"
    "k < length ws \<Longrightarrow> item_image (message_image n env m) env m (fs ! i)
       (src + data_off fs i + of_nat k * ucast (pf_data_size (fs ! i))) = Some (ws ! k)"
    "k < length ws \<Longrightarrow> proper_item (proper n env m) env m (fs ! i)
       (src + data_off fs i + of_nat k * ucast (pf_data_size (fs ! i)))"
    "PB_LTYPE (pf_type (fs ! i)) \<le> PB_LTYPE_LAST_PACKABLE \<Longrightarrow>
       rss ! i = [(pf_tag (fs ! i), W_string (concat (map wire_bytes ws)))] \<and> length (concat (map wire_bytes ws)) < 2 ^ 32"
    "\<not> PB_LTYPE (pf_type (fs ! i)) \<le> PB_LTYPE_LAST_PACKABLE \<Longrightarrow> rss ! i = map (Pair (pf_tag (fs ! i))) ws"
  using assms unfolding array_sent_def by metis+

lemma array_records:
  assumes a: "sent n env m fs src dest sz rss" and i: "i < length fs"
    and h: "PB_HTYPE (pf_type (fs ! i)) = PB_HTYPE_REPEATED" and ne: "rss ! i \<noteq> []"
  shows "\<exists>ws. array_sent n env m fs src dest sz rss i ws"
proof -
  let ?f = "fs ! i" and ?p = "src + data_off fs i"
  define c where "c = (if pf_size_offset ?f \<noteq> 0 then load_size m (size_address ?p ?f) else pf_array_size ?f)"
  note im = image_at(1) [OF sentD(6) [OF a] i]
  have pr: "proper_field n (proper n env m) env m ?f ?p" using a i by (simp add: sent_def)
  from im ne h have c: "c \<noteq> 0" "c \<le> pf_array_size ?f"
    by (auto simp: field_image_def Let_def pb_htypes c_def [symmetric] split: if_splits)
  with im h obtain ws where ws: "item_images (item_image (message_image n env m) env m) ?f ?p (unat c) = Some ws"
    by (auto simp: field_image_def Let_def pb_htypes c_def [symmetric] bind_eq_Some_conv split: if_splits)
  from those_SomeD [OF ws [unfolded item_images_def]] have len: "length ws = unat c"
    and item: "\<And>k. k < unat c \<Longrightarrow>
      item_image (message_image n env m) env m ?f (?p + of_nat k * ucast (pf_data_size ?f)) = Some (ws ! k)" by simp_all
  have "proper_item (proper n env m) env m ?f (?p + of_nat k * ucast (pf_data_size ?f))" if "k < unat c" for k
    using pr h that by (simp add: proper_field_def Let_def pb_htypes c_def [symmetric])
  moreover have "if PB_LTYPE (pf_type ?f) \<le> PB_LTYPE_LAST_PACKABLE
      then rss ! i = [(pf_tag ?f, W_string (concat (map wire_bytes ws)))] \<and> length (concat (map wire_bytes ws)) < 2 ^ 32
      else rss ! i = map (Pair (pf_tag ?f)) ws"
    using im h c ws by (auto simp: field_image_def Let_def pb_htypes c_def [symmetric] split: if_splits)
  moreover have "ws \<noteq> []" using len c(1) by (auto simp: unat_eq_0)
  moreover have "fixed_array ?f \<longrightarrow> length ws = unat (pf_array_size ?f)" using len by (simp add: fixed_array_def c_def)
  ultimately show ?thesis
    using a i h len c(2) item unfolding array_sent_def by (intro exI [of _ ws]) (simp add: word_le_nat_alt)
qed

subsection \<open>Items received\<close>

definition items_at ::
  "nat \<Rightarrow> ('h, 's) pb_env \<Rightarrow> pb_field \<Rightarrow> u64 \<Rightarrow> wire_value list \<Rightarrow> mem \<Rightarrow> nat \<Rightarrow> bool" where
  "items_at n env f q ws m' k \<longleftrightarrow>
     (\<forall>j < k. item_image (message_image n env m') env m' f (q + of_nat j * ucast (pf_data_size f)) = Some (ws ! j))"

lemma wire_bytes_nonempty [simp]: "wire_bytes w \<noteq> []"
proof -
  have "le_bytes k v \<noteq> []" if "0 < k" for k v
  proof
    assume "le_bytes k v = []"
    moreover have "length (le_bytes k v) = k" by simp
    ultimately show False using that by simp
  qed
  then show ?thesis by (cases w) simp_all
qed

lemma item_region:
  assumes "j < unat (pf_array_size f)" "PB_HTYPE (pf_type f) = PB_HTYPE_REPEATED"
  shows "region (q + of_nat j * ucast (pf_data_size f)) (unat (pf_data_size f))
    \<subseteq> region q (unat (pf_data_size f) * field_items f)"
proof -
  have "j * unat (pf_data_size f) + unat (pf_data_size f) \<le> unat (pf_data_size f) * field_items f"
    using assms mult_le_mono2 [of "Suc j" "unat (pf_array_size f)" "unat (pf_data_size f)"]
    by (simp add: field_items_def mult.commute)
  from region_inside [OF this, of q] show ?thesis by simp
qed

lemma items_apart:
  assumes s: "static_message (Suc n) env fs sz" and i: "i < length fs" and h: "PB_HTYPE (pf_type (fs ! i)) = PB_HTYPE_REPEATED"
    and jk: "j < k" "k < unat (pf_array_size (fs ! i))"
  shows "region (dest + data_off fs i + of_nat j * ucast (pf_data_size (fs ! i))) (unat (pf_data_size (fs ! i)))
    \<inter> region (dest + data_off fs i + of_nat k * ucast (pf_data_size (fs ! i))) (unat (pf_data_size (fs ! i))) = {}"
proof -
  let ?d = "unat (pf_data_size (fs ! i))" and ?o = "unat (data_off fs i)"
  define q where "q = dest + data_off fs i"
  have "?o + ?d * unat (pf_array_size (fs ! i)) \<le> sz" "sz < 2 ^ 32"
    using static_field(3,4) [OF s i] h by (simp_all add: places_def)
  then have le: "?d * unat (pf_array_size (fs ! i)) < 2 ^ 32" by simp
  have kd: "k * ?d + ?d \<le> ?d * unat (pf_array_size (fs ! i))"
    using jk(2) mult_le_mono2 [of "Suc k" "unat (pf_array_size (fs ! i))" ?d] by (simp add: mult.commute)
  have jd: "j * ?d + ?d \<le> k * ?d" using jk(1) mult_le_mono1 [of "Suc j" k ?d] by simp
  have word: "(of_nat x * ucast (pf_data_size (fs ! i)) :: u64) = of_nat (x * ?d)" for x by simp
  have reg: "region (q + of_nat (x * ?d)) ?d = (\<lambda>y. q + of_nat y) ` {x * ?d ..< x * ?d + ?d}" if "x * ?d < 2 ^ 32" for x
  proof -
    have "unat (of_nat (x * ?d) :: u64) = x * ?d" using that by (intro unat_of_nat_u64) simp
    moreover have "?d \<le> 2 ^ 64" using unat_less_2p [of "pf_data_size (fs ! i)"] by simp
    ultimately show ?thesis using region_image [of ?d q "of_nat (x * ?d)"] by simp
  qed
  have "(\<lambda>y. q + of_nat y) ` {j * ?d ..< j * ?d + ?d} \<inter> (\<lambda>y. q + of_nat y) ` {k * ?d ..< k * ?d + ?d} = {}"
    using le kd jd by (intro addresses_apart) auto
  then show ?thesis
    unfolding word q_def [symmetric] using reg [of j] reg [of k] le kd jd by simp
qed

lemma items_kept:
  assumes a: "array_sent n env m fs src dest sz rss i ws" and k: "k \<le> length ws"
    and it: "items_at n env (fs ! i) (dest + data_off fs i) ws m1 k" and u: "unchanged_outside C m1 m2"
    and apart: "\<And>j. j < k \<Longrightarrow> region (dest + data_off fs i + of_nat j * ucast (pf_data_size (fs ! i))) (unat (pf_data_size (fs ! i))) \<inter> C = {}"
  shows "items_at n env (fs ! i) (dest + data_off fs i) ws m2 k"
  unfolding items_at_def
proof (intro allI impI)
  fix j assume j: "j < k"
  let ?f = "fs ! i" and ?x = "dest + data_off fs i + of_nat j * ucast (pf_data_size (fs ! i))"
  note sent = array_sentD(1) [OF a]
  note s = sentD(1) [OF sent] and r = sentD(2) [OF sent] and i = array_sentD(2) [OF a] and h = array_sentD(3) [OF a]
  have "j < unat (pf_array_size ?f)" using j k array_sentD(5) [OF a] by simp
  note place = array_item(2) [OF s sentD(4) [OF sent] i h this]
  have ag: "agree (region ?x (unat (pf_data_size ?f))) m1 m2" by (rule agree_unchanged [OF u apart [OF j]])
  have "item_image (message_image n env m2) env m2 ?f ?x = item_image (message_image n env m1) env m1 ?f ?x"
    by (rule agree_item [OF static_field(2) [OF s i] ag])
      (use agree_message [OF static_submessage [OF s i] regularD(7) [OF r i] place ag] in \<open>simp add: same_message_def\<close>)
  with it j show "item_image (message_image n env m2) env m2 ?f ?x = Some (ws ! j)" by (simp add: items_at_def)
qed

subsection \<open>The state of an array\<close>

definition items_state ::
  "nat \<Rightarrow> ('h, 's) pb_env \<Rightarrow> pb_field list \<Rightarrow> u64 \<Rightarrow> nat \<Rightarrow> wire_value list \<Rightarrow> 'h pb_store \<Rightarrow> nat \<Rightarrow> u32 \<Rightarrow> 'h pb_store \<Rightarrow> bool" where
  "items_state n env fs dest i ws st0 k c st \<longleftrightarrow>
     items_at n env (fs ! i) (dest + data_off fs i) ws (pb_mem st) k
     \<and> read_count st (it_pSize (item_iter fs dest i)) = c
     \<and> unchanged_outside (field_region fs dest i) (pb_mem st0) (pb_mem st) \<and> pb_heap st = pb_heap st0
     \<and> (\<not> fixed_array (fs ! i) \<longrightarrow> fixed_count_size st = fixed_count_size st0)"

lemma items_state_write:
  assumes a: "array_sent n env m fs src dest sz rss i ws" and k: "k \<le> length ws"
    and st: "items_state n env fs dest i ws st0 k c st"
  shows "items_state n env fs dest i ws st0 k c' (write_count st (it_pSize (item_iter fs dest i)) c')"
proof -
  note sent = array_sentD(1) [OF a]
  note s = sentD(1) [OF sent] and r = sentD(2) [OF sent] and i = array_sentD(2) [OF a] and h = array_sentD(3) [OF a]
  show ?thesis
  proof (cases "fixed_array (fs ! i)")
    case True
    with st i show ?thesis by (simp add: items_state_def write_count_def read_count_def)
  next
    case False
    let ?C = "region (dest + size_off fs i) 4"
    have o: "pf_size_offset (fs ! i) \<noteq> 0" using False h by (simp add: fixed_array_def)
    have u: "unchanged_outside ?C (pb_mem st) (store_size (pb_mem st) (dest + size_off fs i) c')" by (rule unchanged_stores(2))
    have "region (dest + data_off fs i + of_nat j * ucast (pf_data_size (fs ! i))) (unat (pf_data_size (fs ! i))) \<inter> ?C = {}"
      if "j < k" for j
      using count_data_apart(1) [OF s r i o, of dest] h item_region [OF _ h, of j "dest + data_off fs i"] that k array_sentD(5) [OF a]
      by fastforce
    from items_kept [OF a k _ u this] st have
      "items_at n env (fs ! i) (dest + data_off fs i) ws (store_size (pb_mem st) (dest + size_off fs i) c') k"
      by (simp add: items_state_def)
    moreover have "unchanged_outside (field_region fs dest i) (pb_mem st) (store_size (pb_mem st) (dest + size_off fs i) c')"
      by (rule unchanged_mono [OF u count_in_field(1)]) (simp add: h)
    ultimately show ?thesis
      using st False i by (auto simp: items_state_def write_count_def read_count_def intro: unchanged_trans)
  qed
qed

text \<open>All items received: the field has the image of the source.\<close>

lemma items_state_image:
  assumes a: "array_sent n env m fs src dest sz rss i ws"
    and st: "items_state n env fs dest i ws st0 (length ws) (of_nat (length ws)) st"
  shows "field_image n (message_image n env (pb_mem st)) env (pb_mem st) (fs ! i) (dest + data_off fs i) = Some (rss ! i)"
proof -
  let ?f = "fs ! i" and ?q = "dest + data_off fs i" and ?m = "pb_mem st"
  note i = array_sentD(2) [OF a] and h = array_sentD(3) [OF a] and le = array_sentD(5) [OF a]
  have len: "unat (of_nat (length ws) :: u32) = length ws"
    using le unat_less_2p [of "pf_array_size ?f"] by (intro unat_of_nat_id) simp
  define c where "c = (if pf_size_offset ?f \<noteq> 0 then load_size ?m (size_address ?q ?f) else pf_array_size ?f)"
  have c: "c = of_nat (length ws)"
  proof (cases "fixed_array ?f")
    case True
    with array_sentD(6) [OF a] show ?thesis by (simp add: c_def fixed_array_def)
  next
    case False
    with h st i size_address_regular [OF sentD(2) [OF array_sentD(1) [OF a]] i, of dest] show ?thesis
      by (simp add: c_def fixed_array_def items_state_def read_count_def)
  qed
  have "item_images (item_image (message_image n env ?m) env ?m) ?f ?q (unat c) = Some ws"
    unfolding item_images_def using st len c by (intro those_SomeI) (simp_all add: items_state_def items_at_def)
  moreover have "c \<noteq> 0" using array_sentD(4) [OF a] len c by (metis length_0_conv unat_0)
  moreover have "\<not> pf_array_size ?f < c" using le len c by (simp add: word_less_nat_alt)
  ultimately show ?thesis
    using h array_sentD(9,10) [OF a] by (simp add: field_image_def Let_def pb_htypes c_def [symmetric])
qed

subsection \<open>One more item\<close>

lemma packed_items_step:
  "packed_items func iter sub st =
     (let n = read_count st (it_pSize iter) in
      if is_bytes_left sub \<noteq> 0 \<and> n < pf_array_size (it_field iter)
      then (case func (it_field iter) (item_address (it_pData iter) (it_field iter) n) sub st of
              None \<Rightarrow> None
            | Some (None, r) \<Rightarrow> Some (None, r)
            | Some (Some _, (sub, st)) \<Rightarrow>
                packed_items func iter sub (write_count st (it_pSize iter) (read_count st (it_pSize iter) + 1)))
      else Some (Some (), (sub, st)))"
  unfolding packed_items_def Let_def
  by (subst iterate.simps) (simp add: Let_def split: option.split)

context image_decoder
begin

lemma item_step:
  assumes a: "array_sent n env m fs src dest sz rss i ws" and k: "k < length ws"
    and st: "items_state n env fs dest i ws st0 k c st"
    and v: "is_view s = Some (wire_bytes (ws ! k) @ rest)"
  shows "\<exists>s' st'. PB_DECODERS n decode env (PB_LTYPE (pf_type (fs ! i))) (fs ! i)
      (item_address (dest + data_off fs i) (fs ! i) (of_nat k)) s st = Some (Some (), (s', st'))
    \<and> reads s s' \<and> is_view s' = Some rest \<and> items_state n env fs dest i ws st0 (Suc k) c st'"
proof -
  let ?f = "fs ! i" and ?q = "dest + data_off fs i" and ?p = "src + data_off fs i"
  let ?d = "unat (pf_data_size ?f)" and ?x = "dest + data_off fs i + of_nat k * ucast (pf_data_size (fs ! i))"
  note sent = array_sentD(1) [OF a]
  note s = sentD(1) [OF sent] and r = sentD(2) [OF sent] and i = array_sentD(2) [OF a] and h = array_sentD(3) [OF a]
  have k': "k < unat (pf_array_size ?f)" using k array_sentD(5) [OF a] by simp
  have "delivers (region ?x ?d) s st rest
    (\<lambda>m'. item_image (message_image n env m') env m' ?f ?x = Some (ws ! k)
       \<and> (blank (unset n env m') env m' ?f ?x \<longleftrightarrow> blank (unset n env m) env m ?f (?p + of_nat k * ucast (pf_data_size ?f))))
    (PB_DECODERS n decode env (PB_LTYPE (pf_type ?f)) ?f ?x s st)"
    by (rule field_item [OF sent i array_item(2) [OF s sentD(3) [OF sent] i h k'] array_item(2) [OF s sentD(4) [OF sent] i h k']
          array_sentD(7,8) [OF a k] v]) (use h in simp)
  then obtain s' st' where run: "PB_DECODERS n decode env (PB_LTYPE (pf_type ?f)) ?f ?x s st = Some (Some (), (s', st'))"
    "reads s s'" "is_view s' = Some rest" "unchanged_outside (region ?x ?d) (pb_mem st) (pb_mem st')"
    "pb_heap st' = pb_heap st" "fixed_count_size st' = fixed_count_size st"
    "item_image (message_image n env (pb_mem st')) env (pb_mem st') ?f ?x = Some (ws ! k)"
    by (auto simp: delivers_def)
  have "items_at n env ?f ?q ws (pb_mem st') k"
    by (rule items_kept [OF a _ _ run(4)]) (use st k items_apart [OF s i h _ k'] in \<open>simp_all add: items_state_def\<close>)
  then have items: "items_at n env ?f ?q ws (pb_mem st') (Suc k)" using run(7) by (simp add: items_at_def less_Suc_eq)
  have reg: "region ?x ?d \<subseteq> region ?q (?d * field_items ?f)" by (rule item_region [OF k' h])
  then have u: "unchanged_outside (field_region fs dest i) (pb_mem st) (pb_mem st')"
    using unchanged_mono [OF run(4)] data_in_field [OF s i, of dest] by blast
  have count: "read_count st' (it_pSize (item_iter fs dest i)) = read_count st (it_pSize (item_iter fs dest i))"
  proof (cases "fixed_array ?f")
    case True
    with run(6) i show ?thesis by (simp add: read_count_def)
  next
    case False
    then have "pf_size_offset ?f \<noteq> 0" using h by (simp add: fixed_array_def)
    then have "region (dest + size_off fs i) 4 \<inter> region ?x ?d = {}"
      using count_data_apart(1) [OF s r i, of dest] h reg by blast
    from agree_load_size [OF agree_unchanged [OF run(4) this]] False i show ?thesis by (simp add: read_count_def)
  qed
  have "item_address ?q ?f (of_nat k) = ?x" by (rule array_item(1) [OF s sentD(4) [OF sent] i h k'])
  with run items u count st show ?thesis by (auto simp: items_state_def intro: unchanged_trans)
qed

lemma packed_loop:
  assumes a: "array_sent n env m fs src dest sz rss i ws"
    and st: "items_state n env fs dest i ws st0 k (of_nat k) st" "k \<le> length ws"
    and v: "is_view s = Some (concat (map wire_bytes (drop k ws)))"
  shows "\<exists>s' st'. packed_items (PB_DECODERS n decode env (PB_LTYPE (pf_type (fs ! i)))) (item_iter fs dest i) s st
      = Some (Some (), (s', st'))
    \<and> reads s s' \<and> is_view s' = Some [] \<and> items_state n env fs dest i ws st0 (length ws) (of_nat (length ws)) st'"
  using st v
proof (induction "length ws - k" arbitrary: k s st)
  case 0
  then have "is_bytes_left s = 0" using is_view_length [of s "[]"] by (simp add: unat_eq_0)
  with 0 show ?case by (subst packed_items_step) (simp add: Let_def)
next
  case (Suc x)
  then have k: "k < length ws" by simp
  note i = array_sentD(2) [OF a]
  have bound: "k < unat (pf_array_size (fs ! i))" using k array_sentD(5) [OF a] by simp
  then have ok: "unat (of_nat k :: u32) = k" using unat_less_2p [of "pf_array_size (fs ! i)"] by (intro unat_of_nat_id) simp
  then have less: "(of_nat k :: u32) < pf_array_size (fs ! i)" using bound by (simp add: word_less_nat_alt)
  have v: "is_view s = Some (wire_bytes (ws ! k) @ concat (map wire_bytes (drop (Suc k) ws)))"
    using Suc.prems(3) k by (simp add: Cons_nth_drop_Suc [symmetric])
  then have "is_bytes_left s \<noteq> 0" using is_view_length [OF v] by (metis append_is_Nil_conv length_0_conv unat_0 wire_bytes_nonempty)
  from item_step [OF a k Suc.prems(1) v] obtain s1 st1 where one:
    "PB_DECODERS n decode env (PB_LTYPE (pf_type (fs ! i))) (fs ! i)
      (item_address (dest + data_off fs i) (fs ! i) (of_nat k)) s st = Some (Some (), (s1, st1))"
    "reads s s1" "is_view s1 = Some (concat (map wire_bytes (drop (Suc k) ws)))"
    "items_state n env fs dest i ws st0 (Suc k) (of_nat k) st1" by blast
  let ?st = "write_count st1 (it_pSize (item_iter fs dest i)) (read_count st1 (it_pSize (item_iter fs dest i)) + 1)"
  have "read_count st1 (it_pSize (item_iter fs dest i)) = of_nat k" using one(4) by (simp add: items_state_def)
  then have next_state: "items_state n env fs dest i ws st0 (Suc k) (of_nat (Suc k)) ?st"
    using items_state_write [OF a _ one(4), of "of_nat (Suc k)"] k by (simp add: add.commute)
  have "x = length ws - Suc k" "Suc k \<le> length ws" using Suc.hyps(2) k by simp_all
  from Suc.hyps(1) [OF this(1) next_state this(2) one(3)] obtain s' st' where
    "packed_items (PB_DECODERS n decode env (PB_LTYPE (pf_type (fs ! i)))) (item_iter fs dest i) s1 ?st = Some (Some (), (s', st'))"
    "reads s1 s'" "is_view s' = Some []" "items_state n env fs dest i ws st0 (length ws) (of_nat (length ws)) st'" by blast
  moreover have "packed_items (PB_DECODERS n decode env (PB_LTYPE (pf_type (fs ! i)))) (item_iter fs dest i) s st
      = packed_items (PB_DECODERS n decode env (PB_LTYPE (pf_type (fs ! i)))) (item_iter fs dest i) s1 ?st"
    using \<open>is_bytes_left s \<noteq> 0\<close> less one(1) i Suc.prems(1)
    by (subst packed_items_step) (simp add: Let_def items_state_def)
  ultimately show ?case using reads_trans [OF one(2)] by auto
qed

lemma packed_field:
  assumes a: "array_sent n env m fs src dest sz rss i ws" and l: "PB_LTYPE (pf_type (fs ! i)) \<le> PB_LTYPE_LAST_PACKABLE"
    and st: "items_state n env fs dest i ws st0 0 0 st"
    and v: "is_view s = Some (wire_bytes (snd (hd (rss ! i))) @ rest)"
  shows "\<exists>s' st'. decode_static_field n decode env PB_WT_STRING (item_iter fs dest i) s st = Some (Some (), (s', st'))
    \<and> reads s s' \<and> is_view s' = Some rest \<and> items_state n env fs dest i ws st0 (length ws) (of_nat (length ws)) st'"
proof -
  let ?d = "concat (map wire_bytes ws)"
  note i = array_sentD(2) [OF a] and h = array_sentD(3) [OF a] and rec = array_sentD(9) [OF a l]
  have "is_view s = Some (varint (length ?d) @ ?d @ rest)" using v rec by simp
  from pb_make_string_substream_view [OF this conjunct2 [OF rec]] obtain sub s1 where sub:
    "pb_make_string_substream s = (Some sub, s1)" "is_view sub = Some ?d" "\<And>sub'. reads sub sub' \<Longrightarrow>
      \<exists>s2. pb_close_string_substream s1 sub' = (Some (), s2) \<and> is_view s2 = Some rest \<and> reads s s2" by blast
  from packed_loop [OF a, of st0 0 st sub] st sub(2) obtain sub' st' where loop:
    "packed_items (PB_DECODERS n decode env (PB_LTYPE (pf_type (fs ! i)))) (item_iter fs dest i) sub st = Some (Some (), (sub', st'))"
    "reads sub sub'" "is_view sub' = Some []" "items_state n env fs dest i ws st0 (length ws) (of_nat (length ws)) st'" by auto
  from sub(3) [OF loop(2)] obtain s2 where s2: "pb_close_string_substream s1 sub' = (Some (), s2)" "is_view s2 = Some rest" "reads s s2"
    by blast
  have "is_bytes_left sub' = 0" using is_view_length [OF loop(3)] by (simp add: unat_eq_0)
  with sub(1) loop(1,4) s2 i h l show ?thesis
    by (simp add: decode_static_field_def Let_def pb_htypes reading_def close_with_def)
qed

lemma unpacked_field:
  assumes a: "array_sent n env m fs src dest sz rss i ws" and l: "\<not> PB_LTYPE (pf_type (fs ! i)) \<le> PB_LTYPE_LAST_PACKABLE"
    and k: "k < length ws" and st: "items_state n env fs dest i ws st0 k (of_nat k) st"
    and v: "is_view s = Some (wire_bytes (ws ! k) @ rest)"
  shows "\<exists>s' st'. decode_static_field n decode env wt (item_iter fs dest i) s st = Some (Some (), (s', st'))
    \<and> reads s s' \<and> is_view s' = Some rest \<and> items_state n env fs dest i ws st0 (Suc k) (of_nat (Suc k)) st'"
proof -
  note i = array_sentD(2) [OF a] and h = array_sentD(3) [OF a]
  have bound: "k < unat (pf_array_size (fs ! i))" using k array_sentD(5) [OF a] by simp
  then have ok: "unat (of_nat k :: u32) = k" using unat_less_2p [of "pf_array_size (fs ! i)"] by (intro unat_of_nat_id) simp
  then have less: "\<not> pf_array_size (fs ! i) \<le> of_nat k" using bound by (simp add: word_le_nat_alt)
  let ?st = "write_count st (it_pSize (item_iter fs dest i)) (of_nat k + 1)"
  have c: "read_count st (it_pSize (item_iter fs dest i)) = of_nat k" using st by (simp add: items_state_def)
  have "items_state n env fs dest i ws st0 k (of_nat (Suc k)) ?st"
    using items_state_write [OF a _ st, of "of_nat (Suc k)"] k by (simp add: add.commute)
  from item_step [OF a k this v] c less i h l show ?thesis
    by (simp add: decode_static_field_def Let_def pb_htypes)
qed

end

end
