(* ===== verification/Pb_Message_Decoder.thy ===== *)
theory Pb_Message_Decoder
  imports Pb_Array_Decoder
begin

text \<open>
  The decoder of a level on a whole message: field by field, and the decoder of the code as an
  interpretation at every level.
\<close>

lemma iterate_Inl: "body c = Some (Inl c') \<Longrightarrow> iterate body c = iterate body c'"
  by (subst iterate.simps) simp

subsection \<open>Between two fields\<close>

definition at_boundary ::
  "nat \<Rightarrow> ('h, 's) pb_env \<Rightarrow> mem \<Rightarrow> pb_field list \<Rightarrow> u64 \<Rightarrow> u64 \<Rightarrow> nat \<Rightarrow> wire_record list list
     \<Rightarrow> 's pb_istream \<Rightarrow> 'h pb_store \<Rightarrow> nat \<Rightarrow> decode_locals \<Rightarrow> 's pb_istream \<Rightarrow> 'h pb_store \<Rightarrow> bool" where
  "at_boundary n env m fs src dest sz rss s0 st0 i l s st \<longleftrightarrow>
     is_view s = Some (message_bytes (concat (drop i rss))) \<and> reads s0 s
     \<and> unchanged_outside (region dest sz) (pb_mem st0) (pb_mem st) \<and> pb_heap st = pb_heap st0
     \<and> decoded n env m fs src dest rss i (pb_mem st)
     \<and> iter_before fs dest i (dl_iter l) \<and> fields_seen l = seen_words (required_before fs i)
     \<and> (\<forall>k. fixed_count_field l = Some k \<longrightarrow> k < i \<and> fixed_count_size st = pf_array_size (field_at fs k))"

lemma boundaryD:
  assumes "at_boundary n env m fs src dest sz rss s0 st0 i l s st"
  shows "is_view s = Some (message_bytes (concat (drop i rss)))" "decoded n env m fs src dest rss i (pb_mem st)"
    "iter_before fs dest i (dl_iter l)" "fields_seen l = seen_words (required_before fs i)" "fixed_count_field l \<noteq> Some i"
    "it_start iter = fs \<Longrightarrow> \<not> wrong_fixed_count (l\<lparr>dl_iter := iter\<rparr>) st"
  using assms by (auto simp: at_boundary_def wrong_fixed_count_def split: option.split)

lemma boundary_skip:
  assumes a: "sent n env m fs src dest sz rss" and i: "i < length fs" and e: "rss ! i = []"
    and b: "at_boundary n env m fs src dest sz rss s0 st0 i l s st"
  shows "at_boundary n env m fs src dest sz rss s0 st0 (Suc i) l s st"
proof -
  have "drop i rss = rss ! i # drop (Suc i) rss" using i sentD(7) [OF a] by (simp add: Cons_nth_drop_Suc)
  then have "concat (drop (Suc i) rss) = concat (drop i rss)" using e by simp
  moreover have "\<not> required (fs ! i)"
    using image_at(1) [OF sentD(6) [OF a] i] e by (auto simp: required_def field_image_def Let_def)
  ultimately show ?thesis
    using b decoded_skip [OF a i _ e] iter_before_mono required_before_Suc [OF i] less_SucI
    unfolding at_boundary_def by (simp add: less_SucI)
qed

lemma boundary_step:
  assumes a: "sent n env m fs src dest sz rss" and i: "i < length fs"
    and b: "at_boundary n env m fs src dest sz rss s0 st0 i l s st"
    and s': "reads s s'" "is_view s' = Some (message_bytes (concat (drop (Suc i) rss)))"
    and st': "unchanged_outside (field_region fs dest i) (pb_mem st) (pb_mem st')" "pb_heap st' = pb_heap st"
      "fixed_count_size st' = (if fixed_array (fs ! i) then pf_array_size (fs ! i) else fixed_count_size st)"
    and im: "field_image n (message_image n env (pb_mem st')) env (pb_mem st') (fs ! i) (dest + data_off fs i) = Some (rss ! i)"
    and one: "PB_HTYPE (pf_type (fs ! i)) = PB_HTYPE_ONEOF \<Longrightarrow>
      rss ! i \<noteq> [] \<and> load_size (pb_mem st') (dest + size_off fs i) = pf_tag (fs ! i)"
  shows "at_boundary n env m fs src dest sz rss s0 st0 (Suc i) ((first_locals fs i l)\<lparr>dl_iter := item_iter fs dest i\<rparr>) s' st'"
proof -
  have "unchanged_outside (region dest sz) (pb_mem st) (pb_mem st')"
    by (rule unchanged_mono [OF st'(1) field_region_inside [OF sentD(1,2) [OF a] i]])
  moreover have "decoded n env m fs src dest rss (Suc i) (pb_mem st')"
    by (rule decoded_step [OF a i boundaryD(2) [OF b] st'(1) im one])
  moreover have "iter_before fs dest (Suc i) (item_iter fs dest i)"
    using at_field_item_iter [OF i, of dest] by (auto simp: iter_before_def)
  moreover have "k < Suc i \<and> fixed_count_size st' = pf_array_size (field_at fs k)"
    if "fixed_count_field (first_locals fs i l) = Some k" for k
    using that b st'(3) i by (auto simp: first_locals_def at_boundary_def field_at_def split: if_splits)
  moreover have "fields_seen (first_locals fs i l) = seen_words (required_before fs (Suc i))" by (simp add: first_locals_def)
  ultimately show ?thesis
    using b s' st'(2) unfolding at_boundary_def by (auto intro: reads_trans unchanged_trans)
qed

context image_decoder
begin

lemma first_round:
  assumes a: "sent n env m fs src dest sz rss" and i: "i < length fs"
    and b: "at_boundary n env m fs src dest sz rss s0 st0 i l s st" and rec: "rss ! i = (pf_tag (fs ! i), w) # recs"
  defines "st1 \<equiv> (if fixed_array (fs ! i) then st\<lparr>fixed_count_size := 0\<rparr> else st)"
  shows "\<exists>s1. is_view s1 = Some (wire_bytes w @ message_bytes recs @ message_bytes (concat (drop (Suc i) rss))) \<and> reads s s1
    \<and> (\<forall>s' st'. decode_static_field n decode env (wire_type_of w) (item_iter fs dest i) s1 st1 = Some (Some (), (s', st')) \<longrightarrow>
         decode_round n decode env (l, s, st) = Some (Inl ((first_locals fs i l)\<lparr>dl_iter := item_iter fs dest i\<rparr>, s', st')))"
proof -
  note s = sentD(1) [OF a] and r = sentD(2) [OF a]
  note st = static_field [OF s i]
  have "drop i rss = rss ! i # drop (Suc i) rss" using i sentD(7) [OF a] by (simp add: Cons_nth_drop_Suc)
  then have v: "is_view s = Some (field_bytes (pf_tag (fs ! i)) w @ message_bytes recs @ message_bytes (concat (drop (Suc i) rss)))"
    using boundaryD(1) [OF b] rec by simp
  have l: "PB_LTYPE (pf_type (fs ! i)) \<noteq> PB_LTYPE_EXTENSION" using st(2) by (auto simp: item_ok_def Let_def pb_ltypes)
  have f: "pb_field_iter_find (dl_iter l) (pf_tag (fs ! i)) = Some (True, iter_at fs dest i)"
    by (rule iter_before_find [OF sentD(8,9) [OF a] _ boundaryD(3) [OF b] i l]) (use r in simp)
  have tag: "0 < pf_tag (fs ! i)" "pf_tag (fs ! i) < 2 ^ 29" using s i regularD(1) [OF r i] by (simp_all add: word_neq_0_conv)
  from decode_round_record [OF v tag f, of n decode env st] obtain s1 where s1:
    "is_view s1 = Some (wire_bytes w @ message_bytes recs @ message_bytes (concat (drop (Suc i) rss)))" "reads s s1"
    "decode_round n decode env (l, s, st) =
        (case decode_known n decode env (wire_type_of w) (l\<lparr>dl_iter := iter_at fs dest i\<rparr>) s1 st of
           None \<Rightarrow> None | Some (None, r) \<Rightarrow> Some (Inr (None, r)) | Some (Some l, (s, st)) \<Rightarrow> Some (Inl (l, s, st)))" by blast
  have "decode_known n decode env (wire_type_of w) (l\<lparr>dl_iter := iter_at fs dest i\<rparr>) s1 st
      = run_attempt (decode_field n decode env (wire_type_of w) (item_iter fs dest i) s1 st1)
          (\<lambda>iter t. Some (Some ((first_locals fs i l)\<lparr>dl_iter := iter\<rparr>), t))"
    unfolding st1_def by (rule first_known [OF r i boundaryD(6) [OF b] boundaryD(5,4) [OF b]]) simp
  moreover have "decode_field n decode env (wire_type_of w) (item_iter fs dest i) s1 st1
      = run_attempt (decode_static_field n decode env (wire_type_of w) (item_iter fs dest i) s1 st1)
          (\<lambda>_ r. Some (Some (item_iter fs dest i), r))"
  proof (rule static_decode_field)
    show "PB_ATYPE (pf_type (it_field (item_iter fs dest i))) = PB_ATYPE_STATIC" using st(1) i by simp
    assume "PB_HTYPE (pf_type (it_field (item_iter fs dest i))) = PB_HTYPE_ONEOF"
    then have h: "PB_HTYPE (pf_type (fs ! i)) = PB_HTYPE_ONEOF" "\<not> fixed_array (fs ! i)"
      using i by (simp_all add: fixed_array_def pb_htypes)
    with union_clear [OF a i boundaryD(2) [OF b] h(1)] rec i show "read_count st1 (it_pSize (item_iter fs dest i)) = 0"
      by (simp add: read_count_def st1_def)
  qed
  ultimately show ?thesis using s1 by (intro exI [of _ s1]) auto
qed

lemma array_begin:
  assumes a: "array_sent n env m fs src dest sz rss i ws" and b: "at_boundary n env m fs src dest sz rss s0 st0 i l s st"
  shows "items_state n env fs dest i ws st 0 0 (if fixed_array (fs ! i) then st\<lparr>fixed_count_size := 0\<rparr> else st)"
proof -
  note i = array_sentD(2) [OF a] and h = array_sentD(3) [OF a]
  have "initial_field (initial n env (pb_mem st)) env (pb_mem st) (fs ! i) (dest + data_off fs i)"
    by (rule decodedD(2) [OF boundaryD(2) [OF b] i order_refl]) (simp add: h pb_htypes)
  then show ?thesis
    using i h size_address_regular [OF sentD(2) [OF array_sentD(1) [OF a]] i, of dest]
    by (auto simp: items_state_def items_at_def read_count_def fixed_array_def initial_field_def Let_def)
qed

lemma array_end:
  assumes a: "array_sent n env m fs src dest sz rss i ws" and b: "at_boundary n env m fs src dest sz rss s0 st0 i l s st"
    and e: "items_state n env fs dest i ws st (length ws) (of_nat (length ws)) st'" "reads s s'"
      "is_view s' = Some (message_bytes (concat (drop (Suc i) rss)))"
  shows "at_boundary n env m fs src dest sz rss s0 st0 (Suc i) ((first_locals fs i l)\<lparr>dl_iter := item_iter fs dest i\<rparr>) s' st'"
proof (rule boundary_step [OF array_sentD(1,2) [OF a] b e(2,3)])
  note i = array_sentD(2) [OF a]
  show "fixed_count_size st' = (if fixed_array (fs ! i) then pf_array_size (fs ! i) else fixed_count_size st)"
    using e(1) i array_sentD(6) [OF a] by (auto simp: items_state_def read_count_def)
  show "field_image n (message_image n env (pb_mem st')) env (pb_mem st') (fs ! i) (dest + data_off fs i) = Some (rss ! i)"
    by (rule items_state_image [OF a e(1)])
qed (use e(1) array_sentD(3) [OF a] in \<open>simp_all add: items_state_def pb_htypes\<close>)

lemma unpacked_rounds:
  assumes a: "array_sent n env m fs src dest sz rss i ws" and l: "\<not> PB_LTYPE (pf_type (fs ! i)) \<le> PB_LTYPE_LAST_PACKABLE"
    and it: "dl_iter l = item_iter fs dest i" and k: "k \<le> length ws"
    and st: "items_state n env fs dest i ws st0 k (of_nat k) st"
    and v: "is_view s = Some (message_bytes (map (Pair (pf_tag (fs ! i))) (drop k ws)) @ rest)"
  shows "\<exists>s' st'. iterate (decode_round n decode env) (l, s, st) = iterate (decode_round n decode env) (l, s', st')
    \<and> reads s s' \<and> is_view s' = Some rest \<and> items_state n env fs dest i ws st0 (length ws) (of_nat (length ws)) st'"
  using k st v
proof (induction "length ws - k" arbitrary: k s st)
  case 0
  then show ?case using reads_refl by auto
next
  case (Suc x)
  then have k: "k < length ws" by simp
  note sent = array_sentD(1) [OF a] and i = array_sentD(2) [OF a] and h = array_sentD(3) [OF a]
  note s = sentD(1) [OF sent] and r = sentD(2) [OF sent]
  let ?t = "pf_tag (fs ! i)"
  have v: "is_view s = Some (field_bytes ?t (ws ! k) @ message_bytes (map (Pair ?t) (drop (Suc k) ws)) @ rest)"
    using Suc.prems(3) k by (simp add: Cons_nth_drop_Suc [symmetric])
  have "PB_LTYPE (pf_type (fs ! i)) \<noteq> PB_LTYPE_EXTENSION"
    using static_field(2) [OF s i] by (auto simp: item_ok_def Let_def pb_ltypes)
  from find_field [OF sentD(8,9) [OF sent] _ at_field_item_iter [OF i] i this] r
  have f: "pb_field_iter_find (dl_iter l) ?t = Some (True, item_iter fs dest i)" by (simp add: it)
  have tag: "0 < ?t" "?t < 2 ^ 29" using s i regularD(1) [OF r i] by (simp_all add: word_neq_0_conv)
  from decode_round_record [OF v tag f, of n decode env st] obtain s1 where s1:
    "is_view s1 = Some (wire_bytes (ws ! k) @ message_bytes (map (Pair ?t) (drop (Suc k) ws)) @ rest)" "reads s s1"
    "decode_round n decode env (l, s, st) =
        (case decode_known n decode env (wire_type_of (ws ! k)) (l\<lparr>dl_iter := item_iter fs dest i\<rparr>) s1 st of
           None \<Rightarrow> None | Some (None, r) \<Rightarrow> Some (Inr (None, r)) | Some (Some l, (s, st)) \<Rightarrow> Some (Inl (l, s, st)))" by blast
  from unpacked_field [OF a l k Suc.prems(2) s1(1), of "wire_type_of (ws ! k)"] obtain s2 st2 where s2:
    "decode_static_field n decode env (wire_type_of (ws ! k)) (item_iter fs dest i) s1 st = Some (Some (), (s2, st2))"
    "reads s1 s2" "is_view s2 = Some (message_bytes (map (Pair ?t) (drop (Suc k) ws)) @ rest)"
    "items_state n env fs dest i ws st0 (Suc k) (of_nat (Suc k)) st2" by blast
  have "decode_field n decode env (wire_type_of (ws ! k)) (item_iter fs dest i) s1 st
      = Some (Some (item_iter fs dest i), (s2, st2))"
    using s2(1) i h static_field(1) [OF s i] by (subst static_decode_field) (simp_all add: pb_htypes)
  moreover have same: "l\<lparr>dl_iter := item_iter fs dest i\<rparr> = l" using it by simp
  ultimately have "decode_round n decode env (l, s, st) = Some (Inl (l, s2, st2))"
    using s1(3) later_known [OF r i h it, where decode = decode and wt = "wire_type_of (ws ! k)" and s = s1 and st = st] by simp
  then have e: "iterate (decode_round n decode env) (l, s, st) = iterate (decode_round n decode env) (l, s2, st2)"
    by (rule iterate_Inl)
  have "x = length ws - Suc k" "Suc k \<le> length ws" using Suc.hyps(2) k by simp_all
  from Suc.hyps(1) [OF this s2(4,3)] e reads_trans [OF reads_trans [OF s1(2) s2(2)]] show ?case by auto
qed

lemma field_rounds:
  assumes a: "sent n env m fs src dest sz rss" and i: "i < length fs"
    and b: "at_boundary n env m fs src dest sz rss s0 st0 i l s st"
  shows "\<exists>l' s' st'. iterate (decode_round n decode env) (l, s, st) = iterate (decode_round n decode env) (l', s', st')
    \<and> at_boundary n env m fs src dest sz rss s0 st0 (Suc i) l' s' st'"
proof (cases "rss ! i")
  case Nil
  with boundary_skip [OF a i _ b] show ?thesis by blast
next
  case ne: (Cons rec recs)
  let ?l = "(first_locals fs i l)\<lparr>dl_iter := item_iter fs dest i\<rparr>" and ?rest = "message_bytes (concat (drop (Suc i) rss))"
  show ?thesis
  proof (cases "PB_HTYPE (pf_type (fs ! i)) = PB_HTYPE_REPEATED")
    case False
    then have nf: "\<not> fixed_array (fs ! i)" by (simp add: fixed_array_def)
    then have it: "item_iter fs dest i = iter_at fs dest i" by (simp add: item_iter_def)
    obtain w where w: "rss ! i = [(pf_tag (fs ! i), w)]" using single_record [OF a i False] ne by auto
    from first_round [OF a i b w] nf obtain s1 where s1: "is_view s1 = Some (wire_bytes w @ ?rest)" "reads s s1"
      "\<And>s' st'. decode_static_field n decode env (wire_type_of w) (item_iter fs dest i) s1 st = Some (Some (), (s', st')) \<Longrightarrow>
         decode_round n decode env (l, s, st) = Some (Inl (?l, s', st'))" by auto
    from single_delivers [OF a i False _ boundaryD(2) [OF b], of s1 ?rest "wire_type_of w"] w s1(1) obtain s' st' where d:
      "decode_static_field n decode env (wire_type_of w) (item_iter fs dest i) s1 st = Some (Some (), (s', st'))"
      "reads s1 s'" "is_view s' = Some ?rest" "unchanged_outside (field_region fs dest i) (pb_mem st) (pb_mem st')"
      "pb_heap st' = pb_heap st" "fixed_count_size st' = fixed_count_size st"
      "field_image n (message_image n env (pb_mem st')) env (pb_mem st') (fs ! i) (dest + data_off fs i) = Some (rss ! i)"
      "PB_HTYPE (pf_type (fs ! i)) = PB_HTYPE_ONEOF \<longrightarrow> load_size (pb_mem st') (dest + size_off fs i) = pf_tag (fs ! i)"
      by (auto simp: delivers_def it)
    have "at_boundary n env m fs src dest sz rss s0 st0 (Suc i) ?l s' st'"
      by (rule boundary_step [OF a i b reads_trans [OF s1(2) d(2)] d(3-5) _ d(7)]) (use d(6,8) nf w in simp_all)
    with iterate_Inl [where body = "decode_round n decode env", OF s1(3) [OF d(1)]] show ?thesis by blast
  next
    case True
    obtain ws where ws: "array_sent n env m fs src dest sz rss i ws" using array_records [OF a i True] ne by auto
    define st1 where "st1 = (if fixed_array (fs ! i) then st\<lparr>fixed_count_size := 0\<rparr> else st)"
    note start = array_begin [OF ws b, folded st1_def]
    show ?thesis
    proof (cases "PB_LTYPE (pf_type (fs ! i)) \<le> PB_LTYPE_LAST_PACKABLE")
      case l: True
      define w where "w = W_string (concat (map wire_bytes ws))"
      have rec: "rss ! i = [(pf_tag (fs ! i), w)]" using array_sentD(9) [OF ws l] by (simp add: w_def)
      from first_round [OF a i b rec, folded st1_def] obtain s1 where s1: "is_view s1 = Some (wire_bytes w @ ?rest)" "reads s s1"
        "\<And>s' st'. decode_static_field n decode env (wire_type_of w) (item_iter fs dest i) s1 st1 = Some (Some (), (s', st')) \<Longrightarrow>
           decode_round n decode env (l, s, st) = Some (Inl (?l, s', st'))" by auto
      from packed_field [OF ws l start, of s1 ?rest] s1(1) rec obtain s' st' where d:
        "decode_static_field n decode env (wire_type_of w) (item_iter fs dest i) s1 st1 = Some (Some (), (s', st'))"
        "reads s1 s'" "is_view s' = Some ?rest" "items_state n env fs dest i ws st (length ws) (of_nat (length ws)) st'"
        by (auto simp: w_def)
      from array_end [OF ws b d(4) reads_trans [OF s1(2) d(2)] d(3)] iterate_Inl [where body = "decode_round n decode env", OF s1(3) [OF d(1)]] show ?thesis by blast
    next
      case l: False
      obtain w ws' where w: "ws = w # ws'" using array_sentD(4) [OF ws] by (cases ws) auto
      have rec: "rss ! i = (pf_tag (fs ! i), w) # map (Pair (pf_tag (fs ! i))) ws'" using array_sentD(10) [OF ws l] w by simp
      from first_round [OF a i b rec, folded st1_def] obtain s1 where s1:
        "is_view s1 = Some (wire_bytes w @ message_bytes (map (Pair (pf_tag (fs ! i))) ws') @ ?rest)" "reads s s1"
        "\<And>s' st'. decode_static_field n decode env (wire_type_of w) (item_iter fs dest i) s1 st1 = Some (Some (), (s', st')) \<Longrightarrow>
           decode_round n decode env (l, s, st) = Some (Inl (?l, s', st'))" by auto
      from unpacked_field [OF ws l, of 0 st st1 s1 _ "wire_type_of w"] start s1(1) w obtain s2 st2 where d:
        "decode_static_field n decode env (wire_type_of w) (item_iter fs dest i) s1 st1 = Some (Some (), (s2, st2))"
        "reads s1 s2" "is_view s2 = Some (message_bytes (map (Pair (pf_tag (fs ! i))) ws') @ ?rest)"
        "items_state n env fs dest i ws st (Suc 0) (of_nat (Suc 0)) st2" by auto
      from unpacked_rounds [OF ws l _ _ d(4), of ?l s2 ?rest] d(3) w obtain s' st' where e:
        "iterate (decode_round n decode env) (?l, s2, st2) = iterate (decode_round n decode env) (?l, s', st')"
        "reads s2 s'" "is_view s' = Some ?rest" "items_state n env fs dest i ws st (length ws) (of_nat (length ws)) st'" by auto
      from array_end [OF ws b e(4) reads_trans [OF reads_trans [OF s1(2) d(2)] e(2)] e(3)] iterate_Inl [where body = "decode_round n decode env", OF s1(3) [OF d(1)]] e(1)
      show ?thesis by auto
    qed
  qed
qed

lemma message_rounds:
  assumes a: "sent n env m fs src dest sz rss" and i: "i \<le> length fs"
    and b: "at_boundary n env m fs src dest sz rss s0 st0 i l s st"
  shows "\<exists>l' s' st'. iterate (decode_round n decode env) (l, s, st) = iterate (decode_round n decode env) (l', s', st')
    \<and> at_boundary n env m fs src dest sz rss s0 st0 (length fs) l' s' st'"
  using i b
proof (induction "length fs - i" arbitrary: i l s st)
  case 0
  then show ?case by (intro exI [of _ l] exI [of _ s] exI [of _ st]) simp
next
  case (Suc x)
  then have i: "i < length fs" by simp
  from field_rounds [OF a i Suc.prems(2)] obtain l' s' st' where
    e: "iterate (decode_round n decode env) (l, s, st) = iterate (decode_round n decode env) (l', s', st')"
    and b: "at_boundary n env m fs src dest sz rss s0 st0 (Suc i) l' s' st'" by blast
  have "x = length fs - Suc i" "Suc i \<le> length fs" using Suc.hyps(2) i by simp_all
  from Suc.hyps(1) [OF this b] e show ?case by simp
qed

lemma message_decoded:
  assumes a: "sent n env m fs src dest sz rss" and ini: "initial (Suc n) env (pb_mem st) fs dest"
    and v: "is_view s = Some (message_bytes (concat rss))"
  shows "\<exists>s' st'. decode_message n decode env fs dest s st = Some (Some (), (s', st')) \<and> reads s s' \<and> is_view s' = Some []
    \<and> unchanged_outside (region dest sz) (pb_mem st) (pb_mem st') \<and> pb_heap st' = pb_heap st
    \<and> message_image (Suc n) env (pb_mem st') fs dest = Some rss \<and> which_ok (pb_mem st') fs dest"
proof -
  note fs = sentD(8,9) [OF a]
  define l0 where "l0 = \<lparr>dl_iter = snd (pb_field_iter_begin fs dest), fields_seen = [0, 0], extension_range_start = 0,
    fixed_count_field = None\<rparr>"
  have "at_boundary n env m fs src dest sz rss s st 0 l0 s st"
    using v decoded_start [OF a ini] iter_begin [OF fs]
    by (simp add: at_boundary_def l0_def iter_before_def seen_words_start required_before_def reads_refl)
  from message_rounds [OF a _ this] obtain l s' st' where
    e: "iterate (decode_round n decode env) (l0, s, st) = iterate (decode_round n decode env) (l, s', st')"
    and b: "at_boundary n env m fs src dest sz rss s st (length fs) l s' st'" by auto
  have v': "is_view s' = Some []" using boundaryD(1) [OF b] sentD(7) [OF a] by simp
  then have "is_bytes_left s' = 0" using is_view_length [of s' "[]"] by (simp add: unat_eq_0)
  then have "iterate (decode_round n decode env) (l, s', st') = Some (Some l, (s', st'))"
    by (subst iterate.simps) (simp add: decode_round_def)
  moreover have "required_field_count (dl_iter l) = Some (length (filter required fs))"
    by (rule state_required_count [OF fs iter_before_state [OF boundaryD(3) [OF b]]])
  moreover have "it_start (dl_iter l) = fs"
    using boundaryD(3) [OF b] at_field_sel by (fastforce simp: iter_before_def)
  then have "\<not> wrong_fixed_count l st'" using boundaryD(6) [OF b, of "dl_iter l"] by simp
  moreover have "required_fields_seen (length (filter required fs)) (fields_seen l)"
    using boundaryD(4) [OF b] seen_words_all by (simp add: required_before_def)
  ultimately have "decode_message n decode env fs dest s st = Some (Some (), (s', st'))"
    using e by (simp add: decode_message_def l0_def)
  with b v' decoded_end [OF a boundaryD(2) [OF b]] show ?thesis by (simp add: at_boundary_def)
qed

end

subsection \<open>The decoder of the code\<close>

interpretation image: image_decoder n env "pb_decode_noinit n env" for n and env :: "('h, 's) pb_env"
proof (induction n)
  case 0
  show ?case by unfold_locales simp
next
  case (Suc n)
  show ?case
  proof unfold_locales
    fix fs sz src dest m rss and s :: "'s pb_istream" and st :: "'h pb_store"
    assume a: "static_message (Suc n) env fs sz" "regular (Suc n) env fs" "object_at src sz" "object_at dest sz"
      "proper (Suc n) env m fs src" "message_image (Suc n) env m fs src = Some rss"
      "initial (Suc n) env (pb_mem st) fs dest" "is_view s = Some (message_bytes (concat rss))"
    have "sent n env m fs src dest sz rss" unfolding sent_def using a(1-6) by blast
    from image_decoder.message_decoded [OF Suc this, of "st\<lparr>fixed_count_size := 0\<rparr>" s] a(7,8)
    show "delivers (region dest sz) s st []
      (\<lambda>m'. message_image (Suc n) env m' fs dest = Some rss \<and> which_ok m' fs dest) (pb_decode_noinit (Suc n) env fs dest s st)"
      by (auto simp: delivers_def simp del: message_image.simps)
  qed
qed

end
