(* ===== verification/Pb_Roundtrip.thy ===== *)
theory Pb_Roundtrip
  imports Pb_Encode_Props Pb_Message_Decoder
begin

text \<open>A message survives the encoder and the decoder.\<close>

text \<open>The example of \<^const>\<open>example_store\<close> can be received.\<close>

lemma leaf_proper: "proper (Suc n) example_env (pb_mem example_store) leaf_fields 0x100C"
  by (simp add: which_ok_def proper_field_def proper_item_def example_fields leaf_field_def Let_def PB_HTYPE_def PB_LTYPE_def
      pb_htypes pb_ltypes)

lemma tree_proper: "proper 2 example_env (pb_mem example_store) tree_fields 0x1000"
proof -
  have "proper_item (proper (Suc 0) example_env (pb_mem example_store)) example_env (pb_mem example_store) branch_field 0x100C"
    using leaf_proper [of 0]
    by (simp add: proper_item_def branch_field_def submsg_fields_def example_fields PB_LTYPE_def pb_ltypes pb_htypes del: proper.simps)
  then show ?thesis
    unfolding numeral_2_eq_2 proper.simps(2) [of "Suc 0"]
    by (simp add: All_less_Suc which_ok_def proper_field_def proper_item_def example_image_simps del: proper.simps data_off.simps)
qed

subsection \<open>One message\<close>

text \<open>
  C1: Round trip of messages.  For a static message of a regular layout (any nesting of required, optional,
  repeated, packed, fixed-count and oneof fields), \<open>pb_encode\<close> of a structure whose image is defined writes it
  into a buffer that is large enough, and \<open>pb_decode\<close> of the bytes written, into any structure at any
  other place, succeeds, consumes all bytes, gives a structure with the same image and touches nothing else.
\<close>

theorem pb_message_roundtrip:
  assumes "static_message n env fs sz" "regular n env fs" "object_at src sz" "object_at dest sz"
    and "proper n env (pb_mem sender) fs src" "message_image n env (pb_mem sender) fs src = Some rss"
    and "length (message_bytes (concat rss)) \<le> length buf" "length buf < 2 ^ 63"
  shows "\<exists>s1 buf'. pb_encode n env sender fs src (pb_ostream_from_buffer buf (of_nat (length buf))) = Some (Some (), s1)
    \<and> os_sink s1 = Out_buf buf' (unat (os_bytes_written s1))
    \<and> (\<exists>s2 st2. pb_decode n env fs dest (pb_istream_from_buffer buf' (os_bytes_written s1)) st = Some (Some (), (s2, st2))
         \<and> is_bytes_left s2 = 0
         \<and> message_image n env (pb_mem st2) fs dest = message_image n env (pb_mem sender) fs src
         \<and> unchanged_outside (region dest sz) (pb_mem st) (pb_mem st2) \<and> pb_heap st2 = pb_heap st)"
proof -
  let ?b = "message_bytes (concat rss)" and ?s = "pb_ostream_from_buffer buf (of_nat (length buf)) :: 'b pb_ostream"
  let ?in = "pb_istream_from_buffer (?b @ drop (length ?b) buf) (of_nat (length ?b)) :: 'b pb_istream"
  have u: "unat (of_nat (length buf) :: u64) = length buf" using assms(8) by (intro unat_of_nat_u64) simp
  have "ready ?s" using assms(8) u by (simp add: ready_def os_ok_def pb_ostream_from_buffer_def)
  moreover have "os_fits ?s (length ?b)" using assms(7) by (simp add: os_fits_def pb_ostream_from_buffer_def u)
  ultimately have enc: "pb_encode n env sender fs src ?s = Some (Some (), os_append ?b ?s)"
    by (rule writes_fits [OF encoder.encode_image [OF assms(1-3,6)]])
  have len: "length ?b < 2 ^ 64" using assms(7,8) by simp
  have out: "os_sink (os_append ?b ?s) = Out_buf (?b @ drop (length ?b) buf) (length ?b)"
    "os_bytes_written (os_append ?b ?s) = of_nat (length ?b)"
    using assms(7) by (simp_all add: os_append_def pb_ostream_from_buffer_def buf_store_inside)
  have "is_view ?in = Some ?b" using len by simp
  from image.initialized_image [OF assms(1-6) this, of st] obtain s2 st2 where
    dec: "pb_decode n env fs dest ?in st = Some (Some (), (s2, st2))" "is_view s2 = Some []"
      "message_image n env (pb_mem st2) fs dest = Some rss" "unchanged_outside (region dest sz) (pb_mem st) (pb_mem st2)"
      "pb_heap st2 = pb_heap st"
    by (auto simp: delivers_def pb_decode_def)
  have "is_bytes_left s2 = 0" using is_view_length [OF dec(2)] by (simp add: unat_eq_0)
  with enc out dec assms(6) len show ?thesis
    by (intro exI [of _ "os_append ?b ?s"] exI [of _ "?b @ drop (length ?b) buf"]) (simp add: unat_of_nat_u64)
qed

theorem pb_message_roundtrip_witness:
  "\<exists>s1 buf'. pb_encode 2 example_env example_store tree_fields 0x1000 (pb_ostream_from_buffer (replicate 8 0) 8) = Some (Some (), s1)
    \<and> os_sink s1 = Out_buf buf' (unat (os_bytes_written s1))
    \<and> (\<exists>s2 st2. pb_decode 2 example_env tree_fields 0x2000 (pb_istream_from_buffer buf' (os_bytes_written s1)) example_store
         = Some (Some (), (s2, st2))
       \<and> message_image 2 example_env (pb_mem st2) tree_fields 0x2000 = Some example_rss)"
proof -
  have d: "object_at 0x2000 28" by (simp add: object_at_def)
  have b: "length (message_bytes (concat example_rss)) \<le> length (replicate 8 (0 :: u8))" "length (replicate 8 (0 :: u8)) < 2 ^ 63"
    by (simp_all add: example_rss_def message_bytes_def field_bytes_def tag_key_def pb_wt_defs example_varints
        numeral_2_eq_2 [symmetric])
  have l: "length (replicate 8 (0 :: u8)) = 8" "(of_nat 8 :: u64) = 8" by simp_all
  show ?thesis
    using pb_message_roundtrip [OF tree_static_2 tree_regular tree_at d tree_proper example_image b, of example_store, unfolded l]
    unfolding example_image by blast
qed

subsection \<open>Messages in a stream\<close>

text \<open>
  C2: Framing.  A message written by \<open>pb_encode_delimited\<close> and followed by any bytes is received by
  \<open>pb_decode_delimited\<close> with the same image, and the stream is then at the bytes that follow: delimited messages can
  be written one after the other.
\<close>

theorem pb_delimited_roundtrip:
  assumes "static_message n env fs sz" "regular n env fs" "object_at src sz" "object_at dest sz"
    and "proper n env (pb_mem sender) fs src" "message_image n env (pb_mem sender) fs src = Some rss"
    and "length (message_bytes (concat rss)) < 2 ^ 32"
    and "is_view s = Some (varint (length (message_bytes (concat rss))) @ message_bytes (concat rss) @ rest)"
  shows "writes (pb_encode_delimited n env sender fs src)
      (varint (length (message_bytes (concat rss))) @ message_bytes (concat rss))
    \<and> (\<exists>s2 st2. pb_decode_delimited n env fs dest s st = Some (Some (), (s2, st2)) \<and> is_view s2 = Some rest
         \<and> message_image n env (pb_mem st2) fs dest = message_image n env (pb_mem sender) fs src
         \<and> unchanged_outside (region dest sz) (pb_mem st) (pb_mem st2))"
proof
  let ?b = "message_bytes (concat rss)"
  show "writes (pb_encode_delimited n env sender fs src) (varint (length ?b) @ ?b)"
    unfolding pb_encode_delimited_def [abs_def]
    by (rule writes_submessage [of "pb_encode n env sender" fs src ?b, OF encoder.encode_image [OF assms(1-3,6)] assms(7)])
  from pb_make_string_substream_view [OF assms(8,7)] obtain sub s1 where sub:
    "pb_make_string_substream s = (Some sub, s1)" "is_view sub = Some ?b" "\<And>sub'. reads sub sub' \<Longrightarrow>
      \<exists>s2. pb_close_string_substream s1 sub' = (Some (), s2) \<and> is_view s2 = Some rest \<and> reads s s2" by blast
  from image.initialized_image [OF assms(1-6) sub(2), of st] obtain sub' st2 where
    dec: "pb_decode n env fs dest sub st = Some (Some (), (sub', st2))" "reads sub sub'"
      "message_image n env (pb_mem st2) fs dest = Some rss" "unchanged_outside (region dest sz) (pb_mem st) (pb_mem st2)"
    by (auto simp: delivers_def pb_decode_def)
  from sub(3) [OF dec(2)] dec sub(1) assms(6)
  show "\<exists>s2 st2. pb_decode_delimited n env fs dest s st = Some (Some (), (s2, st2)) \<and> is_view s2 = Some rest
      \<and> message_image n env (pb_mem st2) fs dest = message_image n env (pb_mem sender) fs src
      \<and> unchanged_outside (region dest sz) (pb_mem st) (pb_mem st2)"
    by (auto simp: pb_decode_delimited_def reading_def close_with_def)
qed

theorem pb_delimited_roundtrip_witness:
  "writes (pb_encode_delimited 2 example_env example_store tree_fields 0x1000) [7, 0x08, 0xAC, 0x02, 0x12, 0x02, 0x08, 0x05]
   \<and> (\<exists>s2 st2. pb_decode_delimited 2 example_env tree_fields 0x2000
         (pb_istream_from_buffer [7, 0x08, 0xAC, 0x02, 0x12, 0x02, 0x08, 0x05, 0xFF] 9) example_store = Some (Some (), (s2, st2))
       \<and> is_view s2 = Some [0xFF] \<and> message_image 2 example_env (pb_mem st2) tree_fields 0x2000 = Some example_rss)"
proof -
  let ?s = "pb_istream_from_buffer [7, 0x08, 0xAC, 0x02, 0x12, 0x02, 0x08, 0x05, 0xFF] 9 :: unit pb_istream"
  have d: "object_at 0x2000 28" by (simp add: object_at_def)
  have b: "message_bytes (concat example_rss) = [0x08, 0xAC, 0x02, 0x12, 0x02, 0x08, 0x05]"
    by (simp add: example_rss_def message_bytes_def field_bytes_def tag_key_def pb_wt_defs example_varints
        numeral_2_eq_2 [symmetric])
  have seven: "varint 7 = [7]" by (subst varint.simps) simp
  have l: "length ([0x08, 0xAC, 0x02, 0x12, 0x02, 0x08, 0x05] :: u8 list) = 7" by simp
  have v: "is_view ?s = Some (varint 7 @ [0x08, 0xAC, 0x02, 0x12, 0x02, 0x08, 0x05] @ [0xFF])"
    using is_view_from_buffer [of "[7, 0x08, 0xAC, 0x02, 0x12, 0x02, 0x08, 0x05, 0xFF]" "[]"] seven by simp
  have n: "(7 :: nat) < 2 ^ 32" by simp
  show ?thesis
    using pb_delimited_roundtrip [OF tree_static_2 tree_regular tree_at d tree_proper example_image, unfolded b l, OF n v,
        of example_store, unfolded seven append_Cons append_Nil]
    unfolding example_image by blast
qed

end
