(* ===== verification/Pb_Props.thy ===== *)
theory Pb_Props
  imports Pb_Wire
begin

text \<open>
  The properties of the nanopb wire layer: round trips of values and of whole fields,
  the buffer contract of the encoders, memory safety of the readers, skipping and
  substreams, and what the 32-bit varint reader refuses.
\<close>

subsection \<open>Round trips\<close>

lemma length_varints: "length (concat (map (\<lambda>v. varint (unat (v :: u64))) vs)) \<le> 10 * length vs"
proof (induction vs)
  case Nil
  then show ?case by simp
next
  case (Cons v vs)
  then show ?case using varint_length_u64 [of v] by simp
qed

lemma fits_varints:
  "10 * length vs + length rest < 2 ^ 64 \<Longrightarrow>
     fits_size_t (concat (map (\<lambda>v. pb_written (\<lambda>s. pb_encode_varint s v) 10) vs) @ rest)"
  using length_varints [of vs] by (simp add: fits_size_t_def pb_written_varint)

text \<open>
  any sequence of 64-bit values, each encoded by \<^verbatim>\<open>pb_encode_varint\<close> into a buffer of ten
  bytes, is read back in order by \<^verbatim>\<open>pb_decode_varint\<close>, whatever bytes follow, and exactly the
  following bytes are left.
\<close>
theorem varints_roundtrip:
  assumes "10 * length vs + length rest < 2 ^ 64"
  shows "decode_many (pb_parsed pb_decode_varint) (length vs)
           (concat (map (\<lambda>v. pb_written (\<lambda>s. pb_encode_varint s v) 10) vs) @ rest)
         = (Some vs, rest)"
  using fits_varints [OF assms] by (intro varint.decode_many_enc) simp

theorem varints_roundtrip_witness:
  "decode_many (pb_parsed pb_decode_varint) (length [300, 0, 18446744073709551615 :: u64])
     (concat (map (\<lambda>v. pb_written (\<lambda>s. pb_encode_varint s v) 10) [300, 0, 18446744073709551615]) @ [7])
   = (Some [300, 0, 18446744073709551615], [7])"
  by (rule varints_roundtrip) simp

text \<open>
  a zig-zag encoded 64-bit value, a fixed 32-bit value and a fixed 64-bit value written
  into a buffer of the right size are read back by the matching decoder, and exactly the
  following bytes are left.
\<close>
theorem scalar_roundtrips:
  assumes "length rest < 2 ^ 32"
  shows "pb_parsed pb_decode_svarint (pb_written (\<lambda>s. pb_encode_svarint s v) 10 @ rest) = (Some v, rest)
    \<and> pb_parsed pb_decode_fixed32 (pb_written (\<lambda>s. pb_encode_fixed32 s w) 4 @ rest) = (Some w, rest)
    \<and> pb_parsed pb_decode_fixed64 (pb_written (\<lambda>s. pb_encode_fixed64 s v) 8 @ rest) = (Some v, rest)"
proof -
  have "length (varint (unat (zigzag v))) \<le> 10" by (rule varint_length_u64)
  then have f: "fits_size_t (pb_written (\<lambda>s. pb_encode_svarint s v) 10 @ rest)"
    "fits_size_t (pb_written (\<lambda>s. pb_encode_fixed32 s w) 4 @ rest)"
    "fits_size_t (pb_written (\<lambda>s. pb_encode_fixed64 s v) 8 @ rest)"
    using assms
    by (simp_all add: fits_size_t_def pb_written_svarint pb_written_fixed32 pb_written_fixed64)
  show ?thesis
    by (intro conjI svarint.dec_enc fixed32.dec_enc fixed64.dec_enc f TrueI)
qed

theorem scalar_roundtrips_witness:
  "pb_parsed pb_decode_svarint (pb_written (\<lambda>s. pb_encode_svarint s (- 5)) 10 @ [1, 2])
     = (Some (- 5), [1, 2])"
  using scalar_roundtrips [of "[1, 2]" "- 5"] by simp

subsection \<open>Encoders and the caller's buffer\<close>

text \<open>
  writing a field (tag, then a value of any wire type) into a caller's buffer of which
  \<open>m\<close> bytes may be used succeeds exactly when the size computed on a sizing stream is at most
  \<open>m\<close>; then \<open>bytes_written\<close> is that size and only that prefix of the buffer changed.  When it
  fails, no byte outside the buffer was touched.
\<close>
theorem encode_field_buffer:
  assumes "wire_ok w" "unat m \<le> length buf" "length (wire_bytes w) < 2 ^ 63"
  shows "\<exists>n. write_field PB_OSTREAM_SIZING k w
              = (Some (), PB_OSTREAM_SIZING\<lparr>os_bytes_written := n\<rparr> :: unit pb_ostream)
    \<and> (if n \<le> m
        then \<exists>bs. length bs = unat n \<and>
               write_field (pb_ostream_from_buffer buf m :: unit pb_ostream) k w =
                 (Some (), (pb_ostream_from_buffer buf m)
                    \<lparr>os_sink := Out_buf (bs @ drop (unat n) buf) (unat n), os_bytes_written := n\<rparr>)
        else \<exists>s'. write_field (pb_ostream_from_buffer buf m :: unit pb_ostream) k w = (None, s')
               \<and> \<not> os_oob s')"
proof -
  let ?E = "\<lambda>s :: unit pb_ostream. write_field s k w" and ?bs = "field_bytes k w"
  let ?n = "of_nat (length ?bs) :: u64"
  have e: "emits ?E ?bs" by (rule emits_field [OF assms(1)])
  have "unat k < 2 ^ 32" using unat_less_2p [of k] by simp
  then have "unat k * 8 + unat (wire_type_of w) < 2 ^ 32 * 8 + 8"
    using wire_type_less [of w] by linarith
  then have "tag_key (wire_type_of w) k < 128 ^ 10" by (simp add: tag_key_def)
  then have "length (varint (tag_key (wire_type_of w) k)) \<le> 10"
    by (intro varint_length_le) simp_all
  then have lt: "length ?bs < 2 ^ 64" using assms(3) by (simp add: field_bytes_def)
  then have n: "unat ?n = length ?bs" by (rule unat_of_nat_u64)
  have sizing: "?E PB_OSTREAM_SIZING = (Some (), PB_OSTREAM_SIZING\<lparr>os_bytes_written := ?n\<rparr>)"
    by (rule emits_sizing [OF e lt])
  show ?thesis
  proof (cases "?n \<le> m")
    case True
    then have "length ?bs \<le> unat m" using n by (simp add: word_le_nat_alt)
    from emits_buffer [OF e assms(2) this] sizing True n show ?thesis
      by (intro exI [of _ ?n]) (auto intro!: exI [of _ ?bs])
  next
    case False
    then have "\<not> length ?bs \<le> unat m" using n by (simp add: word_le_nat_alt)
    then have "\<not> os_fits (pb_ostream_from_buffer buf m :: unit pb_ostream) (length ?bs)" by simp
    from emits_full [OF e os_ok_from_buffer [OF assms(2)] this]
    obtain s' where "?E (pb_ostream_from_buffer buf m) = (None, s')" "os_ok s'"
      by (auto simp: pb_ostream_from_buffer_def)
    with sizing False show ?thesis
      by (intro exI [of _ ?n]) (auto simp: os_ok_def)
  qed
qed

theorem encode_field_buffer_witness:
  "\<exists>n. write_field PB_OSTREAM_SIZING 2 (W_string [104, 105])
          = (Some (), PB_OSTREAM_SIZING\<lparr>os_bytes_written := n\<rparr> :: unit pb_ostream)"
  using encode_field_buffer [of "W_string [104, 105]" 8 "replicate 8 0" 2]
  by (auto simp: varint_small)

subsection \<open>Readers\<close>

text \<open>
  C8: on a buffer stream whose \<open>bytes_left\<close> lies inside the caller's buffer, every reader of
  the wire layer, whether it succeeds or fails and whatever the bytes are, leaves the stream
  on a suffix of the same bytes: it never reads outside the buffer.
\<close>
theorem readers_memory_safe:
  assumes "is_view s = Some bs"
    and "t \<in> {snd (pb_read s n), snd (pb_readbyte s), snd (pb_read_null s n), snd (pb_decode_varint32 s),
               snd (pb_decode_varint s), snd (pb_decode_svarint s), snd (pb_decode_fixed32 s),
               snd (pb_decode_fixed64 s), snd (pb_skip_varint s), snd (pb_skip_string s),
               snd (pb_skip_field s wt), snd (snd (pb_decode_tag s)), snd (read_raw_value s wt max_size)}"
  shows "\<exists>k \<le> length bs. is_view t = Some (drop k bs)"
proof -
  have tag: "reads s (snd (snd (pb_decode_tag s)))"
    using reader_varint32_eof [of s]
    by (auto simp: pb_decode_tag_def split: prod.splits option.splits)
  have "reads s t"
    using assms(2) tag
    by (auto simp: pb_decode_varint_def pb_decode_svarint_def pb_decode_fixed32_def
        pb_decode_fixed64_def pb_skip_string_def read_raw_value_def
        intro!: reads_attempt reader_facts)
  with reads_no_oob [OF assms(1)] show ?thesis by blast
qed

theorem readers_memory_safe_witness:
  "\<exists>k \<le> length [8, 0x96 :: u8].
     is_view (snd (pb_decode_varint (pb_istream_from_buffer [8, 0x96] 2 :: unit pb_istream)))
       = Some (drop k [8, 0x96])"
  by (rule readers_memory_safe) (auto simp: pb_istream_from_buffer_def is_view_def)

text \<open>
  C9: whatever field a writer produced (a tag with a field number below \<open>2 ^ 29\<close>, then a
  value of any of the four wire types), a reader that does not know the field reads its
  number and skips it: exactly the bytes after the field are left.
\<close>
theorem skip_unknown_field:
  assumes "wire_ok w" "0 < n" "n < 2 ^ 29" "length (field_bytes n w) \<le> cap"
    and "cap + length rest < 2 ^ 64"
  shows "pb_parsed skip_tagged (pb_written (\<lambda>s. write_field s n w) cap @ rest) = (Some n, rest)"
proof -
  have "pb_written (\<lambda>s. write_field s n w) cap = field_bytes n w"
    using assms(1,4,5) by (intro pb_written_emits emits_field) simp_all
  moreover have "pb_parsed skip_tagged (field_bytes n w @ rest) = (Some n, rest)"
    using assms by (intro pb_parsed_view skip_tagged_view) simp_all
  ultimately show ?thesis by simp
qed

theorem skip_unknown_field_witness:
  "pb_parsed skip_tagged (pb_written (\<lambda>s. write_field s 3 (W_string [1, 2, 3])) 8 @ [9])
     = (Some 3, [9])"
  by (rule skip_unknown_field) (simp_all add: field_bytes_def tag_key_def pb_wt_defs varint_small)

text \<open>
  C10: a length-delimited payload written by \<^verbatim>\<open>pb_encode_string\<close> is opened by
  \<^verbatim>\<open>pb_make_string_substream\<close> as a substream holding exactly the payload; whatever part of it
  the caller then reads, \<^verbatim>\<open>pb_close_string_substream\<close> succeeds and leaves the parent stream
  right after the payload.
\<close>
theorem substream_brackets_payload:
  assumes "length d < 2 ^ 32" "length rest < 2 ^ 32"
    and "bs = pb_written (\<lambda>s. pb_encode_string s d (of_nat (length d))) (length d + 5) @ rest"
  shows "\<exists>sub s1. pb_make_string_substream (pb_istream_from_buffer bs (of_nat (length bs)) :: unit pb_istream)
       = (Some sub, s1) \<and> is_view sub = Some d \<and>
     (\<forall>sub'. reads sub sub' \<longrightarrow>
        (\<exists>s2. pb_close_string_substream s1 sub' = (Some (), s2) \<and> is_view s2 = Some rest))"
proof -
  have l: "length (varint (length d)) \<le> 5" using assms(1) by (rule varint_length_u32)
  have "pb_written (\<lambda>s. pb_encode_string s d (of_nat (length d))) (length d + 5)
      = varint (length d) @ d"
    using assms(1) l by (intro pb_written_emits emits_string) (simp_all add: unat_of_nat_u64)
  then have bs: "bs = varint (length d) @ d @ rest" using assms(3) by simp
  then have "length bs < 2 ^ 64" using assms(1,2) l by simp
  then have "is_view (pb_istream_from_buffer bs (of_nat (length bs)) :: unit pb_istream)
      = Some (varint (length d) @ d @ rest)"
    using is_view_from_buffer [of bs "[]"] bs by simp
  from pb_make_string_substream_view [OF this assms(1)] show ?thesis by blast
qed

theorem substream_brackets_payload_witness:
  "\<exists>sub s1. pb_make_string_substream
       (pb_istream_from_buffer
          (pb_written (\<lambda>s. pb_encode_string s [7, 8] (of_nat (length [7, 8 :: u8]))) (length [7, 8 :: u8] + 5) @ [9])
          (of_nat (length (pb_written (\<lambda>s. pb_encode_string s [7, 8] (of_nat (length [7, 8 :: u8])))
             (length [7, 8 :: u8] + 5) @ [9]))) :: unit pb_istream)
       = (Some sub, s1) \<and> is_view sub = Some [7, 8] \<and>
     (\<forall>sub'. reads sub sub' \<longrightarrow>
        (\<exists>s2. pb_close_string_substream s1 sub' = (Some (), s2) \<and> is_view s2 = Some [9]))"
  by (rule substream_brackets_payload) (rule refl | simp)+

text \<open>
  C11: on the varint encoding of any number below \<open>2 ^ 63\<close> the 32-bit reader, which reads
  tags and lengths, returns the number when it is below \<open>2 ^ 32\<close> and fails otherwise: a
  length or a tag is never silently truncated.
\<close>
theorem varint32_exact:
  assumes "v < 2 ^ 63" "length rest < 2 ^ 32"
  shows "fst (pb_parsed pb_decode_varint32 (pb_written (\<lambda>s. pb_encode_varint s v) 10 @ rest))
    = (if v < 2 ^ 32 then Some (ucast v) else None)"
proof -
  let ?bs = "varint (unat v) @ rest"
  let ?s = "pb_istream_from_buffer ?bs (of_nat (length ?bs)) :: unit pb_istream"
  have "length ?bs < 2 ^ 64" using varint_length_u64 [of v] assms(2) by simp
  then have view: "is_view ?s = Some ?bs" using is_view_from_buffer [of ?bs "[]"] by simp
  have p: "fst (pb_parsed pb_decode_varint32 ?bs) = fst (pb_decode_varint32 ?s)"
    by (simp add: pb_parsed_def split: prod.split)
  show ?thesis
  proof (cases "v < 2 ^ 32")
    case True
    then have "unat v < 2 ^ 32" by (simp add: word_less_nat_alt)
    then have u: "unat (ucast v :: u32) = unat v" by (simp add: unat_ucast_mod)
    with pb_decode_varint32_view [of ?s "ucast v" rest] view True show ?thesis
      unfolding pb_written_varint p by simp
  next
    case False
    then have "2 ^ 32 \<le> unat v" "unat v < 2 ^ 63"
      using assms(1) by (simp_all add: word_less_nat_alt not_less)
    from pb_decode_varint32_refused [OF view this] False show ?thesis
      unfolding pb_written_varint p by simp
  qed
qed

theorem varint32_exact_witness:
  "fst (pb_parsed pb_decode_varint32 (pb_written (\<lambda>s. pb_encode_varint s 4294967296) 10 @ [])) = None"
  using varint32_exact [of 4294967296 "[]"] by simp

subsection \<open>Overlong encodings\<close>

text \<open>
  \<^verbatim>\<open>pb_decode_varint32_eof\<close> has no bound on the number of bytes: its \<open>bitpos\<close> is eight bits
  wide and wraps around, so padding after the 37th byte is ORed into the low bits again.
  \<^verbatim>\<open>pb_decode_varint\<close> refuses the same bytes.
\<close>
lemma varint32_overlong:
  "pb_parsed pb_decode_varint32 ([0x81] @ replicate 36 0x80 @ [0x01]) = (Some 9, [])
   \<and> fst (pb_parsed pb_decode_varint ([0x81] @ replicate 36 0x80 @ [0x01])) = None"
  by code_simp

end
