(* ===== verification/Cbs.thy ===== *)
theory Cbs
  imports Codec
begin

text \<open>
  The byte-string reader of BoringSSL (crypto/bytestring/cbs.c): \<open>CBS\<close>, a view of
  unread bytes, and the DER reader on top of it.

  A \<open>CBS\<close> is the list of the bytes it still covers: \<open>data\<close> is a pointer into memory the
  reader never writes, \<open>len\<close> is the length of the list.  A function that advances its
  \<open>CBS\<close> argument returns the advanced list also when it fails, as the code leaves it; an
  output parameter is a component of the value returned on success.
\<close>

type_synonym cbs = "u8 list"

subsection \<open>Bytes and integers\<close>

definition CBS_len :: "cbs \<Rightarrow> u64" where
  "CBS_len cbs = of_nat (length cbs)"

definition cbs_get :: "cbs \<Rightarrow> u64 \<Rightarrow> (u8 list, cbs) outcome" where
  "cbs_get cbs n =
     (if length cbs < unat n then (None, cbs)
      else (Some (take (unat n) cbs), drop (unat n) cbs))"

definition CBS_skip :: "cbs \<Rightarrow> u64 \<Rightarrow> (unit, cbs) outcome" where
  "CBS_skip cbs len = attempt (cbs_get cbs len) (\<lambda>_ cbs. (Some (), cbs))"

text \<open>
  \<open>CBS_stow\<close> takes the success of the allocator as an argument; the inner option is the
  pointer, NULL for an empty view.
\<close>

definition CBS_stow :: "bool \<Rightarrow> cbs \<Rightarrow> u8 list option option" where
  "CBS_stow malloc_ok cbs =
     (if CBS_len cbs = 0 then Some None
      else if malloc_ok then Some (Some cbs) else None)"

definition CBS_contains_zero_byte :: "cbs \<Rightarrow> bool" where
  "CBS_contains_zero_byte cbs \<longleftrightarrow> 0 \<in> set cbs"

definition CBS_mem_equal :: "cbs \<Rightarrow> u8 list \<Rightarrow> bool" where
  "CBS_mem_equal cbs data = (if length data \<noteq> length cbs then False else cbs = data)"

definition cbs_get_u :: "cbs \<Rightarrow> u64 \<Rightarrow> (u64, cbs) outcome" where
  "cbs_get_u cbs len =
     attempt (cbs_get cbs len)
       (\<lambda>data cbs. (Some (fold (\<lambda>b result. push_bit 8 result OR ucast b) data 0), cbs))"

definition CBS_get_u8 :: "cbs \<Rightarrow> (u8, cbs) outcome" where
  "CBS_get_u8 cbs = attempt (cbs_get cbs 1) (\<lambda>v cbs. (Some (hd v), cbs))"

definition CRYPTO_bswap2 :: "u16 \<Rightarrow> u16" where
  "CRYPTO_bswap2 x = of_nat (be_val (le_bytes 2 (unat x)))"

definition CRYPTO_bswap4 :: "u32 \<Rightarrow> u32" where
  "CRYPTO_bswap4 x = of_nat (be_val (le_bytes 4 (unat x)))"

definition CRYPTO_bswap8 :: "u64 \<Rightarrow> u64" where
  "CRYPTO_bswap8 x = of_nat (be_val (le_bytes 8 (unat x)))"

definition CBS_get_u16 :: "cbs \<Rightarrow> (u16, cbs) outcome" where
  "CBS_get_u16 cbs = attempt (cbs_get_u cbs 2) (\<lambda>v cbs. (Some (ucast v), cbs))"

definition CBS_get_u16le :: "cbs \<Rightarrow> (u16, cbs) outcome" where
  "CBS_get_u16le cbs = attempt (CBS_get_u16 cbs) (\<lambda>v cbs. (Some (CRYPTO_bswap2 v), cbs))"

definition CBS_get_u24 :: "cbs \<Rightarrow> (u32, cbs) outcome" where
  "CBS_get_u24 cbs = attempt (cbs_get_u cbs 3) (\<lambda>v cbs. (Some (ucast v), cbs))"

definition CBS_get_u32 :: "cbs \<Rightarrow> (u32, cbs) outcome" where
  "CBS_get_u32 cbs = attempt (cbs_get_u cbs 4) (\<lambda>v cbs. (Some (ucast v), cbs))"

definition CBS_get_u32le :: "cbs \<Rightarrow> (u32, cbs) outcome" where
  "CBS_get_u32le cbs = attempt (CBS_get_u32 cbs) (\<lambda>v cbs. (Some (CRYPTO_bswap4 v), cbs))"

definition CBS_get_u64 :: "cbs \<Rightarrow> (u64, cbs) outcome" where
  "CBS_get_u64 cbs = cbs_get_u cbs 8"

definition CBS_get_u64le :: "cbs \<Rightarrow> (u64, cbs) outcome" where
  "CBS_get_u64le cbs = attempt (cbs_get_u cbs 8) (\<lambda>v cbs. (Some (CRYPTO_bswap8 v), cbs))"

definition CBS_get_last_u8 :: "cbs \<Rightarrow> (u8, cbs) outcome" where
  "CBS_get_last_u8 cbs = (if CBS_len cbs = 0 then (None, cbs) else (Some (last cbs), butlast cbs))"

definition CBS_get_bytes :: "cbs \<Rightarrow> u64 \<Rightarrow> (cbs, cbs) outcome" where
  "CBS_get_bytes cbs len = cbs_get cbs len"

definition CBS_copy_bytes :: "cbs \<Rightarrow> u64 \<Rightarrow> (u8 list, cbs) outcome" where
  "CBS_copy_bytes cbs len = cbs_get cbs len"

definition cbs_get_length_prefixed :: "cbs \<Rightarrow> u64 \<Rightarrow> (cbs, cbs) outcome" where
  "cbs_get_length_prefixed cbs len_len =
     attempt (cbs_get_u cbs len_len) (\<lambda>len cbs. CBS_get_bytes cbs len)"

definition CBS_get_u8_length_prefixed :: "cbs \<Rightarrow> (cbs, cbs) outcome" where
  "CBS_get_u8_length_prefixed cbs = cbs_get_length_prefixed cbs 1"

definition CBS_get_u16_length_prefixed :: "cbs \<Rightarrow> (cbs, cbs) outcome" where
  "CBS_get_u16_length_prefixed cbs = cbs_get_length_prefixed cbs 2"

definition CBS_get_u24_length_prefixed :: "cbs \<Rightarrow> (cbs, cbs) outcome" where
  "CBS_get_u24_length_prefixed cbs = cbs_get_length_prefixed cbs 3"

definition CBS_get_until_first :: "cbs \<Rightarrow> u8 \<Rightarrow> (cbs, cbs) outcome" where
  "CBS_get_until_first cbs c =
     (if c \<notin> set cbs then (None, cbs)
      else CBS_get_bytes cbs (of_nat (length (takeWhile (\<lambda>b. b \<noteq> c) cbs))))"

definition OPENSSL_isdigit :: "u8 \<Rightarrow> bool" where
  "OPENSSL_isdigit c \<longleftrightarrow> 0x30 \<le> c \<and> c \<le> 0x39"

fun decimal_loop :: "u64 \<Rightarrow> bool \<Rightarrow> cbs \<Rightarrow> (u64 \<times> bool, cbs) outcome" where
  "decimal_loop v seen_digit [] = (Some (v, seen_digit), [])"
| "decimal_loop v seen_digit (c # cbs) =
     (if \<not> OPENSSL_isdigit c then (Some (v, seen_digit), c # cbs)
      else if v = 0 \<and> seen_digit
              \<or> 0xFFFFFFFFFFFFFFFF div 10 < v
              \<or> 0xFFFFFFFFFFFFFFFF - ucast (c - 0x30) < v * 10
      then (None, cbs)
      else decimal_loop (v * 10 + ucast (c - 0x30)) True cbs)"

definition CBS_get_u64_decimal :: "cbs \<Rightarrow> (u64, cbs) outcome" where
  "CBS_get_u64_decimal cbs =
     attempt (decimal_loop 0 False cbs)
       (\<lambda>(v, seen_digit) cbs. (if seen_digit then Some v else None, cbs))"

lemma CBS_get_u8_simps [simp]:
  "CBS_get_u8 [] = (None, [])" "CBS_get_u8 (b # bs) = (Some b, bs)"
  by (simp_all add: CBS_get_u8_def cbs_get_def)

lemma CBS_get_u8_eq_Some: "CBS_get_u8 bs = (Some b, bs') \<longleftrightarrow> bs = b # bs'"
  by (cases bs) auto

subsection \<open>DER tags and elements\<close>

definition CBS_ASN1_TAG_SHIFT :: nat where "CBS_ASN1_TAG_SHIFT = 24"
definition CBS_ASN1_CONSTRUCTED :: u32 where "CBS_ASN1_CONSTRUCTED = push_bit 24 0x20"
definition CBS_ASN1_TAG_NUMBER_MASK :: u32 where "CBS_ASN1_TAG_NUMBER_MASK = push_bit 29 1 - 1"
definition CBS_ASN1_BOOLEAN :: u32 where "CBS_ASN1_BOOLEAN = 1"
definition CBS_ASN1_INTEGER :: u32 where "CBS_ASN1_INTEGER = 2"
definition CBS_ASN1_OCTETSTRING :: u32 where "CBS_ASN1_OCTETSTRING = 4"

text \<open>
  The do-while loop of \<^verbatim>\<open>parse_base128_integer\<close>, from the value \<open>v\<close> read so far.
\<close>

function base128_loop :: "u64 \<Rightarrow> cbs \<Rightarrow> (u64, cbs) outcome" where
  "base128_loop v cbs =
     attempt (CBS_get_u8 cbs) (\<lambda>b cbs.
       if drop_bit (64 - 7) v \<noteq> 0 then (None, cbs)
       else if v = 0 \<and> b = 0x80 then (None, cbs)
       else let v = push_bit 7 v OR ucast (b AND 0x7F)
            in if b AND 0x80 \<noteq> 0 then base128_loop v cbs else (Some v, cbs))"
  by pat_completeness auto
termination
  by (relation "measure (\<lambda>(_, cbs). length cbs)") (auto simp: CBS_get_u8_eq_Some)

declare base128_loop.simps [simp del]

definition parse_base128_integer :: "cbs \<Rightarrow> (u64, cbs) outcome" where
  "parse_base128_integer cbs = base128_loop 0 cbs"

definition parse_asn1_tag :: "cbs \<Rightarrow> (u32, cbs) outcome" where
  "parse_asn1_tag cbs =
     attempt (CBS_get_u8 cbs) (\<lambda>tag_byte cbs.
       let tag = push_bit CBS_ASN1_TAG_SHIFT (ucast tag_byte AND 0xE0 :: u32);
           tag_number = ucast (tag_byte AND 0x1F) :: u32
       in attempt
            (if tag_number = 0x1F
             then attempt (parse_base128_integer cbs) (\<lambda>v cbs.
                    if ucast CBS_ASN1_TAG_NUMBER_MASK < v \<or> v < 0x1F then (None, cbs)
                    else (Some (ucast v), cbs))
             else (Some tag_number, cbs))
            (\<lambda>tag_number cbs.
               let tag = tag OR tag_number
               in if tag AND NOT CBS_ASN1_CONSTRUCTED = 0 then (None, cbs) else (Some tag, cbs)))"

text \<open>
  The value of \<^verbatim>\<open>cbs_get_any_asn1_element\<close>: the element, its tag, \<open>*out_header_len\<close>,
  \<open>*out_ber_found\<close> and \<open>*out_indefinite\<close>.  \<open>header\<close> is a copy: \<open>cbs\<close> only advances when the
  whole element is read.
\<close>

type_synonym asn1_element = "cbs \<times> u32 \<times> u64 \<times> bool \<times> bool"

definition cbs_get_any_asn1_element :: "bool \<Rightarrow> cbs \<Rightarrow> (asn1_element, cbs) outcome" where
  "cbs_get_any_asn1_element ber_ok cbs =
     (case parse_asn1_tag cbs of
        (None, _) \<Rightarrow> (None, cbs)
      | (Some tag, header) \<Rightarrow>
     (case CBS_get_u8 header of
        (None, _) \<Rightarrow> (None, cbs)
      | (Some length_byte, header) \<Rightarrow>
        let header_len = CBS_len cbs - CBS_len header
        in if length_byte AND 0x80 = 0
           then attempt (CBS_get_bytes cbs (ucast length_byte + header_len))
                  (\<lambda>out cbs. (Some (out, tag, header_len, False, False), cbs))
           else let num_bytes = ucast (length_byte AND 0x7F) :: u64
                in if ber_ok \<and> tag AND CBS_ASN1_CONSTRUCTED \<noteq> 0 \<and> num_bytes = 0
                   then attempt (CBS_get_bytes cbs header_len)
                          (\<lambda>out cbs. (Some (out, tag, header_len, True, True), cbs))
                   else if num_bytes = 0 \<or> 4 < num_bytes then (None, cbs)
                   else (case cbs_get_u header num_bytes of
                           (None, _) \<Rightarrow> (None, cbs)
                         | (Some len64, header) \<Rightarrow>
                             let ber_found = len64 < 128 \<or> drop_bit ((unat num_bytes - 1) * 8) len64 = 0
                             in if \<not> ber_ok \<and> ber_found then (None, cbs)
                                else if len64 + header_len + num_bytes < len64 then (None, cbs)
                                else attempt (CBS_get_bytes cbs (len64 + (header_len + num_bytes)))
                                       (\<lambda>out cbs. (Some (out, tag, header_len + num_bytes, ber_found, False), cbs)))))"

definition CBS_get_any_asn1_element :: "cbs \<Rightarrow> (cbs \<times> u32 \<times> u64, cbs) outcome" where
  "CBS_get_any_asn1_element cbs =
     attempt (cbs_get_any_asn1_element False cbs)
       (\<lambda>(out, tag, header_len, _, _) cbs. (Some (out, tag, header_len), cbs))"

definition CBS_get_any_ber_asn1_element :: "cbs \<Rightarrow> (asn1_element, cbs) outcome" where
  "CBS_get_any_ber_asn1_element cbs = cbs_get_any_asn1_element True cbs"

definition CBS_get_any_asn1 :: "cbs \<Rightarrow> (cbs \<times> u32, cbs) outcome" where
  "CBS_get_any_asn1 cbs =
     attempt (CBS_get_any_asn1_element cbs) (\<lambda>(out, tag, header_len) cbs.
       case CBS_skip out header_len of
         (None, _) \<Rightarrow> (None, cbs)
       | (Some _, out) \<Rightarrow> (Some (out, tag), cbs))"

definition cbs_get_asn1 :: "cbs \<Rightarrow> u32 \<Rightarrow> bool \<Rightarrow> (cbs, cbs) outcome" where
  "cbs_get_asn1 cbs tag_value skip_header =
     attempt (CBS_get_any_asn1_element cbs) (\<lambda>(out, tag, header_len) cbs.
       if tag \<noteq> tag_value then (None, cbs)
       else if skip_header
       then (case CBS_skip out header_len of
               (None, _) \<Rightarrow> (None, cbs)
             | (Some _, out) \<Rightarrow> (Some out, cbs))
       else (Some out, cbs))"

definition CBS_get_asn1 :: "cbs \<Rightarrow> u32 \<Rightarrow> (cbs, cbs) outcome" where
  "CBS_get_asn1 cbs tag_value = cbs_get_asn1 cbs tag_value True"

definition CBS_get_asn1_element :: "cbs \<Rightarrow> u32 \<Rightarrow> (cbs, cbs) outcome" where
  "CBS_get_asn1_element cbs tag_value = cbs_get_asn1 cbs tag_value False"

definition CBS_peek_asn1_tag :: "cbs \<Rightarrow> u32 \<Rightarrow> bool" where
  "CBS_peek_asn1_tag cbs tag_value \<longleftrightarrow> fst (parse_asn1_tag cbs) = Some tag_value"

subsection \<open>DER values\<close>

text \<open>The result is \<open>None\<close> for an invalid INTEGER, else \<open>*out_is_negative\<close>.\<close>

definition CBS_is_valid_asn1_integer :: "cbs \<Rightarrow> bool option" where
  "CBS_is_valid_asn1_integer cbs =
     (case CBS_get_u8 cbs of
        (None, _) \<Rightarrow> None
      | (Some first_byte, copy) \<Rightarrow>
          let is_negative = first_byte AND 0x80 \<noteq> 0
          in case CBS_get_u8 copy of
               (None, _) \<Rightarrow> Some is_negative
             | (Some second_byte, _) \<Rightarrow>
                 if first_byte = 0x00 \<and> second_byte AND 0x80 = 0
                    \<or> first_byte = 0xFF \<and> second_byte AND 0x80 \<noteq> 0
                 then None else Some is_negative)"

definition CBS_is_unsigned_asn1_integer :: "cbs \<Rightarrow> bool" where
  "CBS_is_unsigned_asn1_integer cbs \<longleftrightarrow> CBS_is_valid_asn1_integer cbs = Some False"

fun asn1_uint64_loop :: "u64 \<Rightarrow> u8 list \<Rightarrow> u64 option" where
  "asn1_uint64_loop out [] = Some out"
| "asn1_uint64_loop out (d # data) =
     (if drop_bit 56 out \<noteq> 0 then None
      else asn1_uint64_loop (push_bit 8 out OR ucast d) data)"

definition CBS_get_asn1_uint64 :: "cbs \<Rightarrow> (u64, cbs) outcome" where
  "CBS_get_asn1_uint64 cbs =
     attempt (CBS_get_asn1 cbs CBS_ASN1_INTEGER) (\<lambda>bytes cbs.
       if \<not> CBS_is_unsigned_asn1_integer bytes then (None, cbs)
       else (asn1_uint64_loop 0 bytes, cbs))"

text \<open>The \<open>int64_t\<close> result is the word with the same representation.\<close>

definition CBS_get_asn1_int64 :: "cbs \<Rightarrow> (u64, cbs) outcome" where
  "CBS_get_asn1_int64 cbs =
     attempt (CBS_get_asn1 cbs CBS_ASN1_INTEGER) (\<lambda>bytes cbs.
       case CBS_is_valid_asn1_integer bytes of
         None \<Rightarrow> (None, cbs)
       | Some is_negative \<Rightarrow>
           if 8 < length bytes then (None, cbs)
           else let sign_extend = rev bytes @ replicate (8 - length bytes) (if is_negative then 0xFF else 0)
                in (Some (of_nat (le_val sign_extend)), cbs))"

definition CBS_get_asn1_bool :: "cbs \<Rightarrow> (bool, cbs) outcome" where
  "CBS_get_asn1_bool cbs =
     attempt (CBS_get_asn1 cbs CBS_ASN1_BOOLEAN) (\<lambda>bytes cbs.
       if CBS_len bytes \<noteq> 1 then (None, cbs)
       else let v = hd bytes
            in if v \<noteq> 0 \<and> v \<noteq> 0xFF then (None, cbs) else (Some (v \<noteq> 0), cbs))"

text \<open>The value is \<open>Some child\<close> when the optional element is present.\<close>

definition CBS_get_optional_asn1 :: "cbs \<Rightarrow> u32 \<Rightarrow> (cbs option, cbs) outcome" where
  "CBS_get_optional_asn1 cbs tag =
     (if CBS_peek_asn1_tag cbs tag
      then attempt (CBS_get_asn1 cbs tag) (\<lambda>out cbs. (Some (Some out), cbs))
      else (Some None, cbs))"

definition CBS_get_optional_asn1_octet_string :: "cbs \<Rightarrow> u32 \<Rightarrow> (cbs \<times> bool, cbs) outcome" where
  "CBS_get_optional_asn1_octet_string cbs tag =
     attempt (CBS_get_optional_asn1 cbs tag) (\<lambda>present cbs.
       case present of
         None \<Rightarrow> (Some ([], False), cbs)
       | Some child \<Rightarrow>
           (case CBS_get_asn1 child CBS_ASN1_OCTETSTRING of
              (None, _) \<Rightarrow> (None, cbs)
            | (Some out, child) \<Rightarrow>
                if CBS_len child \<noteq> 0 then (None, cbs) else (Some (out, True), cbs)))"

definition CBS_get_optional_asn1_uint64 :: "cbs \<Rightarrow> u32 \<Rightarrow> u64 \<Rightarrow> (u64, cbs) outcome" where
  "CBS_get_optional_asn1_uint64 cbs tag default_value =
     attempt (CBS_get_optional_asn1 cbs tag) (\<lambda>present cbs.
       case present of
         None \<Rightarrow> (Some default_value, cbs)
       | Some child \<Rightarrow>
           (case CBS_get_asn1_uint64 child of
              (None, _) \<Rightarrow> (None, cbs)
            | (Some out, child) \<Rightarrow>
                if CBS_len child \<noteq> 0 then (None, cbs) else (Some out, cbs)))"

definition CBS_get_optional_asn1_bool :: "cbs \<Rightarrow> u32 \<Rightarrow> int \<Rightarrow> (int, cbs) outcome" where
  "CBS_get_optional_asn1_bool cbs tag default_value =
     attempt (CBS_get_optional_asn1 cbs tag) (\<lambda>present cbs.
       case present of
         None \<Rightarrow> (Some default_value, cbs)
       | Some child \<Rightarrow>
           (case CBS_get_asn1 child CBS_ASN1_BOOLEAN of
              (None, _) \<Rightarrow> (None, cbs)
            | (Some child2, child) \<Rightarrow>
                if CBS_len child2 \<noteq> 1 \<or> CBS_len child \<noteq> 0 then (None, cbs)
                else let boolean = hd child2
                     in if boolean = 0 then (Some 0, cbs)
                        else if boolean = 0xFF then (Some 1, cbs)
                        else (None, cbs)))"

definition CBS_is_valid_asn1_bitstring :: "cbs \<Rightarrow> bool" where
  "CBS_is_valid_asn1_bitstring cbs =
     (case CBS_get_u8 cbs of
        (None, _) \<Rightarrow> False
      | (Some num_unused_bits, cbs') \<Rightarrow>
          if 7 < num_unused_bits then False
          else if num_unused_bits = 0 then True
          else (case CBS_get_last_u8 cbs' of
                  (None, _) \<Rightarrow> False
                | (Some last_byte, _) \<Rightarrow>
                    last_byte AND (push_bit (unat num_unused_bits) 1 - 1) = 0))"

definition CBS_asn1_bitstring_has_bit :: "cbs \<Rightarrow> u32 \<Rightarrow> bool" where
  "CBS_asn1_bitstring_has_bit cbs bit_index =
     (if \<not> CBS_is_valid_asn1_bitstring cbs then False
      else let byte_num = drop_bit 3 bit_index + 1;
               bit_num = 7 - (bit_index AND 7)
           in ucast byte_num < CBS_len cbs
              \<and> cbs ! unat byte_num AND push_bit (unat bit_num) 1 \<noteq> 0)"

fun valid_oid_loop :: "u8 \<Rightarrow> cbs \<Rightarrow> bool" where
  "valid_oid_loop prev [] \<longleftrightarrow> prev AND 0x80 = 0"
| "valid_oid_loop prev (v # cbs) \<longleftrightarrow>
     (if prev AND 0x80 = 0 \<and> v = 0x80 then False else valid_oid_loop v cbs)"

definition CBS_is_valid_asn1_oid :: "cbs \<Rightarrow> bool" where
  "CBS_is_valid_asn1_oid cbs = (if CBS_len cbs = 0 then False else valid_oid_loop 0 cbs)"

end
