(* ===== verification/Cbb.thy ===== *)
theory Cbb
  imports Cbs
begin

text \<open>
  The byte-string builder of BoringSSL (crypto/bytestring/cbb.c).

  A top-level \<open>CBB\<close> owns a buffer; while a length-prefixed child is open its parent points
  to it, so the \<open>CBB\<close>s that write to one buffer form a chain.  The model keeps the base and
  the chain together in \<open>cbb\<close>: \<open>cb_children\<close> lists the open children from the outermost to
  the innermost, and an operation is given the depth \<open>d\<close> of the \<open>CBB\<close> it is called on: 0 for
  the top-level one, \<open>d + 1\<close> for the child of the one at depth \<open>d\<close>.  \<open>cbb->child\<close> at depth
  \<open>d\<close> is \<open>cb_children ! d\<close>, and is NULL when the chain has length \<open>d\<close>.

  \<open>OPENSSL_realloc\<close> is outside this program: \<open>cb_alloc n\<close> is what the \<open>n\<close>-th call gives,
  \<open>None\<close> for a failure, else the uninitialised bytes that the enlarged buffer shows beyond the
  old ones.  \<open>cb_buf\<close> has \<open>cb_cap\<close> elements.
\<close>

record cbb_child =
  cc_offset :: u64
  cc_pending_len_len :: u8
  cc_pending_is_asn1 :: bool

record cbb =
  cb_buf :: "u8 list"
  cb_len :: u64
  cb_cap :: u64
  cb_can_resize :: bool
  cb_error :: bool
  cb_children :: "cbb_child list"
  cb_alloc :: "nat \<Rightarrow> (nat \<Rightarrow> u8) option"
  cb_calls :: nat

type_synonym 'a builder = "cbb \<Rightarrow> ('a, cbb) outcome"

subsection \<open>The buffer\<close>

text \<open>\<open>heap\<close> gives the results of all allocations, the first being the one of \<open>CBB_init\<close>.\<close>

definition CBB_init :: "(nat \<Rightarrow> (nat \<Rightarrow> u8) option) \<Rightarrow> u64 \<Rightarrow> cbb option" where
  "CBB_init heap initial_capacity =
     (case heap 0 of
        None \<Rightarrow>
          (if 0 < initial_capacity then None
           else Some \<lparr>cb_buf = [], cb_len = 0, cb_cap = 0, cb_can_resize = True, cb_error = False,
                      cb_children = [], cb_alloc = heap, cb_calls = 1\<rparr>)
      | Some junk \<Rightarrow>
          Some \<lparr>cb_buf = map junk [0..<unat initial_capacity], cb_len = 0, cb_cap = initial_capacity,
                cb_can_resize = True, cb_error = False, cb_children = [], cb_alloc = heap, cb_calls = 1\<rparr>)"

definition CBB_init_fixed :: "u8 list \<Rightarrow> u64 \<Rightarrow> cbb" where
  "CBB_init_fixed buf len =
     \<lparr>cb_buf = take (unat len) buf, cb_len = 0, cb_cap = len, cb_can_resize = False, cb_error = False,
      cb_children = [], cb_alloc = (\<lambda>_. None), cb_calls = 0\<rparr>"

text \<open>The value is the offset of the returned pointer \<open>*out\<close> in the buffer.\<close>

definition cbb_buffer_reserve :: "u64 \<Rightarrow> u64 builder" where
  "cbb_buffer_reserve len base =
     (let newlen = cb_len base + len
      in if newlen < cb_len base then (None, base\<lparr>cb_error := True\<rparr>)
         else if cb_cap base < newlen
         then if \<not> cb_can_resize base then (None, base\<lparr>cb_error := True\<rparr>)
              else let newcap = cb_cap base * 2;
                       newcap = (if newcap < cb_cap base \<or> newcap < newlen then newlen else newcap);
                       answer = cb_alloc base (cb_calls base);
                       base = base\<lparr>cb_calls := cb_calls base + 1\<rparr>
                   in case answer of
                        None \<Rightarrow> (None, base\<lparr>cb_error := True\<rparr>)
                      | Some junk \<Rightarrow>
                          (Some (cb_len base),
                           base\<lparr>cb_buf := cb_buf base @ map junk [unat (cb_cap base)..<unat newcap],
                                cb_cap := newcap\<rparr>)
         else (Some (cb_len base), base))"

definition cbb_buffer_add :: "u64 \<Rightarrow> u64 builder" where
  "cbb_buffer_add len base =
     attempt (cbb_buffer_reserve len base)
       (\<lambda>out base. (Some out, base\<lparr>cb_len := cb_len base + len\<rparr>))"

subsection \<open>Flushing\<close>

text \<open>The stores of \<open>count\<close> bytes, last first, from \<open>v\<close> shifted right; the rest of \<open>v\<close> is returned.\<close>

fun put_be :: "u8 list \<Rightarrow> nat \<Rightarrow> nat \<Rightarrow> u64 \<Rightarrow> u8 list \<times> u64" where
  "put_be buf off 0 v = (buf, v)"
| "put_be buf off (Suc i) v = put_be (buf[off + i := ucast v]) off i (drop_bit 8 v)"

definition cbb_on_error :: "nat \<Rightarrow> cbb \<Rightarrow> cbb" where
  "cbb_on_error d cbb = cbb\<lparr>cb_error := True, cb_children := take d (cb_children cbb)\<rparr>"

definition memmove_up :: "u8 list \<Rightarrow> nat \<Rightarrow> nat \<Rightarrow> nat \<Rightarrow> u8 list" where
  "memmove_up buf start extra len =
     take (start + extra) buf @ take len (drop start buf) @ drop (start + extra + len) buf"

text \<open>
  The length-prefix part of \<^verbatim>\<open>CBB_flush\<close>: the child at depth \<open>d\<close> has no child of its own any
  more.  The value is the offset and the number of bytes still to be written for the length,
  and the length.
\<close>

definition cbb_asn1_length :: "u64 \<Rightarrow> u64 \<Rightarrow> u64 \<Rightarrow> (u64 \<times> nat \<times> u64) builder" where
  "cbb_asn1_length offset child_start len base =
     (if 0xFFFFFFFE < len then (None, base)
      else let (len_len, initial_length_byte, len') =
                 (if 0xFFFFFF < len then (5 :: u64, 0x80 OR 4 :: u8, len)
                  else if 0xFFFF < len then (4, 0x80 OR 3, len)
                  else if 0xFF < len then (3, 0x80 OR 2, len)
                  else if 0x7F < len then (2, 0x80 OR 1, len)
                  else (1, ucast len, 0))
           in attempt
                (if len_len \<noteq> 1
                 then let extra_bytes = len_len - 1
                      in attempt (cbb_buffer_add extra_bytes base) (\<lambda>_ base.
                           (Some (), base\<lparr>cb_buf := memmove_up (cb_buf base) (unat child_start)
                                                     (unat extra_bytes) (unat len')\<rparr>))
                 else (Some (), base))
                (\<lambda>_ base. (Some (offset + 1, unat (len_len - 1), len'),
                           base\<lparr>cb_buf := (cb_buf base)[unat offset := initial_length_byte]\<rparr>)))"

definition cbb_write_length :: "cbb_child \<Rightarrow> unit builder" where
  "cbb_write_length child base =
     (let child_start = cc_offset child + ucast (cc_pending_len_len child)
      in if child_start < cc_offset child \<or> cb_len base < child_start then (None, base)
         else let len = cb_len base - child_start
              in attempt
                   (if cc_pending_is_asn1 child
                    then cbb_asn1_length (cc_offset child) child_start len base
                    else (Some (cc_offset child, unat (cc_pending_len_len child), len), base))
                   (\<lambda>(offset, pending_len_len, len) base.
                      case put_be (cb_buf base) (unat offset) pending_len_len len of
                        (buf, rest) \<Rightarrow>
                          if rest \<noteq> 0 then (None, base\<lparr>cb_buf := buf\<rparr>)
                          else (Some (), base\<lparr>cb_buf := buf\<rparr>)))"

function CBB_flush :: "nat \<Rightarrow> unit builder" where
  "CBB_flush d cbb =
     (if cb_error cbb then (None, cbb)
      else if length (cb_children cbb) \<le> d then (Some (), cbb)
      else case CBB_flush (d + 1) cbb of
             (None, cbb') \<Rightarrow> (None, cbb_on_error d cbb')
           | (Some _, cbb') \<Rightarrow>
               (case cbb_write_length (cb_children cbb ! d) cbb' of
                  (None, cbb'') \<Rightarrow> (None, cbb_on_error d cbb'')
                | (Some _, cbb'') \<Rightarrow> (Some (), cbb''\<lparr>cb_children := take d (cb_children cbb'')\<rparr>)))"
  by pat_completeness auto
termination
  by (relation "measure (\<lambda>(d, cbb). length (cb_children cbb) - d)") auto

declare CBB_flush.simps [simp del]

text \<open>The bytes a \<open>CBB\<close> at depth \<open>d\<close> without an open child holds.\<close>

definition CBB_len :: "nat \<Rightarrow> cbb \<Rightarrow> u64" where
  "CBB_len d cbb =
     (if 0 < d then cb_len cbb - cc_offset (cb_children cbb ! (d - 1))
                     - ucast (cc_pending_len_len (cb_children cbb ! (d - 1)))
      else cb_len cbb)"

definition CBB_data :: "nat \<Rightarrow> cbb \<Rightarrow> u64" where
  "CBB_data d cbb =
     (if 0 < d then cc_offset (cb_children cbb ! (d - 1))
                     + ucast (cc_pending_len_len (cb_children cbb ! (d - 1)))
      else 0)"

text \<open>The finished bytes; the caller gives non-NULL output arguments.\<close>

definition CBB_finish :: "nat \<Rightarrow> (u8 list) builder" where
  "CBB_finish d cbb =
     (if 0 < d then (None, cbb)
      else attempt (CBB_flush d cbb) (\<lambda>_ cbb.
             (Some (take (unat (cb_len cbb)) (cb_buf cbb)), cbb\<lparr>cb_buf := []\<rparr>)))"

subsection \<open>Adding bytes and children\<close>

definition cbb_store :: "u64 \<Rightarrow> u8 list \<Rightarrow> cbb \<Rightarrow> cbb" where
  "cbb_store off bs cbb =
     cbb\<lparr>cb_buf := take (unat off) (cb_buf cbb) @ bs @ drop (unat off + length bs) (cb_buf cbb)\<rparr>"

definition cbb_add_child :: "nat \<Rightarrow> u8 \<Rightarrow> bool \<Rightarrow> unit builder" where
  "cbb_add_child d len_len is_asn1 cbb =
     (let offset = cb_len cbb
      in attempt (cbb_buffer_add (ucast len_len) cbb) (\<lambda>prefix_bytes cbb.
           let cbb = cbb_store prefix_bytes (replicate (unat len_len) 0) cbb
           in (Some (), cbb\<lparr>cb_children := take d (cb_children cbb) @
                        [\<lparr>cc_offset = offset, cc_pending_len_len = len_len,
                          cc_pending_is_asn1 = is_asn1\<rparr>]\<rparr>)))"

definition cbb_add_length_prefixed :: "nat \<Rightarrow> u8 \<Rightarrow> unit builder" where
  "cbb_add_length_prefixed d len_len cbb =
     attempt (CBB_flush d cbb) (\<lambda>_ cbb. cbb_add_child d len_len False cbb)"

definition CBB_add_u8_length_prefixed :: "nat \<Rightarrow> unit builder" where
  "CBB_add_u8_length_prefixed d = cbb_add_length_prefixed d 1"

definition CBB_add_u16_length_prefixed :: "nat \<Rightarrow> unit builder" where
  "CBB_add_u16_length_prefixed d = cbb_add_length_prefixed d 2"

definition CBB_add_u24_length_prefixed :: "nat \<Rightarrow> unit builder" where
  "CBB_add_u24_length_prefixed d = cbb_add_length_prefixed d 3"

definition CBB_add_space :: "nat \<Rightarrow> u64 \<Rightarrow> u64 builder" where
  "CBB_add_space d len cbb =
     attempt (CBB_flush d cbb) (\<lambda>_ cbb. cbb_buffer_add len cbb)"

definition CBB_reserve :: "nat \<Rightarrow> u64 \<Rightarrow> u64 builder" where
  "CBB_reserve d len cbb =
     attempt (CBB_flush d cbb) (\<lambda>_ cbb. cbb_buffer_reserve len cbb)"

definition CBB_did_write :: "nat \<Rightarrow> u64 \<Rightarrow> unit builder" where
  "CBB_did_write d len cbb =
     (let newlen = cb_len cbb + len
      in if d < length (cb_children cbb) \<or> newlen < cb_len cbb \<or> cb_cap cbb < newlen
         then (None, cbb) else (Some (), cbb\<lparr>cb_len := newlen\<rparr>))"

definition CBB_add_bytes :: "nat \<Rightarrow> u8 list \<Rightarrow> unit builder" where
  "CBB_add_bytes d data cbb =
     attempt (CBB_add_space d (of_nat (length data)) cbb)
       (\<lambda>out cbb. (Some (), cbb_store out data cbb))"

definition CBB_add_zeros :: "nat \<Rightarrow> u64 \<Rightarrow> unit builder" where
  "CBB_add_zeros d len cbb =
     attempt (CBB_add_space d len cbb)
       (\<lambda>out cbb. (Some (), cbb_store out (replicate (unat len) 0) cbb))"

definition cbb_add_u :: "nat \<Rightarrow> u64 \<Rightarrow> nat \<Rightarrow> unit builder" where
  "cbb_add_u d v len_len cbb =
     attempt (CBB_add_space d (of_nat len_len) cbb) (\<lambda>out cbb.
       case put_be (cb_buf cbb) (unat out) len_len v of
         (buf, rest) \<Rightarrow>
           if rest \<noteq> 0 then (None, cbb_on_error d (cbb\<lparr>cb_buf := buf\<rparr>))
           else (Some (), cbb\<lparr>cb_buf := buf\<rparr>))"

definition CBB_add_u8 :: "nat \<Rightarrow> u8 \<Rightarrow> unit builder" where
  "CBB_add_u8 d v = cbb_add_u d (ucast v) 1"

definition CBB_add_u16 :: "nat \<Rightarrow> u16 \<Rightarrow> unit builder" where
  "CBB_add_u16 d v = cbb_add_u d (ucast v) 2"

definition CBB_add_u16le :: "nat \<Rightarrow> u16 \<Rightarrow> unit builder" where
  "CBB_add_u16le d v = CBB_add_u16 d (CRYPTO_bswap2 v)"

definition CBB_add_u24 :: "nat \<Rightarrow> u32 \<Rightarrow> unit builder" where
  "CBB_add_u24 d v = cbb_add_u d (ucast v) 3"

definition CBB_add_u32 :: "nat \<Rightarrow> u32 \<Rightarrow> unit builder" where
  "CBB_add_u32 d v = cbb_add_u d (ucast v) 4"

definition CBB_add_u32le :: "nat \<Rightarrow> u32 \<Rightarrow> unit builder" where
  "CBB_add_u32le d v = CBB_add_u32 d (CRYPTO_bswap4 v)"

definition CBB_add_u64 :: "nat \<Rightarrow> u64 \<Rightarrow> unit builder" where
  "CBB_add_u64 d v = cbb_add_u d v 8"

definition CBB_add_u64le :: "nat \<Rightarrow> u64 \<Rightarrow> unit builder" where
  "CBB_add_u64le d v = CBB_add_u64 d (CRYPTO_bswap8 v)"

definition CBB_discard_child :: "nat \<Rightarrow> cbb \<Rightarrow> cbb" where
  "CBB_discard_child d cbb =
     (if length (cb_children cbb) \<le> d then cbb
      else cbb\<lparr>cb_len := cc_offset (cb_children cbb ! d), cb_children := take d (cb_children cbb)\<rparr>)"

subsection \<open>ASN.1\<close>

function base128_len_len :: "u64 \<Rightarrow> nat" where
  "base128_len_len copy = (if 0 < copy then base128_len_len (drop_bit 7 copy) + 1 else 0)"
  by pat_completeness auto
termination
  by (relation "measure unat") (auto simp: unat_drop_bit_div word_less_nat_alt intro: div_less_dividend)

declare base128_len_len.simps [simp del]

text \<open>The for loop of \<^verbatim>\<open>add_base128_integer\<close> for the indices below \<open>n\<close>, the largest first.\<close>

fun add_base128_loop :: "nat \<Rightarrow> u64 \<Rightarrow> nat \<Rightarrow> unit builder" where
  "add_base128_loop d v 0 cbb = (Some (), cbb)"
| "add_base128_loop d v (Suc i) cbb =
     (let byte = ucast (drop_bit (7 * i) v AND 0x7F) :: u8;
          byte = (if i \<noteq> 0 then byte OR 0x80 else byte)
      in attempt (CBB_add_u8 d byte cbb) (\<lambda>_ cbb. add_base128_loop d v i cbb))"

definition add_base128_integer :: "nat \<Rightarrow> u64 \<Rightarrow> unit builder" where
  "add_base128_integer d v cbb =
     (let len_len = base128_len_len v;
          len_len = (if len_len = 0 then 1 else len_len)
      in add_base128_loop d v len_len cbb)"

definition CBB_add_asn1 :: "nat \<Rightarrow> u32 \<Rightarrow> unit builder" where
  "CBB_add_asn1 d tag cbb =
     attempt (CBB_flush d cbb) (\<lambda>_ cbb.
       let tag_bits = ucast (drop_bit CBS_ASN1_TAG_SHIFT tag AND 0xE0) :: u8;
           tag_number = tag AND CBS_ASN1_TAG_NUMBER_MASK
       in attempt
            (if 0x1F \<le> tag_number
             then attempt (CBB_add_u8 d (tag_bits OR 0x1F) cbb)
                    (\<lambda>_ cbb. add_base128_integer d (ucast tag_number) cbb)
             else CBB_add_u8 d (tag_bits OR ucast tag_number) cbb)
            (\<lambda>_ cbb. cbb_add_child d 1 True cbb))"

text \<open>
  Error handling of the composite writers: \<open>goto err\<close> locks the builder.
\<close>

definition or_lock :: "nat \<Rightarrow> (unit, cbb) outcome \<Rightarrow> (unit, cbb) outcome" where
  "or_lock d r = (case r of (None, cbb) \<Rightarrow> (None, cbb_on_error d cbb) | (Some _, cbb) \<Rightarrow> (Some (), cbb))"

text \<open>The bytes of \<open>value\<close> from the index \<open>8 - n\<close> on; the value is \<open>started\<close>.\<close>

fun asn1_uint64_bytes :: "nat \<Rightarrow> u64 \<Rightarrow> nat \<Rightarrow> bool \<Rightarrow> bool builder" where
  "asn1_uint64_bytes d v 0 started cbb = (Some started, cbb)"
| "asn1_uint64_bytes d v (Suc n) started cbb =
     (let byte = ucast (drop_bit (8 * n) v AND 0xFF) :: u8
      in if \<not> started \<and> byte = 0 then asn1_uint64_bytes d v n started cbb
         else attempt (if \<not> started \<and> byte AND 0x80 \<noteq> 0 then CBB_add_u8 d 0 cbb else (Some (), cbb))
                (\<lambda>_ cbb. attempt (CBB_add_u8 d byte cbb)
                   (\<lambda>_ cbb. asn1_uint64_bytes d v n True cbb)))"

definition CBB_add_asn1_uint64_with_tag :: "nat \<Rightarrow> u64 \<Rightarrow> u32 \<Rightarrow> unit builder" where
  "CBB_add_asn1_uint64_with_tag d v tag cbb =
     attempt
       (or_lock d
         (attempt (CBB_add_asn1 d tag cbb) (\<lambda>_ cbb.
          attempt (asn1_uint64_bytes (d + 1) v 8 False cbb) (\<lambda>started cbb.
            if \<not> started then CBB_add_u8 (d + 1) 0 cbb else (Some (), cbb)))))
       (\<lambda>_ cbb. CBB_flush d cbb)"

definition CBB_add_asn1_uint64 :: "nat \<Rightarrow> u64 \<Rightarrow> unit builder" where
  "CBB_add_asn1_uint64 d v = CBB_add_asn1_uint64_with_tag d v CBS_ASN1_INTEGER"

text \<open>The \<open>int64_t\<close> argument is the word with the same representation.\<close>

fun int64_start :: "u8 list \<Rightarrow> nat \<Rightarrow> nat" where
  "int64_start bytes 0 = 0"
| "int64_start bytes (Suc start) =
     (if bytes ! Suc start = 0xFF \<and> bytes ! start AND 0x80 \<noteq> 0
      then int64_start bytes start else Suc start)"

fun add_u8s_down :: "nat \<Rightarrow> u8 list \<Rightarrow> nat \<Rightarrow> unit builder" where
  "add_u8s_down d bytes 0 cbb = (Some (), cbb)"
| "add_u8s_down d bytes (Suc i) cbb =
     attempt (CBB_add_u8 d (bytes ! i) cbb) (\<lambda>_ cbb. add_u8s_down d bytes i cbb)"

definition CBB_add_asn1_int64_with_tag :: "nat \<Rightarrow> u64 \<Rightarrow> u32 \<Rightarrow> unit builder" where
  "CBB_add_asn1_int64_with_tag d v tag cbb =
     (if 0 \<le> sint v then CBB_add_asn1_uint64_with_tag d v tag cbb
      else let bytes = le_bytes 8 (unat v);
               start = int64_start bytes 7
           in attempt
                (or_lock d
                  (attempt (CBB_add_asn1 d tag cbb)
                    (\<lambda>_ cbb. add_u8s_down (d + 1) bytes (start + 1) cbb)))
                (\<lambda>_ cbb. CBB_flush d cbb))"

definition CBB_add_asn1_int64 :: "nat \<Rightarrow> u64 \<Rightarrow> unit builder" where
  "CBB_add_asn1_int64 d v = CBB_add_asn1_int64_with_tag d v CBS_ASN1_INTEGER"

definition CBB_add_asn1_octet_string :: "nat \<Rightarrow> u8 list \<Rightarrow> unit builder" where
  "CBB_add_asn1_octet_string d data cbb =
     or_lock d
       (attempt (CBB_add_asn1 d CBS_ASN1_OCTETSTRING cbb) (\<lambda>_ cbb.
        attempt (CBB_add_bytes (d + 1) data cbb) (\<lambda>_ cbb. CBB_flush d cbb)))"

definition CBB_add_asn1_bool :: "nat \<Rightarrow> bool \<Rightarrow> unit builder" where
  "CBB_add_asn1_bool d v cbb =
     or_lock d
       (attempt (CBB_add_asn1 d CBS_ASN1_BOOLEAN cbb) (\<lambda>_ cbb.
        attempt (CBB_add_u8 (d + 1) (if v then 0xFF else 0) cbb) (\<lambda>_ cbb. CBB_flush d cbb)))"

definition parse_dotted_decimal :: "cbs \<Rightarrow> (u64, cbs) outcome" where
  "parse_dotted_decimal cbs =
     attempt (CBS_get_u64_decimal cbs) (\<lambda>out cbs.
       case CBS_get_u8 cbs of
         (None, cbs) \<Rightarrow> (Some out, cbs)
       | (Some dot, cbs) \<Rightarrow> (if dot = 0x2E \<and> 0 < CBS_len cbs then Some out else None, cbs))"

end
