(* ===== verification/Der.thy ===== *)
theory Der
  imports Cbs
begin

text \<open>
  The DER format as a specification, and what the reader of \<open>Cbs\<close> accepts: base-128
  integers, identifier octets, length octets and whole elements.  Every reader is shown to
  accept exactly the canonical encoding, in both directions; the writers of \<open>Cbb\<close> are shown
  elsewhere to produce the same bytes.
\<close>

subsection \<open>Big-endian integers\<close>

lemma unat_shift8_or:
  assumes "unat (r :: u64) < 2 ^ 56"
  shows "unat (push_bit 8 r OR ucast (b :: u8)) = 256 * unat r + unat b"
proof -
  have "unat r * 2 ^ 8 < 2 ^ LENGTH(64)" using assms by simp
  moreover have "unat (ucast b :: u64) < 2 ^ 8" by simp
  ultimately show ?thesis using unat_or_push_bit [of "ucast b :: u64" 8 r]
    by (simp add: or.commute)
qed

lemma be_val_Cons_acc: "256 ^ length bs * (256 * r + unat b) + be_val bs = 256 ^ length (b # bs) * r + be_val (b # bs)"
  by (simp add: be_val_Cons algebra_simps)

lemma fold_be_val:
  "256 ^ length bs * unat r + be_val bs < 2 ^ 64 \<Longrightarrow>
     unat (fold (\<lambda>b result. push_bit 8 result OR ucast b) bs (r :: u64))
       = 256 ^ length bs * unat r + be_val bs"
proof (induction bs arbitrary: r)
  case Nil
  then show ?case by simp
next
  case (Cons b bs)
  have "256 * unat r \<le> 256 ^ length (b # bs) * unat r" by simp
  then have "256 * unat r < 2 ^ 64" using Cons.prems by linarith
  then have r: "unat r < 2 ^ 56" by simp
  note step = unat_shift8_or [OF r, of b]
  have "256 ^ length bs * unat (push_bit 8 r OR ucast b) + be_val bs < 2 ^ 64"
    using Cons.prems unfolding step be_val_Cons_acc .
  from Cons.IH [OF this] show ?case
    unfolding step be_val_Cons_acc by simp
qed

lemma cbs_get_append: "length bs = unat n \<Longrightarrow> cbs_get (bs @ rest) n = (Some bs, rest)"
  by (simp add: cbs_get_def)

lemma cbs_get_eq_Some:
  "cbs_get cbs n = (Some bs, rest) \<longleftrightarrow> cbs = bs @ rest \<and> length bs = unat n"
  by (auto simp: cbs_get_def)

lemma cbs_get_eq_None: "cbs_get cbs n = (None, rest) \<longleftrightarrow> rest = cbs \<and> length cbs < unat n"
  by (auto simp: cbs_get_def)

lemma cbs_get_u_eq_Some:
  assumes "unat n \<le> 8"
  shows "cbs_get_u cbs n = (Some v, rest) \<longleftrightarrow>
    (\<exists>bs. cbs = bs @ rest \<and> length bs = unat n \<and> unat v = be_val bs)"
proof -
  have eq: "unat (fold (\<lambda>b result. push_bit 8 result OR ucast b) bs (0 :: u64)) = be_val bs"
    if "length bs = unat n" for bs
  proof -
    have "be_val bs < 256 ^ length bs" by (rule be_val_less)
    also have "\<dots> \<le> 256 ^ 8" using assms that by (intro power_increasing) simp_all
    finally have "be_val bs < 2 ^ 64" by simp
    then show ?thesis using fold_be_val [of bs 0] by simp
  qed
  show ?thesis
    by (auto simp: cbs_get_u_def attempt_eq_Some cbs_get_eq_Some eq intro!: word_eq_by_unat)
qed

subsection \<open>Base-128 integers\<close>

fun hi128 :: "nat \<Rightarrow> u8 list" where
  "hi128 n = (if n = 0 then [] else hi128 (n div 128) @ [of_nat (n mod 128 + 128)])"

declare hi128.simps [simp del]

definition base128 :: "nat \<Rightarrow> u8 list" where
  "base128 n = hi128 (n div 128) @ [of_nat (n mod 128)]"

lemma base128_nonempty [simp]: "base128 n \<noteq> []"
  by (simp add: base128_def)

lemma hi128_0 [simp]: "hi128 0 = []"
  by (simp add: hi128.simps)

lemma hi128_pos: "0 < n \<Longrightarrow> hi128 n = hi128 (n div 128) @ [of_nat (n mod 128 + 128)]"
  by (simp add: hi128.simps)

lemma unat_hi_byte: "unat (of_nat (n mod 128 + 128) :: u8) = n mod 128 + 128"
  by (rule unat_of_nat_id) simp

lemma unat_lo_byte: "unat (of_nat (n mod 128) :: u8) = n mod 128"
  by (rule unat_of_nat_id) simp

lemma unat_shift7_or:
  assumes "unat (v :: u64) < 2 ^ 57"
  shows "unat (push_bit 7 v OR ucast (b AND 0x7F :: u8)) = 128 * unat v + unat b mod 128"
proof -
  have "unat v * 2 ^ 7 < 2 ^ LENGTH(64)" using assms by simp
  moreover have "unat (ucast (b AND 0x7F) :: u64) < 2 ^ 7" by simp
  ultimately show ?thesis using unat_or_push_bit [of "ucast (b AND 0x7F) :: u64" 7 v]
    by (simp add: or.commute)
qed

lemma drop57: "drop_bit (64 - 7) (v :: u64) = 0 \<longleftrightarrow> unat v < 2 ^ 57"
proof -
  have "drop_bit (64 - 7) v = 0 \<longleftrightarrow> unat (drop_bit (64 - 7) v) = 0" by (simp only: unat_0_iff)
  also have "\<dots> \<longleftrightarrow> unat v div 2 ^ 57 = 0" by (simp only: unat_drop_bit_div) simp
  finally show ?thesis by (simp add: div_eq_0_iff)
qed

lemma base128_loop_hi:
  assumes "n < 2 ^ 64"
  shows "base128_loop 0 (hi128 n @ rest) = base128_loop (of_nat n) rest"
  using assms
proof (induction n arbitrary: rest rule: hi128.induct)
  case (1 n)
  show ?case
  proof (cases "n = 0")
    case True
    then show ?thesis by simp
  next
    case False
    let ?b = "of_nat (n mod 128 + 128) :: u8" and ?v = "of_nat (n div 128) :: u64"
    have b: "unat ?b = n mod 128 + 128" by (rule unat_hi_byte)
    have v: "unat ?v = n div 128" using "1.prems" by (intro unat_of_nat_u64) simp
    have v57: "unat ?v < 2 ^ 57" unfolding v using "1.prems" by (simp add: less_mult_imp_div_less)
    have nz: "\<not> (?v = 0 \<and> ?b = 0x80)"
    proof
      assume "?v = 0 \<and> ?b = 0x80"
      then have "unat ?v = 0" "unat ?b = 128" by simp_all
      then have "n div 128 = 0" "n mod 128 = 0" using v b by simp_all
      with False show False by (metis div_mult_mod_eq mult_0 add_0)
    qed
    have "?b AND 0x80 \<noteq> 0" using b u8_msb [of ?b] by simp
    moreover have "push_bit 7 ?v OR ucast (?b AND 0x7F) = (of_nat n :: u64)"
      using "1.prems" by (intro word_eq_by_unat)
        (simp only: unat_shift7_or [OF v57] v b unat_of_nat_u64, simp)
    ultimately have step: "base128_loop ?v (?b # rest) = base128_loop (of_nat n) rest"
      using nz v57 by (subst base128_loop.simps) (simp only: CBS_get_u8_simps attempt_Some drop57 Let_def if_False if_True simp_thms)
    have "base128_loop 0 (hi128 n @ rest) = base128_loop 0 (hi128 (n div 128) @ (?b # rest))"
      using False by (simp add: hi128_pos)
    also have "\<dots> = base128_loop ?v (?b # rest)" using "1.IH" [OF False] "1.prems" by simp
    finally show ?thesis using step by simp
  qed
qed

lemma parse_base128_integer_base128:
  assumes "n < 2 ^ 64"
  shows "parse_base128_integer (base128 n @ rest) = (Some (of_nat n), rest)"
proof -
  let ?b = "of_nat (n mod 128) :: u8" and ?v = "of_nat (n div 128) :: u64"
  have b: "unat ?b = n mod 128" by (rule unat_lo_byte)
  have v: "unat ?v = n div 128" using assms by (intro unat_of_nat_u64) simp
  have v57: "unat ?v < 2 ^ 57" unfolding v using assms by (simp add: less_mult_imp_div_less)
  have b80: "?b AND 0x80 = 0" "?b \<noteq> 0x80" using b u8_msb [of ?b] by auto
  have "push_bit 7 ?v OR ucast (?b AND 0x7F) = (of_nat n :: u64)"
    using assms by (intro word_eq_by_unat)
      (simp only: unat_shift7_or [OF v57] v b unat_of_nat_u64, simp)
  then have "base128_loop ?v (?b # rest) = (Some (of_nat n), rest)"
    using b80 v57 by (subst base128_loop.simps) (simp only: CBS_get_u8_simps attempt_Some drop57 Let_def if_False if_True simp_thms)
  then show ?thesis
    using base128_loop_hi [of "n div 128" "?b # rest"] assms
    by (simp add: parse_base128_integer_def base128_def)
qed

lemma base128_loop_sound:
  "base128_loop v bs = (Some x, rest) \<Longrightarrow> hi128 (unat v) @ bs = base128 (unat x) @ rest"
proof (induction v bs rule: base128_loop.induct)
  case (1 v bs)
  from "1.prems" obtain b bs' where bs: "bs = b # bs'"
    by (subst (asm) base128_loop.simps) (auto simp: attempt_eq_Some CBS_get_u8_eq_Some)
  have v57: "unat v < 2 ^ 57" and nz: "\<not> (v = 0 \<and> b = 0x80)"
    using "1.prems" unfolding bs drop57 [symmetric]
    by (subst (asm) base128_loop.simps, simp split: if_splits)+
  define v' where "v' = push_bit 7 v OR ucast (b AND 0x7F)"
  have v': "unat v' = 128 * unat v + unat b mod 128"
    unfolding v'_def by (rule unat_shift7_or [OF v57])
  have div: "unat v' div 128 = unat v" and mod: "unat v' mod 128 = unat b mod 128"
    unfolding v' by simp_all
  have "drop_bit (64 - 7) v = 0" using v57 by (simp only: drop57)
  then have step: "base128_loop v bs = (if b AND 0x80 \<noteq> 0 then base128_loop v' bs' else (Some v', bs'))"
    using nz unfolding bs v'_def
    by (subst base128_loop.simps) (auto simp: Let_def)
  show ?case
  proof (cases "b AND 0x80 = 0")
    case True
    then have x: "x = v'" "rest = bs'" using "1.prems" step by auto
    have "unat b < 128" using True u8_msb by blast
    then have "of_nat (unat v' mod 128) = b" unfolding mod by simp
    then show ?thesis unfolding x bs base128_def div by simp
  next
    case False
    then have b: "128 \<le> unat b" using u8_msb [of b] by simp
    then have bmod: "unat b mod 128 + 128 = unat b"
      using high_half_mod unat_u8_less by blast
    have "v' \<noteq> 0"
    proof
      assume "v' = 0"
      then have "unat v = 0" "unat b mod 128 = 0" using v' by simp_all
      then have "v = 0" "unat b = 128" using bmod by (simp_all add: unat_eq_0)
      then have "v = 0 \<and> b = 0x80" using word_eq_by_unat [of b "0x80"] by simp
      with nz show False by simp
    qed
    then have pos: "0 < unat v'" by (simp add: unat_gt_0)
    have "hi128 (unat v') = hi128 (unat v) @ [b]"
      unfolding hi128_pos [OF pos] div mod bmod by simp
    moreover have "base128_loop v' bs' = (Some x, rest)" using "1.prems" step False by simp
    moreover have "drop_bit (64 - 7) v = 0" using v57 by (simp only: drop57)
    ultimately show ?thesis
      using "1.IH" [of b bs', OF _ _ nz v'_def False] by (simp add: bs)
  qed
qed

lemma parse_base128_integer_sound:
  "parse_base128_integer bs = (Some x, rest) \<Longrightarrow> bs = base128 (unat x) @ rest"
  using base128_loop_sound [of 0 bs x rest] by (simp add: parse_base128_integer_def)

lemma base128_length_ge: "1 \<le> length (base128 n)"
  by (simp add: base128_def)

lemma length_hi128: "n < 128 ^ k \<Longrightarrow> length (hi128 n) \<le> k"
proof (induction k arbitrary: n)
  case 0
  then show ?case by simp
next
  case (Suc k)
  show ?case
  proof (cases "n = 0")
    case False
    have "n div 128 < 128 ^ k" using Suc.prems by (simp add: less_mult_imp_div_less mult.commute)
    then show ?thesis using Suc.IH False by (simp add: hi128_pos)
  qed simp
qed

lemma base128_length_u64: "n < 2 ^ 64 \<Longrightarrow> length (base128 n) \<le> 10"
  using length_hi128 [of "n div 128" 9] by (simp add: base128_def less_mult_imp_div_less)


subsection \<open>Identifier octets\<close>

definition tag_class :: "u32 \<Rightarrow> nat" where
  "tag_class tag = unat tag div 2 ^ 29"

definition tag_num :: "u32 \<Rightarrow> nat" where
  "tag_num tag = unat tag mod 2 ^ 29"

definition der_tag :: "u32 \<Rightarrow> u8 list" where
  "der_tag tag =
     (if tag_num tag < 31 then [of_nat (tag_class tag * 32 + tag_num tag)]
      else of_nat (tag_class tag * 32 + 31) # base128 (tag_num tag))"

definition valid_tag :: "u32 \<Rightarrow> bool" where
  "valid_tag tag \<longleftrightarrow> tag AND NOT CBS_ASN1_CONSTRUCTED \<noteq> 0"

lemma and_e0: "8 \<le> LENGTH('a) \<Longrightarrow> unat (x AND 0xE0 :: 'a::len word) = (unat x div 32 mod 8) * 32"
  using unat_and_push_mask [of 5 3 x] by (simp add: mask_eq_exp_minus_1)

lemma and_1f: "unat (x AND 0x1F :: 'a::len word) = unat x mod 32"
  using unat_and_mask [of x 5] by (simp add: mask_eq_exp_minus_1)

lemma tag_byte_class:
  "push_bit CBS_ASN1_TAG_SHIFT (ucast (b :: u8) AND 0xE0 :: u32) = push_bit 29 (of_nat (unat b div 32))"
proof -
  have b8: "unat b div 32 < 8" using unat_u8_less [of b] by (simp add: less_mult_imp_div_less)
  then have e: "unat (ucast b AND 0xE0 :: u32) = unat b div 32 * 32" by (simp add: and_e0)
  have "unat (ucast b AND 0xE0 :: u32) * 2 ^ 24 < 2 ^ LENGTH(32)" unfolding e using b8 by simp
  note l = unat_push_bit [OF this, unfolded e]
  have c: "unat (of_nat (unat b div 32) :: u32) = unat b div 32"
    using b8 by (intro unat_of_nat_id) simp
  have "unat (of_nat (unat b div 32) :: u32) * 2 ^ 29 < 2 ^ LENGTH(32)" unfolding c using b8 by simp
  note r = unat_push_bit [OF this, unfolded c]
  show ?thesis unfolding CBS_ASN1_TAG_SHIFT_def
    by (rule word_eq_by_unat) (simp only: l r, simp)
qed

lemma unat_tag_or:
  assumes "c < 8" "unat (m :: u32) < 2 ^ 29"
  shows "unat (push_bit 29 (of_nat c) OR m) = c * 2 ^ 29 + unat m"
proof -
  have c: "unat (of_nat c :: u32) = c" using assms(1) by (intro unat_of_nat_id) simp
  have "unat (of_nat c :: u32) * 2 ^ 29 < 2 ^ LENGTH(32)" unfolding c using assms(1) by simp
  from unat_or_push_bit [OF assms(2) this] show ?thesis
    unfolding c by (simp only: or.commute add.commute mult.commute)
qed

lemma low5: "unat (ucast (b AND 0x1F :: u8) :: u32) = unat b mod 32"
  by (simp add: and_1f)

lemma tag_mask: "CBS_ASN1_TAG_NUMBER_MASK = 0x1FFFFFFF"
  by (simp add: CBS_ASN1_TAG_NUMBER_MASK_def)

lemma tag_split: "tag_class tag < 8" "tag_num tag < 2 ^ 29" "unat tag = tag_class tag * 2 ^ 29 + tag_num tag"
  using unat_less_2p [of tag] by (simp_all add: tag_class_def tag_num_def less_mult_imp_div_less)

lemma parse_asn1_tag_der:
  assumes "valid_tag tag"
  shows "parse_asn1_tag (der_tag tag @ rest) = (Some tag, rest)"
proof -
  let ?c = "tag_class tag" and ?n = "tag_num tag"
  have c: "?c < 8" and n: "?n < 2 ^ 29" and t: "unat tag = ?c * 2 ^ 29 + ?n" by (rule tag_split)+
  have final: "push_bit 29 (of_nat ?c) OR of_nat ?n = tag"
  proof (rule word_eq_by_unat)
    have m: "unat (of_nat ?n :: u32) = ?n" using n by (intro unat_of_nat_id) simp
    with unat_tag_or [OF c, of "of_nat ?n"] n t
    show "unat (push_bit 29 (of_nat ?c) OR of_nat ?n :: u32) = unat tag" by simp
  qed
  have v: "\<not> tag AND NOT CBS_ASN1_CONSTRUCTED = 0" using assms by (simp add: valid_tag_def)
  show ?thesis
  proof (cases "?n < 31")
    case True
    let ?b = "of_nat (?c * 32 + ?n) :: u8"
    have b: "unat ?b = ?c * 32 + ?n" using c True by (intro unat_of_nat_id) simp
    have cls: "unat ?b div 32 = ?c" unfolding b using True by simp
    have "unat (ucast (?b AND 0x1F) :: u32) = ?n" unfolding low5 b using True by simp
    then have num: "ucast (?b AND 0x1F) = (of_nat ?n :: u32)" by (rule word_eq_of_nat)
    have "(of_nat ?n :: u32) \<noteq> 0x1F"
    proof
      assume "(of_nat ?n :: u32) = 0x1F"
      then have "unat (of_nat ?n :: u32) = 31" by simp
      moreover have "unat (of_nat ?n :: u32) = ?n" using n by (intro unat_of_nat_id) simp
      ultimately show False using True by simp
    qed
    then show ?thesis using True final v
      unfolding parse_asn1_tag_def der_tag_def
      by (simp only: if_True append_Cons append_Nil CBS_get_u8_simps attempt_Some Let_def
          tag_byte_class cls num if_False)
  next
    case False
    let ?b = "of_nat (?c * 32 + 31) :: u8"
    have b: "unat ?b = ?c * 32 + 31" using c by (intro unat_of_nat_id) simp
    have cls: "unat ?b div 32 = ?c" unfolding b by simp
    have "unat (ucast (?b AND 0x1F) :: u32) = unat (0x1F :: u32)" unfolding low5 b by simp
    then have num: "ucast (?b AND 0x1F) = (0x1F :: u32)" by (rule word_eq_by_unat)
    have p: "parse_base128_integer (base128 ?n @ rest) = (Some (of_nat ?n), rest)"
      using n by (intro parse_base128_integer_base128) simp
    have m64: "unat (of_nat ?n :: u64) = ?n" using n by (intro unat_of_nat_u64) simp
    have range: "\<not> (ucast CBS_ASN1_TAG_NUMBER_MASK < (of_nat ?n :: u64) \<or> (of_nat ?n :: u64) < 0x1F)"
      using n False m64 by (simp add: word_less_nat_alt tag_mask)
    have "ucast (of_nat ?n :: u64) = (of_nat ?n :: u32)"
      using n unat_of_nat_id [where ?'a = 32, of ?n] m64
      by (intro word_eq_by_unat) (simp add: unat_ucast_mod)
    then show ?thesis using False final v range
      unfolding parse_asn1_tag_def der_tag_def
      by (simp only: if_True append_Cons append_Nil CBS_get_u8_simps attempt_Some Let_def
          tag_byte_class cls num if_False p simp_thms)
  qed
qed

lemma parse_asn1_tag_sound:
  assumes "parse_asn1_tag bs = (Some tag, rest)"
  shows "valid_tag tag \<and> bs = der_tag tag @ rest"
proof -
  from assms obtain b bs' where bs: "bs = b # bs'"
    by (cases bs) (auto simp: parse_asn1_tag_def)
  define c where "c = unat b div 32"
  have c: "c < 8" unfolding c_def using unat_u8_less [of b] by (simp add: less_mult_imp_div_less)
  have b_split: "unat b = c * 32 + unat b mod 32" unfolding c_def by simp
  define m where "m = (if ucast (b AND 0x1F) = (0x1F :: u32)
    then attempt (parse_base128_integer bs') (\<lambda>v cbs.
           if ucast CBS_ASN1_TAG_NUMBER_MASK < v \<or> v < 0x1F then (None, cbs)
           else (Some (ucast v :: u32), cbs))
    else (Some (ucast (b AND 0x1F)), bs'))"
  have eq: "parse_asn1_tag bs = attempt m (\<lambda>tag_number cbs.
      let tag = push_bit 29 (of_nat c) OR tag_number
      in if tag AND NOT CBS_ASN1_CONSTRUCTED = 0 then (None, cbs) else (Some tag, cbs))"
    unfolding parse_asn1_tag_def bs CBS_get_u8_simps attempt_Some m_def c_def
    by (simp only: Let_def tag_byte_class)
  from assms obtain num where m: "m = (Some num, rest)"
    and tag: "tag = push_bit 29 (of_nat c) OR num" and v: "tag AND NOT CBS_ASN1_CONSTRUCTED \<noteq> 0"
    unfolding eq by (auto simp: attempt_eq_Some Let_def split: if_splits)
  show ?thesis
  proof (cases "ucast (b AND 0x1F) = (0x1F :: u32)")
    case False
    then have num: "num = ucast (b AND 0x1F)" "rest = bs'" using m by (auto simp: m_def)
    have n: "unat num = unat b mod 32" using num(1) low5 by simp
    have "unat num \<noteq> 31" using False num(1) word_eq_by_unat [of num "0x1F"] by auto
    moreover have "unat num < 32" unfolding n by simp
    ultimately have n31: "unat num < 31" by linarith
    then have t: "unat tag = c * 2 ^ 29 + unat num" unfolding tag using c by (intro unat_tag_or) simp_all
    have "tag_class tag = c" "tag_num tag = unat num"
      using n31 by (simp_all add: tag_class_def tag_num_def t)
    moreover have "of_nat (c * 32 + unat num) = b"
      unfolding n b_split [symmetric] by simp
    ultimately show ?thesis using v n31 num(2) by (simp add: der_tag_def valid_tag_def bs)
  next
    case True
    with m obtain w where w: "parse_base128_integer bs' = (Some w, rest)"
      "\<not> (ucast CBS_ASN1_TAG_NUMBER_MASK < w)" "\<not> w < 0x1F" "num = ucast w"
      by (auto simp: m_def attempt_eq_Some split: if_splits)
    have wr: "unat w < 2 ^ 29" "31 \<le> unat w"
      using w(2,3) by (simp_all add: word_less_nat_alt tag_mask not_less)
    have n: "unat num = unat w" unfolding w(4) using wr by (simp add: unat_ucast_mod)
    have t: "unat tag = c * 2 ^ 29 + unat num" unfolding tag using c wr n by (intro unat_tag_or) simp_all
    have tc: "tag_class tag = c" and tn: "tag_num tag = unat w"
      using wr n by (simp_all add: tag_class_def tag_num_def t)
    have "unat b mod 32 = 31" using arg_cong [OF True, of unat] unfolding low5 by simp
    then have "of_nat (c * 32 + 31) = (of_nat (unat b) :: u8)" using b_split by simp
    then have "of_nat (c * 32 + 31) = b" by simp
    then show ?thesis using parse_base128_integer_sound [OF w(1)] wr v
      by (simp add: der_tag_def valid_tag_def bs tc tn)
  qed
qed


subsection \<open>Length octets and elements\<close>

definition der_len_len :: "nat \<Rightarrow> nat" where
  "der_len_len n = (if n < 2 ^ 8 then 1 else if n < 2 ^ 16 then 2 else if n < 2 ^ 24 then 3 else 4)"

definition der_length :: "nat \<Rightarrow> u8 list" where
  "der_length n =
     (if n < 128 then [of_nat n]
      else of_nat (128 + der_len_len n) # be_bytes (der_len_len n) n)"

definition der_header :: "u32 \<Rightarrow> nat \<Rightarrow> u8 list" where
  "der_header tag n = der_tag tag @ der_length n"

definition der_element :: "u32 \<Rightarrow> u8 list \<Rightarrow> u8 list" where
  "der_element tag c = der_header tag (length c) @ c"

definition valid_element :: "u32 \<times> u8 list \<Rightarrow> bool" where
  "valid_element = (\<lambda>(tag, c). valid_tag tag \<and> length c < 2 ^ 32)"

lemma der_len_len_bounds:
  assumes "n < 2 ^ 32"
  shows "der_len_len n \<in> {1, 2, 3, 4}" "n < 256 ^ der_len_len n"
    "128 \<le> n \<Longrightarrow> n div 256 ^ (der_len_len n - 1) \<noteq> 0"
  using assms by (auto simp: der_len_len_def div_eq_0_iff)

lemma der_len_len_unique:
  assumes "k \<in> {1, 2, 3, 4}" "n < 256 ^ k" "n div 256 ^ (k - 1) \<noteq> 0"
  shows "der_len_len n = k"
  using assms by (auto simp: der_len_len_def div_eq_0_iff)

lemma length_der_tag: "1 \<le> length (der_tag tag) \<and> length (der_tag tag) \<le> 11"
proof -
  have "tag_num tag < 2 ^ 64" using tag_split(2) [of tag] by simp
  then have "length (base128 (tag_num tag)) \<le> 10" by (rule base128_length_u64)
  then show ?thesis by (simp add: der_tag_def)
qed

lemma CBS_len_diff: "CBS_len (pre @ rest) - CBS_len rest = of_nat (length pre)"
  by (simp add: CBS_len_def)

lemma CBS_get_bytes_append: "unat n = length bs \<Longrightarrow> CBS_get_bytes (bs @ rest) n = (Some bs, rest)"
  by (simp add: CBS_get_bytes_def cbs_get_append)

lemma element_der:
  assumes "valid_tag tag" "length c < 2 ^ 32"
  shows "cbs_get_any_asn1_element False (der_element tag c @ rest) =
    (Some (der_element tag c, tag, of_nat (length (der_header tag (length c))), False, False), rest)"
proof -
  let ?n = "length c" and ?h = "length (der_tag tag)"
  let ?all = "der_element tag c @ rest"
  have h: "1 \<le> ?h" "?h \<le> 11" using length_der_tag [of tag] by auto
  have tag: "parse_asn1_tag ?all = (Some tag, der_length ?n @ c @ rest)"
    using parse_asn1_tag_der [OF assms(1)] by (simp add: der_element_def der_header_def)
  show ?thesis
  proof (cases "?n < 128")
    case True
    let ?b = "of_nat ?n :: u8"
    have b: "unat ?b = ?n" using True by (intro unat_of_nat_id) simp
    then have b80: "?b AND 0x80 = 0" using True by (simp only: u8_msb)
    have "der_length ?n @ c @ rest = ?b # (c @ rest)" using True by (simp add: der_length_def)
    then have get: "CBS_get_u8 (der_length ?n @ c @ rest) = (Some ?b, c @ rest)" by simp
    have all: "?all = (der_tag tag @ [?b]) @ (c @ rest)"
      using True by (simp add: der_element_def der_header_def der_length_def)
    have hl: "CBS_len ?all - CBS_len (c @ rest) = of_nat (?h + 1)"
      unfolding all CBS_len_diff by simp
    have "unat (ucast ?b :: u64) = ?n" unfolding unat_ucast_u8 by (rule b)
    moreover have "unat (of_nat (?h + 1) :: u64) = ?h + 1" using h by (intro unat_of_nat_u64) simp
    ultimately have len: "unat (ucast ?b + of_nat (?h + 1) :: u64) = length (der_element tag c)"
      using h True by (simp only: unat_word_ariths)
        (simp add: der_element_def der_header_def der_length_def)
    have "length (der_header tag ?n) = ?h + 1" using True by (simp add: der_header_def der_length_def)
    then show ?thesis
      unfolding cbs_get_any_asn1_element_def tag prod.case option.case get Let_def hl
      using b80 by (simp only: simp_thms if_True CBS_get_bytes_append [OF len] attempt_Some)
  next
    case False
    let ?k = "der_len_len ?n"
    let ?b = "of_nat (128 + ?k) :: u8" and ?bs = "be_bytes ?k ?n"
    note k = der_len_len_bounds [OF assms(2)]
    have k4: "1 \<le> ?k" "?k \<le> 4" using k(1) by auto
    have b: "unat ?b = 128 + ?k" using k4 by (intro unat_of_nat_id) simp
    then have b80: "?b AND 0x80 \<noteq> 0" using u8_msb [of ?b] by simp
    define nb where "nb = (ucast (?b AND 0x7F) :: u64)"
    have nb: "unat nb = ?k" unfolding nb_def using b k4 by simp
    have "der_length ?n @ c @ rest = ?b # (?bs @ c @ rest)" using False by (simp add: der_length_def)
    then have get: "CBS_get_u8 (der_length ?n @ c @ rest) = (Some ?b, ?bs @ c @ rest)" by simp
    have all: "?all = (der_tag tag @ [?b]) @ (?bs @ c @ rest)"
      using False by (simp add: der_element_def der_header_def der_length_def)
    have hl: "CBS_len ?all - CBS_len (?bs @ c @ rest) = of_nat (?h + 1)"
      unfolding all CBS_len_diff by simp
    have n64: "unat (of_nat ?n :: u64) = ?n" using assms(2) by (intro unat_of_nat_u64) simp
    have "be_val ?bs = ?n" using k(2) by (simp add: be_val_be_bytes)
    then have u: "cbs_get_u (?bs @ c @ rest) nb = (Some (of_nat ?n), c @ rest)"
      using nb k4 n64 by (subst cbs_get_u_eq_Some) auto
    have nbr: "\<not> (nb = 0 \<or> 4 < nb)" using nb k4 by (auto simp: word_less_nat_alt)
    have "(2 :: nat) ^ ((?k - 1) * 8) = 256 ^ (?k - 1)" by (rule two_power_8)
    then have "unat (drop_bit ((?k - 1) * 8) (of_nat ?n :: u64)) = ?n div 256 ^ (?k - 1)"
      by (simp only: unat_drop_bit_div n64)
    then have "drop_bit ((?k - 1) * 8) (of_nat ?n :: u64) \<noteq> 0" using k(3) False by (metis unat_0 not_less)
    moreover have "\<not> (of_nat ?n :: u64) < 128" using n64 False by (simp add: word_less_nat_alt)
    ultimately have canon: "\<not> ((of_nat ?n :: u64) < 128 \<or> drop_bit ((unat nb - 1) * 8) (of_nat ?n :: u64) = 0)"
      unfolding nb by blast
    have h64: "unat (of_nat (?h + 1) :: u64) = ?h + 1" using h by (intro unat_of_nat_u64) simp
    have no_ovf: "\<not> (of_nat ?n + of_nat (?h + 1) + nb < (of_nat ?n :: u64))"
    proof -
      have "unat (of_nat ?n + of_nat (?h + 1) + nb :: u64) = ?n + (?h + 1) + ?k"
        using h k4 assms(2) by (simp only: unat_word_ariths n64 h64 nb) simp
      then show ?thesis using n64 by (simp add: word_less_nat_alt)
    qed
    have hdr: "length (der_header tag ?n) = ?h + 1 + ?k"
      using False by (simp add: der_header_def der_length_def)
    have "unat (of_nat ?n + (of_nat (?h + 1) + nb) :: u64) = ?n + (?h + 1 + ?k)"
      using h k4 assms(2) by (simp only: unat_word_ariths n64 h64 nb) simp
    then have len: "unat (of_nat ?n + (of_nat (?h + 1) + nb) :: u64) = length (der_element tag c)"
      by (simp add: der_element_def hdr)
    have hlen: "of_nat (?h + 1) + nb = (of_nat (length (der_header tag ?n)) :: u64)"
      by (simp only: hdr word_eq_of_nat [OF nb] of_nat_add)
    have "cbs_get_any_asn1_element False ?all = (Some (der_element tag c, tag, of_nat (?h + 1) + nb,
        (of_nat ?n :: u64) < 128 \<or> drop_bit ((unat nb - 1) * 8) (of_nat ?n :: u64) = 0, False), rest)"
      unfolding cbs_get_any_asn1_element_def tag prod.case option.case get Let_def hl nb_def [symmetric] u
      by (simp only: b80 nbr canon no_ovf if_False simp_thms CBS_get_bytes_append [OF len] attempt_Some)
    then show ?thesis using canon by (simp only: hlen)
  qed
qed


lemma append_prefix_length:
  assumes "xs @ ys = zs @ ws" "length zs = length xs + n"
  shows "\<exists>c. zs = xs @ c \<and> length c = n \<and> ys = c @ ws"
proof -
  have "zs = take (length zs) (xs @ ys)" using assms(1) by simp
  then have "zs = xs @ take n ys" using assms(2) by simp
  moreover have "ys = take n ys @ ws"
    using assms calculation by (metis append.assoc append_same_eq same_append_eq)
  ultimately show ?thesis using assms(2) by (intro exI [of _ "take n ys"]) auto
qed

lemma element_der_sound:
  assumes "cbs_get_any_asn1_element False bs = (Some (out, tag, hl, bf, ind), rest)"
  shows "\<exists>c. valid_tag tag \<and> length c < 2 ^ 32 \<and> out = der_element tag c \<and> bs = out @ rest"
proof -
  obtain header where tag: "parse_asn1_tag bs = (Some tag, header)"
    using assms by (auto simp: cbs_get_any_asn1_element_def Let_def attempt_eq_Some
        split: option.splits prod.splits if_splits)
  then have vt: "valid_tag tag" and bs: "bs = der_tag tag @ header"
    using parse_asn1_tag_sound by blast+
  let ?h = "length (der_tag tag)"
  have h: "1 \<le> ?h" "?h \<le> 11" using length_der_tag [of tag] by auto
  obtain b header' where header: "header = b # header'"
    using assms tag by (cases header) (auto simp: cbs_get_any_asn1_element_def)
  then have get: "CBS_get_u8 header = (Some b, header')" by simp
  have bs': "bs = (der_tag tag @ [b]) @ header'" using bs header by simp
  have hl: "CBS_len bs - CBS_len header' = of_nat (?h + 1)"
    unfolding bs' CBS_len_diff by simp
  have h64: "unat (of_nat (?h + 1) :: u64) = ?h + 1" using h by (intro unat_of_nat_u64) simp
  show ?thesis
  proof (cases "b AND 0x80 = 0")
    case True
    then have b: "unat b < 128" using u8_msb by blast
    let ?len = "ucast b + of_nat (?h + 1) :: u64"
    have "CBS_get_bytes bs ?len = (Some out, rest)"
      using assms True unfolding cbs_get_any_asn1_element_def tag prod.case option.case get Let_def hl
      by (auto simp: attempt_eq_Some)
    then have out: "bs = out @ rest" "length out = unat ?len"
      by (auto simp: CBS_get_bytes_def cbs_get_eq_Some)
    have "unat ?len = unat b + (?h + 1)"
      using b h by (simp only: unat_word_ariths h64 unat_ucast_u8) simp
    then have "length out = length (der_tag tag @ [b]) + unat b" using out(2) by simp
    moreover have "(der_tag tag @ [b]) @ header' = out @ rest" using bs' out(1) by simp
    ultimately obtain c where c: "out = (der_tag tag @ [b]) @ c" "length c = unat b"
      using append_prefix_length by blast
    have "der_element tag c = out" using b by (simp add: der_element_def der_header_def der_length_def c)
    moreover have "length c < 2 ^ 32" using b c(2) by simp
    ultimately show ?thesis using vt out(1) by blast
  next
    case False
    then have b: "128 \<le> unat b" using u8_msb [of b] by simp
    define nb where "nb = (ucast (b AND 0x7F) :: u64)"
    have nb: "unat nb = unat b mod 128" unfolding nb_def by simp
    obtain len64 header'' where u: "cbs_get_u header' nb = (Some len64, header'')"
      and nbr: "\<not> (nb = 0 \<or> 4 < nb)"
      and canon: "\<not> (len64 < 128 \<or> drop_bit ((unat nb - 1) * 8) len64 = 0)"
      and g: "CBS_get_bytes bs (len64 + (of_nat (?h + 1) + nb)) = (Some out, rest)"
      using assms False unfolding cbs_get_any_asn1_element_def tag prod.case option.case get Let_def hl
        nb_def [symmetric]
      by (auto simp: attempt_eq_Some split: option.splits prod.splits if_splits)
    have k: "1 \<le> unat nb" "unat nb \<le> 4"
      using nbr unat_gt_0 [of nb] by (auto simp: word_less_nat_alt simp del: unat_gt_0)
    let ?k = "unat nb" and ?n = "unat len64"
    have "?k \<le> 8" using k by simp
    from u [unfolded cbs_get_u_eq_Some [OF this]] obtain lbs where
      l: "header' = lbs @ header''" "length lbs = ?k" "?n = be_val lbs" by blast
    have n_less: "?n < 256 ^ ?k" using be_val_less [of lbs] l by simp
    also have "\<dots> \<le> 256 ^ 4" using k by (intro power_increasing) simp_all
    finally have n32: "?n < 2 ^ 32" by simp
    have n128: "128 \<le> ?n" using canon by (simp add: word_less_nat_alt not_less)
    have "(2 :: nat) ^ ((?k - 1) * 8) = 256 ^ (?k - 1)" by (rule two_power_8)
    then have "unat (drop_bit ((?k - 1) * 8) len64) = ?n div 256 ^ (?k - 1)"
      by (simp only: unat_drop_bit_div)
    moreover have "drop_bit ((?k - 1) * 8) len64 \<noteq> 0" using canon by blast
    ultimately have top: "?n div 256 ^ (?k - 1) \<noteq> 0" by (metis unat_0_iff)
    have "?k \<in> {1, 2, 3, 4}" using k by auto
    then have kk: "der_len_len ?n = ?k" using n_less top by (rule der_len_len_unique)
    have bb: "of_nat (128 + ?k) = b"
      using high_half_mod [OF b unat_u8_less] unfolding nb by (metis add.commute of_nat_unat ucast_id)
    have dl: "der_length ?n = b # lbs"
      using n128 kk bb be_bytes_be_val [of lbs] l by (simp add: der_length_def)
    have "unat (len64 + (of_nat (?h + 1) + nb)) = ?n + (?h + 1 + ?k)"
      using h k n32 by (simp only: unat_word_ariths h64) simp
    then have out: "bs = out @ rest" "length out = ?n + (?h + 1 + ?k)"
      using g by (auto simp: CBS_get_bytes_def cbs_get_eq_Some)
    have "length out = length (der_header tag ?n) + ?n"
      using out(2) l(2) by (simp add: der_header_def dl)
    moreover have "der_header tag ?n @ header'' = out @ rest"
      using bs' out(1) l(1) by (simp add: der_header_def dl)
    ultimately obtain c where c: "out = der_header tag ?n @ c" "length c = ?n"
      using append_prefix_length by blast
    have "der_element tag c = out" using c by (simp add: der_element_def)
    moreover have "length c < 2 ^ 32" using n32 c(2) by simp
    ultimately show ?thesis using vt out(1) by blast
  qed
qed

lemma CBS_get_any_asn1_element_der:
  assumes "valid_tag tag" "length c < 2 ^ 32"
  shows "CBS_get_any_asn1_element (der_element tag c @ rest) =
    (Some (der_element tag c, tag, of_nat (length (der_header tag (length c)))), rest)"
  using element_der [OF assms] by (simp add: CBS_get_any_asn1_element_def)

lemma length_der_length: "length (der_length n) \<le> 5"
  by (simp add: der_length_def der_len_len_def)

lemma CBS_skip_header:
  "CBS_skip (der_element tag c) (of_nat (length (der_header tag (length c)))) = (Some (), c)"
proof -
  have "length (der_header tag (length c)) < 2 ^ 64"
    using length_der_tag [of tag] length_der_length [of "length c"] by (simp add: der_header_def)
  then have "unat (of_nat (length (der_header tag (length c))) :: u64) = length (der_header tag (length c))"
    by (rule unat_of_nat_u64)
  then show ?thesis
    unfolding der_element_def CBS_skip_def by (simp add: cbs_get_append)
qed

lemma CBS_get_any_asn1_der:
  "valid_tag tag \<Longrightarrow> length c < 2 ^ 32 \<Longrightarrow>
     CBS_get_any_asn1 (der_element tag c @ rest) = (Some (c, tag), rest)"
  by (simp add: CBS_get_any_asn1_def CBS_get_any_asn1_element_der CBS_skip_header)

lemma CBS_get_any_asn1_element_sound:
  assumes "CBS_get_any_asn1_element bs = (Some (out, tag, hl), rest)"
  shows "\<exists>c. valid_tag tag \<and> length c < 2 ^ 32 \<and> out = der_element tag c \<and> bs = out @ rest \<and>
    hl = of_nat (length (der_header tag (length c)))"
proof -
  from assms obtain bf ind where e: "cbs_get_any_asn1_element False bs = (Some (out, tag, hl, bf, ind), rest)"
    by (auto simp: CBS_get_any_asn1_element_def attempt_eq_Some)
  from element_der_sound [OF this] obtain c where
    c: "valid_tag tag" "length c < 2 ^ 32" "out = der_element tag c" "bs = out @ rest" by blast
  from element_der [OF c(1,2), of rest] e c(3,4)
  have "hl = of_nat (length (der_header tag (length c)))" by simp
  with c show ?thesis by blast
qed

lemma CBS_get_any_asn1_sound:
  assumes "CBS_get_any_asn1 bs = (Some (c, tag), rest)"
  shows "valid_tag tag \<and> length c < 2 ^ 32 \<and> bs = der_element tag c @ rest"
proof -
  obtain r s where rs: "CBS_get_any_asn1_element bs = (r, s)" by (cases "CBS_get_any_asn1_element bs")
  with assms obtain out tag' hl where r: "r = Some (out, tag', hl)"
    by (cases r) (auto simp: CBS_get_any_asn1_def)
  have e: "CBS_get_any_asn1_element bs = (Some (out, tag', hl), s)" using rs r by simp
  from CBS_get_any_asn1_element_sound [OF this] obtain c' where
    c': "valid_tag tag'" "length c' < 2 ^ 32" "out = der_element tag' c'" "bs = out @ s"
      "hl = of_nat (length (der_header tag' (length c')))" by blast
  with assms e have "tag' = tag" "c' = c" "s = rest" by (simp_all add: CBS_get_any_asn1_def CBS_skip_header)
  with c' show ?thesis by blast
qed

lemma CBS_get_asn1_der:
  "valid_tag tag \<Longrightarrow> length c < 2 ^ 32 \<Longrightarrow>
     CBS_get_asn1 (der_element tag c @ rest) tag = (Some c, rest)"
  by (simp add: CBS_get_asn1_def cbs_get_asn1_def CBS_get_any_asn1_element_der CBS_skip_header)

lemma CBS_get_asn1_sound:
  assumes "CBS_get_asn1 bs tag = (Some c, rest)"
  shows "valid_tag tag \<and> length c < 2 ^ 32 \<and> bs = der_element tag c @ rest"
proof -
  have "CBS_get_any_asn1 bs = (Some (c, tag), rest)"
  proof (cases "CBS_get_any_asn1_element bs")
    case (Pair r s)
    with assms show ?thesis
      by (cases r) (auto simp: CBS_get_any_asn1_def CBS_get_asn1_def cbs_get_asn1_def
          split: option.splits prod.splits if_splits)
  qed
  then show ?thesis by (rule CBS_get_any_asn1_sound)
qed

lemma der_element_nonempty: "2 \<le> length (der_element tag c)"
  using length_der_tag [of tag] by (simp add: der_element_def der_header_def der_length_def)

lemma CBS_get_any_asn1_element_progress:
  assumes "CBS_get_any_asn1_element bs = (Some r, rest)"
  shows "length rest < length bs"
proof -
  obtain out tag hl where r: "r = (out, tag, hl)" by (cases r) auto
  from CBS_get_any_asn1_element_sound [OF assms [unfolded r]] obtain c where
    "out = der_element tag c" "bs = out @ rest" by blast
  then show ?thesis using der_element_nonempty [of tag c] by (cases "der_element tag c") auto
qed

end
