(* ===== verification/Cbb_Contract.thy ===== *)
theory Cbb_Contract
  imports Cbb Der
begin

text \<open>
  What the writers of \<open>Cbb\<close> promise.  \<open>cbb_ok\<close> is the invariant of the builder, \<open>cbb_room s n\<close>
  says that \<open>n\<close> more bytes can be stored (they fit a fixed buffer, or no allocation fails), and
  \<open>cbb_adds d F bs\<close> is the contract of a writer \<open>F\<close> called on the \<open>CBB\<close> at depth \<open>d\<close>: it
  appends exactly \<open>bs\<close>, keeps the invariant and the open children, and fails only when there
  is no room.  Contracts compose, and closing a child turns the contract of its contents into
  the contract of the length-prefixed contents.
\<close>

subsection \<open>Invariant and contract\<close>

definition child_start :: "cbb_child \<Rightarrow> nat" where
  "child_start c = unat (cc_offset c) + unat (cc_pending_len_len c)"

definition cbb_ok :: "cbb \<Rightarrow> bool" where
  "cbb_ok s \<longleftrightarrow> \<not> cb_error s \<and> length (cb_buf s) = unat (cb_cap s) \<and> cb_len s \<le> cb_cap s \<and>
     (\<forall>c \<in> set (cb_children s). child_start c \<le> unat (cb_len s))"

definition cbb_bytes :: "cbb \<Rightarrow> u8 list" where
  "cbb_bytes s = take (unat (cb_len s)) (cb_buf s)"

definition cbb_room :: "cbb \<Rightarrow> nat \<Rightarrow> bool" where
  "cbb_room s n \<longleftrightarrow> unat (cb_len s) + n < 2 ^ 64 \<and>
     (if cb_can_resize s then \<forall>i \<ge> cb_calls s. cb_alloc s i \<noteq> None
      else unat (cb_len s) + n \<le> unat (cb_cap s))"

text \<open>\<open>cbb_grown s s' bs\<close>: \<open>s'\<close> is \<open>s\<close> with \<open>bs\<close> appended (the open children may differ).\<close>

definition cbb_grown :: "cbb \<Rightarrow> cbb \<Rightarrow> u8 list \<Rightarrow> bool" where
  "cbb_grown s s' bs \<longleftrightarrow> cbb_ok s' \<and> cbb_bytes s' = cbb_bytes s @ bs \<and>
     cb_can_resize s' = cb_can_resize s \<and> cb_alloc s' = cb_alloc s \<and> cb_calls s \<le> cb_calls s' \<and>
     (\<not> cb_can_resize s \<longrightarrow> cb_cap s' = cb_cap s)"

definition cbb_adds :: "nat \<Rightarrow> unit builder \<Rightarrow> u8 list \<Rightarrow> bool" where
  "cbb_adds d F bs \<longleftrightarrow> (\<forall>s. cbb_ok s \<and> length (cb_children s) = d \<longrightarrow>
     (case F s of
        (None, s') \<Rightarrow> \<not> cbb_room s (length bs)
      | (Some _, s') \<Rightarrow> cbb_grown s s' bs \<and> cb_children s' = cb_children s))"

lemma cbb_ok_len: "cbb_ok s \<Longrightarrow> unat (cb_len s) \<le> length (cb_buf s)"
  by (simp add: cbb_ok_def word_le_nat_alt)

lemma length_cbb_bytes: "cbb_ok s \<Longrightarrow> length (cbb_bytes s) = unat (cb_len s)"
  using cbb_ok_len by (simp add: cbb_bytes_def)

lemma cbb_grown_len: "cbb_ok s \<Longrightarrow> cbb_grown s s' bs \<Longrightarrow> unat (cb_len s') = unat (cb_len s) + length bs"
  using length_cbb_bytes [of s] length_cbb_bytes [of s'] by (simp add: cbb_grown_def)

lemma cbb_grown_trans:
  "cbb_grown s t a \<Longrightarrow> cbb_grown t u b \<Longrightarrow> cbb_grown s u (a @ b)"
  by (auto simp: cbb_grown_def)

lemma cbb_grown_room:
  "cbb_ok s \<Longrightarrow> cbb_grown s s' bs \<Longrightarrow> cbb_room s (length bs + n) \<Longrightarrow> cbb_room s' n"
  using cbb_grown_len [of s s' bs] by (auto simp: cbb_room_def cbb_grown_def add.assoc)

lemma cbb_grown_refl: "cbb_ok s \<Longrightarrow> cbb_grown s s []"
  by (simp add: cbb_grown_def)

lemma cbb_room_mono: "cbb_room s n \<Longrightarrow> m \<le> n \<Longrightarrow> cbb_room s m"
  by (auto simp: cbb_room_def split: if_splits)

lemma cbb_addsI:
  assumes "\<And>s s'. cbb_ok s \<Longrightarrow> length (cb_children s) = d \<Longrightarrow> F s = (None, s') \<Longrightarrow> \<not> cbb_room s (length bs)"
    and "\<And>s u s'. cbb_ok s \<Longrightarrow> length (cb_children s) = d \<Longrightarrow> F s = (Some u, s') \<Longrightarrow>
           cbb_grown s s' bs \<and> cb_children s' = cb_children s"
  shows "cbb_adds d F bs"
  unfolding cbb_adds_def using assms by (auto split: prod.splits option.splits)

lemma cbb_adds_Some:
  "cbb_adds d F bs \<Longrightarrow> cbb_ok s \<Longrightarrow> length (cb_children s) = d \<Longrightarrow> F s = (Some u, s') \<Longrightarrow>
     cbb_grown s s' bs \<and> cb_children s' = cb_children s"
  by (fastforce simp: cbb_adds_def)

lemma cbb_adds_None:
  "cbb_adds d F bs \<Longrightarrow> cbb_ok s \<Longrightarrow> length (cb_children s) = d \<Longrightarrow> F s = (None, s') \<Longrightarrow>
     \<not> cbb_room s (length bs)"
  by (fastforce simp: cbb_adds_def)

lemma cbb_adds_skip: "cbb_adds d (\<lambda>s. (Some (), s)) []"
  by (rule cbb_addsI) (auto simp: cbb_grown_refl)

lemma cbb_adds_attempt:
  assumes F: "cbb_adds d F a" and G: "cbb_adds d G b"
  shows "cbb_adds d (\<lambda>s. attempt (F s) (\<lambda>_ s. G s)) (a @ b)"
proof (rule cbb_addsI)
  fix s s'
  assume s: "cbb_ok s" "length (cb_children s) = d" and r: "attempt (F s) (\<lambda>_ s. G s) = (None, s')"
  from r consider "F s = (None, s')" | u t where "F s = (Some u, t)" "G t = (None, s')"
    by (auto simp: attempt_eq_None)
  then show "\<not> cbb_room s (length (a @ b))"
  proof cases
    case 1
    with cbb_adds_None [OF F s] have "\<not> cbb_room s (length a)" by blast
    then show ?thesis using cbb_room_mono [of s "length (a @ b)" "length a"] by auto
  next
    case 2
    from cbb_adds_Some [OF F s 2(1)] have t: "cbb_grown s t a" "cb_children t = cb_children s" by auto
    then have "\<not> cbb_room t (length b)"
      using cbb_adds_None [OF G _ _ 2(2)] s by (simp add: cbb_grown_def)
    then show ?thesis using cbb_grown_room [OF s(1) t(1)] by auto
  qed
next
  fix s u s'
  assume s: "cbb_ok s" "length (cb_children s) = d" and r: "attempt (F s) (\<lambda>_ s. G s) = (Some u, s')"
  then obtain v t where t: "F s = (Some v, t)" "G t = (Some u, s')" by (auto simp: attempt_eq_Some)
  from cbb_adds_Some [OF F s t(1)] have 1: "cbb_grown s t a" "cb_children t = cb_children s" by auto
  then have "cbb_grown t s' b \<and> cb_children s' = cb_children t"
    using cbb_adds_Some [OF G _ _ t(2)] s by (simp add: cbb_grown_def)
  with 1 cbb_grown_trans show "cbb_grown s s' (a @ b) \<and> cb_children s' = cb_children s" by auto
qed

lemma CBB_flush_idle: "cbb_ok s \<Longrightarrow> length (cb_children s) \<le> d \<Longrightarrow> CBB_flush d s = (Some (), s)"
  by (subst CBB_flush.simps) (simp add: cbb_ok_def)

subsection \<open>Growing the buffer\<close>

lemma cbb_buffer_add_None:
  assumes "cbb_ok s" "cbb_buffer_add n s = (None, s')"
  shows "\<not> cbb_room s (unat n)"
proof
  assume room: "cbb_room s (unat n)"
  then have sum: "unat (cb_len s + n) = unat (cb_len s) + unat n"
    by (simp add: cbb_room_def unat_word_ariths)
  show False
    using assms(2) room
    by (auto simp: cbb_buffer_add_def cbb_buffer_reserve_def Let_def attempt_eq_None cbb_room_def
        word_less_nat_alt sum split: if_splits option.splits)
qed

lemma cbb_buffer_add_Some:
  assumes ok: "cbb_ok s" and r: "cbb_buffer_add n s = (Some out, s')"
  shows "out = cb_len s \<and> unat (cb_len s') = unat (cb_len s) + unat n \<and>
    length (cb_buf s') = unat (cb_cap s') \<and> cb_len s' \<le> cb_cap s' \<and>
    take (unat (cb_len s)) (cb_buf s') = cbb_bytes s \<and> \<not> cb_error s' \<and>
    cb_children s' = cb_children s \<and> cb_can_resize s' = cb_can_resize s \<and> cb_alloc s' = cb_alloc s \<and>
    cb_calls s \<le> cb_calls s' \<and> (\<not> cb_can_resize s \<longrightarrow> cb_cap s' = cb_cap s)"
proof -
  have nov: "\<not> cb_len s + n < cb_len s"
    using r by (auto simp: cbb_buffer_add_def cbb_buffer_reserve_def Let_def attempt_eq_Some split: if_splits)
  then have sum: "unat (cb_len s + n) = unat (cb_len s) + unat n"
    using unat_u64_less [of "cb_len s"] unat_u64_less [of n]
    by (simp add: word_less_nat_alt unat_plus_if' split: if_splits)
  have len: "unat (cb_len s) \<le> unat (cb_cap s)" "length (cb_buf s) = unat (cb_cap s)" "\<not> cb_error s"
    using ok by (simp_all add: cbb_ok_def word_le_nat_alt)
  show ?thesis
  proof (cases "cb_cap s < cb_len s + n")
    case False
    then have "cbb_buffer_add n s = (Some (cb_len s), s\<lparr>cb_len := cb_len s + n\<rparr>)"
      using nov by (simp add: cbb_buffer_add_def cbb_buffer_reserve_def Let_def)
    with r len sum False show ?thesis by (auto simp: cbb_bytes_def)
  next
    case True
    let ?cap = "if cb_cap s * 2 < cb_cap s \<or> cb_cap s * 2 < cb_len s + n then cb_len s + n else cb_cap s * 2"
    have cap: "cb_cap s < ?cap" "cb_len s + n \<le> ?cap" using True by auto
    from r True nov obtain junk where j: "cb_can_resize s" "out = cb_len s"
      "s' = s\<lparr>cb_calls := cb_calls s + 1, cb_buf := cb_buf s @ map junk [unat (cb_cap s)..<unat ?cap],
              cb_cap := ?cap, cb_len := cb_len s + n\<rparr>"
      unfolding cbb_buffer_add_def cbb_buffer_reserve_def Let_def
      by (auto simp only: attempt_eq_Some if_False if_True simp_thms split: if_splits option.splits) auto
    have "unat (cb_cap s) \<le> unat ?cap" using cap(1) by (simp only: word_less_nat_alt)
    then have "length (cb_buf s @ map junk [unat (cb_cap s)..<unat ?cap]) = unat ?cap"
      using len by simp
    then show ?thesis using j len sum cap(2)
      by (simp only: cbb.simps cbb_bytes_def) (simp add: cbb_bytes_def)
  qed
qed

lemma cbb_store_grown:
  assumes ok: "cbb_ok s" and r: "cbb_buffer_add n s = (Some out, s')" and n: "unat n = length bs"
  shows "cbb_grown s (cbb_store out bs s') bs \<and> cb_children (cbb_store out bs s') = cb_children s"
proof -
  note f = cbb_buffer_add_Some [OF ok r]
  let ?l = "unat (cb_len s)"
  have len: "?l + length bs \<le> length (cb_buf s')" using f n by (simp add: word_le_nat_alt)
  let ?b = "take ?l (cb_buf s') @ bs @ drop (?l + length bs) (cb_buf s')"
  have "length ?b = length (cb_buf s')" using len by simp
  moreover have "take (?l + length bs) ?b = cbb_bytes s @ bs"
    using f len length_cbb_bytes [OF ok] by simp
  moreover have "\<forall>c \<in> set (cb_children s). child_start c \<le> ?l" using ok by (simp add: cbb_ok_def)
  ultimately show ?thesis using f n
    by (auto simp: cbb_grown_def cbb_ok_def cbb_store_def cbb_bytes_def intro: trans_le_add1)
qed

lemma put_be_eq:
  "off + k \<le> length buf \<Longrightarrow>
     put_be buf off k v = (take off buf @ be_bytes k (unat v) @ drop (off + k) buf, drop_bit (8 * k) v)"
proof (induction k arbitrary: buf v)
  case 0
  then show ?case by (simp add: be_bytes_def)
next
  case (Suc k)
  let ?buf = "buf[off + k := ucast v]"
  have "off + k \<le> length ?buf" using Suc.prems by simp
  from Suc.IH [OF this, of "drop_bit 8 v"]
  have "put_be buf off (Suc k) v =
      (take off ?buf @ be_bytes k (unat (drop_bit 8 v)) @ drop (off + k) ?buf, drop_bit (8 * k) (drop_bit 8 v))"
    by simp
  moreover have "drop (off + k) ?buf = ucast v # drop (off + Suc k) buf"
    using Suc.prems by (simp add: drop_update_swap Cons_nth_drop_Suc [symmetric])
  moreover have "take off ?buf = take off buf" by simp
  moreover have "be_bytes (Suc k) (unat v) = be_bytes k (unat (drop_bit 8 v)) @ [ucast v]"
    using ucast_byte [of 0 v] by (simp add: be_bytes_Suc unat_drop_bit_div)
  ultimately show ?case by (simp add: drop_bit_drop_bit add.commute)
qed


subsection \<open>Bytes and integers\<close>

lemma CBB_add_space_idle:
  "cbb_ok s \<Longrightarrow> length (cb_children s) = d \<Longrightarrow> CBB_add_space d n s = cbb_buffer_add n s"
  by (simp add: CBB_add_space_def CBB_flush_idle)

lemma cbb_room_u64: "cbb_room s n \<Longrightarrow> n < 2 ^ 64"
  by (simp add: cbb_room_def)

lemma adds_bytes [intro]:
  assumes "length bs < 2 ^ 64"
  shows "cbb_adds d (CBB_add_bytes d bs) bs"
proof (rule cbb_addsI)
  have n: "unat (of_nat (length bs) :: u64) = length bs" using assms by (rule unat_of_nat_u64)
  fix s s'
  assume s: "cbb_ok s" "length (cb_children s) = d"
  note space = CBB_add_space_idle [OF s]
  { assume "CBB_add_bytes d bs s = (None, s')"
    then have "cbb_buffer_add (of_nat (length bs)) s = (None, s')"
      by (simp add: CBB_add_bytes_def space attempt_eq_None)
    from cbb_buffer_add_None [OF s(1) this] show "\<not> cbb_room s (length bs)" unfolding n . }
  { fix u assume "CBB_add_bytes d bs s = (Some u, s')"
    then obtain out t where "cbb_buffer_add (of_nat (length bs)) s = (Some out, t)" "s' = cbb_store out bs t"
      by (auto simp: CBB_add_bytes_def space attempt_eq_Some)
    with cbb_store_grown [OF s(1) _ n] show "cbb_grown s s' bs \<and> cb_children s' = cb_children s" by blast }
qed

lemma adds_zeros: "cbb_adds d (CBB_add_zeros d n) (replicate (unat n) 0)"
proof -
  have "CBB_add_zeros d n = CBB_add_bytes d (replicate (unat n) 0)"
    by (rule ext) (simp add: CBB_add_zeros_def CBB_add_bytes_def)
  then show ?thesis using adds_bytes [of "replicate (unat n) 0" d] unat_u64_less [of n] by simp
qed

lemma adds_u:
  assumes "k \<le> 8" "unat v < 256 ^ k"
  shows "cbb_adds d (\<lambda>s. cbb_add_u d v k s) (be_bytes k (unat v))"
proof (rule cbb_addsI)
  have n: "unat (of_nat k :: u64) = length (be_bytes k (unat v))"
    using assms by (simp add: unat_of_nat_u64)
  have rest: "drop_bit (8 * k) v = 0"
  proof -
    have "unat (drop_bit (8 * k) v) = unat v div 2 ^ (k * 8)" by (simp only: unat_drop_bit_div mult.commute)
    also have "\<dots> = 0" using assms(2) by (simp only: two_power_8 div_less)
    finally show ?thesis by (simp only: unat_0_iff)
  qed
  fix s s'
  assume s: "cbb_ok s" "length (cb_children s) = d"
  note space = CBB_add_space_idle [OF s]
  have eq: "cbb_add_u d v k s = attempt (cbb_buffer_add (of_nat k) s)
      (\<lambda>out t. (Some (), cbb_store out (be_bytes k (unat v)) t))"
  proof (cases "cbb_buffer_add (of_nat k) s")
    case (Pair r t)
    show ?thesis
    proof (cases r)
      case None
      then show ?thesis by (simp add: cbb_add_u_def space Pair)
    next
      case (Some out)
      note f = cbb_buffer_add_Some [OF s(1) Pair [unfolded Some]]
      have "unat out + k \<le> length (cb_buf t)" using f n by (simp add: word_le_nat_alt)
      from put_be_eq [OF this, of v] Some rest show ?thesis
        by (simp add: cbb_add_u_def space Pair cbb_store_def)
    qed
  qed
  { assume "cbb_add_u d v k s = (None, s')"
    then have "cbb_buffer_add (of_nat k) s = (None, s')" by (simp add: eq attempt_eq_None)
    from cbb_buffer_add_None [OF s(1) this] show "\<not> cbb_room s (length (be_bytes k (unat v)))"
      unfolding n . }
  { fix u assume "cbb_add_u d v k s = (Some u, s')"
    then obtain out t where "cbb_buffer_add (of_nat k) s = (Some out, t)"
      "s' = cbb_store out (be_bytes k (unat v)) t"
      by (auto simp: eq attempt_eq_Some)
    with cbb_store_grown [OF s(1) _ n]
    show "cbb_grown s s' (be_bytes k (unat v)) \<and> cb_children s' = cb_children s" by blast }
qed

lemma adds_u8 [intro]: "cbb_adds d (CBB_add_u8 d b) [b]"
proof -
  have "be_bytes 1 (unat (ucast b :: u64)) = [b]"
    by (simp add: be_bytes_def unat_ucast_u8 mod_less)
  with adds_u [of 1 "ucast b" d] show ?thesis by (simp add: CBB_add_u8_def)
qed

lemma adds_u16: "cbb_adds d (CBB_add_u16 d w) (be_bytes 2 (unat w))"
  using adds_u [of 2 "ucast w" d] unat_less_2p [of w] by (simp add: CBB_add_u16_def)

lemma adds_u24: "unat w < 2 ^ 24 \<Longrightarrow> cbb_adds d (CBB_add_u24 d w) (be_bytes 3 (unat w))"
  using adds_u [of 3 "ucast w" d] by (simp add: CBB_add_u24_def)

lemma adds_u32: "cbb_adds d (CBB_add_u32 d w) (be_bytes 4 (unat w))"
  using adds_u [of 4 "ucast w" d] unat_less_2p [of w] by (simp add: CBB_add_u32_def)

lemma adds_u64: "cbb_adds d (CBB_add_u64 d w) (be_bytes 8 (unat w))"
  using adds_u [of 8 w d] unat_u64_less [of w] by (simp add: CBB_add_u64_def)

text \<open>A writer that fails is the end: a contract step by step.\<close>

lemma adds_Cons_u8:
  "cbb_adds d F bs \<Longrightarrow> cbb_adds d (\<lambda>s. attempt (CBB_add_u8 d b s) (\<lambda>_ s. F s)) (b # bs)"
  using cbb_adds_attempt [OF adds_u8] by simp

subsection \<open>Base-128 integers and identifier octets\<close>

lemma base128_len_len_eq: "base128_len_len v = length (hi128 (unat v))"
proof (induction v rule: base128_len_len.induct)
  case (1 v)
  show ?case
  proof (cases "0 < v")
    case True
    then have "0 < unat v" by (simp add: word_less_nat_alt)
    with 1 True show ?thesis
      by (subst base128_len_len.simps) (simp add: hi128_pos unat_drop_bit_div)
  next
    case False
    then have "unat v = 0" by (simp add: word_less_nat_alt)
    then show ?thesis using False by (subst base128_len_len.simps) simp
  qed
qed

text \<open>The bytes the loop writes for the indices below \<open>i\<close>.\<close>

fun base128_tail :: "nat \<Rightarrow> nat \<Rightarrow> u8 list" where
  "base128_tail v 0 = []"
| "base128_tail v (Suc i) =
     of_nat (v div 128 ^ i mod 128 + (if i = 0 then 0 else 128)) # base128_tail v i"

lemma base128_tail_snoc:
  "base128_tail v (Suc (Suc i)) = butlast (base128_tail (v div 128) (Suc i)) @
     [of_nat (v div 128 mod 128 + 128), of_nat (v mod 128)]"
proof (induction i)
  case 0
  then show ?case by simp
next
  case (Suc i)
  have "base128_tail v (Suc (Suc (Suc i))) =
      of_nat (v div 128 ^ Suc (Suc i) mod 128 + 128) # base128_tail v (Suc (Suc i))" by simp
  also have "v div 128 ^ Suc (Suc i) = v div 128 div 128 ^ Suc i"
    by (simp only: power_Suc div_mult2_eq)
  finally show ?case by (simp only: Suc.IH) simp
qed


lemma hi128_butlast: "0 < m \<Longrightarrow> hi128 m = butlast (base128 m) @ [of_nat (m mod 128 + 128)]"
  by (simp add: base128_def hi128_pos)

lemma base128_tail_eq: "base128_tail n (max 1 (length (hi128 n))) = base128 n"
proof (induction n rule: hi128.induct)
  case (1 n)
  show ?case
  proof (cases "n < 128")
    case True
    then have "length (hi128 n) \<le> 1" by (intro length_hi128) simp
    with True show ?thesis by (simp add: base128_def max_def)
  next
    case False
    then have pos: "0 < n div 128" "n \<noteq> 0" by simp_all
    then obtain i where i: "length (hi128 (n div 128)) = Suc i"
      by (simp add: hi128_pos)
    then have l: "length (hi128 n) = Suc (Suc i)" using pos by (simp add: hi128_pos [of n])
    have "base128_tail (n div 128) (Suc i) = base128 (n div 128)"
      using "1.IH" [OF pos(2)] unfolding i by (simp add: max_def)
    then have "base128_tail n (Suc (Suc i)) =
        butlast (base128 (n div 128)) @ [of_nat (n div 128 mod 128 + 128), of_nat (n mod 128)]"
      by (simp only: base128_tail_snoc)
    also have "\<dots> = base128 n"
      using hi128_butlast [OF pos(1)] by (simp add: base128_def [of n])
    finally show ?thesis unfolding l by (simp add: max_def)
  qed
qed

lemma two_power_7: "(2 :: nat) ^ (7 * k) = 128 ^ k"
  by (simp only: power_mult) simp

lemma unat_or_80: "unat (b :: u8) < 128 \<Longrightarrow> unat (b OR 0x80) = unat b + 128"
  using unat_or_push_bit [of b 7 1] by simp

lemma base128_byte: "unat (ucast (drop_bit (7 * i) (v :: u64) AND 0x7F) :: u8) = unat v div 128 ^ i mod 128"
proof -
  have "unat (drop_bit (7 * i) v AND 0x7F) = unat (drop_bit (7 * i) v) mod 128" by (rule u64_and_7f)
  also have "\<dots> = unat v div 128 ^ i mod 128" by (simp only: unat_drop_bit_div two_power_7)
  finally show ?thesis by (simp add: unat_ucast_mod)
qed

lemma adds_base128_loop: "cbb_adds d (add_base128_loop d v i) (base128_tail (unat v) i)"
proof (induction i)
  case 0
  show ?case by (simp add: cbb_adds_skip)
next
  case (Suc i)
  define byte where "byte = (ucast (drop_bit (7 * i) v AND 0x7F) :: u8)"
  define n where "n = unat v div 128 ^ i mod 128"
  let ?b = "if i \<noteq> 0 then byte OR 0x80 else byte"
  have low: "unat byte = n" unfolding byte_def n_def by (rule base128_byte)
  have "n < 128" unfolding n_def by simp
  then have "unat ?b = n + (if i = 0 then 0 else 128)"
    using low unat_or_80 [of byte] by simp
  then have b: "?b = of_nat (n + (if i = 0 then 0 else 128))" by (rule word_eq_of_nat)
  have "cbb_adds d (\<lambda>s. attempt (CBB_add_u8 d ?b s) (\<lambda>_ s. add_base128_loop d v i s))
      (?b # base128_tail (unat v) i)"
    by (rule adds_Cons_u8 [OF Suc.IH])
  then show ?case
    unfolding add_base128_loop.simps base128_tail.simps Let_def byte_def [symmetric] n_def [symmetric]
      b [symmetric] .
qed

lemma adds_base128 [intro]: "cbb_adds d (add_base128_integer d v) (base128 (unat v))"
proof -
  let ?n = "length (hi128 (unat v))"
  have "(if ?n = 0 then 1 else ?n) = max 1 ?n" by (cases ?n) simp_all
  then have "add_base128_integer d v = add_base128_loop d v (max 1 ?n)"
    by (intro ext) (simp add: add_base128_integer_def base128_len_len_eq Let_def)
  then show ?thesis using adds_base128_loop [of d v "max 1 ?n", unfolded base128_tail_eq] by simp
qed

text \<open>The part of \<^verbatim>\<open>CBB_add_asn1\<close> that writes the identifier octets.\<close>

definition add_tag_bytes :: "nat \<Rightarrow> u32 \<Rightarrow> unit builder" where
  "add_tag_bytes d tag cbb =
     (let tag_bits = ucast (drop_bit CBS_ASN1_TAG_SHIFT tag AND 0xE0) :: u8;
          tag_number = tag AND CBS_ASN1_TAG_NUMBER_MASK
      in if 0x1F \<le> tag_number
         then attempt (CBB_add_u8 d (tag_bits OR 0x1F) cbb)
                (\<lambda>_ cbb. add_base128_integer d (ucast tag_number) cbb)
         else CBB_add_u8 d (tag_bits OR ucast tag_number) cbb)"

lemma CBB_add_asn1_eq:
  "CBB_add_asn1 d tag cbb =
     attempt (CBB_flush d cbb) (\<lambda>_ cbb.
       attempt (add_tag_bytes d tag cbb) (\<lambda>_ cbb. cbb_add_child d 1 True cbb))"
  by (simp add: CBB_add_asn1_def add_tag_bytes_def Let_def)

lemma unat_tag_bits:
  "ucast (drop_bit CBS_ASN1_TAG_SHIFT tag AND 0xE0) = (push_bit 5 (of_nat (tag_class tag)) :: u8)"
proof (rule word_eq_by_unat)
  have c: "tag_class tag < 8" by (rule tag_split)
  have m: "unat (of_nat (tag_class tag) :: u8) = tag_class tag" using c by (intro unat_of_nat_id) simp
  have "unat (of_nat (tag_class tag) :: u8) * 2 ^ 5 < 2 ^ LENGTH(8)" unfolding m using c by simp
  note r = unat_push_bit [OF this, unfolded m]
  have "unat tag div 2 ^ 24 div 32 = tag_class tag"
    by (simp add: tag_class_def div_mult2_eq [symmetric])
  then have "unat (drop_bit 24 tag AND 0xE0) = tag_class tag * 32"
    using c by (simp add: and_e0 unat_drop_bit_div)
  then show "unat (ucast (drop_bit CBS_ASN1_TAG_SHIFT tag AND 0xE0) :: u8) =
      unat (push_bit 5 (of_nat (tag_class tag)) :: u8)"
    unfolding r CBS_ASN1_TAG_SHIFT_def using c by (simp add: unat_ucast_mod)
qed

lemma tag_byte_or:
  assumes "c < 8" "unat (m :: u8) < 32"
  shows "push_bit 5 (of_nat c) OR m = of_nat (c * 32 + unat m)"
proof -
  have c: "unat (of_nat c :: u8) = c" using assms(1) by (intro unat_of_nat_id) simp
  have "unat (of_nat c :: u8) * 2 ^ 5 < 2 ^ LENGTH(8)" unfolding c using assms(1) by simp
  moreover have "unat m < 2 ^ 5" using assms(2) by simp
  ultimately have "unat (m OR push_bit 5 (of_nat c)) = unat m + 2 ^ 5 * unat (of_nat c :: u8)"
    by (intro unat_or_push_bit)
  then have "unat (push_bit 5 (of_nat c) OR m) = c * 32 + unat m"
    unfolding c by (simp only: or.commute) simp
  then show ?thesis by (rule word_eq_of_nat)
qed

lemma adds_tag: "cbb_adds d (add_tag_bytes d tag) (der_tag tag)"
proof -
  let ?c = "tag_class tag" and ?n = "tag_num tag"
  let ?num = "tag AND CBS_ASN1_TAG_NUMBER_MASK"
  have c: "?c < 8" and n: "?n < 2 ^ 29" by (rule tag_split)+
  have num: "unat ?num = ?n"
    using unat_and_mask [of tag 29] by (simp add: tag_mask tag_num_def mask_eq_exp_minus_1)
  show ?thesis
  proof (cases "?n < 31")
    case True
    have lt: "\<not> 0x1F \<le> ?num" using True num by (simp add: word_le_nat_alt)
    have u: "unat (ucast ?num :: u8) = ?n" using num True by (simp add: unat_ucast_mod)
    then have "push_bit 5 (of_nat ?c) OR ucast ?num = (of_nat (?c * 32 + ?n) :: u8)"
      using tag_byte_or [OF c, of "ucast ?num"] True by simp
    then have "add_tag_bytes d tag = CBB_add_u8 d (of_nat (?c * 32 + ?n))"
      using lt by (intro ext) (simp only: add_tag_bytes_def Let_def unat_tag_bits if_False)
    then show ?thesis using True adds_u8 by (simp add: der_tag_def)
  next
    case False
    have ge: "0x1F \<le> ?num" using False num by (simp add: word_le_nat_alt)
    have b: "push_bit 5 (of_nat ?c) OR 0x1F = (of_nat (?c * 32 + 31) :: u8)"
      using tag_byte_or [OF c, of "0x1F"] by simp
    have "unat (ucast ?num :: u64) = ?n" using num by simp
    then have "cbb_adds d (add_base128_integer d (ucast ?num)) (base128 ?n)"
      using adds_base128 [of d "ucast ?num"] by simp
    from adds_Cons_u8 [OF this, of "of_nat (?c * 32 + 31)"]
    have "cbb_adds d (\<lambda>s. attempt (CBB_add_u8 d (of_nat (?c * 32 + 31)) s)
        (\<lambda>_ s. add_base128_integer d (ucast ?num) s)) (der_tag tag)"
      using False by (simp add: der_tag_def)
    moreover have "add_tag_bytes d tag = (\<lambda>s. attempt (CBB_add_u8 d (of_nat (?c * 32 + 31)) s)
        (\<lambda>_ s. add_base128_integer d (ucast ?num) s))"
      using ge by (intro ext) (simp only: add_tag_bytes_def Let_def unat_tag_bits if_True b)
    ultimately show ?thesis by simp
  qed
qed


subsection \<open>Closing a child\<close>

text \<open>\<open>cbb_extends s s'\<close>: the part of \<open>cbb_grown\<close> that is not about the bytes.\<close>

definition cbb_extends :: "cbb \<Rightarrow> cbb \<Rightarrow> bool" where
  "cbb_extends s s' \<longleftrightarrow> cbb_ok s' \<and> cb_can_resize s' = cb_can_resize s \<and> cb_alloc s' = cb_alloc s \<and>
     cb_calls s \<le> cb_calls s' \<and> (\<not> cb_can_resize s \<longrightarrow> cb_cap s' = cb_cap s)"

lemma cbb_grown_extends: "cbb_grown s s' bs \<longleftrightarrow> cbb_extends s s' \<and> cbb_bytes s' = cbb_bytes s @ bs"
  by (auto simp: cbb_grown_def cbb_extends_def)

lemma cbb_extends_trans: "cbb_extends s t \<Longrightarrow> cbb_extends t u \<Longrightarrow> cbb_extends s u"
  by (auto simp: cbb_extends_def)

lemma cbb_asn1_length_choice:
  assumes "unat (len :: u64) = n" "128 \<le> n" "n \<le> 0xFFFFFFFE"
  shows "(if 0xFFFFFF < len then (5 :: u64, 0x80 OR 4 :: u8, len)
          else if 0xFFFF < len then (4, 0x80 OR 3, len)
          else if 0xFF < len then (3, 0x80 OR 2, len)
          else if 0x7F < len then (2, 0x80 OR 1, len)
          else (1, ucast len, 0))
    = (of_nat (der_len_len n + 1), of_nat (128 + der_len_len n), len)"
  using assms by (auto simp: der_len_len_def word_less_nat_alt)

lemma memmove_up_eq:
  assumes "length pre = st" "length bs = n" "length ext = extra + length ext'"
  shows "\<exists>gap. length gap = extra \<and>
    memmove_up (pre @ bs @ ext) st extra n = pre @ gap @ bs @ drop extra ext"
proof (intro exI conjI)
  let ?gap = "take extra (bs @ ext)"
  show "length ?gap = extra" using assms by simp
  show "memmove_up (pre @ bs @ ext) st extra n = pre @ ?gap @ bs @ drop extra ext"
    using assms by (simp add: memmove_up_def)
qed

lemma update_at: "length pre = i \<Longrightarrow> (pre @ x # ys)[i := y] = pre @ y # ys"
  by (simp add: list_update_append)

lemma cbb_write_asn1_length:
  assumes ok: "cbb_ok s" and c: "unat (cc_offset c) = length pre" "cc_pending_len_len c = 1" "cc_pending_is_asn1 c"
    and bytes: "cbb_bytes s = pre @ [x] @ bs" and n: "length bs \<le> 0xFFFFFFFE"
  shows "case cbb_write_length c s of
      (None, s') \<Rightarrow> \<not> cbb_room s (length (der_length (length bs)) - 1)
    | (Some _, s') \<Rightarrow> cbb_extends s s' \<and> cb_children s' = cb_children s \<and>
        cbb_bytes s' = pre @ der_length (length bs) @ bs"
proof -
  let ?o = "length pre" and ?n = "length bs"
  have len: "unat (cb_len s) = ?o + 1 + ?n" using length_cbb_bytes [OF ok] bytes by simp
  define start where "start = cc_offset c + ucast (cc_pending_len_len c)"
  have start: "unat start = ?o + 1"
    using len unat_u64_less [of "cb_len s"] c unfolding start_def by (simp add: unat_word_ariths)
  define l where "l = cb_len s - start"
  have le: "start \<le> cb_len s" using start len by (simp add: word_le_nat_alt)
  have l: "unat l = ?n" unfolding l_def unat_sub_le [OF le] using start len by simp
  have noerr: "\<not> (start < cc_offset c \<or> cb_len s < start)"
    using start len c by (auto simp: word_less_nat_alt)
  have nl: "\<not> 0xFFFFFFFE < l" using l n by (simp add: word_less_nat_alt)
  obtain ext where buf: "cb_buf s = pre @ [x] @ bs @ ext"
    using bytes unfolding cbb_bytes_def by (metis append_take_drop_id append_assoc)
  have w: "cbb_write_length c s = attempt (cbb_asn1_length (cc_offset c) start l s)
      (\<lambda>(offset, pending_len_len, len) base.
         case put_be (cb_buf base) (unat offset) pending_len_len len of
           (buf, rest) \<Rightarrow> if rest \<noteq> 0 then (None, base\<lparr>cb_buf := buf\<rparr>) else (Some (), base\<lparr>cb_buf := buf\<rparr>))"
    unfolding cbb_write_length_def Let_def start_def [symmetric] l_def [symmetric]
    using noerr c(3) by (simp only: if_False if_True)
  show ?thesis
  proof (cases "?n < 128")
    case True
    then have nots: "\<not> 0xFFFFFF < l" "\<not> 0xFFFF < l" "\<not> 0xFF < l" "\<not> 0x7F < l"
      using l by (simp_all add: word_less_nat_alt)
    have "ucast l = (of_nat ?n :: u8)" using l True
      by (intro word_eq_by_unat) (simp add: unat_ucast_mod unat_of_nat take_bit_nat_eq_self)
    then have "cbb_asn1_length (cc_offset c) start l s =
        (Some (cc_offset c + 1, 0, 0), s\<lparr>cb_buf := (cb_buf s)[?o := of_nat ?n]\<rparr>)"
      using nl nots by (simp add: cbb_asn1_length_def c)
    then have "cbb_write_length c s = (Some (), s\<lparr>cb_buf := pre @ [of_nat ?n] @ bs @ ext\<rparr>)"
      unfolding w buf by (simp add: update_at)
    moreover have "length (pre @ [of_nat ?n] @ bs @ ext) = length (cb_buf s)" unfolding buf by simp
    moreover have "take (unat (cb_len s)) (pre @ [of_nat ?n] @ bs @ ext) = pre @ [of_nat ?n] @ bs"
      unfolding len by simp
    ultimately show ?thesis using ok True
      by (simp add: cbb_extends_def cbb_ok_def cbb_bytes_def der_length_def)
  next
    case False
    let ?k = "der_len_len ?n"
    have "?n < 2 ^ 32" using n by simp
    note kb = der_len_len_bounds [OF this]
    have k: "1 \<le> ?k" "?k \<le> 4" using kb(1) by auto
    have ek: "of_nat (?k + 1) - 1 = (of_nat ?k :: u64)" by simp
    have ku: "unat (of_nat ?k :: u64) = ?k" using k by (intro unat_of_nat_u64) simp
    have ne1: "of_nat (?k + 1) \<noteq> (1 :: u64)"
    proof
      assume "of_nat (?k + 1) = (1 :: u64)"
      then have "of_nat ?k = (0 :: u64)" by simp
      with ku k show False by simp
    qed
    have "128 \<le> ?n" using False by simp
    note choice = cbb_asn1_length_choice [OF l this n]
    have dl: "length (der_length ?n) = ?k + 1" using False by (simp add: der_length_def)
    let ?init = "of_nat (128 + ?k) :: u8"
    have al: "cbb_asn1_length (cc_offset c) start l s =
        attempt (attempt (cbb_buffer_add (of_nat ?k) s) (\<lambda>_ base.
             (Some (), base\<lparr>cb_buf := memmove_up (cb_buf base) (?o + 1) ?k ?n\<rparr>)))
          (\<lambda>_ base. (Some (cc_offset c + 1, ?k, l), base\<lparr>cb_buf := (cb_buf base)[?o := ?init]\<rparr>))"
      unfolding cbb_asn1_length_def choice Let_def
      using nl ne1 by (simp only: if_False if_True prod.case ek ku start l c(1) simp_thms)
    show ?thesis
    proof (cases "cbb_buffer_add (of_nat ?k) s")
      case (Pair r s1)
      show ?thesis
      proof (cases r)
        case None
        then have "\<not> cbb_room s ?k" using cbb_buffer_add_None [OF ok] Pair ku by metis
        then show ?thesis using None Pair by (simp add: w al dl)
      next
        case (Some out)
        note f = cbb_buffer_add_Some [OF ok Pair [unfolded Some], unfolded ku]
        have cap1: "?o + 1 + ?n + ?k \<le> length (cb_buf s1)" using f len by (simp add: word_le_nat_alt)
        define ext1 where "ext1 = drop (unat (cb_len s)) (cb_buf s1)"
        have buf1: "cb_buf s1 = (pre @ [x]) @ bs @ ext1"
          using f bytes unfolding ext1_def by (metis append_take_drop_id append_assoc)
        have ext1: "length ext1 = ?k + (length ext1 - ?k)" using cap1 len by (simp add: ext1_def)
        then obtain gap where gap: "length gap = ?k"
          "memmove_up (cb_buf s1) (?o + 1) ?k ?n = (pre @ [x]) @ gap @ bs @ drop ?k ext1"
          unfolding buf1 using memmove_up_eq [of "pre @ [x]" "?o + 1" bs ?n ext1 ?k "replicate (length ext1 - ?k) 0"]
          by auto
        let ?buf2 = "(pre @ [?init]) @ gap @ bs @ drop ?k ext1"
        have upd: "(memmove_up (cb_buf s1) (?o + 1) ?k ?n)[?o := ?init] = ?buf2"
          unfolding gap(2) using update_at [of pre ?o x] by simp
        have off: "unat (cc_offset c + 1) = ?o + 1"
          using start c(2) by (simp add: start_def)
        have "?o + 1 + ?k \<le> length ?buf2" using gap(1) by simp
        from put_be_eq [OF this, of l] have put: "put_be ?buf2 (?o + 1) ?k l =
            ((pre @ [?init]) @ be_bytes ?k ?n @ bs @ drop ?k ext1, drop_bit (8 * ?k) l)"
          using gap(1) l by simp
        have "unat (drop_bit (8 * ?k) l) = ?n div 2 ^ (?k * 8)" by (simp only: unat_drop_bit_div l mult.commute)
        also have "\<dots> = 0" using kb(2) by (simp only: two_power_8 div_less)
        finally have rest: "drop_bit (8 * ?k) l = 0" by (simp only: unat_0_iff)
        let ?s' = "s1\<lparr>cb_buf := (pre @ [?init]) @ be_bytes ?k ?n @ bs @ drop ?k ext1\<rparr>"
        have res: "cbb_write_length c s = (Some (), ?s')"
          unfolding w al Pair Some attempt_Some prod.case upd off cbb.simps
          using put rest upd by (simp only: cbb.simps prod.case off if_False simp_thms) simp
        have "length ((pre @ [?init]) @ be_bytes ?k ?n @ bs @ drop ?k ext1) = length (cb_buf s1)"
          unfolding buf1 using ext1 by simp
        moreover have "take (?o + 1 + ?n + ?k) ((pre @ [?init]) @ be_bytes ?k ?n @ bs @ drop ?k ext1)
            = pre @ [?init] @ be_bytes ?k ?n @ bs" by simp
        moreover have "\<forall>ch \<in> set (cb_children s). child_start ch \<le> unat (cb_len s)"
          using ok by (simp add: cbb_ok_def)
        ultimately show ?thesis unfolding res using f len False
          by (auto simp: cbb_extends_def cbb_ok_def cbb_bytes_def der_length_def intro: trans_le_add1)
      qed
    qed
  qed
qed


lemma cbb_write_plain_length:
  assumes ok: "cbb_ok s" and c: "unat (cc_offset c) = length pre" "unat (cc_pending_len_len c) = k"
      "\<not> cc_pending_is_asn1 c" "k \<le> 8"
    and bytes: "cbb_bytes s = pre @ pad @ bs" "length pad = k"
  shows "cbb_write_length c s =
    (if length bs < 256 ^ k then Some () else None, s\<lparr>cb_buf := pre @ be_bytes k (length bs) @ bs @
        drop (unat (cb_len s)) (cb_buf s)\<rparr>)"
proof -
  let ?o = "length pre" and ?n = "length bs"
  have len: "unat (cb_len s) = ?o + k + ?n" using length_cbb_bytes [OF ok] bytes by simp
  define start where "start = cc_offset c + ucast (cc_pending_len_len c)"
  have start: "unat start = ?o + k"
    using len unat_u64_less [of "cb_len s"] c(1,2) unfolding start_def
    by (simp add: unat_word_ariths)
  define l where "l = cb_len s - start"
  have le: "start \<le> cb_len s" using start len by (simp add: word_le_nat_alt)
  have l: "unat l = ?n" unfolding l_def unat_sub_le [OF le] using start len by simp
  have noerr: "\<not> (start < cc_offset c \<or> cb_len s < start)"
    using start len c by (auto simp: word_less_nat_alt)
  define ext where "ext = drop (unat (cb_len s)) (cb_buf s)"
  have buf: "cb_buf s = pre @ pad @ bs @ ext"
    using bytes unfolding cbb_bytes_def ext_def by (metis append_take_drop_id append_assoc)
  have "?o + k \<le> length (pre @ pad @ bs @ ext)" using bytes(2) by simp
  from put_be_eq [OF this, of l] have put: "put_be (cb_buf s) ?o k l =
      (pre @ be_bytes k ?n @ bs @ ext, drop_bit (8 * k) l)"
    using bytes(2) l unfolding buf by simp
  have "unat (drop_bit (8 * k) l) = ?n div 2 ^ (k * 8)" by (simp only: unat_drop_bit_div l mult.commute)
  then have rest: "drop_bit (8 * k) l = 0 \<longleftrightarrow> ?n < 256 ^ k"
    unfolding two_power_8 by (simp only: unat_0_iff [symmetric] div_eq_0_iff) simp
  show ?thesis
    unfolding cbb_write_length_def Let_def start_def [symmetric] l_def [symmetric] ext_def [symmetric]
    using noerr c(3) by (simp add: c(1,2) put rest)
qed

lemma cbb_add_child_None:
  assumes "cbb_ok s" "length (cb_children s) = d" "cbb_add_child d k asn1 s = (None, s')"
  shows "\<not> cbb_room s (unat k)"
proof -
  have "cbb_buffer_add (ucast k) s = (None, s')"
    using assms(3) by (auto simp: cbb_add_child_def attempt_eq_None Let_def)
  from cbb_buffer_add_None [OF assms(1) this] show ?thesis unfolding unat_ucast_u8 .
qed

lemma cbb_add_child_Some:
  assumes ok: "cbb_ok s" "length (cb_children s) = d" and r: "cbb_add_child d k asn1 s = (Some u, s')"
  shows "cbb_grown s s' (replicate (unat k) 0) \<and>
    cb_children s' = cb_children s @
      [\<lparr>cc_offset = cb_len s, cc_pending_len_len = k, cc_pending_is_asn1 = asn1\<rparr>]"
proof -
  let ?c = "\<lparr>cc_offset = cb_len s, cc_pending_len_len = k, cc_pending_is_asn1 = asn1\<rparr>"
  let ?z = "replicate (unat k) (0 :: u8)"
  from r obtain out t where t: "cbb_buffer_add (ucast k) s = (Some out, t)"
    "s' = (cbb_store out ?z t)\<lparr>cb_children := take d (cb_children t) @ [?c]\<rparr>"
    by (auto simp: cbb_add_child_def attempt_eq_Some cbb_store_def)
  have k: "unat (ucast k :: u64) = length ?z" by (simp add: unat_ucast_u8)
  from cbb_store_grown [OF ok(1) t(1) k] have g: "cbb_grown s (cbb_store out ?z t) ?z"
    "cb_children (cbb_store out ?z t) = cb_children s" by auto
  have "cb_children t = cb_children s" using cbb_buffer_add_Some [OF ok(1) t(1)] by blast
  then have ch: "cb_children s' = cb_children s @ [?c]" using t(2) ok(2) by simp
  have "unat (cb_len (cbb_store out ?z t)) = unat (cb_len s) + unat k"
    using cbb_grown_len [OF ok(1) g(1)] by simp
  then have "cbb_grown s s' ?z"
    using g ch unfolding t(2)
    by (auto simp: cbb_grown_def cbb_ok_def cbb_bytes_def child_start_def)
  with ch show ?thesis by blast
qed

text \<open>
  What it takes to close a child: \<open>closes k asn1 n pfx\<close> says that \<open>pfx\<close> is the length prefix
  of \<open>n\<close> bytes of contents for a child opened with these parameters.
\<close>

definition closes :: "u8 \<Rightarrow> bool \<Rightarrow> nat \<Rightarrow> u8 list \<Rightarrow> bool" where
  "closes k asn1 n pfx \<longleftrightarrow>
     (if asn1 then k = 1 \<and> n \<le> 0xFFFFFFFE \<and> pfx = der_length n
      else unat k \<le> 8 \<and> n < 256 ^ unat k \<and> pfx = be_bytes (unat k) n)"

lemma cbb_flush_child:
  assumes ok: "cbb_ok s" and ch: "cb_children s = cs @ [c]" "length cs = d"
    and c: "unat (cc_offset c) = length pre"
    and cl: "closes (cc_pending_len_len c) (cc_pending_is_asn1 c) (length bs) pfx"
    and bytes: "cbb_bytes s = pre @ replicate (unat (cc_pending_len_len c)) 0 @ bs"
  shows "case CBB_flush d s of
      (None, s') \<Rightarrow> \<not> cbb_room s (length pfx - unat (cc_pending_len_len c))
    | (Some _, s') \<Rightarrow> cbb_extends s s' \<and> cb_children s' = cs \<and> cbb_bytes s' = pre @ pfx @ bs"
proof -
  have idle: "CBB_flush (d + 1) s = (Some (), s)" using ok ch by (simp add: CBB_flush_idle)
  have nth: "cb_children s ! d = c" using ch by (simp add: nth_append)
  have flush: "CBB_flush d s = (case cbb_write_length c s of
      (None, s') \<Rightarrow> (None, cbb_on_error d s')
    | (Some _, s') \<Rightarrow> (Some (), s'\<lparr>cb_children := take d (cb_children s')\<rparr>))"
    using ok ch idle nth by (subst CBB_flush.simps) (simp add: cbb_ok_def)
  have w: "case cbb_write_length c s of
      (None, s') \<Rightarrow> \<not> cbb_room s (length pfx - unat (cc_pending_len_len c))
    | (Some _, s') \<Rightarrow> cbb_extends s s' \<and> cb_children s' = cb_children s \<and> cbb_bytes s' = pre @ pfx @ bs"
  proof (cases "cc_pending_is_asn1 c")
    case True
    with cl have k: "cc_pending_len_len c = 1" "length bs \<le> 0xFFFFFFFE" "pfx = der_length (length bs)"
      by (simp_all add: closes_def)
    then have b: "cbb_bytes s = pre @ [0] @ bs" using bytes by simp
    from cbb_write_asn1_length [OF ok c k(1) True b k(2)] k show ?thesis
      by (auto split: prod.splits option.splits)
  next
    case False
    with cl have k: "unat (cc_pending_len_len c) \<le> 8" "length bs < 256 ^ unat (cc_pending_len_len c)"
      "pfx = be_bytes (unat (cc_pending_len_len c)) (length bs)"
      by (simp_all add: closes_def)
    have len: "unat (cb_len s) = length pre + unat (cc_pending_len_len c) + length bs"
      using length_cbb_bytes [OF ok] bytes by simp
    from cbb_write_plain_length [OF ok c refl False k(1) bytes] k(2,3) ok len cbb_ok_len [OF ok]
    show ?thesis
      by (auto simp: cbb_extends_def cbb_ok_def cbb_bytes_def)
  qed
  show ?thesis
  proof (cases "cbb_write_length c s")
    case (Pair r s')
    show ?thesis
    proof (cases r)
      case None
      with w Pair show ?thesis by (simp add: flush)
    next
      case (Some u)
      with w Pair have "cbb_extends s s'" "cb_children s' = cb_children s" "cbb_bytes s' = pre @ pfx @ bs"
        by auto
      then show ?thesis using ch Some Pair
        by (auto simp: flush cbb_extends_def cbb_ok_def cbb_bytes_def)
    qed
  qed
qed

text \<open>A child opened by \<open>cbb_add_child\<close>, filled by a writer with a contract, and closed.\<close>

lemma child_filled:
  assumes s: "cbb_ok s" "length (cb_children s) = d" and B: "cbb_adds (d + 1) B bs"
    and o: "cbb_add_child d k asn1 s = (Some u, s1)" and f: "B s1 = (Some v, s2)"
    and cl: "closes k asn1 (length bs) pfx"
  shows "cbb_grown s s2 (replicate (unat k) 0 @ bs) \<and>
    (case CBB_flush d s2 of
       (None, s') \<Rightarrow> \<not> cbb_room s2 (length pfx - unat k)
     | (Some _, s') \<Rightarrow> cbb_grown s s' (pfx @ bs) \<and> cb_children s' = cb_children s)"
proof -
  let ?c = "\<lparr>cc_offset = cb_len s, cc_pending_len_len = k, cc_pending_is_asn1 = asn1\<rparr>"
  from cbb_add_child_Some [OF s o] have
    g1: "cbb_grown s s1 (replicate (unat k) 0)" "cb_children s1 = cb_children s @ [?c]" by auto
  then have s1: "cbb_ok s1" "length (cb_children s1) = d + 1" using s by (simp_all add: cbb_grown_def)
  from cbb_adds_Some [OF B s1 f] have
    g2: "cbb_grown s1 s2 bs" "cb_children s2 = cb_children s @ [?c]" using g1 by auto
  have g: "cbb_grown s s2 (replicate (unat k) 0 @ bs)" by (rule cbb_grown_trans [OF g1(1) g2(1)])
  then have ok2: "cbb_ok s2" and bytes: "cbb_bytes s2 = cbb_bytes s @ replicate (unat k) 0 @ bs"
    by (simp_all add: cbb_grown_def)
  have off: "unat (cc_offset ?c) = length (cbb_bytes s)" using length_cbb_bytes [OF s(1)] by simp
  have "case CBB_flush d s2 of
      (None, s') \<Rightarrow> \<not> cbb_room s2 (length pfx - unat k)
    | (Some _, s') \<Rightarrow> cbb_extends s2 s' \<and> cb_children s' = cb_children s \<and>
        cbb_bytes s' = cbb_bytes s @ pfx @ bs"
    using cbb_flush_child [OF ok2 g2(2) s(2) off, of bs pfx, unfolded cbb_child.simps, OF cl bytes] .
  with g show ?thesis
    by (auto simp: cbb_grown_extends intro: cbb_extends_trans split: prod.splits option.splits)
qed

lemma adds_child:
  assumes B: "cbb_adds (d + 1) B bs" and cl: "closes k asn1 (length bs) pfx" and kl: "unat k \<le> length pfx"
  shows "cbb_adds d (\<lambda>s. attempt (cbb_add_child d k asn1 s) (\<lambda>_ s.
           attempt (B s) (\<lambda>_ s. CBB_flush d s))) (pfx @ bs)"
proof (rule cbb_addsI)
  fix s s'
  assume s: "cbb_ok s" "length (cb_children s) = d"
  have room: "\<not> cbb_room s n \<Longrightarrow> n \<le> length pfx + length bs \<Longrightarrow> \<not> cbb_room s (length (pfx @ bs))" for n
    using cbb_room_mono [of s "length (pfx @ bs)" n] by auto
  { assume "attempt (cbb_add_child d k asn1 s) (\<lambda>_ s. attempt (B s) (\<lambda>_ s. CBB_flush d s)) = (None, s')"
    then consider "cbb_add_child d k asn1 s = (None, s')"
      | u s1 where "cbb_add_child d k asn1 s = (Some u, s1)" "B s1 = (None, s')"
      | u s1 v s2 where "cbb_add_child d k asn1 s = (Some u, s1)" "B s1 = (Some v, s2)"
          "CBB_flush d s2 = (None, s')"
      by (auto simp: attempt_eq_None)
    then show "\<not> cbb_room s (length (pfx @ bs))"
    proof cases
      case 1
      from cbb_add_child_None [OF s this] room [of "unat k"] kl show ?thesis by simp
    next
      case 2
      from cbb_add_child_Some [OF s 2(1)] have g1: "cbb_grown s s1 (replicate (unat k) 0)"
        "cbb_ok s1 \<and> length (cb_children s1) = d + 1" using s by (auto simp: cbb_grown_def)
      with cbb_adds_None [OF B _ _ 2(2)] have "\<not> cbb_room s1 (length bs)" by blast
      with cbb_grown_room [OF s(1) g1(1)] have "\<not> cbb_room s (unat k + length bs)" by auto
      with room [of "unat k + length bs"] kl show ?thesis by simp
    next
      case 3
      from child_filled [OF s B 3(1,2) cl] 3(3) have
        "cbb_grown s s2 (replicate (unat k) 0 @ bs)" "\<not> cbb_room s2 (length pfx - unat k)" by auto
      with cbb_grown_room [OF s(1), of s2 "replicate (unat k) 0 @ bs" "length pfx - unat k"]
      have "\<not> cbb_room s (unat k + length bs + (length pfx - unat k))" by auto
      then show ?thesis using kl by (intro room) auto
    qed }
  { fix u assume "attempt (cbb_add_child d k asn1 s) (\<lambda>_ s. attempt (B s) (\<lambda>_ s. CBB_flush d s)) = (Some u, s')"
    then obtain u1 s1 v s2 where f: "cbb_add_child d k asn1 s = (Some u1, s1)" "B s1 = (Some v, s2)"
      "CBB_flush d s2 = (Some u, s')" by (auto simp: attempt_eq_Some)
    from child_filled [OF s B f(1,2) cl] f(3)
    show "cbb_grown s s' (pfx @ bs) \<and> cb_children s' = cb_children s" by auto }
qed

end
