(* ===== verification/Der_Values.thy ===== *)
theory Der_Values
  imports Cbb_Contract
begin

text \<open>
  DER elements end to end: the writers of \<open>Cbb\<close> against the readers of \<open>Cbs\<close>.  The contents
  of an INTEGER are the shortest two's complement form (\<open>int_min\<close>) of the value; the writers
  are shown to produce it, the readers to accept it and nothing else.
\<close>

subsection \<open>Writing whole elements\<close>

lemma cbb_adds_cong:
  assumes "cbb_adds d F bs"
    and "\<And>s. cbb_ok s \<Longrightarrow> length (cb_children s) = d \<Longrightarrow>
           G s = F s \<or> fst (G s) = None \<and> fst (F s) = None"
  shows "cbb_adds d G bs"
proof (rule cbb_addsI)
  fix s s'
  assume s: "cbb_ok s" "length (cb_children s) = d"
  { assume "G s = (None, s')"
    then obtain t where "F s = (None, t)" using assms(2) [OF s] by (cases "F s") auto
    with cbb_adds_None [OF assms(1) s] show "\<not> cbb_room s (length bs)" by blast }
  { fix u assume "G s = (Some u, s')"
    then have "F s = (Some u, s')" using assms(2) [OF s] by auto
    with cbb_adds_Some [OF assms(1) s] show "cbb_grown s s' bs \<and> cb_children s' = cb_children s" by blast }
qed

lemma or_lock_same: "or_lock d r = r \<or> fst (or_lock d r) = None \<and> fst r = None"
  by (cases r) (auto simp: or_lock_def split: option.splits)

lemma fst_or_lock: "fst (or_lock d r) = fst r"
  by (auto simp: or_lock_def split: prod.splits option.splits)

lemma adds_or_lock: "cbb_adds d F bs \<Longrightarrow> cbb_adds d (\<lambda>s. or_lock d (F s)) bs"
  by (rule cbb_adds_cong [of _ F]) (auto simp: or_lock_same)

lemma attempt_or_lock:
  "attempt (or_lock d r) k = attempt r k \<or>
     fst (attempt (or_lock d r) k) = None \<and> fst (attempt r k) = None"
  using or_lock_same [of d r] by (cases r) (auto simp: or_lock_def split: option.splits)

definition asn1_block :: "nat \<Rightarrow> u32 \<Rightarrow> unit builder \<Rightarrow> unit builder" where
  "asn1_block d tag B s =
     attempt (CBB_add_asn1 d tag s) (\<lambda>_ s. attempt (B s) (\<lambda>_ s. CBB_flush d s))"

lemma adds_asn1:
  assumes "cbb_adds (d + 1) B bs" "length bs \<le> 0xFFFFFFFE"
  shows "cbb_adds d (asn1_block d tag B) (der_element tag bs)"
proof -
  have "1 \<le> length (der_length (length bs))" by (simp add: der_length_def)
  then have "cbb_adds d (\<lambda>s. attempt (cbb_add_child d 1 True s) (\<lambda>_ s.
           attempt (B s) (\<lambda>_ s. CBB_flush d s))) (der_length (length bs) @ bs)"
    using assms by (intro adds_child) (simp_all add: closes_def)
  from cbb_adds_attempt [OF adds_tag this]
  have "cbb_adds d (\<lambda>s. attempt (add_tag_bytes d tag s) (\<lambda>_ s.
      attempt (cbb_add_child d 1 True s) (\<lambda>_ s. attempt (B s) (\<lambda>_ s. CBB_flush d s))))
      (der_element tag bs)"
    by (simp add: der_element_def der_header_def)
  then show ?thesis
    by (rule cbb_adds_cong) (simp add: asn1_block_def CBB_add_asn1_eq attempt_assoc CBB_flush_idle)
qed

lemma adds_asn1_octet_string:
  assumes "length data \<le> 0xFFFFFFFE"
  shows "cbb_adds d (CBB_add_asn1_octet_string d data) (der_element CBS_ASN1_OCTETSTRING data)"
proof -
  have "cbb_adds (d + 1) (CBB_add_bytes (d + 1) data) data" using assms by (intro adds_bytes) simp
  from adds_or_lock [OF adds_asn1 [OF this assms]] show ?thesis
    by (simp add: CBB_add_asn1_octet_string_def [abs_def] asn1_block_def)
qed

lemma adds_asn1_bool:
  "cbb_adds d (CBB_add_asn1_bool d v) (der_element CBS_ASN1_BOOLEAN [if v then 0xFF else 0])"
proof -
  have "cbb_adds (d + 1) (CBB_add_u8 (d + 1) (if v then 0xFF else 0)) [if v then 0xFF else 0]"
    by (rule adds_u8)
  from adds_or_lock [OF adds_asn1 [OF this]] show ?thesis
    by (simp add: CBB_add_asn1_bool_def [abs_def] asn1_block_def)
qed

subsection \<open>Shortest two's complement\<close>

fun int_min :: "u8 list \<Rightarrow> u8 list" where
  "int_min (b # c # bs) =
     (if b = 0 \<and> c AND 0x80 = 0 \<or> b = 0xFF \<and> c AND 0x80 \<noteq> 0 then int_min (c # bs) else b # c # bs)"
| "int_min bs = bs"

definition sign_byte :: "u8 list \<Rightarrow> u8" where
  "sign_byte bs = (if hd bs AND 0x80 \<noteq> 0 then 0xFF else 0)"

lemma sign_00 [simp]: "(0 :: u8) AND 0x80 = 0" by simp
lemma sign_ff [simp]: "(0xFF :: u8) AND 0x80 \<noteq> 0" by simp

lemma int_min_nonempty [simp]: "int_min bs = [] \<longleftrightarrow> bs = []"
  by (induction bs rule: int_min.induct) auto

lemma int_min_split:
  "bs \<noteq> [] \<Longrightarrow> \<exists>k. bs = replicate k (sign_byte bs) @ int_min bs \<and> sign_byte (int_min bs) = sign_byte bs"
proof (induction bs rule: int_min.induct)
  case (1 b c bs)
  show ?case
  proof (cases "b = 0 \<and> c AND 0x80 = 0 \<or> b = 0xFF \<and> c AND 0x80 \<noteq> 0")
    case True
    with 1 obtain k where k: "c # bs = replicate k (sign_byte (c # bs)) @ int_min (c # bs)"
      "sign_byte (int_min (c # bs)) = sign_byte (c # bs)" by blast
    have s: "sign_byte (b # c # bs) = b" "sign_byte (c # bs) = b" using True by (auto simp: sign_byte_def)
    have "int_min (b # c # bs) = int_min (c # bs)" using True by auto
    moreover have "b # c # bs = replicate (Suc k) b @ int_min (c # bs)" using k(1) s by simp
    ultimately show ?thesis using k(2) s by (intro exI [of _ "Suc k"]) simp
  next
    case False
    then have "int_min (b # c # bs) = b # c # bs" by auto
    then show ?thesis by (intro exI [of _ 0]) simp
  qed
next
  case "2_2"
  then show ?case by (intro exI [of _ 0]) simp
qed simp

lemma int_min_extend:
  "bs \<noteq> [] \<Longrightarrow> int_min (replicate k (sign_byte bs) @ bs) = int_min bs"
proof (induction k)
  case 0
  then show ?case by simp
next
  case (Suc k)
  let ?s = "sign_byte bs"
  obtain c cs where c: "replicate k ?s @ bs = c # cs" using Suc.prems by (cases "replicate k ?s @ bs") auto
  have "c = hd bs \<or> c = ?s" using c Suc.prems by (cases k) (auto simp: neq_Nil_conv)
  then have "c AND 0x80 \<noteq> 0 \<longleftrightarrow> hd bs AND 0x80 \<noteq> 0"
    by (cases "hd bs AND 0x80 = 0") (auto simp: sign_byte_def)
  then have "?s = 0 \<and> c AND 0x80 = 0 \<or> ?s = 0xFF \<and> c AND 0x80 \<noteq> 0" by (auto simp: sign_byte_def)
  then show ?case using Suc c by auto
qed

lemma int_min_idem: "int_min (int_min bs) = int_min bs"
  by (induction bs rule: int_min.induct) auto

lemma valid_integer_iff:
  "CBS_is_valid_asn1_integer bs =
     (if bs \<noteq> [] \<and> int_min bs = bs then Some (hd bs AND 0x80 \<noteq> 0) else None)"
proof (cases bs rule: int_min.cases)
  case (1 b c cs)
  have "length (int_min (c # cs)) \<le> length (c # cs)" for c cs
    by (induction "c # cs" arbitrary: c cs rule: int_min.induct) auto
  then have "int_min (c # cs) \<noteq> b # c # cs" by (metis impossible_Cons)
  then show ?thesis using 1 by (auto simp: CBS_is_valid_asn1_integer_def Let_def)
qed (auto simp: CBS_is_valid_asn1_integer_def Let_def)

definition uint_content :: "nat \<Rightarrow> u8 list" where
  "uint_content n = int_min (0 # be_bytes 8 n)"

definition int_content :: "u64 \<Rightarrow> u8 list" where
  "int_content v = int_min (be_bytes 8 (unat v))"

subsection \<open>The integer writers\<close>

lemma adds_uint64_bytes:
  "cbb_adds d (\<lambda>s. attempt (asn1_uint64_bytes d v n started s)
       (\<lambda>started s. if \<not> started then CBB_add_u8 d 0 s else (Some (), s)))
     (if started then be_bytes n (unat v) else int_min (0 # be_bytes n (unat v)))"
proof (induction n arbitrary: started)
  case 0
  show ?case using adds_u8 [of d 0] cbb_adds_skip by (cases started) auto
next
  case (Suc n)
  define byte where "byte = (ucast (drop_bit (8 * n) v AND 0xFF) :: u8)"
  have "byte = of_nat (unat v div 256 ^ n mod 256)"
    unfolding byte_def using ucast_and_ff [of "drop_bit (8 * n) v"] ucast_byte [of n v] by simp
  then have be: "be_bytes (Suc n) (unat v) = byte # be_bytes n (unat v)" by (simp only: be_bytes_Cons)
  let ?k = "\<lambda>started s. if \<not> started then CBB_add_u8 d 0 s else (Some (), s)"
  let ?rest = "\<lambda>s. attempt (CBB_add_u8 d byte s) (\<lambda>_ s. attempt (asn1_uint64_bytes d v n True s) ?k)"
  have rest: "cbb_adds d ?rest (byte # be_bytes n (unat v))"
    using adds_Cons_u8 [OF Suc.IH [of True]] by simp
  consider "started" | "\<not> started" "byte = 0" | "\<not> started" "byte \<noteq> 0" "byte AND 0x80 = 0"
    | "\<not> started" "byte AND 0x80 \<noteq> 0" by blast
  then show ?case
  proof cases
    case 1
    with rest show ?thesis unfolding be by (simp add: byte_def [symmetric] Let_def attempt_assoc)
  next
    case 2
    with Suc.IH [of False] show ?thesis unfolding be by (simp add: byte_def [symmetric] Let_def)
  next
    case 3
    then have "byte \<noteq> 0xFF" by auto
    then have "int_min (0 # byte # be_bytes n (unat v)) = byte # be_bytes n (unat v)"
      using 3 by (cases "be_bytes n (unat v)") auto
    with rest 3 show ?thesis unfolding be by (simp add: byte_def [symmetric] Let_def attempt_assoc)
  next
    case 4
    then have "byte \<noteq> 0" by auto
    with 4 adds_Cons_u8 [OF rest, of 0] show ?thesis
      unfolding be by (simp add: byte_def [symmetric] Let_def attempt_assoc)
  qed
qed

lemma length_int_min: "length (int_min bs) \<le> length bs"
  by (induction bs rule: int_min.induct) auto

lemma adds_asn1_uint64_with_tag:
  "cbb_adds d (CBB_add_asn1_uint64_with_tag d v tag) (der_element tag (uint_content (unat v)))"
proof -
  have "length (uint_content (unat v)) \<le> 9"
    using length_int_min [of "0 # be_bytes 8 (unat v)"] by (simp add: uint_content_def)
  with adds_uint64_bytes [of "d + 1" v 8 False]
  have "cbb_adds d (asn1_block d tag (\<lambda>s. attempt (asn1_uint64_bytes (d + 1) v 8 False s)
      (\<lambda>started s. if \<not> started then CBB_add_u8 (d + 1) 0 s else (Some (), s))))
      (der_element tag (uint_content (unat v)))"
    by (intro adds_asn1) (simp_all add: uint_content_def)
  then show ?thesis
    by (rule cbb_adds_cong)
      (simp only: CBB_add_asn1_uint64_with_tag_def asn1_block_def attempt_assoc [symmetric] attempt_or_lock)
qed

lemma adds_u8s_down:
  "n \<le> length bytes \<Longrightarrow> cbb_adds d (add_u8s_down d bytes n) (rev (take n bytes))"
proof (induction n)
  case 0
  show ?case by (simp add: cbb_adds_skip)
next
  case (Suc n)
  then have "rev (take (Suc n) bytes) = bytes ! n # rev (take n bytes)"
    by (simp add: take_Suc_conv_app_nth)
  with Suc adds_Cons_u8 [of d "add_u8s_down d bytes n"] show ?case by simp
qed

lemma int64_start_eq:
  "n < length bytes \<Longrightarrow> bytes ! n AND 0x80 \<noteq> 0 \<Longrightarrow>
     rev (take (int64_start bytes n + 1) bytes) = int_min (rev (take (n + 1) bytes))
     \<and> int64_start bytes n \<le> n"
proof (induction n)
  case 0
  then show ?case by (cases bytes) auto
next
  case (Suc n)
  have t: "rev (take (Suc n + 1) bytes) = bytes ! Suc n # bytes ! n # rev (take n bytes)"
    "rev (take (n + 1) bytes) = bytes ! n # rev (take n bytes)"
    using Suc.prems(1) by (simp_all add: take_Suc_conv_app_nth)
  have "bytes ! Suc n \<noteq> 0" using Suc.prems(2) by auto
  then show ?case using Suc t by (auto simp del: One_nat_def)
qed

lemma sint_neg_be: "sint (v :: u64) < 0 \<longleftrightarrow> le_bytes 8 (unat v) ! 7 AND 0x80 \<noteq> 0"
proof -
  have "le_bytes 8 (unat v) ! 7 = ucast (drop_bit 56 v)" by (simp add: le_bytes_word)
  moreover have "(ucast (drop_bit 56 v) :: u8) AND 0x80 \<noteq> 0 \<longleftrightarrow> bit (ucast (drop_bit 56 v) :: u8) 7"
    using and_exp_eq_0_iff_not_bit [of "ucast (drop_bit 56 v) :: u8" 7] by simp
  moreover have "bit (ucast (drop_bit 56 v) :: u8) 7 \<longleftrightarrow> bit v 63" by (simp add: bit_simps)
  ultimately show ?thesis using bit_last_iff [of v] by simp
qed

lemma adds_asn1_int64_with_tag:
  "cbb_adds d (CBB_add_asn1_int64_with_tag d v tag) (der_element tag (int_content v))"
proof (cases "0 \<le> sint v")
  case True
  let ?bytes = "le_bytes 8 (unat v)"
  have "\<not> (?bytes ! 7 AND 0x80 \<noteq> 0)" using True sint_neg_be [of v] by simp
  moreover have "be_bytes 8 (unat v) = ?bytes ! 7 # tl (be_bytes 8 (unat v))"
    by (simp add: be_bytes_def le_bytes_word upt_rec)
  ultimately have "uint_content (unat v) = int_content v"
    unfolding uint_content_def int_content_def by (metis int_min.simps(1))
  moreover have "CBB_add_asn1_int64_with_tag d v tag = CBB_add_asn1_uint64_with_tag d v tag"
    using True by (intro ext) (simp add: CBB_add_asn1_int64_with_tag_def)
  ultimately show ?thesis using adds_asn1_uint64_with_tag [of d v tag] by simp
next
  case False
  let ?bytes = "le_bytes 8 (unat v)" and ?n = "int64_start (le_bytes 8 (unat v)) 7"
  have "?bytes ! 7 AND 0x80 \<noteq> 0" using False sint_neg_be [of v] by simp
  with int64_start_eq [of 7 ?bytes] have st: "rev (take (?n + 1) ?bytes) = int_content v" "?n \<le> 7"
    by (simp_all add: int_content_def be_bytes_def)
  have "length (int_content v) \<le> 8"
    using length_int_min [of "be_bytes 8 (unat v)"] by (simp add: int_content_def)
  moreover have "cbb_adds (d + 1) (add_u8s_down (d + 1) ?bytes (?n + 1)) (int_content v)"
    using adds_u8s_down [of "?n + 1" ?bytes "d + 1"] st by simp
  ultimately have "cbb_adds d (asn1_block d tag (add_u8s_down (d + 1) ?bytes (?n + 1)))
      (der_element tag (int_content v))"
    by (intro adds_asn1) simp_all
  moreover have "CBB_add_asn1_int64_with_tag d v tag = (\<lambda>s.
      attempt (or_lock d (attempt (CBB_add_asn1 d tag s) (\<lambda>_ s. add_u8s_down (d + 1) ?bytes (?n + 1) s)))
        (\<lambda>_ s. CBB_flush d s))"
    using False by (intro ext) (simp only: CBB_add_asn1_int64_with_tag_def if_False Let_def)
  ultimately show ?thesis
    by (simp only:, elim cbb_adds_cong)
      (simp only: asn1_block_def attempt_assoc [symmetric] attempt_or_lock)
qed


subsection \<open>The integer readers\<close>

lemma valid_tag_integer [simp]: "valid_tag CBS_ASN1_INTEGER"
  by (simp add: valid_tag_def CBS_ASN1_INTEGER_def CBS_ASN1_CONSTRUCTED_def)

lemma valid_tag_boolean [simp]: "valid_tag CBS_ASN1_BOOLEAN"
  by (simp add: valid_tag_def CBS_ASN1_BOOLEAN_def CBS_ASN1_CONSTRUCTED_def)

lemma valid_tag_octet_string [simp]: "valid_tag CBS_ASN1_OCTETSTRING"
  by (simp add: valid_tag_def CBS_ASN1_OCTETSTRING_def CBS_ASN1_CONSTRUCTED_def)

lemma drop56: "drop_bit 56 (v :: u64) = 0 \<longleftrightarrow> unat v < 2 ^ 56"
proof -
  have "drop_bit 56 v = 0 \<longleftrightarrow> unat (drop_bit 56 v) = 0" by (simp only: unat_0_iff)
  also have "\<dots> \<longleftrightarrow> unat v div 2 ^ 56 = 0" by (simp only: unat_drop_bit_div)
  finally show ?thesis by (simp add: div_eq_0_iff)
qed

lemma asn1_uint64_loop_eq:
  "asn1_uint64_loop r bs =
     (if 256 ^ length bs * unat r + be_val bs < 2 ^ 64
      then Some (of_nat (256 ^ length bs * unat r + be_val bs)) else None)"
proof (induction bs arbitrary: r)
  case Nil
  show ?case using unat_u64_less [of r] by simp
next
  case (Cons b bs)
  let ?total = "256 ^ length (b # bs) * unat r + be_val (b # bs)"
  show ?case
  proof (cases "unat r < 2 ^ 56")
    case True
    have step: "256 ^ length bs * unat (push_bit 8 r OR ucast b) + be_val bs = ?total"
      by (simp only: unat_shift8_or [OF True] be_val_Cons_acc)
    have "asn1_uint64_loop r (b # bs) = asn1_uint64_loop (push_bit 8 r OR ucast b) bs"
      using True by (simp only: asn1_uint64_loop.simps drop56 simp_thms if_False)
    then show ?thesis by (simp only: Cons.IH step)
  next
    case False
    have "2 ^ 64 \<le> 256 * unat r" using False by simp
    also have "\<dots> \<le> 256 ^ length (b # bs) * unat r" by simp
    finally have "\<not> ?total < 2 ^ 64" by linarith
    moreover have "asn1_uint64_loop r (b # bs) = None"
      using False by (simp only: asn1_uint64_loop.simps drop56 simp_thms if_True)
    ultimately show ?thesis by (simp only: if_False)
  qed
qed

lemma be_val_minimal_bound:
  assumes "int_min bs = bs" "2 \<le> length bs" "hd bs AND 0x80 = 0"
  shows "128 * 256 ^ (length bs - 2) \<le> be_val bs"
proof -
  obtain b c cs where bs: "bs = b # c # cs" using assms(2)
    by (cases bs rule: int_min.cases) auto
  show ?thesis
  proof (cases "b = 0")
    case True
    have "length (int_min (c # cs)) < length bs" using length_int_min [of "c # cs"] bs by simp
    then have "c AND 0x80 \<noteq> 0" using True assms(1) unfolding bs by (auto split: if_splits)
    then have "128 \<le> unat c" using u8_msb [of c] by simp
    then have "128 * 256 ^ length cs \<le> unat c * 256 ^ length cs" by (intro mult_le_mono1)
    also have "\<dots> \<le> be_val bs" by (simp add: bs be_val_Cons)
    finally show ?thesis by (simp add: bs)
  next
    case False
    then have "1 \<le> unat b" by (simp add: Suc_leI unat_gt_0)
    then have "256 * 256 ^ length cs \<le> unat b * (256 * 256 ^ length cs)" by simp
    then have "128 * 256 ^ length cs \<le> unat b * (256 * 256 ^ length cs)" by linarith
    also have "\<dots> \<le> be_val bs" by (simp add: bs be_val_Cons)
    finally show ?thesis by (simp add: bs)
  qed
qed

lemma be_val_int_min_nonneg:
  assumes "bs \<noteq> []" "hd bs AND 0x80 = 0"
  shows "be_val (int_min bs) = be_val bs"
proof -
  from int_min_split [OF assms(1)] assms(2) obtain k where "bs = replicate k 0 @ int_min bs"
    by (auto simp: sign_byte_def)
  then have "be_val bs = be_val (replicate k 0 @ int_min bs)" by simp
  then show ?thesis by (simp add: be_val_append)
qed

lemma uint_content_facts:
  assumes "n < 2 ^ 64"
  shows "CBS_is_unsigned_asn1_integer (uint_content n)" "be_val (uint_content n) = n"
    "length (uint_content n) \<le> 9"
proof -
  let ?bs = "0 # be_bytes 8 n"
  have "sign_byte (int_min ?bs) = sign_byte ?bs" using int_min_split [of ?bs] by auto
  then have "hd (uint_content n) AND 0x80 = 0"
    by (auto simp: uint_content_def sign_byte_def split: if_splits)
  then show "CBS_is_unsigned_asn1_integer (uint_content n)"
    by (simp add: CBS_is_unsigned_asn1_integer_def valid_integer_iff uint_content_def int_min_idem)
  show "be_val (uint_content n) = n"
    unfolding uint_content_def using assms
    by (subst be_val_int_min_nonneg) (simp_all add: be_val_Cons be_val_be_bytes)
  show "length (uint_content n) \<le> 9"
    using length_int_min [of ?bs] by (simp add: uint_content_def)
qed

lemma uint_content_unique:
  assumes "CBS_is_unsigned_asn1_integer bs" "be_val bs < 2 ^ 64"
  shows "bs = uint_content (be_val bs)"
proof -
  have bs: "bs \<noteq> []" "int_min bs = bs" "hd bs AND 0x80 = 0"
    using assms(1) by (auto simp: CBS_is_unsigned_asn1_integer_def valid_integer_iff split: if_splits)
  have "length bs \<le> 9"
  proof (rule ccontr)
    assume "\<not> length bs \<le> 9"
    then have l: "2 \<le> length bs" "8 \<le> length bs - 2" by simp_all
    have "256 ^ 8 \<le> (256 :: nat) ^ (length bs - 2)" using l(2) by (intro power_increasing) simp_all
    then show False using be_val_minimal_bound [OF bs(2) l(1) bs(3)] assms(2) by simp
  qed
  have s: "sign_byte bs = 0" using bs(3) by (simp add: sign_byte_def)
  let ?ext = "replicate (9 - length bs) 0 @ bs"
  have "be_bytes 9 (be_val bs) = ?ext"
    using \<open>length bs \<le> 9\<close> by (intro be_bytes_eqI) (simp_all add: be_val_append)
  moreover have "be_bytes (Suc 8) (be_val bs) = 0 # be_bytes 8 (be_val bs)"
    using assms(2) by (simp only: be_bytes_Cons) simp
  ultimately have "0 # be_bytes 8 (be_val bs) = ?ext" by simp
  then show ?thesis using int_min_extend [OF bs(1), of "9 - length bs"] bs(2) s
    by (simp add: uint_content_def)
qed

lemma CBS_get_asn1_uint64_iff:
  "CBS_get_asn1_uint64 bs = (Some v, rest) \<longleftrightarrow>
     bs = der_element CBS_ASN1_INTEGER (uint_content (unat v)) @ rest"
proof
  assume "CBS_get_asn1_uint64 bs = (Some v, rest)"
  then obtain c where c: "CBS_get_asn1 bs CBS_ASN1_INTEGER = (Some c, rest)"
    "CBS_is_unsigned_asn1_integer c" "asn1_uint64_loop 0 c = Some v"
    by (auto simp: CBS_get_asn1_uint64_def attempt_eq_Some split: if_splits)
  then have lt: "be_val c < 2 ^ 64" and v: "v = of_nat (be_val c)"
    by (auto simp: asn1_uint64_loop_eq split: if_splits)
  then have "unat v = be_val c" by (simp add: unat_of_nat_u64)
  then show "bs = der_element CBS_ASN1_INTEGER (uint_content (unat v)) @ rest"
    using CBS_get_asn1_sound [OF c(1)] uint_content_unique [OF c(2) lt] by simp
next
  assume bs: "bs = der_element CBS_ASN1_INTEGER (uint_content (unat v)) @ rest"
  note f = uint_content_facts [OF unat_u64_less [of v]]
  have "CBS_get_asn1 bs CBS_ASN1_INTEGER = (Some (uint_content (unat v)), rest)"
    unfolding bs using f(3) by (intro CBS_get_asn1_der) simp_all
  then show "CBS_get_asn1_uint64 bs = (Some v, rest)"
    using f(1,2) unat_u64_less [of v]
    by (simp add: CBS_get_asn1_uint64_def asn1_uint64_loop_eq)
qed

lemma sign_extend_eq:
  assumes "bs \<noteq> []" "length bs \<le> 8"
  shows "le_val (rev bs @ replicate (8 - length bs) (sign_byte bs)) =
    be_val (replicate (8 - length bs) (sign_byte bs) @ bs)"
  by (simp add: be_val_def)

lemma CBS_get_asn1_int64_iff:
  "CBS_get_asn1_int64 bs = (Some v, rest) \<longleftrightarrow>
     bs = der_element CBS_ASN1_INTEGER (int_content v) @ rest"
proof
  assume "CBS_get_asn1_int64 bs = (Some v, rest)"
  then obtain c s where cs: "CBS_get_asn1 bs CBS_ASN1_INTEGER = (Some c, s)" and
    k: "(case CBS_is_valid_asn1_integer c of
       None \<Rightarrow> (None, s)
     | Some is_negative \<Rightarrow>
         if 8 < length c then (None, s)
         else let sign_extend = rev c @ replicate (8 - length c) (if is_negative then 0xFF else 0)
              in (Some (of_nat (le_val sign_extend)), s)) = (Some v, rest)"
    unfolding CBS_get_asn1_int64_def attempt_eq_Some by blast
  then obtain neg where neg: "CBS_is_valid_asn1_integer c = Some neg" by (cases "CBS_is_valid_asn1_integer c") auto
  define w where "w = (of_nat (le_val (rev c @ replicate (8 - length c) (if neg then 0xFF else 0))) :: u64)"
  from k have "(if 8 < length c then (None, s) else (Some w, s)) = (Some v, rest)"
    by (simp only: neg option.case Let_def w_def)
  then have "w = v" "s = rest" and c: "CBS_get_asn1 bs CBS_ASN1_INTEGER = (Some c, rest)"
    "CBS_is_valid_asn1_integer c = Some neg" "length c \<le> 8"
    using cs neg by (auto split: if_splits)
  then have v: "v = of_nat (le_val (rev c @ replicate (8 - length c) (if neg then 0xFF else 0)))"
    by (simp only: w_def)
  from c(2) have m: "c \<noteq> []" "int_min c = c" "neg \<longleftrightarrow> hd c AND 0x80 \<noteq> 0"
    by (auto simp: valid_integer_iff split: if_splits)
  let ?ext = "replicate (8 - length c) (sign_byte c) @ c"
  have "(if neg then 0xFF else 0) = sign_byte c" using m(3) by (simp add: sign_byte_def)
  with v have "v = of_nat (be_val ?ext)" by (simp only: sign_extend_eq [OF m(1) c(3)])
  moreover have "be_val ?ext < 2 ^ 64" using be_val_less [of ?ext] c(3) by simp
  ultimately have "be_val ?ext = unat v" by (simp add: unat_of_nat_u64)
  then have "be_bytes 8 (unat v) = ?ext" using c(3) by (intro be_bytes_eqI) simp_all
  then have "int_content v = c" using int_min_extend [OF m(1)] m(2) by (simp add: int_content_def)
  then show "bs = der_element CBS_ASN1_INTEGER (int_content v) @ rest"
    using CBS_get_asn1_sound [OF c(1)] by simp
next
  assume bs: "bs = der_element CBS_ASN1_INTEGER (int_content v) @ rest"
  let ?c = "int_content v" and ?b = "be_bytes 8 (unat v)"
  have ne: "?b \<noteq> []" using length_be_bytes [of 8 "unat v"] by (metis list.size(3) zero_neq_numeral)
  from int_min_split [OF ne] obtain k where k: "?b = replicate k (sign_byte ?b) @ ?c"
    "sign_byte ?c = sign_byte ?b" by (auto simp: int_content_def)
  have "length ?b = k + length ?c" using arg_cong [OF k(1), of length] by simp
  then have k8: "k = 8 - length ?c" "length ?c \<le> 8" by simp_all
  have ne': "?c \<noteq> []" using ne by (simp add: int_content_def)
  have "be_val (replicate (8 - length ?c) (sign_byte ?c) @ ?c) = unat v"
    using k k8 be_val_be_bytes [of 8 "unat v"] unat_u64_less [of v] by simp
  then have "of_nat (le_val (rev ?c @ replicate (8 - length ?c) (sign_byte ?c))) = v"
    using sign_extend_eq [OF ne' k8(2)] by simp
  moreover have "CBS_is_valid_asn1_integer ?c = Some (hd ?c AND 0x80 \<noteq> 0)"
    using ne' by (simp add: valid_integer_iff int_content_def int_min_idem)
  moreover have "CBS_get_asn1 bs CBS_ASN1_INTEGER = (Some ?c, rest)"
    unfolding bs using k8(2) by (intro CBS_get_asn1_der) simp_all
  ultimately show "CBS_get_asn1_int64 bs = (Some v, rest)"
    using k8(2) by (simp add: CBS_get_asn1_int64_def Let_def sign_byte_def)
qed

lemma CBS_get_asn1_bool_iff:
  "CBS_get_asn1_bool bs = (Some v, rest) \<longleftrightarrow>
     bs = der_element CBS_ASN1_BOOLEAN [if v then 0xFF else 0] @ rest"
proof
  assume "CBS_get_asn1_bool bs = (Some v, rest)"
  then obtain c where c: "CBS_get_asn1 bs CBS_ASN1_BOOLEAN = (Some c, rest)"
    "CBS_len c = 1" "hd c = 0 \<or> hd c = 0xFF" "v \<longleftrightarrow> hd c \<noteq> 0"
    by (auto simp: CBS_get_asn1_bool_def attempt_eq_Some Let_def split: if_splits)
  note s = CBS_get_asn1_sound [OF c(1)]
  have "unat (CBS_len c) = length c" using s unfolding CBS_len_def by (intro unat_of_nat_u64) simp
  then have "length c = 1" using c(2) by simp
  then obtain b where "c = [b]" by (auto simp: length_Suc_conv)
  with c s show "bs = der_element CBS_ASN1_BOOLEAN [if v then 0xFF else 0] @ rest" by auto
next
  assume "bs = der_element CBS_ASN1_BOOLEAN [if v then 0xFF else 0] @ rest"
  then have "CBS_get_asn1 bs CBS_ASN1_BOOLEAN = (Some [if v then 0xFF else 0], rest)"
    by (simp add: CBS_get_asn1_der)
  then show "CBS_get_asn1_bool bs = (Some v, rest)"
    by (simp add: CBS_get_asn1_bool_def CBS_len_def Let_def)
qed

end
