(* ===== verification/Order.thy ===== *)
theory Order
  imports Prelude "HOL-Library.Multiset"
begin

text \<open>
  The interface between code that compares and code that sorts or searches.  A C comparison
  function returns an \<open>int\<close> whose sign is the order; \<open>comparator\<close> states the laws it has to
  obey for \<^verbatim>\<open>qsort\<close>, the stack's heapsort and its binary search to mean something.
\<close>

text \<open>
  \<^verbatim>\<open>qsort\<close> of the C library: any permutation sorted by the comparison.  Insertion sort is one;
  which one is taken only matters for elements that compare equal.
\<close>

fun insert_by :: "('a \<Rightarrow> 'a \<Rightarrow> int) \<Rightarrow> 'a \<Rightarrow> 'a list \<Rightarrow> 'a list" where
  "insert_by cmp x [] = [x]"
| "insert_by cmp x (y # ys) = (if cmp x y \<le> 0 then x # y # ys else y # insert_by cmp x ys)"

fun qsort :: "('a \<Rightarrow> 'a \<Rightarrow> int) \<Rightarrow> 'a list \<Rightarrow> 'a list" where
  "qsort cmp [] = []"
| "qsort cmp (x # xs) = insert_by cmp x (qsort cmp xs)"

definition sorted_by :: "('a \<Rightarrow> 'a \<Rightarrow> int) \<Rightarrow> 'a list \<Rightarrow> bool" where
  "sorted_by cmp xs \<longleftrightarrow> sorted_wrt (\<lambda>x y. cmp x y \<le> 0) xs"

locale comparator =
  fixes cmp :: "'a \<Rightarrow> 'a \<Rightarrow> int"
  assumes cmp_flip: "sgn (cmp y x) = - sgn (cmp x y)"
    and cmp_trans: "cmp x y \<le> 0 \<Longrightarrow> cmp y z \<le> 0 \<Longrightarrow> cmp x z \<le> 0"
begin

lemma cmp_total: "cmp x y \<le> 0 \<or> cmp y x \<le> 0"
  using cmp_flip [of x y] by (auto simp: sgn_if split: if_splits)

lemma cmp_neg_iff: "cmp y x < 0 \<longleftrightarrow> 0 < cmp x y"
  using cmp_flip [of x y] by (auto simp: sgn_if split: if_splits)

lemma cmp_zero_iff: "cmp y x = 0 \<longleftrightarrow> cmp x y = 0"
  using cmp_flip [of x y] by (auto simp: sgn_if split: if_splits)

lemma cmp_refl: "cmp x x = 0"
  using cmp_flip [of x x] by (simp add: sgn_if split: if_splits)

lemma cmp_less_trans: "cmp x y < 0 \<Longrightarrow> cmp y z \<le> 0 \<Longrightarrow> cmp x z < 0"
proof -
  assume a: "cmp x y < 0" "cmp y z \<le> 0"
  then have "cmp x y \<le> 0" by simp
  then have "cmp x z \<le> 0" using a(2) by (rule cmp_trans)
  moreover have "cmp x z \<noteq> 0"
  proof
    assume "cmp x z = 0"
    then have "cmp z x \<le> 0" using cmp_zero_iff by force
    then have "cmp y x \<le> 0" using a(2) cmp_trans by blast
    then show False using a(1) cmp_neg_iff by force
  qed
  ultimately show ?thesis by simp
qed

lemma cmp_le_less_trans: "cmp x y \<le> 0 \<Longrightarrow> cmp y z < 0 \<Longrightarrow> cmp x z < 0"
proof -
  assume a: "cmp x y \<le> 0" "cmp y z < 0"
  then have "cmp y z \<le> 0" by simp
  with a(1) have "cmp x z \<le> 0" by (rule cmp_trans)
  moreover have "cmp x z \<noteq> 0"
  proof
    assume "cmp x z = 0"
    then have "cmp z x \<le> 0" using cmp_zero_iff by force
    then have "cmp z y \<le> 0" using a(1) cmp_trans by blast
    then show False using a(2) cmp_neg_iff by force
  qed
  ultimately show ?thesis by simp
qed

lemma cmp_zero_left: "cmp x y = 0 \<Longrightarrow> cmp x z \<le> 0 \<longleftrightarrow> cmp y z \<le> 0"
  using cmp_trans cmp_zero_iff by (metis order_refl)

lemma sorted_by_Cons: "sorted_by cmp (x # xs) \<longleftrightarrow> (\<forall>y \<in> set xs. cmp x y \<le> 0) \<and> sorted_by cmp xs"
  by (simp add: sorted_by_def)

lemma set_insert_by: "set (insert_by cmp x ys) = insert x (set ys)"
  by (induction ys) auto

lemma mset_insert_by: "mset (insert_by cmp x ys) = add_mset x (mset ys)"
  by (induction ys) auto

lemma sorted_insert_by: "sorted_by cmp ys \<Longrightarrow> sorted_by cmp (insert_by cmp x ys)"
proof (induction ys)
  case Nil
  then show ?case by (simp add: sorted_by_def)
next
  case (Cons y ys)
  show ?case
  proof (cases "cmp x y \<le> 0")
    case True
    with Cons.prems show ?thesis by (auto simp: sorted_by_Cons intro: cmp_trans)
  next
    case False
    then have "cmp y x \<le> 0" using cmp_total by blast
    with Cons False show ?thesis by (auto simp: sorted_by_Cons set_insert_by)
  qed
qed

lemma mset_qsort: "mset (qsort cmp xs) = mset xs"
  by (induction xs) (auto simp: mset_insert_by)

lemma sorted_qsort: "sorted_by cmp (qsort cmp xs)"
proof (induction xs)
  case Nil
  then show ?case by (simp add: sorted_by_def)
next
  case (Cons x xs)
  then show ?case by (simp add: sorted_insert_by)
qed

text \<open>When only equal elements compare equal, the sorted permutation is unique.\<close>

lemma sorted_by_unique:
  assumes "\<And>x y. cmp x y = 0 \<Longrightarrow> x = y"
  shows "sorted_by cmp xs \<Longrightarrow> sorted_by cmp ys \<Longrightarrow> mset xs = mset ys \<Longrightarrow> xs = ys"
proof (induction xs arbitrary: ys)
  case Nil
  then show ?case by simp
next
  case (Cons x xs)
  then obtain y ys' where ys: "ys = y # ys'" by (cases ys) auto
  have "x \<in> set ys" "y \<in> set (x # xs)" using Cons.prems(3) ys
    by (metis list.set_intros(1) mset_eq_setD)+
  then have "cmp y x \<le> 0" "cmp x y \<le> 0"
    using Cons.prems(1,2) ys cmp_refl by (auto simp: sorted_by_Cons)
  moreover from this(1) have "\<not> cmp x y < 0" using cmp_neg_iff [of x y] by simp
  ultimately have "cmp x y = 0" by simp
  then have "x = y" by (rule assms)
  with Cons ys show ?case by (auto simp: sorted_by_Cons)
qed

end

end
