(* ===== verification/Oid_Set.thy ===== *)
theory Oid_Set
  imports Der_Values Order "HOL-Library.List_Lexorder"
begin

text \<open>
  OBJECT IDENTIFIER contents to and from dotted text, and the canonical order of a SET OF
  (crypto/bytestring/cbs.c and cbb.c).
\<close>

subsection \<open>OBJECT IDENTIFIER text\<close>

text \<open>\<^verbatim>\<open>snprintf\<close> with \<^verbatim>\<open>PRIu64\<close>: the decimal digits.\<close>

fun decimal :: "nat \<Rightarrow> u8 list" where
  "decimal n = (if n < 10 then [of_nat (48 + n)] else decimal (n div 10) @ [of_nat (48 + n mod 10)])"

declare decimal.simps [simp del]

definition add_decimal :: "nat \<Rightarrow> u64 \<Rightarrow> unit builder" where
  "add_decimal d v = CBB_add_bytes d (decimal (unat v))"

lemma parse_base128_progress:
  "parse_base128_integer bs = (Some v, rest) \<Longrightarrow> length rest < length bs"
  using parse_base128_integer_sound [of bs v rest] by simp

function oid_text_loop :: "cbs \<Rightarrow> unit builder" where
  "oid_text_loop copy cbb =
     (if CBS_len copy = 0 then (Some (), cbb)
      else case parse_base128_integer copy of
             (None, _) \<Rightarrow> (None, cbb)
           | (Some v, copy) \<Rightarrow>
               attempt (CBB_add_u8 0 0x2E cbb) (\<lambda>_ cbb.
               attempt (add_decimal 0 v cbb) (\<lambda>_ cbb. oid_text_loop copy cbb)))"
  by pat_completeness auto
termination
  by (relation "measure (\<lambda>(copy, _). length copy)") (auto dest: parse_base128_progress [OF sym])

declare oid_text_loop.simps [simp del]

text \<open>The result is NULL or the NUL-terminated text.\<close>

definition CBS_asn1_oid_to_text :: "(nat \<Rightarrow> (nat \<Rightarrow> u8) option) \<Rightarrow> cbs \<Rightarrow> u8 list option" where
  "CBS_asn1_oid_to_text heap cbs =
     (case CBB_init heap 32 of
        None \<Rightarrow> None
      | Some cbb \<Rightarrow>
        (case parse_base128_integer cbs of
           (None, _) \<Rightarrow> None
         | (Some v, copy) \<Rightarrow>
             fst (attempt
               (if 80 \<le> v
                then attempt (CBB_add_bytes 0 [0x32, 0x2E] cbb) (\<lambda>_ cbb. add_decimal 0 (v - 80) cbb)
                else attempt (add_decimal 0 (v div 40) cbb) (\<lambda>_ cbb.
                     attempt (CBB_add_u8 0 0x2E cbb) (\<lambda>_ cbb. add_decimal 0 (v mod 40) cbb)))
               (\<lambda>_ cbb. attempt (oid_text_loop copy cbb) (\<lambda>_ cbb.
                        attempt (CBB_add_u8 0 0 cbb) (\<lambda>_ cbb. CBB_finish 0 cbb))))))"

lemma decimal_loop_length:
  "decimal_loop v seen cbs = (Some (w, seen'), rest) \<Longrightarrow>
     length rest \<le> length cbs \<and> (\<not> seen \<longrightarrow> seen' \<longrightarrow> length rest < length cbs)"
proof (induction v seen cbs rule: decimal_loop.induct)
  case (2 v seen c cbs)
  then show ?case by (fastforce split: if_splits)
qed simp

lemma parse_dotted_progress:
  assumes "parse_dotted_decimal cbs = (Some v, rest)"
  shows "length rest < length cbs"
proof -
  obtain r mid where m: "CBS_get_u64_decimal cbs = (r, mid)" by (cases "CBS_get_u64_decimal cbs")
  with assms obtain w where "r = Some w" by (cases r) (auto simp: parse_dotted_decimal_def)
  with m have m: "CBS_get_u64_decimal cbs = (Some w, mid)" by simp
  then have "length mid < length cbs"
    by (auto simp: CBS_get_u64_decimal_def attempt_eq_Some split: if_splits dest: decimal_loop_length)
  moreover have "length rest \<le> length mid"
    using assms m by (cases mid) (auto simp: parse_dotted_decimal_def split: if_splits)
  ultimately show ?thesis by simp
qed

function oid_from_loop :: "nat \<Rightarrow> cbs \<Rightarrow> unit builder" where
  "oid_from_loop d cbs cbb =
     (if CBS_len cbs = 0 then (Some (), cbb)
      else case parse_dotted_decimal cbs of
             (None, _) \<Rightarrow> (None, cbb)
           | (Some a, cbs) \<Rightarrow>
               attempt (add_base128_integer d a cbb) (\<lambda>_ cbb. oid_from_loop d cbs cbb))"
  by pat_completeness auto
termination
  by (relation "measure (\<lambda>(_, cbs, _). length cbs)") (auto dest: parse_dotted_progress [OF sym])

declare oid_from_loop.simps [simp del]

definition CBB_add_asn1_oid_from_text :: "nat \<Rightarrow> u8 list \<Rightarrow> unit builder" where
  "CBB_add_asn1_oid_from_text d text cbb =
     attempt (CBB_flush d cbb) (\<lambda>_ cbb.
       case parse_dotted_decimal text of
         (None, _) \<Rightarrow> (None, cbb)
       | (Some a, cbs) \<Rightarrow>
           (case parse_dotted_decimal cbs of
              (None, _) \<Rightarrow> (None, cbb)
            | (Some b, cbs) \<Rightarrow>
                if 2 < a \<or> a < 2 \<and> 39 < b \<or> 0xFFFFFFFFFFFFFFFF - 80 < b then (None, cbb)
                else attempt (add_base128_integer d (40 * a + b) cbb)
                       (\<lambda>_ cbb. oid_from_loop d cbs cbb)))"

subsection \<open>SET OF\<close>

text \<open>\<^verbatim>\<open>OPENSSL_memcmp\<close> on the first \<open>n\<close> bytes.\<close>

fun memcmp :: "u8 list \<Rightarrow> u8 list \<Rightarrow> nat \<Rightarrow> int" where
  "memcmp (a # as) (b # bs) (Suc n) = (if a < b then -1 else if b < a then 1 else memcmp as bs n)"
| "memcmp _ _ _ = 0"

definition compare_set_of_element :: "cbs \<Rightarrow> cbs \<Rightarrow> int" where
  "compare_set_of_element a b =
     (let a_len = length a; b_len = length b;
          min_len = (if a_len < b_len then a_len else b_len);
          ret = memcmp a b min_len
      in if ret \<noteq> 0 then ret
         else if a_len = b_len then 0
         else if a_len < b_len then -1 else 1)"

function set_of_count :: "cbs \<Rightarrow> nat option" where
  "set_of_count cbs =
     (if cbs = [] then Some 0
      else case CBS_get_any_asn1_element cbs of
             (None, _) \<Rightarrow> None
           | (Some _, cbs) \<Rightarrow> map_option Suc (set_of_count cbs))"
  by pat_completeness auto
termination
  by (relation "measure length") (auto dest: CBS_get_any_asn1_element_progress [OF sym])

declare set_of_count.simps [simp del]

fun set_of_children :: "nat \<Rightarrow> cbs \<Rightarrow> cbs list option" where
  "set_of_children 0 cbs = Some []"
| "set_of_children (Suc n) cbs =
     (case CBS_get_any_asn1_element cbs of
        (None, _) \<Rightarrow> None
      | (Some (out, _, _), cbs) \<Rightarrow> map_option (Cons out) (set_of_children n cbs))"

definition CBB_flush_asn1_set_of :: "bool \<Rightarrow> nat \<Rightarrow> unit builder" where
  "CBB_flush_asn1_set_of malloc_ok d cbb =
     attempt (CBB_flush d cbb) (\<lambda>_ cbb.
       let buf = take (unat (CBB_len d cbb)) (drop (unat (CBB_data d cbb)) (cb_buf cbb))
       in case set_of_count buf of
            None \<Rightarrow> (None, cbb)
          | Some num_children \<Rightarrow>
              if num_children < 2 then (Some (), cbb)
              else if \<not> malloc_ok then (None, cbb)
              else (case set_of_children num_children buf of
                      None \<Rightarrow> (None, cbb)
                    | Some children \<Rightarrow>
                        (Some (), cbb_store (CBB_data d cbb)
                                    (concat (qsort compare_set_of_element children)) cbb)))"


subsection \<open>The order of a SET OF is the lexicographic order of the encodings\<close>

lemma compare_set_of_simps:
  "compare_set_of_element [] [] = 0"
  "compare_set_of_element [] (b # bs) = -1"
  "compare_set_of_element (a # as) [] = 1"
  "compare_set_of_element (a # as) (b # bs) =
     (if a < b then -1 else if b < a then 1 else compare_set_of_element as bs)"
  by (auto simp: compare_set_of_element_def Let_def)

lemma compare_set_of_lex:
  "compare_set_of_element a b = (if a < b then -1 else if a = b then 0 else 1)"
proof (induction a arbitrary: b)
  case Nil
  show ?case by (cases b) (simp_all add: compare_set_of_simps)
next
  case (Cons x a)
  show ?case by (cases b) (auto simp: compare_set_of_simps Cons.IH)
qed

interpretation set_of: comparator compare_set_of_element
  by unfold_locales (auto simp: compare_set_of_lex split: if_splits)

lemma qsort_set_of: "qsort compare_set_of_element els = sort els"
proof (rule set_of.sorted_by_unique)
  show "compare_set_of_element x y = 0 \<Longrightarrow> x = y" for x y
    by (simp add: compare_set_of_lex split: if_splits)
  show "sorted_by compare_set_of_element (qsort compare_set_of_element els)"
    by (rule set_of.sorted_qsort)
  have "sorted_wrt (\<lambda>x y. compare_set_of_element x y \<le> 0) (sort els)"
    using sorted_sort [of els]
    by (rule sorted_wrt_mono_rel [rotated]) (auto simp: compare_set_of_lex)
  then show "sorted_by compare_set_of_element (sort els)" by (simp add: sorted_by_def)
  show "mset (qsort compare_set_of_element els) = mset (sort els)" by (simp add: set_of.mset_qsort)
qed

definition der_elements :: "u8 list list \<Rightarrow> bool" where
  "der_elements els \<longleftrightarrow> (\<forall>e \<in> set els. \<exists>tag c. valid_tag tag \<and> length c < 2 ^ 32 \<and> e = der_element tag c)"

lemma der_elements_Cons:
  "der_elements (e # els) \<longleftrightarrow>
     (\<exists>tag c. valid_tag tag \<and> length c < 2 ^ 32 \<and> e = der_element tag c) \<and> der_elements els"
  by (simp add: der_elements_def)

lemma set_of_count_elements: "der_elements els \<Longrightarrow> set_of_count (concat els) = Some (length els)"
proof (induction els)
  case Nil
  then show ?case by (simp add: set_of_count.simps)
next
  case (Cons e els)
  then obtain tag c where e: "valid_tag tag" "length c < 2 ^ 32" "e = der_element tag c"
    by (auto simp: der_elements_Cons)
  then have "e \<noteq> []" using der_element_nonempty [of tag c] by auto
  moreover have "set_of_count (concat els) = Some (length els)"
    using Cons by (simp add: der_elements_Cons)
  ultimately show ?case using CBS_get_any_asn1_element_der [OF e(1,2), of "concat els"] e(3)
    by (subst set_of_count.simps) simp
qed

lemma set_of_children_elements: "der_elements els \<Longrightarrow> set_of_children (length els) (concat els) = Some els"
proof (induction els)
  case Nil
  then show ?case by simp
next
  case (Cons e els)
  then obtain tag c where e: "valid_tag tag" "length c < 2 ^ 32" "e = der_element tag c"
    by (auto simp: der_elements_Cons)
  moreover have "set_of_children (length els) (concat els) = Some els"
    using Cons by (simp add: der_elements_Cons)
  ultimately show ?case using CBS_get_any_asn1_element_der [OF e(1,2), of "concat els"] by simp
qed

text \<open>The bytes the \<open>CBB\<close> at depth \<open>d\<close> holds so far, and what comes before them.\<close>

definition cbb_contents :: "nat \<Rightarrow> cbb \<Rightarrow> u8 list" where
  "cbb_contents d s = drop (unat (CBB_data d s)) (cbb_bytes s)"

lemma child_range:
  assumes ok: "cbb_ok s" and d: "length (cb_children s) = d"
  shows "unat (CBB_data d s) \<le> unat (cb_len s)"
    "unat (CBB_len d s) = unat (cb_len s) - unat (CBB_data d s)"
proof -
  let ?o = "cc_offset (cb_children s ! (d - 1))" and ?k = "cc_pending_len_len (cb_children s ! (d - 1))"
  have "unat (CBB_data d s) \<le> unat (cb_len s) \<and>
    unat (CBB_len d s) = unat (cb_len s) - unat (CBB_data d s)"
  proof (cases "0 < d")
    case True
    then have "cb_children s ! (d - 1) \<in> set (cb_children s)" using d by (intro nth_mem) simp
    then have le: "unat ?o + unat ?k \<le> unat (cb_len s)"
      using ok by (auto simp: cbb_ok_def child_start_def)
    then have o: "unat (?o + ucast ?k) = unat ?o + unat ?k"
      using unat_u64_less [of "cb_len s"] by (simp add: unat_word_ariths unat_ucast_u8)
    then have "?o + ucast ?k \<le> cb_len s" using le by (simp add: word_le_nat_alt)
    from unat_sub_le [OF this] o le True show ?thesis
      by (simp add: CBB_data_def CBB_len_def diff_diff_eq)
  next
    case False
    then show ?thesis by (simp add: CBB_data_def CBB_len_def)
  qed
  then show "unat (CBB_data d s) \<le> unat (cb_len s)"
    "unat (CBB_len d s) = unat (cb_len s) - unat (CBB_data d s)" by auto
qed

lemma set_of_flush:
  assumes ok: "cbb_ok s" and d: "length (cb_children s) = d"
    and els: "cbb_contents d s = concat els" "der_elements els"
  shows "\<exists>s'. CBB_flush_asn1_set_of True d s = (Some (), s') \<and> cbb_ok s' \<and>
    cb_children s' = cb_children s \<and> cb_len s' = cb_len s \<and>
    cbb_bytes s' = take (unat (CBB_data d s)) (cbb_bytes s) @ concat (sort els)"
proof -
  let ?st = "unat (CBB_data d s)" and ?len = "unat (cb_len s)"
  note r = child_range [OF ok d]
  have flush: "CBB_flush d s = (Some (), s)" using ok d by (simp add: CBB_flush_idle)
  have buf: "take (unat (CBB_len d s)) (drop ?st (cb_buf s)) = concat els"
    using els(1) r unfolding cbb_contents_def cbb_bytes_def by (simp add: drop_take)
  have cl: "length (concat els) = ?len - ?st"
    using arg_cong [OF els(1), of length] length_cbb_bytes [OF ok] by (simp add: cbb_contents_def)
  have perm: "length (concat (sort els)) = length (concat els)"
  proof -
    have "length (concat (sort els)) = sum_list (map length (sort els))" by (rule length_concat)
    also have "\<dots> = sum_mset (image_mset length (mset els))" by (simp add: sum_mset_sum_list [symmetric])
    also have "\<dots> = length (concat els)" by (simp add: length_concat sum_mset_sum_list [symmetric])
    finally show ?thesis .
  qed
  have blen: "?len \<le> length (cb_buf s)" by (rule cbb_ok_len [OF ok])
  show ?thesis
  proof (cases "length els < 2")
    case True
    then have "sort els = els" by (cases els) auto
    moreover have "CBB_flush_asn1_set_of True d s = (Some (), s)"
      using True by (simp add: CBB_flush_asn1_set_of_def flush buf set_of_count_elements [OF els(2)])
    moreover have "cbb_bytes s = take ?st (cbb_bytes s) @ concat els"
      using els(1) by (metis append_take_drop_id cbb_contents_def)
    ultimately show ?thesis using ok by simp
  next
    case False
    let ?s' = "cbb_store (CBB_data d s) (concat (sort els)) s"
    have res: "CBB_flush_asn1_set_of True d s = (Some (), ?s')"
      using False by (simp add: CBB_flush_asn1_set_of_def flush buf set_of_count_elements [OF els(2)]
          set_of_children_elements [OF els(2)] qsort_set_of)
    let ?b = "take ?st (cb_buf s) @ concat (sort els) @ drop (?st + length (concat (sort els))) (cb_buf s)"
    have "length ?b = length (cb_buf s)" using perm cl r blen by simp
    moreover have "take ?len ?b = take ?st (cbb_bytes s) @ concat (sort els)"
      using perm cl r blen by (simp add: cbb_bytes_def min_def)
    ultimately have "cbb_ok ?s' \<and> cbb_bytes ?s' = take ?st (cbb_bytes s) @ concat (sort els)"
      using ok by (simp add: cbb_ok_def cbb_store_def cbb_bytes_def)
    then show ?thesis unfolding res by (auto simp: cbb_store_def)
  qed
qed

subsection \<open>Decimal numbers\<close>

lemma decimal_small: "n < 10 \<Longrightarrow> decimal n = [of_nat (48 + n)]"
  by (simp add: decimal.simps)

lemma decimal_big: "\<not> n < 10 \<Longrightarrow> decimal n = decimal (n div 10) @ [of_nat (48 + n mod 10)]"
  by (simp add: decimal.simps)

lemma decimal_nonempty [simp]: "decimal n \<noteq> []"
  by (simp add: decimal.simps)

lemma digit_facts:
  assumes "d < 10"
  shows "OPENSSL_isdigit (of_nat (48 + d))" "unat (ucast (of_nat (48 + d) - 0x30 :: u8) :: u64) = d"
proof -
  have u: "unat (of_nat (48 + d) :: u8) = 48 + d" using assms by (intro unat_of_nat_id) simp
  then show "OPENSSL_isdigit (of_nat (48 + d))"
    using assms by (simp add: OPENSSL_isdigit_def word_le_nat_alt)
  have "(0x30 :: u8) \<le> of_nat (48 + d)" using u by (simp add: word_le_nat_alt)
  from unat_sub_le [OF this] u have "unat (of_nat (48 + d) - 0x30 :: u8) = d" by simp
  then show "unat (ucast (of_nat (48 + d) - 0x30 :: u8) :: u64) = d" by (simp only: unat_ucast_u8)
qed

lemma decimal_step:
  assumes "d < 10" "10 * unat v + d < 2 ^ 64" "\<not> (v = 0 \<and> seen)"
  shows "decimal_loop v seen (of_nat (48 + d) # rest) = decimal_loop (of_nat (10 * unat v + d)) True rest"
proof -
  define x where "x = (ucast (of_nat (48 + d) - 0x30 :: u8) :: u64)"
  have x: "unat x = d" unfolding x_def by (rule digit_facts(2) [OF assms(1)])
  have v10: "unat (v * 10) = unat v * 10" using assms(2) by (simp add: unat_word_ariths)
  have "x \<le> 0xFFFFFFFFFFFFFFFF" using x assms(1) by (simp add: word_le_nat_alt)
  from unat_sub_le [OF this] x have m: "unat (0xFFFFFFFFFFFFFFFF - x) = 18446744073709551615 - d" by simp
  have "unat v \<le> 18446744073709551615 div 10" using assms(2) by simp
  then have "\<not> (0xFFFFFFFFFFFFFFFF div 10 < v)" by (simp add: word_less_nat_alt not_less)
  moreover have "\<not> 0xFFFFFFFFFFFFFFFF - x < v * 10"
    unfolding word_less_nat_alt m v10 using assms(2) by simp
  moreover have "v * 10 + x = of_nat (10 * unat v + d)"
    using word_eq_of_nat [OF x] by (simp add: mult.commute)
  ultimately show ?thesis
    using digit_facts(1) [OF assms(1)] assms(3)
    by (simp only: decimal_loop.simps x_def [symmetric] if_False simp_thms)
qed

lemma decimal_loop_decimal:
  "n < 2 ^ 64 \<Longrightarrow> decimal_loop 0 False (decimal n @ rest) = decimal_loop (of_nat n) True rest"
proof (induction n arbitrary: rest rule: decimal.induct)
  case (1 n)
  show ?case
  proof (cases "n < 10")
    case True
    then show ?thesis using decimal_step [of n 0 False rest] by (simp add: decimal_small)
  next
    case False
    let ?v = "of_nat (n div 10) :: u64" and ?d = "of_nat (48 + n mod 10) :: u8"
    have v: "unat ?v = n div 10" using "1.prems" by (intro unat_of_nat_u64) simp
    then have "?v \<noteq> 0" using False by (metis div_eq_0_iff unat_0 zero_neq_numeral)
    then have "decimal_loop ?v True (?d # rest) = decimal_loop (of_nat (10 * unat ?v + n mod 10)) True rest"
      using v "1.prems" by (intro decimal_step) simp_all
    moreover have "10 * unat ?v + n mod 10 = n" unfolding v by simp
    moreover have "decimal_loop 0 False (decimal n @ rest) = decimal_loop 0 False (decimal (n div 10) @ (?d # rest))"
      using False by (simp add: decimal_big)
    moreover have "\<dots> = decimal_loop ?v True (?d # rest)" using "1.IH" [OF False] "1.prems" by simp
    ultimately show ?thesis by simp
  qed
qed

lemma CBS_get_u64_decimal_decimal:
  assumes "n < 2 ^ 64" "rest = [] \<or> \<not> OPENSSL_isdigit (hd rest)"
  shows "CBS_get_u64_decimal (decimal n @ rest) = (Some (of_nat n), rest)"
  using decimal_loop_decimal [OF assms(1), of rest] assms(2)
  by (cases rest) (auto simp: CBS_get_u64_decimal_def)

subsection \<open>Dotted text\<close>

definition dot_tail :: "nat list \<Rightarrow> u8 list" where
  "dot_tail vs = concat (map (\<lambda>v. 0x2E # decimal v) vs)"

definition dot_rest :: "nat list \<Rightarrow> u8 list" where
  "dot_rest vs = (case vs of [] \<Rightarrow> [] | v # vs \<Rightarrow> decimal v @ dot_tail vs)"

lemma dot_tail_simps [simp]: "dot_tail [] = []" "dot_tail (v # vs) = 0x2E # decimal v @ dot_tail vs"
  by (simp_all add: dot_tail_def)

lemma CBS_len_pos:
  assumes "xs \<noteq> []" "length xs < 2 ^ 64"
  shows "0 < CBS_len xs"
  using assms unat_of_nat_u64 [OF assms(2)] by (simp add: CBS_len_def word_less_nat_alt)

lemma CBS_len_zero: "length xs < 2 ^ 64 \<Longrightarrow> CBS_len xs = 0 \<longleftrightarrow> xs = []"
proof (cases "xs = []")
  case True
  then show ?thesis by (simp add: CBS_len_def)
next
  case False
  assume "length xs < 2 ^ 64"
  from CBS_len_pos [OF False this] have "CBS_len xs \<noteq> 0" by auto
  with False show ?thesis by simp
qed

lemma parse_dotted_decimal_text:
  assumes "n < 2 ^ 64" "length (dot_tail vs) < 2 ^ 64"
  shows "parse_dotted_decimal (decimal n @ dot_tail vs) = (Some (of_nat n), dot_rest vs)"
proof -
  have "\<not> OPENSSL_isdigit 0x2E" by (simp add: OPENSSL_isdigit_def)
  then have "dot_tail vs = [] \<or> \<not> OPENSSL_isdigit (hd (dot_tail vs))" by (cases vs) auto
  with assms(1) have "CBS_get_u64_decimal (decimal n @ dot_tail vs) = (Some (of_nat n), dot_tail vs)"
    by (rule CBS_get_u64_decimal_decimal)
  moreover have "0 < CBS_len (decimal v @ dot_tail ws)" if "vs = v # ws" for v ws
    using that assms(2) by (intro CBS_len_pos) simp_all
  ultimately show ?thesis
    by (cases vs) (simp_all add: parse_dotted_decimal_def dot_rest_def)
qed

lemma adds_oid_from_loop:
  "\<forall>v \<in> set vs. v < 2 ^ 64 \<Longrightarrow> length (dot_rest vs) < 2 ^ 64 \<Longrightarrow>
     cbb_adds d (oid_from_loop d (dot_rest vs)) (concat (map base128 vs))"
proof (induction vs)
  case Nil
  have "oid_from_loop d (dot_rest []) = (\<lambda>cbb. (Some (), cbb))"
    by (rule ext) (subst oid_from_loop.simps, simp add: dot_rest_def CBS_len_def)
  then show ?case by (simp add: cbb_adds_skip)
next
  case (Cons v vs)
  let ?t = "dot_rest (v # vs)"
  have t: "?t = decimal v @ dot_tail vs" by (simp add: dot_rest_def)
  have len: "length (dot_tail vs) < 2 ^ 64" using Cons.prems(2) t by simp
  have "length (dot_rest vs) \<le> length (dot_tail vs)" by (cases vs) (simp_all add: dot_rest_def)
  then have IH: "cbb_adds d (oid_from_loop d (dot_rest vs)) (concat (map base128 vs))"
    using Cons len by (intro Cons.IH) auto
  have v: "v < 2 ^ 64" using Cons.prems(1) by simp
  have "CBS_len ?t \<noteq> 0" using CBS_len_zero [OF Cons.prems(2)] t by simp
  then have "oid_from_loop d ?t = (\<lambda>cbb. attempt (add_base128_integer d (of_nat v) cbb)
      (\<lambda>_ cbb. oid_from_loop d (dot_rest vs) cbb))"
    using parse_dotted_decimal_text [OF v len]
    by (intro ext) (subst oid_from_loop.simps, simp add: t)
  moreover have "cbb_adds d (add_base128_integer d (of_nat v)) (base128 v)"
    using adds_base128 [of d "of_nat v"] v by (simp only: unat_of_nat_u64)
  ultimately show ?case using cbb_adds_attempt [OF _ IH] by simp
qed


lemma length_decimal: "length (decimal n) \<le> n div 10 + 1"
proof (induction n rule: decimal.induct)
  case (1 n)
  show ?case
  proof (cases "n < 10")
    case True
    then show ?thesis by (simp add: decimal_small)
  next
    case False
    then have "length (decimal n) \<le> n div 10 div 10 + 2" using 1 by (simp add: decimal_big)
    moreover have "n div 10 div 10 + 1 \<le> n div 10" using False by simp
    ultimately show ?thesis by linarith
  qed
qed

lemma adds_decimal: "cbb_adds d (add_decimal d v) (decimal (unat v))"
proof -
  have "unat v div 10 + 1 < 2 ^ 64" using unat_u64_less [of v] by simp
  then have "length (decimal (unat v)) < 2 ^ 64" using length_decimal [of "unat v"] by linarith
  then show ?thesis unfolding add_decimal_def by (rule adds_bytes)
qed

lemma grown_by:
  "cbb_adds 0 F bs \<Longrightarrow> cbb_ok s \<Longrightarrow> cb_children s = [] \<Longrightarrow> F s = (Some u, s') \<Longrightarrow>
     cbb_grown s s' bs \<and> cbb_ok s' \<and> cb_children s' = []"
  using cbb_adds_Some [of 0 F bs s u s'] by (auto simp: cbb_grown_def)

lemma oid_text_loop_grows:
  "oid_text_loop copy s = (Some u, s') \<Longrightarrow> cbb_ok s \<Longrightarrow> cb_children s = [] \<Longrightarrow> length copy < 2 ^ 64 \<Longrightarrow>
     \<exists>vs. copy = concat (map base128 vs) \<and> (\<forall>v \<in> set vs. v < 2 ^ 64) \<and>
       cbb_grown s s' (dot_tail vs) \<and> cb_children s' = []"
proof (induction copy s rule: oid_text_loop.induct)
  case (1 copy s)
  show ?case
  proof (cases "copy = []")
    case True
    then have "s' = s" using "1.prems"(1) by (subst (asm) oid_text_loop.simps) (simp add: CBS_len_def)
    with True "1.prems" show ?thesis by (intro exI [of _ "[]"]) (simp add: cbb_grown_refl)
  next
    case False
    then have nz: "CBS_len copy \<noteq> 0" using CBS_len_zero [OF "1.prems"(4)] by simp
    from "1.prems"(1) nz obtain v copy' s1 s2 where
      p: "parse_base128_integer copy = (Some v, copy')" and
      w: "CBB_add_u8 0 0x2E s = (Some (), s1)" "add_decimal 0 v s1 = (Some (), s2)" and
      l: "oid_text_loop copy' s2 = (Some u, s')"
      by (subst (asm) oid_text_loop.simps) (auto simp: attempt_eq_Some split: option.splits prod.splits)
    from grown_by [OF adds_u8 "1.prems"(2,3) w(1)] have
      g1: "cbb_grown s s1 [0x2E]" "cbb_ok s1" "cb_children s1 = []" by auto
    from grown_by [OF adds_decimal g1(2,3) w(2)] have
      g2: "cbb_grown s1 s2 (decimal (unat v))" "cbb_ok s2" "cb_children s2 = []" by auto
    have copy: "copy = base128 (unat v) @ copy'" by (rule parse_base128_integer_sound [OF p])
    then have "length copy' < 2 ^ 64" using "1.prems"(4) by simp
    from "1.IH" [OF nz p [symmetric] refl w(1) w(2) l g2(2,3) this] obtain vs where
      vs: "copy' = concat (map base128 vs)" "\<forall>v \<in> set vs. v < 2 ^ 64"
        "cbb_grown s2 s' (dot_tail vs)" "cb_children s' = []" by blast
    have "cbb_grown s s' (dot_tail (unat v # vs))"
      using cbb_grown_trans [OF g1(1) cbb_grown_trans [OF g2(1) vs(3)]] by simp
    then show ?thesis using vs copy unat_u64_less [of v]
      by (intro exI [of _ "unat v # vs"]) simp
  qed
qed

text \<open>The text of the first two components, encoded as one number.\<close>

definition oid_head :: "nat \<Rightarrow> u8 list" where
  "oid_head v =
     (if 80 \<le> v then decimal 2 @ 0x2E # decimal (v - 80)
      else decimal (v div 40) @ 0x2E # decimal (v mod 40))"

lemma CBB_init_ok: "CBB_init heap n = Some s \<Longrightarrow> cbb_ok s \<and> cb_children s = [] \<and> cbb_bytes s = []"
  by (auto simp: CBB_init_def cbb_ok_def cbb_bytes_def split: option.splits if_splits)

lemma CBB_finish_0:
  "cbb_ok s \<Longrightarrow> cb_children s = [] \<Longrightarrow> fst (CBB_finish 0 s) = Some (cbb_bytes s)"
  by (simp add: CBB_finish_def CBB_flush_idle cbb_bytes_def)

lemma oid_to_text_form:
  assumes "CBS_asn1_oid_to_text heap der = Some txt" "length der < 2 ^ 64"
  shows "\<exists>v vs. der = base128 v @ concat (map base128 vs) \<and> v < 2 ^ 64 \<and> (\<forall>v \<in> set vs. v < 2 ^ 64) \<and>
    txt = oid_head v @ dot_tail vs @ [0] \<and> length txt < 2 ^ 64"
proof -
  from assms(1) obtain s v copy where i: "CBB_init heap 32 = Some s"
    and p: "parse_base128_integer der = (Some v, copy)"
    by (auto simp: CBS_asn1_oid_to_text_def split: option.splits prod.splits)
  define H where "H = (\<lambda>cbb. if 80 \<le> v
      then attempt (CBB_add_bytes 0 [0x32, 0x2E] cbb) (\<lambda>_ cbb. add_decimal 0 (v - 80) cbb)
      else attempt (add_decimal 0 (v div 40) cbb) (\<lambda>_ cbb.
           attempt (CBB_add_u8 0 0x2E cbb) (\<lambda>_ cbb. add_decimal 0 (v mod 40) cbb)))"
  have H: "cbb_adds 0 H (oid_head (unat v))"
  proof (cases "80 \<le> v")
    case True
    then have u: "unat (v - 80) = unat v - 80" using unat_sub_le [OF True] by simp
    have "decimal 2 = [0x32]" by (simp add: decimal_small)
    with True u cbb_adds_attempt [OF adds_bytes adds_decimal, of "[0x32, 0x2E]" 0 "v - 80"] show ?thesis
      by (simp add: H_def oid_head_def word_le_nat_alt)
  next
    case False
    have "unat (v div 40) = unat v div 40" "unat (v mod 40) = unat v mod 40"
      by (simp_all add: unat_div unat_mod)
    with False cbb_adds_attempt [OF adds_decimal adds_Cons_u8 [OF adds_decimal], of 0 "v div 40" "0x2E" "v mod 40"]
    show ?thesis by (simp add: H_def oid_head_def word_le_nat_alt)
  qed
  have "fst (attempt (H s) (\<lambda>_ cbb. attempt (oid_text_loop copy cbb) (\<lambda>_ cbb.
      attempt (CBB_add_u8 0 0 cbb) (\<lambda>_ cbb. CBB_finish 0 cbb)))) = Some txt"
    using assms(1) by (simp add: CBS_asn1_oid_to_text_def i p H_def)
  then obtain s1 s2 s3 where w: "H s = (Some (), s1)" "oid_text_loop copy s1 = (Some (), s2)"
    "CBB_add_u8 0 0 s2 = (Some (), s3)" "fst (CBB_finish 0 s3) = Some txt"
    by (auto simp: attempt_def split: option.splits prod.splits)
  from CBB_init_ok [OF i] have s: "cbb_ok s" "cb_children s = []" "cbb_bytes s = []" by auto
  from grown_by [OF H s(1,2) w(1)] have
    g1: "cbb_grown s s1 (oid_head (unat v))" "cbb_ok s1" "cb_children s1 = []" by auto
  have der: "der = base128 (unat v) @ copy" by (rule parse_base128_integer_sound [OF p])
  then have "length copy < 2 ^ 64" using assms(2) by simp
  from oid_text_loop_grows [OF w(2) g1(2,3) this] obtain vs where
    vs: "copy = concat (map base128 vs)" "\<forall>v \<in> set vs. v < 2 ^ 64"
      "cbb_grown s1 s2 (dot_tail vs)" "cb_children s2 = []" by blast
  then have "cbb_ok s2" by (simp add: cbb_grown_def)
  from grown_by [OF adds_u8 this vs(4) w(3)] have
    g3: "cbb_grown s2 s3 [0]" "cbb_ok s3" "cb_children s3 = []" by auto
  have g: "cbb_grown s s3 (oid_head (unat v) @ dot_tail vs @ [0])"
    by (rule cbb_grown_trans [OF g1(1) cbb_grown_trans [OF vs(3) g3(1)]])
  have "txt = cbb_bytes s3" using w(4) CBB_finish_0 [OF g3(2,3)] by simp
  then have "txt = oid_head (unat v) @ dot_tail vs @ [0]" using g s(3) by (simp add: cbb_grown_def)
  moreover have "length txt < 2 ^ 64"
    using \<open>txt = cbb_bytes s3\<close> length_cbb_bytes [OF g3(2)] unat_u64_less [of "cb_len s3"] by simp
  ultimately show ?thesis using der vs(1,2) unat_u64_less [of v] by blast
qed

lemma adds_oid_from_text:
  assumes "v < 2 ^ 64" "\<forall>v \<in> set vs. v < 2 ^ 64" "length (oid_head v @ dot_tail vs) < 2 ^ 64"
  shows "cbb_adds d (CBB_add_asn1_oid_from_text d (oid_head v @ dot_tail vs))
    (base128 v @ concat (map base128 vs))"
proof -
  define a b where "a = (if 80 \<le> v then 2 else v div 40)" and "b = (if 80 \<le> v then v - 80 else v mod 40)"
  have ab: "a < 2 ^ 64" "b < 2 ^ 64" "40 * a + b = v" "a \<le> 2" "a < 2 \<Longrightarrow> b \<le> 39" "b \<le> 2 ^ 64 - 1 - 80"
    using assms(1) by (auto simp: a_def b_def)
  have head: "oid_head v @ dot_tail vs = decimal a @ dot_tail (b # vs)"
    by (simp add: oid_head_def a_def b_def)
  then have len: "length (dot_tail (b # vs)) < 2 ^ 64" "length (dot_tail vs) < 2 ^ 64"
    using assms(3) by simp_all
  have p1: "parse_dotted_decimal (oid_head v @ dot_tail vs) = (Some (of_nat a), decimal b @ dot_tail vs)"
    unfolding head parse_dotted_decimal_text [OF ab(1) len(1)] by (simp add: dot_rest_def)
  have p2: "parse_dotted_decimal (decimal b @ dot_tail vs) = (Some (of_nat b), dot_rest vs)"
    by (rule parse_dotted_decimal_text [OF ab(2) len(2)])
  have ua: "unat (of_nat a :: u64) = a" and ub: "unat (of_nat b :: u64) = b"
    using ab by (simp_all add: unat_of_nat_u64)
  have guard: "\<not> (2 < (of_nat a :: u64) \<or> (of_nat a :: u64) < 2 \<and> 39 < (of_nat b :: u64) \<or>
      0xFFFFFFFFFFFFFFFF - 80 < (of_nat b :: u64))"
    using ab(4-6) by (auto simp: word_less_nat_alt ua ub)
  have sum: "40 * of_nat a + of_nat b = (of_nat v :: u64)"
    unfolding ab(3) [symmetric] by simp
  have "length (dot_rest vs) \<le> length (dot_tail vs)" by (cases vs) (simp_all add: dot_rest_def)
  then have "cbb_adds d (oid_from_loop d (dot_rest vs)) (concat (map base128 vs))"
    using assms(2) len by (intro adds_oid_from_loop) auto
  moreover have "cbb_adds d (add_base128_integer d (of_nat v)) (base128 v)"
    using adds_base128 [of d "of_nat v"] assms(1) by (simp only: unat_of_nat_u64)
  ultimately have "cbb_adds d (\<lambda>s. attempt (add_base128_integer d (of_nat v) s)
      (\<lambda>_ s. oid_from_loop d (dot_rest vs) s)) (base128 v @ concat (map base128 vs))"
    by (intro cbb_adds_attempt)
  then show ?thesis
    by (rule cbb_adds_cong)
      (simp only: CBB_add_asn1_oid_from_text_def CBB_flush_idle order_refl attempt_Some p1 p2
        prod.case option.case guard if_False sum simp_thms)
qed

subsection \<open>Valid OBJECT IDENTIFIER contents\<close>

lemma valid_oid_loop_sound:
  "valid_oid_loop prev bs \<Longrightarrow> (prev AND 0x80 \<noteq> 0 \<longleftrightarrow> 0 < m) \<Longrightarrow>
     \<exists>vs. hi128 m @ bs = concat (map base128 vs)"
proof (induction bs arbitrary: prev m)
  case Nil
  then have "m = 0" by auto
  then show ?case by (intro exI [of _ "[]"]) simp
next
  case (Cons b bs)
  let ?m = "128 * m + unat b mod 128"
  have div: "?m div 128 = m" and mod: "?m mod 128 = unat b mod 128" by simp_all
  have nz: "\<not> (m = 0 \<and> b = 0x80)" and loop: "valid_oid_loop b bs"
    using Cons.prems by (auto split: if_splits)
  show ?case
  proof (cases "b AND 0x80 = 0")
    case True
    then have "unat b < 128" using u8_msb by blast
    then have "base128 ?m = hi128 m @ [b]" by (simp add: base128_def)
    moreover obtain vs where "bs = concat (map base128 vs)"
      using Cons.IH [OF loop, of 0] True by auto
    ultimately show ?thesis by (intro exI [of _ "?m # vs"]) simp
  next
    case False
    then have b: "128 \<le> unat b" using u8_msb [of b] by simp
    have bmod: "unat b mod 128 + 128 = unat b" using b high_half_mod unat_u8_less by blast
    have pos: "0 < ?m"
    proof (rule ccontr)
      assume "\<not> 0 < ?m"
      then have "m = 0" "unat b = 128" using bmod by simp_all
      then have "m = 0 \<and> b = 0x80" using word_eq_by_unat [of b "0x80"] by simp
      with nz show False by simp
    qed
    have "hi128 ?m = hi128 m @ [b]" unfolding hi128_pos [OF pos] div mod bmod by simp
    then show ?thesis using Cons.IH [OF loop, of ?m] False pos by simp
  qed
qed

lemma valid_oid_loop_hi:
  "prev AND 0x80 = 0 \<Longrightarrow> valid_oid_loop prev (hi128 m @ rest) =
     valid_oid_loop (if m = 0 then prev else of_nat (m mod 128 + 128)) rest"
proof (induction m arbitrary: rest rule: hi128.induct)
  case (1 m)
  show ?case
  proof (cases "m = 0")
    case False
    let ?b = "of_nat (m mod 128 + 128) :: u8"
    let ?p = "if m div 128 = 0 then prev else of_nat (m div 128 mod 128 + 128) :: u8"
    have b: "unat ?b = m mod 128 + 128" by (rule unat_hi_byte)
    have "\<not> (?p AND 0x80 = 0 \<and> ?b = 0x80)"
    proof
      assume a: "?p AND 0x80 = 0 \<and> ?b = 0x80"
      then have "m mod 128 = 0" using b by simp
      then have "m div 128 \<noteq> 0" using False by (metis div_mult_mod_eq mult_0 add_0)
      then have "unat ?p = m div 128 mod 128 + 128" using unat_hi_byte [of "m div 128"] by simp
      then show False using a u8_msb [of ?p] by simp
    qed
    then have "valid_oid_loop ?p (?b # rest) = valid_oid_loop ?b rest" by auto
    with "1.IH" [OF False "1.prems", of "?b # rest"] False show ?thesis by (simp add: hi128_pos)
  qed simp
qed

lemma valid_oid_loop_complete:
  "prev AND 0x80 = 0 \<Longrightarrow> valid_oid_loop prev (concat (map base128 vs))"
proof (induction vs arbitrary: prev)
  case Nil
  then show ?case by simp
next
  case (Cons v vs)
  let ?b = "of_nat (v mod 128) :: u8" and ?m = "v div 128"
  have b: "?b AND 0x80 = 0" "?b \<noteq> 0x80" using unat_lo_byte [of v] u8_msb [of ?b] by auto
  then have "valid_oid_loop ?b (concat (map base128 vs))" by (intro Cons.IH)
  then have all: "valid_oid_loop p (?b # concat (map base128 vs))" for p using b by simp
  have "base128 v @ concat (map base128 vs) = hi128 ?m @ (?b # concat (map base128 vs))"
    by (simp add: base128_def [of v])
  then show ?case using valid_oid_loop_hi [OF Cons.prems, of ?m "?b # concat (map base128 vs)"] all
    by (simp only: list.map concat.simps)
qed

end
