(* ===== verification/Bytes_Props.thy ===== *)
theory Bytes_Props
  imports Oid_Set
begin

text \<open>
  The properties of the byte-string library: the codec interfaces of the DER readers and
  writers, whole DER trees, integers, length prefixes, OBJECT IDENTIFIERs and SET OF.
\<close>

subsection \<open>Running a writer on a fresh builder\<close>

definition cbb_run :: "(nat \<Rightarrow> (nat \<Rightarrow> u8) option) \<Rightarrow> u64 \<Rightarrow> unit builder \<Rightarrow> u8 list option" where
  "cbb_run heap cap F =
     (case CBB_init heap cap of
        None \<Rightarrow> None
      | Some s \<Rightarrow> fst (attempt (F s) (\<lambda>_ s. CBB_finish 0 s)))"

definition cbb_run_fixed :: "u8 list \<Rightarrow> u64 \<Rightarrow> unit builder \<Rightarrow> u8 list option" where
  "cbb_run_fixed buf n F = fst (attempt (F (CBB_init_fixed buf n)) (\<lambda>_ s. CBB_finish 0 s))"

definition heap_ok :: "(nat \<Rightarrow> (nat \<Rightarrow> u8) option) \<Rightarrow> bool" where
  "heap_ok heap \<longleftrightarrow> (\<forall>i. heap i \<noteq> None)"

definition written :: "unit builder \<Rightarrow> u8 list" where
  "written F = (case cbb_run (\<lambda>_. Some (\<lambda>_. 0)) 0 F of Some bs \<Rightarrow> bs | None \<Rightarrow> [])"

lemma finished:
  assumes "cbb_adds 0 F bs" "cbb_ok s" "cb_children s = []" "cbb_bytes s = []"
  shows "fst (attempt (F s) (\<lambda>_ s. CBB_finish 0 s)) \<in> {None, Some bs}"
    "cbb_room s (length bs) \<Longrightarrow> fst (attempt (F s) (\<lambda>_ s. CBB_finish 0 s)) = Some bs"
    "fst (attempt (F s) (\<lambda>_ s. CBB_finish 0 s)) = Some bs \<Longrightarrow> \<not> cb_can_resize s \<Longrightarrow>
       length bs \<le> unat (cb_cap s)"
proof -
  have c: "fst (attempt (F s) (\<lambda>_ s. CBB_finish 0 s)) =
      (case F s of (None, _) \<Rightarrow> None | (Some _, s') \<Rightarrow> Some bs) \<and>
    (fst (F s) = None \<longrightarrow> \<not> cbb_room s (length bs)) \<and>
    (fst (F s) \<noteq> None \<longrightarrow> \<not> cb_can_resize s \<longrightarrow> length bs \<le> unat (cb_cap s))"
  proof (cases "F s")
    case (Pair r s')
    show ?thesis
    proof (cases r)
      case None
      with Pair cbb_adds_None [OF assms(1,2)] assms(3) show ?thesis by simp
    next
      case (Some u)
      from grown_by [OF assms(1-3) Pair [unfolded Some]] have
        g: "cbb_grown s s' bs" "cbb_ok s'" "cb_children s' = []" by auto
      then have "cbb_bytes s' = bs" using assms(4) by (simp add: cbb_grown_def)
      moreover have "\<not> cb_can_resize s \<longrightarrow> length bs \<le> unat (cb_cap s)"
        using cbb_grown_len [OF assms(2) g(1)] g(1,2) by (auto simp: cbb_grown_def cbb_ok_def word_le_nat_alt)
      ultimately show ?thesis using Pair Some CBB_finish_0 [OF g(2,3)] by simp
    qed
  qed
  then show "fst (attempt (F s) (\<lambda>_ s. CBB_finish 0 s)) \<in> {None, Some bs}"
    "cbb_room s (length bs) \<Longrightarrow> fst (attempt (F s) (\<lambda>_ s. CBB_finish 0 s)) = Some bs"
    "fst (attempt (F s) (\<lambda>_ s. CBB_finish 0 s)) = Some bs \<Longrightarrow> \<not> cb_can_resize s \<Longrightarrow>
       length bs \<le> unat (cb_cap s)"
    by (auto split: prod.splits option.splits)
qed

lemma cbb_run_safe: "cbb_adds 0 F bs \<Longrightarrow> cbb_run heap cap F \<in> {None, Some bs}"
  using finished(1) CBB_init_ok by (auto simp: cbb_run_def split: option.splits)

lemma cbb_run_adds:
  assumes "cbb_adds 0 F bs" "heap_ok heap" "length bs < 2 ^ 64"
  shows "cbb_run heap cap F = Some bs"
proof -
  obtain junk where "heap 0 = Some junk" using assms(2) by (auto simp: heap_ok_def)
  then obtain s where i: "CBB_init heap cap = Some s" by (simp add: CBB_init_def)
  then have "cbb_room s (length bs)"
    using assms(2,3) by (auto simp: CBB_init_def heap_ok_def cbb_room_def split: option.splits if_splits)
  with finished(2) [OF assms(1)] CBB_init_ok [OF i] i show ?thesis by (simp add: cbb_run_def)
qed

lemma cbb_run_fixed_adds:
  assumes "cbb_adds 0 F bs" "unat n \<le> length buf"
  shows "cbb_run_fixed buf n F = (if length bs \<le> unat n then Some bs else None)"
proof -
  let ?s = "CBB_init_fixed buf n"
  have s: "cbb_ok ?s" "cb_children ?s = []" "cbb_bytes ?s = []" "cb_cap ?s = n" "\<not> cb_can_resize ?s"
    using assms(2) by (simp_all add: CBB_init_fixed_def cbb_ok_def cbb_bytes_def)
  note f = finished [OF assms(1) s(1-3)]
  show ?thesis
  proof (cases "length bs \<le> unat n")
    case True
    then have "cbb_room ?s (length bs)"
      using unat_u64_less [of n] by (simp add: cbb_room_def CBB_init_fixed_def)
    with f(2) True show ?thesis by (simp add: cbb_run_fixed_def)
  next
    case False
    then have "fst (attempt (F ?s) (\<lambda>_ s. CBB_finish 0 s)) \<noteq> Some bs" using f(3) s(4,5) by auto
    with f(1) False show ?thesis by (auto simp: cbb_run_fixed_def)
  qed
qed

lemma written_adds: "cbb_adds 0 F bs \<Longrightarrow> length bs < 2 ^ 64 \<Longrightarrow> written F = bs"
  by (simp add: written_def cbb_run_adds heap_ok_def)

subsection \<open>The codec interface on the model's writers and readers\<close>

abbreviation short :: "u8 list \<Rightarrow> bool" where
  "short bs \<equiv> length bs < 2 ^ 32"

lemma cbs_get_u_bytes:
  assumes "unat n \<le> 8" "x < 256 ^ unat n"
  shows "cbs_get_u (be_bytes (unat n) x @ rest) n = (Some (of_nat x), rest)"
proof -
  have "256 ^ unat n \<le> (256 :: nat) ^ 8" using assms(1) by (intro power_increasing) simp_all
  then have x: "x < 2 ^ 64" using assms(2) by simp
  have b: "be_val (be_bytes (unat n) x) = x" using assms(2) by (simp add: be_val_be_bytes)
  show ?thesis
    unfolding cbs_get_u_eq_Some [OF assms(1)]
    by (intro exI [of _ "be_bytes (unat n) x"]) (simp only: unat_of_nat_u64 [OF x] b length_be_bytes simp_thms)
qed

interpretation u64: canonical_codec
  "\<lambda>v. written (CBB_add_u64 0 v)" CBS_get_u64 "\<lambda>_. True" short
proof (unfold_locales, goal_cases)
  case (2 v rest)
  have "written (CBB_add_u64 0 v) = be_bytes 8 (unat v)" by (intro written_adds adds_u64) simp
  with cbs_get_u_bytes [of 8 "unat v" rest] unat_u64_less [of v] show ?case by (simp add: CBS_get_u64_def)
next
  case (3 bs v rest)
  have w: "written (CBB_add_u64 0 v) = be_bytes 8 (unat v)" by (intro written_adds adds_u64) simp
  from 3(2) obtain xs where "bs = xs @ rest" "length xs = 8" "unat v = be_val xs"
    by (auto simp: CBS_get_u64_def cbs_get_u_eq_Some)
  then show ?case using be_bytes_be_val [of xs] w by simp
qed simp

lemma length_base128_short: "length (base128 (unat (v :: u64))) < 2 ^ 64"
proof -
  have "length (base128 (unat v)) \<le> 10" by (rule base128_length_u64 [OF unat_u64_less])
  then show ?thesis by simp
qed

interpretation base128: canonical_codec
  "\<lambda>v. written (add_base128_integer 0 v)" parse_base128_integer "\<lambda>_. True" short
proof (unfold_locales, goal_cases)
  case (2 v rest)
  have "written (add_base128_integer 0 v) = base128 (unat v)"
    by (intro written_adds adds_base128 length_base128_short)
  with parse_base128_integer_base128 [OF unat_u64_less [of v], of rest] show ?case by simp
next
  case (3 bs v rest)
  have "written (add_base128_integer 0 v) = base128 (unat v)"
    by (intro written_adds adds_base128 length_base128_short)
  with parse_base128_integer_sound [OF 3(2)] show ?case by simp
qed simp

definition write_element :: "u8 list \<times> u32 \<Rightarrow> unit builder" where
  "write_element = (\<lambda>(c, tag). asn1_block 0 tag (CBB_add_bytes 1 c))"

lemma length_der_header: "length (der_header tag n) \<le> 16"
  using length_der_tag [of tag] length_der_length [of n] by (simp add: der_header_def)

lemma written_element:
  assumes "length c \<le> 0xFFFFFFFE"
  shows "written (write_element (c, tag)) = der_element tag c"
proof -
  have "cbb_adds 1 (CBB_add_bytes 1 c) c" using assms by (intro adds_bytes) simp
  then have "cbb_adds 0 (write_element (c, tag)) (der_element tag c)"
    using assms adds_asn1 [of 0 "CBB_add_bytes 1 c" c tag] by (simp add: write_element_def)
  moreover have "length (der_element tag c) < 2 ^ 64"
    using assms length_der_header [of tag "length c"] by (simp add: der_element_def)
  ultimately show ?thesis by (rule written_adds)
qed

interpretation element: canonical_codec
  "\<lambda>e. written (write_element e)" CBS_get_any_asn1
  "\<lambda>(c, tag). valid_tag tag \<and> length c \<le> 0xFFFFFFFE" short
proof (unfold_locales, goal_cases)
  case (1 xs ys)
  then show ?case by simp
next
  case (2 e rest)
  then show ?case by (cases e) (simp add: written_element CBS_get_any_asn1_der)
next
  case (3 bs e rest)
  obtain c tag where e: "e = (c, tag)" by (cases e)
  from CBS_get_any_asn1_sound [OF 3(2) [unfolded e]] have
    s: "valid_tag tag" "bs = der_element tag c @ rest" by auto
  have "2 \<le> length (der_header tag (length c))"
    using length_der_tag [of tag] by (simp add: der_header_def der_length_def)
  then have "length c \<le> 0xFFFFFFFE" using 3(1) s(2) by (simp add: der_element_def)
  with s e show ?case by (simp add: written_element)
qed

lemma written_uint64: "written (CBB_add_asn1_uint64 0 v) = der_element CBS_ASN1_INTEGER (uint_content (unat v))"
proof (rule written_adds)
  show "cbb_adds 0 (CBB_add_asn1_uint64 0 v) (der_element CBS_ASN1_INTEGER (uint_content (unat v)))"
    unfolding CBB_add_asn1_uint64_def by (rule adds_asn1_uint64_with_tag)
  show "length (der_element CBS_ASN1_INTEGER (uint_content (unat v))) < 2 ^ 64"
    using uint_content_facts(3) [OF unat_u64_less [of v]]
      length_der_header [of CBS_ASN1_INTEGER "length (uint_content (unat v))"]
    by (simp add: der_element_def)
qed

lemma written_int64: "written (CBB_add_asn1_int64 0 v) = der_element CBS_ASN1_INTEGER (int_content v)"
proof (rule written_adds)
  show "cbb_adds 0 (CBB_add_asn1_int64 0 v) (der_element CBS_ASN1_INTEGER (int_content v))"
    unfolding CBB_add_asn1_int64_def by (rule adds_asn1_int64_with_tag)
  have "length (int_content v) \<le> 8"
    using length_int_min [of "be_bytes 8 (unat v)"] by (simp add: int_content_def)
  then show "length (der_element CBS_ASN1_INTEGER (int_content v)) < 2 ^ 64"
    using length_der_header [of CBS_ASN1_INTEGER "length (int_content v)"]
    by (simp add: der_element_def)
qed

interpretation uint64: canonical_codec
  "\<lambda>v. written (CBB_add_asn1_uint64 0 v)" CBS_get_asn1_uint64 "\<lambda>_. True" short
  by unfold_locales (simp_all add: written_uint64 CBS_get_asn1_uint64_iff)

interpretation int64: canonical_codec
  "\<lambda>v. written (CBB_add_asn1_int64 0 v)" CBS_get_asn1_int64 "\<lambda>_. True" short
  by unfold_locales (simp_all add: written_int64 CBS_get_asn1_int64_iff)

lemma written_bool: "written (CBB_add_asn1_bool 0 v) = der_element CBS_ASN1_BOOLEAN [if v then 0xFF else 0]"
proof (rule written_adds [OF adds_asn1_bool])
  show "length (der_element CBS_ASN1_BOOLEAN [if v then 0xFF else 0]) < 2 ^ 64"
    using length_der_header [of CBS_ASN1_BOOLEAN "length [if v then 0xFF else (0 :: u8)]"]
    by (simp add: der_element_def)
qed

interpretation bool_value: canonical_codec
  "\<lambda>v. written (CBB_add_asn1_bool 0 v)" CBS_get_asn1_bool "\<lambda>_. True" short
  by unfold_locales (simp_all add: written_bool CBS_get_asn1_bool_iff)


subsection \<open>Nested elements\<close>

datatype der_tree = Leaf u32 "u8 list" | Node u32 "der_tree list"

text \<open>A tree written by the builder's API: a child is opened, filled and closed for every element.\<close>

fun write_tree :: "nat \<Rightarrow> der_tree \<Rightarrow> unit builder"
  and write_forest :: "nat \<Rightarrow> der_tree list \<Rightarrow> unit builder" where
  "write_tree d (Leaf tag c) s = asn1_block d tag (CBB_add_bytes (d + 1) c) s"
| "write_tree d (Node tag ts) s = asn1_block d tag (write_forest (d + 1) ts) s"
| "write_forest d [] s = (Some (), s)"
| "write_forest d (t # ts) s = attempt (write_tree d t s) (\<lambda>_ s. write_forest d ts s)"

fun tree_bytes :: "der_tree \<Rightarrow> u8 list"
  and forest_bytes :: "der_tree list \<Rightarrow> u8 list" where
  "tree_bytes (Leaf tag c) = der_element tag c"
| "tree_bytes (Node tag ts) = der_element tag (forest_bytes ts)"
| "forest_bytes [] = []"
| "forest_bytes (t # ts) = tree_bytes t @ forest_bytes ts"

text \<open>Valid tags, the constructed bit as it has to be, and contents the writer accepts.\<close>

fun tree_ok :: "der_tree \<Rightarrow> bool"
  and forest_ok :: "der_tree list \<Rightarrow> bool" where
  "tree_ok (Leaf tag c) \<longleftrightarrow> valid_tag tag \<and> tag AND CBS_ASN1_CONSTRUCTED = 0 \<and> length c \<le> 0xFFFFFFFE"
| "tree_ok (Node tag ts) \<longleftrightarrow> valid_tag tag \<and> tag AND CBS_ASN1_CONSTRUCTED \<noteq> 0 \<and>
     length (forest_bytes ts) \<le> 0xFFFFFFFE \<and> forest_ok ts"
| "forest_ok [] \<longleftrightarrow> True"
| "forest_ok (t # ts) \<longleftrightarrow> tree_ok t \<and> forest_ok ts"

text \<open>A recursive reader over \<^verbatim>\<open>CBS_get_any_asn1\<close>; \<open>fuel\<close> bounds the recursion.\<close>

fun read_forest :: "nat \<Rightarrow> cbs \<Rightarrow> der_tree list option" where
  "read_forest 0 cbs = None"
| "read_forest (Suc fuel) cbs =
     (if cbs = [] then Some []
      else case CBS_get_any_asn1 cbs of
             (None, _) \<Rightarrow> None
           | (Some (c, tag), cbs) \<Rightarrow>
               (case (if tag AND CBS_ASN1_CONSTRUCTED = 0 then Some (Leaf tag c)
                      else map_option (Node tag) (read_forest fuel c)) of
                  None \<Rightarrow> None
                | Some t \<Rightarrow> map_option (Cons t) (read_forest fuel cbs)))"

lemma adds_tree:
  "tree_ok t \<Longrightarrow> cbb_adds d (write_tree d t) (tree_bytes t)"
  "forest_ok ts \<Longrightarrow> cbb_adds d (write_forest d ts) (forest_bytes ts)"
proof (induction t and ts arbitrary: d and d rule: tree_bytes_forest_bytes.induct)
  case (1 tag c)
  then have "cbb_adds d (asn1_block d tag (CBB_add_bytes (d + 1) c)) (der_element tag c)"
    by (intro adds_asn1 adds_bytes) simp_all
  then show ?case by simp
next
  case (2 tag ts)
  then have "cbb_adds d (asn1_block d tag (write_forest (d + 1) ts)) (der_element tag (forest_bytes ts))"
    by (intro adds_asn1) simp_all
  then show ?case by simp
next
  case 3
  then show ?case using cbb_adds_skip by simp
next
  case (4 t ts)
  then have "cbb_adds d (\<lambda>s. attempt (write_tree d t s) (\<lambda>_ s. write_forest d ts s))
      (tree_bytes t @ forest_bytes ts)"
    by (intro cbb_adds_attempt) simp_all
  then show ?case by simp
qed

lemma forest_bytes_less: "length (forest_bytes ts) < length (tree_bytes (Node tag ts))"
proof -
  have "0 < length (der_header tag (length (forest_bytes ts)))"
    using length_der_tag [of tag] by (simp add: der_header_def del: length_greater_0_conv)
  then show ?thesis unfolding tree_bytes.simps der_element_def by simp
qed

lemma tree_bytes_pos: "0 < length (tree_bytes t)"
proof -
  have "2 \<le> length (tree_bytes t)" by (cases t) (simp_all add: der_element_nonempty)
  then show ?thesis by linarith
qed

lemma read_forest_bytes:
  "forest_ok ts \<Longrightarrow> length (forest_bytes ts) < fuel \<Longrightarrow> read_forest fuel (forest_bytes ts) = Some ts"
proof (induction fuel arbitrary: ts)
  case 0
  then show ?case by simp
next
  case (Suc fuel)
  show ?case
  proof (cases ts)
    case Nil
    then show ?thesis by simp
  next
    case (Cons t us)
    have ne: "tree_bytes t @ forest_bytes us \<noteq> []" using tree_bytes_pos [of t] by auto
    have lt: "length (tree_bytes t) + length (forest_bytes us) \<le> fuel" using Suc.prems(2) Cons by simp
    have "length (forest_bytes us) < fuel" using lt tree_bytes_pos [of t] by linarith
    then have us: "read_forest fuel (forest_bytes us) = Some us"
      using Suc.prems(1) Cons by (intro Suc.IH) simp_all
    show ?thesis
    proof (cases t)
      case (Leaf tag c)
      then have "CBS_get_any_asn1 (tree_bytes t @ forest_bytes us) = (Some (c, tag), forest_bytes us)"
        using Suc.prems(1) Cons by (simp add: CBS_get_any_asn1_der)
      then show ?thesis using Suc.prems(1) Cons Leaf us ne by simp
    next
      case (Node tag cs)
      have ok: "forest_ok cs" using Suc.prems(1) Cons Node by simp
      have "length (forest_bytes cs) < length (tree_bytes t)"
        unfolding Node by (rule forest_bytes_less)
      then have cs: "read_forest fuel (forest_bytes cs) = Some cs"
        using lt by (intro Suc.IH ok) linarith
      have "CBS_get_any_asn1 (tree_bytes t @ forest_bytes us) = (Some (forest_bytes cs, tag), forest_bytes us)"
        using Suc.prems(1) Cons Node by (simp add: CBS_get_any_asn1_der)
      then show ?thesis using Suc.prems(1) Cons Node us cs ne by simp
    qed
  qed
qed

lemma read_forest_sound:
  "read_forest fuel bs = Some ts \<Longrightarrow> short bs \<Longrightarrow> forest_ok ts \<and> forest_bytes ts = bs"
proof (induction fuel arbitrary: bs ts)
  case 0
  then show ?case by simp
next
  case (Suc fuel)
  show ?case
  proof (cases "bs = []")
    case True
    with Suc.prems(1) show ?thesis by simp
  next
    case False
    obtain r rest where g: "CBS_get_any_asn1 bs = (r, rest)" by (cases "CBS_get_any_asn1 bs")
    then obtain c tag where r: "r = Some (c, tag)" using Suc.prems(1) False by (cases r) auto
    note g = g [unfolded r]
    from element.dec_sound [OF Suc.prems(2) g] have v: "valid_tag tag" "length c \<le> 0xFFFFFFFE" by auto
    from CBS_get_any_asn1_sound [OF g] have bs: "bs = der_element tag c @ rest" by blast
    then have short: "short c" "short rest"
      using Suc.prems(2) by (auto simp: der_element_def)
    define h where "h = (if tag AND CBS_ASN1_CONSTRUCTED = 0 then Some (Leaf tag c)
      else map_option (Node tag) (read_forest fuel c))"
    from Suc.prems(1) False g obtain t us where
      t: "h = Some t" "read_forest fuel rest = Some us" "ts = t # us"
      by (auto simp: h_def [symmetric] split: option.splits)
    from Suc.IH [OF t(2) short(2)] have us: "forest_ok us" "forest_bytes us = rest" by auto
    have "tree_ok t \<and> tree_bytes t = der_element tag c"
    proof (cases "tag AND CBS_ASN1_CONSTRUCTED = 0")
      case True
      with t(1) v show ?thesis by (auto simp: h_def)
    next
      case False
      with t(1) obtain cs where cs: "read_forest fuel c = Some cs" "t = Node tag cs"
        by (auto simp: h_def)
      from Suc.IH [OF cs(1) short(1)] show ?thesis using cs(2) v False by auto
    qed
    with us bs t(3) show ?thesis by simp
  qed
qed


subsection \<open>Properties\<close>

text \<open>
  C12: the reader and the builder are inverse on nested DER.  For any byte string shorter than
  \<open>2 ^ 32\<close>, reading it recursively with \<^verbatim>\<open>CBS_get_any_asn1\<close> gives a forest of elements exactly
  when writing that forest with \<^verbatim>\<open>CBB_add_asn1\<close>, one open child per element, gives the byte
  string: no other encoding of the forest is accepted, and every open length prefix is patched
  correctly however deep the nesting is.
\<close>
theorem der_forest_canonical:
  assumes "length bs < 2 ^ 32" "heap_ok heap"
  shows "read_forest (length bs + 1) bs = Some ts \<longleftrightarrow>
    forest_ok ts \<and> cbb_run heap cap (write_forest 0 ts) = Some bs"
proof
  assume "read_forest (length bs + 1) bs = Some ts"
  from read_forest_sound [OF this assms(1)] have f: "forest_ok ts" "forest_bytes ts = bs" by auto
  then have "cbb_run heap cap (write_forest 0 ts) = Some bs"
    using cbb_run_adds [OF adds_tree(2) assms(2)] assms(1) by simp
  with f show "forest_ok ts \<and> cbb_run heap cap (write_forest 0 ts) = Some bs" by simp
next
  assume f: "forest_ok ts \<and> cbb_run heap cap (write_forest 0 ts) = Some bs"
  then have "forest_bytes ts = bs"
    using cbb_run_safe [OF adds_tree(2), of ts heap cap] by auto
  with f show "read_forest (length bs + 1) bs = Some ts"
    using read_forest_bytes [of ts "length bs + 1"] by simp
qed

theorem der_forest_canonical_witness:
  "read_forest (length [0x30, 0x03, 0x02, 0x01, 0x05 :: u8] + 1) [0x30, 0x03, 0x02, 0x01, 0x05]
     = Some [Node 0x20000010 [Leaf 2 [5]]] \<longleftrightarrow>
   forest_ok [Node 0x20000010 [Leaf 2 [5]]] \<and>
   cbb_run (\<lambda>_. Some (\<lambda>_. 0)) 4 (write_forest 0 [Node 0x20000010 [Leaf 2 [5]]])
     = Some [0x30, 0x03, 0x02, 0x01, 0x05]"
  by (rule der_forest_canonical) (simp_all add: heap_ok_def)

text \<open>
  a forest written into a fixed buffer of \<open>n\<close> bytes succeeds exactly when its encoding has
  at most \<open>n\<close> bytes, although lengths are only known, and bytes moved, when children are closed.
\<close>
theorem der_forest_fixed_buffer:
  assumes "forest_ok ts" "unat n \<le> length buf"
  shows "cbb_run_fixed buf n (write_forest 0 ts) =
    (if length (forest_bytes ts) \<le> unat n then Some (forest_bytes ts) else None)"
  by (rule cbb_run_fixed_adds [OF adds_tree(2) [OF assms(1)] assms(2)])

theorem der_forest_fixed_buffer_witness:
  "cbb_run_fixed (replicate 4 0) 4 (write_forest 0 [Leaf 4 [1, 2, 3]]) =
    (if length (forest_bytes [Leaf 4 [1, 2, 3]]) \<le> unat (4 :: u64)
     then Some (forest_bytes [Leaf 4 [1, 2, 3]]) else None)"
  by (rule der_forest_fixed_buffer) (simp_all add: valid_tag_def CBS_ASN1_CONSTRUCTED_def)

text \<open>
  C14: \<^verbatim>\<open>CBS_get_asn1_uint64\<close>, \<^verbatim>\<open>CBS_get_asn1_int64\<close> and \<^verbatim>\<open>CBS_get_asn1_bool\<close> accept exactly
  what the matching writer produces: every value has one accepted encoding.
\<close>
theorem der_values_canonical:
  assumes "length bs < 2 ^ 32"
  shows "(CBS_get_asn1_uint64 bs = (Some v, rest) \<longleftrightarrow> bs = written (CBB_add_asn1_uint64 0 v) @ rest)
    \<and> (CBS_get_asn1_int64 bs = (Some v, rest) \<longleftrightarrow> bs = written (CBB_add_asn1_int64 0 v) @ rest)
    \<and> (CBS_get_asn1_bool bs = (Some b, rest) \<longleftrightarrow> bs = written (CBB_add_asn1_bool 0 b) @ rest)"
  using uint64.dec_iff [OF assms, of v rest] int64.dec_iff [OF assms, of v rest]
    bool_value.dec_iff [OF assms, of b rest] by simp

theorem der_values_canonical_witness:
  "CBS_get_asn1_int64 [2, 2, 0xFF, 0x7F, 9] = (Some (- 129), [9]) \<longleftrightarrow>
     [2, 2, 0xFF, 0x7F, 9] = written (CBB_add_asn1_int64 0 (- 129)) @ [9]"
  using der_values_canonical [of "[2, 2, 0xFF, 0x7F, 9]" "- 129" "[9]"] by simp

text \<open>
  C15: what \<^verbatim>\<open>CBS_asn1_oid_to_text\<close> prints for the contents of an OBJECT IDENTIFIER is a
  NUL-terminated text that \<^verbatim>\<open>CBB_add_asn1_oid_from_text\<close> turns back into the same contents.
\<close>
theorem oid_text_roundtrip:
  assumes "CBS_asn1_oid_to_text heap der = Some txt" "length der < 2 ^ 32" "heap_ok heap'"
  shows "\<exists>text. txt = text @ [0] \<and> cbb_run heap' cap (CBB_add_asn1_oid_from_text 0 text) = Some der"
proof -
  have "length der < 2 ^ 64" using assms(2) by simp
  from oid_to_text_form [OF assms(1) this] obtain v vs where
    f: "der = base128 v @ concat (map base128 vs)" "v < 2 ^ 64" "\<forall>v \<in> set vs. v < 2 ^ 64"
      "txt = (oid_head v @ dot_tail vs) @ [0]" "length txt < 2 ^ 64" by auto
  then have "cbb_adds 0 (CBB_add_asn1_oid_from_text 0 (oid_head v @ dot_tail vs)) der"
    by (simp only: f(1)) (intro adds_oid_from_text, simp_all)
  from cbb_run_adds [OF this assms(3)] have
    "cbb_run heap' cap (CBB_add_asn1_oid_from_text 0 (oid_head v @ dot_tail vs)) = Some der"
    using assms(2) by simp
  with f(4) show ?thesis by blast
qed

lemma oid_to_text_example:
  "CBS_asn1_oid_to_text (\<lambda>_. Some (\<lambda>_. 0)) [0x2A, 0x86, 0x48] = Some [0x31, 0x2E, 0x32, 0x2E, 0x38, 0x34, 0x30, 0]"
  by code_simp

theorem oid_text_roundtrip_witness:
  "\<exists>text. [0x31, 0x2E, 0x32, 0x2E, 0x38, 0x34, 0x30, 0] = text @ [0] \<and>
     cbb_run (\<lambda>_. Some (\<lambda>_. 0)) 0 (CBB_add_asn1_oid_from_text 0 text) = Some [0x2A, 0x86, 0x48]"
  by (rule oid_text_roundtrip [OF oid_to_text_example]) (simp_all add: heap_ok_def)

text \<open>
  C17: \<^verbatim>\<open>CBS_is_valid_asn1_oid\<close> accepts exactly the non-empty concatenations of minimally encoded
  base-128 integers, of any size.
\<close>
theorem valid_oid_iff:
  assumes "length der < 2 ^ 64"
  shows "CBS_is_valid_asn1_oid der \<longleftrightarrow> (\<exists>vs. vs \<noteq> [] \<and> der = concat (map base128 vs))"
proof
  assume "CBS_is_valid_asn1_oid der"
  then have v: "der \<noteq> []" "valid_oid_loop 0 der"
    using CBS_len_zero [OF assms] by (auto simp: CBS_is_valid_asn1_oid_def split: if_splits)
  from valid_oid_loop_sound [OF v(2), of 0] obtain vs where vs: "der = concat (map base128 vs)" by auto
  with v(1) show "\<exists>vs. vs \<noteq> [] \<and> der = concat (map base128 vs)" by (intro exI [of _ vs]) auto
next
  assume "\<exists>vs. vs \<noteq> [] \<and> der = concat (map base128 vs)"
  then obtain vs where vs: "vs \<noteq> []" "der = concat (map base128 vs)" by blast
  then have "der \<noteq> []" by (cases vs) auto
  then show "CBS_is_valid_asn1_oid der"
    using CBS_len_zero [OF assms] valid_oid_loop_complete [of 0 vs] vs(2)
    by (simp add: CBS_is_valid_asn1_oid_def)
qed

theorem valid_oid_iff_witness:
  "CBS_is_valid_asn1_oid [0x2A, 0x86, 0x48] \<longleftrightarrow>
     (\<exists>vs. vs \<noteq> [] \<and> [0x2A, 0x86, 0x48] = concat (map base128 vs))"
  by (rule valid_oid_iff) simp

text \<open>
  C16: \<^verbatim>\<open>CBB_flush_asn1_set_of\<close> on a child holding a sequence of DER elements rewrites its
  contents to the same elements in ascending lexicographic order, keeps their number and size,
  and changes nothing before the child.
\<close>
theorem set_of_canonical:
  assumes "cbb_ok s" "length (cb_children s) = d" "cbb_contents d s = concat els" "der_elements els"
  shows "\<exists>s'. CBB_flush_asn1_set_of True d s = (Some (), s') \<and> cbb_ok s' \<and>
    cb_children s' = cb_children s \<and> cb_len s' = cb_len s \<and>
    cbb_bytes s' = take (unat (CBB_data d s)) (cbb_bytes s) @ concat (sort els)"
  by (rule set_of_flush [OF assms])

definition set_of_example :: cbb where
  "set_of_example = \<lparr>cb_buf = [0x31, 0x00, 2, 1, 5, 1, 1, 0xFF], cb_len = 8, cb_cap = 8,
     cb_can_resize = False, cb_error = False,
     cb_children = [\<lparr>cc_offset = 1, cc_pending_len_len = 1, cc_pending_is_asn1 = True\<rparr>],
     cb_alloc = (\<lambda>_. None), cb_calls = 0\<rparr>"

lemma der_elements_example: "der_elements [[2, 1, 5], [1, 1, 0xFF]]"
proof -
  have "der_element CBS_ASN1_INTEGER [5] = [2, 1, 5]" "der_element CBS_ASN1_BOOLEAN [0xFF] = [1, 1, 0xFF]"
    by (simp_all add: der_element_def der_header_def der_tag_def tag_num_def tag_class_def der_length_def
        CBS_ASN1_INTEGER_def CBS_ASN1_BOOLEAN_def)
  then show ?thesis unfolding der_elements_Cons
    by (intro conjI exI [of _ CBS_ASN1_INTEGER] exI [of _ "[5]"] exI [of _ CBS_ASN1_BOOLEAN]
        exI [of _ "[0xFF]"]) (simp_all add: der_elements_def)
qed

theorem set_of_canonical_witness:
  "\<exists>s'. CBB_flush_asn1_set_of True 1 set_of_example = (Some (), s') \<and> cbb_ok s' \<and>
     cb_children s' = cb_children set_of_example \<and> cb_len s' = cb_len set_of_example \<and>
     cbb_bytes s' = take (unat (CBB_data 1 set_of_example)) (cbb_bytes set_of_example)
       @ concat (sort [[2, 1, 5], [1, 1, 0xFF]])"
  by (rule set_of_canonical [OF _ _ _ der_elements_example])
    (simp_all add: set_of_example_def cbb_ok_def child_start_def cbb_contents_def CBB_data_def cbb_bytes_def)


subsection \<open>Integers and length prefixes\<close>

lemma bswap_bytes:
  "n < 256 ^ k \<Longrightarrow> be_val (le_bytes k (be_val (le_bytes k n))) = n"
proof -
  assume n: "n < 256 ^ k"
  have "le_bytes k (le_val (rev (le_bytes k n))) = rev (le_bytes k n)"
    using le_bytes_le_val [of "rev (le_bytes k n)"] by simp
  then show ?thesis using n by (simp add: be_val_def le_val_le_bytes)
qed

lemma bswap_involution:
  "CRYPTO_bswap2 (CRYPTO_bswap2 a) = a" "CRYPTO_bswap4 (CRYPTO_bswap4 b) = b"
  "CRYPTO_bswap8 (CRYPTO_bswap8 c) = c"
proof -
  have u: "unat (of_nat (be_val (le_bytes k n)) :: 'a::len word) = be_val (le_bytes k n)"
    if "256 ^ k = (2 :: nat) ^ LENGTH('a)" for k n
    using be_val_less [of "le_bytes k n"] that by (intro unat_of_nat_id) simp
  show "CRYPTO_bswap2 (CRYPTO_bswap2 a) = a"
    using unat_less_2p [of a] unfolding CRYPTO_bswap2_def
    by (subst u) (simp_all add: bswap_bytes)
  show "CRYPTO_bswap4 (CRYPTO_bswap4 b) = b"
    using unat_less_2p [of b] unfolding CRYPTO_bswap4_def
    by (subst u) (simp_all add: bswap_bytes)
  show "CRYPTO_bswap8 (CRYPTO_bswap8 c) = c"
    using unat_u64_less [of c] unfolding CRYPTO_bswap8_def
    by (subst u) (simp_all add: bswap_bytes)
qed

lemma get_u_narrow:
  assumes "LENGTH('a::len) \<le> 64" "unat n \<le> 8" "unat (w :: 'a word) < 256 ^ unat n"
  shows "attempt (cbs_get_u (be_bytes (unat n) (unat w) @ rest) n) (\<lambda>v cbs. (Some (ucast v :: 'a word), cbs))
    = (Some w, rest)"
proof -
  have "unat w < 2 ^ 64"
    using unat_less_2p [of w] assms(1) by (meson less_le_trans power_increasing one_le_numeral)
  then have "unat (of_nat (unat w) :: u64) = unat w" by (rule unat_of_nat_u64)
  then have "(ucast (of_nat (unat w) :: u64) :: 'a word) = w"
    using unat_less_2p [of w] by (intro word_eq_by_unat) (simp add: unat_ucast_mod)
  then show ?thesis using cbs_get_u_bytes [OF assms(2,3), of rest] by simp
qed

lemma written_be: "cbb_adds 0 F (be_bytes k n) \<Longrightarrow> k < 2 ^ 64 \<Longrightarrow> written F = be_bytes k n"
  by (intro written_adds) simp_all

text \<open>
  every fixed-width integer writer of the builder, big-endian and little-endian, is undone
  by the reader of the same width, and exactly the following bytes are left.
\<close>
theorem fixed_width_roundtrips:
  assumes "unat t < 2 ^ 24"
  shows "CBS_get_u8 (written (CBB_add_u8 0 o8) @ rest) = (Some o8, rest)
    \<and> CBS_get_u16 (written (CBB_add_u16 0 a) @ rest) = (Some a, rest)
    \<and> CBS_get_u16le (written (CBB_add_u16le 0 a) @ rest) = (Some a, rest)
    \<and> CBS_get_u24 (written (CBB_add_u24 0 t) @ rest) = (Some t, rest)
    \<and> CBS_get_u32 (written (CBB_add_u32 0 b) @ rest) = (Some b, rest)
    \<and> CBS_get_u32le (written (CBB_add_u32le 0 b) @ rest) = (Some b, rest)
    \<and> CBS_get_u64 (written (CBB_add_u64 0 c) @ rest) = (Some c, rest)
    \<and> CBS_get_u64le (written (CBB_add_u64le 0 c) @ rest) = (Some c, rest)"
proof -
  have u8: "written (CBB_add_u8 0 o8) = [o8]" by (intro written_adds adds_u8) simp
  have u16: "CBS_get_u16 (written (CBB_add_u16 0 x) @ rest) = (Some x, rest)" for x
    using get_u_narrow [of 2 x rest] unat_less_2p [of x] written_be [OF adds_u16, of x]
    by (simp add: CBS_get_u16_def)
  have u24: "CBS_get_u24 (written (CBB_add_u24 0 t) @ rest) = (Some t, rest)"
    using get_u_narrow [of 3 t rest] assms written_be [OF adds_u24 [OF assms]]
    by (simp add: CBS_get_u24_def)
  have u32: "CBS_get_u32 (written (CBB_add_u32 0 x) @ rest) = (Some x, rest)" for x
    using get_u_narrow [of 4 x rest] unat_less_2p [of x] written_be [OF adds_u32, of x]
    by (simp add: CBS_get_u32_def)
  have u64: "CBS_get_u64 (written (CBB_add_u64 0 x) @ rest) = (Some x, rest)" for x
    using cbs_get_u_bytes [of 8 "unat x" rest] unat_u64_less [of x] written_be [OF adds_u64, of x]
    by (simp add: CBS_get_u64_def)
  show ?thesis
    using u8 u16 u24 u32 u64
    by (simp add: CBS_get_u16le_def CBB_add_u16le_def CBS_get_u32le_def CBB_add_u32le_def
        CBS_get_u64le_def CBB_add_u64le_def CBS_get_u64_def bswap_involution)
qed

theorem fixed_width_roundtrips_witness:
  "CBS_get_u24 (written (CBB_add_u24 0 0x010203) @ [9]) = (Some 0x010203, [9])"
  using fixed_width_roundtrips [of "0x010203" 0 "[9]" 0 0 0] by simp

definition prefixed :: "nat \<Rightarrow> u8 \<Rightarrow> u8 list \<Rightarrow> unit builder" where
  "prefixed d k c s =
     attempt (cbb_add_length_prefixed d k s) (\<lambda>_ s.
       attempt (CBB_add_bytes (d + 1) c s) (\<lambda>_ s. CBB_flush d s))"

lemma adds_prefixed:
  assumes "unat k \<le> 8" "length c < 256 ^ unat k"
  shows "cbb_adds d (prefixed d k c) (be_bytes (unat k) (length c) @ c)"
proof -
  have "256 ^ unat k \<le> (256 :: nat) ^ 8" using assms(1) by (intro power_increasing) simp_all
  then have "length c < 2 ^ 64" using assms(2) by simp
  then have "cbb_adds d (\<lambda>s. attempt (cbb_add_child d k False s) (\<lambda>_ s.
      attempt (CBB_add_bytes (d + 1) c s) (\<lambda>_ s. CBB_flush d s))) (be_bytes (unat k) (length c) @ c)"
    using assms by (intro adds_child adds_bytes) (simp_all add: closes_def)
  then show ?thesis
    by (rule cbb_adds_cong) (simp add: prefixed_def cbb_add_length_prefixed_def CBB_flush_idle)
qed

lemma prefixed_too_long:
  assumes s: "cbb_ok s" "length (cb_children s) = d" and k: "unat k \<le> 8"
    and c: "256 ^ unat k \<le> length c" "length c < 2 ^ 64"
  shows "fst (prefixed d k c s) = None"
proof (cases "cbb_add_child d k False s")
  case (Pair r1 s1)
  show ?thesis
  proof (cases r1)
    case None
    with Pair show ?thesis by (simp add: prefixed_def cbb_add_length_prefixed_def CBB_flush_idle s)
  next
    case (Some u1)
    let ?ch = "\<lparr>cc_offset = cb_len s, cc_pending_len_len = k, cc_pending_is_asn1 = False\<rparr>"
    from cbb_add_child_Some [OF s Pair [unfolded Some]] have
      g1: "cbb_grown s s1 (replicate (unat k) 0)" "cb_children s1 = cb_children s @ [?ch]" by auto
    then have s1: "cbb_ok s1" "length (cb_children s1) = d + 1" using s by (simp_all add: cbb_grown_def)
    show ?thesis
    proof (cases "CBB_add_bytes (d + 1) c s1")
      case P2: (Pair r2 s2)
      show ?thesis
      proof (cases r2)
        case None
        with Pair Some P2 show ?thesis by (simp add: prefixed_def cbb_add_length_prefixed_def CBB_flush_idle s)
      next
        case s2: (Some u2)
        from cbb_adds_Some [OF adds_bytes [OF c(2)] s1 P2 [unfolded s2]] have
          g2: "cbb_grown s1 s2 c" "cb_children s2 = cb_children s @ [?ch]" using g1 by auto
        then have ok2: "cbb_ok s2" "cbb_bytes s2 = cbb_bytes s @ replicate (unat k) 0 @ c"
          using g1(1) by (simp_all add: cbb_grown_def)
        have "fst (cbb_write_length ?ch s2) = None"
          using cbb_write_plain_length [OF ok2(1) _ _ _ k ok2(2), of ?ch]
            length_cbb_bytes [OF s(1)] c(1) by simp
        moreover have "CBB_flush (d + 1) s2 = (Some (), s2)" "cb_children s2 ! d = ?ch"
          using ok2(1) g2(2) s(2) by (simp_all add: CBB_flush_idle nth_append)
        ultimately have "fst (CBB_flush d s2) = None"
          using ok2(1) g2(2) s(2)
          by (subst CBB_flush.simps) (auto simp: cbb_ok_def split: prod.splits option.splits)
        with Pair Some P2 s2 show ?thesis
          by (simp add: prefixed_def cbb_add_length_prefixed_def CBB_flush_idle s)
      qed
    qed
  qed
qed

text \<open>
  contents written into a child with a \<open>k\<close>-byte length prefix (\<open>k\<close> at most 3) come back from
  the reader of the same prefix; contents that the prefix cannot express make the builder fail
  instead of writing a truncated length.
\<close>
theorem length_prefixed_roundtrip:
  assumes "k \<in> {1, 2, 3}" "length c < 2 ^ 32" "heap_ok heap"
  shows "cbb_run heap cap (prefixed 0 k c) =
      (if length c < 256 ^ unat k then Some (be_bytes (unat k) (length c) @ c) else None)
    \<and> (length c < 256 ^ unat k \<longrightarrow>
       cbs_get_length_prefixed (be_bytes (unat k) (length c) @ c @ rest) (ucast k) = (Some c, rest))"
proof
  have k: "unat k \<le> 8" using assms(1) by auto
  show "cbb_run heap cap (prefixed 0 k c) =
      (if length c < 256 ^ unat k then Some (be_bytes (unat k) (length c) @ c) else None)"
  proof (cases "length c < 256 ^ unat k")
    case True
    with cbb_run_adds [OF adds_prefixed [OF k True] assms(3)] assms(2) k show ?thesis by simp
  next
    case False
    have "fst (prefixed 0 k c s) = None" if "CBB_init heap cap = Some s" for s
      using CBB_init_ok [OF that] k False assms(2) by (intro prefixed_too_long) auto
    with False show ?thesis
      by (auto simp: cbb_run_def attempt_def split: option.splits prod.splits)
  qed
  have u: "unat (ucast k :: u64) = unat k" by (rule unat_ucast_u8)
  have c64: "unat (of_nat (length c) :: u64) = length c" using assms(2) by (intro unat_of_nat_u64) simp
  show "length c < 256 ^ unat k \<longrightarrow>
       cbs_get_length_prefixed (be_bytes (unat k) (length c) @ c @ rest) (ucast k) = (Some c, rest)"
    using cbs_get_u_bytes [of "ucast k" "length c" "c @ rest"] k c64
    unfolding u by (simp add: cbs_get_length_prefixed_def CBS_get_bytes_append)
qed

theorem length_prefixed_roundtrip_witness:
  "cbb_run (\<lambda>_. Some (\<lambda>_. 0)) 0 (prefixed 0 1 (replicate 256 7)) = None"
  using length_prefixed_roundtrip [of 1 "replicate 256 7" "\<lambda>_. Some (\<lambda>_. 0)" 0 "[]"]
  by (simp add: heap_ok_def)

end
