(* ===== verification/Unicode.thy ===== *)
theory Unicode
  imports Bytes_Props
begin

text \<open>
  Reading and writing Unicode characters (\<^verbatim>\<open>crypto/bytestring/unicode.c\<close>): UTF-8, Latin-1,
  UCS-2 and UTF-32, on top of the byte-string reader and builder.
\<close>

subsection \<open>The code\<close>

definition is_valid_code_point :: "u32 \<Rightarrow> bool" where
  "is_valid_code_point v =
     (if 0x10ffff < v \<or> v AND 0xfffe = 0xfffe \<or> (0xfdd0 \<le> v \<and> v \<le> 0xfdef)
         \<or> (0xd800 \<le> v \<and> v \<le> 0xdfff)
      then False else True)"

definition BOTTOM_BITS :: "nat \<Rightarrow> u8" where
  "BOTTOM_BITS n = ucast ((push_bit n 1 :: u32) - 1)"

definition TOP_BITS :: "nat \<Rightarrow> u8" where
  "TOP_BITS n = NOT (BOTTOM_BITS (8 - n))"

text \<open>The loop over the \<open>len\<close> continuation bytes.\<close>

fun utf8_tail :: "nat \<Rightarrow> u32 \<Rightarrow> cbs \<Rightarrow> (u32, cbs) outcome" where
  "utf8_tail 0 v cbs = (Some v, cbs)"
| "utf8_tail (Suc len) v cbs =
     attempt (CBS_get_u8 cbs) (\<lambda>c cbs.
       if c AND TOP_BITS 2 \<noteq> TOP_BITS 1 then (None, cbs)
       else utf8_tail len (push_bit 6 v OR ucast (c AND BOTTOM_BITS 6)) cbs)"

definition utf8_rest :: "u32 \<Rightarrow> nat \<Rightarrow> u32 \<Rightarrow> cbs \<Rightarrow> (u32, cbs) outcome" where
  "utf8_rest v len lower_bound cbs =
     attempt (utf8_tail len v cbs) (\<lambda>v cbs.
       if \<not> is_valid_code_point v \<or> v < lower_bound then (None, cbs) else (Some v, cbs))"

definition CBS_get_utf8 :: "cbs \<Rightarrow> (u32, cbs) outcome" where
  "CBS_get_utf8 cbs =
     attempt (CBS_get_u8 cbs) (\<lambda>c cbs.
       if c \<le> 0x7f then (Some (ucast c), cbs)
       else if c AND TOP_BITS 3 = TOP_BITS 2 then utf8_rest (ucast (c AND BOTTOM_BITS 5)) 1 0x80 cbs
       else if c AND TOP_BITS 4 = TOP_BITS 3 then utf8_rest (ucast (c AND BOTTOM_BITS 4)) 2 0x800 cbs
       else if c AND TOP_BITS 5 = TOP_BITS 4 then utf8_rest (ucast (c AND BOTTOM_BITS 3)) 3 0x10000 cbs
       else (None, cbs))"

definition CBS_get_latin1 :: "cbs \<Rightarrow> (u32, cbs) outcome" where
  "CBS_get_latin1 cbs = attempt (CBS_get_u8 cbs) (\<lambda>c cbs. (Some (ucast c), cbs))"

definition CBS_get_ucs2_be :: "cbs \<Rightarrow> (u32, cbs) outcome" where
  "CBS_get_ucs2_be cbs =
     attempt (CBS_get_u16 cbs) (\<lambda>c cbs.
       if \<not> is_valid_code_point (ucast c) then (None, cbs) else (Some (ucast c), cbs))"

definition CBS_get_utf32_be :: "cbs \<Rightarrow> (u32, cbs) outcome" where
  "CBS_get_utf32_be cbs =
     attempt (CBS_get_u32 cbs) (\<lambda>v cbs. if is_valid_code_point v then (Some v, cbs) else (None, cbs))"

definition CBB_get_utf8_len :: "u32 \<Rightarrow> nat" where
  "CBB_get_utf8_len u = (if u \<le> 0x7f then 1 else if u \<le> 0x7ff then 2 else if u \<le> 0xffff then 3 else 4)"

definition CBB_add_utf8 :: "nat \<Rightarrow> u32 \<Rightarrow> unit builder" where
  "CBB_add_utf8 d u cbb =
     (if \<not> is_valid_code_point u then (None, cbb)
      else if u \<le> 0x7f then CBB_add_u8 d (ucast u) cbb
      else if u \<le> 0x7ff then
        attempt (CBB_add_u8 d (ucast (ucast (TOP_BITS 2) OR drop_bit 6 u)) cbb) (\<lambda>_.
          CBB_add_u8 d (ucast (ucast (TOP_BITS 1) OR (u AND ucast (BOTTOM_BITS 6)))))
      else if u \<le> 0xffff then
        attempt (CBB_add_u8 d (ucast (ucast (TOP_BITS 3) OR drop_bit 12 u)) cbb) (\<lambda>_ cbb.
          attempt (CBB_add_u8 d (ucast (ucast (TOP_BITS 1) OR (drop_bit 6 u AND ucast (BOTTOM_BITS 6)))) cbb) (\<lambda>_.
            CBB_add_u8 d (ucast (ucast (TOP_BITS 1) OR (u AND ucast (BOTTOM_BITS 6))))))
      else if u \<le> 0x10ffff then
        attempt (CBB_add_u8 d (ucast (ucast (TOP_BITS 4) OR drop_bit 18 u)) cbb) (\<lambda>_ cbb.
          attempt (CBB_add_u8 d (ucast (ucast (TOP_BITS 1) OR (drop_bit 12 u AND ucast (BOTTOM_BITS 6)))) cbb) (\<lambda>_ cbb.
            attempt (CBB_add_u8 d (ucast (ucast (TOP_BITS 1) OR (drop_bit 6 u AND ucast (BOTTOM_BITS 6)))) cbb) (\<lambda>_.
              CBB_add_u8 d (ucast (ucast (TOP_BITS 1) OR (u AND ucast (BOTTOM_BITS 6)))))))
      else (None, cbb))"

definition CBB_add_latin1 :: "nat \<Rightarrow> u32 \<Rightarrow> unit builder" where
  "CBB_add_latin1 d u cbb = (if u \<le> 0xff then CBB_add_u8 d (ucast u) cbb else (None, cbb))"

definition CBB_add_ucs2_be :: "nat \<Rightarrow> u32 \<Rightarrow> unit builder" where
  "CBB_add_ucs2_be d u cbb =
     (if u \<le> 0xffff \<and> is_valid_code_point u then CBB_add_u16 d (ucast u) cbb else (None, cbb))"

definition CBB_add_utf32_be :: "nat \<Rightarrow> u32 \<Rightarrow> unit builder" where
  "CBB_add_utf32_be d u cbb =
     (if is_valid_code_point u then CBB_add_u32 d u cbb else (None, cbb))"

subsection \<open>The encoding forms of the Unicode standard, in arithmetic\<close>

definition code_point :: "nat \<Rightarrow> bool" where
  "code_point n \<longleftrightarrow> n \<le> 0x10ffff \<and> n mod 0x10000 \<noteq> 0xfffe \<and> n mod 0x10000 \<noteq> 0xffff
     \<and> \<not> (0xfdd0 \<le> n \<and> n \<le> 0xfdef) \<and> \<not> (0xd800 \<le> n \<and> n \<le> 0xdfff)"

definition utf8 :: "nat \<Rightarrow> u8 list" where
  "utf8 n =
     (if n < 0x80 then [of_nat n]
      else if n < 0x800 then [of_nat (0xC0 + n div 64), of_nat (0x80 + n mod 64)]
      else if n < 0x10000 then
        [of_nat (0xE0 + n div 64 div 64), of_nat (0x80 + n div 64 mod 64), of_nat (0x80 + n mod 64)]
      else [of_nat (0xF0 + n div 64 div 64 div 64), of_nat (0x80 + n div 64 div 64 mod 64),
        of_nat (0x80 + n div 64 mod 64), of_nat (0x80 + n mod 64)])"

lemma is_valid_iff: "is_valid_code_point v \<longleftrightarrow> code_point (unat v)"
proof -
  have "unat (v AND push_bit 1 (mask 15)) = unat v div 2 mod 32768 * 2"
    using unat_and_push_mask [of 1 15 v] by simp
  then have u: "unat (v AND 0xfffe) = unat v div 2 mod 32768 * 2"
    by (simp add: mask_eq_exp_minus_1)
  have "v AND 0xfffe = 0xfffe \<longleftrightarrow> unat (v AND 0xfffe) = 0xfffe"
    by (simp only: word_unat_eq_iff) simp
  also have "\<dots> \<longleftrightarrow> unat v div 2 mod 32768 = 32767" unfolding u by auto
  also have "\<dots> \<longleftrightarrow> unat v mod 65536 = 65534 \<or> unat v mod 65536 = 65535"
    using mod_mult2_eq [of "unat v" 2 32768] mod_less_divisor [of 2 "unat v"] by auto
  finally show ?thesis
    by (simp add: is_valid_code_point_def code_point_def word_less_nat_alt word_le_nat_alt not_less)
qed

lemma bits_eq:
  "BOTTOM_BITS 6 = mask 6" "BOTTOM_BITS 5 = mask 5" "BOTTOM_BITS 4 = mask 4" "BOTTOM_BITS 3 = mask 3"
  "TOP_BITS 1 = push_bit 7 (mask 1)" "TOP_BITS 2 = push_bit 6 (mask 2)" "TOP_BITS 3 = push_bit 5 (mask 3)"
  "TOP_BITS 4 = push_bit 4 (mask 4)" "TOP_BITS 5 = push_bit 3 (mask 5)"
  by (simp_all add: BOTTOM_BITS_def TOP_BITS_def mask_eq_exp_minus_1)

lemma unat_bottom:
  "unat (c AND BOTTOM_BITS 6) = unat c mod 64" "unat (c AND BOTTOM_BITS 5) = unat c mod 32"
  "unat (c AND BOTTOM_BITS 4) = unat c mod 16" "unat (c AND BOTTOM_BITS 3) = unat c mod 8"
  unfolding bits_eq unat_and_mask by simp_all

lemma top_bits_iff:
  assumes "k + n = 8" "m < 256" "unat t = m"
  shows "(c :: u8) AND push_bit k (mask n) = t \<longleftrightarrow> unat c div 2 ^ k * 2 ^ k = m"
proof -
  have "unat c div 2 ^ k < 2 ^ n"
    using unat_u8_less [of c] assms(1) by (simp add: div_less_iff_less_mult power_add [symmetric] ac_simps)
  then have "unat (c AND push_bit k (mask n)) = unat c div 2 ^ k * 2 ^ k"
    using unat_and_push_mask [of k n c] assms(1) by simp
  then show ?thesis using assms(3) by (simp only: word_unat_eq_iff)
qed

lemma lead_bits:
  "c AND TOP_BITS 2 = TOP_BITS 1 \<longleftrightarrow> unat c div 64 = 2"
  "c AND TOP_BITS 3 = TOP_BITS 2 \<longleftrightarrow> unat c div 32 = 6"
  "c AND TOP_BITS 4 = TOP_BITS 3 \<longleftrightarrow> unat c div 16 = 14"
  "c AND TOP_BITS 5 = TOP_BITS 4 \<longleftrightarrow> unat c div 8 = 30"
  unfolding bits_eq
  by (subst top_bits_iff [where m = "0x80"] top_bits_iff [where m = "0xC0"]
      top_bits_iff [where m = "0xE0"] top_bits_iff [where m = "0xF0"];
      (simp add: mask_eq_exp_minus_1; fail)?; (linarith | auto); fail)+

subsection \<open>The reader\<close>

lemma unat_shift6_or:
  assumes "unat (v :: u32) < 2 ^ 26"
  shows "unat (push_bit 6 v OR ucast (c AND BOTTOM_BITS 6)) = 64 * unat v + unat c mod 64"
proof -
  have "unat v * 2 ^ 6 < 2 ^ LENGTH(32)" using assms by simp
  moreover have "unat (ucast (c AND BOTTOM_BITS 6) :: u32) < 2 ^ 6" by (simp add: unat_bottom)
  ultimately show ?thesis using unat_or_push_bit [of "ucast (c AND BOTTOM_BITS 6) :: u32" 6 v]
    by (simp add: or.commute unat_bottom)
qed

fun tail_val :: "nat \<Rightarrow> u8 list \<Rightarrow> nat" where
  "tail_val n [] = n"
| "tail_val n (c # cs) = tail_val (64 * n + unat c mod 64) cs"

lemma utf8_tail_iff:
  assumes "unat v < 64 ^ (5 - k)" "k \<le> 4"
  shows "utf8_tail k v bs = (Some w, rest) \<longleftrightarrow>
    (\<exists>cs. bs = cs @ rest \<and> length cs = k \<and> (\<forall>c \<in> set cs. unat c div 64 = 2) \<and> unat w = tail_val (unat v) cs)"
  using assms
proof (induction k arbitrary: v bs)
  case 0
  then show ?case by (auto intro: word_eq_by_unat)
next
  case (Suc k)
  have s: "5 - k = Suc (5 - Suc k)" using Suc.prems(2) by simp
  have "(64 :: nat) ^ (5 - Suc k) \<le> 64 ^ 4" by (rule power_increasing) auto
  with Suc.prems(1) have v: "unat v < 2 ^ 26" by simp
  have lin: "64 * a + r < 64 * b" if "a < b" "r < 64" for a b r :: nat using that by linarith
  have n: "unat (push_bit 6 v OR ucast (c AND BOTTOM_BITS 6)) < 64 ^ (5 - k)" for c
    unfolding unat_shift6_or [OF v] s power_Suc by (rule lin [OF Suc.prems(1)]) simp
  note IH = Suc.IH [OF n, unfolded unat_shift6_or [OF v]]
  show ?case
  proof (cases bs)
    case Nil
    then show ?thesis by (simp add: CBS_get_u8_simps)
  next
    case (Cons c bs')
    then show ?thesis using IH [of c bs'] Suc.prems(2)
      by (auto simp: CBS_get_u8_simps lead_bits lead_bits [unfolded One_nat_def] Cons_eq_append_conv)
  qed
qed

text \<open>The continuation bytes of \<open>n\<close>.\<close>

fun tail_bytes :: "nat \<Rightarrow> nat \<Rightarrow> u8 list" where
  "tail_bytes 0 n = []"
| "tail_bytes (Suc k) n = tail_bytes k (n div 64) @ [of_nat (0x80 + n mod 64)]"

lemma tail_val_snoc: "tail_val a (cs @ [c]) = 64 * tail_val a cs + unat c mod 64"
  by (induction cs arbitrary: a) simp_all

lemma div_mod_iff: "a < m \<Longrightarrow> (x :: nat) = m * q + a \<longleftrightarrow> x div m = q \<and> x mod m = a"
  using div_mult_mod_eq [of x m] by (auto simp: mult.commute)

lemma eq_of_nat_u8: "m < 256 \<Longrightarrow> c = (of_nat m :: u8) \<longleftrightarrow> unat c = m"
  by (auto simp: unat_of_nat_id)

lemma continuation_iff: "c = (of_nat (0x80 + n mod 64) :: u8) \<longleftrightarrow> unat c div 64 = 2 \<and> unat c mod 64 = n mod 64"
proof -
  have "n mod 64 < 64" by simp
  then have "c = (of_nat (0x80 + n mod 64) :: u8) \<longleftrightarrow> unat c = 0x80 + n mod 64" by (intro eq_of_nat_u8) linarith
  also have "\<dots> \<longleftrightarrow> unat c div 64 = 2 \<and> unat c mod 64 = n mod 64"
    using div_mod_iff [of "n mod 64" 64 "unat c" 2] by simp
  finally show ?thesis .
qed

lemma tail_bytes_iff:
  "length cs = k \<and> (\<forall>c \<in> set cs. unat c div 64 = 2) \<and> n = tail_val a cs \<longleftrightarrow>
     cs = tail_bytes k n \<and> n div 64 ^ k = a"
proof (induction k arbitrary: cs n)
  case 0
  then show ?case by auto
next
  case (Suc k)
  show ?case
  proof (cases cs rule: rev_cases)
    case Nil
    then show ?thesis by simp
  next
    case (snoc cs' c)
    have d: "n = 64 * m + unat c mod 64 \<longleftrightarrow> m = n div 64 \<and> unat c mod 64 = n mod 64" for m
      using div_mult_mod_eq [of n 64] by auto
    have "n div 64 ^ Suc k = n div 64 div 64 ^ k" by (simp add: div_mult2_eq)
    then show ?thesis using Suc [of cs' "n div 64"]
      by (auto simp: snoc tail_val_snoc d continuation_iff simp del: of_nat_add)
  qed
qed

lemma lead_iff:
  assumes "w \<in> {(32, 6), (16, 14), (8, 30 :: nat)}" "a < fst w"
  shows "c = (of_nat (fst w * snd w + a) :: u8) \<longleftrightarrow> unat c div fst w = snd w \<and> unat c mod fst w = a"
proof -
  have "c = (of_nat (fst w * snd w + a) :: u8) \<longleftrightarrow> unat c = fst w * snd w + a"
    using assms by (intro eq_of_nat_u8) auto
  also have "\<dots> \<longleftrightarrow> unat c div fst w = snd w \<and> unat c mod fst w = a"
    by (rule div_mod_iff [OF assms(2)])
  finally show ?thesis .
qed

lemma utf8_rest_iff:
  assumes "unat v < 64" "k \<le> 3" "unat lb = l"
  shows "utf8_rest v k lb bs = (Some w, rest) \<longleftrightarrow>
    bs = tail_bytes k (unat w) @ rest \<and> unat w div 64 ^ k = unat v \<and> l \<le> unat w \<and> code_point (unat w)"
proof -
  have "(64 :: nat) ^ 1 \<le> 64 ^ (5 - k)" using assms(2) by (intro power_increasing) auto
  then have v: "unat v < 64 ^ (5 - k)" using assms(1) by simp
  have "utf8_tail k v bs = (Some w, rest) \<longleftrightarrow>
      bs = tail_bytes k (unat w) @ rest \<and> unat w div 64 ^ k = unat v" for w
    using assms(2) tail_bytes_iff [of _ k "unat w" "unat v"] by (auto simp: utf8_tail_iff [OF v])
  then show ?thesis
    by (auto simp: utf8_rest_def attempt_eq_Some is_valid_iff word_less_nat_alt not_less assms(3))
qed

text \<open>The three forms with continuation bytes: width and value of the lead bits, and the range.\<close>

definition utf8_form :: "nat \<Rightarrow> nat \<times> nat \<Rightarrow> nat \<Rightarrow> nat \<Rightarrow> bool" where
  "utf8_form k w lo hi \<longleftrightarrow> (k, w, lo, hi) \<in>
     {(1, (32, 6), 0x80, 0x800), (2, (16, 14), 0x800, 0x10000), (3, (8, 30), 0x10000, 0x200000)}"

lemma utf8_form_bytes:
  assumes "utf8_form k w lo hi" "lo \<le> n" "n < hi"
  shows "utf8 n = of_nat (fst w * snd w + n div 64 ^ k) # tail_bytes k n \<and> n div 64 ^ k < fst w"
  using assms by (auto simp: utf8_form_def utf8_def numeral_2_eq_2 numeral_3_eq_3 div_mult2_eq [symmetric])

lemma utf8_form_lead:
  assumes "utf8_form k w lo hi"
  shows "w \<in> {(32, 6), (16, 14), (8, 30 :: nat)}" "hi = fst w * 64 ^ k" "k \<le> 3"
  using assms by (auto simp: utf8_form_def)

lemma CBS_get_utf8_form:
  assumes f: "utf8_form k w lo hi" and c: "unat c div fst w = snd w"
  shows "CBS_get_utf8 (c # cs) = (Some v, rest) \<longleftrightarrow>
    cs = tail_bytes k (unat v) @ rest \<and> unat v div 64 ^ k = unat c mod fst w \<and> lo \<le> unat v \<and> code_point (unat v)"
proof -
  have r: "unat c = fst w * snd w + unat c mod fst w" using div_mult_mod_eq [of "unat c" "fst w"] c by (simp add: mult.commute)
  have m: "unat c mod fst w < fst w" using f by (auto simp: utf8_form_def)
  have "\<exists>x l. CBS_get_utf8 (c # cs) = utf8_rest x k l cs \<and> unat x = unat c mod fst w \<and> unat l = lo"
    using f unfolding utf8_form_def
  proof (elim insertE emptyE)
    assume e: "(k, w, lo, hi) = (1, (32, 6), 0x80, 0x800)"
    then have "unat c div 32 = 6" using c by simp
    moreover have "\<not> c \<le> 0x7f" using r e by (simp add: word_le_nat_alt)
    ultimately have "CBS_get_utf8 (c # cs) = utf8_rest (ucast (c AND BOTTOM_BITS 5)) 1 0x80 cs"
      by (simp add: CBS_get_utf8_def lead_bits)
    then show ?thesis using e by (intro exI [of _ "ucast (c AND BOTTOM_BITS 5)"] exI [of _ "0x80"]) (simp add: unat_bottom)
  next
    assume e: "(k, w, lo, hi) = (2, (16, 14), 0x800, 0x10000)"
    then have q: "unat c div 16 = 14" using c by simp
    moreover have "unat c div 32 \<noteq> 6" using r m e by simp
    moreover have "\<not> c \<le> 0x7f" using r e by (simp add: word_le_nat_alt)
    ultimately have "CBS_get_utf8 (c # cs) = utf8_rest (ucast (c AND BOTTOM_BITS 4)) 2 0x800 cs"
      by (simp add: CBS_get_utf8_def lead_bits)
    then show ?thesis using e by (intro exI [of _ "ucast (c AND BOTTOM_BITS 4)"] exI [of _ "0x800"]) (simp add: unat_bottom)
  next
    assume e: "(k, w, lo, hi) = (3, (8, 30), 0x10000, 0x200000)"
    then have q: "unat c div 8 = 30" using c by simp
    moreover have "unat c div 32 \<noteq> 6" "unat c div 16 \<noteq> 14" using r m e by simp_all
    moreover have "\<not> c \<le> 0x7f" using r e by (simp add: word_le_nat_alt)
    ultimately have "CBS_get_utf8 (c # cs) = utf8_rest (ucast (c AND BOTTOM_BITS 3)) 3 0x10000 cs"
      by (simp add: CBS_get_utf8_def lead_bits)
    then show ?thesis using e by (intro exI [of _ "ucast (c AND BOTTOM_BITS 3)"] exI [of _ "0x10000"]) (simp add: unat_bottom)
  qed
  then obtain x l where x: "CBS_get_utf8 (c # cs) = utf8_rest x k l cs" "unat x = unat c mod fst w" "unat l = lo"
    by blast
  have "unat x < 64" using m x(2) utf8_form_lead(1) [OF f] by auto
  from utf8_rest_iff [OF this utf8_form_lead(3) [OF f] x(3)] x show ?thesis by simp
qed

lemma CBS_get_utf8_none:
  assumes "\<not> unat c < 0x80" "unat c div 32 \<noteq> 6" "unat c div 16 \<noteq> 14" "unat c div 8 \<noteq> 30"
  shows "CBS_get_utf8 (c # cs) = (None, cs)"
  using assms by (simp add: CBS_get_utf8_def lead_bits word_le_nat_alt)

lemma CBS_get_utf8_ascii: "unat c < 0x80 \<Longrightarrow> CBS_get_utf8 (c # cs) = (Some (ucast c), cs)"
  by (simp add: CBS_get_utf8_def word_le_nat_alt)

lemma utf8_ascii: "n < 0x80 \<Longrightarrow> utf8 n = [of_nat n]"
  by (simp add: utf8_def)

lemma CBS_get_utf8_complete:
  assumes "code_point (unat v)"
  shows "CBS_get_utf8 (utf8 (unat v) @ rest) = (Some v, rest)"
proof (cases "unat v < 0x80")
  case True
  then have "unat (of_nat (unat v) :: u8) = unat v" by (intro unat_of_nat_id) simp
  then show ?thesis unfolding utf8_ascii [OF True] append_Cons append_Nil
    using True by (subst CBS_get_utf8_ascii) (simp_all add: word_unat_eq_iff)
next
  case False
  have "unat v < 0x200000" using assms by (simp add: code_point_def)
  with False obtain k w lo hi where f: "utf8_form k w lo hi" "lo \<le> unat v" "unat v < hi"
  proof -
    have "unat v < 0x800 \<or> 0x800 \<le> unat v \<and> unat v < 0x10000 \<or> 0x10000 \<le> unat v" by linarith
    then show ?thesis using that [of 1 "(32, 6)" "0x80" "0x800"] that [of 2 "(16, 14)" "0x800" "0x10000"]
      that [of 3 "(8, 30)" "0x10000" "0x200000"] False \<open>unat v < 0x200000\<close>
      by (auto simp: utf8_form_def)
  qed
  from utf8_form_bytes [OF f] have b:
    "utf8 (unat v) = of_nat (fst w * snd w + unat v div 64 ^ k) # tail_bytes k (unat v)"
    "unat v div 64 ^ k < fst w" by auto
  define c :: u8 where "c = of_nat (fst w * snd w + unat v div 64 ^ k)"
  have "unat c div fst w = snd w" "unat c mod fst w = unat v div 64 ^ k"
    using lead_iff [OF utf8_form_lead(1) [OF f(1)] b(2), of c] c_def by auto
  with CBS_get_utf8_form [OF f(1), of c] assms f(2) show ?thesis
    unfolding b(1) c_def [symmetric] by simp
qed

lemma CBS_get_utf8_sound:
  assumes "CBS_get_utf8 bs = (Some v, rest)"
  shows "code_point (unat v) \<and> bs = utf8 (unat v) @ rest"
proof -
  obtain c cs where bs: "bs = c # cs" using assms by (cases bs) (auto simp: CBS_get_utf8_def)
  show ?thesis
  proof (cases "unat c < 0x80")
    case True
    then have "v = ucast c" "cs = rest" using assms bs CBS_get_utf8_ascii by auto
    then show ?thesis using True bs by (simp add: utf8_ascii code_point_def)
  next
    case False
    have "utf8_form 1 (32, 6) 0x80 0x800" "utf8_form 2 (16, 14) 0x800 0x10000" "utf8_form 3 (8, 30) 0x10000 0x200000"
      by (simp_all add: utf8_form_def)
    moreover have "unat c div 32 = 6 \<or> unat c div 16 = 14 \<or> unat c div 8 = 30"
      using False assms CBS_get_utf8_none bs by fastforce
    ultimately obtain k w lo hi where f: "utf8_form k w lo hi" "unat c div fst w = snd w" by fastforce
    from CBS_get_utf8_form [OF this] assms bs have
      v: "cs = tail_bytes k (unat v) @ rest" "unat v div 64 ^ k = unat c mod fst w" "lo \<le> unat v" "code_point (unat v)"
      by auto
    have lt: "unat v div 64 ^ k < fst w" using v(2) utf8_form_lead(1) [OF f(1)] by auto
    then have "unat v < hi" unfolding utf8_form_lead(2) [OF f(1)] by (simp add: div_less_iff_less_mult)
    from utf8_form_bytes [OF f(1) v(3) this] lead_iff [OF utf8_form_lead(1) [OF f(1)] lt, of c] f(2) v bs
    show ?thesis by simp
  qed
qed

subsection \<open>The writer\<close>

lemma u32_or_byte:
  assumes "unat (a :: u32) < 2 ^ k" "unat (x :: u32) = 2 ^ k * m" "2 ^ k * m < 256"
  shows "(ucast (x OR a) :: u8) = of_nat (2 ^ k * m + unat a)"
proof -
  have "1 * m \<le> 2 ^ k * m" by (rule mult_le_mono1) simp
  with assms(3) have "m < 256" by linarith
  then have m: "unat (of_nat m :: u32) = m" by (intro unat_of_nat_id) simp
  have lt: "unat (of_nat m :: u32) * 2 ^ k < 2 ^ LENGTH(32)"
    unfolding m using assms(3) by (simp add: mult.commute)
  have "unat (push_bit k (of_nat m :: u32)) = unat x"
    using unat_push_bit [OF lt] unfolding m assms(2) by (simp only: mult.commute)
  then have x: "x = push_bit k (of_nat m)" by (intro word_eq_by_unat) simp
  have "unat (x OR a) = 2 ^ k * m + unat a"
    using unat_or_push_bit [OF assms(1) lt] unfolding m x by (simp only: or.commute add.commute)
  moreover have "ucast (x OR a) = (of_nat (unat (x OR a)) :: u8)" by simp
  ultimately show ?thesis by (simp only:)
qed

lemma utf8_continuation:
  "(ucast (ucast (TOP_BITS 1) OR ((w :: u32) AND ucast (BOTTOM_BITS 6))) :: u8) = of_nat (0x80 + unat w mod 64)"
proof -
  have b: "(ucast (BOTTOM_BITS 6) :: u32) = mask 6" by (simp add: BOTTOM_BITS_def mask_eq_exp_minus_1)
  have t: "unat (ucast (TOP_BITS 1) :: u32) = 2 ^ 6 * 2" by (simp add: BOTTOM_BITS_def TOP_BITS_def)
  have w: "unat (w AND mask 6) = unat w mod 64" unfolding unat_and_mask by simp
  then have "unat (w AND mask 6) < 2 ^ 6" by simp
  from u32_or_byte [OF this t] show ?thesis unfolding b w by (simp del: of_nat_add)
qed

lemma utf8_lead:
  assumes "utf8_form k wd lo hi" "unat (w :: u32) < fst wd"
  shows "(ucast (ucast (TOP_BITS (k + 1)) OR w) :: u8) = of_nat (fst wd * snd wd + unat w)"
proof -
  have t: "unat (ucast (TOP_BITS 2) :: u32) = 2 ^ 5 * 6" "unat (ucast (TOP_BITS 3) :: u32) = 2 ^ 4 * 14"
    "unat (ucast (TOP_BITS 4) :: u32) = 2 ^ 3 * 30"
    by (simp_all add: BOTTOM_BITS_def TOP_BITS_def)
  show ?thesis using assms(1) unfolding utf8_form_def
  proof (elim insertE emptyE)
    assume e: "(k, wd, lo, hi) = (1, (32, 6), 0x80, 0x800)"
    with assms(2) have "unat w < 2 ^ 5" by simp
    moreover have "k + 1 = 2" using e by simp
    ultimately show ?thesis using u32_or_byte [OF _ t(1), of w] e by (simp only:) (simp del: of_nat_add)
  next
    assume e: "(k, wd, lo, hi) = (2, (16, 14), 0x800, 0x10000)"
    with assms(2) have "unat w < 2 ^ 4" by simp
    from u32_or_byte [OF this t(2)] e show ?thesis by (simp del: of_nat_add)
  next
    assume e: "(k, wd, lo, hi) = (3, (8, 30), 0x10000, 0x200000)"
    with assms(2) have "unat w < 2 ^ 3" by simp
    from u32_or_byte [OF this t(3)] e show ?thesis by (simp del: of_nat_add)
  qed
qed

lemma adds_utf8:
  assumes "is_valid_code_point u"
  shows "cbb_adds d (CBB_add_utf8 d u) (utf8 (unat u))"
proof -
  let ?n = "unat u"
  have le: "?n \<le> 0x10ffff" using assms by (simp add: is_valid_iff code_point_def)
  have u: "unat (drop_bit s u) = ?n div 2 ^ s" for s by (rule unat_drop_bit_div)
  have s: "?n div 2 ^ 12 = ?n div 64 div 64" "?n div 2 ^ 18 = ?n div 64 div 64 div 64" "?n div 2 ^ 6 = ?n div 64"
    by (simp_all add: div_mult2_eq [symmetric])
  have c: "cbb_adds d (CBB_add_u8 d (ucast (ucast (TOP_BITS 1) OR (w AND ucast (BOTTOM_BITS 6)))))
      [of_nat (0x80 + unat w mod 64)]" for w :: u32
    unfolding utf8_continuation by (rule adds_u8)
  have l: "cbb_adds d F bs \<Longrightarrow> utf8_form k wd lo hi \<Longrightarrow> unat w < fst wd \<Longrightarrow> k' = k + 1 \<Longrightarrow>
      cbb_adds d (\<lambda>s. attempt (CBB_add_u8 d (ucast (ucast (TOP_BITS k') OR w)) s) (\<lambda>_. F))
        (of_nat (fst wd * snd wd + unat w) # bs)" for F bs k k' wd lo hi and w :: u32
    unfolding utf8_lead by (simp only: utf8_lead) (rule adds_Cons_u8)
  note cc = cbb_adds_attempt [OF c c] and ccc = cbb_adds_attempt [OF c cbb_adds_attempt [OF c c]]
  consider (a) "?n < 0x80" | (b) "0x80 \<le> ?n" "?n < 0x800" | (c) "0x800 \<le> ?n" "?n < 0x10000"
    | (d) "0x10000 \<le> ?n" by linarith
  then show ?thesis
  proof cases
    case a
    then have "CBB_add_utf8 d u = CBB_add_u8 d (ucast u)"
      using assms by (intro ext) (simp add: CBB_add_utf8_def word_le_nat_alt)
    moreover have "ucast u = (of_nat ?n :: u8)" by simp
    ultimately show ?thesis unfolding utf8_ascii [OF a] by (simp only:) (rule adds_u8)
  next
    case b
    have k: "(2 :: nat) = 1 + 1" by simp
    from b have "CBB_add_utf8 d u = (\<lambda>s. attempt (CBB_add_u8 d (ucast (ucast (TOP_BITS 2) OR drop_bit 6 u)) s)
        (\<lambda>_. CBB_add_u8 d (ucast (ucast (TOP_BITS 1) OR (u AND ucast (BOTTOM_BITS 6))))))"
      using assms by (intro ext) (simp add: CBB_add_utf8_def word_le_nat_alt)
    moreover have lt: "unat (drop_bit 6 u) < fst (32, 6 :: nat)" using b by (simp add: u)
    moreover have f: "utf8_form 1 (32, 6) 0x80 0x800" by (simp add: utf8_form_def)
    moreover have "unat (drop_bit 6 u) = ?n div 64" using u [of 6] by simp
    ultimately show ?thesis using l [OF c [of u] f lt k] b by (simp add: utf8_def)
  next
    case c
    then have "CBB_add_utf8 d u = (\<lambda>s. attempt (CBB_add_u8 d (ucast (ucast (TOP_BITS 3) OR drop_bit 12 u)) s)
        (\<lambda>_ s. attempt (CBB_add_u8 d (ucast (ucast (TOP_BITS 1) OR (drop_bit 6 u AND ucast (BOTTOM_BITS 6)))) s)
          (\<lambda>_. CBB_add_u8 d (ucast (ucast (TOP_BITS 1) OR (u AND ucast (BOTTOM_BITS 6)))))))"
      using assms by (intro ext) (simp add: CBB_add_utf8_def word_le_nat_alt)
    moreover have lt: "unat (drop_bit 12 u) < fst (16, 14 :: nat)" using c by (simp add: u)
    moreover have f: "utf8_form 2 (16, 14) 0x800 0x10000" by (simp add: utf8_form_def)
    moreover have "unat (drop_bit 12 u) = ?n div 64 div 64" "unat (drop_bit 6 u) = ?n div 64"
      by (simp_all only: u s)
    ultimately show ?thesis using l [OF cc [of "drop_bit 6 u" u] f lt, of 3] c by (simp add: utf8_def)
  next
    case d
    then have "CBB_add_utf8 d u = (\<lambda>s. attempt (CBB_add_u8 d (ucast (ucast (TOP_BITS 4) OR drop_bit 18 u)) s)
        (\<lambda>_ s. attempt (CBB_add_u8 d (ucast (ucast (TOP_BITS 1) OR (drop_bit 12 u AND ucast (BOTTOM_BITS 6)))) s)
          (\<lambda>_ s. attempt (CBB_add_u8 d (ucast (ucast (TOP_BITS 1) OR (drop_bit 6 u AND ucast (BOTTOM_BITS 6)))) s)
            (\<lambda>_. CBB_add_u8 d (ucast (ucast (TOP_BITS 1) OR (u AND ucast (BOTTOM_BITS 6))))))))"
      using assms le by (intro ext) (simp add: CBB_add_utf8_def word_le_nat_alt)
    moreover have lt: "unat (drop_bit 18 u) < fst (8, 30 :: nat)" using le by (simp add: u)
    moreover have f: "utf8_form 3 (8, 30) 0x10000 0x200000" by (simp add: utf8_form_def)
    moreover have "unat (drop_bit 18 u) = ?n div 64 div 64 div 64" "unat (drop_bit 12 u) = ?n div 64 div 64"
      "unat (drop_bit 6 u) = ?n div 64" by (simp_all only: u s)
    ultimately show ?thesis
      using l [OF ccc [of "drop_bit 12 u" "drop_bit 6 u" u] f lt, of 4] d by (simp add: utf8_def)
  qed
qed

lemma length_utf8: "code_point (unat u) \<Longrightarrow> length (utf8 (unat u)) = CBB_get_utf8_len u"
  by (auto simp: utf8_def CBB_get_utf8_len_def word_le_nat_alt)

lemma length_utf8_le: "length (utf8 n) < 2 ^ 64"
  by (simp add: utf8_def)

lemma written_utf8: "is_valid_code_point u \<Longrightarrow> written (CBB_add_utf8 0 u) = utf8 (unat u)"
  by (rule written_adds [OF adds_utf8 length_utf8_le])

lemma refused_run: "(\<And>s. F s = (None, s)) \<Longrightarrow> cbb_run heap cap F = None"
  by (simp add: cbb_run_def split: option.splits)

subsection \<open>The codec interface\<close>

interpretation utf8: canonical_codec
  "\<lambda>u. written (CBB_add_utf8 0 u)" CBS_get_utf8 is_valid_code_point "\<lambda>_. True"
  by unfold_locales (auto simp: written_utf8 is_valid_iff CBS_get_utf8_complete dest!: CBS_get_utf8_sound)

interpretation latin1: canonical_codec
  "\<lambda>u. written (CBB_add_latin1 0 u)" CBS_get_latin1 "\<lambda>u. u \<le> 0xff" "\<lambda>_. True"
proof (unfold_locales, goal_cases)
  have w: "written (CBB_add_latin1 0 u) = [ucast u]" if "u \<le> 0xff" for u
  proof -
    have "CBB_add_latin1 0 u = CBB_add_u8 0 (ucast u)" using that by (intro ext) (simp add: CBB_add_latin1_def)
    then show ?thesis using written_adds [OF adds_u8 [of 0 "ucast u"]] by simp
  qed
  {
    case (2 u rest)
    then have "unat (ucast u :: u8) = unat u" by (simp add: unat_ucast_mod word_le_nat_alt)
    then have "(ucast (ucast u :: u8) :: u32) = u" by (intro word_eq_by_unat) simp
    then show ?case by (simp add: w [OF 2(1)] CBS_get_latin1_def)
  next
    case (3 bs u rest)
    then obtain c where "bs = c # rest" "u = ucast c"
      by (cases bs) (auto simp: CBS_get_latin1_def)
    moreover have "unat c \<le> 0xff" using unat_u8_less [of c] by linarith
    moreover from calculation have "u \<le> 0xff" by (simp add: word_le_nat_alt)
    moreover have "(ucast (ucast c :: u32) :: u8) = c" by (rule bit_word_eqI) (simp add: bit_simps)
    ultimately show ?case by (simp add: w)
  }
qed simp

lemma written_ucs2: "u \<le> 0xffff \<Longrightarrow> is_valid_code_point u \<Longrightarrow> written (CBB_add_ucs2_be 0 u) = be_bytes 2 (unat u)"
proof -
  assume a: "u \<le> 0xffff" "is_valid_code_point u"
  have "CBB_add_ucs2_be 0 u = CBB_add_u16 0 (ucast u)" using a by (intro ext) (simp add: CBB_add_ucs2_be_def)
  moreover have "unat (ucast u :: u16) = unat u" using a by (simp add: unat_ucast_mod word_le_nat_alt)
  ultimately show ?thesis using written_adds [OF adds_u16 [of 0 "ucast u"]] by simp
qed

lemma get_u_iff:
  assumes "unat k \<le> 8"
  shows "cbs_get_u bs k = (Some v, rest) \<longleftrightarrow> unat v < 256 ^ unat k \<and> bs = be_bytes (unat k) (unat v) @ rest"
  unfolding cbs_get_u_eq_Some [OF assms]
  using be_val_less be_bytes_be_val be_val_be_bytes length_be_bytes by (metis mod_less)

lemma CBS_get_u16_iff: "CBS_get_u16 bs = (Some v, rest) \<longleftrightarrow> bs = be_bytes 2 (unat v) @ rest"
proof
  assume "CBS_get_u16 bs = (Some v, rest)"
  then obtain x where x: "cbs_get_u bs 2 = (Some x, rest)" "v = ucast x"
    by (auto simp: CBS_get_u16_def attempt_eq_Some)
  from x(1) get_u_iff [of 2 bs x rest] have "unat x < 256 ^ 2" "bs = be_bytes 2 (unat x) @ rest" by simp_all
  then show "bs = be_bytes 2 (unat v) @ rest" using x(2) by (simp add: unat_ucast_mod)
next
  assume "bs = be_bytes 2 (unat v) @ rest"
  then have "cbs_get_u bs 2 = (Some (of_nat (unat v)), rest)"
    using cbs_get_u_bytes [of 2 "unat v" rest] unat_less_2p [of v] by simp
  moreover have "ucast (of_nat (unat v) :: u64) = v"
    using unat_less_2p [of v] by (intro word_eq_by_unat) (simp add: unat_ucast_mod)
  ultimately show "CBS_get_u16 bs = (Some v, rest)" by (simp add: CBS_get_u16_def)
qed

lemma CBS_get_u32_iff: "CBS_get_u32 bs = (Some v, rest) \<longleftrightarrow> bs = be_bytes 4 (unat v) @ rest"
proof
  assume "CBS_get_u32 bs = (Some v, rest)"
  then obtain x where x: "cbs_get_u bs 4 = (Some x, rest)" "v = ucast x"
    by (auto simp: CBS_get_u32_def attempt_eq_Some)
  from x(1) get_u_iff [of 4 bs x rest] have "unat x < 256 ^ 4" "bs = be_bytes 4 (unat x) @ rest" by simp_all
  then show "bs = be_bytes 4 (unat v) @ rest" using x(2) by (simp add: unat_ucast_mod)
next
  assume "bs = be_bytes 4 (unat v) @ rest"
  then have "cbs_get_u bs 4 = (Some (of_nat (unat v)), rest)"
    using cbs_get_u_bytes [of 4 "unat v" rest] unat_less_2p [of v] by simp
  moreover have "ucast (of_nat (unat v) :: u64) = v"
    using unat_less_2p [of v] by (intro word_eq_by_unat) (simp add: unat_ucast_mod)
  ultimately show "CBS_get_u32 bs = (Some v, rest)" by (simp add: CBS_get_u32_def)
qed

lemma CBS_get_ucs2_iff:
  "CBS_get_ucs2_be bs = (Some u, rest) \<longleftrightarrow> u \<le> 0xffff \<and> is_valid_code_point u \<and> bs = be_bytes 2 (unat u) @ rest"
proof -
  have "CBS_get_ucs2_be bs = (Some u, rest) \<longleftrightarrow>
      (\<exists>c. bs = be_bytes 2 (unat c) @ rest \<and> u = ucast (c :: u16) \<and> is_valid_code_point u)"
    by (auto simp: CBS_get_ucs2_be_def attempt_eq_Some CBS_get_u16_iff)
  also have "\<dots> \<longleftrightarrow> u \<le> 0xffff \<and> is_valid_code_point u \<and> bs = be_bytes 2 (unat u) @ rest"
  proof
    assume "\<exists>c. bs = be_bytes 2 (unat c) @ rest \<and> u = ucast (c :: u16) \<and> is_valid_code_point u"
    then obtain c :: u16 where "bs = be_bytes 2 (unat c) @ rest" "u = ucast c" "is_valid_code_point u" by blast
    then show "u \<le> 0xffff \<and> is_valid_code_point u \<and> bs = be_bytes 2 (unat u) @ rest"
      using unat_less_2p [of c] by (simp add: word_le_nat_alt)
  next
    assume a: "u \<le> 0xffff \<and> is_valid_code_point u \<and> bs = be_bytes 2 (unat u) @ rest"
    then have n: "unat (ucast u :: u16) = unat u" by (simp add: unat_ucast_mod word_le_nat_alt)
    then have "u = ucast (ucast u :: u16)" by (intro word_eq_by_unat) simp
    with a n show "\<exists>c. bs = be_bytes 2 (unat c) @ rest \<and> u = ucast (c :: u16) \<and> is_valid_code_point u" by metis
  qed
  finally show ?thesis .
qed

interpretation ucs2: canonical_codec
  "\<lambda>u. written (CBB_add_ucs2_be 0 u)" CBS_get_ucs2_be "\<lambda>u. u \<le> 0xffff \<and> is_valid_code_point u" "\<lambda>_. True"
  by unfold_locales (auto simp: written_ucs2 CBS_get_ucs2_iff)

lemma written_utf32: "is_valid_code_point u \<Longrightarrow> written (CBB_add_utf32_be 0 u) = be_bytes 4 (unat u)"
proof -
  assume "is_valid_code_point u"
  then have "CBB_add_utf32_be 0 u = CBB_add_u32 0 u" by (intro ext) (simp add: CBB_add_utf32_be_def)
  then show ?thesis using written_adds [OF adds_u32 [of 0 u]] by simp
qed

lemma CBS_get_utf32_iff:
  "CBS_get_utf32_be bs = (Some u, rest) \<longleftrightarrow> is_valid_code_point u \<and> bs = be_bytes 4 (unat u) @ rest"
  by (auto simp: CBS_get_utf32_be_def attempt_eq_Some CBS_get_u32_iff)

interpretation utf32: canonical_codec
  "\<lambda>u. written (CBB_add_utf32_be 0 u)" CBS_get_utf32_be is_valid_code_point "\<lambda>_. True"
  by unfold_locales (auto simp: written_utf32 CBS_get_utf32_iff)

subsection \<open>Properties\<close>

text \<open>
  C20: the readers of the four encodings and the writers agree exactly: a character is read from
  the front of a byte string, leaving \<open>rest\<close>, if and only if it is one the writer accepts and the
  byte string starts with what the writer produces for it.  In particular overlong UTF-8,
  surrogates, non-characters and truncated sequences are refused.
\<close>
theorem unicode_codecs_canonical:
  "(CBS_get_utf8 bs = (Some u, rest) \<longleftrightarrow>
      is_valid_code_point u \<and> bs = written (CBB_add_utf8 0 u) @ rest)
   \<and> (CBS_get_latin1 bs = (Some u, rest) \<longleftrightarrow> u \<le> 0xff \<and> bs = written (CBB_add_latin1 0 u) @ rest)
   \<and> (CBS_get_ucs2_be bs = (Some u, rest) \<longleftrightarrow>
      (u \<le> 0xffff \<and> is_valid_code_point u) \<and> bs = written (CBB_add_ucs2_be 0 u) @ rest)
   \<and> (CBS_get_utf32_be bs = (Some u, rest) \<longleftrightarrow>
      is_valid_code_point u \<and> bs = written (CBB_add_utf32_be 0 u) @ rest)"
  by (intro conjI utf8.dec_iff latin1.dec_iff ucs2.dec_iff utf32.dec_iff TrueI)

text \<open>
  C21: a text, decoded character by character, is canonical: \<open>n\<close> characters are read from a byte
  string exactly when it starts with their encodings.
\<close>
theorem utf8_text_canonical:
  "decode_many CBS_get_utf8 n bs = (Some us, rest) \<longleftrightarrow>
     length us = n \<and> list_all is_valid_code_point us
     \<and> bs = concat (map (\<lambda>u. written (CBB_add_utf8 0 u)) us) @ rest"
  using utf8.decode_many_sound [OF TrueI] utf8.decode_many_enc [OF _ TrueI, of us rest]
  by (auto simp: list_all_iff)

text \<open>
  \<^verbatim>\<open>CBB_add_utf8\<close> implements the encoding form of the Unicode standard given arithmetically
  by \<open>utf8\<close>, accepts exactly the code points that are not surrogates or non-characters, and
  \<^verbatim>\<open>CBB_get_utf8_len\<close> is the number of bytes.
\<close>
theorem utf8_standard:
  assumes "heap_ok heap"
  shows "cbb_run heap cap (CBB_add_utf8 0 u) = (if code_point (unat u) then Some (utf8 (unat u)) else None)
    \<and> CBB_get_utf8_len u = length (utf8 (unat u))"
proof
  show "cbb_run heap cap (CBB_add_utf8 0 u) = (if code_point (unat u) then Some (utf8 (unat u)) else None)"
    using cbb_run_adds [OF adds_utf8 assms length_utf8_le, of u cap]
    by (simp add: is_valid_iff refused_run CBB_add_utf8_def)
  show "CBB_get_utf8_len u = length (utf8 (unat u))"
    by (auto simp: utf8_def CBB_get_utf8_len_def word_le_nat_alt)
qed

theorem utf8_standard_witness:
  "cbb_run (\<lambda>_. Some (\<lambda>_. 0)) 4 (CBB_add_utf8 0 0x20AC) = Some [0xE2, 0x82, 0xAC]"
  using utf8_standard [of "\<lambda>_. Some (\<lambda>_. 0)" 4 "0x20AC"]
  by (simp add: heap_ok_def code_point_def utf8_def)

end
