(* ===== verification/Base64.thy ===== *)
theory Base64
  imports Const_Time
begin

text \<open>
  Base64 (\<^verbatim>\<open>crypto/base64/base64.c\<close>): the constant-time character conversions, one-shot and
  streaming encoding into lines of 64 characters, one-shot and streaming decoding.

  A function that writes to \<^verbatim>\<open>out\<close> returns the bytes it stored there, from the start of the
  buffer; the caller provides enough room, as the API requires.  \<^verbatim>\<open>data_used\<close> and lengths are
  natural numbers where the code cannot overflow them and words where it checks for overflow.
\<close>

subsection \<open>Characters\<close>

definition constant_time_lt_args_8 :: "u8 \<Rightarrow> u8 \<Rightarrow> u8" where
  "constant_time_lt_args_8 a b =
     (let aw = ucast a; bw = ucast b in ucast (constant_time_msb_w (aw - bw)))"

definition constant_time_in_range_8 :: "u8 \<Rightarrow> u8 \<Rightarrow> u8 \<Rightarrow> u8" where
  "constant_time_in_range_8 a lo hi = constant_time_lt_args_8 (a - lo) (hi - lo + 1)"

text \<open>Character codes: \<open>0x2B\<close> is \<^verbatim>\<open>+\<close>, \<open>0x2F\<close> is \<^verbatim>\<open>/\<close>, \<open>0x30\<close> is \<^verbatim>\<open>0\<close>, \<open>0x3D\<close> is \<^verbatim>\<open>=\<close>.\<close>

definition conv_bin2ascii :: "u8 \<Rightarrow> u8" where
  "conv_bin2ascii a =
     (let a = a AND 0x3f;
          ret = constant_time_select_8 (ucast (constant_time_eq_8 (ucast a) 62)) 0x2B 0x2F;
          ret = constant_time_select_8 (ucast (constant_time_lt_args_8 a 62)) (a - 52 + 0x30) ret;
          ret = constant_time_select_8 (ucast (constant_time_lt_args_8 a 52)) (a - 26 + 0x61) ret;
          ret = constant_time_select_8 (ucast (constant_time_lt_args_8 a 26)) (a + 0x41) ret
      in ret)"

definition base64_ascii_to_bin :: "u8 \<Rightarrow> u8" where
  "base64_ascii_to_bin a =
     (let is_upper = constant_time_in_range_8 a 0x41 0x5A;
          is_lower = constant_time_in_range_8 a 0x61 0x7A;
          is_digit = constant_time_in_range_8 a 0x30 0x39;
          is_plus = constant_time_eq_8 (ucast a) 0x2B;
          is_slash = constant_time_eq_8 (ucast a) 0x2F;
          is_equals = constant_time_eq_8 (ucast a) 0x3D;
          ret = 0;
          ret = ret OR (is_upper AND (a - 0x41));
          ret = ret OR (is_lower AND (a - 0x61 + 26));
          ret = ret OR (is_digit AND (a - 0x30 + 52));
          ret = ret OR (is_plus AND 62);
          ret = ret OR (is_slash AND 63);
          is_valid = is_upper OR is_lower OR is_digit OR is_plus OR is_slash OR is_equals
      in ret OR NOT is_valid)"

subsection \<open>Encoding\<close>

definition EVP_EncodedLength :: "u64 \<Rightarrow> u64 option" where
  "EVP_EncodedLength len =
     (if len + 2 < len then None
      else let len = (len + 2) div 3 in
        if drop_bit 2 (push_bit 2 len) \<noteq> len then None
        else let len = push_bit 2 len in
          if len + 1 < len then None else Some (len + 1))"

record evp_encode_ctx =
  data_used :: nat
  ctx_data :: "u8 list"
  eof_seen :: bool
  error_encountered :: bool

text \<open>The characters before the terminating NUL; their number is the value returned.\<close>

fun EVP_EncodeBlock :: "u8 list \<Rightarrow> u8 list" where
  "EVP_EncodeBlock [] = []"
| "EVP_EncodeBlock [s0] =
     (let l = push_bit 16 (ucast s0) :: u32 in
      [conv_bin2ascii (ucast (drop_bit 18 l)), conv_bin2ascii (ucast (drop_bit 12 l)), 0x3D, 0x3D])"
| "EVP_EncodeBlock [s0, s1] =
     (let l = push_bit 16 (ucast s0) OR push_bit 8 (ucast s1) :: u32 in
      [conv_bin2ascii (ucast (drop_bit 18 l)), conv_bin2ascii (ucast (drop_bit 12 l)),
       conv_bin2ascii (ucast (drop_bit 6 l)), 0x3D])"
| "EVP_EncodeBlock (s0 # s1 # s2 # src) =
     (let l = push_bit 16 (ucast s0) OR push_bit 8 (ucast s1) OR ucast s2 :: u32 in
      [conv_bin2ascii (ucast (drop_bit 18 l)), conv_bin2ascii (ucast (drop_bit 12 l)),
       conv_bin2ascii (ucast (drop_bit 6 l)), conv_bin2ascii (ucast l)]) @ EVP_EncodeBlock src"

definition EVP_EncodeInit :: evp_encode_ctx where
  "EVP_EncodeInit = \<lparr>data_used = 0, ctx_data = replicate 48 0, eof_seen = False, error_encountered = False\<rparr>"

text \<open>\<open>memcpy\<close> of \<open>bs\<close> to \<open>&data[i]\<close>.\<close>

definition ctx_store :: "nat \<Rightarrow> u8 list \<Rightarrow> evp_encode_ctx \<Rightarrow> evp_encode_ctx" where
  "ctx_store i bs ctx = ctx\<lparr>ctx_data := take i (ctx_data ctx) @ bs @ drop (i + length bs) (ctx_data ctx)\<rparr>"

text \<open>
  The loop over whole lines of the input: the total (\<open>None\<close> when it overflowed), what is
  stored in \<^verbatim>\<open>out\<close> apart from the final NUL, and the unread input.
\<close>

function encode_lines :: "u64 \<Rightarrow> u8 list \<Rightarrow> u8 list \<Rightarrow> u64 option \<times> u8 list \<times> u8 list" where
  "encode_lines tot mem inp =
     (if length inp < 48 then (Some tot, mem, inp)
      else let encoded = EVP_EncodeBlock (take 48 inp);
               mem = mem @ encoded @ [0x0A];
               tot' = tot + of_nat (length encoded) + 1
           in if tot' < tot then (None, mem, drop 48 inp)
              else encode_lines tot' mem (drop 48 inp))"
  by pat_completeness auto
termination by (relation "measure (\<lambda>(_, _, inp). length inp)") auto

declare encode_lines.simps [simp del]

definition INT_MAX :: u64 where
  "INT_MAX = 0x7FFFFFFF"

text \<open>Returns the context, the characters stored (a NUL follows if there are any) and \<^verbatim>\<open>*out_len\<close>.\<close>

definition EVP_EncodeUpdate :: "evp_encode_ctx \<Rightarrow> u8 list \<Rightarrow> evp_encode_ctx \<times> u8 list \<times> nat" where
  "EVP_EncodeUpdate ctx inp =
     (if inp = [] then (ctx, [], 0)
      else if length inp < 48 - data_used ctx then
        ((ctx_store (data_used ctx) inp ctx)\<lparr>data_used := data_used ctx + length inp\<rparr>, [], 0)
      else
        let (ctx, mem, tot, inp) =
              (if data_used ctx \<noteq> 0 then
                 let todo = 48 - data_used ctx;
                     ctx = ctx_store (data_used ctx) (take todo inp) ctx;
                     encoded = EVP_EncodeBlock (ctx_data ctx)
                 in (ctx\<lparr>data_used := 0\<rparr>, encoded @ [0x0A], of_nat (length encoded) + 1, drop todo inp)
               else (ctx, [], 0, inp))
        in case encode_lines tot mem inp of
             (None, mem, inp) \<Rightarrow> (ctx, mem, 0)
           | (Some tot, mem, inp) \<Rightarrow>
               ((ctx_store 0 inp ctx)\<lparr>data_used := length inp\<rparr>, mem,
                unat (if INT_MAX < tot then 0 else tot)))"

definition EVP_EncodeFinal :: "evp_encode_ctx \<Rightarrow> evp_encode_ctx \<times> u8 list \<times> nat" where
  "EVP_EncodeFinal ctx =
     (if data_used ctx = 0 then (ctx, [], 0)
      else let encoded = EVP_EncodeBlock (take (data_used ctx) (ctx_data ctx)) @ [0x0A]
           in (ctx\<lparr>data_used := 0\<rparr>, encoded, length encoded))"

subsection \<open>Decoding\<close>

definition EVP_DecodedLength :: "nat \<Rightarrow> nat option" where
  "EVP_DecodedLength len = (if len mod 4 \<noteq> 0 then None else Some (len div 4 * 3))"

definition EVP_DecodeInit :: evp_encode_ctx where
  "EVP_DecodeInit = \<lparr>data_used = 0, ctx_data = replicate 48 0, eof_seen = False, error_encountered = False\<rparr>"

text \<open>The bytes decoded from four characters; \<^verbatim>\<open>*out_num_bytes\<close> is their number.\<close>

definition base64_decode_quad :: "u8 list \<Rightarrow> u8 list option" where
  "base64_decode_quad inp =
     (let a = base64_ascii_to_bin (inp ! 0); b = base64_ascii_to_bin (inp ! 1);
          c = base64_ascii_to_bin (inp ! 2); d = base64_ascii_to_bin (inp ! 3)
      in if a = 0xff \<or> b = 0xff \<or> c = 0xff \<or> d = 0xff then None
         else let v = push_bit 18 (ucast a) OR push_bit 12 (ucast b) OR push_bit 6 (ucast c) OR ucast d :: u32;
                  padding_pattern = push_bit 3 (of_bool (inp ! 0 = 0x3D)) OR push_bit 2 (of_bool (inp ! 1 = 0x3D))
                    OR push_bit 1 (of_bool (inp ! 2 = 0x3D)) OR of_bool (inp ! 3 = 0x3D) :: nat
              in if padding_pattern = 0 then Some [ucast (drop_bit 16 v), ucast (drop_bit 8 v), ucast v]
                 else if padding_pattern = 1 then Some [ucast (drop_bit 16 v), ucast (drop_bit 8 v)]
                 else if padding_pattern = 3 then Some [ucast (drop_bit 16 v)]
                 else None)"

definition is_base64_space :: "u8 \<Rightarrow> bool" where
  "is_base64_space c \<longleftrightarrow> c = 0x20 \<or> c = 0x09 \<or> c = 0x0D \<or> c = 0x0A"

text \<open>The loop over the input; \<open>out\<close> is what has been stored, \<open>bytes_out\<close> its length.\<close>

fun decode_update_loop :: "evp_encode_ctx \<Rightarrow> u8 list \<Rightarrow> u8 list \<Rightarrow> bool \<times> evp_encode_ctx \<times> u8 list" where
  "decode_update_loop ctx out [] = (True, ctx, out)"
| "decode_update_loop ctx out (c # inp) =
     (if is_base64_space c then decode_update_loop ctx out inp
      else if eof_seen ctx then (False, ctx\<lparr>error_encountered := True\<rparr>, out)
      else let ctx = ctx\<lparr>ctx_data := (ctx_data ctx)[data_used ctx := c], data_used := data_used ctx + 1\<rparr>
           in if data_used ctx = 4 then
                (case base64_decode_quad (take 4 (ctx_data ctx)) of
                   None \<Rightarrow> (False, ctx\<lparr>error_encountered := True\<rparr>, out)
                 | Some bs \<Rightarrow>
                     decode_update_loop
                       (ctx\<lparr>data_used := 0, eof_seen := (if length bs < 3 then True else eof_seen ctx)\<rparr>)
                       (out @ bs) inp)
              else decode_update_loop ctx out inp)"

text \<open>Returns the status, the context, the bytes stored and \<^verbatim>\<open>*out_len\<close>.\<close>

definition EVP_DecodeUpdate :: "evp_encode_ctx \<Rightarrow> u8 list \<Rightarrow> int \<times> evp_encode_ctx \<times> u8 list \<times> nat" where
  "EVP_DecodeUpdate ctx inp =
     (if error_encountered ctx then (-1, ctx, [], 0)
      else case decode_update_loop ctx [] inp of
          (False, ctx, out) \<Rightarrow> (-1, ctx, out, 0)
        | (True, ctx, out) \<Rightarrow>
            if unat INT_MAX < length out then (-1, ctx\<lparr>error_encountered := True\<rparr>, out, 0)
            else if eof_seen ctx then (0, ctx, out, length out)
            else (1, ctx, out, length out))"

definition EVP_DecodeFinal :: "evp_encode_ctx \<Rightarrow> int" where
  "EVP_DecodeFinal ctx = (if error_encountered ctx \<or> data_used ctx \<noteq> 0 then -1 else 1)"

function decode_base64_loop :: "u8 list \<Rightarrow> u8 list \<Rightarrow> bool \<times> u8 list" where
  "decode_base64_loop out inp =
     (if inp = [] then (True, out)
      else case base64_decode_quad (take 4 inp) of
          None \<Rightarrow> (False, out)
        | Some bs \<Rightarrow>
            if length bs \<noteq> 3 \<and> drop 4 inp \<noteq> [] then (False, out @ bs)
            else decode_base64_loop (out @ bs) (drop 4 inp))"
  by pat_completeness auto
termination by (relation "measure (\<lambda>(_, inp). length inp)") auto

declare decode_base64_loop.simps [simp del]

text \<open>Returns the status, the bytes stored and \<^verbatim>\<open>*out_len\<close>.\<close>

definition EVP_DecodeBase64 :: "nat \<Rightarrow> u8 list \<Rightarrow> bool \<times> u8 list \<times> nat" where
  "EVP_DecodeBase64 max_out inp =
     (if length inp mod 4 \<noteq> 0 then (False, [], 0)
      else case EVP_DecodedLength (length inp) of
          None \<Rightarrow> (False, [], 0)
        | Some max_len \<Rightarrow>
            if max_out < max_len then (False, [], 0)
            else case decode_base64_loop [] inp of
                (False, out) \<Rightarrow> (False, out, 0)
              | (True, out) \<Rightarrow> (True, out, length out))"

function pad_nul :: "u8 list \<Rightarrow> u8 list" where
  "pad_nul dst = (if length dst mod 3 \<noteq> 0 then pad_nul (dst @ [0]) else dst)"
  by pat_completeness auto
termination
proof (relation "measure (\<lambda>dst. 2 - (length dst + 2) mod 3)", goal_cases)
  case (2 dst)
  then obtain q r where n: "length dst = 3 * q + Suc r" "r < 2"
    using div_mod_decomp_int by (metis One_nat_def Suc_1 Suc_less_eq div_mult_mod_eq gr0_implies_Suc
      mod_less_divisor mult.commute neq0_conv numeral_3_eq_3 zero_less_Suc)
  have "(3 * q + Suc r + 2) mod 3 = r" "(3 * q + Suc r + 3) mod 3 = Suc r"
    using n(2) mod_mult_self4 [of 3 "q + 1" r] mod_mult_self4 [of 3 "q + 1" "Suc r"] by simp_all
  then show ?case using n by simp
qed simp

declare pad_nul.simps [simp del]

definition EVP_DecodeBlock :: "u8 list \<Rightarrow> int \<times> u8 list" where
  "EVP_DecodeBlock src =
     (let src = dropWhile (\<lambda>c. \<not> (c \<noteq> 0x20 \<and> c \<noteq> 0x09)) src;
          src = rev (dropWhile is_base64_space (rev src))
      in case EVP_DecodedLength (length src) of
           None \<Rightarrow> (-1, [])
         | Some dst_len \<Rightarrow>
             if unat INT_MAX < dst_len then (-1, [])
             else case EVP_DecodeBase64 dst_len src of
                 (False, out, _) \<Rightarrow> (-1, out)
               | (True, out, dst_len) \<Rightarrow> let dst = pad_nul out in (int (length dst), dst))"

subsection \<open>The alphabet\<close>

definition base64_codes :: "nat list" where
  "base64_codes = [65..<91] @ [97..<123] @ [48..<58] @ [43, 47]"

definition base64_alphabet :: "u8 list" where
  "base64_alphabet = map of_nat base64_codes"

definition code_of :: "nat \<Rightarrow> nat" where
  "code_of k = (if k < 26 then k + 65 else if k < 52 then k + 71 else if k < 62 then k - 4
     else if k = 62 then 43 else 47)"

definition value_of :: "nat \<Rightarrow> nat" where
  "value_of n = (if 65 \<le> n \<and> n \<le> 90 then n - 65 else if 97 \<le> n \<and> n \<le> 122 then n - 71
     else if 48 \<le> n \<and> n \<le> 57 then n + 4 else if n = 43 then 62 else if n = 47 then 63
     else if n = 61 then 0 else 255)"

lemma length_codes [simp]: "length base64_codes = 64"
  by (simp add: base64_codes_def)

lemma nth_codes: "k < 64 \<Longrightarrow> base64_codes ! k = code_of k"
  by (auto simp: base64_codes_def code_of_def nth_append less_Suc_eq numeral_eq_Suc)

lemma value_code: "k < 64 \<Longrightarrow> value_of (code_of k) = k"
proof -
  assume "k < 64"
  then consider "k < 26" | "26 \<le> k" "k < 52" | "52 \<le> k" "k < 62" | "k = 62" | "k = 63" by linarith
  then show ?thesis by cases (auto simp: value_of_def code_of_def)
qed

lemma code_value: "value_of n \<noteq> 255 \<Longrightarrow> n \<noteq> 61 \<Longrightarrow> value_of n < 64 \<and> code_of (value_of n) = n"
proof -
  assume "value_of n \<noteq> 255" "n \<noteq> 61"
  then consider "65 \<le> n" "n \<le> 90" | "97 \<le> n" "n \<le> 122" | "48 \<le> n" "n \<le> 57" | "n = 43" | "n = 47"
    by (auto simp: value_of_def split: if_splits)
  then show ?thesis by cases (auto simp: value_of_def code_of_def)
qed

lemma lt_args_mask: "constant_time_lt_args_8 a b = word_mask (a < b)"
proof -
  have "\<not> bit (ucast (x :: u8) :: u64) 63" for x
    using bit_imp_le_length [of x 63] by (auto simp: bit_simps)
  then have "constant_time_msb_w (ucast a - ucast b) = word_mask ((ucast a :: u64) < ucast b)"
    by (simp only: msb_mask bit63_minus)
  then show ?thesis by (simp add: constant_time_lt_args_8_def word_less_nat_alt)
qed

lemma eq_8_mask: "constant_time_eq_8 (ucast (a :: u8)) b = word_mask (ucast a = b)"
  by (simp only: constant_time_eq_8_def eq_w_mask ucast_word_mask)

lemma in_range_mask:
  assumes "lo \<le> hi" "unat hi - unat lo < 255"
  shows "constant_time_in_range_8 a lo hi = word_mask (lo \<le> a \<and> a \<le> hi)"
proof -
  have d: "unat (hi - lo) = unat hi - unat lo" by (rule unat_sub_le [OF assms(1)])
  have "unat (hi - lo + 1) = unat hi - unat lo + 1"
    using assms(2) d by (simp add: unat_word_ariths(1) d)
  moreover have "unat (a - lo) = (if lo \<le> a then unat a - unat lo else unat a + 256 - unat lo)"
    using unat_sub_if_size [of a lo] by (simp add: word_size word_le_nat_alt)
  moreover have "unat hi \<le> 255" using unat_u8_less [of hi] by linarith
  ultimately have "a - lo < hi - lo + 1 \<longleftrightarrow> lo \<le> a \<and> a \<le> hi"
    using assms
    unfolding word_less_nat_alt word_le_nat_alt by (cases "unat lo \<le> unat a") auto
  then show ?thesis by (simp add: constant_time_in_range_8_def lt_args_mask)
qed

lemma select_mask_8: "constant_time_select_8 (ucast (word_mask c :: u8)) a b = (if c then a else b)"
proof -
  have "(ucast (ucast (word_mask c :: u8) :: u64) :: u8) = word_mask c"
    by (rule bit_word_eqI) (simp add: bit_simps)
  then show ?thesis by (simp add: constant_time_select_8_def value_barrier_w_def)
qed

lemma unat_conv_bin2ascii: "unat (conv_bin2ascii a) = code_of (unat a mod 64)"
proof -
  define b where "b = a AND 0x3f"
  have "unat (a AND mask 6) = unat a mod 2 ^ 6" by (rule unat_and_mask)
  then have u: "unat b = unat a mod 64" by (simp add: b_def mask_eq_exp_minus_1)
  then have u64: "unat b < 64" by simp
  have e: "(ucast b = (62 :: u64)) = (unat b = 62)" by (simp only: word_unat_eq_iff) simp
  have c: "conv_bin2ascii a = (if b < 26 then b + 0x41 else if b < 52 then b - 26 + 0x61
      else if b < 62 then b - 52 + 0x30 else if unat b = 62 then 0x2B else 0x2F)"
    unfolding conv_bin2ascii_def Let_def b_def [symmetric] eq_8_mask lt_args_mask select_mask_8 e ..
  have add: "unat (x + y) = unat x + unat y" if "unat x + unat y < 256" for x y :: u8
    using that by (simp add: unat_word_ariths(1))
  have s1: "26 \<le> unat b \<Longrightarrow> unat (b - 26) = unat b - 26" by (simp add: unat_sub word_le_nat_alt)
  have s2: "52 \<le> unat b \<Longrightarrow> unat (b - 52) = unat b - 52" by (simp add: unat_sub word_le_nat_alt)
  consider "unat b < 26" | "26 \<le> unat b" "unat b < 52" | "52 \<le> unat b" "unat b < 62"
    | "unat b = 62" | "unat b = 63" using u64 by linarith
  then show ?thesis unfolding c word_less_nat_alt code_of_def u [symmetric]
    by cases (use s1 s2 add [of b "0x41"] add [of "b - 26" "0x61"] add [of "b - 52" "0x30"] in simp_all)
qed

lemma unat_ascii_to_bin: "unat (base64_ascii_to_bin a) = value_of (unat a)"
proof -
  let ?n = "unat a"
  have e: "(ucast a = (0x2B :: u64)) = (?n = 43)" "(ucast a = (0x2F :: u64)) = (?n = 47)"
    "(ucast a = (0x3D :: u64)) = (?n = 61)" by (simp_all only: word_unat_eq_iff) simp_all
  have r: "constant_time_in_range_8 a 0x41 0x5A = word_mask (65 \<le> ?n \<and> ?n \<le> 90)"
    "constant_time_in_range_8 a 0x61 0x7A = word_mask (97 \<le> ?n \<and> ?n \<le> 122)"
    "constant_time_in_range_8 a 0x30 0x39 = word_mask (48 \<le> ?n \<and> ?n \<le> 57)"
    by (subst in_range_mask; simp add: word_le_nat_alt)+
  have s: "65 \<le> ?n \<Longrightarrow> unat (a - 0x41) = ?n - 65" "97 \<le> ?n \<Longrightarrow> unat (a - 0x61) = ?n - 97"
    "48 \<le> ?n \<Longrightarrow> unat (a - 0x30) = ?n - 48" by (simp_all add: unat_sub word_le_nat_alt)
  have add: "unat (x + y) = unat x + unat y" if "unat x + unat y < 256" for x y :: u8
    using that by (simp add: unat_word_ariths(1))
  have ff: "unat (- 1 :: u8) = 255" by (simp add: unsigned_minus_1_eq_mask mask_eq_exp_minus_1)
  consider "65 \<le> ?n" "?n \<le> 90" | "97 \<le> ?n" "?n \<le> 122" | "48 \<le> ?n" "?n \<le> 57" | "?n = 43"
    | "?n = 47" | "?n = 61" | "value_of ?n = 255" "\<not> (65 \<le> ?n \<and> ?n \<le> 90)" "\<not> (97 \<le> ?n \<and> ?n \<le> 122)"
      "\<not> (48 \<le> ?n \<and> ?n \<le> 57)" "?n \<noteq> 43" "?n \<noteq> 47" "?n \<noteq> 61"
    by (auto simp: value_of_def)
  then show ?thesis unfolding base64_ascii_to_bin_def Let_def eq_8_mask r e
    by cases (use s ff add [of "a - 0x61" 26] add [of "a - 0x30" 52] in \<open>auto simp: value_of_def\<close>)
qed

subsection \<open>Groups of three bytes and four characters\<close>

definition base64_char :: "nat \<Rightarrow> u8" where
  "base64_char k = of_nat (code_of (k mod 64))"

lemma code_of_less: "code_of k < 256 \<or> 64 \<le> k"
  by (auto simp: code_of_def)

lemma unat_base64_char: "unat (base64_char k) = code_of (k mod 64)"
  unfolding base64_char_def using code_of_less [of "k mod 64"] by (intro unat_of_nat_id) auto

lemma base64_char_alphabet: "k < 64 \<Longrightarrow> base64_char k = base64_alphabet ! k"
  by (simp add: base64_char_def base64_alphabet_def nth_codes)

lemma conv_bin2ascii_char: "conv_bin2ascii a = base64_char (unat a)"
  by (rule word_eq_by_unat) (simp add: unat_conv_bin2ascii unat_base64_char)

lemma base64_char_neq_pad [simp]: "base64_char k \<noteq> 0x3D"
proof
  assume "base64_char k = 0x3D"
  then have "unat (base64_char k) = 61" by simp
  then have "code_of (k mod 64) = 61" by (simp only: unat_base64_char)
  then show False by (auto simp: code_of_def split: if_splits)
qed

lemma ascii_to_bin_char: "unat (base64_ascii_to_bin (base64_char k)) = k mod 64"
  by (simp add: unat_ascii_to_bin unat_base64_char value_code)

lemma conv_drop: "conv_bin2ascii (ucast (drop_bit s (l :: u32))) = base64_char (unat l div 2 ^ s)"
proof -
  have "unat (ucast (drop_bit s l) :: u8) = unat l div 2 ^ s mod 256"
    by (simp only: unat_ucast_mod unat_drop_bit_div) simp
  then show ?thesis by (simp add: conv_bin2ascii_char base64_char_def mod_mod_cancel)
qed

lemma u32_three:
  "unat (push_bit 16 (ucast (a :: u8)) OR push_bit 8 (ucast (b :: u8)) OR ucast (c :: u8) :: u32) =
     65536 * unat a + 256 * unat b + unat c"
proof -
  have c: "unat (ucast c :: u32) < 256 ^ 1" by simp
  note 1 = unat_or_byte [OF c, of b, simplified]
  note 2 = unat_or_byte [of _ 2 a, where 'a = 32, simplified, OF conjunct2 [OF 1]]
  show ?thesis using conjunct1 [OF 1] conjunct1 [OF 2]
    by (simp add: or.commute or.left_commute or.assoc)
qed

lemma u32_four:
  assumes "unat (a :: u8) < 64" "unat (b :: u8) < 64" "unat (c :: u8) < 64" "unat (d :: u8) < 64"
  shows "unat (push_bit 18 (ucast a) OR push_bit 12 (ucast b) OR push_bit 6 (ucast c) OR ucast d :: u32) =
     262144 * unat a + 4096 * unat b + 64 * unat c + unat d"
proof -
  have 1: "unat ((ucast d :: u32) OR push_bit 6 (ucast c)) = unat d + 64 * unat c"
    using unat_or_push_bit [of "ucast d :: u32" 6 "ucast c"] assms by simp
  have 2: "unat ((ucast d OR push_bit 6 (ucast c) :: u32) OR push_bit 12 (ucast b)) = unat d + 64 * unat c + 4096 * unat b"
    using unat_or_push_bit [of "ucast d OR push_bit 6 (ucast c) :: u32" 12 "ucast b"] assms 1 by simp
  have 3: "unat ((ucast d OR push_bit 6 (ucast c) OR push_bit 12 (ucast b) :: u32) OR push_bit 18 (ucast a))
      = unat d + 64 * unat c + 4096 * unat b + 262144 * unat a"
    using unat_or_push_bit [of "ucast d OR push_bit 6 (ucast c) OR push_bit 12 (ucast b) :: u32" 18 "ucast a"] assms 2
    by (simp add: or.assoc)
  show ?thesis using 3 by (simp add: or.commute or.left_commute or.assoc)
qed

text \<open>RFC 4648: the text of a byte string.\<close>

fun base64 :: "u8 list \<Rightarrow> u8 list" where
  "base64 [] = []"
| "base64 [a] = (let n = 16 * unat a in [base64_char (n div 64), base64_char n, 0x3D, 0x3D])"
| "base64 [a, b] = (let n = 4 * (256 * unat a + unat b) in
     [base64_char (n div 4096), base64_char (n div 64), base64_char n, 0x3D])"
| "base64 (a # b # c # bs) = (let n = 65536 * unat a + 256 * unat b + unat c in
     [base64_char (n div 262144), base64_char (n div 4096), base64_char (n div 64), base64_char n]) @ base64 bs"

lemma encode_block_eq: "EVP_EncodeBlock bs = base64 bs"
proof (induction bs rule: base64.induct)
  case (2 a)
  have a: "unat (push_bit 16 (ucast a) :: u32) = 65536 * unat a"
    using u32_three [of a 0 0] by simp
  define l where "l = (push_bit 16 (ucast a) :: u32)"
  note a' = a [folded l_def]
  have "EVP_EncodeBlock [a] = [base64_char (unat l div 2 ^ 18), base64_char (unat l div 2 ^ 12), 0x3D, 0x3D]"
    unfolding EVP_EncodeBlock.simps Let_def l_def [symmetric] conv_drop ..
  also have "unat l div 2 ^ 18 = 16 * unat a div 64" unfolding a' by simp
  also have "unat l div 2 ^ 12 = 16 * unat a" unfolding a' by simp
  finally show ?case by (simp only: base64.simps Let_def)
next
  case (3 a b)
  define l where "l = (push_bit 16 (ucast a) OR push_bit 8 (ucast b) :: u32)"
  have l: "unat l = 65536 * unat a + 256 * unat b" using u32_three [of a b 0] by (simp add: l_def)
  have "EVP_EncodeBlock [a, b] = [base64_char (unat l div 2 ^ 18), base64_char (unat l div 2 ^ 12),
      base64_char (unat l div 2 ^ 6), 0x3D]"
    unfolding EVP_EncodeBlock.simps Let_def l_def [symmetric] conv_drop ..
  also have "unat l div 2 ^ 18 = 4 * (256 * unat a + unat b) div 4096"
    using div_mult_mult1 [of 64 "4 * (256 * unat a + unat b)" 4096] unfolding l by simp
  also have "unat l div 2 ^ 12 = 4 * (256 * unat a + unat b) div 64"
    using div_mult_mult1 [of 64 "4 * (256 * unat a + unat b)" 64] unfolding l by simp
  also have "unat l div 2 ^ 6 = 4 * (256 * unat a + unat b)" unfolding l by simp
  finally show ?case by (simp only: base64.simps Let_def)
next
  case (4 a b c bs)
  define l where "l = (push_bit 16 (ucast a) OR push_bit 8 (ucast b) OR ucast c :: u32)"
  have l: "unat l = 65536 * unat a + 256 * unat b + unat c" unfolding l_def by (rule u32_three)
  have "conv_bin2ascii (ucast l) = base64_char (unat l)" using conv_drop [of 0 l] by simp
  then have "EVP_EncodeBlock (a # b # c # bs) = [base64_char (unat l div 2 ^ 18), base64_char (unat l div 2 ^ 12),
      base64_char (unat l div 2 ^ 6), base64_char (unat l)] @ EVP_EncodeBlock bs"
    unfolding EVP_EncodeBlock.simps Let_def l_def [symmetric] conv_drop by simp
  then show ?case using 4 l by (simp add: Let_def)
qed simp

lemma length_base64: "length (base64 bs) = 4 * ((length bs + 2) div 3)"
proof (induction bs rule: base64.induct)
  case (4 a b c bs)
  have "(5 + length bs) div 3 = Suc ((length bs + 2) div 3)"
    using div_add_self2 [of 3 "length bs + 2"] by simp
  with 4 show ?case by (simp add: Let_def)
qed (simp_all add: Let_def)

lemma ascii_to_bin_pad: "base64_ascii_to_bin 0x3D = 0"
proof -
  have "unat (base64_ascii_to_bin 0x3D) = value_of 61" using unat_ascii_to_bin [of "0x3D"] by simp
  then show ?thesis by (intro word_eq_by_unat) (simp add: value_of_def)
qed

lemma ascii_to_bin_char_ff: "base64_ascii_to_bin (base64_char k) \<noteq> 0xff"
proof
  assume "base64_ascii_to_bin (base64_char k) = 0xff"
  then have "unat (base64_ascii_to_bin (base64_char k)) = 255" by simp
  then show False using mod_less_divisor [of 64 k] unfolding ascii_to_bin_char by simp
qed

lemma drop_byte: "(ucast (drop_bit s (v :: u32)) :: u8) = of_nat (unat v div 2 ^ s)"
proof -
  have "(ucast (drop_bit s v) :: u8) = of_nat (unat (drop_bit s v))" by simp
  then show ?thesis by (simp only: unat_drop_bit_div)
qed

lemmas quad_simps = base64_decode_quad_def Let_def ascii_to_bin_pad ascii_to_bin_char_ff

lemma decode_quad_chars:
  assumes "v = 262144 * (x mod 64) + 4096 * (y mod 64) + 64 * (z mod 64) + w mod 64"
  shows "base64_decode_quad [base64_char x, base64_char y, base64_char z, base64_char w] =
    Some [of_nat (v div 65536), of_nat (v div 256), of_nat v]"
proof -
  define u where "u = (push_bit 18 (ucast (base64_ascii_to_bin (base64_char x))) OR
      push_bit 12 (ucast (base64_ascii_to_bin (base64_char y))) OR
      push_bit 6 (ucast (base64_ascii_to_bin (base64_char z))) OR
      ucast (base64_ascii_to_bin (base64_char w)) :: u32)"
  have "unat u = v" unfolding u_def assms by (subst u32_four) (simp_all add: ascii_to_bin_char)
  moreover have "base64_decode_quad [base64_char x, base64_char y, base64_char z, base64_char w] =
      Some [ucast (drop_bit 16 u), ucast (drop_bit 8 u), ucast (drop_bit 0 u)]"
    by (simp add: quad_simps u_def)
  ultimately show ?thesis by (simp only: drop_byte) simp
qed

lemma decode_quad_pad1:
  assumes "v = 262144 * (x mod 64) + 4096 * (y mod 64) + 64 * (z mod 64)"
  shows "base64_decode_quad [base64_char x, base64_char y, base64_char z, 0x3D] =
    Some [of_nat (v div 65536), of_nat (v div 256)]"
proof -
  define u where "u = (push_bit 18 (ucast (base64_ascii_to_bin (base64_char x))) OR
      push_bit 12 (ucast (base64_ascii_to_bin (base64_char y))) OR
      push_bit 6 (ucast (base64_ascii_to_bin (base64_char z))) OR ucast (0 :: u8) :: u32)"
  have "unat u = v" unfolding u_def assms by (subst u32_four) (simp_all add: ascii_to_bin_char)
  moreover have "base64_decode_quad [base64_char x, base64_char y, base64_char z, 0x3D] =
      Some [ucast (drop_bit 16 u), ucast (drop_bit 8 u)]"
    by (simp add: quad_simps u_def)
  ultimately show ?thesis by (simp only: drop_byte) simp
qed

lemma decode_quad_pad2:
  assumes "v = 262144 * (x mod 64) + 4096 * (y mod 64)"
  shows "base64_decode_quad [base64_char x, base64_char y, 0x3D, 0x3D] = Some [of_nat (v div 65536)]"
proof -
  define u where "u = (push_bit 18 (ucast (base64_ascii_to_bin (base64_char x))) OR
      push_bit 12 (ucast (base64_ascii_to_bin (base64_char y))) OR
      push_bit 6 (ucast (0 :: u8)) OR ucast (0 :: u8) :: u32)"
  have "unat u = v" unfolding u_def assms by (subst u32_four) (simp_all add: ascii_to_bin_char)
  moreover have "base64_decode_quad [base64_char x, base64_char y, 0x3D, 0x3D] = Some [ucast (drop_bit 16 u)]"
    by (simp add: quad_simps u_def)
  ultimately show ?thesis by (simp only: drop_byte) simp
qed

text \<open>The bytes of a group, read back from its 24-bit number.\<close>

lemma three_bytes:
  "[of_nat ((65536 * unat a + 256 * unat b + unat c) div 65536),
    of_nat ((65536 * unat a + 256 * unat b + unat c) div 256),
    of_nat (65536 * unat a + 256 * unat b + unat c)] = [a, b, c :: u8]"
proof -
  let ?n = "65536 * unat a + 256 * unat b + unat c"
  have ub: "unat b < 256" "unat c < 256" by simp_all
  then have "256 * unat b + unat c < 65536" by linarith
  then have "?n div 65536 = unat a" by (intro div_nat_eqI) simp_all
  moreover have "?n div 256 = unat b + unat a * 256"
    using div_mult_self3 [of 256 "unat b + unat a * 256" "unat c"] ub by (simp add: algebra_simps)
  moreover have "(of_nat (k * 256 + x) :: u8) = of_nat x" for k x
    by (rule word_eq_by_unat) (simp add: unat_of_nat take_bit_eq_mod del: of_nat_add of_nat_mult)
  then have "(of_nat (unat b + unat a * 256) :: u8) = b" "(of_nat ?n :: u8) = c"
    using \<open>\<And>k x. (of_nat (k * 256 + x) :: u8) = of_nat x\<close> [of "unat a" "unat b"]
      \<open>\<And>k x. (of_nat (k * 256 + x) :: u8) = of_nat x\<close> [of "256 * unat a + unat b" "unat c"]
    by (simp_all add: algebra_simps del: of_nat_add of_nat_mult)
  ultimately show ?thesis by simp
qed

lemma sextets: "262144 * (n div 262144 mod 64) + 4096 * (n div 4096 mod 64) + 64 * (n div 64 mod 64) + n mod 64
    = (n :: nat)" if "n < 16777216"
proof -
  have "n div 262144 mod 64 = n div 262144" using that by simp
  moreover have "n div 262144 = n div 4096 div 64" "n div 4096 = n div 64 div 64"
    by (simp_all add: div_mult2_eq [symmetric])
  ultimately show ?thesis
    using div_mult_mod_eq [of n 64] div_mult_mod_eq [of "n div 64" 64] div_mult_mod_eq [of "n div 4096" 64]
    by linarith
qed

lemma decode_group3:
  "base64_decode_quad (base64 [a, b, c]) = Some [a, b, c]"
proof -
  let ?n = "65536 * unat a + 256 * unat b + unat c"
  have "?n < 16777216" using unat_u8_less [of a] unat_u8_less [of b] unat_u8_less [of c] by linarith
  from decode_quad_chars [OF sextets [OF this, symmetric]] three_bytes [of a b c]
  show ?thesis by (simp only: base64.simps Let_def append_Nil2)
qed

lemma decode_group2: "base64_decode_quad (base64 [a, b]) = Some [a, b]"
proof -
  let ?n = "4 * (256 * unat a + unat b)" and ?m = "65536 * unat a + 256 * unat b + unat (0 :: u8)"
  have "65536 * unat a + 256 * unat b < 16777216"
    using unat_u8_less [of a] unat_u8_less [of b] by linarith
  then have "?m < 16777216" by simp
  note s = sextets [OF this]
  have m: "?m div 262144 = ?n div 4096" "?m div 4096 = ?n div 64" "?m div 64 = ?n" "?m mod 64 = 0"
    using div_mult_mult1 [of 64 ?n 4096] div_mult_mult1 [of 64 ?n 64] by simp_all
  have "?m = 262144 * (?n div 4096 mod 64) + 4096 * (?n div 64 mod 64) + 64 * (?n mod 64)"
    using s unfolding m by linarith
  from decode_quad_pad1 [OF this] three_bytes [of a b 0]
  show ?thesis by (simp only: base64.simps Let_def list.inject)
qed

lemma decode_group1: "base64_decode_quad (base64 [a]) = Some [a]"
proof -
  let ?n = "16 * unat a" and ?m = "65536 * unat a + 256 * unat (0 :: u8) + unat (0 :: u8)"
  have "?m < 16777216" using unat_u8_less [of a] by simp
  note s = sextets [OF this]
  have m: "?m div 262144 = ?n div 64" "?m div 4096 = ?n" "?m div 64 mod 64 = 0" "?m mod 64 = 0"
    using div_mult_mult1 [of 4096 ?n 64] by simp_all
  have "?m = 262144 * (?n div 64 mod 64) + 4096 * (?n mod 64)" using s unfolding m by linarith
  from decode_quad_pad2 [OF this] three_bytes [of a 0 0]
  show ?thesis by (simp only: base64.simps Let_def list.inject)
qed

lemma decode_base64_loop_encode: "decode_base64_loop out (base64 bs) = (True, out @ bs)"
proof (induction bs arbitrary: out rule: base64.induct)
  case 1
  then show ?case by (simp add: decode_base64_loop.simps)
next
  case (2 a)
  have "take 4 (base64 [a]) = base64 [a]" "drop 4 (base64 [a]) = []" "base64 [a] \<noteq> []" by (simp_all add: Let_def)
  then show ?case using decode_group1 [of a]
    by (simp only: decode_base64_loop.simps [of out "base64 [a]"] if_False option.case simp_thms)
      (simp add: decode_base64_loop.simps)
next
  case (3 a b)
  have "take 4 (base64 [a, b]) = base64 [a, b]" "drop 4 (base64 [a, b]) = []" "base64 [a, b] \<noteq> []"
    by (simp_all add: Let_def)
  then show ?case using decode_group2 [of a b]
    by (simp only: decode_base64_loop.simps [of out "base64 [a, b]"] if_False option.case simp_thms)
      (simp add: decode_base64_loop.simps)
next
  case (4 a b c bs)
  let ?t = "base64 (a # b # c # bs)"
  have "take 4 ?t = base64 [a, b, c]" "drop 4 ?t = base64 bs" "?t \<noteq> []"
    by (simp_all add: Let_def)
  then show ?case using decode_group3 [of a b c] 4
    by (simp only: decode_base64_loop.simps [of out ?t] if_False option.case simp_thms) simp
qed

lemma base64_mod4: "length (base64 bs) mod 4 = 0"
  by (simp add: length_base64)

lemma EVP_DecodeBase64_encode:
  assumes "3 * ((length bs + 2) div 3) \<le> max_out"
  shows "EVP_DecodeBase64 max_out (EVP_EncodeBlock bs) = (True, bs, length bs)"
  using assms by (simp add: EVP_DecodeBase64_def encode_block_eq base64_mod4 EVP_DecodedLength_def
    decode_base64_loop_encode length_base64 mult.commute)

end
