(* ===== verification/Base64_Stream.thy ===== *)
theory Base64_Stream
  imports Base64
begin

text \<open>
  Streaming base64: whatever the chunks the caller passes, the encoder writes the text of the
  whole input in lines, and the decoder accepts and returns what the one-shot decoder returns
  on the text without its white space.  The properties of the base64 component are at the end.
\<close>

subsection \<open>Lines of 64 characters\<close>

function pem_lines :: "u8 list \<Rightarrow> u8 list" where
  "pem_lines bs =
     (if length bs < 48 then [] else base64 (take 48 bs) @ [0x0A] @ pem_lines (drop 48 bs))"
  by pat_completeness auto
termination by (relation "measure length") auto

function residue :: "u8 list \<Rightarrow> u8 list" where
  "residue bs = (if length bs < 48 then bs else residue (drop 48 bs))"
  by pat_completeness auto
termination by (relation "measure length") auto

declare pem_lines.simps [simp del] residue.simps [simp del]

definition pem :: "u8 list \<Rightarrow> u8 list" where
  "pem bs = pem_lines bs @ (if residue bs = [] then [] else base64 (residue bs) @ [0x0A])"

lemma lines_short [simp]: "length bs < 48 \<Longrightarrow> pem_lines bs = [] \<and> residue bs = bs"
  by (simp add: pem_lines.simps residue.simps)

lemma lines_long:
  "48 \<le> length bs \<Longrightarrow> pem_lines bs = base64 (take 48 bs) @ [0x0A] @ pem_lines (drop 48 bs)
     \<and> residue bs = residue (drop 48 bs)"
  by (subst pem_lines.simps, subst residue.simps) simp

lemma lines_split:
  "length a = 48 \<Longrightarrow> pem_lines (a @ b) = base64 a @ [0x0A] @ pem_lines b \<and> residue (a @ b) = residue b"
  using lines_long [of "a @ b"] by simp

lemma length_residue: "length (residue bs) < 48"
  by (induction bs rule: residue.induct) (simp add: residue.simps)

lemma lines_append:
  "pem_lines (a @ b) = pem_lines a @ pem_lines (residue a @ b) \<and> residue (a @ b) = residue (residue a @ b)"
proof (induction a rule: residue.induct)
  case (1 a)
  show ?case
  proof (cases "length a < 48")
    case True
    then show ?thesis by simp
  next
    case False
    have a: "take 48 a @ (drop 48 a @ b) = a @ b"
      by (simp only: append_assoc [symmetric] append_take_drop_id)
    have "pem_lines (a @ b) = base64 (take 48 a) @ [0x0A] @ pem_lines (drop 48 a @ b)"
      "residue (a @ b) = residue (drop 48 a @ b)"
      using lines_split [of "take 48 a" "drop 48 a @ b"] False unfolding a by simp_all
    then show ?thesis using 1 [OF False] lines_long [of a] False by simp
  qed
qed

lemma length_line: "length bs = 48 \<Longrightarrow> length (base64 bs) = 64"
  by (simp add: length_base64)

lemma length_pem_lines: "length (pem_lines bs) = 65 * (length bs div 48)"
proof (induction bs rule: pem_lines.induct)
  case (1 bs)
  show ?case
  proof (cases "length bs < 48")
    case True
    then show ?thesis by simp
  next
    case False
    then have "length bs div 48 = Suc (length (drop 48 bs) div 48)"
      using div_add_self2 [of 48 "length (drop 48 bs)"] by simp
    then show ?thesis using 1 False lines_long [of bs] by (simp add: length_line)
  qed
qed

subsection \<open>The encoder\<close>

definition ctx_ok :: "evp_encode_ctx \<Rightarrow> bool" where
  "ctx_ok ctx \<longleftrightarrow> length (ctx_data ctx) = 48 \<and> data_used ctx < 48"

definition pending :: "evp_encode_ctx \<Rightarrow> u8 list" where
  "pending ctx = take (data_used ctx) (ctx_data ctx)"

lemma length_pending: "ctx_ok ctx \<Longrightarrow> length (pending ctx) = data_used ctx"
  by (simp add: ctx_ok_def pending_def)

lemma encode_lines_eq:
  assumes "unat tot + 65 * (length inp div 48) < 2 ^ 64"
  shows "encode_lines tot mem inp =
    (Some (tot + of_nat (65 * (length inp div 48))), mem @ pem_lines inp, residue inp)"
  using assms
proof (induction tot mem inp rule: encode_lines.induct)
  case (1 tot mem inp)
  show ?case
  proof (cases "length inp < 48")
    case True
    then show ?thesis by (simp add: encode_lines.simps)
  next
    case False
    define enc where "enc = EVP_EncodeBlock (take 48 inp)"
    define q where "q = length (drop 48 inp) div 48"
    have q: "length inp div 48 = Suc q"
      using False div_add_self2 [of 48 "length (drop 48 inp)"] by (simp add: q_def)
    have e: "enc = base64 (take 48 inp)" "length enc = 64"
      using False by (simp_all add: enc_def encode_block_eq length_line)
    define tot' where "tot' = tot + of_nat (length enc) + 1"
    have t: "tot' = tot + 65" unfolding tot'_def e(2) by simp
    have u: "unat tot' = unat tot + 65"
      using 1(2) unfolding t q by (simp add: unat_word_ariths(1))
    have "\<not> tot' < tot" using u by (simp add: word_less_nat_alt)
    then have "encode_lines tot mem inp = encode_lines tot' (mem @ enc @ [0x0A]) (drop 48 inp)"
      using False by (subst encode_lines.simps) (simp add: enc_def [symmetric] tot'_def [symmetric] Let_def)
    also have "\<dots> = (Some (tot' + of_nat (65 * q)), (mem @ enc @ [0x0A]) @ pem_lines (drop 48 inp), residue (drop 48 inp))"
      unfolding q_def tot'_def enc_def
      by (rule 1(1) [OF False refl refl refl])
        (use 1(2) u q q_def in \<open>simp_all add: tot'_def enc_def word_less_nat_alt\<close>)
    also have "tot' + of_nat (65 * q) = tot + of_nat (65 * (length inp div 48))"
      unfolding t q by (simp add: algebra_simps)
    finally show ?thesis using lines_long [of inp] False e by simp
  qed
qed

lemma encode_update:
  assumes "ctx_ok ctx" "length inp \<le> 1500000000"
  obtains ctx' where "EVP_EncodeUpdate ctx inp = (ctx', pem_lines (pending ctx @ inp), length (pem_lines (pending ctx @ inp)))"
    "ctx_ok ctx'" "pending ctx' = residue (pending ctx @ inp)"
proof -
  let ?p = "pending ctx" and ?u = "data_used ctx"
  have d: "length (ctx_data ctx) = 48" "?u < 48" using assms(1) by (simp_all add: ctx_ok_def)
  have lp: "length ?p = ?u" by (rule length_pending [OF assms(1)])
  consider "inp = []" | "inp \<noteq> []" "length inp < 48 - ?u" | "inp \<noteq> []" "48 - ?u \<le> length inp" by linarith
  then show thesis
  proof cases
    case 1
    then show ?thesis using that [of ctx] assms(1) lp d by (simp add: EVP_EncodeUpdate_def)
  next
    case 2
    let ?c = "(ctx_store ?u inp ctx)\<lparr>data_used := ?u + length inp\<rparr>"
    have "EVP_EncodeUpdate ctx inp = (?c, [], 0)" using 2 by (simp add: EVP_EncodeUpdate_def)
    moreover have "length (?p @ inp) < 48" using 2 lp by simp
    moreover have "pending ?c = ?p @ inp" "ctx_ok ?c"
      using 2 d by (simp_all add: pending_def ctx_store_def ctx_ok_def)
    ultimately show ?thesis using that [of ?c] by simp
  next
    case 3
    define todo where "todo = 48 - ?u"
    define c0 where "c0 = (if ?u \<noteq> 0 then (ctx_store ?u (take todo inp) ctx)\<lparr>data_used := 0\<rparr> else ctx)"
    define m0 where "m0 = (if ?u \<noteq> 0 then base64 (?p @ take todo inp) @ [0x0A] else [])"
    define i0 where "i0 = (if ?u \<noteq> 0 then drop todo inp else inp)"
    define t0 where "t0 = (if ?u \<noteq> 0 then 65 else 0 :: u64)"
    have st: "ctx_data (ctx_store ?u (take todo inp) ctx) = ?p @ take todo inp"
      using 3 d by (simp add: ctx_store_def pending_def todo_def)
    have l48: "length (?p @ take todo inp) = 48" using 3 d lp by (simp add: todo_def)
    have pl: "pem_lines (?p @ inp) = m0 @ pem_lines i0 \<and> residue (?p @ inp) = residue i0"
    proof (cases "?u = 0")
      case True
      then show ?thesis using lp by (simp add: m0_def i0_def)
    next
      case False
      then show ?thesis using lines_split [OF l48, of "drop todo inp"] by (simp add: m0_def i0_def)
    qed
    have li: "length i0 \<le> 1500000000" using assms(2) by (auto simp: i0_def)
    have tu: "unat t0 \<le> 65" "unat t0 = length m0"
      using length_line [OF l48] by (simp_all add: t0_def m0_def)
    define k where "k = 65 * (length i0 div 48)"
    have "length i0 div 48 \<le> 1500000000 div 48" using li by (rule div_le_mono)
    then have k: "k \<le> 2031250000" by (simp add: k_def)
    have e: "encode_lines t0 m0 i0 = (Some (t0 + of_nat k), m0 @ pem_lines i0, residue i0)"
      unfolding k_def by (rule encode_lines_eq) (use k tu(1) in \<open>simp add: k_def\<close>)
    have uk: "unat (t0 + of_nat k) = unat t0 + k"
      using k tu(1) by (simp add: unat_word_ariths(1) unat_of_nat_u64)
    then have "\<not> INT_MAX < t0 + of_nat k"
      using k tu(1) by (simp add: INT_MAX_def word_less_nat_alt)
    moreover have "length (m0 @ pem_lines i0) = unat (t0 + of_nat k)"
      unfolding uk tu(2) by (simp add: length_pem_lines k_def)
    moreover have "EVP_EncodeUpdate ctx inp = (case encode_lines t0 m0 i0 of
        (None, mem, inp) \<Rightarrow> (c0, mem, 0)
      | (Some tot, mem, inp) \<Rightarrow> ((ctx_store 0 inp c0)\<lparr>data_used := length inp\<rparr>, mem,
          unat (if INT_MAX < tot then 0 else tot)))"
      using 3 st length_line [OF l48]
      by (simp add: EVP_EncodeUpdate_def Let_def c0_def m0_def i0_def t0_def todo_def encode_block_eq
        split: option.split prod.split)
    ultimately have r: "EVP_EncodeUpdate ctx inp =
        ((ctx_store 0 (residue i0) c0)\<lparr>data_used := length (residue i0)\<rparr>,
          m0 @ pem_lines i0, length (m0 @ pem_lines i0))"
      unfolding e by simp
    have "length (ctx_data c0) = 48" using d st l48 by (simp add: c0_def)
    then show ?thesis using that [OF r [folded conjunct1 [OF pl]]] length_residue [of i0] conjunct2 [OF pl]
      by (simp add: ctx_ok_def pending_def ctx_store_def)
  qed
qed

text \<open>A client that encodes a sequence of chunks, keeping \<^verbatim>\<open>*out_len\<close> bytes of every call.\<close>

fun encode_chunks :: "evp_encode_ctx \<Rightarrow> u8 list list \<Rightarrow> u8 list" where
  "encode_chunks ctx [] = (case EVP_EncodeFinal ctx of (_, mem, n) \<Rightarrow> take n mem)"
| "encode_chunks ctx (c # cs) =
     (case EVP_EncodeUpdate ctx c of (ctx, mem, n) \<Rightarrow> take n mem @ encode_chunks ctx cs)"

lemma encode_chunks_eq:
  assumes "ctx_ok ctx" "\<forall>c \<in> set cs. length c \<le> 1500000000"
  shows "encode_chunks ctx cs = pem (pending ctx @ concat cs)"
  using assms
proof (induction cs arbitrary: ctx)
  case Nil
  then have l: "length (pending ctx) < 48" by (simp add: length_pending ctx_ok_def)
  have "data_used ctx = 0 \<longleftrightarrow> pending ctx = []" using length_pending [OF Nil(1)] by auto
  moreover have "take (data_used ctx) (ctx_data ctx) = pending ctx" by (simp add: pending_def)
  ultimately show ?case using l by (simp add: EVP_EncodeFinal_def pem_def encode_block_eq)
next
  case (Cons c cs)
  have "length c \<le> 1500000000" using Cons.prems(2) by simp
  from encode_update [OF Cons.prems(1) this] obtain ctx' where
    u: "EVP_EncodeUpdate ctx c = (ctx', pem_lines (pending ctx @ c), length (pem_lines (pending ctx @ c)))"
    "ctx_ok ctx'" "pending ctx' = residue (pending ctx @ c)" by metis
  have "encode_chunks ctx (c # cs) = pem_lines (pending ctx @ c) @ pem (residue (pending ctx @ c) @ concat cs)"
    using u Cons.IH [OF u(2)] Cons.prems(2) by simp
  then show ?case using lines_append [of "pending ctx @ c" "concat cs"] by (simp add: pem_def)
qed

subsection \<open>The decoder\<close>

lemma decode_loop_spaces:
  "decode_update_loop ctx out inp = decode_update_loop ctx out (filter (\<lambda>c. \<not> is_base64_space c) inp)"
  by (induction ctx out inp rule: decode_update_loop.induct) (auto simp: Let_def split: option.split)

lemma decode_loop_out:
  "decode_update_loop ctx (out @ out') inp =
     (case decode_update_loop ctx out' inp of (ok, ctx', o') \<Rightarrow> (ok, ctx', out @ o'))"
proof (induction ctx out' inp rule: decode_update_loop.induct)
  case (2 ctx out' c inp)
  then show ?case by (simp add: Let_def split: option.split)
qed simp

lemma decode_loop_append:
  "decode_update_loop ctx out (a @ b) =
     (case decode_update_loop ctx out a of
        (False, ctx', out') \<Rightarrow> (False, ctx', out')
      | (True, ctx', out') \<Rightarrow> decode_update_loop ctx' out' b)"
  by (induction ctx out a rule: decode_update_loop.induct) (simp_all add: Let_def split: option.split)

definition dec_ok :: "evp_encode_ctx \<Rightarrow> bool" where
  "dec_ok ctx \<longleftrightarrow> length (ctx_data ctx) = 48 \<and> data_used ctx < 4 \<and> \<not> error_encountered ctx"

lemma length_decode_quad: "base64_decode_quad inp = Some bs \<Longrightarrow> length bs \<le> 3"
  by (auto simp: base64_decode_quad_def Let_def split: if_splits)

lemma decode_loop_ok:
  assumes "decode_update_loop ctx out inp = (True, ctx', out')" "dec_ok ctx"
  shows "dec_ok ctx' \<and> 4 * length out' + 3 * data_used ctx' \<le> 4 * length out + 3 * (data_used ctx + length inp)"
  using assms
proof (induction ctx out inp rule: decode_update_loop.induct)
  case (1 ctx out)
  then show ?case by simp
next
  case (2 ctx out c inp)
  let ?c = "ctx\<lparr>ctx_data := (ctx_data ctx)[data_used ctx := c], data_used := data_used ctx + 1\<rparr>"
  show ?case
  proof (cases "is_base64_space c")
    case True
    have "decode_update_loop ctx out inp = (True, ctx', out')" using 2(4) True by simp
    from 2(1) [OF True this 2(5)] show ?thesis by simp
  next
    case False
    then have e: "\<not> eof_seen ctx" using 2(4) by (auto split: if_splits)
    show ?thesis
    proof (cases "data_used ?c = 4")
      case True
      obtain bs where q: "base64_decode_quad (take 4 (ctx_data ?c)) = Some bs"
        using 2(4) False e True by (auto simp: Let_def split: option.splits)
      let ?d = "?c\<lparr>data_used := 0, eof_seen := (if length bs < 3 then True else eof_seen ?c)\<rparr>"
      have r: "decode_update_loop ?d (out @ bs) inp = (True, ctx', out')"
        using 2(4) False e True q by (simp add: Let_def cong: if_cong)
      have "dec_ok ?d" using 2(5) by (simp add: dec_ok_def)
      from 2(2) [OF False e refl True q r this] length_decode_quad [OF q] True show ?thesis by simp
    next
      case F: False
      have r: "decode_update_loop ?c out inp = (True, ctx', out')"
        using 2(4) False e F by (simp add: Let_def)
      have "dec_ok ?c" using 2(5) F by (simp add: dec_ok_def)
      from 2(3) [OF False e refl F r this] show ?thesis by simp
    qed
  qed
qed

text \<open>A client that decodes a sequence of chunks.\<close>

fun decode_chunks :: "evp_encode_ctx \<Rightarrow> u8 list list \<Rightarrow> u8 list option" where
  "decode_chunks ctx [] = (if EVP_DecodeFinal ctx = 1 then Some [] else None)"
| "decode_chunks ctx (c # cs) =
     (case EVP_DecodeUpdate ctx c of (status, ctx, mem, n) \<Rightarrow>
        if status < 0 then None else map_option ((@) (take n mem)) (decode_chunks ctx cs))"

definition stream_result :: "bool \<times> evp_encode_ctx \<times> u8 list \<Rightarrow> u8 list option" where
  "stream_result r = (case r of (ok, ctx, out) \<Rightarrow> if ok \<and> data_used ctx = 0 then Some out else None)"

lemma decode_chunks_loop:
  assumes "dec_ok ctx" "\<forall>c \<in> set cs. length c \<le> 2000000000"
  shows "decode_chunks ctx cs = stream_result (decode_update_loop ctx [] (concat cs))"
  using assms
proof (induction cs arbitrary: ctx)
  case Nil
  then show ?case by (simp add: EVP_DecodeFinal_def stream_result_def dec_ok_def)
next
  case (Cons c cs)
  obtain ok ctx' out where r: "decode_update_loop ctx [] c = (ok, ctx', out)" by (metis prod_cases3)
  have e: "\<not> error_encountered ctx" using Cons.prems(1) by (simp add: dec_ok_def)
  show ?case
  proof (cases ok)
    case False
    then show ?thesis using r e
      by (simp add: EVP_DecodeUpdate_def stream_result_def decode_loop_append)
  next
    case True
    then have "decode_update_loop ctx [] c = (True, ctx', out)" using r by simp
    note k = decode_loop_ok [OF this Cons.prems(1)]
    have "4 * length out \<le> 3 * (4 + 2000000000)" using k Cons.prems by (simp add: dec_ok_def)
    then have s: "\<not> unat INT_MAX < length out" by (simp add: INT_MAX_def)
    have u: "\<exists>st. EVP_DecodeUpdate ctx c = (st, ctx', out, length out) \<and> 0 \<le> st"
      using r True e s by (simp add: EVP_DecodeUpdate_def)
    have "stream_result (decode_update_loop ctx [] (c @ concat cs)) =
        map_option ((@) out) (stream_result (decode_update_loop ctx' [] (concat cs)))"
      using decode_loop_out [of ctx' out "[]" "concat cs"] r True
      by (simp add: decode_loop_append stream_result_def split: prod.split)
    then show ?thesis using u Cons.IH [of ctx'] k Cons.prems(2) by auto
  qed
qed

subsection \<open>Streaming against one-shot decoding\<close>

definition no_space :: "u8 list \<Rightarrow> u8 list" where
  "no_space inp = filter (\<lambda>c. \<not> is_base64_space c) inp"

definition oneshot :: "u8 list \<Rightarrow> u8 list \<Rightarrow> u8 list option" where
  "oneshot out inp =
     (if length inp mod 4 \<noteq> 0 then None
      else case decode_base64_loop out inp of (True, out) \<Rightarrow> Some out | (False, _) \<Rightarrow> None)"

lemma four_or_more: "4 \<le> length xs \<Longrightarrow> \<exists>a b c d r. xs = a # b # c # d # r"
  by (auto simp: numeral_eq_Suc Suc_le_length_iff)

lemma decode_loop_quad:
  assumes "dec_ok ctx" "data_used ctx = 0" "\<not> eof_seen ctx" "list_all (\<lambda>c. \<not> is_base64_space c) [a, b, c, d]"
  shows "\<exists>ctx'. dec_ok ctx' \<and> data_used ctx' = 0 \<and>
    decode_update_loop ctx out (a # b # c # d # inp) =
      (case base64_decode_quad [a, b, c, d] of
         None \<Rightarrow> (False, ctx'\<lparr>error_encountered := True, data_used := 4\<rparr>, out)
       | Some bs \<Rightarrow> decode_update_loop (ctx'\<lparr>eof_seen := length bs < 3\<rparr>) (out @ bs) inp)"
proof -
  have l: "length (ctx_data ctx) = 48" using assms(1) by (simp add: dec_ok_def)
  let ?d = "(ctx_data ctx)[0 := a, 1 := b, 2 := c, 3 := d]"
  have "take 4 ?d = [a, b, c, d]"
    by (rule nth_equalityI) (auto simp: l less_Suc_eq numeral_eq_Suc)
  then show ?thesis using assms l
    by (intro exI [of _ "ctx\<lparr>ctx_data := ?d, data_used := 0\<rparr>"])
      (auto simp: dec_ok_def Let_def numeral_eq_Suc split: option.split)
qed

lemma decode_loop_short:
  assumes "data_used ctx + length inp < 4" "list_all (\<lambda>c. \<not> is_base64_space c) inp" "\<not> eof_seen ctx"
  shows "\<exists>ctx'. decode_update_loop ctx out inp = (True, ctx', out) \<and> data_used ctx' = data_used ctx + length inp"
  using assms
proof (induction inp arbitrary: ctx)
  case (Cons c inp)
  let ?c = "ctx\<lparr>ctx_data := (ctx_data ctx)[data_used ctx := c], data_used := data_used ctx + 1\<rparr>"
  from Cons.IH [of ?c] Cons.prems show ?case by (auto simp: Let_def)
qed simp

lemma decode_loop_oneshot:
  assumes "dec_ok ctx" "data_used ctx = 0" "\<not> eof_seen ctx" "list_all (\<lambda>c. \<not> is_base64_space c) inp"
  shows "stream_result (decode_update_loop ctx out inp) = oneshot out inp"
  using assms
proof (induction inp arbitrary: ctx out rule: length_induct)
  case (1 inp)
  show ?case
  proof (cases "length inp < 4")
    case True
    from decode_loop_short [of ctx inp out] True "1.prems" obtain ctx' where
      "decode_update_loop ctx out inp = (True, ctx', out)" "data_used ctx' = length inp" by auto
    then show ?thesis using True
      by (auto simp: stream_result_def oneshot_def decode_base64_loop.simps)
  next
    case False
    then obtain a b c d r where i: "inp = a # b # c # d # r" using four_or_more [of inp] by auto
    have ns: "list_all (\<lambda>c. \<not> is_base64_space c) [a, b, c, d]" "list_all (\<lambda>c. \<not> is_base64_space c) r"
      using "1.prems"(4) i by simp_all
    from decode_loop_quad [OF "1.prems"(1-3) ns(1), of out r] obtain ctx' where
      c: "dec_ok ctx'" "data_used ctx' = 0"
      "decode_update_loop ctx out inp =
        (case base64_decode_quad [a, b, c, d] of
           None \<Rightarrow> (False, ctx'\<lparr>error_encountered := True, data_used := 4\<rparr>, out)
         | Some bs \<Rightarrow> decode_update_loop (ctx'\<lparr>eof_seen := length bs < 3\<rparr>) (out @ bs) r)" unfolding i by blast
    have m: "length inp mod 4 = length r mod 4" unfolding i by simp
    show ?thesis
    proof (cases "base64_decode_quad [a, b, c, d]")
      case None
      then show ?thesis using c(3) i by (simp add: stream_result_def oneshot_def decode_base64_loop.simps)
    next
      case (Some bs)
      let ?c = "ctx'\<lparr>eof_seen := length bs < 3\<rparr>"
      have ok: "dec_ok ?c" "data_used ?c = 0" using c by (simp_all add: dec_ok_def)
      have o: "oneshot out inp = (if length bs < 3 \<and> r \<noteq> [] then None else oneshot (out @ bs) r)"
        using Some length_decode_quad [OF Some] m unfolding i oneshot_def
        by (subst decode_base64_loop.simps) auto
      show ?thesis
      proof (cases "length bs < 3")
        case True
        then show ?thesis using o c(3) Some ns(2)
          by (cases r) (simp_all add: stream_result_def oneshot_def decode_base64_loop.simps c(2))
      next
        case False
        have "stream_result (decode_update_loop ?c (out @ bs) r) = oneshot (out @ bs) r"
          using "1.IH" i ok ns(2) False by simp
        then show ?thesis using o c(3) Some False by simp
      qed
    qed
  qed
qed

lemma EVP_DecodeBase64_oneshot:
  "(case EVP_DecodeBase64 (length inp) inp of (True, out, n) \<Rightarrow> Some (take n out) | (False, _) \<Rightarrow> None) = oneshot [] inp"
  by (auto simp: EVP_DecodeBase64_def EVP_DecodedLength_def oneshot_def split: prod.split bool.split)

subsection \<open>Texts and white space\<close>

lemma base64_append: "length a mod 3 = 0 \<Longrightarrow> base64 (a @ b) = base64 a @ base64 b"
  by (induction a rule: base64.induct) (auto simp: Let_def mod_Suc split: if_splits)

lemma base64_char_space: "\<not> is_base64_space (base64_char k)"
proof
  assume "is_base64_space (base64_char k)"
  then have "unat (base64_char k) \<in> {32, 9, 13, 10}" by (auto simp: is_base64_space_def)
  moreover have "43 \<le> unat (base64_char k)" unfolding unat_base64_char by (auto simp: code_of_def)
  ultimately show False by auto
qed

lemma pad_not_space: "\<not> is_base64_space 0x3D"
  by (simp add: is_base64_space_def)

lemma base64_no_space: "\<forall>c \<in> set (base64 bs). \<not> is_base64_space c"
  by (induction bs rule: base64.induct) (auto simp: Let_def base64_char_space pad_not_space)

lemma no_space_base64: "no_space (base64 bs) = base64 bs"
  using base64_no_space by (simp add: no_space_def)

lemma no_space_Nil [simp]: "no_space [] = []"
  by (simp add: no_space_def)

lemma no_space_append: "no_space (a @ b) = no_space a @ no_space b"
  by (simp add: no_space_def)

lemma no_space_newline: "no_space [0x0A] = []"
  by (simp add: no_space_def is_base64_space_def)

lemma no_space_lines: "no_space (pem_lines bs) @ base64 (residue bs) = base64 bs"
proof (induction bs rule: pem_lines.induct)
  case (1 bs)
  show ?case
  proof (cases "length bs < 48")
    case True
    then show ?thesis by (simp add: no_space_def)
  next
    case False
    have "base64 bs = base64 (take 48 bs) @ base64 (drop 48 bs)"
      using base64_append [of "take 48 bs" "drop 48 bs"] False by simp
    moreover have "no_space (pem_lines bs) = base64 (take 48 bs) @ no_space (pem_lines (drop 48 bs))"
      using lines_long [of bs] False no_space_append [of "[0x0A]" "pem_lines (drop 48 bs)"]
      by (simp add: no_space_append no_space_base64 no_space_newline)
    ultimately show ?thesis using 1 [OF False] lines_long [of bs] False by simp
  qed
qed

lemma no_space_pem: "no_space (pem bs) = base64 bs"
  using no_space_lines [of bs] no_space_newline
  by (auto simp: pem_def no_space_append no_space_base64)

lemma dec_ok_init: "dec_ok EVP_DecodeInit" "data_used EVP_DecodeInit = 0" "\<not> eof_seen EVP_DecodeInit"
  by (simp_all add: EVP_DecodeInit_def dec_ok_def)

lemma decode_chunks_oneshot:
  assumes "\<forall>c \<in> set cs. length c \<le> 2000000000"
  shows "decode_chunks EVP_DecodeInit cs = oneshot [] (no_space (concat cs))"
proof -
  have "list_all (\<lambda>c. \<not> is_base64_space c) (no_space (concat cs))"
    by (simp add: no_space_def list_all_iff)
  from decode_loop_oneshot [OF dec_ok_init this] decode_loop_spaces [of EVP_DecodeInit "[]" "concat cs"]
    decode_chunks_loop [OF dec_ok_init(1) assms]
  show ?thesis by (simp add: no_space_def)
qed

lemma oneshot_base64: "oneshot [] (base64 bs) = Some bs"
  by (simp add: oneshot_def base64_mod4 decode_base64_loop_encode)






lemma takeWhile_index: "distinct xs \<Longrightarrow> k < length xs \<Longrightarrow> length (takeWhile (\<lambda>x. x \<noteq> xs ! k) xs) = k"
proof (induction xs arbitrary: k)
  case (Cons x xs)
  then show ?case by (cases k) auto
qed simp

lemma distinct_alphabet: "distinct base64_alphabet"
  unfolding distinct_conv_nth
proof (intro allI impI)
  fix i j assume "i < length base64_alphabet" "j < length base64_alphabet" "i \<noteq> j"
  then have l: "i < 64" "j < 64" "i \<noteq> j" by (simp_all add: base64_alphabet_def)
  have "unat (base64_char i) \<noteq> unat (base64_char j)"
    using l value_code [of i] value_code [of j] by (auto simp: unat_base64_char)
  then show "base64_alphabet ! i \<noteq> base64_alphabet ! j" using l base64_char_alphabet by metis
qed

lemma ascii_to_bin_alphabet:
  "base64_ascii_to_bin c =
     (if c \<in> set base64_alphabet then of_nat (length (takeWhile (\<lambda>x. x \<noteq> c) base64_alphabet))
      else if c = 0x3D then 0 else 0xff)"
proof (cases "c \<in> set base64_alphabet")
  case True
  then obtain k where k: "k < 64" "c = base64_alphabet ! k"
    by (auto simp: in_set_conv_nth base64_alphabet_def)
  have "length (takeWhile (\<lambda>x. x \<noteq> c) base64_alphabet) = k"
    unfolding k(2) by (rule takeWhile_index [OF distinct_alphabet]) (simp add: base64_alphabet_def k(1))
  moreover have "unat (base64_ascii_to_bin c) = k"
    using ascii_to_bin_char [of k] base64_char_alphabet [OF k(1)] k by simp
  ultimately have "base64_ascii_to_bin c = of_nat (length (takeWhile (\<lambda>x. x \<noteq> c) base64_alphabet))"
    by (intro word_eq_of_nat) simp
  with True show ?thesis by simp
next
  case False
  have "unat (base64_ascii_to_bin c) = (if c = 0x3D then 0 else 255)"
  proof (cases "c = 0x3D")
    case True
    then show ?thesis by (simp add: ascii_to_bin_pad)
  next
    case F: False
    have "unat c \<noteq> 61" using F word_eq_of_nat [of c 61] by auto
    have "value_of (unat c) = 255"
    proof (rule ccontr)
      assume "value_of (unat c) \<noteq> 255"
      from code_value [OF this \<open>unat c \<noteq> 61\<close>] have v: "value_of (unat c) < 64" "code_of (value_of (unat c)) = unat c" by auto
      then have "c = base64_char (value_of (unat c))" by (simp add: base64_char_def)
      then have "c = base64_alphabet ! value_of (unat c)" using base64_char_alphabet [OF v(1)] by simp
      moreover have "value_of (unat c) < length base64_alphabet" using v(1) by (simp add: base64_alphabet_def)
      ultimately have "c \<in> set base64_alphabet" by (metis nth_mem)
      with False show False by simp
    qed
    then show ?thesis using F by (simp add: unat_ascii_to_bin)
  qed
  then show ?thesis using False by (intro word_eq_by_unat) auto
qed

subsection \<open>Properties\<close>

text \<open>
  the constant-time conversions are the table of RFC 4648: \<^verbatim>\<open>conv_bin2ascii\<close> gives the
  character at the position of its low six bits, \<^verbatim>\<open>base64_ascii_to_bin\<close> the position of a
  character, 0 for the padding character and \<^verbatim>\<open>0xff\<close> for every other byte.
\<close>
theorem base64_table:
  "conv_bin2ascii a = base64_alphabet ! (unat a mod 64)
   \<and> base64_ascii_to_bin c =
       (if c \<in> set base64_alphabet then of_nat (length (takeWhile (\<lambda>x. x \<noteq> c) base64_alphabet))
        else if c = 0x3D then 0 else 0xff)"
proof
  have "base64_char (unat a) = base64_char (unat a mod 64)" by (simp add: base64_char_def)
  then show "conv_bin2ascii a = base64_alphabet ! (unat a mod 64)"
    by (simp add: conv_bin2ascii_char base64_char_alphabet)
qed (rule ascii_to_bin_alphabet)



text \<open>
  streaming encoding: however the input is cut into chunks (of at most 1.5e9 bytes, so that
  the \<^verbatim>\<open>int\<close> output length cannot overflow), the concatenated output is the text of the whole
  input in lines of 64 characters.
\<close>
theorem base64_encode_streaming:
  assumes "\<forall>c \<in> set cs. length c \<le> 1500000000"
  shows "encode_chunks EVP_EncodeInit cs = pem (concat cs)"
  using encode_chunks_eq [of EVP_EncodeInit cs] assms
  by (simp add: EVP_EncodeInit_def ctx_ok_def pending_def)

theorem base64_encode_streaming_witness:
  "encode_chunks EVP_EncodeInit [[0x66], [], [0x6F, 0x6F]] = [0x5A, 0x6D, 0x39, 0x76, 0x0A]"
  using base64_encode_streaming [of "[[0x66], [], [0x6F, 0x6F]]"]
  by (simp add: pem_def base64_char_def code_of_def)

text \<open>
  C24: streaming decoding refines one-shot decoding: on any chunks (of at most 2e9 bytes) the
  sequence of updates and the final call succeed exactly when \<^verbatim>\<open>EVP_DecodeBase64\<close> accepts the
  whole input without its white space, and the output is the same.
\<close>
theorem base64_decode_streaming:
  assumes "\<forall>c \<in> set cs. length c \<le> 2000000000"
  shows "decode_chunks EVP_DecodeInit cs =
    (let s = no_space (concat cs) in
     case EVP_DecodeBase64 (length s) s of (True, out, n) \<Rightarrow> Some (take n out) | (False, _) \<Rightarrow> None)"
  unfolding Let_def EVP_DecodeBase64_oneshot by (rule decode_chunks_oneshot [OF assms])

theorem base64_decode_streaming_witness:
  "decode_chunks EVP_DecodeInit [[0x5A, 0x6D], [0x0A, 0x39], [0x76]] = Some [0x66, 0x6F, 0x6F]"
proof -
  have s: "no_space (concat [[0x5A, 0x6D], [0x0A, 0x39], [0x76]]) = base64 [0x66, 0x6F, 0x6F]"
    by (simp add: no_space_def is_base64_space_def base64_char_def code_of_def)
  have "EVP_DecodeBase64 (length (base64 [0x66, 0x6F, 0x6F])) (base64 [0x66, 0x6F, 0x6F]) =
      (True, [0x66, 0x6F, 0x6F], 3)"
    using EVP_DecodeBase64_encode [of "[0x66, 0x6F, 0x6F]" 4]
    by (simp only: encode_block_eq length_base64) simp
  then show ?thesis
    using base64_decode_streaming [of "[[0x5A, 0x6D], [0x0A, 0x39], [0x76]]"]
    unfolding s by simp
qed

text \<open>
  C23: a text produced by the streaming encoder, cut into chunks in any other way, decodes to the
  bytes that were encoded.
\<close>
theorem base64_stream_roundtrip:
  assumes "\<forall>c \<in> set cs. length c \<le> 1500000000" "\<forall>c \<in> set cs'. length c \<le> 2000000000"
    "concat cs' = encode_chunks EVP_EncodeInit cs"
  shows "decode_chunks EVP_DecodeInit cs' = Some (concat cs)"
proof -
  have "encode_chunks EVP_EncodeInit cs = pem (concat cs)"
    using encode_chunks_eq [of EVP_EncodeInit cs] assms(1)
    by (simp add: EVP_EncodeInit_def ctx_ok_def pending_def)
  then show ?thesis using decode_chunks_oneshot [OF assms(2)] assms(3)
    by (simp add: no_space_pem oneshot_base64)
qed

theorem base64_stream_roundtrip_witness:
  "decode_chunks EVP_DecodeInit [encode_chunks EVP_EncodeInit [[1, 2], [3, 4]]] = Some [1, 2, 3, 4]"
proof -
  have "length (encode_chunks EVP_EncodeInit [[1, 2], [3, 4]]) \<le> 2000000000"
    using encode_chunks_eq [of EVP_EncodeInit "[[1, 2], [3, 4]]"]
    by (simp add: EVP_EncodeInit_def ctx_ok_def pending_def pem_def length_base64)
  then show ?thesis
    using base64_stream_roundtrip [of "[[1, 2], [3, 4]]" "[encode_chunks EVP_EncodeInit [[1, 2], [3, 4]]]"]
    by simp
qed

end
