(* ===== verification/Posix_Time.thy ===== *)
theory Posix_Time
  imports Prelude
begin

text \<open>
  Conversion between calendar dates and POSIX time (\<^verbatim>\<open>crypto/asn1/posix_time.c\<close>).  C integers
  are mathematical integers with C's truncating division: for the arguments the code accepts no
  intermediate value leaves the range of its type, except \<^verbatim>\<open>tm_year + 1900\<close> and \<^verbatim>\<open>tm_mon + 1\<close>
  on fields near \<^verbatim>\<open>INT_MAX\<close> and the sum in \<^verbatim>\<open>OPENSSL_gmtime_adj\<close> on offsets near \<^verbatim>\<open>INT64_MAX\<close>,
  where the C code has undefined behaviour and the model refuses the date.  An \<^verbatim>\<open>out\<close> parameter
  is the value of the option; on failure nothing is stored.
\<close>

subsection \<open>The code\<close>

definition SECS_PER_HOUR :: int where
  "SECS_PER_HOUR = 60 * 60"

definition SECS_PER_DAY :: int where
  "SECS_PER_DAY = 24 * SECS_PER_HOUR"

definition is_valid_date :: "int \<Rightarrow> int \<Rightarrow> int \<Rightarrow> bool" where
  "is_valid_date year month day =
     (if day < 1 \<or> month < 1 \<or> year < 0 \<or> 9999 < year then False
      else if month \<in> {1, 3, 5, 7, 8, 10, 12} then 0 < day \<and> day \<le> 31
      else if month \<in> {4, 6, 9, 11} then 0 < day \<and> day \<le> 30
      else if month = 2 then
        (if cmod year 4 = 0 \<and> cmod year 100 \<noteq> 0 \<or> cmod year 400 = 0 then 0 < day \<and> day \<le> 29
         else 0 < day \<and> day \<le> 28)
      else False)"

definition is_valid_time :: "int \<Rightarrow> int \<Rightarrow> int \<Rightarrow> bool" where
  "is_valid_time hours minutes seconds =
     (if hours < 0 \<or> minutes < 0 \<or> seconds < 0 \<or> 23 < hours \<or> 59 < minutes \<or> 59 < seconds
      then False else True)"

definition is_valid_epoch_time :: "int \<Rightarrow> bool" where
  "is_valid_epoch_time time \<longleftrightarrow> -62167219200 \<le> time \<and> time \<le> 253402300799"

definition posix_time_from_utc :: "int \<Rightarrow> int \<Rightarrow> int \<Rightarrow> int \<Rightarrow> int \<Rightarrow> int \<Rightarrow> int option" where
  "posix_time_from_utc year month day hours minutes seconds =
     (if \<not> is_valid_date year month day \<or> \<not> is_valid_time hours minutes seconds then None
      else let year = (if month \<le> 2 then year - 1 else year);
               era = cdiv (if 0 \<le> year then year else year - 399) 400;
               year_of_era = year - era * 400;
               day_of_year = cdiv (153 * (if 2 < month then month - 3 else month + 9) + 2) 5 + day - 1;
               day_of_era = year_of_era * 365 + cdiv year_of_era 4 - cdiv year_of_era 100 + day_of_year;
               posix_days = era * 146097 + day_of_era - 719468
           in Some (posix_days * SECS_PER_DAY + hours * SECS_PER_HOUR + minutes * 60 + seconds))"

definition utc_from_posix_time :: "int \<Rightarrow> (int \<times> int \<times> int \<times> int \<times> int \<times> int) option" where
  "utc_from_posix_time time =
     (if \<not> is_valid_epoch_time time then None
      else let days = cdiv time SECS_PER_DAY;
               leftover_seconds = cmod time SECS_PER_DAY;
               (days, leftover_seconds) =
                 (if leftover_seconds < 0 then (days - 1, leftover_seconds + SECS_PER_DAY)
                  else (days, leftover_seconds));
               days = days + 719468;
               era = cdiv (if 0 < days then days else days - 146096) 146097;
               day_of_era = days - era * 146097;
               year_of_era = cdiv (day_of_era - cdiv day_of_era 1460 + cdiv day_of_era 36524
                 - cdiv day_of_era 146096) 365;
               out_year = year_of_era + era * 400;
               day_of_year = day_of_era - (365 * year_of_era + cdiv year_of_era 4 - cdiv year_of_era 100);
               month_of_year = cdiv (5 * day_of_year + 2) 153;
               out_month = (if month_of_year < 10 then month_of_year + 3 else month_of_year - 9);
               out_year = (if out_month \<le> 2 then out_year + 1 else out_year);
               out_day = day_of_year - cdiv (153 * month_of_year + 2) 5 + 1;
               out_hours = cdiv leftover_seconds SECS_PER_HOUR;
               leftover_seconds = cmod leftover_seconds SECS_PER_HOUR
           in Some (out_year, out_month, out_day, out_hours,
                cdiv leftover_seconds 60, cmod leftover_seconds 60))"

text \<open>The fields of \<^verbatim>\<open>struct tm\<close> the code uses.\<close>

record tm =
  tm_sec :: int
  tm_min :: int
  tm_hour :: int
  tm_mday :: int
  tm_mon :: int
  tm_year :: int

definition OPENSSL_tm_to_posix :: "tm \<Rightarrow> int option" where
  "OPENSSL_tm_to_posix tm =
     posix_time_from_utc (tm_year tm + 1900) (tm_mon tm + 1) (tm_mday tm) (tm_hour tm) (tm_min tm) (tm_sec tm)"

definition OPENSSL_posix_to_tm :: "int \<Rightarrow> tm option" where
  "OPENSSL_posix_to_tm time =
     (case utc_from_posix_time time of
        None \<Rightarrow> None
      | Some (y, mo, d, h, mi, s) \<Rightarrow>
          Some \<lparr>tm_sec = s, tm_min = mi, tm_hour = h, tm_mday = d, tm_mon = mo - 1, tm_year = y - 1900\<rparr>)"

text \<open>\<^verbatim>\<open>time_t\<close> has 64 bits on the targets of the project, so the range check is not compiled in.\<close>

definition OPENSSL_timegm :: "tm \<Rightarrow> int option" where
  "OPENSSL_timegm tm =
     (case OPENSSL_tm_to_posix tm of None \<Rightarrow> None | Some posix_time \<Rightarrow> Some posix_time)"

definition OPENSSL_gmtime :: "int \<Rightarrow> tm option" where
  "OPENSSL_gmtime time =
     (let posix_time = time in
      case OPENSSL_posix_to_tm posix_time of None \<Rightarrow> None | Some out_tm \<Rightarrow> Some out_tm)"

definition OPENSSL_gmtime_adj :: "tm \<Rightarrow> int \<Rightarrow> int \<Rightarrow> tm option" where
  "OPENSSL_gmtime_adj tm off_day offset_sec =
     (case posix_time_from_utc (tm_year tm + 1900) (tm_mon tm + 1) (tm_mday tm) (tm_hour tm) (tm_min tm) (tm_sec tm) of
        None \<Rightarrow> None
      | Some posix_time \<Rightarrow>
          (case utc_from_posix_time (posix_time + off_day * SECS_PER_DAY + offset_sec) of
             None \<Rightarrow> None
           | Some (y, mo, d, h, mi, s) \<Rightarrow>
               Some (tm\<lparr>tm_year := y - 1900, tm_mon := mo - 1, tm_mday := d, tm_hour := h,
                 tm_min := mi, tm_sec := s\<rparr>)))"

definition OPENSSL_gmtime_diff :: "tm \<Rightarrow> tm \<Rightarrow> (int \<times> int) option" where
  "OPENSSL_gmtime_diff from_tm to_tm =
     (case posix_time_from_utc (tm_year to_tm + 1900) (tm_mon to_tm + 1) (tm_mday to_tm)
             (tm_hour to_tm) (tm_min to_tm) (tm_sec to_tm) of
        None \<Rightarrow> None
      | Some time_to \<Rightarrow>
          (case posix_time_from_utc (tm_year from_tm + 1900) (tm_mon from_tm + 1) (tm_mday from_tm)
                  (tm_hour from_tm) (tm_min from_tm) (tm_sec from_tm) of
             None \<Rightarrow> None
           | Some time_from \<Rightarrow>
               let timediff = time_to - time_from;
                   daydiff = cdiv timediff SECS_PER_DAY;
                   timediff = cmod timediff SECS_PER_DAY
               in if 0x7FFFFFFF < daydiff \<or> daydiff < -0x80000000 then None
                  else Some (daydiff, timediff)))"

subsection \<open>The calendar\<close>

definition leap :: "int \<Rightarrow> bool" where
  "leap y \<longleftrightarrow> y mod 4 = 0 \<and> y mod 100 \<noteq> 0 \<or> y mod 400 = 0"

definition days_in_month :: "int \<Rightarrow> int \<Rightarrow> int" where
  "days_in_month y m = (if m = 2 then (if leap y then 29 else 28) else if m \<in> {4, 6, 9, 11} then 30 else 31)"

definition valid_date :: "int \<Rightarrow> int \<Rightarrow> int \<Rightarrow> bool" where
  "valid_date y m d \<longleftrightarrow> 0 \<le> y \<and> y \<le> 9999 \<and> 1 \<le> m \<and> m \<le> 12 \<and> 1 \<le> d \<and> d \<le> days_in_month y m"

lemma month_cases: "1 \<le> (m :: int) \<Longrightarrow> m \<le> 12 \<Longrightarrow> m \<in> {1, 2, 3, 4, 5, 6, 7, 8, 9, 10, 11, 12}"
  unfolding insert_iff empty_iff by presburger

lemma is_valid_date_iff: "is_valid_date y m d \<longleftrightarrow> valid_date y m d"
proof (cases "1 \<le> m \<and> m \<le> 12 \<and> 0 \<le> y")
  case True
  then have "cmod y 4 = y mod 4" "cmod y 100 = y mod 100" "cmod y 400 = y mod 400" by (simp_all add: cmod_nonneg)
  moreover have "m \<in> {1, 2, 3, 4, 5, 6, 7, 8, 9, 10, 11, 12}" using True by (intro month_cases) auto
  ultimately show ?thesis using True
    by (elim insertE emptyE) (auto simp: is_valid_date_def valid_date_def days_in_month_def leap_def)
next
  case False
  then show ?thesis by (auto simp: is_valid_date_def valid_date_def)
qed

lemma is_valid_time_iff: "is_valid_time h mi s \<longleftrightarrow> 0 \<le> h \<and> h \<le> 23 \<and> 0 \<le> mi \<and> mi \<le> 59 \<and> 0 \<le> s \<and> s \<le> 59"
  by (auto simp: is_valid_time_def)

subsection \<open>Years that start in March\<close>

text \<open>A year of a 400-year era as century, 4-year group and year, and the day of the year.\<close>

definition era_year :: "int \<Rightarrow> int \<Rightarrow> int \<Rightarrow> bool" where
  "era_year c q r \<longleftrightarrow> 0 \<le> c \<and> c \<le> 3 \<and> 0 \<le> q \<and> q \<le> 24 \<and> 0 \<le> r \<and> r \<le> 3"

definition long_year :: "int \<Rightarrow> int \<Rightarrow> int \<Rightarrow> bool" where
  "long_year c q r \<longleftrightarrow> r = 3 \<and> (q < 24 \<or> c = 3)"

definition era_day :: "int \<Rightarrow> int \<Rightarrow> int \<Rightarrow> int \<Rightarrow> bool" where
  "era_day c q r doy \<longleftrightarrow> era_year c q r \<and> 0 \<le> doy \<and> doy \<le> (if long_year c q r then 365 else 364)"

lemma div_intI: "b * q \<le> a \<Longrightarrow> a < b * (q + 1) \<Longrightarrow> 0 < b \<Longrightarrow> (a :: int) div b = q"
proof -
  assume a: "b * q \<le> a" "a < b * (q + 1)" "0 < b"
  then have "(a - b * q) div b = 0" by (intro div_pos_pos_trivial) (simp_all add: algebra_simps)
  then show ?thesis using a(3) div_mult_self2 [of b "a - b * q" q] by simp
qed

lemma mod_intI: "b * q \<le> a \<Longrightarrow> a < b * (q + 1) \<Longrightarrow> 0 < b \<Longrightarrow> (a :: int) mod b = a - b * q"
  using div_intI [of b q a] by (simp add: minus_mult_div_eq_mod [symmetric])

definition era_days :: "int \<Rightarrow> int \<Rightarrow> int \<Rightarrow> int" where
  "era_days c q r = 36524 * c + 1461 * q + 365 * r"

lemma era_day_bounds: "era_day c q r doy \<Longrightarrow> 0 \<le> era_days c q r + doy \<and> era_days c q r + doy \<le> 146096"
  by (auto simp: era_day_def era_year_def long_year_def era_days_def split: if_splits)

lemma era_year_of_day:
  assumes "era_day c q r doy"
  defines "E \<equiv> era_days c q r + doy"
  shows "(E - E div 1460 + E div 36524 - E div 146096) div 365 = 100 * c + 4 * q + r"
proof -
  have y: "0 \<le> c" "c \<le> 3" "0 \<le> q" "q \<le> 24" "0 \<le> r" "r \<le> 3" "0 \<le> doy" "doy \<le> 365"
    using assms(1) by (auto simp: era_day_def era_year_def split: if_splits)
  have long: "doy = 365 \<Longrightarrow> r = 3 \<and> (q < 24 \<or> c = 3)"
    using assms(1) by (auto simp: era_day_def long_year_def split: if_splits)
  have E: "E = 36524 * c + 1461 * q + 365 * r + doy" by (simp add: E_def era_days_def)
  have c: "E div 36524 - E div 146096 = c"
  proof (cases "E = 146096")
    case True
    then have "c = 3" using y E by linarith
    with True show ?thesis by simp
  next
    case False
    then have "E \<le> 146095" using era_day_bounds [OF assms(1)] by (simp add: E_def)
    then have "E div 146096 = 0" using E y by (intro div_pos_pos_trivial) linarith+
    moreover have "E div 36524 = c"
    proof (rule div_intI)
      show "36524 * c \<le> E" using E y by linarith
      show "E < 36524 * (c + 1)"
      proof (cases "c = 3")
        case True
        then show ?thesis using \<open>E \<le> 146095\<close> by simp
      next
        case F: False
        then have "doy = 365 \<Longrightarrow> q \<le> 23" using long by auto
        then have "1461 * q + 365 * r + doy < 36524" using y by (cases "doy = 365") linarith+
        then show ?thesis unfolding E by simp
      qed
    qed simp
    ultimately show ?thesis by simp
  qed
  let ?s = "24 * c + q + 365 * r + doy"
  define e :: int where "e = (if 1460 \<le> ?s then 1 else 0)"
  have "E div 1460 = 25 * c + q + e"
    using y unfolding e_def E by (intro div_intI) auto
  moreover have "E - (25 * c + q + e) + c = 365 * (100 * c + 4 * q + r) + (doy - e)" unfolding E by simp
  ultimately have eq: "E - E div 1460 + E div 36524 - E div 146096 = 365 * (100 * c + 4 * q + r) + (doy - e)"
    using c by (simp only: add_diff_eq [symmetric])
  have "0 \<le> doy - e" using y by (auto simp: e_def)
  moreover have "doy - e < 365" using y long by (cases "doy = 365") (auto simp: e_def)
  ultimately show ?thesis unfolding eq by (intro div_intI) simp_all
qed

lemma era_day_exists:
  assumes "0 \<le> E" "E \<le> 146096"
  shows "\<exists>c q r doy. era_day c q r doy \<and> E = era_days c q r + doy"
proof -
  define c where "c = min 3 (E div 36524)"
  define E1 where "E1 = E - 36524 * c"
  define q where "q = E1 div 1461"
  define E2 where "E2 = E1 - 1461 * q"
  define r where "r = min 3 (E2 div 365)"
  have dc: "36524 * (E div 36524) \<le> E" "E < 36524 * (E div 36524) + 36524"
    using div_mult_mod_eq [of E 36524] pos_mod_bound [of 36524 E] pos_mod_sign [of 36524 E] by linarith+
  have c: "0 \<le> c" "c \<le> 3" using assms(1) by (simp_all add: c_def pos_imp_zdiv_nonneg_iff)
  have E1: "0 \<le> E1" "E1 \<le> 36524" "E1 = 36524 \<Longrightarrow> c = 3"
    using dc assms by (auto simp: E1_def c_def min_def split: if_splits)
  have dq: "1461 * q \<le> E1" "E1 < 1461 * q + 1461"
    using div_mult_mod_eq [of E1 1461] pos_mod_bound [of 1461 E1] pos_mod_sign [of 1461 E1]
    unfolding q_def by linarith+
  have q: "0 \<le> q" "q \<le> 24" using dq E1 by linarith+
  have E2: "0 \<le> E2" "E2 \<le> 1460" using dq by (simp_all add: E2_def)
  have dr: "365 * (E2 div 365) \<le> E2" "E2 < 365 * (E2 div 365) + 365"
    using div_mult_mod_eq [of E2 365] pos_mod_bound [of 365 E2] pos_mod_sign [of 365 E2] by linarith+
  have r: "0 \<le> r" "r \<le> 3" using E2(1) by (simp_all add: r_def pos_imp_zdiv_nonneg_iff)
  define doy where "doy = E2 - 365 * r"
  have d: "0 \<le> doy" "doy \<le> 365" "doy = 365 \<Longrightarrow> r = 3 \<and> E2 = 1460"
    using dr E2 by (auto simp: doy_def r_def min_def split: if_splits)
  have "doy = 365 \<Longrightarrow> q < 24 \<or> c = 3"
  proof (rule ccontr)
    assume a: "doy = 365" "\<not> (q < 24 \<or> c = 3)"
    then have "E1 = 36524" using d(3) q E2_def by simp
    with a E1(3) show False by simp
  qed
  then have "era_day c q r doy" using c q r d
    by (cases "doy = 365") (auto simp: era_day_def era_year_def long_year_def)
  moreover have "E = era_days c q r + doy" by (simp add: doy_def E2_def E1_def era_days_def)
  ultimately show ?thesis by blast
qed

lemma year_split: "\<exists>c q r. era_year c q r \<and> (y :: int) = 400 * (y div 400) + (100 * c + 4 * q + r)"
proof -
  define m c k q r where "m = y mod 400" and "c = m div 100" and "k = m mod 100" and "q = k div 4" and "r = k mod 4"
  have m: "0 \<le> m" "m < 400" "y = 400 * (y div 400) + m" by (simp_all add: m_def)
  have k: "0 \<le> k" "k < 100" "m = 100 * c + k" by (simp_all add: k_def c_def)
  have r: "0 \<le> r" "r < 4" "k = 4 * q + r" by (simp_all add: r_def q_def)
  have "era_year c q r" unfolding era_year_def using m k r by linarith
  moreover have "y = 400 * (y div 400) + (100 * c + 4 * q + r)" using m(3) k(3) r(3) by linarith
  ultimately show ?thesis by blast
qed

lemma year_split_unique:
  assumes "era_year c q r" "y = 400 * e + (100 * c + 4 * q + r)"
  shows "y div 400 = e" "(y - 400 * e) div 4 = 25 * c + q" "(y - 400 * e) div 100 = c"
  using assms by (intro div_intI; simp add: era_year_def)+

lemma leap_next:
  assumes "era_year c q r"
  shows "leap (400 * e + (100 * c + 4 * q + r) + 1) \<longleftrightarrow> long_year c q r"
proof -
  have y: "0 \<le> c" "c \<le> 3" "0 \<le> q" "q \<le> 24" "0 \<le> r" "r \<le> 3" using assms by (auto simp: era_year_def)
  let ?y = "400 * e + (100 * c + 4 * q + r) + 1"
  have "?y mod 4 = (r + 1 + 4 * (100 * e + 25 * c + q)) mod 4" by (simp add: algebra_simps)
  also have "\<dots> = (r + 1) mod 4" by (rule mod_mult_self2)
  finally have 4: "?y mod 4 = 0 \<longleftrightarrow> r = 3" using y
    by (cases "r = 3") (simp_all add: mod_pos_pos_trivial)
  have "?y mod 100 = (4 * q + r + 1 + 100 * (4 * e + c)) mod 100" by (simp add: algebra_simps)
  also have "\<dots> = (4 * q + r + 1) mod 100" by (rule mod_mult_self2)
  finally have "?y mod 100 = (4 * q + r + 1) mod 100" .
  moreover have s: "4 * q + r = 99 \<longleftrightarrow> q = 24 \<and> r = 3" using y by presburger
  moreover have "(4 * q + r + 1) mod 100 = 0 \<longleftrightarrow> 4 * q + r = 99"
  proof (cases "4 * q + r = 99")
    case False
    then have "(4 * q + r + 1) mod 100 = 4 * q + r + 1" using y by (intro mod_pos_pos_trivial) linarith+
    with False y show ?thesis by linarith
  qed simp
  ultimately have 100: "?y mod 100 = 0 \<longleftrightarrow> q = 24 \<and> r = 3" by simp
  have "?y mod 400 = (100 * c + 4 * q + r + 1 + 400 * e) mod 400" by (simp add: algebra_simps)
  also have "\<dots> = (100 * c + 4 * q + r + 1) mod 400" by (rule mod_mult_self2)
  finally have "?y mod 400 = (100 * c + 4 * q + r + 1) mod 400" .
  moreover have "100 * c + 4 * q + r = 399 \<longleftrightarrow> c = 3 \<and> q = 24 \<and> r = 3" using y by presburger
  moreover have "(100 * c + 4 * q + r + 1) mod 400 = 0 \<longleftrightarrow> 100 * c + 4 * q + r = 399"
  proof (cases "100 * c + 4 * q + r = 399")
    case False
    then have "(100 * c + 4 * q + r + 1) mod 400 = 100 * c + 4 * q + r + 1"
      using y by (intro mod_pos_pos_trivial) linarith+
    with False y show ?thesis by linarith
  qed simp
  ultimately have 400: "?y mod 400 = 0 \<longleftrightarrow> c = 3 \<and> q = 24 \<and> r = 3" by simp
  show ?thesis unfolding leap_def long_year_def 4 100 400 using y by auto
qed

text \<open>C's idioms for rounding down.\<close>

lemma floor_cdiv:
  assumes "0 < (b :: int)"
  shows "cdiv (if 0 \<le> a then a else a - (b - 1)) b = a div b"
    "cdiv (if 0 < a then a else a - (b - 1)) b = a div b"
proof -
  have neg: "cdiv (a - (b - 1)) b = a div b" if "a \<le> 0"
  proof -
    define q r where "q = a div b" and "r = a mod b"
    have a: "a = b * q + r" "0 \<le> r" "r < b" using assms by (simp_all add: q_def r_def)
    have "(b - 1 - a) div b = - q" using a assms by (intro div_intI) (simp_all add: algebra_simps)
    then show ?thesis using assms that by (simp add: cdiv_def q_def)
  qed
  show "cdiv (if 0 \<le> a then a else a - (b - 1)) b = a div b" using neg assms by (simp add: cdiv_nonneg)
  show "cdiv (if 0 < a then a else a - (b - 1)) b = a div b" using neg assms by (simp add: cdiv_nonneg)
qed

lemma floor_days:
  "(if cmod t SECS_PER_DAY < 0 then (cdiv t SECS_PER_DAY - 1, cmod t SECS_PER_DAY + SECS_PER_DAY)
    else (cdiv t SECS_PER_DAY, cmod t SECS_PER_DAY)) = (t div 86400, t mod 86400)"
proof -
  have s: "SECS_PER_DAY = 86400" by (simp add: SECS_PER_DAY_def SECS_PER_HOUR_def)
  show ?thesis
  proof (cases "0 \<le> t")
    case True
    then show ?thesis unfolding s by (simp add: cdiv_nonneg cmod_nonneg)
  next
    case False
    then have "t < 0" by simp
    then show ?thesis unfolding s by (simp add: cdiv_neg cmod_neg zdiv_zminus1_eq_if zmod_zminus1_eq_if zdiv_zminus2_eq_if)
  qed
qed

subsection \<open>Both conversions in mathematical form\<close>

definition month_start :: "int \<Rightarrow> int" where
  "month_start mp = (153 * mp + 2) div 5"

definition march_year :: "int \<Rightarrow> int \<Rightarrow> int" where
  "march_year y m = (if m \<le> 2 then y - 1 else y)"

definition march_month :: "int \<Rightarrow> int" where
  "march_month m = (if 2 < m then m - 3 else m + 9)"

text \<open>Days since 1 March of year 0.\<close>

definition march_days :: "int \<Rightarrow> int \<Rightarrow> int" where
  "march_days y doy = (y div 400) * 146097 + ((y - y div 400 * 400) * 365 + (y - y div 400 * 400) div 4
     - (y - y div 400 * 400) div 100 + doy)"

lemma march_days_split:
  assumes "era_year c q r" "y = 400 * e + (100 * c + 4 * q + r)"
  shows "march_days y doy = e * 146097 + (era_days c q r + doy)"
  using year_split_unique [OF assms] assms(2) by (simp add: march_days_def era_days_def)

lemma posix_time_from_utc_eq:
  "posix_time_from_utc y m d h mi s =
     (if valid_date y m d \<and> is_valid_time h mi s
      then Some ((march_days (march_year y m) (month_start (march_month m) + d - 1) - 719468) * 86400
             + h * 3600 + mi * 60 + s)
      else None)"
proof (cases "valid_date y m d \<and> is_valid_time h mi s")
  case True
  define y' e where "y' = march_year y m" and "e = y' div 400"
  have e: "cdiv (if 0 \<le> y' then y' else y' - 399) 400 = e" using floor_cdiv(1) [of 400 y'] by (simp add: e_def split: if_splits)
  have y: "0 \<le> y' - e * 400" unfolding e_def using div_mult_mod_eq [of y' 400] pos_mod_sign [of 400 y'] by linarith
  have "0 \<le> march_month m" using True by (auto simp: march_month_def valid_date_def)
  then have ms: "cdiv (153 * march_month m + 2) 5 = month_start (march_month m)"
    by (simp add: cdiv_nonneg month_start_def)
  have d: "cdiv (y' - e * 400) 4 = (y' - e * 400) div 4" "cdiv (y' - e * 400) 100 = (y' - e * 400) div 100"
    using y by (simp_all add: cdiv_nonneg)
  have "posix_time_from_utc y m d h mi s =
      Some ((e * 146097 + ((y' - e * 400) * 365 + cdiv (y' - e * 400) 4 - cdiv (y' - e * 400) 100 +
        (cdiv (153 * march_month m + 2) 5 + d - 1)) - 719468) * 86400 + h * 3600 + mi * 60 + s)"
    using True e unfolding y'_def march_year_def march_month_def
    by (simp add: posix_time_from_utc_def is_valid_date_iff Let_def SECS_PER_DAY_def SECS_PER_HOUR_def)
  then show ?thesis using True unfolding d ms by (simp add: march_days_def y'_def e_def)
next
  case False
  then show ?thesis by (auto simp: posix_time_from_utc_def is_valid_date_iff)
qed

definition civil :: "int \<Rightarrow> int \<times> int \<times> int" where
  "civil days =
     (let era = days div 146097; doe = days - era * 146097;
          yoe = (doe - doe div 1460 + doe div 36524 - doe div 146096) div 365;
          doy = doe - (365 * yoe + yoe div 4 - yoe div 100);
          mp = (5 * doy + 2) div 153;
          m = (if mp < 10 then mp + 3 else mp - 9)
      in (if m \<le> 2 then yoe + era * 400 + 1 else yoe + era * 400, m, doy - month_start mp + 1))"

lemma march_day_of_year:
  assumes "valid_date y m d" "era_year c q r" "march_year y m = 400 * e + (100 * c + 4 * q + r)"
  shows "era_day c q r (month_start (march_month m) + d - 1)"
    and "(5 * (month_start (march_month m) + d - 1) + 2) div 153 = march_month m"
proof -
  define mp where "mp = march_month m"
  have v: "1 \<le> m" "m \<le> 12" "1 \<le> d" "d \<le> days_in_month y m" using assms(1) by (auto simp: valid_date_def)
  have ly: "m = 2 \<Longrightarrow> leap y \<longleftrightarrow> long_year c q r"
    using leap_next [OF assms(2), of e] assms(3) by (simp add: march_year_def algebra_simps)
  have "m \<in> {1, 2, 3, 4, 5, 6, 7, 8, 9, 10, 11, 12}" using v by (intro month_cases) auto
  then have "0 \<le> month_start mp + d - 1 \<and> month_start mp + d - 1 \<le> (if long_year c q r then 365 else 364) \<and>
      153 * mp \<le> 5 * (month_start mp + d - 1) + 2 \<and> 5 * (month_start mp + d - 1) + 2 < 153 * (mp + 1)"
    using v ly by (elim insertE emptyE)
      (auto simp: mp_def march_month_def month_start_def days_in_month_def split: if_splits)
  then show "era_day c q r (month_start (march_month m) + d - 1)"
    "(5 * (month_start (march_month m) + d - 1) + 2) div 153 = march_month m"
    using assms(2) by (auto simp: era_day_def mp_def intro: div_intI)
qed

lemma civil_march_days:
  assumes "valid_date y m d"
  shows "civil (march_days (march_year y m) (month_start (march_month m) + d - 1)) = (y, m, d)"
proof -
  define doy where "doy = month_start (march_month m) + d - 1"
  obtain c q r e where cq: "era_year c q r" "march_year y m = 400 * e + (100 * c + 4 * q + r)"
    using year_split [of "march_year y m"] by metis
  note ed = march_day_of_year [OF assms cq, folded doy_def]
  have days: "march_days (march_year y m) doy = e * 146097 + (era_days c q r + doy)"
    by (rule march_days_split [OF cq])
  define E where "E = era_days c q r + doy"
  have E: "0 \<le> E" "E \<le> 146096" using era_day_bounds [OF ed(1)] by (auto simp: E_def)
  have 1: "(e * 146097 + E) div 146097 = e" using E by (intro div_intI) simp_all
  have 2: "(E - E div 1460 + E div 36524 - E div 146096) div 365 = 100 * c + 4 * q + r"
    unfolding E_def by (rule era_year_of_day [OF ed(1)])
  have "0 + (100 * c + 4 * q + r) = 400 * 0 + (100 * c + 4 * q + r)" by simp
  from year_split_unique [OF cq(1) this] have
    3: "(100 * c + 4 * q + r) div 4 = 25 * c + q" "(100 * c + 4 * q + r) div 100 = c" by simp_all
  have 4: "E - (365 * (100 * c + 4 * q + r) + (25 * c + q) - c) = doy"
    by (simp add: E_def era_days_def)
  have m: "1 \<le> m" "m \<le> 12" using assms by (auto simp: valid_date_def)
  have 5: "(if march_month m < 10 then march_month m + 3 else march_month m - 9) = m"
    using m by (auto simp: march_month_def)
  have 6: "doy - month_start (march_month m) + 1 = d" by (simp add: doy_def)
  have y: "(if m \<le> 2 then 100 * c + 4 * q + r + e * 400 + 1 else 100 * c + 4 * q + r + e * 400) = y"
    using cq(2) by (auto simp: march_year_def split: if_splits)
  have 0: "e * 146097 + E - e * 146097 = E" by simp
  show ?thesis
    unfolding doy_def [symmetric] days E_def [symmetric] civil_def Let_def 1 0 2 3 4 ed(2) 5 6 y ..
qed

lemma civil_surj:
  assumes "-60 \<le> days" "days \<le> 3652364"
  shows "\<exists>y m d. valid_date y m d \<and> days = march_days (march_year y m) (month_start (march_month m) + d - 1)"
proof -
  define e E where "e = days div 146097" and "E = days mod 146097"
  have E: "0 \<le> E" "E \<le> 146096" "days = e * 146097 + E" by (simp_all add: e_def E_def)
  from era_day_exists [OF E(1,2)] obtain c q r doy where
    ed: "era_day c q r doy" "E = era_days c q r + doy" by blast
  then have ey: "era_year c q r" and doy: "0 \<le> doy" "doy \<le> 365" "\<not> long_year c q r \<Longrightarrow> doy \<le> 364"
    by (auto simp: era_day_def split: if_splits)
  define y' where "y' = 400 * e + (100 * c + 4 * q + r)"
  have days: "days = march_days y' doy"
    using march_days_split [OF ey y'_def] E(3) ed(2) by simp
  have cqr: "0 \<le> c" "c \<le> 3" "0 \<le> q" "q \<le> 24" "0 \<le> r" "r \<le> 3" using ey by (auto simp: era_year_def)
  have ds: "days = e * 146097 + 36524 * c + 1461 * q + 365 * r + doy"
    using E(3) ed(2) by (simp add: era_days_def)
  have e: "-1 \<le> e" "e \<le> 24" using E assms by linarith+
  have lo: "0 \<le> y' \<or> y' = -1 \<and> 306 \<le> doy"
  proof (cases "e = -1")
    case True
    have "c = 3" using ds True assms(1) cqr doy by linarith
    moreover have "q = 24" using ds True assms(1) cqr doy calculation by linarith
    moreover have "r = 3" using ds True assms(1) cqr doy calculation by linarith
    ultimately show ?thesis using ds True assms(1) by (simp add: y'_def)
  next
    case False
    then show ?thesis using e cqr by (simp add: y'_def)
  qed
  have hi: "y' < 9999 \<or> y' = 9999 \<and> doy \<le> 305"
  proof (cases "y' \<le> 9998")
    case False
    then have "e = 24" "c = 3" "q = 24" "r = 3" using e cqr unfolding y'_def by linarith+
    then show ?thesis using ds assms(2) by (simp add: y'_def)
  qed simp
  have long: "leap (y' + 1) \<longleftrightarrow> long_year c q r" using leap_next [OF ey, of e] by (simp add: y'_def)
  define mp where "mp = (5 * doy + 2) div 153"
  have mp: "153 * mp \<le> 5 * doy + 2" "5 * doy + 2 < 153 * mp + 153"
    using div_mult_mod_eq [of "5 * doy + 2" 153] pos_mod_bound [of 153 "5 * doy + 2"] pos_mod_sign [of 153 "5 * doy + 2"]
    unfolding mp_def by linarith+
  have mp12: "0 \<le> mp" "mp \<le> 11" using mp doy by linarith+
  define m d y where "m = (if mp < 10 then mp + 3 else mp - 9)" and "d = doy - month_start mp + 1"
    and "y = (if m \<le> 2 then y' + 1 else y')"
  have mm: "march_month m = mp" "march_year y m = y'"
    using mp12 by (auto simp: march_month_def march_year_def m_def y_def)
  have "mp + 1 \<in> {1, 2, 3, 4, 5, 6, 7, 8, 9, 10, 11, 12}" using mp12 by (intro month_cases) auto
  then have "mp \<in> {0, 1, 2, 3, 4, 5, 6, 7, 8, 9, 10, 11}" by auto
  then have "1 \<le> m \<and> m \<le> 12 \<and> 1 \<le> d \<and> d \<le> days_in_month y m \<and> (m \<le> 2 \<longleftrightarrow> 306 \<le> doy)"
    using mp doy long by (elim insertE emptyE)
      (auto simp: m_def d_def y_def month_start_def days_in_month_def)
  moreover from this have "0 \<le> y \<and> y \<le> 9999" using lo hi by (auto simp: y_def)
  ultimately have "valid_date y m d" by (simp add: valid_date_def)
  moreover have "month_start (march_month m) + d - 1 = doy" by (simp add: mm d_def)
  ultimately show ?thesis using days mm by metis
qed

lemma utc_from_posix_time_eq:
  "utc_from_posix_time t =
     (if \<not> is_valid_epoch_time t then None
      else case civil (t div 86400 + 719468) of (y, m, d) \<Rightarrow>
        Some (y, m, d, t mod 86400 div 3600, t mod 86400 mod 3600 div 60, t mod 86400 mod 3600 mod 60))"
proof -
  define days where "days = t div 86400 + 719468"
  define era where "era = days div 146097"
  define doe where "doe = days - era * 146097"
  have doe: "0 \<le> doe" "doe \<le> 146096"
    using div_mult_mod_eq [of days 146097] pos_mod_sign [of 146097 days] pos_mod_bound [of 146097 days]
    unfolding doe_def era_def by linarith+
  obtain c q r doy where ed: "era_day c q r doy" "doe = era_days c q r + doy"
    using era_day_exists [OF doe] by blast
  define yoe where "yoe = (doe - doe div 1460 + doe div 36524 - doe div 146096) div 365"
  have yoe: "yoe = 100 * c + 4 * q + r" unfolding yoe_def ed(2) by (rule era_year_of_day [OF ed(1)])
  have cqr: "era_year c q r" "0 \<le> doy" using ed(1) by (auto simp: era_day_def)
  then have y0: "0 \<le> yoe" unfolding yoe by (auto simp: era_year_def)
  have yd: "yoe div 4 = 25 * c + q" "yoe div 100 = c"
    using year_split_unique [OF cqr(1), of yoe 0] yoe by simp_all
  define dy where "dy = doe - (365 * yoe + yoe div 4 - yoe div 100)"
  have dy: "0 \<le> dy" using cqr(2) yoe unfolding dy_def yd ed(2) era_days_def by linarith
  have mp: "0 \<le> (5 * dy + 2) div 153" using dy by (simp add: pos_imp_zdiv_nonneg_iff)
  have num: "0 \<le> doe - doe div 1460 + doe div 36524 - doe div 146096"
  proof -
    have "doe div 1460 \<le> doe" using zdiv_mono2 [of doe 1 1460] doe by simp
    moreover have "doe div 146096 \<le> doe div 36524" using zdiv_mono2 [of doe 36524 146096] doe by simp
    ultimately show ?thesis by linarith
  qed
  have e: "cdiv (if 0 < days then days else days - 146096) 146097 = era"
    using floor_cdiv(2) [of 146097 days] by (simp add: era_def split: if_splits)
  have r: "0 \<le> t mod 86400" "0 \<le> t mod 86400 mod 3600" by simp_all
  have s: "SECS_PER_HOUR = 3600" by (simp add: SECS_PER_HOUR_def)
  have c1: "cdiv (doe - cdiv doe 1460 + cdiv doe 36524 - cdiv doe 146096) 365 = yoe"
    using doe num by (simp add: cdiv_nonneg yoe_def)
  have c2: "cdiv yoe 4 = yoe div 4" "cdiv yoe 100 = yoe div 100" using y0 by (simp_all add: cdiv_nonneg)
  have c3: "cdiv (5 * dy + 2) 153 = (5 * dy + 2) div 153" using dy by (simp add: cdiv_nonneg)
  have c4: "cdiv (153 * ((5 * dy + 2) div 153) + 2) 5 = month_start ((5 * dy + 2) div 153)"
    using mp by (simp add: cdiv_nonneg month_start_def)
  have c5: "cdiv (t mod 86400) 3600 = t mod 86400 div 3600" "cmod (t mod 86400) 3600 = t mod 86400 mod 3600"
    "cdiv (t mod 86400 mod 3600) 60 = t mod 86400 mod 3600 div 60"
    "cmod (t mod 86400 mod 3600) 60 = t mod 86400 mod 3600 mod 60"
    using r by (simp_all add: cdiv_nonneg cmod_nonneg)
  show ?thesis
    unfolding utc_from_posix_time_def floor_days Let_def prod.case s days_def [symmetric] e doe_def [symmetric]
      c1 c2 dy_def [symmetric] c3 c4 c5 civil_def era_def [symmetric] yoe_def [symmetric]
    by simp
qed

subsection \<open>Round trips\<close>

lemma posix_range:
  assumes "valid_date y m d" "is_valid_time h mi s"
    "t = (march_days (march_year y m) (month_start (march_month m) + d - 1) - 719468) * 86400 + h * 3600 + mi * 60 + s"
  shows "is_valid_epoch_time t"
    and "t div 86400 + 719468 = march_days (march_year y m) (month_start (march_month m) + d - 1)"
    and "t mod 86400 = h * 3600 + mi * 60 + s"
proof -
  define D where "D = march_days (march_year y m) (month_start (march_month m) + d - 1)"
  define z where "z = h * 3600 + mi * 60 + s"
  have z: "0 \<le> z" "z < 86400" using assms(2) by (auto simp: is_valid_time_iff z_def)
  have t: "t = (D - 719468) * 86400 + z" using assms(3) by (simp add: D_def z_def)
  show "t div 86400 + 719468 = march_days (march_year y m) (month_start (march_month m) + d - 1)"
    unfolding D_def [symmetric] t using z by (simp add: div_mult_self3)
  show "t mod 86400 = h * 3600 + mi * 60 + s"
    unfolding z_def [symmetric] t mod_mult_self3 using z by simp
  obtain c q r e where cq: "era_year c q r" "march_year y m = 400 * e + (100 * c + 4 * q + r)"
    using year_split [of "march_year y m"] by metis
  define doy where "doy = month_start (march_month m) + d - 1"
  have doy: "0 \<le> doy" "doy \<le> 365" and ld: "m \<le> 2 \<longleftrightarrow> 306 \<le> doy"
  proof -
    have v: "1 \<le> m" "m \<le> 12" "1 \<le> d" "d \<le> days_in_month y m" using assms(1) by (auto simp: valid_date_def)
    then have "m \<in> {1, 2, 3, 4, 5, 6, 7, 8, 9, 10, 11, 12}" by (intro month_cases) auto
    then have "0 \<le> doy \<and> doy \<le> 365 \<and> (m \<le> 2 \<longleftrightarrow> 306 \<le> doy)" using v
      by (elim insertE emptyE) (auto simp: doy_def march_month_def month_start_def days_in_month_def split: if_splits)
    then show "0 \<le> doy" "doy \<le> 365" "m \<le> 2 \<longleftrightarrow> 306 \<le> doy" by auto
  qed
  have D: "D = e * 146097 + 36524 * c + 1461 * q + 365 * r + doy"
    using march_days_split [OF cq] by (simp add: D_def doy_def era_days_def)
  have y: "0 \<le> y" "y \<le> 9999" using assms(1) by (auto simp: valid_date_def)
  have cqr: "0 \<le> c" "c \<le> 3" "0 \<le> q" "q \<le> 24" "0 \<le> r" "r \<le> 3" using cq(1) by (auto simp: era_year_def)
  have my: "-1 \<le> march_year y m" "march_year y m \<le> 9999" "march_year y m = 9999 \<longrightarrow> doy \<le> 305"
    "march_year y m = -1 \<longrightarrow> 306 \<le> doy" using y ld by (auto simp: march_year_def)
  have "-60 \<le> D \<and> D \<le> 3652364"
  proof
    show "-60 \<le> D"
    proof (cases "march_year y m = -1")
      case True
      then have e: "e = -1" using cq(2) cqr by linarith
      then have "100 * c + 4 * q + r = 399" using True cq(2) by simp
      then have "c = 3" "q = 24" "r = 3" using cqr by linarith+
      note this = e this
      then show ?thesis using D my(4) True by simp
    next
      case False
      then have "0 \<le> e" using cq(2) cqr my(1) by linarith
      then show ?thesis using D cqr doy by linarith
    qed
    show "D \<le> 3652364"
    proof (cases "march_year y m = 9999")
      case True
      then have e: "e = 24" using cq(2) cqr by linarith
      then have "100 * c + 4 * q + r = 399" using True cq(2) by simp
      then have "c = 3" "q = 24" "r = 3" using cqr by linarith+
      note this = e this
      then show ?thesis using D my(3) True by simp
    next
      case False
      then have n: "400 * e + (100 * c + 4 * q + r) \<le> 9998" using cq(2) my(2) by linarith
      then have "e \<le> 24" using cqr by linarith
      then have "97 * e \<le> 97 * 24" by simp
      moreover have "365 * (400 * e + (100 * c + 4 * q + r)) \<le> 365 * 9998" using n by (rule mult_left_mono) simp
      ultimately show ?thesis using cqr doy unfolding D by simp
    qed
  qed
  then show "is_valid_epoch_time t" unfolding is_valid_epoch_time_def t using z by auto
qed

lemma hms_split:
  assumes "is_valid_time h mi s"
  shows "(h * 3600 + mi * 60 + s) div 3600 = h" "(h * 3600 + mi * 60 + s) mod 3600 div 60 = mi"
    "(h * 3600 + mi * 60 + s) mod 3600 mod 60 = s"
proof -
  have v: "0 \<le> mi" "mi \<le> 59" "0 \<le> s" "s \<le> 59" using assms by (auto simp: is_valid_time_iff)
  show 1: "(h * 3600 + mi * 60 + s) div 3600 = h" using v by (intro div_intI) simp_all
  have "(h * 3600 + mi * 60 + s) mod 3600 = mi * 60 + s"
    using div_mult_mod_eq [of "h * 3600 + mi * 60 + s" 3600] unfolding 1 by simp
  then show "(h * 3600 + mi * 60 + s) mod 3600 div 60 = mi" "(h * 3600 + mi * 60 + s) mod 3600 mod 60 = s"
    using v by simp_all
qed

lemma utc_of_posix:
  assumes "posix_time_from_utc y m d h mi s = Some t"
  shows "utc_from_posix_time t = Some (y, m, d, h, mi, s)"
proof -
  have v: "valid_date y m d" "is_valid_time h mi s"
    "t = (march_days (march_year y m) (month_start (march_month m) + d - 1) - 719468) * 86400 + h * 3600 + mi * 60 + s"
    using assms by (auto simp: posix_time_from_utc_eq split: if_splits)
  note r = posix_range [OF v]
  show ?thesis unfolding utc_from_posix_time_eq r(2,3) civil_march_days [OF v(1)] hms_split [OF v(2)]
    using r(1) by simp
qed

lemma posix_exists:
  assumes "is_valid_epoch_time t"
  shows "\<exists>y m d h mi s. posix_time_from_utc y m d h mi s = Some t"
proof -
  define z where "z = t mod 86400"
  have z: "0 \<le> z" "z < 86400" "t = t div 86400 * 86400 + z" by (simp_all add: z_def)
  have "-60 \<le> t div 86400 + 719468" "t div 86400 + 719468 \<le> 3652364"
    using assms z unfolding is_valid_epoch_time_def by linarith+
  from civil_surj [OF this] obtain y m d where
    v: "valid_date y m d" "t div 86400 + 719468 = march_days (march_year y m) (month_start (march_month m) + d - 1)"
    by blast
  define h mi s where "h = z div 3600" and "mi = z mod 3600 div 60" and "s = z mod 3600 mod 60"
  have hms: "z = h * 3600 + mi * 60 + s"
    using div_mult_mod_eq [of z 3600] div_mult_mod_eq [of "z mod 3600" 60] by (simp add: h_def mi_def s_def)
  have "0 \<le> h" "0 \<le> mi" "0 \<le> s" "s \<le> 59"
    using z(1) pos_mod_bound [of 60 "z mod 3600"] by (simp_all add: h_def mi_def s_def pos_imp_zdiv_nonneg_iff)
  moreover have "mi \<le> 59" using pos_mod_bound [of 3600 z] unfolding mi_def by linarith
  moreover have "h \<le> 23" using z(2) unfolding h_def by linarith
  ultimately have "is_valid_time h mi s" by (simp add: is_valid_time_iff)
  moreover have "(march_days (march_year y m) (month_start (march_month m) + d - 1) - 719468) * 86400
      + h * 3600 + mi * 60 + s = t"
    unfolding v(2) [symmetric] using z(3) hms by simp
  ultimately have "posix_time_from_utc y m d h mi s = Some t" using v(1) by (simp add: posix_time_from_utc_eq)
  then show ?thesis by blast
qed

lemma posix_utc_iff:
  "posix_time_from_utc y m d h mi s = Some t \<longleftrightarrow> utc_from_posix_time t = Some (y, m, d, h, mi, s)"
proof
  assume u: "utc_from_posix_time t = Some (y, m, d, h, mi, s)"
  then have "is_valid_epoch_time t" by (auto simp: utc_from_posix_time_eq split: if_splits)
  then obtain y' m' d' h' mi' s' where p: "posix_time_from_utc y' m' d' h' mi' s' = Some t"
    using posix_exists by blast
  from utc_of_posix [OF p] u p show "posix_time_from_utc y m d h mi s = Some t" by simp
qed (rule utc_of_posix)

subsection \<open>Counting days\<close>

primrec year_days :: "nat \<Rightarrow> int" where
  "year_days 0 = 0"
| "year_days (Suc y) = year_days y + (if leap (int y) then 366 else 365)"

definition day_number :: "int \<Rightarrow> int \<Rightarrow> int \<Rightarrow> int" where
  "day_number y m d = year_days (nat y) + sum_list (map (days_in_month y) [1..m - 1]) + d - 1"

lemma march_days_closed: "march_days y doy = 365 * y + y div 4 - y div 100 + y div 400 + doy"
proof -
  obtain c q r e where cq: "era_year c q r" "y = 400 * e + (100 * c + 4 * q + r)"
    using year_split [of y] by metis
  have "y div 4 = 100 * e + 25 * c + q" "y div 100 = 4 * e + c" "y div 400 = e"
    unfolding cq(2) using cq(1) by (intro div_intI; simp add: era_year_def)+
  then show ?thesis using march_days_split [OF cq] cq(2) by (simp add: era_days_def)
qed

lemma div_step:
  assumes "0 < k"
  shows "(y :: int) div k - (y - 1) div k = (if y mod k = 0 then 1 else 0)"
proof -
  obtain q r where y: "y = k * q + r" "0 \<le> r" "r < k" "y div k = q" "y mod k = r"
    using assms by (metis mult_div_mod_eq pos_mod_bound pos_mod_sign)
  show ?thesis
  proof (cases "r = 0")
    case True
    have "(y - 1) div k = q - 1" using y(1) True assms by (intro div_intI) (simp_all add: algebra_simps)
    then show ?thesis using True y by simp
  next
    case False
    then have "(y - 1) div k = q" using y(1-3) assms by (intro div_intI) (simp_all add: algebra_simps)
    then show ?thesis using False y by simp
  qed
qed

lemma mod_dvd_chain: "y mod 400 = 0 \<Longrightarrow> y mod 100 = 0" "y mod 100 = 0 \<Longrightarrow> y mod 4 = (0 :: int)"
  by (simp_all add: mod_eq_0_iff_dvd) (auto intro: dvd_trans)

lemma year_days_eq: "year_days y = march_days (int y - 1) 366"
proof (induction y)
  case 0
  show ?case by (simp add: march_days_closed)
next
  case (Suc y)
  have "int y div 4 - (int y - 1) div 4 - (int y div 100 - (int y - 1) div 100) + (int y div 400 - (int y - 1) div 400)
      = (if leap (int y) then 1 else 0)"
    using mod_dvd_chain [of "int y"] by (simp only: div_step leap_def) auto
  then show ?case using Suc by (auto simp: march_days_closed)
qed

lemma day_number_eq:
  assumes "valid_date y m d"
  shows "day_number y m d = march_days (march_year y m) (month_start (march_month m) + d - 1) + 60"
proof -
  have y: "year_days (nat y) = march_days (y - 1) 366" using assms by (simp add: year_days_eq valid_date_def)
  have "y div 4 - (y - 1) div 4 - (y div 100 - (y - 1) div 100) + (y div 400 - (y - 1) div 400)
      = (if leap y then 1 else 0)"
    using mod_dvd_chain [of y] by (simp only: div_step leap_def) auto
  then have s: "march_days y doy = march_days (y - 1) (doy + (if leap y then 366 else 365))" for doy
    by (auto simp: march_days_closed)
  have c: "march_days (y - 1) a = march_days (y - 1) 0 + a" for a by (simp add: march_days_closed)
  have "1 \<le> m" "m \<le> 12" using assms by (auto simp: valid_date_def)
  then have "m \<in> {1, 2, 3, 4, 5, 6, 7, 8, 9, 10, 11, 12}" by (rule month_cases)
  then have "march_days (march_year y m) (month_start (march_month m) + d - 1) =
      march_days (y - 1) (306 + sum_list (map (days_in_month y) [1..m - 1]) + d - 1)"
    by (elim insertE emptyE)
      (simp_all add: march_year_def march_month_def month_start_def s days_in_month_def upto_rec1)
  then show ?thesis unfolding day_number_def y
    using c [of 366] c [of "306 + sum_list (map (days_in_month y) [1..m - 1]) + d - 1"] by linarith
qed

lemma posix_time_day_number:
  "posix_time_from_utc y m d h mi s =
     (if valid_date y m d \<and> is_valid_time h mi s
      then Some ((day_number y m d - day_number 1970 1 1) * 86400 + h * 3600 + mi * 60 + s) else None)"
proof -
  have "valid_date 1970 1 1" by (simp add: valid_date_def days_in_month_def)
  then have "day_number 1970 1 1 = 719528"
    by (simp add: day_number_eq march_year_def march_month_def month_start_def march_days_closed)
  then show ?thesis by (simp add: posix_time_from_utc_eq day_number_eq)
qed

definition tm_ok :: "tm \<Rightarrow> bool" where
  "tm_ok tm \<longleftrightarrow> OPENSSL_tm_to_posix tm \<noteq> None"

lemma posix_to_tm_iff: "OPENSSL_posix_to_tm t = Some tm \<longleftrightarrow> OPENSSL_tm_to_posix tm = Some t"
  by (auto simp: OPENSSL_posix_to_tm_def OPENSSL_tm_to_posix_def posix_utc_iff split: option.split)

lemma gmtime_adj_eq:
  "OPENSSL_gmtime_adj tm days secs =
     (case OPENSSL_tm_to_posix tm of
        None \<Rightarrow> None
      | Some t \<Rightarrow> OPENSSL_posix_to_tm (t + days * 86400 + secs))"
  by (auto simp: OPENSSL_gmtime_adj_def OPENSSL_tm_to_posix_def OPENSSL_posix_to_tm_def SECS_PER_DAY_def
    SECS_PER_HOUR_def split: option.split)

lemma posix_bounds: "OPENSSL_tm_to_posix tm = Some t \<Longrightarrow> is_valid_epoch_time t"
  using posix_to_tm_iff [of t tm] by (auto simp: OPENSSL_posix_to_tm_def utc_from_posix_time_eq split: if_splits)

subsection \<open>Properties\<close>

text \<open>
  C27: the two conversions are inverse to each other: a date and time is converted to the POSIX
  time \<open>t\<close> exactly when \<open>t\<close> is converted back to that date and time.  Every valid date has a
  time in the range of \<^verbatim>\<open>is_valid_epoch_time\<close> and every time in the range has one date.
\<close>
theorem posix_time_inverse:
  "posix_time_from_utc y m d h mi s = Some t \<longleftrightarrow> utc_from_posix_time t = Some (y, m, d, h, mi, s)"
  by (rule posix_utc_iff)

text \<open>
  C28: \<^verbatim>\<open>posix_time_from_utc\<close>, which computes with years that start in March and 400-year eras,
  counts the seconds since 1 January 1970 day by day: the lengths of the years and of the months
  before the date, leap years included.  It fails exactly on dates not in the calendar.
\<close>
theorem posix_time_counts_days:
  "posix_time_from_utc y m d h mi s =
     (if valid_date y m d \<and> is_valid_time h mi s
      then Some ((day_number y m d - day_number 1970 1 1) * 86400 + h * 3600 + mi * 60 + s) else None)"
  by (rule posix_time_day_number)

text \<open>
  C29: adding the difference of two times to the first gives the second: \<^verbatim>\<open>OPENSSL_gmtime_diff\<close>
  never fails on valid times, its seconds are less than a day and have the sign of the days, and
  \<^verbatim>\<open>OPENSSL_gmtime_adj\<close> by its result leads from \<open>a\<close> to \<open>b\<close>.
\<close>
theorem gmtime_diff_adj:
  assumes "tm_ok a" "tm_ok b"
  shows "\<exists>days secs. OPENSSL_gmtime_diff a b = Some (days, secs) \<and> \<bar>secs\<bar> < 86400 \<and> 0 \<le> days * secs
    \<and> OPENSSL_gmtime_adj a days secs = Some b"
proof -
  obtain ta tb where t: "OPENSSL_tm_to_posix a = Some ta" "OPENSSL_tm_to_posix b = Some tb"
    using assms by (auto simp: tm_ok_def)
  define x where "x = tb - ta"
  have b: "\<bar>x\<bar> \<le> 315569520000"
    using posix_bounds [OF t(1)] posix_bounds [OF t(2)] unfolding is_valid_epoch_time_def x_def by linarith
  have m: "0 \<le> n div 86400" "n div 86400 \<le> n" "0 \<le> n mod 86400" "n mod 86400 < 86400" if "0 \<le> n" for n :: int
    using that zdiv_mono2 [of n 1 86400] by (simp_all add: pos_imp_zdiv_nonneg_iff)
  have "\<bar>cdiv x 86400\<bar> \<le> 3652425 \<and> \<bar>cmod x 86400\<bar> < 86400 \<and> 0 \<le> cdiv x 86400 * cmod x 86400"
  proof (cases "0 \<le> x")
    case True
    have "x div 86400 \<le> 3652425" using b True by linarith
    then show ?thesis using m [OF True] True by (simp add: cdiv_nonneg cmod_nonneg)
  next
    case False
    then have n: "x < 0" "0 \<le> - x" by simp_all
    have "(- x) div 86400 \<le> 3652425" using b n by linarith
    then show ?thesis using m [OF n(2)] n(1) by (simp add: cdiv_neg cmod_neg mult_nonneg_nonneg)
  qed
  then have c: "\<bar>cdiv x 86400\<bar> \<le> 3652425" "\<bar>cmod x 86400\<bar> < 86400" "0 \<le> cdiv x 86400 * cmod x 86400" by auto
  have "\<not> 0x7FFFFFFF < cdiv x 86400 \<and> \<not> cdiv x 86400 < -0x80000000" using c(1) by linarith
  then have "OPENSSL_gmtime_diff a b = Some (cdiv x 86400, cmod x 86400)"
    using t by (simp add: OPENSSL_gmtime_diff_def OPENSSL_tm_to_posix_def Let_def x_def
      SECS_PER_DAY_def SECS_PER_HOUR_def)
  moreover have "ta + cdiv x 86400 * 86400 + cmod x 86400 = tb" by (simp add: cmod_def x_def)
  then have "OPENSSL_gmtime_adj a (cdiv x 86400) (cmod x 86400) = Some b"
    using t by (simp add: gmtime_adj_eq posix_to_tm_iff)
  ultimately show ?thesis using c by blast
qed

definition tm_of :: "int \<Rightarrow> int \<Rightarrow> int \<Rightarrow> tm" where
  "tm_of y m d = \<lparr>tm_sec = 0, tm_min = 0, tm_hour = 0, tm_mday = d, tm_mon = m - 1, tm_year = y - 1900\<rparr>"

theorem gmtime_diff_adj_witness:
  "\<exists>days secs. OPENSSL_gmtime_diff (tm_of 2024 2 29) (tm_of 1970 1 1) = Some (days, secs)
    \<and> OPENSSL_gmtime_adj (tm_of 2024 2 29) days secs = Some (tm_of 1970 1 1)"
proof -
  have "tm_ok (tm_of 2024 2 29)" "tm_ok (tm_of 1970 1 1)"
    by (simp_all add: tm_ok_def OPENSSL_tm_to_posix_def tm_of_def posix_time_from_utc_eq valid_date_def
      days_in_month_def leap_def is_valid_time_def)
  from gmtime_diff_adj [OF this] show ?thesis by blast
qed

end
