(* ===== verification/Cbs_Time.thy ===== *)
theory Cbs_Time
  imports Der Posix_Time
begin

text \<open>
  Parsing of the ASN.1 time types (end of \<^verbatim>\<open>crypto/bytestring/cbs.c\<close>): UTCTime and
  GeneralizedTime with the restrictions of RFC 5280, as used for certificates.
\<close>

subsection \<open>The code\<close>

definition cbs_get_two_digits :: "cbs \<Rightarrow> (int, cbs) outcome" where
  "cbs_get_two_digits cbs =
     attempt (CBS_get_u8 cbs) (\<lambda>first_digit cbs.
       if \<not> OPENSSL_isdigit first_digit then (None, cbs)
       else attempt (CBS_get_u8 cbs) (\<lambda>second_digit cbs.
         if \<not> OPENSSL_isdigit second_digit then (None, cbs)
         else (Some ((uint first_digit - 0x30) * 10 + (uint second_digit - 0x30)), cbs)))"

definition is_valid_day :: "int \<Rightarrow> int \<Rightarrow> int \<Rightarrow> bool" where
  "is_valid_day year month day =
     (if day < 1 then False
      else if month \<in> {1, 3, 5, 7, 8, 10, 12} then day \<le> 31
      else if month \<in> {4, 6, 9, 11} then day \<le> 30
      else if month = 2 then
        (if cmod year 4 = 0 \<and> cmod year 100 \<noteq> 0 \<or> cmod year 400 = 0 then day \<le> 29 else day \<le> 28)
      else False)"

text \<open>The year: four digits in a GeneralizedTime, two in a UTCTime.\<close>

definition parse_time_year :: "bool \<Rightarrow> cbs \<Rightarrow> (int, cbs) outcome" where
  "parse_time_year is_gentime cbs =
     (if is_gentime then
        attempt (cbs_get_two_digits cbs) (\<lambda>tmp cbs.
          let year = tmp * 100 in
          attempt (cbs_get_two_digits cbs) (\<lambda>tmp cbs. (Some (year + tmp), cbs)))
      else
        attempt (cbs_get_two_digits cbs) (\<lambda>tmp cbs.
          let year = 1900 + tmp;
              year = (if year < 1950 then year + 100 else year)
          in if 2050 \<le> year then (None, cbs) else (Some year, cbs)))"

text \<open>\<open>0x5A\<close> is \<^verbatim>\<open>Z\<close>, \<open>0x2B\<close> is \<^verbatim>\<open>+\<close>, \<open>0x2D\<close> is \<^verbatim>\<open>-\<close>.  The offset in seconds.\<close>

definition parse_time_offset :: "bool \<Rightarrow> u8 \<Rightarrow> cbs \<Rightarrow> (int, cbs) outcome" where
  "parse_time_offset allow_timezone_offset tz cbs =
     (if tz \<noteq> 0x5A \<and> tz \<noteq> 0x2B \<and> tz \<noteq> 0x2D then (None, cbs)
      else let offset_sign = (if tz = 0x5A then 0 else if tz = 0x2B then 1 else -1) :: int
      in if offset_sign \<noteq> 0 then
           (if \<not> allow_timezone_offset then (None, cbs)
            else attempt (cbs_get_two_digits cbs) (\<lambda>offset_hours cbs.
              if 23 < offset_hours then (None, cbs)
              else attempt (cbs_get_two_digits cbs) (\<lambda>offset_minutes cbs.
                if 59 < offset_minutes then (None, cbs)
                else (Some (offset_sign * (offset_hours * 3600 + offset_minutes * 60)), cbs))))
         else (Some 0, cbs))"

text \<open>
  \<open>cbs\<close> is copied first, so a failure changes nothing; the result is the contents of
  \<^verbatim>\<open>*out_tm\<close> on success.
\<close>

definition CBS_parse_rfc5280_time_internal :: "cbs \<Rightarrow> bool \<Rightarrow> bool \<Rightarrow> tm option" where
  "CBS_parse_rfc5280_time_internal cbs is_gentime allow_timezone_offset =
     (let copy = cbs in
      fst (attempt (parse_time_year is_gentime copy) (\<lambda>year copy.
        attempt (cbs_get_two_digits copy) (\<lambda>month copy.
        if month < 1 \<or> 12 < month then (None, copy)
        else attempt (cbs_get_two_digits copy) (\<lambda>day copy.
        if \<not> is_valid_day year month day then (None, copy)
        else attempt (cbs_get_two_digits copy) (\<lambda>hour copy.
        if 23 < hour then (None, copy)
        else attempt (cbs_get_two_digits copy) (\<lambda>min copy.
        if 59 < min then (None, copy)
        else attempt (cbs_get_two_digits copy) (\<lambda>sec copy.
        if 59 < sec then (None, copy)
        else attempt (CBS_get_u8 copy) (\<lambda>tz copy.
        attempt (parse_time_offset allow_timezone_offset tz copy) (\<lambda>offset_seconds copy.
        if CBS_len copy \<noteq> 0 then (None, copy)
        else let out_tm = \<lparr>tm_sec = sec, tm_min = min, tm_hour = hour, tm_mday = day,
                           tm_mon = month - 1, tm_year = year - 1900\<rparr>
          in if offset_seconds \<noteq> 0 then (OPENSSL_gmtime_adj out_tm 0 offset_seconds, copy)
             else (Some out_tm, copy)))))))))))"

definition CBS_parse_generalized_time :: "cbs \<Rightarrow> bool \<Rightarrow> tm option" where
  "CBS_parse_generalized_time cbs allow_timezone_offset =
     CBS_parse_rfc5280_time_internal cbs True allow_timezone_offset"

definition CBS_parse_utc_time :: "cbs \<Rightarrow> bool \<Rightarrow> tm option" where
  "CBS_parse_utc_time cbs allow_timezone_offset =
     CBS_parse_rfc5280_time_internal cbs False allow_timezone_offset"

subsection \<open>Two digits\<close>

definition two_digits :: "int \<Rightarrow> u8 list" where
  "two_digits n = [of_int (0x30 + n div 10), of_int (0x30 + n mod 10)]"

lemma two_digits_iff:
  "cbs_get_two_digits cbs = (Some n, rest) \<longleftrightarrow> 0 \<le> n \<and> n \<le> 99 \<and> cbs = two_digits n @ rest"
proof
  assume "cbs_get_two_digits cbs = (Some n, rest)"
  then obtain a b where ab: "cbs = a # b # rest" "OPENSSL_isdigit a" "OPENSSL_isdigit b"
    "n = (uint a - 0x30) * 10 + (uint b - 0x30)"
    by (auto simp: cbs_get_two_digits_def attempt_eq_Some CBS_get_u8_eq_Some split: if_splits)
  then have u: "48 \<le> uint a" "uint a \<le> 57" "48 \<le> uint b" "uint b \<le> 57"
    by (auto simp: OPENSSL_isdigit_def word_le_def)
  have "n div 10 = uint a - 48" unfolding ab(4) using u by (intro div_intI) simp_all
  moreover have "n mod 10 = uint b - 48"
    using mod_intI [of 10 "uint a - 48" n] u unfolding ab(4) by simp
  ultimately have "two_digits n = [a, b]" by (simp add: two_digits_def)
  then show "0 \<le> n \<and> n \<le> 99 \<and> cbs = two_digits n @ rest" using ab(1,4) u by auto
next
  assume n: "0 \<le> n \<and> n \<le> 99 \<and> cbs = two_digits n @ rest"
  have d: "uint (of_int (0x30 + k) :: u8) = 0x30 + k" if "0 \<le> k" "k \<le> 9" for k
    using that by (simp add: uint_word_of_int take_bit_eq_mod mod_pos_pos_trivial del: of_int_add)
  have "0 \<le> n div 10" "n div 10 \<le> 9" "0 \<le> n mod 10" "n mod 10 \<le> 9"
    using n by linarith+
  note u = d [OF this(1,2)] d [OF this(3,4)] this
  then have "OPENSSL_isdigit (of_int (0x30 + n div 10))" "OPENSSL_isdigit (of_int (0x30 + n mod 10))"
    unfolding OPENSSL_isdigit_def word_le_def by simp_all
  then show "cbs_get_two_digits cbs = (Some n, rest)"
    using n u(1,2) by (simp add: cbs_get_two_digits_def two_digits_def del: of_int_add)
qed

lemma two_digits_append: "0 \<le> n \<Longrightarrow> n \<le> 99 \<Longrightarrow> cbs_get_two_digits (two_digits n @ rest) = (Some n, rest)"
  by (simp add: two_digits_iff)

subsection \<open>The accepted texts\<close>

definition year_ok :: "bool \<Rightarrow> int \<Rightarrow> bool" where
  "year_ok gen y \<longleftrightarrow> (if gen then 0 \<le> y \<and> y \<le> 9999 else 1950 \<le> y \<and> y < 2050)"

definition year_text :: "bool \<Rightarrow> int \<Rightarrow> u8 list" where
  "year_text gen y = (if gen then two_digits (y div 100) else []) @ two_digits (y mod 100)"

lemma y_bounds: "(y :: int) \<le> 9999 \<Longrightarrow> y div 100 \<le> 99 \<and> y mod 100 \<le> 99"
  using pos_mod_bound [of 100 y] by auto

lemma parse_time_year_iff:
  "parse_time_year gen cbs = (Some y, rest) \<longleftrightarrow> year_ok gen y \<and> cbs = year_text gen y @ rest"
proof (cases gen)
  case True
  have "(\<exists>a b. y = a * 100 + b \<and> 0 \<le> a \<and> a \<le> 99 \<and> 0 \<le> b \<and> b \<le> 99 \<and> cbs = two_digits a @ two_digits b @ rest)
      \<longleftrightarrow> 0 \<le> y \<and> y \<le> 9999 \<and> cbs = two_digits (y div 100) @ two_digits (y mod 100) @ rest"
  proof
    assume "\<exists>a b. y = a * 100 + b \<and> 0 \<le> a \<and> a \<le> 99 \<and> 0 \<le> b \<and> b \<le> 99 \<and> cbs = two_digits a @ two_digits b @ rest"
    then obtain a b where ab: "y = a * 100 + b" "0 \<le> a" "a \<le> 99" "0 \<le> b" "b \<le> 99"
      "cbs = two_digits a @ two_digits b @ rest" by blast
    have d: "y div 100 = a" using ab by (intro div_intI) simp_all
    then have "y mod 100 = b" using div_mult_mod_eq [of y 100] ab(1) by linarith
    then show "0 \<le> y \<and> y \<le> 9999 \<and> cbs = two_digits (y div 100) @ two_digits (y mod 100) @ rest" using ab d by simp
  next
    assume y: "0 \<le> y \<and> y \<le> 9999 \<and> cbs = two_digits (y div 100) @ two_digits (y mod 100) @ rest"
    then show "\<exists>a b. y = a * 100 + b \<and> 0 \<le> a \<and> a \<le> 99 \<and> 0 \<le> b \<and> b \<le> 99 \<and> cbs = two_digits a @ two_digits b @ rest"
      using y_bounds [of y]
      by (rule_tac exI [of _ "y div 100"], rule_tac exI [of _ "y mod 100"]) (simp add: pos_imp_zdiv_nonneg_iff)
  qed
  then show ?thesis using True
    by (auto simp: parse_time_year_def attempt_eq_Some two_digits_iff Let_def year_ok_def year_text_def)
next
  case False
  have "(\<exists>n. 0 \<le> n \<and> n \<le> 99 \<and> cbs = two_digits n @ rest \<and> y = (if 1900 + n < 1950 then 1900 + n + 100 else 1900 + n) \<and> y < 2050)
      \<longleftrightarrow> 1950 \<le> y \<and> y < 2050 \<and> cbs = two_digits (y mod 100) @ rest"
  proof
    assume "\<exists>n. 0 \<le> n \<and> n \<le> 99 \<and> cbs = two_digits n @ rest \<and> y = (if 1900 + n < 1950 then 1900 + n + 100 else 1900 + n) \<and> y < 2050"
    then obtain n where n: "0 \<le> n" "n \<le> 99" "cbs = two_digits n @ rest"
      "y = (if n < 50 then n + 20 * 100 else n + 19 * 100)" "y < 2050" by auto
    have "y mod 100 = n mod 100" unfolding n(4) by (simp only: mod_mult_self1 split: if_split) simp
    then show "1950 \<le> y \<and> y < 2050 \<and> cbs = two_digits (y mod 100) @ rest" using n by (auto split: if_splits)
  next
    assume y: "1950 \<le> y \<and> y < 2050 \<and> cbs = two_digits (y mod 100) @ rest"
    have "y mod 100 = (if y < 2000 then y - 1900 else y - 2000)"
      using y mod_intI [of 100 19 y] mod_intI [of 100 20 y] by auto
    then show "\<exists>n. 0 \<le> n \<and> n \<le> 99 \<and> cbs = two_digits n @ rest \<and> y = (if 1900 + n < 1950 then 1900 + n + 100 else 1900 + n) \<and> y < 2050"
      using y by (intro exI [of _ "y mod 100"]) auto
  qed
  moreover have "parse_time_year gen cbs = (Some y, rest) \<longleftrightarrow>
      (\<exists>n. 0 \<le> n \<and> n \<le> 99 \<and> cbs = two_digits n @ rest \<and> y = (if 1900 + n < 1950 then 1900 + n + 100 else 1900 + n) \<and> y < 2050)"
  proof -
    define Y :: "int \<Rightarrow> int" where "Y n = (if 1900 + n < 1950 then 1900 + n + 100 else 1900 + n)" for n
    have e: "(if 2050 \<le> Y n then (None, c) else (Some (Y n), c)) = (Some y, rest) \<longleftrightarrow> c = rest \<and> y = Y n \<and> y < 2050"
      for n and c :: cbs
      by auto
    have "parse_time_year gen cbs = (Some y, rest) \<longleftrightarrow>
        (\<exists>n c. cbs_get_two_digits cbs = (Some n, c) \<and> c = rest \<and> y = Y n \<and> y < 2050)"
      using False by (simp only: parse_time_year_def Let_def Y_def [symmetric] attempt_eq_Some e if_False)
    then show ?thesis unfolding two_digits_iff Y_def [symmetric] by blast
  qed
  ultimately show ?thesis using False by (simp only: year_ok_def year_text_def if_False append_Nil conj_assoc)
qed

definition zone_ok :: "bool \<Rightarrow> u8 list \<Rightarrow> int \<Rightarrow> bool" where
  "zone_ok allow zone offset \<longleftrightarrow> zone = [0x5A] \<and> offset = 0
     \<or> allow \<and> (\<exists>h m. 0 \<le> h \<and> h \<le> 23 \<and> 0 \<le> m \<and> m \<le> 59 \<and>
         (zone = 0x2B # two_digits h @ two_digits m \<and> offset = h * 3600 + m * 60
          \<or> zone = 0x2D # two_digits h @ two_digits m \<and> offset = - (h * 3600 + m * 60)))"

lemma parse_time_offset_iff:
  "parse_time_offset allow tz cbs = (Some offset, []) \<longleftrightarrow> zone_ok allow (tz # cbs) offset"
proof
  assume "parse_time_offset allow tz cbs = (Some offset, [])"
  then show "zone_ok allow (tz # cbs) offset"
    by (auto simp: parse_time_offset_def zone_ok_def attempt_eq_Some two_digits_iff Let_def not_less split: if_splits)
next
  have d: "cbs_get_two_digits (two_digits h @ two_digits m) = (Some h, two_digits m)"
    "cbs_get_two_digits (two_digits m) = (Some m, [])" if "0 \<le> h" "h \<le> 23" "0 \<le> m" "m \<le> 59" for h m
    using that two_digits_append [of h "two_digits m"] two_digits_append [of m "[]"] by simp_all
  assume "zone_ok allow (tz # cbs) offset"
  then show "parse_time_offset allow tz cbs = (Some offset, [])"
    by (auto simp: parse_time_offset_def zone_ok_def d)
qed

definition time_text :: "bool \<Rightarrow> tm \<Rightarrow> u8 list" where
  "time_text gen tm = year_text gen (tm_year tm + 1900) @ two_digits (tm_mon tm + 1) @ two_digits (tm_mday tm)
     @ two_digits (tm_hour tm) @ two_digits (tm_min tm) @ two_digits (tm_sec tm)"

lemma tm_ok_iff:
  "tm_ok tm \<longleftrightarrow> valid_date (tm_year tm + 1900) (tm_mon tm + 1) (tm_mday tm)
     \<and> is_valid_time (tm_hour tm) (tm_min tm) (tm_sec tm)"
  by (auto simp: tm_ok_def OPENSSL_tm_to_posix_def posix_time_from_utc_eq)

lemma is_valid_day_iff:
  assumes "0 \<le> y" "y \<le> 9999" "1 \<le> m" "m \<le> 12"
  shows "is_valid_day y m d \<longleftrightarrow> valid_date y m d"
  unfolding is_valid_date_iff [symmetric]
  using assms by (auto simp: is_valid_day_def is_valid_date_def)

lemma valid_date_days: "valid_date y m d \<Longrightarrow> 1 \<le> d \<and> d \<le> 31"
  by (auto simp: valid_date_def days_in_month_def split: if_splits)

lemma time_fields:
  assumes "tm_ok tm" "year_ok gen (tm_year tm + 1900)"
  shows "cbs_get_two_digits (two_digits (tm_mon tm + 1) @ r) = (Some (tm_mon tm + 1), r)"
    "cbs_get_two_digits (two_digits (tm_mday tm) @ r) = (Some (tm_mday tm), r)"
    "cbs_get_two_digits (two_digits (tm_hour tm) @ r) = (Some (tm_hour tm), r)"
    "cbs_get_two_digits (two_digits (tm_min tm) @ r) = (Some (tm_min tm), r)"
    "cbs_get_two_digits (two_digits (tm_sec tm) @ r) = (Some (tm_sec tm), r)"
    "is_valid_day (tm_year tm + 1900) (tm_mon tm + 1) (tm_mday tm)"
proof -
  have v: "valid_date (tm_year tm + 1900) (tm_mon tm + 1) (tm_mday tm)"
    "is_valid_time (tm_hour tm) (tm_min tm) (tm_sec tm)"
    using assms(1) by (auto simp: tm_ok_iff)
  then have b: "1 \<le> tm_mon tm + 1" "tm_mon tm + 1 \<le> 12" "0 \<le> tm_year tm + 1900" "tm_year tm + 1900 \<le> 9999"
    by (auto simp: valid_date_def)
  show "cbs_get_two_digits (two_digits (tm_mon tm + 1) @ r) = (Some (tm_mon tm + 1), r)"
    using b by (intro two_digits_append) auto
  show "cbs_get_two_digits (two_digits (tm_mday tm) @ r) = (Some (tm_mday tm), r)"
    using valid_date_days [OF v(1)] by (intro two_digits_append) auto
  show "cbs_get_two_digits (two_digits (tm_hour tm) @ r) = (Some (tm_hour tm), r)"
    "cbs_get_two_digits (two_digits (tm_min tm) @ r) = (Some (tm_min tm), r)"
    "cbs_get_two_digits (two_digits (tm_sec tm) @ r) = (Some (tm_sec tm), r)"
    using v(2) by (auto simp: is_valid_time_iff intro!: two_digits_append)
  show "is_valid_day (tm_year tm + 1900) (tm_mon tm + 1) (tm_mday tm)"
    using v(1) is_valid_day_iff [OF b(3,4,1,2)] by simp
qed

definition adjusted :: "tm \<Rightarrow> int \<Rightarrow> tm option" where
  "adjusted tm offset = (if offset \<noteq> 0 then OPENSSL_gmtime_adj tm 0 offset else Some tm)"

lemma parse_time_text:
  assumes "tm_ok tm" "year_ok gen (tm_year tm + 1900)" "zone_ok allow zone offset"
  shows "CBS_parse_rfc5280_time_internal (time_text gen tm @ zone) gen allow = adjusted tm offset"
proof -
  obtain tz z where z: "zone = tz # z" using assms(3) by (auto simp: zone_ok_def)
  have y: "parse_time_year gen (year_text gen (tm_year tm + 1900) @ r) = (Some (tm_year tm + 1900), r)" for r
    using assms(2) by (simp add: parse_time_year_iff)
  have o: "parse_time_offset allow tz z = (Some offset, [])"
    using assms(3) by (simp add: parse_time_offset_iff z)
  have v: "\<not> tm_mon tm + 1 < 1" "\<not> 12 < tm_mon tm + 1" "\<not> 23 < tm_hour tm" "\<not> 59 < tm_min tm" "\<not> 59 < tm_sec tm"
    using assms(1) by (auto simp: tm_ok_iff valid_date_def is_valid_time_iff)
  have t: "\<lparr>tm_sec = tm_sec tm, tm_min = tm_min tm, tm_hour = tm_hour tm, tm_mday = tm_mday tm,
      tm_mon = tm_mon tm + 1 - 1, tm_year = tm_year tm + 1900 - 1900\<rparr> = tm" by simp
  have n: "\<not> CBS_len [] \<noteq> 0" by (simp add: CBS_len_def)
  show ?thesis
    unfolding CBS_parse_rfc5280_time_internal_def time_text_def z append_assoc Let_def y attempt_Some
      time_fields [OF assms(1,2)] CBS_get_u8_simps append_Cons append_Nil o t
    using v by (simp add: time_fields(6) [OF assms(1,2)] n [simplified] adjusted_def)
qed

lemma fst_eq_Some: "fst r = Some x \<longleftrightarrow> (\<exists>s. r = (Some x, s))"
  by (cases r) auto

lemma CBS_len_empty: "length cbs < 2 ^ 64 \<Longrightarrow> CBS_len cbs = 0 \<Longrightarrow> cbs = []"
  by (metis CBS_len_def length_0_conv unat_0 unat_of_nat_u64)

lemma two_digits_shorter: "cbs_get_two_digits cbs = (r, rest) \<Longrightarrow> length rest \<le> length cbs"
  by (cases cbs rule: list.exhaust [case_product list.exhaust])
    (auto simp: cbs_get_two_digits_def CBS_get_u8_def cbs_get_def attempt_def split: if_splits list.splits option.splits)

lemma parse_time_sound:
  assumes "CBS_parse_rfc5280_time_internal cbs gen allow = Some tm'" "length cbs < 2 ^ 64"
  shows "\<exists>tm zone offset. tm_ok tm \<and> year_ok gen (tm_year tm + 1900) \<and> zone_ok allow zone offset
    \<and> cbs = time_text gen tm @ zone \<and> adjusted tm offset = Some tm'"
proof -
  from assms(1) obtain y r1 mo r2 d r3 h r4 mi r5 se r6 tz r7 off r8 where
    p: "parse_time_year gen cbs = (Some y, r1)" "cbs_get_two_digits r1 = (Some mo, r2)" "\<not> mo < 1" "\<not> 12 < mo"
    "cbs_get_two_digits r2 = (Some d, r3)" "is_valid_day y mo d" "cbs_get_two_digits r3 = (Some h, r4)" "\<not> 23 < h"
    "cbs_get_two_digits r4 = (Some mi, r5)" "\<not> 59 < mi" "cbs_get_two_digits r5 = (Some se, r6)" "\<not> 59 < se"
    "CBS_get_u8 r6 = (Some tz, r7)" "parse_time_offset allow tz r7 = (Some off, r8)" "CBS_len r8 = 0" and
    a: "adjusted \<lparr>tm_sec = se, tm_min = mi, tm_hour = h, tm_mday = d, tm_mon = mo - 1, tm_year = y - 1900\<rparr> off = Some tm'"
    unfolding CBS_parse_rfc5280_time_internal_def Let_def adjusted_def fst_eq_Some
    by (auto simp: attempt_eq_Some split: if_splits)
  let ?tm = "\<lparr>tm_sec = se, tm_min = mi, tm_hour = h, tm_mday = d, tm_mon = mo - 1, tm_year = y - 1900\<rparr>"
  note t = p(2,5,7,9,11) [unfolded two_digits_iff]
  have yr: "year_ok gen y" "cbs = year_text gen y @ r1" using p(1) by (auto simp: parse_time_year_iff)
  have r6: "r6 = tz # r7" using p(13) by (simp add: CBS_get_u8_eq_Some)
  have "length r8 \<le> length r7"
    using p(14) by (auto simp: parse_time_offset_def attempt_eq_Some Let_def split: if_splits dest!: two_digits_shorter)
  moreover have "length r7 \<le> length cbs" using t yr r6 by (simp add: time_text_def)
  ultimately have "r8 = []" using CBS_len_empty [OF _ p(15)] assms(2) by simp
  then have z: "zone_ok allow (tz # r7) off" using p(14) parse_time_offset_iff by simp
  have "0 \<le> y" "y \<le> 9999" using yr(1) by (auto simp: year_ok_def split: if_splits)
  then have "valid_date y mo d" using is_valid_day_iff [of y mo d] p(3,4,6) by simp
  then have "tm_ok ?tm" using t p by (simp add: tm_ok_iff is_valid_time_iff)
  moreover have "cbs = time_text gen ?tm @ tz # r7" using yr(2) t r6 by (simp add: time_text_def)
  ultimately show ?thesis using yr(1) z a
    by (rule_tac exI [of _ ?tm], rule_tac exI [of _ "tz # r7"], rule_tac exI [of _ off]) simp
qed

subsection \<open>Properties\<close>

text \<open>
  C30: without time zone offsets, \<^verbatim>\<open>CBS_parse_generalized_time\<close> and \<^verbatim>\<open>CBS_parse_utc_time\<close> accept
  exactly the canonical texts of valid dates: fixed-width decimal fields, four digits of the year
  (0 to 9999) or two (1950 to 2049), and \<^verbatim>\<open>Z\<close>.  Every time has one text and every accepted text
  gives a time that \<^verbatim>\<open>OPENSSL_tm_to_posix\<close> accepts.
\<close>
theorem time_text_canonical:
  assumes "length cbs < 2 ^ 64"
  shows "(CBS_parse_generalized_time cbs False = Some tm \<longleftrightarrow>
      OPENSSL_tm_to_posix tm \<noteq> None \<and> year_ok True (tm_year tm + 1900) \<and> cbs = time_text True tm @ [0x5A])
    \<and> (CBS_parse_utc_time cbs False = Some tm \<longleftrightarrow>
      OPENSSL_tm_to_posix tm \<noteq> None \<and> year_ok False (tm_year tm + 1900) \<and> cbs = time_text False tm @ [0x5A])"
proof -
  have z: "zone_ok False zone off \<longleftrightarrow> zone = [0x5A] \<and> off = 0" for zone off by (simp add: zone_ok_def)
  have "CBS_parse_rfc5280_time_internal cbs gen False = Some tm \<longleftrightarrow>
      tm_ok tm \<and> year_ok gen (tm_year tm + 1900) \<and> cbs = time_text gen tm @ [0x5A]" for gen
    using parse_time_sound [OF _ assms, of gen False tm] parse_time_text [of tm gen False "[0x5A]" 0]
    by (auto simp: z adjusted_def)
  then show ?thesis
    by (simp add: CBS_parse_generalized_time_def CBS_parse_utc_time_def tm_ok_def)
qed

definition epoch :: tm where
  "epoch = \<lparr>tm_sec = 0, tm_min = 0, tm_hour = 0, tm_mday = 1, tm_mon = 0, tm_year = 70\<rparr>"

lemma epoch_ok: "tm_ok epoch"
  by (simp add: tm_ok_iff epoch_def valid_date_def days_in_month_def is_valid_time_def)

theorem time_text_canonical_witness:
  "CBS_parse_utc_time (time_text False epoch @ [0x5A]) False = Some epoch"
proof -
  have "length (time_text False epoch @ [0x5A]) < 2 ^ 64" by (simp add: time_text_def year_text_def two_digits_def)
  from time_text_canonical [OF this, of epoch] epoch_ok show ?thesis
    by (simp add: tm_ok_def year_ok_def epoch_def)
qed



end
