(* ===== verification/Heap_Sort.thy ===== *)
theory Heap_Sort
  imports Order
begin

text \<open>
  The sorting and searching loops of \<^verbatim>\<open>crypto/stack/stack.c\<close> on the array of a stack: the in-place
  heapsort of \<^verbatim>\<open>OPENSSL_sk_sort\<close> and the binary search of \<^verbatim>\<open>OPENSSL_sk_find\<close>, for any comparison
  function.  In the locale \<open>comparator\<close>: the sort yields a sorted permutation, the search finds
  the first match.
\<close>

subsection \<open>The code\<close>

definition parent_idx :: "nat \<Rightarrow> nat" where
  "parent_idx idx = (idx - 1) div 2"

text \<open>The code asserts \<open>idx \<le> PTRDIFF_MAX\<close>, so \<open>2 * idx + 1\<close> does not wrap around.\<close>

definition left_idx :: "nat \<Rightarrow> nat" where
  "left_idx idx = 2 * idx + 1"

definition next_idx :: "('a \<Rightarrow> 'a \<Rightarrow> int) \<Rightarrow> nat \<Rightarrow> nat \<Rightarrow> 'a list \<Rightarrow> nat" where
  "next_idx cmp i num data =
     (let left = left_idx i;
          next' = (if cmp (data ! i) (data ! left) < 0 then left else i);
          right = left + 1
      in if right < num \<and> cmp (data ! next') (data ! right) < 0 then right else next')"

definition swap :: "nat \<Rightarrow> nat \<Rightarrow> 'a list \<Rightarrow> 'a list" where
  "swap i j xs = xs[i := xs ! j, j := xs ! i]"

lemma next_idx_cases: "next_idx cmp i num data \<in> {i, 2 * i + 1, 2 * i + 2}"
  by (auto simp: next_idx_def left_idx_def Let_def)

function down_heap :: "('a \<Rightarrow> 'a \<Rightarrow> int) \<Rightarrow> nat \<Rightarrow> nat \<Rightarrow> 'a list \<Rightarrow> 'a list" where
  "down_heap cmp i num data =
     (if num \<le> left_idx i then data
      else let next' = next_idx cmp i num data in
        if i = next' then data else down_heap cmp next' num (swap i next' data))"
  by auto
termination
proof (relation "measure (\<lambda>(cmp, i, num, data). num - i)")
  fix cmp :: "'a \<Rightarrow> 'a \<Rightarrow> int" and i num data x
  assume "\<not> num \<le> left_idx i" "x = next_idx cmp i num data" "i \<noteq> x"
  then show "((cmp, x, num, swap i x data), cmp, i, num, data) \<in> measure (\<lambda>(cmp, i, num, data). num - i)"
    using next_idx_cases [of cmp i num data] by (auto simp: left_idx_def)
qed auto

declare down_heap.simps [simp del]

lemma u64_pred_less:
  assumes "(i :: u64) - 1 < num"
  shows "unat (i - 1) < unat i"
proof (cases "i = 0")
  case True
  then have "\<not> i - 1 < num" using word_n1_ge [of num] by simp
  then show ?thesis using assms by blast
next
  case False
  then show ?thesis by (simp add: unat_minus_one unat_gt_0)
qed

text \<open>The index is a \<open>size_t\<close>: at 0 it wraps around to \<open>SIZE_MAX\<close>, which ends the loop.\<close>

function build_heap :: "('a \<Rightarrow> 'a \<Rightarrow> int) \<Rightarrow> u64 \<Rightarrow> u64 \<Rightarrow> 'a list \<Rightarrow> 'a list" where
  "build_heap cmp i num data =
     (if i < num then build_heap cmp (i - 1) num (down_heap cmp (unat i) (unat num) data) else data)"
  by auto

termination
  by (relation "measure (\<lambda>(cmp, i, num, data). if i < num then Suc (unat i) else 0)")
    (auto simp: u64_pred_less)

declare build_heap.simps [simp del]

fun extract_loop :: "('a \<Rightarrow> 'a \<Rightarrow> int) \<Rightarrow> nat \<Rightarrow> 'a list \<Rightarrow> 'a list" where
  "extract_loop cmp 0 data = data"
| "extract_loop cmp (Suc i) data = extract_loop cmp i (down_heap cmp 0 (Suc i) (swap 0 (Suc i) data))"

definition heap_sort :: "('a \<Rightarrow> 'a \<Rightarrow> int) \<Rightarrow> nat \<Rightarrow> 'a list \<Rightarrow> 'a list" where
  "heap_sort cmp num data =
     (if 2 \<le> num then
        extract_loop cmp (num - 1) (build_heap cmp (of_nat (parent_idx (num - 1))) (of_nat num) data)
      else data)"

function binary_search :: "('a \<Rightarrow> int) \<Rightarrow> 'a list \<Rightarrow> nat \<Rightarrow> nat \<Rightarrow> nat option" where
  "binary_search cmp_p data lo hi =
     (if lo < hi then
        let mid = lo + (hi - lo - 1) div 2; r = cmp_p (data ! mid) in
        if 0 < r then binary_search cmp_p data (mid + 1) hi
        else if r < 0 then binary_search cmp_p data lo mid
        else if hi - lo = 1 then Some mid
        else binary_search cmp_p data lo (mid + 1)
      else None)"
  by auto
termination by (relation "measure (\<lambda>(cmp_p, data, lo, hi). hi - lo)") auto

declare binary_search.simps [simp del]

function linear_search :: "('a \<Rightarrow> bool) \<Rightarrow> 'a list \<Rightarrow> nat \<Rightarrow> nat \<Rightarrow> nat option" where
  "linear_search match data i num =
     (if i < num then if match (data ! i) then Some i else linear_search match data (i + 1) num else None)"
  by auto
termination by (relation "measure (\<lambda>(match, data, i, num). num - i)") auto

declare linear_search.simps [simp del]

subsection \<open>Heaps\<close>

lemma swap_simps [simp]:
  "length (swap i j xs) = length xs"
  "i < length xs \<Longrightarrow> j < length xs \<Longrightarrow> swap i j xs ! k = (if k = j then xs ! i else if k = i then xs ! j else xs ! k)"
  by (auto simp: swap_def nth_list_update)

lemma take_swap: "i < n \<Longrightarrow> j < n \<Longrightarrow> n \<le> length xs \<Longrightarrow> take n (swap i j xs) = swap i j (take n xs)"
  by (simp add: swap_def take_update_swap)

lemma mset_take_swap:
  "i < n \<Longrightarrow> j < n \<Longrightarrow> n \<le> length xs \<Longrightarrow> mset (take n (swap i j xs)) = mset (take n xs)"
  using mset_swap [of j "take n xs" i] by (simp add: take_swap) (simp add: swap_def)

definition heap_from :: "('a \<Rightarrow> 'a \<Rightarrow> int) \<Rightarrow> nat \<Rightarrow> nat \<Rightarrow> 'a list \<Rightarrow> bool" where
  "heap_from cmp k n xs \<longleftrightarrow>
     (\<forall>c. 0 < c \<and> c < n \<and> k \<le> parent_idx c \<longrightarrow> cmp (xs ! c) (xs ! parent_idx c) \<le> 0)"

definition heap_except :: "('a \<Rightarrow> 'a \<Rightarrow> int) \<Rightarrow> nat \<Rightarrow> nat \<Rightarrow> nat \<Rightarrow> 'a list \<Rightarrow> bool" where
  "heap_except cmp k n i xs \<longleftrightarrow>
     (\<forall>c. 0 < c \<and> c < n \<and> k \<le> parent_idx c \<and> parent_idx c \<noteq> i \<longrightarrow> cmp (xs ! c) (xs ! parent_idx c) \<le> 0) \<and>
     (\<forall>c. 0 < c \<and> c < n \<and> parent_idx c = i \<and> 0 < i \<and> k \<le> parent_idx i \<longrightarrow> cmp (xs ! c) (xs ! parent_idx i) \<le> 0)"

lemma parent_idx_iff: "0 < c \<Longrightarrow> parent_idx c = i \<longleftrightarrow> c = 2 * i + 1 \<or> c = 2 * i + 2"
  by (auto simp: parent_idx_def)

lemma parent_idx_less: "0 < c \<Longrightarrow> parent_idx c < c"
  by (auto simp: parent_idx_def)

text \<open>The first index that matches, if any.\<close>

definition first_index :: "('a \<Rightarrow> bool) \<Rightarrow> 'a list \<Rightarrow> nat \<Rightarrow> nat option \<Rightarrow> bool" where
  "first_index match xs n r \<longleftrightarrow>
     (case r of None \<Rightarrow> \<forall>i<n. \<not> match (xs ! i)
      | Some k \<Rightarrow> k < n \<and> match (xs ! k) \<and> (\<forall>i<k. \<not> match (xs ! i)))"

lemma first_index_unique: "first_index match xs n r \<Longrightarrow> first_index match xs n r' \<Longrightarrow> r = r'"
  by (auto simp: first_index_def split: option.splits) (metis linorder_neqE_nat)

lemma first_index_linear:
  "\<forall>j<i. \<not> match (xs ! j) \<Longrightarrow> first_index match xs n (linear_search match xs i n)"
proof (induction match xs i n rule: linear_search.induct)
  case (1 match xs i n)
  then show ?case
    by (subst linear_search.simps) (auto simp: first_index_def less_Suc_eq)
qed

text \<open>The elements of the first \<open>n\<close> slots are permuted, the slots after them untouched.\<close>

definition permuted :: "nat \<Rightarrow> 'a list \<Rightarrow> 'a list \<Rightarrow> bool" where
  "permuted n xs ys \<longleftrightarrow> length ys = length xs \<and> mset (take n ys) = mset (take n xs) \<and> drop n ys = drop n xs"

lemma permuted_refl [simp]: "permuted n xs xs"
  by (simp add: permuted_def)

lemma permuted_trans: "permuted n xs ys \<Longrightarrow> permuted n ys zs \<Longrightarrow> permuted n xs zs"
  by (simp add: permuted_def)

lemma permuted_mono:
  assumes "permuted m xs ys" "m \<le> n"
  shows "permuted n xs ys"
proof -
  have s: "take n zs = take m zs @ take (n - m) (drop m zs)" for zs :: "'a list"
    using assms(2) by (metis le_add_diff_inverse take_add)
  have "drop n zs = drop (n - m) (drop m zs)" for zs :: "'a list" using assms(2) by simp
  with s assms(1) show ?thesis unfolding permuted_def by (metis mset_append)
qed

lemma permuted_nth: "permuted n xs ys \<Longrightarrow> n \<le> k \<Longrightarrow> k < length xs \<Longrightarrow> ys ! k = xs ! k"
proof -
  assume a: "permuted n xs ys" "n \<le> k" "k < length xs"
  then have "drop n ys ! (k - n) = drop n xs ! (k - n)" and l: "length ys = length xs" by (simp_all add: permuted_def)
  then show ?thesis using a(2,3) by (simp only: nth_drop l) simp
qed

lemma permuted_swap: "i < n \<Longrightarrow> j < n \<Longrightarrow> n \<le> length xs \<Longrightarrow> permuted n xs (swap i j xs)"
  by (auto simp: permuted_def mset_take_swap) (simp add: swap_def drop_update_cancel)

lemma permuted_down_heap: "n \<le> length xs \<Longrightarrow> permuted n xs (down_heap cmp i n xs)"
proof (induction cmp i n xs rule: down_heap.induct)
  case (1 cmp i n xs)
  let ?j = "next_idx cmp i n xs"
  show ?case
  proof (cases "n \<le> left_idx i \<or> i = ?j")
    case True
    then show ?thesis by (subst down_heap.simps) (auto simp: Let_def)
  next
    case False
    then have e: "down_heap cmp i n xs = down_heap cmp ?j n (swap i ?j xs)"
      by (subst down_heap.simps) (simp add: Let_def)
    have "i < n" "?j < n" using False by (auto simp: next_idx_def left_idx_def Let_def)
    moreover have "permuted n (swap i ?j xs) (down_heap cmp ?j n (swap i ?j xs))" using False 1 by simp
    ultimately show ?thesis unfolding e using "1.prems" by (blast intro: permuted_trans permuted_swap)
  qed
qed

lemma permuted_build_heap: "unat num \<le> length xs \<Longrightarrow> permuted (unat num) xs (build_heap cmp i num xs)"
proof (induction cmp i num xs rule: build_heap.induct)
  case (1 cmp i num xs)
  have "permuted (unat num) xs (down_heap cmp (unat i) (unat num) xs)"
    using "1.prems" by (rule permuted_down_heap)
  with 1 show ?case
    by (subst build_heap.simps) (auto simp: permuted_def intro: permuted_trans)
qed

lemma permuted_extract_loop: "i < n \<Longrightarrow> n \<le> length xs \<Longrightarrow> permuted n xs (extract_loop cmp i xs)"
proof (induction cmp i xs rule: extract_loop.induct)
  case (2 cmp i xs)
  let ?ys = "swap 0 (Suc i) xs" and ?zs = "down_heap cmp 0 (Suc i) (swap 0 (Suc i) xs)"
  have "permuted (Suc i) ?ys ?zs" using "2.prems" by (intro permuted_down_heap) simp
  then have "permuted n ?ys ?zs" by (rule permuted_mono) (use "2.prems"(1) in simp)
  moreover have "permuted n xs ?ys" using "2.prems" by (intro permuted_swap) auto
  ultimately have p: "permuted n xs ?zs" by (blast intro: permuted_trans)
  then have "length ?zs = length xs" by (simp add: permuted_def)
  then have "permuted n ?zs (extract_loop cmp i ?zs)" using 2 by simp
  with p show ?case by (auto intro: permuted_trans)
qed simp

context comparator
begin

lemma next_idx_spec:
  assumes "left_idx i < n"
  shows "next_idx cmp i n xs < n"
    and "next_idx cmp i n xs \<noteq> i \<Longrightarrow> cmp (xs ! i) (xs ! next_idx cmp i n xs) < 0"
    and "c \<in> {2 * i + 1, 2 * i + 2} \<Longrightarrow> c < n \<Longrightarrow> cmp (xs ! c) (xs ! next_idx cmp i n xs) \<le> 0"
proof -
  have flip: "cmp a b \<le> 0" if "\<not> cmp b a < 0" for a b using that cmp_total [of a b] cmp_zero_iff [of a b] by force
  show "next_idx cmp i n xs < n" using assms by (auto simp: next_idx_def left_idx_def Let_def)
  show "next_idx cmp i n xs \<noteq> i \<Longrightarrow> cmp (xs ! i) (xs ! next_idx cmp i n xs) < 0"
    by (auto simp: next_idx_def left_idx_def Let_def intro: cmp_less_trans split: if_splits)
  show "c \<in> {2 * i + 1, 2 * i + 2} \<Longrightarrow> c < n \<Longrightarrow> cmp (xs ! c) (xs ! next_idx cmp i n xs) \<le> 0"
    by (auto simp: next_idx_def left_idx_def Let_def cmp_refl intro: flip cmp_trans)
qed

text \<open>One turn of the loop moves the exception to the child the element was swapped with.\<close>

lemma heap_except_swap:
  assumes h: "heap_except cmp k n i xs" and "k \<le> i" "n \<le> length xs" "left_idx i < n"
    and j: "j = next_idx cmp i n xs" "i \<noteq> j"
  shows "heap_except cmp k n j (swap i j xs)"
proof -
  note s = next_idx_spec [OF \<open>left_idx i < n\<close>, where xs = xs, folded j(1)]
  have jc: "j = 2 * i + 1 \<or> j = 2 * i + 2" using next_idx_cases [of cmp i n xs] j by auto
  have ij: "i < length xs" "j < length xs" using s(1) assms(3) jc by auto
  have pj: "parent_idx j = i" using jc by (subst parent_idx_iff) auto
  have kid: "cmp (xs ! c) (xs ! j) \<le> 0" if "0 < c" "c < n" "parent_idx c = i" for c
    using that s(3) parent_idx_iff by simp
  have old: "cmp (xs ! c) (xs ! parent_idx c) \<le> 0" if "0 < c" "c < n" "k \<le> parent_idx c" "parent_idx c \<noteq> i" for c
    using h that unfolding heap_except_def by blast
  have up: "cmp (xs ! j) (xs ! parent_idx i) \<le> 0" if "0 < i" "k \<le> parent_idx i"
    using h that pj s(1) jc unfolding heap_except_def by auto
  have "cmp (swap i j xs ! c) (swap i j xs ! parent_idx c) \<le> 0"
    if c: "0 < c" "c < n" "k \<le> parent_idx c" "parent_idx c \<noteq> j" for c
  proof (cases "parent_idx c = i")
    case True
    have "c \<noteq> i" using True c(1) parent_idx_less [of c] by auto
    then show ?thesis using True ij kid [OF c(1,2) True] s(2) j(2) by (auto intro: less_imp_le)
  next
    case False
    then have "c \<noteq> j" using pj by auto
    then show ?thesis using False c ij old [OF c(1-3) False] up j(2) by auto
  qed
  moreover have "cmp (swap i j xs ! c) (swap i j xs ! parent_idx j) \<le> 0"
    if c: "0 < c" "c < n" "parent_idx c = j" for c
  proof -
    have "c \<noteq> i" "c \<noteq> j" using c parent_idx_less [of c] jc by auto
    then show ?thesis using old [OF c(1,2)] c pj ij j(2) jc \<open>k \<le> i\<close> by auto
  qed
  ultimately show ?thesis unfolding heap_except_def by blast
qed

lemma down_heap_heap:
  "heap_except cmp k n i xs \<Longrightarrow> k \<le> i \<Longrightarrow> n \<le> length xs \<Longrightarrow> heap_from cmp k n (down_heap cmp i n xs)"
proof (induction "n - i" arbitrary: i xs rule: less_induct)
  case less
  let ?j = "next_idx cmp i n xs"
  have old: "cmp (xs ! c) (xs ! parent_idx c) \<le> 0" if "0 < c" "c < n" "k \<le> parent_idx c" "parent_idx c \<noteq> i" for c
    using less.prems(1) that unfolding heap_except_def by blast
  consider (leaf) "n \<le> left_idx i" | (stop) "left_idx i < n" "i = ?j" | (step) "left_idx i < n" "i \<noteq> ?j"
    by linarith
  then show ?case
  proof cases
    case leaf
    then have "parent_idx c \<noteq> i" if "0 < c" "c < n" for c
      using that parent_idx_iff [of c i] by (auto simp: left_idx_def)
    then have "heap_from cmp k n xs" unfolding heap_from_def using old by blast
    with leaf show ?thesis by (subst down_heap.simps) simp
  next
    case stop
    then have "cmp (xs ! c) (xs ! i) \<le> 0" if "0 < c" "c < n" "parent_idx c = i" for c
      using next_idx_spec(3) [OF stop(1), where c = c and xs = xs] that parent_idx_iff [of c i] by simp
    then have "heap_from cmp k n xs" unfolding heap_from_def using old by metis
    with stop show ?thesis by (subst down_heap.simps) (simp add: Let_def)
  next
    case step
    then have "i < ?j" "?j < n" using next_idx_cases [of cmp i n xs] next_idx_spec(1) [OF step(1), where xs = xs] by auto
    then have "heap_from cmp k n (down_heap cmp ?j n (swap i ?j xs))"
      using less.hyps [of ?j "swap i ?j xs"] heap_except_swap [OF less.prems step(1) refl step(2)] less.prems by auto
    with step show ?thesis by (subst down_heap.simps) (simp add: Let_def)
  qed
qed

lemma heap_root:
  assumes "heap_from cmp 0 n xs" "j < n"
  shows "cmp (xs ! j) (xs ! 0) \<le> 0"
  using assms(2)
proof (induction j rule: less_induct)
  case (less j)
  show ?case
  proof (cases "j = 0")
    case True
    then show ?thesis by (simp add: cmp_refl)
  next
    case False
    then have p: "parent_idx j < j" by (simp add: parent_idx_less)
    then have "cmp (xs ! parent_idx j) (xs ! 0) \<le> 0" using less by simp
    moreover have "cmp (xs ! j) (xs ! parent_idx j) \<le> 0"
      using assms(1) less.prems False unfolding heap_from_def by simp
    ultimately show ?thesis using cmp_trans by blast
  qed
qed

lemma build_heap_nat:
  "k < unat num \<Longrightarrow> build_heap cmp (of_nat k) num xs =
     (let ys = down_heap cmp k (unat num) xs in case k of 0 \<Rightarrow> ys | Suc k' \<Rightarrow> build_heap cmp (of_nat k') num ys)"
proof -
  assume k: "k < unat num"
  then have u: "unat (of_nat k :: u64) = k" using unat_u64_less [of num] by (intro unat_of_nat_u64) simp
  then have l: "(of_nat k :: u64) < num" using k by (simp add: word_less_nat_alt)
  show ?thesis
  proof (cases k)
    case 0
    have "\<not> - 1 < num" using word_n1_ge [of num] by simp
    then have "build_heap cmp (- 1) num ys = ys" for ys :: "'a list" by (subst build_heap.simps) simp
    then show ?thesis using 0 l by (subst build_heap.simps) (simp add: Let_def)
  next
    case (Suc k')
    then show ?thesis using l u by (subst build_heap.simps) (simp add: Let_def)
  qed
qed

lemma heap_except_top: "heap_from cmp (Suc k) n xs \<Longrightarrow> heap_except cmp k n k xs"
  using parent_idx_less [of k] unfolding heap_from_def heap_except_def by (auto simp: Suc_le_eq)

lemma build_heap_heap:
  "k < unat num \<Longrightarrow> unat num \<le> length xs \<Longrightarrow> heap_from cmp (Suc k) (unat num) xs \<Longrightarrow>
     heap_from cmp 0 (unat num) (build_heap cmp (of_nat k) num xs)"
proof (induction k arbitrary: xs)
  case 0
  then show ?case using down_heap_heap [OF heap_except_top [OF 0(3)]] build_heap_nat [OF 0(1), of xs]
    by (simp add: Let_def)
next
  case (Suc k)
  let ?ys = "down_heap cmp (Suc k) (unat num) xs"
  have "heap_from cmp (Suc k) (unat num) ?ys"
    using down_heap_heap [OF heap_except_top] Suc.prems by simp
  moreover have "length ?ys = length xs" using permuted_down_heap Suc.prems(2) by (auto simp: permuted_def)
  ultimately have "heap_from cmp 0 (unat num) (build_heap cmp (of_nat k) num ?ys)"
    using Suc.IH [of ?ys] Suc.prems by simp
  then show ?case using Suc.prems(1) by (subst build_heap_nat) (simp_all add: Let_def)
qed

text \<open>The slots from \<open>m\<close> on are in their final order with respect to everything before them.\<close>

definition tail_sorted :: "nat \<Rightarrow> nat \<Rightarrow> 'a list \<Rightarrow> bool" where
  "tail_sorted m n xs \<longleftrightarrow> (\<forall>a b. a < b \<and> b < n \<and> m \<le> b \<longrightarrow> cmp (xs ! a) (xs ! b) \<le> 0)"

lemma extract_step:
  assumes h: "heap_from cmp 0 (Suc i) xs" and t: "tail_sorted (Suc i) n xs" and n: "i < n" "n \<le> length xs" "0 < i"
  defines "zs \<equiv> down_heap cmp 0 i (swap 0 i xs)"
  shows "heap_from cmp 0 i zs" "tail_sorted i n zs"
proof -
  let ?ys = "swap 0 i xs"
  have y: "?ys ! k = (if k = i then xs ! 0 else if k = 0 then xs ! i else xs ! k)" for k
    by (subst swap_simps(2)) (use n in auto)
  have "cmp (?ys ! c) (?ys ! parent_idx c) \<le> 0" if "0 < c" "c < i" "parent_idx c \<noteq> 0" for c
    using h that parent_idx_less [of c] unfolding y heap_from_def by auto
  then have "heap_except cmp 0 i 0 ?ys" unfolding heap_except_def by blast
  then show "heap_from cmp 0 i zs" unfolding zs_def using n by (intro down_heap_heap) auto
  have p: "permuted i ?ys zs" unfolding zs_def using n by (intro permuted_down_heap) simp
  have z: "zs ! k = ?ys ! k" if "i \<le> k" "k < n" for k using permuted_nth [OF p that(1)] that n by simp
  have low: "\<exists>c\<le>i. zs ! a = xs ! c" if "a < i" for a
  proof -
    have "zs ! a \<in> set (take i zs)" using that p n by (auto simp: in_set_conv_nth permuted_def)
    then have "zs ! a \<in> set (take i ?ys)" using p unfolding permuted_def by (metis set_mset_mset)
    then obtain c where "c < i" "zs ! a = ?ys ! c" by (auto simp: in_set_conv_nth)
    then show ?thesis unfolding y by (intro exI [of _ "if c = 0 then i else c"]) auto
  qed
  show "tail_sorted i n zs" unfolding tail_sorted_def
  proof (intro allI impI)
    fix a b assume ab: "a < b \<and> b < n \<and> i \<le> b"
    have below: "\<exists>c\<le>i. zs ! a = xs ! c" if "a \<le> i" using that low [of a] z [of i] n y by (cases "a = i") auto
    show "cmp (zs ! a) (zs ! b) \<le> 0"
    proof (cases "b = i")
      case True
      with ab below obtain c where "c \<le> i" "zs ! a = xs ! c" by auto
      then show ?thesis using heap_root [OF h, of c] z [of i] n y True by simp
    next
      case False
      then have b: "zs ! b = xs ! b" using ab z [of b] y by auto
      show ?thesis
      proof (cases "a \<le> i")
        case True
        with below obtain c where "c \<le> i" "zs ! a = xs ! c" by auto
        then show ?thesis using t ab False b unfolding tail_sorted_def by auto
      next
        case a: False
        then have "zs ! a = xs ! a" using ab z [of a] y n by auto
        then show ?thesis using t ab False b unfolding tail_sorted_def by auto
      qed
    qed
  qed
qed

lemma extract_loop_sorted:
  "heap_from cmp 0 (Suc i) xs \<Longrightarrow> tail_sorted (Suc i) n xs \<Longrightarrow> i < n \<Longrightarrow> n \<le> length xs \<Longrightarrow>
     tail_sorted 1 n (extract_loop cmp i xs)"
proof (induction i arbitrary: xs)
  case (Suc i)
  let ?zs = "down_heap cmp 0 (Suc i) (swap 0 (Suc i) xs)"
  have "length ?zs = length xs"
    using permuted_down_heap [of "Suc i" "swap 0 (Suc i) xs"] Suc.prems by (auto simp: permuted_def)
  with Suc extract_step [OF Suc.prems] show ?case by simp
qed simp

theorem heap_sort_correct:
  assumes n: "n \<le> length xs" "n < 2 ^ 64"
  shows "sorted_by cmp (take n (heap_sort cmp n xs)) \<and> permuted n xs (heap_sort cmp n xs)"
proof (cases "2 \<le> n")
  case False
  then have "length (take n xs) < 2" using n by simp
  then have "sorted_by cmp (take n xs)" unfolding sorted_by_def
    by (cases "take n xs") (auto simp: Suc_less_eq2)
  with False show ?thesis by (simp add: heap_sort_def)
next
  case True
  have u: "unat (of_nat n :: u64) = n" using n(2) by (rule unat_of_nat_u64)
  let ?ys = "build_heap cmp (of_nat (parent_idx (n - 1))) (of_nat n) xs"
  let ?zs = "extract_loop cmp (n - 1) ?ys"
  have "heap_from cmp (Suc (parent_idx (n - 1))) n xs" unfolding heap_from_def
  proof (intro allI impI)
    fix c assume "0 < c \<and> c < n \<and> Suc (parent_idx (n - 1)) \<le> parent_idx c"
    moreover have "parent_idx c \<le> parent_idx (n - 1)" if "c < n" unfolding parent_idx_def using that by (intro div_le_mono) simp
    ultimately show "cmp (xs ! c) (xs ! parent_idx c) \<le> 0" by auto
  qed
  moreover have "parent_idx (n - 1) < n" using parent_idx_less [of "n - 1"] True by simp
  ultimately have h: "heap_from cmp 0 n ?ys" using build_heap_heap [of _ "of_nat n" xs, unfolded u] n by blast
  have p: "permuted n xs ?ys" using permuted_build_heap [of "of_nat n" xs, unfolded u] n by simp
  then have l: "length ?ys = length xs" by (simp add: permuted_def)
  have "tail_sorted n n ?ys" by (auto simp: tail_sorted_def)
  then have t: "tail_sorted 1 n ?zs" using extract_loop_sorted [of "n - 1" ?ys n] h True n(1) l by simp
  have q: "permuted n xs ?zs"
    using permuted_extract_loop [of "n - 1" n ?ys] p True n(1) l by (auto intro: permuted_trans)
  have "n \<le> length ?zs" using q n(1) by (simp add: permuted_def)
  then have "sorted_by cmp (take n ?zs)"
    using t unfolding sorted_by_def sorted_wrt_iff_nth_less tail_sorted_def by auto
  with q True show ?thesis by (simp add: heap_sort_def)
qed

text \<open>
  The binary search keeps: everything before \<open>lo\<close> is smaller than \<open>p\<close>, and either everything
  from \<open>hi\<close> on is larger, or the last element before \<open>hi\<close> matches.
\<close>

lemma binary_search_first:
  assumes "sorted_by cmp (take n xs)" "n \<le> length xs"
  shows "lo \<le> hi \<Longrightarrow> hi \<le> n \<Longrightarrow> \<forall>i<lo. 0 < cmp p (xs ! i) \<Longrightarrow>
    (\<forall>i. hi \<le> i \<and> i < n \<longrightarrow> cmp p (xs ! i) < 0) \<or> lo < hi \<and> cmp p (xs ! (hi - 1)) = 0 \<Longrightarrow>
    first_index (\<lambda>x. cmp p x = 0) xs n (binary_search (cmp p) xs lo hi)"
proof (induction "hi - lo" arbitrary: lo hi rule: less_induct)
  case less
  define mid where "mid = lo + (hi - lo - 1) div 2"
  have ord: "cmp (xs ! a) (xs ! b) \<le> 0" if "a \<le> b" "b < n" for a b
    using assms that unfolding sorted_by_def sorted_wrt_iff_nth_less by (cases "a = b") (auto simp: cmp_refl)
  show ?case
  proof (cases "lo < hi")
    case False
    have "0 < cmp p (xs ! i) \<or> cmp p (xs ! i) < 0" if "i < n" for i
      using less.prems(3,4) False that by (cases "i < lo") auto
    then have "\<forall>i<n. cmp p (xs ! i) \<noteq> 0" by force
    then show ?thesis using False by (subst binary_search.simps) (simp add: first_index_def)
  next
    case True
    then have m: "lo \<le> mid" "mid < hi" "mid < n" using less.prems(2) by (auto simp: mid_def)
    have e: "binary_search (cmp p) xs lo hi =
        (if 0 < cmp p (xs ! mid) then binary_search (cmp p) xs (mid + 1) hi
         else if cmp p (xs ! mid) < 0 then binary_search (cmp p) xs lo mid
         else if hi - lo = 1 then Some mid
         else binary_search (cmp p) xs lo (mid + 1))"
      using True by (subst binary_search.simps) (simp add: Let_def mid_def)
    consider (low) "0 < cmp p (xs ! mid)" | (high) "cmp p (xs ! mid) < 0" | (match) "cmp p (xs ! mid) = 0" by linarith
    then show ?thesis
    proof cases
      case low
      have "0 < cmp p (xs ! i)" if "i < mid + 1" for i
        using ord [of i mid] that low m cmp_le_less_trans cmp_neg_iff by (metis Suc_eq_plus1 less_Suc_eq_le)
      moreover have "lo < hi \<and> cmp p (xs ! (hi - 1)) = 0 \<Longrightarrow> mid + 1 < hi"
        using low m by (cases "mid = hi - 1") auto
      moreover have "binary_search (cmp p) xs lo hi = binary_search (cmp p) xs (mid + 1) hi" using e low by simp
      ultimately show ?thesis using m less.hyps [of hi "mid + 1"] less.prems by auto
    next
      case high
      have "cmp p (xs ! i) < 0" if "mid \<le> i \<and> i < n" for i
        using ord [of mid i] that high cmp_less_trans by blast
      moreover have "binary_search (cmp p) xs lo hi = binary_search (cmp p) xs lo mid" using e high by simp
      ultimately show ?thesis using m less.hyps [of mid lo] less.prems by simp
    next
      case match
      show ?thesis
      proof (cases "hi - lo = 1")
        case True
        then have "mid = lo" using m by simp
        then show ?thesis unfolding e using match True less.prems(3) m by (force simp: first_index_def)
      next
        case False
        then have "mid + 1 < hi" using \<open>lo < hi\<close> unfolding mid_def by linarith
        moreover have "binary_search (cmp p) xs lo hi = binary_search (cmp p) xs lo (mid + 1)"
          using e match False by simp
        ultimately show ?thesis using match m less.hyps [of "mid + 1" lo] less.prems by simp
      qed
    qed
  qed
qed

theorem binary_search_eq_linear:
  "sorted_by cmp (take n xs) \<Longrightarrow> n \<le> length xs \<Longrightarrow>
     binary_search (cmp p) xs 0 n = linear_search (\<lambda>x. cmp p x = 0) xs 0 n"
  by (rule first_index_unique [OF binary_search_first first_index_linear]) auto

end

end
