(* ===== verification/Stack.thy ===== *)
theory Stack
  imports Heap_Sort
begin

text \<open>
  The pointer stacks of \<^verbatim>\<open>crypto/stack/stack.c\<close>: a growing array with an optional comparison
  function and a flag that says that the elements are in its order.

  A \<^verbatim>\<open>void *\<close> is an \<open>'a option\<close>, \<open>None\<close> being \<^verbatim>\<open>NULL\<close> and \<open>'a\<close> the addresses of objects; a
  comparison function is a value of \<open>'f\<close>, called through \<open>call_cmp_func\<close> as in the code.  The
  results of the allocator are arguments: for \<^verbatim>\<open>OPENSSL_realloc\<close> either \<open>None\<close> or the contents of
  the slots added, which are arbitrary.  Sizes are \<open>nat\<close>, with the wrap-around of \<^verbatim>\<open>size_t\<close> written
  out where the code computes them.
\<close>

type_synonym 'a ptr = "'a option"
type_synonym 'a slots = "(nat \<Rightarrow> 'a ptr) option"

record ('a, 'f) stack =
  st_num :: nat
  st_data :: "'a ptr list"
  st_sorted :: bool
  st_num_alloc :: nat
  st_comp :: "'f option"

definition kMinSize :: nat where
  "kMinSize = 4"

definition sk_INT_MAX :: nat where
  "sk_INT_MAX = 2 ^ 31 - 1"

subsection \<open>Creation and access\<close>

definition OPENSSL_sk_new :: "bool \<Rightarrow> bool \<Rightarrow> 'f option \<Rightarrow> ('a, 'f) stack option" where
  "OPENSSL_sk_new stack_allocated data_allocated cmp =
     (if \<not> stack_allocated then None
      else if \<not> data_allocated then None
      else Some \<lparr>st_num = 0, st_data = replicate kMinSize None, st_sorted = False,
                 st_num_alloc = kMinSize, st_comp = cmp\<rparr>)"

definition OPENSSL_sk_new_null :: "bool \<Rightarrow> bool \<Rightarrow> ('a, 'f) stack option" where
  "OPENSSL_sk_new_null stack_allocated data_allocated = OPENSSL_sk_new stack_allocated data_allocated None"

fun OPENSSL_sk_num :: "('a, 'f) stack option \<Rightarrow> nat" where
  "OPENSSL_sk_num None = 0"
| "OPENSSL_sk_num (Some sk) = st_num sk"

fun OPENSSL_sk_zero :: "('a, 'f) stack option \<Rightarrow> ('a, 'f) stack option" where
  "OPENSSL_sk_zero None = None"
| "OPENSSL_sk_zero (Some sk) =
     Some (if st_num sk = 0 then sk
           else sk\<lparr>st_data := replicate (st_num sk) None @ drop (st_num sk) (st_data sk),
                   st_num := 0, st_sorted := False\<rparr>)"

fun OPENSSL_sk_value :: "('a, 'f) stack option \<Rightarrow> nat \<Rightarrow> 'a ptr" where
  "OPENSSL_sk_value None i = None"
| "OPENSSL_sk_value (Some sk) i = (if st_num sk \<le> i then None else st_data sk ! i)"

fun OPENSSL_sk_set :: "('a, 'f) stack option \<Rightarrow> nat \<Rightarrow> 'a ptr \<Rightarrow> 'a ptr \<times> ('a, 'f) stack option" where
  "OPENSSL_sk_set None i value = (None, None)"
| "OPENSSL_sk_set (Some sk) i value =
     (if st_num sk \<le> i then (None, Some sk) else (value, Some (sk\<lparr>st_data := (st_data sk)[i := value]\<rparr>)))"

fun nonnull :: "'a ptr list \<Rightarrow> 'a list" where
  "nonnull [] = []"
| "nonnull (x # xs) = (case x of None \<Rightarrow> nonnull xs | Some p \<Rightarrow> p # nonnull xs)"

text \<open>The pointers \<^verbatim>\<open>free_func\<close> is called with, in order, before the stack is freed.\<close>

fun OPENSSL_sk_pop_free_ex :: "('a, 'f) stack option \<Rightarrow> 'a list" where
  "OPENSSL_sk_pop_free_ex None = []"
| "OPENSSL_sk_pop_free_ex (Some sk) = nonnull (take (st_num sk) (st_data sk))"

subsection \<open>Insertion and deletion\<close>

text \<open>\<^verbatim>\<open>OPENSSL_memmove\<close> of \<open>n\<close> slots from index \<open>s\<close> to index \<open>d\<close>.\<close>

definition slots_memmove :: "nat \<Rightarrow> nat \<Rightarrow> nat \<Rightarrow> 'a list \<Rightarrow> 'a list" where
  "slots_memmove d s n xs = take d xs @ take n (drop s xs) @ drop (d + n) xs"

definition sk_grow :: "'a slots \<Rightarrow> ('a, 'f) stack \<Rightarrow> ('a, 'f) stack option" where
  "sk_grow fresh sk =
     (if st_num_alloc sk \<le> st_num sk + 1 then
        let new_alloc = (st_num_alloc sk * 2) mod 2 ^ 64;
            alloc_size = (new_alloc * 8) mod 2 ^ 64;
            overflow = (new_alloc < st_num_alloc sk \<or> alloc_size div 8 \<noteq> new_alloc);
            new_alloc = (if overflow then (st_num_alloc sk + 1) mod 2 ^ 64 else new_alloc);
            alloc_size = (if overflow then (new_alloc * 8) mod 2 ^ 64 else alloc_size)
        in if new_alloc < st_num_alloc sk \<or> alloc_size div 8 \<noteq> new_alloc then None
           else case fresh of
             None \<Rightarrow> None
           | Some junk \<Rightarrow> Some (sk\<lparr>st_data := st_data sk @ map junk [st_num_alloc sk ..< new_alloc],
                                   st_num_alloc := new_alloc\<rparr>)
      else Some sk)"

fun OPENSSL_sk_insert ::
  "'a slots \<Rightarrow> ('a, 'f) stack option \<Rightarrow> 'a ptr \<Rightarrow> nat \<Rightarrow> nat \<times> ('a, 'f) stack option" where
  "OPENSSL_sk_insert fresh None p idx = (0, None)"
| "OPENSSL_sk_insert fresh (Some sk) p idx =
     (if sk_INT_MAX \<le> st_num sk then (0, Some sk)
      else case sk_grow fresh sk of
        None \<Rightarrow> (0, Some sk)
      | Some sk \<Rightarrow>
          let data = (if st_num sk \<le> idx then (st_data sk)[st_num sk := p]
                      else (slots_memmove (idx + 1) idx (st_num sk - idx) (st_data sk))[idx := p])
          in (st_num sk + 1, Some (sk\<lparr>st_data := data, st_num := st_num sk + 1, st_sorted := False\<rparr>)))"

fun OPENSSL_sk_delete :: "('a, 'f) stack option \<Rightarrow> nat \<Rightarrow> 'a ptr \<times> ('a, 'f) stack option" where
  "OPENSSL_sk_delete None idx = (None, None)"
| "OPENSSL_sk_delete (Some sk) idx =
     (if st_num sk \<le> idx then (None, Some sk)
      else let ret = st_data sk ! idx;
               data = (if idx \<noteq> st_num sk - 1
                       then slots_memmove idx (idx + 1) (st_num sk - idx - 1) (st_data sk) else st_data sk)
           in (ret, Some (sk\<lparr>st_data := data, st_num := st_num sk - 1\<rparr>)))"

fun OPENSSL_sk_delete_ptr ::
  "('a, 'f) stack option \<Rightarrow> 'a ptr \<Rightarrow> 'a ptr \<times> ('a, 'f) stack option" where
  "OPENSSL_sk_delete_ptr None p = (None, None)"
| "OPENSSL_sk_delete_ptr (Some sk) p =
     (case linear_search (\<lambda>x. x = p) (st_data sk) 0 (st_num sk) of
        None \<Rightarrow> (None, Some sk)
      | Some i \<Rightarrow> OPENSSL_sk_delete (Some sk) i)"

text \<open>The callback of \<^verbatim>\<open>OPENSSL_sk_delete_if\<close> may change what its \<open>data\<close> argument points to: a state.\<close>

function delete_if_loop ::
  "('a ptr \<Rightarrow> 's \<Rightarrow> bool \<times> 's) \<Rightarrow> nat \<Rightarrow> nat \<Rightarrow> nat \<Rightarrow> 'a ptr list \<Rightarrow> 's \<Rightarrow> nat \<times> 'a ptr list \<times> 's" where
  "delete_if_loop func new_num i num data s =
     (if i < num then
        (case func (data ! i) s of
           (True, s) \<Rightarrow> delete_if_loop func new_num (i + 1) num data s
         | (False, s) \<Rightarrow> delete_if_loop func (new_num + 1) (i + 1) num (data[new_num := data ! i]) s)
      else (new_num, data, s))"
  by auto
termination by (relation "measure (\<lambda>(func, new_num, i, num, data, s). num - i)") auto

declare delete_if_loop.simps [simp del]

fun OPENSSL_sk_delete_if ::
  "('a ptr \<Rightarrow> 's \<Rightarrow> bool \<times> 's) \<Rightarrow> ('a, 'f) stack option \<Rightarrow> 's \<Rightarrow> ('a, 'f) stack option \<times> 's" where
  "OPENSSL_sk_delete_if func None s = (None, s)"
| "OPENSSL_sk_delete_if func (Some sk) s =
     (let (new_num, data, s) = delete_if_loop func 0 0 (st_num sk) (st_data sk) s
      in (Some (sk\<lparr>st_data := data, st_num := new_num\<rparr>), s))"

fun OPENSSL_sk_shift :: "('a, 'f) stack option \<Rightarrow> 'a ptr \<times> ('a, 'f) stack option" where
  "OPENSSL_sk_shift None = (None, None)"
| "OPENSSL_sk_shift (Some sk) = (if st_num sk = 0 then (None, Some sk) else OPENSSL_sk_delete (Some sk) 0)"

text \<open>\<open>sk\<close> is not tested before \<^verbatim>\<open>sk->num\<close> is read: the caller passes a stack.\<close>

definition OPENSSL_sk_push ::
  "'a slots \<Rightarrow> ('a, 'f) stack \<Rightarrow> 'a ptr \<Rightarrow> nat \<times> ('a, 'f) stack option" where
  "OPENSSL_sk_push fresh sk p = OPENSSL_sk_insert fresh (Some sk) p (st_num sk)"

fun OPENSSL_sk_pop :: "('a, 'f) stack option \<Rightarrow> 'a ptr \<times> ('a, 'f) stack option" where
  "OPENSSL_sk_pop None = (None, None)"
| "OPENSSL_sk_pop (Some sk) =
     (if st_num sk = 0 then (None, Some sk) else OPENSSL_sk_delete (Some sk) (st_num sk - 1))"

subsection \<open>Order\<close>

fun OPENSSL_sk_is_sorted :: "('a, 'f) stack option \<Rightarrow> bool" where
  "OPENSSL_sk_is_sorted None = True"
| "OPENSSL_sk_is_sorted (Some sk) \<longleftrightarrow> st_sorted sk \<or> st_comp sk \<noteq> None \<and> st_num sk < 2"

text \<open>The index stored in \<^verbatim>\<open>*out_index\<close> when 1 is returned.\<close>

fun OPENSSL_sk_find ::
  "('f \<Rightarrow> 'a ptr \<Rightarrow> 'a ptr \<Rightarrow> int) \<Rightarrow> ('a, 'f) stack option \<Rightarrow> 'a ptr \<Rightarrow> nat option" where
  "OPENSSL_sk_find call_cmp_func None p = None"
| "OPENSSL_sk_find call_cmp_func (Some sk) p =
     (case st_comp sk of
        None \<Rightarrow> linear_search (\<lambda>x. x = p) (st_data sk) 0 (st_num sk)
      | Some cmp \<Rightarrow>
          if p = None then None
          else if \<not> OPENSSL_sk_is_sorted (Some sk)
          then linear_search (\<lambda>x. call_cmp_func cmp p x = 0) (st_data sk) 0 (st_num sk)
          else binary_search (call_cmp_func cmp p) (st_data sk) 0 (st_num sk))"

fun OPENSSL_sk_sort ::
  "('f \<Rightarrow> 'a ptr \<Rightarrow> 'a ptr \<Rightarrow> int) \<Rightarrow> ('a, 'f) stack option \<Rightarrow> ('a, 'f) stack option" where
  "OPENSSL_sk_sort call_cmp_func None = None"
| "OPENSSL_sk_sort call_cmp_func (Some sk) =
     Some (case st_comp sk of
        None \<Rightarrow> sk
      | Some cmp \<Rightarrow>
          if st_sorted sk then sk
          else sk\<lparr>st_data := heap_sort (call_cmp_func cmp) (st_num sk) (st_data sk), st_sorted := True\<rparr>)"

definition OPENSSL_sk_set_cmp_func ::
  "('a, 'f) stack \<Rightarrow> 'f option \<Rightarrow> 'f option \<times> ('a, 'f) stack" where
  "OPENSSL_sk_set_cmp_func sk cmp =
     (let old = st_comp sk;
          sk = (if st_comp sk \<noteq> cmp then sk\<lparr>st_sorted := False\<rparr> else sk)
      in (old, sk\<lparr>st_comp := cmp\<rparr>))"

subsection \<open>Copies\<close>

fun OPENSSL_sk_dup :: "bool \<Rightarrow> bool \<Rightarrow> ('a, 'f) stack option \<Rightarrow> ('a, 'f) stack option" where
  "OPENSSL_sk_dup stack_allocated data_allocated None = None"
| "OPENSSL_sk_dup stack_allocated data_allocated (Some sk) =
     (if \<not> stack_allocated then None
      else if \<not> data_allocated then None
      else Some \<lparr>st_num = st_num sk, st_data = take (st_num_alloc sk) (st_data sk), st_sorted = st_sorted sk,
                 st_num_alloc = st_num_alloc sk, st_comp = st_comp sk\<rparr>)"

text \<open>
  \<open>copy_func\<close> works on an arbitrary state and gives \<open>None\<close> when it fails.  The result: the array
  with the copies or \<open>None\<close>, the pointers freed on failure, the state.
\<close>

function deep_copy_loop ::
  "('a \<Rightarrow> 's \<Rightarrow> 'a ptr \<times> 's) \<Rightarrow> nat \<Rightarrow> nat \<Rightarrow> 'a ptr list \<Rightarrow> 's \<Rightarrow> 'a ptr list option \<times> 'a list \<times> 's" where
  "deep_copy_loop copy_func i num data s =
     (if i < num then
        (case data ! i of
           None \<Rightarrow> deep_copy_loop copy_func (i + 1) num data s
         | Some p \<Rightarrow>
             (case copy_func p s of
                (None, s) \<Rightarrow> (None, nonnull (take i data), s)
              | (Some q, s) \<Rightarrow> deep_copy_loop copy_func (i + 1) num (data[i := Some q]) s))
      else (Some data, [], s))"
  by auto
termination by (relation "measure (\<lambda>(copy_func, i, num, data, s). num - i)") auto

declare deep_copy_loop.simps [simp del]

definition OPENSSL_sk_deep_copy ::
  "bool \<Rightarrow> bool \<Rightarrow> ('a \<Rightarrow> 's \<Rightarrow> 'a ptr \<times> 's) \<Rightarrow> ('a, 'f) stack option \<Rightarrow> 's
     \<Rightarrow> ('a, 'f) stack option \<times> 'a list \<times> 's" where
  "OPENSSL_sk_deep_copy stack_allocated data_allocated copy_func sk s =
     (case OPENSSL_sk_dup stack_allocated data_allocated sk of
        None \<Rightarrow> (None, [], s)
      | Some ret \<Rightarrow>
          (case deep_copy_loop copy_func 0 (st_num ret) (st_data ret) s of
             (None, freed, s) \<Rightarrow> (None, freed, s)
           | (Some data, freed, s) \<Rightarrow> (Some (ret\<lparr>st_data := data\<rparr>), freed, s)))"

end
