(* ===== verification/Stack_Props.thy ===== *)
theory Stack_Props
  imports Stack
begin

text \<open>
  What the stack promises: on the list of its elements every operation is the list operation one
  expects, the array always has room, the flag \<^verbatim>\<open>sorted\<close> is true of the order in every reachable
  state, and \<^verbatim>\<open>OPENSSL_sk_find\<close> finds the first match whichever search it uses.
\<close>

definition sk_elems :: "('a, 'f) stack \<Rightarrow> 'a ptr list" where
  "sk_elems sk = take (st_num sk) (st_data sk)"

text \<open>The invariant of the array.  The capacity never comes near the overflow the code checks for.\<close>

definition sk_ok :: "('a, 'f) stack \<Rightarrow> bool" where
  "sk_ok sk \<longleftrightarrow> length (st_data sk) = st_num_alloc sk \<and> st_num sk < st_num_alloc sk
     \<and> st_num sk \<le> sk_INT_MAX \<and> st_num_alloc sk \<le> 2 ^ 32"

lemma length_sk_elems: "sk_ok sk \<Longrightarrow> length (sk_elems sk) = st_num sk"
  by (simp add: sk_ok_def sk_elems_def)

lemma sk_elems_nth: "i < st_num sk \<Longrightarrow> sk_elems sk ! i = st_data sk ! i"
  by (simp add: sk_elems_def)

lemma sk_ok_same:
  assumes "sk_ok sk" "length data = st_num_alloc sk" "n \<le> st_num sk"
  shows "sk_ok (sk\<lparr>st_data := data, st_num := n\<rparr>)" "sk_ok (sk\<lparr>st_data := data, st_num := n, st_sorted := b\<rparr>)"
    "sk_ok (sk\<lparr>st_data := data\<rparr>)" "sk_ok (sk\<lparr>st_data := data, st_sorted := b\<rparr>)"
  using assms by (auto simp: sk_ok_def)

subsection \<open>Insertion and deletion\<close>

lemma sk_grow_small:
  assumes "st_num_alloc sk \<le> st_num sk + 1" "st_num_alloc sk \<le> 2 ^ 32"
  shows "sk_grow fresh sk =
    (case fresh of None \<Rightarrow> None
     | Some junk \<Rightarrow> Some (sk\<lparr>st_data := st_data sk @ map junk [st_num_alloc sk ..< st_num_alloc sk * 2],
                             st_num_alloc := st_num_alloc sk * 2\<rparr>))"
  using assms by (simp add: sk_grow_def Let_def)

lemma sk_grow_ok:
  assumes "sk_ok sk" "st_num sk < sk_INT_MAX" "sk_grow fresh sk = Some sk'"
  shows "length (st_data sk') = st_num_alloc sk'" "st_num sk + 1 < st_num_alloc sk'" "st_num_alloc sk' \<le> 2 ^ 32"
    "st_num sk' = st_num sk" "st_comp sk' = st_comp sk" "take (st_num sk) (st_data sk') = sk_elems sk"
proof -
  have "length (st_data sk') = st_num_alloc sk' \<and> st_num sk + 1 < st_num_alloc sk' \<and> st_num_alloc sk' \<le> 2 ^ 32
    \<and> st_num sk' = st_num sk \<and> st_comp sk' = st_comp sk \<and> take (st_num sk) (st_data sk') = sk_elems sk"
  proof (cases "st_num_alloc sk \<le> st_num sk + 1")
    case True
    with assms show ?thesis
      by (auto simp: sk_grow_small sk_ok_def sk_elems_def sk_INT_MAX_def split: option.splits)
  next
    case False
    with assms show ?thesis by (auto simp: sk_grow_def sk_ok_def sk_elems_def)
  qed
  then show "length (st_data sk') = st_num_alloc sk'" "st_num sk + 1 < st_num_alloc sk'" "st_num_alloc sk' \<le> 2 ^ 32"
    "st_num sk' = st_num sk" "st_comp sk' = st_comp sk" "take (st_num sk) (st_data sk') = sk_elems sk"
    by auto
qed

lemma take_slots_insert:
  assumes "n < length xs" "i \<le> n"
  shows "take (n + 1) (if n \<le> i then xs[n := p] else (slots_memmove (i + 1) i (n - i) xs)[i := p])
       = take i (take n xs) @ p # drop i (take n xs)"
proof (cases "n \<le> i")
  case True
  with assms have "i = n" by simp
  then show ?thesis using assms(1) by (simp add: take_Suc_conv_app_nth)
next
  case False
  then have "(slots_memmove (i + 1) i (n - i) xs)[i := p] = take i xs @ p # take (n - i) (drop i xs) @ drop (n + 1) xs"
    using assms(1) by (simp add: slots_memmove_def list_update_append take_Suc_conv_app_nth)
  then show ?thesis using False assms(1) by (simp add: min_def drop_take Suc_diff_le)
qed

lemma length_slots_memmove:
  "s + n \<le> length xs \<Longrightarrow> d + n \<le> length xs \<Longrightarrow> length (slots_memmove d s n xs) = length xs"
  by (simp add: slots_memmove_def)

lemma sk_insert_elems:
  assumes ok: "sk_ok sk" and r: "OPENSSL_sk_insert fresh (Some sk) p i = (r, Some sk')"
  shows "sk_ok sk'"
    and "if r = 0 then sk' = sk else r = length (sk_elems sk) + 1 \<and> \<not> st_sorted sk' \<and> st_comp sk' = st_comp sk
      \<and> sk_elems sk' = take i (sk_elems sk) @ p # drop i (sk_elems sk)"
proof -
  have "sk_ok sk' \<and> (if r = 0 then sk' = sk else r = length (sk_elems sk) + 1 \<and> \<not> st_sorted sk'
      \<and> st_comp sk' = st_comp sk \<and> sk_elems sk' = take i (sk_elems sk) @ p # drop i (sk_elems sk))"
  proof (cases "st_num sk < sk_INT_MAX \<and> sk_grow fresh sk \<noteq> None")
    case False
    with r ok show ?thesis by (auto split: if_splits)
  next
    case True
    then obtain gk where g: "sk_grow fresh sk = Some gk" by blast
    note gk = sk_grow_ok [OF ok conjunct1 [OF True] g]
    let ?n = "st_num sk"
    let ?data = "if ?n \<le> i then (st_data gk)[?n := p] else (slots_memmove (i + 1) i (?n - i) (st_data gk))[i := p]"
    have e: "r = ?n + 1" "sk' = gk\<lparr>st_data := ?data, st_num := ?n + 1, st_sorted := False\<rparr>"
      using r True g gk(4) by (auto simp: Let_def)
    have "?data = (if ?n \<le> min i ?n then (st_data gk)[?n := p]
        else (slots_memmove (min i ?n + 1) (min i ?n) (?n - min i ?n) (st_data gk))[min i ?n := p])"
      by (simp add: min_def)
    then have "take (?n + 1) ?data = take (min i ?n) (sk_elems sk) @ p # drop (min i ?n) (sk_elems sk)"
      using take_slots_insert [of ?n "st_data gk" "min i ?n" p] gk by simp
    then have "take (?n + 1) ?data = take i (sk_elems sk) @ p # drop i (sk_elems sk)"
      using length_sk_elems [OF ok] by (simp add: min_def split: if_splits)
    moreover have "sk_ok sk'" unfolding e(2) sk_ok_def using gk True
      by (auto simp: length_slots_memmove sk_INT_MAX_def)
    ultimately show ?thesis using e gk(5) length_sk_elems [OF ok] by (simp add: sk_elems_def)
  qed
  then show "sk_ok sk'"
    "if r = 0 then sk' = sk else r = length (sk_elems sk) + 1 \<and> \<not> st_sorted sk' \<and> st_comp sk' = st_comp sk
      \<and> sk_elems sk' = take i (sk_elems sk) @ p # drop i (sk_elems sk)" by auto
qed


text \<open>Without allocation failures an insertion below \<^verbatim>\<open>INT_MAX\<close> elements succeeds.\<close>

lemma sk_delete_elems:
  assumes ok: "sk_ok sk" and i: "i < length (sk_elems sk)"
  obtains sk' where "OPENSSL_sk_delete (Some sk) i = (sk_elems sk ! i, Some sk')" "sk_ok sk'"
    "sk_elems sk' = take i (sk_elems sk) @ drop (Suc i) (sk_elems sk)"
    "st_sorted sk' = st_sorted sk" "st_comp sk' = st_comp sk"
proof -
  let ?n = "st_num sk"
  let ?data = "if i \<noteq> ?n - 1 then slots_memmove i (i + 1) (?n - i - 1) (st_data sk) else st_data sk"
  let ?sk = "sk\<lparr>st_data := ?data, st_num := ?n - 1\<rparr>"
  have n: "i < ?n" "?n < length (st_data sk)" using ok i length_sk_elems [OF ok] by (auto simp: sk_ok_def)
  have "take (?n - 1) ?data = take i (take ?n (st_data sk)) @ drop (Suc i) (take ?n (st_data sk))"
  proof (cases "i = ?n - 1")
    case True
    then show ?thesis using n by (simp add: min_def)
  next
    case False
    then have "Suc i < ?n" using n by simp
    then show ?thesis using n by (simp add: slots_memmove_def drop_take)
  qed
  then have e: "sk_elems ?sk = take i (sk_elems sk) @ drop (Suc i) (sk_elems sk)" by (simp add: sk_elems_def)
  have o: "sk_ok ?sk" using ok n by (intro sk_ok_same) (auto simp: length_slots_memmove sk_ok_def)
  have d: "OPENSSL_sk_delete (Some sk) i = (sk_elems sk ! i, Some ?sk)"
    using n by (simp add: Let_def sk_elems_nth)
  show thesis by (rule that [OF d o e]) simp_all
qed

lemma sk_delete_beyond: "sk_ok sk \<Longrightarrow> length (sk_elems sk) \<le> i \<Longrightarrow> OPENSSL_sk_delete (Some sk) i = (None, Some sk)"
  by (simp add: length_sk_elems)

lemma linear_search_elems:
  "sk_ok sk \<Longrightarrow> first_index match (sk_elems sk) (st_num sk) (linear_search match (st_data sk) 0 (st_num sk))"
  using first_index_linear [of 0 match "st_data sk" "st_num sk"]
  by (auto simp: first_index_def sk_elems_nth split: option.splits)

lemma remove1_first_index:
  "first_index (\<lambda>x. x = p) xs (length xs) r \<Longrightarrow>
     remove1 p xs = (case r of None \<Rightarrow> xs | Some i \<Rightarrow> take i xs @ drop (Suc i) xs)"
proof (induction xs arbitrary: r)
  case Nil
  then show ?case by (auto simp: first_index_def split: option.splits)
next
  case (Cons x xs)
  show ?case
  proof (cases "x = p")
    case True
    then have "r = Some 0" using Cons.prems
      by (auto simp: first_index_def nth_Cons split: option.splits nat.splits)
    with True show ?thesis by simp
  next
    case False
    show ?thesis
    proof (cases r)
      case None
      with False Cons.prems have "first_index (\<lambda>x. x = p) xs (length xs) None"
        by (auto simp: first_index_def)
      from Cons.IH [OF this] None False show ?thesis by simp
    next
      case (Some i)
      with False Cons.prems obtain j where j: "i = Suc j" by (cases i) (auto simp: first_index_def)
      with Some False Cons.prems have "first_index (\<lambda>x. x = p) xs (length xs) (Some j)"
        by (auto simp: first_index_def)
      from Cons.IH [OF this] Some False j show ?thesis by simp
    qed
  qed
qed

lemma sk_delete_ptr_elems:
  assumes ok: "sk_ok sk"
  obtains sk' where "OPENSSL_sk_delete_ptr (Some sk) p = (if p \<in> set (sk_elems sk) then p else None, Some sk')"
    "sk_ok sk'" "sk_elems sk' = remove1 p (sk_elems sk)" "st_sorted sk' = st_sorted sk" "st_comp sk' = st_comp sk"
proof (cases "linear_search (\<lambda>x. x = p) (st_data sk) 0 (st_num sk)")
  case None
  then have "first_index (\<lambda>x. x = p) (sk_elems sk) (st_num sk) None"
    using linear_search_elems [OF ok, of "\<lambda>x. x = p"] by simp
  then have "p \<notin> set (sk_elems sk)" using length_sk_elems [OF ok]
    by (auto simp: first_index_def in_set_conv_nth)
  then show thesis using None ok by (intro that [of sk]) (auto simp: remove1_idem)
next
  case (Some i)
  then have f: "first_index (\<lambda>x. x = p) (sk_elems sk) (st_num sk) (Some i)"
    using linear_search_elems [OF ok, of "\<lambda>x. x = p"] by simp
  then have i: "i < length (sk_elems sk)" "sk_elems sk ! i = p"
    using length_sk_elems [OF ok] by (auto simp: first_index_def)
  have m: "p \<in> set (sk_elems sk)" using i by (metis nth_mem)
  obtain sk' where sk': "OPENSSL_sk_delete (Some sk) i = (sk_elems sk ! i, Some sk')" "sk_ok sk'"
    "sk_elems sk' = take i (sk_elems sk) @ drop (Suc i) (sk_elems sk)"
    "st_sorted sk' = st_sorted sk" "st_comp sk' = st_comp sk"
    by (rule sk_delete_elems [OF ok i(1)])
  have "remove1 p (sk_elems sk) = sk_elems sk'"
    using remove1_first_index [OF f [folded length_sk_elems [OF ok]]] sk'(3) by simp
  then show thesis using sk' Some i(2) m by (intro that [of sk']) (simp_all del: OPENSSL_sk_delete.simps)
qed

subsection \<open>Conditional deletion\<close>

text \<open>The elements \<open>func\<close> keeps, its state threaded through all calls in order.\<close>

fun keep_loop :: "('a \<Rightarrow> 's \<Rightarrow> bool \<times> 's) \<Rightarrow> 'a list \<Rightarrow> 's \<Rightarrow> 'a list \<times> 's" where
  "keep_loop func [] s = ([], s)"
| "keep_loop func (x # xs) s =
     (let (del, s) = func x s; (ys, s) = keep_loop func xs s in (if del then ys else x # ys, s))"

lemma delete_if_loop_eq:
  "k \<le> i \<Longrightarrow> i \<le> n \<Longrightarrow> n \<le> length data \<Longrightarrow>
     delete_if_loop func k i n data s = (k', data', s') \<Longrightarrow>
     length data' = length data \<and> k' \<le> n \<and>
     take k' data' = take k data @ fst (keep_loop func (drop i (take n data)) s) \<and>
     s' = snd (keep_loop func (drop i (take n data)) s)"
proof (induction "n - i" arbitrary: k i data s rule: less_induct)
  case less
  show ?case
  proof (cases "i < n")
    case False
    then show ?thesis using less.prems by (subst (asm) delete_if_loop.simps) auto
  next
    case True
    have d: "drop i (take n data) = data ! i # drop (Suc i) (take n data)"
      using True less.prems(3) by (metis Cons_nth_drop_Suc length_take min.absorb2 nth_take)
    obtain del s1 where f: "func (data ! i) s = (del, s1)" by force
    have l: "delete_if_loop func k i n data s =
        (if del then delete_if_loop func k (i + 1) n data s1
         else delete_if_loop func (k + 1) (i + 1) n (data[k := data ! i]) s1)"
      using True by (subst delete_if_loop.simps) (simp add: f split: bool.split)
    show ?thesis
    proof (cases del)
      case t: True
      have "length data' = length data \<and> k' \<le> n \<and>
          take k' data' = take k data @ fst (keep_loop func (drop (i + 1) (take n data)) s1) \<and>
          s' = snd (keep_loop func (drop (i + 1) (take n data)) s1)"
        using less.hyps [of "i + 1" k data s1] l t less.prems True by auto
      then show ?thesis using d f t by (simp add: split_beta Let_def)
    next
      case t: False
      let ?data = "data[k := data ! i]"
      have e: "drop (i + 1) (take n ?data) = drop (i + 1) (take n data)" "take (k + 1) ?data = take k data @ [data ! i]"
        using less.prems True by (auto simp: take_update_swap drop_update_cancel take_Suc_conv_app_nth list_update_append)
      have "length data' = length ?data \<and> k' \<le> n \<and>
          take k' data' = take (k + 1) ?data @ fst (keep_loop func (drop (i + 1) (take n ?data)) s1) \<and>
          s' = snd (keep_loop func (drop (i + 1) (take n ?data)) s1)"
        using less.hyps [of "i + 1" "k + 1" ?data s1] l t less.prems True by auto
      then show ?thesis unfolding e using d f t by (simp add: split_beta Let_def)
    qed
  qed
qed

lemma sk_delete_if_elems:
  assumes ok: "sk_ok sk" and r: "OPENSSL_sk_delete_if func (Some sk) s = (Some sk', s')"
  shows "sk_ok sk' \<and> (sk_elems sk', s') = keep_loop func (sk_elems sk) s
    \<and> st_sorted sk' = st_sorted sk \<and> st_comp sk' = st_comp sk"
proof -
  obtain k data' where l: "delete_if_loop func 0 0 (st_num sk) (st_data sk) s = (k, data', s')"
    and e: "sk' = sk\<lparr>st_data := data', st_num := k\<rparr>"
    using r by (auto split: prod.splits)
  have n: "st_num sk \<le> length (st_data sk)" using ok by (simp add: sk_ok_def)
  from delete_if_loop_eq [OF _ _ n l] have p: "length data' = length (st_data sk)" "k \<le> st_num sk"
    "take k data' = fst (keep_loop func (sk_elems sk) s)" "s' = snd (keep_loop func (sk_elems sk) s)"
    by (simp_all add: sk_elems_def)
  moreover have "sk_ok sk'" unfolding e using ok p by (intro sk_ok_same) (auto simp: sk_ok_def)
  ultimately show ?thesis by (simp add: e sk_elems_def)
qed

subsection \<open>Sorting and searching\<close>

lemma sk_sort_elems:
  assumes ok: "sk_ok sk" and f: "st_comp sk = Some f" "comparator (call f)"
    and flag: "st_sorted sk \<longrightarrow> sorted_by (call f) (sk_elems sk)"
  obtains sk' where "OPENSSL_sk_sort call (Some sk) = Some sk'" "sk_ok sk'" "sorted_by (call f) (sk_elems sk')"
    "mset (sk_elems sk') = mset (sk_elems sk)" "st_sorted sk'" "st_comp sk' = st_comp sk"
proof (cases "st_sorted sk")
  case True
  then show thesis using assms by (intro that [of sk]) auto
next
  case False
  let ?data = "heap_sort (call f) (st_num sk) (st_data sk)"
  have n: "st_num sk \<le> length (st_data sk)" "st_num sk < 2 ^ 64"
    using ok by (auto simp: sk_ok_def sk_INT_MAX_def)
  note h = comparator.heap_sort_correct [OF f(2) n]
  show thesis
  proof (rule that)
    show "OPENSSL_sk_sort call (Some sk) = Some (sk\<lparr>st_data := ?data, st_sorted := True\<rparr>)" using False f(1) by simp
    show "sk_ok (sk\<lparr>st_data := ?data, st_sorted := True\<rparr>)"
      using ok h by (intro sk_ok_same) (auto simp: permuted_def sk_ok_def)
  qed (use h f in \<open>auto simp: sk_elems_def permuted_def\<close>)
qed

definition sk_flag_ok :: "('f \<Rightarrow> 'a ptr \<Rightarrow> 'a ptr \<Rightarrow> int) \<Rightarrow> ('a, 'f) stack \<Rightarrow> bool" where
  "sk_flag_ok call sk \<longleftrightarrow> (st_sorted sk \<longrightarrow> (\<exists>f. st_comp sk = Some f \<and> sorted_by (call f) (sk_elems sk)))"



subsection \<open>Reachable stacks\<close>

text \<open>
  One operation of a client, with any arguments, any answers of the allocator and any callbacks;
  \<^verbatim>\<open>OPENSSL_sk_set\<close> and \<^verbatim>\<open>OPENSSL_sk_deep_copy\<close>, which put other elements under the same flag, are
  left out.
\<close>

inductive sk_step ::
  "('f \<Rightarrow> 'a ptr \<Rightarrow> 'a ptr \<Rightarrow> int) \<Rightarrow> ('a ptr \<Rightarrow> 's \<Rightarrow> bool \<times> 's) \<Rightarrow> ('a, 'f) stack \<Rightarrow> ('a, 'f) stack \<Rightarrow> bool"
  for call func where
  insert: "OPENSSL_sk_insert fresh (Some sk) p i = (r, Some sk') \<Longrightarrow> sk_step call func sk sk'"
| push: "OPENSSL_sk_push fresh sk p = (r, Some sk') \<Longrightarrow> sk_step call func sk sk'"
| delete: "OPENSSL_sk_delete (Some sk) i = (q, Some sk') \<Longrightarrow> sk_step call func sk sk'"
| delete_ptr: "OPENSSL_sk_delete_ptr (Some sk) p = (q, Some sk') \<Longrightarrow> sk_step call func sk sk'"
| delete_if: "OPENSSL_sk_delete_if func (Some sk) s = (Some sk', s') \<Longrightarrow> sk_step call func sk sk'"
| shift: "OPENSSL_sk_shift (Some sk) = (q, Some sk') \<Longrightarrow> sk_step call func sk sk'"
| pop: "OPENSSL_sk_pop (Some sk) = (q, Some sk') \<Longrightarrow> sk_step call func sk sk'"
| zero: "OPENSSL_sk_zero (Some sk) = Some sk' \<Longrightarrow> sk_step call func sk sk'"
| sort: "OPENSSL_sk_sort call (Some sk) = Some sk' \<Longrightarrow> sk_step call func sk sk'"
| set_cmp: "OPENSSL_sk_set_cmp_func sk f = (old, sk') \<Longrightarrow> sk_step call func sk sk'"
| dup: "OPENSSL_sk_dup m1 m2 (Some sk) = Some sk' \<Longrightarrow> sk_step call func sk sk'"

inductive sk_reachable ::
  "('f \<Rightarrow> 'a ptr \<Rightarrow> 'a ptr \<Rightarrow> int) \<Rightarrow> ('a ptr \<Rightarrow> 's \<Rightarrow> bool \<times> 's) \<Rightarrow> ('a, 'f) stack \<Rightarrow> bool"
  for call func where
  new: "OPENSSL_sk_new m1 m2 f = Some sk \<Longrightarrow> sk_reachable call func sk"
| step: "sk_reachable call func sk \<Longrightarrow> sk_step call func sk sk' \<Longrightarrow> sk_reachable call func sk'"

lemma sorted_by_delete: "sorted_by cmp xs \<Longrightarrow> sorted_by cmp (take i xs @ drop (Suc i) xs)"
proof (cases "i < length xs")
  case True
  assume "sorted_by cmp xs"
  then have "sorted_by cmp (take i xs @ xs ! i # drop (Suc i) xs)" using True by (simp add: id_take_nth_drop [symmetric])
  then show ?thesis by (auto simp: sorted_by_def sorted_wrt_append)
qed simp

lemma sorted_by_remove1: "sorted_by cmp xs \<Longrightarrow> sorted_by cmp (remove1 p xs)"
  by (induction xs) (auto simp: sorted_by_def dest: notin_set_remove1)

lemma keep_loop_Cons: "fst (keep_loop func (x # xs) s) \<in> {fst (keep_loop func xs (snd (func x s))), x # fst (keep_loop func xs (snd (func x s)))}"
  by (simp add: split_beta Let_def)

lemma keep_loop_subset: "set (fst (keep_loop func xs s)) \<subseteq> set xs"
proof (induction xs arbitrary: s)
  case (Cons x xs)
  from Cons [of "snd (func x s)"] keep_loop_Cons [of func x xs s] show ?case by fastforce
qed simp

lemma sorted_by_keep_loop: "sorted_by cmp xs \<Longrightarrow> sorted_by cmp (fst (keep_loop func xs s))"
proof (induction xs arbitrary: s)
  case (Cons x xs)
  define ys where "ys = fst (keep_loop func xs (snd (func x s)))"
  have "set ys \<subseteq> set xs" "sorted_by cmp ys"
    using Cons keep_loop_subset [of func xs "snd (func x s)"] by (auto simp: ys_def sorted_by_def)
  with Cons.prems have "sorted_by cmp (x # ys)" "sorted_by cmp ys" unfolding sorted_by_def by auto
  with keep_loop_Cons [of func x xs s] show ?case unfolding ys_def by auto
qed simp

lemma sk_delete_keeps:
  assumes "sk_ok sk" "sk_flag_ok call sk" "OPENSSL_sk_delete (Some sk) i = (q, Some sk')"
  shows "sk_ok sk' \<and> sk_flag_ok call sk'"
proof (cases "i < length (sk_elems sk)")
  case True
  from sk_delete_elems [OF assms(1) this] obtain sk'' where s: "OPENSSL_sk_delete (Some sk) i = (sk_elems sk ! i, Some sk'')"
    "sk_ok sk''" "sk_elems sk'' = take i (sk_elems sk) @ drop (Suc i) (sk_elems sk)"
    "st_sorted sk'' = st_sorted sk" "st_comp sk'' = st_comp sk" .
  then have "sk' = sk''" using assms(3) by simp
  then show ?thesis using s assms(2) by (auto simp: sk_flag_ok_def intro: sorted_by_delete)
next
  case False
  then show ?thesis using assms sk_delete_beyond [of sk i] by simp
qed

lemma sk_insert_keeps:
  assumes "sk_ok sk" "sk_flag_ok call sk" "OPENSSL_sk_insert fresh (Some sk) p i = (r, Some sk')"
  shows "sk_ok sk' \<and> sk_flag_ok call sk'"
  using sk_insert_elems [OF assms(1,3)] assms(2) by (auto simp: sk_flag_ok_def split: if_splits)

lemma sk_zero_elems:
  "sk_ok sk \<Longrightarrow> \<exists>sk'. OPENSSL_sk_zero (Some sk) = Some sk' \<and> sk_ok sk' \<and> sk_elems sk' = [] \<and> st_comp sk' = st_comp sk
     \<and> (st_sorted sk' \<longrightarrow> sk' = sk)"
  by (auto simp: sk_elems_def sk_ok_def)

lemma sk_step_keeps:
  assumes "sk_step call func sk sk'" and inv: "sk_ok sk" "sk_flag_ok call sk" and c: "\<And>f. comparator (call f)"
  shows "sk_ok sk' \<and> sk_flag_ok call sk'"
  using assms(1)
proof cases
  case (insert fresh p i r)
  then show ?thesis by (rule sk_insert_keeps [OF inv])
next
  case (push fresh p r)
  then show ?thesis unfolding OPENSSL_sk_push_def by (rule sk_insert_keeps [OF inv])
next
  case (delete i q)
  then show ?thesis by (rule sk_delete_keeps [OF inv])
next
  case (delete_ptr p q)
  from sk_delete_ptr_elems [OF inv(1), of p] obtain sk'' where s:
    "OPENSSL_sk_delete_ptr (Some sk) p = (if p \<in> set (sk_elems sk) then p else None, Some sk'')" "sk_ok sk''"
    "sk_elems sk'' = remove1 p (sk_elems sk)" "st_sorted sk'' = st_sorted sk" "st_comp sk'' = st_comp sk" .
  then have "sk' = sk''" using delete_ptr by simp
  with s inv(2) show ?thesis by (auto simp: sk_flag_ok_def intro: sorted_by_remove1)
next
  case (delete_if s s')
  from sk_delete_if_elems [OF inv(1) this] have "sk_ok sk'" "sk_elems sk' = fst (keep_loop func (sk_elems sk) s)"
    "st_sorted sk' = st_sorted sk" "st_comp sk' = st_comp sk" by (auto simp: prod_eq_iff)
  then show ?thesis using inv(2) by (auto simp: sk_flag_ok_def intro: sorted_by_keep_loop)
next
  case (shift q)
  then show ?thesis using inv sk_delete_keeps [OF inv, of 0 q sk']
    by (simp del: OPENSSL_sk_delete.simps split: if_splits)
next
  case (pop q)
  then show ?thesis using inv sk_delete_keeps [OF inv, of "st_num sk - 1" q sk']
    by (simp del: OPENSSL_sk_delete.simps split: if_splits)
next
  case zero
  from sk_zero_elems [OF inv(1)] zero have "sk_ok sk'" "st_sorted sk' \<longrightarrow> sk' = sk" by auto
  then show ?thesis using inv(2) unfolding sk_flag_ok_def by metis
next
  case sort
  show ?thesis
  proof (cases "st_comp sk")
    case None
    then show ?thesis using sort inv by simp
  next
    case (Some f)
    have "st_sorted sk \<longrightarrow> sorted_by (call f) (sk_elems sk)" using inv(2) Some by (simp add: sk_flag_ok_def)
    from sk_sort_elems [where call = call and sk = sk and f = f, OF inv(1) Some c this] obtain sk'' where "OPENSSL_sk_sort call (Some sk) = Some sk''" "sk_ok sk''"
      "sorted_by (call f) (sk_elems sk'')" "st_comp sk'' = Some f" using Some by metis
    then show ?thesis using sort by (simp add: sk_flag_ok_def)
  qed
next
  case (set_cmp f old)
  then show ?thesis using inv
    by (auto simp: OPENSSL_sk_set_cmp_func_def Let_def sk_ok_def sk_flag_ok_def sk_elems_def split: if_splits)
next
  case (dup m1 m2)
  then show ?thesis using inv by (auto simp: sk_ok_def sk_flag_ok_def sk_elems_def split: if_splits)
qed

lemma sk_reachable_keeps:
  assumes "sk_reachable call func sk" and c: "\<And>f. comparator (call f)"
  shows "sk_ok sk \<and> sk_flag_ok call sk"
  using assms(1)
proof induction
  case (new m1 m2 f sk)
  then show ?case by (auto simp: OPENSSL_sk_new_def sk_ok_def sk_flag_ok_def kMinSize_def sk_INT_MAX_def split: if_splits)
next
  case (step sk sk')
  then show ?case using sk_step_keeps c by blast
qed

subsection \<open>Deep copies\<close>

text \<open>A copy function that also records every copy it has made.\<close>

definition logged :: "('a \<Rightarrow> 's \<Rightarrow> 'a ptr \<times> 's) \<Rightarrow> 'a \<Rightarrow> 'a list \<times> 's \<Rightarrow> 'a ptr \<times> 'a list \<times> 's" where
  "logged copy_func p = (\<lambda>(log, s). let (q, s) = copy_func p s in (q, log @ nonnull [q], s))"

lemma nonnull_append: "nonnull (xs @ ys) = nonnull xs @ nonnull ys"
  by (induction xs) (auto split: option.split)

lemma deep_copy_loop_log:
  "i \<le> n \<Longrightarrow> n \<le> length data \<Longrightarrow> log = nonnull (take i data) \<Longrightarrow>
     deep_copy_loop (logged copy_func) i n data (log, s) = (r, freed, log', s') \<Longrightarrow>
     (r = None \<longrightarrow> freed = log') \<and>
     (\<forall>data'. r = Some data' \<longrightarrow> freed = [] \<and> length data' = length data \<and> nonnull (take n data') = log'
        \<and> (\<forall>j<n. data' ! j = None \<longleftrightarrow> data ! j = None))"
proof (induction "n - i" arbitrary: i data log s rule: less_induct)
  case less
  show ?case
  proof (cases "i < n")
    case False
    then show ?thesis using less.prems by (subst (asm) deep_copy_loop.simps) auto
  next
    case True
    have t: "take (i + 1) data = take i data @ [data ! i]" using True less.prems(2) by (simp add: take_Suc_conv_app_nth)
    show ?thesis
    proof (cases "data ! i")
      case None
      have "deep_copy_loop (logged copy_func) i n data (log, s) = deep_copy_loop (logged copy_func) (i + 1) n data (log, s)"
        using True None by (subst deep_copy_loop.simps) simp
      with less.prems(4) have e: "deep_copy_loop (logged copy_func) (i + 1) n data (log, s) = (r, freed, log', s')" by simp
      have "log = nonnull (take (i + 1) data)" using less.prems(3) t None by (simp add: nonnull_append)
      from less.hyps [OF _ _ less.prems(2) this e] show ?thesis using True by simp
    next
      case (Some p)
      obtain q s1 where q: "copy_func p s = (q, s1)" by force
      show ?thesis
      proof (cases q)
        case None
        have "deep_copy_loop (logged copy_func) i n data (log, s) = (None, nonnull (take i data), log, s1)"
          using True Some None q by (subst deep_copy_loop.simps) (simp add: logged_def)
        with less.prems(4) have "r = None" "freed = nonnull (take i data)" "log' = log" by auto
        then show ?thesis using less.prems(3) by simp
      next
        case q': (Some c)
        let ?data = "data[i := Some c]"
        have "deep_copy_loop (logged copy_func) i n data (log, s)
            = deep_copy_loop (logged copy_func) (i + 1) n ?data (log @ [c], s1)"
          using True Some q' q by (subst deep_copy_loop.simps) (simp add: logged_def)
        with less.prems(4) have e: "deep_copy_loop (logged copy_func) (i + 1) n ?data (log @ [c], s1) = (r, freed, log', s')"
          by simp
        have l: "log @ [c] = nonnull (take (i + 1) ?data)"
          using less.prems(2,3) True by (simp add: take_Suc_conv_app_nth nonnull_append)
        have d: "n \<le> length ?data" using less.prems(2) by simp
        have k: "\<forall>j<n. ?data ! j = None \<longleftrightarrow> data ! j = None"
          using True less.prems(2) Some by (auto simp: nth_list_update)
        from less.hyps [OF _ _ d l e] k show ?thesis using True by simp
      qed
    qed
  qed
qed

subsection \<open>Properties\<close>


text \<open>A comparison function for the witnesses: addresses in order, \<^verbatim>\<open>NULL\<close> first.\<close>

definition addr_cmp :: "unit \<Rightarrow> nat ptr \<Rightarrow> nat ptr \<Rightarrow> int" where
  "addr_cmp f p q = (case p of None \<Rightarrow> 0 | Some n \<Rightarrow> 1 + int n) - (case q of None \<Rightarrow> 0 | Some n \<Rightarrow> 1 + int n)"

lemma comparator_addr_cmp: "comparator (addr_cmp f)"
  by unfold_locales (auto simp: addr_cmp_def sgn_if split: option.splits)




text \<open>A stack with an order, two elements pushed, sorted: \<^verbatim>\<open>OPENSSL_sk_find\<close> finds the second at index 0.\<close>

definition sk12 :: "(nat, unit) stack" where
  "sk12 = \<lparr>st_num = 2, st_data = [Some 1, Some 2, None, None], st_sorted = True, st_num_alloc = 4, st_comp = Some ()\<rparr>"

lemma sk12_reachable: "sk_reachable addr_cmp (\<lambda>_ s. (True, s :: unit)) sk12"
proof -
  let ?r = "sk_reachable addr_cmp (\<lambda>_ s. (True, s :: unit))"
  let ?sk = "\<lambda>n a b s. \<lparr>st_num = n, st_data = [a, b, None, None], st_sorted = s, st_num_alloc = 4, st_comp = Some ()\<rparr>"
  have "?r (?sk 0 None None False)"
    by (rule sk_reachable.new [of True True "Some ()"]) (simp add: OPENSSL_sk_new_def kMinSize_def numeral_eq_Suc)
  then have "?r (?sk 1 (Some 2) None False)"
    by (rule sk_reachable.step, intro sk_step.push [of None _ "Some 2"])
      (simp add: OPENSSL_sk_push_def sk_grow_def sk_INT_MAX_def Let_def)
  then have "?r (?sk 2 (Some 2) (Some 1) False)"
    by (rule sk_reachable.step, intro sk_step.push [of None _ "Some 1"])
      (simp add: OPENSSL_sk_push_def sk_grow_def sk_INT_MAX_def Let_def)
  then show "?r sk12"
    by (rule sk_reachable.step, intro sk_step.sort)
      (simp add: sk12_def heap_sort_def parent_idx_def build_heap.simps down_heap.simps left_idx_def next_idx_def
        swap_def addr_cmp_def Let_def numeral_2_eq_2)
qed


text \<open>
  C34: \<^verbatim>\<open>OPENSSL_sk_sort\<close> on a reachable stack with a comparison function puts the same elements
  into ascending order, sets the flag and is idempotent; without one it does nothing.
\<close>
theorem stack_sort_correct:
  assumes r: "sk_reachable call func sk" and c: "\<And>f. comparator (call f)"
  shows "\<exists>sk'. OPENSSL_sk_sort call (Some sk) = Some sk' \<and> mset (sk_elems sk') = mset (sk_elems sk)
    \<and> OPENSSL_sk_sort call (Some sk') = Some sk'
    \<and> (case st_comp sk of None \<Rightarrow> sk' = sk | Some f \<Rightarrow> st_sorted sk' \<and> sorted_by (call f) (sk_elems sk'))"
proof (cases "st_comp sk")
  case None
  then show ?thesis by simp
next
  case (Some f)
  have ok: "sk_ok sk" "st_sorted sk \<longrightarrow> sorted_by (call f) (sk_elems sk)"
    using sk_reachable_keeps [OF r c] Some by (auto simp: sk_flag_ok_def)
  from sk_sort_elems [where call = call, OF ok(1) Some c ok(2)] obtain sk' where
    s: "OPENSSL_sk_sort call (Some sk) = Some sk'" "sorted_by (call f) (sk_elems sk')"
    "mset (sk_elems sk') = mset (sk_elems sk)" "st_sorted sk'" "st_comp sk' = st_comp sk" .
  then have "OPENSSL_sk_sort call (Some sk') = Some sk'" using Some by simp
  with s Some show ?thesis by auto
qed

theorem stack_sort_correct_witness:
  "\<exists>sk'. OPENSSL_sk_sort addr_cmp (Some sk12) = Some sk' \<and> sorted_by (addr_cmp ()) (sk_elems sk')"
proof -
  have e: "st_comp sk12 = Some ()" by (simp add: sk12_def)
  from stack_sort_correct [OF sk12_reachable comparator_addr_cmp] show ?thesis unfolding e by auto
qed

text \<open>
  C40: \<^verbatim>\<open>OPENSSL_sk_deep_copy\<close> leaks nothing: when a copy fails, exactly the copies made so far are
  freed, each once; when it succeeds nothing is freed, and the new stack holds the copies in order,
  with \<^verbatim>\<open>NULL\<close> where the original has it.
\<close>
theorem stack_deep_copy:
  assumes ok: "sk_ok sk"
    and r: "OPENSSL_sk_deep_copy True True (logged copy_func) (Some sk) ([], s) = (r, freed, log, s')"
  shows "case r of
      None \<Rightarrow> freed = log
    | Some sk' \<Rightarrow> freed = [] \<and> nonnull (sk_elems sk') = log \<and> sk_ok sk'
        \<and> map (\<lambda>x. x = None) (sk_elems sk') = map (\<lambda>x. x = None) (sk_elems sk)"
proof -
  let ?data = "take (st_num_alloc sk) (st_data sk)"
  have d: "?data = st_data sk" "st_num sk \<le> length (st_data sk)" using ok by (simp_all add: sk_ok_def)
  obtain q where l: "deep_copy_loop (logged copy_func) 0 (st_num sk) (st_data sk) ([], s) = (q, freed, log, s')"
    and q: "r = (case q of None \<Rightarrow> None | Some data \<Rightarrow> Some (sk\<lparr>st_data := data\<rparr>))"
    using r d(1) by (auto simp: OPENSSL_sk_deep_copy_def split: prod.splits option.splits)
  from deep_copy_loop_log [OF _ d(2) _ l] have l:
    "q = None \<Longrightarrow> freed = log"
    "q = Some data \<Longrightarrow> freed = [] \<and> length data = length (st_data sk) \<and> nonnull (take (st_num sk) data) = log
       \<and> (\<forall>j < st_num sk. data ! j = None \<longleftrightarrow> st_data sk ! j = None)" for data
    by simp_all
  show ?thesis
  proof (cases q)
    case None
    with l(1) q show ?thesis by simp
  next
    case (Some data)
    note l = l(2) [OF this]
    have "sk_ok (sk\<lparr>st_data := data\<rparr>)" using l ok by (simp add: sk_ok_def)
    moreover have "map (\<lambda>x. x = None) (take (st_num sk) data) = map (\<lambda>x. x = None) (sk_elems sk)"
      using l d(2) by (intro nth_equalityI) (simp_all add: sk_elems_def)
    ultimately show ?thesis using l q Some by (simp add: sk_elems_def)
  qed
qed

definition copy_below_7 :: "nat \<Rightarrow> unit \<Rightarrow> nat ptr \<times> unit" where
  "copy_below_7 p s = (if p < 7 then Some (p + 100) else None, s)"

theorem stack_deep_copy_witness:
  "OPENSSL_sk_deep_copy True True (logged copy_below_7)
     (Some \<lparr>st_num = 3, st_data = [Some 1, Some 2, Some 9, None], st_sorted = False, st_num_alloc = 4,
            st_comp = Some ()\<rparr>) ([], ()) = (None, [101, 102], [101, 102], ())"
proof -
  let ?sk = "\<lparr>st_num = 3, st_data = [Some 1, Some 2, Some 9, None], st_sorted = False, st_num_alloc = 4, st_comp = Some ()\<rparr>"
  have "sk_ok ?sk" by (simp add: sk_ok_def sk_INT_MAX_def)
  moreover have e: "OPENSSL_sk_deep_copy True True (logged copy_below_7) (Some ?sk) ([], ())
      = (None, nonnull [Some 101, Some 102], [101, 102], ())"
    by (simp add: OPENSSL_sk_deep_copy_def deep_copy_loop.simps logged_def copy_below_7_def)
  ultimately show ?thesis using stack_deep_copy [OF _ e] by simp
qed

text \<open>
  \<^verbatim>\<open>OPENSSL_sk_set\<close> leaves the flag \<^verbatim>\<open>sorted\<close> as it is: a pointer stored into a sorted stack can put it
  out of order, and the binary search then misses an element that is there.
\<close>

lemma sk_set_breaks_find:
  "\<exists>sk. OPENSSL_sk_set (Some sk12) 0 (Some 3) = (Some 3, Some sk) \<and> Some 2 \<in> set (sk_elems sk)
    \<and> OPENSSL_sk_find addr_cmp (Some sk) (Some 2) = None"
  by (simp add: sk12_def sk_elems_def binary_search.simps addr_cmp_def)

end
