(* ===== verification/Strings.thy ===== *)
theory Strings
  imports Cbs
begin

text \<open>
  The string helpers of \<^verbatim>\<open>crypto/mem.c\<close>.  A \<^verbatim>\<open>char *\<close> is the list of the bytes from that address to
  the end of the object it points into; \<open>None\<close> as a result stands for a read beyond that end, which
  is undefined in C.  \<^verbatim>\<open>char\<close> is signed on the platforms of the application.
\<close>

definition char_int :: "u8 \<Rightarrow> int" where
  "char_int c = sint c"

text \<open>\<^verbatim>\<open>strlen\<close> of the C library, on an object that contains a NUL.\<close>

definition c_strlen :: "u8 list \<Rightarrow> nat" where
  "c_strlen s = length (takeWhile (\<lambda>c. c \<noteq> 0) s)"

definition c_string :: "u8 list \<Rightarrow> u8 list \<Rightarrow> bool" where
  "c_string str s \<longleftrightarrow> 0 \<notin> set str \<and> (\<exists>rest. s = str @ 0 # rest)"

subsection \<open>Hashing\<close>

definition OPENSSL_hash32 :: "u8 list \<Rightarrow> nat \<Rightarrow> u32" where
  "OPENSSL_hash32 ptr len = foldl (\<lambda>h b. (h XOR ucast b) * 16777619) 2166136261 (take len ptr)"

definition OPENSSL_strhash :: "u8 list \<Rightarrow> u32" where
  "OPENSSL_strhash s = OPENSSL_hash32 s (c_strlen s)"

subsection \<open>Characters\<close>

text \<open>The letters are given by their codes: \<^verbatim>\<open>A\<close> is 65, \<^verbatim>\<open>a\<close> is 97, \<^verbatim>\<open>0\<close> is 48.\<close>

definition OPENSSL_isalpha :: "int \<Rightarrow> bool" where
  "OPENSSL_isalpha c \<longleftrightarrow> 97 \<le> c \<and> c \<le> 122 \<or> 65 \<le> c \<and> c \<le> 90"

definition isdigit_int :: "int \<Rightarrow> bool" where
  "isdigit_int c \<longleftrightarrow> 48 \<le> c \<and> c \<le> 57"

definition OPENSSL_isxdigit :: "int \<Rightarrow> bool" where
  "OPENSSL_isxdigit c \<longleftrightarrow> isdigit_int c \<or> 97 \<le> c \<and> c \<le> 102 \<or> 65 \<le> c \<and> c \<le> 70"

definition OPENSSL_fromxdigit :: "int \<Rightarrow> u8 option" where
  "OPENSSL_fromxdigit c =
     (if isdigit_int c then Some (of_int (c - 48))
      else if 97 \<le> c \<and> c \<le> 102 then Some (of_int (c - 97 + 10))
      else if 65 \<le> c \<and> c \<le> 70 then Some (of_int (c - 65 + 10))
      else None)"

definition OPENSSL_isalnum :: "int \<Rightarrow> bool" where
  "OPENSSL_isalnum c \<longleftrightarrow> OPENSSL_isalpha c \<or> isdigit_int c"

definition OPENSSL_tolower :: "int \<Rightarrow> int" where
  "OPENSSL_tolower c = (if 65 \<le> c \<and> c \<le> 90 then c + (97 - 65) else c)"

definition OPENSSL_isspace :: "int \<Rightarrow> bool" where
  "OPENSSL_isspace c \<longleftrightarrow> c = 9 \<or> c = 10 \<or> c = 11 \<or> c = 12 \<or> c = 13 \<or> c = 32"

subsection \<open>Comparison without regard to case\<close>

fun OPENSSL_strcasecmp :: "u8 list \<Rightarrow> u8 list \<Rightarrow> int option" where
  "OPENSSL_strcasecmp (a # as) (b # bs) =
     (let aa = OPENSSL_tolower (char_int a); bb = OPENSSL_tolower (char_int b) in
      if aa < bb then Some (- 1)
      else if bb < aa then Some 1
      else if aa = 0 then Some 0
      else OPENSSL_strcasecmp as bs)"
| "OPENSSL_strcasecmp a b = None"

fun OPENSSL_strncasecmp :: "u8 list \<Rightarrow> u8 list \<Rightarrow> nat \<Rightarrow> int option" where
  "OPENSSL_strncasecmp a b 0 = Some 0"
| "OPENSSL_strncasecmp (a # as) (b # bs) (Suc n) =
     (let aa = OPENSSL_tolower (char_int a); bb = OPENSSL_tolower (char_int b) in
      if aa < bb then Some (- 1)
      else if bb < aa then Some 1
      else if aa = 0 then Some 0
      else OPENSSL_strncasecmp as bs n)"
| "OPENSSL_strncasecmp a b n = None"

subsection \<open>Lengths and copies\<close>

fun OPENSSL_strnlen :: "u8 list \<Rightarrow> nat \<Rightarrow> nat option" where
  "OPENSSL_strnlen s 0 = Some 0"
| "OPENSSL_strnlen [] (Suc len) = None"
| "OPENSSL_strnlen (c # s) (Suc len) = (if c = 0 then Some 0 else map_option Suc (OPENSSL_strnlen s len))"

definition OPENSSL_memdup :: "bool \<Rightarrow> u8 list \<Rightarrow> nat \<Rightarrow> u8 list option" where
  "OPENSSL_memdup allocated data sz =
     (if sz = 0 then None else if \<not> allocated then None else Some (take sz data))"

definition OPENSSL_strdup :: "bool \<Rightarrow> u8 list option \<Rightarrow> u8 list option" where
  "OPENSSL_strdup allocated s =
     (case s of
        None \<Rightarrow> None
      | Some s \<Rightarrow> let len = c_strlen s + 1 in if \<not> allocated then None else Some (take len s))"

text \<open>The outer \<open>None\<close> is a read out of bounds.  \<open>sz\<close> is a \<^verbatim>\<open>size_t\<close>.\<close>

definition OPENSSL_strndup :: "bool \<Rightarrow> u8 list \<Rightarrow> nat \<Rightarrow> u8 list option option" where
  "OPENSSL_strndup allocated s sz =
     (case OPENSSL_strnlen s sz of
        None \<Rightarrow> None
      | Some sz \<Rightarrow>
          let alloc_size = (sz + 1) mod 2 ^ 64 in
          if alloc_size < sz then Some None
          else if \<not> allocated then Some None
          else Some (Some (take sz s @ [0])))"

definition CBS_strdup :: "bool \<Rightarrow> cbs \<Rightarrow> u8 list option option" where
  "CBS_strdup allocated cbs = OPENSSL_strndup allocated cbs (length cbs)"

text \<open>
  \<^verbatim>\<open>OPENSSL_strlcpy\<close>: the loop gives the bytes copied, what is left of \<open>src\<close> and of \<open>dst_size\<close>.  The
  result is the return value and the destination.
\<close>

fun strlcpy_loop :: "u8 list \<Rightarrow> nat \<Rightarrow> (u8 list \<times> u8 list \<times> nat) option" where
  "strlcpy_loop src dst_size =
     (if 1 < dst_size then
        (case src of
           [] \<Rightarrow> None
         | c # rest \<Rightarrow>
             if c = 0 then Some ([], src, dst_size)
             else (case strlcpy_loop rest (dst_size - 1) of
                     None \<Rightarrow> None
                   | Some (copied, src, dst_size) \<Rightarrow> Some (c # copied, src, dst_size)))
      else Some ([], src, dst_size))"

declare strlcpy_loop.simps [simp del]

definition OPENSSL_strlcpy :: "u8 list \<Rightarrow> u8 list \<Rightarrow> nat \<Rightarrow> (nat \<times> u8 list) option" where
  "OPENSSL_strlcpy dst src dst_size =
     (case strlcpy_loop src dst_size of
        None \<Rightarrow> None
      | Some (copied, src, dst_size) \<Rightarrow>
          let l = length copied;
              written = (if 0 < dst_size then copied @ [0] else copied)
          in if length dst < length written then None
             else Some (l + c_strlen src, written @ drop (length written) dst))"

fun strlcat_skip :: "u8 list \<Rightarrow> nat \<Rightarrow> nat option" where
  "strlcat_skip dst 0 = Some 0"
| "strlcat_skip [] (Suc dst_size) = None"
| "strlcat_skip (c # dst) (Suc dst_size) = (if c = 0 then Some 0 else map_option Suc (strlcat_skip dst dst_size))"

definition OPENSSL_strlcat :: "u8 list \<Rightarrow> u8 list \<Rightarrow> nat \<Rightarrow> (nat \<times> u8 list) option" where
  "OPENSSL_strlcat dst src dst_size =
     (case strlcat_skip dst dst_size of
        None \<Rightarrow> None
      | Some l \<Rightarrow>
          (case OPENSSL_strlcpy (drop l dst) src (dst_size - l) of
             None \<Rightarrow> None
           | Some (r, tail) \<Rightarrow> Some (l + r, take l dst @ tail)))"

subsection \<open>What they do on C strings\<close>

lemma c_strlen_eq: "c_string str s \<Longrightarrow> c_strlen s = length str"
proof -
  assume "c_string str s"
  then obtain rest where "s = str @ 0 # rest" "0 \<notin> set str" by (auto simp: c_string_def)
  then have "takeWhile (\<lambda>c. c \<noteq> 0) s = str" by (induction str arbitrary: s) auto
  then show ?thesis by (simp add: c_strlen_def)
qed

lemma strlcpy_loop_eq:
  "0 \<notin> set str \<Longrightarrow> strlcpy_loop (str @ 0 # rest) n =
     Some (take (n - 1) str, drop (n - 1) str @ 0 # rest, n - length (take (n - 1) str))"
proof (induction str arbitrary: n)
  case Nil
  then show ?case by (subst strlcpy_loop.simps) simp
next
  case (Cons c str)
  show ?case
  proof (cases "1 < n")
    case False
    then have "n - 1 = 0" by simp
    then show ?thesis using False by (subst strlcpy_loop.simps) simp
  next
    case True
    then obtain m where m: "n = Suc (Suc m)" by (cases n; cases "n - 1") auto
    show ?thesis using Cons unfolding m by (subst strlcpy_loop.simps) simp
  qed
qed

lemma strlcpy_eq:
  assumes s: "c_string str src" and d: "n \<le> length dst"
  shows "OPENSSL_strlcpy dst src n =
    Some (length str, if n = 0 then dst else take (n - 1) str @ 0 # drop (Suc (length (take (n - 1) str))) dst)"
proof -
  obtain rest where r: "src = str @ 0 # rest" "0 \<notin> set str" using s by (auto simp: c_string_def)
  then have "c_string (drop (n - 1) str) (drop (n - 1) str @ 0 # rest)"
    by (auto simp: c_string_def dest: in_set_dropD)
  note len = c_strlen_eq [OF this]
  have p: "0 < n \<Longrightarrow> 0 < n - length (take (n - 1) str)" by (auto simp: min_def)
  have w: "length (take (n - 1) str) + 1 \<le> n" if "0 < n" using that by (auto simp: min_def)
  show ?thesis
  proof (cases "n = 0")
    case True
    then show ?thesis using len unfolding OPENSSL_strlcpy_def r(1) strlcpy_loop_eq [OF r(2)] by simp
  next
    case False
    then have "length (take (n - 1) str @ [0]) \<le> length dst" using w d by simp
    moreover have "length (take (n - 1) str) + length (drop (n - 1) str) = length str" by simp
    ultimately show ?thesis using False p len
      unfolding OPENSSL_strlcpy_def r(1) strlcpy_loop_eq [OF r(2)] by (simp add: Let_def not_less)
  qed
qed

lemma strlcat_skip_eq:
  "0 \<notin> set str \<Longrightarrow> n \<le> length str \<or> (\<exists>rest. dst = str @ 0 # rest) \<Longrightarrow> take (length str) dst = str \<Longrightarrow>
     strlcat_skip dst n = Some (min n (length str))"
proof (induction dst n arbitrary: str rule: strlcat_skip.induct)
  case (3 c dst n)
  show ?case
  proof (cases str)
    case Nil
    with 3 show ?thesis by auto
  next
    case (Cons d str')
    with 3 show ?thesis by auto
  qed
qed auto

subsection \<open>Properties\<close>

text \<open>
  \<^verbatim>\<open>OPENSSL_strlcpy\<close> and \<^verbatim>\<open>OPENSSL_strlcat\<close> on NUL-terminated strings never read or write out of
  bounds of a destination of \<open>n\<close> bytes: they store the longest prefix that fits with a NUL, leave the
  bytes behind it alone, and return the length of the string they tried to make.
\<close>
theorem strl_bounded:
  assumes src: "c_string str src" and dst: "c_string old dst" "length old < n" "n \<le> length dst"
  shows "OPENSSL_strlcpy dst src n = Some (length str,
      take (n - 1) str @ 0 # drop (Suc (length (take (n - 1) str))) dst)
    \<and> OPENSSL_strlcat dst src n = Some (length (old @ str),
      take (n - 1) (old @ str) @ 0 # drop (Suc (length (take (n - 1) (old @ str)))) dst)"
proof
  show "OPENSSL_strlcpy dst src n = Some (length str,
      take (n - 1) str @ 0 # drop (Suc (length (take (n - 1) str))) dst)"
    using strlcpy_eq [OF src dst(3)] dst(2) by simp
  obtain rest where o: "dst = old @ 0 # rest" "0 \<notin> set old" using dst(1) by (auto simp: c_string_def)
  then have k: "strlcat_skip dst n = Some (length old)" using strlcat_skip_eq [of old n dst] dst(2) by simp
  define m where "m = n - length old"
  have m: "0 < m" "n - 1 - length old = m - 1" "n = m + length old" using dst(2) by (auto simp: m_def)
  have "OPENSSL_strlcpy (drop (length old) dst) src m = Some (length str,
      take (m - 1) str @ 0 # drop (Suc (length (take (m - 1) str))) (drop (length old) dst))"
    using strlcpy_eq [OF src, of m "drop (length old) dst"] m(1,3) dst(3) by simp
  moreover have "take (n - 1) (old @ str) = old @ take (m - 1) str" using m dst(2) by simp
  moreover have "take (length old) dst = old" by (simp add: o(1))
  ultimately show "OPENSSL_strlcat dst src n = Some (length (old @ str),
      take (n - 1) (old @ str) @ 0 # drop (Suc (length (take (n - 1) (old @ str)))) dst)"
    unfolding OPENSSL_strlcat_def k by (simp add: m_def [symmetric] add.commute)
qed

theorem strl_bounded_witness:
  "OPENSSL_strlcat [0x61, 0x62, 0, 9, 9, 9] [0x63, 0x64, 0x65, 0] 5 = Some (5, [0x61, 0x62, 0x63, 0x64, 0, 9])"
  using strl_bounded [of "[0x63, 0x64, 0x65]" "[0x63, 0x64, 0x65, 0]" "[0x61, 0x62]" "[0x61, 0x62, 0, 9, 9, 9]" 5]
  by (simp add: c_string_def)

end
