(* ===== verification/Lhash.thy ===== *)
theory Lhash
  imports Prelude "HOL-Library.Multiset"
begin

text \<open>
  The chaining hash table of \<^verbatim>\<open>crypto/lhash/lhash.c\<close>.  A chain of items linked by \<^verbatim>\<open>next\<close> is the
  list of the items from its head; the pointer to a \<^verbatim>\<open>next\<close> field that the lookups return is a
  position in the chain, the length of the chain standing for the one that holds \<^verbatim>\<open>NULL\<close>.  Elements
  are non-\<^verbatim>\<open>NULL\<close> pointers of type \<open>'a\<close>.  The answers of the allocator are arguments.
\<close>

record 'a lhash_item =
  item_data :: 'a
  item_hash :: u32

record 'a lhash =
  lh_num_items :: nat
  lh_buckets :: "'a lhash_item list list"
  lh_num_buckets :: nat
  lh_callback_depth :: nat
  lh_comp :: "'a \<Rightarrow> 'a \<Rightarrow> int"
  lh_hash :: "'a \<Rightarrow> u32"

definition kMinNumBuckets :: nat where "kMinNumBuckets = 16"
definition kMaxAverageChainLength :: nat where "kMaxAverageChainLength = 2"
definition kMinAverageChainLength :: nat where "kMinAverageChainLength = 1"
definition lh_UINT_MAX :: nat where "lh_UINT_MAX = 2 ^ 32 - 1"

definition OPENSSL_lh_new ::
  "bool \<Rightarrow> bool \<Rightarrow> ('a \<Rightarrow> u32) \<Rightarrow> ('a \<Rightarrow> 'a \<Rightarrow> int) \<Rightarrow> 'a lhash option" where
  "OPENSSL_lh_new lhash_allocated buckets_allocated hash cmp =
     (if \<not> lhash_allocated then None
      else if \<not> buckets_allocated then None
      else Some \<lparr>lh_num_items = 0, lh_buckets = replicate kMinNumBuckets [], lh_num_buckets = kMinNumBuckets,
                 lh_callback_depth = 0, lh_comp = cmp, lh_hash = hash\<rparr>)"

definition OPENSSL_lh_num_items :: "'a lhash \<Rightarrow> nat" where
  "OPENSSL_lh_num_items lh = lh_num_items lh"

subsection \<open>Lookup\<close>

fun chain_position :: "('a \<Rightarrow> bool) \<Rightarrow> 'a lhash_item list \<Rightarrow> nat" where
  "chain_position match [] = 0"
| "chain_position match (cur # rest) = (if match (item_data cur) then 0 else Suc (chain_position match rest))"

text \<open>The bucket and the position in it.\<close>

definition get_next_ptr_and_hash :: "'a lhash \<Rightarrow> 'a \<Rightarrow> nat \<times> nat \<times> u32" where
  "get_next_ptr_and_hash lh data =
     (let hash = lh_hash lh data; b = unat hash mod lh_num_buckets lh
      in (b, chain_position (\<lambda>cur. lh_comp lh cur data = 0) (lh_buckets lh ! b), hash))"

definition get_next_ptr_by_key :: "'a lhash \<Rightarrow> 'k \<Rightarrow> u32 \<Rightarrow> ('k \<Rightarrow> 'a \<Rightarrow> int) \<Rightarrow> nat \<times> nat" where
  "get_next_ptr_by_key lh key key_hash cmp_key =
     (let b = unat key_hash mod lh_num_buckets lh
      in (b, chain_position (\<lambda>cur. cmp_key key cur = 0) (lh_buckets lh ! b)))"

text \<open>\<^verbatim>\<open>*next_ptr\<close>: the item at the position, or \<^verbatim>\<open>NULL\<close>.\<close>

definition deref :: "'a lhash \<Rightarrow> nat \<Rightarrow> nat \<Rightarrow> 'a lhash_item option" where
  "deref lh b pos = (if pos < length (lh_buckets lh ! b) then Some (lh_buckets lh ! b ! pos) else None)"

definition OPENSSL_lh_retrieve :: "'a lhash \<Rightarrow> 'a \<Rightarrow> 'a option" where
  "OPENSSL_lh_retrieve lh data =
     (case get_next_ptr_and_hash lh data of (b, pos, hash) \<Rightarrow> map_option item_data (deref lh b pos))"

definition OPENSSL_lh_retrieve_key :: "'a lhash \<Rightarrow> 'k \<Rightarrow> u32 \<Rightarrow> ('k \<Rightarrow> 'a \<Rightarrow> int) \<Rightarrow> 'a option" where
  "OPENSSL_lh_retrieve_key lh key key_hash cmp_key =
     (case get_next_ptr_by_key lh key key_hash cmp_key of (b, pos) \<Rightarrow> map_option item_data (deref lh b pos))"

subsection \<open>Resizing\<close>

text \<open>Every item, bucket by bucket and down each chain, is pushed to the head of its new chain.\<close>

definition move_item :: "nat \<Rightarrow> 'a lhash_item list list \<Rightarrow> 'a lhash_item \<Rightarrow> 'a lhash_item list list" where
  "move_item new_num_buckets new_buckets cur =
     (let new_bucket = unat (item_hash cur) mod new_num_buckets
      in new_buckets[new_bucket := cur # new_buckets ! new_bucket])"

definition lh_rebucket :: "bool \<Rightarrow> 'a lhash \<Rightarrow> nat \<Rightarrow> 'a lhash" where
  "lh_rebucket allocated lh new_num_buckets =
     (let alloc_size = (8 * new_num_buckets) mod 2 ^ 64 in
      if alloc_size div 8 \<noteq> new_num_buckets then lh
      else if \<not> allocated then lh
      else lh\<lparr>lh_buckets := foldl (foldl (move_item new_num_buckets))
                              (replicate new_num_buckets []) (lh_buckets lh),
              lh_num_buckets := new_num_buckets\<rparr>)"

definition lh_maybe_resize :: "bool \<Rightarrow> 'a lhash \<Rightarrow> 'a lhash" where
  "lh_maybe_resize allocated lh =
     (if 0 < lh_callback_depth lh then lh
      else let avg_chain_length = lh_num_items lh div lh_num_buckets lh in
        if kMaxAverageChainLength < avg_chain_length then
          let new_num_buckets = (lh_num_buckets lh * 2) mod 2 ^ 64
          in if lh_num_buckets lh < new_num_buckets then lh_rebucket allocated lh new_num_buckets else lh
        else if avg_chain_length < kMinAverageChainLength \<and> kMinNumBuckets < lh_num_buckets lh then
          let new_num_buckets = lh_num_buckets lh div 2;
              new_num_buckets = (if new_num_buckets < kMinNumBuckets then kMinNumBuckets else new_num_buckets)
          in lh_rebucket allocated lh new_num_buckets
        else lh)"

subsection \<open>Insertion and deletion\<close>

text \<open>
  The results are the return value, \<^verbatim>\<open>*old_data\<close> and the table; the first allocation is that of the
  item, the second that of a new bucket array.
\<close>

definition OPENSSL_lh_insert :: "bool \<Rightarrow> bool \<Rightarrow> 'a lhash \<Rightarrow> 'a \<Rightarrow> bool \<times> 'a option \<times> 'a lhash" where
  "OPENSSL_lh_insert item_allocated array_allocated lh data =
     (case get_next_ptr_and_hash lh data of (b, pos, hash) \<Rightarrow>
        let chain = lh_buckets lh ! b in
        (case deref lh b pos of
           Some item \<Rightarrow>
             (True, Some (item_data item),
              lh\<lparr>lh_buckets := (lh_buckets lh)[b := chain[pos := item\<lparr>item_data := data\<rparr>]]\<rparr>)
         | None \<Rightarrow>
             if \<not> item_allocated then (False, None, lh)
             else
               let item = \<lparr>item_data = data, item_hash = hash\<rparr>;
                   lh = lh\<lparr>lh_buckets := (lh_buckets lh)[b := take pos chain @ [item]],
                           lh_num_items := lh_num_items lh + 1\<rparr>
               in (True, None, lh_maybe_resize array_allocated lh)))"

definition OPENSSL_lh_delete :: "bool \<Rightarrow> 'a lhash \<Rightarrow> 'a \<Rightarrow> 'a option \<times> 'a lhash" where
  "OPENSSL_lh_delete array_allocated lh data =
     (case get_next_ptr_and_hash lh data of (b, pos, hash) \<Rightarrow>
        let chain = lh_buckets lh ! b in
        (case deref lh b pos of
           None \<Rightarrow> (None, lh)
         | Some item \<Rightarrow>
             let lh = lh\<lparr>lh_buckets := (lh_buckets lh)[b := take pos chain @ drop (Suc pos) chain],
                         lh_num_items := lh_num_items lh - 1\<rparr>
             in (Some (item_data item), lh_maybe_resize array_allocated lh)))"

subsection \<open>Iteration\<close>

text \<open>
  The callback may change the table.  The item \<^verbatim>\<open>next\<close> is remembered over the call: afterwards the
  loop continues there, which is a use of freed memory, here \<open>None\<close>, if the callback has removed
  it.  The elements of a table are distinct pointers, so the element identifies the item.  The
  loops need not end when the callback adds elements: \<open>None\<close>, too.
\<close>

definition chain_from :: "'a \<Rightarrow> 'a lhash_item list \<Rightarrow> 'a lhash_item list" where
  "chain_from x = dropWhile (\<lambda>item. item_data item \<noteq> x)"

definition chain_head :: "'a lhash_item list \<Rightarrow> 'a option" where
  "chain_head items = (case items of [] \<Rightarrow> None | item # _ \<Rightarrow> Some (item_data item))"

partial_function (option) doall_chain ::
  "('a \<Rightarrow> 'a lhash \<times> 's \<Rightarrow> 'a lhash \<times> 's) \<Rightarrow> nat \<Rightarrow> 'a option \<Rightarrow> 'a lhash \<times> 's \<Rightarrow> ('a lhash \<times> 's) option" where
  "doall_chain func i cur st =
     (case cur of
        None \<Rightarrow> Some st
      | Some data \<Rightarrow>
          (case chain_from data (lh_buckets (fst st) ! i) of
             [] \<Rightarrow> None
           | item # rest \<Rightarrow> doall_chain func i (chain_head rest) (func data st)))"

partial_function (option) doall_buckets ::
  "('a \<Rightarrow> 'a lhash \<times> 's \<Rightarrow> 'a lhash \<times> 's) \<Rightarrow> nat \<Rightarrow> 'a lhash \<times> 's \<Rightarrow> ('a lhash \<times> 's) option" where
  "doall_buckets func i st =
     (if i < lh_num_buckets (fst st) then
        Option.bind (doall_chain func i (chain_head (lh_buckets (fst st) ! i)) st)
          (doall_buckets func (i + 1))
      else Some st)"

declare doall_chain.simps [code]
declare doall_buckets.simps [code]

definition OPENSSL_lh_doall_arg ::
  "bool \<Rightarrow> 'a lhash option \<Rightarrow> ('a \<Rightarrow> 'a lhash \<times> 's \<Rightarrow> 'a lhash \<times> 's) \<Rightarrow> 's \<Rightarrow> ('a lhash option \<times> 's) option" where
  "OPENSSL_lh_doall_arg array_allocated lh func arg =
     (case lh of
        None \<Rightarrow> Some (None, arg)
      | Some lh \<Rightarrow>
          let lh = (if lh_callback_depth lh < lh_UINT_MAX
                    then lh\<lparr>lh_callback_depth := lh_callback_depth lh + 1\<rparr> else lh)
          in (case doall_buckets func 0 (lh, arg) of
                None \<Rightarrow> None
              | Some (lh, arg) \<Rightarrow>
                  let lh = (if lh_callback_depth lh < lh_UINT_MAX
                            then lh\<lparr>lh_callback_depth := lh_callback_depth lh - 1\<rparr> else lh)
                  in Some (Some (lh_maybe_resize array_allocated lh), arg)))"

end
