(* ===== verification/Lhash_Props.thy ===== *)
theory Lhash_Props
  imports Lhash
begin

text \<open>
  The hash table as a map.  The locale \<open>hash_law\<close> states what the table needs of its two
  functions; in it, the invariant of the table, its preservation, and the laws of lookup after
  insertion and deletion are proved once for all instances.
\<close>

definition lh_elems :: "'a lhash \<Rightarrow> 'a multiset" where
  "lh_elems lh = image_mset item_data (mset (concat (lh_buckets lh)))"

text \<open>Every item is in the bucket of its hash.\<close>

definition placed :: "nat \<Rightarrow> 'a lhash_item list list \<Rightarrow> bool" where
  "placed n bs \<longleftrightarrow> length bs = n \<and> (\<forall>b<n. \<forall>item \<in> set (bs ! b). unat (item_hash item) mod n = b)"

text \<open>The invariant of a table with these two functions; no two elements compare equal.\<close>

definition lh_ok :: "('a \<Rightarrow> u32) \<Rightarrow> ('a \<Rightarrow> 'a \<Rightarrow> int) \<Rightarrow> 'a lhash \<Rightarrow> bool" where
  "lh_ok hash cmp lh \<longleftrightarrow> lh_hash lh = hash \<and> lh_comp lh = cmp \<and> kMinNumBuckets \<le> lh_num_buckets lh
     \<and> placed (lh_num_buckets lh) (lh_buckets lh)
     \<and> (\<forall>item \<in># mset (concat (lh_buckets lh)). item_hash item = hash (item_data item))
     \<and> lh_num_items lh = size (lh_elems lh)
     \<and> (\<forall>x \<in># lh_elems lh. \<forall>y \<in># lh_elems lh - {#x#}. cmp y x \<noteq> 0)"

text \<open>Chains have at most two elements on average, and a grown table is at least as full as it has buckets.\<close>

definition lh_loaded :: "'a lhash \<Rightarrow> bool" where
  "lh_loaded lh \<longleftrightarrow> lh_num_items lh < 3 * lh_num_buckets lh
     \<and> (kMinNumBuckets < lh_num_buckets lh \<longrightarrow> lh_num_buckets lh \<le> lh_num_items lh)"

text \<open>
  A callback that may delete the element it is called with and nothing else, as the expiry of
  sessions does: \<open>del\<close> says which, \<open>visit\<close> is its effect on its argument.  \<open>keep_visited\<close> is what is left.
\<close>

definition visitor ::
  "('a \<Rightarrow> 's \<Rightarrow> bool) \<Rightarrow> ('a \<Rightarrow> 's \<Rightarrow> 's) \<Rightarrow> 'a \<Rightarrow> 'a lhash \<times> 's \<Rightarrow> 'a lhash \<times> 's" where
  "visitor del visit d = (\<lambda>(lh, s). (if del d s then snd (OPENSSL_lh_delete True lh d) else lh, visit d s))"

fun keep_visited ::
  "('a \<Rightarrow> 's \<Rightarrow> bool) \<Rightarrow> ('a \<Rightarrow> 's \<Rightarrow> 's) \<Rightarrow> 'a lhash_item list \<Rightarrow> 's \<Rightarrow> 'a lhash_item list \<times> 's" where
  "keep_visited del visit [] s = ([], s)"
| "keep_visited del visit (item # rest) s =
     (let (kept, s') = keep_visited del visit rest (visit (item_data item) s)
      in (if del (item_data item) s then kept else item # kept, s'))"

fun keep_buckets ::
  "('a \<Rightarrow> 's \<Rightarrow> bool) \<Rightarrow> ('a \<Rightarrow> 's \<Rightarrow> 's) \<Rightarrow> 'a lhash_item list list \<Rightarrow> 's \<Rightarrow> 'a lhash_item list list \<times> 's" where
  "keep_buckets del visit [] s = ([], s)"
| "keep_buckets del visit (c # cs) s =
     (let (kept, s) = keep_visited del visit c s; (rest, s) = keep_buckets del visit cs s in (kept # rest, s))"

lemma keep_visited_append:
  "keep_visited del visit (xs @ ys) s =
     (let (kx, s) = keep_visited del visit xs s; (ky, s) = keep_visited del visit ys s in (kx @ ky, s))"
  by (induction xs arbitrary: s) (auto simp: Let_def split_beta)

lemma keep_buckets_concat:
  "concat (fst (keep_buckets del visit bs s)) = fst (keep_visited del visit (concat bs) s)
   \<and> snd (keep_buckets del visit bs s) = snd (keep_visited del visit (concat bs) s)"
  by (induction bs arbitrary: s) (simp_all add: keep_visited_append Let_def split_beta)

lemma keep_visited_state: "snd (keep_visited del visit xs s) = foldl (\<lambda>s item. visit (item_data item) s) s xs"
  by (induction xs arbitrary: s) (auto simp: Let_def split_beta)

subsection \<open>Lists of buckets\<close>

lemma mset_concat_update:
  assumes "b < length bs"
  shows "mset (concat (bs[b := c])) + mset (bs ! b) = mset (concat bs) + mset c"
proof -
  have "mset (concat bs) = mset (concat (take b bs @ bs ! b # drop (Suc b) bs))"
    using assms by (simp add: id_take_nth_drop [symmetric])
  with assms show ?thesis by (simp add: upd_conv_take_nth_drop)
qed

lemma placed_update:
  assumes "placed n bs" "b < n" "\<forall>item \<in> set c. unat (item_hash item) mod n = b"
  shows "placed n (bs[b := c])"
  using assms by (auto simp: placed_def nth_list_update)

lemma mset_concat_item:
  assumes "b < length bs" "pos < length (bs ! b)"
  shows "mset (concat (bs[b := (bs ! b)[pos := y]])) = add_mset y (mset (concat bs) - {#bs ! b ! pos#})"
    and "mset (concat (bs[b := take pos (bs ! b) @ drop (Suc pos) (bs ! b)])) = mset (concat bs) - {#bs ! b ! pos#}"
proof -
  define p where "p = bs ! b ! pos"
  define C where "C = mset (take pos (bs ! b) @ drop (Suc pos) (bs ! b))"
  have c: "mset (bs ! b) = add_mset p C"
    using assms(2) by (subst id_take_nth_drop [of pos "bs ! b"]) (simp_all add: C_def p_def)
  have "mset (concat (bs[b := take pos (bs ! b) @ drop (Suc pos) (bs ! b)])) + add_mset p C = mset (concat bs) + C"
    using mset_concat_update [OF assms(1), of "take pos (bs ! b) @ drop (Suc pos) (bs ! b)"] unfolding c C_def .
  then have r: "add_mset p (mset (concat (bs[b := take pos (bs ! b) @ drop (Suc pos) (bs ! b)]))) = mset (concat bs)"
    by (simp only: union_mset_add_mset_right union_mset_add_mset_left [symmetric] add_right_cancel)
  then show "mset (concat (bs[b := take pos (bs ! b) @ drop (Suc pos) (bs ! b)])) = mset (concat bs) - {#bs ! b ! pos#}"
    unfolding p_def [symmetric] by (metis add_mset_remove_trivial)
  have "mset ((bs ! b)[pos := y]) = add_mset y (mset (bs ! b) - {#p#})"
    using assms(2) by (simp add: mset_update p_def)
  then have "mset ((bs ! b)[pos := y]) = add_mset y C" unfolding c by simp
  then have "mset (concat (bs[b := (bs ! b)[pos := y]])) + add_mset p C = mset (concat bs) + add_mset y C"
    using mset_concat_update [OF assms(1), of "(bs ! b)[pos := y]"] unfolding c by simp
  then have "add_mset p (mset (concat (bs[b := (bs ! b)[pos := y]]))) = add_mset y (mset (concat bs))"
    by (simp only: union_mset_add_mset_right union_mset_add_mset_left [symmetric] add_right_cancel)
  then show "mset (concat (bs[b := (bs ! b)[pos := y]])) = add_mset y (mset (concat bs) - {#bs ! b ! pos#})"
    unfolding p_def [symmetric] r [symmetric] by (metis add_mset_commute add_mset_remove_trivial)
qed

lemma mset_concat_append:
  "b < length bs \<Longrightarrow> mset (concat (bs[b := bs ! b @ [y]])) = add_mset y (mset (concat bs))"
  using mset_concat_update [of b bs "bs ! b @ [y]"] by (simp del: mset_concat)

lemma move_item_placed:
  assumes "placed n bs" "0 < n"
  shows "placed n (move_item n bs cur)" "mset (concat (move_item n bs cur)) = add_mset cur (mset (concat bs))"
proof -
  define b where "b = unat (item_hash cur) mod n"
  have b: "b < n" "length bs = n" using assms by (simp_all add: b_def placed_def)
  have e: "move_item n bs cur = bs[b := cur # bs ! b]" by (simp add: move_item_def b_def Let_def)
  show "placed n (move_item n bs cur)" unfolding e
    using assms b by (intro placed_update) (auto simp: placed_def b_def)
  show "mset (concat (move_item n bs cur)) = add_mset cur (mset (concat bs))"
    using mset_concat_update [of b bs "cur # bs ! b"] b unfolding e by simp
qed

lemma rebucket_placed:
  assumes "0 < n" "placed n bs"
  shows "placed n (foldl (move_item n) bs items)
    \<and> mset (concat (foldl (move_item n) bs items)) = mset (concat bs) + mset items"
  using assms(2)
proof (induction items arbitrary: bs)
  case (Cons cur items)
  note m = move_item_placed [OF Cons.prems assms(1), of cur]
  from Cons.IH [OF m(1)] m(2) show ?case by simp
qed simp

lemma foldl_foldl: "foldl (foldl f) a xss = foldl f a (concat xss)"
  by (induction xss arbitrary: a) auto

subsection \<open>Chains\<close>

lemma chain_position_cases:
  obtains (found) "chain_position match items < length items"
      "match (item_data (items ! chain_position match items))"
  | (missing) "chain_position match items = length items" "\<forall>item \<in> set items. \<not> match (item_data item)"
proof -
  have "chain_position match items < length items \<and> match (item_data (items ! chain_position match items))
    \<or> chain_position match items = length items \<and> (\<forall>item \<in> set items. \<not> match (item_data item))"
    by (induction items) auto
  then show thesis using that by blast
qed

subsection \<open>The laws of the two functions\<close>

locale hash_law =
  fixes hash :: "'a \<Rightarrow> u32" and cmp :: "'a \<Rightarrow> 'a \<Rightarrow> int"
  assumes cmp_refl: "cmp x x = 0"
    and cmp_sym: "cmp x y = 0 \<Longrightarrow> cmp y x = 0"
    and cmp_trans: "cmp x y = 0 \<Longrightarrow> cmp y z = 0 \<Longrightarrow> cmp x z = 0"
    and hash_cmp: "cmp x y = 0 \<Longrightarrow> hash x = hash y"
begin

lemma no_equal_add:
  assumes "\<forall>x \<in># M. \<forall>y \<in># M - {#x#}. cmp y x \<noteq> 0" "\<forall>y \<in># M. cmp y d \<noteq> 0"
  shows "\<forall>x \<in># add_mset d M. \<forall>y \<in># add_mset d M - {#x#}. cmp y x \<noteq> 0"
proof (intro ballI)
  fix x y assume x: "x \<in># add_mset d M" and y: "y \<in># add_mset d M - {#x#}"
  show "cmp y x \<noteq> 0"
  proof (cases "x = d")
    case True
    with y assms(2) show ?thesis by simp
  next
    case False
    with x have "x \<in># M" by simp
    moreover from False y have "y = d \<or> y \<in># M - {#x#}" by (auto simp: diff_add_mset_swap)
    ultimately show ?thesis using assms cmp_sym by blast
  qed
qed

lemma no_equal_remove:
  "\<forall>x \<in># M. \<forall>y \<in># M - {#x#}. cmp y x \<noteq> 0 \<Longrightarrow> \<forall>x \<in># M - N. \<forall>y \<in># M - N - {#x#}. cmp y x \<noteq> 0"
  by (metis in_diffD diff_right_commute)

lemma lh_ok_num_buckets: "lh_ok hash cmp lh \<Longrightarrow> 0 < lh_num_buckets lh"
  by (simp add: lh_ok_def kMinNumBuckets_def)

lemma unique_elem:
  assumes "lh_ok hash cmp lh" "x \<in># lh_elems lh" "y \<in># lh_elems lh" "cmp y x = 0"
  shows "y = x"
proof (rule ccontr)
  assume "y \<noteq> x"
  with assms(3) have "y \<in># lh_elems lh - {#x#}" by (simp add: in_diff_count)
  with assms show False unfolding lh_ok_def by blast
qed

text \<open>The lookup finds the element equal to \<open>x\<close> wherever it is.\<close>

lemma lookup_position:
  assumes ok: "lh_ok hash cmp lh"
  obtains b pos where "get_next_ptr_and_hash lh x = (b, pos, hash x)" "b < lh_num_buckets lh"
    "pos \<le> length (lh_buckets lh ! b)" "b = unat (hash x) mod lh_num_buckets lh"
    "case deref lh b pos of
       None \<Rightarrow> pos = length (lh_buckets lh ! b) \<and> (\<forall>y \<in># lh_elems lh. cmp y x \<noteq> 0)
     | Some item \<Rightarrow> pos < length (lh_buckets lh ! b) \<and> lh_buckets lh ! b ! pos = item
         \<and> item_data item \<in># lh_elems lh \<and> cmp (item_data item) x = 0 \<and> item_hash item = hash x"
proof -
  let ?n = "lh_num_buckets lh"
  define b where "b = unat (hash x) mod ?n"
  define items where "items = lh_buckets lh ! b"
  define pos where "pos = chain_position (\<lambda>cur. cmp cur x = 0) items"
  have b: "b < ?n" "length (lh_buckets lh) = ?n"
    using ok lh_ok_num_buckets by (auto simp: b_def lh_ok_def placed_def)
  have g: "get_next_ptr_and_hash lh x = (b, pos, hash x)"
    using ok by (simp add: get_next_ptr_and_hash_def lh_ok_def Let_def b_def items_def pos_def)
  have mem: "set items \<subseteq> set (concat (lh_buckets lh))" using b nth_mem by (fastforce simp: items_def)
  show thesis
  proof (cases rule: chain_position_cases [of "\<lambda>cur. cmp cur x = 0" items])
    case found
    then have f: "pos < length items" "cmp (item_data (items ! pos)) x = 0" by (simp_all add: pos_def)
    then have "items ! pos \<in> set (concat (lh_buckets lh))" using mem nth_mem by blast
    then have "item_data (items ! pos) \<in># lh_elems lh" "item_hash (items ! pos) = hash (item_data (items ! pos))"
      using ok by (auto simp: lh_elems_def lh_ok_def)
    then show thesis using f g b hash_cmp [OF f(2)]
      by (intro that [of b pos]) (simp_all add: deref_def items_def b_def)
  next
    case missing
    then have p: "pos = length items" by (simp add: pos_def)
    have "cmp y x \<noteq> 0" if "y \<in># lh_elems lh" for y
    proof
      assume "cmp y x = 0"
      then have h: "hash y = hash x" by (rule hash_cmp)
      from that obtain item where i: "item \<in> set (concat (lh_buckets lh))" "item_data item = y"
        by (auto simp: lh_elems_def)
      then obtain c where "c \<in> set (lh_buckets lh)" "item \<in> set c" by auto
      then obtain b' where b': "b' < ?n" "item \<in> set (lh_buckets lh ! b')"
        using b(2) by (metis in_set_conv_nth)
      have "item_hash item = hash x" using ok i h by (auto simp: lh_ok_def)
      then have "b' = b" using ok b' unfolding lh_ok_def placed_def b_def by metis
      with b' i missing(2) \<open>cmp y x = 0\<close> show False by (auto simp: items_def)
    qed
    then show thesis using p g b by (intro that [of b pos]) (simp_all add: deref_def items_def b_def)
  qed
qed

lemma retrieve_iff:
  assumes ok: "lh_ok hash cmp lh"
  shows "OPENSSL_lh_retrieve lh x = Some y \<longleftrightarrow> y \<in># lh_elems lh \<and> cmp y x = 0"
proof -
  obtain b pos where g: "get_next_ptr_and_hash lh x = (b, pos, hash x)"
    and c: "case deref lh b pos of
       None \<Rightarrow> pos = length (lh_buckets lh ! b) \<and> (\<forall>y \<in># lh_elems lh. cmp y x \<noteq> 0)
     | Some item \<Rightarrow> pos < length (lh_buckets lh ! b) \<and> lh_buckets lh ! b ! pos = item
         \<and> item_data item \<in># lh_elems lh \<and> cmp (item_data item) x = 0 \<and> item_hash item = hash x"
    by (rule lookup_position [OF ok, of x])
  show ?thesis
  proof (cases "deref lh b pos")
    case None
    with c g show ?thesis by (auto simp: OPENSSL_lh_retrieve_def)
  next
    case (Some item)
    with c have i: "item_data item \<in># lh_elems lh" "cmp (item_data item) x = 0" by auto
    have "y = item_data item" if "y \<in># lh_elems lh" "cmp y x = 0"
      using unique_elem [OF ok i(1) that(1)] that(2) i(2) cmp_sym cmp_trans by blast
    with i g Some show ?thesis by (auto simp: OPENSSL_lh_retrieve_def)
  qed
qed

subsection \<open>Resizing\<close>

lemma rebucket_ok:
  assumes ok: "lh_ok hash cmp lh" and n: "kMinNumBuckets \<le> n"
  shows "lh_ok hash cmp (lh_rebucket allocated lh n) \<and> lh_elems (lh_rebucket allocated lh n) = lh_elems lh
    \<and> lh_num_items (lh_rebucket allocated lh n) = lh_num_items lh
    \<and> lh_callback_depth (lh_rebucket allocated lh n) = lh_callback_depth lh"
proof (cases "(8 * n) mod 2 ^ 64 div 8 = n \<and> allocated")
  case False
  then show ?thesis using ok by (auto simp: lh_rebucket_def Let_def)
next
  case True
  define bs where "bs = foldl (move_item n) (replicate n []) (concat (lh_buckets lh))"
  have n0: "0 < n" using n by (simp add: kMinNumBuckets_def)
  have "placed n (replicate n [])" by (simp add: placed_def)
  from rebucket_placed [OF n0 this, of "concat (lh_buckets lh)"]
  have p: "placed n bs" "mset (concat bs) = mset (concat (lh_buckets lh))" by (simp_all add: bs_def)
  have e: "lh_rebucket allocated lh n = lh\<lparr>lh_buckets := bs, lh_num_buckets := n\<rparr>"
    using True by (simp add: lh_rebucket_def Let_def foldl_foldl bs_def)
  have "lh_elems (lh_rebucket allocated lh n) = lh_elems lh" unfolding e lh_elems_def by (simp add: p(2) del: mset_concat)
  moreover have "lh_ok hash cmp (lh_rebucket allocated lh n)"
    using ok n p unfolding lh_ok_def e lh_elems_def by (simp del: mset_concat)
  ultimately show ?thesis by (simp add: e)
qed

lemma maybe_resize_ok:
  assumes ok: "lh_ok hash cmp lh"
  shows "lh_ok hash cmp (lh_maybe_resize allocated lh) \<and> lh_elems (lh_maybe_resize allocated lh) = lh_elems lh
    \<and> lh_num_items (lh_maybe_resize allocated lh) = lh_num_items lh
    \<and> lh_callback_depth (lh_maybe_resize allocated lh) = lh_callback_depth lh"
proof -
  have "kMinNumBuckets \<le> lh_num_buckets lh" using ok by (simp add: lh_ok_def)
  then show ?thesis using ok rebucket_ok [OF ok] by (auto simp: lh_maybe_resize_def Let_def)
qed

subsection \<open>Insertion and deletion\<close>

lemma insert_ok:
  assumes ok: "lh_ok hash cmp lh" and r: "OPENSSL_lh_insert item_allocated array_allocated lh d = (r, old, lh')"
  shows "lh_ok hash cmp lh' \<and> lh_callback_depth lh' = lh_callback_depth lh \<and> old = OPENSSL_lh_retrieve lh d
    \<and> (r \<longleftrightarrow> item_allocated \<or> old \<noteq> None) \<and> (\<not> r \<longrightarrow> lh' = lh)
    \<and> (r \<longrightarrow> lh_elems lh' = add_mset d (case old of None \<Rightarrow> lh_elems lh | Some y \<Rightarrow> lh_elems lh - {#y#}))"
proof -
  obtain b pos where g: "get_next_ptr_and_hash lh d = (b, pos, hash d)" and b: "b < lh_num_buckets lh"
    "pos \<le> length (lh_buckets lh ! b)" "b = unat (hash d) mod lh_num_buckets lh"
    and c: "case deref lh b pos of
       None \<Rightarrow> pos = length (lh_buckets lh ! b) \<and> (\<forall>y \<in># lh_elems lh. cmp y d \<noteq> 0)
     | Some item \<Rightarrow> pos < length (lh_buckets lh ! b) \<and> lh_buckets lh ! b ! pos = item
         \<and> item_data item \<in># lh_elems lh \<and> cmp (item_data item) d = 0 \<and> item_hash item = hash d"
    by (rule lookup_position [OF ok, of d])
  have lb: "b < length (lh_buckets lh)" using ok b(1) by (simp add: lh_ok_def placed_def)
  have pl: "placed (lh_num_buckets lh) (lh_buckets lh)" using ok by (simp add: lh_ok_def)
  have inb: "unat (item_hash item) mod lh_num_buckets lh = b" if "item \<in> set (lh_buckets lh ! b)" for item
    using pl b(1) that by (simp add: placed_def)
  show ?thesis
  proof (cases "deref lh b pos")
    case None
    have o: "OPENSSL_lh_retrieve lh d = None" using None g by (simp add: OPENSSL_lh_retrieve_def)
    show ?thesis
    proof (cases item_allocated)
      case False
      with r None g o show ?thesis using ok by (auto simp: OPENSSL_lh_insert_def Let_def)
    next
      case True
      let ?item = "\<lparr>item_data = d, item_hash = hash d\<rparr>"
      define lh1 where "lh1 = lh\<lparr>lh_buckets := (lh_buckets lh)[b := lh_buckets lh ! b @ [?item]],
        lh_num_items := lh_num_items lh + 1\<rparr>"
      have e: "r" "old = None" "lh' = lh_maybe_resize array_allocated lh1"
        using r True None g c by (auto simp: OPENSSL_lh_insert_def lh1_def Let_def)
      have m: "mset (concat (lh_buckets lh1)) = add_mset ?item (mset (concat (lh_buckets lh)))"
        using lb by (simp add: lh1_def mset_concat_append del: mset_concat)
      have el: "lh_elems lh1 = add_mset d (lh_elems lh)" unfolding lh_elems_def m by simp
      have e1: "lh_buckets lh1 = (lh_buckets lh)[b := lh_buckets lh ! b @ [?item]]" by (simp add: lh1_def)
      have "placed (lh_num_buckets lh) (lh_buckets lh1)" unfolding e1
        using pl b(1) inb b(3) by (intro placed_update) auto
      then have "lh_ok hash cmp lh1"
        using ok c None no_equal_add [of "lh_elems lh" d] unfolding lh_ok_def m el
        by (simp add: lh1_def del: mset_concat)
      moreover have "lh_callback_depth lh1 = lh_callback_depth lh" by (simp add: lh1_def)
      ultimately show ?thesis using maybe_resize_ok [of lh1 array_allocated] e o el True by simp
    qed
  next
    case (Some item)
    with c have i: "pos < length (lh_buckets lh ! b)" "lh_buckets lh ! b ! pos = item"
      "item_data item \<in># lh_elems lh" "cmp (item_data item) d = 0" "item_hash item = hash d" by auto
    let ?item = "item\<lparr>item_data := d\<rparr>"
    let ?bs = "(lh_buckets lh)[b := (lh_buckets lh ! b)[pos := ?item]]"
    have e: "r" "old = Some (item_data item)" "lh' = lh\<lparr>lh_buckets := ?bs\<rparr>"
      using r Some g by (auto simp: OPENSSL_lh_insert_def Let_def)
    have m: "mset (concat ?bs) = add_mset ?item (mset (concat (lh_buckets lh)) - {#item#})"
      using mset_concat_item(1) [OF lb i(1)] i(2) by simp
    have im: "item \<in># mset (concat (lh_buckets lh))" using i(1,2) lb nth_mem by fastforce
    have el: "lh_elems lh' = add_mset d (lh_elems lh - {#item_data item#})"
      unfolding lh_elems_def e(3) using im by (simp add: m image_mset_Diff del: mset_concat)
    have "\<forall>y \<in># lh_elems lh - {#item_data item#}. cmp y d \<noteq> 0"
      using ok i(3,4) cmp_sym cmp_trans unfolding lh_ok_def by blast
    then have u: "\<forall>x \<in># lh_elems lh'. \<forall>y \<in># lh_elems lh' - {#x#}. cmp y x \<noteq> 0"
      unfolding el using ok no_equal_remove [of "lh_elems lh"] unfolding lh_ok_def by (intro no_equal_add) blast+
    have "set ((lh_buckets lh ! b)[pos := ?item]) \<subseteq> insert ?item (set (lh_buckets lh ! b))" by (rule set_update_subset_insert)
    then have p: "placed (lh_num_buckets lh) ?bs"
      using pl b(1) inb b(3) i(5) by (intro placed_update) auto
    have h: "\<forall>item \<in># mset (concat ?bs). item_hash item = hash (item_data item)"
    proof
      fix it assume "it \<in># mset (concat ?bs)"
      then have "it = ?item \<or> it \<in># mset (concat (lh_buckets lh))" unfolding m by (auto dest: in_diffD simp del: mset_concat)
      then show "item_hash it = hash (item_data it)" using ok i(5) unfolding lh_ok_def by auto
    qed
    have "size (lh_elems lh') = size (lh_elems lh)" using i(3) by (simp add: el size_Diff_singleton) (metis Suc_pred nonempty_has_size empty_iff set_mset_empty)
    then have "lh_ok hash cmp lh'" using ok u p h unfolding lh_ok_def e(3) by (simp del: mset_concat)
    moreover have "OPENSSL_lh_retrieve lh d = Some (item_data item)" using Some g by (simp add: OPENSSL_lh_retrieve_def)
    ultimately show ?thesis using e el by simp
  qed
qed

lemma delete_ok:
  assumes ok: "lh_ok hash cmp lh" and r: "OPENSSL_lh_delete array_allocated lh d = (old, lh')"
  shows "lh_ok hash cmp lh' \<and> lh_callback_depth lh' = lh_callback_depth lh \<and> old = OPENSSL_lh_retrieve lh d
    \<and> lh_elems lh' = (case old of None \<Rightarrow> lh_elems lh | Some y \<Rightarrow> lh_elems lh - {#y#})"
proof -
  obtain b pos where g: "get_next_ptr_and_hash lh d = (b, pos, hash d)" and b: "b < lh_num_buckets lh"
    and c: "case deref lh b pos of
       None \<Rightarrow> pos = length (lh_buckets lh ! b) \<and> (\<forall>y \<in># lh_elems lh. cmp y d \<noteq> 0)
     | Some item \<Rightarrow> pos < length (lh_buckets lh ! b) \<and> lh_buckets lh ! b ! pos = item
         \<and> item_data item \<in># lh_elems lh \<and> cmp (item_data item) d = 0 \<and> item_hash item = hash d"
    by (rule lookup_position [OF ok, of d])
  show ?thesis
  proof (cases "deref lh b pos")
    case None
    with r g ok show ?thesis by (auto simp: OPENSSL_lh_delete_def OPENSSL_lh_retrieve_def Let_def)
  next
    case (Some item)
    with c have i: "pos < length (lh_buckets lh ! b)" "lh_buckets lh ! b ! pos = item"
      "item_data item \<in># lh_elems lh" by auto
    have lb: "b < length (lh_buckets lh)" and pl: "placed (lh_num_buckets lh) (lh_buckets lh)"
      using ok b(1) by (simp_all add: lh_ok_def placed_def)
    let ?bs = "(lh_buckets lh)[b := take pos (lh_buckets lh ! b) @ drop (Suc pos) (lh_buckets lh ! b)]"
    define lh1 where "lh1 = lh\<lparr>lh_buckets := ?bs, lh_num_items := lh_num_items lh - 1\<rparr>"
    have e: "old = Some (item_data item)" "lh' = lh_maybe_resize array_allocated lh1"
      using r Some g by (auto simp: OPENSSL_lh_delete_def lh1_def Let_def)
    have m: "mset (concat ?bs) = mset (concat (lh_buckets lh)) - {#item#}"
      using mset_concat_item(2) [OF lb i(1)] i(2) by simp
    have im: "item \<in># mset (concat (lh_buckets lh))" using i(1,2) lb nth_mem by fastforce
    have el: "lh_elems lh1 = lh_elems lh - {#item_data item#}"
      unfolding lh_elems_def lh1_def using im by (simp add: m image_mset_Diff del: mset_concat)
    have p: "placed (lh_num_buckets lh) ?bs"
      using pl b(1) by (intro placed_update) (auto simp: placed_def dest: in_set_takeD in_set_dropD)
    have h: "\<forall>item \<in># mset (concat ?bs). item_hash item = hash (item_data item)"
      using ok unfolding m lh_ok_def by (blast dest: in_diffD)
    have u: "\<forall>x \<in># lh_elems lh1. \<forall>y \<in># lh_elems lh1 - {#x#}. cmp y x \<noteq> 0"
      unfolding el using ok no_equal_remove [of "lh_elems lh"] unfolding lh_ok_def by blast
    have "lh_num_items lh1 = lh_num_items lh - 1" by (simp add: lh1_def)
    then have "size (lh_elems lh1) = lh_num_items lh1"
      using ok i(3) by (simp add: el size_Diff_singleton lh_ok_def)
    then have "lh_ok hash cmp lh1" using ok u p h unfolding lh_ok_def by (simp add: lh1_def del: mset_concat)
    moreover have "OPENSSL_lh_retrieve lh d = Some (item_data item)" using Some g by (simp add: OPENSSL_lh_retrieve_def)
    ultimately show ?thesis using maybe_resize_ok [of lh1 array_allocated] e el by (simp add: lh1_def)
  qed
qed

subsection \<open>The table is a map\<close>

lemma lookup_insert:
  assumes ok: "lh_ok hash cmp lh" and r: "OPENSSL_lh_insert item_allocated array_allocated lh d = (r, old, lh')"
  shows "OPENSSL_lh_retrieve lh' x = (if r \<and> cmp d x = 0 then Some d else OPENSSL_lh_retrieve lh x)"
proof (cases r)
  case False
  with insert_ok [OF assms] show ?thesis by simp
next
  case True
  from insert_ok [OF assms] True have ok': "lh_ok hash cmp lh'" and old: "old = OPENSSL_lh_retrieve lh d"
    and el: "lh_elems lh' = add_mset d (case old of None \<Rightarrow> lh_elems lh | Some y \<Rightarrow> lh_elems lh - {#y#})" by auto
  show ?thesis
  proof (cases "cmp d x = 0")
    case d: True
    have "OPENSSL_lh_retrieve lh' x = Some d" using d unfolding retrieve_iff [OF ok'] el by simp
    with d True show ?thesis by simp
  next
    case False
    have "y \<in># lh_elems lh' \<and> cmp y x = 0 \<longleftrightarrow> y \<in># lh_elems lh \<and> cmp y x = 0" for y
    proof (cases old)
      case None
      with False show ?thesis unfolding el by auto
    next
      case (Some z)
      then have "cmp z d = 0" using old retrieve_iff [OF ok, of d z] by simp
      then have "cmp z x \<noteq> 0" using False cmp_sym cmp_trans by blast
      then have "cmp y x = 0 \<Longrightarrow> y \<noteq> z" by auto
      with False Some show ?thesis unfolding el by (auto simp: in_diff_count dest: in_diffD)
    qed
    then have "OPENSSL_lh_retrieve lh' x = Some y \<longleftrightarrow> OPENSSL_lh_retrieve lh x = Some y" for y
      unfolding retrieve_iff [OF ok] retrieve_iff [OF ok'] .
    then have "OPENSSL_lh_retrieve lh' x = OPENSSL_lh_retrieve lh x" by (metis option.exhaust)
    with False show ?thesis by simp
  qed
qed

lemma lookup_delete:
  assumes ok: "lh_ok hash cmp lh" and r: "OPENSSL_lh_delete array_allocated lh d = (old, lh')"
  shows "OPENSSL_lh_retrieve lh' x = (if cmp d x = 0 then None else OPENSSL_lh_retrieve lh x)"
proof -
  from delete_ok [OF assms] have ok': "lh_ok hash cmp lh'" and old: "old = OPENSSL_lh_retrieve lh d"
    and el: "lh_elems lh' = (case old of None \<Rightarrow> lh_elems lh | Some y \<Rightarrow> lh_elems lh - {#y#})" by auto
  have "y \<in># lh_elems lh' \<and> cmp y x = 0 \<longleftrightarrow> cmp d x \<noteq> 0 \<and> y \<in># lh_elems lh \<and> cmp y x = 0" for y
  proof (cases old)
    case None
    then have "\<not> (y \<in># lh_elems lh \<and> cmp y d = 0)" using old retrieve_iff [OF ok, of d y] by simp
    moreover have "cmp d x = 0 \<Longrightarrow> cmp y x = 0 \<Longrightarrow> cmp y d = 0" using cmp_sym cmp_trans by blast
    ultimately show ?thesis using None unfolding el by auto
  next
    case (Some z)
    then have z: "z \<in># lh_elems lh" "cmp z d = 0" using old retrieve_iff [OF ok, of d z] by simp_all
    then have u: "\<forall>y \<in># lh_elems lh - {#z#}. cmp y z \<noteq> 0" using ok unfolding lh_ok_def by blast
    show ?thesis
    proof (cases "cmp d x = 0")
      case True
      then have "cmp y x = 0 \<Longrightarrow> cmp y z = 0" using z(2) cmp_sym cmp_trans by blast
      with u True Some show ?thesis unfolding el by auto
    next
      case False
      then have "cmp z x \<noteq> 0" using z(2) cmp_sym cmp_trans by blast
      then have "cmp y x = 0 \<Longrightarrow> y \<noteq> z" by auto
      with False Some show ?thesis unfolding el by (auto simp: in_diff_count dest: in_diffD)
    qed
  qed
  then have "OPENSSL_lh_retrieve lh' x = Some y \<longleftrightarrow> cmp d x \<noteq> 0 \<and> OPENSSL_lh_retrieve lh x = Some y" for y
    unfolding retrieve_iff [OF ok] retrieve_iff [OF ok'] .
  then show ?thesis by (metis option.exhaust)
qed

lemma lookup_key:
  assumes ok: "lh_ok hash cmp lh" and k: "key_hash = hash x" "\<And>y. cmp_key key y = 0 \<longleftrightarrow> cmp y x = 0"
  shows "OPENSSL_lh_retrieve_key lh key key_hash cmp_key = OPENSSL_lh_retrieve lh x"
  using ok k by (simp add: OPENSSL_lh_retrieve_key_def OPENSSL_lh_retrieve_def get_next_ptr_by_key_def
    get_next_ptr_and_hash_def lh_ok_def Let_def)

subsection \<open>Load factor\<close>

lemma maybe_resize_loaded:
  assumes nb: "kMinNumBuckets \<le> lh_num_buckets lh" "lh_num_buckets lh < 2 ^ 60" and d: "lh_callback_depth lh = 0"
    and b: "lh_num_items lh \<le> 3 * lh_num_buckets lh"
      "kMinNumBuckets < lh_num_buckets lh \<longrightarrow> lh_num_buckets lh \<le> lh_num_items lh + 1"
  shows "lh_loaded (lh_maybe_resize True lh)"
proof -
  define n where "n = lh_num_buckets lh"
  have n: "16 \<le> n" "n < 2 ^ 60" using nb by (simp_all add: n_def kMinNumBuckets_def)
  have r: "lh_num_buckets (lh_rebucket True lh m) = m \<and> lh_num_items (lh_rebucket True lh m) = lh_num_items lh"
    if "m < 2 ^ 61" for m using that by (simp add: lh_rebucket_def Let_def)
  have c: "2 < lh_num_items lh div n \<longleftrightarrow> 3 * n \<le> lh_num_items lh"
    using n less_eq_div_iff_mult_less_eq [of n 3 "lh_num_items lh"] by (simp add: Suc_le_eq [symmetric] numeral_3_eq_3 mult.commute)
  have z: "lh_num_items lh div n < 1 \<longleftrightarrow> lh_num_items lh < n"
    using n by (simp add: div_eq_0_iff less_Suc_eq)
  show ?thesis
  proof (cases "3 * n \<le> lh_num_items lh")
    case True
    then have "lh_maybe_resize True lh = lh_rebucket True lh (n * 2)"
      using c n d by (simp add: lh_maybe_resize_def Let_def n_def [symmetric] kMaxAverageChainLength_def)
    then show ?thesis using r [of "n * 2"] n True b(1) by (simp add: lh_loaded_def n_def [symmetric])
  next
    case False
    show ?thesis
    proof (cases "lh_num_items lh < n \<and> 16 < n")
      case True
      then have "lh_maybe_resize True lh = lh_rebucket True lh (if n div 2 < 16 then 16 else n div 2)"
        using c z False d by (simp add: lh_maybe_resize_def Let_def n_def [symmetric] kMaxAverageChainLength_def
          kMinAverageChainLength_def kMinNumBuckets_def)
      then show ?thesis using r [of "if n div 2 < 16 then 16 else n div 2"] n True b
        by (auto simp: lh_loaded_def n_def [symmetric] kMinNumBuckets_def split: if_splits)
    next
      case other: False
      then have "lh_maybe_resize True lh = lh"
        using c z False d by (auto simp: lh_maybe_resize_def Let_def n_def [symmetric] kMaxAverageChainLength_def
          kMinAverageChainLength_def kMinNumBuckets_def)
      then show ?thesis using False other b n by (auto simp: lh_loaded_def n_def [symmetric] kMinNumBuckets_def)
    qed
  qed
qed

subsection \<open>Iteration\<close>

lemma elems_bucket_distinct:
  assumes ok: "lh_ok hash cmp lh" and b: "b < lh_num_buckets lh" and s: "lh_buckets lh ! b = pre @ item # rest"
    and y: "y \<in> set (pre @ rest)"
  shows "cmp (item_data y) (item_data item) \<noteq> 0"
proof -
  have lb: "b < length (lh_buckets lh)" using ok b by (simp add: lh_ok_def placed_def)
  have "mset (concat (lh_buckets lh)) =
      mset (concat ((lh_buckets lh)[b := pre @ rest])) + {#item#}"
    using mset_concat_item(2) [of b "lh_buckets lh" "length pre"] lb
      mset_concat_update [OF lb, of "pre @ rest"] unfolding s by (simp del: mset_concat)
  then have "lh_elems lh = add_mset (item_data item) (image_mset item_data (mset (concat ((lh_buckets lh)[b := pre @ rest]))))"
    unfolding lh_elems_def by simp
  then have "item_data item \<in># lh_elems lh" "lh_elems lh - {#item_data item#}
      = image_mset item_data (mset (concat ((lh_buckets lh)[b := pre @ rest])))" by simp_all
  moreover have "item_data y \<in># image_mset item_data (mset (concat ((lh_buckets lh)[b := pre @ rest])))"
  proof -
    have "(pre @ rest) \<in> set ((lh_buckets lh)[b := pre @ rest])" using lb by (rule set_update_memI)
    then have "y \<in> set (concat ((lh_buckets lh)[b := pre @ rest]))" using y by (metis UN_I set_concat)
    then show ?thesis unfolding set_image_mset set_mset_mset by (rule imageI)
  qed
  ultimately show ?thesis using ok unfolding lh_ok_def by metis
qed

text \<open>Deleting the element at hand unlinks its item.\<close>

lemma delete_at:
  assumes ok: "lh_ok hash cmp lh" and d: "0 < lh_callback_depth lh" and b: "b < lh_num_buckets lh"
    and s: "lh_buckets lh ! b = pre @ item # rest"
  shows "snd (OPENSSL_lh_delete a lh (item_data item)) =
    lh\<lparr>lh_buckets := (lh_buckets lh)[b := pre @ rest], lh_num_items := lh_num_items lh - 1\<rparr>"
proof -
  have lb: "b < length (lh_buckets lh)" using ok b by (simp add: lh_ok_def placed_def)
  then have "lh_buckets lh ! b \<in> set (lh_buckets lh)" by simp
  moreover have i: "item \<in> set (lh_buckets lh ! b)" by (simp add: s)
  ultimately have "item \<in> set (concat (lh_buckets lh))" by (metis UN_I set_concat)
  moreover have "\<forall>item \<in># mset (concat (lh_buckets lh)). item_hash item = hash (item_data item)"
    "\<forall>b < lh_num_buckets lh. \<forall>item \<in> set (lh_buckets lh ! b). unat (item_hash item) mod lh_num_buckets lh = b"
    using ok by (simp_all add: lh_ok_def placed_def)
  ultimately have "unat (hash (item_data item)) mod lh_num_buckets lh = b"
    using b i by (metis set_mset_mset)
  moreover have "chain_position (\<lambda>cur. cmp cur (item_data item) = 0) (ys @ item # rest) = length ys"
    if "\<forall>y \<in> set ys. cmp (item_data y) (item_data item) \<noteq> 0" for ys
    using that by (induction ys) (auto simp: cmp_refl)
  then have "chain_position (\<lambda>cur. cmp cur (item_data item) = 0) (lh_buckets lh ! b) = length pre"
    unfolding s using elems_bucket_distinct [OF ok b s] by simp
  ultimately have "get_next_ptr_and_hash lh (item_data item) = (b, length pre, hash (item_data item))"
    using ok by (simp add: get_next_ptr_and_hash_def Let_def lh_ok_def)
  then show ?thesis using d by (simp add: OPENSSL_lh_delete_def deref_def s Let_def lh_maybe_resize_def)
qed

lemma delete_at_ok:
  assumes "lh_ok hash cmp lh" "0 < lh_callback_depth lh" "b < lh_num_buckets lh" "lh_buckets lh ! b = pre @ item # rest"
  shows "lh_ok hash cmp (lh\<lparr>lh_buckets := (lh_buckets lh)[b := pre @ rest], lh_num_items := lh_num_items lh - 1\<rparr>)"
proof -
  obtain old where "OPENSSL_lh_delete True lh (item_data item) =
      (old, lh\<lparr>lh_buckets := (lh_buckets lh)[b := pre @ rest], lh_num_items := lh_num_items lh - 1\<rparr>)"
    using delete_at [OF assms, of True] by (metis prod.collapse)
  from delete_ok [OF assms(1) this] show ?thesis by blast
qed

lemma chain_from_at:
  assumes "lh_ok hash cmp lh" "b < lh_num_buckets lh" "lh_buckets lh ! b = pre @ item # rest"
  shows "chain_from (item_data item) (lh_buckets lh ! b) = item # rest"
proof -
  have "item_data y \<noteq> item_data item" if "y \<in> set pre" for y
    using elems_bucket_distinct [OF assms, of y] that cmp_refl by auto
  then show ?thesis unfolding assms(3) chain_from_def by (induction pre) auto
qed

lemma doall_chain_visits:
  "lh_ok hash cmp lh \<Longrightarrow> 0 < lh_callback_depth lh \<Longrightarrow> b < lh_num_buckets lh \<Longrightarrow> lh_buckets lh ! b = pre @ rest \<Longrightarrow>
   \<exists>n. doall_chain (visitor del visit) b (chain_head rest) (lh, s) =
     Some (lh\<lparr>lh_buckets := (lh_buckets lh)[b := pre @ fst (keep_visited del visit rest s)], lh_num_items := n\<rparr>,
           snd (keep_visited del visit rest s))
     \<and> lh_ok hash cmp (lh\<lparr>lh_buckets := (lh_buckets lh)[b := pre @ fst (keep_visited del visit rest s)], lh_num_items := n\<rparr>)"
proof (induction rest arbitrary: lh pre s)
  case Nil
  have "lh_buckets lh = (lh_buckets lh)[b := pre]" using Nil.prems(4) by (metis append_Nil2 list_update_id)
  then have "lh = lh\<lparr>lh_buckets := (lh_buckets lh)[b := pre], lh_num_items := lh_num_items lh\<rparr>" by (metis lhash.surjective lhash.update_convs(1,2))
  then show ?case using Nil.prems(1) by (subst doall_chain.simps) (auto simp: chain_head_def intro!: exI [of _ "lh_num_items lh"])
next
  case (Cons item rest)
  have lb: "b < length (lh_buckets lh)" using Cons.prems(1,3) by (simp add: lh_ok_def placed_def)
  have e: "doall_chain (visitor del visit) b (chain_head (item # rest)) (lh, s) =
      doall_chain (visitor del visit) b (chain_head rest) (visitor del visit (item_data item) (lh, s))"
    using chain_from_at [OF Cons.prems(1,3,4)] by (subst doall_chain.simps) (simp add: chain_head_def)
  let ?s = "visit (item_data item) s"
  show ?case
  proof (cases "del (item_data item) s")
    case True
    let ?lh = "lh\<lparr>lh_buckets := (lh_buckets lh)[b := pre @ rest], lh_num_items := lh_num_items lh - 1\<rparr>"
    have v: "visitor del visit (item_data item) (lh, s) = (?lh, ?s)"
      using True delete_at [OF Cons.prems, of True] by (simp add: visitor_def)
    have "lh_buckets ?lh ! b = pre @ rest" using lb by simp
    from Cons.IH [OF delete_at_ok [OF Cons.prems] _ _ this, of ?s] Cons.prems(2,3)
    show ?thesis unfolding e v using True by (simp add: Let_def split_beta)
  next
    case False
    have v: "visitor del visit (item_data item) (lh, s) = (lh, ?s)" using False by (simp add: visitor_def)
    have "lh_buckets lh ! b = (pre @ [item]) @ rest" using Cons.prems(4) by simp
    from Cons.IH [OF Cons.prems(1-3) this, of ?s]
    show ?thesis unfolding e v using False by (simp add: Let_def split_beta)
  qed
qed

lemma doall_buckets_visits:
  "lh_ok hash cmp lh \<Longrightarrow> 0 < lh_callback_depth lh \<Longrightarrow> i \<le> lh_num_buckets lh \<Longrightarrow>
   \<exists>n. doall_buckets (visitor del visit) i (lh, s) =
     Some (lh\<lparr>lh_buckets := take i (lh_buckets lh) @ fst (keep_buckets del visit (drop i (lh_buckets lh)) s), lh_num_items := n\<rparr>,
           snd (keep_buckets del visit (drop i (lh_buckets lh)) s))
     \<and> lh_ok hash cmp (lh\<lparr>lh_buckets := take i (lh_buckets lh) @ fst (keep_buckets del visit (drop i (lh_buckets lh)) s), lh_num_items := n\<rparr>)"
proof (induction "lh_num_buckets lh - i" arbitrary: i lh s)
  case 0
  then have "drop i (lh_buckets lh) = []" "take i (lh_buckets lh) = lh_buckets lh" by (auto simp: lh_ok_def placed_def)
  moreover have "lh = lh\<lparr>lh_buckets := lh_buckets lh, lh_num_items := lh_num_items lh\<rparr>" by simp
  ultimately show ?case using 0 by (subst doall_buckets.simps) (auto intro!: exI [of _ "lh_num_items lh"])
next
  case (Suc k)
  then have i: "i < lh_num_buckets lh" by simp
  have l: "length (lh_buckets lh) = lh_num_buckets lh" using Suc.prems(1) by (simp add: lh_ok_def placed_def)
  let ?c = "lh_buckets lh ! i" and ?f = "visitor del visit"
  let ?k = "fst (keep_visited del visit ?c s)" and ?s = "snd (keep_visited del visit ?c s)"
  from doall_chain_visits [OF Suc.prems(1,2) i, of "[]" ?c del visit s] obtain n where
    c: "doall_chain ?f i (chain_head ?c) (lh, s) = Some (lh\<lparr>lh_buckets := (lh_buckets lh)[i := ?k], lh_num_items := n\<rparr>, ?s)"
    and ok: "lh_ok hash cmp (lh\<lparr>lh_buckets := (lh_buckets lh)[i := ?k], lh_num_items := n\<rparr>)" by auto
  let ?lh = "lh\<lparr>lh_buckets := (lh_buckets lh)[i := ?k], lh_num_items := n\<rparr>"
  have e: "doall_buckets ?f i (lh, s) = doall_buckets ?f (i + 1) (?lh, ?s)"
    using i c by (subst doall_buckets.simps) simp
  have d: "drop i (lh_buckets lh) = ?c # drop (Suc i) (lh_buckets lh)" using i l by (simp add: Cons_nth_drop_Suc)
  have t: "take (Suc i) (lh_buckets ?lh) = take i (lh_buckets lh) @ [?k]" using i l by (simp add: take_Suc_conv_app_nth)
  have r: "drop (Suc i) (lh_buckets ?lh) = drop (Suc i) (lh_buckets lh)" by simp
  have "k = lh_num_buckets ?lh - Suc i" "0 < lh_callback_depth ?lh" "Suc i \<le> lh_num_buckets ?lh" using Suc.hyps(2) Suc.prems(2) i by auto
  from Suc.hyps(1) [OF this(1) ok this(2,3), of ?s] obtain m where
    "doall_buckets ?f (Suc i) (?lh, ?s) =
       Some (?lh\<lparr>lh_buckets := (take i (lh_buckets lh) @ [?k]) @ fst (keep_buckets del visit (drop (Suc i) (lh_buckets lh)) ?s), lh_num_items := m\<rparr>,
             snd (keep_buckets del visit (drop (Suc i) (lh_buckets lh)) ?s))"
    "lh_ok hash cmp (?lh\<lparr>lh_buckets := (take i (lh_buckets lh) @ [?k]) @ fst (keep_buckets del visit (drop (Suc i) (lh_buckets lh)) ?s), lh_num_items := m\<rparr>)"
    unfolding t r by blast
  then show ?case unfolding e d by (auto simp: Let_def split_beta intro!: exI [of _ m])
qed

lemma new_ok:
  assumes "OPENSSL_lh_new True True hash cmp = Some lh"
  shows "lh_ok hash cmp lh \<and> lh_elems lh = {#} \<and> lh_loaded lh \<and> lh_callback_depth lh = 0"
  using assms by (auto simp: OPENSSL_lh_new_def lh_ok_def placed_def lh_elems_def lh_loaded_def kMinNumBuckets_def
    simp del: mset_concat)

lemma insert_loaded:
  assumes ok: "lh_ok hash cmp lh" "lh_loaded lh" "lh_callback_depth lh = 0" "lh_num_buckets lh < 2 ^ 60"
  shows "lh_loaded (snd (snd (OPENSSL_lh_insert True True lh d)))"
proof -
  obtain b pos where g: "get_next_ptr_and_hash lh d = (b, pos, hash d)" by (rule lookup_position [OF ok(1), of d])
  show ?thesis
  proof (cases "deref lh b pos")
    case None
    let ?lh = "lh\<lparr>lh_buckets := (lh_buckets lh)[b := take pos (lh_buckets lh ! b) @ [\<lparr>item_data = d, item_hash = hash d\<rparr>]],
      lh_num_items := lh_num_items lh + 1\<rparr>"
    have "snd (snd (OPENSSL_lh_insert True True lh d)) = lh_maybe_resize True ?lh"
      using None g by (simp add: OPENSSL_lh_insert_def Let_def)
    moreover have "lh_loaded (lh_maybe_resize True ?lh)"
      using ok by (intro maybe_resize_loaded) (auto simp: lh_ok_def lh_loaded_def)
    ultimately show ?thesis by simp
  next
    case (Some item)
    then show ?thesis using g ok(2) by (simp add: OPENSSL_lh_insert_def Let_def lh_loaded_def)
  qed
qed

lemma delete_loaded:
  assumes ok: "lh_ok hash cmp lh" "lh_loaded lh" "lh_callback_depth lh = 0" "lh_num_buckets lh < 2 ^ 60"
  shows "lh_loaded (snd (OPENSSL_lh_delete True lh d))"
proof -
  obtain b pos where g: "get_next_ptr_and_hash lh d = (b, pos, hash d)" by (rule lookup_position [OF ok(1), of d])
  show ?thesis
  proof (cases "deref lh b pos")
    case None
    then show ?thesis using g ok(2) by (simp add: OPENSSL_lh_delete_def Let_def)
  next
    case (Some item)
    let ?lh = "lh\<lparr>lh_buckets := (lh_buckets lh)[b := take pos (lh_buckets lh ! b) @ drop (Suc pos) (lh_buckets lh ! b)],
      lh_num_items := lh_num_items lh - 1\<rparr>"
    have "snd (OPENSSL_lh_delete True lh d) = lh_maybe_resize True ?lh"
      using Some g by (simp add: OPENSSL_lh_delete_def Let_def)
    moreover have "lh_loaded (lh_maybe_resize True ?lh)"
      using ok by (intro maybe_resize_loaded) (auto simp: lh_ok_def lh_loaded_def)
    ultimately show ?thesis by simp
  qed
qed

lemma doall_visits:
  assumes ok: "lh_ok hash cmp lh" and d: "lh_callback_depth lh + 1 < lh_UINT_MAX"
  shows "\<exists>lh'. OPENSSL_lh_doall_arg allocated (Some lh) (visitor del visit) s =
      Some (Some lh', snd (keep_visited del visit (concat (lh_buckets lh)) s))
    \<and> lh_ok hash cmp lh' \<and> lh_callback_depth lh' = lh_callback_depth lh
    \<and> lh_elems lh' = image_mset item_data (mset (fst (keep_visited del visit (concat (lh_buckets lh)) s)))"
proof -
  let ?lh = "lh\<lparr>lh_callback_depth := lh_callback_depth lh + 1\<rparr>"
  have "lh_ok hash cmp ?lh" using ok by (simp add: lh_ok_def lh_elems_def)
  from doall_buckets_visits [OF this, of 0 del visit s] obtain n where
    l: "doall_buckets (visitor del visit) 0 (?lh, s) = Some (?lh\<lparr>lh_buckets := fst (keep_buckets del visit (lh_buckets lh) s),
          lh_num_items := n\<rparr>, snd (keep_buckets del visit (lh_buckets lh) s))"
    and ok1: "lh_ok hash cmp (?lh\<lparr>lh_buckets := fst (keep_buckets del visit (lh_buckets lh) s), lh_num_items := n\<rparr>)"
    by auto
  let ?lh1 = "lh\<lparr>lh_buckets := fst (keep_buckets del visit (lh_buckets lh) s), lh_num_items := n\<rparr>"
  have ok2: "lh_ok hash cmp ?lh1" using ok1 by (simp add: lh_ok_def lh_elems_def del: mset_concat)
  have "lh_elems ?lh1 = image_mset item_data (mset (fst (keep_visited del visit (concat (lh_buckets lh)) s)))"
    using keep_buckets_concat [of del visit "lh_buckets lh" s] by (simp add: lh_elems_def del: mset_concat)
  moreover have "OPENSSL_lh_doall_arg allocated (Some lh) (visitor del visit) s =
      Some (Some (lh_maybe_resize allocated ?lh1), snd (keep_buckets del visit (lh_buckets lh) s))"
    using d l by (simp add: OPENSSL_lh_doall_arg_def)
  ultimately show ?thesis
    using maybe_resize_ok [OF ok2, of allocated] keep_buckets_concat [of del visit "lh_buckets lh" s] by simp
qed

end

subsection \<open>Properties\<close>

text \<open>
  C32: with hash and comparison functions that agree (equal elements have equal hashes) the table
  is a map from keys to elements, through collisions and resizing: insertion and deletion return
  the element they replace or remove, a later lookup sees the insertion for equal keys and is
  unchanged for the others, the count is the number of elements, and an insertion fails exactly
  when a new item cannot be allocated, changing nothing.
\<close>
theorem lhash_is_map:
  assumes law: "hash_law hash cmp" and ok: "lh_ok hash cmp lh"
    and i: "OPENSSL_lh_insert item_allocated array_allocated lh d = (r, old, lh_i)"
    and x: "OPENSSL_lh_delete array_allocated lh d = (removed, lh_d)"
  shows "lh_ok hash cmp lh_i \<and> lh_ok hash cmp lh_d
    \<and> old = OPENSSL_lh_retrieve lh d \<and> removed = OPENSSL_lh_retrieve lh d
    \<and> (r \<longleftrightarrow> item_allocated \<or> old \<noteq> None)
    \<and> OPENSSL_lh_retrieve lh_i k = (if r \<and> cmp d k = 0 then Some d else OPENSSL_lh_retrieve lh k)
    \<and> OPENSSL_lh_retrieve lh_d k = (if cmp d k = 0 then None else OPENSSL_lh_retrieve lh k)
    \<and> OPENSSL_lh_num_items lh_i = OPENSSL_lh_num_items lh + (if r \<and> old = None then 1 else 0)
    \<and> OPENSSL_lh_num_items lh_d + (if removed = None then 0 else 1) = OPENSSL_lh_num_items lh"
proof -
  note oki = hash_law.insert_ok [OF law ok i] and okd = hash_law.delete_ok [OF law ok x]
    and find = hash_law.retrieve_iff [OF law ok]
  have n: "OPENSSL_lh_num_items t = size (lh_elems t)" if "lh_ok hash cmp t" for t
    using that by (simp add: OPENSSL_lh_num_items_def lh_ok_def)
  have s: "Suc (size (M - {#y#})) = size M" if "y \<in># M" for y and M :: "'a multiset"
    using that by (auto dest!: multi_member_split)
  have mem: "OPENSSL_lh_retrieve lh d = Some y \<Longrightarrow> y \<in># lh_elems lh" for y using find by blast
  have "OPENSSL_lh_num_items lh_i = OPENSSL_lh_num_items lh + (if r \<and> old = None then 1 else 0)"
    using oki n ok s [OF mem] by (cases "OPENSSL_lh_retrieve lh d") auto
  moreover have "OPENSSL_lh_num_items lh_d + (if removed = None then 0 else 1) = OPENSSL_lh_num_items lh"
    using okd n ok s [OF mem] by (cases "OPENSSL_lh_retrieve lh d") auto
  ultimately show ?thesis
    using oki okd hash_law.lookup_insert [OF law ok i] hash_law.lookup_delete [OF law ok x] by simp
qed

text \<open>A table of numbers for the witnesses, the hash being the number itself.\<close>

definition num_cmp :: "nat \<Rightarrow> nat \<Rightarrow> int" where
  "num_cmp x y = int x - int y"

definition table0 :: "nat lhash" where
  "table0 = \<lparr>lh_num_items = 0, lh_buckets = replicate 16 [], lh_num_buckets = 16, lh_callback_depth = 0,
             lh_comp = num_cmp, lh_hash = of_nat\<rparr>"

lemma hash_law_num: "hash_law of_nat num_cmp"
  by unfold_locales (auto simp: num_cmp_def)

lemma table0_ok: "lh_ok of_nat num_cmp table0 \<and> lh_elems table0 = {#} \<and> lh_loaded table0 \<and> lh_callback_depth table0 = 0"
  by (rule hash_law.new_ok [OF hash_law_num]) (simp add: OPENSSL_lh_new_def table0_def kMinNumBuckets_def)

definition table_5_21 :: "nat lhash" where
  "table_5_21 = snd (snd (OPENSSL_lh_insert True True (snd (snd (OPENSSL_lh_insert True True table0 5))) 21))"

lemma insert_split: "OPENSSL_lh_insert a b lh d =
    (fst (OPENSSL_lh_insert a b lh d), fst (snd (OPENSSL_lh_insert a b lh d)), snd (snd (OPENSSL_lh_insert a b lh d)))"
  by simp

lemma table_5_21_ok:
  "lh_ok of_nat num_cmp table_5_21 \<and> lh_elems table_5_21 = {#5, 21#} \<and> lh_callback_depth table_5_21 = 0"
proof -
  have ok0: "lh_ok of_nat num_cmp table0" using table0_ok by blast
  define t1 where "t1 = snd (snd (OPENSSL_lh_insert True True table0 5))"
  have r0: "OPENSSL_lh_retrieve table0 5 = None"
    using hash_law.retrieve_iff [OF hash_law_num ok0, of 5] table0_ok by (cases "OPENSSL_lh_retrieve table0 5") auto
  have 1: "lh_ok of_nat num_cmp t1" "lh_elems t1 = {#5#}" "lh_callback_depth t1 = 0"
    using hash_law.insert_ok [OF hash_law_num ok0 insert_split, of True True 5] r0 table0_ok
    by (auto simp: t1_def)
  have "OPENSSL_lh_retrieve t1 21 \<noteq> Some y" for y
    unfolding hash_law.retrieve_iff [OF hash_law_num 1(1)] by (auto simp: 1(2) num_cmp_def)
  then have r1: "OPENSSL_lh_retrieve t1 21 = None" by blast
  show ?thesis
    using hash_law.insert_ok [OF hash_law_num 1(1) insert_split, of True True 21] r1 1
    by (auto simp: table_5_21_def t1_def)
qed

text \<open>5 and 21 collide in a table of 16 buckets; 21 is found behind 5 and can be deleted.\<close>

theorem lhash_is_map_witness:
  "OPENSSL_lh_retrieve (snd (OPENSSL_lh_delete True table_5_21 5)) 21 = Some 21
    \<and> OPENSSL_lh_retrieve (snd (OPENSSL_lh_delete True table_5_21 5)) 5 = None
    \<and> OPENSSL_lh_retrieve (snd (snd (OPENSSL_lh_insert True True table_5_21 37))) 37 = Some 37"
proof -
  have ok: "lh_ok of_nat num_cmp table_5_21" using table_5_21_ok by blast
  have r: "OPENSSL_lh_retrieve table_5_21 21 = Some 21"
    unfolding hash_law.retrieve_iff [OF hash_law_num ok] using table_5_21_ok by (simp add: num_cmp_def)
  have d: "OPENSSL_lh_delete True table_5_21 d =
      (fst (OPENSSL_lh_delete True table_5_21 d), snd (OPENSSL_lh_delete True table_5_21 d))" for d by simp
  show ?thesis
    using lhash_is_map [OF hash_law_num ok insert_split [of True True] d, of 5 21]
      lhash_is_map [OF hash_law_num ok insert_split [of True True] d, of 5 5]
      lhash_is_map [OF hash_law_num ok insert_split [of True True] d, of 37 37] r
    by (simp add: num_cmp_def)
qed

text \<open>
  C39: while allocations succeed and no iteration is running, insertions and deletions keep the
  average chain below three items, and a table that has grown is at least as full as it has
  buckets; a new table is so.
\<close>
theorem lhash_load_factor:
  assumes law: "hash_law hash cmp" and ok: "lh_ok hash cmp lh" "lh_callback_depth lh = 0" "lh_num_buckets lh < 2 ^ 60"
    and load: "lh_loaded lh"
  shows "lh_loaded (snd (snd (OPENSSL_lh_insert True True lh d))) \<and> lh_loaded (snd (OPENSSL_lh_delete True lh d))
    \<and> (\<forall>new. OPENSSL_lh_new True True hash cmp = Some new \<longrightarrow> lh_loaded new \<and> lh_ok hash cmp new)"
  using hash_law.insert_loaded [OF law ok(1) load ok(2,3)] hash_law.delete_loaded [OF law ok(1) load ok(2,3)]
    hash_law.new_ok [OF law] by blast

theorem lhash_load_factor_witness:
  "lh_loaded (snd (snd (OPENSSL_lh_insert True True table0 5))) \<and> lh_loaded (snd (OPENSSL_lh_delete True table0 5))"
  using lhash_load_factor [OF hash_law_num, of table0 5] table0_ok by (simp add: table0_def)

text \<open>
  C36: \<^verbatim>\<open>OPENSSL_lh_doall_arg\<close> with a callback that may delete the element it is called with ends,
  never uses a freed item, and calls the callback exactly once for each element the table had, in
  the order of the buckets, whatever was deleted on the way; exactly the elements not deleted
  remain, and the depth counter is restored.
\<close>
theorem lhash_doall_visits_all:
  assumes law: "hash_law hash cmp" and ok: "lh_ok hash cmp lh" and d: "lh_callback_depth lh + 1 < lh_UINT_MAX"
  shows "\<exists>lh'. OPENSSL_lh_doall_arg allocated (Some lh) (visitor del visit) s =
      Some (Some lh', foldl (\<lambda>s item. visit (item_data item) s) s (concat (lh_buckets lh)))
    \<and> lh_ok hash cmp lh' \<and> lh_callback_depth lh' = lh_callback_depth lh
    \<and> lh_elems lh' = image_mset item_data (mset (fst (keep_visited del visit (concat (lh_buckets lh)) s)))"
  using hash_law.doall_visits [OF law ok d, of allocated del visit s] unfolding keep_visited_state .

text \<open>Deleting everything: both elements are visited, none is left.\<close>

theorem lhash_doall_visits_all_witness:
  "\<exists>lh' seen. OPENSSL_lh_doall_arg True (Some table_5_21) (visitor (\<lambda>x s. True) (#)) [] = Some (Some lh', seen)
    \<and> mset seen = {#5, 21#} \<and> lh_elems lh' = {#}"
proof -
  have e: "mset (foldl (\<lambda>s item. item_data item # s) s xs) = mset s + image_mset item_data (mset xs)" for s :: "nat list" and xs
    by (induction xs arbitrary: s) auto
  have k: "fst (keep_visited (\<lambda>x s. True) (#) xs s) = []" for xs and s :: "nat list"
    by (induction xs arbitrary: s) (auto simp: Let_def split_beta)
  have m: "image_mset item_data (mset (concat (lh_buckets table_5_21))) = {#5, 21#}"
    using table_5_21_ok by (simp add: lh_elems_def)
  let ?xs = "concat (lh_buckets table_5_21)"
  have "lh_ok of_nat num_cmp table_5_21" "lh_callback_depth table_5_21 + 1 < lh_UINT_MAX"
    using table_5_21_ok by (simp_all add: lh_UINT_MAX_def)
  from lhash_doall_visits_all [OF hash_law_num this, of True "\<lambda>x s. True" "(#)" "[]"] obtain lh' where
    "OPENSSL_lh_doall_arg True (Some table_5_21) (visitor (\<lambda>x s. True) (#)) [] =
       Some (Some lh', foldl (\<lambda>s item. item_data item # s) [] ?xs)"
    "lh_elems lh' = image_mset item_data (mset (fst (keep_visited (\<lambda>x s. True) (#) ?xs [])))" by blast
  with e [of "[]" ?xs] m show ?thesis by (simp add: k del: mset_concat)
qed

end
