(* ===== verification/Obj.thy ===== *)
theory Obj
  imports Oid_Set Strings Lhash_Props
begin

text \<open>
  The registry of ASN.1 objects (\<^verbatim>\<open>crypto/obj/obj.c\<close>, with the constructors of
  \<^verbatim>\<open>crypto/asn1/a_object.c\<close>): object identifiers with a number (NID), a short and a long name.  The
  built-in objects and their three indices, generated into \<^verbatim>\<open>obj_dat.h\<close>, are the argument \<open>t\<close>;
  objects added at run time are kept in four hash tables, one for each key.  The locks are left
  out: each operation runs alone.

  The \<^verbatim>\<open>data\<close> pointer and \<^verbatim>\<open>length\<close> of an object are one list, \<open>None\<close> when \<^verbatim>\<open>data\<close> is \<^verbatim>\<open>NULL\<close> and the
  length 0.  The answers of the allocator are arguments, in the order the code asks.
\<close>

record asn1_object =
  obj_sn :: "u8 list option"
  obj_ln :: "u8 list option"
  obj_nid :: int
  obj_data :: "u8 list option"
  obj_flags :: u32

record obj_tables =
  kObjects :: "asn1_object list"
  kNIDsInShortNameOrder :: "nat list"
  kNIDsInLongNameOrder :: "nat list"
  kNIDsInOIDOrder :: "nat list"

record obj_state =
  added_by_data :: "asn1_object lhash option"
  added_by_nid :: "asn1_object lhash option"
  added_by_short_name :: "asn1_object lhash option"
  added_by_long_name :: "asn1_object lhash option"
  next_nid :: u32

definition NUM_NID :: int where "NUM_NID = 965"
definition NID_undef :: int where "NID_undef = 0"
definition OBJ_DYNAMIC :: u32 where "OBJ_DYNAMIC = 0x01"
definition OBJ_DYNAMIC_STRINGS :: u32 where "OBJ_DYNAMIC_STRINGS = 0x04"
definition OBJ_DYNAMIC_DATA :: u32 where "OBJ_DYNAMIC_DATA = 0x08"
definition obj_INT_MAX :: int where "obj_INT_MAX = 2 ^ 31 - 1"

definition obj_bytes :: "asn1_object \<Rightarrow> u8 list" where
  "obj_bytes obj = (case obj_data obj of None \<Rightarrow> [] | Some bs \<Rightarrow> bs)"

text \<open>The text of a C string and \<^verbatim>\<open>strcmp\<close>, which orders texts by their unsigned bytes.\<close>

definition c_str :: "u8 list \<Rightarrow> u8 list" where
  "c_str s = takeWhile (\<lambda>c. c \<noteq> 0) s"

definition c_strcmp :: "u8 list \<Rightarrow> u8 list \<Rightarrow> int" where
  "c_strcmp a b = (if c_str a < c_str b then - 1 else if c_str a = c_str b then 0 else 1)"

definition name_of :: "u8 list option \<Rightarrow> u8 list" where
  "name_of s = (case s of None \<Rightarrow> [] | Some s \<Rightarrow> s)"

subsection \<open>Constructors\<close>

definition ASN1_OBJECT_new :: "bool \<Rightarrow> asn1_object option" where
  "ASN1_OBJECT_new allocated =
     (if \<not> allocated then None
      else Some \<lparr>obj_sn = None, obj_ln = None, obj_nid = 0, obj_data = None, obj_flags = OBJ_DYNAMIC\<rparr>)"

definition OBJ_dup :: "(nat \<Rightarrow> bool) \<Rightarrow> asn1_object option \<Rightarrow> asn1_object option" where
  "OBJ_dup mem obj =
     (case obj of
        None \<Rightarrow> None
      | Some obj \<Rightarrow>
          if obj_flags obj AND OBJ_DYNAMIC = 0 then Some obj
          else (case ASN1_OBJECT_new (mem 0) of
             None \<Rightarrow> None
           | Some r \<Rightarrow>
               let data = OPENSSL_memdup (mem 1) (obj_bytes obj) (length (obj_bytes obj)) in
               if length (obj_bytes obj) \<noteq> 0 \<and> data = None then None
               else let ln = OPENSSL_strdup (mem 2) (obj_ln obj) in
                 if obj_ln obj \<noteq> None \<and> ln = None then None
                 else let sn = OPENSSL_strdup (mem 3) (obj_sn obj) in
                   if obj_sn obj \<noteq> None \<and> sn = None then None
                   else Some (r\<lparr>obj_data := data, obj_nid := obj_nid obj, obj_sn := sn, obj_ln := ln,
                                obj_flags := obj_flags obj OR (OBJ_DYNAMIC OR OBJ_DYNAMIC_STRINGS OR OBJ_DYNAMIC_DATA)\<rparr>)))"

definition ASN1_OBJECT_create ::
  "(nat \<Rightarrow> bool) \<Rightarrow> int \<Rightarrow> u8 list \<Rightarrow> u8 list option \<Rightarrow> u8 list option \<Rightarrow> asn1_object option" where
  "ASN1_OBJECT_create mem nid data sn ln =
     (if obj_INT_MAX < int (length data) then None
      else OBJ_dup mem (Some \<lparr>obj_sn = sn, obj_ln = ln, obj_nid = nid, obj_data = Some data,
                              obj_flags = OBJ_DYNAMIC OR OBJ_DYNAMIC_STRINGS OR OBJ_DYNAMIC_DATA\<rparr>))"

definition OBJ_get0_data :: "asn1_object option \<Rightarrow> u8 list option" where
  "OBJ_get0_data obj = (case obj of None \<Rightarrow> None | Some obj \<Rightarrow> obj_data obj)"

definition OBJ_length :: "asn1_object option \<Rightarrow> nat" where
  "OBJ_length obj = (case obj of None \<Rightarrow> 0 | Some obj \<Rightarrow> length (obj_bytes obj))"

subsection \<open>Keys\<close>

definition OBJ_cmp :: "asn1_object \<Rightarrow> asn1_object \<Rightarrow> int" where
  "OBJ_cmp a b =
     (if length (obj_bytes a) < length (obj_bytes b) then - 1
      else if length (obj_bytes b) < length (obj_bytes a) then 1
      else memcmp (obj_bytes a) (obj_bytes b) (length (obj_bytes a)))"

definition hash_nid :: "asn1_object \<Rightarrow> u32" where
  "hash_nid obj = of_int (obj_nid obj)"

definition cmp_nid :: "asn1_object \<Rightarrow> asn1_object \<Rightarrow> int" where
  "cmp_nid a b = obj_nid a - obj_nid b"

definition hash_data :: "asn1_object \<Rightarrow> u32" where
  "hash_data obj = OPENSSL_hash32 (obj_bytes obj) (length (obj_bytes obj))"

definition hash_short_name :: "asn1_object \<Rightarrow> u32" where
  "hash_short_name obj = OPENSSL_strhash (name_of (obj_sn obj))"

definition cmp_short_name :: "asn1_object \<Rightarrow> asn1_object \<Rightarrow> int" where
  "cmp_short_name a b = c_strcmp (name_of (obj_sn a)) (name_of (obj_sn b))"

definition hash_long_name :: "asn1_object \<Rightarrow> u32" where
  "hash_long_name obj = OPENSSL_strhash (name_of (obj_ln obj))"

definition cmp_long_name :: "asn1_object \<Rightarrow> asn1_object \<Rightarrow> int" where
  "cmp_long_name a b = c_strcmp (name_of (obj_ln a)) (name_of (obj_ln b))"

text \<open>The four tables obey the laws of the hash table.\<close>

lemma c_strlen_c_str: "take (c_strlen s) s = c_str s"
  unfolding c_strlen_def c_str_def by (metis takeWhile_eq_take)

lemma strhash_c_str: "c_strcmp a b = 0 \<Longrightarrow> OPENSSL_strhash a = OPENSSL_strhash b"
  by (simp add: OPENSSL_strhash_def OPENSSL_hash32_def c_strlen_c_str c_strcmp_def split: if_splits)

lemma memcmp_eq_0: "length a = length b \<Longrightarrow> memcmp a b (length a) = 0 \<longleftrightarrow> a = b"
  by (induction a b rule: list_induct2) auto

lemma OBJ_cmp_eq_0: "OBJ_cmp a b = 0 \<longleftrightarrow> obj_bytes a = obj_bytes b"
  using memcmp_eq_0 [of "obj_bytes a" "obj_bytes b"] by (auto simp: OBJ_cmp_def)

lemma c_strcmp_eq_0: "c_strcmp a b = 0 \<longleftrightarrow> c_str a = c_str b"
  by (simp add: c_strcmp_def)

interpretation by_nid: hash_law hash_nid cmp_nid
  by unfold_locales (auto simp: cmp_nid_def hash_nid_def)

interpretation by_data: hash_law hash_data OBJ_cmp
  by unfold_locales (auto simp: OBJ_cmp_eq_0 hash_data_def)

interpretation by_short_name: hash_law hash_short_name cmp_short_name
  by unfold_locales (auto simp: cmp_short_name_def hash_short_name_def c_strcmp_eq_0 intro: strhash_c_str)

interpretation by_long_name: hash_law hash_long_name cmp_long_name
  by unfold_locales (auto simp: cmp_long_name_def hash_long_name_def c_strcmp_eq_0 intro: strhash_c_str)

subsection \<open>Lookup\<close>

text \<open>\<^verbatim>\<open>BSSL_CHECK\<close> aborts unless \<open>nid\<close> is the number of a built-in object.\<close>

definition get_builtin_object :: "obj_tables \<Rightarrow> int \<Rightarrow> asn1_object" where
  "get_builtin_object t nid = kObjects t ! nat (nid - 1)"

text \<open>\<^verbatim>\<open>bsearch\<close> of the C library on a sorted array: an element that compares equal, if any.\<close>

definition bsearch :: "(nat \<Rightarrow> int) \<Rightarrow> nat list \<Rightarrow> nat option" where
  "bsearch cmp xs = find (\<lambda>x. cmp x = 0) xs"

definition obj_cmp :: "obj_tables \<Rightarrow> asn1_object \<Rightarrow> nat \<Rightarrow> int" where
  "obj_cmp t key nid = OBJ_cmp key (get_builtin_object t (int nid))"

definition short_name_cmp :: "obj_tables \<Rightarrow> u8 list \<Rightarrow> nat \<Rightarrow> int" where
  "short_name_cmp t name nid = c_strcmp name (name_of (obj_sn (get_builtin_object t (int nid))))"

definition long_name_cmp :: "obj_tables \<Rightarrow> u8 list \<Rightarrow> nat \<Rightarrow> int" where
  "long_name_cmp t name nid = c_strcmp name (name_of (obj_ln (get_builtin_object t (int nid))))"

text \<open>\<^verbatim>\<open>lh_ASN1_OBJECT_retrieve\<close> on a table that may not have been created yet.\<close>

definition retrieve_added :: "asn1_object lhash option \<Rightarrow> asn1_object \<Rightarrow> asn1_object option" where
  "retrieve_added table key = (case table of None \<Rightarrow> None | Some lh \<Rightarrow> OPENSSL_lh_retrieve lh key)"

definition OBJ_obj2nid :: "obj_tables \<Rightarrow> obj_state \<Rightarrow> asn1_object option \<Rightarrow> int" where
  "OBJ_obj2nid t st obj =
     (case obj of
        None \<Rightarrow> NID_undef
      | Some obj \<Rightarrow>
          if obj_nid obj \<noteq> 0 then obj_nid obj
          else (case retrieve_added (added_by_data st) obj of
             Some found \<Rightarrow> obj_nid found
           | None \<Rightarrow>
               (case bsearch (obj_cmp t obj) (kNIDsInOIDOrder t) of
                  None \<Rightarrow> NID_undef
                | Some nid \<Rightarrow> obj_nid (get_builtin_object t (int nid)))))"

text \<open>The fields of a template that the table's functions do not read are 0.\<close>

definition obj_template :: asn1_object where
  "obj_template = \<lparr>obj_sn = None, obj_ln = None, obj_nid = 0, obj_data = None, obj_flags = 0\<rparr>"

definition OBJ_cbs2nid :: "obj_tables \<Rightarrow> obj_state \<Rightarrow> cbs \<Rightarrow> int" where
  "OBJ_cbs2nid t st cbs =
     (if obj_INT_MAX < int (length cbs) then NID_undef
      else OBJ_obj2nid t st (Some (obj_template\<lparr>obj_data := Some cbs\<rparr>)))"

definition OBJ_sn2nid :: "obj_tables \<Rightarrow> obj_state \<Rightarrow> u8 list \<Rightarrow> int" where
  "OBJ_sn2nid t st short_name =
     (case retrieve_added (added_by_short_name st) (obj_template\<lparr>obj_sn := Some short_name\<rparr>) of
        Some found \<Rightarrow> obj_nid found
      | None \<Rightarrow>
          (case bsearch (short_name_cmp t short_name) (kNIDsInShortNameOrder t) of
             None \<Rightarrow> NID_undef
           | Some nid \<Rightarrow> obj_nid (get_builtin_object t (int nid))))"

definition OBJ_ln2nid :: "obj_tables \<Rightarrow> obj_state \<Rightarrow> u8 list \<Rightarrow> int" where
  "OBJ_ln2nid t st long_name =
     (case retrieve_added (added_by_long_name st) (obj_template\<lparr>obj_ln := Some long_name\<rparr>) of
        Some found \<Rightarrow> obj_nid found
      | None \<Rightarrow>
          (case bsearch (long_name_cmp t long_name) (kNIDsInLongNameOrder t) of
             None \<Rightarrow> NID_undef
           | Some nid \<Rightarrow> obj_nid (get_builtin_object t (int nid))))"

text \<open>\<^verbatim>\<open>UNDEF\<close> and \<^verbatim>\<open>undefined\<close>.\<close>

definition OBJ_get_undef :: asn1_object where
  "OBJ_get_undef =
     \<lparr>obj_sn = Some [0x55, 0x4E, 0x44, 0x45, 0x46, 0],
      obj_ln = Some [0x75, 0x6E, 0x64, 0x65, 0x66, 0x69, 0x6E, 0x65, 0x64, 0],
      obj_nid = NID_undef, obj_data = None, obj_flags = 0\<rparr>"

definition OBJ_nid2obj :: "obj_tables \<Rightarrow> obj_state \<Rightarrow> int \<Rightarrow> asn1_object option" where
  "OBJ_nid2obj t st nid =
     (if nid = NID_undef then Some OBJ_get_undef
      else if 0 < nid \<and> nid < NUM_NID then
        let obj = get_builtin_object t nid in
        if nid \<noteq> NID_undef \<and> obj_nid obj = NID_undef then None else Some obj
      else retrieve_added (added_by_nid st) (obj_template\<lparr>obj_nid := nid\<rparr>))"

definition OBJ_nid2sn :: "obj_tables \<Rightarrow> obj_state \<Rightarrow> int \<Rightarrow> u8 list option" where
  "OBJ_nid2sn t st nid = (case OBJ_nid2obj t st nid of None \<Rightarrow> None | Some obj \<Rightarrow> obj_sn obj)"

definition OBJ_nid2ln :: "obj_tables \<Rightarrow> obj_state \<Rightarrow> int \<Rightarrow> u8 list option" where
  "OBJ_nid2ln t st nid = (case OBJ_nid2obj t st nid of None \<Rightarrow> None | Some obj \<Rightarrow> obj_ln obj)"

definition OBJ_nid2cbb :: "obj_tables \<Rightarrow> obj_state \<Rightarrow> nat \<Rightarrow> int \<Rightarrow> unit builder" where
  "OBJ_nid2cbb t st d nid out =
     (case OBJ_nid2obj t st nid of
        None \<Rightarrow> (None, out)
      | Some obj \<Rightarrow>
          attempt (CBB_add_asn1 d 6 out) (\<lambda>_ out.
          attempt (CBB_add_bytes (d + 1) (obj_bytes obj) out) (\<lambda>_ out.
          CBB_flush d out)))"

subsection \<open>Texts\<close>

definition obj_next_nid :: "obj_state \<Rightarrow> int \<times> obj_state" where
  "obj_next_nid st = (sint (next_nid st), st\<lparr>next_nid := next_nid st + 1\<rparr>)"

text \<open>\<open>heap\<close> gives the allocations of the builder, \<open>mem\<close> those of the object.\<close>

definition create_object_with_text_oid ::
  "(nat \<Rightarrow> (nat \<Rightarrow> u8) option) \<Rightarrow> (nat \<Rightarrow> bool) \<Rightarrow> (obj_state \<Rightarrow> int \<times> obj_state) option \<Rightarrow>
     u8 list \<Rightarrow> u8 list option \<Rightarrow> u8 list option \<Rightarrow> obj_state \<Rightarrow> asn1_object option \<times> obj_state" where
  "create_object_with_text_oid heap mem get_nid oid short_name long_name st =
     (case CBB_init heap 32 of
        None \<Rightarrow> (None, st)
      | Some cbb \<Rightarrow>
          (case fst (attempt (CBB_add_asn1_oid_from_text 0 (c_str oid) cbb) (\<lambda>_ cbb. CBB_finish 0 cbb)) of
             None \<Rightarrow> (None, st)
           | Some buf \<Rightarrow>
               let (nid, st) = (case get_nid of None \<Rightarrow> (NID_undef, st) | Some get_nid \<Rightarrow> get_nid st)
               in (ASN1_OBJECT_create mem nid buf short_name long_name, st)))"

definition OBJ_txt2obj ::
  "obj_tables \<Rightarrow> (nat \<Rightarrow> (nat \<Rightarrow> u8) option) \<Rightarrow> (nat \<Rightarrow> bool) \<Rightarrow> obj_state \<Rightarrow> u8 list \<Rightarrow> bool \<Rightarrow> asn1_object option" where
  "OBJ_txt2obj t heap mem st s dont_search_names =
     (let nid = (if dont_search_names then NID_undef
                 else let nid = OBJ_sn2nid t st s in if nid = NID_undef then OBJ_ln2nid t st s else nid)
      in if nid \<noteq> NID_undef then OBJ_nid2obj t st nid
         else fst (create_object_with_text_oid heap mem None s None None st))"

definition OBJ_txt2nid ::
  "obj_tables \<Rightarrow> (nat \<Rightarrow> (nat \<Rightarrow> u8) option) \<Rightarrow> (nat \<Rightarrow> bool) \<Rightarrow> obj_state \<Rightarrow> u8 list \<Rightarrow> int" where
  "OBJ_txt2nid t heap mem st s = OBJ_obj2nid t st (OBJ_txt2obj t heap mem st s False)"

definition strlcpy_int :: "u8 list \<Rightarrow> u8 list \<Rightarrow> int \<Rightarrow> (int \<times> u8 list) option" where
  "strlcpy_int dst src dst_size =
     map_option (\<lambda>(ret, dst). (if obj_INT_MAX < int ret then - 1 else int ret, dst))
       (OPENSSL_strlcpy dst src (if dst_size < 0 then 0 else nat dst_size))"

definition OBJ_obj2txt ::
  "obj_tables \<Rightarrow> (nat \<Rightarrow> (nat \<Rightarrow> u8) option) \<Rightarrow> obj_state \<Rightarrow> u8 list \<Rightarrow> int \<Rightarrow> asn1_object option \<Rightarrow> bool
     \<Rightarrow> (int \<times> u8 list) option" where
  "OBJ_obj2txt t heap st out out_len obj always_return_oid =
     (case obj of
        None \<Rightarrow> strlcpy_int out [0] out_len
      | Some obj \<Rightarrow>
          if length (obj_bytes obj) = 0 then strlcpy_int out [0] out_len
          else
            let name = (if always_return_oid then None
                        else let nid = OBJ_obj2nid t st (Some obj) in
                          if nid \<noteq> NID_undef
                          then (case OBJ_nid2ln t st nid of None \<Rightarrow> OBJ_nid2sn t st nid | Some name \<Rightarrow> Some name)
                          else None)
            in (case name of
                  Some name \<Rightarrow> strlcpy_int out name out_len
                | None \<Rightarrow>
                    (case CBS_asn1_oid_to_text heap (obj_bytes obj) of
                       None \<Rightarrow> Some (- 1, if 0 < out_len then out[0 := 0] else out)
                     | Some txt \<Rightarrow> strlcpy_int out txt out_len)))"

subsection \<open>Adding objects\<close>

definition table_or_new ::
  "bool \<Rightarrow> bool \<Rightarrow> (asn1_object \<Rightarrow> u32) \<Rightarrow> (asn1_object \<Rightarrow> asn1_object \<Rightarrow> int) \<Rightarrow> asn1_object lhash option
     \<Rightarrow> asn1_object lhash option" where
  "table_or_new m1 m2 hash cmp table = (case table of None \<Rightarrow> OPENSSL_lh_new m1 m2 hash cmp | Some lh \<Rightarrow> Some lh)"

definition add_to_table :: "bool \<Rightarrow> bool \<Rightarrow> asn1_object lhash \<Rightarrow> asn1_object \<Rightarrow> bool \<times> asn1_object lhash" where
  "add_to_table m1 m2 lh obj = (case OPENSSL_lh_insert m1 m2 lh obj of (ok, old_object, lh) \<Rightarrow> (ok, lh))"

text \<open>\<open>mem 0\<close> to \<open>mem 7\<close> are the allocations of new tables, \<open>mem 8\<close> to \<open>mem 15\<close> those of the insertions.\<close>

definition obj_add_object :: "(nat \<Rightarrow> bool) \<Rightarrow> asn1_object \<Rightarrow> obj_state \<Rightarrow> bool \<times> obj_state" where
  "obj_add_object mem obj st =
     (let obj = obj\<lparr>obj_flags := obj_flags obj AND NOT (OBJ_DYNAMIC OR OBJ_DYNAMIC_STRINGS OR OBJ_DYNAMIC_DATA)\<rparr>;
          st = st\<lparr>added_by_nid := table_or_new (mem 0) (mem 1) hash_nid cmp_nid (added_by_nid st),
                  added_by_data := table_or_new (mem 2) (mem 3) hash_data OBJ_cmp (added_by_data st),
                  added_by_short_name :=
                    table_or_new (mem 4) (mem 5) hash_short_name cmp_short_name (added_by_short_name st),
                  added_by_long_name :=
                    table_or_new (mem 6) (mem 7) hash_long_name cmp_long_name (added_by_long_name st)\<rparr>
      in case (added_by_nid st, added_by_data st, added_by_short_name st, added_by_long_name st) of
           (Some by_nid, Some by_data, Some by_sn, Some by_ln) \<Rightarrow>
             let (ok1, by_nid) = add_to_table (mem 8) (mem 9) by_nid obj;
                 (ok2, by_data) = (if length (obj_bytes obj) \<noteq> 0 \<and> obj_data obj \<noteq> None
                                   then add_to_table (mem 10) (mem 11) by_data obj else (True, by_data));
                 (ok3, by_sn) = (if obj_sn obj \<noteq> None
                                 then add_to_table (mem 12) (mem 13) by_sn obj else (True, by_sn));
                 (ok4, by_ln) = (if obj_ln obj \<noteq> None
                                 then add_to_table (mem 14) (mem 15) by_ln obj else (True, by_ln))
             in (ok1 \<and> ok2 \<and> ok3 \<and> ok4,
                 st\<lparr>added_by_nid := Some by_nid, added_by_data := Some by_data,
                    added_by_short_name := Some by_sn, added_by_long_name := Some by_ln\<rparr>)
         | _ \<Rightarrow> (False, st))"

definition OBJ_create ::
  "(nat \<Rightarrow> (nat \<Rightarrow> u8) option) \<Rightarrow> (nat \<Rightarrow> bool) \<Rightarrow> (nat \<Rightarrow> bool) \<Rightarrow> u8 list \<Rightarrow> u8 list option \<Rightarrow> u8 list option \<Rightarrow>
     obj_state \<Rightarrow> int \<times> obj_state" where
  "OBJ_create heap mem table_mem oid short_name long_name st =
     (case create_object_with_text_oid heap mem (Some obj_next_nid) oid short_name long_name st of
        (None, st) \<Rightarrow> (NID_undef, st)
      | (Some op, st) \<Rightarrow>
          (case obj_add_object table_mem op st of
             (False, st) \<Rightarrow> (NID_undef, st)
           | (True, st) \<Rightarrow> (obj_nid op, st)))"

end
