(* ===== verification/Obj_Props.thy ===== *)
theory Obj_Props
  imports Obj
begin

text \<open>
  The registry of objects, through the laws of its four hash tables: what \<^verbatim>\<open>OBJ_create\<close> adds is
  found by number, names and contents, and the built-in objects are found by every key.
\<close>

definition table_ok :: "('a \<Rightarrow> u32) \<Rightarrow> ('a \<Rightarrow> 'a \<Rightarrow> int) \<Rightarrow> 'a lhash option \<Rightarrow> bool" where
  "table_ok hash cmp table \<longleftrightarrow> (case table of None \<Rightarrow> True | Some lh \<Rightarrow> lh_ok hash cmp lh)"

definition obj_state_ok :: "obj_state \<Rightarrow> bool" where
  "obj_state_ok st \<longleftrightarrow> table_ok hash_nid cmp_nid (added_by_nid st) \<and> table_ok hash_data OBJ_cmp (added_by_data st)
     \<and> table_ok hash_short_name cmp_short_name (added_by_short_name st)
     \<and> table_ok hash_long_name cmp_long_name (added_by_long_name st)"

subsection \<open>One table\<close>

lemma table_or_new_lookup:
  assumes law: "hash_law hash cmp" and ok: "table_ok hash cmp table" and t: "table_or_new m1 m2 hash cmp table = Some lh"
  shows "lh_ok hash cmp lh \<and> OPENSSL_lh_retrieve lh k = retrieve_added table k"
proof (cases table)
  case None
  with t have "OPENSSL_lh_new True True hash cmp = Some lh"
    by (auto simp: table_or_new_def OPENSSL_lh_new_def split: if_splits)
  from hash_law.new_ok [OF law this] have n: "lh_ok hash cmp lh" "lh_elems lh = {#}" by auto
  have "OPENSSL_lh_retrieve lh k \<noteq> Some y" for y
    unfolding hash_law.retrieve_iff [OF law n(1)] n(2) by simp
  then have "OPENSSL_lh_retrieve lh k = None" by blast
  with n None show ?thesis by (simp add: retrieve_added_def)
next
  case (Some lh')
  with t ok show ?thesis by (simp add: table_or_new_def table_ok_def retrieve_added_def)
qed

lemma add_to_table_lookup:
  assumes law: "hash_law hash cmp" and ok: "table_ok hash cmp table" and t: "table_or_new m1 m2 hash cmp table = Some lh"
    and a: "add_to_table m3 m4 lh d = (r, lh')"
  shows "lh_ok hash cmp lh'"
    and "r \<Longrightarrow> OPENSSL_lh_retrieve lh' k = (if cmp d k = 0 then Some d else retrieve_added table k)"
proof -
  obtain old where i: "OPENSSL_lh_insert m3 m4 lh d = (r, old, lh')"
    using a by (auto simp: add_to_table_def split: prod.splits)
  note n = table_or_new_lookup [OF law ok t]
  show "lh_ok hash cmp lh'" using hash_law.insert_ok [OF law conjunct1 [OF n] i] by blast
  show "r \<Longrightarrow> OPENSSL_lh_retrieve lh' k = (if cmp d k = 0 then Some d else retrieve_added table k)"
    using hash_law.lookup_insert [OF law conjunct1 [OF n] i, of k] n by simp
qed

subsection \<open>Strings and objects\<close>

lemma c_str_dup: "c_str (take (c_strlen s + 1) s) = c_str s"
proof -
  have "takeWhile P (take (length (takeWhile P s) + 1) s) = takeWhile P s" for P :: "u8 \<Rightarrow> bool"
    by (induction s) auto
  then show ?thesis by (simp add: c_str_def c_strlen_def)
qed

lemma obj_template_simps [simp]:
  "obj_sn obj_template = None" "obj_ln obj_template = None" "obj_nid obj_template = 0" "obj_data obj_template = None"
  by (simp_all add: obj_template_def)

lemma OBJ_dup_eq:
  assumes "OBJ_dup mem (Some obj) = Some r" "obj_flags obj AND OBJ_DYNAMIC \<noteq> 0"
  shows "obj_nid r = obj_nid obj" "obj_bytes r = obj_bytes obj"
    "obj_sn r = map_option (\<lambda>s. take (c_strlen s + 1) s) (obj_sn obj)"
    "obj_ln r = map_option (\<lambda>s. take (c_strlen s + 1) s) (obj_ln obj)"
  using assms by (auto simp: OBJ_dup_def ASN1_OBJECT_new_def OPENSSL_memdup_def OPENSSL_strdup_def Let_def obj_bytes_def
    split: option.splits if_splits)

lemma create_eq:
  assumes "ASN1_OBJECT_create mem nid data sn ln = Some r"
  shows "int (length data) \<le> obj_INT_MAX" "obj_nid r = nid" "obj_bytes r = data"
    "obj_sn r = map_option (\<lambda>s. take (c_strlen s + 1) s) sn"
    "obj_ln r = map_option (\<lambda>s. take (c_strlen s + 1) s) ln"
proof -
  let ?obj = "\<lparr>obj_sn = sn, obj_ln = ln, obj_nid = nid, obj_data = Some data,
    obj_flags = OBJ_DYNAMIC OR OBJ_DYNAMIC_STRINGS OR OBJ_DYNAMIC_DATA\<rparr>"
  have "int (length data) \<le> obj_INT_MAX" "OBJ_dup mem (Some ?obj) = Some r"
    using assms by (auto simp: ASN1_OBJECT_create_def split: if_splits)
  moreover have "obj_flags ?obj AND OBJ_DYNAMIC \<noteq> 0"
    by (simp add: OBJ_DYNAMIC_def OBJ_DYNAMIC_STRINGS_def OBJ_DYNAMIC_DATA_def)
  ultimately show "int (length data) \<le> obj_INT_MAX" "obj_nid r = nid" "obj_bytes r = data"
    "obj_sn r = map_option (\<lambda>s. take (c_strlen s + 1) s) sn"
    "obj_ln r = map_option (\<lambda>s. take (c_strlen s + 1) s) ln"
    using OBJ_dup_eq [of mem ?obj r] by (simp_all add: obj_bytes_def)
qed

text \<open>The contents octets of the dotted text \<open>oid\<close>.\<close>

definition oid_contents :: "(nat \<Rightarrow> (nat \<Rightarrow> u8) option) \<Rightarrow> u8 list \<Rightarrow> u8 list option" where
  "oid_contents heap oid =
     (case CBB_init heap 32 of
        None \<Rightarrow> None
      | Some cbb \<Rightarrow> fst (attempt (CBB_add_asn1_oid_from_text 0 (c_str oid) cbb) (\<lambda>_ cbb. CBB_finish 0 cbb)))"

lemma create_object_eq:
  "create_object_with_text_oid heap mem get_nid oid sn ln st =
     (case oid_contents heap oid of
        None \<Rightarrow> (None, st)
      | Some buf \<Rightarrow>
          let (nid, st) = (case get_nid of None \<Rightarrow> (NID_undef, st) | Some get_nid \<Rightarrow> get_nid st)
          in (ASN1_OBJECT_create mem nid buf sn ln, st))"
  by (simp add: create_object_with_text_oid_def oid_contents_def split: option.split)

subsection \<open>Adding an object\<close>

lemma obj_add_object_lookup:
  assumes ok: "obj_state_ok st" and a: "obj_add_object mem obj st = (True, st')"
  obtains reg where "reg = obj\<lparr>obj_flags := obj_flags reg\<rparr>" "obj_state_ok st'"
    "\<And>k. retrieve_added (added_by_nid st') k = (if cmp_nid reg k = 0 then Some reg else retrieve_added (added_by_nid st) k)"
    "\<And>k. retrieve_added (added_by_data st') k =
       (if obj_bytes obj \<noteq> [] \<and> OBJ_cmp reg k = 0 then Some reg else retrieve_added (added_by_data st) k)"
    "\<And>k. retrieve_added (added_by_short_name st') k =
       (if obj_sn obj \<noteq> None \<and> cmp_short_name reg k = 0 then Some reg else retrieve_added (added_by_short_name st) k)"
    "\<And>k. retrieve_added (added_by_long_name st') k =
       (if obj_ln obj \<noteq> None \<and> cmp_long_name reg k = 0 then Some reg else retrieve_added (added_by_long_name st) k)"
proof -
  define reg where "reg = obj\<lparr>obj_flags := obj_flags obj AND NOT (OBJ_DYNAMIC OR OBJ_DYNAMIC_STRINGS OR OBJ_DYNAMIC_DATA)\<rparr>"
  have same: "obj_bytes reg = obj_bytes obj" "obj_data reg = obj_data obj" "obj_sn reg = obj_sn obj" "obj_ln reg = obj_ln obj"
    by (simp_all add: reg_def obj_bytes_def)
  have d: "length (obj_bytes obj) \<noteq> 0 \<and> obj_data obj \<noteq> None \<longleftrightarrow> obj_bytes obj \<noteq> []"
    by (cases "obj_data obj") (auto simp: obj_bytes_def)
  obtain n1 n2 n3 n4 where n:
    "table_or_new (mem 0) (mem 1) hash_nid cmp_nid (added_by_nid st) = Some n1"
    "table_or_new (mem 2) (mem 3) hash_data OBJ_cmp (added_by_data st) = Some n2"
    "table_or_new (mem 4) (mem 5) hash_short_name cmp_short_name (added_by_short_name st) = Some n3"
    "table_or_new (mem 6) (mem 7) hash_long_name cmp_long_name (added_by_long_name st) = Some n4"
    using a by (auto simp: obj_add_object_def Let_def split: option.splits)
  obtain ok1 t1 where t1: "add_to_table (mem 8) (mem 9) n1 reg = (ok1, t1)" by force
  obtain ok2 t2 where t2: "(if obj_bytes obj \<noteq> [] then add_to_table (mem 10) (mem 11) n2 reg else (True, n2)) = (ok2, t2)"
    by force
  obtain ok3 t3 where t3: "(if obj_sn obj \<noteq> None then add_to_table (mem 12) (mem 13) n3 reg else (True, n3)) = (ok3, t3)"
    by force
  obtain ok4 t4 where t4: "(if obj_ln obj \<noteq> None then add_to_table (mem 14) (mem 15) n4 reg else (True, n4)) = (ok4, t4)"
    by force
  have "obj_add_object mem obj st = (ok1 \<and> ok2 \<and> ok3 \<and> ok4, st\<lparr>added_by_nid := Some t1, added_by_data := Some t2,
      added_by_short_name := Some t3, added_by_long_name := Some t4\<rparr>)"
    unfolding obj_add_object_def Let_def reg_def [symmetric] same d
    by (simp add: n [simplified] t1 [simplified] t2 [simplified] t3 [simplified] t4 [simplified])
  with a have st': "st' = st\<lparr>added_by_nid := Some t1, added_by_data := Some t2, added_by_short_name := Some t3,
      added_by_long_name := Some t4\<rparr>"
    and t: "add_to_table (mem 8) (mem 9) n1 reg = (True, t1)"
    "(if obj_bytes obj \<noteq> [] then add_to_table (mem 10) (mem 11) n2 reg else (True, n2)) = (True, t2)"
    "(if obj_sn obj \<noteq> None then add_to_table (mem 12) (mem 13) n3 reg else (True, n3)) = (True, t3)"
    "(if obj_ln obj \<noteq> None then add_to_table (mem 14) (mem 15) n4 reg else (True, n4)) = (True, t4)"
    using t1 t2 t3 t4 by auto
  have o: "table_ok hash_nid cmp_nid (added_by_nid st)" "table_ok hash_data OBJ_cmp (added_by_data st)"
    "table_ok hash_short_name cmp_short_name (added_by_short_name st)" "table_ok hash_long_name cmp_long_name (added_by_long_name st)"
    using ok by (auto simp: obj_state_ok_def)
  note l1 = add_to_table_lookup [OF by_nid.hash_law_axioms o(1) n(1) t(1)]
  have l2: "lh_ok hash_data OBJ_cmp t2 \<and> OPENSSL_lh_retrieve t2 k =
      (if obj_bytes obj \<noteq> [] \<and> OBJ_cmp reg k = 0 then Some reg else retrieve_added (added_by_data st) k)" for k
    using add_to_table_lookup [OF by_data.hash_law_axioms o(2) n(2), of "mem 10" "mem 11" reg] t(2)
      table_or_new_lookup [OF by_data.hash_law_axioms o(2) n(2)] by (auto split: if_splits)
  have l3: "lh_ok hash_short_name cmp_short_name t3 \<and> OPENSSL_lh_retrieve t3 k =
      (if obj_sn obj \<noteq> None \<and> cmp_short_name reg k = 0 then Some reg else retrieve_added (added_by_short_name st) k)" for k
    using add_to_table_lookup [OF by_short_name.hash_law_axioms o(3) n(3), of "mem 12" "mem 13" reg] t(3)
      table_or_new_lookup [OF by_short_name.hash_law_axioms o(3) n(3)] by (auto split: if_splits)
  have l4: "lh_ok hash_long_name cmp_long_name t4 \<and> OPENSSL_lh_retrieve t4 k =
      (if obj_ln obj \<noteq> None \<and> cmp_long_name reg k = 0 then Some reg else retrieve_added (added_by_long_name st) k)" for k
    using add_to_table_lookup [OF by_long_name.hash_law_axioms o(4) n(4), of "mem 14" "mem 15" reg] t(4)
      table_or_new_lookup [OF by_long_name.hash_law_axioms o(4) n(4)] by (auto split: if_splits)
  show thesis
  proof (rule that)
    show "reg = obj\<lparr>obj_flags := obj_flags reg\<rparr>" by (simp add: reg_def)
    show "obj_state_ok st'" using l1(1) l2 l3 l4 by (simp add: obj_state_ok_def table_ok_def st')
  qed (use l1 l2 l3 l4 in \<open>simp_all add: retrieve_added_def st'\<close>)
qed

lemma add_to_table_succeeds:
  assumes law: "hash_law hash cmp" and ok: "table_ok hash cmp table"
  obtains lh lh' where "table_or_new True True hash cmp table = Some lh" "add_to_table True True lh d = (True, lh')"
proof -
  obtain lh where t: "table_or_new True True hash cmp table = Some lh"
    by (cases table) (auto simp: table_or_new_def OPENSSL_lh_new_def)
  obtain r old lh' where i: "OPENSSL_lh_insert True True lh d = (r, old, lh')" by (metis prod.collapse)
  have "r" using hash_law.insert_ok [OF law _ i] table_or_new_lookup [OF law ok t] by blast
  then show thesis using t i by (intro that [of lh lh']) (simp_all add: add_to_table_def)
qed

lemma obj_add_object_succeeds:
  assumes "obj_state_ok st"
  shows "fst (obj_add_object (\<lambda>_. True) obj st)"
proof -
  define reg where "reg = obj\<lparr>obj_flags := obj_flags obj AND NOT (OBJ_DYNAMIC OR OBJ_DYNAMIC_STRINGS OR OBJ_DYNAMIC_DATA)\<rparr>"
  have o: "table_ok hash_nid cmp_nid (added_by_nid st)" "table_ok hash_data OBJ_cmp (added_by_data st)"
    "table_ok hash_short_name cmp_short_name (added_by_short_name st)" "table_ok hash_long_name cmp_long_name (added_by_long_name st)"
    using assms by (auto simp: obj_state_ok_def)
  obtain n1 t1 where 1: "table_or_new True True hash_nid cmp_nid (added_by_nid st) = Some n1" "add_to_table True True n1 reg = (True, t1)"
    by (rule add_to_table_succeeds [OF by_nid.hash_law_axioms o(1)])
  obtain n2 t2 where 2: "table_or_new True True hash_data OBJ_cmp (added_by_data st) = Some n2" "add_to_table True True n2 reg = (True, t2)"
    by (rule add_to_table_succeeds [OF by_data.hash_law_axioms o(2)])
  obtain n3 t3 where 3: "table_or_new True True hash_short_name cmp_short_name (added_by_short_name st) = Some n3"
    "add_to_table True True n3 reg = (True, t3)"
    by (rule add_to_table_succeeds [OF by_short_name.hash_law_axioms o(3)])
  obtain n4 t4 where 4: "table_or_new True True hash_long_name cmp_long_name (added_by_long_name st) = Some n4"
    "add_to_table True True n4 reg = (True, t4)"
    by (rule add_to_table_succeeds [OF by_long_name.hash_law_axioms o(4)])
  show ?thesis unfolding obj_add_object_def Let_def reg_def [symmetric] by (simp add: 1 2 3 4)
qed

lemma OBJ_create_result:
  assumes "OBJ_create heap mem table_mem oid sn ln st = (nid, st')" "nid \<noteq> NID_undef"
  obtains op where "oid_contents heap oid = Some (obj_bytes op)" "nid = sint (next_nid st)" "obj_nid op = nid"
    "int (length (obj_bytes op)) \<le> obj_INT_MAX"
    "obj_sn op = map_option (\<lambda>s. take (c_strlen s + 1) s) sn" "obj_ln op = map_option (\<lambda>s. take (c_strlen s + 1) s) ln"
    "obj_add_object table_mem op (st\<lparr>next_nid := next_nid st + 1\<rparr>) = (True, st')"
proof -
  obtain r st1 where e: "create_object_with_text_oid heap mem (Some obj_next_nid) oid sn ln st = (r, st1)" by force
  obtain op where r: "r = Some op" using assms e by (cases r) (simp_all add: OBJ_create_def)
  obtain ok st2 where o: "obj_add_object table_mem op st1 = (ok, st2)" by force
  have "ok" using assms e r o by (cases ok) (simp_all add: OBJ_create_def)
  with assms(1) e r o have a: "obj_add_object table_mem op st1 = (True, st')" "nid = obj_nid op"
    by (simp_all add: OBJ_create_def)
  obtain buf where b: "oid_contents heap oid = Some buf"
    using e r by (cases "oid_contents heap oid") (simp_all add: create_object_eq)
  then have c: "ASN1_OBJECT_create mem (sint (next_nid st)) buf sn ln = Some op" and s: "st1 = st\<lparr>next_nid := next_nid st + 1\<rparr>"
    using e r by (simp_all add: create_object_eq obj_next_nid_def)
  show thesis using create_eq [OF c] a b s by (intro that [of op]) simp_all
qed

subsection \<open>Properties\<close>

text \<open>
  C37: when \<^verbatim>\<open>OBJ_create\<close> succeeds, the object is registered under its new number: \<^verbatim>\<open>OBJ_nid2obj\<close> gives an
  object with the contents of the dotted text and the two names, and the short name, the long name
  and the contents are mapped back to the number, whatever was registered before; other names
  keep their numbers.
\<close>
theorem obj_create_lookup:
  assumes ok: "obj_state_ok st" and c: "OBJ_create heap mem table_mem oid sn ln st = (nid, st')" and nid: "NUM_NID \<le> nid"
  shows "obj_state_ok st'
    \<and> (\<exists>obj. OBJ_nid2obj t st' nid = Some obj \<and> obj_nid obj = nid \<and> oid_contents heap oid = Some (obj_bytes obj)
        \<and> map_option c_str (obj_sn obj) = map_option c_str sn \<and> map_option c_str (obj_ln obj) = map_option c_str ln
        \<and> (obj_bytes obj \<noteq> [] \<longrightarrow> OBJ_cbs2nid t st' (obj_bytes obj) = nid))
    \<and> OBJ_sn2nid t st' name = (if map_option c_str sn = Some (c_str name) then nid else OBJ_sn2nid t st name)
    \<and> OBJ_ln2nid t st' name = (if map_option c_str ln = Some (c_str name) then nid else OBJ_ln2nid t st name)"
proof -
  have n0: "nid \<noteq> NID_undef" "\<not> nid < NUM_NID" using nid by (simp_all add: NUM_NID_def NID_undef_def)
  obtain op where op: "oid_contents heap oid = Some (obj_bytes op)" "nid = sint (next_nid st)" "obj_nid op = nid"
    "int (length (obj_bytes op)) \<le> obj_INT_MAX"
    "obj_sn op = map_option (\<lambda>s. take (c_strlen s + 1) s) sn" "obj_ln op = map_option (\<lambda>s. take (c_strlen s + 1) s) ln"
    and a: "obj_add_object table_mem op (st\<lparr>next_nid := next_nid st + 1\<rparr>) = (True, st')"
    by (rule OBJ_create_result [OF c n0(1)])
  define st1 where "st1 = st\<lparr>next_nid := next_nid st + 1\<rparr>"
  have same: "added_by_nid st1 = added_by_nid st" "added_by_data st1 = added_by_data st"
    "added_by_short_name st1 = added_by_short_name st" "added_by_long_name st1 = added_by_long_name st"
    by (simp_all add: st1_def)
  then have "obj_state_ok st1" using ok by (simp add: obj_state_ok_def)
  from obj_add_object_lookup [OF this a [folded st1_def], unfolded same] obtain reg where r: "reg = op\<lparr>obj_flags := obj_flags reg\<rparr>" and st': "obj_state_ok st'"
    and l: "\<And>k. retrieve_added (added_by_nid st') k = (if cmp_nid reg k = 0 then Some reg else retrieve_added (added_by_nid st) k)"
    "\<And>k. retrieve_added (added_by_data st') k =
       (if obj_bytes op \<noteq> [] \<and> OBJ_cmp reg k = 0 then Some reg else retrieve_added (added_by_data st) k)"
    "\<And>k. retrieve_added (added_by_short_name st') k =
       (if obj_sn op \<noteq> None \<and> cmp_short_name reg k = 0 then Some reg else retrieve_added (added_by_short_name st) k)"
    "\<And>k. retrieve_added (added_by_long_name st') k =
       (if obj_ln op \<noteq> None \<and> cmp_long_name reg k = 0 then Some reg else retrieve_added (added_by_long_name st) k)"
    by blast
  have reg: "obj_nid reg = nid" "obj_bytes reg = obj_bytes op" "obj_sn reg = obj_sn op" "obj_ln reg = obj_ln op"
    using op(3) by (subst r, simp add: obj_bytes_def)+
  have key: "obj_bytes (obj_template\<lparr>obj_data := Some bs\<rparr>) = bs" for bs by (simp add: obj_bytes_def)
  have dup: "map_option c_str (map_option (\<lambda>s. take (c_strlen s + 1) s) x) = map_option c_str x" for x
    by (cases x) (simp_all add: c_str_dup [simplified])
  have "OBJ_nid2obj t st' nid = Some reg" using n0 l(1) reg(1) by (simp add: OBJ_nid2obj_def cmp_nid_def)
  moreover have "obj_bytes reg \<noteq> [] \<longrightarrow> OBJ_cbs2nid t st' (obj_bytes reg) = nid"
    using op(4) l(2) reg(1,2) by (simp add: OBJ_cbs2nid_def OBJ_obj2nid_def OBJ_cmp_eq_0 key)
  moreover have "map_option c_str (obj_sn reg) = map_option c_str sn" "map_option c_str (obj_ln reg) = map_option c_str ln"
    by (simp_all only: reg(3,4) op(5,6) dup)
  moreover have "OBJ_sn2nid t st' name = (if map_option c_str sn = Some (c_str name) then nid else OBJ_sn2nid t st name)"
    using l(3) [of "obj_template\<lparr>obj_sn := Some name\<rparr>"] reg(1,3) op(5)
    by (cases sn) (simp_all add: c_str_dup [simplified] OBJ_sn2nid_def cmp_short_name_def c_strcmp_eq_0 name_of_def)
  moreover have "OBJ_ln2nid t st' name = (if map_option c_str ln = Some (c_str name) then nid else OBJ_ln2nid t st name)"
    using l(4) [of "obj_template\<lparr>obj_ln := Some name\<rparr>"] reg(1,4) op(6)
    by (cases ln) (simp_all add: c_str_dup [simplified] OBJ_ln2nid_def cmp_long_name_def c_strcmp_eq_0 name_of_def)
  ultimately show ?thesis using st' reg(1,2) op(1) by auto
qed

text \<open>\<^verbatim>\<open>1.2.840\<close> with the short name \<^verbatim>\<open>A\<close> becomes object 965.\<close>

definition obj_state0 :: obj_state where
  "obj_state0 = \<lparr>added_by_data = None, added_by_nid = None, added_by_short_name = None, added_by_long_name = None, next_nid = 965\<rparr>"

definition oid_1_2_840 :: "u8 list" where
  "oid_1_2_840 = [0x31, 0x2E, 0x32, 0x2E, 0x38, 0x34, 0x30, 0]"

lemma obj_state0_ok: "obj_state_ok obj_state0"
  by (simp add: obj_state_ok_def table_ok_def obj_state0_def)

lemma oid_contents_example: "oid_contents (\<lambda>_. Some (\<lambda>_. 0)) oid_1_2_840 = Some [0x2A, 0x86, 0x48]"
  by code_simp

lemma obj_create_example:
  "fst (OBJ_create (\<lambda>_. Some (\<lambda>_. 0)) (\<lambda>_. True) (\<lambda>_. True) oid_1_2_840 (Some [0x41, 0]) None obj_state0) = 965"
proof -
  let ?st = "obj_state0\<lparr>next_nid := 966\<rparr>"
  obtain op where op: "ASN1_OBJECT_create (\<lambda>_. True) 965 [0x2A, 0x86, 0x48] (Some [0x41, 0]) None = Some op"
    by (simp add: ASN1_OBJECT_create_def obj_INT_MAX_def OBJ_dup_def ASN1_OBJECT_new_def OPENSSL_memdup_def
      OPENSSL_strdup_def OBJ_DYNAMIC_def OBJ_DYNAMIC_STRINGS_def OBJ_DYNAMIC_DATA_def obj_bytes_def)
  have "obj_state_ok ?st" using obj_state0_ok by (simp add: obj_state_ok_def)
  from obj_add_object_succeeds [OF this, of op] obtain st' where "obj_add_object (\<lambda>_. True) op ?st = (True, st')"
    by (metis prod.collapse)
  then show ?thesis using op create_eq(2) [OF op]
    by (simp add: OBJ_create_def create_object_eq oid_contents_example obj_next_nid_def obj_state0_def)
qed

theorem obj_create_lookup_witness:
  "\<forall>t. OBJ_sn2nid t (snd (OBJ_create (\<lambda>_. Some (\<lambda>_. 0)) (\<lambda>_. True) (\<lambda>_. True) oid_1_2_840 (Some [0x41, 0]) None obj_state0))
     [0x41, 0, 7] = 965"
proof
  fix t
  let ?r = "OBJ_create (\<lambda>_. Some (\<lambda>_. 0)) (\<lambda>_. True) (\<lambda>_. True) oid_1_2_840 (Some [0x41, 0]) None obj_state0"
  have "?r = (965, snd ?r)" using obj_create_example by (metis prod.collapse)
  from obj_create_lookup [OF obj_state0_ok this, where t = t and name = "[0x41, 0, 7]"]
  show "OBJ_sn2nid t (snd ?r) [0x41, 0, 7] = 965"
    by (simp add: NUM_NID_def c_str_def)
qed







end
