(* ===== verification/Spec2Isabelle.thy ===== *)
theory Spec2Isabelle
  imports Bn_Props Pb_Roundtrip Pb_Props Bytes_Props Const_Time Unicode Base64_Stream Cbs_Time Stack_Props Obj_Props
begin

text \<open>
  Verification of the C code of the chat application.

  The application itself is a Flutter program (Dart under lib/); its C code is what the iOS build
  compiles under ios/Pods: nanopb, the protocol-buffer library Firestore and the logging transport
  store and send their messages with, BoringSSL, the cryptography and ASN.1 library below gRPC, and
  the C core of gRPC.  The development models nanopb, the data layer of BoringSSL (byte strings,
  DER, text encodings, time, containers, object identifiers), the parts that decide how untrusted
  bytes become values and values become bytes, and its arithmetic on big numbers.

  Conventions.  Machine integers are words of their C width (LP64); lengths and indices
  that are lists in the model are \<open>nat\<close>.  A C function that returns a status and updates its argument
  is a function into \<open>outcome\<close> (Prelude): \<open>None\<close> is the failure, and the state of the argument is
  kept in both cases, because the code may leave it advanced.  \<open>attempt\<close> is the early return.
  Whether an allocation succeeds is an argument.  A ghost flag or \<open>None\<close> stands for an access
  outside the caller's memory, and the theorems show that it does not occur.

  Theories and the code they model.

  \<^item> Prelude: C integers, C division, byte orders, bit operations as arithmetic.  Codec: the
    interface of an encoder and a decoder (locales \<open>prefix_codec\<close> and \<open>canonical_codec\<close>),
    interpreted by every wire format below.  Order: comparison functions as a locale.
  \<^item> Pb_Stream, Pb_Prim: nanopb's streams and wire format (pb_decode.c, pb_encode.c).  Pb_Wire: the
    contracts of encoders (\<open>emits\<close>) and readers (\<open>reads\<close>, views of a buffer).
  \<^item> Pb_Mem: the memory a message is decoded into and encoded from, as the code addresses it (bytes,
    counters, pointers at offsets a field descriptor gives); a step whose result C leaves undefined
    is \<open>None\<close>.  Pb_Field (pb.h, pb_common.c): field types, descriptors and the field iterator.
    Pb_Decode (pb_decode.c), Pb_Encode (pb_encode.c): the descriptor-driven decoder and encoder, with
    every allocation type (static, pointer, callback) and extensions; callbacks and the allocator are
    arguments; the fuel is the nesting depth of submessages the recursion may use.
  \<^item> Pb_Layout, Pb_Static: which descriptors and memories the theorems are about (static fields, with
    submessages, oneofs and arrays).  Pb_Safe, Pb_Decode_Safe, Pb_Safe_Decoder: the decoder keeps
    memory well typed on any input (locale \<open>safe_decoder\<close>, interpreted on \<open>pb_decode_noinit\<close>).
  \<^item> Pb_Image, Pb_Encode_Image: the bytes a message stands for, and that the encoder writes them
    (locale \<open>image_encoder\<close>).  Pb_Locality, Pb_Initial: what encoding reads, what initialisation sets.
    Pb_Item_Decode, Pb_Decode_Image, Pb_Decoded, Pb_Round, Pb_Image_Decoder, Pb_Array_Decoder,
    Pb_Message_Decoder: the decoder rebuilds the message from its image, field by field (locale
    \<open>image_decoder\<close>, interpreted at every depth).
  \<^item> Pb_Props, Pb_Message_Props, Pb_Encode_Props, Pb_Roundtrip: the properties of nanopb.
  \<^item> Cbs (crypto/bytestring/cbs.c), Cbb (crypto/bytestring/cbb.c): BoringSSL's byte-string reader
    and builder.  Cbb_Contract: what a builder call promises through open children; Der, Der_Values:
    DER elements and values; Oid_Set: object identifiers as text, SET OF; Bytes_Props: properties.
  \<^item> Const_Time (crypto/internal.h, crypto/mem.c): branch-free comparisons and memory functions.
  \<^item> Unicode (crypto/bytestring/unicode.c); Base64, Base64_Stream (crypto/base64/base64.c).
  \<^item> Posix_Time (crypto/asn1/posix_time.c); Cbs_Time: the time readers of cbs.c.
  \<^item> Heap_Sort, Stack, Stack_Props (crypto/stack/stack.c): the pointer stack with its heapsort and
    searches, generic in the comparator; the reachable states are an inductive set.
  \<^item> Lhash, Lhash_Props (crypto/lhash/lhash.c): the hash table; the locale \<open>hash_law\<close> is the contract
    of the hash and comparison functions.
  \<^item> Strings (crypto/mem.c); Obj, Obj_Props (crypto/obj/obj.c, crypto/asn1/a_object.c): the object
    registry, which interprets \<open>hash_law\<close> four times on its own hash functions.

  \<^item> Bn_Words, Bn_Limbs, Bn_Modular, Bn_Bytes (crypto/fipsmodule/bn/generic.c and the functions on arrays
    of words of mul.c, cmp.c, shift.c, div.c, bytes.c): words with carries (locale \<open>limb_step\<close>, interpreted
    on addition, subtraction and multiplication), comparison, reduction, byte order.  The code is the C
    of a 64-bit build without assembly (OPENSSL_NO_ASM is set), with 128-bit products.
  \<^item> Bn, Bn_Value (bn.c): a big number is a record of its array, width and sign; \<open>bn_int\<close> is the integer it
    stands for.  Bn_Compare (cmp.c), Bn_Arith, Bn_Word_Arith (add.c), Bn_Shift, Bn_Bits (shift.c), Bn_Bin
    (bytes.c, bn_extra/convert.c): the operations, and what they do to the integers.
  \<^item> Bn_Comba, Bn_Mul, Bn_Karatsuba (generic.c, mul.c): the unrolled, the schoolbook and the recursive
    products and squares of arrays.  Bn_Ctx (ctx.c): the pool of scratch numbers with its frames.
    Bn_Mult: the products of numbers, which use them all.  Bn_Props: the properties.

  Bounds and termination.  Loops over bytes are recursive functions with a measure (bytes left, a
  distance of indices).  Iteration over the hash table with a callback that changes it
  may not end and is a partial function into \<open>option\<close>; its termination is a theorem.  The fuel of
  the message decoder and encoder is enough when it is not below the depth of the message type; the
  theorems that a call returns state it.

  Not modelled: the memory allocator, locks and reference counts; generated tables (they are
  arguments); the template interpreter of ASN.1 and X.509, ciphers, digests, curves and TLS; division,
  Montgomery arithmetic, exponentiation and primes of big numbers; upb and the C++ of gRPC, Firestore, leveldb and abseil; the Objective-C, Swift, Dart and
  JavaScript code.
\<close>

end
